(* ===== verification/Prelude.thy ===== *)
theory Prelude
  imports Main "HOL-Library.Word" "HOL-Library.Monad_Syntax"
begin

text \<open>
  What the other theories share: the machine types of \<^verbatim>\<open>libs/defs.h\<close>, the error
  codes of \<^verbatim>\<open>libs/error.h\<close>, the flags of \<^verbatim>\<open>libs/unistd.h\<close>, the rounding macros,
  and a few generic lemmas on lists and functions. A kernel panic (\<^verbatim>\<open>panic\<close>, a
  failed \<^verbatim>\<open>assert\<close>) and a \<^verbatim>\<open>down\<close> that would block its only caller for ever
  are the value \<^term>\<open>None\<close> of an option; an operation that returns is
  \<open>Some (result, new state)\<close>.
\<close>

unbundle bit_operations_syntax

named_theorems model_defs \<open>definitions unfolded by most proofs of a component\<close>
named_theorems layout \<open>constants of the source\<close>

section \<open>Types of \<^verbatim>\<open>libs/defs.h\<close>\<close>

type_synonym u8 = "8 word"
type_synonym u16 = "16 word"
type_synonym u32 = "32 word"
type_synonym u64 = "64 word"
type_synonym addr = nat
type_synonym mem = "nat \<Rightarrow> u8"

section \<open>Error codes of \<^verbatim>\<open>libs/error.h\<close>\<close>

definition E_BAD_PROC :: int where [layout]: "E_BAD_PROC = 2"
definition E_INVAL :: int where [layout]: "E_INVAL = 3"
definition E_NO_MEM :: int where [layout]: "E_NO_MEM = 4"
definition E_TOO_BIG :: int where [layout]: "E_TOO_BIG = 12"
definition E_NO_DEV :: int where [layout]: "E_NO_DEV = 13"
definition E_NA_DEV :: int where [layout]: "E_NA_DEV = 14"
definition E_BUSY :: int where [layout]: "E_BUSY = 15"
definition E_NOENT :: int where [layout]: "E_NOENT = 16"
definition E_ISDIR :: int where [layout]: "E_ISDIR = 17"
definition E_NOTDIR :: int where [layout]: "E_NOTDIR = 18"
definition E_UNIMP :: int where [layout]: "E_UNIMP = 20"
definition E_MAX_OPEN :: int where [layout]: "E_MAX_OPEN = 22"
definition E_EXISTS :: int where [layout]: "E_EXISTS = 23"

section \<open>Page size and rounding\<close>

abbreviation PGSIZE :: nat where "PGSIZE \<equiv> 4096"

definition ROUNDDOWN :: "nat \<Rightarrow> nat \<Rightarrow> nat" where
  "ROUNDDOWN a n = a - a mod n"

definition ROUNDUP :: "nat \<Rightarrow> nat \<Rightarrow> nat" where
  "ROUNDUP a n = ROUNDDOWN (a + n - 1) n"

definition ROUNDUP_DIV :: "nat \<Rightarrow> nat \<Rightarrow> nat" where
  "ROUNDUP_DIV a n = (a + n - 1) div n"

lemma ROUNDDOWN_le [simp]: "ROUNDDOWN a n \<le> a"
  by (simp add: ROUNDDOWN_def)

lemma ROUNDDOWN_dvd: "n dvd ROUNDDOWN a n"
  by (simp add: ROUNDDOWN_def minus_mod_eq_mult_div)

lemma ROUNDUP_ge: "0 < n \<Longrightarrow> a \<le> ROUNDUP a n"
proof -
  assume n: "0 < n"
  have "(a + n - 1) mod n \<le> n - 1" using n by (simp add: less_Suc_eq_le [symmetric])
  then show ?thesis unfolding ROUNDUP_def ROUNDDOWN_def using n by linarith
qed

lemma ROUNDUP_dvd: "n dvd ROUNDUP a n"
  by (simp add: ROUNDUP_def ROUNDDOWN_dvd)

lemma ROUNDUP_DIV_mult:
  assumes "0 < n"
  shows "ROUNDUP_DIV (k * n) n = k"
proof -
  have "k * n + n - 1 = (n - 1) + n * k" using assms by (simp add: mult.commute)
  then have "ROUNDUP_DIV (k * n) n = ((n - 1) + n * k) div n"
    by (simp only: ROUNDUP_DIV_def)
  also have "\<dots> = k" using assms by (subst div_mult_self2) auto
  finally show ?thesis .
qed

section \<open>Assertions\<close>

text \<open>\<^verbatim>\<open>assert(b)\<close> of \<^verbatim>\<open>kern/debug/assert.h\<close>: the kernel panics when the condition is
  false.\<close>

definition ensure :: "bool \<Rightarrow> unit option" where
  "ensure b = (if b then Some () else None)"

lemma ensure_True [simp]: "ensure True = Some ()"
  and ensure_False [simp]: "ensure False = None"
  by (simp_all add: ensure_def)

lemma ensure_eq_Some [simp]: "ensure b = Some u \<longleftrightarrow> b"
  by (simp add: ensure_def)

lemma bind_ensure_Some [simp]:
  "(Option.bind (ensure b) f = Some r) \<longleftrightarrow> b \<and> f () = Some r"
  by (cases b) simp_all

section \<open>Generic lemmas\<close>

lemma bind_Some_E:
  assumes "Option.bind m f = Some r"
  obtains x where "m = Some x" and "f x = Some r"
  using assms by (cases m) auto

lemma sorted_wrt_append_cons:
  "sorted_wrt R (xs @ y # ys) \<longleftrightarrow>
    sorted_wrt R (xs @ ys) \<and> (\<forall>x\<in>set xs. R x y) \<and> (\<forall>z\<in>set ys. R y z)"
  by (auto simp: sorted_wrt_append)

lemma takeWhile_dropWhile_split:
  "xs = takeWhile P xs @ dropWhile P xs"
  by simp

end
