(* ===== verification/DList.thy ===== *)
theory DList
  imports Prelude
begin

text \<open>
  The circular doubly linked list of \<^verbatim>\<open>libs/list.h\<close>. Every entry is an address; the store
  \<open>links\<close> holds the two pointers of every entry, so that the aliasing of \<^verbatim>\<open>prev\<close>, \<^verbatim>\<open>next\<close> and
  the new element is the one of the code. \<open>clist l h xs\<close> says that the head \<open>h\<close> starts a
  well-formed ring whose other entries are \<open>xs\<close> in order; the operations are proved to act
  on \<open>xs\<close> as list insertion and deletion. The locale \<open>ring\<close> is the interface the queues of
  the kernel rely on (run queue, wait queues, free lists), and the pointer code is its
  instance.
\<close>

section \<open>The store and the operations of \<^verbatim>\<open>list.h\<close>\<close>

record links =
  nxt :: "addr \<Rightarrow> addr"
  prv :: "addr \<Rightarrow> addr"

definition list_init :: "addr \<Rightarrow> links \<Rightarrow> links" where
  "list_init elm l = l\<lparr>nxt := (nxt l)(elm := elm), prv := (prv l)(elm := elm)\<rparr>"

definition list_insert_between :: "addr \<Rightarrow> addr \<Rightarrow> addr \<Rightarrow> links \<Rightarrow> links" where
  "list_insert_between elm pre succ l =
     (let l1 = l\<lparr>prv := (prv l)(succ := elm)\<rparr>;
          l2 = l1\<lparr>nxt := (nxt l1)(pre := elm)\<rparr>;
          l3 = l2\<lparr>nxt := (nxt l2)(elm := succ)\<rparr>
      in l3\<lparr>prv := (prv l3)(elm := pre)\<rparr>)"

definition list_unlink :: "addr \<Rightarrow> addr \<Rightarrow> links \<Rightarrow> links" where
  "list_unlink pre succ l =
     (let l1 = l\<lparr>nxt := (nxt l)(pre := succ)\<rparr>
      in l1\<lparr>prv := (prv l1)(succ := pre)\<rparr>)"

definition list_add_after :: "addr \<Rightarrow> addr \<Rightarrow> links \<Rightarrow> links" where
  "list_add_after listelm elm l = list_insert_between elm listelm (nxt l listelm) l"

definition list_add_before :: "addr \<Rightarrow> addr \<Rightarrow> links \<Rightarrow> links" where
  "list_add_before listelm elm l = list_insert_between elm (prv l listelm) listelm l"

definition list_add :: "addr \<Rightarrow> addr \<Rightarrow> links \<Rightarrow> links" where
  "list_add listelm elm l = list_add_after listelm elm l"

definition list_del :: "addr \<Rightarrow> links \<Rightarrow> links" where
  "list_del listelm l = list_unlink (prv l listelm) (nxt l listelm) l"

definition list_del_init :: "addr \<Rightarrow> links \<Rightarrow> links" where
  "list_del_init listelm l = list_init listelm (list_del listelm l)"

definition list_empty :: "addr \<Rightarrow> links \<Rightarrow> bool" where
  "list_empty h l \<longleftrightarrow> nxt l h = h"

definition list_next :: "addr \<Rightarrow> links \<Rightarrow> addr" where
  "list_next listelm l = nxt l listelm"

definition list_prev :: "addr \<Rightarrow> links \<Rightarrow> addr" where
  "list_prev listelm l = prv l listelm"

lemmas list_h_defs =
  list_init_def list_insert_between_def list_unlink_def list_add_after_def
  list_add_before_def list_add_def list_del_def list_del_init_def list_empty_def
  list_next_def list_prev_def Let_def

section \<open>The abstraction: a ring and its sequence of entries\<close>

fun chain :: "links \<Rightarrow> addr \<Rightarrow> addr list \<Rightarrow> addr \<Rightarrow> bool" where
  "chain l a [] b \<longleftrightarrow> nxt l a = b \<and> prv l b = a"
| "chain l a (x # xs) b \<longleftrightarrow> nxt l a = x \<and> prv l x = a \<and> chain l x xs b"

definition clist :: "links \<Rightarrow> addr \<Rightarrow> addr list \<Rightarrow> bool" where
  "clist l h xs \<longleftrightarrow> distinct (h # xs) \<and> chain l h xs h"

lemma chain_append:
  "chain l a (xs @ y # ys) b \<longleftrightarrow> chain l a xs y \<and> chain l y ys b"
  by (induction xs arbitrary: a) auto

lemma chain_first: "chain l a xs b \<Longrightarrow> nxt l a = hd (xs @ [b])"
  by (cases xs) auto

lemma chain_last: "chain l a xs b \<Longrightarrow> prv l b = last (a # xs)"
  by (induction xs arbitrary: a) auto

text \<open>A chain reads \<^verbatim>\<open>next\<close> of its start and inner entries, \<^verbatim>\<open>prev\<close> of its inner entries and end.\<close>

lemma chain_frame:
  assumes "chain l a xs b"
    and "\<And>e. e \<in> set (a # xs) \<Longrightarrow> nxt l' e = nxt l e"
    and "\<And>e. e \<in> set (xs @ [b]) \<Longrightarrow> prv l' e = prv l e"
  shows "chain l' a xs b"
  using assms by (induction xs arbitrary: a) auto

lemma chain_upd_nxt [simp]:
  "e \<noteq> a \<Longrightarrow> e \<notin> set xs \<Longrightarrow> chain (l\<lparr>nxt := (nxt l)(e := v)\<rparr>) a xs b = chain l a xs b"
  by (induction xs arbitrary: a) auto

lemma chain_upd_prv [simp]:
  "e \<noteq> b \<Longrightarrow> e \<notin> set xs \<Longrightarrow> chain (l\<lparr>prv := (prv l)(e := v)\<rparr>) a xs b = chain l a xs b"
  by (induction xs arbitrary: a) auto

lemma clist_empty: "clist l h xs \<Longrightarrow> list_empty h l \<longleftrightarrow> xs = []"
  by (cases xs) (auto simp: clist_def list_empty_def)

lemma clist_init: "clist (list_init h l) h []"
  by (simp add: clist_def list_init_def)

lemma clist_next:
  "clist l h (xs @ x # ys) \<Longrightarrow> list_next x l = hd (ys @ [h])"
  by (auto simp: clist_def list_next_def chain_append dest: chain_first)

lemma clist_prev:
  "clist l h (xs @ x # ys) \<Longrightarrow> list_prev x l = last (h # xs)"
  by (auto simp: clist_def list_prev_def chain_append dest: chain_last)

lemma clist_next_head: "clist l h xs \<Longrightarrow> list_next h l = hd (xs @ [h])"
  by (auto simp: clist_def list_next_def dest: chain_first)

lemma clist_prev_head: "clist l h xs \<Longrightarrow> list_prev h l = last (h # xs)"
  by (auto simp: clist_def list_prev_def dest: chain_last)

text \<open>Inserting between two neighbours of a chain: the only place where the pointers are touched.\<close>

lemma chain_insert_front:
  assumes "chain l a xs b" and "distinct (a # xs)" and "b \<notin> set xs"
    and "e \<noteq> a" and "e \<noteq> b" and "e \<notin> set xs"
  shows "chain (list_add_after a e l) a (e # xs) b"
proof (cases xs)
  case Nil
  with assms show ?thesis by (auto simp: list_h_defs)
next
  case (Cons y ys)
  let ?l = "list_add_after a e l"
  from Cons assms have l: "nxt l a = y" "prv l y = a" "chain l y ys b" by auto
  have "chain ?l y ys b"
    by (rule chain_frame [OF l(3)]) (use assms Cons l in \<open>auto simp: list_h_defs\<close>)
  then show ?thesis using Cons l assms by (auto simp: list_h_defs)
qed

lemma clist_add_after:
  assumes c: "clist l h (xs @ ys)" and e: "e \<notin> set (h # xs @ ys)"
  shows "clist (list_add_after (last (h # xs)) e l) h (xs @ e # ys)"
proof (cases xs rule: rev_cases)
  case Nil
  with assms show ?thesis
    using chain_insert_front [of l h ys h e] by (auto simp: clist_def)
next
  case (snoc zs z)
  let ?l = "list_add_after z e l"
  from c snoc have ch: "chain l h zs z" "chain l z ys h" and d: "distinct (h # zs @ z # ys)"
    by (auto simp: clist_def chain_append)
  have "chain ?l z (e # ys) h"
    by (rule chain_insert_front [OF ch(2)]) (use d e snoc in auto)
  moreover have nb: "nxt l z = hd (ys @ [h])" using ch(2) by (rule chain_first)
  have "chain ?l h zs z"
    by (rule chain_frame [OF ch(1)])
       (use d e snoc nb in \<open>cases ys; auto simp: list_h_defs\<close>)+
  ultimately show ?thesis using snoc d e by (auto simp: clist_def chain_append)
qed

lemma list_add_before_after:
  assumes "clist l h (xs @ ys)"
  shows "list_add_before (hd (ys @ [h])) e l = list_add_after (last (h # xs)) e l"
proof -
  let ?n = "hd (ys @ [h])" and ?p = "last (h # xs)"
  have "prv l ?n = ?p \<and> nxt l ?p = ?n"
  proof (cases ys)
    case Nil
    with assms have "prv l h = ?p" using clist_prev_head by (auto simp: list_prev_def)
    moreover have "nxt l ?p = h"
    proof (cases xs rule: rev_cases)
      case Nil
      with \<open>ys = []\<close> assms show ?thesis by (auto simp: clist_def)
    next
      case (snoc zs z)
      with \<open>ys = []\<close> assms clist_next [of l h zs z "[]"] show ?thesis by (auto simp: list_next_def)
    qed
    ultimately show ?thesis using Nil by simp
  next
    case (Cons y zs)
    with assms have "prv l y = ?p" using clist_prev [of l h xs y zs] by (simp add: list_prev_def)
    moreover have "nxt l ?p = y"
    proof (cases xs rule: rev_cases)
      case Nil
      with Cons assms show ?thesis by (auto simp: clist_def)
    next
      case (snoc ws w)
      with Cons assms clist_next [of l h ws w "y # zs"] show ?thesis by (auto simp: list_next_def)
    qed
    ultimately show ?thesis using Cons by simp
  qed
  then show ?thesis by (simp add: list_add_before_def list_add_after_def)
qed

lemma clist_add_before:
  assumes "clist l h (xs @ ys)" and "e \<notin> set (h # xs @ ys)"
  shows "clist (list_add_before (hd (ys @ [h])) e l) h (xs @ e # ys)"
  using clist_add_after [OF assms] list_add_before_after [OF assms(1)] by simp

lemma clist_del:
  assumes "clist l h (xs @ x # ys)"
  shows "clist (list_del x l) h (xs @ ys)"
proof -
  let ?p = "last (h # xs)" and ?n = "hd (ys @ [h])"
  from assms have ch: "chain l h xs x" "chain l x ys h" and d: "distinct (h # xs @ x # ys)"
    by (auto simp: clist_def chain_append)
  have p: "prv l x = ?p" and n: "nxt l x = ?n"
    using chain_last [OF ch(1)] chain_first [OF ch(2)] by auto
  have l': "list_del x l = l\<lparr>nxt := (nxt l)(?p := ?n), prv := (prv l)(?n := ?p)\<rparr>"
    using p n by (simp add: list_h_defs)
  have "chain (list_del x l) h (xs @ ys) h"
  proof (cases xs rule: rev_cases)
    case Nil
    show ?thesis
    proof (cases ys)
      case Nil
      with \<open>xs = []\<close> l' show ?thesis by simp
    next
      case (Cons y zs)
      with ch have "chain l y zs h" by simp
      then have "chain (list_del x l) y zs h"
        by (rule chain_frame) (use l' d Cons \<open>xs = []\<close> in auto)
      with Cons \<open>xs = []\<close> l' show ?thesis by simp
    qed
  next
    case (snoc zs z)
    with ch(1) have c1: "chain l h zs z" by (simp add: chain_append)
    have "chain (list_del x l) h zs z"
      by (rule chain_frame [OF c1]) (use l' d snoc in \<open>cases ys; auto\<close>)+
    moreover have "chain (list_del x l) z ys h"
    proof (cases ys)
      case Nil
      with l' snoc show ?thesis by simp
    next
      case (Cons y ws)
      with ch have "chain l y ws h" by simp
      then have "chain (list_del x l) y ws h"
        by (rule chain_frame) (use l' d Cons snoc in auto)
      with Cons l' snoc show ?thesis by simp
    qed
    ultimately show ?thesis using snoc by (simp add: chain_append)
  qed
  with d show ?thesis by (simp add: clist_def)
qed

text \<open>An entry that is its own neighbour is in no other ring: this is what
  \<^verbatim>\<open>list_empty(&proc->run_link)\<close> tests.\<close>

lemma clist_member_not_self:
  assumes "clist l h xs" and "x \<in> set xs"
  shows "\<not> list_empty x l"
proof -
  from assms(2) obtain ys zs where xs: "xs = ys @ x # zs" by (meson split_list)
  with assms have "nxt l x = hd (zs @ [h])" using clist_next by (auto simp: list_next_def)
  moreover have "x \<notin> set (zs @ [h])" using assms(1) xs by (auto simp: clist_def)
  ultimately show ?thesis
    by (metis hd_in_set list_empty_def snoc_eq_iff_butlast)
qed

lemma list_del_init_self: "list_empty x (list_del_init x l)"
  by (simp add: list_h_defs)

lemma clist_frame:
  assumes "clist l h xs"
    and "\<And>e. e \<in> set (h # xs) \<Longrightarrow> nxt l' e = nxt l e \<and> prv l' e = prv l e"
  shows "clist l' h xs"
  using assms by (auto simp: clist_def intro: chain_frame)

lemma clist_del_init:
  assumes "clist l h (xs @ x # ys)"
  shows "clist (list_del_init x l) h (xs @ ys)"
proof -
  have "x \<notin> set (h # xs @ ys)" using assms by (auto simp: clist_def)
  then show ?thesis
    unfolding list_del_init_def
    by (intro clist_frame [OF clist_del [OF assms]]) (auto simp: list_init_def)
qed

section \<open>The interface of the queues\<close>

text \<open>
  Run queues and wait queues only initialise a ring, append before the head, read the
  entry after the head and unlink an entry. A client that keeps to these four sees a
  sequence; the laws are discharged by the pointer code below.
\<close>

locale ring =
  fixes seq :: "'s \<Rightarrow> addr \<Rightarrow> addr list \<Rightarrow> bool"
    and init :: "addr \<Rightarrow> 's \<Rightarrow> 's"
    and push :: "addr \<Rightarrow> addr \<Rightarrow> 's \<Rightarrow> 's"
    and remove :: "addr \<Rightarrow> 's \<Rightarrow> 's"
    and first :: "addr \<Rightarrow> 's \<Rightarrow> addr"
  assumes seq_init: "seq (init h s) h []"
    and seq_push: "seq s h xs \<Longrightarrow> e \<notin> set (h # xs) \<Longrightarrow> seq (push h e s) h (xs @ [e])"
    and seq_remove: "seq s h (xs @ x # ys) \<Longrightarrow> seq (remove x s) h (xs @ ys)"
    and seq_first: "seq s h xs \<Longrightarrow> first h s = hd (xs @ [h])"
    and seq_distinct: "seq s h xs \<Longrightarrow> distinct (h # xs)"
begin

lemma seq_pushes:
  "seq s h xs \<Longrightarrow> distinct (h # xs @ es) \<Longrightarrow> seq (fold (push h) es s) h (xs @ es)"
proof (induction es arbitrary: s xs)
  case Nil
  then show ?case by simp
next
  case (Cons e es)
  from Cons.prems have "seq (push h e s) h (xs @ [e])" by (intro seq_push) auto
  from Cons.IH [OF this] Cons.prems(2) show ?case by simp
qed

lemma seq_pop: "seq s h (x # xs) \<Longrightarrow> seq (remove (first h s) s) h xs"
  using seq_remove [of s h "[]" x xs] seq_first [of s h "x # xs"] by simp

lemma seq_pops:
  "seq s h xs \<Longrightarrow> k \<le> length xs \<Longrightarrow>
    seq (((\<lambda>s. remove (first h s) s) ^^ k) s) h (drop k xs)"
proof (induction k arbitrary: s xs)
  case 0
  then show ?case by simp
next
  case (Suc k)
  then obtain x ys where xs: "xs = x # ys" by (cases xs) auto
  with Suc.prems have "seq (remove (first h s) s) h ys" by (auto intro: seq_pop)
  from Suc.IH [OF this] Suc.prems xs show ?case
    by (simp add: funpow_Suc_right del: funpow.simps)
qed

text \<open>First in, first out: after pushing \<open>es\<close>, the \<open>k\<close>-th pop returns \<open>es ! k\<close>.\<close>

lemma fifo:
  assumes "distinct (h # es)" and "k < length es"
  shows "first h (((\<lambda>s. remove (first h s) s) ^^ k) (fold (push h) es (init h s))) = es ! k"
proof -
  have "seq (fold (push h) es (init h s)) h es"
    using seq_pushes [OF seq_init] assms(1) by simp
  then have "seq (((\<lambda>s. remove (first h s) s) ^^ k) (fold (push h) es (init h s))) h (drop k es)"
    by (rule seq_pops) (use assms(2) in simp)
  from seq_first [OF this] assms(2) show ?thesis by (simp add: hd_drop_conv_nth)
qed

end

interpretation lring: ring clist list_init list_add_before list_del_init list_next
proof
  fix h and l :: links
  show "clist (list_init h l) h []" by (rule clist_init)
next
  fix l h xs e
  assume "clist l h xs" and "e \<notin> set (h # xs)"
  then show "clist (list_add_before h e l) h (xs @ [e])"
    using clist_add_before [of l h xs "[]" e] by simp
next
  fix l h xs x ys
  assume "clist l h (xs @ x # ys)"
  then show "clist (list_del_init x l) h (xs @ ys)" by (rule clist_del_init)
next
  fix l h xs
  assume "clist l h xs"
  then show "list_next h l = hd (xs @ [h])" by (rule clist_next_head)
next
  fix l h xs
  assume "clist l h xs"
  then show "distinct (h # xs)" by (simp add: clist_def)
qed

section \<open>Properties\<close>

text \<open>
  A queue kept as the kernel keeps them (initialise the head, append with
  \<^verbatim>\<open>list_add_before\<close>, take the entry after the head with \<^verbatim>\<open>list_del_init\<close>) is first in, first
  out: after the entries \<open>es\<close> have been appended and \<open>k\<close> of them taken, the entry after the
  head is the \<open>k\<close>-th one.
\<close>

theorem list_queue_fifo:
  assumes "distinct (h # es)" and "k < length es"
  shows "list_next h (((\<lambda>l. list_del_init (list_next h l) l) ^^ k)
           (fold (list_add_before h) es (list_init h l))) = es ! k"
  using assms by (rule lring.fifo)

theorem list_queue_fifo_witness:
  "list_next 9 (list_del_init 1 (fold (list_add_before 9) [1, 2, 3] (list_init 9 \<lparr>nxt = id, prv = id\<rparr>))) = 2"
  using list_queue_fifo [of 9 "[1, 2, 3]" 1 "\<lparr>nxt = id, prv = id\<rparr>"]
  by (simp add: list_h_defs)

end
