(* ===== verification/CString.thy ===== *)
theory CString
  imports Prelude
begin

text \<open>
  The string and memory routines of \<^verbatim>\<open>libs/string.c\<close> on a byte memory. A pointer is an
  address, memory a function from addresses to bytes, and each loop of the source is a
  recursive function over the same pointers: \<^theory_text>\<open>fun\<close> where a count bounds it,
  \<^theory_text>\<open>partial_function\<close> where only a terminator stops it (no terminator: \<^term>\<open>None\<close>).
\<close>

section \<open>Scanning\<close>

partial_function (option) strlen_from :: "mem \<Rightarrow> addr \<Rightarrow> nat \<Rightarrow> nat option" where
  "strlen_from m s cnt = (if m s \<noteq> 0 then strlen_from m (Suc s) (Suc cnt) else Some cnt)"

definition strlen :: "mem \<Rightarrow> addr \<Rightarrow> nat option" where
  "strlen m s = strlen_from m s 0"

fun strnlen_from :: "mem \<Rightarrow> addr \<Rightarrow> nat \<Rightarrow> nat \<Rightarrow> nat" where
  "strnlen_from m s 0 cnt = cnt"
| "strnlen_from m s (Suc len) cnt =
     (if m s \<noteq> 0 then strnlen_from m (Suc s) len (Suc cnt) else cnt)"

definition strnlen :: "mem \<Rightarrow> addr \<Rightarrow> nat \<Rightarrow> nat" where
  "strnlen m s len = strnlen_from m s len 0"

partial_function (option) strcmp :: "mem \<Rightarrow> addr \<Rightarrow> addr \<Rightarrow> int option" where
  "strcmp m s1 s2 =
     (if m s1 \<noteq> 0 \<and> m s1 = m s2 then strcmp m (Suc s1) (Suc s2)
      else Some (uint (m s1) - uint (m s2)))"

fun strncmp :: "mem \<Rightarrow> addr \<Rightarrow> addr \<Rightarrow> nat \<Rightarrow> int" where
  "strncmp m s1 s2 0 = 0"
| "strncmp m s1 s2 (Suc n) =
     (if m s1 \<noteq> 0 \<and> m s1 = m s2 then strncmp m (Suc s1) (Suc s2) n
      else uint (m s1) - uint (m s2))"

text \<open>\<^verbatim>\<open>strchr\<close> returns \<^verbatim>\<open>NULL\<close> (address 0) when the character is absent.\<close>

partial_function (option) strchr :: "mem \<Rightarrow> addr \<Rightarrow> u8 \<Rightarrow> addr option" where
  "strchr m s c = (if m s \<noteq> 0 then (if m s = c then Some s else strchr m (Suc s) c) else Some 0)"

partial_function (option) strfind :: "mem \<Rightarrow> addr \<Rightarrow> u8 \<Rightarrow> addr option" where
  "strfind m s c = (if m s \<noteq> 0 then (if m s = c then Some s else strfind m (Suc s) c) else Some s)"

fun memcmp :: "mem \<Rightarrow> addr \<Rightarrow> addr \<Rightarrow> nat \<Rightarrow> int" where
  "memcmp m s1 s2 0 = 0"
| "memcmp m s1 s2 (Suc n) =
     (if m s1 \<noteq> m s2 then uint (m s1) - uint (m s2) else memcmp m (Suc s1) (Suc s2) n)"

section \<open>Copying\<close>

partial_function (option) strcpy :: "addr \<Rightarrow> addr \<Rightarrow> mem \<Rightarrow> mem option" where
  "strcpy dst src m =
     (let m' = m(dst := m src) in if m src \<noteq> 0 then strcpy (Suc dst) (Suc src) m' else Some m')"

fun strncpy :: "addr \<Rightarrow> addr \<Rightarrow> nat \<Rightarrow> mem \<Rightarrow> mem" where
  "strncpy dst src 0 m = m"
| "strncpy dst src (Suc len) m =
     strncpy (Suc dst) (if m src \<noteq> 0 then Suc src else src) len (m(dst := m src))"

definition strcat :: "addr \<Rightarrow> addr \<Rightarrow> mem \<Rightarrow> mem option" where
  "strcat dst src m = do { n \<leftarrow> strlen m dst; strcpy (dst + n) src m }"

fun memset :: "addr \<Rightarrow> u8 \<Rightarrow> nat \<Rightarrow> mem \<Rightarrow> mem" where
  "memset p c 0 m = m"
| "memset p c (Suc n) m = memset (Suc p) c n (m(p := c))"

fun copy_up :: "addr \<Rightarrow> addr \<Rightarrow> nat \<Rightarrow> mem \<Rightarrow> mem" where
  "copy_up d s 0 m = m"
| "copy_up d s (Suc n) m = copy_up (Suc d) (Suc s) n (m(d := m s))"

fun copy_down :: "addr \<Rightarrow> addr \<Rightarrow> nat \<Rightarrow> mem \<Rightarrow> mem" where
  "copy_down d s 0 m = m"
| "copy_down d s (Suc n) m = copy_down (d - 1) (s - 1) n (m(d - 1 := m (s - 1)))"

definition memmove :: "addr \<Rightarrow> addr \<Rightarrow> nat \<Rightarrow> mem \<Rightarrow> mem" where
  "memmove dst src n m =
     (if src < dst \<and> src + n > dst then copy_down (dst + n) (src + n) n m
      else copy_up dst src n m)"

definition memcpy :: "addr \<Rightarrow> addr \<Rightarrow> nat \<Rightarrow> mem \<Rightarrow> mem" where
  "memcpy dst src n m = copy_up dst src n m"

section \<open>\<^verbatim>\<open>strtol\<close>\<close>

partial_function (option) skip_blanks :: "mem \<Rightarrow> addr \<Rightarrow> addr option" where
  "skip_blanks m s = (if m s = 32 \<or> m s = 9 then skip_blanks m (Suc s) else Some s)"

definition strtol_digit :: "u8 \<Rightarrow> int option" where
  "strtol_digit c =
     (if 48 \<le> c \<and> c \<le> 57 then Some (uint c - 48)
      else if 97 \<le> c \<and> c \<le> 122 then Some (uint c - 97 + 10)
      else if 65 \<le> c \<and> c \<le> 90 then Some (uint c - 65 + 10)
      else None)"

partial_function (option) strtol_digits :: "mem \<Rightarrow> addr \<Rightarrow> int \<Rightarrow> u64 \<Rightarrow> (u64 \<times> addr) option" where
  "strtol_digits m s base val =
     (case strtol_digit (m s) of
        None \<Rightarrow> Some (val, s)
      | Some dig \<Rightarrow>
          if dig \<ge> base then Some (val, s)
          else strtol_digits m (Suc s) base (val * of_int base + of_int dig))"

text \<open>The result is the value and the end pointer that \<^verbatim>\<open>endptr\<close> receives.\<close>

definition strtol :: "mem \<Rightarrow> addr \<Rightarrow> int \<Rightarrow> (u64 \<times> addr) option" where
  "strtol m s base = do {
     s \<leftarrow> skip_blanks m s;
     let (s, neg) = (if m s = 43 then (Suc s, False)
                     else if m s = 45 then (Suc s, True) else (s, False));
     let (s, base) = (if (base = 0 \<or> base = 16) \<and> m s = 48 \<and> m (Suc s) = 120 then (s + 2, 16)
                      else if base = 0 \<and> m s = 48 then (Suc s, 8)
                      else if base = 0 then (s, 10) else (s, base));
     (val, s) \<leftarrow> strtol_digits m s base 0;
     Some (if neg then - val else val, s)
   }"

section \<open>What the routines do\<close>

text \<open>The bytes of a block.\<close>

definition bytes_at :: "mem \<Rightarrow> addr \<Rightarrow> nat \<Rightarrow> u8 list" where
  "bytes_at m p n = map (\<lambda>i. m (p + i)) [0..<n]"

text \<open>\<open>cstr m p n\<close>: a string of \<open>n\<close> characters, NUL terminated, starts at \<open>p\<close>.\<close>

definition cstr :: "mem \<Rightarrow> addr \<Rightarrow> nat \<Rightarrow> bool" where
  "cstr m p n \<longleftrightarrow> (\<forall>i<n. m (p + i) \<noteq> 0) \<and> m (p + n) = 0"

lemma cstr_0 [simp]: "cstr m p 0 \<longleftrightarrow> m p = 0"
  by (simp add: cstr_def)

lemma cstr_Suc: "cstr m p (Suc n) \<longleftrightarrow> m p \<noteq> 0 \<and> cstr m (Suc p) n"
  by (auto simp: cstr_def All_less_Suc2)

lemma strlen_from_cstr: "cstr m s n \<Longrightarrow> strlen_from m s c = Some (c + n)"
  by (induction n arbitrary: s c) (auto simp: cstr_Suc strlen_from.simps [of m])

lemma strlen_cstr: "cstr m s n \<Longrightarrow> strlen m s = Some n"
  by (simp add: strlen_def strlen_from_cstr)

lemma strnlen_from_le: "strnlen_from m s len c \<le> c + len"
  by (induction m s len c rule: strnlen_from.induct) auto

lemma strnlen_from_spec:
  "strnlen_from m s len c =
     c + (if \<exists>i<len. m (s + i) = 0 then (LEAST i. m (s + i) = 0) else len)"
proof (induction m s len c rule: strnlen_from.induct)
  case (1 m s c)
  show ?case by simp
next
  case (2 m s len c)
  show ?case
  proof (cases "m s = 0")
    case True
    then have "(LEAST i. m (s + i) = 0) = 0" by (intro Least_equality) auto
    moreover have "\<exists>i<Suc len. m (s + i) = 0" using True by (intro exI [of _ 0]) simp
    ultimately show ?thesis using True by simp
  next
    case False
    have ex: "(\<exists>i<Suc len. m (s + i) = 0) \<longleftrightarrow> (\<exists>i<len. m (Suc s + i) = 0)"
      using False by (auto simp: Ex_less_Suc2)
    show ?thesis
    proof (cases "\<exists>i<len. m (Suc s + i) = 0")
      case True
      then obtain i where "m (s + Suc i) = 0" by auto
      then have "(LEAST i. m (s + i) = 0) = Suc (LEAST i. m (s + Suc i) = 0)"
        using False Least_Suc [of "\<lambda>i. m (s + i) = 0" "Suc i"] by simp
      with True ex False "2.IH" show ?thesis by simp
    next
      case f: False
      with ex have "\<not> (\<exists>i<Suc len. m (s + i) = 0)" by simp
      moreover have "strnlen_from m (Suc s) len (Suc c) = Suc c + len"
        using "2.IH" [OF False] f by (simp only: if_False)
      ultimately show ?thesis using False by (simp only: strnlen_from.simps) simp
    qed
  qed
qed

lemma strnlen_bound: "strnlen m s len \<le> len"
  using strnlen_from_le [of m s len 0] by (simp add: strnlen_def)

lemma strnlen_nonzero: "i < strnlen m s len \<Longrightarrow> m (s + i) \<noteq> 0"
proof (cases "\<exists>j<len. m (s + j) = 0")
  case True
  assume "i < strnlen m s len"
  with True have "i < (LEAST j. m (s + j) = 0)" by (simp add: strnlen_def strnlen_from_spec)
  then show ?thesis by (rule not_less_Least)
next
  case False
  assume "i < strnlen m s len"
  with False show ?thesis using strnlen_bound [of m s len] by auto
qed

lemma strnlen_terminated: "strnlen m s len < len \<Longrightarrow> m (s + strnlen m s len) = 0"
proof -
  assume a: "strnlen m s len < len"
  then have ex: "\<exists>j<len. m (s + j) = 0"
    by (auto simp: strnlen_def strnlen_from_spec split: if_splits)
  then have "m (s + (LEAST j. m (s + j) = 0)) = 0" by (auto intro: LeastI)
  with ex show ?thesis by (simp add: strnlen_def strnlen_from_spec)
qed

lemma strnlen_cstr: "strnlen m s len < len \<Longrightarrow> cstr m s (strnlen m s len)"
  by (auto simp: cstr_def strnlen_terminated dest: strnlen_nonzero)

subsection \<open>Memory\<close>

lemma memset_spec: "memset p c n m a = (if p \<le> a \<and> a < p + n then c else m a)"
  by (induction p c n m arbitrary: a rule: memset.induct) auto

lemma copy_up_spec:
  "\<not> (s < d \<and> d < s + n) \<Longrightarrow>
    copy_up d s n m a = (if d \<le> a \<and> a < d + n then m (s + (a - d)) else m a)"
proof (induction d s n m rule: copy_up.induct)
  case (1 d s m)
  then show ?case by auto
next
  case (2 d s n m)
  let ?m = "m(d := m s)"
  have IH: "copy_up (Suc d) (Suc s) n ?m a =
      (if Suc d \<le> a \<and> a < Suc d + n then ?m (Suc s + (a - Suc d)) else ?m a)"
    using "2.prems" by (intro "2.IH") auto
  consider "a = d" | "Suc d \<le> a" "a < Suc d + n" | "a < d" | "Suc d + n \<le> a" by linarith
  then show ?case
  proof cases
    case 2
    then have e: "Suc s + (a - Suc d) = s + (a - d)" and "s + (a - d) \<noteq> d"
      using "2.prems" by auto
    with 2 IH show ?thesis by (simp only: copy_up.simps e) simp
  qed (use IH in auto)
qed

lemma copy_down_spec:
  "s < d \<Longrightarrow> n \<le> s \<Longrightarrow>
    copy_down d s n m a = (if d - n \<le> a \<and> a < d then m (a - (d - s)) else m a)"
proof (induction d s n m rule: copy_down.induct)
  case (1 d s m)
  then show ?case by auto
next
  case (2 d s n m)
  let ?m = "m(d - 1 := m (s - 1))"
  have IH: "copy_down (d - 1) (s - 1) n ?m a =
      (if d - 1 - n \<le> a \<and> a < d - 1 then ?m (a - (d - 1 - (s - 1))) else ?m a)"
    using "2.prems" by (intro "2.IH") auto
  have e: "d - 1 - (s - 1) = d - s" using "2.prems" by simp
  consider "a = d - 1" | "d - 1 - n \<le> a" "a < d - 1" | "a < d - 1 - n" | "d \<le> a" by linarith
  then show ?case
  proof cases
    case 1
    with "2.prems" have "a - (d - s) = s - 1" by simp
    with 1 IH "2.prems" show ?thesis by simp
  next
    case 2
    with "2.prems" have "a - (d - s) \<noteq> d - 1" by simp
    with 2 IH e "2.prems" show ?thesis by auto
  qed (use IH "2.prems" in auto)
qed

lemma memmove_spec:
  "memmove d s n m a = (if d \<le> a \<and> a < d + n then m (s + (a - d)) else m a)"
proof (cases "s < d \<and> s + n > d")
  case True
  then have "d \<le> a \<Longrightarrow> a - (d - s) = s + (a - d)" by simp
  with True show ?thesis by (simp add: memmove_def copy_down_spec)
next
  case False
  then show ?thesis by (auto simp: memmove_def copy_up_spec)
qed

lemma memcpy_spec:
  assumes "\<not> (s < d \<and> d < s + n)"
  shows "memcpy d s n m a = (if d \<le> a \<and> a < d + n then m (s + (a - d)) else m a)"
  using assms by (simp add: memcpy_def copy_up_spec)

lemma memcpy_0 [simp]: "memcpy d s 0 m = m"
  by (simp add: memcpy_def)

lemma memmove_0 [simp]: "memmove d s 0 m = m"
  by (simp add: memmove_def)

subsection \<open>Strings\<close>

lemma bytes_at_Suc: "bytes_at m p (Suc n) = m p # bytes_at m (Suc p) n"
  by (simp add: bytes_at_def upt_rec [of 0 "Suc n"] map_Suc_upt [symmetric] del: upt_Suc)

lemma bytes_at_0 [simp]: "bytes_at m p 0 = []"
  by (simp add: bytes_at_def)

lemma length_bytes_at [simp]: "length (bytes_at m p n) = n"
  by (simp add: bytes_at_def)

lemma bytes_at_nth [simp]: "i < n \<Longrightarrow> bytes_at m p n ! i = m (p + i)"
  by (simp add: bytes_at_def)

lemma uint_eq_uint: "uint (a :: 'a::len word) = uint b \<longleftrightarrow> a = b"
  by (simp add: word_uint_eq_iff)

lemma strcmp_cstr:
  assumes "cstr m s1 n1" and "cstr m s2 n2"
  shows "\<exists>r. strcmp m s1 s2 = Some r \<and>
      (r = 0 \<longleftrightarrow> bytes_at m s1 n1 = bytes_at m s2 n2)"
  using assms
proof (induction n1 arbitrary: s1 s2 n2)
  case 0
  then show ?case
    by (cases n2) (auto simp: strcmp.simps [of m] cstr_Suc bytes_at_Suc uint_0_iff)
next
  case (Suc n1)
  show ?case
  proof (cases n2)
    case 0
    with Suc.prems show ?thesis
      by (auto simp: strcmp.simps [of m] cstr_Suc bytes_at_Suc uint_0_iff)
  next
    case (Suc k)
    from Suc.prems this have c: "m s1 \<noteq> 0" "cstr m (Suc s1) n1" "cstr m (Suc s2) k"
      by (auto simp: cstr_Suc)
    from Suc.IH [OF c(2,3)] c(1) Suc show ?thesis
      by (auto simp: strcmp.simps [of m s1 s2] bytes_at_Suc cstr_Suc uint_eq_uint)
  qed
qed

lemma memcmp_eq_0: "memcmp m s1 s2 n = 0 \<longleftrightarrow> bytes_at m s1 n = bytes_at m s2 n"
  by (induction m s1 s2 n rule: memcmp.induct) (auto simp: bytes_at_Suc uint_eq_uint)

section \<open>Properties\<close>

text \<open>
  \<^verbatim>\<open>memmove\<close> copies the old contents of the source block to the destination block,
  byte for byte and whatever the overlap of the two, and changes no other byte.
\<close>

theorem memmove_correct:
  "memmove d s n m = (\<lambda>a. if a \<in> {d..<d + n} then m (s + (a - d)) else m a)"
  by (simp add: fun_eq_iff memmove_spec)

text \<open>
  \<^verbatim>\<open>strcmp\<close> on two NUL-terminated strings returns, and returns 0 exactly when they hold
  the same characters.
\<close>

theorem strcmp_correct:
  assumes "cstr m s1 n1" and "cstr m s2 n2"
  shows "\<exists>r. strcmp m s1 s2 = Some r \<and> (r = 0 \<longleftrightarrow> bytes_at m s1 n1 = bytes_at m s2 n2)"
  using assms by (rule strcmp_cstr)

theorem strcmp_correct_witness:
  "\<exists>r. strcmp (\<lambda>a. if a = 0 \<or> a = 8 then 65 else if a = 9 then 66 else 0) 0 8 = Some r \<and> r \<noteq> 0"
  using strcmp_correct [of "\<lambda>a. if a = 0 \<or> a = 8 then 65 else if a = 9 then 66 else 0" 
    0 "Suc 0" 8 "Suc (Suc 0)"]
  by (auto simp: cstr_Suc bytes_at_Suc)

end
