(* ===== verification/SkewHeap.thy ===== *)
theory SkewHeap
  imports Prelude "HOL-Library.Tree" "HOL-Library.Tree_Multiset"
begin

text \<open>
  The skew heap of \<^verbatim>\<open>libs/skew_heap.h\<close>: nodes in a store of three pointers, address 0 is
  \<^verbatim>\<open>NULL\<close>. The recursive merge follows the pointers, so it is a partial function; on a
  well-formed heap it is proved to return and to compute the merge of the abstract trees.
\<close>

section \<open>The pointer code\<close>

record pool =
  parent :: "addr \<Rightarrow> addr"
  left :: "addr \<Rightarrow> addr"
  right :: "addr \<Rightarrow> addr"

type_synonym compare_f = "addr \<Rightarrow> addr \<Rightarrow> int"

definition skew_heap_init :: "addr \<Rightarrow> pool \<Rightarrow> pool" where
  "skew_heap_init a st =
     st\<lparr>parent := (parent st)(a := 0), left := (left st)(a := 0), right := (right st)(a := 0)\<rparr>"

definition skew_link :: "addr \<Rightarrow> addr \<Rightarrow> addr \<Rightarrow> pool \<Rightarrow> pool" where
  "skew_link a l r st =
     (let st1 = st\<lparr>left := (left st)(a := l), right := (right st)(a := r)\<rparr>
      in if l \<noteq> 0 then st1\<lparr>parent := (parent st1)(l := a)\<rparr> else st1)"

partial_function (option) skew_heap_merge ::
  "compare_f \<Rightarrow> addr \<Rightarrow> addr \<Rightarrow> pool \<Rightarrow> (addr \<times> pool) option" where
  "skew_heap_merge cmp a b st =
     (if a = 0 then Some (b, st)
      else if b = 0 then Some (a, st)
      else if cmp a b = -1 then
        Option.bind (skew_heap_merge cmp (right st a) b st)
          (\<lambda>(l, st1). Some (a, skew_link a l (left st a) st1))
      else
        Option.bind (skew_heap_merge cmp a (right st b) st)
          (\<lambda>(l, st1). Some (b, skew_link b l (left st b) st1)))"

definition skew_heap_insert :: "compare_f \<Rightarrow> addr \<Rightarrow> addr \<Rightarrow> pool \<Rightarrow> (addr \<times> pool) option" where
  "skew_heap_insert cmp a b st = skew_heap_merge cmp a b (skew_heap_init b st)"

definition skew_heap_remove :: "compare_f \<Rightarrow> addr \<Rightarrow> addr \<Rightarrow> pool \<Rightarrow> (addr \<times> pool) option" where
  "skew_heap_remove cmp a b st = do {
     let p = parent st b;
     (rep, st) \<leftarrow> skew_heap_merge cmp (left st b) (right st b) st;
     let st = (if rep \<noteq> 0 then st\<lparr>parent := (parent st)(rep := p)\<rparr> else st);
     if p \<noteq> 0 then
       (if left st p = b then Some (a, st\<lparr>left := (left st)(p := rep)\<rparr>)
        else Some (a, st\<lparr>right := (right st)(p := rep)\<rparr>))
     else Some (rep, st)
   }"

section \<open>The abstraction to trees\<close>

fun root_of :: "addr tree \<Rightarrow> addr" where
  "root_of Leaf = 0"
| "root_of (Node l x r) = x"

fun shape :: "pool \<Rightarrow> addr tree \<Rightarrow> bool" where
  "shape st Leaf \<longleftrightarrow> True"
| "shape st (Node l x r) \<longleftrightarrow>
     x \<noteq> 0 \<and> left st x = root_of l \<and> right st x = root_of r \<and>
     (l \<noteq> Leaf \<longrightarrow> parent st (root_of l) = x) \<and> (r \<noteq> Leaf \<longrightarrow> parent st (root_of r) = x) \<and>
     shape st l \<and> shape st r"

definition heap_at :: "pool \<Rightarrow> addr \<Rightarrow> addr tree \<Rightarrow> bool" where
  "heap_at st h t \<longleftrightarrow>
     h = root_of t \<and> shape st t \<and> distinct (inorder t) \<and> (t \<noteq> Leaf \<longrightarrow> parent st h = 0)"

text \<open>The same merge on trees.\<close>

fun merge_tree :: "compare_f \<Rightarrow> addr tree \<Rightarrow> addr tree \<Rightarrow> addr tree" where
  "merge_tree cmp Leaf t = t"
| "merge_tree cmp t Leaf = t"
| "merge_tree cmp (Node l1 a r1) (Node l2 b r2) =
     (if cmp a b = -1 then Node (merge_tree cmp r1 (Node l2 b r2)) a l1
      else Node (merge_tree cmp (Node l1 a r1) r2) b l2)"

lemma merge_tree_Leaf2 [simp]: "merge_tree cmp t Leaf = t"
  by (cases t) simp_all

lemma mset_merge_tree: "mset_tree (merge_tree cmp t1 t2) = mset_tree t1 + mset_tree t2"
  by (induction cmp t1 t2 rule: merge_tree.induct) (auto simp: ac_simps)

lemma set_merge_tree: "set_tree (merge_tree cmp t1 t2) = set_tree t1 \<union> set_tree t2"
  by (metis mset_merge_tree set_mset_tree set_mset_union)

lemma root_of_zero: "shape st t \<Longrightarrow> root_of t = 0 \<longleftrightarrow> t = Leaf"
  by (cases t) auto

lemma root_of_in: "t \<noteq> Leaf \<Longrightarrow> root_of t \<in> set_tree t"
  by (cases t) auto

lemma shape_nonzero: "shape st t \<Longrightarrow> x \<in> set_tree t \<Longrightarrow> x \<noteq> 0"
  by (induction t) auto

lemma root_merge_tree:
  "t1 \<noteq> Leaf \<Longrightarrow> root_of (merge_tree cmp t1 t2) \<in> {root_of t1, root_of t2}"
  by (cases t1; cases t2) auto

text \<open>\<open>shape\<close> reads the pointers of its own nodes only, and not the parent of the root.\<close>

lemma shape_frame:
  assumes "shape st t"
    and "\<And>x. x \<in> set_tree t \<Longrightarrow> left st' x = left st x \<and> right st' x = right st x"
    and "\<And>x. x \<in> set_tree t \<Longrightarrow> x \<noteq> root_of t \<Longrightarrow> parent st' x = parent st x"
    and "distinct (inorder t)"
  shows "shape st' t"
  using assms
proof (induction t)
  case Leaf
  then show ?case by simp
next
  case (Node l x r)
  have nl: "x \<notin> set_tree l" "x \<notin> set_tree r" "set_tree l \<inter> set_tree r = {}"
    using Node.prems(4) by auto
  have "shape st' l"
    by (rule Node.IH(1)) (use Node.prems nl in \<open>auto\<close>)
  moreover have "shape st' r"
    by (rule Node.IH(2)) (use Node.prems nl in \<open>auto\<close>)
  moreover have "parent st' (root_of l) = x" if "l \<noteq> Leaf"
    using that Node.prems(1) Node.prems(3) [of "root_of l"] nl root_of_in [of l]
    by (cases "root_of l = x") auto
  moreover have "parent st' (root_of r) = x" if "r \<noteq> Leaf"
    using that Node.prems(1) Node.prems(3) [of "root_of r"] nl root_of_in [of r]
    by (cases "root_of r = x") auto
  ultimately show ?case using Node.prems by simp
qed

lemma distinct_merge_tree:
  "distinct (inorder (merge_tree cmp t1 t2)) \<longleftrightarrow> distinct (inorder t1 @ inorder t2)"
  by (rule mset_eq_imp_distinct_iff) (simp add: mset_merge_tree)

lemma shape_skew_link:
  assumes "shape st m" and "shape st r" and "distinct (inorder m @ a # inorder r)" and "a \<noteq> 0"
    and "r \<noteq> Leaf \<Longrightarrow> parent st (root_of r) = a"
  shows "shape (skew_link a (root_of m) (root_of r) st) (Node m a r)"
proof -
  let ?st = "skew_link a (root_of m) (root_of r) st"
  have d: "a \<notin> set_tree m" "a \<notin> set_tree r" "set_tree m \<inter> set_tree r = {}"
    "distinct (inorder m)" "distinct (inorder r)"
    using assms(3) by auto
  have nm: "\<And>x. x \<in> set_tree r \<Longrightarrow> x \<noteq> root_of m"
    using d(3) root_of_in [of m] root_of_zero [OF assms(1)] shape_nonzero [OF assms(2)] by fastforce
  have "shape ?st m"
    by (rule shape_frame [OF assms(1)]) (use d in \<open>auto simp: skew_link_def Let_def\<close>)
  moreover have "shape ?st r"
    by (rule shape_frame [OF assms(2)]) (use d nm in \<open>auto simp: skew_link_def Let_def\<close>)
  moreover have "m \<noteq> Leaf \<Longrightarrow> parent ?st (root_of m) = a"
    using root_of_zero [OF assms(1)] by (auto simp: skew_link_def Let_def)
  moreover have "r \<noteq> Leaf \<Longrightarrow> parent ?st (root_of r) = a"
    using assms(5) nm [OF root_of_in [of r]] by (auto simp: skew_link_def Let_def)
  ultimately show ?thesis using assms(4) by (auto simp: skew_link_def Let_def)
qed

lemma skew_link_other:
  "x \<noteq> a \<Longrightarrow> x \<noteq> l \<Longrightarrow> left (skew_link a l r st) x = left st x \<and>
     right (skew_link a l r st) x = right st x \<and> parent (skew_link a l r st) x = parent st x"
  by (simp add: skew_link_def Let_def)

text \<open>
  The pointer merge computes the tree merge: it returns (so the recursion ends), leaves every
  node outside the two trees alone, and does not touch the parent pointer of the new root.
\<close>

definition merged :: "pool \<Rightarrow> pool \<Rightarrow> addr set \<Rightarrow> addr tree \<Rightarrow> bool" where
  "merged st st' V t \<longleftrightarrow>
     shape st' t \<and>
     (\<forall>x. x \<notin> V \<longrightarrow>
        left st' x = left st x \<and> right st' x = right st x \<and> parent st' x = parent st x) \<and>
     parent st' (root_of t) = parent st (root_of t)"

lemma merged_link:
  assumes m: "merged st st1 V t" and l: "shape st l" and d: "distinct (inorder t @ a # inorder l)"
    and a: "a \<noteq> 0" and V: "set_tree t \<subseteq> V" "a \<notin> V" "set_tree l \<inter> V = {}"
    and p: "l \<noteq> Leaf \<Longrightarrow> parent st (root_of l) = a"
  shows "merged st (skew_link a (root_of t) (root_of l) st1) (insert a (V \<union> set_tree l)) (Node t a l)"
proof -
  let ?st = "skew_link a (root_of t) (root_of l) st1"
  have s1: "shape st1 t" and fr: "\<And>x. x \<notin> V \<Longrightarrow>
      left st1 x = left st x \<and> right st1 x = right st x \<and> parent st1 x = parent st x"
    using m by (auto simp: merged_def)
  have dl: "distinct (inorder l)" using d by simp
  have l1: "shape st1 l"
    by (rule shape_frame [OF l _ _ dl]) (use fr V in auto)
  have "l \<noteq> Leaf \<Longrightarrow> parent st1 (root_of l) = a"
    using p fr [of "root_of l"] V root_of_in [of l] by auto
  then have "shape ?st (Node t a l)" by (intro shape_skew_link s1 l1 d a) auto
  moreover have "x \<noteq> root_of t" if "x \<notin> insert a (V \<union> set_tree l)" "x \<noteq> 0" for x
    using that V root_of_in [of t] by (cases "t = Leaf") auto
  then have "left ?st x = left st x \<and> right ?st x = right st x \<and> parent ?st x = parent st x"
    if "x \<notin> insert a (V \<union> set_tree l)" for x
    using that fr [of x] skew_link_other [of x a "root_of t" "root_of l" st1]
      root_of_zero [OF s1]
    by (cases "x = root_of t") (auto simp: skew_link_def Let_def)
  moreover have "a \<noteq> root_of t"
    using d root_of_in [of t] a by (cases t) auto
  then have "parent ?st a = parent st a"
    using fr [of a] V by (simp add: skew_link_def Let_def)
  ultimately show ?thesis by (simp add: merged_def)
qed

lemma skew_heap_merge_spec:
  assumes "shape st t1" and "shape st t2" and "distinct (inorder t1 @ inorder t2)"
  shows "\<exists>st'. skew_heap_merge cmp (root_of t1) (root_of t2) st =
             Some (root_of (merge_tree cmp t1 t2), st') \<and>
           merged st st' (set_tree t1 \<union> set_tree t2) (merge_tree cmp t1 t2)"
  using assms
proof (induction cmp t1 t2 rule: merge_tree.induct)
  case (1 cmp t)
  then show ?case by (auto simp: skew_heap_merge.simps merged_def)
next
  case (2 cmp l a r)
  then show ?case by (auto simp: skew_heap_merge.simps merged_def)
next
  case (3 cmp l1 a r1 l2 b r2)
  let ?t1 = "Node l1 a r1" and ?t2 = "Node l2 b r2"
  show ?case
  proof (cases "cmp a b = -1")
    case True
    let ?m = "merge_tree cmp r1 ?t2"
    have "shape st r1" "distinct (inorder r1 @ inorder ?t2)" using "3.prems" by auto
    with "3.IH"(1) [OF True] "3.prems"(2) obtain st1
      where eq: "skew_heap_merge cmp (root_of r1) b st = Some (root_of ?m, st1)"
        and mg: "merged st st1 (set_tree r1 \<union> set_tree ?t2) ?m" by auto
    have "distinct (inorder ?m @ a # inorder l1)"
      using "3.prems"(3) distinct_merge_tree [of cmp r1 ?t2]
      by (auto simp: set_inorder set_merge_tree)
    then have "merged st (skew_link a (root_of ?m) (root_of l1) st1)
        (insert a (set_tree r1 \<union> set_tree ?t2 \<union> set_tree l1)) (Node ?m a l1)"
      by (intro merged_link [OF mg])
         (use "3.prems" in \<open>auto simp: set_merge_tree\<close>)
    moreover have "insert a (set_tree r1 \<union> set_tree ?t2 \<union> set_tree l1) = set_tree ?t1 \<union> set_tree ?t2"
      by auto
    ultimately show ?thesis using True eq "3.prems"
      by (auto simp: skew_heap_merge.simps [of cmp a b])
  next
    case False
    let ?m = "merge_tree cmp ?t1 r2"
    have "shape st r2" "distinct (inorder ?t1 @ inorder r2)" using "3.prems" by auto
    with "3.IH"(2) [OF False] "3.prems"(1) obtain st1
      where eq: "skew_heap_merge cmp a (root_of r2) st = Some (root_of ?m, st1)"
        and mg: "merged st st1 (set_tree ?t1 \<union> set_tree r2) ?m" by auto
    have "distinct (inorder ?m @ b # inorder l2)"
      using "3.prems"(3) distinct_merge_tree [of cmp ?t1 r2]
      by (auto simp: set_inorder set_merge_tree)
    then have "merged st (skew_link b (root_of ?m) (root_of l2) st1)
        (insert b (set_tree ?t1 \<union> set_tree r2 \<union> set_tree l2)) (Node ?m b l2)"
      by (intro merged_link [OF mg])
         (use "3.prems" in \<open>auto simp: set_merge_tree\<close>)
    moreover have "insert b (set_tree ?t1 \<union> set_tree r2 \<union> set_tree l2) = set_tree ?t1 \<union> set_tree ?t2"
      by auto
    ultimately show ?thesis using False eq "3.prems"
      by (auto simp: skew_heap_merge.simps [of cmp a b])
  qed
qed

section \<open>The operations on a whole heap\<close>

text \<open>Everything outside a set of nodes is unchanged.\<close>

definition same_outside :: "pool \<Rightarrow> pool \<Rightarrow> addr set \<Rightarrow> bool" where
  "same_outside st st' V \<longleftrightarrow> (\<forall>x. x \<notin> V \<longrightarrow>
     left st' x = left st x \<and> right st' x = right st x \<and> parent st' x = parent st x)"

lemma skew_heap_insert_spec:
  assumes "heap_at st h t" and "b \<noteq> 0" and "b \<notin> set_tree t"
  shows "\<exists>h' st'. skew_heap_insert cmp h b st = Some (h', st') \<and>
           heap_at st' h' (merge_tree cmp t (Node Leaf b Leaf))"
proof -
  let ?st = "skew_heap_init b st" and ?n = "Node Leaf b Leaf"
  from assms have h: "h = root_of t" "shape st t" "distinct (inorder t)"
    "t \<noteq> Leaf \<Longrightarrow> parent st h = 0" by (auto simp: heap_at_def)
  have "shape ?st t"
    by (rule shape_frame [OF h(2) _ _ h(3)]) (use assms(3) in \<open>auto simp: skew_heap_init_def\<close>)
  moreover have "shape ?st ?n" using assms(2) by (simp add: skew_heap_init_def)
  moreover have "distinct (inorder t @ inorder ?n)" using h(3) assms(3) by (simp)
  ultimately obtain st' where m: "skew_heap_merge cmp h b ?st = Some (root_of (merge_tree cmp t ?n), st')"
    and mg: "merged ?st st' (set_tree t \<union> set_tree ?n) (merge_tree cmp t ?n)"
    using skew_heap_merge_spec [of ?st t ?n cmp] h(1) by auto
  have "parent ?st (root_of (merge_tree cmp t ?n)) = 0"
  proof (cases t)
    case Leaf
    then show ?thesis by (simp add: skew_heap_init_def)
  next
    case (Node l x r)
    then have "root_of (merge_tree cmp t ?n) \<in> {h, b}"
      using root_merge_tree [of t cmp ?n] h(1) by auto
    with h(4) Node show ?thesis by (auto simp: skew_heap_init_def)
  qed
  with m mg \<open>distinct (inorder t @ inorder ?n)\<close> show ?thesis
    unfolding skew_heap_insert_def heap_at_def merged_def
    by (metis distinct_merge_tree)
qed

text \<open>Removing the root, which is what the scheduler does with the entry it has picked.\<close>

lemma skew_heap_remove_root_spec:
  assumes "heap_at st h (Node l h r)"
  shows "\<exists>h' st'. skew_heap_remove cmp h h st = Some (h', st') \<and>
           heap_at st' h' (merge_tree cmp l r)"
proof -
  from assms have s: "shape st l" "shape st r" "distinct (inorder l @ inorder r)"
    and p: "left st h = root_of l" "right st h = root_of r" "parent st h = 0"
    by (auto simp: heap_at_def)
  from skew_heap_merge_spec [OF s, of cmp] obtain st'
    where m: "skew_heap_merge cmp (left st h) (right st h) st = Some (root_of (merge_tree cmp l r), st')"
      and mg: "merged st st' (set_tree l \<union> set_tree r) (merge_tree cmp l r)"
    using p by auto
  let ?t = "merge_tree cmp l r"
  have sh: "shape st' ?t" and d: "distinct (inorder ?t)"
    using mg s(3) by (auto simp: merged_def distinct_merge_tree)
  let ?st = "if root_of ?t \<noteq> 0 then st'\<lparr>parent := (parent st')(root_of ?t := 0)\<rparr> else st'"
  have "skew_heap_remove cmp h h st = Some (root_of ?t, ?st)"
    using m p(3) by (simp add: skew_heap_remove_def Let_def)
  moreover have "shape ?st ?t"
    by (rule shape_frame [OF sh _ _ d]) auto
  then have "heap_at ?st (root_of ?t) ?t"
    using d root_of_zero [OF sh] by (auto simp: heap_at_def)
  ultimately show ?thesis by blast
qed

section \<open>Heap order\<close>

fun heap_ord :: "(addr \<Rightarrow> nat) \<Rightarrow> addr tree \<Rightarrow> bool" where
  "heap_ord key Leaf \<longleftrightarrow> True"
| "heap_ord key (Node l x r) \<longleftrightarrow>
     (\<forall>y \<in> set_tree l \<union> set_tree r. key x \<le> key y) \<and> heap_ord key l \<and> heap_ord key r"

text \<open>\<open>cmp\<close> orders the elements of \<open>V\<close> by \<open>key\<close>.\<close>

definition orders :: "compare_f \<Rightarrow> (addr \<Rightarrow> nat) \<Rightarrow> addr set \<Rightarrow> bool" where
  "orders cmp key V \<longleftrightarrow> (\<forall>a\<in>V. \<forall>b\<in>V. cmp a b = -1 \<longleftrightarrow> key a < key b)"

lemma orders_mono: "orders cmp key V \<Longrightarrow> W \<subseteq> V \<Longrightarrow> orders cmp key W"
  by (auto simp: orders_def)

lemma heap_ord_root:
  "heap_ord key t \<Longrightarrow> y \<in> set_tree t \<Longrightarrow> key (root_of t) \<le> key y"
  by (cases t) auto

lemma heap_ord_merge_tree:
  "orders cmp key (set_tree t1 \<union> set_tree t2) \<Longrightarrow> heap_ord key t1 \<Longrightarrow> heap_ord key t2 \<Longrightarrow>
    heap_ord key (merge_tree cmp t1 t2)"
proof (induction cmp t1 t2 rule: merge_tree.induct)
  case (3 cmp l1 a r1 l2 b r2)
  let ?t1 = "Node l1 a r1" and ?t2 = "Node l2 b r2"
  show ?case
  proof (cases "cmp a b = -1")
    case True
    with "3.prems"(1) have ab: "key a < key b" by (auto simp: orders_def)
    have "heap_ord key (merge_tree cmp r1 ?t2)"
      using "3.IH"(1) [OF True] "3.prems" by (auto intro: orders_mono)
    moreover have "\<forall>y\<in>set_tree ?t2. key a \<le> key y"
      using ab "3.prems"(3) by (auto intro: order_trans [OF less_imp_le])
    ultimately show ?thesis using True "3.prems"(2) by (auto simp: set_merge_tree)
  next
    case False
    with "3.prems"(1) have ba: "key b \<le> key a" by (auto simp: orders_def not_less)
    have "heap_ord key (merge_tree cmp ?t1 r2)"
      using "3.IH"(2) [OF False] "3.prems" by (auto intro: orders_mono)
    moreover have "\<forall>y\<in>set_tree ?t1. key b \<le> key y"
      using ba "3.prems"(2) by (auto intro: order_trans)
    ultimately show ?thesis using False "3.prems"(3) by (auto simp: set_merge_tree)
  qed
qed simp_all

lemma heap_ord_cong:
  "(\<And>x. x \<in> set_tree t \<Longrightarrow> key x = key' x) \<Longrightarrow> heap_ord key t = heap_ord key' t"
  by (induction t) auto

end
