(* ===== verification/Proc.thy ===== *)
theory Proc
  imports DList SkewHeap
begin

text \<open>
  Processes and the state of the scheduler: \<^verbatim>\<open>struct proc_struct\<close>
  (\<^verbatim>\<open>kern/process/proc.h\<close>, the fields the scheduler and the synchronisation code use) and
  \<^verbatim>\<open>struct run_queue\<close> (\<^verbatim>\<open>kern/schedule/sched.h\<close>). A process is named by its address;
  its \<^verbatim>\<open>run_link\<close> and its heap node carry the same address (\<^verbatim>\<open>le2proc\<close> is the identity), and
  address 0 is \<^verbatim>\<open>NULL\<close>. There is one run queue, so \<^verbatim>\<open>proc->rq\<close> is the flag \<open>on_rq\<close>.
\<close>

datatype proc_state = PROC_UNINIT | PROC_SLEEPING | PROC_RUNNABLE | PROC_ZOMBIE

record proc_struct =
  state :: proc_state
  pid :: int
  runs :: int
  need_resched :: bool
  flags :: u32
  exit_code :: int
  wait_state :: u32
  on_rq :: bool
  time_slice :: int
  lab6_stride :: u32
  lab6_priority :: u32
  sjf_expected :: u32

definition PF_EXITING :: u32 where [layout]: "PF_EXITING = 1"
definition WT_INTERRUPTED :: u32 where [layout]: "WT_INTERRUPTED = 0x80000000"
definition WT_CHILD :: u32 where [layout]: "WT_CHILD = 0x80000001"
definition WT_KSEM :: u32 where [layout]: "WT_KSEM = 0x100"
definition WT_TIMER :: u32 where [layout]: "WT_TIMER = 0x80000002"
definition WT_KBD :: u32 where [layout]: "WT_KBD = 0x80000004"

record sched_state =
  procs :: "addr \<Rightarrow> proc_struct"
  current :: addr
  idleproc :: addr
  run_links :: links
  rq_head :: addr
  proc_num :: u32
  max_time_slice :: int
  run_pool :: pool
  lab6_run_pool :: addr

definition upd_proc :: "addr \<Rightarrow> (proc_struct \<Rightarrow> proc_struct) \<Rightarrow> sched_state \<Rightarrow> sched_state" where
  "upd_proc p f s = s\<lparr>procs := (procs s)(p := f (procs s p))\<rparr>"

text \<open>The values \<^verbatim>\<open>alloc_proc\<close> gives to these fields.\<close>

definition alloc_proc_fields :: proc_struct where
  "alloc_proc_fields =
     \<lparr>state = PROC_UNINIT, pid = -1, runs = 0, need_resched = False, flags = 0, exit_code = 0,
      wait_state = 0, on_rq = False, time_slice = 0, lab6_stride = 0, lab6_priority = 0,
      sjf_expected = 0\<rparr>"

lemma upd_proc_simps [simp]:
  "procs (upd_proc p f s) q = (if q = p then f (procs s p) else procs s q)"
  "current (upd_proc p f s) = current s"
  "idleproc (upd_proc p f s) = idleproc s"
  "run_links (upd_proc p f s) = run_links s"
  "rq_head (upd_proc p f s) = rq_head s"
  "proc_num (upd_proc p f s) = proc_num s"
  "max_time_slice (upd_proc p f s) = max_time_slice s"
  "run_pool (upd_proc p f s) = run_pool s"
  "lab6_run_pool (upd_proc p f s) = lab6_run_pool s"
  by (simp_all add: upd_proc_def)

section \<open>What queue operations leave alone\<close>

text \<open>
  No queue operation changes which process runs, the life-cycle fields of a process or
  the identity of the queue.
\<close>

definition life :: "proc_struct \<Rightarrow> proc_state \<times> int \<times> int \<times> u32 \<times> u32" where
  "life q = (state q, pid q, runs q, wait_state q, flags q)"

definition same_life :: "sched_state \<Rightarrow> sched_state \<Rightarrow> bool" where
  "same_life s s' \<longleftrightarrow>
     current s' = current s \<and> idleproc s' = idleproc s \<and> rq_head s' = rq_head s \<and>
     (\<forall>q. life (procs s' q) = life (procs s q))"

lemma same_life_refl [simp]: "same_life s s"
  by (simp add: same_life_def)

lemma same_life_trans: "same_life s t \<Longrightarrow> same_life t u \<Longrightarrow> same_life s u"
  by (simp add: same_life_def)

lemma same_lifeD:
  assumes "same_life s s'"
  shows "current s' = current s" and "idleproc s' = idleproc s" and "rq_head s' = rq_head s"
    and "state (procs s' q) = state (procs s q)" and "wait_state (procs s' q) = wait_state (procs s q)"
    and "pid (procs s' q) = pid (procs s q)" and "runs (procs s' q) = runs (procs s q)"
  using assms by (auto simp: same_life_def life_def)

text \<open>The other way round: the run queue and the fields the classes read are unchanged.\<close>

definition qfields :: "proc_struct \<Rightarrow> bool \<times> u32 \<times> u32 \<times> u32" where
  "qfields q = (on_rq q, lab6_stride q, lab6_priority q, sjf_expected q)"

definition same_queue :: "sched_state \<Rightarrow> sched_state \<Rightarrow> bool" where
  "same_queue s s' \<longleftrightarrow>
     run_links s' = run_links s \<and> rq_head s' = rq_head s \<and> proc_num s' = proc_num s \<and>
     run_pool s' = run_pool s \<and> lab6_run_pool s' = lab6_run_pool s \<and>
     (\<forall>q. qfields (procs s' q) = qfields (procs s q))"

lemma same_queue_refl [simp]: "same_queue s s"
  by (simp add: same_queue_def)

lemma same_queue_trans: "same_queue s t \<Longrightarrow> same_queue t u \<Longrightarrow> same_queue s u"
  by (simp add: same_queue_def)

lemma same_queue_upd:
  "(\<And>q. qfields (f q) = qfields q) \<Longrightarrow> same_queue s (upd_proc p f s)"
  by (simp add: same_queue_def)

lemma same_queue_current [simp]: "same_queue s (s\<lparr>current := c\<rparr>)"
  by (simp add: same_queue_def)

section \<open>A ring with self-linked entries outside\<close>

text \<open>
  \<open>ring_inv l h xs\<close>: the ring at \<open>h\<close> holds \<open>xs\<close>, and every other entry is its own neighbour,
  as \<^verbatim>\<open>list_init\<close> and \<^verbatim>\<open>list_del_init\<close> leave it. The assertions of the schedulers test just this.
\<close>

definition ring_inv :: "links \<Rightarrow> addr \<Rightarrow> addr list \<Rightarrow> bool" where
  "ring_inv l h xs \<longleftrightarrow> clist l h xs \<and> (\<forall>p. p \<notin> set (h # xs) \<longrightarrow> list_empty p l)"

lemma nxt_list_add_before:
  assumes "clist l h (xs @ ys)" and "p \<noteq> last (h # xs)" and "p \<noteq> e"
  shows "nxt (list_add_before (hd (ys @ [h])) e l) p = nxt l p"
  using assms list_add_before_after [OF assms(1), of e] by (simp add: list_h_defs)

lemma ring_insert:
  assumes r: "ring_inv l h (xs @ ys)" and e: "e \<notin> set (h # xs @ ys)"
  shows "ring_inv (list_add_before (hd (ys @ [h])) e l) h (xs @ e # ys)"
proof -
  have c: "clist l h (xs @ ys)" using r by (simp add: ring_inv_def)
  have "list_empty p (list_add_before (hd (ys @ [h])) e l)" if "p \<notin> set (h # xs @ e # ys)" for p
  proof -
    have "p \<noteq> last (h # xs)" using that last_in_set [of "h # xs"] by auto
    then show ?thesis
      using nxt_list_add_before [OF c, of p e] that r by (auto simp: ring_inv_def list_empty_def)
  qed
  with clist_add_before [OF c e] show ?thesis by (simp add: ring_inv_def)
qed

lemma ring_push:
  "ring_inv l h xs \<Longrightarrow> e \<notin> set (h # xs) \<Longrightarrow> ring_inv (list_add_before h e l) h (xs @ [e])"
  using ring_insert [of l h xs "[]" e] by simp

lemma ring_remove:
  assumes r: "ring_inv l h (xs @ x # ys)"
  shows "ring_inv (list_del_init x l) h (xs @ ys)"
proof -
  have c: "clist l h (xs @ x # ys)" using r by (simp add: ring_inv_def)
  have pn: "prv l x = last (h # xs)" using clist_prev [OF c] by (simp add: list_prev_def)
  have "list_empty p (list_del_init x l)" if "p \<notin> set (h # xs @ ys)" for p
  proof (cases "p = x")
    case True
    then show ?thesis by (simp add: list_del_init_self)
  next
    case False
    have "p \<noteq> prv l x" using that pn last_in_set [of "h # xs"] by auto
    moreover have "list_empty p l" using that False r by (auto simp: ring_inv_def)
    ultimately show ?thesis using False by (simp add: list_h_defs)
  qed
  with clist_del_init [OF c] show ?thesis by (simp add: ring_inv_def)
qed

lemma ring_remove_mem:
  assumes "ring_inv l h xs" and "x \<in> set xs"
  shows "ring_inv (list_del_init x l) h (remove1 x xs)"
proof -
  obtain ys zs where xs: "xs = ys @ x # zs" "x \<notin> set ys"
    using assms(2) by (meson split_list_first)
  with ring_remove [of l h ys x zs] assms(1) show ?thesis
    by (simp add: remove1_append)
qed

lemma ring_linked: "ring_inv l h xs \<Longrightarrow> x \<in> set xs \<Longrightarrow> \<not> list_empty x l"
  by (auto simp: ring_inv_def clist_member_not_self)

lemma ring_unlinked: "ring_inv l h xs \<Longrightarrow> x \<notin> set (h # xs) \<Longrightarrow> list_empty x l"
  by (simp add: ring_inv_def)

lemma ring_first: "ring_inv l h xs \<Longrightarrow> list_next h l = hd (xs @ [h])"
  by (simp add: ring_inv_def clist_next_head)

lemma ring_distinct: "ring_inv l h xs \<Longrightarrow> distinct (h # xs)"
  by (simp add: ring_inv_def clist_def)

lemmas ring_facts = ring_push ring_remove_mem ring_linked ring_unlinked ring_first ring_distinct

end
