(* ===== verification/SchedClasses.thy ===== *)
theory SchedClasses
  imports Proc
begin

text \<open>
  The scheduling classes: round robin (\<^verbatim>\<open>default_sched.c\<close>), FIFO and shortest job first
  (\<^verbatim>\<open>lab6\<close>). \<^verbatim>\<open>struct sched_class\<close> is a record of
  functions, as in the code. The locale \<open>sched_policy\<close> is what the core scheduler relies on;
  every class is an instance of it.
\<close>

record sched_class =
  cls_name :: string
  cls_init :: "sched_state \<Rightarrow> sched_state"
  cls_enqueue :: "addr \<Rightarrow> sched_state \<Rightarrow> sched_state option"
  cls_dequeue :: "addr \<Rightarrow> sched_state \<Rightarrow> sched_state option"
  cls_pick_next :: "sched_state \<Rightarrow> (addr \<times> sched_state) option"
  cls_proc_tick :: "addr \<Rightarrow> sched_state \<Rightarrow> sched_state"

section \<open>Round robin\<close>

definition RR_init :: "sched_state \<Rightarrow> sched_state" where
  "RR_init s = s\<lparr>run_links := list_init (rq_head s) (run_links s), proc_num := 0\<rparr>"

definition RR_enqueue :: "addr \<Rightarrow> sched_state \<Rightarrow> sched_state option" where
  "RR_enqueue proc s = do {
     ensure (list_empty proc (run_links s));
     let s = s\<lparr>run_links := list_add_before (rq_head s) proc (run_links s)\<rparr>;
     let s = (if time_slice (procs s proc) = 0 \<or> time_slice (procs s proc) > max_time_slice s
              then upd_proc proc (\<lambda>q. q\<lparr>time_slice := max_time_slice s\<rparr>) s else s);
     let s = upd_proc proc (\<lambda>q. q\<lparr>on_rq := True\<rparr>) s;
     Some (s\<lparr>proc_num := proc_num s + 1\<rparr>)
   }"

definition RR_dequeue :: "addr \<Rightarrow> sched_state \<Rightarrow> sched_state option" where
  "RR_dequeue proc s = do {
     ensure (\<not> list_empty proc (run_links s) \<and> on_rq (procs s proc));
     let s = s\<lparr>run_links := list_del_init proc (run_links s)\<rparr>;
     Some (s\<lparr>proc_num := proc_num s - 1\<rparr>)
   }"

definition RR_pick_next :: "sched_state \<Rightarrow> (addr \<times> sched_state) option" where
  "RR_pick_next s =
     (let le = list_next (rq_head s) (run_links s)
      in if le \<noteq> rq_head s then Some (le, s) else Some (0, s))"

definition RR_proc_tick :: "addr \<Rightarrow> sched_state \<Rightarrow> sched_state" where
  "RR_proc_tick proc s =
     (let s = (if time_slice (procs s proc) > 0
               then upd_proc proc (\<lambda>q. q\<lparr>time_slice := time_slice q - 1\<rparr>) s else s)
      in if time_slice (procs s proc) = 0
         then upd_proc proc (\<lambda>q. q\<lparr>need_resched := True\<rparr>) s else s)"

definition default_sched_class :: sched_class where
  "default_sched_class =
     \<lparr>cls_name = ''RR_scheduler'', cls_init = RR_init, cls_enqueue = RR_enqueue,
      cls_dequeue = RR_dequeue, cls_pick_next = RR_pick_next, cls_proc_tick = RR_proc_tick\<rparr>"

section \<open>FIFO\<close>

definition fifo_init :: "sched_state \<Rightarrow> sched_state" where
  "fifo_init s = s\<lparr>run_links := list_init (rq_head s) (run_links s), proc_num := 0\<rparr>"

definition fifo_enqueue :: "addr \<Rightarrow> sched_state \<Rightarrow> sched_state option" where
  "fifo_enqueue proc s = do {
     ensure (list_empty proc (run_links s));
     let s = s\<lparr>run_links := list_add_before (rq_head s) proc (run_links s)\<rparr>;
     let s = upd_proc proc (\<lambda>q. q\<lparr>on_rq := True\<rparr>) s;
     Some (s\<lparr>proc_num := proc_num s + 1\<rparr>)
   }"

definition fifo_dequeue :: "addr \<Rightarrow> sched_state \<Rightarrow> sched_state option" where
  "fifo_dequeue proc s = do {
     ensure (\<not> list_empty proc (run_links s) \<and> on_rq (procs s proc));
     let s = s\<lparr>run_links := list_del_init proc (run_links s)\<rparr>;
     Some (s\<lparr>proc_num := proc_num s - 1\<rparr>)
   }"

definition fifo_pick_next :: "sched_state \<Rightarrow> (addr \<times> sched_state) option" where
  "fifo_pick_next s =
     (let le = list_next (rq_head s) (run_links s)
      in if le \<noteq> rq_head s then Some (le, s) else Some (0, s))"

definition fifo_proc_tick :: "addr \<Rightarrow> sched_state \<Rightarrow> sched_state" where
  "fifo_proc_tick proc s = s"

definition fifo_sched_class :: sched_class where
  "fifo_sched_class =
     \<lparr>cls_name = ''FIFO_scheduler'', cls_init = fifo_init, cls_enqueue = fifo_enqueue,
      cls_dequeue = fifo_dequeue, cls_pick_next = fifo_pick_next, cls_proc_tick = fifo_proc_tick\<rparr>"

section \<open>Shortest job first\<close>

definition sjf_len :: "proc_struct \<Rightarrow> u32" where
  "sjf_len q = (if sjf_expected q = 0 then - 1 else sjf_expected q)"

text \<open>The loop of \<^verbatim>\<open>sjf_enqueue\<close>: the first entry with a greater expected length, or the head.\<close>

partial_function (option) sjf_find :: "addr \<Rightarrow> u32 \<Rightarrow> sched_state \<Rightarrow> addr option" where
  "sjf_find le mylen s =
     (if le \<noteq> rq_head s then
        (if mylen < sjf_len (procs s le) then Some le
         else sjf_find (list_next le (run_links s)) mylen s)
      else Some le)"

definition sjf_enqueue :: "addr \<Rightarrow> sched_state \<Rightarrow> sched_state option" where
  "sjf_enqueue proc s = do {
     ensure (list_empty proc (run_links s));
     le \<leftarrow> sjf_find (list_next (rq_head s) (run_links s)) (sjf_len (procs s proc)) s;
     let s = s\<lparr>run_links := list_add_before le proc (run_links s)\<rparr>;
     let s = upd_proc proc (\<lambda>q. q\<lparr>on_rq := True\<rparr>) s;
     Some (s\<lparr>proc_num := proc_num s + 1\<rparr>)
   }"

definition sjf_init :: "sched_state \<Rightarrow> sched_state" where
  "sjf_init s = s\<lparr>run_links := list_init (rq_head s) (run_links s), proc_num := 0\<rparr>"

definition sjf_dequeue :: "addr \<Rightarrow> sched_state \<Rightarrow> sched_state option" where
  "sjf_dequeue proc s = do {
     ensure (\<not> list_empty proc (run_links s) \<and> on_rq (procs s proc));
     let s = s\<lparr>run_links := list_del_init proc (run_links s)\<rparr>;
     Some (s\<lparr>proc_num := proc_num s - 1\<rparr>)
   }"

definition sjf_pick_next :: "sched_state \<Rightarrow> (addr \<times> sched_state) option" where
  "sjf_pick_next s =
     (let le = list_next (rq_head s) (run_links s)
      in if le \<noteq> rq_head s then Some (le, s) else Some (0, s))"

definition sjf_proc_tick :: "addr \<Rightarrow> sched_state \<Rightarrow> sched_state" where
  "sjf_proc_tick proc s = s"

definition sjf_sched_class :: sched_class where
  "sjf_sched_class =
     \<lparr>cls_name = ''SJF_scheduler'', cls_init = sjf_init, cls_enqueue = sjf_enqueue,
      cls_dequeue = sjf_dequeue, cls_pick_next = sjf_pick_next, cls_proc_tick = sjf_proc_tick\<rparr>"

section \<open>The contract of a scheduling class\<close>

text \<open>
  \<open>ready s P\<close>: the run queue is well formed and holds exactly the processes \<open>P\<close>.
  \<open>adm s P p\<close>: \<open>p\<close> may join them. A class enqueues what it is given, picks one of the
  processes it holds (\<^verbatim>\<open>NULL\<close> only when it holds none) and, when that one is dequeued,
  holds the others.
\<close>

locale sched_policy =
  fixes cls :: sched_class
    and fresh :: "sched_state \<Rightarrow> bool"
    and ready :: "sched_state \<Rightarrow> addr set \<Rightarrow> bool"
    and adm :: "sched_state \<Rightarrow> addr set \<Rightarrow> addr \<Rightarrow> bool"
  assumes init_ready: "fresh s \<Longrightarrow> ready (cls_init cls s) {}"
    and enqueue_ready: "ready s P \<Longrightarrow> adm s P p \<Longrightarrow> p \<notin> P \<Longrightarrow>
      \<exists>s'. cls_enqueue cls p s = Some s' \<and> ready s' (insert p P) \<and> same_life s s'"
    and pick_none: "ready s {} \<Longrightarrow> cls_pick_next cls s = Some (0, s)"
    and pick_some: "ready s P \<Longrightarrow> P \<noteq> {} \<Longrightarrow>
      \<exists>p s1 s2. cls_pick_next cls s = Some (p, s1) \<and> p \<in> P \<and> p \<noteq> 0 \<and>
        cls_dequeue cls p s1 = Some s2 \<and> ready s2 (P - {p}) \<and> adm s2 (P - {p}) p \<and> same_life s s2"
    and ready_frame: "ready s P \<Longrightarrow> same_queue s s' \<Longrightarrow> ready s' P"
    and adm_frame: "adm s P p \<Longrightarrow> same_queue s s' \<Longrightarrow> adm s' P p"
    and ready_no_null: "ready s P \<Longrightarrow> 0 \<notin> P"
    and tick_frame: "ready s P \<Longrightarrow> p \<notin> P \<Longrightarrow>
      ready (cls_proc_tick cls p s) P \<and> same_life s (cls_proc_tick cls p s)"

section \<open>The list classes\<close>

text \<open>\<open>lq s xs\<close>: the run list of \<open>s\<close> is \<open>xs\<close>, in order, with the bookkeeping that goes with it.\<close>

definition lq :: "sched_state \<Rightarrow> addr list \<Rightarrow> bool" where
  "lq s xs \<longleftrightarrow>
     ring_inv (run_links s) (rq_head s) xs \<and> 0 \<notin> set xs \<and>
     proc_num s = of_nat (length xs) \<and> (\<forall>p\<in>set xs. on_rq (procs s p))"

definition lfresh :: "sched_state \<Rightarrow> bool" where
  "lfresh s \<longleftrightarrow> (\<forall>p. p \<noteq> rq_head s \<longrightarrow> list_empty p (run_links s))"

definition lready :: "sched_state \<Rightarrow> addr set \<Rightarrow> bool" where
  "lready s P \<longleftrightarrow> (\<exists>xs. lq s xs \<and> set xs = P)"

definition ladm :: "sched_state \<Rightarrow> addr set \<Rightarrow> addr \<Rightarrow> bool" where
  "ladm s P p \<longleftrightarrow> p \<noteq> 0 \<and> p \<noteq> rq_head s"

lemma ring_inv_init:
  "(\<And>p. p \<noteq> h \<Longrightarrow> list_empty p l) \<Longrightarrow> ring_inv (list_init h l) h []"
  by (simp add: ring_inv_def clist_init) (simp add: list_empty_def list_init_def)

lemma lq_init: "lfresh s \<Longrightarrow>
    lq (s\<lparr>run_links := list_init (rq_head s) (run_links s), proc_num := 0\<rparr>) []"
  by (auto simp: lq_def lfresh_def intro: ring_inv_init)

lemma lq_frame: "lq s xs \<Longrightarrow> same_queue s s' \<Longrightarrow> lq s' xs"
  by (auto simp: lq_def same_queue_def qfields_def)

lemma lq_distinct: "lq s xs \<Longrightarrow> distinct xs \<and> rq_head s \<notin> set xs"
  using ring_distinct by (fastforce simp: lq_def)

lemma lq_unlinked: "lq s xs \<Longrightarrow> ladm s P p \<Longrightarrow> p \<notin> set xs \<Longrightarrow> list_empty p (run_links s)"
  by (auto simp: lq_def ladm_def intro: ring_unlinked)

lemma lq_first: "lq s xs \<Longrightarrow> list_next (rq_head s) (run_links s) = hd (xs @ [rq_head s])"
  by (auto simp: lq_def dest: ring_first)

text \<open>Insertion before the suffix \<open>zs\<close>, with the field updates every class makes.\<close>

lemma lq_insert:
  assumes q: "lq s (ys @ zs)" and p: "ladm s P p" "p \<notin> set (ys @ zs)"
  shows "lq ((upd_proc p (\<lambda>q. q\<lparr>on_rq := True\<rparr>)
              (s\<lparr>run_links := list_add_before (hd (zs @ [rq_head s])) p (run_links s)\<rparr>))
            \<lparr>proc_num := proc_num s + 1\<rparr>) (ys @ p # zs)"
  using assms ring_insert [of "run_links s" "rq_head s" ys zs p]
  by (auto simp: lq_def ladm_def)

lemma lq_dequeue:
  assumes q: "lq s xs" and p: "p \<in> set xs"
  shows "lq (s\<lparr>run_links := list_del_init p (run_links s), proc_num := proc_num s - 1\<rparr>) (remove1 p xs)"
    and "\<not> list_empty p (run_links s) \<and> on_rq (procs s p)"
proof -
  have len: "length xs = Suc (length (remove1 p xs))"
    using p length_pos_if_in_set [OF p] by (simp add: length_remove1)
  show "lq (s\<lparr>run_links := list_del_init p (run_links s), proc_num := proc_num s - 1\<rparr>) (remove1 p xs)"
    using q p len set_remove1_subset [of p xs] by (auto simp: lq_def intro: ring_remove_mem)
  show "\<not> list_empty p (run_links s) \<and> on_rq (procs s p)"
    using q p by (auto simp: lq_def dest: ring_linked)
qed

lemma same_life_links [simp]:
  "same_life s (s\<lparr>run_links := l, proc_num := n\<rparr>)"
  "same_life s (s\<lparr>run_pool := pl, lab6_run_pool := a, proc_num := n\<rparr>)"
  by (simp_all add: same_life_def)

lemma RR_enqueue_spec:
  assumes "lq s xs" and "ladm s P p" and "p \<notin> set xs"
  shows "\<exists>s'. RR_enqueue p s = Some s' \<and> lq s' (xs @ [p]) \<and> same_life s s'"
proof -
  have e: "list_empty p (run_links s)" using assms by (rule lq_unlinked)
  define t where "t = (if time_slice (procs s p) = 0 \<or> time_slice (procs s p) > max_time_slice s
              then upd_proc p (\<lambda>q. q\<lparr>time_slice := max_time_slice s\<rparr>) s else s)"
  have t: "same_queue s t" "same_life s t" "run_links t = run_links s" "rq_head t = rq_head s"
    "proc_num t = proc_num s" "ladm t P p"
    using assms(2) by (simp_all add: t_def same_queue_upd qfields_def same_life_def life_def ladm_def)
  have "lq t (xs @ [])" using lq_frame [OF assms(1) t(1)] by simp
  from lq_insert [OF this t(6)] assms(3) t
  have "lq ((upd_proc p (\<lambda>q. q\<lparr>on_rq := True\<rparr>)
      (t\<lparr>run_links := list_add_before (rq_head s) p (run_links s)\<rparr>))\<lparr>proc_num := proc_num s + 1\<rparr>) (xs @ [p])"
    by simp
  moreover have "RR_enqueue p s = Some ((upd_proc p (\<lambda>q. q\<lparr>on_rq := True\<rparr>)
      (t\<lparr>run_links := list_add_before (rq_head s) p (run_links s)\<rparr>))\<lparr>proc_num := proc_num s + 1\<rparr>)"
    using e by (simp add: RR_enqueue_def Let_def upd_proc_def t_def)
  ultimately show ?thesis using t(2) by (auto simp: same_life_def life_def)
qed

lemma RR_dequeue_spec:
  assumes "lq s xs" and "p \<in> set xs"
  shows "\<exists>s'. RR_dequeue p s = Some s' \<and> lq s' (remove1 p xs) \<and> same_life s s'"
  using lq_dequeue [OF assms] by (auto simp: RR_dequeue_def Let_def)

lemma RR_pick_next_spec:
  assumes "lq s xs"
  shows "RR_pick_next s = Some (case xs of [] \<Rightarrow> 0 | p # _ \<Rightarrow> p, s)"
  using lq_first [OF assms] lq_distinct [OF assms]
  by (auto simp: RR_pick_next_def Let_def split: list.splits)

lemma RR_proc_tick_frame:
  "same_queue s (RR_proc_tick p s) \<and> same_life s (RR_proc_tick p s)"
  by (simp add: RR_proc_tick_def Let_def same_queue_def same_life_def qfields_def life_def)

text \<open>FIFO and SJF dequeue and pick exactly as round robin does.\<close>

lemma fifo_as_RR: "fifo_dequeue = RR_dequeue" "fifo_pick_next = RR_pick_next" "fifo_init = RR_init"
  by (simp_all add: fun_eq_iff fifo_dequeue_def RR_dequeue_def fifo_pick_next_def RR_pick_next_def
      fifo_init_def RR_init_def)

lemma sjf_as_RR: "sjf_dequeue = RR_dequeue" "sjf_pick_next = RR_pick_next" "sjf_init = RR_init"
  by (simp_all add: fun_eq_iff sjf_dequeue_def RR_dequeue_def sjf_pick_next_def RR_pick_next_def
      sjf_init_def RR_init_def)

lemma fifo_enqueue_spec:
  assumes "lq s xs" and "ladm s P p" and "p \<notin> set xs"
  shows "\<exists>s'. fifo_enqueue p s = Some s' \<and> lq s' (xs @ [p]) \<and> same_life s s'"
  using lq_insert [of s xs "[]" P p] lq_unlinked [OF assms] assms
  by (auto simp: fifo_enqueue_def Let_def same_life_def life_def)

lemma sjf_find_spec:
  "lq s (ys @ zs) \<Longrightarrow>
    sjf_find (hd (zs @ [rq_head s])) k s =
      Some (hd (dropWhile (\<lambda>p. \<not> k < sjf_len (procs s p)) zs @ [rq_head s]))"
proof (induction zs arbitrary: ys)
  case Nil
  then show ?case by (simp add: sjf_find.simps)
next
  case (Cons z zs)
  have nz: "z \<noteq> rq_head s" using lq_distinct [OF Cons.prems] by auto
  have "list_next z (run_links s) = hd (zs @ [rq_head s])"
    using Cons.prems by (auto simp: lq_def ring_inv_def intro: clist_next)
  with Cons.IH [of "ys @ [z]"] Cons.prems nz show ?case
    by (simp add: sjf_find.simps [of z])
qed

definition sjf_insert :: "sched_state \<Rightarrow> addr \<Rightarrow> addr list \<Rightarrow> addr list" where
  "sjf_insert s p xs =
     (let le = (\<lambda>q. \<not> sjf_len (procs s p) < sjf_len (procs s q))
      in takeWhile le xs @ p # dropWhile le xs)"

lemma set_sjf_insert: "set (sjf_insert s p xs) = insert p (set xs)"
proof -
  have "set (takeWhile P xs) \<union> set (dropWhile P xs) = set xs" for P :: "addr \<Rightarrow> bool"
    by (metis set_append takeWhile_dropWhile_id)
  then show ?thesis by (auto simp: sjf_insert_def Let_def)
qed

lemma sjf_enqueue_spec:
  assumes "lq s xs" and "ladm s P p" and "p \<notin> set xs"
  shows "\<exists>s'. sjf_enqueue p s = Some s' \<and> lq s' (sjf_insert s p xs) \<and> same_life s s' \<and>
           (\<forall>q. sjf_expected (procs s' q) = sjf_expected (procs s q))"
proof -
  let ?le = "\<lambda>q. \<not> sjf_len (procs s p) < sjf_len (procs s q)"
  have f: "sjf_find (list_next (rq_head s) (run_links s)) (sjf_len (procs s p)) s =
      Some (hd (dropWhile ?le xs @ [rq_head s]))"
    using sjf_find_spec [of s "[]" xs] assms(1) lq_first [OF assms(1)] by simp
  have "lq s (takeWhile ?le xs @ dropWhile ?le xs)" using assms(1) by simp
  from lq_insert [OF this assms(2)] assms(3) f lq_unlinked [OF assms]
  show ?thesis
    by (auto simp: sjf_enqueue_def sjf_insert_def Let_def same_life_def life_def)
qed

text \<open>The SJF queue is sorted by expected length, and processes of equal length keep their order.\<close>

definition sjf_sorted :: "sched_state \<Rightarrow> addr list \<Rightarrow> bool" where
  "sjf_sorted s xs \<longleftrightarrow> sorted_wrt (\<lambda>p q. sjf_len (procs s p) \<le> sjf_len (procs s q)) xs"

lemma sjf_insert_sorted:
  assumes "sjf_sorted s xs"
  shows "sjf_sorted s (sjf_insert s p xs)"
  using assms unfolding sjf_sorted_def sjf_insert_def Let_def
proof (induction xs)
  case Nil
  then show ?case by simp
next
  case (Cons x xs)
  show ?case
  proof (cases "sjf_len (procs s p) < sjf_len (procs s x)")
    case True
    with Cons.prems show ?thesis by (auto intro: order_trans [OF less_imp_le])
  next
    case False
    let ?le = "\<lambda>q. \<not> sjf_len (procs s p) < sjf_len (procs s q)"
    have "set (takeWhile ?le xs) \<union> set (dropWhile ?le xs) = set xs"
      by (metis set_append takeWhile_dropWhile_id)
    with False Cons show ?thesis by (auto simp: not_less)
  qed
qed

lemma lready_dequeue_head:
  assumes "lq s (p # xs)"
  shows "\<exists>s'. RR_dequeue p s = Some s' \<and> lready s' (set (p # xs) - {p}) \<and> same_life s s'"
proof -
  from RR_dequeue_spec [OF assms, of p] obtain s'
    where "RR_dequeue p s = Some s'" "lq s' xs" "same_life s s'" by auto
  moreover have "set xs = set (p # xs) - {p}" using lq_distinct [OF assms] by auto
  ultimately show ?thesis unfolding lready_def by metis
qed

lemma RR_pick_some:
  assumes r: "lready s P" and ne: "P \<noteq> {}"
  shows "\<exists>p s1 s2. RR_pick_next s = Some (p, s1) \<and> p \<in> P \<and> p \<noteq> 0 \<and>
      RR_dequeue p s1 = Some s2 \<and> lready s2 (P - {p}) \<and> ladm s2 (P - {p}) p \<and> same_life s s2"
proof -
  from r ne obtain p xs where q: "lq s (p # xs)" and P: "P = set (p # xs)"
    unfolding lready_def by (metis list.exhaust set_empty)
  from lready_dequeue_head [OF q] obtain s2
    where d: "RR_dequeue p s = Some s2" "lready s2 (P - {p})" "same_life s s2" using P by auto
  have "p \<noteq> 0 \<and> p \<noteq> rq_head s" using q lq_distinct [OF q] by (auto simp: lq_def)
  with d(3) have "ladm s2 (P - {p}) p" "p \<noteq> 0" by (auto simp: ladm_def same_life_def)
  with d P RR_pick_next_spec [OF q] show ?thesis by auto
qed

lemma lready_empty: "lready s {} \<longleftrightarrow> lq s []"
  by (auto simp: lready_def)

lemma lready_enqueue:
  assumes "\<And>xs. lq s xs \<Longrightarrow> p \<notin> set xs \<Longrightarrow>
      \<exists>s' ys. enq p s = Some s' \<and> lq s' ys \<and> set ys = insert p (set xs) \<and> same_life s s'"
    and "lready s P" and "p \<notin> P"
  shows "\<exists>s'. enq p s = Some s' \<and> lready s' (insert p P) \<and> same_life s s'"
  using assms unfolding lready_def by metis

lemma lready_frame: "lready s P \<Longrightarrow> same_queue s s' \<Longrightarrow> lready s' P"
  by (auto simp: lready_def intro: lq_frame)

lemma ladm_frame: "ladm s P p \<Longrightarrow> same_queue s s' \<Longrightarrow> ladm s' P p"
  by (simp add: ladm_def same_queue_def)

lemma lready_no_null: "lready s P \<Longrightarrow> 0 \<notin> P"
  by (auto simp: lready_def lq_def)

lemmas lready_laws = lready_frame ladm_frame lready_no_null

interpretation rr: sched_policy default_sched_class lfresh lready ladm
proof
  show "lready (cls_init default_sched_class s) {}" if "lfresh s" for s
    using lq_init [OF that] by (simp add: default_sched_class_def RR_init_def lready_empty)
  show "\<exists>s'. cls_enqueue default_sched_class p s = Some s' \<and> lready s' (insert p P) \<and> same_life s s'"
    if "lready s P" "ladm s P p" "p \<notin> P" for s P p
  proof -
    have "\<exists>s' ys. RR_enqueue p s = Some s' \<and> lq s' ys \<and> set ys = insert p (set xs) \<and> same_life s s'"
      if "lq s xs" "p \<notin> set xs" for xs
      using RR_enqueue_spec [OF that(1) \<open>ladm s P p\<close> that(2)] by fastforce
    from lready_enqueue [where enq = RR_enqueue and s = s and p = p, OF this that(1,3)]
    show ?thesis by (simp add: default_sched_class_def)
  qed
  show "cls_pick_next default_sched_class s = Some (0, s)" if "lready s {}" for s
    using that RR_pick_next_spec by (fastforce simp: default_sched_class_def lready_empty)
  show "\<exists>p s1 s2. cls_pick_next default_sched_class s = Some (p, s1) \<and> p \<in> P \<and> p \<noteq> 0 \<and>
      cls_dequeue default_sched_class p s1 = Some s2 \<and> lready s2 (P - {p}) \<and>
      ladm s2 (P - {p}) p \<and> same_life s s2" if "lready s P" "P \<noteq> {}" for s P
    using RR_pick_some [OF that] by (simp add: default_sched_class_def)
  show "lready (cls_proc_tick default_sched_class p s) P \<and>
      same_life s (cls_proc_tick default_sched_class p s)" if "lready s P" "p \<notin> P" for s P p
    using that RR_proc_tick_frame [of s p]
    by (auto simp: default_sched_class_def intro: lready_frame)
qed (fact lready_laws)+

interpretation ff: sched_policy fifo_sched_class lfresh lready ladm
proof
  show "lready (cls_init fifo_sched_class s) {}" if "lfresh s" for s
    using lq_init [OF that] by (simp add: fifo_sched_class_def fifo_init_def lready_empty)
  show "\<exists>s'. cls_enqueue fifo_sched_class p s = Some s' \<and> lready s' (insert p P) \<and> same_life s s'"
    if "lready s P" "ladm s P p" "p \<notin> P" for s P p
  proof -
    have "\<exists>s' ys. fifo_enqueue p s = Some s' \<and> lq s' ys \<and> set ys = insert p (set xs) \<and> same_life s s'"
      if "lq s xs" "p \<notin> set xs" for xs
      using fifo_enqueue_spec [OF that(1) \<open>ladm s P p\<close> that(2)] by fastforce
    from lready_enqueue [where enq = fifo_enqueue and s = s and p = p, OF this that(1,3)]
    show ?thesis by (simp add: fifo_sched_class_def)
  qed
  show "cls_pick_next fifo_sched_class s = Some (0, s)" if "lready s {}" for s
    using that RR_pick_next_spec by (fastforce simp: fifo_sched_class_def fifo_as_RR lready_empty)
  show "\<exists>p s1 s2. cls_pick_next fifo_sched_class s = Some (p, s1) \<and> p \<in> P \<and> p \<noteq> 0 \<and>
      cls_dequeue fifo_sched_class p s1 = Some s2 \<and> lready s2 (P - {p}) \<and>
      ladm s2 (P - {p}) p \<and> same_life s s2" if "lready s P" "P \<noteq> {}" for s P
    using RR_pick_some [OF that] by (simp add: fifo_sched_class_def fifo_as_RR)
  show "lready (cls_proc_tick fifo_sched_class p s) P \<and>
      same_life s (cls_proc_tick fifo_sched_class p s)" if "lready s P" "p \<notin> P" for s P p
    using that by (simp add: fifo_sched_class_def fifo_proc_tick_def)
qed (fact lready_laws)+

interpretation sj: sched_policy sjf_sched_class lfresh lready ladm
proof
  show "lready (cls_init sjf_sched_class s) {}" if "lfresh s" for s
    using lq_init [OF that] by (simp add: sjf_sched_class_def sjf_init_def lready_empty)
  show "\<exists>s'. cls_enqueue sjf_sched_class p s = Some s' \<and> lready s' (insert p P) \<and> same_life s s'"
    if "lready s P" "ladm s P p" "p \<notin> P" for s P p
  proof -
    have "\<exists>s' ys. sjf_enqueue p s = Some s' \<and> lq s' ys \<and> set ys = insert p (set xs) \<and> same_life s s'"
      if "lq s xs" "p \<notin> set xs" for xs
      using sjf_enqueue_spec [OF that(1) \<open>ladm s P p\<close> that(2)] set_sjf_insert by blast
    from lready_enqueue [where enq = sjf_enqueue and s = s and p = p, OF this that(1,3)]
    show ?thesis by (simp add: sjf_sched_class_def)
  qed
  show "cls_pick_next sjf_sched_class s = Some (0, s)" if "lready s {}" for s
    using that RR_pick_next_spec by (fastforce simp: sjf_sched_class_def sjf_as_RR lready_empty)
  show "\<exists>p s1 s2. cls_pick_next sjf_sched_class s = Some (p, s1) \<and> p \<in> P \<and> p \<noteq> 0 \<and>
      cls_dequeue sjf_sched_class p s1 = Some s2 \<and> lready s2 (P - {p}) \<and>
      ladm s2 (P - {p}) p \<and> same_life s s2" if "lready s P" "P \<noteq> {}" for s P
    using RR_pick_some [OF that] by (simp add: sjf_sched_class_def sjf_as_RR)
  show "lready (cls_proc_tick sjf_sched_class p s) P \<and>
      same_life s (cls_proc_tick sjf_sched_class p s)" if "lready s P" "p \<notin> P" for s P p
    using that by (simp add: sjf_sched_class_def sjf_proc_tick_def)
qed (fact lready_laws)+

section \<open>Properties\<close>

text \<open>
  \<^verbatim>\<open>sjf_enqueue\<close> keeps the run list sorted by expected length: on a well-formed sorted
  list it returns, and the list it leaves holds the new process too and is sorted again.
\<close>

theorem sjf_enqueue_sorted:
  assumes "lq s xs" and "sjf_sorted s xs" and "p \<notin> set xs" and "p \<noteq> 0" and "p \<noteq> rq_head s"
  shows "\<exists>s' ys. sjf_enqueue p s = Some s' \<and> lq s' ys \<and> set ys = insert p (set xs) \<and>
    sjf_sorted s' ys"
proof -
  have "ladm s {} p" using assms(4,5) by (simp add: ladm_def)
  from sjf_enqueue_spec [OF assms(1) this assms(3)] obtain s'
    where s': "sjf_enqueue p s = Some s'" "lq s' (sjf_insert s p xs)"
      "\<forall>q. sjf_expected (procs s' q) = sjf_expected (procs s q)" by blast
  have "sjf_len (procs s' q) = sjf_len (procs s q)" for q by (simp add: sjf_len_def s'(3))
  then have "sjf_sorted s' = sjf_sorted s" by (simp add: fun_eq_iff sjf_sorted_def)
  with s' sjf_insert_sorted [OF assms(2), of p] set_sjf_insert [of s p xs] show ?thesis
    by (intro exI [of _ s'] exI [of _ "sjf_insert s p xs"]) simp
qed

theorem sjf_enqueue_sorted_witness:
  "\<exists>s' ys. sjf_enqueue 12
     \<lparr>procs = (\<lambda>p. alloc_proc_fields\<lparr>on_rq := True, sjf_expected := of_nat p\<rparr>), current = 7,
      idleproc = 5, run_links = \<lparr>nxt = id(1 := 11, 11 := 13, 13 := 1),
      prv = id(11 := 1, 13 := 11, 1 := 13)\<rparr>, rq_head = 1, proc_num = 2, max_time_slice = 5,
      run_pool = \<lparr>parent = \<lambda>_. 0, left = \<lambda>_. 0, right = \<lambda>_. 0\<rparr>, lab6_run_pool = 0\<rparr> = Some s' \<and>
     lq s' ys \<and> set ys = {11, 12, 13}"
  using sjf_enqueue_sorted [of "\<lparr>procs = (\<lambda>p. alloc_proc_fields\<lparr>on_rq := True, sjf_expected := of_nat p\<rparr>),
      current = 7, idleproc = 5, run_links = \<lparr>nxt = id(1 := 11, 11 := 13, 13 := 1),
      prv = id(11 := 1, 13 := 11, 1 := 13)\<rparr>, rq_head = 1, proc_num = 2, max_time_slice = 5,
      run_pool = \<lparr>parent = \<lambda>_. 0, left = \<lambda>_. 0, right = \<lambda>_. 0\<rparr>, lab6_run_pool = 0\<rparr>" "[11, 13]" 12]
  by (auto simp: lq_def ring_inv_def clist_def list_empty_def sjf_sorted_def sjf_len_def
      alloc_proc_fields_def insert_commute)

end
