(* ===== verification/Stride.thy ===== *)
theory Stride
  imports SchedClasses
begin

text \<open>
  The stride scheduling class of \<^verbatim>\<open>kern/schedule/default_sched_stride.c\<close> (the branch with the
  skew heap). Strides are 32-bit words compared by the sign of their difference; as long as
  the strides in the queue lie within \<^verbatim>\<open>BIG_STRIDE\<close> of each other this is a linear order, the
  root of the heap is a process of least stride, and one scheduling round keeps the window.
\<close>

section \<open>Stride\<close>

definition BIG_STRIDE :: u32 where "BIG_STRIDE = 0x40000000"

definition proc_stride_comp_f :: "sched_state \<Rightarrow> addr \<Rightarrow> addr \<Rightarrow> int" where
  "proc_stride_comp_f s a b =
     (let c = sint (lab6_stride (procs s a) - lab6_stride (procs s b))
      in if c > 0 then 1 else if c = 0 then 0 else -1)"

definition stride_init :: "sched_state \<Rightarrow> sched_state" where
  "stride_init s =
     s\<lparr>run_links := list_init (rq_head s) (run_links s), lab6_run_pool := 0, proc_num := 0\<rparr>"

definition stride_enqueue :: "addr \<Rightarrow> sched_state \<Rightarrow> sched_state option" where
  "stride_enqueue proc s = do {
     (h, pl) \<leftarrow> skew_heap_insert (proc_stride_comp_f s) (lab6_run_pool s) proc (run_pool s);
     let s = s\<lparr>run_pool := pl, lab6_run_pool := h\<rparr>;
     let s = (if time_slice (procs s proc) = 0 \<or> time_slice (procs s proc) > max_time_slice s
              then upd_proc proc (\<lambda>q. q\<lparr>time_slice := max_time_slice s\<rparr>) s else s);
     let s = upd_proc proc (\<lambda>q. q\<lparr>on_rq := True\<rparr>) s;
     Some (s\<lparr>proc_num := proc_num s + 1\<rparr>)
   }"

definition stride_dequeue :: "addr \<Rightarrow> sched_state \<Rightarrow> sched_state option" where
  "stride_dequeue proc s = do {
     ensure (on_rq (procs s proc) \<and> proc_num s > 0);
     (h, pl) \<leftarrow> skew_heap_remove (proc_stride_comp_f s) (lab6_run_pool s) proc (run_pool s);
     let s = s\<lparr>run_pool := pl, lab6_run_pool := h\<rparr>;
     Some (s\<lparr>proc_num := proc_num s - 1\<rparr>)
   }"

text \<open>
  \<^verbatim>\<open>BIG_STRIDE / proc->lab6_priority\<close> is undefined for priority 0, which is the value
  \<^verbatim>\<open>alloc_proc\<close> gives; the model has no result there.
\<close>

definition stride_pick_next :: "sched_state \<Rightarrow> (addr \<times> sched_state) option" where
  "stride_pick_next s =
     (if lab6_run_pool s = 0 then Some (0, s)
      else do {
        let proc = lab6_run_pool s;
        ensure (lab6_priority (procs s proc) \<noteq> 0);
        let s = upd_proc proc
          (\<lambda>q. q\<lparr>lab6_stride := lab6_stride q + BIG_STRIDE div lab6_priority q\<rparr>) s;
        Some (proc, s)
      })"

definition stride_proc_tick :: "addr \<Rightarrow> sched_state \<Rightarrow> sched_state" where
  "stride_proc_tick proc s =
     (let s = (if time_slice (procs s proc) > 0
               then upd_proc proc (\<lambda>q. q\<lparr>time_slice := time_slice q - 1\<rparr>) s else s)
      in if time_slice (procs s proc) = 0
         then upd_proc proc (\<lambda>q. q\<lparr>need_resched := True\<rparr>) s else s)"

definition stride_sched_class :: sched_class where
  "stride_sched_class =
     \<lparr>cls_name = ''stride_scheduler'', cls_init = stride_init, cls_enqueue = stride_enqueue,
      cls_dequeue = stride_dequeue, cls_pick_next = stride_pick_next, cls_proc_tick = stride_proc_tick\<rparr>"

section \<open>The order on strides within a window\<close>

lemma window_int:
  "a \<le> 2 ^ 30 \<Longrightarrow> b \<le> 2 ^ 30 \<Longrightarrow> - (2 ^ 31) \<le> int a - int b \<and> int a - int b < 2 ^ 31"
  by simp

lemma sint_sub_window:
  fixes x y :: u32
  assumes "unat x \<le> 2 ^ 30" "unat y \<le> 2 ^ 30"
  shows "sint (x - y) = int (unat x) - int (unat y)"
proof -
  have "x - y = word_of_int (int (unat x) - int (unat y))" by simp
  then have "sint (x - y) = sint (word_of_int (int (unat x) - int (unat y)) :: u32)"
    by (simp only:)
  also have "\<dots> = signed_take_bit 31 (int (unat x) - int (unat y))"
    by (subst sint_sbintrunc') simp
  also have "\<dots> = int (unat x) - int (unat y)"
    using window_int [of "unat x" "unat y"] assms
    by (intro signed_take_bit_int_eq_self) (simp_all only: semiring_norm)
  finally show ?thesis .
qed

definition skey :: "sched_state \<Rightarrow> u32 \<Rightarrow> addr \<Rightarrow> nat" where
  "skey s base p = unat (lab6_stride (procs s p) - base)"

definition stride_window :: "sched_state \<Rightarrow> addr set \<Rightarrow> u32 \<Rightarrow> bool" where
  "stride_window s V base \<longleftrightarrow> (\<forall>p\<in>V. skey s base p \<le> unat BIG_STRIDE)"

lemma BIG_STRIDE_unat: "unat BIG_STRIDE = 2 ^ 30"
  by (simp add: BIG_STRIDE_def)

lemma comp_stride_iff:
  assumes "skey s base a \<le> 2 ^ 30" and "skey s base b \<le> 2 ^ 30"
  shows "proc_stride_comp_f s a b = -1 \<longleftrightarrow> skey s base a < skey s base b"
proof -
  let ?a = "lab6_stride (procs s a)" and ?b = "lab6_stride (procs s b)"
  have "sint (?a - ?b) = sint ((?a - base) - (?b - base))" by simp
  also have "\<dots> = int (skey s base a) - int (skey s base b)"
    using sint_sub_window [OF assms [unfolded skey_def]] by (simp only: skey_def)
  finally show ?thesis
    by (simp only: proc_stride_comp_f_def Let_def) simp
qed

lemma stride_orders:
  "stride_window s V base \<Longrightarrow> orders (proc_stride_comp_f s) (skey s base) V"
  by (simp add: stride_window_def orders_def comp_stride_iff BIG_STRIDE_unat)

text \<open>The heap order does not depend on the base the window is measured from.\<close>

lemma heap_ord_change:
  assumes "orders cmp k1 V" and "orders cmp k2 V"
  shows "set_tree t \<subseteq> V \<Longrightarrow> heap_ord k1 t \<Longrightarrow> heap_ord k2 t"
proof (induction t)
  case Leaf
  then show ?case by simp
next
  case (Node l x r)
  have "k1 x \<le> k1 y \<longleftrightarrow> k2 x \<le> k2 y" if "y \<in> set_tree l \<union> set_tree r" for y
    using assms that Node.prems(1) unfolding orders_def by (auto simp: not_less [symmetric])
  with Node show ?case by auto
qed

section \<open>The class meets the contract\<close>

definition sready :: "sched_state \<Rightarrow> addr set \<Rightarrow> bool" where
  "sready s P \<longleftrightarrow> (\<exists>t base.
     heap_at (run_pool s) (lab6_run_pool s) t \<and> set_tree t = P \<and> stride_window s P base \<and>
     heap_ord (skey s base) t \<and> proc_num s = of_nat (size t) \<and> size t < 2 ^ 32 \<and>
     (\<forall>p\<in>P. on_rq (procs s p) \<and> lab6_priority (procs s p) \<noteq> 0))"

definition sadm :: "sched_state \<Rightarrow> addr set \<Rightarrow> addr \<Rightarrow> bool" where
  "sadm s P p \<longleftrightarrow> p \<noteq> 0 \<and> lab6_priority (procs s p) \<noteq> 0 \<and> card P + 1 < 2 ^ 32 \<and>
     (\<exists>base. stride_window s (insert p P) base)"

lemma size_card: "distinct (inorder t) \<Longrightarrow> size t = card (set_tree t)"
  by (metis distinct_card length_inorder set_inorder)

lemma size_merge_tree: "size (merge_tree cmp t1 t2) = size t1 + size t2"
  by (induction cmp t1 t2 rule: merge_tree.induct) auto

lemma stride_enqueue_spec:
  assumes r: "sready s P" and a: "sadm s P p" and n: "p \<notin> P"
  shows "\<exists>s'. stride_enqueue p s = Some s' \<and> sready s' (insert p P) \<and> same_life s s'"
proof -
  let ?cmp = "proc_stride_comp_f s"
  from r obtain t base where t: "heap_at (run_pool s) (lab6_run_pool s) t" "set_tree t = P"
    "stride_window s P base" "heap_ord (skey s base) t" "proc_num s = of_nat (size t)"
    and q: "\<forall>p\<in>P. on_rq (procs s p) \<and> lab6_priority (procs s p) \<noteq> 0"
    by (auto simp: sready_def)
  from a obtain base' where b': "stride_window s (insert p P) base'" and p0: "p \<noteq> 0"
    "lab6_priority (procs s p) \<noteq> 0" and card: "card P + 1 < 2 ^ 32" by (auto simp: sadm_def)
  let ?t = "merge_tree ?cmp t (Node Leaf p Leaf)"
  from skew_heap_insert_spec [OF t(1) p0(1), of ?cmp] t(2) n obtain h pl
    where ins: "skew_heap_insert ?cmp (lab6_run_pool s) p (run_pool s) = Some (h, pl)"
      and h': "heap_at pl h ?t" by auto
  define u where "u = s\<lparr>run_pool := pl, lab6_run_pool := h\<rparr>"
  define v where "v = (if time_slice (procs s p) = 0 \<or> time_slice (procs s p) > max_time_slice s
              then upd_proc p (\<lambda>q. q\<lparr>time_slice := max_time_slice s\<rparr>) u else u)"
  define s' where "s' = (upd_proc p (\<lambda>q. q\<lparr>on_rq := True\<rparr>) v)\<lparr>proc_num := proc_num v + 1\<rparr>"
  have eq: "stride_enqueue p s = Some s'"
    using ins by (simp add: stride_enqueue_def Let_def u_def v_def s'_def)
  have f: "run_pool s' = pl" "lab6_run_pool s' = h" "proc_num s' = proc_num s + 1"
    by (simp_all add: s'_def v_def u_def)
  have pf: "lab6_stride (procs s' x) = lab6_stride (procs s x)"
    "lab6_priority (procs s' x) = lab6_priority (procs s x)"
    "on_rq (procs s' x) = (x = p \<or> on_rq (procs s x))" for x
    by (simp_all add: s'_def v_def u_def)
  have k: "skey s' = skey s" by (simp add: fun_eq_iff skey_def pf)
  have st: "set_tree ?t = insert p P" using t(2) by (simp add: set_merge_tree)
  have o: "orders ?cmp (skey s base') (insert p P)" using b' by (rule stride_orders)
  have "heap_ord (skey s base') t"
    by (rule heap_ord_change [OF stride_orders [OF t(3)] _ _ t(4)])
       (use o t(2) in \<open>auto intro: orders_mono\<close>)
  then have ho: "heap_ord (skey s' base') ?t"
    using o t(2) by (auto simp: k intro!: heap_ord_merge_tree)
  have d: "distinct (inorder t)" using t(1) by (simp add: heap_at_def)
  have sz: "size ?t = Suc (size t)" by (simp add: size_merge_tree)
  have "sready s' (insert p P)"
    unfolding sready_def
    by (rule exI [of _ ?t], rule exI [of _ base'])
       (use h' st b' ho sz t(5) q p0 card size_card [OF d] t(2)
        in \<open>auto simp: f pf k stride_window_def\<close>)
  moreover have "same_life s s'"
    by (simp add: same_life_def life_def s'_def v_def u_def)
  ultimately show ?thesis using eq by blast
qed

lemma stride_pick_none: "sready s {} \<Longrightarrow> stride_pick_next s = Some (0, s)"
  by (auto simp: sready_def heap_at_def stride_pick_next_def)

text \<open>One round: the picked process has the least stride, advances by its pass, and the window stays.\<close>

lemma stride_round:
  assumes r: "sready s P" and ne: "P \<noteq> {}"
  shows "\<exists>p s1 s2 base. stride_pick_next s = Some (p, s1) \<and> p \<in> P \<and> p \<noteq> 0 \<and>
      stride_dequeue p s1 = Some s2 \<and> sready s2 (P - {p}) \<and> sadm s2 (P - {p}) p \<and> same_life s s2 \<and>
      stride_window s P base \<and> (\<forall>q\<in>P. skey s base p \<le> skey s base q) \<and>
      lab6_stride (procs s2 p) = lab6_stride (procs s p) + BIG_STRIDE div lab6_priority (procs s p)"
proof -
  from r obtain t base where t: "heap_at (run_pool s) (lab6_run_pool s) t" "set_tree t = P"
    "stride_window s P base" "heap_ord (skey s base) t" "proc_num s = of_nat (size t)" "size t < 2 ^ 32"
    and q: "\<forall>p\<in>P. on_rq (procs s p) \<and> lab6_priority (procs s p) \<noteq> 0"
    by (auto simp: sready_def)
  from t(2) ne obtain l p r where tn: "t = Node l p r" by (cases t) auto
  have lp: "lab6_run_pool s = p" and p0: "p \<noteq> 0" using t(1) tn by (auto simp: heap_at_def)
  have pP: "p \<in> P" using t(2) tn by auto
  have d: "distinct (inorder t)" using t(1) by (simp add: heap_at_def)
  define s1 where "s1 = upd_proc p
      (\<lambda>q. q\<lparr>lab6_stride := lab6_stride q + BIG_STRIDE div lab6_priority q\<rparr>) s"
  have pick: "stride_pick_next s = Some (p, s1)"
    using lp p0 q pP by (simp add: stride_pick_next_def Let_def s1_def)
  let ?cmp = "proc_stride_comp_f s1" and ?t = "merge_tree (proc_stride_comp_f s1) l r"
  have "heap_at (run_pool s1) p (Node l p r)" using t(1) tn lp by (simp add: s1_def)
  from skew_heap_remove_root_spec [OF this, of ?cmp] obtain h pl
    where rm: "skew_heap_remove ?cmp p p (run_pool s1) = Some (h, pl)" and h': "heap_at pl h ?t"
    by blast
  define s2 where "s2 = s1\<lparr>run_pool := pl, lab6_run_pool := h, proc_num := proc_num s1 - 1\<rparr>"
  have pn: "proc_num s1 > 0"
  proof -
    have "unat (of_nat (size t) :: u32) = size t" using t(6) by (simp add: unat_of_nat)
    then have "(of_nat (size t) :: u32) \<noteq> 0" using tn by auto
    then show ?thesis using t(5) by (simp add: s1_def word_gt_0)
  qed
  have deq: "stride_dequeue p s1 = Some s2"
    using q pP pn rm lp by (simp add: stride_dequeue_def Let_def s1_def s2_def)
  have V: "set_tree l \<union> set_tree r = P - {p}" "p \<notin> set_tree l \<union> set_tree r"
    using d t(2) tn by auto
  have pf: "x \<noteq> p \<Longrightarrow> procs s2 x = procs s x" for x by (simp add: s1_def s2_def)
  have k2: "x \<noteq> p \<Longrightarrow> skey s2 b x = skey s b x" for x b by (simp add: skey_def pf)
  have k1: "skey s2 b x = skey s1 b x" for x b by (simp add: skey_def s2_def)
  have win: "stride_window s2 (P - {p}) base"
    using t(3) by (auto simp: stride_window_def k2)
  then have o: "orders ?cmp (skey s2 base) (P - {p})"
    using stride_orders [of s1 "P - {p}" base] by (simp add: stride_window_def k1 orders_def)
  have cl: "heap_ord (skey s2 base) l = heap_ord (skey s base) l"
    by (rule heap_ord_cong, rule k2) (use V(2) in auto)
  have cr: "heap_ord (skey s2 base) r = heap_ord (skey s base) r"
    by (rule heap_ord_cong, rule k2) (use V(2) in auto)
  have hl: "heap_ord (skey s2 base) l" "heap_ord (skey s2 base) r"
    using t(4) tn by (simp_all add: cl cr)
  have ho: "heap_ord (skey s2 base) ?t"
    by (rule heap_ord_merge_tree) (use o V hl in auto)
  have st: "set_tree ?t = P - {p}" using V by (simp add: set_merge_tree)
  have sz: "size t = Suc (size ?t)" using tn by (simp add: size_merge_tree)
  have "sready s2 (P - {p})"
    unfolding sready_def
    by (rule exI [of _ ?t], rule exI [of _ base])
       (use h' st win ho sz t(5,6) q in \<open>auto simp: pf\<close>, auto simp: s2_def s1_def)
  moreover have least: "\<forall>q\<in>P. skey s base p \<le> skey s base q"
    using heap_ord_root [OF t(4)] t(2) tn by auto
  moreover have str: "lab6_stride (procs s2 p) = lab6_stride (procs s p) + BIG_STRIDE div lab6_priority (procs s p)"
    by (simp add: s1_def s2_def)
  moreover have "sadm s2 (P - {p}) p"
  proof -
    let ?b = "lab6_stride (procs s p)"
    have "skey s2 ?b x \<le> unat BIG_STRIDE" if "x \<in> insert p (P - {p})" for x
    proof (cases "x = p")
      case True
      then have "skey s2 ?b x = unat (BIG_STRIDE div lab6_priority (procs s p))"
        by (simp add: skey_def str)
      then show ?thesis by (simp add: unat_div)
    next
      case False
      with that have xP: "x \<in> P" by simp
      have "unat ((lab6_stride (procs s x) - base) - (?b - base)) = skey s base x - skey s base p"
        using least xP unfolding skey_def by (intro unat_sub) (simp add: word_le_nat_alt)
      then have "skey s ?b x = skey s base x - skey s base p" by (simp add: skey_def)
      with t(3) xP False show ?thesis by (auto simp: k2 stride_window_def)
    qed
    moreover have "card (P - {p}) + 1 < 2 ^ 32"
    proof -
      have "size ?t = card (P - {p})"
        using h' st size_card [of ?t] by (simp add: heap_at_def)
      with sz t(6) show ?thesis by simp
    qed
    moreover have "lab6_priority (procs s2 p) \<noteq> 0" using q pP by (simp add: s1_def s2_def)
    ultimately show ?thesis unfolding sadm_def stride_window_def using p0 by blast
  qed
  moreover have "same_life s s2" by (simp add: same_life_def life_def s1_def s2_def)
  ultimately show ?thesis using pick pP p0 deq t(3) by blast
qed

lemma sready_frame: "sready s P \<Longrightarrow> same_queue s s' \<Longrightarrow> sready s' P"
proof -
  assume r: "sready s P" and q: "same_queue s s'"
  then have "skey s' = skey s" by (auto simp: fun_eq_iff skey_def same_queue_def qfields_def)
  with r q show ?thesis
    by (auto simp: sready_def same_queue_def qfields_def stride_window_def)
qed

lemma sadm_frame: "sadm s P p \<Longrightarrow> same_queue s s' \<Longrightarrow> sadm s' P p"
proof -
  assume r: "sadm s P p" and q: "same_queue s s'"
  then have "skey s' = skey s" by (auto simp: fun_eq_iff skey_def same_queue_def qfields_def)
  with r q show ?thesis
    by (auto simp: sadm_def same_queue_def qfields_def stride_window_def)
qed

interpretation sd: sched_policy stride_sched_class "\<lambda>s. True" sready sadm
proof
  show "sready (cls_init stride_sched_class s) {}" for s
    unfolding sready_def stride_sched_class_def
    by (rule exI [of _ Leaf]) (simp add: stride_init_def heap_at_def stride_window_def)
  show "\<exists>s'. cls_enqueue stride_sched_class p s = Some s' \<and> sready s' (insert p P) \<and> same_life s s'"
    if "sready s P" "sadm s P p" "p \<notin> P" for s P p
    using stride_enqueue_spec [OF that] by (simp add: stride_sched_class_def)
  show "cls_pick_next stride_sched_class s = Some (0, s)" if "sready s {}" for s
    using stride_pick_none [OF that] by (simp add: stride_sched_class_def)
  show "\<exists>p s1 s2. cls_pick_next stride_sched_class s = Some (p, s1) \<and> p \<in> P \<and> p \<noteq> 0 \<and>
      cls_dequeue stride_sched_class p s1 = Some s2 \<and> sready s2 (P - {p}) \<and>
      sadm s2 (P - {p}) p \<and> same_life s s2" if "sready s P" "P \<noteq> {}" for s P
    using stride_round [OF that] by (auto simp: stride_sched_class_def)
  show "sready s' P" if "sready s P" "same_queue s s'" for s s' P
    using that by (rule sready_frame)
  show "sadm s' P p" if "sadm s P p" "same_queue s s'" for s s' P p
    using that by (rule sadm_frame)
  show "0 \<notin> P" if "sready s P" for s P
    using that shape_nonzero by (fastforce simp: sready_def heap_at_def)
  show "sready (cls_proc_tick stride_sched_class p s) P \<and>
      same_life s (cls_proc_tick stride_sched_class p s)" if "sready s P" "p \<notin> P" for s P p
  proof -
    have "same_queue s (stride_proc_tick p s) \<and> same_life s (stride_proc_tick p s)"
      by (simp add: stride_proc_tick_def Let_def same_queue_def same_life_def qfields_def life_def)
    with that show ?thesis by (auto simp: stride_sched_class_def intro: sready_frame)
  qed
qed

section \<open>Properties\<close>

text \<open>
  C3: While the strides in the queue lie within \<^verbatim>\<open>BIG_STRIDE\<close> of each other, one round of the
  stride scheduler (\<^verbatim>\<open>stride_pick_next\<close>, then \<^verbatim>\<open>stride_dequeue\<close>) returns, takes a process
  whose stride is least, although the strides are compared by the sign of a 32-bit difference
  that wraps around, advances it by \<^verbatim>\<open>BIG_STRIDE / priority\<close>, and leaves a queue of the other
  processes into which it can be put back without leaving the window. The strides are compared
  from the bottom \<open>base\<close> of a window that holds all of them (\<open>stride_window\<close>: the distance of
  each from \<open>base\<close> is at most \<^verbatim>\<open>BIG_STRIDE\<close>), so that the order is the same from every such \<open>base\<close>.
\<close>

theorem stride_takes_least:
  assumes "sready s P" and "P \<noteq> {}"
  shows "\<exists>p s1 s2 base. stride_pick_next s = Some (p, s1) \<and> p \<in> P \<and> stride_window s P base \<and>
    stride_dequeue p s1 = Some s2 \<and> (\<forall>q\<in>P. skey s base p \<le> skey s base q) \<and>
    lab6_stride (procs s2 p) = lab6_stride (procs s p) + BIG_STRIDE div lab6_priority (procs s p) \<and>
    sready s2 (P - {p}) \<and> sadm s2 (P - {p}) p"
  using stride_round [OF assms] by blast

definition demo_stride :: sched_state where
  "demo_stride =
     \<lparr>procs = (\<lambda>p. alloc_proc_fields\<lparr>on_rq := True, lab6_priority := 2,
                     lab6_stride := (if p = 10 then - 5 else 3)\<rparr>),
      current = 7, idleproc = 5, run_links = \<lparr>nxt = id, prv = id\<rparr>, rq_head = 1, proc_num = 2,
      max_time_slice = 5,
      run_pool = \<lparr>parent = (\<lambda>_. 0)(11 := 10), left = (\<lambda>_. 0)(10 := 11), right = \<lambda>_. 0\<rparr>,
      lab6_run_pool = 10\<rparr>"

lemma demo_sready: "sready demo_stride {10, 11}"
  unfolding sready_def
  by (rule exI [of _ "Node (Node Leaf 11 Leaf) 10 Leaf"], rule exI [of _ "- 5"])
     (auto simp: demo_stride_def heap_at_def stride_window_def skey_def alloc_proc_fields_def BIG_STRIDE_unat)

theorem stride_takes_least_witness:
  "\<exists>p s1 s2. stride_pick_next demo_stride = Some (p, s1) \<and> p \<in> {10, 11} \<and> stride_dequeue p s1 = Some s2"
  using stride_takes_least [OF demo_sready] by auto

text \<open>
  C7: The skew heap merge of \<^verbatim>\<open>libs/skew_heap.h\<close>, which follows and rewrites pointers, returns
  on two well-formed heaps without common nodes, and leaves at the returned root a
  well-formed tree with the nodes of both and the heap order of both.
\<close>

theorem skew_heap_merge_correct:
  assumes "shape st t1" and "shape st t2" and "distinct (inorder t1 @ inorder t2)"
    and "orders cmp key (set_tree t1 \<union> set_tree t2)" and "heap_ord key t1" and "heap_ord key t2"
  shows "\<exists>h st' t. skew_heap_merge cmp (root_of t1) (root_of t2) st = Some (h, st') \<and>
    h = root_of t \<and> shape st' t \<and> mset_tree t = mset_tree t1 + mset_tree t2 \<and> heap_ord key t"
  using skew_heap_merge_spec [OF assms(1-3), of cmp] heap_ord_merge_tree [OF assms(4-6)]
  by (auto simp: merged_def mset_merge_tree intro!: exI [of _ "merge_tree cmp t1 t2"])

theorem skew_heap_merge_correct_witness:
  "\<exists>h st' t. skew_heap_merge (\<lambda>a b. if a < b then -1 else 1) 3 2
      \<lparr>parent = \<lambda>_. 0, left = \<lambda>_. 0, right = \<lambda>_. 0\<rparr> = Some (h, st') \<and>
    h = root_of t \<and> mset_tree t = {#2, 3#} \<and> heap_ord id t"
  using skew_heap_merge_correct [of "\<lparr>parent = \<lambda>_. 0, left = \<lambda>_. 0, right = \<lambda>_. 0\<rparr>"
      "Node Leaf 3 Leaf" "Node Leaf 2 Leaf" "\<lambda>a b. if a < b then -1 else 1" id]
  by (simp add: orders_def) blast

end
