(* ===== verification/Sched.thy ===== *)
theory Sched
  imports SchedClasses
begin

text \<open>
  The core scheduler of \<^verbatim>\<open>kern/schedule/sched.c\<close>: \<^verbatim>\<open>schedule\<close>, \<^verbatim>\<open>wakeup_proc\<close>, the clock
  tick and the timer list. The static pointer \<^verbatim>\<open>sched_class\<close> is the argument \<open>cls\<close>, so that
  the proofs are done once for the contract of the classes. Interrupts are off inside every
  one of these functions; each is one atomic step. \<^verbatim>\<open>switch_to\<close> is the assignment to
  \<^verbatim>\<open>current\<close>: what runs after it is the process switched to.
\<close>

section \<open>Operations\<close>

definition MAX_TIME_SLICE :: int where [layout]: "MAX_TIME_SLICE = 5"

definition sched_class_enqueue :: "sched_class \<Rightarrow> addr \<Rightarrow> sched_state \<Rightarrow> sched_state option" where
  "sched_class_enqueue cls proc s =
     (if proc \<noteq> idleproc s then cls_enqueue cls proc s else Some s)"

definition sched_class_dequeue :: "sched_class \<Rightarrow> addr \<Rightarrow> sched_state \<Rightarrow> sched_state option" where
  "sched_class_dequeue cls proc s = cls_dequeue cls proc s"

definition sched_class_pick_next :: "sched_class \<Rightarrow> sched_state \<Rightarrow> (addr \<times> sched_state) option" where
  "sched_class_pick_next cls s = cls_pick_next cls s"

definition sched_class_proc_tick :: "sched_class \<Rightarrow> addr \<Rightarrow> sched_state \<Rightarrow> sched_state" where
  "sched_class_proc_tick cls proc s =
     (if proc \<noteq> idleproc s then cls_proc_tick cls proc s
      else upd_proc proc (\<lambda>q. q\<lparr>need_resched := True\<rparr>) s)"

definition wakeup_proc :: "sched_class \<Rightarrow> addr \<Rightarrow> sched_state \<Rightarrow> sched_state option" where
  "wakeup_proc cls proc s = do {
     ensure (state (procs s proc) \<noteq> PROC_ZOMBIE);
     if state (procs s proc) \<noteq> PROC_RUNNABLE then do {
       let s = upd_proc proc (\<lambda>q. q\<lparr>state := PROC_RUNNABLE\<rparr>) s;
       let s = upd_proc proc (\<lambda>q. q\<lparr>wait_state := 0\<rparr>) s;
       if proc \<noteq> current s then sched_class_enqueue cls proc s else Some s
     } else Some s
   }"

definition proc_run :: "addr \<Rightarrow> sched_state \<Rightarrow> sched_state" where
  "proc_run proc s = (if proc \<noteq> current s then s\<lparr>current := proc\<rparr> else s)"

definition schedule :: "sched_class \<Rightarrow> sched_state \<Rightarrow> sched_state option" where
  "schedule cls s = do {
     let s = upd_proc (current s) (\<lambda>q. q\<lparr>need_resched := False\<rparr>) s;
     s \<leftarrow> (if state (procs s (current s)) = PROC_RUNNABLE
          then sched_class_enqueue cls (current s) s else Some s);
     (next, s) \<leftarrow> sched_class_pick_next cls s;
     s \<leftarrow> (if next \<noteq> 0 then sched_class_dequeue cls next s else Some s);
     let next = (if next = 0 then idleproc s else next);
     let s = upd_proc next (\<lambda>q. q\<lparr>runs := runs q + 1\<rparr>) s;
     Some (if next \<noteq> current s then proc_run next s else s)
   }"

definition do_yield :: "sched_state \<Rightarrow> int \<times> sched_state" where
  "do_yield s = (0, upd_proc (current s) (\<lambda>q. q\<lparr>need_resched := True\<rparr>) s)"

definition lab6_set_priority :: "u32 \<Rightarrow> sched_state \<Rightarrow> sched_state" where
  "lab6_set_priority priority s =
     (if priority = 0 then upd_proc (current s) (\<lambda>q. q\<lparr>lab6_priority := 1\<rparr>) s
      else upd_proc (current s) (\<lambda>q. q\<lparr>lab6_priority := priority\<rparr>) s)"

section \<open>Timers\<close>

text \<open>
  A timer is named by its address, which is also the address of its \<^verbatim>\<open>timer_link\<close>. The list
  is kept as differences: an entry expires \<^verbatim>\<open>expires\<close> ticks after the one before it.
\<close>

record timer_t =
  expires :: u32
  tproc :: addr

record timer_state =
  timers :: "addr \<Rightarrow> timer_t"
  timer_list :: addr
  timer_links :: links

definition set_expires :: "addr \<Rightarrow> u32 \<Rightarrow> timer_state \<Rightarrow> timer_state" where
  "set_expires x v t = t\<lparr>timers := (timers t)(x := (timers t x)\<lparr>expires := v\<rparr>)\<rparr>"

definition timer_init :: "addr \<Rightarrow> addr \<Rightarrow> int \<Rightarrow> timer_state \<Rightarrow> timer_state" where
  "timer_init timer proc e t =
     t\<lparr>timers := (timers t)(timer := \<lparr>expires = word_of_int e, tproc = proc\<rparr>),
       timer_links := list_init timer (timer_links t)\<rparr>"

partial_function (option) add_timer_loop ::
  "addr \<Rightarrow> addr \<Rightarrow> timer_state \<Rightarrow> (addr \<times> timer_state) option" where
  "add_timer_loop timer le t =
     (if le \<noteq> timer_list t then
        (if expires (timers t timer) < expires (timers t le)
         then Some (le, set_expires le (expires (timers t le) - expires (timers t timer)) t)
         else (let t = set_expires timer (expires (timers t timer) - expires (timers t le)) t
               in add_timer_loop timer (list_next le (timer_links t)) t))
      else Some (le, t))"

definition add_timer :: "addr \<Rightarrow> timer_state \<Rightarrow> timer_state option" where
  "add_timer timer t = do {
     ensure (expires (timers t timer) > 0 \<and> tproc (timers t timer) \<noteq> 0);
     ensure (list_empty timer (timer_links t));
     (le, t) \<leftarrow> add_timer_loop timer (list_next (timer_list t) (timer_links t)) t;
     Some (t\<lparr>timer_links := list_add_before le timer (timer_links t)\<rparr>)
   }"

definition del_timer :: "addr \<Rightarrow> timer_state \<Rightarrow> timer_state" where
  "del_timer timer t =
     (if \<not> list_empty timer (timer_links t) then
        (let t = (if expires (timers t timer) \<noteq> 0 then
                    (let le = list_next timer (timer_links t)
                     in if le \<noteq> timer_list t
                        then set_expires le (expires (timers t le) + expires (timers t timer)) t
                        else t)
                  else t)
         in t\<lparr>timer_links := list_del_init timer (timer_links t)\<rparr>)
      else t)"

partial_function (option) run_timer_loop ::
  "sched_class \<Rightarrow> addr \<Rightarrow> sched_state \<Rightarrow> timer_state \<Rightarrow> (sched_state \<times> timer_state) option" where
  "run_timer_loop cls timer s t =
     (if expires (timers t timer) = 0 then
        (let le = list_next timer (timer_links t);
             proc = tproc (timers t timer)
         in Option.bind
              (ensure (wait_state (procs s proc) \<noteq> 0 \<longrightarrow>
                       wait_state (procs s proc) AND WT_INTERRUPTED \<noteq> 0))
              (\<lambda>_. Option.bind (wakeup_proc cls proc s)
              (\<lambda>s. let t = del_timer timer t
                   in if le = timer_list t then Some (s, t) else run_timer_loop cls le s t)))
      else Some (s, t))"

definition run_timer_list ::
  "sched_class \<Rightarrow> sched_state \<Rightarrow> timer_state \<Rightarrow> (sched_state \<times> timer_state) option" where
  "run_timer_list cls s t = do {
     let le = list_next (timer_list t) (timer_links t);
     (s, t) \<leftarrow> (if le \<noteq> timer_list t then do {
         ensure (expires (timers t le) \<noteq> 0);
         let t = set_expires le (expires (timers t le) - 1) t;
         run_timer_loop cls le s t
       } else Some (s, t));
     Some (if current s \<noteq> 0 then sched_class_proc_tick cls (current s) s else s, t)
   }"

definition sched_init :: "sched_state \<Rightarrow> timer_state \<Rightarrow> sched_state \<times> timer_state" where
  "sched_init s t =
     (let t = t\<lparr>timer_links := list_init (timer_list t) (timer_links t)\<rparr>;
          s = s\<lparr>max_time_slice := MAX_TIME_SLICE\<rparr>
      in (cls_init default_sched_class s, t))"

definition do_sleep_before :: "addr \<Rightarrow> u32 \<Rightarrow> sched_state \<Rightarrow> timer_state \<Rightarrow>
    (sched_state \<times> timer_state) option" where
  "do_sleep_before timer time s t = do {
     let t = timer_init timer (current s) (uint time) t;
     let s = upd_proc (current s) (\<lambda>q. q\<lparr>state := PROC_SLEEPING\<rparr>) s;
     let s = upd_proc (current s) (\<lambda>q. q\<lparr>wait_state := WT_TIMER\<rparr>) s;
     t \<leftarrow> add_timer timer t;
     Some (s, t)
   }"

text \<open>
  \<^verbatim>\<open>do_sleep\<close> up to the return of \<^verbatim>\<open>schedule\<close> in another process; \<^verbatim>\<open>del_timer\<close> is run when the
  sleeper is switched to again.
\<close>

definition do_sleep :: "sched_class \<Rightarrow> addr \<Rightarrow> u32 \<Rightarrow> sched_state \<Rightarrow> timer_state \<Rightarrow>
    (sched_state \<times> timer_state) option" where
  "do_sleep cls timer time s t =
     (if time = 0 then Some (s, t)
      else do {
        (s, t) \<leftarrow> do_sleep_before timer time s t;
        s \<leftarrow> schedule cls s;
        Some (s, t)
      })"

section \<open>The scheduler keeps every runnable process\<close>

text \<open>
  \<open>sched_inv\<close>: the run queue holds exactly the runnable processes other than the idle process
  and the one that runs.
\<close>

definition sched_inv ::
  "(sched_state \<Rightarrow> addr set \<Rightarrow> bool) \<Rightarrow> sched_state \<Rightarrow> addr set \<Rightarrow> bool" where
  "sched_inv ready s P \<longleftrightarrow>
     ready s P \<and> idleproc s \<noteq> 0 \<and> current s \<noteq> 0 \<and> idleproc s \<notin> P \<and> current s \<notin> P \<and>
     (\<forall>p. p \<noteq> idleproc s \<longrightarrow> p \<noteq> current s \<longrightarrow>
        (state (procs s p) = PROC_RUNNABLE \<longleftrightarrow> p \<in> P))"

lemma same_queue_fields:
  "same_queue s (upd_proc p (\<lambda>q. q\<lparr>need_resched := b\<rparr>) s)"
  "same_queue s (upd_proc p (\<lambda>q. q\<lparr>runs := r q\<rparr>) s)"
  "same_queue s (upd_proc p (\<lambda>q. q\<lparr>state := st\<rparr>) s)"
  "same_queue s (upd_proc p (\<lambda>q. q\<lparr>wait_state := w\<rparr>) s)"
  by (simp_all add: same_queue_upd qfields_def)

lemma same_queue_proc_run: "same_queue s (proc_run p s)"
  by (simp add: proc_run_def)

lemma proc_run_simps [simp]:
  "procs (proc_run p s) = procs s" "current (proc_run p s) = p"
  "idleproc (proc_run p s) = idleproc s"
  by (simp_all add: proc_run_def)

lemma schedule_eq:
  assumes "u = upd_proc (current s) (\<lambda>q. q\<lparr>need_resched := False\<rparr>) s"
    and "(if state (procs u (current u)) = PROC_RUNNABLE
          then sched_class_enqueue cls (current u) u else Some u) = Some s2"
    and "cls_pick_next cls s2 = Some (n, s3)"
    and "(if n \<noteq> 0 then cls_dequeue cls n s3 else Some s3) = Some s4"
    and "m = (if n = 0 then idleproc s4 else n)"
  shows "schedule cls s = Some (let u = upd_proc m (\<lambda>q. q\<lparr>runs := runs q + 1\<rparr>) s4
                                in if m \<noteq> current u then proc_run m u else u)"
  unfolding schedule_def Let_def assms(1) [symmetric] sched_class_pick_next_def
    sched_class_dequeue_def assms(2)
  by (simp only: assms(3-5) Option.bind.simps prod.case)

context sched_policy
begin

text \<open>The candidates of \<^verbatim>\<open>schedule\<close>: the queue and the process that runs, if it can go on.\<close>

lemma schedule_spec:
  assumes inv: "sched_inv ready s P"
    and cur: "current s \<noteq> idleproc s \<Longrightarrow> state (procs s (current s)) = PROC_RUNNABLE \<Longrightarrow>
      adm s P (current s)"
    and R: "R = (if current s \<noteq> idleproc s \<and> state (procs s (current s)) = PROC_RUNNABLE
                 then insert (current s) P else P)"
  shows "\<exists>s'. schedule cls s = Some s' \<and>
      (if R = {} then current s' = idleproc s' else current s' \<in> R) \<and>
      sched_inv ready s' (R - {current s'}) \<and>
      (current s' \<noteq> idleproc s' \<longrightarrow> adm s' (R - {current s'}) (current s')) \<and>
      idleproc s' = idleproc s \<and>
      (\<forall>p. state (procs s' p) = state (procs s p) \<and>
        wait_state (procs s' p) = wait_state (procs s p) \<and>
        runs (procs s' p) = (if p = current s' then runs (procs s p) + 1 else runs (procs s p)))"
proof -
  let ?c = "current s"
  define s1 where "s1 = upd_proc ?c (\<lambda>q. q\<lparr>need_resched := False\<rparr>) s"
  have q1: "same_queue s s1" by (simp add: s1_def same_queue_fields)
  have l1: "same_life s s1" by (simp add: s1_def same_life_def life_def)
  note L1 = same_lifeD [OF l1]
  from inv have r: "ready s P" and i0: "idleproc s \<noteq> 0" and c0: "?c \<noteq> 0"
    and iP: "idleproc s \<notin> P" and cP: "?c \<notin> P"
    and st: "\<And>p. p \<noteq> idleproc s \<Longrightarrow> p \<noteq> ?c \<Longrightarrow> (state (procs s p) = PROC_RUNNABLE \<longleftrightarrow> p \<in> P)"
    by (auto simp: sched_inv_def)
  have "\<exists>s2. (if state (procs s1 ?c) = PROC_RUNNABLE then sched_class_enqueue cls ?c s1 else Some s1)
      = Some s2 \<and> ready s2 R \<and> same_life s1 s2"
  proof (cases "?c \<noteq> idleproc s \<and> state (procs s ?c) = PROC_RUNNABLE")
    case True
    from enqueue_ready [OF ready_frame [OF r q1] adm_frame [OF cur q1] cP] True
    show ?thesis using L1 R by (auto simp: sched_class_enqueue_def)
  next
    case False
    then show ?thesis using ready_frame [OF r q1] L1 R by (auto simp: sched_class_enqueue_def)
  qed
  then obtain s2 where e2: "(if state (procs s1 ?c) = PROC_RUNNABLE then sched_class_enqueue cls ?c s1
      else Some s1) = Some s2" and r2: "ready s2 R" and l2: "same_life s1 s2" by blast
  note l02 = same_life_trans [OF l1 l2]
  have e2': "(if state (procs s1 (current s1)) = PROC_RUNNABLE
      then sched_class_enqueue cls (current s1) s1 else Some s1) = Some s2"
    using e2 by (simp only: L1)
  have fin: "schedule cls s = Some s' \<Longrightarrow> ?thesis"
    if s': "s' = (let u = upd_proc n (\<lambda>q. q\<lparr>runs := runs q + 1\<rparr>) s3
                  in if n \<noteq> current u then proc_run n u else u)"
      and r3: "ready s3 (R - {n})" and l3: "same_life s s3"
      and n: "if R = {} then n = idleproc s else n \<in> R"
      and ad: "n \<noteq> idleproc s \<Longrightarrow> adm s3 (R - {n}) n" and n0: "n \<noteq> 0"
    for n s3 s'
  proof -
    assume sc: "schedule cls s = Some s'"
    note L3 = same_lifeD [OF l3]
    have q3: "same_queue s3 s'"
      unfolding s' Let_def
      by (auto intro: same_queue_trans same_queue_fields same_queue_proc_run)
    have cs: "current s' = n" "idleproc s' = idleproc s" by (auto simp: s' Let_def L3)
    have f: "state (procs s' p) = state (procs s p)" "wait_state (procs s' p) = wait_state (procs s p)"
      "runs (procs s' p) = (if p = n then runs (procs s p) + 1 else runs (procs s p))" for p
      by (auto simp: s' Let_def L3)
    have "sched_inv ready s' (R - {n})"
      unfolding sched_inv_def
      using ready_frame [OF r3 q3] i0 n0 iP cP st R by (auto simp: cs f)
    with sc cs f n ad adm_frame [OF _ q3] show ?thesis by (intro exI [of _ s']) auto
  qed
  show ?thesis
  proof (cases "R = {}")
    case True
    then have r2': "ready s2 {}" using r2 by simp
    let ?u = "upd_proc (idleproc s) (\<lambda>q. q\<lparr>runs := runs q + 1\<rparr>) s2"
    have "schedule cls s = Some (let u = ?u
        in if idleproc s \<noteq> current u then proc_run (idleproc s) u else u)"
      by (rule schedule_eq [OF s1_def e2' pick_none [OF r2']])
         (use same_lifeD [OF l02] in simp_all)
    from fin [OF refl _ l02 _ _ i0 this] r2' True show ?thesis by auto
  next
    case False
    from pick_some [OF r2 False] obtain n s3 s4
      where pk: "cls_pick_next cls s2 = Some (n, s3)" "n \<in> R" "n \<noteq> 0"
        and d: "cls_dequeue cls n s3 = Some s4" "ready s4 (R - {n})" "adm s4 (R - {n}) n"
        and l4: "same_life s2 s4" by blast
    let ?u = "upd_proc n (\<lambda>q. q\<lparr>runs := runs q + 1\<rparr>) s4"
    have "schedule cls s = Some (let u = ?u in if n \<noteq> current u then proc_run n u else u)"
      by (rule schedule_eq [OF s1_def e2' pk(1)]) (use pk d(1) in simp_all)
    from fin [OF refl d(2) same_life_trans [OF l02 l4] _ _ pk(3) this] pk(2) d(3) False
    show ?thesis by auto
  qed
qed

text \<open>Waking a process puts it on the queue and touches nothing else.\<close>

lemma wakeup_proc_spec:
  assumes inv: "sched_inv ready s P" and z: "state (procs s p) \<noteq> PROC_ZOMBIE"
    and a: "p \<notin> P \<Longrightarrow> p \<noteq> current s \<Longrightarrow> adm s P p" and pi: "p \<noteq> idleproc s"
  shows "\<exists>s'. wakeup_proc cls p s = Some s' \<and>
      sched_inv ready s' (if p = current s then P else insert p P) \<and>
      state (procs s' p) = PROC_RUNNABLE \<and> current s' = current s \<and> idleproc s' = idleproc s \<and>
      (\<forall>q. q \<noteq> p \<longrightarrow> life (procs s' q) = life (procs s q))"
proof (cases "state (procs s p) = PROC_RUNNABLE")
  case True
  then have "p \<in> P \<or> p = current s" using inv pi by (auto simp: sched_inv_def)
  with True inv show ?thesis by (auto simp: wakeup_proc_def insert_absorb sched_inv_def)
next
  case False
  define s1 where "s1 = upd_proc p (\<lambda>q. q\<lparr>wait_state := 0\<rparr>)
      (upd_proc p (\<lambda>q. q\<lparr>state := PROC_RUNNABLE\<rparr>) s)"
  have q1: "same_queue s s1" unfolding s1_def
    by (rule same_queue_trans [OF same_queue_fields(3) same_queue_fields(4)])
  have pP: "p \<notin> P" if "p \<noteq> current s" using False inv pi that by (auto simp: sched_inv_def)
  have r1: "ready s1 P" using inv ready_frame [OF _ q1] by (auto simp: sched_inv_def)
  have w: "wakeup_proc cls p s =
      (if p \<noteq> current s then cls_enqueue cls p s1 else Some s1)"
    using False z pi by (simp add: wakeup_proc_def Let_def s1_def sched_class_enqueue_def)
  have f: "current s1 = current s" "idleproc s1 = idleproc s"
    "state (procs s1 p) = PROC_RUNNABLE" "\<And>q. q \<noteq> p \<Longrightarrow> life (procs s1 q) = life (procs s q)"
    by (simp_all add: s1_def)
  have st: "state (procs s1 q) = (if q = p then PROC_RUNNABLE else state (procs s q))" for q
    by (simp add: s1_def)
  show ?thesis
  proof (cases "p = current s")
    case True
    then have "sched_inv ready s1 P" using inv r1 by (auto simp: sched_inv_def f st)
    with True w f show ?thesis by (intro exI [of _ s1]) auto
  next
    case pc: False
    from enqueue_ready [OF r1 adm_frame [OF a q1] pP] pc pP obtain s2
      where s2: "cls_enqueue cls p s1 = Some s2" "ready s2 (insert p P)" "same_life s1 s2" by blast
    note L = same_lifeD [OF s2(3)]
    have "life (procs s2 q) = life (procs s1 q)" for q using s2(3) by (simp add: same_life_def)
    moreover have "sched_inv ready s2 (insert p P)"
      using s2(2) inv pc pi by (auto simp: sched_inv_def L f st)
    ultimately show ?thesis using w pc s2(1) f L by (intro exI [of _ s2]) auto
  qed
qed

end

section \<open>Round robin rotates the runnable processes\<close>

fun schedules :: "sched_class \<Rightarrow> nat \<Rightarrow> sched_state \<Rightarrow> sched_state option" where
  "schedules cls 0 s = Some s"
| "schedules cls (Suc n) s = Option.bind (schedule cls s) (schedules cls n)"

text \<open>\<open>rr_ring s (c # xs)\<close>: \<open>c\<close> runs, \<open>xs\<close> is the run queue, and all of them can go on.\<close>

definition rr_ring :: "sched_state \<Rightarrow> addr list \<Rightarrow> bool" where
  "rr_ring s ps \<longleftrightarrow>
     ps \<noteq> [] \<and> current s = hd ps \<and> lq s (tl ps) \<and> distinct ps \<and>
     (\<forall>p\<in>set ps. state (procs s p) = PROC_RUNNABLE \<and> p \<noteq> idleproc s \<and> p \<noteq> 0 \<and> p \<noteq> rq_head s)"

lemma rr_ring_schedule:
  assumes r: "rr_ring s ps"
  shows "\<exists>s'. schedule default_sched_class s = Some s' \<and> rr_ring s' (rotate1 ps)"
proof -
  from r obtain c xs where ps: "ps = c # xs" by (cases ps) (auto simp: rr_ring_def)
  with r have c: "current s = c" and q: "lq s xs" and d: "distinct (c # xs)"
    and al: "\<And>p. p \<in> set (c # xs) \<Longrightarrow>
      state (procs s p) = PROC_RUNNABLE \<and> p \<noteq> idleproc s \<and> p \<noteq> 0 \<and> p \<noteq> rq_head s"
    by (auto simp: rr_ring_def)
  define u where "u = upd_proc (current s) (\<lambda>q. q\<lparr>need_resched := False\<rparr>) s"
  have qu: "lq u xs" using lq_frame [OF q same_queue_fields(1)] by (simp add: u_def)
  have lu: "same_life s u" by (simp add: u_def same_life_def life_def)
  have "ladm u {} c" using al [of c] same_lifeD [OF lu] by (simp add: ladm_def)
  from RR_enqueue_spec [OF qu this] d obtain s2
    where s2: "RR_enqueue c u = Some s2" "lq s2 (xs @ [c])" "same_life u s2" by auto
  define n where "n = hd (xs @ [c])"
  have n: "n \<in> set (c # xs)" unfolding n_def by (cases xs) auto
  have pk: "RR_pick_next s2 = Some (n, s2)"
    using RR_pick_next_spec [OF s2(2)] by (cases xs) (auto simp: n_def)
  from RR_dequeue_spec [OF s2(2), of n] n obtain s3
    where s3: "RR_dequeue n s2 = Some s3" "lq s3 (remove1 n (xs @ [c]))" "same_life s2 s3" by auto
  have tl: "remove1 n (xs @ [c]) = tl (xs @ [c])" by (cases xs) (auto simp: n_def)
  note L = same_lifeD [OF same_life_trans [OF lu same_life_trans [OF s2(3) s3(3)]]]
    and Lu = same_lifeD [OF lu]
  define s' where "s' = (let u = upd_proc n (\<lambda>q. q\<lparr>runs := runs q + 1\<rparr>) s3
                         in if n \<noteq> current u then proc_run n u else u)"
  have "schedule default_sched_class s = Some s'"
    unfolding s'_def
    by (rule schedule_eq [OF u_def])
       (use s2(1) pk s3(1) al [OF n] al [of c] c Lu in
        \<open>auto simp: default_sched_class_def sched_class_enqueue_def\<close>)
  moreover have "rr_ring s' (rotate1 ps)"
  proof -
    have "same_queue s3 s'"
      unfolding s'_def Let_def
      by (auto intro: same_queue_trans same_queue_fields same_queue_proc_run)
    from lq_frame [OF s3(2) this] have "lq s' (tl (xs @ [c]))" by (simp add: tl)
    moreover have "current s' = n" "idleproc s' = idleproc s" "rq_head s' = rq_head s"
      "\<And>p. state (procs s' p) = state (procs s p)"
      by (auto simp: s'_def Let_def L proc_run_def)
    ultimately show ?thesis
      using d al by (auto simp: rr_ring_def ps n_def)
  qed
  ultimately show ?thesis by blast
qed

lemma rr_ring_schedules:
  "rr_ring s ps \<Longrightarrow>
    \<exists>s'. schedules default_sched_class n s = Some s' \<and> rr_ring s' (rotate n ps)"
proof (induction n arbitrary: s ps)
  case 0
  then show ?case by simp
next
  case (Suc n)
  from rr_ring_schedule [OF Suc.prems] obtain t
    where t: "schedule default_sched_class s = Some t" "rr_ring t (rotate1 ps)" by blast
  from Suc.IH [OF t(2)] t(1) show ?case by (simp add: rotate1_rotate_swap)
qed

section \<open>Properties\<close>

text \<open>
  C2: Under round robin, \<open>n\<close> calls of \<^verbatim>\<open>schedule\<close> rotate the sequence of the running process
  and the run queue by \<open>n\<close>: every runnable process gets the processor in turn, none is lost or
  runs twice before the others have run.
\<close>

theorem round_robin_rotates:
  assumes "rr_ring s ps"
  shows "\<exists>s'. schedules default_sched_class n s = Some s' \<and> rr_ring s' (rotate n ps)"
  using assms by (rule rr_ring_schedules)

definition demo_proc :: proc_struct where
  "demo_proc = alloc_proc_fields\<lparr>state := PROC_RUNNABLE, on_rq := True\<rparr>"

definition demo_sched :: sched_state where
  "demo_sched =
     \<lparr>procs = (\<lambda>p. demo_proc), current = 10, idleproc = 5,
      run_links = \<lparr>nxt = id(1 := 11, 11 := 12, 12 := 1), prv = id(11 := 1, 12 := 11, 1 := 12)\<rparr>,
      rq_head = 1, proc_num = 2, max_time_slice = 5,
      run_pool = \<lparr>parent = \<lambda>_. 0, left = \<lambda>_. 0, right = \<lambda>_. 0\<rparr>, lab6_run_pool = 0\<rparr>"

lemma demo_lq: "lq demo_sched [11, 12]"
  by (auto simp: demo_sched_def demo_proc_def alloc_proc_fields_def lq_def ring_inv_def clist_def
      list_empty_def)

lemma demo_ring: "rr_ring demo_sched [10, 11, 12]"
  using demo_lq by (auto simp: rr_ring_def) (simp_all add: demo_sched_def demo_proc_def alloc_proc_fields_def)

theorem round_robin_rotates_witness:
  "\<exists>s'. schedules default_sched_class 2 demo_sched = Some s' \<and> current s' = 12"
  using round_robin_rotates [OF demo_ring, of 2] by (auto simp: rr_ring_def eval_nat_numeral)

text \<open>
  C1: \<^verbatim>\<open>schedule\<close> loses no process. If the run queue holds exactly the runnable processes that
  do not run, then \<^verbatim>\<open>schedule\<close> returns, the process it switches to is one that was runnable
  (the idle process only when there is none), afterwards the queue again holds exactly the
  runnable processes that do not run, and no process changes its state.
\<close>

theorem schedule_keeps_runnable:
  assumes "sched_inv lready s P" and "current s \<noteq> rq_head s"
    and "R = (if current s \<noteq> idleproc s \<and> state (procs s (current s)) = PROC_RUNNABLE
              then insert (current s) P else P)"
  shows "\<exists>s'. schedule default_sched_class s = Some s' \<and>
    (if R = {} then current s' = idleproc s' else current s' \<in> R) \<and>
    sched_inv lready s' (R - {current s'}) \<and>
    (\<forall>p. state (procs s' p) = state (procs s p))"
proof -
  have "ladm s P (current s)" using assms(1,2) by (simp add: ladm_def sched_inv_def)
  from rr.schedule_spec [OF assms(1) this assms(3)] show ?thesis by blast
qed

definition demo_sched2 :: sched_state where
  "demo_sched2 = demo_sched\<lparr>procs := \<lambda>p. if p \<in> {5, 10, 11, 12} then demo_proc else alloc_proc_fields\<rparr>"

lemma demo_inv: "sched_inv lready demo_sched2 {11, 12}"
proof -
  have "lq demo_sched2 [11, 12]"
    by (auto simp: demo_sched2_def demo_sched_def demo_proc_def alloc_proc_fields_def lq_def
        ring_inv_def clist_def list_empty_def)
  then have "lready demo_sched2 {11, 12}" unfolding lready_def by (intro exI [of _ "[11, 12]"]) simp
  then show ?thesis
    by (auto simp: sched_inv_def demo_sched2_def demo_sched_def demo_proc_def alloc_proc_fields_def)
qed

theorem schedule_keeps_runnable_witness:
  "\<exists>s'. schedule default_sched_class demo_sched2 = Some s' \<and> current s' \<in> {10, 11, 12}"
  using schedule_keeps_runnable [OF demo_inv _ refl]
  by (auto simp: demo_sched2_def demo_sched_def demo_proc_def alloc_proc_fields_def split: if_splits)

end
