(* ===== verification/Timers.thy ===== *)
theory Timers
  imports Sched
begin

text \<open>
  The timer list of \<^verbatim>\<open>kern/schedule/sched.c\<close> is kept as differences. \<open>tlist t xs\<close> is its
  well-formedness, \<open>deadline t xs x\<close> the number of ticks after which timer \<open>x\<close> expires; the
  operations are correct when they keep the deadline of every other timer.
\<close>

definition dlt :: "timer_state \<Rightarrow> addr \<Rightarrow> nat" where
  "dlt t x = unat (expires (timers t x))"

definition tlist :: "timer_state \<Rightarrow> addr list \<Rightarrow> bool" where
  "tlist t xs \<longleftrightarrow> ring_inv (timer_links t) (timer_list t) xs \<and>
     (xs \<noteq> [] \<longrightarrow> dlt t (hd xs) > 0) \<and> sum_list (map (dlt t) xs) < 2 ^ 32"

text \<open>The sum of the differences up to and including \<open>x\<close>.\<close>

fun deadline :: "timer_state \<Rightarrow> addr list \<Rightarrow> addr \<Rightarrow> nat" where
  "deadline t [] x = 0"
| "deadline t (y # ys) x = dlt t y + (if x = y then 0 else deadline t ys x)"

lemma set_expires_simps [simp]:
  "timer_list (set_expires x v t) = timer_list t"
  "timer_links (set_expires x v t) = timer_links t"
  "expires (timers (set_expires x v t) y) = (if y = x then v else expires (timers t y))"
  "tproc (timers (set_expires x v t) y) = tproc (timers t y)"
  by (simp_all add: set_expires_def)

lemma dlt_set [simp]: "dlt (set_expires x v t) y = (if y = x then unat v else dlt t y)"
  by (simp add: dlt_def)

lemma dlt_links [simp]: "dlt (t\<lparr>timer_links := l\<rparr>) = dlt t"
  by (simp add: fun_eq_iff dlt_def)

lemma deadline_cong:
  "(\<And>y. y \<in> set xs \<Longrightarrow> dlt t y = dlt t' y) \<Longrightarrow> deadline t xs x = deadline t' xs x"
  by (induction xs) auto

lemma deadline_links [simp]: "deadline (t\<lparr>timer_links := l\<rparr>) = deadline t"
  by (intro ext deadline_cong) simp

lemma deadline_append:
  "deadline t (xs @ ys) x =
    (if x \<in> set xs then deadline t xs x else sum_list (map (dlt t) xs) + deadline t ys x)"
  by (induction xs) auto

lemma deadline_notin: "x \<notin> set xs \<Longrightarrow> deadline t xs x = sum_list (map (dlt t) xs)"
  by (induction xs) auto

lemma map_dlt_set [simp]: "x \<notin> set xs \<Longrightarrow> map (dlt (set_expires x v t)) xs = map (dlt t) xs"
  by auto

section \<open>\<^verbatim>\<open>add_timer\<close>\<close>

text \<open>The position of the loop and the two differences it adjusts.\<close>

lemma add_timer_loop_spec:
  assumes "ring_inv (timer_links t) (timer_list t) (xs @ ys)" and "x \<notin> set (xs @ ys)"
    and "x \<noteq> timer_list t"
  shows "\<exists>us vs t'. ys = us @ vs \<and>
      add_timer_loop x (hd (ys @ [timer_list t])) t = Some (hd (vs @ [timer_list t]), t') \<and>
      timer_links t' = timer_links t \<and> timer_list t' = timer_list t \<and>
      (\<forall>y. tproc (timers t' y) = tproc (timers t y)) \<and>
      dlt t x = sum_list (map (dlt t) us) + dlt t' x \<and>
      (\<forall>y. y \<noteq> x \<longrightarrow> (vs \<noteq> [] \<longrightarrow> y \<noteq> hd vs) \<longrightarrow> dlt t' y = dlt t y) \<and>
      (vs \<noteq> [] \<longrightarrow> dlt t (hd vs) = dlt t' x + dlt t' (hd vs) \<and> dlt t' (hd vs) > 0)"
  using assms
proof (induction ys arbitrary: t xs)
  case Nil
  then show ?case by (simp add: add_timer_loop.simps [of x "timer_list t"])
next
  case (Cons y ys)
  have yh: "y \<noteq> timer_list t" using Cons.prems(1) ring_distinct by fastforce
  have yx: "y \<noteq> x" using Cons.prems(2) by auto
  show ?case
  proof (cases "expires (timers t x) < expires (timers t y)")
    case True
    define t' where "t' = set_expires y (expires (timers t y) - expires (timers t x)) t"
    have "dlt t' y = dlt t y - dlt t x"
      using True by (simp add: t'_def dlt_def unat_sub less_imp_le)
    moreover have "dlt t x < dlt t y" using True by (simp add: dlt_def word_less_nat_alt)
    moreover have "add_timer_loop x y t = Some (y, t')"
      using True yh by (simp add: add_timer_loop.simps [of x y] t'_def)
    ultimately show ?thesis using yx yh
      by (intro exI [of _ "[]"] exI [of _ "y # ys"] exI [of _ t']) (auto simp: t'_def)
  next
    case False
    define u where "u = set_expires x (expires (timers t x) - expires (timers t y)) t"
    have le: "dlt t y \<le> dlt t x" using False by (simp add: dlt_def word_less_nat_alt)
    have ux: "dlt u x = dlt t x - dlt t y"
      using False by (simp add: u_def dlt_def unat_sub not_less)
    have uo: "z \<noteq> x \<Longrightarrow> dlt u z = dlt t z" for z by (simp add: u_def)
    have nx: "list_next y (timer_links t) = hd (ys @ [timer_list t])"
      using Cons.prems(1) by (auto simp: ring_inv_def intro: clist_next)
    have st: "add_timer_loop x y t = add_timer_loop x (hd (ys @ [timer_list u])) u"
      using False yh nx by (simp add: add_timer_loop.simps [of x y] u_def)
    have "ring_inv (timer_links u) (timer_list u) ((xs @ [y]) @ ys)"
      and "x \<notin> set ((xs @ [y]) @ ys)" and "x \<noteq> timer_list u"
      using Cons.prems by (simp_all add: u_def)
    from Cons.IH [OF this] obtain us vs t'
      where ys: "ys = us @ vs"
        and r: "add_timer_loop x (hd (ys @ [timer_list u])) u = Some (hd (vs @ [timer_list u]), t')"
        and f: "timer_links t' = timer_links u" "timer_list t' = timer_list u"
          "\<forall>y. tproc (timers t' y) = tproc (timers u y)"
          "dlt u x = sum_list (map (dlt u) us) + dlt t' x"
          "\<forall>y. y \<noteq> x \<longrightarrow> (vs \<noteq> [] \<longrightarrow> y \<noteq> hd vs) \<longrightarrow> dlt t' y = dlt u y"
          "vs \<noteq> [] \<longrightarrow> dlt u (hd vs) = dlt t' x + dlt t' (hd vs) \<and> dlt t' (hd vs) > 0"
      by blast
    have mu: "map (dlt u) us = map (dlt t) us"
      by (rule map_cong [OF refl], rule uo) (use Cons.prems(2) ys in auto)
    have vx: "vs \<noteq> [] \<Longrightarrow> hd vs \<noteq> x" using Cons.prems(2) ys by (cases vs) auto
    have tl: "timer_list u = timer_list t" "timer_links u = timer_links t"
      "\<And>z. tproc (timers u z) = tproc (timers t z)" by (simp_all add: u_def)
    show ?thesis
      using ys r f mu vx ux uo le st yh tl
      by (intro exI [of _ "y # us"] exI [of _ vs] exI [of _ t']) auto
  qed
qed

lemma add_timer_spec:
  assumes t: "tlist t xs" and x: "x \<notin> set xs" "x \<noteq> timer_list t"
    and e: "dlt t x > 0" and p: "tproc (timers t x) \<noteq> 0"
    and w: "sum_list (map (dlt t) xs) + dlt t x < 2 ^ 32"
  shows "\<exists>us vs t'. xs = us @ vs \<and> add_timer x t = Some t' \<and> tlist t' (us @ x # vs) \<and>
      deadline t' (us @ x # vs) x = dlt t x \<and>
      (\<forall>y\<in>set xs. deadline t' (us @ x # vs) y = deadline t xs y) \<and>
      (\<forall>y. tproc (timers t' y) = tproc (timers t y)) \<and> timer_list t' = timer_list t"
proof -
  have r: "ring_inv (timer_links t) (timer_list t) xs" and h: "xs \<noteq> [] \<Longrightarrow> dlt t (hd xs) > 0"
    using t by (auto simp: tlist_def)
  have d: "distinct (timer_list t # xs)" using r by (rule ring_distinct)
  have em: "list_empty x (timer_links t)" using ring_unlinked [OF r, of x] x by simp
  have r': "ring_inv (timer_links t) (timer_list t) ([] @ xs)" and x': "x \<notin> set ([] @ xs)"
    using r x by simp_all
  from add_timer_loop_spec [OF r' x' x(2)] obtain us vs u
    where xs: "xs = us @ vs"
      and lp: "add_timer_loop x (hd (xs @ [timer_list t])) t = Some (hd (vs @ [timer_list t]), u)"
      and f: "timer_links u = timer_links t" "timer_list u = timer_list t"
        "\<forall>y. tproc (timers u y) = tproc (timers t y)"
        "dlt t x = sum_list (map (dlt t) us) + dlt u x"
        "\<forall>y. y \<noteq> x \<longrightarrow> (vs \<noteq> [] \<longrightarrow> y \<noteq> hd vs) \<longrightarrow> dlt u y = dlt t y"
        "vs \<noteq> [] \<longrightarrow> dlt t (hd vs) = dlt u x + dlt u (hd vs) \<and> dlt u (hd vs) > 0"
    by blast
  have uo: "y \<noteq> x \<Longrightarrow> (vs \<noteq> [] \<Longrightarrow> y \<noteq> hd vs) \<Longrightarrow> dlt u y = dlt t y" for y using f(5) by blast
  define t' where "t' = u\<lparr>timer_links := list_add_before (hd (vs @ [timer_list t])) x (timer_links u)\<rparr>"
  have "expires (timers t x) > 0" using e by (simp add: dlt_def word_gt_0 unat_gt_0)
  then have ad: "add_timer x t = Some t'"
    using lp em p ring_first [OF r] by (simp add: add_timer_def t'_def)
  have mu: "map (dlt u) us = map (dlt t) us"
    by (rule map_cong [OF refl], rule uo) (use x xs d in \<open>auto simp: neq_Nil_conv\<close>)
  have mv: "map (dlt u) (tl vs) = map (dlt t) (tl vs)"
    by (rule map_cong [OF refl], rule uo) (use x xs d in \<open>cases vs, auto\<close>)+
  note su = arg_cong [OF mu, of sum_list] arg_cong [OF mv, of sum_list]
  have sv: "dlt u x + sum_list (map (dlt u) vs) = sum_list (map (dlt t) vs)" if "vs \<noteq> []"
    using su f(6) that by (cases vs) auto
  have ri: "ring_inv (timer_links t') (timer_list t') (us @ x # vs)"
    using ring_insert [of "timer_links t" "timer_list t" us vs x] r x xs f by (simp add: t'_def)
  have sum: "sum_list (map (dlt t') (us @ x # vs)) < 2 ^ 32"
  proof (cases "vs = []")
    case True
    then show ?thesis using w f(4) su xs by (simp add: t'_def)
  next
    case False
    with sv su w xs show ?thesis by (simp add: t'_def)
  qed
  have hd: "dlt t' (hd (us @ x # vs)) > 0"
  proof (cases us)
    case Nil
    then show ?thesis using e f(4) by (simp add: t'_def)
  next
    case (Cons u0 us')
    then have "dlt u u0 = dlt t u0" using mu by simp
    then show ?thesis using Cons h xs by (simp add: t'_def)
  qed
  have dx: "deadline t' (us @ x # vs) x = dlt t x"
    using x xs f(4) su by (simp add: deadline_append t'_def)
  have dy: "deadline t' (us @ x # vs) y = deadline t xs y" if y: "y \<in> set xs" for y
  proof -
    have yx: "y \<noteq> x" using y x by auto
    have c: "deadline t' = deadline u" by (simp add: t'_def)
    show ?thesis
    proof (cases "y \<in> set us")
      case True
      have "deadline u us y = deadline t us y"
        by (rule deadline_cong) (use mu in \<open>auto simp: map_eq_conv\<close>)
      with True xs show ?thesis by (simp add: deadline_append c)
    next
      case False
      with y xs obtain v ws where vs: "vs = v # ws" by (cases vs) auto
      have "deadline u ws y = deadline t ws y"
        by (rule deadline_cong) (use mv vs in \<open>auto simp: map_eq_conv\<close>)
      with False xs yx vs f(6) su show ?thesis
        by (simp add: deadline_append c)
    qed
  qed
  have "tlist t' (us @ x # vs)" using ri sum hd by (simp add: tlist_def)
  moreover have "\<forall>y. tproc (timers t' y) = tproc (timers t y)" "timer_list t' = timer_list t"
    using f(2,3) by (simp_all add: t'_def)
  ultimately show ?thesis using xs ad dx dy by blast
qed

section \<open>\<^verbatim>\<open>del_timer\<close>\<close>

lemma del_timer_spec:
  assumes t: "tlist t (us @ x # vs)"
  shows "tlist (del_timer x t) (us @ vs)"
    and "y \<in> set (us @ vs) \<Longrightarrow> deadline (del_timer x t) (us @ vs) y = deadline t (us @ x # vs) y"
proof -
  let ?h = "timer_list t" and ?l = "timer_links t"
  have r: "ring_inv ?l ?h (us @ x # vs)" using t by (simp add: tlist_def)
  have d: "distinct (?h # us @ x # vs)" using ring_distinct [OF r] by simp
  have ne: "\<not> list_empty x ?l" by (rule ring_linked [OF r]) simp
  have nx: "list_next x ?l = hd (vs @ [?h])" using r by (auto simp: ring_inv_def intro: clist_next)
  define u where "u = (if expires (timers t x) \<noteq> 0 \<and> vs \<noteq> []
      then set_expires (hd vs) (expires (timers t (hd vs)) + expires (timers t x)) t else t)"
  have del: "del_timer x t = u\<lparr>timer_links := list_del_init x ?l\<rparr>"
    using ne nx d by (cases vs) (auto simp: del_timer_def u_def Let_def)
  have s: "sum_list (map (dlt t) (us @ x # vs)) < 2 ^ 32" using t by (simp add: tlist_def)
  have hv: "dlt u (hd vs) = dlt t x + dlt t (hd vs)" if "vs \<noteq> []"
  proof (cases "expires (timers t x) = 0")
    case True
    then show ?thesis by (simp add: u_def dlt_def)
  next
    case False
    have "dlt t (hd vs) + dlt t x < 2 ^ 32" using s that by (cases vs) auto
    then have "unat (expires (timers t (hd vs)) + expires (timers t x)) = dlt t (hd vs) + dlt t x"
      by (simp add: dlt_def unat_word_ariths)
    then show ?thesis using False that by (simp add: u_def)
  qed
  have uo: "dlt u y = dlt t y" if "vs \<noteq> [] \<longrightarrow> y \<noteq> hd vs" for y using that by (simp add: u_def)
  have mu: "map (dlt u) us = map (dlt t) us"
    by (rule map_cong [OF refl], rule uo) (use d in \<open>auto simp: neq_Nil_conv\<close>)
  have mv: "map (dlt u) (tl vs) = map (dlt t) (tl vs)"
    by (rule map_cong [OF refl], rule uo) (use d in \<open>cases vs, auto\<close>)+
  note su = arg_cong [OF mu, of sum_list] arg_cong [OF mv, of sum_list]
  have ri: "ring_inv (list_del_init x ?l) ?h (us @ vs)" using r by (rule ring_remove)
  have tu: "timer_list u = ?h" by (simp add: u_def)
  have sum: "sum_list (map (dlt u) (us @ vs)) < 2 ^ 32"
  proof (cases vs)
    case Nil
    then show ?thesis using s su by simp
  next
    case (Cons v ws)
    then show ?thesis using s su hv by simp
  qed
  have hd: "dlt u (hd (us @ vs)) > 0" if "us @ vs \<noteq> []"
  proof (cases us)
    case Nil
    then have "dlt t x > 0" using t by (simp add: tlist_def)
    then show ?thesis using Nil that hv by simp
  next
    case (Cons z zs)
    then have "dlt t z > 0" "dlt u z = dlt t z" using t mu by (simp_all add: tlist_def)
    then show ?thesis using Cons by simp
  qed
  show "tlist (del_timer x t) (us @ vs)" using ri sum hd tu by (simp add: tlist_def del)
  assume y: "y \<in> set (us @ vs)"
  then have yx: "y \<noteq> x" using d by auto
  have c: "deadline (del_timer x t) = deadline u" "dlt (del_timer x t) = dlt u"
    by (simp_all add: del)
  show "deadline (del_timer x t) (us @ vs) y = deadline t (us @ x # vs) y"
  proof (cases "y \<in> set us")
    case True
    have "deadline u us y = deadline t us y"
      by (rule deadline_cong) (use mu in \<open>auto simp: map_eq_conv\<close>)
    with True show ?thesis by (simp add: deadline_append c)
  next
    case False
    with y obtain v ws where vs: "vs = v # ws" by (cases vs) auto
    have "deadline u ws y = deadline t ws y"
      by (rule deadline_cong) (use mv vs in \<open>auto simp: map_eq_conv\<close>)
    with False vs yx hv su show ?thesis by (auto simp: deadline_append c)
  qed
qed

section \<open>\<^verbatim>\<open>run_timer_list\<close>\<close>

text \<open>The reference: wake the owners of the expired timers one after the other.\<close>

definition wake_timer :: "sched_class \<Rightarrow> addr \<Rightarrow> sched_state \<Rightarrow> sched_state option" where
  "wake_timer cls p s =
     Option.bind (ensure (wait_state (procs s p) \<noteq> 0 \<longrightarrow> wait_state (procs s p) AND WT_INTERRUPTED \<noteq> 0))
       (\<lambda>_. wakeup_proc cls p s)"

fun wake_all :: "sched_class \<Rightarrow> addr list \<Rightarrow> sched_state \<Rightarrow> sched_state option" where
  "wake_all cls [] s = Some s"
| "wake_all cls (p # ps) s = Option.bind (wake_timer cls p s) (wake_all cls ps)"

lemma del_expired:
  assumes "ring_inv (timer_links t) h xs" and "y \<in> set xs" and "dlt t y = 0"
  shows "del_timer y t = t\<lparr>timer_links := list_del_init y (timer_links t)\<rparr>"
  using ring_linked [OF assms(1,2)] assms(3)
  by (simp add: del_timer_def dlt_def unat_eq_0)

lemma run_timer_loop_spec:
  assumes "ring_inv (timer_links t) (timer_list t) (ys @ zs)" and "ys \<noteq> []"
    and "\<And>y. y \<in> set ys \<Longrightarrow> dlt t y = 0" and "zs \<noteq> [] \<Longrightarrow> dlt t (hd zs) > 0"
  shows "\<exists>l. ring_inv l (timer_list t) zs \<and>
      run_timer_loop cls (hd ys) s t =
        map_option (\<lambda>s. (s, t\<lparr>timer_links := l\<rparr>))
          (wake_all cls (map (\<lambda>y. tproc (timers t y)) ys) s)"
  using assms
proof (induction ys arbitrary: s t)
  case Nil
  then show ?case by simp
next
  case (Cons y ys)
  let ?l = "list_del_init y (timer_links t)" and ?h = "timer_list t"
  have r: "ring_inv ?l ?h (ys @ zs)"
    using ring_remove [of "timer_links t" ?h "[]" y "ys @ zs"] Cons.prems(1) by simp
  have del: "del_timer y t = t\<lparr>timer_links := ?l\<rparr>"
    using del_expired [OF Cons.prems(1), of y] Cons.prems(3) by simp
  have e0: "expires (timers t y) = 0" using Cons.prems(3) [of y] by (simp add: dlt_def unat_eq_0)
  have nx: "list_next y (timer_links t) = hd (ys @ zs @ [?h])"
    using Cons.prems(1) clist_next [of "timer_links t" ?h "[]" y "ys @ zs"] by (simp add: ring_inv_def)
  have h: "?h \<notin> set (ys @ zs)" using ring_distinct [OF r] by auto
  have st: "run_timer_loop cls y s t =
      Option.bind (wake_timer cls (tproc (timers t y)) s)
        (\<lambda>s. if hd (ys @ zs @ [?h]) = ?h then Some (s, t\<lparr>timer_links := ?l\<rparr>)
             else run_timer_loop cls (hd (ys @ zs @ [?h])) s (t\<lparr>timer_links := ?l\<rparr>))"
    by (subst run_timer_loop.simps) (simp add: e0 nx del wake_timer_def Let_def)
  show ?case
  proof (cases ys)
    case Nil
    have "run_timer_loop cls (hd zs) s (t\<lparr>timer_links := ?l\<rparr>) = Some (s, t\<lparr>timer_links := ?l\<rparr>)"
      if "zs \<noteq> []" for s
      using Cons.prems(4) [OF that] by (subst run_timer_loop.simps) (auto simp: dlt_def)
    then have "run_timer_loop cls y s t =
        map_option (\<lambda>s. (s, t\<lparr>timer_links := ?l\<rparr>)) (wake_timer cls (tproc (timers t y)) s)"
      using st Nil h by (cases zs) (auto simp: map_option_case split: option.split)
    then show ?thesis using r Nil
      by (intro exI [of _ ?l], cases "wake_timer cls (tproc (timers t y)) s") simp_all
  next
    case c: (Cons y' ys')
    let ?t = "t\<lparr>timer_links := ?l\<rparr>"
    have "\<exists>l. ring_inv l ?h zs \<and> (run_timer_loop cls (hd ys) s ?t =
        map_option (\<lambda>s. (s, t\<lparr>timer_links := l\<rparr>)) (wake_all cls (map (\<lambda>y. tproc (timers t y)) ys) s))" for s
      using Cons.IH [of ?t s] r Cons.prems c by simp
    moreover have "run_timer_loop cls y s t =
        Option.bind (wake_timer cls (tproc (timers t y)) s) (\<lambda>s. run_timer_loop cls (hd ys) s ?t)"
      using st c h by auto
    ultimately show ?thesis
      using r by (cases "wake_timer cls (tproc (timers t y)) s") auto
  qed
qed

lemma deadline_zero:
  "x \<in> set xs \<Longrightarrow> deadline t xs x = 0 \<longleftrightarrow> x \<in> set (takeWhile (\<lambda>y. dlt t y = 0) xs)"
  by (induction xs) auto

lemma sum_takeWhile_zero: "sum_list (map (dlt t) (takeWhile (\<lambda>y. dlt t y = 0) xs)) = 0"
  by (induction xs) auto

lemma run_timer_list_spec:
  assumes t: "tlist t xs"
  shows "\<exists>ys zs t'. xs = ys @ zs \<and> ys = filter (\<lambda>x. deadline t xs x = 1) xs \<and>
      run_timer_list cls s t =
        map_option (\<lambda>s. (if current s \<noteq> 0 then sched_class_proc_tick cls (current s) s else s, t'))
          (wake_all cls (map (\<lambda>y. tproc (timers t y)) ys) s) \<and>
      tlist t' zs \<and> (\<forall>z\<in>set zs. deadline t' zs z + 1 = deadline t xs z) \<and>
      timer_list t' = timer_list t \<and> (\<forall>y. tproc (timers t' y) = tproc (timers t y))"
proof (cases xs)
  case Nil
  with t have "list_next (timer_list t) (timer_links t) = timer_list t"
    by (simp add: tlist_def ring_first)
  with Nil t show ?thesis
    by (intro exI [of _ "[]"] exI [of _ t]) (simp add: run_timer_list_def)
next
  case (Cons x xs')
  let ?h = "timer_list t"
  have r: "ring_inv (timer_links t) ?h xs" and d0: "dlt t x > 0"
    and sum: "sum_list (map (dlt t) xs) < 2 ^ 32" using t Cons by (auto simp: tlist_def)
  have d: "distinct (?h # xs)" using r by (rule ring_distinct)
  define u where "u = set_expires x (expires (timers t x) - 1) t"
  have e0: "expires (timers t x) \<noteq> 0" using d0 by (auto simp: dlt_def)
  have du: "dlt u y = (if y = x then dlt t x - 1 else dlt t y)" for y
    using e0 by (auto simp: u_def dlt_def unat_minus_one)
  have un: "timer_links u = timer_links t" "timer_list u = ?h"
    "\<And>y. tproc (timers u y) = tproc (timers t y)" by (simp_all add: u_def)
  have "deadline u xs' y = deadline t xs' y" for y
    by (rule deadline_cong) (use d Cons du in auto)
  then have dead: "deadline t xs y = deadline u xs y + 1" for y using Cons d0 du by simp
  define ys where "ys = takeWhile (\<lambda>y. dlt u y = 0) xs"
  define zs where "zs = dropWhile (\<lambda>y. dlt u y = 0) xs"
  have xs: "xs = ys @ zs" by (simp add: ys_def zs_def)
  have hz: "zs \<noteq> [] \<Longrightarrow> dlt u (hd zs) > 0" using hd_dropWhile [of "\<lambda>y. dlt u y = 0" xs]
    by (auto simp: zs_def)
  have y0: "y \<in> set ys \<Longrightarrow> dlt u y = 0" for y by (auto simp: ys_def dest: set_takeWhileD)
  have ysd: "ys = filter (\<lambda>x. deadline t xs x = 1) xs"
  proof -
    have z: "y \<in> set xs \<Longrightarrow> deadline t xs y = 1 \<longleftrightarrow> y \<in> set ys" for y
      by (simp add: dead deadline_zero ys_def)
    have "\<forall>y\<in>set ys. deadline t xs y = 1" using z xs by auto
    moreover have "\<forall>z\<in>set zs. deadline t xs z \<noteq> 1" using z d xs by auto
    ultimately show ?thesis by (subst xs) (simp add: filter_empty_conv)
  qed
  have fin: ?thesis if l: "ring_inv l ?h zs" and run: "run_timer_loop cls x s u =
      map_option (\<lambda>s. (s, u\<lparr>timer_links := l\<rparr>)) (wake_all cls (map (\<lambda>y. tproc (timers t y)) ys) s)" for l
  proof -
    let ?t = "u\<lparr>timer_links := l\<rparr>"
    have s0: "sum_list (map (dlt u) ys) = 0" by (simp add: ys_def sum_takeWhile_zero)
    have "x \<notin> set xs'" using d Cons by simp
    then have "sum_list (map (dlt u) xs') = sum_list (map (dlt t) xs')"
      by (intro arg_cong [where f = sum_list] map_cong) (auto simp: du)
    then have "sum_list (map (dlt u) xs) \<le> sum_list (map (dlt t) xs)" using Cons du by simp
    then have "tlist ?t zs" using l hz sum s0 xs un by (simp add: tlist_def)
    moreover have "deadline ?t zs z + 1 = deadline t xs z" if "z \<in> set zs" for z
    proof -
      have "z \<notin> set ys" using that d xs by auto
      then have "deadline u (ys @ zs) z = deadline u zs z"
        by (simp only: deadline_append if_False s0 add_0_left)
      then show ?thesis by (simp add: dead flip: xs)
    qed
    moreover have "run_timer_list cls s t =
        map_option (\<lambda>s. (if current s \<noteq> 0 then sched_class_proc_tick cls (current s) s else s, ?t))
          (wake_all cls (map (\<lambda>y. tproc (timers t y)) ys) s)"
      using ring_first [OF r] Cons d e0 run
      by (cases "wake_all cls (map (\<lambda>y. tproc (timers t y)) ys) s")
         (auto simp: run_timer_list_def Let_def u_def [symmetric])
    moreover have "timer_list ?t = ?h" "\<forall>y. tproc (timers ?t y) = tproc (timers t y)"
      using un by simp_all
    ultimately show ?thesis using xs ysd by blast
  qed
  show ?thesis
  proof (cases "ys = []")
    case True
    then have "dlt u x > 0" using Cons hz xs by simp
    then have "run_timer_loop cls x s u = Some (s, u)"
      by (subst run_timer_loop.simps) (auto simp: dlt_def)
    moreover have "ring_inv (timer_links u) ?h zs" using r True xs un by simp
    ultimately show ?thesis using True by (intro fin) auto
  next
    case False
    then have "hd ys = x" using Cons xs by (cases ys) auto
    moreover have "ring_inv (timer_links u) (timer_list u) (ys @ zs)" using r xs un by simp
    ultimately show ?thesis
      using run_timer_loop_spec [of u ys zs cls s] False un hz y0 fin by auto
  qed
qed

section \<open>Properties\<close>

text \<open>
  \<^verbatim>\<open>add_timer\<close> of a timer that is to expire in \<open>d\<close> ticks puts it in the list so that
  its deadline is \<open>d\<close>, and every timer already there keeps its deadline, although the list
  stores only differences and the operation rewrites two of them.
\<close>

theorem add_timer_keeps_deadlines:
  assumes "tlist t xs" and "x \<notin> set xs" and "x \<noteq> timer_list t" and "dlt t x > 0"
    and "tproc (timers t x) \<noteq> 0" and "sum_list (map (dlt t) xs) + dlt t x < 2 ^ 32"
  shows "\<exists>ys t'. add_timer x t = Some t' \<and> tlist t' ys \<and> set ys = insert x (set xs) \<and>
    deadline t' ys x = dlt t x \<and> (\<forall>y\<in>set xs. deadline t' ys y = deadline t xs y)"
proof -
  from add_timer_spec [OF assms] obtain us vs t'
    where "xs = us @ vs" "add_timer x t = Some t'" "tlist t' (us @ x # vs)"
      "deadline t' (us @ x # vs) x = dlt t x"
      "\<forall>y\<in>set xs. deadline t' (us @ x # vs) y = deadline t xs y" by blast
  then show ?thesis by (intro exI [of _ "us @ x # vs"] exI [of _ t']) auto
qed

definition demo_timers :: timer_state where
  "demo_timers =
     \<lparr>timers = (\<lambda>_. \<lparr>expires = 0, tproc = 7\<rparr>)
        (20 := \<lparr>expires = 3, tproc = 7\<rparr>, 21 := \<lparr>expires = 2, tproc = 8\<rparr>, 22 := \<lparr>expires = 4, tproc = 9\<rparr>),
      timer_list = 1,
      timer_links = \<lparr>nxt = id(1 := 20, 20 := 21, 21 := 1), prv = id(20 := 1, 21 := 20, 1 := 21)\<rparr>\<rparr>"

lemma demo_tlist: "tlist demo_timers [20, 21]"
  by (auto simp: demo_timers_def tlist_def dlt_def ring_inv_def clist_def list_empty_def)

theorem add_timer_keeps_deadlines_witness:
  "\<exists>ys t'. add_timer 22 demo_timers = Some t' \<and> deadline t' ys 22 = 4 \<and> deadline t' ys 21 = 5"
  using add_timer_keeps_deadlines [OF demo_tlist, of 22] by (auto simp: demo_timers_def dlt_def)

text \<open>
  \<^verbatim>\<open>del_timer\<close> takes one timer out and every other timer keeps its deadline.
\<close>

theorem del_timer_keeps_deadlines:
  assumes "tlist t (us @ x # vs)" and "y \<in> set (us @ vs)"
  shows "tlist (del_timer x t) (us @ vs) \<and>
    deadline (del_timer x t) (us @ vs) y = deadline t (us @ x # vs) y"
  using del_timer_spec [OF assms(1)] assms(2) by simp

theorem del_timer_keeps_deadlines_witness:
  "deadline (del_timer 20 demo_timers) [21] 21 = 5"
  using del_timer_keeps_deadlines [of demo_timers "[]" 20 "[21]" 21] demo_tlist
  by (simp add: demo_timers_def dlt_def)

text \<open>
  C4: On each tick \<^verbatim>\<open>run_timer_list\<close> wakes the owners of exactly the timers whose deadline is
  one tick away, in the order of the list, removes these timers and brings every other
  deadline one tick nearer; the pointer loop computes the same states as waking them one by
  one, and fails only where waking one of them fails.
\<close>

theorem run_timer_list_wakes_expired:
  assumes "tlist t xs"
  shows "\<exists>zs t'. tlist t' zs \<and> zs = filter (\<lambda>x. deadline t xs x \<noteq> 1) xs \<and>
    (\<forall>z\<in>set zs. deadline t' zs z + 1 = deadline t xs z) \<and>
    run_timer_list cls s t =
      map_option (\<lambda>s. (if current s \<noteq> 0 then sched_class_proc_tick cls (current s) s else s, t'))
        (wake_all cls (map (\<lambda>y. tproc (timers t y)) (filter (\<lambda>x. deadline t xs x = 1) xs)) s)"
proof -
  from run_timer_list_spec [OF assms, of cls s] obtain ys zs t'
    where x: "xs = ys @ zs" and y: "ys = filter (\<lambda>x. deadline t xs x = 1) xs"
      and r: "run_timer_list cls s t =
        map_option (\<lambda>s. (if current s \<noteq> 0 then sched_class_proc_tick cls (current s) s else s, t'))
          (wake_all cls (map (\<lambda>y. tproc (timers t y)) ys) s)"
      and z: "tlist t' zs" "\<forall>z\<in>set zs. deadline t' zs z + 1 = deadline t xs z" by blast
  let ?P = "\<lambda>x. deadline t xs x = 1"
  have d: "distinct xs" using assms ring_distinct by (auto simp: tlist_def)
  have "filter (\<lambda>x. \<not> ?P x) ys = []" by (subst y) simp
  moreover have "\<not> ?P z" if "z \<in> set zs" for z
  proof
    assume "?P z"
    then have "z \<in> set ys" using that x by (subst y) simp
    then show False using that d x by auto
  qed
  then have "filter (\<lambda>x. \<not> ?P x) zs = zs" by (simp add: filter_id_conv)
  moreover have "filter (\<lambda>x. \<not> ?P x) xs = filter (\<lambda>x. \<not> ?P x) ys @ filter (\<lambda>x. \<not> ?P x) zs"
    using x by (metis filter_append)
  ultimately have "zs = filter (\<lambda>x. \<not> ?P x) xs" by simp
  with z r y show ?thesis by (intro exI [of _ zs] exI [of _ t']) metis
qed

theorem run_timer_list_wakes_expired_witness:
  "\<exists>t'. run_timer_list default_sched_class demo_sched demo_timers =
     Some (sched_class_proc_tick default_sched_class 10 demo_sched, t') \<and> deadline t' [20, 21] 20 = 2"
  using run_timer_list_wakes_expired [OF demo_tlist, of default_sched_class demo_sched]
  by (auto simp: demo_timers_def dlt_def demo_sched_def)

end
