(* ===== verification/WaitQueue.thy ===== *)
theory WaitQueue
  imports Sched
begin

text \<open>
  Wait queues (\<^verbatim>\<open>kern/sync/wait.c\<close>) and semaphores (\<^verbatim>\<open>kern/sync/sem.c\<close>) on the pointer store
  and the scheduler. A \<^verbatim>\<open>wait_t\<close> is named by its address, which is also the address of its
  \<^verbatim>\<open>wait_link\<close>; a queue and a semaphore by the address of the list head. The semaphore is
  proved to refine the counting semaphore with a FIFO queue of processes.
\<close>

record wait_t =
  wproc :: addr
  wakeup_flags :: u32
  wait_queue :: addr

record sync_state =
  sch :: sched_state
  waits :: "addr \<Rightarrow> wait_t"
  wlinks :: links
  sem_value :: "addr \<Rightarrow> int"

definition upd_wait :: "addr \<Rightarrow> (wait_t \<Rightarrow> wait_t) \<Rightarrow> sync_state \<Rightarrow> sync_state" where
  "upd_wait w f k = k\<lparr>waits := (waits k)(w := f (waits k w))\<rparr>"

lemma upd_wait_simps [simp]:
  "sch (upd_wait w f k) = sch k" "wlinks (upd_wait w f k) = wlinks k"
  "sem_value (upd_wait w f k) = sem_value k"
  "waits (upd_wait w f k) v = (if v = w then f (waits k w) else waits k v)"
  by (simp_all add: upd_wait_def)

section \<open>\<^verbatim>\<open>wait.c\<close>\<close>

definition wait_init :: "addr \<Rightarrow> addr \<Rightarrow> sync_state \<Rightarrow> sync_state" where
  "wait_init wait proc k =
     (let k = upd_wait wait (\<lambda>w. w\<lparr>wproc := proc\<rparr>) k;
          k = upd_wait wait (\<lambda>w. w\<lparr>wakeup_flags := WT_INTERRUPTED\<rparr>) k
      in k\<lparr>wlinks := list_init wait (wlinks k)\<rparr>)"

definition wait_queue_init :: "addr \<Rightarrow> sync_state \<Rightarrow> sync_state" where
  "wait_queue_init queue k = k\<lparr>wlinks := list_init queue (wlinks k)\<rparr>"

definition wait_queue_add :: "addr \<Rightarrow> addr \<Rightarrow> sync_state \<Rightarrow> sync_state option" where
  "wait_queue_add queue wait k = do {
     ensure (list_empty wait (wlinks k) \<and> wproc (waits k wait) \<noteq> 0);
     let k = upd_wait wait (\<lambda>w. w\<lparr>wait_queue := queue\<rparr>) k;
     Some (k\<lparr>wlinks := list_add_before queue wait (wlinks k)\<rparr>)
   }"

definition wait_queue_del :: "addr \<Rightarrow> addr \<Rightarrow> sync_state \<Rightarrow> sync_state option" where
  "wait_queue_del queue wait k = do {
     ensure (\<not> list_empty wait (wlinks k) \<and> wait_queue (waits k wait) = queue);
     Some (k\<lparr>wlinks := list_del_init wait (wlinks k)\<rparr>)
   }"

text \<open>The traversals return 0 (\<^verbatim>\<open>NULL\<close>) at the end of the queue.\<close>

definition wait_queue_next :: "addr \<Rightarrow> addr \<Rightarrow> sync_state \<Rightarrow> addr option" where
  "wait_queue_next queue wait k = do {
     ensure (\<not> list_empty wait (wlinks k) \<and> wait_queue (waits k wait) = queue);
     let le = list_next wait (wlinks k);
     Some (if le \<noteq> queue then le else 0)
   }"

definition wait_queue_prev :: "addr \<Rightarrow> addr \<Rightarrow> sync_state \<Rightarrow> addr option" where
  "wait_queue_prev queue wait k = do {
     ensure (\<not> list_empty wait (wlinks k) \<and> wait_queue (waits k wait) = queue);
     let le = list_prev wait (wlinks k);
     Some (if le \<noteq> queue then le else 0)
   }"

definition wait_queue_first :: "addr \<Rightarrow> sync_state \<Rightarrow> addr" where
  "wait_queue_first queue k =
     (let le = list_next queue (wlinks k) in if le \<noteq> queue then le else 0)"

definition wait_queue_last :: "addr \<Rightarrow> sync_state \<Rightarrow> addr" where
  "wait_queue_last queue k =
     (let le = list_prev queue (wlinks k) in if le \<noteq> queue then le else 0)"

definition wait_queue_empty :: "addr \<Rightarrow> sync_state \<Rightarrow> bool" where
  "wait_queue_empty queue k = list_empty queue (wlinks k)"

definition wait_in_queue :: "addr \<Rightarrow> sync_state \<Rightarrow> bool" where
  "wait_in_queue wait k = (\<not> list_empty wait (wlinks k))"

definition wakeup_wait ::
  "sched_class \<Rightarrow> addr \<Rightarrow> addr \<Rightarrow> u32 \<Rightarrow> bool \<Rightarrow> sync_state \<Rightarrow> sync_state option" where
  "wakeup_wait cls queue wait wflags del k = do {
     k \<leftarrow> (if del then wait_queue_del queue wait k else Some k);
     let k = upd_wait wait (\<lambda>w. w\<lparr>wakeup_flags := wflags\<rparr>) k;
     s \<leftarrow> wakeup_proc cls (wproc (waits k wait)) (sch k);
     Some (k\<lparr>sch := s\<rparr>)
   }"

definition wakeup_first ::
  "sched_class \<Rightarrow> addr \<Rightarrow> u32 \<Rightarrow> bool \<Rightarrow> sync_state \<Rightarrow> sync_state option" where
  "wakeup_first cls queue wflags del k =
     (let wait = wait_queue_first queue k
      in if wait \<noteq> 0 then wakeup_wait cls queue wait wflags del k else Some k)"

partial_function (option) wakeup_queue_del ::
  "sched_class \<Rightarrow> addr \<Rightarrow> addr \<Rightarrow> u32 \<Rightarrow> sync_state \<Rightarrow> sync_state option" where
  "wakeup_queue_del cls queue wait wflags k =
     Option.bind (wakeup_wait cls queue wait wflags True k)
       (\<lambda>k. let wait = wait_queue_first queue k
            in if wait \<noteq> 0 then wakeup_queue_del cls queue wait wflags k else Some k)"

partial_function (option) wakeup_queue_keep ::
  "sched_class \<Rightarrow> addr \<Rightarrow> addr \<Rightarrow> u32 \<Rightarrow> sync_state \<Rightarrow> sync_state option" where
  "wakeup_queue_keep cls queue wait wflags k =
     Option.bind (wakeup_wait cls queue wait wflags False k)
       (\<lambda>k. Option.bind (wait_queue_next queue wait k)
       (\<lambda>wait. if wait \<noteq> 0 then wakeup_queue_keep cls queue wait wflags k else Some k))"

definition wakeup_queue ::
  "sched_class \<Rightarrow> addr \<Rightarrow> u32 \<Rightarrow> bool \<Rightarrow> sync_state \<Rightarrow> sync_state option" where
  "wakeup_queue cls queue wflags del k =
     (let wait = wait_queue_first queue k
      in if wait \<noteq> 0
         then (if del then wakeup_queue_del cls queue wait wflags k
               else wakeup_queue_keep cls queue wait wflags k)
         else Some k)"

definition wait_current_set :: "addr \<Rightarrow> addr \<Rightarrow> u32 \<Rightarrow> sync_state \<Rightarrow> sync_state option" where
  "wait_current_set queue wait wstate k = do {
     ensure (current (sch k) \<noteq> 0);
     let k = wait_init wait (current (sch k)) k;
     let k = k\<lparr>sch := upd_proc (current (sch k)) (\<lambda>q. q\<lparr>state := PROC_SLEEPING\<rparr>) (sch k)\<rparr>;
     let k = k\<lparr>sch := upd_proc (current (sch k)) (\<lambda>q. q\<lparr>wait_state := wstate\<rparr>) (sch k)\<rparr>;
     wait_queue_add queue wait k
   }"

definition wait_current_del :: "addr \<Rightarrow> addr \<Rightarrow> sync_state \<Rightarrow> sync_state option" where
  "wait_current_del queue wait k =
     (if wait_in_queue wait k then wait_queue_del queue wait k else Some k)"

section \<open>\<^verbatim>\<open>sem.c\<close>\<close>

definition sem_init :: "addr \<Rightarrow> int \<Rightarrow> sync_state \<Rightarrow> sync_state" where
  "sem_init sem val k =
     wait_queue_init sem (k\<lparr>sem_value := (sem_value k)(sem := val)\<rparr>)"

definition sem_up :: "sched_class \<Rightarrow> addr \<Rightarrow> u32 \<Rightarrow> sync_state \<Rightarrow> sync_state option" where
  "sem_up cls sem wstate k =
     (let wait = wait_queue_first sem k
      in if wait = 0 then Some (k\<lparr>sem_value := (sem_value k)(sem := sem_value k sem + 1)\<rparr>)
         else do {
           ensure (wait_state (procs (sch k) (wproc (waits k wait))) = wstate);
           wakeup_wait cls sem wait wstate True k
         })"

text \<open>
  \<^verbatim>\<open>__down\<close> is cut where it gives up the processor: \<open>sem_down\<close> runs up to the return of
  \<^verbatim>\<open>schedule\<close> in the next process (\<open>Inl\<close>) or returns 0 (\<open>Inr\<close>); \<open>sem_down_resume\<close> is what the
  sleeper runs when it is switched to again, with the flags it returns.
\<close>

definition sem_down :: "sched_class \<Rightarrow> addr \<Rightarrow> addr \<Rightarrow> u32 \<Rightarrow> sync_state \<Rightarrow>
    (sync_state + sync_state) option" where
  "sem_down cls sem wait wstate k =
     (if sem_value k sem > 0
      then Some (Inr (k\<lparr>sem_value := (sem_value k)(sem := sem_value k sem - 1)\<rparr>))
      else do {
        k \<leftarrow> wait_current_set sem wait wstate k;
        s \<leftarrow> schedule cls (sch k);
        Some (Inl (k\<lparr>sch := s\<rparr>))
      })"

definition sem_down_resume :: "addr \<Rightarrow> addr \<Rightarrow> u32 \<Rightarrow> sync_state \<Rightarrow> (u32 \<times> sync_state) option" where
  "sem_down_resume sem wait wstate k = do {
     k \<leftarrow> wait_current_del sem wait k;
     Some (if wakeup_flags (waits k wait) \<noteq> wstate then wakeup_flags (waits k wait) else 0, k)
   }"

definition up :: "sched_class \<Rightarrow> addr \<Rightarrow> sync_state \<Rightarrow> sync_state option" where
  "up cls sem k = sem_up cls sem WT_KSEM k"

definition down :: "sched_class \<Rightarrow> addr \<Rightarrow> addr \<Rightarrow> sync_state \<Rightarrow> (sync_state + sync_state) option" where
  "down cls sem wait k = sem_down cls sem wait WT_KSEM k"

definition down_resume :: "addr \<Rightarrow> addr \<Rightarrow> sync_state \<Rightarrow> sync_state option" where
  "down_resume sem wait k = do {
     (wflags, k) \<leftarrow> sem_down_resume sem wait WT_KSEM k;
     ensure (wflags = 0);
     Some k
   }"

definition try_down :: "addr \<Rightarrow> sync_state \<Rightarrow> bool \<times> sync_state" where
  "try_down sem k =
     (if sem_value k sem > 0
      then (True, k\<lparr>sem_value := (sem_value k)(sem := sem_value k sem - 1)\<rparr>) else (False, k))"

section \<open>The queue of a semaphore\<close>

text \<open>
  \<open>wq k q ws\<close>: the entries waiting in \<open>q\<close>, oldest first. \<open>semrep k m a\<close>: the semaphore \<open>m\<close> is the
  abstract one \<open>a\<close>, a value and the processes that wait, where nobody waits while the value is
  positive.
\<close>

definition wq :: "sync_state \<Rightarrow> addr \<Rightarrow> addr list \<Rightarrow> bool" where
  "wq k q ws \<longleftrightarrow> clist (wlinks k) q ws \<and> 0 \<notin> set ws \<and> (\<forall>w\<in>set ws. wait_queue (waits k w) = q)"

type_synonym asem = "int \<times> addr list"

definition asem_up :: "asem \<Rightarrow> asem \<times> addr option" where
  "asem_up a = (case snd a of [] \<Rightarrow> ((fst a + 1, []), None) | p # ps \<Rightarrow> ((fst a, ps), Some p))"

definition asem_down :: "addr \<Rightarrow> asem \<Rightarrow> asem \<times> bool" where
  "asem_down p a = (if fst a > 0 then ((fst a - 1, snd a), True) else ((fst a, snd a @ [p]), False))"

definition semrep :: "sync_state \<Rightarrow> addr \<Rightarrow> addr list \<Rightarrow> asem \<Rightarrow> bool" where
  "semrep k m ws a \<longleftrightarrow> wq k m ws \<and> a = (sem_value k m, map (\<lambda>w. wproc (waits k w)) ws) \<and>
     (ws \<noteq> [] \<longrightarrow> sem_value k m = 0) \<and> sem_value k m \<ge> 0 \<and> distinct (snd a) \<and>
     (\<forall>w\<in>set ws. wproc (waits k w) \<noteq> 0 \<and> state (procs (sch k) (wproc (waits k w))) = PROC_SLEEPING \<and>
        wait_state (procs (sch k) (wproc (waits k w))) = WT_KSEM)"

lemma wq_distinct: "wq k q ws \<Longrightarrow> distinct (q # ws)"
  by (simp add: wq_def clist_def)

lemma wq_first: "wq k q ws \<Longrightarrow> wait_queue_first q k = (case ws of [] \<Rightarrow> 0 | w # _ \<Rightarrow> w)"
  using lring.seq_first [of "wlinks k" q ws] wq_distinct [of k q ws]
  by (cases ws) (auto simp: wq_def wait_queue_first_def Let_def)

lemma wq_add:
  assumes "wq k q ws" and "w \<notin> set (q # ws)" and "w \<noteq> 0" and "wproc (waits k w) \<noteq> 0"
    and "list_empty w (wlinks k)"
  shows "\<exists>k'. wait_queue_add q w k = Some k' \<and> wq k' q (ws @ [w]) \<and> sch k' = sch k \<and>
      sem_value k' = sem_value k \<and> (\<forall>v. wproc (waits k' v) = wproc (waits k v)) \<and>
      (\<forall>v. v \<noteq> w \<longrightarrow> waits k' v = waits k v)"
  using assms lring.seq_push [of "wlinks k" q ws w]
  by (auto simp: wait_queue_add_def wq_def Let_def)

lemma wq_del:
  assumes "wq k q (us @ w # vs)"
  shows "\<exists>k'. wait_queue_del q w k = Some k' \<and> wq k' q (us @ vs) \<and> k' = k\<lparr>wlinks := wlinks k'\<rparr>"
  using assms clist_member_not_self [of "wlinks k" q "us @ w # vs" w]
    lring.seq_remove [of "wlinks k" q us w vs]
  by (auto simp: wait_queue_del_def wq_def)

lemma semrepD:
  assumes "semrep k m ws a"
  shows "wq k m ws" and "snd a = map (\<lambda>w. wproc (waits k w)) ws" and "fst a = sem_value k m"
    and "distinct (map (\<lambda>w. wproc (waits k w)) ws)"
    and "w \<in> set ws \<Longrightarrow> state (procs (sch k) (wproc (waits k w))) = PROC_SLEEPING"
    and "w \<in> set ws \<Longrightarrow> wait_state (procs (sch k) (wproc (waits k w))) = WT_KSEM"
  using assms by (auto simp: semrep_def)

lemma sem_init_rep: "semrep (sem_init m v k) m [] (v, []) \<longleftrightarrow> v \<ge> 0"
  by (simp add: semrep_def wq_def sem_init_def wait_queue_init_def clist_init)

text \<open>The conditions under which the entry \<open>w\<close> can be woken by a class that holds \<open>P\<close>.\<close>

context sched_policy
begin

text \<open>\<^verbatim>\<open>up\<close> gives the token to the first waiter, or counts it.\<close>

lemma up_refines:
  assumes inv: "sched_inv ready (sch k) P" and sem: "semrep k m ws a"
    and run: "state (procs (sch k) (current (sch k))) = PROC_RUNNABLE"
      "state (procs (sch k) (idleproc (sch k))) = PROC_RUNNABLE"
    and ad: "\<And>w. w \<in> set ws \<Longrightarrow> adm (sch k) P (wproc (waits k w))"
  shows "\<exists>k'. up cls m k = Some k' \<and> semrep k' m (tl ws) (fst (asem_up a)) \<and>
      current (sch k') = current (sch k) \<and>
      (case snd (asem_up a) of None \<Rightarrow> sch k' = sch k
       | Some p \<Rightarrow> state (procs (sch k') p) = PROC_RUNNABLE \<and> sched_inv ready (sch k') (insert p P) \<and>
           \<not> wait_in_queue (hd ws) k' \<and> wakeup_flags (waits k' (hd ws)) = WT_KSEM \<and>
           (\<forall>q. q \<noteq> p \<longrightarrow> life (procs (sch k') q) = life (procs (sch k) q)))"
proof (cases ws)
  case Nil
  then have "up cls m k = Some (k\<lparr>sem_value := (sem_value k)(m := sem_value k m + 1)\<rparr>)"
    using wq_first [OF semrepD(1) [OF sem]] by (simp add: up_def sem_up_def)
  moreover have "snd a = []" using sem Nil by (simp add: semrep_def)
  ultimately show ?thesis using sem Nil by (auto simp: asem_up_def semrep_def wq_def)
next
  case (Cons w vs)
  let ?p = "wproc (waits k w)"
  note D = semrepD [OF sem]
  have first: "wait_queue_first m k = w" using wq_first [OF D(1)] Cons by simp
  have w0: "w \<noteq> 0" using D(1) Cons by (auto simp: wq_def)
  from wq_del [of k m "[]" w vs] D(1) Cons obtain k1
    where k1: "wait_queue_del m w k = Some k1" "wq k1 m vs" "k1 = k\<lparr>wlinks := wlinks k1\<rparr>" by auto
  have k1s: "sch k1 = sch k" "waits k1 = waits k" "sem_value k1 = sem_value k"
    by (subst k1(3), simp)+
  have sl: "state (procs (sch k) ?p) = PROC_SLEEPING" using D(5) Cons by simp
  have pc: "?p \<noteq> current (sch k)" "?p \<noteq> idleproc (sch k)" using sl run by auto
  from wakeup_proc_spec [OF inv, of ?p] sl pc ad [of w] Cons obtain s
    where s: "wakeup_proc cls ?p (sch k) = Some s" "sched_inv ready s (insert ?p P)"
      "state (procs s ?p) = PROC_RUNNABLE" "current s = current (sch k)"
      "\<And>q. q \<noteq> ?p \<Longrightarrow> life (procs s q) = life (procs (sch k) q)" by auto
  define k' where "k' = (upd_wait w (\<lambda>w. w\<lparr>wakeup_flags := WT_KSEM\<rparr>) k1)\<lparr>sch := s\<rparr>"
  have up: "up cls m k = Some k'"
    using first w0 D(6) [of w] Cons k1 k1s s(1)
    by (simp add: up_def sem_up_def wakeup_wait_def k'_def Let_def)
  have f: "sch k' = s" "wlinks k' = wlinks k1" "sem_value k' = sem_value k"
    "\<And>v. wproc (waits k' v) = wproc (waits k v)" "\<And>v. wait_queue (waits k' v) = wait_queue (waits k v)"
    "wakeup_flags (waits k' w) = WT_KSEM"
    by (auto simp: k'_def k1s)
  have "list_empty w (wlinks k1)"
    using k1(1) list_del_init_self by (auto simp: wait_queue_del_def)
  then have nq: "\<not> wait_in_queue w k'" by (simp add: wait_in_queue_def f)
  have lf: "state (procs s q) = state (procs (sch k) q)"
    "wait_state (procs s q) = wait_state (procs (sch k) q)" if "q \<noteq> ?p" for q
    using s(5) [OF that] by (auto simp: life_def)
  have np: "wproc (waits k v) \<noteq> ?p" if "v \<in> set vs" for v using D(4) Cons that by (auto simp: image_iff)
  have "semrep k' m vs (sem_value k m, map (\<lambda>w. wproc (waits k w)) vs)"
    using sem k1(2) Cons by (auto simp: semrep_def wq_def f k1s lf [OF np])
  then have "semrep k' m (tl ws) (fst (asem_up a))" "snd (asem_up a) = Some ?p"
    using D(2,3) Cons by (simp_all add: asem_up_def)
  with up f nq s Cons show ?thesis by (intro exI [of _ k']) simp
qed

text \<open>\<^verbatim>\<open>down\<close> takes a token or appends the caller and lets another process run.\<close>

lemma down_refines:
  assumes inv: "sched_inv ready (sch k) P" and sem: "semrep k m ws a"
    and run: "state (procs (sch k) (current (sch k))) = PROC_RUNNABLE"
    and w: "w \<notin> set (m # ws)" "w \<noteq> 0" and c: "current (sch k) \<noteq> idleproc (sch k)"
  shows "\<exists>r. down cls m w k = Some r \<and>
      (case r of Inr k' \<Rightarrow> snd (asem_down (current (sch k)) a) \<and> sch k' = sch k \<and>
           semrep k' m ws (fst (asem_down (current (sch k)) a))
       | Inl k' \<Rightarrow> \<not> snd (asem_down (current (sch k)) a) \<and>
           semrep k' m (ws @ [w]) (fst (asem_down (current (sch k)) a)) \<and>
           sched_inv ready (sch k') (P - {current (sch k')}) \<and>
           (if P = {} then current (sch k') = idleproc (sch k') else current (sch k') \<in> P))"
proof (cases "sem_value k m > 0")
  case True
  then show ?thesis using sem by (auto simp: down_def sem_down_def asem_down_def semrep_def wq_def)
next
  case False
  let ?c = "current (sch k)"
  note D = semrepD [OF sem]
  define k1 where "k1 = (wait_init w ?c k)\<lparr>sch := upd_proc ?c (\<lambda>q. q\<lparr>wait_state := WT_KSEM\<rparr>)
      (upd_proc ?c (\<lambda>q. q\<lparr>state := PROC_SLEEPING\<rparr>) (sch k))\<rparr>"
  have k1: "sem_value k1 = sem_value k" "wlinks k1 = list_init w (wlinks k)"
    "\<And>v. v \<noteq> w \<Longrightarrow> waits k1 v = waits k v" "wproc (waits k1 w) = ?c"
    by (simp_all add: k1_def wait_init_def Let_def)
  have c0: "?c \<noteq> 0" using inv by (simp add: sched_inv_def)
  have "clist (list_init w (wlinks k)) m ws"
    by (rule clist_frame [where l = "wlinks k"]) (use D(1) w in \<open>auto simp: wq_def list_init_def\<close>)
  moreover have ww: "waits k1 v = waits k v" if "v \<in> set ws" for v
    by (rule k1(3)) (use that w in auto)
  ultimately have "wq k1 m ws" using D(1) by (auto simp: wq_def k1(2) ww)
  from wq_add [OF this w(1) w(2)] c0 obtain k2
    where k2: "wait_queue_add m w k1 = Some k2" "wq k2 m (ws @ [w])" "sch k2 = sch k1"
      "sem_value k2 = sem_value k1" "\<And>v. wproc (waits k2 v) = wproc (waits k1 v)"
    by (auto simp: k1 list_empty_def list_init_def)
  have set: "wait_current_set m w WT_KSEM k = Some k2"
    using k2(1) c0 by (simp add: wait_current_set_def k1_def Let_def wait_init_def)
  have st: "procs (sch k1) q = (if q = ?c then (procs (sch k) q)\<lparr>state := PROC_SLEEPING, wait_state := WT_KSEM\<rparr>
      else procs (sch k) q)" "current (sch k1) = ?c" "idleproc (sch k1) = idleproc (sch k)" for q
    by (simp_all add: k1_def)
  have sq: "same_queue (sch k) (sch k1)"
    unfolding k1_def by (auto intro: same_queue_trans same_queue_fields)
  have inv1: "sched_inv ready (sch k1) P"
    using inv ready_frame [OF _ sq] by (auto simp: sched_inv_def st)
  have R: "P = (if current (sch k1) \<noteq> idleproc (sch k1) \<and>
      state (procs (sch k1) (current (sch k1))) = PROC_RUNNABLE
      then insert (current (sch k1)) P else P)" by (simp add: st)
  from schedule_spec [OF inv1 _ R] st obtain s
    where s: "schedule cls (sch k1) = Some s"
      "if P = {} then current s = idleproc s else current s \<in> P" "sched_inv ready s (P - {current s})"
      "\<And>p. state (procs s p) = state (procs (sch k1) p)"
      "\<And>p. wait_state (procs s p) = wait_state (procs (sch k1) p)" by auto
  let ?k = "k2\<lparr>sch := s\<rparr>"
  have dn: "down cls m w k = Some (Inl ?k)"
    using False set s(1) k2(3) by (simp add: down_def sem_down_def)
  have v0: "sem_value k m = 0" using sem False by (simp add: semrep_def)
  have cn: "?c \<notin> (\<lambda>w. wproc (waits k w)) ` set ws" using D(5) run by fastforce
  have mp: "map (\<lambda>w. wproc (waits k2 w)) ws = map (\<lambda>w. wproc (waits k w)) ws"
    by (simp add: k2(5) ww)
  have "semrep ?k m (ws @ [w]) (fst (asem_down ?c a))"
    using sem k2(2,4) k1(1,4) v0 cn c0
    by (auto simp: semrep_def asem_down_def wq_def k2(5) ww s(4,5) st)
  moreover have "\<not> snd (asem_down ?c a)" using D(3) False by (simp add: asem_down_def)
  ultimately show ?thesis using dn s by (intro exI [of _ "Inl ?k"]) simp
qed

end

lemma down_resume_woken:
  assumes "\<not> wait_in_queue w k" and "wakeup_flags (waits k w) = WT_KSEM"
  shows "down_resume m w k = Some k"
  using assms by (simp add: down_resume_def sem_down_resume_def wait_current_del_def)

section \<open>Properties\<close>

text \<open>
  C5: \<^verbatim>\<open>up\<close> implements the abstract semaphore with a first-in first-out queue: it counts the
  token when nobody waits, and otherwise hands it to the process that has waited longest,
  which becomes runnable and will return from \<^verbatim>\<open>down\<close>, while the other waiters stay asleep.
\<close>

theorem up_hands_to_first:
  assumes "sched_inv lready (sch k) P" and "semrep k m ws a"
    and "state (procs (sch k) (current (sch k))) = PROC_RUNNABLE"
    and "state (procs (sch k) (idleproc (sch k))) = PROC_RUNNABLE"
    and "\<forall>w\<in>set ws. wproc (waits k w) \<noteq> rq_head (sch k)"
  shows "\<exists>k'. up default_sched_class m k = Some k' \<and> semrep k' m (tl ws) (fst (asem_up a)) \<and>
    (case snd (asem_up a) of None \<Rightarrow> sch k' = sch k
     | Some p \<Rightarrow> state (procs (sch k') p) = PROC_RUNNABLE \<and> sched_inv lready (sch k') (insert p P) \<and>
         down_resume m (hd ws) k' = Some k' \<and>
         (\<forall>q. q \<noteq> p \<longrightarrow> life (procs (sch k') q) = life (procs (sch k) q)))"
proof -
  have "ladm (sch k) P (wproc (waits k w))" if "w \<in> set ws" for w
    using assms(2,5) that by (simp add: ladm_def semrep_def)
  from rr.up_refines [OF assms(1-4) this] show ?thesis
    by (auto simp: down_resume_woken split: option.split option.split_asm)
qed

definition demo_sync :: sync_state where
  "demo_sync =
     \<lparr>sch = demo_sched2\<lparr>procs := (procs demo_sched2)(20 := alloc_proc_fields\<lparr>state := PROC_SLEEPING,
        wait_state := WT_KSEM\<rparr>)\<rparr>,
      waits = (\<lambda>_. \<lparr>wproc = 20, wakeup_flags = WT_INTERRUPTED, wait_queue = 100\<rparr>),
      wlinks = \<lparr>nxt = id(100 := 101, 101 := 100), prv = id(100 := 101, 101 := 100)\<rparr>,
      sem_value = \<lambda>_. 0\<rparr>"

lemma demo_sync_inv: "sched_inv lready (sch demo_sync) {11, 12}"
proof -
  have "lq (sch demo_sync) [11, 12]"
    by (auto simp: demo_sync_def demo_sched2_def demo_sched_def demo_proc_def alloc_proc_fields_def lq_def
        ring_inv_def clist_def list_empty_def)
  then have "lready (sch demo_sync) {11, 12}" unfolding lready_def by (intro exI [of _ "[11, 12]"]) simp
  then show ?thesis
    by (auto simp: sched_inv_def demo_sync_def demo_sched2_def demo_sched_def demo_proc_def
        alloc_proc_fields_def)
qed

lemma demo_semrep: "semrep demo_sync 100 [101] (0, [20])"
  by (auto simp: demo_sync_def semrep_def wq_def clist_def alloc_proc_fields_def)

theorem up_hands_to_first_witness:
  "\<exists>k'. up default_sched_class 100 demo_sync = Some k' \<and> state (procs (sch k') 20) = PROC_RUNNABLE \<and>
     down_resume 100 101 k' = Some k'"
  using up_hands_to_first [OF demo_sync_inv demo_semrep]
  by (auto simp: asem_up_def demo_sync_def demo_sched2_def demo_sched_def demo_proc_def alloc_proc_fields_def)

text \<open>
  C6: \<^verbatim>\<open>down\<close> implements the abstract semaphore: it takes a token when there is one and
  returns at once; otherwise the caller goes to sleep at the end of the queue and \<^verbatim>\<open>schedule\<close>
  gives the processor to a runnable process.
\<close>

theorem down_takes_or_waits:
  assumes "sched_inv lready (sch k) P" and "semrep k m ws a"
    and "state (procs (sch k) (current (sch k))) = PROC_RUNNABLE"
    and "w \<notin> set (m # ws)" and "w \<noteq> 0" and "current (sch k) \<noteq> idleproc (sch k)"
  shows "\<exists>r. down default_sched_class m w k = Some r \<and>
    (case r of Inr k' \<Rightarrow> snd (asem_down (current (sch k)) a) \<and> sch k' = sch k \<and>
         semrep k' m ws (fst (asem_down (current (sch k)) a))
     | Inl k' \<Rightarrow> \<not> snd (asem_down (current (sch k)) a) \<and>
         semrep k' m (ws @ [w]) (fst (asem_down (current (sch k)) a)) \<and>
         sched_inv lready (sch k') (P - {current (sch k')}) \<and>
         (if P = {} then current (sch k') = idleproc (sch k') else current (sch k') \<in> P))"
  using assms by (rule rr.down_refines)

theorem down_takes_or_waits_witness:
  "\<exists>k'. down default_sched_class 100 102 demo_sync = Some (Inl k') \<and>
     semrep k' 100 [101, 102] (0, [20, 10]) \<and> current (sch k') \<in> {11, 12}"
proof -
  have "\<exists>r. down default_sched_class 100 102 demo_sync = Some r \<and>
    (case r of Inr k' \<Rightarrow> snd (asem_down (current (sch demo_sync)) (0, [20])) \<and> sch k' = sch demo_sync \<and>
         semrep k' 100 [101] (fst (asem_down (current (sch demo_sync)) (0, [20])))
     | Inl k' \<Rightarrow> \<not> snd (asem_down (current (sch demo_sync)) (0, [20])) \<and>
         semrep k' 100 ([101] @ [102]) (fst (asem_down (current (sch demo_sync)) (0, [20]))) \<and>
         sched_inv lready (sch k') ({11, 12} - {current (sch k')}) \<and>
         (if {11, 12 :: nat} = {} then current (sch k') = idleproc (sch k') else current (sch k') \<in> {11, 12}))"
    by (rule down_takes_or_waits [OF demo_sync_inv demo_semrep, of 102])
       (simp_all add: demo_sync_def demo_sched2_def demo_sched_def demo_proc_def alloc_proc_fields_def)
  moreover have "current (sch demo_sync) = 10" by (simp add: demo_sync_def demo_sched2_def demo_sched_def)
  ultimately obtain r where "down default_sched_class 100 102 demo_sync = Some r"
    "case r of Inr k' \<Rightarrow> False
     | Inl k' \<Rightarrow> semrep k' 100 [101, 102] (0, [20, 10]) \<and> current (sch k') \<in> {11, 12}"
    by (fastforce simp: asem_down_def split: sum.split_asm)
  then show ?thesis by (cases r) auto
qed

end
