(* ===== verification/Bitmap.thy ===== *)
theory Bitmap
  imports Prelude
begin

text \<open>
  The bitmap of free blocks, \<^verbatim>\<open>kern/fs/sfs/bitmap.c\<close>: an array of 32-bit words in which a set
  bit is a free block. The abstraction is the set of free indices; \<^verbatim>\<open>bitmap_alloc\<close> takes its
  least element, \<^verbatim>\<open>bitmap_free\<close> puts one back.
\<close>

section \<open>The code\<close>

record bitmap =
  nbits :: u32
  nwords :: u32
  wordmap :: "u32 list"

abbreviation WORD_BITS :: nat where "WORD_BITS \<equiv> 32"

definition bit_mask :: "nat \<Rightarrow> u32" where
  "bit_mask offset = push_bit offset 1"

function clear_overbits :: "nat \<Rightarrow> u32 \<Rightarrow> u32" where
  "clear_overbits overbits w =
     (if overbits < WORD_BITS then clear_overbits (Suc overbits) (w XOR bit_mask overbits) else w)"
  by auto
termination by (relation "measure (\<lambda>(overbits, w). WORD_BITS - overbits)") auto

declare clear_overbits.simps [simp del]

text \<open>
  The arguments \<open>k1\<close> and \<open>k2\<close> tell whether the two \<^verbatim>\<open>kmalloc\<close> succeed; the inner \<^term>\<open>None\<close> is
  \<^verbatim>\<open>NULL\<close>. On the 64-bit target \<^verbatim>\<open>nbits + WORD_BITS > nbits\<close> is a comparison of 64-bit words.
\<close>

definition bitmap_create :: "bool \<Rightarrow> bool \<Rightarrow> u32 \<Rightarrow> bitmap option option" where
  "bitmap_create k1 k2 nb = do {
     ensure (nb \<noteq> 0 \<and> unat nb + WORD_BITS > unat nb);
     if \<not> k1 then Some None
     else if \<not> k2 then Some None
     else do {
       let nw = ROUNDUP_DIV (unat nb) WORD_BITS;
       let m = replicate nw (- 1);
       if unat nb \<noteq> nw * WORD_BITS then do {
         let ix = nw - 1;
         let overbits = unat nb - ix * WORD_BITS;
         ensure (unat nb div WORD_BITS = ix);
         ensure (overbits > 0 \<and> overbits < WORD_BITS);
         let m = m[ix := clear_overbits overbits (m ! ix)];
         Some (Some \<lparr>nbits = nb, nwords = of_nat nw, wordmap = m\<rparr>)
       } else Some (Some \<lparr>nbits = nb, nwords = of_nat nw, wordmap = m\<rparr>)
     }
   }"

function find_offset :: "u32 \<Rightarrow> nat \<Rightarrow> nat option" where
  "find_offset w offset =
     (if offset < WORD_BITS
      then (if w AND bit_mask offset \<noteq> 0 then Some offset else find_offset w (Suc offset))
      else None)"
  by auto
termination by (relation "measure (\<lambda>(w, offset). WORD_BITS - offset)") auto

declare find_offset.simps [simp del]

text \<open>The two loops of \<^verbatim>\<open>bitmap_alloc\<close>; \<^verbatim>\<open>assert(0)\<close> is the inner \<^term>\<open>None\<close>.\<close>

function bitmap_scan :: "nat \<Rightarrow> bitmap \<Rightarrow> (int \<times> nat \<times> bitmap) option" where
  "bitmap_scan ix b =
     (if ix < unat (nwords b)
      then (if wordmap b ! ix \<noteq> 0
            then (case find_offset (wordmap b ! ix) 0 of
                    Some offset \<Rightarrow>
                      Some (0, ix * WORD_BITS + offset,
                        b\<lparr>wordmap := (wordmap b)[ix := (wordmap b ! ix) XOR bit_mask offset]\<rparr>)
                  | None \<Rightarrow> None)
            else bitmap_scan (Suc ix) b)
      else Some (- E_NO_MEM, 0, b))"
  by auto
termination by (relation "measure (\<lambda>(ix, b). unat (nwords b) - ix)") auto

declare bitmap_scan.simps [simp del]

definition bitmap_alloc :: "bitmap \<Rightarrow> (int \<times> nat \<times> bitmap) option" where
  "bitmap_alloc b = bitmap_scan 0 b"

definition bitmap_translate :: "bitmap \<Rightarrow> nat \<Rightarrow> (nat \<times> u32) option" where
  "bitmap_translate b index = do {
     ensure (index < unat (nbits b));
     Some (index div WORD_BITS, bit_mask (index mod WORD_BITS))
   }"

definition bitmap_test :: "bitmap \<Rightarrow> nat \<Rightarrow> bool option" where
  "bitmap_test b index = do {
     (ix, mask) \<leftarrow> bitmap_translate b index;
     Some (wordmap b ! ix AND mask \<noteq> 0)
   }"

definition bitmap_free :: "nat \<Rightarrow> bitmap \<Rightarrow> bitmap option" where
  "bitmap_free index b = do {
     (ix, mask) \<leftarrow> bitmap_translate b index;
     ensure (wordmap b ! ix AND mask = 0);
     Some (b\<lparr>wordmap := (wordmap b)[ix := wordmap b ! ix OR mask]\<rparr>)
   }"

definition bitmap_getdata :: "bitmap \<Rightarrow> u32 list \<times> nat" where
  "bitmap_getdata b = (wordmap b, 4 * unat (nwords b))"

section \<open>The set of free indices\<close>

definition wf_bitmap :: "bitmap \<Rightarrow> bool" where
  "wf_bitmap b \<longleftrightarrow> length (wordmap b) = unat (nwords b) \<and> unat (nbits b) \<le> WORD_BITS * unat (nwords b) \<and>
     (\<forall>i. unat (nbits b) \<le> i \<longrightarrow> i < WORD_BITS * unat (nwords b) \<longrightarrow>
        \<not> bit (wordmap b ! (i div WORD_BITS)) (i mod WORD_BITS))"

definition free_set :: "bitmap \<Rightarrow> nat set" where
  "free_set b = {i. i < WORD_BITS * unat (nwords b) \<and> bit (wordmap b ! (i div WORD_BITS)) (i mod WORD_BITS)}"

lemma bit_mask_bit: "n < 32 \<Longrightarrow> bit (bit_mask m) n \<longleftrightarrow> n = m"
  by (auto simp: bit_mask_def bit_exp_iff possible_bit_def)

lemma and_mask_zero: "m < 32 \<Longrightarrow> w AND bit_mask m = 0 \<longleftrightarrow> \<not> bit w m"
  by (auto simp: bit_eq_iff [of "w AND bit_mask m"] bit_and_iff bit_mask_bit)

lemma xor_mask_bit: "n < 32 \<Longrightarrow> bit (w XOR bit_mask m) n \<longleftrightarrow> (bit w n \<noteq> (n = m))"
  by (auto simp: bit_xor_iff bit_mask_bit)

lemma or_mask_bit: "n < 32 \<Longrightarrow> bit (w OR bit_mask m) n \<longleftrightarrow> bit w n \<or> n = m"
  by (auto simp: bit_or_iff bit_mask_bit)

lemma find_offset_spec:
  "off \<le> 32 \<Longrightarrow> (case find_offset w off of
      None \<Rightarrow> \<forall>n. off \<le> n \<longrightarrow> n < 32 \<longrightarrow> \<not> bit w n
    | Some m \<Rightarrow> off \<le> m \<and> m < 32 \<and> bit w m \<and> (\<forall>n. off \<le> n \<longrightarrow> n < m \<longrightarrow> \<not> bit w n))"
proof (induction w off rule: find_offset.induct)
  case (1 w off)
  show ?case
  proof (cases "off < 32 \<and> \<not> bit w off")
    case True
    then have "find_offset w off = find_offset w (Suc off)"
      by (subst find_offset.simps) (simp add: and_mask_zero)
    moreover have "case find_offset w (Suc off) of
      None \<Rightarrow> \<forall>n. Suc off \<le> n \<longrightarrow> n < 32 \<longrightarrow> \<not> bit w n
    | Some m \<Rightarrow> Suc off \<le> m \<and> m < 32 \<and> bit w m \<and> (\<forall>n. Suc off \<le> n \<longrightarrow> n < m \<longrightarrow> \<not> bit w n)"
      using True by (intro "1.IH") (simp_all add: and_mask_zero)
    moreover have "off \<le> n \<longleftrightarrow> n = off \<or> Suc off \<le> n" for n by auto
    ultimately show ?thesis using True by (auto split: option.splits)
  next
    case False
    then show ?thesis by (subst find_offset.simps) (auto simp: and_mask_zero)
  qed
qed

lemma nonzero_word_bit: "(w :: u32) \<noteq> 0 \<Longrightarrow> \<exists>n<32. bit w n"
  by (auto simp: bit_eq_iff dest: bit_imp_le_length)

lemma index_split: "i div 32 = ix \<longleftrightarrow> ix * 32 \<le> i \<and> i < Suc ix * (32::nat)"
  by (auto simp: div_nat_eqI dividend_less_div_times)

text \<open>\<^verbatim>\<open>bitmap_alloc\<close> from word \<open>ix\<close> on.\<close>

lemma bitmap_scan_spec:
  assumes "length (wordmap b) = unat (nwords b)"
    and "\<And>i. i \<in> free_set b \<Longrightarrow> ix * 32 \<le> i"
  shows "if free_set b = {} then bitmap_scan ix b = Some (- E_NO_MEM, 0, b)
    else \<exists>b'. bitmap_scan ix b = Some (0, LEAST i. i \<in> free_set b, b') \<and>
      nbits b' = nbits b \<and> nwords b' = nwords b \<and> length (wordmap b') = length (wordmap b) \<and>
      free_set b' = free_set b - {LEAST i. i \<in> free_set b}"
  using assms
proof (induction ix b rule: bitmap_scan.induct)
  case (1 ix b)
  show ?case
  proof (cases "ix < unat (nwords b)")
    case False
    then have "free_set b = {}" using "1.prems"(2) by (fastforce simp: free_set_def)
    with False show ?thesis by (subst bitmap_scan.simps) simp
  next
    case ix: True
    show ?thesis
    proof (cases "wordmap b ! ix = 0")
      case True
      have "Suc ix * 32 \<le> i" if "i \<in> free_set b" for i
      proof (rule ccontr)
        assume "\<not> Suc ix * 32 \<le> i"
        with "1.prems"(2) [OF that] have "i div 32 = ix" by (simp only: index_split) simp
        with that True show False by (simp add: free_set_def)
      qed
      from "1.IH" [OF ix _ "1.prems"(1) this] True
      have IH: "if free_set b = {} then bitmap_scan (Suc ix) b = Some (- E_NO_MEM, 0, b)
        else \<exists>b'. bitmap_scan (Suc ix) b = Some (0, LEAST i. i \<in> free_set b, b') \<and>
          nbits b' = nbits b \<and> nwords b' = nwords b \<and> length (wordmap b') = length (wordmap b) \<and>
          free_set b' = free_set b - {LEAST i. i \<in> free_set b}" by simp
      have "bitmap_scan ix b = bitmap_scan (Suc ix) b"
        using ix True by (subst bitmap_scan.simps) simp
      with IH show ?thesis by simp
    next
      case nz: False
      let ?w = "wordmap b ! ix"
      from nonzero_word_bit [OF nz] find_offset_spec [of 0 ?w] obtain m
        where m: "find_offset ?w 0 = Some m" "m < 32" "bit ?w m" "\<And>n. n < m \<Longrightarrow> \<not> bit ?w n"
        by (cases "find_offset ?w 0") auto
      let ?i = "ix * 32 + m"
      define b' where "b' = b\<lparr>wordmap := (wordmap b)[ix := ?w XOR bit_mask m]\<rparr>"
      have i: "?i div 32 = ix" "?i mod 32 = m" using m(2) by auto
      have "ix * 32 + m < unat (nwords b) * 32" using ix m(2) by linarith
      then have iF: "?i \<in> free_set b" using i m(3) by (simp add: free_set_def mult.commute)
      have least: "(LEAST i. i \<in> free_set b) = ?i"
      proof (rule Least_equality, fact iF)
        fix j
        assume j: "j \<in> free_set b"
        show "?i \<le> j"
        proof (rule ccontr)
          assume lt: "\<not> ?i \<le> j"
          with "1.prems"(2) [OF j] m(2) have jd: "j div 32 = ix" by (simp only: index_split) simp
          then have "j mod 32 < m" using lt by (metis add_less_cancel_left div_mult_mod_eq not_le)
          with m(4) j jd show False by (auto simp: free_set_def)
        qed
      qed
      have "bit (wordmap b' ! (j div 32)) (j mod 32) \<longleftrightarrow>
          bit (wordmap b ! (j div 32)) (j mod 32) \<and> j \<noteq> ?i" if "j < 32 * unat (nwords b)" for j
      proof (cases "j div 32 = ix")
        case True
        then have "j = ?i \<longleftrightarrow> j mod 32 = m" using i by (metis div_mult_mod_eq)
        with True m(3) ix "1.prems"(1) show ?thesis by (auto simp: b'_def xor_mask_bit)
      next
        case False
        then have "j \<noteq> ?i" using i(1) by auto
        with False show ?thesis by (simp add: b'_def)
      qed
      then have "free_set b' = free_set b - {?i}" by (auto simp: free_set_def b'_def)
      moreover have "bitmap_scan ix b = Some (0, ?i, b')"
        using ix nz m(1) by (subst bitmap_scan.simps) (simp add: b'_def)
      ultimately show ?thesis using iF least by (auto simp: b'_def)
    qed
  qed
qed

lemma wf_free_set: "wf_bitmap b \<Longrightarrow> i \<in> free_set b \<Longrightarrow> i < unat (nbits b)"
  by (auto simp: wf_bitmap_def free_set_def not_le [symmetric])

lemma wf_bitmap_iff:
  "wf_bitmap b \<longleftrightarrow> length (wordmap b) = unat (nwords b) \<and> unat (nbits b) \<le> WORD_BITS * unat (nwords b) \<and>
     (\<forall>i\<in>free_set b. i < unat (nbits b))"
  by (auto simp: wf_bitmap_def free_set_def not_le [symmetric])

lemma bitmap_alloc_spec:
  assumes "wf_bitmap b"
  shows "if free_set b = {} then bitmap_alloc b = Some (- E_NO_MEM, 0, b)
    else \<exists>b' i. bitmap_alloc b = Some (0, i, b') \<and> i \<in> free_set b \<and> i < unat (nbits b) \<and>
      wf_bitmap b' \<and> nbits b' = nbits b \<and> free_set b' = free_set b - {i}"
proof (cases "free_set b = {}")
  case True
  then show ?thesis
    using assms bitmap_scan_spec [of b 0] by (simp add: bitmap_alloc_def wf_bitmap_iff)
next
  case False
  let ?i = "LEAST i. i \<in> free_set b"
  have "?i \<in> free_set b" using False by (auto intro: LeastI)
  with False show ?thesis
    using assms bitmap_scan_spec [of b 0] by (auto simp: bitmap_alloc_def wf_bitmap_iff)
qed

lemma bitmap_test_spec:
  assumes "wf_bitmap b" and "i < unat (nbits b)"
  shows "bitmap_test b i = Some (i \<in> free_set b)"
  using assms
  by (auto simp: bitmap_test_def bitmap_translate_def and_mask_zero free_set_def wf_bitmap_def)

lemma bitmap_test_panic: "\<not> i < unat (nbits b) \<Longrightarrow> bitmap_test b i = None"
  by (simp add: bitmap_test_def bitmap_translate_def)

lemma bitmap_free_spec:
  assumes wf: "wf_bitmap b" and i: "i < unat (nbits b)" and used: "i \<notin> free_set b"
  shows "\<exists>b'. bitmap_free i b = Some b' \<and> wf_bitmap b' \<and> nbits b' = nbits b \<and>
    free_set b' = insert i (free_set b)"
proof -
  let ?ix = "i div 32" and ?m = "i mod 32"
  have lt: "i < 32 * unat (nwords b)" using wf i by (auto simp: wf_bitmap_def)
  then have ix: "?ix < length (wordmap b)" using wf by (auto simp: wf_bitmap_def)
  have nb: "\<not> bit (wordmap b ! ?ix) ?m" using used lt by (simp add: free_set_def)
  define b' where "b' = b\<lparr>wordmap := (wordmap b)[?ix := wordmap b ! ?ix OR bit_mask ?m]\<rparr>"
  have "bitmap_free i b = Some b'"
    using i nb by (simp add: bitmap_free_def bitmap_translate_def and_mask_zero b'_def)
  moreover have "bit (wordmap b' ! (j div 32)) (j mod 32) \<longleftrightarrow>
      bit (wordmap b ! (j div 32)) (j mod 32) \<or> j = i" if "j < 32 * unat (nwords b)" for j
  proof (cases "j div 32 = ?ix")
    case True
    then have "j = i \<longleftrightarrow> j mod 32 = ?m" by (metis div_mult_mod_eq)
    with True ix show ?thesis by (auto simp: b'_def or_mask_bit)
  next
    case False
    then show ?thesis by (auto simp: b'_def)
  qed
  then have F: "free_set b' = insert i (free_set b)" using lt by (auto simp: free_set_def b'_def)
  moreover have "wf_bitmap b'" using wf i F by (auto simp: wf_bitmap_iff b'_def)
  ultimately show ?thesis by (auto simp: b'_def)
qed

lemma clear_overbits_bit:
  "n < 32 \<Longrightarrow> bit (clear_overbits k w) n \<longleftrightarrow> (if k \<le> n then \<not> bit w n else bit w n)"
proof (induction k w rule: clear_overbits.induct)
  case (1 k w)
  then show ?case
    by (subst clear_overbits.simps) (auto simp: xor_mask_bit not_less_eq_eq)
qed

text \<open>A new bitmap has exactly the indices below \<^verbatim>\<open>nbits\<close> free.\<close>

lemma bitmap_create_spec:
  assumes "nb \<noteq> 0"
  shows "\<exists>b. bitmap_create True True nb = Some (Some b) \<and> wf_bitmap b \<and> nbits b = nb \<and>
    free_set b = {..<unat nb}"
proof -
  let ?n = "unat nb" and ?nw = "ROUNDUP_DIV (unat nb) 32"
  have n0: "0 < ?n" using assms by (simp add: unat_gt_0)
  have nw: "?nw = (?n + 31) div 32" by (simp add: ROUNDUP_DIV_def)
  have nlt: "?n < 2 ^ 32" using unsigned_less [of nb] by simp
  have nws: "?nw < 2 ^ 32" "?n \<le> ?nw * 32" "(?nw - 1) * 32 < ?n" "0 < ?nw"
    using n0 nlt unfolding nw by linarith+
  have un: "unat (of_nat ?nw :: u32) = ?nw" using nws(1) by (simp add: unat_of_nat)
  have ones: "j < 32 \<Longrightarrow> bit (- 1 :: u32) j" for j by simp
  show ?thesis
  proof (cases "?n = ?nw * 32")
    case True
    let ?b = "\<lparr>nbits = nb, nwords = of_nat ?nw, wordmap = replicate ?nw (- 1)\<rparr>"
    have "bitmap_create True True nb = Some (Some ?b)"
      using assms True by (simp add: bitmap_create_def Let_def)
    moreover have "free_set ?b = {..<?n}"
      using True by (auto simp: free_set_def un)
    ultimately show ?thesis using True by (auto simp: wf_bitmap_iff un)
  next
    case False
    let ?o = "?n - (?nw - 1) * 32"
    let ?m = "(replicate ?nw (- 1))[?nw - 1 := clear_overbits ?o (replicate ?nw (- 1) ! (?nw - 1))]"
    let ?b = "\<lparr>nbits = nb, nwords = of_nat ?nw, wordmap = ?m\<rparr>"
    have o: "0 < ?o" "?o < 32" using nws False by linarith+
    have "Suc (?nw - 1) = ?nw" using nws(4) by simp
    then have d: "?n div 32 = ?nw - 1" using nws(2,3) False by (simp add: index_split)
    have c: "bitmap_create True True nb = Some (Some ?b)"
      using assms False o d by (simp add: bitmap_create_def Let_def)
    have "free_set ?b = {..<?n}"
    proof (rule set_eqI)
      fix j
      have "j \<in> free_set ?b \<longleftrightarrow> j < 32 * ?nw \<and> (j div 32 = ?nw - 1 \<longrightarrow> j mod 32 < ?o)"
        using nws(4) by (auto simp: free_set_def un nth_list_update clear_overbits_bit)
      also have "\<dots> \<longleftrightarrow> j < ?n"
      proof (cases "j div 32 = ?nw - 1")
        case True
        then have "j = (?nw - 1) * 32 + j mod 32" by (metis div_mult_mod_eq)
        then show ?thesis using True nws o by linarith
      next
        case False
        have "j < 32 * ?nw \<longleftrightarrow> j < (?nw - 1) * 32"
          using False nws(4) by (auto simp: index_split algebra_simps)
        then show ?thesis using nws False by (auto simp: index_split)
      qed
      finally show "j \<in> free_set ?b \<longleftrightarrow> j \<in> {..<?n}" by simp
    qed
    with c nws show ?thesis by (auto simp: wf_bitmap_iff un)
  qed
qed

section \<open>Properties\<close>

text \<open>
  \<^verbatim>\<open>bitmap_alloc\<close> on a well-formed bitmap never panics: it returns a free index below
  \<^verbatim>\<open>nbits\<close>, after which exactly this index is no longer free, or it returns
  \<^verbatim>\<open>-E_NO_MEM\<close> and changes nothing, and that only when no index is free. \<^verbatim>\<open>bitmap_free\<close> of
  the index then restores the set of free indices.
\<close>

theorem bitmap_alloc_correct:
  assumes "wf_bitmap b"
  shows "if free_set b = {} then bitmap_alloc b = Some (- E_NO_MEM, 0, b)
    else \<exists>i b' b''. bitmap_alloc b = Some (0, i, b') \<and> i \<in> free_set b \<and> i < unat (nbits b) \<and>
      wf_bitmap b' \<and> free_set b' = free_set b - {i} \<and>
      bitmap_free i b' = Some b'' \<and> wf_bitmap b'' \<and> free_set b'' = free_set b"
proof (cases "free_set b = {}")
  case True
  with bitmap_alloc_spec [OF assms] show ?thesis by simp
next
  case False
  with bitmap_alloc_spec [OF assms] obtain i b' where a: "bitmap_alloc b = Some (0, i, b')"
    "i \<in> free_set b" "i < unat (nbits b)" "wf_bitmap b'" "nbits b' = nbits b" "free_set b' = free_set b - {i}"
    by auto
  from bitmap_free_spec [OF a(4), of i] a obtain b''
    where "bitmap_free i b' = Some b''" "wf_bitmap b''" "free_set b'' = insert i (free_set b')" by auto
  with a False show ?thesis by (auto simp: insert_absorb)
qed

theorem bitmap_alloc_correct_witness:
  "\<exists>b i b'. bitmap_create True True 40 = Some (Some b) \<and> bitmap_alloc b = Some (0, i, b') \<and> i < 40"
proof -
  obtain b where b: "bitmap_create True True 40 = Some (Some b)" "wf_bitmap b" "free_set b = {..<40}"
    using bitmap_create_spec [of 40] by auto
  then have "0 \<in> free_set b" by simp
  with bitmap_alloc_correct [OF b(2)] obtain i b' where "bitmap_alloc b = Some (0, i, b')" "i \<in> free_set b"
    by (auto split: if_splits)
  with b(1,3) show ?thesis by auto
qed

text \<open>
  A bitmap that \<^verbatim>\<open>bitmap_create\<close> makes for \<^verbatim>\<open>nbits\<close> bits has exactly the indices below
  \<^verbatim>\<open>nbits\<close> free, although the last word may have bits beyond, and \<^verbatim>\<open>bitmap_test\<close> answers
  for each index whether it is free.
\<close>

theorem bitmap_create_all_free:
  assumes "nb \<noteq> 0"
  shows "\<exists>b. bitmap_create True True nb = Some (Some b) \<and> wf_bitmap b \<and>
    free_set b = {..<unat nb} \<and> (\<forall>i. bitmap_test b i = (if i < unat nb then Some True else None))"
  using bitmap_create_spec [OF assms] by (auto simp: bitmap_test_spec bitmap_test_panic)

theorem bitmap_create_all_free_witness:
  "\<exists>b. bitmap_create True True 40 = Some (Some b) \<and> free_set b = {..<40}"
  using bitmap_create_all_free [of 40] by auto

end
