(* ===== verification/FsState.thy ===== *)
theory FsState
  imports CString Bitmap
begin

text \<open>
  The state of the file system stack: kernel memory (which holds the RAM disks and the I/O
  buffers), the devices, the in-core inodes and file systems by address, the list of named
  devices and the file table of the current process. Address 0 is \<^verbatim>\<open>NULL\<close>. What \<^verbatim>\<open>kmalloc\<close>
  returns is the list \<open>heap\<close> of the state: its next result is the head (0 when it is empty or
  the head is 0). An operation is a function of the state into an option, where \<^term>\<open>None\<close> is
  a panic, a failed assertion, or a \<^verbatim>\<open>down\<close> on a semaphore nobody else will release (the
  model runs one thread of control at a time).
\<close>

section \<open>Constants\<close>

definition SECTSIZE :: nat where [layout]: "SECTSIZE = 512"
definition SWAP_DEV_NO :: nat where [layout]: "SWAP_DEV_NO = 1"
definition DISK0_DEV_NO :: nat where [layout]: "DISK0_DEV_NO = 2"
definition MAX_IDE :: nat where [layout]: "MAX_IDE = 4"
definition MAX_NSECS :: nat where [layout]: "MAX_NSECS = 128"
definition MAX_DISK_NSECS :: nat where [layout]: "MAX_DISK_NSECS = 0x10000000"

definition SFS_MAGIC :: u32 where [layout]: "SFS_MAGIC = 0x2f8dbe2a"
abbreviation SFS_BLKSIZE :: nat where "SFS_BLKSIZE \<equiv> 4096"
definition SFS_NDIRECT :: nat where [layout]: "SFS_NDIRECT = 12"
definition SFS_MAX_INFO_LEN :: nat where [layout]: "SFS_MAX_INFO_LEN = 31"
definition SFS_MAX_FNAME_LEN :: nat where [layout]: "SFS_MAX_FNAME_LEN = 255"
definition SFS_MAX_FILE_SIZE :: int where [layout]: "SFS_MAX_FILE_SIZE = 134217728"
definition SFS_BLKN_SUPER :: u32 where [layout]: "SFS_BLKN_SUPER = 0"
definition SFS_BLKN_ROOT :: u32 where [layout]: "SFS_BLKN_ROOT = 1"
definition SFS_BLKN_FREEMAP :: u32 where [layout]: "SFS_BLKN_FREEMAP = 2"
definition SFS_BLKBITS :: nat where [layout]: "SFS_BLKBITS = 32768"
definition SFS_BLK_NENTRY :: nat where [layout]: "SFS_BLK_NENTRY = 1024"
definition SFS_TYPE_FILE :: u16 where [layout]: "SFS_TYPE_FILE = 1"
definition SFS_TYPE_DIR :: u16 where [layout]: "SFS_TYPE_DIR = 2"
definition SFS_TYPE_LINK :: u16 where [layout]: "SFS_TYPE_LINK = 3"
definition SFS_HLIST_SHIFT :: nat where [layout]: "SFS_HLIST_SHIFT = 10"

definition O_RDONLY :: u32 where [layout]: "O_RDONLY = 0"
definition O_WRONLY :: u32 where [layout]: "O_WRONLY = 1"
definition O_RDWR :: u32 where [layout]: "O_RDWR = 2"
definition O_CREAT :: u32 where [layout]: "O_CREAT = 4"
definition O_EXCL :: u32 where [layout]: "O_EXCL = 8"
definition O_TRUNC :: u32 where [layout]: "O_TRUNC = 16"
definition O_APPEND :: u32 where [layout]: "O_APPEND = 32"
definition O_ACCMODE :: u32 where [layout]: "O_ACCMODE = 3"
definition NO_FD :: int where [layout]: "NO_FD = - 0x9527"
definition FS_MAX_DNAME_LEN :: nat where [layout]: "FS_MAX_DNAME_LEN = 31"

definition S_IFMT :: u32 where [layout]: "S_IFMT = 0x7000"
definition S_IFREG :: u32 where [layout]: "S_IFREG = 0x1000"
definition S_IFDIR :: u32 where [layout]: "S_IFDIR = 0x2000"
definition S_IFLNK :: u32 where [layout]: "S_IFLNK = 0x3000"
definition S_IFCHR :: u32 where [layout]: "S_IFCHR = 0x4000"
definition S_IFBLK :: u32 where [layout]: "S_IFBLK = 0x5000"

section \<open>Data\<close>

record ide_device =
  valid :: bool
  sets :: u32
  isize :: u32
  iobase :: addr

text \<open>The function tables \<^verbatim>\<open>d_open\<close>, \<^verbatim>\<open>d_close\<close>, \<^verbatim>\<open>d_io\<close> and \<^verbatim>\<open>d_ioctl\<close> of the three devices.\<close>

datatype dev_ops = StdinOps | StdoutOps | Disk0Ops

record device =
  d_blocks :: nat
  d_blocksize :: nat
  d_ops :: dev_ops

record sfs_super =
  magic :: u32
  sblocks :: u32
  unused_blocks :: u32
  sinfo :: "u8 list"

record disk_inode =
  isz :: u32
  itype :: u16
  nlinks :: u16
  blocks :: u32
  direct :: "u32 list"
  indirect :: u32

record sfs_inode =
  din :: disk_inode
  ino :: u32
  dirty :: bool
  reclaim_count :: int
  sin_sem :: int

text \<open>
  The inode lists hold the addresses of their inodes, most recent first: \<^verbatim>\<open>list_add\<close> puts an
  entry after the head and \<^verbatim>\<open>list_del\<close> takes it out, as proved for the pointer lists.
\<close>

record sfs_fs =
  super :: sfs_super
  sdev :: addr
  freemap :: bitmap
  super_dirty :: bool
  sfs_buffer :: addr
  fs_sem :: int
  io_sem :: int
  mutex_sem :: int
  inode_list :: "addr list"
  hash_list :: "nat \<Rightarrow> addr list"

datatype in_info = DeviceInfo device | SfsInfo sfs_inode
datatype in_ops = DevNodeOps | SfsDirOps | SfsFileOps

record inode =
  info :: in_info
  ref_count :: int
  open_count :: int
  in_fs :: addr
  iops :: in_ops

record vfs_dev =
  devname :: "u8 list"
  devnode :: addr
  vfs :: addr
  mountable :: bool

datatype fd_status = FD_NONE | FD_INIT | FD_OPENED | FD_CLOSED

record ofile =
  status :: fd_status
  readable :: bool
  writable :: bool
  fdno :: int
  pos :: int
  fnode :: addr
  fopen_count :: int

record files_struct =
  pwd :: addr
  fd_array :: "ofile list"
  files_count :: int
  files_sem :: int

record iobuf =
  io_base :: addr
  io_offset :: int
  io_len :: nat
  io_resid :: nat

record stat =
  st_mode :: u32
  st_nlinks :: nat
  st_blocks :: nat
  st_size :: nat

record kfs =
  kmem :: mem
  heap :: "addr list"
  locals :: addr
  sfs_img :: "addr \<times> addr"
  swap_img :: "addr \<times> addr"
  ide_devices :: "nat \<Rightarrow> ide_device"
  disk0_buffer :: addr
  disk0_sem :: int
  inodes :: "addr \<Rightarrow> inode option"
  fss :: "addr \<Rightarrow> sfs_fs option"
  bootfs_node :: addr
  bootfs_sem :: int
  vdev_list :: "vfs_dev list"
  vdev_list_sem :: int
  filesp :: files_struct
  console :: "u8 list"
  stdin_buffer :: "u8 list"
  p_rpos :: int
  p_wpos :: int

section \<open>Access to the state\<close>

definition upd_inode :: "addr \<Rightarrow> (inode \<Rightarrow> inode) \<Rightarrow> kfs \<Rightarrow> kfs" where
  "upd_inode n f s = s\<lparr>inodes := (inodes s)(n := map_option f (inodes s n))\<rparr>"

definition upd_fs :: "addr \<Rightarrow> (sfs_fs \<Rightarrow> sfs_fs) \<Rightarrow> kfs \<Rightarrow> kfs" where
  "upd_fs n f s = s\<lparr>fss := (fss s)(n := map_option f (fss s n))\<rparr>"

text \<open>\<^verbatim>\<open>vop_info(node, sfs_inode)\<close> and \<^verbatim>\<open>vop_info(node, device)\<close> with their assertions.\<close>

definition vop_sin :: "addr \<Rightarrow> kfs \<Rightarrow> sfs_inode option" where
  "vop_sin node s =
     (case inodes s node of Some i \<Rightarrow> (case info i of SfsInfo sin \<Rightarrow> Some sin | _ \<Rightarrow> None) | None \<Rightarrow> None)"

definition vop_dev :: "addr \<Rightarrow> kfs \<Rightarrow> device option" where
  "vop_dev node s =
     (case inodes s node of Some i \<Rightarrow> (case info i of DeviceInfo d \<Rightarrow> Some d | _ \<Rightarrow> None) | None \<Rightarrow> None)"

definition upd_sin :: "addr \<Rightarrow> (sfs_inode \<Rightarrow> sfs_inode) \<Rightarrow> kfs \<Rightarrow> kfs" where
  "upd_sin node f s =
     upd_inode node (\<lambda>i. i\<lparr>info := (case info i of SfsInfo sin \<Rightarrow> SfsInfo (f sin) | d \<Rightarrow> d)\<rparr>) s"

definition upd_din :: "addr \<Rightarrow> (disk_inode \<Rightarrow> disk_inode) \<Rightarrow> kfs \<Rightarrow> kfs" where
  "upd_din node f s = upd_sin node (\<lambda>sin. sin\<lparr>din := f (din sin)\<rparr>) s"

definition kmalloc :: "kfs \<Rightarrow> addr \<times> kfs" where
  "kmalloc s = (case heap s of [] \<Rightarrow> (0, s) | a # as \<Rightarrow> (a, s\<lparr>heap := as\<rparr>))"

text \<open>\<^verbatim>\<open>down\<close> and \<^verbatim>\<open>up\<close> on a semaphore that no sleeping process holds.\<close>

definition sem_take :: "int \<Rightarrow> int option" where
  "sem_take n = (if n > 0 then Some (n - 1) else None)"

lemma sem_take_pos [simp]: "n > 0 \<Longrightarrow> sem_take n = Some (n - 1)"
  by (simp add: sem_take_def)

lemma sem_take_Some [simp]: "sem_take n = Some m \<longleftrightarrow> n > 0 \<and> m = n - 1"
  by (auto simp: sem_take_def)

section \<open>The layout of the structures on disk\<close>

definition le32 :: "u32 \<Rightarrow> u8 list" where
  "le32 w = [ucast w, ucast (drop_bit 8 w), ucast (drop_bit 16 w), ucast (drop_bit 24 w)]"

definition le16 :: "u16 \<Rightarrow> u8 list" where
  "le16 w = [ucast w, ucast (drop_bit 8 w)]"

definition of_le32 :: "u8 list \<Rightarrow> u32" where
  "of_le32 b = ucast (b ! 0) OR push_bit 8 (ucast (b ! 1)) OR push_bit 16 (ucast (b ! 2)) OR
     push_bit 24 (ucast (b ! 3))"

definition of_le16 :: "u8 list \<Rightarrow> u16" where
  "of_le16 b = ucast (b ! 0) OR push_bit 8 (ucast (b ! 1))"

text \<open>\<^verbatim>\<open>struct sfs_disk_inode\<close>: 64 bytes.\<close>

definition din_bytes :: "disk_inode \<Rightarrow> u8 list" where
  "din_bytes d = le32 (isz d) @ le16 (itype d) @ le16 (nlinks d) @ le32 (blocks d) @
     concat (map le32 (direct d)) @ le32 (indirect d)"

definition bytes_din :: "u8 list \<Rightarrow> disk_inode" where
  "bytes_din b =
     \<lparr>isz = of_le32 b, itype = of_le16 (drop 4 b), nlinks = of_le16 (drop 6 b),
      blocks = of_le32 (drop 8 b), direct = map (\<lambda>i. of_le32 (drop (12 + 4 * i) b)) [0..<SFS_NDIRECT],
      indirect = of_le32 (drop 60 b)\<rparr>"

text \<open>\<^verbatim>\<open>struct sfs_super\<close>: 44 bytes.\<close>

definition super_bytes :: "sfs_super \<Rightarrow> u8 list" where
  "super_bytes p = le32 (magic p) @ le32 (sblocks p) @ le32 (unused_blocks p) @ sinfo p"

definition bytes_super :: "u8 list \<Rightarrow> sfs_super" where
  "bytes_super b =
     \<lparr>magic = of_le32 b, sblocks = of_le32 (drop 4 b), unused_blocks = of_le32 (drop 8 b),
      sinfo = take 32 (drop 12 b)\<rparr>"

definition words_bytes :: "u32 list \<Rightarrow> u8 list" where
  "words_bytes ws = concat (map le32 ws)"

definition store_bytes :: "addr \<Rightarrow> u8 list \<Rightarrow> mem \<Rightarrow> mem" where
  "store_bytes p bs m = (\<lambda>a. if p \<le> a \<and> a < p + length bs then bs ! (a - p) else m a)"

lemma bytes_at_store: "bytes_at (store_bytes p bs m) p (length bs) = bs"
  by (rule nth_equalityI) (auto simp: store_bytes_def)

lemma length_le [simp]: "length (le32 w) = 4" "length (le16 h) = 2"
  by (simp_all add: le32_def le16_def)

lemma of_le32_le32: "of_le32 (le32 w @ bs) = w"
proof (rule bit_word_eqI)
  fix n
  assume "n < LENGTH(32)"
  then consider "n < 8" | "8 \<le> n" "n < 16" | "16 \<le> n" "n < 24" | "24 \<le> n" "n < 32" by fastforce
  then show "bit (of_le32 (le32 w @ bs)) n = bit w n"
    by cases
       (simp_all add: of_le32_def le32_def bit_or_iff bit_push_bit_iff bit_unsigned_iff bit_drop_bit_eq,
        fastforce+)
qed

lemma of_le16_le16: "of_le16 (le16 w @ bs) = w"
proof (rule bit_word_eqI)
  fix n
  assume "n < LENGTH(16)"
  then consider "n < 8" | "8 \<le> n" "n < 16" by fastforce
  then show "bit (of_le16 (le16 w @ bs)) n = bit w n"
    by cases
       (simp_all add: of_le16_def le16_def bit_or_iff bit_push_bit_iff bit_unsigned_iff bit_drop_bit_eq,
        fastforce+)
qed

lemma drop_le32 [simp]:
  "drop (4 + n) (le32 w @ bs) = drop n bs"
  by (simp add: le32_def eval_nat_numeral)

lemma length_concat_le32 [simp]: "length (concat (map le32 ws)) = 4 * length ws"
  by (induction ws) auto

lemma drop_concat_le32: "drop (4 * i) (concat (map le32 ws) @ bs) = concat (map le32 (drop i ws)) @ bs"
  if "i \<le> length ws"
  using that
proof (induction ws arbitrary: i)
  case Nil
  then show ?case by simp
next
  case (Cons w ws)
  show ?case
  proof (cases i)
    case (Suc j)
    then have "4 * i = 4 + 4 * j" by simp
    with Suc Cons show ?thesis by (simp only: list.map concat.simps append_assoc drop_le32) simp
  qed simp
qed

lemma bytes_din_roundtrip:
  assumes "length (direct d) = SFS_NDIRECT"
  shows "bytes_din (din_bytes d @ bs) = d"
proof -
  have l: "length (direct d) = 12" using assms by (simp add: layout)
  let ?r = "concat (map le32 (direct d)) @ le32 (indirect d) @ bs"
  have b: "din_bytes d @ bs = le32 (isz d) @ le16 (itype d) @ le16 (nlinks d) @ le32 (blocks d) @ ?r"
    by (simp add: din_bytes_def)
  have d: "drop 4 (din_bytes d @ bs) = le16 (itype d) @ le16 (nlinks d) @ le32 (blocks d) @ ?r"
    "drop 6 (din_bytes d @ bs) = le16 (nlinks d) @ le32 (blocks d) @ ?r"
    "drop 8 (din_bytes d @ bs) = le32 (blocks d) @ ?r"
    unfolding b by simp_all
  have r: "drop (12 + n) (din_bytes d @ bs) = drop n ?r" for n unfolding b by simp
  have "of_le32 (drop (12 + 4 * i) (din_bytes d @ bs)) = direct d ! i" if i: "i < 12" for i
  proof -
    have "drop i (direct d) = direct d ! i # drop (Suc i) (direct d)"
      using i l by (simp add: Cons_nth_drop_Suc)
    then have "drop (4 * i) ?r =
        le32 (direct d ! i) @ concat (map le32 (drop (Suc i) (direct d))) @ le32 (indirect d) @ bs"
      using drop_concat_le32 [of i "direct d" "le32 (indirect d) @ bs"] i l by simp
    then show ?thesis by (simp only: r of_le32_le32)
  qed
  then have "map (\<lambda>i. of_le32 (drop (12 + 4 * i) (din_bytes d @ bs))) [0..<SFS_NDIRECT] = direct d"
    using l by (intro nth_equalityI) (auto simp: layout)
  moreover have "drop 60 (din_bytes d @ bs) = le32 (indirect d) @ bs"
    using r [of 48] drop_concat_le32 [of 12 "direct d" "le32 (indirect d) @ bs"] l by simp
  moreover have "of_le32 (din_bytes d @ bs) = isz d" unfolding b by (rule of_le32_le32)
  ultimately show ?thesis
    by (simp only: bytes_din_def d of_le16_le16 of_le32_le32) simp
qed

lemma length_din_bytes: "length (direct d) = SFS_NDIRECT \<Longrightarrow> length (din_bytes d) = 64"
  by (simp add: din_bytes_def layout)

lemma bytes_super_roundtrip:
  "length (sinfo p) = 32 \<Longrightarrow> bytes_super (super_bytes p @ bs) = p"
proof -
  assume l: "length (sinfo p) = 32"
  have d: "drop 4 (super_bytes p @ bs) = le32 (sblocks p) @ le32 (unused_blocks p) @ sinfo p @ bs"
    "drop 8 (super_bytes p @ bs) = le32 (unused_blocks p) @ sinfo p @ bs"
    "drop 12 (super_bytes p @ bs) = sinfo p @ bs"
    by (simp_all add: super_bytes_def)
  have "of_le32 (super_bytes p @ bs) = magic p"
    by (simp add: super_bytes_def of_le32_le32)
  with l show ?thesis by (simp only: bytes_super_def d of_le32_le32) simp
qed

end
