(* ===== verification/BlockDev.thy ===== *)
theory BlockDev
  imports FsState
begin

text \<open>
  Block I/O: \<^verbatim>\<open>fs/iobuf.c\<close>, \<^verbatim>\<open>driver/ide.c\<close>, \<^verbatim>\<open>driver/ramdisk.c\<close> and \<^verbatim>\<open>fs/devs/dev_disk0.c\<close>.
  A disk is a range of kernel memory; a transfer goes through the bounce buffer of the disk.
  The theorems say which bytes a transfer moves and that it changes no others.
\<close>

section \<open>\<^verbatim>\<open>iobuf.c\<close>\<close>

definition iobuf_init :: "addr \<Rightarrow> nat \<Rightarrow> int \<Rightarrow> iobuf" where
  "iobuf_init base len offset = \<lparr>io_base = base, io_offset = offset, io_len = len, io_resid = len\<rparr>"

definition iobuf_used :: "iobuf \<Rightarrow> nat" where
  "iobuf_used iob = io_len iob - io_resid iob"

definition iobuf_skip :: "nat \<Rightarrow> iobuf \<Rightarrow> iobuf option" where
  "iobuf_skip n iob = do {
     ensure (io_resid iob \<ge> n);
     Some (iob\<lparr>io_base := io_base iob + n, io_offset := io_offset iob + int n,
               io_resid := io_resid iob - n\<rparr>)
   }"

text \<open>The result, the count for \<^verbatim>\<open>copiedp\<close>, the iobuf and the memory.\<close>

definition iobuf_move :: "iobuf \<Rightarrow> addr \<Rightarrow> nat \<Rightarrow> bool \<Rightarrow> mem \<Rightarrow> (int \<times> nat \<times> iobuf \<times> mem) option" where
  "iobuf_move iob data len m2b m = do {
     let alen = (if io_resid iob > len then len else io_resid iob);
     (iob, m) \<leftarrow> (if alen > 0 then do {
         let m = (if m2b then memmove (io_base iob) data alen m else memmove data (io_base iob) alen m);
         iob \<leftarrow> iobuf_skip alen iob;
         Some (iob, m)
       } else Some (iob, m));
     Some (if len - alen = 0 then 0 else - E_NO_MEM, alen, iob, m)
   }"

definition iobuf_move_zeros :: "iobuf \<Rightarrow> nat \<Rightarrow> mem \<Rightarrow> (int \<times> nat \<times> iobuf \<times> mem) option" where
  "iobuf_move_zeros iob len m = do {
     let alen = (if io_resid iob > len then len else io_resid iob);
     (iob, m) \<leftarrow> (if alen > 0 then do {
         let m = memset (io_base iob) 0 alen m;
         iob \<leftarrow> iobuf_skip alen iob;
         Some (iob, m)
       } else Some (iob, m));
     Some (if len - alen = 0 then 0 else - E_NO_MEM, alen, iob, m)
   }"

section \<open>\<^verbatim>\<open>ramdisk.c\<close> and \<^verbatim>\<open>ide.c\<close>\<close>

text \<open>\<^verbatim>\<open>dev->size - secno\<close> is a difference of 64-bit words.\<close>

definition ramdisk_count :: "ide_device \<Rightarrow> nat \<Rightarrow> nat \<Rightarrow> nat" where
  "ramdisk_count dev secno nsecs = min nsecs (unat (ucast (isize dev) - of_nat secno :: u64))"

definition ramdisk_read :: "ide_device \<Rightarrow> nat \<Rightarrow> addr \<Rightarrow> nat \<Rightarrow> mem \<Rightarrow> int \<times> mem" where
  "ramdisk_read dev secno dst nsecs m =
     (let nsecs = ramdisk_count dev secno nsecs
      in (0, memcpy dst (iobase dev + secno * SECTSIZE) (nsecs * SECTSIZE) m))"

definition ramdisk_write :: "ide_device \<Rightarrow> nat \<Rightarrow> addr \<Rightarrow> nat \<Rightarrow> mem \<Rightarrow> int \<times> mem" where
  "ramdisk_write dev secno src nsecs m =
     (let nsecs = ramdisk_count dev secno nsecs
      in (0, memcpy (iobase dev + secno * SECTSIZE) src (nsecs * SECTSIZE) m))"

definition ramdisk_init :: "nat \<Rightarrow> kfs \<Rightarrow> kfs option" where
  "ramdisk_init devno s = do {
     let s = s\<lparr>ide_devices := (ide_devices s)(devno := \<lparr>valid = False, sets = 0, isize = 0, iobase = 0\<rparr>)\<rparr>;
     (b, e) \<leftarrow> (if devno = SWAP_DEV_NO then Some (swap_img s)
               else if devno = DISK0_DEV_NO then Some (sfs_img s) else None);
     Some (if b \<noteq> e
           then s\<lparr>ide_devices := (ide_devices s)(devno :=
             \<lparr>valid = True, sets = - 1, isize = of_nat ((unat (of_nat (e - b) :: u32)) div SECTSIZE), iobase = b\<rparr>)\<rparr>
           else s)
   }"

definition VALID_IDE :: "nat \<Rightarrow> kfs \<Rightarrow> bool" where
  "VALID_IDE ideno s \<longleftrightarrow> ideno < MAX_IDE \<and> valid (ide_devices s ideno)"

definition ide_init :: "kfs \<Rightarrow> kfs option" where
  "ide_init s = do {
     let s = s\<lparr>ide_devices := (\<lambda>i. if i < MAX_IDE then (ide_devices s i)\<lparr>valid := False\<rparr> else ide_devices s i)\<rparr>;
     s \<leftarrow> ramdisk_init SWAP_DEV_NO s;
     ensure (VALID_IDE SWAP_DEV_NO s);
     s \<leftarrow> ramdisk_init DISK0_DEV_NO s;
     ensure (VALID_IDE DISK0_DEV_NO s);
     Some s
   }"

definition ide_device_valid :: "nat \<Rightarrow> kfs \<Rightarrow> bool" where
  "ide_device_valid ideno s = VALID_IDE ideno s"

definition ide_device_size :: "nat \<Rightarrow> kfs \<Rightarrow> nat" where
  "ide_device_size ideno s = (if ide_device_valid ideno s then unat (isize (ide_devices s ideno)) else 0)"

definition ide_read_secs :: "nat \<Rightarrow> nat \<Rightarrow> addr \<Rightarrow> nat \<Rightarrow> kfs \<Rightarrow> (int \<times> kfs) option" where
  "ide_read_secs ideno secno dst nsecs s = do {
     ensure (nsecs \<le> MAX_NSECS \<and> VALID_IDE ideno s);
     ensure (secno < MAX_DISK_NSECS \<and> secno + nsecs \<le> MAX_DISK_NSECS);
     let (ret, m) = ramdisk_read (ide_devices s ideno) secno dst nsecs (kmem s);
     Some (ret, s\<lparr>kmem := m\<rparr>)
   }"

definition ide_write_secs :: "nat \<Rightarrow> nat \<Rightarrow> addr \<Rightarrow> nat \<Rightarrow> kfs \<Rightarrow> (int \<times> kfs) option" where
  "ide_write_secs ideno secno src nsecs s = do {
     ensure (nsecs \<le> MAX_NSECS \<and> VALID_IDE ideno s);
     ensure (secno < MAX_DISK_NSECS \<and> secno + nsecs \<le> MAX_DISK_NSECS);
     let (ret, m) = ramdisk_write (ide_devices s ideno) secno src nsecs (kmem s);
     Some (ret, s\<lparr>kmem := m\<rparr>)
   }"

section \<open>\<^verbatim>\<open>dev_disk0.c\<close>\<close>

abbreviation DISK0_BLKSIZE :: nat where "DISK0_BLKSIZE \<equiv> 4096"
abbreviation DISK0_BUFSIZE :: nat where "DISK0_BUFSIZE \<equiv> 16384"
abbreviation DISK0_BLK_NSECT :: u32 where "DISK0_BLK_NSECT \<equiv> 8"

definition lock_disk0 :: "kfs \<Rightarrow> kfs option" where
  "lock_disk0 s = do { n \<leftarrow> sem_take (disk0_sem s); Some (s\<lparr>disk0_sem := n\<rparr>) }"

definition unlock_disk0 :: "kfs \<Rightarrow> kfs" where
  "unlock_disk0 s = s\<lparr>disk0_sem := disk0_sem s + 1\<rparr>"

definition disk0_read_blks_nolock :: "u32 \<Rightarrow> u32 \<Rightarrow> kfs \<Rightarrow> kfs option" where
  "disk0_read_blks_nolock blkno nblks s = do {
     let sectno = blkno * DISK0_BLK_NSECT;
     let nsecs = nblks * DISK0_BLK_NSECT;
     (ret, s) \<leftarrow> ide_read_secs DISK0_DEV_NO (unat sectno) (disk0_buffer s) (unat nsecs) s;
     ensure (ret = 0);
     Some s
   }"

definition disk0_write_blks_nolock :: "u32 \<Rightarrow> u32 \<Rightarrow> kfs \<Rightarrow> kfs option" where
  "disk0_write_blks_nolock blkno nblks s = do {
     let sectno = blkno * DISK0_BLK_NSECT;
     let nsecs = nblks * DISK0_BLK_NSECT;
     (ret, s) \<leftarrow> ide_write_secs DISK0_DEV_NO (unat sectno) (disk0_buffer s) (unat nsecs) s;
     ensure (ret = 0);
     Some s
   }"

partial_function (option) disk0_loop ::
  "bool \<Rightarrow> nat \<Rightarrow> u32 \<Rightarrow> iobuf \<Rightarrow> kfs \<Rightarrow> (iobuf \<times> kfs) option" where
  "disk0_loop wr resid blkno iob s =
     (if resid \<noteq> 0 then
        (if wr then
           Option.bind (iobuf_move iob (disk0_buffer s) DISK0_BUFSIZE False (kmem s))
             (\<lambda>(ret, copied, iob, m). Option.bind
               (ensure (copied \<noteq> 0 \<and> copied \<le> resid \<and> copied mod DISK0_BLKSIZE = 0))
             (\<lambda>_. let nblks = of_nat (copied div DISK0_BLKSIZE)
                  in Option.bind (disk0_write_blks_nolock blkno nblks (s\<lparr>kmem := m\<rparr>))
             (\<lambda>s. disk0_loop wr (resid - copied) (blkno + nblks) iob s)))
         else
           (let alen = (if DISK0_BUFSIZE > resid then resid else DISK0_BUFSIZE);
                nblks = of_nat (alen div DISK0_BLKSIZE)
            in Option.bind (disk0_read_blks_nolock blkno nblks s)
             (\<lambda>s. Option.bind (iobuf_move iob (disk0_buffer s) alen True (kmem s))
             (\<lambda>(ret, copied, iob, m). Option.bind
               (ensure (copied = alen \<and> copied mod DISK0_BLKSIZE = 0))
             (\<lambda>_. disk0_loop wr (resid - copied) (blkno + nblks) iob (s\<lparr>kmem := m\<rparr>))))))
      else Some (iob, s))"

definition disk0_io :: "device \<Rightarrow> iobuf \<Rightarrow> bool \<Rightarrow> kfs \<Rightarrow> (int \<times> iobuf \<times> kfs) option" where
  "disk0_io dev iob wr s = do {
     let offset = io_offset iob;
     let resid = io_resid iob;
     let blkno = (word_of_int (offset div int DISK0_BLKSIZE) :: u32);
     let nblks = (of_nat (resid div DISK0_BLKSIZE) :: u32);
     if offset mod int DISK0_BLKSIZE \<noteq> 0 \<or> resid mod DISK0_BLKSIZE \<noteq> 0 then Some (- E_INVAL, iob, s)
     else if unat (blkno + nblks) > d_blocks dev then Some (- E_INVAL, iob, s)
     else if nblks = 0 then Some (0, iob, s)
     else do {
       s \<leftarrow> lock_disk0 s;
       (iob, s) \<leftarrow> disk0_loop wr resid blkno iob s;
       Some (0, iob, unlock_disk0 s)
     }
   }"

definition disk0_open :: "device \<Rightarrow> u32 \<Rightarrow> int" where
  "disk0_open dev open_flags = 0"

definition disk0_close :: "device \<Rightarrow> int" where
  "disk0_close dev = 0"

definition disk0_ioctl :: "device \<Rightarrow> int" where
  "disk0_ioctl dev = - E_UNIMP"

definition disk0_device_init :: "kfs \<Rightarrow> (device \<times> kfs) option" where
  "disk0_device_init s = do {
     ensure (ide_device_valid DISK0_DEV_NO s);
     let dev = \<lparr>d_blocks = ide_device_size DISK0_DEV_NO s div unat DISK0_BLK_NSECT,
                d_blocksize = DISK0_BLKSIZE, d_ops = Disk0Ops\<rparr>;
     let s = s\<lparr>disk0_sem := 1\<rparr>;
     let (buf, s) = kmalloc s;
     ensure (buf \<noteq> 0);
     Some (dev, s\<lparr>disk0_buffer := buf\<rparr>)
   }"

section \<open>One chunk\<close>

text \<open>
  \<open>disk_ok s\<close>: the disk is there, not larger than 4 GB, and its image does not overlap the
  bounce buffer. \<open>disk_base s\<close> is the address of its first byte.
\<close>

definition disk_base :: "kfs \<Rightarrow> addr" where
  "disk_base s = iobase (ide_devices s DISK0_DEV_NO)"

definition disk_blocks :: "kfs \<Rightarrow> nat" where
  "disk_blocks s = ide_device_size DISK0_DEV_NO s div 8"

definition disjoint :: "addr \<Rightarrow> nat \<Rightarrow> addr \<Rightarrow> nat \<Rightarrow> bool" where
  "disjoint a n b m \<longleftrightarrow> a + n \<le> b \<or> b + m \<le> a"

definition disk_ok :: "kfs \<Rightarrow> bool" where
  "disk_ok s \<longleftrightarrow> VALID_IDE DISK0_DEV_NO s \<and> disk_blocks s \<le> 2 ^ 20 \<and>
     disjoint (disk_base s) (disk_blocks s * 4096) (disk0_buffer s) DISK0_BUFSIZE"

definition devs_same :: "kfs \<Rightarrow> kfs \<Rightarrow> bool" where
  "devs_same s s' \<longleftrightarrow> s' = s\<lparr>kmem := kmem s'\<rparr>"

lemma devs_same_refl [simp]: "devs_same s s"
  by (simp add: devs_same_def)

lemma devs_same_kmem [simp]: "devs_same s (s\<lparr>kmem := m\<rparr>)"
  by (simp add: devs_same_def)

lemma devs_same_trans: "devs_same s t \<Longrightarrow> devs_same t u \<Longrightarrow> devs_same s u"
  by (metis (no_types, lifting) devs_same_def kfs.surjective kfs.update_convs(1))

lemma devs_sameD:
  assumes "devs_same s s'"
  shows "disk_base s' = disk_base s" and "disk_blocks s' = disk_blocks s"
    and "disk0_buffer s' = disk0_buffer s" and "VALID_IDE n s' = VALID_IDE n s"
    and "ide_devices s' = ide_devices s" and "disk_ok s' = disk_ok s"
proof -
  have e: "s' = s\<lparr>kmem := kmem s'\<rparr>" using assms by (simp add: devs_same_def)
  show "disk_base s' = disk_base s" "disk_blocks s' = disk_blocks s"
    "disk0_buffer s' = disk0_buffer s" "VALID_IDE n s' = VALID_IDE n s"
    "ide_devices s' = ide_devices s" "disk_ok s' = disk_ok s"
    by (subst e, simp add: disk_base_def disk_blocks_def VALID_IDE_def disk_ok_def
        ide_device_size_def ide_device_valid_def)+
qed

lemma ramdisk_count_eq:
  assumes "secno + nsecs \<le> unat (isize dev)"
  shows "ramdisk_count dev secno nsecs = nsecs"
proof -
  have l: "unat (isize dev) < 2 ^ 32" using unsigned_less [of "isize dev"] by simp
  then have u: "unat (of_nat secno :: u64) = secno" using assms by (simp add: unat_of_nat)
  moreover have "unat (ucast (isize dev) :: u64) = unat (isize dev)" 
    using l by (simp add: unsigned_ucast_eq take_bit_nat_eq_self)
  ultimately have "unat (ucast (isize dev) - of_nat secno :: u64) = unat (isize dev) - secno"
    using assms by (subst unat_sub) (simp_all add: word_le_nat_alt)
  then show ?thesis using assms by (simp add: ramdisk_count_def)
qed

lemma disk_sectors:
  assumes "disk_ok s" and "unat blkno + n \<le> disk_blocks s"
  shows "unat (blkno * 8 :: u32) = unat blkno * 8" and "unat (of_nat n * 8 :: u32) = n * 8"
    and "unat blkno * 8 + n * 8 \<le> unat (isize (ide_devices s DISK0_DEV_NO))"
    and "unat blkno * 8 + n * 8 \<le> 2 ^ 23"
proof -
  let ?z = "unat (isize (ide_devices s DISK0_DEV_NO))"
  have b: "disk_blocks s = ?z div 8" "disk_blocks s \<le> 2 ^ 20"
    using assms(1) by (auto simp: disk_ok_def disk_blocks_def ide_device_size_def ide_device_valid_def)
  then have le: "unat blkno + n \<le> 2 ^ 20" using assms(2) by linarith
  show "unat (blkno * 8 :: u32) = unat blkno * 8"
    using le by (simp add: unat_word_ariths)
  show "unat (of_nat n * 8 :: u32) = n * 8"
    using le by (simp add: unat_word_ariths unat_of_nat)
  have "(unat blkno + n) * 8 \<le> (?z div 8) * 8" using assms(2) b(1) by simp
  also have "\<dots> \<le> ?z" by simp
  finally show "unat blkno * 8 + n * 8 \<le> ?z" by simp
  show "unat blkno * 8 + n * 8 \<le> 2 ^ 23" using le by simp
qed

lemma disk0_read_blks_spec:
  assumes ok: "disk_ok s" and n: "unat blkno + n \<le> disk_blocks s" "0 < n" "n \<le> 4"
  shows "\<exists>s'. disk0_read_blks_nolock blkno (of_nat n) s = Some s' \<and> devs_same s s' \<and>
    (\<forall>a. kmem s' a = (if disk0_buffer s \<le> a \<and> a < disk0_buffer s + n * 4096
        then kmem s (disk_base s + unat blkno * 4096 + (a - disk0_buffer s)) else kmem s a))"
proof -
  note S = disk_sectors [OF ok n(1)]
  let ?dev = "ide_devices s DISK0_DEV_NO" and ?b = "disk0_buffer s"
  let ?m = "memcpy ?b (iobase ?dev + unat blkno * 8 * SECTSIZE) (n * 8 * SECTSIZE) (kmem s)"
  have "disk0_read_blks_nolock blkno (of_nat n) s = Some (s\<lparr>kmem := ?m\<rparr>)"
    using ok n(2,3) S by (simp add: disk0_read_blks_nolock_def ide_read_secs_def ramdisk_read_def
        ramdisk_count_eq disk_ok_def Let_def MAX_NSECS_def MAX_DISK_NSECS_def)
  moreover have "?m a = (if ?b \<le> a \<and> a < ?b + n * 4096
      then kmem s (disk_base s + unat blkno * 4096 + (a - ?b)) else kmem s a)" for a
  proof -
    have "\<not> (iobase ?dev + unat blkno * 8 * SECTSIZE < ?b \<and>
        ?b < iobase ?dev + unat blkno * 8 * SECTSIZE + n * 8 * SECTSIZE)"
    proof -
      have "unat blkno * 4096 + n * 4096 \<le> disk_blocks s * 4096" using n(1) by linarith
      then show ?thesis using ok by (auto simp: disk_ok_def disjoint_def disk_base_def SECTSIZE_def)
    qed
    from memcpy_spec [OF this] show ?thesis
      by (simp add: disk_base_def SECTSIZE_def algebra_simps)
  qed
  ultimately show ?thesis by (intro exI [of _ "s\<lparr>kmem := ?m\<rparr>"]) simp
qed

lemma disk0_write_blks_spec:
  assumes ok: "disk_ok s" and n: "unat blkno + n \<le> disk_blocks s" "0 < n" "n \<le> 4"
  shows "\<exists>s'. disk0_write_blks_nolock blkno (of_nat n) s = Some s' \<and> devs_same s s' \<and>
    (\<forall>a. kmem s' a = (if disk_base s + unat blkno * 4096 \<le> a \<and>
          a < disk_base s + unat blkno * 4096 + n * 4096
        then kmem s (disk0_buffer s + (a - (disk_base s + unat blkno * 4096))) else kmem s a))"
proof -
  note S = disk_sectors [OF ok n(1)]
  let ?dev = "ide_devices s DISK0_DEV_NO" and ?b = "disk0_buffer s"
  let ?m = "memcpy (iobase ?dev + unat blkno * 8 * SECTSIZE) ?b (n * 8 * SECTSIZE) (kmem s)"
  have "disk0_write_blks_nolock blkno (of_nat n) s = Some (s\<lparr>kmem := ?m\<rparr>)"
    using ok n(2,3) S by (simp add: disk0_write_blks_nolock_def ide_write_secs_def ramdisk_write_def
        ramdisk_count_eq disk_ok_def Let_def MAX_NSECS_def MAX_DISK_NSECS_def)
  moreover have "?m a = (if disk_base s + unat blkno * 4096 \<le> a \<and>
        a < disk_base s + unat blkno * 4096 + n * 4096
      then kmem s (?b + (a - (disk_base s + unat blkno * 4096))) else kmem s a)" for a
  proof -
    have "\<not> (?b < iobase ?dev + unat blkno * 8 * SECTSIZE \<and>
        iobase ?dev + unat blkno * 8 * SECTSIZE < ?b + n * 8 * SECTSIZE)"
    proof -
      have "unat blkno * 4096 + n * 4096 \<le> disk_blocks s * 4096" using n(1) by linarith
      then show ?thesis using ok n(2,3) by (auto simp: disk_ok_def disjoint_def disk_base_def SECTSIZE_def)
    qed
    from memcpy_spec [OF this] show ?thesis
      by (simp add: disk_base_def SECTSIZE_def algebra_simps)
  qed
  ultimately show ?thesis by (intro exI [of _ "s\<lparr>kmem := ?m\<rparr>"]) simp
qed

section \<open>The loop\<close>

definition advance :: "nat \<Rightarrow> iobuf \<Rightarrow> iobuf" where
  "advance n iob = iob\<lparr>io_base := io_base iob + n, io_offset := io_offset iob + int n,
     io_resid := io_resid iob - n\<rparr>"

lemma advance_simps [simp]:
  "io_base (advance n iob) = io_base iob + n" "io_resid (advance n iob) = io_resid iob - n"
  "io_len (advance n iob) = io_len iob" "io_offset (advance n iob) = io_offset iob + int n"
  by (simp_all add: advance_def)

lemma advance_0 [simp]: "advance 0 iob = iob"
  by (simp add: advance_def)

lemma advance_add: "advance m (advance n iob) = advance (n + m) iob"
  by (simp add: advance_def algebra_simps)

lemma iobuf_skip_advance: "n \<le> io_resid iob \<Longrightarrow> iobuf_skip n iob = Some (advance n iob)"
  by (simp add: iobuf_skip_def advance_def)

lemma iobuf_move_spec:
  "n \<le> io_resid iob \<Longrightarrow>
    iobuf_move iob data n True m = Some (0, n, advance n iob, memmove (io_base iob) data n m)"
  "iobuf_move iob data n False m =
    (let k = min n (io_resid iob)
     in Some (if n - k = 0 then 0 else - E_NO_MEM, k, advance k iob, memmove data (io_base iob) k m))"
  by (auto simp: iobuf_move_def iobuf_skip_advance Let_def min_def)

lemma disk0_loop_0 [simp]: "disk0_loop wr 0 blkno iob s = Some (iob, s)"
  by (simp add: disk0_loop.simps)

lemma unat_add_blocks:
  assumes "disk_ok s" and "unat (blkno :: u32) + n \<le> disk_blocks s"
  shows "unat (blkno + of_nat n) = unat blkno + n"
proof -
  have "unat blkno + n < 2 ^ 32" using assms by (auto simp: disk_ok_def)
  moreover have "unat (of_nat n :: u32) = n" using calculation by (simp add: unat_of_nat)
  ultimately show ?thesis by (simp add: unat_word_ariths)
qed

lemma disk0_read_step:
  assumes ok: "disk_ok s" and k: "unat blkno + k \<le> disk_blocks s" "0 < k"
    and io: "io_resid iob = k * 4096" and n: "n = min k 4"
    and d2: "disjoint (io_base iob) (k * 4096) (disk0_buffer s) DISK0_BUFSIZE"
  shows "\<exists>t. disk0_loop False (k * 4096) blkno iob s =
      disk0_loop False ((k - n) * 4096) (blkno + of_nat n) (advance (n * 4096) iob) t \<and> devs_same s t \<and>
    (\<forall>a. \<not> (disk0_buffer s \<le> a \<and> a < disk0_buffer s + DISK0_BUFSIZE) \<longrightarrow>
      kmem t a = (if io_base iob \<le> a \<and> a < io_base iob + n * 4096
        then kmem s (disk_base s + unat blkno * 4096 + (a - io_base iob)) else kmem s a))"
proof -
  let ?b = "disk0_buffer s"
  have n': "0 < n" "n \<le> 4" "n \<le> k" "unat blkno + n \<le> disk_blocks s" using k n by auto
  from disk0_read_blks_spec [OF ok n'(4,1,2)] obtain u
    where u: "disk0_read_blks_nolock blkno (of_nat n) s = Some u" "devs_same s u"
      "\<And>a. kmem u a = (if ?b \<le> a \<and> a < ?b + n * 4096
        then kmem s (disk_base s + unat blkno * 4096 + (a - ?b)) else kmem s a)" by blast
  let ?m = "memmove (io_base iob) ?b (n * 4096) (kmem u)"
  let ?t = "u\<lparr>kmem := ?m\<rparr>"
  have alen: "(if DISK0_BUFSIZE > k * 4096 then k * 4096 else DISK0_BUFSIZE) = n * 4096"
    using n by (auto simp: min_def)
  have "disk0_loop False (k * 4096) blkno iob s =
      disk0_loop False ((k - n) * 4096) (blkno + of_nat n) (advance (n * 4096) iob) ?t"
    using k(2) n'(3) u(1) io devs_sameD(3) [OF u(2)]
    by (subst disk0_loop.simps) (simp only: alen Let_def, simp add: iobuf_move_spec(1) diff_mult_distrib)
  moreover have "devs_same s ?t" using u(2) by (rule devs_same_trans) simp
  moreover have "?m a = (if io_base iob \<le> a \<and> a < io_base iob + n * 4096
      then kmem s (disk_base s + unat blkno * 4096 + (a - io_base iob)) else kmem s a)"
    if "\<not> (?b \<le> a \<and> a < ?b + DISK0_BUFSIZE)" for a
    using that n' by (auto simp: memmove_spec u(3))
  ultimately show ?thesis by (intro exI [of _ ?t]) simp
qed

lemma disk0_write_step:
  assumes ok: "disk_ok s" and k: "unat blkno + k \<le> disk_blocks s" "0 < k"
    and io: "io_resid iob = k * 4096" and n: "n = min k 4"
    and d2: "disjoint (io_base iob) (k * 4096) (disk0_buffer s) DISK0_BUFSIZE"
  shows "\<exists>t. disk0_loop True (k * 4096) blkno iob s =
      disk0_loop True ((k - n) * 4096) (blkno + of_nat n) (advance (n * 4096) iob) t \<and> devs_same s t \<and>
    (\<forall>a. \<not> (disk0_buffer s \<le> a \<and> a < disk0_buffer s + DISK0_BUFSIZE) \<longrightarrow>
      kmem t a = (if disk_base s + unat blkno * 4096 \<le> a \<and>
          a < disk_base s + unat blkno * 4096 + n * 4096
        then kmem s (io_base iob + (a - (disk_base s + unat blkno * 4096))) else kmem s a))"
proof -
  let ?b = "disk0_buffer s" and ?D = "disk_base s + unat blkno * 4096"
  have n': "0 < n" "n \<le> 4" "n \<le> k" "unat blkno + n \<le> disk_blocks s" using k n by auto
  have kk: "min DISK0_BUFSIZE (k * 4096) = n * 4096" using n by (auto simp: min_def)
  let ?m = "memmove ?b (io_base iob) (n * 4096) (kmem s)"
  let ?u = "s\<lparr>kmem := ?m\<rparr>"
  have du: "devs_same s ?u" by simp
  have "unat blkno + n \<le> disk_blocks ?u" using n'(4) devs_sameD(2) [OF du] by simp
  from disk0_write_blks_spec [OF _ this n'(1,2)] ok devs_sameD [OF du] obtain t
    where t: "disk0_write_blks_nolock blkno (of_nat n) ?u = Some t" "devs_same ?u t"
      "\<And>a. kmem t a = (if ?D \<le> a \<and> a < ?D + n * 4096 then ?m (?b + (a - ?D)) else ?m a)"
    by auto
  have "disk0_loop True (k * 4096) blkno iob s =
      disk0_loop True ((k - n) * 4096) (blkno + of_nat n) (advance (n * 4096) iob) t"
    using k(2) n' t(1) io kk
    by (subst disk0_loop.simps) (simp add: iobuf_move_spec(2) Let_def diff_mult_distrib)
  moreover have "devs_same s t" using du t(2) by (rule devs_same_trans)
  moreover have "kmem t a = (if ?D \<le> a \<and> a < ?D + n * 4096
      then kmem s (io_base iob + (a - ?D)) else kmem s a)"
    if "\<not> (?b \<le> a \<and> a < ?b + DISK0_BUFSIZE)" for a
    using that n' by (auto simp: t(3) memmove_spec)
  ultimately show ?thesis by blast
qed

lemma disk0_read_loop_spec:
  assumes "disk_ok s" and "unat blkno + k \<le> disk_blocks s" and "io_resid iob = k * 4096"
    and "disjoint (io_base iob) (k * 4096) (disk0_buffer s) DISK0_BUFSIZE"
    and "disjoint (io_base iob) (k * 4096) (disk_base s) (disk_blocks s * 4096)"
  shows "\<exists>t. disk0_loop False (k * 4096) blkno iob s = Some (advance (k * 4096) iob, t) \<and> devs_same s t \<and>
    (\<forall>a. \<not> (disk0_buffer s \<le> a \<and> a < disk0_buffer s + DISK0_BUFSIZE) \<longrightarrow>
      kmem t a = (if io_base iob \<le> a \<and> a < io_base iob + k * 4096
        then kmem s (disk_base s + unat blkno * 4096 + (a - io_base iob)) else kmem s a))"
  using assms
proof (induction k arbitrary: blkno iob s rule: less_induct)
  case (less k)
  show ?case
  proof (cases "k = 0")
    case True
    then show ?thesis by simp
  next
    case False
    define n where "n = min k 4"
    have n: "0 < n" "n \<le> k" "k - n < k" using False by (auto simp: n_def)
    let ?b = "disk0_buffer s" and ?io = "io_base iob" and ?D = "disk_base s + unat blkno * 4096"
    from disk0_read_step [OF less.prems(1,2) _ less.prems(3) n_def less.prems(4)] False obtain u
      where u: "disk0_loop False (k * 4096) blkno iob s =
          disk0_loop False ((k - n) * 4096) (blkno + of_nat n) (advance (n * 4096) iob) u" "devs_same s u"
        and um: "\<And>a. \<not> (?b \<le> a \<and> a < ?b + DISK0_BUFSIZE) \<Longrightarrow>
          kmem u a = (if ?io \<le> a \<and> a < ?io + n * 4096 then kmem s (?D + (a - ?io)) else kmem s a)"
      by blast
    note U = devs_sameD [OF u(2)]
    have bn: "unat (blkno + of_nat n) = unat blkno + n"
      by (rule unat_add_blocks [OF less.prems(1)]) (use less.prems(2) n in simp)
    have p1: "disk_ok u" using less.prems(1) U(6) by simp
    have p2: "unat (blkno + of_nat n) + (k - n) \<le> disk_blocks u" using less.prems(2) U(2) bn n by simp
    have p3: "io_resid (advance (n * 4096) iob) = (k - n) * 4096"
      using less.prems(3) n by (simp add: diff_mult_distrib)
    have kn: "n * 4096 + (k - n) * 4096 = k * 4096" using n by (simp add: diff_mult_distrib)
    have p4: "disjoint (io_base (advance (n * 4096) iob)) ((k - n) * 4096) (disk0_buffer u) DISK0_BUFSIZE"
      and p5: "disjoint (io_base (advance (n * 4096) iob)) ((k - n) * 4096) (disk_base u) (disk_blocks u * 4096)"
      using less.prems(4,5) kn U by (auto simp: disjoint_def)
    from less.IH [OF n(3) p1 p2 p3 p4 p5] obtain t
      where t: "disk0_loop False ((k - n) * 4096) (blkno + of_nat n) (advance (n * 4096) iob) u =
          Some (advance ((k - n) * 4096) (advance (n * 4096) iob), t)" "devs_same u t"
        and tm: "\<And>a. \<not> (?b \<le> a \<and> a < ?b + DISK0_BUFSIZE) \<Longrightarrow>
          kmem t a = (if ?io + n * 4096 \<le> a \<and> a < ?io + n * 4096 + (k - n) * 4096
            then kmem u (disk_base s + (unat blkno + n) * 4096 + (a - (?io + n * 4096))) else kmem u a)"
      using U bn by auto
    have "kmem t a = (if ?io \<le> a \<and> a < ?io + k * 4096 then kmem s (?D + (a - ?io)) else kmem s a)"
      if na: "\<not> (?b \<le> a \<and> a < ?b + DISK0_BUFSIZE)" for a
    proof (cases "?io + n * 4096 \<le> a \<and> a < ?io + k * 4096")
      case True
      define x where "x = disk_base s + (unat blkno + n) * 4096 + (a - (?io + n * 4096))"
      have x: "x = ?D + (a - ?io)" using True by (simp add: x_def algebra_simps)
      have xr: "disk_base s \<le> x" "x < disk_base s + disk_blocks s * 4096"
        using True kn less.prems(2) by (auto simp: x_def algebra_simps)
      have n1: "\<not> (?b \<le> x \<and> x < ?b + DISK0_BUFSIZE)"
        using xr less.prems(1) by (auto simp: disk_ok_def disjoint_def)
      have n2: "\<not> (?io \<le> x \<and> x < ?io + n * 4096)"
        using xr less.prems(5) n by (auto simp: disjoint_def)
      have "kmem u x = kmem s x" by (rule trans [OF um [OF n1] if_not_P [OF n2]])
      moreover have "kmem t a = kmem u x" using True tm [OF na] kn by (simp add: x_def)
      moreover have "?io \<le> a \<and> a < ?io + k * 4096" using True by auto
      ultimately show ?thesis by (simp only: x if_True simp_thms)
    next
      case False
      then show ?thesis using tm [OF na] um [OF na] kn n by auto
    qed
    then show ?thesis using u t devs_same_trans [OF u(2) t(2)] kn by (auto simp: advance_add)
  qed
qed

lemma disk0_write_loop_spec:
  assumes "disk_ok s" and "unat blkno + k \<le> disk_blocks s" and "io_resid iob = k * 4096"
    and "disjoint (io_base iob) (k * 4096) (disk0_buffer s) DISK0_BUFSIZE"
    and "disjoint (io_base iob) (k * 4096) (disk_base s) (disk_blocks s * 4096)"
  shows "\<exists>t. disk0_loop True (k * 4096) blkno iob s = Some (advance (k * 4096) iob, t) \<and> devs_same s t \<and>
    (\<forall>a. \<not> (disk0_buffer s \<le> a \<and> a < disk0_buffer s + DISK0_BUFSIZE) \<longrightarrow>
      kmem t a = (if disk_base s + unat blkno * 4096 \<le> a \<and>
          a < disk_base s + unat blkno * 4096 + k * 4096
        then kmem s (io_base iob + (a - (disk_base s + unat blkno * 4096))) else kmem s a))"
  using assms
proof (induction k arbitrary: blkno iob s rule: less_induct)
  case (less k)
  show ?case
  proof (cases "k = 0")
    case True
    then show ?thesis by simp
  next
    case False
    define n where "n = min k 4"
    have n: "0 < n" "n \<le> k" "k - n < k" using False by (auto simp: n_def)
    let ?b = "disk0_buffer s" and ?io = "io_base iob" and ?D = "disk_base s + unat blkno * 4096"
    from disk0_write_step [OF less.prems(1,2) _ less.prems(3) n_def less.prems(4)] False obtain u
      where u: "disk0_loop True (k * 4096) blkno iob s =
          disk0_loop True ((k - n) * 4096) (blkno + of_nat n) (advance (n * 4096) iob) u" "devs_same s u"
        and um: "\<And>a. \<not> (?b \<le> a \<and> a < ?b + DISK0_BUFSIZE) \<Longrightarrow>
          kmem u a = (if ?D \<le> a \<and> a < ?D + n * 4096 then kmem s (?io + (a - ?D)) else kmem s a)"
      by blast
    note U = devs_sameD [OF u(2)]
    have bn: "unat (blkno + of_nat n) = unat blkno + n"
      by (rule unat_add_blocks [OF less.prems(1)]) (use less.prems(2) n in simp)
    have p1: "disk_ok u" using less.prems(1) U(6) by simp
    have p2: "unat (blkno + of_nat n) + (k - n) \<le> disk_blocks u" using less.prems(2) U(2) bn n by simp
    have p3: "io_resid (advance (n * 4096) iob) = (k - n) * 4096"
      using less.prems(3) n by (simp add: diff_mult_distrib)
    have kn: "n * 4096 + (k - n) * 4096 = k * 4096" using n by (simp add: diff_mult_distrib)
    have p4: "disjoint (io_base (advance (n * 4096) iob)) ((k - n) * 4096) (disk0_buffer u) DISK0_BUFSIZE"
      and p5: "disjoint (io_base (advance (n * 4096) iob)) ((k - n) * 4096) (disk_base u) (disk_blocks u * 4096)"
      using less.prems(4,5) kn U by (auto simp: disjoint_def)
    have Dn: "disk_base s + (unat blkno + n) * 4096 = ?D + n * 4096" by (simp add: algebra_simps)
    from less.IH [OF n(3) p1 p2 p3 p4 p5] obtain t
      where t: "disk0_loop True ((k - n) * 4096) (blkno + of_nat n) (advance (n * 4096) iob) u =
          Some (advance ((k - n) * 4096) (advance (n * 4096) iob), t)" "devs_same u t"
        and tm: "\<And>a. \<not> (?b \<le> a \<and> a < ?b + DISK0_BUFSIZE) \<Longrightarrow>
          kmem t a = (if ?D + n * 4096 \<le> a \<and> a < ?D + n * 4096 + (k - n) * 4096
            then kmem u (?io + n * 4096 + (a - (?D + n * 4096))) else kmem u a)"
      using U bn Dn by auto
    have "kmem t a = (if ?D \<le> a \<and> a < ?D + k * 4096 then kmem s (?io + (a - ?D)) else kmem s a)"
      if na: "\<not> (?b \<le> a \<and> a < ?b + DISK0_BUFSIZE)" for a
    proof (cases "?D + n * 4096 \<le> a \<and> a < ?D + k * 4096")
      case True
      define x where "x = ?io + n * 4096 + (a - (?D + n * 4096))"
      have x: "x = ?io + (a - ?D)" using True by (simp add: x_def)
      have xr: "?io \<le> x" "x < ?io + k * 4096" using True kn by (auto simp: x_def)
      have n1: "\<not> (?b \<le> x \<and> x < ?b + DISK0_BUFSIZE)"
        using xr less.prems(4) by (auto simp: disjoint_def)
      have n2: "\<not> (?D \<le> x \<and> x < ?D + n * 4096)"
      proof -
        have "?D + n * 4096 \<le> disk_base s + disk_blocks s * 4096"
          using less.prems(2) n by (simp add: algebra_simps)
        then show ?thesis using xr less.prems(5) by (auto simp: disjoint_def)
      qed
      have "kmem u x = kmem s x" by (rule trans [OF um [OF n1] if_not_P [OF n2]])
      then show ?thesis using True tm [OF na] kn by (simp flip: x_def x)
    next
      case False
      then show ?thesis using tm [OF na] um [OF na] kn n by auto
    qed
    then show ?thesis using u t devs_same_trans [OF u(2) t(2)] kn by (auto simp: advance_add)
  qed
qed

section \<open>\<^verbatim>\<open>disk0_io\<close>\<close>

text \<open>
  What one transfer of \<open>k\<close> blocks at block \<open>b\<close> does to the memory: outside the bounce buffer, a
  read changes only the destination and a write only the blocks.
\<close>

definition blocks_read :: "kfs \<Rightarrow> nat \<Rightarrow> nat \<Rightarrow> addr \<Rightarrow> kfs \<Rightarrow> bool" where
  "blocks_read s b k base t \<longleftrightarrow>
     (\<forall>a. \<not> (disk0_buffer s \<le> a \<and> a < disk0_buffer s + DISK0_BUFSIZE) \<longrightarrow>
       kmem t a = (if base \<le> a \<and> a < base + k * 4096
         then kmem s (disk_base s + b * 4096 + (a - base)) else kmem s a))"

definition blocks_written :: "kfs \<Rightarrow> nat \<Rightarrow> nat \<Rightarrow> addr \<Rightarrow> kfs \<Rightarrow> bool" where
  "blocks_written s b k base t \<longleftrightarrow>
     (\<forall>a. \<not> (disk0_buffer s \<le> a \<and> a < disk0_buffer s + DISK0_BUFSIZE) \<longrightarrow>
       kmem t a = (if disk_base s + b * 4096 \<le> a \<and> a < disk_base s + b * 4096 + k * 4096
         then kmem s (base + (a - (disk_base s + b * 4096))) else kmem s a))"

definition buf_ok :: "kfs \<Rightarrow> addr \<Rightarrow> nat \<Rightarrow> bool" where
  "buf_ok s p n \<longleftrightarrow> disjoint p n (disk0_buffer s) DISK0_BUFSIZE \<and>
     disjoint p n (disk_base s) (disk_blocks s * 4096)"

lemma disk0_io_spec:
  assumes ok: "disk_ok s" "disk0_sem s > 0" "d_blocks dev = disk_blocks s"
    and off: "io_offset iob = int (b * 4096)" and res: "io_resid iob = k * 4096"
    and le: "b + k \<le> disk_blocks s" and buf: "buf_ok s (io_base iob) (k * 4096)"
  shows "\<exists>t. disk0_io dev iob wr s = Some (0, advance (k * 4096) iob, t) \<and> devs_same s t \<and>
    (if wr then blocks_written s b k (io_base iob) t else blocks_read s b k (io_base iob) t)"
proof -
  have lt: "b + k \<le> 2 ^ 20" using le ok(1) by (simp add: disk_ok_def)
  define w where "w = (of_nat b :: u32)"
  have ub: "unat w = b" using lt by (simp add: w_def unat_of_nat)
  have ubk: "unat (w + of_nat k) = b + k"
    using lt ub by (simp add: unat_word_ariths unat_of_nat)
  have uk: "(of_nat k :: u32) = 0 \<longleftrightarrow> k = 0"
  proof -
    have "unat (of_nat k :: u32) = k" using lt by (simp add: unat_of_nat)
    then show ?thesis by (simp add: unat_eq_0 [symmetric])
  qed
  show ?thesis
  proof (cases "k = 0")
    case True
    then show ?thesis
      using off res le ok(3) ub
      by (simp add: disk0_io_def Let_def blocks_written_def blocks_read_def flip: w_def)
  next
    case False
    let ?s = "s\<lparr>disk0_sem := disk0_sem s - 1\<rparr>"
    have "disk_ok ?s = disk_ok s"
      by (simp add: disk_ok_def disk_blocks_def disk_base_def VALID_IDE_def
          ide_device_size_def ide_device_valid_def)
    with ok(1) have S: "disk_ok ?s" "disk_blocks ?s = disk_blocks s" "disk_base ?s = disk_base s"
      by (simp_all add: disk_blocks_def disk_base_def VALID_IDE_def
          ide_device_size_def ide_device_valid_def)
    have p: "unat w + k \<le> disk_blocks ?s" using ub le S by simp
    have d: "disjoint (io_base iob) (k * 4096) (disk0_buffer ?s) DISK0_BUFSIZE"
      "disjoint (io_base iob) (k * 4096) (disk_base ?s) (disk_blocks ?s * 4096)"
      using buf S by (simp_all add: buf_ok_def)
    have "\<exists>t. disk0_loop wr (k * 4096) w iob ?s = Some (advance (k * 4096) iob, t) \<and> devs_same ?s t \<and>
      (if wr then blocks_written s b k (io_base iob) t else blocks_read s b k (io_base iob) t)"
    proof (cases wr)
      case True
      from disk0_write_loop_spec [OF S(1) p res d] show ?thesis
        by (simp add: True blocks_written_def S(3) ub cong: if_cong)
    next
      case False
      from disk0_read_loop_spec [OF S(1) p res d] show ?thesis
        by (simp add: False blocks_read_def S(3) ub cong: if_cong)
    qed
    then obtain t where t: "disk0_loop wr (k * 4096) w iob ?s = Some (advance (k * 4096) iob, t)"
      "devs_same ?s t"
      "if wr then blocks_written s b k (io_base iob) t else blocks_read s b k (io_base iob) t" by blast
    have "disk0_io dev iob wr s = Some (0, advance (k * 4096) iob, unlock_disk0 t)"
      using False t(1) off res le ok(2,3) uk ubk
      by (simp add: disk0_io_def Let_def lock_disk0_def w_def)
    moreover have "devs_same s (unlock_disk0 t)"
    proof -
      have e: "t = ?s\<lparr>kmem := kmem t\<rparr>" using t(2) by (simp add: devs_same_def)
      show ?thesis by (subst e) (simp add: devs_same_def unlock_disk0_def)
    qed
    moreover have "kmem (unlock_disk0 t) = kmem t" by (simp add: unlock_disk0_def)
    ultimately show ?thesis using t(3)
      by (intro exI [of _ "unlock_disk0 t"]) (auto simp: blocks_written_def blocks_read_def)
  qed
qed

section \<open>Properties\<close>

text \<open>A machine with a disk of eight blocks at 65536 and the bounce buffer at 4096.\<close>

definition demo_kfs :: kfs where
  "demo_kfs =
     \<lparr>kmem = (\<lambda>a. of_nat a), heap = [], locals = 1024, sfs_img = (65536, 98304), swap_img = (0, 0),
      ide_devices = (\<lambda>i. \<lparr>valid = True, sets = - 1, isize = 64, iobase = 65536\<rparr>),
      disk0_buffer = 4096, disk0_sem = 1, inodes = (\<lambda>_. None), fss = (\<lambda>_. None),
      bootfs_node = 0, bootfs_sem = 1, vdev_list = [], vdev_list_sem = 1,
      filesp = \<lparr>pwd = 0, fd_array = [], files_count = 0, files_sem = 1\<rparr>, console = [],
      stdin_buffer = replicate 4096 0, p_rpos = 0, p_wpos = 0\<rparr>"

definition demo_disk :: device where
  "demo_disk = \<lparr>d_blocks = 8, d_blocksize = 4096, d_ops = Disk0Ops\<rparr>"

lemma demo_kfs_ok [simp]:
  "disk_ok demo_kfs" "disk0_sem demo_kfs = 1" "disk_blocks demo_kfs = 8" "disk0_buffer demo_kfs = 4096"
  "disk_base demo_kfs = 65536" "d_blocks demo_disk = 8" "kmem demo_kfs = of_nat"
  by (auto simp: disk_ok_def demo_kfs_def disk_blocks_def ide_device_size_def ide_device_valid_def
      VALID_IDE_def layout disjoint_def disk_base_def demo_disk_def)

text \<open>
  What \<^verbatim>\<open>disk0_io\<close> writes is what it reads back. A write of \<open>k\<close> blocks at block \<open>b\<close> from
  \<open>p\<close> followed by a read of the same blocks to \<open>q\<close> returns 0 both times without a panic,
  copies the \<open>k * 4096\<close> bytes at \<open>p\<close> to the blocks and to \<open>q\<close>, changes no byte elsewhere
  (apart from the bounce buffer of the disk) and releases the disk lock.
\<close>

theorem disk0_write_read:
  assumes ok: "disk_ok s" "disk0_sem s > 0" "d_blocks dev = disk_blocks s"
    and w: "io_offset w = int (b * 4096)" "io_resid w = k * 4096" "buf_ok s (io_base w) (k * 4096)"
    and r: "io_offset r = int (b * 4096)" "io_resid r = k * 4096" "buf_ok s (io_base r) (k * 4096)"
    and le: "b + k \<le> disk_blocks s"
  shows "\<exists>w' r' t u. disk0_io dev w True s = Some (0, w', t) \<and> disk0_io dev r False t = Some (0, r', u) \<and>
    bytes_at (kmem u) (disk_base s + b * 4096) (k * 4096) = bytes_at (kmem s) (io_base w) (k * 4096) \<and>
    bytes_at (kmem u) (io_base r) (k * 4096) = bytes_at (kmem s) (io_base w) (k * 4096) \<and>
    disk0_sem u = disk0_sem s \<and>
    (\<forall>a. disjoint a 1 (disk0_buffer s) DISK0_BUFSIZE \<longrightarrow> disjoint a 1 (io_base r) (k * 4096) \<longrightarrow>
       disjoint a 1 (disk_base s + b * 4096) (k * 4096) \<longrightarrow> kmem u a = kmem s a)"
proof -
  let ?D = "disk_base s + b * 4096" and ?n = "k * 4096"
  from disk0_io_spec [OF ok w(1,2) le w(3), of True] obtain t
    where t: "disk0_io dev w True s = Some (0, advance ?n w, t)" "devs_same s t"
      "blocks_written s b k (io_base w) t" by auto
  note T = devs_sameD [OF t(2)]
  have e: "t = s\<lparr>kmem := kmem t\<rparr>" using t(2) by (simp add: devs_same_def)
  have st: "disk0_sem t = disk0_sem s" by (subst e) simp
  have "buf_ok t (io_base r) ?n" using r(3) T by (simp add: buf_ok_def)
  with disk0_io_spec [of t dev r b k False] ok T st r(1,2) le obtain u
    where u: "disk0_io dev r False t = Some (0, advance ?n r, u)" "devs_same t u"
      "blocks_read t b k (io_base r) u" by auto
  have e': "u = t\<lparr>kmem := kmem u\<rparr>" using u(2) by (simp add: devs_same_def)
  have su: "disk0_sem u = disk0_sem s" using st by (subst e') simp
  have far: "\<not> (disk0_buffer s \<le> a \<and> a < disk0_buffer s + DISK0_BUFSIZE)"
    "\<not> (io_base r \<le> a \<and> a < io_base r + ?n)" if "?D \<le> a" "a < ?D + ?n" for a
    using that ok(1) r(3) le by (auto simp: disk_ok_def disjoint_def buf_ok_def)
  have tm: "kmem t (?D + i) = kmem s (io_base w + i)" if "i < ?n" for i
    using t(3) far(1) [of "?D + i"] that by (auto simp: blocks_written_def)
  have um: "kmem u (?D + i) = kmem s (io_base w + i)" if "i < ?n" for i
    using u(3) far [of "?D + i"] that tm [OF that] T by (auto simp: blocks_read_def)
  have "\<not> (disk0_buffer s \<le> io_base r + i \<and> io_base r + i < disk0_buffer s + DISK0_BUFSIZE)"
    if "i < ?n" for i using r(3) that by (auto simp: buf_ok_def disjoint_def)
  then have ur: "kmem u (io_base r + i) = kmem s (io_base w + i)" if "i < ?n" for i
    using u(3) that tm [OF that] T by (auto simp: blocks_read_def)
  have "kmem u a = kmem s a" if "disjoint a 1 (disk0_buffer s) DISK0_BUFSIZE"
    "disjoint a 1 (io_base r) ?n" "disjoint a 1 ?D ?n" for a
    using that u(3) t(3) T by (auto simp: blocks_read_def blocks_written_def disjoint_def)
  moreover have "bytes_at (kmem u) ?D ?n = bytes_at (kmem s) (io_base w) ?n"
    "bytes_at (kmem u) (io_base r) ?n = bytes_at (kmem s) (io_base w) ?n"
    by (auto intro!: nth_equalityI simp: um ur)
  ultimately show ?thesis using t(1) u(1) su by blast
qed

theorem disk0_write_read_witness:
  "\<exists>w' r' t u. disk0_io demo_disk (iobuf_init 24576 8192 4096) True demo_kfs = Some (0, w', t) \<and>
    disk0_io demo_disk (iobuf_init 36864 8192 4096) False t = Some (0, r', u) \<and>
    bytes_at (kmem u) 36864 8192 = bytes_at of_nat 24576 8192"
proof -
  have b: "buf_ok demo_kfs 24576 8192" "buf_ok demo_kfs 36864 8192" by (simp_all add: buf_ok_def disjoint_def)
  have "\<exists>w' r' t u. disk0_io demo_disk (iobuf_init 24576 8192 4096) True demo_kfs = Some (0, w', t) \<and>
    disk0_io demo_disk (iobuf_init 36864 8192 4096) False t = Some (0, r', u) \<and>
    bytes_at (kmem u) (disk_base demo_kfs + 1 * 4096) (2 * 4096) = bytes_at (kmem demo_kfs) 24576 (2 * 4096) \<and>
    bytes_at (kmem u) 36864 (2 * 4096) = bytes_at (kmem demo_kfs) 24576 (2 * 4096) \<and>
    disk0_sem u = disk0_sem demo_kfs \<and>
    (\<forall>a. disjoint a 1 (disk0_buffer demo_kfs) DISK0_BUFSIZE \<longrightarrow> disjoint a 1 36864 (2 * 4096) \<longrightarrow>
       disjoint a 1 (disk_base demo_kfs + 1 * 4096) (2 * 4096) \<longrightarrow> kmem u a = kmem demo_kfs a)"
    using disk0_write_read [of demo_kfs demo_disk "iobuf_init 24576 8192 4096" 1 2 "iobuf_init 36864 8192 4096"] b
    by (simp add: iobuf_init_def)
  then show ?thesis by auto
qed

end
