(* ===== verification/Devices.thy ===== *)
theory Devices
  imports BlockDev
begin

text \<open>
  The character devices \<^verbatim>\<open>fs/devs/dev_stdin.c\<close> and \<^verbatim>\<open>fs/devs/dev_stdout.c\<close>, and the calls
  through the function table of a device (\<^verbatim>\<open>dop_open\<close> and so on in \<^verbatim>\<open>fs/devs/dev.h\<close>): the
  table is the datatype \<open>dev_ops\<close>, the call the case distinction on it.
\<close>

section \<open>Standard input\<close>

abbreviation STDIN_BUFSIZE :: nat where "STDIN_BUFSIZE \<equiv> 4096"

text \<open>
  The loop of \<^verbatim>\<open>dev_stdin_read\<close> up to its end (\<open>True\<close>) or to the point where the buffer is
  empty and the caller goes to sleep (\<open>False\<close>), with the count so far.
\<close>

fun dev_stdin_copy :: "nat \<Rightarrow> addr \<Rightarrow> nat \<Rightarrow> kfs \<Rightarrow> nat \<times> bool \<times> kfs" where
  "dev_stdin_copy 0 buf ret s = (ret, True, s)"
| "dev_stdin_copy (Suc len) buf ret s =
     (if p_rpos s < p_wpos s then
        dev_stdin_copy len (Suc buf) (Suc ret)
          (s\<lparr>kmem := (kmem s)(buf := stdin_buffer s ! nat (p_rpos s mod int STDIN_BUFSIZE)),
             p_rpos := p_rpos s + 1\<rparr>)
      else (ret, False, s))"

definition dev_stdin_read :: "addr \<Rightarrow> nat \<Rightarrow> kfs \<Rightarrow> (nat \<times> kfs) option" where
  "dev_stdin_read buf len s =
     (case dev_stdin_copy len buf 0 s of (ret, fin, s) \<Rightarrow> if fin then Some (ret, s) else None)"

text \<open>What the keyboard interrupt does to the buffer; the wakeup of the readers is elsewhere.\<close>

definition dev_stdin_put :: "u8 \<Rightarrow> kfs \<Rightarrow> kfs" where
  "dev_stdin_put c s =
     (if c \<noteq> 0 then
        (let s = s\<lparr>stdin_buffer := (stdin_buffer s)[nat (p_wpos s mod int STDIN_BUFSIZE) := c]\<rparr>
         in if p_wpos s - p_rpos s < int STDIN_BUFSIZE then s\<lparr>p_wpos := p_wpos s + 1\<rparr> else s)
      else s)"

definition stdin_open :: "device \<Rightarrow> u32 \<Rightarrow> int" where
  "stdin_open dev open_flags = (if open_flags \<noteq> O_RDONLY then - E_INVAL else 0)"

definition stdin_close :: "device \<Rightarrow> int" where
  "stdin_close dev = 0"

definition stdin_io :: "device \<Rightarrow> iobuf \<Rightarrow> bool \<Rightarrow> kfs \<Rightarrow> (int \<times> iobuf \<times> kfs) option" where
  "stdin_io dev iob wr s =
     (if \<not> wr then do {
        (ret, s) \<leftarrow> dev_stdin_read (io_base iob) (io_resid iob) s;
        Some (int ret, if ret > 0 then iob\<lparr>io_resid := io_resid iob - ret\<rparr> else iob, s)
      } else Some (- E_INVAL, iob, s))"

definition stdin_ioctl :: "device \<Rightarrow> int" where
  "stdin_ioctl dev = - E_INVAL"

definition stdin_device_init :: "kfs \<Rightarrow> device \<times> kfs" where
  "stdin_device_init s =
     (\<lparr>d_blocks = 0, d_blocksize = 1, d_ops = StdinOps\<rparr>, s\<lparr>p_rpos := 0, p_wpos := 0\<rparr>)"

section \<open>Standard output\<close>

definition stdout_open :: "device \<Rightarrow> u32 \<Rightarrow> int" where
  "stdout_open dev open_flags = (if open_flags \<noteq> O_WRONLY then - E_INVAL else 0)"

definition stdout_close :: "device \<Rightarrow> int" where
  "stdout_close dev = 0"

fun stdout_loop :: "nat \<Rightarrow> addr \<Rightarrow> kfs \<Rightarrow> kfs" where
  "stdout_loop 0 p s = s"
| "stdout_loop (Suc n) p s = stdout_loop n (Suc p) (s\<lparr>console := console s @ [kmem s p]\<rparr>)"

definition stdout_io :: "device \<Rightarrow> iobuf \<Rightarrow> bool \<Rightarrow> kfs \<Rightarrow> int \<times> iobuf \<times> kfs" where
  "stdout_io dev iob wr s =
     (if wr then (0, iob\<lparr>io_resid := 0\<rparr>, stdout_loop (io_resid iob) (io_base iob) s)
      else (- E_INVAL, iob, s))"

definition stdout_ioctl :: "device \<Rightarrow> int" where
  "stdout_ioctl dev = - E_INVAL"

definition stdout_device_init :: "kfs \<Rightarrow> device \<times> kfs" where
  "stdout_device_init s = (\<lparr>d_blocks = 0, d_blocksize = 1, d_ops = StdoutOps\<rparr>, s)"

section \<open>Calls through the table\<close>

definition dop_open :: "device \<Rightarrow> u32 \<Rightarrow> int" where
  "dop_open dev open_flags =
     (case d_ops dev of StdinOps \<Rightarrow> stdin_open dev open_flags
      | StdoutOps \<Rightarrow> stdout_open dev open_flags | Disk0Ops \<Rightarrow> disk0_open dev open_flags)"

definition dop_close :: "device \<Rightarrow> int" where
  "dop_close dev =
     (case d_ops dev of StdinOps \<Rightarrow> stdin_close dev | StdoutOps \<Rightarrow> stdout_close dev
      | Disk0Ops \<Rightarrow> disk0_close dev)"

definition dop_io :: "device \<Rightarrow> iobuf \<Rightarrow> bool \<Rightarrow> kfs \<Rightarrow> (int \<times> iobuf \<times> kfs) option" where
  "dop_io dev iob wr s =
     (case d_ops dev of StdinOps \<Rightarrow> stdin_io dev iob wr s | StdoutOps \<Rightarrow> Some (stdout_io dev iob wr s)
      | Disk0Ops \<Rightarrow> disk0_io dev iob wr s)"

definition dop_ioctl :: "device \<Rightarrow> int" where
  "dop_ioctl dev =
     (case d_ops dev of StdinOps \<Rightarrow> stdin_ioctl dev | StdoutOps \<Rightarrow> stdout_ioctl dev
      | Disk0Ops \<Rightarrow> disk0_ioctl dev)"

section \<open>The input buffer is a queue\<close>

definition stdin_ok :: "kfs \<Rightarrow> bool" where
  "stdin_ok s \<longleftrightarrow> length (stdin_buffer s) = STDIN_BUFSIZE \<and> 0 \<le> p_rpos s \<and> p_rpos s \<le> p_wpos s \<and>
     p_wpos s - p_rpos s \<le> int STDIN_BUFSIZE"

text \<open>The characters not read yet, oldest first.\<close>

definition pending :: "kfs \<Rightarrow> u8 list" where
  "pending s = map (\<lambda>i. stdin_buffer s ! nat ((p_rpos s + int i) mod int STDIN_BUFSIZE))
     [0..<nat (p_wpos s - p_rpos s)]"

lemma length_pending [simp]: "length (pending s) = nat (p_wpos s - p_rpos s)"
  by (simp add: pending_def)

lemma pending_Cons:
  assumes "p_rpos s < p_wpos s"
  shows "pending s = stdin_buffer s ! nat (p_rpos s mod int STDIN_BUFSIZE) #
    pending (s\<lparr>kmem := m, p_rpos := p_rpos s + 1\<rparr>)"
proof -
  let ?n = "nat (p_wpos s - p_rpos s - 1)"
  have n: "nat (p_wpos s - p_rpos s) = Suc ?n" using assms by simp
  have e: "(p_rpos s + int (Suc i)) = p_rpos s + 1 + int i" for i by simp
  have d: "p_wpos s - (p_rpos s + 1) = p_wpos s - p_rpos s - 1" by simp
  show ?thesis
    unfolding pending_def
    by (simp only: n upt_conv_Cons [of 0 "Suc ?n"] zero_less_Suc list.map map_Suc_upt [symmetric]
        map_map o_def e kfs.simps) (simp add: d)
qed

lemma dev_stdin_copy_spec:
  "stdin_ok s \<Longrightarrow>
    (let k = min len (length (pending s)); r = dev_stdin_copy len buf ret s; s' = snd (snd r)
     in fst r = ret + k \<and> (fst (snd r) \<longleftrightarrow> len \<le> length (pending s)) \<and> stdin_ok s' \<and>
        pending s' = drop k (pending s) \<and> bytes_at (kmem s') buf k = take k (pending s) \<and>
        (\<forall>a. \<not> (buf \<le> a \<and> a < buf + k) \<longrightarrow> kmem s' a = kmem s a))"
proof (induction len buf ret s rule: dev_stdin_copy.induct)
  case (1 buf ret s)
  then show ?case by simp
next
  case (2 len buf ret s)
  show ?case
  proof (cases "p_rpos s < p_wpos s")
    case False
    then have "pending s = []" using "2.prems" by (simp add: pending_def)
    with False "2.prems" show ?thesis by simp
  next
    case True
    let ?c = "stdin_buffer s ! nat (p_rpos s mod int STDIN_BUFSIZE)"
    let ?m = "(kmem s)(buf := ?c)"
    let ?s = "s\<lparr>kmem := ?m, p_rpos := p_rpos s + 1\<rparr>"
    have p: "pending s = ?c # pending ?s" by (rule pending_Cons [OF True])
    have ok: "stdin_ok ?s" using True "2.prems" by (simp add: stdin_ok_def)
    let ?r = "dev_stdin_copy len (Suc buf) (Suc ret) ?s"
    let ?k = "min len (length (pending ?s))"
    have IH: "fst ?r = Suc ret + ?k" "fst (snd ?r) \<longleftrightarrow> len \<le> length (pending ?s)"
      "stdin_ok (snd (snd ?r))" "pending (snd (snd ?r)) = drop ?k (pending ?s)"
      "bytes_at (kmem (snd (snd ?r))) (Suc buf) ?k = take ?k (pending ?s)"
      "\<And>a. \<not> (Suc buf \<le> a \<and> a < Suc buf + ?k) \<Longrightarrow> kmem (snd (snd ?r)) a = ?m a"
      using "2.IH" [OF True] ok by (simp_all only: Let_def) auto
    have st: "dev_stdin_copy (Suc len) buf ret s = ?r" using True by simp
    have k: "min (Suc len) (length (pending s)) = Suc ?k" unfolding p by simp
    have "kmem (snd (snd ?r)) buf = ?c" using IH(6) [of buf] by simp
    then have "bytes_at (kmem (snd (snd ?r))) buf (Suc ?k) = take (Suc ?k) (pending s)"
      by (simp only: bytes_at_Suc p take_Suc_Cons IH(5))
    moreover have "kmem (snd (snd ?r)) a = kmem s a" if "\<not> (buf \<le> a \<and> a < buf + Suc ?k)" for a
      using IH(6) [of a] that by auto
    moreover have "pending (snd (snd ?r)) = drop (Suc ?k) (pending s)"
      by (simp only: p drop_Suc_Cons IH(4))
    moreover have "fst (snd ?r) \<longleftrightarrow> Suc len \<le> length (pending s)"
      by (simp only: p IH(2)) simp
    ultimately show ?thesis
      by (simp only: Let_def st k IH(1,3)) simp
  qed
qed

lemma pending_nth: "i < length (pending s) \<Longrightarrow>
    pending s ! i = stdin_buffer s ! nat ((p_rpos s + int i) mod int STDIN_BUFSIZE)"
  by (simp add: pending_def)

lemma mod_window:
  assumes "(a :: int) mod n = b mod n" and "\<bar>a - b\<bar> < n"
  shows "a = b"
proof -
  from assms(1) obtain k where k: "a - b = n * k" by (metis mod_eq_dvd_iff dvdE)
  have "k = 0"
  proof (rule ccontr)
    assume "k \<noteq> 0"
    then have "1 \<le> \<bar>k\<bar>" by linarith
    then have "\<bar>n\<bar> * 1 \<le> \<bar>n\<bar> * \<bar>k\<bar>" by (rule mult_left_mono) simp
    also have "\<dots> = \<bar>a - b\<bar>" using k by (simp add: abs_mult)
    finally show False using assms(2) by linarith
  qed
  then show ?thesis using k by simp
qed

lemma dev_stdin_put_spec:
  assumes ok: "stdin_ok s" and c: "c \<noteq> 0"
  shows "stdin_ok (dev_stdin_put c s) \<and> kmem (dev_stdin_put c s) = kmem s \<and>
    pending (dev_stdin_put c s) =
      (if length (pending s) < STDIN_BUFSIZE then pending s @ [c] else c # tl (pending s))"
proof -
  let ?w = "nat (p_wpos s mod int STDIN_BUFSIZE)" and ?n = "length (pending s)"
  have n: "p_wpos s = p_rpos s + int ?n" "?n \<le> STDIN_BUFSIZE" "length (stdin_buffer s) = STDIN_BUFSIZE"
    using ok by (auto simp: stdin_ok_def)
  have z: "int ?n = p_wpos s - p_rpos s" "p_rpos s \<le> p_wpos s" using ok by (auto simp: stdin_ok_def)
  have other: "(stdin_buffer s)[?w := c] ! nat ((p_rpos s + int i) mod int STDIN_BUFSIZE) = pending s ! i"
    if i: "i < ?n" "?n < STDIN_BUFSIZE \<or> 0 < i" for i
  proof -
    have "(p_rpos s + int i) mod int STDIN_BUFSIZE \<noteq> p_wpos s mod int STDIN_BUFSIZE"
    proof
      assume "(p_rpos s + int i) mod int STDIN_BUFSIZE = p_wpos s mod int STDIN_BUFSIZE"
      moreover have "\<bar>p_rpos s + int i - p_wpos s\<bar> < int STDIN_BUFSIZE"
        using n(1,2) i by (simp only:) linarith
      ultimately have "p_rpos s + int i = p_wpos s" by (rule mod_window)
      then show False using n(1) i(1) by linarith
    qed
    then have "nat ((p_rpos s + int i) mod int STDIN_BUFSIZE) \<noteq> ?w" by (subst eq_nat_nat_iff) auto
    then show ?thesis using pending_nth [OF i(1)] by (simp only: nth_list_update_neq)
  qed
  have lw: "?w < length (stdin_buffer s)" using n(3) by (simp add: nat_less_iff)
  have here: "(stdin_buffer s)[?w := c] ! ?w = c" using lw by simp
  show ?thesis
  proof (cases "?n < STDIN_BUFSIZE")
    case room: True
    then have p: "dev_stdin_put c s = s\<lparr>stdin_buffer := (stdin_buffer s)[?w := c], p_wpos := p_wpos s + 1\<rparr>"
      using z c by (simp add: dev_stdin_put_def Let_def del: length_pending)
    have "pending (dev_stdin_put c s) = pending s @ [c]"
    proof (rule nth_equalityI)
      show l: "length (pending (dev_stdin_put c s)) = length (pending s @ [c])"
        using z by (simp add: p)
      fix i
      assume "i < length (pending (dev_stdin_put c s))"
      with l have i: "i < ?n \<or> i = ?n" "i < length (pending (dev_stdin_put c s))" by auto
      have "pending (dev_stdin_put c s) ! i =
          (stdin_buffer s)[?w := c] ! nat ((p_rpos s + int i) mod int STDIN_BUFSIZE)"
        by (rule trans [OF pending_nth [OF i(2)]]) (simp add: p)
      also have "\<dots> = (pending s @ [c]) ! i"
      proof (cases "i < ?n")
        case True
        then show ?thesis using other [OF True] room by (simp only: nth_append if_True) blast
      next
        case False
        then have "i = ?n" using i(1) by blast
        then show ?thesis using here n(1) by (simp only: nth_append_length)
      qed
      finally show "pending (dev_stdin_put c s) ! i = (pending s @ [c]) ! i" .
    qed
    then show ?thesis using room ok by (simp add: p stdin_ok_def)
  next
    case False
    then have e: "?n = STDIN_BUFSIZE" using n(2) by simp
    then have p: "dev_stdin_put c s = s\<lparr>stdin_buffer := (stdin_buffer s)[?w := c]\<rparr>"
      using z e c by (simp add: dev_stdin_put_def Let_def del: length_pending)
    have w: "p_wpos s mod int STDIN_BUFSIZE = p_rpos s mod int STDIN_BUFSIZE"
      by (simp only: n(1) e) simp
    have "pending (dev_stdin_put c s) = c # tl (pending s)"
    proof (rule nth_equalityI)
      show l: "length (pending (dev_stdin_put c s)) = length (c # tl (pending s))"
        using e by (simp add: p)
      fix i
      assume i: "i < length (pending (dev_stdin_put c s))"
      with l e have "i < ?n" by (simp del: length_pending)
      have "pending (dev_stdin_put c s) ! i =
          (stdin_buffer s)[?w := c] ! nat ((p_rpos s + int i) mod int STDIN_BUFSIZE)"
        by (rule trans [OF pending_nth [OF i]]) (simp add: p)
      also have "\<dots> = (c # tl (pending s)) ! i"
      proof (cases i)
        case 0
        then show ?thesis using here w by (simp only: int_ops(1) add_0_right nth_Cons_0)
      next
        case (Suc j)
        then show ?thesis using other [OF \<open>i < ?n\<close>] \<open>i < ?n\<close>
          by (simp only: nth_Cons_Suc nth_tl length_tl Suc_less_eq zero_less_Suc) (simp add: nth_tl)
      qed
      finally show "pending (dev_stdin_put c s) ! i = (c # tl (pending s)) ! i" .
    qed
    then show ?thesis using False ok by (simp add: p stdin_ok_def)
  qed
qed

section \<open>Properties\<close>

text \<open>
  The keyboard buffer is a queue between the interrupt and the reader. A character typed
  while the buffer is not full is queued behind the others. A read of \<open>len\<close> characters when
  that many are there copies the oldest ones, in order, to the caller's buffer, writes
  nothing else, and leaves the rest queued; with fewer there it does not return (it sleeps).
\<close>

theorem stdin_is_queue:
  assumes ok: "stdin_ok s" and c: "c \<noteq> 0" and room: "length (pending s) < STDIN_BUFSIZE"
  shows "let q = pending s @ [c]; s' = dev_stdin_put c s
    in stdin_ok s' \<and> pending s' = q \<and>
      (case dev_stdin_read buf len s' of
         None \<Rightarrow> length q < len
       | Some (ret, t) \<Rightarrow> len \<le> length q \<and> ret = len \<and> stdin_ok t \<and> pending t = drop len q \<and>
           bytes_at (kmem t) buf len = take len q \<and>
           (\<forall>a. disjoint a 1 buf len \<longrightarrow> kmem t a = kmem s a))"
proof -
  have p: "stdin_ok (dev_stdin_put c s)" "kmem (dev_stdin_put c s) = kmem s"
    "pending (dev_stdin_put c s) = pending s @ [c]"
    using dev_stdin_put_spec [OF ok c] room by auto
  show ?thesis
    using dev_stdin_copy_spec [OF p(1), of len buf 0] p
    by (auto simp: Let_def dev_stdin_read_def disjoint_def min_def simp del: length_pending
        split: prod.splits option.splits if_splits)
qed

theorem stdin_is_queue_witness:
  "stdin_ok demo_kfs \<and> (case dev_stdin_read 9 1 (dev_stdin_put 65 demo_kfs) of
     None \<Rightarrow> False | Some (ret, t) \<Rightarrow> ret = 1 \<and> kmem t 9 = 65 \<and> pending t = [])"
proof -
  have ok: "stdin_ok demo_kfs" and p: "pending demo_kfs = []"
    by (simp_all add: stdin_ok_def demo_kfs_def pending_def)
  have "bytes_at m 9 (Suc 0) = [m 9]" for m by (simp add: bytes_at_Suc)
  then show ?thesis
    using stdin_is_queue [OF ok, where c = 65 and buf = 9 and len = 1] ok
    by (auto simp: Let_def p split: option.splits prod.splits)
qed

end
