(* ===== verification/SfsIo.thy ===== *)
theory SfsIo
  imports Devices
begin

text \<open>
  Block I/O of the simple file system, \<^verbatim>\<open>fs/sfs/sfs_io.c\<close>, and its locks, \<^verbatim>\<open>fs/sfs/sfs_lock.c\<close>.
  A file system is named by its address. An object that the model keeps as a value (the
  superblock, the free map, a local variable) is given to the block I/O as its bytes: the
  superblock is copied into the buffer, the others lie at the address \<open>locals\<close> for the time
  of the call. The theorems describe every operation by what it does to the blocks of the disk.
\<close>

section \<open>\<^verbatim>\<open>sfs_lock.c\<close>\<close>

definition lock_sfs_fs :: "addr \<Rightarrow> kfs \<Rightarrow> kfs option" where
  "lock_sfs_fs sfs s = do {
     f \<leftarrow> fss s sfs;
     n \<leftarrow> sem_take (fs_sem f);
     Some (upd_fs sfs (fs_sem_update (\<lambda>_. n)) s)
   }"

definition lock_sfs_io :: "addr \<Rightarrow> kfs \<Rightarrow> kfs option" where
  "lock_sfs_io sfs s = do {
     f \<leftarrow> fss s sfs;
     n \<leftarrow> sem_take (io_sem f);
     Some (upd_fs sfs (io_sem_update (\<lambda>_. n)) s)
   }"

definition unlock_sfs_fs :: "addr \<Rightarrow> kfs \<Rightarrow> kfs" where
  "unlock_sfs_fs sfs s = upd_fs sfs (fs_sem_update (\<lambda>n. n + 1)) s"

definition unlock_sfs_io :: "addr \<Rightarrow> kfs \<Rightarrow> kfs" where
  "unlock_sfs_io sfs s = upd_fs sfs (io_sem_update (\<lambda>n. n + 1)) s"

section \<open>\<^verbatim>\<open>sfs_io.c\<close>\<close>

text \<open>The offset \<^verbatim>\<open>blkno * SFS_BLKSIZE\<close> is a product of 32-bit words.\<close>

definition sfs_rwblock_nolock :: "addr \<Rightarrow> addr \<Rightarrow> u32 \<Rightarrow> bool \<Rightarrow> bool \<Rightarrow> kfs \<Rightarrow> (int \<times> kfs) option" where
  "sfs_rwblock_nolock sfs buf blkno wr check s = do {
     f \<leftarrow> fss s sfs;
     ensure ((blkno \<noteq> 0 \<or> \<not> check) \<and> blkno < sblocks (super f));
     let iob = iobuf_init buf SFS_BLKSIZE (uint (blkno * 4096));
     dev \<leftarrow> vop_dev (sdev f) s;
     (ret, iob, s) \<leftarrow> dop_io dev iob wr s;
     Some (ret, s)
   }"

fun sfs_rwblock_loop :: "addr \<Rightarrow> addr \<Rightarrow> u32 \<Rightarrow> nat \<Rightarrow> bool \<Rightarrow> kfs \<Rightarrow> (int \<times> kfs) option" where
  "sfs_rwblock_loop sfs buf blkno 0 wr s = Some (0, s)"
| "sfs_rwblock_loop sfs buf blkno (Suc nblks) wr s = do {
     (ret, s) \<leftarrow> sfs_rwblock_nolock sfs buf blkno wr True s;
     if ret \<noteq> 0 then Some (ret, s)
     else sfs_rwblock_loop sfs (buf + SFS_BLKSIZE) (blkno + 1) nblks wr s
   }"

definition sfs_rwblock :: "addr \<Rightarrow> addr \<Rightarrow> u32 \<Rightarrow> u32 \<Rightarrow> bool \<Rightarrow> kfs \<Rightarrow> (int \<times> kfs) option" where
  "sfs_rwblock sfs buf blkno nblks wr s = do {
     s \<leftarrow> lock_sfs_io sfs s;
     (ret, s) \<leftarrow> sfs_rwblock_loop sfs buf blkno (unat nblks) wr s;
     Some (ret, unlock_sfs_io sfs s)
   }"

definition sfs_rblock :: "addr \<Rightarrow> addr \<Rightarrow> u32 \<Rightarrow> u32 \<Rightarrow> kfs \<Rightarrow> (int \<times> kfs) option" where
  "sfs_rblock sfs buf blkno nblks s = sfs_rwblock sfs buf blkno nblks False s"

definition sfs_wblock :: "addr \<Rightarrow> addr \<Rightarrow> u32 \<Rightarrow> u32 \<Rightarrow> kfs \<Rightarrow> (int \<times> kfs) option" where
  "sfs_wblock sfs buf blkno nblks s = sfs_rwblock sfs buf blkno nblks True s"

definition sfs_rbuf :: "addr \<Rightarrow> addr \<Rightarrow> nat \<Rightarrow> u32 \<Rightarrow> nat \<Rightarrow> kfs \<Rightarrow> (int \<times> kfs) option" where
  "sfs_rbuf sfs buf len blkno offset s = do {
     ensure (offset < SFS_BLKSIZE \<and> offset + len \<le> SFS_BLKSIZE);
     s \<leftarrow> lock_sfs_io sfs s;
     f \<leftarrow> fss s sfs;
     (ret, s) \<leftarrow> sfs_rwblock_nolock sfs (sfs_buffer f) blkno False True s;
     let s = (if ret = 0 then s\<lparr>kmem := memcpy buf (sfs_buffer f + offset) len (kmem s)\<rparr> else s);
     Some (ret, unlock_sfs_io sfs s)
   }"

definition sfs_wbuf :: "addr \<Rightarrow> addr \<Rightarrow> nat \<Rightarrow> u32 \<Rightarrow> nat \<Rightarrow> kfs \<Rightarrow> (int \<times> kfs) option" where
  "sfs_wbuf sfs buf len blkno offset s = do {
     ensure (offset < SFS_BLKSIZE \<and> offset + len \<le> SFS_BLKSIZE);
     s \<leftarrow> lock_sfs_io sfs s;
     f \<leftarrow> fss s sfs;
     (ret, s) \<leftarrow> sfs_rwblock_nolock sfs (sfs_buffer f) blkno False True s;
     (ret, s) \<leftarrow>
       (if ret = 0 then
          sfs_rwblock_nolock sfs (sfs_buffer f) blkno True True
            (s\<lparr>kmem := memcpy (sfs_buffer f + offset) buf len (kmem s)\<rparr>)
        else Some (ret, s));
     Some (ret, unlock_sfs_io sfs s)
   }"

definition sfs_sync_super :: "addr \<Rightarrow> kfs \<Rightarrow> (int \<times> kfs) option" where
  "sfs_sync_super sfs s = do {
     s \<leftarrow> lock_sfs_io sfs s;
     f \<leftarrow> fss s sfs;
     let s = s\<lparr>kmem := memset (sfs_buffer f) 0 SFS_BLKSIZE (kmem s)\<rparr>;
     let s = s\<lparr>kmem := store_bytes (sfs_buffer f) (super_bytes (super f)) (kmem s)\<rparr>;
     (ret, s) \<leftarrow> sfs_rwblock_nolock sfs (sfs_buffer f) SFS_BLKN_SUPER True False s;
     Some (ret, unlock_sfs_io sfs s)
   }"

definition sfs_freemap_blocks :: "sfs_super \<Rightarrow> u32" where
  "sfs_freemap_blocks p = of_nat (ROUNDUP_DIV (unat (sblocks p)) SFS_BLKBITS)"

definition sfs_freemap_bits :: "sfs_super \<Rightarrow> u32" where
  "sfs_freemap_bits p = of_nat (ROUNDUP (unat (sblocks p)) SFS_BLKBITS)"

definition sfs_sync_freemap :: "addr \<Rightarrow> kfs \<Rightarrow> (int \<times> kfs) option" where
  "sfs_sync_freemap sfs s = do {
     f \<leftarrow> fss s sfs;
     let nblks = sfs_freemap_blocks (super f);
     let s = s\<lparr>kmem := store_bytes (locals s) (words_bytes (wordmap (freemap f))) (kmem s)\<rparr>;
     sfs_wblock sfs (locals s) SFS_BLKN_FREEMAP nblks s
   }"

text \<open>
  \<^verbatim>\<open>sfs_clear_block\<close>: \<^verbatim>\<open>ret\<close> has no value before the first write, so a call with no block to
  clear returns an indeterminate value; that is \<^term>\<open>None\<close> here.
\<close>

fun sfs_clear_loop :: "addr \<Rightarrow> addr \<Rightarrow> u32 \<Rightarrow> nat \<Rightarrow> int option \<Rightarrow> kfs \<Rightarrow> (int \<times> kfs) option" where
  "sfs_clear_loop sfs buf blkno 0 ret s = do { ret \<leftarrow> ret; Some (ret, s) }"
| "sfs_clear_loop sfs buf blkno (Suc nblks) ret s = do {
     (ret, s) \<leftarrow> sfs_rwblock_nolock sfs buf blkno True True s;
     if ret \<noteq> 0 then Some (ret, s) else sfs_clear_loop sfs buf (blkno + 1) nblks (Some ret) s
   }"

definition sfs_clear_block :: "addr \<Rightarrow> u32 \<Rightarrow> u32 \<Rightarrow> kfs \<Rightarrow> (int \<times> kfs) option" where
  "sfs_clear_block sfs blkno nblks s = do {
     s \<leftarrow> lock_sfs_io sfs s;
     f \<leftarrow> fss s sfs;
     let s = s\<lparr>kmem := memset (sfs_buffer f) 0 SFS_BLKSIZE (kmem s)\<rparr>;
     (ret, s) \<leftarrow> sfs_clear_loop sfs (sfs_buffer f) blkno (unat nblks) None s;
     Some (ret, unlock_sfs_io sfs s)
   }"

section \<open>The disk as blocks\<close>

definition blk :: "kfs \<Rightarrow> nat \<Rightarrow> u8 list" where
  "blk s b = bytes_at (kmem s) (disk_base s + b * SFS_BLKSIZE) SFS_BLKSIZE"

text \<open>
  The file system at \<open>a\<close> lies on the disk: its device is the disk, it has no more blocks than
  the disk, and its buffer overlaps neither the disk nor the bounce buffer.
\<close>

definition fs_dev_ok :: "addr \<Rightarrow> kfs \<Rightarrow> bool" where
  "fs_dev_ok a s \<longleftrightarrow> disk_ok s \<and> disk0_sem s > 0 \<and>
     (case fss s a of None \<Rightarrow> False
      | Some f \<Rightarrow> unat (sblocks (super f)) \<le> disk_blocks s \<and> buf_ok s (sfs_buffer f) SFS_BLKSIZE \<and>
          (case vop_dev (sdev f) s of None \<Rightarrow> False
           | Some dev \<Rightarrow> d_ops dev = Disk0Ops \<and> d_blocks dev = disk_blocks s))"

text \<open>Memory that I/O of the file system may use: the two buffers and the disk.\<close>

definition io_area :: "kfs \<Rightarrow> addr \<Rightarrow> addr set" where
  "io_area s sb = {disk0_buffer s..<disk0_buffer s + DISK0_BUFSIZE} \<union> {sb..<sb + SFS_BLKSIZE} \<union>
     {disk_base s..<disk_base s + disk_blocks s * SFS_BLKSIZE}"

lemma fs_dev_ok_kmem [simp]: "fs_dev_ok a (s\<lparr>kmem := m\<rparr>) = fs_dev_ok a s"
  by (simp add: fs_dev_ok_def disk_ok_def disk_blocks_def disk_base_def VALID_IDE_def buf_ok_def
      ide_device_size_def ide_device_valid_def vop_dev_def cong: option.case_cong)

lemma fs_dev_ok_io_sem [simp]: "fs_dev_ok a (upd_fs a (io_sem_update g) s) = fs_dev_ok a s"
  by (auto simp: fs_dev_ok_def disk_ok_def disk_blocks_def disk_base_def VALID_IDE_def buf_ok_def
      ide_device_size_def ide_device_valid_def vop_dev_def upd_fs_def split: option.splits)

lemma upd_fs_simps [simp]:
  "kmem (upd_fs a g s) = kmem s" "disk_base (upd_fs a g s) = disk_base s"
  "disk_blocks (upd_fs a g s) = disk_blocks s" "disk0_buffer (upd_fs a g s) = disk0_buffer s"
  "fss (upd_fs a g s) a = map_option g (fss s a)" "inodes (upd_fs a g s) = inodes s"
  "locals (upd_fs a g s) = locals s" "heap (upd_fs a g s) = heap s"
  "disk0_sem (upd_fs a g s) = disk0_sem s" "vop_dev n (upd_fs a g s) = vop_dev n s"
  "vop_sin n (upd_fs a g s) = vop_sin n s"
  by (simp_all add: upd_fs_def disk_base_def disk_blocks_def VALID_IDE_def ide_device_size_def
      ide_device_valid_def vop_dev_def vop_sin_def)

lemma disk_kmem [simp]:
  "disk_base (s\<lparr>kmem := m\<rparr>) = disk_base s" "disk_blocks (s\<lparr>kmem := m\<rparr>) = disk_blocks s"
  "buf_ok (s\<lparr>kmem := m\<rparr>) p n = buf_ok s p n" "vop_dev n (s\<lparr>kmem := m\<rparr>) = vop_dev n s"
  "vop_sin n (s\<lparr>kmem := m\<rparr>) = vop_sin n s"
  by (simp_all add: disk_base_def disk_blocks_def VALID_IDE_def ide_device_size_def
      ide_device_valid_def buf_ok_def vop_dev_def vop_sin_def)

lemma lock_sfs_io_Some:
  "fss s a = Some f \<Longrightarrow> io_sem f > 0 \<Longrightarrow>
    lock_sfs_io a s = Some (upd_fs a (io_sem_update (\<lambda>_. io_sem f - 1)) s)"
  by (simp add: lock_sfs_io_def)

text \<open>Taking and releasing the lock around a transfer leaves only the change to the memory.\<close>

lemma unlock_after:
  assumes "fss s a = Some f"
  shows "unlock_sfs_io a ((upd_fs a (io_sem_update (\<lambda>_. io_sem f - 1)) s)\<lparr>kmem := m\<rparr>) = s\<lparr>kmem := m\<rparr>"
proof -
  have "(fss s)(a \<mapsto> f) = fss s" using assms by (simp add: fun_upd_idem)
  then show ?thesis using assms by (simp add: unlock_sfs_io_def upd_fs_def o_def)
qed

lemma sfs_rwblock_nolock_spec:
  assumes ok: "fs_dev_ok a s" and f: "fss s a = Some f"
    and b: "unat blkno < unat (sblocks (super f))" "check \<longrightarrow> blkno \<noteq> 0" and buf: "buf_ok s p SFS_BLKSIZE"
  shows "\<exists>m. sfs_rwblock_nolock a p blkno wr check s = Some (0, s\<lparr>kmem := m\<rparr>) \<and>
    (if wr then blocks_written s (unat blkno) 1 p (s\<lparr>kmem := m\<rparr>)
     else blocks_read s (unat blkno) 1 p (s\<lparr>kmem := m\<rparr>))"
proof -
  obtain dev where d: "vop_dev (sdev f) s = Some dev" "d_ops dev = Disk0Ops" "d_blocks dev = disk_blocks s"
    and o: "disk_ok s" "disk0_sem s > 0" "unat (sblocks (super f)) \<le> disk_blocks s"
    using ok f by (auto simp: fs_dev_ok_def split: option.splits)
  have le: "unat blkno + 1 \<le> disk_blocks s" using b o(3) by simp
  then have "unat blkno < 2 ^ 20" using o(1) by (simp add: disk_ok_def)
  then have "unat (blkno * 4096) = unat blkno * 4096" by (simp add: unat_word_ariths)
  moreover have "uint (blkno * 4096) = int (unat (blkno * 4096))" by simp
  ultimately have u: "uint (blkno * 4096) = int (unat blkno * 4096)" by simp
  let ?iob = "iobuf_init p SFS_BLKSIZE (uint (blkno * 4096))"
  have i: "io_offset ?iob = int (unat blkno * 4096)" "io_resid ?iob = 1 * 4096" "io_base ?iob = p"
    by (simp_all add: iobuf_init_def u)
  have bi: "buf_ok s (io_base ?iob) (1 * 4096)" using buf i(3) by simp
  from disk0_io_spec [OF o(1,2) d(3) i(1,2) le bi, of wr] obtain t
    where t: "disk0_io dev ?iob wr s = Some (0, advance (1 * 4096) ?iob, t)" "devs_same s t"
      "if wr then blocks_written s (unat blkno) 1 p t else blocks_read s (unat blkno) 1 p t"
    unfolding i(3) by blast
  have e: "s\<lparr>kmem := kmem t\<rparr> = t" using t(2) by (simp add: devs_same_def)
  have "sfs_rwblock_nolock a p blkno wr check s = Some (0, t)"
    using f b d(1,2) t(1) by (auto simp: sfs_rwblock_nolock_def dop_io_def Let_def word_less_nat_alt)
  with t(3) e show ?thesis by (intro exI [of _ "kmem t"]) (simp only: simp_thms)
qed

section \<open>What the operations do to the blocks\<close>

lemma blk_length [simp]: "length (blk s b) = SFS_BLKSIZE"
  by (simp add: blk_def)

lemma blk_nth: "i < SFS_BLKSIZE \<Longrightarrow> blk s b ! i = kmem s (disk_base s + b * SFS_BLKSIZE + i)"
  by (simp add: blk_def)

lemma block_range: "(b :: nat) < n \<Longrightarrow> i < 4096 \<Longrightarrow> b * 4096 + i < n * 4096"
proof -
  assume "b < n" and i: "i < 4096"
  then have "Suc b * 4096 \<le> n * 4096" by (intro mult_le_mono1) simp
  then show ?thesis using i by simp
qed

lemma block_apart: "b \<noteq> b' \<Longrightarrow> i < 4096 \<Longrightarrow> \<not> (b * 4096 \<le> b' * 4096 + i \<and> b' * 4096 + i < b * 4096 + (4096::nat))"
proof -
  assume ne: "b \<noteq> b'" and i: "i < 4096"
  show ?thesis
  proof (cases "b < b'")
    case True
    then have "Suc b * 4096 \<le> b' * 4096" by (intro mult_le_mono1) simp
    then show ?thesis by simp
  next
    case False
    then have "Suc b' * 4096 \<le> b * 4096" using ne by (intro mult_le_mono1) simp
    then show ?thesis using i by simp
  qed
qed

text \<open>\<open>on_disk a s m\<close>: the blocks of the disk with memory \<open>m\<close>.\<close>

abbreviation blk_of :: "kfs \<Rightarrow> mem \<Rightarrow> nat \<Rightarrow> u8 list" where
  "blk_of s m b \<equiv> blk (s\<lparr>kmem := m\<rparr>) b"

definition quiet :: "kfs \<Rightarrow> addr \<Rightarrow> mem \<Rightarrow> bool" where
  "quiet s sb m \<longleftrightarrow> (\<forall>x. x \<notin> io_area s sb \<longrightarrow> m x = kmem s x)"

lemma disk_not_bounce:
  assumes "disk_ok s" and "b < disk_blocks s" and "i < 4096"
  shows "\<not> (disk0_buffer s \<le> disk_base s + (b * 4096 + i) \<and>
    disk_base s + (b * 4096 + i) < disk0_buffer s + DISK0_BUFSIZE)"
  using block_range [OF assms(2,3)] assms(1) by (auto simp: disk_ok_def disjoint_def)

lemma blocks_written_blk:
  assumes ok: "disk_ok s" and b: "b < disk_blocks s" and w: "blocks_written s b 1 p (s\<lparr>kmem := m\<rparr>)"
  shows "blk_of s m b = bytes_at (kmem s) p SFS_BLKSIZE"
    and "b' < disk_blocks s \<Longrightarrow> b' \<noteq> b \<Longrightarrow> blk_of s m b' = blk s b'"
    and "x \<notin> {disk0_buffer s..<disk0_buffer s + DISK0_BUFSIZE} \<Longrightarrow>
      x \<notin> {disk_base s..<disk_base s + disk_blocks s * SFS_BLKSIZE} \<Longrightarrow> m x = kmem s x"
proof -
  have W: "m x = (if disk_base s + b * 4096 \<le> x \<and> x < disk_base s + b * 4096 + 4096
      then kmem s (p + (x - (disk_base s + b * 4096))) else kmem s x)"
    if "\<not> (disk0_buffer s \<le> x \<and> x < disk0_buffer s + DISK0_BUFSIZE)" for x
    using w that by (simp add: blocks_written_def)
  show "blk_of s m b = bytes_at (kmem s) p SFS_BLKSIZE"
  proof (rule nth_equalityI)
    fix i
    assume "i < length (blk_of s m b)"
    then have i: "i < 4096" by simp
    show "blk_of s m b ! i = bytes_at (kmem s) p SFS_BLKSIZE ! i"
      using W [OF disk_not_bounce [OF ok b i]] i by (simp add: blk_nth add.assoc)
  qed simp
  show "blk_of s m b' = blk s b'" if "b' < disk_blocks s" "b' \<noteq> b"
  proof (rule nth_equalityI)
    fix i
    assume "i < length (blk_of s m b')"
    then have i: "i < 4096" by simp
    have "\<not> (b * 4096 \<le> b' * 4096 + i \<and> b' * 4096 + i < b * 4096 + 4096)"
      using block_apart [of b b' i] that i by blast
    then show "blk_of s m b' ! i = blk s b' ! i"
      using W [OF disk_not_bounce [OF ok that(1) i]] i by (auto simp: blk_nth add.assoc)
  qed simp
  show "m x = kmem s x" if "x \<notin> {disk0_buffer s..<disk0_buffer s + DISK0_BUFSIZE}"
    "x \<notin> {disk_base s..<disk_base s + disk_blocks s * SFS_BLKSIZE}"
  proof -
    have "\<not> (disk_base s + b * 4096 \<le> x \<and> x < disk_base s + b * 4096 + 4096)"
    proof
      assume x: "disk_base s + b * 4096 \<le> x \<and> x < disk_base s + b * 4096 + 4096"
      then have "b * 4096 + (x - (disk_base s + b * 4096)) < disk_blocks s * 4096"
        by (intro block_range [OF b]) linarith
      then show False using that(2) x by auto
    qed
    then show ?thesis using W [of x] that(1) by auto
  qed
qed

lemma blocks_read_blk:
  assumes ok: "disk_ok s" and b: "b < disk_blocks s" and r: "blocks_read s b 1 p (s\<lparr>kmem := m\<rparr>)"
    and p: "buf_ok s p SFS_BLKSIZE"
  shows "bytes_at m p SFS_BLKSIZE = blk s b"
    and "b' < disk_blocks s \<Longrightarrow> blk_of s m b' = blk s b'"
    and "x \<notin> {disk0_buffer s..<disk0_buffer s + DISK0_BUFSIZE} \<Longrightarrow> x \<notin> {p..<p + SFS_BLKSIZE} \<Longrightarrow>
      m x = kmem s x"
proof -
  have R: "m x = (if p \<le> x \<and> x < p + 4096 then kmem s (disk_base s + b * 4096 + (x - p)) else kmem s x)"
    if "\<not> (disk0_buffer s \<le> x \<and> x < disk0_buffer s + DISK0_BUFSIZE)" for x
    using r that by (simp add: blocks_read_def)
  show "bytes_at m p SFS_BLKSIZE = blk s b"
  proof (rule nth_equalityI)
    fix i
    assume "i < length (bytes_at m p SFS_BLKSIZE)"
    then have i: "i < 4096" by simp
    have "\<not> (disk0_buffer s \<le> p + i \<and> p + i < disk0_buffer s + DISK0_BUFSIZE)"
      using p i by (auto simp: buf_ok_def disjoint_def)
    from R [OF this] i show "bytes_at m p SFS_BLKSIZE ! i = blk s b ! i" by (simp add: blk_nth)
  qed simp
  show "blk_of s m b' = blk s b'" if b': "b' < disk_blocks s"
  proof (rule nth_equalityI)
    fix i
    assume "i < length (blk_of s m b')"
    then have i: "i < 4096" by simp
    have "\<not> (p \<le> disk_base s + (b' * 4096 + i) \<and> disk_base s + (b' * 4096 + i) < p + 4096)"
      using block_range [OF b' i] p by (auto simp: buf_ok_def disjoint_def)
    then have "m (disk_base s + (b' * 4096 + i)) = kmem s (disk_base s + (b' * 4096 + i))"
      by (rule trans [OF R [OF disk_not_bounce [OF ok b' i]] if_not_P])
    then show "blk_of s m b' ! i = blk s b' ! i" using i by (simp add: blk_nth add.assoc)
  qed simp
  show "m x = kmem s x" if "x \<notin> {disk0_buffer s..<disk0_buffer s + DISK0_BUFSIZE}" "x \<notin> {p..<p + SFS_BLKSIZE}"
    using R [of x] that by auto
qed

text \<open>The state while the I/O lock is held.\<close>

definition io_locked :: "addr \<Rightarrow> sfs_fs \<Rightarrow> kfs \<Rightarrow> kfs" where
  "io_locked a f s = upd_fs a (io_sem_update (\<lambda>_. io_sem f - 1)) s"

lemma io_locked_simps [simp]:
  "kmem (io_locked a f s) = kmem s" "fss (io_locked a f s) a = map_option (io_sem_update (\<lambda>_. io_sem f - 1)) (fss s a)"
  by (simp_all add: io_locked_def)

lemma io_locked_id [simp]: "(io_locked a f s)\<lparr>kmem := kmem s\<rparr> = io_locked a f s"
proof -
  have "(io_locked a f s)\<lparr>kmem := kmem (io_locked a f s)\<rparr> = io_locked a f s" by simp
  then show ?thesis by simp
qed

lemma locked_transfer:
  assumes ok: "fs_dev_ok a s" and f: "fss s a = Some f"
    and b: "unat blkno < unat (sblocks (super f))" "check \<longrightarrow> blkno \<noteq> 0" and buf: "buf_ok s p SFS_BLKSIZE"
  shows "\<exists>m. sfs_rwblock_nolock a p blkno wr check ((io_locked a f s)\<lparr>kmem := m0\<rparr>) =
      Some (0, (io_locked a f s)\<lparr>kmem := m\<rparr>) \<and>
    (if wr then blocks_written (s\<lparr>kmem := m0\<rparr>) (unat blkno) 1 p (s\<lparr>kmem := m\<rparr>)
     else blocks_read (s\<lparr>kmem := m0\<rparr>) (unat blkno) 1 p (s\<lparr>kmem := m\<rparr>))"
proof -
  let ?L = "(io_locked a f s)\<lparr>kmem := m0\<rparr>"
  have bb: "buf_ok ?L p SFS_BLKSIZE" using buf by (simp add: buf_ok_def io_locked_def)
  have fl: "fss ?L a = Some (f\<lparr>io_sem := io_sem f - 1\<rparr>)" using f by simp
  have bl: "unat blkno < unat (sblocks (super (f\<lparr>io_sem := io_sem f - 1\<rparr>)))" using b(1) by simp
  have "fs_dev_ok a ?L" using ok by (simp add: io_locked_def)
  from sfs_rwblock_nolock_spec [OF this fl bl b(2) bb, of wr] obtain m
    where m: "sfs_rwblock_nolock a p blkno wr check ?L = Some (0, ?L\<lparr>kmem := m\<rparr>)"
      "if wr then blocks_written ?L (unat blkno) 1 p (?L\<lparr>kmem := m\<rparr>)
       else blocks_read ?L (unat blkno) 1 p (?L\<lparr>kmem := m\<rparr>)" by blast
  from m(2) have "if wr then blocks_written (s\<lparr>kmem := m0\<rparr>) (unat blkno) 1 p (s\<lparr>kmem := m\<rparr>)
     else blocks_read (s\<lparr>kmem := m0\<rparr>) (unat blkno) 1 p (s\<lparr>kmem := m\<rparr>)"
    by (cases wr) (simp_all add: blocks_written_def blocks_read_def io_locked_def cong: if_cong)
  with m(1) show ?thesis by (intro exI [of _ m]) simp
qed

lemma fs_dev_okD:
  assumes "fs_dev_ok a s" and "fss s a = Some f"
  shows "disk_ok s" and "unat (sblocks (super f)) \<le> disk_blocks s" and "buf_ok s (sfs_buffer f) SFS_BLKSIZE"
  using assms by (auto simp: fs_dev_ok_def)

lemma disk_ok_kmem [simp]: "disk_ok (s\<lparr>kmem := m\<rparr>) = disk_ok s"
  by (simp add: disk_ok_def VALID_IDE_def)

lemma blk_upd: "(\<And>i. i < 4096 \<Longrightarrow> m (disk_base s + (b * 4096 + i)) = m' (disk_base s + (b * 4096 + i))) \<Longrightarrow>
    blk_of s m b = blk_of s m' b"
  by (rule nth_equalityI) (auto simp: blk_nth add.assoc)

lemma disk_in_area: "b < disk_blocks s \<Longrightarrow> i < 4096 \<Longrightarrow> disk_base s + (b * 4096 + i) \<in> io_area s sb"
  using block_range [of b "disk_blocks s" i] by (auto simp: io_area_def)

text \<open>\<^verbatim>\<open>sfs_rbuf\<close> reads a part of a block.\<close>

lemma sfs_rbuf_spec:
  assumes ok: "fs_dev_ok a s" and f: "fss s a = Some f" and sem: "io_sem f > 0"
    and b: "blkno \<noteq> 0" "unat blkno < unat (sblocks (super f))"
    and off: "off < SFS_BLKSIZE" "off + len \<le> SFS_BLKSIZE"
    and buf: "{buf..<buf + len} \<inter> io_area s (sfs_buffer f) = {}"
  shows "\<exists>m. sfs_rbuf a buf len blkno off s = Some (0, s\<lparr>kmem := m\<rparr>) \<and>
    bytes_at m buf len = take len (drop off (blk s (unat blkno))) \<and>
    (\<forall>b'<disk_blocks s. blk_of s m b' = blk s b') \<and>
    (\<forall>x. x \<notin> io_area s (sfs_buffer f) \<longrightarrow> x \<notin> {buf..<buf + len} \<longrightarrow> m x = kmem s x)"
proof -
  note D = fs_dev_okD [OF ok f]
  let ?sb = "sfs_buffer f"
  have bl: "unat blkno < disk_blocks s" using b(2) D(2) by simp
  have chk: "True \<longrightarrow> blkno \<noteq> 0" using b(1) by simp
  from locked_transfer [OF ok f b(2) chk D(3), of False "kmem s"] obtain m
    where m: "sfs_rwblock_nolock a ?sb blkno False True (io_locked a f s) = Some (0, (io_locked a f s)\<lparr>kmem := m\<rparr>)"
      "blocks_read s (unat blkno) 1 ?sb (s\<lparr>kmem := m\<rparr>)"
    by auto
  note R = blocks_read_blk [OF D(1) bl m(2) D(3)]
  let ?m = "memcpy buf (?sb + off) len m"
  have ap: "x \<notin> {buf..<buf + len}" if "x \<in> io_area s ?sb" for x using buf that by blast
  have nov: "\<not> (?sb + off < buf \<and> buf < ?sb + off + len)"
    using ap [of "buf"] off by (auto simp: io_area_def)
  have cp: "?m x = (if buf \<le> x \<and> x < buf + len then m (?sb + off + (x - buf)) else m x)" for x
    using memcpy_spec [OF nov] by simp
  have "sfs_rbuf a buf len blkno off s = Some (0, s\<lparr>kmem := ?m\<rparr>)"
    using off sem f m(1) lock_sfs_io_Some [OF f sem] unlock_after [OF f]
    by (simp add: sfs_rbuf_def Let_def flip: io_locked_def)
  moreover have "bytes_at ?m buf len = take len (drop off (blk s (unat blkno)))"
  proof (rule nth_equalityI)
    fix i
    assume "i < length (bytes_at ?m buf len)"
    then have i: "i < len" by simp
    have "bytes_at m ?sb SFS_BLKSIZE ! (off + i) = blk s (unat blkno) ! (off + i)" by (simp only: R(1))
    then show "bytes_at ?m buf len ! i = take len (drop off (blk s (unat blkno))) ! i"
      using i off cp by (simp add: add.assoc)
  qed (use off in simp)
  moreover have "blk_of s ?m b' = blk s b'" if "b' < disk_blocks s" for b'
  proof -
    have "blk_of s ?m b' = blk_of s m b'"
      using ap [OF disk_in_area [OF that]] cp by (intro blk_upd) auto
    with R(2) [OF that] show ?thesis by simp
  qed
  moreover have "?m x = kmem s x" if "x \<notin> io_area s ?sb" "x \<notin> {buf..<buf + len}" for x
    using that R(3) [of x] cp [of x] by (auto simp: io_area_def)
  ultimately show ?thesis by blast
qed

text \<open>\<^verbatim>\<open>sfs_wbuf\<close> overwrites a part of a block and leaves every other block alone.\<close>

lemma sfs_wbuf_spec:
  assumes ok: "fs_dev_ok a s" and f: "fss s a = Some f" and sem: "io_sem f > 0"
    and b: "blkno \<noteq> 0" "unat blkno < unat (sblocks (super f))"
    and off: "off < SFS_BLKSIZE" "off + len \<le> SFS_BLKSIZE"
    and buf: "{buf..<buf + len} \<inter> io_area s (sfs_buffer f) = {}"
  shows "\<exists>m. sfs_wbuf a buf len blkno off s = Some (0, s\<lparr>kmem := m\<rparr>) \<and>
    blk_of s m (unat blkno) = take off (blk s (unat blkno)) @ bytes_at (kmem s) buf len @
      drop (off + len) (blk s (unat blkno)) \<and>
    (\<forall>b'<disk_blocks s. b' \<noteq> unat blkno \<longrightarrow> blk_of s m b' = blk s b') \<and> quiet s (sfs_buffer f) m"
proof -
  note D = fs_dev_okD [OF ok f]
  let ?sb = "sfs_buffer f" and ?b = "unat blkno"
  have bl: "?b < disk_blocks s" using b(2) D(2) by simp
  have chk: "True \<longrightarrow> blkno \<noteq> 0" using b(1) by simp
  from locked_transfer [OF ok f b(2) chk D(3), of False "kmem s"] obtain m
    where m: "sfs_rwblock_nolock a ?sb blkno False True (io_locked a f s) = Some (0, (io_locked a f s)\<lparr>kmem := m\<rparr>)"
      "blocks_read s ?b 1 ?sb (s\<lparr>kmem := m\<rparr>)"
    by auto
  note R = blocks_read_blk [OF D(1) bl m(2) D(3)]
  let ?m1 = "memcpy (?sb + off) buf len m"
  have ap: "x \<notin> {buf..<buf + len}" if "x \<in> io_area s ?sb" for x using buf that by blast
  have nov: "\<not> (buf < ?sb + off \<and> ?sb + off < buf + len)"
    using ap [of "?sb + off"] off by (auto simp: io_area_def)
  have cp: "?m1 x = (if ?sb + off \<le> x \<and> x < ?sb + off + len then m (buf + (x - (?sb + off))) else m x)" for x
    using memcpy_spec [OF nov] by simp
  from locked_transfer [OF ok f b(2) chk D(3), of True ?m1] obtain m2
    where m2: "sfs_rwblock_nolock a ?sb blkno True True ((io_locked a f s)\<lparr>kmem := ?m1\<rparr>) =
        Some (0, (io_locked a f s)\<lparr>kmem := m2\<rparr>)"
      "blocks_written (s\<lparr>kmem := ?m1\<rparr>) ?b 1 ?sb (s\<lparr>kmem := m2\<rparr>)" by auto
  have W: "blk_of s m2 ?b = bytes_at ?m1 ?sb SFS_BLKSIZE"
    "\<And>b'. b' < disk_blocks s \<Longrightarrow> b' \<noteq> ?b \<Longrightarrow> blk_of s m2 b' = blk_of s ?m1 b'"
    "\<And>x. x \<notin> {disk0_buffer s..<disk0_buffer s + DISK0_BUFSIZE} \<Longrightarrow>
      x \<notin> {disk_base s..<disk_base s + disk_blocks s * SFS_BLKSIZE} \<Longrightarrow> m2 x = ?m1 x"
    using blocks_written_blk [of "s\<lparr>kmem := ?m1\<rparr>" ?b ?sb m2] D(1) bl m2(2) by simp_all
  have far: "\<not> (?sb \<le> disk_base s + (b' * 4096 + i) \<and> disk_base s + (b' * 4096 + i) < ?sb + 4096)"
    if "b' < disk_blocks s" "i < 4096" for b' i
    using block_range [OF that] D(3) by (auto simp: buf_ok_def disjoint_def)
  have "sfs_wbuf a buf len blkno off s = Some (0, s\<lparr>kmem := m2\<rparr>)"
    using off sem f m(1) m2(1) lock_sfs_io_Some [OF f sem] unlock_after [OF f]
    by (simp add: sfs_wbuf_def Let_def flip: io_locked_def)
  moreover have "blk_of s m2 ?b = take off (blk s ?b) @ bytes_at (kmem s) buf len @ drop (off + len) (blk s ?b)"
  proof (rule nth_equalityI)
    show "length (blk_of s m2 ?b) = length (take off (blk s ?b) @ bytes_at (kmem s) buf len @ drop (off + len) (blk s ?b))"
      using off by simp
    fix i
    assume "i < length (blk_of s m2 ?b)"
    then have i: "i < 4096" by simp
    have bi: "m (?sb + i) = blk s ?b ! i"
    proof -
      have "bytes_at m ?sb SFS_BLKSIZE ! i = blk s ?b ! i" by (simp only: R(1))
      then show ?thesis using i by simp
    qed
    have "m (buf + (i - off)) = kmem s (buf + (i - off))" if "off \<le> i" "i < off + len"
    proof -
      have "buf + (i - off) \<in> {buf..<buf + len}" using that by auto
      then have "buf + (i - off) \<notin> io_area s ?sb" using ap by blast
      then show ?thesis by (intro R(3)) (auto simp: io_area_def)
    qed
    then show "blk_of s m2 ?b ! i =
        (take off (blk s ?b) @ bytes_at (kmem s) buf len @ drop (off + len) (blk s ?b)) ! i"
      using i off bi cp [of "?sb + i"] by (auto simp: W(1) nth_append)
  qed
  moreover have "blk_of s m2 b' = blk s b'" if b': "b' < disk_blocks s" "b' \<noteq> ?b" for b'
  proof -
    have "blk_of s ?m1 b' = blk_of s m b'"
    proof (rule blk_upd)
      fix i
      assume i: "i < (4096 :: nat)"
      have "\<not> (?sb + off \<le> disk_base s + (b' * 4096 + i) \<and> disk_base s + (b' * 4096 + i) < ?sb + off + len)"
        using far [OF b'(1) i] off by linarith
      then show "?m1 (disk_base s + (b' * 4096 + i)) = m (disk_base s + (b' * 4096 + i))"
        by (rule trans [OF cp if_not_P])
    qed
    with W(2) [OF b'] R(2) [OF b'(1)] show ?thesis by simp
  qed
  moreover have "quiet s ?sb m2"
    unfolding quiet_def
  proof (intro allI impI)
    fix x
    assume x: "x \<notin> io_area s ?sb"
    then have "m2 x = ?m1 x" by (intro W(3)) (auto simp: io_area_def)
    also have "\<dots> = m x" using x off cp [of x] by (auto simp: io_area_def)
    also have "\<dots> = kmem s x" using x by (intro R(3)) (auto simp: io_area_def)
    finally show "m2 x = kmem s x" .
  qed
  ultimately show ?thesis by blast
qed

text \<open>Whole blocks, one at a time.\<close>

lemma sfs_rblock_spec:
  assumes ok: "fs_dev_ok a s" and f: "fss s a = Some f" and sem: "io_sem f > 0"
    and b: "blkno \<noteq> 0" "unat blkno < unat (sblocks (super f))" and buf: "buf_ok s p SFS_BLKSIZE"
  shows "\<exists>m. sfs_rblock a p blkno 1 s = Some (0, s\<lparr>kmem := m\<rparr>) \<and>
    bytes_at m p SFS_BLKSIZE = blk s (unat blkno) \<and>
    (\<forall>b'<disk_blocks s. blk_of s m b' = blk s b') \<and>
    (\<forall>x. x \<notin> io_area s (sfs_buffer f) \<longrightarrow> x \<notin> {p..<p + SFS_BLKSIZE} \<longrightarrow> m x = kmem s x)"
proof -
  note D = fs_dev_okD [OF ok f]
  have bl: "unat blkno < disk_blocks s" using b(2) D(2) by simp
  have chk: "True \<longrightarrow> blkno \<noteq> 0" using b(1) by simp
  from locked_transfer [OF ok f b(2) chk buf, of False "kmem s"] obtain m
    where m: "sfs_rwblock_nolock a p blkno False True (io_locked a f s) = Some (0, (io_locked a f s)\<lparr>kmem := m\<rparr>)"
      "blocks_read s (unat blkno) 1 p (s\<lparr>kmem := m\<rparr>)"
    by auto
  note R = blocks_read_blk [OF D(1) bl m(2) buf]
  have "sfs_rblock a p blkno 1 s = Some (0, s\<lparr>kmem := m\<rparr>)"
    using m(1) lock_sfs_io_Some [OF f sem] unlock_after [OF f]
    by (simp add: sfs_rblock_def sfs_rwblock_def Let_def flip: io_locked_def)
  with R show ?thesis by (auto simp: io_area_def)
qed

lemma sfs_wblock_spec:
  assumes ok: "fs_dev_ok a s" and f: "fss s a = Some f" and sem: "io_sem f > 0"
    and b: "blkno \<noteq> 0" "unat blkno < unat (sblocks (super f))" and buf: "buf_ok s p SFS_BLKSIZE"
  shows "\<exists>m. sfs_wblock a p blkno 1 s = Some (0, s\<lparr>kmem := m\<rparr>) \<and>
    blk_of s m (unat blkno) = bytes_at (kmem s) p SFS_BLKSIZE \<and>
    (\<forall>b'<disk_blocks s. b' \<noteq> unat blkno \<longrightarrow> blk_of s m b' = blk s b') \<and> quiet s (sfs_buffer f) m"
proof -
  note D = fs_dev_okD [OF ok f]
  have bl: "unat blkno < disk_blocks s" using b(2) D(2) by simp
  have chk: "True \<longrightarrow> blkno \<noteq> 0" using b(1) by simp
  from locked_transfer [OF ok f b(2) chk buf, of True "kmem s"] obtain m
    where m: "sfs_rwblock_nolock a p blkno True True (io_locked a f s) = Some (0, (io_locked a f s)\<lparr>kmem := m\<rparr>)"
      "blocks_written s (unat blkno) 1 p (s\<lparr>kmem := m\<rparr>)"
    by auto
  note W = blocks_written_blk [OF D(1) bl m(2)]
  have "sfs_wblock a p blkno 1 s = Some (0, s\<lparr>kmem := m\<rparr>)"
    using m(1) lock_sfs_io_Some [OF f sem] unlock_after [OF f]
    by (simp add: sfs_wblock_def sfs_rwblock_def Let_def flip: io_locked_def)
  with W show ?thesis by (auto simp: io_area_def quiet_def)
qed

text \<open>The buffer of the file system, filled by \<open>m0\<close>, is written to one block.\<close>

lemma buffer_write:
  assumes ok: "fs_dev_ok a s" and f: "fss s a = Some f"
    and b: "check \<longrightarrow> blkno \<noteq> 0" "unat blkno < unat (sblocks (super f))"
    and m0: "\<And>x. x \<notin> {sfs_buffer f..<sfs_buffer f + SFS_BLKSIZE} \<Longrightarrow> m0 x = kmem s x"
  shows "\<exists>m. sfs_rwblock_nolock a (sfs_buffer f) blkno True check ((io_locked a f s)\<lparr>kmem := m0\<rparr>) =
      Some (0, (io_locked a f s)\<lparr>kmem := m\<rparr>) \<and>
    blk_of s m (unat blkno) = bytes_at m0 (sfs_buffer f) SFS_BLKSIZE \<and>
    (\<forall>b'<disk_blocks s. b' \<noteq> unat blkno \<longrightarrow> blk_of s m b' = blk s b') \<and> quiet s (sfs_buffer f) m"
proof -
  note D = fs_dev_okD [OF ok f]
  let ?sb = "sfs_buffer f" and ?b = "unat blkno"
  have bl: "?b < disk_blocks s" using b(2) D(2) by simp
  from locked_transfer [OF ok f b(2,1) D(3), of True m0] obtain m
    where m: "sfs_rwblock_nolock a ?sb blkno True check ((io_locked a f s)\<lparr>kmem := m0\<rparr>) =
        Some (0, (io_locked a f s)\<lparr>kmem := m\<rparr>)"
      "blocks_written (s\<lparr>kmem := m0\<rparr>) ?b 1 ?sb (s\<lparr>kmem := m\<rparr>)" by auto
  have W: "blk_of s m ?b = bytes_at m0 ?sb SFS_BLKSIZE"
    "\<And>b'. b' < disk_blocks s \<Longrightarrow> b' \<noteq> ?b \<Longrightarrow> blk_of s m b' = blk_of s m0 b'"
    "\<And>x. x \<notin> {disk0_buffer s..<disk0_buffer s + DISK0_BUFSIZE} \<Longrightarrow>
      x \<notin> {disk_base s..<disk_base s + disk_blocks s * SFS_BLKSIZE} \<Longrightarrow> m x = m0 x"
    using blocks_written_blk [of "s\<lparr>kmem := m0\<rparr>" ?b ?sb m] D(1) bl m(2) by simp_all
  have "blk_of s m0 b' = blk s b'" if "b' < disk_blocks s" for b'
  proof -
    have "blk_of s m0 b' = blk_of s (kmem s) b'"
    proof (rule blk_upd)
      fix i
      assume i: "i < (4096 :: nat)"
      show "m0 (disk_base s + (b' * 4096 + i)) = kmem s (disk_base s + (b' * 4096 + i))"
        using block_range [OF that i] D(3) by (intro m0) (auto simp: buf_ok_def disjoint_def)
    qed
    then show ?thesis by simp
  qed
  moreover have "quiet s ?sb m" using W(3) m0 by (auto simp: quiet_def io_area_def)
  ultimately show ?thesis using m(1) W(1,2) by (intro exI [of _ m]) simp
qed

lemma sfs_clear_block_spec:
  assumes ok: "fs_dev_ok a s" and f: "fss s a = Some f" and sem: "io_sem f > 0"
    and b: "blkno \<noteq> 0" "unat blkno < unat (sblocks (super f))"
  shows "\<exists>m. sfs_clear_block a blkno 1 s = Some (0, s\<lparr>kmem := m\<rparr>) \<and>
    blk_of s m (unat blkno) = replicate SFS_BLKSIZE 0 \<and>
    (\<forall>b'<disk_blocks s. b' \<noteq> unat blkno \<longrightarrow> blk_of s m b' = blk s b') \<and> quiet s (sfs_buffer f) m"
proof -
  let ?m0 = "memset (sfs_buffer f) 0 SFS_BLKSIZE (kmem s)"
  have chk: "True \<longrightarrow> blkno \<noteq> 0" using b(1) by simp
  have "\<And>x. x \<notin> {sfs_buffer f..<sfs_buffer f + SFS_BLKSIZE} \<Longrightarrow> ?m0 x = kmem s x"
    by (auto simp: memset_spec simp del: memset.simps)
  from buffer_write [OF ok f chk b(2) this] obtain m
    where m: "sfs_rwblock_nolock a (sfs_buffer f) blkno True True ((io_locked a f s)\<lparr>kmem := ?m0\<rparr>) =
        Some (0, (io_locked a f s)\<lparr>kmem := m\<rparr>)"
      "blk_of s m (unat blkno) = bytes_at ?m0 (sfs_buffer f) SFS_BLKSIZE"
      "\<forall>b'<disk_blocks s. b' \<noteq> unat blkno \<longrightarrow> blk_of s m b' = blk s b'" "quiet s (sfs_buffer f) m" by blast
  have "bytes_at ?m0 (sfs_buffer f) SFS_BLKSIZE = replicate SFS_BLKSIZE 0"
    by (rule nth_equalityI) (auto simp: memset_spec simp del: memset.simps)
  moreover have "sfs_clear_block a blkno 1 s = Some (0, s\<lparr>kmem := m\<rparr>)"
    using m(1) f lock_sfs_io_Some [OF f sem] unlock_after [OF f]
    by (simp add: sfs_clear_block_def Let_def flip: io_locked_def)
  ultimately show ?thesis using m(2-4) by (intro exI [of _ m]) simp
qed

lemma sfs_sync_super_spec:
  assumes ok: "fs_dev_ok a s" and f: "fss s a = Some f" and sem: "io_sem f > 0"
    and b: "0 < unat (sblocks (super f))" and l: "length (sinfo (super f)) = 32"
  shows "\<exists>m. sfs_sync_super a s = Some (0, s\<lparr>kmem := m\<rparr>) \<and>
    blk_of s m 0 = super_bytes (super f) @ replicate (SFS_BLKSIZE - 44) 0 \<and>
    (\<forall>b'<disk_blocks s. b' \<noteq> 0 \<longrightarrow> blk_of s m b' = blk s b') \<and> quiet s (sfs_buffer f) m"
proof -
  let ?sb = "sfs_buffer f"
  let ?m0 = "store_bytes ?sb (super_bytes (super f)) (memset ?sb 0 SFS_BLKSIZE (kmem s))"
  have len: "length (super_bytes (super f)) = 44" using l by (simp add: super_bytes_def)
  have "\<And>x. x \<notin> {?sb..<?sb + SFS_BLKSIZE} \<Longrightarrow> ?m0 x = kmem s x"
    by (auto simp: memset_spec store_bytes_def len simp del: memset.simps)
  from buffer_write [OF ok f _ _ this, of False 0] b obtain m
    where m: "sfs_rwblock_nolock a ?sb 0 True False ((io_locked a f s)\<lparr>kmem := ?m0\<rparr>) =
        Some (0, (io_locked a f s)\<lparr>kmem := m\<rparr>)"
      "blk_of s m 0 = bytes_at ?m0 ?sb SFS_BLKSIZE"
      "\<forall>b'<disk_blocks s. b' \<noteq> 0 \<longrightarrow> blk_of s m b' = blk s b'" "quiet s ?sb m" by auto
  have "bytes_at ?m0 ?sb SFS_BLKSIZE = super_bytes (super f) @ replicate (SFS_BLKSIZE - 44) 0"
    by (rule nth_equalityI)
       (auto simp: memset_spec store_bytes_def len nth_append simp del: memset.simps)
  moreover have "sfs_sync_super a s = Some (0, s\<lparr>kmem := m\<rparr>)"
    using m(1) f lock_sfs_io_Some [OF f sem] unlock_after [OF f]
    by (simp add: sfs_sync_super_def Let_def SFS_BLKN_SUPER_def io_locked_def del: memset.simps)
  ultimately show ?thesis using m(2-4) by (intro exI [of _ m]) simp
qed

section \<open>Properties\<close>

text \<open>A mounted file system of eight blocks with its buffer at 49152.\<close>

definition demo_sfs :: sfs_fs where
  "demo_sfs =
     \<lparr>super = \<lparr>magic = SFS_MAGIC, sblocks = 8, unused_blocks = 4, sinfo = replicate 32 0\<rparr>, sdev = 5,
      freemap = \<lparr>nbits = 8, nwords = 1, wordmap = [0xf0]\<rparr>, super_dirty = False, sfs_buffer = 49152,
      fs_sem = 1, io_sem = 1, mutex_sem = 1, inode_list = [], hash_list = (\<lambda>_. [])\<rparr>"

definition demo_fs_state :: kfs where
  "demo_fs_state = demo_kfs
     \<lparr>inodes := [5 \<mapsto> \<lparr>info = DeviceInfo demo_disk, ref_count = 1, open_count = 0, in_fs = 0, iops = DevNodeOps\<rparr>],
      fss := [7 \<mapsto> demo_sfs]\<rparr>"

lemma demo_fs_ok [simp]:
  "fs_dev_ok 7 demo_fs_state" "fss demo_fs_state 7 = Some demo_sfs" "io_sem demo_sfs = 1"
  "sblocks (super demo_sfs) = 8" "sfs_buffer demo_sfs = 49152" "kmem demo_fs_state = of_nat"
  "io_area demo_fs_state 49152 = {4096..<20480} \<union> {49152..<53248} \<union> {65536..<98304}"
proof -
  have d: "disk_blocks demo_fs_state = disk_blocks demo_kfs" "disk_base demo_fs_state = disk_base demo_kfs"
    "disk0_buffer demo_fs_state = disk0_buffer demo_kfs" "disk0_sem demo_fs_state = disk0_sem demo_kfs"
    "VALID_IDE DISK0_DEV_NO demo_fs_state = VALID_IDE DISK0_DEV_NO demo_kfs"
    by (simp_all add: demo_fs_state_def disk_blocks_def disk_base_def ide_device_size_def
        ide_device_valid_def VALID_IDE_def)
  then have "disk_ok demo_fs_state = disk_ok demo_kfs" unfolding disk_ok_def by simp
  then have "disk_ok demo_fs_state" by simp
  moreover have "buf_ok demo_fs_state 49152 4096"
    unfolding buf_ok_def d by (simp add: disjoint_def)
  ultimately show "fs_dev_ok 7 demo_fs_state"
    unfolding fs_dev_ok_def d
    by (simp add: demo_fs_state_def demo_sfs_def vop_dev_def demo_disk_def)
  show "io_area demo_fs_state 49152 = {4096..<20480} \<union> {49152..<53248} \<union> {65536..<98304}"
    unfolding io_area_def d by simp
qed (simp_all add: demo_fs_state_def demo_sfs_def)

text \<open>
  \<^verbatim>\<open>sfs_wbuf\<close> writes a part of a block so that \<^verbatim>\<open>sfs_rbuf\<close> reads it back: for any block of
  the file system but block 0, any range inside it and two buffers outside the disk and its
  buffers, both calls return 0, the block is the old block with the range replaced by the
  bytes at \<open>p\<close>, the bytes at \<open>q\<close> afterwards are those at \<open>p\<close>, every other block keeps its
  contents, all other memory is unchanged, and the I/O lock is free again.
\<close>

theorem sfs_wbuf_rbuf:
  assumes ok: "fs_dev_ok a s" and f: "fss s a = Some f" and sem: "io_sem f > 0"
    and b: "blkno \<noteq> 0" "unat blkno < unat (sblocks (super f))"
    and off: "off < SFS_BLKSIZE" "off + len \<le> SFS_BLKSIZE"
    and buf: "({p..<p + len} \<union> {q..<q + len}) \<inter> io_area s (sfs_buffer f) = {}"
  shows "\<exists>t u. sfs_wbuf a p len blkno off s = Some (0, t) \<and> sfs_rbuf a q len blkno off t = Some (0, u) \<and>
    bytes_at (kmem u) q len = bytes_at (kmem s) p len \<and>
    blk u (unat blkno) = take off (blk s (unat blkno)) @ bytes_at (kmem s) p len @ drop (off + len) (blk s (unat blkno)) \<and>
    (\<forall>b'<disk_blocks s. b' \<noteq> unat blkno \<longrightarrow> blk u b' = blk s b') \<and>
    (\<forall>x. x \<notin> io_area s (sfs_buffer f) \<longrightarrow> x \<notin> {q..<q + len} \<longrightarrow> kmem u x = kmem s x) \<and>
    fss u = fss s"
proof -
  have p: "{p..<p + len} \<inter> io_area s (sfs_buffer f) = {}" and q: "{q..<q + len} \<inter> io_area s (sfs_buffer f) = {}"
    using buf by auto
  from sfs_wbuf_spec [OF ok f sem b off p] obtain m
    where m: "sfs_wbuf a p len blkno off s = Some (0, s\<lparr>kmem := m\<rparr>)"
      "blk_of s m (unat blkno) = take off (blk s (unat blkno)) @ bytes_at (kmem s) p len @ drop (off + len) (blk s (unat blkno))"
      "\<forall>b'<disk_blocks s. b' \<noteq> unat blkno \<longrightarrow> blk_of s m b' = blk s b'" "quiet s (sfs_buffer f) m" by blast
  let ?t = "s\<lparr>kmem := m\<rparr>"
  have ar: "io_area ?t x = io_area s x" for x by (simp add: io_area_def)
  have t: "fs_dev_ok a ?t" "fss ?t a = Some f" "{q..<q + len} \<inter> io_area ?t (sfs_buffer f) = {}"
    using ok f q ar by simp_all
  from sfs_rbuf_spec [OF t(1,2) sem b off t(3)] obtain m'
    where m': "sfs_rbuf a q len blkno off ?t = Some (0, ?t\<lparr>kmem := m'\<rparr>)"
      "bytes_at m' q len = take len (drop off (blk ?t (unat blkno)))"
      "\<forall>b'<disk_blocks ?t. blk_of ?t m' b' = blk ?t b'"
      "\<forall>x. x \<notin> io_area ?t (sfs_buffer f) \<longrightarrow> x \<notin> {q..<q + len} \<longrightarrow> m' x = kmem ?t x" by blast
  have "unat blkno < disk_blocks s" using fs_dev_okD(2) [OF ok f] b(2) by simp
  then have "blk_of s m' (unat blkno) = blk_of s m (unat blkno)" using m'(3) by simp
  moreover have "bytes_at m' q len = bytes_at (kmem s) p len" using m'(2) m(2) off by simp
  moreover have "\<forall>b'<disk_blocks s. b' \<noteq> unat blkno \<longrightarrow> blk_of s m' b' = blk s b'" using m(3) m'(3) by simp
  moreover have "\<forall>x. x \<notin> io_area s (sfs_buffer f) \<longrightarrow> x \<notin> {q..<q + len} \<longrightarrow> m' x = kmem s x"
    using m'(4) m(4) ar by (simp add: quiet_def)
  ultimately show ?thesis
    using m(1,2) m'(1) by (intro exI [of _ ?t] exI [of _ "s\<lparr>kmem := m'\<rparr>"]) simp
qed

theorem sfs_wbuf_rbuf_witness:
  "\<exists>t u. sfs_wbuf 7 1000 100 6 50 demo_fs_state = Some (0, t) \<and> sfs_rbuf 7 2000 100 6 50 t = Some (0, u) \<and>
    bytes_at (kmem u) 2000 100 = bytes_at of_nat 1000 100"
proof -
  have "({1000..<1000 + 100} \<union> {2000..<2000 + 100}) \<inter> io_area demo_fs_state (sfs_buffer demo_sfs) = {}"
    by auto
  from sfs_wbuf_rbuf [OF _ _ _ _ _ _ _ this, of 7 6 50] show ?thesis by fastforce
qed

text \<open>
  \<^verbatim>\<open>sfs_sync_super\<close> writes the superblock so that reading block 0 as a \<^verbatim>\<open>struct sfs_super\<close>
  gives the superblock in memory; it returns 0, changes no other block and frees the lock.
\<close>

theorem sfs_sync_super_correct:
  assumes "fs_dev_ok a s" and "fss s a = Some f" and "io_sem f > 0"
    and "0 < unat (sblocks (super f))" and "length (sinfo (super f)) = SFS_MAX_INFO_LEN + 1"
  shows "\<exists>t. sfs_sync_super a s = Some (0, t) \<and> bytes_super (blk t 0) = super f \<and>
    (\<forall>b'<disk_blocks s. b' \<noteq> 0 \<longrightarrow> blk t b' = blk s b') \<and> fss t = fss s"
proof -
  have l: "length (sinfo (super f)) = 32" using assms(5) by (simp add: layout)
  from sfs_sync_super_spec [OF assms(1-4) l] obtain m
    where "sfs_sync_super a s = Some (0, s\<lparr>kmem := m\<rparr>)"
      "blk_of s m 0 = super_bytes (super f) @ replicate (SFS_BLKSIZE - 44) 0"
      "\<forall>b'<disk_blocks s. b' \<noteq> 0 \<longrightarrow> blk_of s m b' = blk s b'" by blast
  with bytes_super_roundtrip [OF l] show ?thesis by (intro exI [of _ "s\<lparr>kmem := m\<rparr>"]) simp
qed

theorem sfs_sync_super_correct_witness:
  "\<exists>t. sfs_sync_super 7 demo_fs_state = Some (0, t) \<and> bytes_super (blk t 0) = super demo_sfs"
proof -
  have "length (sinfo (super demo_sfs)) = SFS_MAX_INFO_LEN + 1" by (simp add: demo_sfs_def layout)
  with sfs_sync_super_correct [of 7 demo_fs_state demo_sfs] show ?thesis by auto
qed

end
