(* ===== verification/SfsInode.thy ===== *)
theory SfsInode
  imports SfsIo
begin

text \<open>
  The inodes of the simple file system, \<^verbatim>\<open>fs/sfs/sfs_inode.c\<close>, first part: blocks and the free
  map, the in-core inodes, and the block map of an inode (twelve direct blocks and one
  indirect block). An in-core inode is named by its address, and \<^verbatim>\<open>sin\<close> is the
  \<^verbatim>\<open>sfs_inode\<close> inside it. The central invariant is that the superblock counts the free
  blocks of the free map.
\<close>

section \<open>Inodes of the virtual file system\<close>

abbreviation MAX_INODE_COUNT :: int where "MAX_INODE_COUNT \<equiv> 0x10000"

definition inode_ref_inc :: "addr \<Rightarrow> kfs \<Rightarrow> (int \<times> kfs) option" where
  "inode_ref_inc node s = do {
     i \<leftarrow> inodes s node;
     Some (ref_count i + 1, upd_inode node (ref_count_update (\<lambda>n. n + 1)) s)
   }"

definition inode_open_inc :: "addr \<Rightarrow> kfs \<Rightarrow> (int \<times> kfs) option" where
  "inode_open_inc node s = do {
     i \<leftarrow> inodes s node;
     Some (open_count i + 1, upd_inode node (open_count_update (\<lambda>n. n + 1)) s)
   }"

definition inode_check :: "addr \<Rightarrow> kfs \<Rightarrow> unit option" where
  "inode_check node s = do {
     i \<leftarrow> inodes s node;
     ensure (ref_count i \<ge> open_count i \<and> open_count i \<ge> 0);
     ensure (ref_count i < MAX_INODE_COUNT \<and> open_count i < MAX_INODE_COUNT)
   }"

definition inode_kill :: "addr \<Rightarrow> kfs \<Rightarrow> kfs option" where
  "inode_kill node s = do {
     i \<leftarrow> inodes s node;
     ensure (ref_count i = 0);
     ensure (open_count i = 0);
     Some (s\<lparr>inodes := (inodes s)(node := None)\<rparr>)
   }"

text \<open>
  \<^verbatim>\<open>alloc_inode\<close> and \<^verbatim>\<open>inode_init\<close>: the new inode has the given information, no opens and one
  reference. Address 0 is the failure of \<^verbatim>\<open>kmalloc\<close>.
\<close>

definition inode_init :: "in_info \<Rightarrow> in_ops \<Rightarrow> addr \<Rightarrow> inode" where
  "inode_init i ops fs = \<lparr>info = i, ref_count = 1, open_count = 0, in_fs = fs, iops = ops\<rparr>"

section \<open>Locks, operations and lists\<close>

definition lock_sin :: "addr \<Rightarrow> kfs \<Rightarrow> kfs option" where
  "lock_sin node s = do {
     sin \<leftarrow> vop_sin node s;
     n \<leftarrow> sem_take (sin_sem sin);
     Some (upd_sin node (sin_sem_update (\<lambda>_. n)) s)
   }"

definition unlock_sin :: "addr \<Rightarrow> kfs \<Rightarrow> kfs" where
  "unlock_sin node s = upd_sin node (sin_sem_update (\<lambda>n. n + 1)) s"

definition sfs_get_ops :: "u16 \<Rightarrow> in_ops option" where
  "sfs_get_ops ty =
     (if ty = SFS_TYPE_DIR then Some SfsDirOps else if ty = SFS_TYPE_FILE then Some SfsFileOps else None)"

definition hash32 :: "u32 \<Rightarrow> nat \<Rightarrow> u32" where
  "hash32 val bits = drop_bit (32 - bits) (val * 0x9e370001)"

definition sfs_hash_list :: "u32 \<Rightarrow> nat" where
  "sfs_hash_list i = unat (hash32 i SFS_HLIST_SHIFT)"

definition sfs_set_links :: "addr \<Rightarrow> addr \<Rightarrow> u32 \<Rightarrow> kfs \<Rightarrow> kfs" where
  "sfs_set_links sfs node i s =
     upd_fs sfs (\<lambda>f. f\<lparr>inode_list := node # inode_list f,
       hash_list := (hash_list f)(sfs_hash_list i := node # hash_list f (sfs_hash_list i))\<rparr>) s"

definition sfs_remove_links :: "addr \<Rightarrow> addr \<Rightarrow> u32 \<Rightarrow> kfs \<Rightarrow> kfs" where
  "sfs_remove_links sfs node i s =
     upd_fs sfs (\<lambda>f. f\<lparr>inode_list := remove1 node (inode_list f),
       hash_list := (hash_list f)(sfs_hash_list i := remove1 node (hash_list f (sfs_hash_list i)))\<rparr>) s"

section \<open>Blocks and the free map\<close>

definition sfs_block_inuse :: "addr \<Rightarrow> u32 \<Rightarrow> kfs \<Rightarrow> bool option" where
  "sfs_block_inuse sfs i s = do {
     f \<leftarrow> fss s sfs;
     if i \<noteq> 0 \<and> i < sblocks (super f) then do {
       b \<leftarrow> bitmap_test (freemap f) (unat i);
       Some (\<not> b)
     } else None
   }"

text \<open>Returns the result, the block number and the state.\<close>

definition sfs_block_alloc :: "addr \<Rightarrow> kfs \<Rightarrow> (int \<times> u32 \<times> kfs) option" where
  "sfs_block_alloc sfs s = do {
     f \<leftarrow> fss s sfs;
     (ret, i, b) \<leftarrow> bitmap_alloc (freemap f);
     if ret \<noteq> 0 then Some (ret, 0, s)
     else do {
       let s = upd_fs sfs (freemap_update (\<lambda>_. b)) s;
       ensure (unused_blocks (super f) > 0);
       let s = upd_fs sfs (\<lambda>f. f\<lparr>super := (super f)\<lparr>unused_blocks := unused_blocks (super f) - 1\<rparr>,
                                 super_dirty := True\<rparr>) s;
       used \<leftarrow> sfs_block_inuse sfs (of_nat i) s;
       ensure used;
       (ret, s) \<leftarrow> sfs_clear_block sfs (of_nat i) 1 s;
       Some (ret, of_nat i, s)
     }
   }"

definition sfs_block_free :: "addr \<Rightarrow> u32 \<Rightarrow> kfs \<Rightarrow> kfs option" where
  "sfs_block_free sfs i s = do {
     used \<leftarrow> sfs_block_inuse sfs i s;
     ensure used;
     f \<leftarrow> fss s sfs;
     b \<leftarrow> bitmap_free (unat i) (freemap f);
     let s = upd_fs sfs (freemap_update (\<lambda>_. b)) s;
     Some (upd_fs sfs (\<lambda>f. f\<lparr>super := (super f)\<lparr>unused_blocks := unused_blocks (super f) + 1\<rparr>,
                               super_dirty := True\<rparr>) s)
   }"

section \<open>In-core inodes\<close>

definition sfs_create_inode :: "addr \<Rightarrow> disk_inode \<Rightarrow> u32 \<Rightarrow> kfs \<Rightarrow> (int \<times> addr \<times> kfs) option" where
  "sfs_create_inode sfs d i s = do {
     let (node, s) = kmalloc s;
     if node \<noteq> 0 then do {
       ops \<leftarrow> sfs_get_ops (itype d);
       let sin = \<lparr>din = d, ino = i, dirty = False, reclaim_count = 1, sin_sem = 1\<rparr>;
       Some (0, node, s\<lparr>inodes := (inodes s)(node := Some (inode_init (SfsInfo sin) ops sfs))\<rparr>)
     } else Some (- E_NO_MEM, 0, s)
   }"

fun lookup_sfs_loop :: "addr list \<Rightarrow> u32 \<Rightarrow> kfs \<Rightarrow> (addr \<times> kfs) option" where
  "lookup_sfs_loop [] i s = Some (0, s)"
| "lookup_sfs_loop (node # le) i s = do {
     sin \<leftarrow> vop_sin node s;
     if ino sin = i then do {
       (n, s) \<leftarrow> inode_ref_inc node s;
       Some (node, if n = 1 then upd_sin node (reclaim_count_update (\<lambda>n. n + 1)) s else s)
     } else lookup_sfs_loop le i s
   }"

definition lookup_sfs_nolock :: "addr \<Rightarrow> u32 \<Rightarrow> kfs \<Rightarrow> (addr \<times> kfs) option" where
  "lookup_sfs_nolock sfs i s = do {
     f \<leftarrow> fss s sfs;
     lookup_sfs_loop (hash_list f (sfs_hash_list i)) i s
   }"

text \<open>The disk inode is read to the memory allocated for it.\<close>

definition sfs_load_inode :: "addr \<Rightarrow> u32 \<Rightarrow> kfs \<Rightarrow> (int \<times> addr \<times> kfs) option" where
  "sfs_load_inode sfs i s = do {
     s \<leftarrow> lock_sfs_fs sfs s;
     (node, s) \<leftarrow> lookup_sfs_nolock sfs i s;
     if node \<noteq> 0 then Some (0, node, unlock_sfs_fs sfs s)
     else do {
       let (d, s) = kmalloc s;
       if d = 0 then Some (- E_NO_MEM, 0, unlock_sfs_fs sfs s)
       else do {
         used \<leftarrow> sfs_block_inuse sfs i s;
         ensure used;
         (ret, s) \<leftarrow> sfs_rbuf sfs d 64 i 0 s;
         if ret \<noteq> 0 then Some (ret, 0, unlock_sfs_fs sfs s)
         else do {
           let di = bytes_din (bytes_at (kmem s) d 64);
           ensure (nlinks di \<noteq> 0);
           (ret, node, s) \<leftarrow> sfs_create_inode sfs di i s;
           if ret \<noteq> 0 then Some (ret, 0, unlock_sfs_fs sfs s)
           else Some (0, node, unlock_sfs_fs sfs (sfs_set_links sfs node i s))
         }
       }
     }
   }"

section \<open>The block map of an inode\<close>

text \<open>
  The results are the return value, the block number and, for \<^verbatim>\<open>sfs_bmap_get_sub_nolock\<close>, the
  new value of \<^verbatim>\<open>*entp\<close>. The local \<^verbatim>\<open>ino\<close> that the block I/O reads and writes lies at \<open>locals\<close>.
\<close>

definition sfs_bmap_get_sub_nolock ::
  "addr \<Rightarrow> u32 \<Rightarrow> u32 \<Rightarrow> bool \<Rightarrow> kfs \<Rightarrow> (int \<times> u32 \<times> u32 \<times> kfs) option" where
  "sfs_bmap_get_sub_nolock sfs ent0 index create s = do {
     ensure (unat index < SFS_BLK_NENTRY);
     let off = unat index * 4;
     (ret, ent, i, out, s) \<leftarrow>
       (if ent0 \<noteq> 0 then do {
          let s = s\<lparr>kmem := store_bytes (locals s) (le32 0) (kmem s)\<rparr>;
          (ret, s) \<leftarrow> sfs_rbuf sfs (locals s) 4 ent0 off s;
          let i = of_le32 (bytes_at (kmem s) (locals s) 4);
          Some (ret, ent0, i, ret \<noteq> 0 \<or> i \<noteq> 0 \<or> \<not> create, s)
        }
        else if \<not> create then Some (0, 0, 0, True, s)
        else do {
          (ret, ent, s) \<leftarrow> sfs_block_alloc sfs s;
          Some (ret, ent, 0, ret \<noteq> 0, s)
        });
     if ret \<noteq> 0 then Some (ret, 0, ent0, s)
     else if out then Some (0, i, ent, s)
     else do {
       (ret, i, s) \<leftarrow> sfs_block_alloc sfs s;
       if ret \<noteq> 0 then do {
         s \<leftarrow> (if ent \<noteq> ent0 then sfs_block_free sfs ent s else Some s);
         Some (ret, 0, ent0, s)
       }
       else do {
         let s = s\<lparr>kmem := store_bytes (locals s) (le32 i) (kmem s)\<rparr>;
         (ret, s) \<leftarrow> sfs_wbuf sfs (locals s) 4 ent off s;
         if ret \<noteq> 0 then do {
           s \<leftarrow> sfs_block_free sfs i s;
           s \<leftarrow> (if ent \<noteq> ent0 then sfs_block_free sfs ent s else Some s);
           Some (ret, 0, ent0, s)
         }
         else Some (0, i, ent, s)
       }
     }
   }"

definition sfs_bmap_get_nolock ::
  "addr \<Rightarrow> addr \<Rightarrow> u32 \<Rightarrow> bool \<Rightarrow> kfs \<Rightarrow> (int \<times> u32 \<times> kfs) option" where
  "sfs_bmap_get_nolock sfs node index create s = do {
     sin \<leftarrow> vop_sin node s;
     let d = din sin;
     (ret, i, s) \<leftarrow>
       (if unat index < SFS_NDIRECT then do {
          let i = direct d ! unat index;
          if i = 0 \<and> create then do {
            (ret, i, s) \<leftarrow> sfs_block_alloc sfs s;
            if ret \<noteq> 0 then Some (ret, 0, s)
            else do {
              let s = upd_din node (\<lambda>d. d\<lparr>direct := (direct d)[unat index := i]\<rparr>) s;
              Some (0, i, upd_sin node (dirty_update (\<lambda>_. True)) s)
            }
          }
          else Some (0, i, s)
        }
        else do {
          let index = index - of_nat SFS_NDIRECT;
          ensure (unat index < SFS_BLK_NENTRY);
          (ret, i, ent, s) \<leftarrow> sfs_bmap_get_sub_nolock sfs (indirect d) index create s;
          if ret \<noteq> 0 then Some (ret, 0, s)
          else if ent \<noteq> indirect d then do {
            ensure (indirect d = 0);
            let s = upd_din node (\<lambda>d. d\<lparr>indirect := ent\<rparr>) s;
            Some (0, i, upd_sin node (dirty_update (\<lambda>_. True)) s)
          }
          else Some (0, i, s)
        });
     if ret \<noteq> 0 then Some (ret, 0, s)
     else do {
       used \<leftarrow> (if i = 0 then Some True else sfs_block_inuse sfs i s);
       ensure used;
       Some (0, i, s)
     }
   }"

definition sfs_bmap_free_sub_nolock :: "addr \<Rightarrow> u32 \<Rightarrow> u32 \<Rightarrow> kfs \<Rightarrow> (int \<times> kfs) option" where
  "sfs_bmap_free_sub_nolock sfs ent index s = do {
     used \<leftarrow> sfs_block_inuse sfs ent s;
     ensure (used \<and> unat index < SFS_BLK_NENTRY);
     let off = unat index * 4;
     (ret, s) \<leftarrow> sfs_rbuf sfs (locals s) 4 ent off s;
     if ret \<noteq> 0 then Some (ret, s)
     else do {
       let i = of_le32 (bytes_at (kmem s) (locals s) 4);
       if i \<noteq> 0 then do {
         let s = s\<lparr>kmem := store_bytes (locals s) (le32 0) (kmem s)\<rparr>;
         (ret, s) \<leftarrow> sfs_wbuf sfs (locals s) 4 ent off s;
         if ret \<noteq> 0 then Some (ret, s)
         else do {
           s \<leftarrow> sfs_block_free sfs i s;
           Some (0, s)
         }
       }
       else Some (0, s)
     }
   }"

definition sfs_bmap_free_nolock :: "addr \<Rightarrow> addr \<Rightarrow> u32 \<Rightarrow> kfs \<Rightarrow> (int \<times> kfs) option" where
  "sfs_bmap_free_nolock sfs node index s = do {
     sin \<leftarrow> vop_sin node s;
     let d = din sin;
     if unat index < SFS_NDIRECT then do {
       let i = direct d ! unat index;
       if i \<noteq> 0 then do {
         s \<leftarrow> sfs_block_free sfs i s;
         let s = upd_din node (\<lambda>d. d\<lparr>direct := (direct d)[unat index := 0]\<rparr>) s;
         Some (0, upd_sin node (dirty_update (\<lambda>_. True)) s)
       }
       else Some (0, s)
     }
     else do {
       let index = index - of_nat SFS_NDIRECT;
       if unat index < SFS_BLK_NENTRY then
         (if indirect d \<noteq> 0 then sfs_bmap_free_sub_nolock sfs (indirect d) index s else Some (0, s))
       else Some (0, s)
     }
   }"

definition sfs_bmap_load_nolock :: "addr \<Rightarrow> addr \<Rightarrow> u32 \<Rightarrow> kfs \<Rightarrow> (int \<times> u32 \<times> kfs) option" where
  "sfs_bmap_load_nolock sfs node index s = do {
     sin \<leftarrow> vop_sin node s;
     ensure (index \<le> blocks (din sin));
     let create = (index = blocks (din sin));
     (ret, i, s) \<leftarrow> sfs_bmap_get_nolock sfs node index create s;
     if ret \<noteq> 0 then Some (ret, 0, s)
     else do {
       used \<leftarrow> sfs_block_inuse sfs i s;
       ensure used;
       Some (0, i, if create then upd_din node (\<lambda>d. d\<lparr>blocks := blocks d + 1\<rparr>) s else s)
     }
   }"

definition sfs_bmap_truncate_nolock :: "addr \<Rightarrow> addr \<Rightarrow> kfs \<Rightarrow> (int \<times> kfs) option" where
  "sfs_bmap_truncate_nolock sfs node s = do {
     sin \<leftarrow> vop_sin node s;
     ensure (blocks (din sin) \<noteq> 0);
     (ret, s) \<leftarrow> sfs_bmap_free_nolock sfs node (blocks (din sin) - 1) s;
     if ret \<noteq> 0 then Some (ret, s)
     else do {
       let s = upd_din node (\<lambda>d. d\<lparr>blocks := blocks d - 1\<rparr>) s;
       Some (0, upd_sin node (dirty_update (\<lambda>_. True)) s)
     }
   }"

section \<open>The free map and the count of free blocks\<close>

text \<open>
  \<open>fs_wf a s\<close>: the file system at \<open>a\<close> lies on the disk, its I/O lock is free, every free
  block of the map is a block of the file system other than block 0, and \<^verbatim>\<open>unused_blocks\<close> is
  the number of free blocks.
\<close>

definition fs_wf :: "addr \<Rightarrow> kfs \<Rightarrow> bool" where
  "fs_wf a s \<longleftrightarrow> fs_dev_ok a s \<and>
     (case fss s a of None \<Rightarrow> False
      | Some f \<Rightarrow> io_sem f > 0 \<and> wf_bitmap (freemap f) \<and> unat (sblocks (super f)) \<le> unat (nbits (freemap f)) \<and>
          (\<forall>i\<in>free_set (freemap f). 0 < i \<and> i < unat (sblocks (super f))) \<and>
          unat (unused_blocks (super f)) = card (free_set (freemap f)))"

definition free_blocks :: "addr \<Rightarrow> kfs \<Rightarrow> nat set" where
  "free_blocks a s = (case fss s a of None \<Rightarrow> {} | Some f \<Rightarrow> free_set (freemap f))"

text \<open>The file system with the free map \<open>b\<close> and \<open>n\<close> free blocks.\<close>

definition with_map :: "bitmap \<Rightarrow> u32 \<Rightarrow> sfs_fs \<Rightarrow> sfs_fs" where
  "with_map b n f = f\<lparr>freemap := b, super := (super f)\<lparr>unused_blocks := n\<rparr>, super_dirty := True\<rparr>"

lemma with_map_simps [simp]:
  "freemap (with_map b n f) = b" "sblocks (super (with_map b n f)) = sblocks (super f)"
  "unused_blocks (super (with_map b n f)) = n" "sdev (with_map b n f) = sdev f"
  "sfs_buffer (with_map b n f) = sfs_buffer f" "io_sem (with_map b n f) = io_sem f"
  "super_dirty (with_map b n f)" "fs_sem (with_map b n f) = fs_sem f"
  "inode_list (with_map b n f) = inode_list f" "hash_list (with_map b n f) = hash_list f"
  by (simp_all add: with_map_def)

lemma fs_dev_ok_upd_fs:
  assumes "\<And>f. sblocks (super (g f)) = sblocks (super f) \<and> sdev (g f) = sdev f \<and> sfs_buffer (g f) = sfs_buffer f"
  shows "fs_dev_ok a (upd_fs b g s) = fs_dev_ok a s"
  using assms
  by (cases "b = a")
     (auto simp: fs_dev_ok_def disk_ok_def disk_blocks_def disk_base_def VALID_IDE_def buf_ok_def
       ide_device_size_def ide_device_valid_def vop_dev_def upd_fs_def split: option.splits)

lemma finite_free_set [simp]: "finite (free_set b)"
  by (rule finite_subset [of _ "{..<32 * unat (nwords b)}"]) (auto simp: free_set_def)

lemma fs_wfD:
  assumes "fs_wf a s" and "fss s a = Some f"
  shows "fs_dev_ok a s" and "io_sem f > 0" and "wf_bitmap (freemap f)"
    and "unat (sblocks (super f)) \<le> unat (nbits (freemap f))"
    and "\<And>i. i \<in> free_set (freemap f) \<Longrightarrow> 0 < i \<and> i < unat (sblocks (super f))"
    and "unat (unused_blocks (super f)) = card (free_set (freemap f))"
  using assms by (auto simp: fs_wf_def)

lemma fs_wf_kmem [simp]: "fs_wf a (s\<lparr>kmem := m\<rparr>) = fs_wf a s"
  by (simp add: fs_wf_def)

lemma sfs_block_inuse_spec:
  assumes "fs_wf a s" and "fss s a = Some f" and "i \<noteq> 0" and "i < sblocks (super f)"
  shows "sfs_block_inuse a i s = Some (unat i \<notin> free_set (freemap f))"
proof -
  note D = fs_wfD [OF assms(1,2)]
  have "unat i < unat (sblocks (super f))" using assms(4) by (simp add: word_less_nat_alt)
  then have "unat i < unat (nbits (freemap f))" using D(4) by simp
  with bitmap_test_spec [OF D(3), of "unat i"] assms(2-4) show ?thesis by (simp add: sfs_block_inuse_def)
qed

lemma upd_fs_comp: "upd_fs a g (upd_fs a h s) = upd_fs a (g \<circ> h) s"
  by (simp add: upd_fs_def option.map_comp)

lemma upd_fs_map:
  "fss s a = Some f \<Longrightarrow>
    upd_fs a (\<lambda>f. f\<lparr>super := (super f)\<lparr>unused_blocks := h (unused_blocks (super f))\<rparr>, super_dirty := True\<rparr>)
      (upd_fs a (freemap_update (\<lambda>_. b)) s) = upd_fs a (with_map b (h (unused_blocks (super f)))) s"
  by (simp add: upd_fs_def with_map_def)

lemma fs_wf_with_map:
  assumes "fs_wf a s" and "fss s a = Some f" and "wf_bitmap b" and "nbits b = nbits (freemap f)"
    and "\<And>i. i \<in> free_set b \<Longrightarrow> 0 < i \<and> i < unat (sblocks (super f))" and "unat n = card (free_set b)"
  shows "fs_wf a (upd_fs a (with_map b n) s)"
  using fs_wfD [OF assms(1,2)] assms(2-6)
  by (auto simp: fs_wf_def fs_dev_ok_upd_fs)

lemma unat_u32: "unat (x :: u32) < 4294967296"
  using unsigned_less [of x] by simp

lemma sfs_block_alloc_spec:
  assumes wf: "fs_wf a s" and f: "fss s a = Some f"
  shows "if free_set (freemap f) = {} then sfs_block_alloc a s = Some (- E_NO_MEM, 0, s)
    else \<exists>i b m. sfs_block_alloc a s =
        Some (0, i, (upd_fs a (with_map b (unused_blocks (super f) - 1)) s)\<lparr>kmem := m\<rparr>) \<and>
      i \<noteq> 0 \<and> i < sblocks (super f) \<and> unat i \<in> free_set (freemap f) \<and> wf_bitmap b \<and>
      nbits b = nbits (freemap f) \<and> free_set b = free_set (freemap f) - {unat i} \<and>
      unat (unused_blocks (super f) - 1) = card (free_set b) \<and>
      blk_of s m (unat i) = replicate SFS_BLKSIZE 0 \<and>
      (\<forall>b'<disk_blocks s. b' \<noteq> unat i \<longrightarrow> blk_of s m b' = blk s b') \<and> quiet s (sfs_buffer f) m"
proof -
  note D = fs_wfD [OF wf f]
  show ?thesis
  proof (cases "free_set (freemap f) = {}")
    case True
    then show ?thesis using bitmap_alloc_spec [OF D(3)] f
      by (simp add: sfs_block_alloc_def E_NO_MEM_def)
  next
    case False
    with bitmap_alloc_spec [OF D(3)] obtain b k
      where b: "bitmap_alloc (freemap f) = Some (0, k, b)" "k \<in> free_set (freemap f)" "wf_bitmap b"
        "nbits b = nbits (freemap f)" "free_set b = free_set (freemap f) - {k}" by auto
    have k: "0 < k" "k < unat (sblocks (super f))" using D(5) [OF b(2)] by auto
    let ?i = "of_nat k :: u32"
    have uk: "unat ?i = k" using k(2) unat_u32 [of "sblocks (super f)"] by (simp add: unat_of_nat)
    then have i: "?i \<noteq> 0" "?i < sblocks (super f)"
      using k by (auto simp: word_less_nat_alt)
    let ?n = "unused_blocks (super f) - 1"
    have cpos: "0 < card (free_set (freemap f))" using False by (simp add: card_gt_0_iff)
    then have upos: "0 < unused_blocks (super f)" using D(6) by (simp add: word_less_nat_alt)
    have n: "unat ?n = card (free_set b)"
      using D(6) cpos b(2,5) by (subst unat_sub) (simp_all add: word_le_nat_alt)
    let ?s = "upd_fs a (with_map b ?n) s"
    have wf': "fs_wf a ?s" by (rule fs_wf_with_map [OF wf f b(3,4) _ n]) (use D(5) b(5) in auto)
    have f': "fss ?s a = Some (with_map b ?n f)" using f by simp
    have used: "sfs_block_inuse a ?i ?s = Some True"
      using sfs_block_inuse_spec [OF wf' f', of ?i] i uk b(5) by simp
    have k': "unat ?i < unat (sblocks (super (with_map b ?n f)))" using k(2) uk by simp
    have sem': "io_sem (with_map b ?n f) > 0" using D(2) by simp
    from sfs_clear_block_spec [OF fs_wfD(1) [OF wf' f'] f' sem' i(1) k'] obtain m
      where m: "sfs_clear_block a ?i 1 ?s = Some (0, ?s\<lparr>kmem := m\<rparr>)"
        "blk_of ?s m k = replicate SFS_BLKSIZE 0"
        "\<forall>b'<disk_blocks ?s. b' \<noteq> k \<longrightarrow> blk_of ?s m b' = blk ?s b'" "quiet ?s (sfs_buffer f) m"
      by (simp only: uk with_map_simps) blast
    have same: "blk_of ?s m' x = blk_of s m' x" "blk ?s x = blk s x" for m' x by (simp_all add: blk_def)
    have "quiet s (sfs_buffer f) m" using m(4) by (simp add: quiet_def io_area_def)
    moreover have "sfs_block_alloc a s = Some (0, ?i, ?s\<lparr>kmem := m\<rparr>)"
      using f b(1) upos used m(1) upd_fs_map [OF f, of "\<lambda>n. n - 1" b]
      by (simp add: sfs_block_alloc_def Let_def)
    moreover have "blk_of s m (unat ?i) = replicate SFS_BLKSIZE 0" using m(2) same by (simp only: uk)
    moreover have "\<forall>b'<disk_blocks s. b' \<noteq> unat ?i \<longrightarrow> blk_of s m b' = blk s b'"
      using m(3) by (simp only: uk same upd_fs_simps)
    moreover have "unat ?i \<in> free_set (freemap f)" "free_set b = free_set (freemap f) - {unat ?i}"
      using b(2,5) by (simp_all only: uk)
    ultimately show ?thesis unfolding if_not_P [OF False] using i b(3,4) n by blast
  qed
qed

lemma sfs_block_free_spec:
  assumes wf: "fs_wf a s" and f: "fss s a = Some f" and i: "i \<noteq> 0" "i < sblocks (super f)"
    and used: "unat i \<notin> free_set (freemap f)"
  shows "\<exists>b. sfs_block_free a i s = Some (upd_fs a (with_map b (unused_blocks (super f) + 1)) s) \<and>
    wf_bitmap b \<and> nbits b = nbits (freemap f) \<and> free_set b = insert (unat i) (free_set (freemap f)) \<and>
    unat (unused_blocks (super f) + 1) = card (free_set b)"
proof -
  note D = fs_wfD [OF wf f]
  have lt: "unat i < unat (sblocks (super f))" using i(2) by (simp add: word_less_nat_alt)
  then have lt': "unat i < unat (nbits (freemap f))" using D(4) by simp
  from bitmap_free_spec [OF D(3) lt' used] obtain b
    where b: "bitmap_free (unat i) (freemap f) = Some b" "wf_bitmap b" "nbits b = nbits (freemap f)"
      "free_set b = insert (unat i) (free_set (freemap f))" by blast
  have c: "card (free_set b) = Suc (card (free_set (freemap f)))" using b(4) used by simp
  have "free_set b \<subseteq> {..<unat (sblocks (super f))}" using D(5) b(4) lt by auto
  then have "card (free_set b) \<le> unat (sblocks (super f))"
    using card_mono [of "{..<unat (sblocks (super f))}" "free_set b"] by simp
  then have "unat (unused_blocks (super f)) + 1 < 2 ^ 32"
    using D(6) c unat_u32 [of "sblocks (super f)"] by simp
  then have "unat (unused_blocks (super f) + 1) = card (free_set b)"
    using D(6) c by (simp add: unat_word_ariths)
  moreover have "sfs_block_free a i s = Some (upd_fs a (with_map b (unused_blocks (super f) + 1)) s)"
    using sfs_block_inuse_spec [OF wf f i] used f b(1) upd_fs_map [OF f, of "\<lambda>n. n + 1" b]
    by (simp add: sfs_block_free_def Let_def)
  ultimately show ?thesis using b by blast
qed

section \<open>The blocks of an inode\<close>

definition indirect_ent :: "kfs \<Rightarrow> u32 \<Rightarrow> nat \<Rightarrow> u32" where
  "indirect_ent s ent j = of_le32 (take 4 (drop (4 * j) (blk s (unat ent))))"

text \<open>\<open>bmap d s k\<close>: the disk block of block \<open>k\<close> of the file, 0 where it has none.\<close>

definition bmap :: "disk_inode \<Rightarrow> kfs \<Rightarrow> nat \<Rightarrow> u32" where
  "bmap d s k =
     (if k < 12 then direct d ! k else if indirect d = 0 then 0 else indirect_ent s (indirect d) (k - 12))"

definition used_block :: "addr \<Rightarrow> kfs \<Rightarrow> u32 \<Rightarrow> bool" where
  "used_block a s i \<longleftrightarrow>
     (case fss s a of None \<Rightarrow> False
      | Some f \<Rightarrow> i \<noteq> 0 \<and> i < sblocks (super f) \<and> unat i \<notin> free_set (freemap f))"

text \<open>
  \<open>inode_wf a n s\<close>: every block of the inode at \<open>n\<close> and its indirect block are in use, no
  two of them are the same, and past the last block the map is zero.
\<close>

definition inode_wf :: "addr \<Rightarrow> addr \<Rightarrow> kfs \<Rightarrow> bool" where
  "inode_wf a n s \<longleftrightarrow>
     (case vop_sin n s of None \<Rightarrow> False
      | Some sin \<Rightarrow> (let d = din sin in
          length (direct d) = 12 \<and> unat (blocks d) \<le> 1036 \<and>
          (\<forall>k<unat (blocks d). used_block a s (bmap d s k)) \<and>
          (indirect d \<noteq> 0 \<longrightarrow> used_block a s (indirect d)) \<and>
          (\<forall>k. unat (blocks d) \<le> k \<longrightarrow> k < 1036 \<longrightarrow> bmap d s k = 0) \<and>
          inj_on (bmap d s) {..<unat (blocks d)} \<and> indirect d \<notin> bmap d s ` {..<unat (blocks d)}))"

text \<open>
  \<open>scratch a s\<close>: memory that the file system uses for itself; \<open>touched a s B m\<close>: with memory
  \<open>m\<close> the blocks of the disk are as in \<open>s\<close>, and so is all memory but the scratch area and \<open>B\<close>.
\<close>

definition scratch :: "addr \<Rightarrow> kfs \<Rightarrow> addr set" where
  "scratch a s = (case fss s a of None \<Rightarrow> {} | Some f \<Rightarrow> io_area s (sfs_buffer f)) \<union> {locals s..<locals s + 64}"

definition locals_ok :: "addr \<Rightarrow> kfs \<Rightarrow> bool" where
  "locals_ok a s \<longleftrightarrow>
     (case fss s a of None \<Rightarrow> False | Some f \<Rightarrow> {locals s..<locals s + 64} \<inter> io_area s (sfs_buffer f) = {})"

definition touched :: "addr \<Rightarrow> kfs \<Rightarrow> addr set \<Rightarrow> mem \<Rightarrow> bool" where
  "touched a s B m \<longleftrightarrow> (\<forall>b<disk_blocks s. blk_of s m b = blk s b) \<and> (\<forall>x. x \<notin> scratch a s \<union> B \<longrightarrow> m x = kmem s x)"

lemma scratch_kmem [simp]: "scratch a (s\<lparr>kmem := m\<rparr>) = scratch a s"
  by (simp add: scratch_def io_area_def split: option.split)

lemma locals_ok_kmem [simp]: "locals_ok a (s\<lparr>kmem := m\<rparr>) = locals_ok a s"
  by (simp add: locals_ok_def io_area_def split: option.split)

lemma used_block_kmem [simp]: "used_block a (s\<lparr>kmem := m\<rparr>) i = used_block a s i"
  by (simp add: used_block_def)

lemma touched_refl [simp]: "touched a s B (kmem s)"
  by (simp add: touched_def)

lemma touched_trans:
  "touched a s B m \<Longrightarrow> touched a (s\<lparr>kmem := m\<rparr>) C m' \<Longrightarrow> touched a s (B \<union> C) m'"
  by (simp add: touched_def)

lemma touched_mono: "touched a s B m \<Longrightarrow> B \<subseteq> C \<Longrightarrow> touched a s C m"
  by (auto simp: touched_def)

lemma used_block_less:
  assumes "fs_wf a s" and "used_block a s i"
  shows "unat i < disk_blocks s"
proof -
  obtain f where f: "fss s a = Some f" "i < sblocks (super f)"
    using assms(2) by (auto simp: used_block_def split: option.splits)
  from fs_dev_okD(2) [OF fs_wfD(1) [OF assms(1) f(1)] f(1)] f(2) show ?thesis
    by (simp add: word_less_nat_alt)
qed

lemma used_block_inuse: "fs_wf a s \<Longrightarrow> used_block a s i \<Longrightarrow> sfs_block_inuse a i s = Some True"
  by (auto simp: used_block_def sfs_block_inuse_spec split: option.splits)

lemma bmap_touched:
  assumes "fs_wf a s" and "touched a s B m" and "indirect d \<noteq> 0 \<longrightarrow> used_block a s (indirect d)"
  shows "bmap d (s\<lparr>kmem := m\<rparr>) k = bmap d s k"
proof (cases "indirect d = 0")
  case True
  then show ?thesis by (simp add: bmap_def)
next
  case False
  then have "unat (indirect d) < disk_blocks s" using assms used_block_less by blast
  then have "blk_of s m (unat (indirect d)) = blk s (unat (indirect d))"
    using assms(2) by (simp add: touched_def)
  then show ?thesis by (simp add: bmap_def indirect_ent_def)
qed

lemma inode_wf_touched:
  assumes "fs_wf a s" and "inode_wf a n s" and "touched a s B m"
  shows "inode_wf a n (s\<lparr>kmem := m\<rparr>)"
proof -
  obtain sin where sin: "vop_sin n s = Some sin" using assms(2) by (auto simp: inode_wf_def split: option.splits)
  then have "indirect (din sin) \<noteq> 0 \<longrightarrow> used_block a s (indirect (din sin))"
    using assms(2) by (simp add: inode_wf_def Let_def)
  from bmap_touched [OF assms(1,3) this] have "bmap (din sin) (s\<lparr>kmem := m\<rparr>) = bmap (din sin) s" by (rule ext)
  with assms(2) sin show ?thesis by (simp add: inode_wf_def Let_def)
qed

lemma store_bytes_disk:
  assumes "fs_wf a s" and "locals_ok a s" and "length bs \<le> 64"
  shows "touched a s {} (store_bytes (locals s) bs (kmem s))"
proof -
  obtain f where f: "fss s a = Some f" using assms(2) by (auto simp: locals_ok_def split: option.splits)
  have nl: "{locals s..<locals s + 64} \<inter> io_area s (sfs_buffer f) = {}" using assms(2) f by (simp add: locals_ok_def)
  have "blk_of s (store_bytes (locals s) bs (kmem s)) b = blk_of s (kmem s) b" if b: "b < disk_blocks s" for b
  proof (rule blk_upd)
    fix i
    assume "i < (4096 :: nat)"
    from disk_in_area [OF b this, of "sfs_buffer f"] nl
    have "disk_base s + (b * 4096 + i) \<notin> {locals s..<locals s + 64}" by blast
    then show "store_bytes (locals s) bs (kmem s) (disk_base s + (b * 4096 + i)) = kmem s (disk_base s + (b * 4096 + i))"
      using assms(3) by (auto simp: store_bytes_def)
  qed
  then show ?thesis using assms(3) by (auto simp: touched_def scratch_def store_bytes_def)
qed

text \<open>A word of an indirect block is read through \<open>locals\<close>.\<close>

lemma read_ent:
  assumes wf: "fs_wf a s" and lo: "locals_ok a s" and u: "used_block a s ent" and j: "j < 1024"
  shows "\<exists>m. sfs_rbuf a (locals s) 4 ent (j * 4) s = Some (0, s\<lparr>kmem := m\<rparr>) \<and>
    of_le32 (bytes_at m (locals s) 4) = indirect_ent s ent j \<and> touched a s {} m"
proof -
  obtain f where f: "fss s a = Some f" "ent \<noteq> 0" "ent < sblocks (super f)"
    using u by (auto simp: used_block_def split: option.splits)
  note D = fs_wfD [OF wf f(1)]
  have nl: "{locals s..<locals s + 64} \<inter> io_area s (sfs_buffer f) = {}" using lo f(1) by (simp add: locals_ok_def)
  moreover have "{locals s..<locals s + 4} \<subseteq> {locals s..<locals s + 64}" by auto
  ultimately have nl4: "{locals s..<locals s + 4} \<inter> io_area s (sfs_buffer f) = {}" by blast
  have o: "j * 4 < SFS_BLKSIZE" "j * 4 + 4 \<le> SFS_BLKSIZE" using j by auto
  have lt: "unat ent < unat (sblocks (super f))" using f(3) by (simp add: word_less_nat_alt)
  from sfs_rbuf_spec [OF D(1) f(1) D(2) f(2) lt o nl4] obtain m
    where m: "sfs_rbuf a (locals s) 4 ent (j * 4) s = Some (0, s\<lparr>kmem := m\<rparr>)"
      "bytes_at m (locals s) 4 = take 4 (drop (j * 4) (blk s (unat ent)))"
      "\<forall>b'<disk_blocks s. blk_of s m b' = blk s b'"
      "\<forall>x. x \<notin> io_area s (sfs_buffer f) \<longrightarrow> x \<notin> {locals s..<locals s + 4} \<longrightarrow> m x = kmem s x" by blast
  have "touched a s {} m" using m(3,4) f(1) by (auto simp: touched_def scratch_def)
  with m(1,2) show ?thesis by (auto simp: indirect_ent_def mult.commute)
qed

lemma inode_wfD:
  assumes "inode_wf a n s" and "vop_sin n s = Some sin"
  shows "length (direct (din sin)) = 12" and "unat (blocks (din sin)) \<le> 1036"
    and "\<And>k. k < unat (blocks (din sin)) \<Longrightarrow> used_block a s (bmap (din sin) s k)"
    and "indirect (din sin) \<noteq> 0 \<Longrightarrow> used_block a s (indirect (din sin))"
    and "\<And>k. unat (blocks (din sin)) \<le> k \<Longrightarrow> k < 1036 \<Longrightarrow> bmap (din sin) s k = 0"
    and "inj_on (bmap (din sin) s) {..<unat (blocks (din sin))}"
    and "indirect (din sin) \<notin> bmap (din sin) s ` {..<unat (blocks (din sin))}"
  using assms by (auto simp: inode_wf_def Let_def)

text \<open>Looking up a block that the file has changes nothing but the scratch area.\<close>

lemma sfs_bmap_load_spec:
  assumes wf: "fs_wf a s" and lo: "locals_ok a s" and iw: "inode_wf a n s"
    and sin: "vop_sin n s = Some sin" and k: "index < blocks (din sin)"
  shows "\<exists>m. sfs_bmap_load_nolock a n index s = Some (0, bmap (din sin) s (unat index), s\<lparr>kmem := m\<rparr>) \<and>
    touched a s {} m"
proof -
  note I = inode_wfD [OF iw sin]
  let ?d = "din sin" and ?i = "bmap (din sin) s (unat index)"
  have kk: "unat index < unat (blocks ?d)" using k by (simp add: word_less_nat_alt)
  have u: "used_block a s ?i" by (rule I(3) [OF kk])
  then have nz: "?i \<noteq> 0" by (auto simp: used_block_def split: option.splits)
  have guard: "index \<le> blocks ?d" "index \<noteq> blocks ?d" using k by auto
  show ?thesis
  proof (cases "unat index < 12")
    case True
    then have "?i = direct ?d ! unat index" by (simp add: bmap_def)
    then have "sfs_bmap_get_nolock a n index False s = Some (0, ?i, s)"
      using sin True nz used_block_inuse [OF wf u] by (simp add: sfs_bmap_get_nolock_def SFS_NDIRECT_def)
    then have "sfs_bmap_load_nolock a n index s = Some (0, ?i, s)"
      using sin guard used_block_inuse [OF wf u] by (simp add: sfs_bmap_load_nolock_def Let_def)
    then show ?thesis by (intro exI [of _ "kmem s"]) simp
  next
    case False
    let ?j = "unat index - 12" and ?ent = "indirect ?d"
    have j: "?j < 1024" using kk I(2) False by simp
    have ent: "?ent \<noteq> 0" "?i = indirect_ent s ?ent ?j" using False nz by (auto simp: bmap_def split: if_splits)
    let ?w = "index - of_nat SFS_NDIRECT"
    have w: "unat ?w = ?j" using False by (simp add: SFS_NDIRECT_def unat_sub word_le_nat_alt)
    let ?m0 = "store_bytes (locals s) (le32 0) (kmem s)"
    let ?s = "s\<lparr>kmem := ?m0\<rparr>"
    have t0: "touched a s {} ?m0" by (rule store_bytes_disk [OF wf lo]) simp
    have "\<exists>m. sfs_rbuf a (locals ?s) 4 ?ent (?j * 4) ?s = Some (0, ?s\<lparr>kmem := m\<rparr>) \<and>
        of_le32 (bytes_at m (locals ?s) 4) = indirect_ent ?s ?ent ?j \<and> touched a ?s {} m"
      by (rule read_ent) (use wf lo I(4) [OF ent(1)] j in simp_all)
    then obtain m where m: "sfs_rbuf a (locals s) 4 ?ent (?j * 4) ?s = Some (0, s\<lparr>kmem := m\<rparr>)"
      "of_le32 (bytes_at m (locals s) 4) = indirect_ent ?s ?ent ?j" "touched a ?s {} m" by auto
    have "bmap ?d ?s (unat index) = ?i" by (rule bmap_touched [OF wf t0]) (use I(4) in blast)
    then have e: "indirect_ent ?s ?ent ?j = ?i" using False ent(1) by (simp add: bmap_def)
    have tm: "touched a s {} m" using touched_trans [OF t0 m(3)] by simp
    let ?t = "s\<lparr>kmem := m\<rparr>"
    have sub: "sfs_bmap_get_sub_nolock a ?ent ?w False s = Some (0, ?i, ?ent, ?t)"
      using ent(1) w j m(1,2) e by (simp add: sfs_bmap_get_sub_nolock_def Let_def SFS_BLK_NENTRY_def)
    have inuse: "sfs_block_inuse a ?i ?t = Some True" by (rule used_block_inuse) (use wf u in simp_all)
    have "sfs_bmap_get_nolock a n index False s = Some (0, ?i, ?t)"
      using sin False w j sub nz inuse
      by (simp add: sfs_bmap_get_nolock_def SFS_NDIRECT_def SFS_BLK_NENTRY_def Let_def)
    then have "sfs_bmap_load_nolock a n index s = Some (0, ?i, ?t)"
      using sin guard inuse by (simp add: sfs_bmap_load_nolock_def Let_def)
    then show ?thesis using tm by blast
  qed
qed

end
