(* ===== verification/SfsFile.thy ===== *)
theory SfsFile
  imports SfsInode
begin

text \<open>
  The inodes of the simple file system, \<^verbatim>\<open>fs/sfs/sfs_inode.c\<close>, second part: reading and
  writing files, truncation, synchronisation, the status operations.
\<close>

section \<open>Reading and writing\<close>

definition sfs_buf_op :: "bool \<Rightarrow> addr \<Rightarrow> addr \<Rightarrow> nat \<Rightarrow> u32 \<Rightarrow> nat \<Rightarrow> kfs \<Rightarrow> (int \<times> kfs) option" where
  "sfs_buf_op wr = (if wr then sfs_wbuf else sfs_rbuf)"

definition sfs_block_op :: "bool \<Rightarrow> addr \<Rightarrow> addr \<Rightarrow> u32 \<Rightarrow> u32 \<Rightarrow> kfs \<Rightarrow> (int \<times> kfs) option" where
  "sfs_block_op wr = (if wr then sfs_wblock else sfs_rblock)"

text \<open>
  One step of \<^verbatim>\<open>sfs_io_nolock\<close>: \<open>sz\<close> bytes at offset \<open>off\<close> of block \<open>blkno\<close>. The results are
  the return value and the state; \<^verbatim>\<open>alen\<close>, \<^verbatim>\<open>buf\<close> and \<^verbatim>\<open>blkno\<close> advance when it is 0.
\<close>

definition sfs_io_part :: "addr \<Rightarrow> addr \<Rightarrow> bool \<Rightarrow> addr \<Rightarrow> nat \<Rightarrow> u32 \<Rightarrow> nat \<Rightarrow> kfs \<Rightarrow> (int \<times> kfs) option" where
  "sfs_io_part sfs node wr buf sz blkno off s = do {
     (ret, i, s) \<leftarrow> sfs_bmap_load_nolock sfs node blkno s;
     if ret \<noteq> 0 then Some (ret, s) else sfs_buf_op wr sfs buf sz i off s
   }"

text \<open>The loop over the aligned blocks returns the result, \<^verbatim>\<open>alen\<close>, \<^verbatim>\<open>buf\<close> and \<^verbatim>\<open>blkno\<close>.\<close>

fun sfs_io_blocks :: "addr \<Rightarrow> addr \<Rightarrow> bool \<Rightarrow> nat \<Rightarrow> addr \<Rightarrow> u32 \<Rightarrow> nat \<Rightarrow> kfs \<Rightarrow>
    (int \<times> nat \<times> addr \<times> u32 \<times> kfs) option" where
  "sfs_io_blocks sfs node wr 0 buf blkno alen s = Some (0, alen, buf, blkno, s)"
| "sfs_io_blocks sfs node wr (Suc nblks) buf blkno alen s = do {
     (ret, i, s) \<leftarrow> sfs_bmap_load_nolock sfs node blkno s;
     if ret \<noteq> 0 then Some (ret, alen, buf, blkno, s)
     else do {
       (ret, s) \<leftarrow> sfs_block_op wr sfs buf i 1 s;
       if ret \<noteq> 0 then Some (ret, alen, buf, blkno, s)
       else sfs_io_blocks sfs node wr nblks (buf + SFS_BLKSIZE) (blkno + 1) (alen + SFS_BLKSIZE) s
     }
   }"

text \<open>The loop and the tail: result, \<^verbatim>\<open>alen\<close>, state.\<close>

definition sfs_io_rest :: "addr \<Rightarrow> addr \<Rightarrow> bool \<Rightarrow> nat \<Rightarrow> addr \<Rightarrow> u32 \<Rightarrow> nat \<Rightarrow> int \<Rightarrow> kfs \<Rightarrow>
    (int \<times> nat \<times> kfs) option" where
  "sfs_io_rest sfs node wr nblks buf blkno alen endpos s = do {
     (ret, alen, buf, blkno, s) \<leftarrow> sfs_io_blocks sfs node wr nblks buf blkno alen s;
     let sz = nat (endpos mod int SFS_BLKSIZE);
     if ret \<noteq> 0 then Some (ret, alen, s)
     else if sz \<noteq> 0 then do {
       (ret, s) \<leftarrow> sfs_io_part sfs node wr buf sz blkno 0 s;
       Some (ret, if ret \<noteq> 0 then alen else alen + sz, s)
     }
     else Some (0, alen, s)
   }"

text \<open>From the computation of \<^verbatim>\<open>blkno\<close> to the label \<^verbatim>\<open>out\<close>: result, \<^verbatim>\<open>alen\<close>, state.\<close>

definition sfs_io_steps :: "addr \<Rightarrow> addr \<Rightarrow> addr \<Rightarrow> int \<Rightarrow> int \<Rightarrow> bool \<Rightarrow> kfs \<Rightarrow> (int \<times> nat \<times> kfs) option" where
  "sfs_io_steps sfs node buf offset endpos wr s = do {
     let blkno = (word_of_int (offset div int SFS_BLKSIZE) :: u32);
     let nblks = (word_of_int (endpos div int SFS_BLKSIZE) - blkno :: u32);
     let blkoff = nat (offset mod int SFS_BLKSIZE);
     (ret, out, alen, buf, blkno, nblks, s) \<leftarrow>
       (if blkoff \<noteq> 0 then do {
          let sz = (if nblks \<noteq> 0 then SFS_BLKSIZE - blkoff else nat (endpos - offset));
          (ret, s) \<leftarrow> sfs_io_part sfs node wr buf sz blkno blkoff s;
          if ret \<noteq> 0 then Some (ret, True, 0, buf, blkno, nblks, s)
          else if nblks = 0 then Some (0, True, sz, buf + sz, blkno + 1, nblks, s)
          else Some (0, False, sz, buf + sz, blkno + 1, nblks - 1, s)
        }
        else Some (0, False, 0, buf, blkno, nblks, s));
     if out then Some (ret, alen, s)
     else sfs_io_rest sfs node wr (unat nblks) buf blkno alen endpos s
   }"

text \<open>\<^verbatim>\<open>offset + *alenp\<close> is a sum of 64-bit words, read as a signed number.\<close>

definition sfs_io_nolock :: "addr \<Rightarrow> addr \<Rightarrow> addr \<Rightarrow> int \<Rightarrow> nat \<Rightarrow> bool \<Rightarrow> kfs \<Rightarrow> (int \<times> nat \<times> kfs) option" where
  "sfs_io_nolock sfs node buf offset alen wr s = do {
     sin \<leftarrow> vop_sin node s;
     ensure (itype (din sin) \<noteq> SFS_TYPE_DIR);
     let endpos = sint (word_of_int offset + of_nat alen :: u64);
     if offset < 0 \<or> offset \<ge> SFS_MAX_FILE_SIZE \<or> offset > endpos then Some (- E_INVAL, 0, s)
     else if offset = endpos then Some (0, 0, s)
     else do {
       let endpos = (if endpos > SFS_MAX_FILE_SIZE then SFS_MAX_FILE_SIZE else endpos);
       if \<not> wr \<and> offset \<ge> uint (isz (din sin)) then Some (0, 0, s)
       else do {
         let endpos = (if \<not> wr \<and> endpos > uint (isz (din sin)) then uint (isz (din sin)) else endpos);
         (ret, alen, s) \<leftarrow> sfs_io_steps sfs node buf offset endpos wr s;
         sin \<leftarrow> vop_sin node s;
         if wr \<and> offset + int alen > uint (isz (din sin)) then do {
           let s = upd_din node (\<lambda>d. d\<lparr>isz := word_of_int (offset + int alen)\<rparr>) s;
           Some (ret, alen, upd_sin node (dirty_update (\<lambda>_. True)) s)
         }
         else Some (ret, alen, s)
       }
     }
   }"

text \<open>\<^verbatim>\<open>fsop_info(vop_fs(node), sfs)\<close>: the file system of the inode.\<close>

definition vop_sfs :: "addr \<Rightarrow> kfs \<Rightarrow> addr option" where
  "vop_sfs node s = do {
     i \<leftarrow> inodes s node;
     f \<leftarrow> fss s (in_fs i);
     Some (in_fs i)
   }"

definition sfs_io :: "addr \<Rightarrow> iobuf \<Rightarrow> bool \<Rightarrow> kfs \<Rightarrow> (int \<times> iobuf \<times> kfs) option" where
  "sfs_io node iob wr s = do {
     sfs \<leftarrow> vop_sfs node s;
     s \<leftarrow> lock_sin node s;
     (ret, alen, s) \<leftarrow> sfs_io_nolock sfs node (io_base iob) (io_offset iob) (io_resid iob) wr s;
     iob \<leftarrow> (if alen \<noteq> 0 then iobuf_skip alen iob else Some iob);
     Some (ret, iob, unlock_sin node s)
   }"

definition sfs_read :: "addr \<Rightarrow> iobuf \<Rightarrow> kfs \<Rightarrow> (int \<times> iobuf \<times> kfs) option" where
  "sfs_read node iob s = sfs_io node iob False s"

definition sfs_write :: "addr \<Rightarrow> iobuf \<Rightarrow> kfs \<Rightarrow> (int \<times> iobuf \<times> kfs) option" where
  "sfs_write node iob s = sfs_io node iob True s"

section \<open>Truncation and synchronisation\<close>

fun sfs_grow :: "addr \<Rightarrow> addr \<Rightarrow> nat \<Rightarrow> u32 \<Rightarrow> kfs \<Rightarrow> (int \<times> kfs) option" where
  "sfs_grow sfs node 0 nblks s = Some (0, s)"
| "sfs_grow sfs node (Suc n) nblks s = do {
     (ret, i, s) \<leftarrow> sfs_bmap_load_nolock sfs node nblks s;
     if ret \<noteq> 0 then Some (ret, s) else sfs_grow sfs node n (nblks + 1) s
   }"

fun sfs_shrink :: "addr \<Rightarrow> addr \<Rightarrow> nat \<Rightarrow> kfs \<Rightarrow> (int \<times> kfs) option" where
  "sfs_shrink sfs node 0 s = Some (0, s)"
| "sfs_shrink sfs node (Suc n) s = do {
     (ret, s) \<leftarrow> sfs_bmap_truncate_nolock sfs node s;
     if ret \<noteq> 0 then Some (ret, s) else sfs_shrink sfs node n s
   }"

definition sfs_truncfile :: "addr \<Rightarrow> int \<Rightarrow> kfs \<Rightarrow> (int \<times> kfs) option" where
  "sfs_truncfile node len s = do {
     if len < 0 \<or> len > SFS_MAX_FILE_SIZE then Some (- E_INVAL, s)
     else do {
       sfs \<leftarrow> vop_sfs node s;
       sin \<leftarrow> vop_sin node s;
       let tblks = (of_nat (ROUNDUP_DIV (nat len) SFS_BLKSIZE) :: u32);
       if uint (isz (din sin)) = len then do {
         ensure (tblks = blocks (din sin));
         Some (0, s)
       }
       else do {
         s \<leftarrow> lock_sin node s;
         let nblks = blocks (din sin);
         (ret, s) \<leftarrow>
           (if nblks < tblks then sfs_grow sfs node (unat (tblks - nblks)) nblks s
            else if tblks < nblks then sfs_shrink sfs node (unat (nblks - tblks)) s
            else Some (0, s));
         if ret \<noteq> 0 then Some (ret, unlock_sin node s)
         else do {
           sin \<leftarrow> vop_sin node s;
           ensure (blocks (din sin) = tblks);
           let s = upd_din node (\<lambda>d. d\<lparr>isz := word_of_int len\<rparr>) s;
           let s = upd_sin node (dirty_update (\<lambda>_. True)) s;
           Some (0, unlock_sin node s)
         }
       }
     }
   }"

text \<open>The disk inode is written from \<open>locals\<close>.\<close>

definition sfs_fsync :: "addr \<Rightarrow> kfs \<Rightarrow> (int \<times> kfs) option" where
  "sfs_fsync node s = do {
     sfs \<leftarrow> vop_sfs node s;
     sin \<leftarrow> vop_sin node s;
     if dirty sin then do {
       s \<leftarrow> lock_sin node s;
       sin \<leftarrow> vop_sin node s;
       (ret, s) \<leftarrow>
         (if dirty sin then do {
            let s = upd_sin node (dirty_update (\<lambda>_. False)) s;
            let s = s\<lparr>kmem := store_bytes (locals s) (din_bytes (din sin)) (kmem s)\<rparr>;
            (ret, s) \<leftarrow> sfs_wbuf sfs (locals s) 64 (ino sin) 0 s;
            Some (ret, if ret \<noteq> 0 then upd_sin node (dirty_update (\<lambda>_. True)) s else s)
          }
          else Some (0, s));
       Some (ret, unlock_sin node s)
     }
     else Some (0, s)
   }"

section \<open>Opening, closing and status\<close>

definition sfs_opendir :: "addr \<Rightarrow> u32 \<Rightarrow> int" where
  "sfs_opendir node open_flags =
     (if open_flags AND O_ACCMODE \<noteq> O_RDONLY then - E_ISDIR
      else if open_flags AND O_APPEND \<noteq> 0 then - E_ISDIR
      else 0)"

definition sfs_openfile :: "addr \<Rightarrow> u32 \<Rightarrow> int" where
  "sfs_openfile node open_flags = 0"

definition sfs_gettype :: "addr \<Rightarrow> kfs \<Rightarrow> (int \<times> u32) option" where
  "sfs_gettype node s = do {
     sin \<leftarrow> vop_sin node s;
     let ty = itype (din sin);
     if ty = SFS_TYPE_DIR then Some (0, S_IFDIR)
     else if ty = SFS_TYPE_FILE then Some (0, S_IFREG)
     else if ty = SFS_TYPE_LINK then Some (0, S_IFLNK)
     else None
   }"

section \<open>What a read returns\<close>

text \<open>The byte of the file at position \<open>k\<close>.\<close>

definition fbyte :: "disk_inode \<Rightarrow> kfs \<Rightarrow> nat \<Rightarrow> u8" where
  "fbyte d s k = blk s (unat (bmap d s (k div SFS_BLKSIZE))) ! (k mod SFS_BLKSIZE)"

definition file_ok :: "addr \<Rightarrow> addr \<Rightarrow> sfs_inode \<Rightarrow> kfs \<Rightarrow> bool" where
  "file_ok a n sin s \<longleftrightarrow> fs_wf a s \<and> locals_ok a s \<and> inode_wf a n s \<and> vop_sin n s = Some sin"

lemma file_okD:
  assumes "file_ok a n sin s"
  shows "fs_wf a s" and "locals_ok a s" and "inode_wf a n s" and "vop_sin n s = Some sin"
  using assms by (auto simp: file_ok_def)

lemma file_ok_touched: "file_ok a n sin s \<Longrightarrow> touched a s B m \<Longrightarrow> file_ok a n sin (s\<lparr>kmem := m\<rparr>)"
  by (auto simp: file_ok_def intro: inode_wf_touched)

lemma fbyte_touched:
  assumes ok: "file_ok a n sin s" and t: "touched a s B m" and k: "k div SFS_BLKSIZE < unat (blocks (din sin))"
  shows "fbyte (din sin) (s\<lparr>kmem := m\<rparr>) k = fbyte (din sin) s k"
proof -
  note F = file_okD [OF ok]
  note I = inode_wfD [OF F(3,4)]
  have "bmap (din sin) (s\<lparr>kmem := m\<rparr>) (k div SFS_BLKSIZE) = bmap (din sin) s (k div SFS_BLKSIZE)"
    by (rule bmap_touched [OF F(1) t]) (use I(4) in blast)
  moreover have "unat (bmap (din sin) s (k div SFS_BLKSIZE)) < disk_blocks s"
    by (rule used_block_less [OF F(1) I(3) [OF k]])
  ultimately show ?thesis using t by (simp add: fbyte_def touched_def)
qed

lemma fbyte_block: "i < SFS_BLKSIZE \<Longrightarrow> fbyte d s (b * SFS_BLKSIZE + i) = blk s (unat (bmap d s b)) ! i"
  by (simp add: fbyte_def)

lemma used_blockD:
  assumes "fs_wf a s" and "used_block a s i"
  obtains f where "fss s a = Some f" "fs_dev_ok a s" "io_sem f > 0" "i \<noteq> 0" "unat i < unat (sblocks (super f))"
  using assms fs_wfD(1,2) [OF assms(1)]
  by (auto simp: used_block_def word_less_nat_alt split: option.splits)

lemma scratch_area: "fss s a = Some f \<Longrightarrow> B \<inter> scratch a s = {} \<Longrightarrow> B \<inter> io_area s (sfs_buffer f) = {}"
  by (auto simp: scratch_def)

text \<open>A buffer that does not meet the I/O area lies apart from the disk and its buffer.\<close>

lemma area_buf_ok:
  assumes "{p..<p + n} \<inter> io_area s sb = {}" and "0 < n" and "0 < disk_blocks s"
  shows "buf_ok s p n"
proof -
  have "disjoint p n b k" if s: "{p..<p + n} \<inter> {b..<b + k} = {}" "0 < k" for b k
  proof (rule ccontr)
    assume "\<not> disjoint p n b k"
    then have "max p b \<in> {p..<p + n} \<inter> {b..<b + k}" using assms(2) s(2) by (auto simp: disjoint_def)
    with s show False by blast
  qed
  then show ?thesis using assms(1,3) by (simp add: buf_ok_def io_area_def Int_Un_distrib)
qed

lemma touched_area:
  assumes "fss s a = Some f" and "\<forall>b'<disk_blocks s. blk_of s m b' = blk s b'"
    and "\<forall>x. x \<notin> io_area s (sfs_buffer f) \<longrightarrow> x \<notin> B \<longrightarrow> m x = kmem s x"
  shows "touched a s B m"
  using assms by (auto simp: touched_def scratch_def)

lemma read_part:
  assumes ok: "file_ok a n sin s" and k: "index < blocks (din sin)"
    and off: "off < SFS_BLKSIZE" "off + sz \<le> SFS_BLKSIZE" and buf: "{buf..<buf + sz} \<inter> scratch a s = {}"
  shows "\<exists>m. sfs_io_part a n False buf sz index off s = Some (0, s\<lparr>kmem := m\<rparr>) \<and>
    (\<forall>j < sz. m (buf + j) = fbyte (din sin) s (unat index * SFS_BLKSIZE + off + j)) \<and>
    touched a s {buf..<buf + sz} m"
proof -
  note F = file_okD [OF ok]
  let ?i = "bmap (din sin) s (unat index)"
  from sfs_bmap_load_spec [OF F k] obtain m1
    where m1: "sfs_bmap_load_nolock a n index s = Some (0, ?i, s\<lparr>kmem := m1\<rparr>)" "touched a s {} m1" by blast
  let ?t = "s\<lparr>kmem := m1\<rparr>"
  have kk: "unat index < unat (blocks (din sin))" using k by (simp add: word_less_nat_alt)
  have u: "used_block a s ?i" by (rule inode_wfD(3) [OF F(3,4) kk])
  have wt: "fs_wf a ?t" "used_block a ?t ?i" using F(1) u by simp_all
  from used_blockD [OF wt] obtain f
    where f: "fss ?t a = Some f" "fs_dev_ok a ?t" "io_sem f > 0" "?i \<noteq> 0" "unat ?i < unat (sblocks (super f))" .
  have bt: "{buf..<buf + sz} \<inter> io_area ?t (sfs_buffer f) = {}" by (rule scratch_area [OF f(1)]) (use buf in simp)
  from sfs_rbuf_spec [OF f(2,1,3-5) off bt] obtain m
    where m: "sfs_rbuf a buf sz ?i off ?t = Some (0, ?t\<lparr>kmem := m\<rparr>)"
      "bytes_at m buf sz = take sz (drop off (blk ?t (unat ?i)))"
      "\<forall>b'<disk_blocks ?t. blk_of ?t m b' = blk ?t b'"
      "\<forall>x. x \<notin> io_area ?t (sfs_buffer f) \<longrightarrow> x \<notin> {buf..<buf + sz} \<longrightarrow> m x = kmem ?t x" by blast
  have "touched a ?t {buf..<buf + sz} m" by (rule touched_area [OF f(1) m(3,4)])
  with m1(2) have T: "touched a s {buf..<buf + sz} m" using touched_trans by fastforce
  have e: "blk ?t (unat ?i) = blk s (unat ?i)"
    using m1(2) used_block_less [OF F(1) u] by (simp add: touched_def)
  have "m (buf + j) = fbyte (din sin) s (unat index * SFS_BLKSIZE + off + j)" if j: "j < sz" for j
  proof -
    have "m (buf + j) = bytes_at m buf sz ! j" using j by simp
    also have "\<dots> = blk s (unat ?i) ! (off + j)" unfolding m(2) e using j off by simp
    also have "\<dots> = fbyte (din sin) s (unat index * SFS_BLKSIZE + (off + j))"
      by (rule fbyte_block [symmetric]) (use j off in simp)
    finally show ?thesis by (simp only: add.assoc)
  qed
  moreover have "sfs_io_part a n False buf sz index off s = Some (0, s\<lparr>kmem := m\<rparr>)"
    using m1(1) m(1) by (simp add: sfs_io_part_def sfs_buf_op_def)
  ultimately show ?thesis using T by blast
qed

lemma read_block:
  assumes ok: "file_ok a n sin s" and k: "index < blocks (din sin)"
    and buf: "{buf..<buf + SFS_BLKSIZE} \<inter> scratch a s = {}"
  shows "\<exists>i t m. sfs_bmap_load_nolock a n index s = Some (0, i, t) \<and>
    sfs_rblock a buf i 1 t = Some (0, s\<lparr>kmem := m\<rparr>) \<and>
    (\<forall>j<SFS_BLKSIZE. m (buf + j) = fbyte (din sin) s (unat index * SFS_BLKSIZE + j)) \<and>
    touched a s {buf..<buf + SFS_BLKSIZE} m"
proof -
  note F = file_okD [OF ok]
  let ?i = "bmap (din sin) s (unat index)"
  from sfs_bmap_load_spec [OF F k] obtain m1
    where m1: "sfs_bmap_load_nolock a n index s = Some (0, ?i, s\<lparr>kmem := m1\<rparr>)" "touched a s {} m1" by blast
  let ?t = "s\<lparr>kmem := m1\<rparr>"
  have kk: "unat index < unat (blocks (din sin))" using k by (simp add: word_less_nat_alt)
  have u: "used_block a s ?i" by (rule inode_wfD(3) [OF F(3,4) kk])
  have wt: "fs_wf a ?t" "used_block a ?t ?i" using F(1) u by simp_all
  from used_blockD [OF wt] obtain f
    where f: "fss ?t a = Some f" "fs_dev_ok a ?t" "io_sem f > 0" "?i \<noteq> 0" "unat ?i < unat (sblocks (super f))" .
  have "{buf..<buf + SFS_BLKSIZE} \<inter> io_area ?t (sfs_buffer f) = {}"
    by (rule scratch_area [OF f(1)]) (use buf in simp)
  then have bt: "buf_ok ?t buf SFS_BLKSIZE"
    by (rule area_buf_ok) (use used_block_less [OF wt] in simp_all)
  from sfs_rblock_spec [OF f(2,1,3-5) bt] obtain m
    where m: "sfs_rblock a buf ?i 1 ?t = Some (0, ?t\<lparr>kmem := m\<rparr>)"
      "bytes_at m buf SFS_BLKSIZE = blk ?t (unat ?i)"
      "\<forall>b'<disk_blocks ?t. blk_of ?t m b' = blk ?t b'"
      "\<forall>x. x \<notin> io_area ?t (sfs_buffer f) \<longrightarrow> x \<notin> {buf..<buf + SFS_BLKSIZE} \<longrightarrow> m x = kmem ?t x" by blast
  have "touched a ?t {buf..<buf + SFS_BLKSIZE} m" by (rule touched_area [OF f(1) m(3,4)])
  with m1(2) have T: "touched a s {buf..<buf + SFS_BLKSIZE} m" using touched_trans by fastforce
  have e: "blk ?t (unat ?i) = blk s (unat ?i)"
    using m1(2) used_block_less [OF F(1) u] by (simp add: touched_def)
  have "m (buf + j) = fbyte (din sin) s (unat index * SFS_BLKSIZE + j)" if j: "j < SFS_BLKSIZE" for j
  proof -
    have "m (buf + j) = bytes_at m buf SFS_BLKSIZE ! j" using j by simp
    also have "\<dots> = fbyte (din sin) s (unat index * SFS_BLKSIZE + j)"
      unfolding m(2) e by (rule fbyte_block [symmetric, OF j])
    finally show ?thesis .
  qed
  moreover have "sfs_rblock a buf ?i 1 ?t = Some (0, s\<lparr>kmem := m\<rparr>)" using m(1) by simp
  ultimately show ?thesis using T m1(1) by blast
qed

text \<open>With memory \<open>m\<close>, \<open>len\<close> bytes from position \<open>p\<close> of the file have been read to \<open>buf\<close>.\<close>

definition has_read :: "addr \<Rightarrow> disk_inode \<Rightarrow> kfs \<Rightarrow> addr \<Rightarrow> nat \<Rightarrow> nat \<Rightarrow> mem \<Rightarrow> bool" where
  "has_read a d s buf p len m \<longleftrightarrow>
     (\<forall>j < len. m (buf + j) = fbyte d s (p + j)) \<and> touched a s {buf..<buf + len} m"

lemma has_read_0 [simp]: "has_read a d s buf p 0 (kmem s)"
  by (simp add: has_read_def)

lemma has_read_append:
  assumes ok: "file_ok a n sin s" and r1: "has_read a (din sin) s buf p l1 m1"
    and r2: "has_read a (din sin) (s\<lparr>kmem := m1\<rparr>) (buf + l1) (p + l1) l2 m2"
    and buf: "{buf..<buf + (l1 + l2)} \<inter> scratch a s = {}"
    and le: "p + (l1 + l2) \<le> unat (blocks (din sin)) * SFS_BLKSIZE"
  shows "has_read a (din sin) s buf p (l1 + l2) m2"
proof -
  have "m2 (buf + j) = fbyte (din sin) s (p + j)" if j: "j < l1 + l2" for j
  proof (cases "j < l1")
    case True
    have "buf + j \<in> {buf..<buf + (l1 + l2)}" using j by simp
    then have "buf + j \<notin> scratch a s" using buf by blast
    then have "m2 (buf + j) = m1 (buf + j)" using r2 True by (simp add: has_read_def touched_def)
    then show ?thesis using r1 True by (simp add: has_read_def)
  next
    case False
    then have e: "j - l1 < l2" "buf + l1 + (j - l1) = buf + j" "p + l1 + (j - l1) = p + j" using j by auto
    have "\<forall>j < l2. m2 (buf + l1 + j) = fbyte (din sin) (s\<lparr>kmem := m1\<rparr>) (p + l1 + j)"
      using r2 unfolding has_read_def by blast
    with e have "m2 (buf + j) = fbyte (din sin) (s\<lparr>kmem := m1\<rparr>) (p + j)" by metis
    also have "\<dots> = fbyte (din sin) s (p + j)"
      using r1 j le by (intro fbyte_touched [OF ok]) (auto simp: has_read_def less_mult_imp_div_less)
    finally show ?thesis .
  qed
  moreover have "touched a s {buf..<buf + (l1 + l2)} m2"
  proof (rule touched_mono)
    show "touched a s ({buf..<buf + l1} \<union> {buf + l1..<buf + l1 + l2}) m2"
      using r1 r2 by (intro touched_trans) (auto simp: has_read_def)
  qed auto
  ultimately show ?thesis by (simp add: has_read_def)
qed

lemma read_blocks:
  assumes "file_ok a n sin s" and "unat blkno + k \<le> unat (blocks (din sin))"
    and "{buf..<buf + k * SFS_BLKSIZE} \<inter> scratch a s = {}"
  shows "\<exists>m. sfs_io_blocks a n False k buf blkno alen s =
      Some (0, alen + k * SFS_BLKSIZE, buf + k * SFS_BLKSIZE, blkno + of_nat k, s\<lparr>kmem := m\<rparr>) \<and>
    has_read a (din sin) s buf (unat blkno * SFS_BLKSIZE) (k * SFS_BLKSIZE) m"
  using assms
proof (induction k arbitrary: buf blkno alen s)
  case 0
  show ?case by (intro exI [of _ "kmem s"]) simp
next
  case (Suc k)
  have lt: "blkno < blocks (din sin)" using Suc.prems(2) by (simp add: word_less_nat_alt)
  have "{buf..<buf + SFS_BLKSIZE} \<subseteq> {buf..<buf + Suc k * SFS_BLKSIZE}"
    "{buf + SFS_BLKSIZE..<buf + SFS_BLKSIZE + k * SFS_BLKSIZE} \<subseteq> {buf..<buf + Suc k * SFS_BLKSIZE}" by auto
  then have b: "{buf..<buf + SFS_BLKSIZE} \<inter> scratch a s = {}"
    "{buf + SFS_BLKSIZE..<buf + SFS_BLKSIZE + k * SFS_BLKSIZE} \<inter> scratch a s = {}"
    using Suc.prems(3) by blast+
  from read_block [OF Suc.prems(1) lt b(1)] obtain i t m1
    where m1: "sfs_bmap_load_nolock a n blkno s = Some (0, i, t)" "sfs_rblock a buf i 1 t = Some (0, s\<lparr>kmem := m1\<rparr>)"
      "has_read a (din sin) s buf (unat blkno * SFS_BLKSIZE) SFS_BLKSIZE m1" by (auto simp: has_read_def)
  let ?s = "s\<lparr>kmem := m1\<rparr>"
  have ok1: "file_ok a n sin ?s"
    using m1(3) by (intro file_ok_touched [OF Suc.prems(1)]) (auto simp: has_read_def)
  have ub: "unat (blkno + 1) = unat blkno + 1"
    using Suc.prems(2) unat_u32 [of "blocks (din sin)"] by (simp add: unat_word_ariths)
  have "unat (blkno + 1) + k \<le> unat (blocks (din sin))" using Suc.prems(2) ub by simp
  from Suc.IH [OF ok1 this, of "buf + SFS_BLKSIZE" "alen + SFS_BLKSIZE"] b(2) obtain m2
    where m2: "sfs_io_blocks a n False k (buf + SFS_BLKSIZE) (blkno + 1) (alen + SFS_BLKSIZE) ?s =
        Some (0, alen + SFS_BLKSIZE + k * SFS_BLKSIZE, buf + SFS_BLKSIZE + k * SFS_BLKSIZE,
          blkno + 1 + of_nat k, ?s\<lparr>kmem := m2\<rparr>)"
      "has_read a (din sin) ?s (buf + SFS_BLKSIZE) ((unat blkno + 1) * SFS_BLKSIZE) (k * SFS_BLKSIZE) m2"
    by (auto simp: ub)
  have "has_read a (din sin) s buf (unat blkno * SFS_BLKSIZE) (SFS_BLKSIZE + k * SFS_BLKSIZE) m2"
  proof (rule has_read_append [OF Suc.prems(1) m1(3)])
    show "has_read a (din sin) ?s (buf + SFS_BLKSIZE) (unat blkno * SFS_BLKSIZE + SFS_BLKSIZE) (k * SFS_BLKSIZE) m2"
      using m2(2) by (simp add: algebra_simps)
    show "{buf..<buf + (SFS_BLKSIZE + k * SFS_BLKSIZE)} \<inter> scratch a s = {}" using Suc.prems(3) by simp
    have "(unat blkno + Suc k) * SFS_BLKSIZE \<le> unat (blocks (din sin)) * SFS_BLKSIZE"
      using Suc.prems(2) by (rule mult_le_mono1)
    then show "unat blkno * SFS_BLKSIZE + (SFS_BLKSIZE + k * SFS_BLKSIZE) \<le> unat (blocks (din sin)) * SFS_BLKSIZE"
      by (simp add: algebra_simps)
  qed
  moreover have "sfs_io_blocks a n False (Suc k) buf blkno alen s =
      Some (0, alen + Suc k * SFS_BLKSIZE, buf + Suc k * SFS_BLKSIZE, blkno + of_nat (Suc k), s\<lparr>kmem := m2\<rparr>)"
    using m1(1,2) m2(1) by (simp add: sfs_block_op_def add.assoc)
  ultimately show ?case by (intro exI [of _ m2]) simp
qed

lemma sub_range: "a \<le> b \<Longrightarrow> c \<le> d \<Longrightarrow> {b..<c} \<subseteq> {a..<(d :: nat)}"
  by auto

lemma read_rest:
  assumes ok: "file_ok a n sin s" and b: "b \<le> b1" "r1 < SFS_BLKSIZE"
    and le: "b1 * SFS_BLKSIZE + r1 \<le> unat (blocks (din sin)) * SFS_BLKSIZE"
    and buf: "{buf..<buf + ((b1 - b) * SFS_BLKSIZE + r1)} \<inter> scratch a s = {}"
    and e: "endpos = int (b1 * SFS_BLKSIZE + r1)"
  shows "\<exists>m. sfs_io_rest a n False (b1 - b) buf (of_nat b) alen endpos s =
      Some (0, alen + ((b1 - b) * SFS_BLKSIZE + r1), s\<lparr>kmem := m\<rparr>) \<and>
    has_read a (din sin) s buf (b * SFS_BLKSIZE) ((b1 - b) * SFS_BLKSIZE + r1) m"
proof -
  let ?k = "b1 - b" and ?N = "unat (blocks (din sin))"
  have N: "?N \<le> 1036" using file_okD(3,4) [OF ok] inode_wfD(2) by blast
  have b1: "b1 \<le> ?N" "r1 \<noteq> 0 \<Longrightarrow> b1 < ?N"
    using le by linarith+
  have ub: "unat (of_nat x :: u32) = x" if "x \<le> 1036" for x using that by (simp add: unat_of_nat)
  have k: "unat (of_nat b :: u32) + ?k \<le> ?N" using b(1) b1(1) N ub [of b] by simp
  have s: "{buf..<buf + ?k * SFS_BLKSIZE} \<subseteq> {buf..<buf + (?k * SFS_BLKSIZE + r1)}" by (rule sub_range) simp_all
  have ubb: "unat (of_nat b :: u32) = b" using b(1) b1(1) N by (intro ub) linarith
  have kb: "{buf..<buf + ?k * SFS_BLKSIZE} \<inter> scratch a s = {}" using buf s by blast
  from read_blocks [OF ok k kb, of alen] obtain m1
    where m1: "sfs_io_blocks a n False ?k buf (of_nat b) alen s =
        Some (0, alen + ?k * SFS_BLKSIZE, buf + ?k * SFS_BLKSIZE, of_nat b + of_nat ?k, s\<lparr>kmem := m1\<rparr>)"
      "has_read a (din sin) s buf (b * SFS_BLKSIZE) (?k * SFS_BLKSIZE) m1"
    unfolding ubb by blast
  have sz: "nat (endpos mod int SFS_BLKSIZE) = r1"
    by (simp only: e zmod_int [symmetric] nat_int) (use b(2) in simp)
  show ?thesis
  proof (cases "r1 = 0")
    case True
    then have "sfs_io_rest a n False ?k buf (of_nat b) alen endpos s =
        Some (0, alen + ?k * SFS_BLKSIZE, s\<lparr>kmem := m1\<rparr>)"
      using m1(1) sz by (simp add: sfs_io_rest_def)
    with m1(2) True show ?thesis by (intro exI [of _ m1]) simp
  next
    case False
    let ?s = "s\<lparr>kmem := m1\<rparr>" and ?w = "of_nat b + of_nat ?k :: u32"
    have w: "unat ?w = b1" using b(1) b1(1) N ub [of b1] by (simp flip: of_nat_add)
    have wl: "?w < blocks (din sin)" using b1(2) [OF False] w by (simp add: word_less_nat_alt)
    have ok1: "file_ok a n sin ?s" using m1(2) by (intro file_ok_touched [OF ok]) (auto simp: has_read_def)
    have s2: "{buf + ?k * SFS_BLKSIZE..<buf + ?k * SFS_BLKSIZE + r1} \<subseteq> {buf..<buf + (?k * SFS_BLKSIZE + r1)}"
      by (rule sub_range) simp_all
    then have bb: "{buf + ?k * SFS_BLKSIZE..<buf + ?k * SFS_BLKSIZE + r1} \<inter> scratch a ?s = {}"
      using buf by (simp only: scratch_kmem) blast
    have r: "0 < SFS_BLKSIZE" "0 + r1 \<le> SFS_BLKSIZE" using b(2) by simp_all
    from read_part [OF ok1 wl r bb] obtain m2
      where m2: "sfs_io_part a n False (buf + ?k * SFS_BLKSIZE) r1 ?w 0 ?s = Some (0, ?s\<lparr>kmem := m2\<rparr>)"
        "has_read a (din sin) ?s (buf + ?k * SFS_BLKSIZE) (b1 * SFS_BLKSIZE) r1 m2"
      unfolding has_read_def w by auto
    have "has_read a (din sin) s buf (b * SFS_BLKSIZE) (?k * SFS_BLKSIZE + r1) m2"
    proof (rule has_read_append [OF ok m1(2) _ buf])
      have e': "b * SFS_BLKSIZE + ?k * SFS_BLKSIZE = b1 * SFS_BLKSIZE"
        using b(1) by (simp flip: add_mult_distrib)
      show "has_read a (din sin) ?s (buf + ?k * SFS_BLKSIZE) (b * SFS_BLKSIZE + ?k * SFS_BLKSIZE) r1 m2"
        using m2(2) by (simp only: e')
      show "b * SFS_BLKSIZE + (?k * SFS_BLKSIZE + r1) \<le> ?N * SFS_BLKSIZE"
        using le by (simp only: add.assoc [symmetric] e')
    qed
    moreover have "sfs_io_rest a n False ?k buf (of_nat b) alen endpos s =
        Some (0, alen + (?k * SFS_BLKSIZE + r1), s\<lparr>kmem := m2\<rparr>)"
      using m1(1) m2(1) sz False by (simp add: sfs_io_rest_def)
    ultimately show ?thesis by blast
  qed
qed

text \<open>The arithmetic of \<^verbatim>\<open>sfs_io_nolock\<close> on positions \<open>o1 \<le> e1\<close> of a file of at most 1036 blocks.\<close>

lemma io_arith:
  assumes "o1 \<le> e1" and "e1 \<le> 1036 * SFS_BLKSIZE"
  shows "word_of_int (int o1 div int SFS_BLKSIZE) = (of_nat (o1 div SFS_BLKSIZE) :: u32)"
    and "word_of_int (int e1 div int SFS_BLKSIZE) - of_nat (o1 div SFS_BLKSIZE) =
      (of_nat (e1 div SFS_BLKSIZE - o1 div SFS_BLKSIZE) :: u32)"
    and "unat (of_nat (e1 div SFS_BLKSIZE - o1 div SFS_BLKSIZE) :: u32) = e1 div SFS_BLKSIZE - o1 div SFS_BLKSIZE"
    and "unat (of_nat (o1 div SFS_BLKSIZE) :: u32) = o1 div SFS_BLKSIZE"
    and "nat (int o1 mod int SFS_BLKSIZE) = o1 mod SFS_BLKSIZE" and "nat (int e1 - int o1) = e1 - o1"
proof -
  have le: "o1 div SFS_BLKSIZE \<le> e1 div SFS_BLKSIZE" using assms(1) by (rule div_le_mono)
  have "e1 div SFS_BLKSIZE \<le> 1036 * SFS_BLKSIZE div SFS_BLKSIZE" using assms(2) by (rule div_le_mono)
  then have lt: "e1 div SFS_BLKSIZE \<le> 1036" by simp
  show "word_of_int (int o1 div int SFS_BLKSIZE) = (of_nat (o1 div SFS_BLKSIZE) :: u32)"
    by (simp only: zdiv_int [symmetric]) simp
  show "word_of_int (int e1 div int SFS_BLKSIZE) - of_nat (o1 div SFS_BLKSIZE) =
      (of_nat (e1 div SFS_BLKSIZE - o1 div SFS_BLKSIZE) :: u32)"
    using le by (simp only: zdiv_int [symmetric]) simp
  show "unat (of_nat (e1 div SFS_BLKSIZE - o1 div SFS_BLKSIZE) :: u32) = e1 div SFS_BLKSIZE - o1 div SFS_BLKSIZE"
    "unat (of_nat (o1 div SFS_BLKSIZE) :: u32) = o1 div SFS_BLKSIZE"
    using le lt by (simp_all only: unat_of_nat) simp_all
  show "nat (int o1 mod int SFS_BLKSIZE) = o1 mod SFS_BLKSIZE"
    by (simp only: zmod_int [symmetric] nat_int)
  show "nat (int e1 - int o1) = e1 - o1" using assms(1) by simp
qed

lemma unat_pred: "0 < k \<Longrightarrow> unat (of_nat k :: u32) = k \<Longrightarrow> unat (of_nat k - 1 :: u32) = k - 1"
  by (subst unat_sub) (simp_all add: word_le_nat_alt)

lemma block_gap:
  assumes "p = b * SFS_BLKSIZE + r" and "q = b1 * SFS_BLKSIZE + r1" and "r < SFS_BLKSIZE" and "Suc b \<le> b1"
  shows "SFS_BLKSIZE - r \<le> q - p" and "(b1 - Suc b) * SFS_BLKSIZE + r1 = q - p - (SFS_BLKSIZE - r)"
    and "Suc b * SFS_BLKSIZE = p + (SFS_BLKSIZE - r)"
proof -
  obtain c where c: "b1 = Suc b + c" using assms(4) by (metis le_Suc_ex)
  show "SFS_BLKSIZE - r \<le> q - p" "(b1 - Suc b) * SFS_BLKSIZE + r1 = q - p - (SFS_BLKSIZE - r)"
    "Suc b * SFS_BLKSIZE = p + (SFS_BLKSIZE - r)"
    using assms(1-3) by (simp_all add: c)
qed

lemma read_steps:
  assumes ok: "file_ok a n sin s" and oe: "o1 < e1" and le: "e1 \<le> unat (blocks (din sin)) * SFS_BLKSIZE"
    and buf: "{buf..<buf + (e1 - o1)} \<inter> scratch a s = {}"
  shows "\<exists>m. sfs_io_steps a n buf (int o1) (int e1) False s = Some (0, e1 - o1, s\<lparr>kmem := m\<rparr>) \<and>
    has_read a (din sin) s buf o1 (e1 - o1) m"
proof -
  let ?b = "o1 div SFS_BLKSIZE" and ?b1 = "e1 div SFS_BLKSIZE"
    and ?r = "o1 mod SFS_BLKSIZE" and ?r1 = "e1 mod SFS_BLKSIZE" and ?N = "unat (blocks (din sin))"
  have N: "?N \<le> 1036" using file_okD(3,4) [OF ok] inode_wfD(2) by blast
  have "?N * SFS_BLKSIZE \<le> 1036 * SFS_BLKSIZE" using N by (rule mult_le_mono1)
  then have "e1 \<le> 1036 * SFS_BLKSIZE" using le by linarith
  note A = io_arith [OF less_imp_le [OF oe] this]
  have dm: "o1 = ?b * SFS_BLKSIZE + ?r" "e1 = ?b1 * SFS_BLKSIZE + ?r1"
    by (simp_all only: div_mult_mod_eq)
  have r: "?r < SFS_BLKSIZE" "?r1 < SFS_BLKSIZE" by simp_all
  have bb: "?b \<le> ?b1" using oe by (intro div_le_mono) simp
  have le': "?b1 * SFS_BLKSIZE + ?r1 \<le> ?N * SFS_BLKSIZE" using le by (simp only: div_mult_mod_eq)
  have ei: "int e1 = int (?b1 * SFS_BLKSIZE + ?r1)" by (simp only: div_mult_mod_eq)
  show ?thesis
  proof (cases "?r = 0")
    case True
    have l: "(?b1 - ?b) * SFS_BLKSIZE + ?r1 = e1 - o1" "?b * SFS_BLKSIZE = o1"
      using dm bb True by (simp_all add: diff_mult_distrib)
    from read_rest [OF ok bb r(2) le' _ ei, of buf 0] buf obtain m
      where m: "sfs_io_rest a n False (?b1 - ?b) buf (of_nat ?b) 0 (int e1) s = Some (0, e1 - o1, s\<lparr>kmem := m\<rparr>)"
        "has_read a (din sin) s buf o1 (e1 - o1) m"
      unfolding l by auto
    have "sfs_io_steps a n buf (int o1) (int e1) False s = Some (0, e1 - o1, s\<lparr>kmem := m\<rparr>)"
      using m(1) True by (simp only: sfs_io_steps_def Let_def A) (simp add: A(3))
    with m(2) show ?thesis by blast
  next
    case False
    let ?sz = "if ?b1 - ?b \<noteq> 0 then SFS_BLKSIZE - ?r else e1 - o1"
    have sz: "?r + ?sz \<le> SFS_BLKSIZE" "?sz \<le> e1 - o1"
    proof -
      have "e1 - o1 = ?r1 - ?r \<and> ?r \<le> ?r1" if "?b1 - ?b = 0"
      proof -
        have "?b1 = ?b" using that bb by linarith
        with dm(2) have "e1 = ?b * SFS_BLKSIZE + ?r1" by metis
        with dm(1) oe show ?thesis by linarith
      qed
      moreover have "SFS_BLKSIZE - ?r \<le> e1 - o1" if "?b1 - ?b \<noteq> 0"
        by (rule block_gap(1) [OF dm r(1)]) (use that in simp)
      ultimately show "?r + ?sz \<le> SFS_BLKSIZE" "?sz \<le> e1 - o1" using r by (auto simp del: mod_less_divisor)
    qed
    have N: "?b < ?N" using dm False le oe by linarith
    have w: "of_nat ?b < blocks (din sin)" using N A(4) by (simp only: word_less_nat_alt)
    have "{buf..<buf + ?sz} \<subseteq> {buf..<buf + (e1 - o1)}" using sz(2) by auto
    then have bsz: "{buf..<buf + ?sz} \<inter> scratch a s = {}" using buf by blast
    from read_part [OF ok w r(1) sz(1) bsz] obtain m1
      where m1: "sfs_io_part a n False buf ?sz (of_nat ?b) ?r s = Some (0, s\<lparr>kmem := m1\<rparr>)"
        "has_read a (din sin) s buf o1 ?sz m1"
      unfolding has_read_def A(4) dm(1) [symmetric] by blast
    have wz: "(of_nat (?b1 - ?b) :: u32) = 0 \<longleftrightarrow> ?b1 - ?b = 0"
      using A(3) by (metis unat_eq_0)
    show ?thesis
    proof (cases "?b1 - ?b = 0")
      case True
      have "sfs_io_steps a n buf (int o1) (int e1) False s = Some (0, e1 - o1, s\<lparr>kmem := m1\<rparr>)"
        using m1(1) False True by (simp only: sfs_io_steps_def Let_def A wz) simp
      with m1(2) True show ?thesis by (intro exI [of _ m1]) (simp only: if_False not_not simp_thms)
    next
      case ne: False
      let ?s = "s\<lparr>kmem := m1\<rparr>" and ?buf = "buf + (SFS_BLKSIZE - ?r)"
      have ok1: "file_ok a n sin ?s" using m1(2) by (intro file_ok_touched [OF ok]) (auto simp: has_read_def)
      have b2: "Suc ?b \<le> ?b1" using ne by simp
      note l = block_gap(2,3,1) [OF dm r(1) b2]
      have "{?buf..<?buf + (e1 - o1 - (SFS_BLKSIZE - ?r))} \<subseteq> {buf..<buf + (e1 - o1)}"
        using l(3) by auto
      then have bb2: "{?buf..<?buf + ((?b1 - Suc ?b) * SFS_BLKSIZE + ?r1)} \<inter> scratch a ?s = {}"
        using buf unfolding l by (simp only: scratch_kmem) blast
      from read_rest [OF ok1 b2 r(2) le' bb2 ei, of "SFS_BLKSIZE - ?r"] obtain m2
        where m2: "sfs_io_rest a n False (?b1 - Suc ?b) ?buf (of_nat (Suc ?b)) (SFS_BLKSIZE - ?r) (int e1) ?s =
            Some (0, e1 - o1, s\<lparr>kmem := m2\<rparr>)"
          "has_read a (din sin) ?s ?buf (o1 + (SFS_BLKSIZE - ?r)) (e1 - o1 - (SFS_BLKSIZE - ?r)) m2"
        using l(3) unfolding l by auto
      have "has_read a (din sin) s buf o1 (SFS_BLKSIZE - ?r + (e1 - o1 - (SFS_BLKSIZE - ?r))) m2"
      proof (rule has_read_append [OF ok _ m2(2)])
        show "has_read a (din sin) s buf o1 (SFS_BLKSIZE - ?r) m1" using m1(2) by (simp only: if_P [OF ne])
        have e: "SFS_BLKSIZE - ?r + (e1 - o1 - (SFS_BLKSIZE - ?r)) = e1 - o1" using l(3) by simp
        show "{buf..<buf + (SFS_BLKSIZE - ?r + (e1 - o1 - (SFS_BLKSIZE - ?r)))} \<inter> scratch a s = {}"
          unfolding e by (rule buf)
        show "o1 + (SFS_BLKSIZE - ?r + (e1 - o1 - (SFS_BLKSIZE - ?r))) \<le> ?N * SFS_BLKSIZE"
          unfolding e using le oe by simp
      qed
      then have R: "has_read a (din sin) s buf o1 (e1 - o1) m2" using l(3) by simp
      have u1: "unat (of_nat (?b1 - ?b) - 1 :: u32) = ?b1 - Suc ?b"
        using unat_pred [OF _ A(3)] ne by (simp only:) simp
      have "sfs_io_steps a n buf (int o1) (int e1) False s = Some (0, e1 - o1, s\<lparr>kmem := m2\<rparr>)"
        using m1(1) m2(1) False ne
        by (simp only: sfs_io_steps_def Let_def A wz) (simp add: u1 add.commute del: of_nat_diff)
      with R show ?thesis by blast
    qed
  qed
qed

section \<open>Under the lock of the inode\<close>

lemma upd_sin_simps [simp]:
  "kmem (upd_sin n g s) = kmem s" "fss (upd_sin n g s) = fss s" "locals (upd_sin n g s) = locals s"
  "disk_base (upd_sin n g s) = disk_base s" "disk_blocks (upd_sin n g s) = disk_blocks s"
  "disk0_buffer (upd_sin n g s) = disk0_buffer s" "disk0_sem (upd_sin n g s) = disk0_sem s"
  "heap (upd_sin n g s) = heap s" "disk_ok (upd_sin n g s) = disk_ok s"
  "buf_ok (upd_sin n g s) p k = buf_ok s p k"
  by (simp_all add: upd_sin_def upd_inode_def disk_base_def disk_blocks_def VALID_IDE_def
      ide_device_size_def ide_device_valid_def disk_ok_def buf_ok_def)

lemma vop_dev_upd_sin [simp]: "vop_dev x (upd_sin n g s) = vop_dev x s"
  by (auto simp: vop_dev_def upd_sin_def upd_inode_def split: option.splits in_info.splits)

lemma vop_sin_upd_sin [simp]: "vop_sin n (upd_sin n g s) = map_option g (vop_sin n s)"
  by (auto simp: vop_sin_def upd_sin_def upd_inode_def split: option.splits in_info.splits)

lemma vop_sfs_upd_sin [simp]: "vop_sfs x (upd_sin n g s) = vop_sfs x s"
  by (cases "inodes s x") (auto simp: vop_sfs_def upd_sin_def upd_inode_def)

lemma upd_sin_derived [simp]:
  "fs_dev_ok a (upd_sin n g s) = fs_dev_ok a s" "fs_wf a (upd_sin n g s) = fs_wf a s"
  "locals_ok a (upd_sin n g s) = locals_ok a s" "scratch a (upd_sin n g s) = scratch a s"
  "used_block a (upd_sin n g s) i = used_block a s i" "blk (upd_sin n g s) b = blk s b"
  by (simp_all add: fs_dev_ok_def fs_wf_def locals_ok_def scratch_def used_block_def blk_def io_area_def
      cong: option.case_cong)

lemma upd_sin_derived_fun [simp]: "bmap d (upd_sin n g s) = bmap d s" "fbyte d (upd_sin n g s) = fbyte d s"
proof -
  show b: "bmap d (upd_sin n g s) = bmap d s" by (rule ext) (simp add: bmap_def indirect_ent_def)
  show "fbyte d (upd_sin n g s) = fbyte d s" by (rule ext) (simp add: fbyte_def b)
qed

lemma touched_upd_sin [simp]: "touched a (upd_sin n g s) B m = touched a s B m"
proof -
  have "blk ((upd_sin n g s)\<lparr>kmem := m\<rparr>) b = blk_of s m b" for b by (simp add: blk_def)
  then show ?thesis by (simp add: touched_def)
qed

lemma inode_wf_upd_sin: "(\<And>sin. din (g sin) = din sin) \<Longrightarrow> inode_wf a n (upd_sin n g s) = inode_wf a n s"
  by (auto simp: inode_wf_def Let_def split: option.splits)

text \<open>The state while the inode at \<open>n\<close> is locked.\<close>

definition sin_locked :: "addr \<Rightarrow> sfs_inode \<Rightarrow> kfs \<Rightarrow> kfs" where
  "sin_locked n sin s = upd_sin n (sin_sem_update (\<lambda>_. sin_sem sin - 1)) s"

lemma file_ok_locked:
  "file_ok a n sin s \<Longrightarrow> file_ok a n (sin\<lparr>sin_sem := sin_sem sin - 1\<rparr>) (sin_locked n sin s)"
  by (simp add: file_ok_def sin_locked_def inode_wf_upd_sin)

lemma lock_sin_Some:
  "vop_sin n s = Some sin \<Longrightarrow> sin_sem sin > 0 \<Longrightarrow> lock_sin n s = Some (sin_locked n sin s)"
  by (simp add: lock_sin_def sin_locked_def)

lemma upd_sin_id:
  assumes "vop_sin n s = Some sin" and "g sin = sin"
  shows "upd_sin n g s = s"
proof -
  obtain i where i: "inodes s n = Some i" "info i = SfsInfo sin"
    using assms(1) by (auto simp: vop_sin_def split: option.splits in_info.splits)
  then have "i\<lparr>info := SfsInfo sin\<rparr> = i" by (metis inode.surjective inode.update_convs(1))
  then have "(inodes s)(n := map_option (\<lambda>i. i\<lparr>info := (case info i of SfsInfo x \<Rightarrow> SfsInfo (g x) | d \<Rightarrow> d)\<rparr>)
      (inodes s n)) = inodes s" using i assms(2) by (intro fun_upd_idem) simp
  then show ?thesis by (simp add: upd_sin_def upd_inode_def)
qed

lemma upd_sin_comp: "upd_sin n g (upd_sin n h s) = upd_sin n (g \<circ> h) s"
proof -
  have e: "(\<lambda>i. i\<lparr>info := (case info i of SfsInfo x \<Rightarrow> SfsInfo (g x) | d \<Rightarrow> d)\<rparr>) \<circ>
      (\<lambda>i. i\<lparr>info := (case info i of SfsInfo x \<Rightarrow> SfsInfo (h x) | d \<Rightarrow> d)\<rparr>) =
      (\<lambda>i :: inode. i\<lparr>info := (case info i of SfsInfo x \<Rightarrow> SfsInfo ((g \<circ> h) x) | d \<Rightarrow> d)\<rparr>)"
    by (rule ext) (simp split: in_info.split)
  show ?thesis by (simp add: upd_sin_def upd_inode_def option.map_comp e)
qed

lemma upd_sin_kmem: "upd_sin n g (s\<lparr>kmem := m\<rparr>) = (upd_sin n g s)\<lparr>kmem := m\<rparr>"
  by (simp add: upd_sin_def upd_inode_def)

lemma unlock_sin_after:
  assumes "vop_sin n s = Some sin"
  shows "unlock_sin n ((sin_locked n sin s)\<lparr>kmem := m\<rparr>) = s\<lparr>kmem := m\<rparr>"
proof -
  have "upd_sin n (sin_sem_update (\<lambda>n. n + 1) \<circ> sin_sem_update (\<lambda>_. sin_sem sin - 1)) s = s"
    by (rule upd_sin_id [OF assms]) simp
  then show ?thesis by (simp add: unlock_sin_def sin_locked_def upd_sin_kmem upd_sin_comp)
qed

lemma sint_pos:
  assumes "p + r < 2 ^ 63"
  shows "sint (word_of_int (int p) + of_nat r :: u64) = int (p + r)"
proof -
  have "word_of_int (int p) + of_nat r = (of_nat (p + r) :: u64)" by simp
  moreover have "sint (of_nat (p + r) :: u64) = int (p + r)"
    using assms by (simp add: signed_of_nat signed_take_bit_int_eq_self del: of_nat_add)
  ultimately show ?thesis by simp
qed

lemma io_nolock_read:
  assumes "vop_sin n s = Some sin" and "itype (din sin) \<noteq> SFS_TYPE_DIR"
    and "sint (word_of_int p + of_nat r :: u64) = q" and "0 \<le> p" and "p < SFS_MAX_FILE_SIZE" and "p \<le> q"
  shows "sfs_io_nolock a n buf p r False s =
    (if p = q \<or> uint (isz (din sin)) \<le> p then Some (0, 0, s)
     else do {
       (ret, alen, s) \<leftarrow> sfs_io_steps a n buf p (min (min q SFS_MAX_FILE_SIZE) (uint (isz (din sin)))) False s;
       sin \<leftarrow> vop_sin n s;
       Some (ret, alen, s)
     })"
proof -
  let ?u = "uint (isz (din sin))"
  have "(if (if SFS_MAX_FILE_SIZE < q then SFS_MAX_FILE_SIZE else q) > ?u then ?u
      else if SFS_MAX_FILE_SIZE < q then SFS_MAX_FILE_SIZE else q) = min (min q SFS_MAX_FILE_SIZE) ?u"
    by simp
  with assms show ?thesis by (auto simp: sfs_io_nolock_def Let_def simp del: min_less_iff_disj)
qed

lemma read_nolock:
  assumes ok: "file_ok a n sin s" and ty: "itype (din sin) \<noteq> SFS_TYPE_DIR"
    and size: "unat (isz (din sin)) \<le> unat (blocks (din sin)) * SFS_BLKSIZE"
    and p: "int p < SFS_MAX_FILE_SIZE" "p + r < 2 ^ 63" and k: "k = min r (unat (isz (din sin)) - p)"
    and buf: "{buf..<buf + k} \<inter> scratch a s = {}"
  shows "\<exists>m. sfs_io_nolock a n buf (int p) r False s = Some (0, k, s\<lparr>kmem := m\<rparr>) \<and>
    has_read a (din sin) s buf p k m"
proof -
  note F = file_okD [OF ok]
  let ?z = "unat (isz (din sin))"
  let ?u = "uint (isz (din sin))"
  have z: "?u = int ?z" by simp
  have "?z \<le> 1036 * SFS_BLKSIZE"
    using size mult_le_mono1 [OF inode_wfD(2) [OF F(3,4)], of SFS_BLKSIZE] by linarith
  then have zm: "int ?z < SFS_MAX_FILE_SIZE" unfolding SFS_MAX_FILE_SIZE_def by linarith
  note N = io_nolock_read [OF F(4) ty sint_pos [OF p(2)] _ p(1), of a buf]
  show ?thesis
  proof (cases "r = 0 \<or> ?z \<le> p")
    case True
    then have "k = 0" using k by auto
    moreover have "int p = int (p + r) \<or> ?u \<le> int p" using True z by linarith
    then have "sfs_io_nolock a n buf (int p) r False s = Some (0, 0, s)" using N by simp
    ultimately show ?thesis by (intro exI [of _ "kmem s"]) simp
  next
    case False
    let ?e = "p + k"
    have ke: "p < ?e" "?e \<le> ?z" "k = ?e - p" using False k by auto
    have le: "?e \<le> unat (blocks (din sin)) * SFS_BLKSIZE" using ke(2) size by linarith
    from read_steps [OF ok ke(1) le] buf obtain m
      where m: "sfs_io_steps a n buf (int p) (int ?e) False s = Some (0, k, s\<lparr>kmem := m\<rparr>)"
        "has_read a (din sin) s buf p k m" by auto
    have "min (min (int (p + r)) SFS_MAX_FILE_SIZE) ?u = int ?e"
      using k zm z False by linarith
    moreover have "\<not> (int p = int (p + r) \<or> ?u \<le> int p)" using False z by linarith
    ultimately have "sfs_io_nolock a n buf (int p) r False s = Some (0, k, s\<lparr>kmem := m\<rparr>)"
      using N F(4) m(1) by (simp del: of_nat_add)
    with m(2) show ?thesis by blast
  qed
qed

text \<open>\<^verbatim>\<open>sfs_read\<close> takes the lock, reads, advances the I/O buffer and frees the lock.\<close>

lemma sfs_read_spec:
  assumes ok: "file_ok a n sin s" and fs: "vop_sfs n s = Some a" and sem: "sin_sem sin > 0"
    and ty: "itype (din sin) \<noteq> SFS_TYPE_DIR"
    and size: "unat (isz (din sin)) \<le> unat (blocks (din sin)) * SFS_BLKSIZE"
    and p: "io_offset iob = int p" "int p < SFS_MAX_FILE_SIZE" "p + io_resid iob < 2 ^ 63"
    and k: "k = min (io_resid iob) (unat (isz (din sin)) - p)"
    and buf: "{io_base iob..<io_base iob + k} \<inter> scratch a s = {}"
  shows "\<exists>m. sfs_read n iob s = Some (0, advance k iob, s\<lparr>kmem := m\<rparr>) \<and>
    has_read a (din sin) s (io_base iob) p k m"
proof -
  let ?sin = "sin\<lparr>sin_sem := sin_sem sin - 1\<rparr>" and ?L = "sin_locked n sin s"
  note F = file_okD [OF ok]
  have "{io_base iob..<io_base iob + k} \<inter> scratch a ?L = {}" using buf by (simp add: sin_locked_def)
  with read_nolock [OF file_ok_locked [OF ok], of p "io_resid iob" k "io_base iob"] ty size p k obtain m
    where m: "sfs_io_nolock a n (io_base iob) (int p) (io_resid iob) False ?L = Some (0, k, ?L\<lparr>kmem := m\<rparr>)"
      "has_read a (din sin) ?L (io_base iob) p k m" by auto
  have "has_read a (din sin) s (io_base iob) p k m" using m(2) by (simp add: has_read_def sin_locked_def)
  moreover have "(if k \<noteq> 0 then iobuf_skip k iob else Some iob) = Some (advance k iob)"
    using k by (auto simp: iobuf_skip_advance)
  then have "sfs_read n iob s = Some (0, advance k iob, s\<lparr>kmem := m\<rparr>)"
    using fs lock_sin_Some [OF F(4) sem] m(1) p(1) unlock_sin_after [OF F(4)]
    by (simp add: sfs_read_def sfs_io_def)
  ultimately show ?thesis by blast
qed

end
