(* ===== verification/SfsGrow.thy ===== *)
theory SfsGrow
  imports SfsFile
begin

text \<open>
  Files that grow: what \<^verbatim>\<open>sfs_bmap_load_nolock\<close> does at the first block a file does not have.
  It takes a free block, and a second one for the indirect block when block 12 is the first to
  need it; the block map gains one entry and keeps the others, and the invariants of the file
  system and of the inode hold again.
\<close>

section \<open>The entries of an indirect block\<close>

lemma take_of_le32: "4 \<le> length bs \<Longrightarrow> of_le32 (take 4 bs) = of_le32 bs"
  by (simp add: of_le32_def)

lemma ent_update:
  assumes b: "length b = 4096" and j: "j < 1024" "j' < 1024"
  shows "of_le32 (take 4 (drop (4 * j') (take (4 * j) b @ le32 i @ drop (4 * j + 4) b))) =
    (if j' = j then i else of_le32 (take 4 (drop (4 * j') b)))"
proof -
  let ?b = "take (4 * j) b @ le32 i @ drop (4 * j + 4) b"
  consider "j' < j" | "j' = j" | "j < j'" by linarith
  then show ?thesis
  proof cases
    case 1
    then have "drop (4 * j') ?b = drop (4 * j') (take (4 * j) b) @ le32 i @ drop (4 * j + 4) b"
      using b j by simp
    moreover have "4 \<le> length (drop (4 * j') (take (4 * j) b))" using b j 1 by simp
    ultimately have "take 4 (drop (4 * j') ?b) = take 4 (drop (4 * j') (take (4 * j) b))" by simp
    also have "\<dots> = take 4 (drop (4 * j') b)" using 1 by (simp add: drop_take min_def)
    finally show ?thesis using 1 by simp
  next
    case 2
    then have "drop (4 * j') ?b = le32 i @ drop (4 * j + 4) b" using b j by simp
    then have e: "take 4 (drop (4 * j') ?b) = le32 i @ []" by simp
    show ?thesis unfolding e of_le32_le32 using 2 by simp
  next
    case 3
    then obtain x where x: "j' = j + 1 + x" by (metis add.commute le_Suc_ex Suc_leI plus_1_eq_Suc)
    then have "4 * j' = 4 * j + 4 + 4 * x" by simp
    then have "drop (4 * j') ?b = drop (4 * x) (drop (4 * j + 4) b)" using b j by simp
    also have "\<dots> = drop (4 * j') b" using x by (simp add: algebra_simps)
    finally show ?thesis using 3 by simp
  qed
qed

section \<open>The state after a block has been added\<close>

text \<open>
  \<open>grown a n s g b u m\<close>: the free map is \<open>b\<close> with \<open>u\<close> free blocks, the inode at \<open>n\<close> changed by
  \<open>g\<close>, the memory is \<open>m\<close>.
\<close>

definition grown :: "addr \<Rightarrow> addr \<Rightarrow> kfs \<Rightarrow> (sfs_inode \<Rightarrow> sfs_inode) \<Rightarrow> bitmap \<Rightarrow> u32 \<Rightarrow> mem \<Rightarrow> kfs" where
  "grown a n s g b u m = (upd_sin n g (upd_fs a (with_map b u) s))\<lparr>kmem := m\<rparr>"

lemma grown_simps [simp]:
  "kmem (grown a n s g b u m) = m" "disk_base (grown a n s g b u m) = disk_base s"
  "disk_blocks (grown a n s g b u m) = disk_blocks s" "locals (grown a n s g b u m) = locals s"
  "fss (grown a n s g b u m) a = map_option (with_map b u) (fss s a)"
  "vop_sin n (grown a n s g b u m) = map_option g (vop_sin n s)"
  "blk (grown a n s g b u m) k = blk_of s m k" "scratch a (grown a n s g b u m) = scratch a s"
  "disk0_buffer (grown a n s g b u m) = disk0_buffer s"
proof -
  let ?g = "grown a n s g b u m"
  show "kmem ?g = m" "disk_base ?g = disk_base s" "disk_blocks ?g = disk_blocks s" "locals ?g = locals s"
    "fss ?g a = map_option (with_map b u) (fss s a)" "vop_sin n ?g = map_option g (vop_sin n s)"
    "disk0_buffer ?g = disk0_buffer s"
    by (simp_all add: grown_def)
  then show "blk ?g k = blk_of s m k" "scratch a ?g = scratch a s"
    by (auto simp: blk_def scratch_def io_area_def split: option.splits)
qed

lemma grown_wf:
  assumes "fs_wf a s" and "fss s a = Some f" and "wf_bitmap b" and "nbits b = nbits (freemap f)"
    and "free_set b \<subseteq> free_set (freemap f)" and "unat u = card (free_set b)"
  shows "fs_wf a (grown a n s g b u m)"
proof -
  have "fs_wf a (upd_fs a (with_map b u) s)"
    by (rule fs_wf_with_map [OF assms(1-4) _ assms(6)]) (use fs_wfD(5) [OF assms(1,2)] assms(5) in auto)
  then show ?thesis by (simp add: grown_def)
qed

lemma grown_locals_ok [simp]: "locals_ok a (grown a n s g b u m) = locals_ok a s"
  by (auto simp: grown_def locals_ok_def io_area_def split: option.splits)

lemma grown_used:
  assumes "fss s a = Some f"
  shows "used_block a (grown a n s g b u m) i \<longleftrightarrow>
    i \<noteq> 0 \<and> i < sblocks (super f) \<and> unat i \<notin> free_set b"
  using assms by (simp add: used_block_def)

lemma grown_bmap_direct:
  assumes "k < 12"
  shows "bmap d (grown a n s g b u m) k = direct d ! k"
  using assms by (simp add: bmap_def)

text \<open>
  The invariant of the inode after one more block \<open>i\<close>, which was free: the map is the old map
  with \<open>i\<close> at the end.
\<close>

lemma grown_inode_wf:
  assumes wf: "fs_wf a s" and iw: "inode_wf a n s" and sin: "vop_sin n s = Some sin" and f: "fss s a = Some f"
    and sub: "free_set b \<subseteq> free_set (freemap f) - {unat i}"
    and i: "unat i \<in> free_set (freemap f)" "i \<noteq> 0" "i < sblocks (super f)"
    and N: "unat (blocks (din sin)) < 1036"
    and d: "length (direct (din (g sin))) = 12" "blocks (din (g sin)) = blocks (din sin) + 1"
    and bm: "\<And>k. k < 1036 \<Longrightarrow> bmap (din (g sin)) (grown a n s g b u m) k =
      (if k = unat (blocks (din sin)) then i else bmap (din sin) s k)"
    and ind: "indirect (din (g sin)) \<noteq> 0 \<Longrightarrow> indirect (din (g sin)) = indirect (din sin) \<or>
      indirect (din (g sin)) < sblocks (super f) \<and>
      unat (indirect (din (g sin))) \<in> free_set (freemap f) - free_set b - {unat i}"
  shows "inode_wf a n (grown a n s g b u m)"
proof -
  note I = inode_wfD [OF iw sin]
  let ?t = "grown a n s g b u m" and ?d = "din sin" and ?d' = "din (g sin)" and ?N = "unat (blocks (din sin))"
  have N': "unat (blocks ?d') = Suc ?N" using N d(2) by (simp add: unat_word_ariths)
  have old: "used_block a s x \<Longrightarrow> used_block a ?t x \<and> x \<noteq> i" for x
    using sub i(1) by (auto simp: grown_used [OF f] used_block_def f)
  have new: "used_block a ?t i" using sub i by (auto simp: grown_used [OF f])
  have m_old: "bmap ?d' ?t k = bmap ?d s k" if "k < ?N" for k using bm [of k] that N by simp
  have m_new: "bmap ?d' ?t ?N = i" using bm [of ?N] N by simp
  have used: "used_block a ?t (bmap ?d' ?t k)" if "k < Suc ?N" for k
    using that m_old m_new old [OF I(3)] new by (cases "k = ?N") auto
  have indu: "used_block a ?t (indirect ?d')" if nz: "indirect ?d' \<noteq> 0"
    using ind [OF nz] old [OF I(4)] nz by (auto simp: grown_used [OF f])
  have zero: "bmap ?d' ?t k = 0" if "Suc ?N \<le> k" "k < 1036" for k
    using bm [OF that(2)] I(5) [of k] that by simp
  have im: "bmap ?d' ?t ` {..<Suc ?N} = insert i (bmap ?d s ` {..<?N})"
    using m_old m_new by (simp add: lessThan_Suc)
  have ni: "i \<notin> bmap ?d s ` {..<?N}" using old [OF I(3)] by auto
  have inj: "inj_on (bmap ?d' ?t) {..<Suc ?N}"
  proof -
    have "inj_on (bmap ?d' ?t) {..<?N}" using I(6) m_old by (auto simp: inj_on_def)
    moreover have "bmap ?d' ?t ` {..<?N} = bmap ?d s ` {..<?N}" using m_old by auto
    ultimately show ?thesis using ni m_new by (simp add: lessThan_Suc)
  qed
  have "indirect ?d' \<notin> bmap ?d' ?t ` {..<Suc ?N}"
  proof (cases "indirect ?d' = 0")
    case True
    then show ?thesis using used by (auto simp: grown_used [OF f] image_iff)
  next
    case False
    from ind [OF False] show ?thesis
    proof
      assume e: "indirect ?d' = indirect ?d"
      then have "used_block a s (indirect ?d)" using I(4) False by simp
      then show ?thesis unfolding im using e I(7) old by auto
    next
      assume h: "indirect ?d' < sblocks (super f) \<and> unat (indirect ?d') \<in> free_set (freemap f) - free_set b - {unat i}"
      have "indirect ?d' \<noteq> bmap ?d s k" if "k < ?N" for k
        using I(3) [OF that] h by (auto simp: used_block_def f)
      then show ?thesis unfolding im using h by auto
    qed
  qed
  then show ?thesis
    using sin d(1) N N' used indu zero inj by (simp add: inode_wf_def Let_def)
qed

section \<open>Adding a block\<close>

text \<open>
  \<open>grew a n s sin i t\<close>: in \<open>t\<close> the inode at \<open>n\<close> has the free block \<open>i\<close>, cleared, as its new
  last block; every block that was in use, except the indirect block, has the same contents.
\<close>

definition grew :: "addr \<Rightarrow> addr \<Rightarrow> kfs \<Rightarrow> sfs_inode \<Rightarrow> u32 \<Rightarrow> kfs \<Rightarrow> bool" where
  "grew a n s sin i t \<longleftrightarrow> (\<exists>f g b u m. fss s a = Some f \<and> t = grown a n s g b u m \<and> fs_wf a t \<and> inode_wf a n t \<and>
     i \<noteq> 0 \<and> unat i \<in> free_set (freemap f) \<and> free_set b \<subseteq> free_set (freemap f) - {unat i} \<and>
     card (free_set (freemap f)) \<le> card (free_set b) + 2 \<and>
     blocks (din (g sin)) = blocks (din sin) + 1 \<and> isz (din (g sin)) = isz (din sin) \<and>
     itype (din (g sin)) = itype (din sin) \<and> nlinks (din (g sin)) = nlinks (din sin) \<and>
     (indirect (din (g sin)) = indirect (din sin) \<or> unat (indirect (din (g sin))) \<in> free_set (freemap f)) \<and>
     ino (g sin) = ino sin \<and> sin_sem (g sin) = sin_sem sin \<and> reclaim_count (g sin) = reclaim_count sin \<and>
     (\<forall>k<1036. bmap (din (g sin)) t k = (if k = unat (blocks (din sin)) then i else bmap (din sin) s k)) \<and>
     blk_of s m (unat i) = replicate SFS_BLKSIZE 0 \<and>
     (\<forall>x<disk_blocks s. x \<notin> free_set (freemap f) \<longrightarrow> \<not> (indirect (din sin) \<noteq> 0 \<and> x = unat (indirect (din sin))) \<longrightarrow> blk_of s m x = blk s x) \<and>
     (\<forall>x. x \<notin> scratch a s \<longrightarrow> m x = kmem s x))"

lemma sfs_block_inuse_upd [simp]:
  "sfs_block_inuse a i (upd_sin n g s) = sfs_block_inuse a i s"
  "sfs_block_inuse a i (upd_din n h s) = sfs_block_inuse a i s"
  by (simp_all add: sfs_block_inuse_def upd_din_def)

lemma quiet_scratch: "fss s a = Some f \<Longrightarrow> quiet s (sfs_buffer f) m \<Longrightarrow> x \<notin> scratch a s \<Longrightarrow> m x = kmem s x"
  by (simp add: quiet_def scratch_def)

lemma load_create:
  assumes "vop_sin n s = Some sin" and "sfs_bmap_get_nolock a n (blocks (din sin)) True s = Some (0, i, t)"
    and "sfs_block_inuse a i t = Some True"
  shows "sfs_bmap_load_nolock a n (blocks (din sin)) s =
    Some (0, i, upd_din n (\<lambda>d. d\<lparr>blocks := blocks d + 1\<rparr>) t)"
  using assms by (simp add: sfs_bmap_load_nolock_def)

lemma sfs_block_alloc_E:
  assumes "fs_wf a s" and "fss s a = Some f" and "free_set (freemap f) \<noteq> {}"
  obtains i b m where
    "sfs_block_alloc a s = Some (0, i, (upd_fs a (with_map b (unused_blocks (super f) - 1)) s)\<lparr>kmem := m\<rparr>)"
    "i \<noteq> 0" "i < sblocks (super f)" "unat i \<in> free_set (freemap f)" "wf_bitmap b"
    "nbits b = nbits (freemap f)" "free_set b = free_set (freemap f) - {unat i}"
    "unat (unused_blocks (super f) - 1) = card (free_set b)"
    "blk_of s m (unat i) = replicate SFS_BLKSIZE 0"
    "\<forall>b'<disk_blocks s. b' \<noteq> unat i \<longrightarrow> blk_of s m b' = blk s b'" "quiet s (sfs_buffer f) m"
  using sfs_block_alloc_spec [OF assms(1,2)] unfolding if_not_P [OF assms(3)] by blast

lemma grow_direct:
  assumes wf: "fs_wf a s" and lo: "locals_ok a s" and iw: "inode_wf a n s" and sin: "vop_sin n s = Some sin"
    and f: "fss s a = Some f" and free: "free_set (freemap f) \<noteq> {}" and N: "unat (blocks (din sin)) < 12"
  shows "\<exists>i t. sfs_bmap_load_nolock a n (blocks (din sin)) s = Some (0, i, t) \<and> grew a n s sin i t"
proof -
  note I = inode_wfD [OF iw sin]
  let ?N = "unat (blocks (din sin))" and ?u = "unused_blocks (super f) - 1"
  from sfs_block_alloc_E [OF wf f free] obtain i b m
    where A: "sfs_block_alloc a s = Some (0, i, (upd_fs a (with_map b ?u) s)\<lparr>kmem := m\<rparr>)"
      "i \<noteq> 0" "i < sblocks (super f)" "unat i \<in> free_set (freemap f)" "wf_bitmap b"
      "nbits b = nbits (freemap f)" "free_set b = free_set (freemap f) - {unat i}" "unat ?u = card (free_set b)"
      "blk_of s m (unat i) = replicate SFS_BLKSIZE 0"
      "\<forall>b'<disk_blocks s. b' \<noteq> unat i \<longrightarrow> blk_of s m b' = blk s b'" "quiet s (sfs_buffer f) m" .
  let ?ta = "(upd_fs a (with_map b ?u) s)\<lparr>kmem := m\<rparr>"
  let ?g = "\<lambda>x. x\<lparr>dirty := True, din := (din x)\<lparr>direct := (direct (din x))[?N := i], blocks := blocks (din x) + 1\<rparr>\<rparr>"
  let ?t = "grown a n s ?g b ?u m"
  have d0: "direct (din sin) ! ?N = 0" using I(5) [of ?N] N by (simp add: bmap_def)
  have wt: "fs_wf a ?t" by (rule grown_wf [OF wf f A(5,6) _ A(8)]) (use A(7) in blast)
  have "used_block a ?t i" using A(2,3,7) by (simp add: grown_used [OF f])
  then have inuse: "sfs_block_inuse a i ?t = Some True" by (rule used_block_inuse [OF wt])
  moreover have "sfs_block_inuse a i ?t = sfs_block_inuse a i ?ta"
    by (simp add: grown_def sfs_block_inuse_def)
  ultimately have inuse1: "sfs_block_inuse a i ?ta = Some True" by simp
  have get: "sfs_bmap_get_nolock a n (blocks (din sin)) True s = Some (0, i,
      upd_sin n (dirty_update (\<lambda>_. True)) (upd_din n (\<lambda>d. d\<lparr>direct := (direct d)[?N := i]\<rparr>) ?ta))"
    using sin N d0 A(1,2) inuse1 by (simp add: sfs_bmap_get_nolock_def SFS_NDIRECT_def Let_def)
  have te: "upd_din n (\<lambda>d. d\<lparr>blocks := blocks d + 1\<rparr>)
      (upd_sin n (dirty_update (\<lambda>_. True)) (upd_din n (\<lambda>d. d\<lparr>direct := (direct d)[?N := i]\<rparr>) ?ta)) = ?t"
    by (simp add: grown_def upd_din_def upd_sin_comp upd_sin_kmem o_def)
  have load: "sfs_bmap_load_nolock a n (blocks (din sin)) s = Some (0, i, ?t)"
    using load_create [OF sin get] inuse1 te by simp
  have ent: "indirect (din sin) \<noteq> 0 \<Longrightarrow> indirect_ent ?t (indirect (din sin)) j = indirect_ent s (indirect (din sin)) j" for j
  proof -
    assume "indirect (din sin) \<noteq> 0"
    then have u: "used_block a s (indirect (din sin))" by (rule I(4))
    then have "unat (indirect (din sin)) \<noteq> unat i" using A(4) by (auto simp: used_block_def f)
    then show ?thesis using A(10) used_block_less [OF wf u] by (simp add: indirect_ent_def)
  qed
  have bm: "bmap (din (?g sin)) ?t k = (if k = ?N then i else bmap (din sin) s k)" if "k < 1036" for k
  proof (cases "k < 12")
    case True
    then show ?thesis using N I(1) by (simp add: bmap_def)
  next
    case False
    then have "k \<noteq> ?N" using N by simp
    with False show ?thesis using ent by (simp add: bmap_def)
  qed
  have iwt: "inode_wf a n ?t"
  proof (rule grown_inode_wf [OF wf iw sin f _ A(4,2,3) _ _ _ bm])
    show "free_set b \<subseteq> free_set (freemap f) - {unat i}" using A(7) by simp
    show "?N < 1036" using N by simp
  qed (use I(1) in simp_all)
  have "grew a n s sin i ?t"
    unfolding grew_def
  proof (intro exI conjI)
    show "fss s a = Some f" "?t = ?t" "fs_wf a ?t" "inode_wf a n ?t" "i \<noteq> 0" "unat i \<in> free_set (freemap f)"
      by (fact f, rule refl, fact wt, fact iwt, fact A(2), fact A(4))
    show "\<forall>k<1036. bmap (din (?g sin)) ?t k = (if k = ?N then i else bmap (din sin) s k)" using bm by blast
    show "card (free_set (freemap f)) \<le> card (free_set b) + 2" using A(7) by (simp add: card_Diff_singleton_if) linarith
    show "\<forall>x. x \<notin> scratch a s \<longrightarrow> m x = kmem s x" using quiet_scratch [OF f A(11)] by blast
    show "\<forall>x<disk_blocks s. x \<notin> free_set (freemap f) \<longrightarrow> \<not> (indirect (din sin) \<noteq> 0 \<and> x = unat (indirect (din sin))) \<longrightarrow> blk_of s m x = blk s x"
      using A(4,10) by auto
  qed (use A(7,9) in simp_all)
  with load show ?thesis by blast
qed

text \<open>A word of an indirect block is written through \<open>locals\<close>.\<close>

lemma io_area_kmem [simp]: "io_area (s\<lparr>kmem := m\<rparr>) sb = io_area s sb"
  by (simp add: io_area_def)

lemma write_ent:
  assumes wf: "fs_wf a s" and lo: "locals_ok a s" and u: "used_block a s ent" and j: "j < 1024"
  shows "\<exists>m. sfs_wbuf a (locals s) 4 ent (j * 4) (s\<lparr>kmem := store_bytes (locals s) (le32 v) (kmem s)\<rparr>) =
      Some (0, s\<lparr>kmem := m\<rparr>) \<and>
    blk_of s m (unat ent) = take (4 * j) (blk s (unat ent)) @ le32 v @ drop (4 * j + 4) (blk s (unat ent)) \<and>
    (\<forall>b<disk_blocks s. b \<noteq> unat ent \<longrightarrow> blk_of s m b = blk s b) \<and>
    (\<forall>x. x \<notin> scratch a s \<longrightarrow> m x = kmem s x)"
proof -
  let ?ma = "store_bytes (locals s) (le32 v) (kmem s)"
  let ?s = "s\<lparr>kmem := ?ma\<rparr>"
  obtain f where f: "fss s a = Some f" "ent \<noteq> 0" "ent < sblocks (super f)"
    using u by (auto simp: used_block_def split: option.splits)
  have t0: "touched a s {} ?ma" by (rule store_bytes_disk [OF wf lo]) simp
  have wf': "fs_wf a ?s" "fss ?s a = Some f" using wf f by simp_all
  note D = fs_wfD [OF wf']
  have "{locals s..<locals s + 64} \<inter> io_area s (sfs_buffer f) = {}" using lo f(1) by (simp add: locals_ok_def)
  moreover have "{locals s..<locals s + 4} \<subseteq> {locals s..<locals s + 64}" by auto
  ultimately have "{locals s..<locals s + 4} \<inter> io_area s (sfs_buffer f) = {}" by blast
  then have nl: "{locals s..<locals s + 4} \<inter> io_area ?s (sfs_buffer f) = {}" by simp
  have o: "j * 4 < SFS_BLKSIZE" "j * 4 + 4 \<le> SFS_BLKSIZE" using j by auto
  have lt: "unat ent < unat (sblocks (super f))" using f(3) by (simp add: word_less_nat_alt)
  from sfs_wbuf_spec [OF D(1) wf'(2) D(2) f(2) lt o nl] obtain m
    where m': "sfs_wbuf a (locals s) 4 ent (j * 4) ?s = Some (0, ?s\<lparr>kmem := m\<rparr>)"
      "blk_of ?s m (unat ent) = take (j * 4) (blk ?s (unat ent)) @ bytes_at (kmem ?s) (locals s) 4 @
        drop (j * 4 + 4) (blk ?s (unat ent))"
      "\<forall>b<disk_blocks ?s. b \<noteq> unat ent \<longrightarrow> blk_of ?s m b = blk ?s b" "quiet ?s (sfs_buffer f) m"
    by blast
  have ss: "?s\<lparr>kmem := m\<rparr> = s\<lparr>kmem := m\<rparr>" "kmem ?s = ?ma" "disk_blocks ?s = disk_blocks s" by simp_all
  note m = m' [unfolded ss]
  have same: "blk ?s b = blk s b" if "b < disk_blocks s" for b using t0 that by (simp add: touched_def)
  have le: "bytes_at ?ma (locals s) 4 = le32 v"
    using bytes_at_store [of "locals s" "le32 v" "kmem s"] by simp
  have "m x = kmem s x" if x: "x \<notin> scratch a s" for x
  proof -
    have "m x = ?ma x" using m(4) x f(1) by (simp add: quiet_def scratch_def io_area_def)
    also have "\<dots> = kmem s x" using t0 x by (simp add: touched_def)
    finally show ?thesis .
  qed
  moreover have "blk_of s m (unat ent) = take (4 * j) (blk s (unat ent)) @ le32 v @ drop (4 * j + 4) (blk s (unat ent))"
    by (rule m(2) [unfolded le same [OF used_block_less [OF wf u]] mult.commute [of j 4]])
  moreover have "\<forall>b<disk_blocks s. b \<noteq> unat ent \<longrightarrow> blk_of s m b = blk s b" using m(3) same by simp
  ultimately show ?thesis using m(1) by blast
qed

lemma blk_upd_fs_kmem [simp]: "blk ((upd_fs a g s)\<lparr>kmem := m\<rparr>) x = blk_of s m x"
  by (simp add: blk_def)

lemma attach:
  assumes wf: "fs_wf a s" and lo: "locals_ok a s" and f: "fss s a = Some f" and u: "used_block a s ent"
    and j: "j < 1024" and free: "free_set (freemap f) \<noteq> {}"
  obtains i b m m' where
    "sfs_block_alloc a s = Some (0, i, (upd_fs a (with_map b (unused_blocks (super f) - 1)) s)\<lparr>kmem := m\<rparr>)"
    "sfs_wbuf a (locals s) 4 ent (j * 4) ((upd_fs a (with_map b (unused_blocks (super f) - 1)) s)
      \<lparr>kmem := store_bytes (locals s) (le32 i) m\<rparr>) =
      Some (0, (upd_fs a (with_map b (unused_blocks (super f) - 1)) s)\<lparr>kmem := m'\<rparr>)"
    "i \<noteq> 0" "i < sblocks (super f)" "unat i \<in> free_set (freemap f)" "wf_bitmap b"
    "nbits b = nbits (freemap f)" "free_set b = free_set (freemap f) - {unat i}"
    "unat (unused_blocks (super f) - 1) = card (free_set b)"
    "blk_of s m' (unat i) = replicate SFS_BLKSIZE 0"
    "blk_of s m' (unat ent) = take (4 * j) (blk s (unat ent)) @ le32 i @ drop (4 * j + 4) (blk s (unat ent))"
    "\<forall>x<disk_blocks s. x \<noteq> unat i \<longrightarrow> x \<noteq> unat ent \<longrightarrow> blk_of s m' x = blk s x"
    "\<forall>x. x \<notin> scratch a s \<longrightarrow> m' x = kmem s x"
proof -
  let ?u = "unused_blocks (super f) - 1"
  from sfs_block_alloc_E [OF wf f free] obtain i b m
    where A: "sfs_block_alloc a s = Some (0, i, (upd_fs a (with_map b ?u) s)\<lparr>kmem := m\<rparr>)"
      "i \<noteq> 0" "i < sblocks (super f)" "unat i \<in> free_set (freemap f)" "wf_bitmap b"
      "nbits b = nbits (freemap f)" "free_set b = free_set (freemap f) - {unat i}" "unat ?u = card (free_set b)"
      "blk_of s m (unat i) = replicate SFS_BLKSIZE 0"
      "\<forall>b'<disk_blocks s. b' \<noteq> unat i \<longrightarrow> blk_of s m b' = blk s b'" "quiet s (sfs_buffer f) m" .
  let ?t = "(upd_fs a (with_map b ?u) s)\<lparr>kmem := m\<rparr>"
  have "fs_wf a (upd_fs a (with_map b ?u) s)"
    by (rule fs_wf_with_map [OF wf f A(5,6) _ A(8)]) (use A(7) fs_wfD(5) [OF wf f] in blast)
  then have wt: "fs_wf a ?t" by simp
  have eq: "disk_blocks ?t = disk_blocks s" "locals ?t = locals s" "scratch a ?t = scratch a s"
    "locals_ok a ?t = locals_ok a s" "\<And>x m'. blk_of ?t m' x = blk_of s m' x" "kmem ?t = m"
    by (auto simp: scratch_def locals_ok_def io_area_def blk_def split: option.splits)
  have ut: "used_block a ?t ent" using u A(7) f by (auto simp: used_block_def)
  have ne: "unat ent \<noteq> unat i" using u A(4) f by (auto simp: used_block_def)
  have lt: "locals_ok a ?t" using lo eq(4) by simp
  from write_ent [OF wt lt ut j, of i] obtain m'
    where m': "sfs_wbuf a (locals ?t) 4 ent (j * 4) (?t\<lparr>kmem := store_bytes (locals ?t) (le32 i) (kmem ?t)\<rparr>) =
        Some (0, ?t\<lparr>kmem := m'\<rparr>)"
      "blk_of ?t m' (unat ent) = take (4 * j) (blk ?t (unat ent)) @ le32 i @ drop (4 * j + 4) (blk ?t (unat ent))"
      "\<forall>b<disk_blocks ?t. b \<noteq> unat ent \<longrightarrow> blk_of ?t m' b = blk ?t b"
      "\<forall>x. x \<notin> scratch a ?t \<longrightarrow> m' x = kmem ?t x" by blast
  have bt: "blk ?t x = blk_of s m x" for x by (simp add: blk_def)
  have ilt: "unat i < disk_blocks s"
    using A(3) fs_dev_okD(2) [OF fs_wfD(1) [OF wf f] f] by (simp add: word_less_nat_alt)
  have entlt: "unat ent < disk_blocks s" by (rule used_block_less [OF wf u])
  show thesis
  proof (rule that [OF A(1) _ A(2-8)])
    show "sfs_wbuf a (locals s) 4 ent (j * 4) ((upd_fs a (with_map b ?u) s)\<lparr>kmem := store_bytes (locals s) (le32 i) m\<rparr>) =
      Some (0, (upd_fs a (with_map b ?u) s)\<lparr>kmem := m'\<rparr>)"
      using m'(1) by simp
    have "blk_of s m' (unat i) = blk_of s m (unat i)"
      using m'(3) ilt ne by (simp add: eq bt)
    then show "blk_of s m' (unat i) = replicate SFS_BLKSIZE 0" using A(9) by (rule trans)
    have "blk_of s m (unat ent) = blk s (unat ent)" using A(10) entlt ne by blast
    then show "blk_of s m' (unat ent) = take (4 * j) (blk s (unat ent)) @ le32 i @ drop (4 * j + 4) (blk s (unat ent))"
      using m'(2) by (simp only: eq bt)
    show "\<forall>x<disk_blocks s. x \<noteq> unat i \<longrightarrow> x \<noteq> unat ent \<longrightarrow> blk_of s m' x = blk s x"
      using m'(3) A(10) by (simp add: eq bt)
    show "\<forall>x. x \<notin> scratch a s \<longrightarrow> m' x = kmem s x"
      using m'(4) quiet_scratch [OF f A(11)] unfolding eq by simp
  qed
qed

text \<open>From the result of \<^verbatim>\<open>sfs_bmap_get_sub_nolock\<close> to the result of the load.\<close>

lemma grow_from_sub:
  assumes wf: "fs_wf a s" and iw: "inode_wf a n s" and sin: "vop_sin n s = Some sin" and f: "fss s a = Some f"
    and N: "\<not> unat (blocks (din sin)) < 12" "unat (blocks (din sin)) < 1036"
    and sub: "sfs_bmap_get_sub_nolock a (indirect (din sin)) (blocks (din sin) - of_nat SFS_NDIRECT) True s =
      Some (0, i, ent, (upd_fs a (with_map b u) s)\<lparr>kmem := m\<rparr>)"
    and i: "i \<noteq> 0" "i < sblocks (super f)" "unat i \<in> free_set (freemap f)"
    and b: "wf_bitmap b" "nbits b = nbits (freemap f)" "free_set b \<subseteq> free_set (freemap f) - {unat i}"
      "unat u = card (free_set b)" "card (free_set (freemap f)) \<le> card (free_set b) + 2"
    and ent: "ent \<noteq> 0" "ent = indirect (din sin) \<or> indirect (din sin) = 0 \<and> ent < sblocks (super f) \<and>
      unat ent \<in> free_set (freemap f) - free_set b - {unat i}"
    and bl: "\<And>j. j < 1024 \<Longrightarrow> indirect_ent (s\<lparr>kmem := m\<rparr>) ent j =
      (if j = unat (blocks (din sin)) - 12 then i else bmap (din sin) s (12 + j))"
    and zi: "blk_of s m (unat i) = replicate SFS_BLKSIZE 0"
    and old: "\<forall>x<disk_blocks s. x \<notin> free_set (freemap f) \<longrightarrow> \<not> (indirect (din sin) \<noteq> 0 \<and> x = unat (indirect (din sin))) \<longrightarrow> blk_of s m x = blk s x"
    and out: "\<forall>x. x \<notin> scratch a s \<longrightarrow> m x = kmem s x"
  shows "\<exists>i t. sfs_bmap_load_nolock a n (blocks (din sin)) s = Some (0, i, t) \<and> grew a n s sin i t"
proof -
  note I = inode_wfD [OF iw sin]
  let ?N = "unat (blocks (din sin))" and ?ta = "(upd_fs a (with_map b u) s)\<lparr>kmem := m\<rparr>"
  let ?w = "blocks (din sin) - of_nat SFS_NDIRECT"
  have w: "unat ?w = ?N - 12" using N(1) by (simp add: SFS_NDIRECT_def unat_sub word_le_nat_alt)
  define g where "g = (\<lambda>x :: sfs_inode. if ent = indirect (din sin) then x\<lparr>din := (din x)\<lparr>blocks := blocks (din x) + 1\<rparr>\<rparr>
    else x\<lparr>dirty := True, din := (din x)\<lparr>indirect := ent, blocks := blocks (din x) + 1\<rparr>\<rparr>)"
  have g: "din (g sin) = (din sin)\<lparr>blocks := blocks (din sin) + 1, indirect := ent\<rparr>" "ino (g sin) = ino sin"
    "sin_sem (g sin) = sin_sem sin" "reclaim_count (g sin) = reclaim_count sin"
    by (simp_all add: g_def)
  let ?t = "grown a n s g b u m"
  have wt: "fs_wf a ?t" by (rule grown_wf [OF wf f b(1,2) _ b(4)]) (use b(3) in blast)
  have "used_block a ?t i" using i b(3) by (auto simp: grown_used [OF f])
  then have "sfs_block_inuse a i ?t = Some True" by (rule used_block_inuse [OF wt])
  moreover have "sfs_block_inuse a i ?t = sfs_block_inuse a i ?ta" by (simp add: grown_def sfs_block_inuse_def)
  ultimately have inuse1: "sfs_block_inuse a i ?ta = Some True" by simp
  have load: "sfs_bmap_load_nolock a n (blocks (din sin)) s = Some (0, i, ?t)"
  proof (cases "ent = indirect (din sin)")
    case True
    have "sfs_bmap_get_nolock a n (blocks (din sin)) True s = Some (0, i, ?ta)"
      using sin N w sub True i(1) inuse1
      by (simp add: sfs_bmap_get_nolock_def SFS_NDIRECT_def SFS_BLK_NENTRY_def Let_def)
    moreover have "upd_din n (\<lambda>d. d\<lparr>blocks := blocks d + 1\<rparr>) ?ta = ?t"
      using True by (simp add: grown_def g_def upd_din_def upd_sin_kmem)
    ultimately show ?thesis using load_create [OF sin] inuse1 by fastforce
  next
    case False
    then have ind0: "indirect (din sin) = 0" using ent(2) by blast
    let ?tb = "upd_sin n (dirty_update (\<lambda>_. True)) (upd_din n (\<lambda>d. d\<lparr>indirect := ent\<rparr>) ?ta)"
    have inuse2: "sfs_block_inuse a i ?tb = Some True" using inuse1 by simp
    have "sfs_bmap_get_nolock a n (blocks (din sin)) True s = Some (0, i, ?tb)"
      using sin N w sub False ind0 i(1) inuse1
      by (simp add: sfs_bmap_get_nolock_def SFS_NDIRECT_def SFS_BLK_NENTRY_def Let_def)
    moreover have "upd_din n (\<lambda>d. d\<lparr>blocks := blocks d + 1\<rparr>) ?tb = ?t"
      using False by (simp add: grown_def g_def upd_din_def upd_sin_comp upd_sin_kmem o_def)
    ultimately show ?thesis using load_create [OF sin] inuse2 by fastforce
  qed
  have bm: "bmap (din (g sin)) ?t k = (if k = ?N then i else bmap (din sin) s k)" if k: "k < 1036" for k
  proof (cases "k < 12")
    case True
    then show ?thesis using N by (simp add: bmap_def g)
  next
    case False
    then have "bmap (din (g sin)) ?t k = indirect_ent ?t ent (k - 12)" using ent(1) by (simp add: bmap_def g)
    also have "\<dots> = indirect_ent (s\<lparr>kmem := m\<rparr>) ent (k - 12)" by (simp add: indirect_ent_def)
    also have "\<dots> = (if k - 12 = ?N - 12 then i else bmap (din sin) s (12 + (k - 12)))"
      by (rule bl) (use k False in simp)
    also have "\<dots> = (if k = ?N then i else bmap (din sin) s k)"
      using False N by (simp add: eq_diff_iff not_less)
    finally show ?thesis .
  qed
  have iwt: "inode_wf a n ?t"
  proof (rule grown_inode_wf [OF wf iw sin f b(3) i(3,1,2) N(2) _ _ bm])
    show "indirect (din (g sin)) = indirect (din sin) \<or> indirect (din (g sin)) < sblocks (super f) \<and>
        unat (indirect (din (g sin))) \<in> free_set (freemap f) - free_set b - {unat i}"
      using ent(2) by (auto simp: g)
  qed (use I(1) in \<open>simp_all add: g\<close>)
  have "grew a n s sin i ?t"
    unfolding grew_def
  proof (intro exI conjI)
    show "fss s a = Some f" "?t = ?t" "fs_wf a ?t" "inode_wf a n ?t" "i \<noteq> 0" "unat i \<in> free_set (freemap f)"
      by (fact f, rule refl, fact wt, fact iwt, fact i(1), fact i(3))
    show "\<forall>k<1036. bmap (din (g sin)) ?t k = (if k = ?N then i else bmap (din sin) s k)" using bm by blast
    show "indirect (din (g sin)) = indirect (din sin) \<or> unat (indirect (din (g sin))) \<in> free_set (freemap f)"
      using ent(2) by (auto simp: g)
  qed (use b(3,5) zi old out in \<open>simp_all add: g\<close>)
  with load show ?thesis by blast
qed

lemma with_map_with_map [simp]: "with_map b u (with_map b' u' f) = with_map b u f"
  by (simp add: with_map_def)

lemma upd_fs_upd_kmem: "upd_fs a g (s\<lparr>kmem := m\<rparr>) = (upd_fs a g s)\<lparr>kmem := m\<rparr>"
  by (simp add: upd_fs_def)

lemma upd_map_twice:
  "upd_fs a (with_map b u) ((upd_fs a (with_map b' u') s)\<lparr>kmem := m\<rparr>) = (upd_fs a (with_map b u) s)\<lparr>kmem := m\<rparr>"
  by (simp add: upd_fs_upd_kmem upd_fs_comp o_def)

lemma ent_after:
  assumes w: "blk_of s m (unat ent) = take (4 * j) bs @ le32 i @ drop (4 * j + 4) bs"
    and "length bs = 4096" and "j < 1024" and "j' < 1024"
  shows "indirect_ent (s\<lparr>kmem := m\<rparr>) ent j' = (if j' = j then i else of_le32 (take 4 (drop (4 * j') bs)))"
  unfolding indirect_ent_def w by (rule ent_update [OF assms(2-4)])

lemma grow_indirect:
  assumes wf: "fs_wf a s" and lo: "locals_ok a s" and iw: "inode_wf a n s" and sin: "vop_sin n s = Some sin"
    and f: "fss s a = Some f" and free: "free_set (freemap f) \<noteq> {}"
    and N: "\<not> unat (blocks (din sin)) < 12" "unat (blocks (din sin)) < 1036" and ind: "indirect (din sin) \<noteq> 0"
  shows "\<exists>i t. sfs_bmap_load_nolock a n (blocks (din sin)) s = Some (0, i, t) \<and> grew a n s sin i t"
proof -
  note I = inode_wfD [OF iw sin]
  let ?N = "unat (blocks (din sin))" and ?ent = "indirect (din sin)"
  let ?j = "?N - 12" and ?u = "unused_blocks (super f) - 1" and ?w = "blocks (din sin) - of_nat SFS_NDIRECT"
  have j: "?j < 1024" using N by simp
  have w: "unat ?w = ?j" using N(1) by (simp add: SFS_NDIRECT_def unat_sub word_le_nat_alt)
  let ?ma = "store_bytes (locals s) (le32 0) (kmem s)"
  let ?z = "s\<lparr>kmem := ?ma\<rparr>"
  have t0: "touched a s {} ?ma" by (rule store_bytes_disk [OF wf lo]) simp
  have s0: "fs_wf a ?z" "locals_ok a ?z" "used_block a ?z ?ent" using wf lo I(4) [OF ind] by simp_all
  from read_ent [OF s0 j] obtain m1
    where m1: "sfs_rbuf a (locals s) 4 ?ent (?j * 4) ?z = Some (0, s\<lparr>kmem := m1\<rparr>)"
      "of_le32 (bytes_at m1 (locals s) 4) = indirect_ent ?z ?ent ?j" "touched a ?z {} m1" by auto
  have tm: "touched a s {} m1" using touched_trans [OF t0 m1(3)] by simp
  let ?s = "s\<lparr>kmem := m1\<rparr>"
  have bm: "bmap (din sin) ?s k = bmap (din sin) s k" for k
    by (rule bmap_touched [OF wf tm]) (use I(4) in blast)
  have "bmap (din sin) ?z ?N = bmap (din sin) s ?N"
    by (rule bmap_touched [OF wf t0]) (use I(4) in blast)
  then have e0: "indirect_ent ?z ?ent ?j = 0" using N ind I(5) [of ?N] by (simp add: bmap_def)
  have s1: "fs_wf a ?s" "locals_ok a ?s" "fss ?s a = Some f" "used_block a ?s ?ent" using wf lo f I(4) [OF ind] by simp_all
  from attach [OF s1 j free] obtain i b m m'
    where A: "sfs_block_alloc a ?s = Some (0, i, (upd_fs a (with_map b ?u) ?s)\<lparr>kmem := m\<rparr>)"
      "sfs_wbuf a (locals ?s) 4 ?ent (?j * 4) ((upd_fs a (with_map b ?u) ?s)
        \<lparr>kmem := store_bytes (locals ?s) (le32 i) m\<rparr>) = Some (0, (upd_fs a (with_map b ?u) ?s)\<lparr>kmem := m'\<rparr>)"
      "i \<noteq> 0" "i < sblocks (super f)" "unat i \<in> free_set (freemap f)" "wf_bitmap b"
      "nbits b = nbits (freemap f)" "free_set b = free_set (freemap f) - {unat i}" "unat ?u = card (free_set b)"
      "blk_of ?s m' (unat i) = replicate SFS_BLKSIZE 0"
      "blk_of ?s m' (unat ?ent) = take (4 * ?j) (blk ?s (unat ?ent)) @ le32 i @ drop (4 * ?j + 4) (blk ?s (unat ?ent))"
      "\<forall>x<disk_blocks ?s. x \<noteq> unat i \<longrightarrow> x \<noteq> unat ?ent \<longrightarrow> blk_of ?s m' x = blk ?s x"
      "\<forall>x. x \<notin> scratch a ?s \<longrightarrow> m' x = kmem ?s x" .
  have sub: "sfs_bmap_get_sub_nolock a ?ent ?w True s = Some (0, i, ?ent, (upd_fs a (with_map b ?u) s)\<lparr>kmem := m'\<rparr>)"
    using ind w j m1(1,2) e0 A(1,2)
    by (simp add: sfs_bmap_get_sub_nolock_def Let_def SFS_BLK_NENTRY_def upd_fs_upd_kmem)
  have ss: "blk_of ?s m' x = blk_of s m' x" for x by simp
  show ?thesis
  proof (rule grow_from_sub [OF wf iw sin f N sub A(3-7) _ A(9) _ ind])
    show "free_set b \<subseteq> free_set (freemap f) - {unat i}" using A(8) by simp
    show "card (free_set (freemap f)) \<le> card (free_set b) + 2" using A(8) by (simp add: card_Diff_singleton_if) linarith
    show "?ent = ?ent \<or> indirect (din sin) = 0 \<and> ?ent < sblocks (super f) \<and>
        unat ?ent \<in> free_set (freemap f) - free_set b - {unat i}" by simp
    show "blk_of s m' (unat i) = replicate SFS_BLKSIZE 0" using A(10) by (simp only: ss)
    show "\<forall>x<disk_blocks s. x \<notin> free_set (freemap f) \<longrightarrow> \<not> (?ent \<noteq> 0 \<and> x = unat ?ent) \<longrightarrow> blk_of s m' x = blk s x"
      using A(5,12) tm ind by (auto simp: touched_def)
    show "\<forall>x. x \<notin> scratch a s \<longrightarrow> m' x = kmem s x" using A(13) tm by (simp add: touched_def)
    fix k
    assume k: "k < (1024 :: nat)"
    have "indirect_ent (s\<lparr>kmem := m'\<rparr>) ?ent k =
        (if k = ?j then i else of_le32 (take 4 (drop (4 * k) (blk ?s (unat ?ent)))))"
      by (rule ent_after [OF A(11) [unfolded ss] _ j k]) simp
    also have "of_le32 (take 4 (drop (4 * k) (blk ?s (unat ?ent)))) = bmap (din sin) ?s (12 + k)"
      using ind by (simp add: bmap_def indirect_ent_def)
    finally show "indirect_ent (s\<lparr>kmem := m'\<rparr>) ?ent k = (if k = ?j then i else bmap (din sin) s (12 + k))"
      by (simp only: bm)
  qed
qed

lemma zero_ent: "of_le32 (take 4 (drop (4 * j) (replicate SFS_BLKSIZE 0))) = 0" if "j < 1024"
proof -
  have "4 \<le> 4096 - 4 * j" using that by simp
  then have "take 4 (drop (4 * j) (replicate SFS_BLKSIZE (0 :: u8))) = replicate 4 0" by simp
  also have "of_le32 (replicate 4 0) = 0" by (simp add: of_le32_def eval_nat_numeral)
  finally show ?thesis .
qed

lemma grow_first_indirect:
  assumes wf: "fs_wf a s" and lo: "locals_ok a s" and iw: "inode_wf a n s" and sin: "vop_sin n s = Some sin"
    and f: "fss s a = Some f" and free: "2 \<le> card (free_set (freemap f))"
    and N: "\<not> unat (blocks (din sin)) < 12" "unat (blocks (din sin)) < 1036" and ind: "indirect (din sin) = 0"
  shows "\<exists>i t. sfs_bmap_load_nolock a n (blocks (din sin)) s = Some (0, i, t) \<and> grew a n s sin i t"
proof -
  note I = inode_wfD [OF iw sin]
  let ?N = "unat (blocks (din sin))"
  let ?j = "?N - 12" and ?u = "unused_blocks (super f) - 1" and ?w = "blocks (din sin) - of_nat SFS_NDIRECT"
  have j: "?j < 1024" using N by simp
  have w: "unat ?w = ?j" using N(1) by (simp add: SFS_NDIRECT_def unat_sub word_le_nat_alt)
  have "free_set (freemap f) \<noteq> {}" using free by auto
  from sfs_block_alloc_E [OF wf f this] obtain ent b1 m1
    where B: "sfs_block_alloc a s = Some (0, ent, (upd_fs a (with_map b1 ?u) s)\<lparr>kmem := m1\<rparr>)"
      "ent \<noteq> 0" "ent < sblocks (super f)" "unat ent \<in> free_set (freemap f)" "wf_bitmap b1"
      "nbits b1 = nbits (freemap f)" "free_set b1 = free_set (freemap f) - {unat ent}" "unat ?u = card (free_set b1)"
      "blk_of s m1 (unat ent) = replicate SFS_BLKSIZE 0"
      "\<forall>b'<disk_blocks s. b' \<noteq> unat ent \<longrightarrow> blk_of s m1 b' = blk s b'" "quiet s (sfs_buffer f) m1" .
  let ?s = "(upd_fs a (with_map b1 ?u) s)\<lparr>kmem := m1\<rparr>" and ?f = "with_map b1 ?u f"
  have "fs_wf a (upd_fs a (with_map b1 ?u) s)"
    by (rule fs_wf_with_map [OF wf f B(5,6) _ B(8)]) (use B(7) fs_wfD(5) [OF wf f] in blast)
  then have s1: "fs_wf a ?s" by simp
  have eq: "disk_blocks ?s = disk_blocks s" "locals ?s = locals s" "scratch a ?s = scratch a s"
    "locals_ok a ?s = locals_ok a s"
    by (auto simp: scratch_def locals_ok_def io_area_def split: option.splits)
  have s2: "locals_ok a ?s" "fss ?s a = Some ?f" "used_block a ?s ent"
    using lo eq(4) f B(2,3,7) by (simp_all add: used_block_def)
  have c1: "card (free_set b1) = card (free_set (freemap f)) - 1" using B(4,7) by simp
  then have "free_set b1 \<noteq> {}" using free by auto
  then have free1: "free_set (freemap ?f) \<noteq> {}" by simp
  let ?v = "unused_blocks (super ?f) - 1"
  from attach [OF s1 s2(1,2,3) j free1] obtain i b m m'
    where A: "sfs_block_alloc a ?s = Some (0, i, (upd_fs a (with_map b ?v) ?s)\<lparr>kmem := m\<rparr>)"
      "sfs_wbuf a (locals ?s) 4 ent (?j * 4) ((upd_fs a (with_map b ?v) ?s)
        \<lparr>kmem := store_bytes (locals ?s) (le32 i) m\<rparr>) = Some (0, (upd_fs a (with_map b ?v) ?s)\<lparr>kmem := m'\<rparr>)"
      "i \<noteq> 0" "i < sblocks (super ?f)" "unat i \<in> free_set (freemap ?f)" "wf_bitmap b"
      "nbits b = nbits (freemap ?f)" "free_set b = free_set (freemap ?f) - {unat i}" "unat ?v = card (free_set b)"
      "blk_of ?s m' (unat i) = replicate SFS_BLKSIZE 0"
      "blk_of ?s m' (unat ent) = take (4 * ?j) (blk ?s (unat ent)) @ le32 i @ drop (4 * ?j + 4) (blk ?s (unat ent))"
      "\<forall>x<disk_blocks ?s. x \<noteq> unat i \<longrightarrow> x \<noteq> unat ent \<longrightarrow> blk_of ?s m' x = blk ?s x"
      "\<forall>x. x \<notin> scratch a ?s \<longrightarrow> m' x = kmem ?s x" .
  have sub: "sfs_bmap_get_sub_nolock a (indirect (din sin)) ?w True s =
      Some (0, i, ent, (upd_fs a (with_map b ?v) s)\<lparr>kmem := m'\<rparr>)"
    using ind w j B(1,2) A(1,2) by (simp add: upd_map_twice sfs_bmap_get_sub_nolock_def Let_def SFS_BLK_NENTRY_def)
  have ss: "blk_of ?s m' x = blk_of s m' x" "blk ?s x = blk_of s m1 x" for x by simp_all
  have i: "i \<noteq> 0" "i < sblocks (super f)" "unat i \<in> free_set (freemap f)" using A(3-5) B(7) by auto
  have fb: "free_set b = free_set (freemap f) - {unat ent} - {unat i}" using A(8) B(7) by simp
  have c2: "card (free_set b) = card (free_set b1) - 1" using A(5,8) by simp
  show ?thesis
  proof (rule grow_from_sub [OF wf iw sin f N sub i A(6) _ _ A(9) _ B(2)])
    show "nbits b = nbits (freemap f)" using A(7) B(6) by simp
    show "free_set b \<subseteq> free_set (freemap f) - {unat i}" using fb by blast
    show "card (free_set (freemap f)) \<le> card (free_set b) + 2" using c1 c2 by linarith
    show "ent = indirect (din sin) \<or> indirect (din sin) = 0 \<and> ent < sblocks (super f) \<and>
        unat ent \<in> free_set (freemap f) - free_set b - {unat i}"
      using ind B(3,4,7) A(5) fb by auto
    show "blk_of s m' (unat i) = replicate SFS_BLKSIZE 0" using A(10) by (simp only: ss)
    show "\<forall>x<disk_blocks s. x \<notin> free_set (freemap f) \<longrightarrow> \<not> (indirect (din sin) \<noteq> 0 \<and> x = unat (indirect (din sin))) \<longrightarrow> blk_of s m' x = blk s x"
    proof (intro allI impI)
      fix x
      assume x: "x < disk_blocks s" "x \<notin> free_set (freemap f)"
      then have ne: "x \<noteq> unat i" "x \<noteq> unat ent" using i(3) B(4) by auto
      then have "blk_of s m' x = blk_of s m1 x" using A(12) x(1) unfolding ss eq by blast
      also have "\<dots> = blk s x" using B(10) x(1) ne(2) by blast
      finally show "blk_of s m' x = blk s x" .
    qed
    show "\<forall>x. x \<notin> scratch a s \<longrightarrow> m' x = kmem s x"
      using A(13) quiet_scratch [OF f B(11)] unfolding eq by simp
    fix k
    assume k: "k < (1024 :: nat)"
    have w': "blk_of s m' (unat ent) = take (4 * ?j) (replicate SFS_BLKSIZE 0) @ le32 i @ drop (4 * ?j + 4) (replicate SFS_BLKSIZE 0)"
      using A(11) unfolding ss B(9) .
    have "indirect_ent (s\<lparr>kmem := m'\<rparr>) ent k =
        (if k = ?j then i else of_le32 (take 4 (drop (4 * k) (replicate SFS_BLKSIZE 0))))"
      by (rule ent_after [OF w' _ j k]) simp
    also have "\<dots> = (if k = ?j then i else 0)" by (simp only: zero_ent [OF k])
    finally show "indirect_ent (s\<lparr>kmem := m'\<rparr>) ent k = (if k = ?j then i else bmap (din sin) s (12 + k))"
      using ind by (simp add: bmap_def)
  qed
qed

text \<open>With two free blocks a file below the maximal size can always grow by a block.\<close>

lemma grow_file:
  assumes wf: "fs_wf a s" and lo: "locals_ok a s" and iw: "inode_wf a n s" and sin: "vop_sin n s = Some sin"
    and free: "2 \<le> card (free_blocks a s)" and N: "unat (blocks (din sin)) < 1036"
  shows "\<exists>i t. sfs_bmap_load_nolock a n (blocks (din sin)) s = Some (0, i, t) \<and> grew a n s sin i t"
proof -
  obtain f where f: "fss s a = Some f" using wf by (auto simp: fs_wf_def split: option.splits)
  have c: "2 \<le> card (free_set (freemap f))" using free by (simp add: free_blocks_def f)
  then have ne: "free_set (freemap f) \<noteq> {}" by auto
  consider "unat (blocks (din sin)) < 12" | "\<not> unat (blocks (din sin)) < 12" "indirect (din sin) \<noteq> 0"
    | "\<not> unat (blocks (din sin)) < 12" "indirect (din sin) = 0" by blast
  then show ?thesis
  proof cases
    case 1
    then show ?thesis by (rule grow_direct [OF wf lo iw sin f ne])
  next
    case 2
    then show ?thesis by (intro grow_indirect [OF wf lo iw sin f ne _ N])
  next
    case 3
    then show ?thesis by (intro grow_first_indirect [OF wf lo iw sin f c _ N])
  qed
qed

end
