(* ===== verification/SfsWrite.thy ===== *)
theory SfsWrite
  imports SfsGrow
begin

text \<open>
  Writing to a file. A write replaces a range of the file's bytes; past the old last block the
  file gains cleared blocks; blocks of nobody else change, and the invariants are kept. The
  main property is that a read after the write returns the bytes written.
\<close>

section \<open>What a write may change\<close>

text \<open>The blocks of an inode: its data and its indirect block.\<close>

definition own :: "disk_inode \<Rightarrow> kfs \<Rightarrow> nat set" where
  "own d s = unat ` (bmap d s ` {..<unat (blocks d)} \<union> ({indirect d} - {0}))"

text \<open>
  \<open>same_but a n s t\<close>: the states differ only in memory, in the map of free blocks of the file
  system at \<open>a\<close> and in the \<^verbatim>\<open>sfs_inode\<close> at \<open>n\<close>.
\<close>

definition same_but :: "addr \<Rightarrow> addr \<Rightarrow> kfs \<Rightarrow> kfs \<Rightarrow> bool" where
  "same_but a n s t \<longleftrightarrow>
     (\<exists>f b u d i sin. fss s a = Some f \<and> inodes s n = Some i \<and>
       t = s\<lparr>kmem := kmem t,
             fss := (fss s)(a \<mapsto> f\<lparr>freemap := b, super := (super f)\<lparr>unused_blocks := u\<rparr>, super_dirty := d\<rparr>),
             inodes := (inodes s)(n \<mapsto> i\<lparr>info := SfsInfo sin\<rparr>)\<rparr>)"

lemma same_but_trans:
  assumes "same_but a n s t" and "same_but a n t u"
  shows "same_but a n s u"
proof -
  from assms(1) obtain f b v d i sin where 1: "fss s a = Some f" "inodes s n = Some i"
    "t = s\<lparr>kmem := kmem t,
           fss := (fss s)(a \<mapsto> f\<lparr>freemap := b, super := (super f)\<lparr>unused_blocks := v\<rparr>, super_dirty := d\<rparr>),
           inodes := (inodes s)(n \<mapsto> i\<lparr>info := SfsInfo sin\<rparr>)\<rparr>" unfolding same_but_def by blast
  have t: "fss t = (fss s)(a \<mapsto> f\<lparr>freemap := b, super := (super f)\<lparr>unused_blocks := v\<rparr>, super_dirty := d\<rparr>)"
    "inodes t = (inodes s)(n \<mapsto> i\<lparr>info := SfsInfo sin\<rparr>)" by (subst 1(3), simp)+
  from assms(2) obtain f' b' v' d' i' sin' where 2: "fss t a = Some f'" "inodes t n = Some i'"
    "u = t\<lparr>kmem := kmem u,
           fss := (fss t)(a \<mapsto> f'\<lparr>freemap := b', super := (super f')\<lparr>unused_blocks := v'\<rparr>, super_dirty := d'\<rparr>),
           inodes := (inodes t)(n \<mapsto> i'\<lparr>info := SfsInfo sin'\<rparr>)\<rparr>" unfolding same_but_def by blast
  have f': "f' = f\<lparr>freemap := b, super := (super f)\<lparr>unused_blocks := v\<rparr>, super_dirty := d\<rparr>"
    "i' = i\<lparr>info := SfsInfo sin\<rparr>" using 2(1,2) t by simp_all
  have "u = s\<lparr>kmem := kmem u,
           fss := (fss s)(a \<mapsto> f\<lparr>freemap := b', super := (super f)\<lparr>unused_blocks := v'\<rparr>, super_dirty := d'\<rparr>),
           inodes := (inodes s)(n \<mapsto> i\<lparr>info := SfsInfo sin'\<rparr>)\<rparr>"
    by (subst 2(3), subst 1(3)) (simp add: t f')
  with 1(1,2) show ?thesis unfolding same_but_def by blast
qed

lemma same_butD:
  assumes "same_but a n s t"
  shows "disk_base t = disk_base s" and "disk_blocks t = disk_blocks s" and "locals t = locals s"
    and "disk0_buffer t = disk0_buffer s" and "scratch a t = scratch a s" and "locals_ok a t = locals_ok a s"
    and "vop_sfs n t = vop_sfs n s" and "heap t = heap s" and "n' \<noteq> n \<Longrightarrow> inodes t n' = inodes s n'"
proof -
  from assms obtain f b v d i sin where 1: "fss s a = Some f" "inodes s n = Some i"
    "t = s\<lparr>kmem := kmem t,
           fss := (fss s)(a \<mapsto> f\<lparr>freemap := b, super := (super f)\<lparr>unused_blocks := v\<rparr>, super_dirty := d\<rparr>),
           inodes := (inodes s)(n \<mapsto> i\<lparr>info := SfsInfo sin\<rparr>)\<rparr>" unfolding same_but_def by blast
  show d: "disk_base t = disk_base s" "disk_blocks t = disk_blocks s" "locals t = locals s"
    "disk0_buffer t = disk0_buffer s"
    by (subst 1(3), simp add: disk_base_def disk_blocks_def ide_device_size_def ide_device_valid_def VALID_IDE_def)+
  have fs: "fss t = (fss s)(a \<mapsto> f\<lparr>freemap := b, super := (super f)\<lparr>unused_blocks := v\<rparr>, super_dirty := d\<rparr>)"
    by (subst 1(3)) simp
  show "scratch a t = scratch a s" "locals_ok a t = locals_ok a s"
    using d fs 1(1) by (simp_all add: scratch_def locals_ok_def io_area_def)
  show "vop_sfs n t = vop_sfs n s" using 1(1,2)
    by (subst 1(3)) (auto simp: vop_sfs_def fs cong: option.case_cong split: option.splits)
  show "heap t = heap s" by (subst 1(3)) simp
  show "n' \<noteq> n \<Longrightarrow> inodes t n' = inodes s n'" by (subst 1(3)) simp
qed

lemma same_but_refl:
  assumes "fss s a = Some f" and "vop_sin n s = Some sin"
  shows "same_but a n s (s\<lparr>kmem := m\<rparr>)"
proof -
  obtain i where i: "inodes s n = Some i" "info i = SfsInfo sin"
    using assms(2) by (auto simp: vop_sin_def split: option.splits in_info.splits)
  have e: "i\<lparr>info := SfsInfo sin\<rparr> = i" "f\<lparr>freemap := freemap f, super := (super f)
      \<lparr>unused_blocks := unused_blocks (super f)\<rparr>, super_dirty := super_dirty f\<rparr> = f"
    using i(2) by (metis inode.surjective inode.update_convs(1)) simp
  have "s\<lparr>kmem := m\<rparr> = s\<lparr>kmem := kmem (s\<lparr>kmem := m\<rparr>),
      fss := (fss s)(a \<mapsto> f\<lparr>freemap := freemap f, super := (super f)
        \<lparr>unused_blocks := unused_blocks (super f)\<rparr>, super_dirty := super_dirty f\<rparr>),
      inodes := (inodes s)(n \<mapsto> i\<lparr>info := SfsInfo sin\<rparr>)\<rparr>"
    unfolding e using i(1) assms(1) by (simp add: fun_upd_idem)
  with i(1) assms(1) show ?thesis unfolding same_but_def by blast
qed

lemma grown_same_but:
  assumes "fss s a = Some f" and "vop_sin n s = Some sin"
  shows "same_but a n s (grown a n s g b u m)"
proof -
  obtain i where i: "inodes s n = Some i" "info i = SfsInfo sin"
    using assms(2) by (auto simp: vop_sin_def split: option.splits in_info.splits)
  have "grown a n s g b u m = s\<lparr>kmem := kmem (grown a n s g b u m),
      fss := (fss s)(a \<mapsto> f\<lparr>freemap := b, super := (super f)\<lparr>unused_blocks := u\<rparr>, super_dirty := True\<rparr>),
      inodes := (inodes s)(n \<mapsto> i\<lparr>info := SfsInfo (g sin)\<rparr>)\<rparr>"
    using i assms(1) by (simp add: grown_def upd_sin_def upd_inode_def upd_fs_def with_map_def)
  with i(1) assms(1) show ?thesis unfolding same_but_def by blast
qed

text \<open>
  \<open>wrote a n sin s sin' t buf p len\<close>: from \<open>s\<close> to \<open>t\<close>, \<open>len\<close> bytes at \<open>buf\<close> have been written at
  position \<open>p\<close> of the file at \<open>n\<close>, whose inode was \<open>sin\<close> and is \<open>sin'\<close>.
\<close>

definition keeps :: "sfs_inode \<Rightarrow> sfs_inode \<Rightarrow> bool" where
  "keeps sin sin' \<longleftrightarrow> isz (din sin') = isz (din sin) \<and> itype (din sin') = itype (din sin) \<and>
     nlinks (din sin') = nlinks (din sin) \<and> ino sin' = ino sin \<and> sin_sem sin' = sin_sem sin \<and>
     reclaim_count sin' = reclaim_count sin"

definition wrote :: "addr \<Rightarrow> addr \<Rightarrow> sfs_inode \<Rightarrow> kfs \<Rightarrow> sfs_inode \<Rightarrow> kfs \<Rightarrow> addr \<Rightarrow> nat \<Rightarrow> nat \<Rightarrow> bool" where
  "wrote a n sin s sin' t buf p len \<longleftrightarrow>
     file_ok a n sin' t \<and> same_but a n s t \<and> keeps sin sin' \<and> unat (blocks (din sin)) \<le> unat (blocks (din sin')) \<and>
     (\<forall>k < unat (blocks (din sin')) * SFS_BLKSIZE. fbyte (din sin') t k =
        (if p \<le> k \<and> k < p + len then kmem s (buf + (k - p))
         else if k < unat (blocks (din sin)) * SFS_BLKSIZE then fbyte (din sin) s k else 0)) \<and>
     (\<forall>x. x \<notin> scratch a s \<longrightarrow> kmem t x = kmem s x) \<and>
     free_blocks a t \<subseteq> free_blocks a s \<and> own (din sin') t \<subseteq> own (din sin) s \<union> free_blocks a s \<and>
     card (free_blocks a s) + 2 * unat (blocks (din sin)) \<le> card (free_blocks a t) + 2 * unat (blocks (din sin')) \<and>
     (\<forall>x<disk_blocks s. x \<notin> free_blocks a s \<longrightarrow> x \<notin> own (din sin) s \<longrightarrow> blk t x = blk s x)"

lemma keeps_trans: "keeps x y \<Longrightarrow> keeps y z \<Longrightarrow> keeps x z"
  by (simp add: keeps_def)

lemma wrote_append:
  assumes w1: "wrote a n sin s sin' t buf p l1" and w2: "wrote a n sin' t sin'' u (buf + l1) (p + l1) l2"
    and buf: "{buf + l1..<buf + l1 + l2} \<inter> scratch a s = {}" and le: "p + l1 \<le> unat (blocks (din sin')) * SFS_BLKSIZE"
  shows "wrote a n sin s sin'' u buf p (l1 + l2)"
proof -
  from w1 have W1: "file_ok a n sin' t" "same_but a n s t" "keeps sin sin'"
    "unat (blocks (din sin)) \<le> unat (blocks (din sin'))"
    "\<And>k. k < unat (blocks (din sin')) * SFS_BLKSIZE \<Longrightarrow> fbyte (din sin') t k =
        (if p \<le> k \<and> k < p + l1 then kmem s (buf + (k - p))
         else if k < unat (blocks (din sin)) * SFS_BLKSIZE then fbyte (din sin) s k else 0)"
    "\<And>x. x \<notin> scratch a s \<Longrightarrow> kmem t x = kmem s x"
    "free_blocks a t \<subseteq> free_blocks a s" "own (din sin') t \<subseteq> own (din sin) s \<union> free_blocks a s"
    "card (free_blocks a s) + 2 * unat (blocks (din sin)) \<le> card (free_blocks a t) + 2 * unat (blocks (din sin'))"
    "\<And>x. x<disk_blocks s \<Longrightarrow> x \<notin> free_blocks a s \<Longrightarrow> x \<notin> own (din sin) s \<Longrightarrow> blk t x = blk s x"
    unfolding wrote_def by blast+
  from w2 have W2: "file_ok a n sin'' u" "same_but a n t u" "keeps sin' sin''"
    "unat (blocks (din sin')) \<le> unat (blocks (din sin''))"
    "\<And>k. k < unat (blocks (din sin'')) * SFS_BLKSIZE \<Longrightarrow> fbyte (din sin'') u k =
        (if p + l1 \<le> k \<and> k < p + l1 + l2 then kmem t (buf + l1 + (k - (p + l1)))
         else if k < unat (blocks (din sin')) * SFS_BLKSIZE then fbyte (din sin') t k else 0)"
    "\<And>x. x \<notin> scratch a t \<Longrightarrow> kmem u x = kmem t x"
    "free_blocks a u \<subseteq> free_blocks a t" "own (din sin'') u \<subseteq> own (din sin') t \<union> free_blocks a t"
    "card (free_blocks a t) + 2 * unat (blocks (din sin')) \<le> card (free_blocks a u) + 2 * unat (blocks (din sin''))"
    "\<And>x. x<disk_blocks t \<Longrightarrow> x \<notin> free_blocks a t \<Longrightarrow> x \<notin> own (din sin') t \<Longrightarrow> blk u x = blk t x"
    unfolding wrote_def by blast+
  note S = same_butD [OF W1(2)]
  have bytes: "fbyte (din sin'') u k =
        (if p \<le> k \<and> k < p + (l1 + l2) then kmem s (buf + (k - p))
         else if k < unat (blocks (din sin)) * SFS_BLKSIZE then fbyte (din sin) s k else 0)"
    if k: "k < unat (blocks (din sin'')) * SFS_BLKSIZE" for k
  proof (cases "p + l1 \<le> k \<and> k < p + l1 + l2")
    case True
    then have "buf + (k - p) \<in> {buf + l1..<buf + l1 + l2}" by auto
    then have "kmem t (buf + (k - p)) = kmem s (buf + (k - p))" using buf by (intro W1(6)) blast
    moreover have "buf + l1 + (k - (p + l1)) = buf + (k - p)" using True by simp
    moreover have "p \<le> k \<and> k < p + (l1 + l2)" using True by simp
    ultimately show ?thesis using W2(5) [OF k] True by (simp only: if_True simp_thms)
  next
    case out: False
    show ?thesis
    proof (cases "k < unat (blocks (din sin')) * SFS_BLKSIZE")
      case True
      have "p \<le> k \<and> k < p + l1 \<longleftrightarrow> p \<le> k \<and> k < p + (l1 + l2)" using out by linarith
      moreover have "fbyte (din sin'') u k = fbyte (din sin') t k" using W2(5) [OF k] True out by (simp only: if_False if_True)
      ultimately show ?thesis using W1(5) [OF True] by (simp only:)
    next
      case False
      have "\<not> (p \<le> k \<and> k < p + (l1 + l2))" using out False le by linarith
      moreover have "unat (blocks (din sin)) * SFS_BLKSIZE \<le> unat (blocks (din sin')) * SFS_BLKSIZE"
        using W1(4) by (rule mult_le_mono1)
      then have "\<not> k < unat (blocks (din sin)) * SFS_BLKSIZE" using False by linarith
      moreover have "fbyte (din sin'') u k = 0" using W2(5) [OF k] False out by (simp only: if_False)
      ultimately show ?thesis by (simp only: if_False)
    qed
  qed
  have mem: "kmem u x = kmem s x" if "x \<notin> scratch a s" for x
    using W1(6) [OF that] W2(6) [of x] that S(5) by simp
  have blk: "blk u x = blk s x" if "x < disk_blocks s" "x \<notin> free_blocks a s" "x \<notin> own (din sin) s" for x
    using W1(10) [OF that] W2(10) [of x] that W1(7,8) S(2) by auto
  have own: "own (din sin'') u \<subseteq> own (din sin) s \<union> free_blocks a s" using W1(7,8) W2(8) by blast
  have free: "free_blocks a u \<subseteq> free_blocks a s" using W1(7) W2(7) by blast
  show ?thesis
    unfolding wrote_def
    using W2(1) same_but_trans [OF W1(2) W2(2)] keeps_trans [OF W1(3) W2(3)] le_trans [OF W1(4) W2(4)]
      bytes mem free own le_trans [OF W1(9) W2(9)] blk by blast
qed

section \<open>Finding or adding a block\<close>

lemma wrote_nothing:
  assumes ok: "file_ok a n sin s" and t: "touched a s {} m"
  shows "wrote a n sin s sin (s\<lparr>kmem := m\<rparr>) buf p 0"
proof -
  note F = file_okD [OF ok]
  note I = inode_wfD [OF F(3,4)]
  obtain f where f: "fss s a = Some f" using F(1) by (auto simp: fs_wf_def split: option.splits)
  have bm: "bmap (din sin) (s\<lparr>kmem := m\<rparr>) = bmap (din sin) s"
    by (rule ext, rule bmap_touched [OF F(1) t]) (use I(4) in blast)
  have "fbyte (din sin) (s\<lparr>kmem := m\<rparr>) k = fbyte (din sin) s k"
    if "k < unat (blocks (din sin)) * SFS_BLKSIZE" for k
    by (rule fbyte_touched [OF ok t]) (use that in \<open>simp add: less_mult_imp_div_less\<close>)
  moreover have "own (din sin) (s\<lparr>kmem := m\<rparr>) = own (din sin) s" by (simp add: own_def bm)
  moreover have "free_blocks a (s\<lparr>kmem := m\<rparr>) = free_blocks a s" by (simp add: free_blocks_def)
  ultimately show ?thesis
    using file_ok_touched [OF ok t] same_but_refl [OF f F(4)] t
    by (auto simp: wrote_def keeps_def touched_def)
qed

lemma fbyte_split: "k < N * SFS_BLKSIZE \<Longrightarrow> k div SFS_BLKSIZE < N"
  by (simp add: less_mult_imp_div_less)

lemma grew_wrote:
  assumes ok: "file_ok a n sin s" and g: "grew a n s sin i t" and N: "unat (blocks (din sin)) < 1036"
  shows "\<exists>sin'. wrote a n sin s sin' t buf p 0 \<and> unat (blocks (din sin')) = Suc (unat (blocks (din sin))) \<and>
    bmap (din sin') t (unat (blocks (din sin))) = i"
proof -
  note F = file_okD [OF ok]
  note I = inode_wfD [OF F(3,4)]
  from g obtain f g b u m where G: "fss s a = Some f" "t = grown a n s g b u m" "fs_wf a t" "inode_wf a n t"
     "i \<noteq> 0" "unat i \<in> free_set (freemap f)" "free_set b \<subseteq> free_set (freemap f) - {unat i}"
     "card (free_set (freemap f)) \<le> card (free_set b) + 2"
     "blocks (din (g sin)) = blocks (din sin) + 1" "isz (din (g sin)) = isz (din sin)"
     "itype (din (g sin)) = itype (din sin)" "nlinks (din (g sin)) = nlinks (din sin)"
     "indirect (din (g sin)) = indirect (din sin) \<or> unat (indirect (din (g sin))) \<in> free_set (freemap f)"
     "ino (g sin) = ino sin" "sin_sem (g sin) = sin_sem sin" "reclaim_count (g sin) = reclaim_count sin"
     "\<And>k. k < 1036 \<Longrightarrow> bmap (din (g sin)) t k = (if k = unat (blocks (din sin)) then i else bmap (din sin) s k)"
     "blk_of s m (unat i) = replicate SFS_BLKSIZE 0"
     "\<And>x. x < disk_blocks s \<Longrightarrow> x \<notin> free_set (freemap f) \<Longrightarrow>
        \<not> (indirect (din sin) \<noteq> 0 \<and> x = unat (indirect (din sin))) \<Longrightarrow> blk_of s m x = blk s x"
     "\<And>x. x \<notin> scratch a s \<Longrightarrow> m x = kmem s x"
    unfolding grew_def by blast
  let ?N = "unat (blocks (din sin))" and ?d = "din sin" and ?d' = "din (g sin)"
  have N': "unat (blocks ?d') = Suc ?N" using N G(9) by (simp add: unat_word_ariths)
  have vt: "vop_sin n t = Some (g sin)" using G(2) F(4) by simp
  have okt: "file_ok a n (g sin) t" using G(2-4) F(2) vt by (simp add: file_ok_def)
  have bt: "blk t x = blk_of s m x" for x using G(2) by simp
  have old: "bmap ?d' t k = bmap ?d s k" "blk t (unat (bmap ?d s k)) = blk s (unat (bmap ?d s k))" if k: "k < ?N" for k
  proof -
    show "bmap ?d' t k = bmap ?d s k" using G(17) [of k] k N by simp
    have u: "used_block a s (bmap ?d s k)" by (rule I(3) [OF k])
    have "\<not> (indirect ?d \<noteq> 0 \<and> unat (bmap ?d s k) = unat (indirect ?d))"
    proof
      assume "indirect ?d \<noteq> 0 \<and> unat (bmap ?d s k) = unat (indirect ?d)"
      then have "indirect ?d = bmap ?d s k" by (metis word_unat_eq_iff)
      with k have "indirect ?d \<in> bmap ?d s ` {..<?N}" by blast
      with I(7) show False by contradiction
    qed
    then show "blk t (unat (bmap ?d s k)) = blk s (unat (bmap ?d s k))"
      unfolding bt by (intro G(19)) (use u used_block_less [OF F(1) u] in \<open>auto simp: used_block_def G(1)\<close>)
  qed
  have new: "bmap ?d' t ?N = i" using G(17) [of ?N] N by simp
  have bytes: "fbyte ?d' t k = (if k < ?N * SFS_BLKSIZE then fbyte ?d s k else 0)" if k: "k < Suc ?N * SFS_BLKSIZE" for k
  proof (cases "k < ?N * SFS_BLKSIZE")
    case True
    then show ?thesis using old [OF fbyte_split [OF True]] by (simp add: fbyte_def)
  next
    case False
    have "k div SFS_BLKSIZE = ?N" using k False by (intro div_nat_eqI) simp_all
    then have "fbyte ?d' t k = replicate SFS_BLKSIZE 0 ! (k mod SFS_BLKSIZE)"
      by (simp only: fbyte_def new bt G(18))
    then show ?thesis using False by simp
  qed
  have fr: "free_blocks a t = free_set b" "free_blocks a s = free_set (freemap f)"
    using G(1,2) by (simp_all add: free_blocks_def)
  have ow: "own ?d' t \<subseteq> own ?d s \<union> free_blocks a s"
  proof -
    have "unat (bmap ?d' t k) \<in> own ?d s \<union> free_blocks a s" if "k < Suc ?N" for k
      using that old(1) [of k] new G(6) fr by (cases "k = ?N") (auto simp: own_def)
    moreover have "unat (indirect ?d') \<in> own ?d s \<union> free_blocks a s" if nz: "indirect ?d' \<noteq> 0"
      using G(13) nz fr by (auto simp: own_def)
    ultimately show ?thesis by (auto simp: own_def N')
  qed
  have out: "blk t x = blk s x" if "x < disk_blocks s" "x \<notin> free_blocks a s" "x \<notin> own ?d s" for x
    unfolding bt using that fr by (intro G(19)) (auto simp: own_def)
  have "same_but a n s t" using grown_same_but [OF G(1) F(4)] G(2) by simp
  then have "wrote a n sin s (g sin) t buf p 0"
    using okt bytes ow out G(7,8,10-12,14-16,20) fr N' G(2) by (auto simp: wrote_def keeps_def)
  with N' new show ?thesis by blast
qed

text \<open>A block of the file, or the first block past its end.\<close>

lemma load_any:
  assumes ok: "file_ok a n sin s" and k: "index \<le> blocks (din sin)"
    and room: "index = blocks (din sin) \<Longrightarrow> 2 \<le> card (free_blocks a s) \<and> unat (blocks (din sin)) < 1036"
  shows "\<exists>t sin'. sfs_bmap_load_nolock a n index s = Some (0, bmap (din sin') t (unat index), t) \<and>
    wrote a n sin s sin' t buf p 0 \<and> unat (blocks (din sin')) = max (unat (blocks (din sin))) (Suc (unat index))"
proof -
  note F = file_okD [OF ok]
  show ?thesis
  proof (cases "index = blocks (din sin)")
    case True
    from grow_file [OF F] room [OF True] obtain i t
      where g: "sfs_bmap_load_nolock a n (blocks (din sin)) s = Some (0, i, t)" "grew a n s sin i t" by blast
    from grew_wrote [OF ok g(2)] room [OF True] obtain sin'
      where "wrote a n sin s sin' t buf p 0" "unat (blocks (din sin')) = Suc (unat (blocks (din sin)))"
        "bmap (din sin') t (unat (blocks (din sin))) = i" by blast
    with g(1) True show ?thesis by (intro exI [of _ t] exI [of _ sin']) simp
  next
    case False
    with k have lt: "index < blocks (din sin)" by simp
    from sfs_bmap_load_spec [OF F lt] obtain m
      where m: "sfs_bmap_load_nolock a n index s = Some (0, bmap (din sin) s (unat index), s\<lparr>kmem := m\<rparr>)"
        "touched a s {} m" by blast
    have "bmap (din sin) (s\<lparr>kmem := m\<rparr>) (unat index) = bmap (din sin) s (unat index)"
      by (rule bmap_touched [OF F(1) m(2)]) (use inode_wfD(4) [OF F(3,4)] in blast)
    then show ?thesis using m(1) wrote_nothing [OF ok m(2)] lt
      by (intro exI [of _ "s\<lparr>kmem := m\<rparr>"] exI [of _ sin]) (simp add: word_less_nat_alt max_def)
  qed
qed

section \<open>Writing a part of a block\<close>

lemma put:
  assumes ok: "file_ok a n sin s" and k: "k < unat (blocks (din sin))" and off: "off + sz \<le> SFS_BLKSIZE"
    and w: "blk_of s m (unat (bmap (din sin) s k)) = take off (blk s (unat (bmap (din sin) s k))) @
      bytes_at (kmem s) buf sz @ drop (off + sz) (blk s (unat (bmap (din sin) s k)))"
    and rest: "\<forall>b<disk_blocks s. b \<noteq> unat (bmap (din sin) s k) \<longrightarrow> blk_of s m b = blk s b"
    and out: "\<forall>x. x \<notin> scratch a s \<longrightarrow> m x = kmem s x"
  shows "wrote a n sin s sin (s\<lparr>kmem := m\<rparr>) buf (k * SFS_BLKSIZE + off) sz"
proof -
  note F = file_okD [OF ok]
  note I = inode_wfD [OF F(3,4)]
  let ?d = "din sin" and ?t = "s\<lparr>kmem := m\<rparr>" and ?i = "bmap (din sin) s k" and ?N = "unat (blocks (din sin))"
  obtain f where f: "fss s a = Some f" using F(1) by (auto simp: fs_wf_def split: option.splits)
  have ent: "blk_of s m (unat (indirect ?d)) = blk s (unat (indirect ?d))" if nz: "indirect ?d \<noteq> 0"
  proof -
    have "indirect ?d \<noteq> ?i" using I(7) k by auto
    then have "unat (indirect ?d) \<noteq> unat ?i" by (metis word_unat_eq_iff)
    then show ?thesis using rest used_block_less [OF F(1) I(4) [OF nz]] by blast
  qed
  have bm: "bmap ?d ?t = bmap ?d s" by (rule ext) (simp add: bmap_def indirect_ent_def ent)
  have iw: "inode_wf a n ?t" using F(3,4) by (simp add: inode_wf_def Let_def bm)
  have okt: "file_ok a n sin ?t" using F iw by (simp add: file_ok_def)
  have bytes: "fbyte ?d ?t x = (if k * SFS_BLKSIZE + off \<le> x \<and> x < k * SFS_BLKSIZE + off + sz
      then kmem s (buf + (x - (k * SFS_BLKSIZE + off))) else fbyte ?d s x)" if x: "x < ?N * SFS_BLKSIZE" for x
  proof (cases "x div SFS_BLKSIZE = k")
    case True
    let ?r = "x mod SFS_BLKSIZE"
    have xe: "x = k * SFS_BLKSIZE + ?r" using True by (metis div_mult_mod_eq)
    have r: "?r < SFS_BLKSIZE" by simp
    have lhs: "fbyte ?d ?t x = blk_of s m (unat ?i) ! ?r" by (simp only: fbyte_def bm True)
    have old: "fbyte ?d s x = blk s (unat ?i) ! ?r" by (simp only: fbyte_def True)
    define q where "q = ?r"
    have c: "k * SFS_BLKSIZE + off \<le> x \<and> x < k * SFS_BLKSIZE + off + sz \<longleftrightarrow> off \<le> q \<and> q < off + sz"
      "x - (k * SFS_BLKSIZE + off) = q - off"
      using xe unfolding q_def [symmetric] by auto
    have "(take off (blk s (unat ?i)) @ bytes_at (kmem s) buf sz @ drop (off + sz) (blk s (unat ?i))) ! q =
        (if off \<le> q \<and> q < off + sz then kmem s (buf + (q - off)) else blk s (unat ?i) ! q)"
      using off r unfolding q_def [symmetric] by (auto simp: nth_append)
    then show ?thesis unfolding lhs old w c q_def [symmetric] .
  next
    case False
    have lt: "x div SFS_BLKSIZE < ?N" by (rule fbyte_split [OF x])
    have ne: "bmap ?d s (x div SFS_BLKSIZE) \<noteq> ?i"
      using I(6) lt k False by (auto simp: inj_on_def)
    then have "unat (bmap ?d s (x div SFS_BLKSIZE)) \<noteq> unat ?i" by (metis word_unat_eq_iff)
    then have "blk_of s m (unat (bmap ?d s (x div SFS_BLKSIZE))) = blk s (unat (bmap ?d s (x div SFS_BLKSIZE)))"
      using rest used_block_less [OF F(1) I(3) [OF lt]] by blast
    then have e: "fbyte ?d ?t x = fbyte ?d s x" by (simp only: fbyte_def bm)
    have "\<not> (k * SFS_BLKSIZE + off \<le> x \<and> x < k * SFS_BLKSIZE + off + sz)"
    proof
      assume h: "k * SFS_BLKSIZE + off \<le> x \<and> x < k * SFS_BLKSIZE + off + sz"
      then have "x div SFS_BLKSIZE = k" using off by (intro div_nat_eqI) simp_all
      with False show False by contradiction
    qed
    then show ?thesis by (simp only: e if_False)
  qed
  have "own ?d ?t = own ?d s" by (simp add: own_def bm)
  moreover have "free_blocks a ?t = free_blocks a s" by (simp add: free_blocks_def)
  moreover have "blk ?t x = blk s x" if "x < disk_blocks s" "x \<notin> own ?d s" for x
    using rest that k by (auto simp: own_def)
  ultimately show ?thesis
    using okt same_but_refl [OF f F(4)] bytes out by (simp add: wrote_def keeps_def)
qed

lemma put_wbuf:
  assumes ok: "file_ok a n sin s" and k: "k < unat (blocks (din sin))"
    and off: "off < SFS_BLKSIZE" "off + sz \<le> SFS_BLKSIZE" and buf: "{buf..<buf + sz} \<inter> scratch a s = {}"
  shows "\<exists>m. sfs_wbuf a buf sz (bmap (din sin) s k) off s = Some (0, s\<lparr>kmem := m\<rparr>) \<and>
    wrote a n sin s sin (s\<lparr>kmem := m\<rparr>) buf (k * SFS_BLKSIZE + off) sz"
proof -
  note F = file_okD [OF ok]
  have u: "used_block a s (bmap (din sin) s k)" by (rule inode_wfD(3) [OF F(3,4) k])
  from used_blockD [OF F(1) u] obtain f where f: "fss s a = Some f" "fs_dev_ok a s" "io_sem f > 0"
    "bmap (din sin) s k \<noteq> 0" "unat (bmap (din sin) s k) < unat (sblocks (super f))" .
  from sfs_wbuf_spec [OF f(2,1,3-5) off scratch_area [OF f(1) buf]] obtain m
    where m: "sfs_wbuf a buf sz (bmap (din sin) s k) off s = Some (0, s\<lparr>kmem := m\<rparr>)"
      "blk_of s m (unat (bmap (din sin) s k)) = take off (blk s (unat (bmap (din sin) s k))) @
        bytes_at (kmem s) buf sz @ drop (off + sz) (blk s (unat (bmap (din sin) s k)))"
      "\<forall>b<disk_blocks s. b \<noteq> unat (bmap (din sin) s k) \<longrightarrow> blk_of s m b = blk s b" "quiet s (sfs_buffer f) m" by blast
  have "\<forall>x. x \<notin> scratch a s \<longrightarrow> m x = kmem s x" using quiet_scratch [OF f(1) m(4)] by blast
  from put [OF ok k off(2) m(2,3) this] m(1) show ?thesis by blast
qed

lemma put_wblock:
  assumes ok: "file_ok a n sin s" and k: "k < unat (blocks (din sin))"
    and buf: "{buf..<buf + SFS_BLKSIZE} \<inter> scratch a s = {}"
  shows "\<exists>m. sfs_wblock a buf (bmap (din sin) s k) 1 s = Some (0, s\<lparr>kmem := m\<rparr>) \<and>
    wrote a n sin s sin (s\<lparr>kmem := m\<rparr>) buf (k * SFS_BLKSIZE) SFS_BLKSIZE"
proof -
  note F = file_okD [OF ok]
  have u: "used_block a s (bmap (din sin) s k)" by (rule inode_wfD(3) [OF F(3,4) k])
  from used_blockD [OF F(1) u] obtain f where f: "fss s a = Some f" "fs_dev_ok a s" "io_sem f > 0"
    "bmap (din sin) s k \<noteq> 0" "unat (bmap (din sin) s k) < unat (sblocks (super f))" .
  have b: "buf_ok s buf SFS_BLKSIZE"
    by (rule area_buf_ok [OF scratch_area [OF f(1) buf]]) (use used_block_less [OF F(1) u] in simp_all)
  from sfs_wblock_spec [OF f(2,1,3-5) b] obtain m
    where m: "sfs_wblock a buf (bmap (din sin) s k) 1 s = Some (0, s\<lparr>kmem := m\<rparr>)"
      "blk_of s m (unat (bmap (din sin) s k)) = bytes_at (kmem s) buf SFS_BLKSIZE"
      "\<forall>b'<disk_blocks s. b' \<noteq> unat (bmap (din sin) s k) \<longrightarrow> blk_of s m b' = blk s b'" "quiet s (sfs_buffer f) m" by blast
  have w: "blk_of s m (unat (bmap (din sin) s k)) = take 0 (blk s (unat (bmap (din sin) s k))) @
        bytes_at (kmem s) buf SFS_BLKSIZE @ drop (0 + SFS_BLKSIZE) (blk s (unat (bmap (din sin) s k)))"
    using m(2) by simp
  have o: "0 + SFS_BLKSIZE \<le> SFS_BLKSIZE" by simp
  have "\<forall>x. x \<notin> scratch a s \<longrightarrow> m x = kmem s x" using quiet_scratch [OF f(1) m(4)] by blast
  from put [OF ok k o w m(3) this] m(1) show ?thesis by (simp only: add_0_right) blast
qed

section \<open>Writing a range\<close>

text \<open>\<open>room a s N T\<close>: there are free blocks for a file of \<open>N\<close> blocks to have \<open>T\<close> blocks.\<close>

definition room :: "addr \<Rightarrow> kfs \<Rightarrow> nat \<Rightarrow> nat \<Rightarrow> bool" where
  "room a s N T \<longleftrightarrow> T \<le> 1036 \<and> 2 * (max N T - N) \<le> card (free_blocks a s)"

lemma wroteD:
  assumes "wrote a n sin s sin' t buf p len"
  shows "file_ok a n sin' t" and "scratch a t = scratch a s" and "keeps sin sin'"
    and "\<And>x. x \<notin> scratch a s \<Longrightarrow> kmem t x = kmem s x"
    and "card (free_blocks a s) + 2 * unat (blocks (din sin)) \<le> card (free_blocks a t) + 2 * unat (blocks (din sin'))"
    and "same_but a n s t"
  using assms same_butD(5) [of a n s t] unfolding wrote_def by blast+

lemma room_step:
  assumes "room a s N T" and "N' = max N T'" and "T' \<le> T"
    and "card (free_blocks a s) + 2 * N \<le> card (free_blocks a t) + 2 * N'"
  shows "room a t N' T"
  using assms by (auto simp: room_def)

lemma room_first: "room a s N T \<Longrightarrow> N < T \<Longrightarrow> 2 \<le> card (free_blocks a s) \<and> N < 1036"
  by (auto simp: room_def)

lemma load_room:
  assumes ok: "file_ok a n sin s" and k: "unat index \<le> unat (blocks (din sin))"
    and r: "room a s (unat (blocks (din sin))) (Suc (unat index))"
  shows "\<exists>t sin'. sfs_bmap_load_nolock a n index s = Some (0, bmap (din sin') t (unat index), t) \<and>
    wrote a n sin s sin' t buf p 0 \<and> unat (blocks (din sin')) = max (unat (blocks (din sin))) (Suc (unat index))"
proof (rule load_any [OF ok])
  show "index \<le> blocks (din sin)" using k by (simp add: word_le_nat_alt)
  assume "index = blocks (din sin)"
  then show "2 \<le> card (free_blocks a s) \<and> unat (blocks (din sin)) < 1036" using room_first [OF r] by simp
qed

lemma write_part:
  assumes ok: "file_ok a n sin s" and k: "unat index \<le> unat (blocks (din sin))"
    and r: "room a s (unat (blocks (din sin))) (Suc (unat index))"
    and off: "off < SFS_BLKSIZE" "off + sz \<le> SFS_BLKSIZE" and buf: "{buf..<buf + sz} \<inter> scratch a s = {}"
  shows "\<exists>t sin'. sfs_io_part a n True buf sz index off s = Some (0, t) \<and>
    wrote a n sin s sin' t buf (unat index * SFS_BLKSIZE + off) sz \<and>
    unat (blocks (din sin')) = max (unat (blocks (din sin))) (Suc (unat index))"
proof -
  let ?p = "unat index * SFS_BLKSIZE + off"
  from load_room [OF ok k r] obtain t sin'
    where t: "sfs_bmap_load_nolock a n index s = Some (0, bmap (din sin') t (unat index), t)"
      "wrote a n sin s sin' t buf ?p 0" "unat (blocks (din sin')) = max (unat (blocks (din sin))) (Suc (unat index))"
    by blast
  note W = wroteD [OF t(2)]
  have lt: "unat index < unat (blocks (din sin'))" using t(3) by simp
  have bt: "{buf..<buf + sz} \<inter> scratch a t = {}" using buf W(2) by simp
  from put_wbuf [OF W(1) lt off bt] obtain m
    where m: "sfs_wbuf a buf sz (bmap (din sin') t (unat index)) off t = Some (0, t\<lparr>kmem := m\<rparr>)"
      "wrote a n sin' t sin' (t\<lparr>kmem := m\<rparr>) buf ?p sz" by blast
  have "Suc (unat index) * SFS_BLKSIZE \<le> unat (blocks (din sin')) * SFS_BLKSIZE"
    using lt by (intro mult_le_mono1) simp
  then have le: "?p + 0 \<le> unat (blocks (din sin')) * SFS_BLKSIZE" using off by simp
  have "wrote a n sin s sin' (t\<lparr>kmem := m\<rparr>) buf ?p (0 + sz)"
    by (rule wrote_append [OF t(2) _ _ le]) (use m(2) buf in simp_all)
  moreover have "sfs_io_part a n True buf sz index off s = Some (0, t\<lparr>kmem := m\<rparr>)"
    using t(1) m(1) by (simp add: sfs_io_part_def sfs_buf_op_def)
  ultimately show ?thesis using t(3) by (simp only: add_0_left) blast
qed

lemma write_block:
  assumes ok: "file_ok a n sin s" and k: "unat index \<le> unat (blocks (din sin))"
    and r: "room a s (unat (blocks (din sin))) (Suc (unat index))"
    and buf: "{buf..<buf + SFS_BLKSIZE} \<inter> scratch a s = {}"
  shows "\<exists>i u t sin'. sfs_bmap_load_nolock a n index s = Some (0, i, u) \<and> sfs_wblock a buf i 1 u = Some (0, t) \<and>
    wrote a n sin s sin' t buf (unat index * SFS_BLKSIZE) SFS_BLKSIZE \<and>
    unat (blocks (din sin')) = max (unat (blocks (din sin))) (Suc (unat index))"
proof -
  let ?p = "unat index * SFS_BLKSIZE"
  from load_room [OF ok k r] obtain t sin'
    where t: "sfs_bmap_load_nolock a n index s = Some (0, bmap (din sin') t (unat index), t)"
      "wrote a n sin s sin' t buf ?p 0" "unat (blocks (din sin')) = max (unat (blocks (din sin))) (Suc (unat index))"
    by blast
  note W = wroteD [OF t(2)]
  have lt: "unat index < unat (blocks (din sin'))" using t(3) by simp
  have bt: "{buf..<buf + SFS_BLKSIZE} \<inter> scratch a t = {}" using buf W(2) by simp
  from put_wblock [OF W(1) lt bt] obtain m
    where m: "sfs_wblock a buf (bmap (din sin') t (unat index)) 1 t = Some (0, t\<lparr>kmem := m\<rparr>)"
      "wrote a n sin' t sin' (t\<lparr>kmem := m\<rparr>) buf ?p SFS_BLKSIZE" by blast
  have le: "?p + 0 \<le> unat (blocks (din sin')) * SFS_BLKSIZE" using lt by simp
  have "wrote a n sin s sin' (t\<lparr>kmem := m\<rparr>) buf ?p (0 + SFS_BLKSIZE)"
    by (rule wrote_append [OF t(2) _ _ le]) (use m(2) buf in simp_all)
  then show ?thesis using t(1,3) m(1) by (simp only: add_0_left) blast
qed

lemma write_blocks:
  assumes "file_ok a n sin s" and "unat blkno \<le> unat (blocks (din sin))"
    and "room a s (unat (blocks (din sin))) (unat blkno + k)"
    and "{buf..<buf + k * SFS_BLKSIZE} \<inter> scratch a s = {}"
  shows "\<exists>t sin'. sfs_io_blocks a n True k buf blkno alen s =
      Some (0, alen + k * SFS_BLKSIZE, buf + k * SFS_BLKSIZE, blkno + of_nat k, t) \<and>
    wrote a n sin s sin' t buf (unat blkno * SFS_BLKSIZE) (k * SFS_BLKSIZE) \<and>
    unat (blocks (din sin')) = max (unat (blocks (din sin))) (unat blkno + k)"
  using assms
proof (induction k arbitrary: buf blkno alen s sin)
  case 0
  have "touched a s {} (kmem s)" by simp
  from wrote_nothing [OF "0.prems"(1) this, of buf "unat blkno * SFS_BLKSIZE"] "0.prems"(2) show ?case
    by (intro exI [of _ s] exI [of _ sin]) (simp add: max_def)
next
  case (Suc k)
  have r1: "room a s (unat (blocks (din sin))) (Suc (unat blkno))" using Suc.prems(3) by (auto simp: room_def)
  have "{buf..<buf + SFS_BLKSIZE} \<subseteq> {buf..<buf + Suc k * SFS_BLKSIZE}"
    "{buf + SFS_BLKSIZE..<buf + SFS_BLKSIZE + k * SFS_BLKSIZE} \<subseteq> {buf..<buf + Suc k * SFS_BLKSIZE}" by auto
  then have b: "{buf..<buf + SFS_BLKSIZE} \<inter> scratch a s = {}"
    "{buf + SFS_BLKSIZE..<buf + SFS_BLKSIZE + k * SFS_BLKSIZE} \<inter> scratch a s = {}"
    using Suc.prems(4) by blast+
  from write_block [OF Suc.prems(1,2) r1 b(1)] obtain i u t sin1
    where t: "sfs_bmap_load_nolock a n blkno s = Some (0, i, u)" "sfs_wblock a buf i 1 u = Some (0, t)"
      "wrote a n sin s sin1 t buf (unat blkno * SFS_BLKSIZE) SFS_BLKSIZE"
      "unat (blocks (din sin1)) = max (unat (blocks (din sin))) (Suc (unat blkno))" by blast
  note W = wroteD [OF t(3)]
  have ub: "unat (blkno + 1) = Suc (unat blkno)"
    using Suc.prems(3) by (simp add: room_def unat_word_ariths)
  have p2: "unat (blkno + 1) \<le> unat (blocks (din sin1))" using ub t(4) by simp
  have r2: "room a t (unat (blocks (din sin1))) (unat (blkno + 1) + k)"
    using room_step [OF Suc.prems(3) t(4) _ W(5)] ub by simp
  have b2: "{buf + SFS_BLKSIZE..<buf + SFS_BLKSIZE + k * SFS_BLKSIZE} \<inter> scratch a t = {}" using b(2) W(2) by simp
  from Suc.IH [OF W(1) p2 r2 b2, of "alen + SFS_BLKSIZE"] obtain v sin2
    where v: "sfs_io_blocks a n True k (buf + SFS_BLKSIZE) (blkno + 1) (alen + SFS_BLKSIZE) t =
        Some (0, alen + SFS_BLKSIZE + k * SFS_BLKSIZE, buf + SFS_BLKSIZE + k * SFS_BLKSIZE, blkno + 1 + of_nat k, v)"
      "wrote a n sin1 t sin2 v (buf + SFS_BLKSIZE) (unat (blkno + 1) * SFS_BLKSIZE) (k * SFS_BLKSIZE)"
      "unat (blocks (din sin2)) = max (unat (blocks (din sin1))) (unat (blkno + 1) + k)" by blast
  have "Suc (unat blkno) * SFS_BLKSIZE \<le> unat (blocks (din sin1)) * SFS_BLKSIZE"
    using t(4) by (intro mult_le_mono1) simp
  then have le: "unat blkno * SFS_BLKSIZE + SFS_BLKSIZE \<le> unat (blocks (din sin1)) * SFS_BLKSIZE" by simp
  have "wrote a n sin1 t sin2 v (buf + SFS_BLKSIZE) (unat blkno * SFS_BLKSIZE + SFS_BLKSIZE) (k * SFS_BLKSIZE)"
    using v(2) unfolding ub by (simp add: add.commute)
  from wrote_append [OF t(3) this b(2) le]
  have "wrote a n sin s sin2 v buf (unat blkno * SFS_BLKSIZE) (Suc k * SFS_BLKSIZE)" by simp
  moreover have "sfs_io_blocks a n True (Suc k) buf blkno alen s =
      Some (0, alen + Suc k * SFS_BLKSIZE, buf + Suc k * SFS_BLKSIZE, blkno + of_nat (Suc k), v)"
    using t(1,2) v(1) by (simp add: sfs_block_op_def add.assoc)
  moreover have "unat (blocks (din sin2)) = max (unat (blocks (din sin))) (unat blkno + Suc k)"
    using v(3) t(4) ub by simp
  ultimately show ?case by blast
qed

lemma sub_buf: "B \<subseteq> C \<Longrightarrow> C \<inter> scratch a s = {} \<Longrightarrow> B \<inter> scratch a s = {}"
  by blast

lemma write_rest:
  assumes ok: "file_ok a n sin s" and b: "b \<le> b1" "r1 < SFS_BLKSIZE" "b \<le> unat (blocks (din sin))"
    and T: "T = b1 + (if r1 = 0 then 0 else 1)" and r: "room a s (unat (blocks (din sin))) T"
    and buf: "{buf..<buf + ((b1 - b) * SFS_BLKSIZE + r1)} \<inter> scratch a s = {}"
    and e: "endpos = int (b1 * SFS_BLKSIZE + r1)"
  shows "\<exists>t sin'. sfs_io_rest a n True (b1 - b) buf (of_nat b) alen endpos s =
      Some (0, alen + ((b1 - b) * SFS_BLKSIZE + r1), t) \<and>
    wrote a n sin s sin' t buf (b * SFS_BLKSIZE) ((b1 - b) * SFS_BLKSIZE + r1) \<and>
    unat (blocks (din sin')) = max (unat (blocks (din sin))) T"
proof -
  let ?k = "b1 - b" and ?N = "unat (blocks (din sin))"
  have TT: "T \<le> 1036" "b1 \<le> T" using r T by (auto simp: room_def split: if_splits)
  have ub: "unat (of_nat x :: u32) = x" if "x \<le> 1036" for x using that by (simp add: unat_of_nat)
  have ubb: "unat (of_nat b :: u32) = b" using b(1) TT by (intro ub) linarith
  have k: "unat (of_nat b :: u32) \<le> ?N" using b(3) ubb by simp
  have r': "room a s ?N (unat (of_nat b :: u32) + ?k)" using r TT(2) b(1) ubb by (auto simp: room_def)
  have kb: "{buf..<buf + ?k * SFS_BLKSIZE} \<inter> scratch a s = {}" by (rule sub_buf [OF _ buf]) auto
  from write_blocks [OF ok k r' kb, of alen] obtain t sin1
    where t: "sfs_io_blocks a n True ?k buf (of_nat b) alen s =
        Some (0, alen + ?k * SFS_BLKSIZE, buf + ?k * SFS_BLKSIZE, of_nat b + of_nat ?k, t)"
      "wrote a n sin s sin1 t buf (b * SFS_BLKSIZE) (?k * SFS_BLKSIZE)"
      "unat (blocks (din sin1)) = max ?N (b + ?k)"
    unfolding ubb by blast
  note W = wroteD [OF t(2)]
  have bk: "b + ?k = b1" using b(1) by simp
  have sz: "nat (endpos mod int SFS_BLKSIZE) = r1"
    by (simp only: e zmod_int [symmetric] nat_int) (use b(2) in simp)
  show ?thesis
  proof (cases "r1 = 0")
    case True
    then have "sfs_io_rest a n True ?k buf (of_nat b) alen endpos s = Some (0, alen + ?k * SFS_BLKSIZE, t)"
      using t(1) sz by (simp add: sfs_io_rest_def)
    with t(2,3) True T bk show ?thesis by (intro exI [of _ t] exI [of _ sin1]) simp
  next
    case False
    let ?w = "of_nat b + of_nat ?k :: u32" and ?buf = "buf + ?k * SFS_BLKSIZE"
    have w: "unat ?w = b1" using b(1) TT ub [of b1] by (simp flip: of_nat_add)
    have wl: "unat ?w \<le> unat (blocks (din sin1))" using t(3) w bk by simp
    have r1: "room a t (unat (blocks (din sin1))) (Suc (unat ?w))"
      using room_step [OF r t(3) _ W(5)] T False w bk by simp
    have "{?buf..<?buf + r1} \<inter> scratch a s = {}" by (rule sub_buf [OF _ buf]) auto
    then have bb: "{?buf..<?buf + r1} \<inter> scratch a t = {}" using W(2) by simp
    have o: "0 < SFS_BLKSIZE" "0 + r1 \<le> SFS_BLKSIZE" using b(2) by simp_all
    from write_part [OF W(1) wl r1 o bb] obtain u sin2
      where u: "sfs_io_part a n True ?buf r1 ?w 0 t = Some (0, u)"
        "wrote a n sin1 t sin2 u ?buf (b1 * SFS_BLKSIZE) r1"
        "unat (blocks (din sin2)) = max (unat (blocks (din sin1))) (Suc b1)"
      unfolding w add_0_right by blast
    have e': "b * SFS_BLKSIZE + ?k * SFS_BLKSIZE = b1 * SFS_BLKSIZE" using b(1) by (simp flip: add_mult_distrib)
    have le: "b * SFS_BLKSIZE + ?k * SFS_BLKSIZE \<le> unat (blocks (din sin1)) * SFS_BLKSIZE"
      unfolding e' using t(3) bk by (intro mult_le_mono1) simp
    have bb': "{?buf..<?buf + r1} \<inter> scratch a s = {}" using bb W(2) by simp
    have "wrote a n sin s sin2 u buf (b * SFS_BLKSIZE) (?k * SFS_BLKSIZE + r1)"
      by (rule wrote_append [OF t(2) _ bb' le]) (use u(2) in \<open>simp only: e'\<close>)
    moreover have "sfs_io_rest a n True ?k buf (of_nat b) alen endpos s =
        Some (0, alen + (?k * SFS_BLKSIZE + r1), u)"
      using t(1) u(1) sz False by (simp add: sfs_io_rest_def)
    moreover have "unat (blocks (din sin2)) = max ?N T" using u(3) t(3) bk T False by simp
    ultimately show ?thesis by blast
  qed
qed

lemma roundup_blocks:
  "e1 = b1 * SFS_BLKSIZE + r1 \<Longrightarrow> r1 < SFS_BLKSIZE \<Longrightarrow>
    ROUNDUP_DIV e1 SFS_BLKSIZE = b1 + (if r1 = 0 then 0 else 1)"
  unfolding ROUNDUP_DIV_def by (intro div_nat_eqI) auto

lemma roundup_bound:
  "e1 = b1 * SFS_BLKSIZE + r1 \<Longrightarrow> r1 < SFS_BLKSIZE \<Longrightarrow> e1 \<le> (b1 + (if r1 = 0 then 0 else 1)) * SFS_BLKSIZE"
  by (cases "r1 = 0") (auto simp: add_mult_distrib)

lemma write_steps:
  assumes ok: "file_ok a n sin s" and oe: "o1 < e1" and N: "o1 \<le> unat (blocks (din sin)) * SFS_BLKSIZE"
    and r: "room a s (unat (blocks (din sin))) (ROUNDUP_DIV e1 SFS_BLKSIZE)"
    and buf: "{buf..<buf + (e1 - o1)} \<inter> scratch a s = {}"
  shows "\<exists>t sin'. sfs_io_steps a n buf (int o1) (int e1) True s = Some (0, e1 - o1, t) \<and>
    wrote a n sin s sin' t buf o1 (e1 - o1) \<and>
    unat (blocks (din sin')) = max (unat (blocks (din sin))) (ROUNDUP_DIV e1 SFS_BLKSIZE)"
proof -
  let ?b = "o1 div SFS_BLKSIZE" and ?b1 = "e1 div SFS_BLKSIZE" and ?T = "ROUNDUP_DIV e1 SFS_BLKSIZE"
    and ?r = "o1 mod SFS_BLKSIZE" and ?q = "e1 mod SFS_BLKSIZE" and ?N = "unat (blocks (din sin))"
  have dm: "o1 = ?b * SFS_BLKSIZE + ?r" "e1 = ?b1 * SFS_BLKSIZE + ?q"
    by (simp_all only: div_mult_mod_eq)
  have rr: "?r < SFS_BLKSIZE" "?q < SFS_BLKSIZE" by simp_all
  have T: "?T = ?b1 + (if ?q = 0 then 0 else 1)" by (rule roundup_blocks [OF dm(2) rr(2)])
  have TT: "?T \<le> 1036" using r by (simp add: room_def)
  have "e1 \<le> 1036 * SFS_BLKSIZE"
  proof -
    have "e1 \<le> ?T * SFS_BLKSIZE"
      unfolding T by (rule roundup_bound [OF dm(2) rr(2)])
    also have "\<dots> \<le> 1036 * SFS_BLKSIZE" using TT by (rule mult_le_mono1)
    finally show ?thesis .
  qed
  note A = io_arith [OF less_imp_le [OF oe] this]
  have bb: "?b \<le> ?b1" using oe by (intro div_le_mono) simp
  have "?b * SFS_BLKSIZE \<le> ?N * SFS_BLKSIZE" using dm(1) N by linarith
  then have bN: "?b \<le> ?N" by simp
  have ei: "int e1 = int (?b1 * SFS_BLKSIZE + ?q)" by (simp only: div_mult_mod_eq)
  show ?thesis
  proof (cases "?r = 0")
    case True
    have l: "(?b1 - ?b) * SFS_BLKSIZE + ?q = e1 - o1" "?b * SFS_BLKSIZE = o1"
      using dm bb True by (simp_all add: diff_mult_distrib)
    have b': "{buf..<buf + ((?b1 - ?b) * SFS_BLKSIZE + ?q)} \<inter> scratch a s = {}" unfolding l by (rule buf)
    from write_rest [OF ok bb rr(2) bN T r b' ei, of 0] obtain t sin'
      where t: "sfs_io_rest a n True (?b1 - ?b) buf (of_nat ?b) 0 (int e1) s = Some (0, e1 - o1, t)"
        "wrote a n sin s sin' t buf o1 (e1 - o1)" "unat (blocks (din sin')) = max ?N ?T"
      unfolding l by auto
    have "sfs_io_steps a n buf (int o1) (int e1) True s = Some (0, e1 - o1, t)"
      using t(1) True by (simp only: sfs_io_steps_def Let_def A) (simp add: A(3))
    with t(2,3) show ?thesis by blast
  next
    case False
    let ?sz = "if ?b1 - ?b \<noteq> 0 then SFS_BLKSIZE - ?r else e1 - o1"
    have sz: "?r + ?sz \<le> SFS_BLKSIZE" "?sz \<le> e1 - o1" and Tb: "Suc ?b \<le> ?T"
    proof -
      have *: "e1 - o1 = ?q - ?r \<and> ?r \<le> ?q \<and> 0 < ?q" if "?b1 - ?b = 0"
      proof -
        have "?b1 = ?b" using that bb by linarith
        with dm(2) have "e1 = ?b * SFS_BLKSIZE + ?q" by metis
        with dm(1) oe False show ?thesis by linarith
      qed
      moreover have "SFS_BLKSIZE - ?r \<le> e1 - o1" if "?b1 - ?b \<noteq> 0"
        by (rule block_gap(1) [OF dm rr(1)]) (use that in simp)
      ultimately show "?r + ?sz \<le> SFS_BLKSIZE" "?sz \<le> e1 - o1" using rr by (auto simp del: mod_less_divisor)
      show "Suc ?b \<le> ?T" unfolding T using bb * by (cases "?b1 - ?b = 0") auto
    qed
    have w: "unat (of_nat ?b :: u32) \<le> ?N" using bN A(4) by (simp only:)
    have rb: "room a s ?N (Suc (unat (of_nat ?b :: u32)))" using r Tb A(4) by (auto simp: room_def)
    have bsz: "{buf..<buf + ?sz} \<inter> scratch a s = {}" by (rule sub_buf [OF _ buf]) (use sz(2) in auto)
    from write_part [OF ok w rb rr(1) sz(1) bsz] obtain t sin1
      where t: "sfs_io_part a n True buf ?sz (of_nat ?b) ?r s = Some (0, t)"
        "wrote a n sin s sin1 t buf o1 ?sz" "unat (blocks (din sin1)) = max ?N (Suc ?b)"
      unfolding A(4) dm(1) [symmetric] by blast
    note W = wroteD [OF t(2)]
    have wz: "(of_nat (?b1 - ?b) :: u32) = 0 \<longleftrightarrow> ?b1 - ?b = 0"
      using A(3) by (metis unat_eq_0)
    show ?thesis
    proof (cases "?b1 - ?b = 0")
      case True
      have "?q \<noteq> 0"
      proof
        assume "?q = 0"
        moreover have "?b1 = ?b" using True bb by linarith
        ultimately have "e1 = ?b * SFS_BLKSIZE" using dm(2) by (metis add_0_right)
        then show False using dm(1) oe by linarith
      qed
      then have "?T = Suc ?b" unfolding T using True bb by simp
      moreover have "sfs_io_steps a n buf (int o1) (int e1) True s = Some (0, e1 - o1, t)"
        using t(1) False True by (simp only: sfs_io_steps_def Let_def A wz) simp
      moreover have "wrote a n sin s sin1 t buf o1 (e1 - o1)" using t(2) True by (simp only: simp_thms if_False)
      ultimately show ?thesis using t(3) by (intro exI [of _ t] exI [of _ sin1]) simp
    next
      case ne: False
      let ?buf = "buf + (SFS_BLKSIZE - ?r)" and ?l = "e1 - o1 - (SFS_BLKSIZE - ?r)"
      have b2: "Suc ?b \<le> ?b1" using ne by simp
      note l = block_gap(2,3,1) [OF dm rr(1) b2]
      have bN2: "Suc ?b \<le> unat (blocks (din sin1))" using t(3) by simp
      have r2: "room a t (unat (blocks (din sin1))) ?T" by (rule room_step [OF r t(3) Tb W(5)])
      have bs: "{?buf..<?buf + ?l} \<inter> scratch a s = {}" by (rule sub_buf [OF _ buf]) (use l(3) in auto)
      then have bb2: "{?buf..<?buf + ((?b1 - Suc ?b) * SFS_BLKSIZE + ?q)} \<inter> scratch a t = {}"
        using W(2) unfolding l by simp
      from write_rest [OF W(1) b2 rr(2) bN2 T r2 bb2 ei, of "SFS_BLKSIZE - ?r"] obtain u sin2
        where u: "sfs_io_rest a n True (?b1 - Suc ?b) ?buf (of_nat (Suc ?b)) (SFS_BLKSIZE - ?r) (int e1) t =
            Some (0, e1 - o1, u)"
          "wrote a n sin1 t sin2 u ?buf (o1 + (SFS_BLKSIZE - ?r)) ?l"
          "unat (blocks (din sin2)) = max (unat (blocks (din sin1))) ?T"
        using l(3) unfolding l by auto
      have t2: "wrote a n sin s sin1 t buf o1 (SFS_BLKSIZE - ?r)" using t(2) by (simp only: if_P [OF ne])
      have le: "o1 + (SFS_BLKSIZE - ?r) \<le> unat (blocks (din sin1)) * SFS_BLKSIZE"
        unfolding l(2) [symmetric] by (rule mult_le_mono1 [OF bN2])
      have el: "SFS_BLKSIZE - ?r + ?l = e1 - o1" using l(3) by simp
      have R: "wrote a n sin s sin2 u buf o1 (e1 - o1)"
        using wrote_append [OF t2 u(2) bs le] unfolding el .
      have u1: "unat (of_nat (?b1 - ?b) - 1 :: u32) = ?b1 - Suc ?b"
        using unat_pred [OF _ A(3)] ne by (simp only:) simp
      have "sfs_io_steps a n buf (int o1) (int e1) True s = Some (0, e1 - o1, u)"
        using t(1) u(1) False ne
        by (simp only: sfs_io_steps_def Let_def A wz) (simp add: u1 add.commute del: of_nat_diff)
      moreover have "unat (blocks (din sin2)) = max ?N ?T"
        unfolding u(3) t(3) max.assoc max_absorb2 [OF Tb] ..
      ultimately show ?thesis using R by blast
    qed
  qed
qed

end
