(* ===== verification/SfsContent.thy ===== *)
theory SfsContent
  imports SfsWrite
begin

text \<open>
  Files as byte lists. The contents of a file are the bytes below its size; \<^verbatim>\<open>sfs_read\<close> and
  \<^verbatim>\<open>sfs_write\<close> are refinements of reading a part of the list and of overwriting a part of it.
\<close>

section \<open>The byte list of a file\<close>

definition file_bytes :: "disk_inode \<Rightarrow> kfs \<Rightarrow> u8 list" where
  "file_bytes d s = map (fbyte d s) [0..<unat (isz d)]"

definition overwrite :: "nat \<Rightarrow> 'b list \<Rightarrow> 'b list \<Rightarrow> 'b list" where
  "overwrite p ys xs = take p xs @ ys @ drop (p + length ys) xs"

text \<open>
  \<open>file_inv a n sin s\<close>: the inode at \<open>n\<close> is a file of the file system at \<open>a\<close>, nobody holds its
  lock and its size lies within its blocks.
\<close>

definition file_inv :: "addr \<Rightarrow> addr \<Rightarrow> sfs_inode \<Rightarrow> kfs \<Rightarrow> bool" where
  "file_inv a n sin s \<longleftrightarrow> file_ok a n sin s \<and> vop_sfs n s = Some a \<and> sin_sem sin > 0 \<and>
     itype (din sin) \<noteq> SFS_TYPE_DIR \<and> unat (isz (din sin)) \<le> unat (blocks (din sin)) * SFS_BLKSIZE"

lemma length_file_bytes [simp]: "length (file_bytes d s) = unat (isz d)"
  by (simp add: file_bytes_def)

lemma nth_overwrite:
  assumes "p \<le> length xs" and "i < max (length xs) (p + length ys)"
  shows "overwrite p ys xs ! i = (if p \<le> i \<and> i < p + length ys then ys ! (i - p) else xs ! i)"
  using assms by (auto simp: overwrite_def nth_append min_def)

lemma length_overwrite: "p \<le> length xs \<Longrightarrow> length (overwrite p ys xs) = max (length xs) (p + length ys)"
  by (auto simp: overwrite_def)

lemma bytes_at_index [simp]: "i < k \<Longrightarrow> bytes_at m p k ! i = m (p + i)"
  by (simp add: bytes_at_def)

section \<open>Setting the size\<close>

lemma fbyte_cong: "direct d' = direct d \<Longrightarrow> indirect d' = indirect d \<Longrightarrow> fbyte d' = fbyte d"
  by (rule ext, rule ext) (simp add: fbyte_def bmap_def)

lemma bmap_cong: "direct d' = direct d \<Longrightarrow> indirect d' = indirect d \<Longrightarrow> bmap d' = bmap d"
  by (rule ext, rule ext) (simp add: bmap_def)

lemma free_blocks_upd_sin [simp]: "free_blocks a (upd_sin n g s) = free_blocks a s"
  by (simp add: free_blocks_def)

definition keeps_blocks :: "(sfs_inode \<Rightarrow> sfs_inode) \<Rightarrow> bool" where
  "keeps_blocks g \<longleftrightarrow> (\<forall>x. direct (din (g x)) = direct (din x) \<and> indirect (din (g x)) = indirect (din x) \<and>
     blocks (din (g x)) = blocks (din x))"

lemma file_ok_upd_sin:
  assumes "file_ok a n sin s" and g: "keeps_blocks g"
  shows "file_ok a n (g sin) (upd_sin n g s)"
proof -
  have e: "bmap (din (g x)) = bmap (din x)" "blocks (din (g x)) = blocks (din x)"
    "direct (din (g x)) = direct (din x)" "indirect (din (g x)) = indirect (din x)" for x
    using g by (auto simp: keeps_blocks_def intro!: bmap_cong)
  show ?thesis using assms(1) by (auto simp: file_ok_def inode_wf_def Let_def e)
qed

lemma same_but_upd_sin:
  assumes "same_but a n s t" and "vop_sin n t = Some sin"
  shows "same_but a n s (upd_sin n g t)"
proof -
  from assms(1) obtain f b v d i x where 1: "fss s a = Some f" "inodes s n = Some i"
    "t = s\<lparr>kmem := kmem t,
           fss := (fss s)(a \<mapsto> f\<lparr>freemap := b, super := (super f)\<lparr>unused_blocks := v\<rparr>, super_dirty := d\<rparr>),
           inodes := (inodes s)(n \<mapsto> i\<lparr>info := SfsInfo x\<rparr>)\<rparr>" unfolding same_but_def by blast
  have "upd_sin n g t = s\<lparr>kmem := kmem (upd_sin n g t),
           fss := (fss s)(a \<mapsto> f\<lparr>freemap := b, super := (super f)\<lparr>unused_blocks := v\<rparr>, super_dirty := d\<rparr>),
           inodes := (inodes s)(n \<mapsto> i\<lparr>info := SfsInfo (g x)\<rparr>)\<rparr>"
    by (subst 1(3), subst (2) 1(3)) (simp add: upd_sin_def upd_inode_def)
  with 1(1,2) show ?thesis unfolding same_but_def by blast
qed

lemma same_but_from_upd_sin:
  assumes "same_but a n (upd_sin n g s) t" and "vop_sin n s = Some sin"
  shows "same_but a n s t"
proof -
  obtain j where j: "inodes s n = Some j" "info j = SfsInfo sin"
    using assms(2) by (auto simp: vop_sin_def split: option.splits in_info.splits)
  have i0: "inodes (upd_sin n g s) n = Some (j\<lparr>info := SfsInfo (g sin)\<rparr>)"
    using j by (simp add: upd_sin_def upd_inode_def)
  from assms(1) obtain f b v d i x where 1: "fss (upd_sin n g s) a = Some f" "inodes (upd_sin n g s) n = Some i"
    "t = (upd_sin n g s)\<lparr>kmem := kmem t,
           fss := (fss (upd_sin n g s))(a \<mapsto> f\<lparr>freemap := b, super := (super f)\<lparr>unused_blocks := v\<rparr>, super_dirty := d\<rparr>),
           inodes := (inodes (upd_sin n g s))(n \<mapsto> i\<lparr>info := SfsInfo x\<rparr>)\<rparr>" unfolding same_but_def by blast
  have i: "i = j\<lparr>info := SfsInfo (g sin)\<rparr>" using 1(2) i0 by simp
  have "t = s\<lparr>kmem := kmem t,
           fss := (fss s)(a \<mapsto> f\<lparr>freemap := b, super := (super f)\<lparr>unused_blocks := v\<rparr>, super_dirty := d\<rparr>),
           inodes := (inodes s)(n \<mapsto> j\<lparr>info := SfsInfo x\<rparr>)\<rparr>"
    by (subst 1(3)) (simp add: i upd_sin_def upd_inode_def)
  with 1(1) j(1) show ?thesis unfolding same_but_def by auto
qed

lemma upd_sin_cong:
  assumes "vop_sin n s = Some sin" and "g sin = h sin"
  shows "upd_sin n g s = upd_sin n h s"
proof -
  obtain i where i: "inodes s n = Some i" "info i = SfsInfo sin"
    using assms(1) by (auto simp: vop_sin_def split: option.splits in_info.splits)
  then show ?thesis using assms(2) by (simp add: upd_sin_def upd_inode_def)
qed

section \<open>The write under the lock\<close>

definition resize :: "nat \<Rightarrow> sfs_inode \<Rightarrow> sfs_inode" where
  "resize e sin =
     (if e > unat (isz (din sin)) then sin\<lparr>din := (din sin)\<lparr>isz := of_nat e\<rparr>, dirty := True\<rparr> else sin)"

lemma keeps_blocks_resize [simp]: "keeps_blocks (resize e)"
  by (simp add: keeps_blocks_def resize_def)

lemma resize_simps [simp]:
  "itype (din (resize e sin)) = itype (din sin)" "sin_sem (resize e sin) = sin_sem sin"
  "blocks (din (resize e sin)) = blocks (din sin)" "ino (resize e sin) = ino sin"
  "reclaim_count (resize e sin) = reclaim_count sin" "nlinks (din (resize e sin)) = nlinks (din sin)"
  by (simp_all add: resize_def)

lemma isz_resize: "e < 2 ^ 32 \<Longrightarrow> unat (isz (din (resize e sin))) = max (unat (isz (din sin))) e"
  by (auto simp: resize_def unat_of_nat max_def)

lemma resize_state:
  assumes "vop_sin n t = Some sin"
  shows "(if int p + int r > uint (isz (din sin)) then
        upd_sin n (dirty_update (\<lambda>_. True)) (upd_din n (\<lambda>d. d\<lparr>isz := of_nat p + of_nat r\<rparr>) t)
      else t) = upd_sin n (resize (p + r)) t"
proof (cases "unat (isz (din sin)) < p + r")
  case True
  then have "int p + int r > uint (isz (din sin))" unfolding uint_nat by linarith
  moreover have "upd_sin n (resize (p + r)) t =
      upd_sin n (dirty_update (\<lambda>_. True) \<circ> (\<lambda>x. x\<lparr>din := (din x)\<lparr>isz := of_nat p + of_nat r\<rparr>\<rparr>)) t"
    by (rule upd_sin_cong [OF assms]) (use True in \<open>simp add: resize_def\<close>)
  ultimately show ?thesis by (simp add: upd_din_def upd_sin_comp)
next
  case False
  then have "\<not> int p + int r > uint (isz (din sin))" unfolding uint_nat by linarith
  moreover have "upd_sin n (resize (p + r)) t = t"
    by (rule upd_sin_id [OF assms]) (use False in \<open>simp add: resize_def\<close>)
  ultimately show ?thesis by simp
qed

lemma room_max:
  assumes "room a s N (ROUNDUP_DIV e SFS_BLKSIZE)"
  shows "e \<le> 1036 * SFS_BLKSIZE"
proof -
  have e: "e = e div SFS_BLKSIZE * SFS_BLKSIZE + e mod SFS_BLKSIZE" by (simp only: div_mult_mod_eq)
  have m: "e mod SFS_BLKSIZE < SFS_BLKSIZE" by simp
  have "e \<le> ROUNDUP_DIV e SFS_BLKSIZE * SFS_BLKSIZE"
    unfolding roundup_blocks [OF e m] by (rule roundup_bound [OF e m])
  also have "\<dots> \<le> 1036 * SFS_BLKSIZE" using assms by (intro mult_le_mono1) (simp add: room_def)
  finally show ?thesis .
qed

lemma io_nolock_write:
  assumes "vop_sin n s = Some sin" and "itype (din sin) \<noteq> SFS_TYPE_DIR" and "p + r \<le> 1036 * SFS_BLKSIZE" and "0 < r"
    and st: "sfs_io_steps a n buf (int p) (int (p + r)) True s = Some (0, r, t)" and t: "vop_sin n t = Some sin'"
  shows "sfs_io_nolock a n buf (int p) r True s = Some (0, r, upd_sin n (resize (p + r)) t)"
proof -
  have q: "sint (word_of_int (int p) + of_nat r :: u64) = int (p + r)" using assms(3) by (intro sint_pos) simp
  have "\<not> (int p < 0 \<or> SFS_MAX_FILE_SIZE \<le> int p \<or> int (p + r) < int p)" "int p \<noteq> int (p + r)"
    "\<not> SFS_MAX_FILE_SIZE < int (p + r)"
    using assms(3,4) by (simp_all add: SFS_MAX_FILE_SIZE_def)
  then show ?thesis using assms(1,2) q st t resize_state [OF t, of p r]
    by (cases "uint (isz (din sin')) < int p + int r") (simp_all add: sfs_io_nolock_def Let_def del: of_nat_add)
qed

section \<open>Reading and writing as list operations\<close>

lemma file_invD:
  assumes "file_inv a n sin s"
  shows "file_ok a n sin s" and "vop_sfs n s = Some a" and "sin_sem sin > 0"
    and "itype (din sin) \<noteq> SFS_TYPE_DIR" and "unat (isz (din sin)) \<le> unat (blocks (din sin)) * SFS_BLKSIZE"
    and "vop_sin n s = Some sin" and "unat (isz (din sin)) \<le> 1036 * SFS_BLKSIZE"
proof -
  show ok: "file_ok a n sin s" and "vop_sfs n s = Some a" and "sin_sem sin > 0"
    and "itype (din sin) \<noteq> SFS_TYPE_DIR" and l: "unat (isz (din sin)) \<le> unat (blocks (din sin)) * SFS_BLKSIZE"
    using assms by (simp_all add: file_inv_def)
  note F = file_okD [OF ok]
  show "vop_sin n s = Some sin" by (rule F(4))
  have "unat (blocks (din sin)) * SFS_BLKSIZE \<le> 1036 * SFS_BLKSIZE"
    by (rule mult_le_mono1 [OF inode_wfD(2) [OF F(3,4)]])
  with l show "unat (isz (din sin)) \<le> 1036 * SFS_BLKSIZE" by linarith
qed

definition wrote_list :: "addr \<Rightarrow> addr \<Rightarrow> sfs_inode \<Rightarrow> kfs \<Rightarrow> sfs_inode \<Rightarrow> kfs \<Rightarrow> nat \<Rightarrow> u8 list \<Rightarrow> bool" where
  "wrote_list a n sin s sin' t p ys \<longleftrightarrow>
     file_inv a n sin' t \<and> file_bytes (din sin') t = overwrite p ys (file_bytes (din sin) s) \<and>
     same_but a n s t \<and> (\<forall>x. x \<notin> scratch a s \<longrightarrow> kmem t x = kmem s x) \<and>
     free_blocks a t \<subseteq> free_blocks a s \<and> own (din sin') t \<subseteq> own (din sin) s \<union> free_blocks a s \<and>
     (\<forall>x<disk_blocks s. x \<notin> free_blocks a s \<longrightarrow> x \<notin> own (din sin) s \<longrightarrow> blk t x = blk s x)"

lemma unlock_locked: "vop_sin n s = Some sin \<Longrightarrow> unlock_sin n (sin_locked n sin s) = s"
  using unlock_sin_after [of n s sin "kmem s"] by (simp add: sin_locked_def upd_sin_kmem [symmetric])

lemma blk_upd_sin_fun [simp]: "own d (upd_sin n g s) = own d s"
  by (simp add: own_def)

lemma wrote_finish:
  assumes inv: "file_inv a n sin s" and p: "p \<le> unat (isz (din sin))" and r: "0 < r"
    and w: "wrote a n (sin\<lparr>sin_sem := sin_sem sin - 1\<rparr>) (sin_locked n sin s) sin' t buf p r"
    and nb: "unat (blocks (din sin')) = max (unat (blocks (din sin))) (ROUNDUP_DIV (p + r) SFS_BLKSIZE)"
    and e: "p + r \<le> 1036 * SFS_BLKSIZE"
  shows "wrote_list a n sin s ((resize (p + r) sin')\<lparr>sin_sem := sin_sem sin\<rparr>)
    (unlock_sin n (upd_sin n (resize (p + r)) t)) p (bytes_at (kmem s) buf r)"
proof -
  note I = file_invD [OF inv]
  let ?g = "sin_sem_update (\<lambda>n. n + 1) \<circ> resize (p + r)" and ?x = "(resize (p + r) sin')\<lparr>sin_sem := sin_sem sin\<rparr>"
  let ?z = "unat (isz (din sin))"
  have T: "p + r \<le> ROUNDUP_DIV (p + r) SFS_BLKSIZE * SFS_BLKSIZE"
  proof -
    have d: "p + r = (p + r) div SFS_BLKSIZE * SFS_BLKSIZE + (p + r) mod SFS_BLKSIZE" by (simp only: div_mult_mod_eq)
    have m: "(p + r) mod SFS_BLKSIZE < SFS_BLKSIZE" by simp
    show ?thesis unfolding roundup_blocks [OF d m] by (rule roundup_bound [OF d m])
  qed
  note W = w [unfolded wrote_def]
  have k: "keeps (sin\<lparr>sin_sem := sin_sem sin - 1\<rparr>) sin'" and ok: "file_ok a n sin' t"
    and sb: "same_but a n (sin_locked n sin s) t" using W by blast+
  have z: "unat (isz (din sin')) = ?z" and sem: "sin_sem sin' = sin_sem sin - 1" and ty: "itype (din sin') = itype (din sin)"
    using k by (simp_all add: keeps_def)
  have v: "vop_sin n t = Some sin'" using file_okD(4) [OF ok] .
  have gx: "?g sin' = ?x" using sem by (simp add: resize_def)
  have u: "unlock_sin n (upd_sin n (resize (p + r)) t) = upd_sin n ?g t" by (simp add: unlock_sin_def upd_sin_comp)
  have kb: "keeps_blocks ?g" by (simp add: keeps_blocks_def resize_def)
  have dz: "unat (isz (din ?x)) = max ?z (p + r)" using isz_resize [of "p + r" sin'] e z by simp
  have d: "direct (din ?x) = direct (din sin')" "indirect (din ?x) = indirect (din sin')" "blocks (din ?x) = blocks (din sin')"
    by (simp_all add: resize_def)
  have fb: "fbyte (din ?x) = fbyte (din sin')" by (rule fbyte_cong [OF d(1,2)])
  have ow: "own (din ?x) = own (din sin')" by (rule ext) (simp only: own_def d bmap_cong [OF d(1,2)])
  have le: "max ?z (p + r) \<le> unat (blocks (din sin')) * SFS_BLKSIZE"
  proof -
    have "?z \<le> unat (blocks (din sin')) * SFS_BLKSIZE" "p + r \<le> unat (blocks (din sin')) * SFS_BLKSIZE"
      unfolding nb using I(5) T
        mult_le_mono1 [OF max.cobounded1, of "unat (blocks (din sin))" SFS_BLKSIZE "ROUNDUP_DIV (p + r) SFS_BLKSIZE"]
        mult_le_mono1 [OF max.cobounded2, of "ROUNDUP_DIV (p + r) SFS_BLKSIZE" SFS_BLKSIZE "unat (blocks (din sin))"]
      by (meson le_trans)+
    then show ?thesis by simp
  qed
  have inv': "file_inv a n ?x (upd_sin n ?g t)"
    unfolding file_inv_def
    using file_ok_upd_sin [OF ok kb] gx le dz I(2-4) ty same_butD(7) [OF sb]
    by (simp add: sin_locked_def d)
  have fl: "file_bytes (din ?x) (upd_sin n ?g t) = map (fbyte (din sin') t) [0..<max ?z (p + r)]"
    unfolding file_bytes_def fb dz by (simp only: upd_sin_derived_fun)
  have bytes: "file_bytes (din ?x) (upd_sin n ?g t) =
      overwrite p (bytes_at (kmem s) buf r) (file_bytes (din sin) s)"
  proof (rule nth_equalityI)
    show "length (file_bytes (din ?x) (upd_sin n ?g t)) =
        length (overwrite p (bytes_at (kmem s) buf r) (file_bytes (din sin) s))"
      using dz p by (simp add: length_overwrite)
    fix i assume "i < length (file_bytes (din ?x) (upd_sin n ?g t))"
    then have i: "i < max ?z (p + r)" using dz by simp
    then have "i < unat (blocks (din sin')) * SFS_BLKSIZE" using le by linarith
    then have f: "fbyte (din sin') t i = (if p \<le> i \<and> i < p + r then kmem s (buf + (i - p))
         else if i < unat (blocks (din sin)) * SFS_BLKSIZE then fbyte (din sin) s i else 0)"
      using W by (simp add: sin_locked_def)
    have "i < unat (blocks (din sin)) * SFS_BLKSIZE" if "\<not> (p \<le> i \<and> i < p + r)" using that i I(5) p by linarith
    then have "fbyte (din sin') t i = (if p \<le> i \<and> i < p + r then kmem s (buf + (i - p)) else fbyte (din sin) s i)"
      using f by simp
    moreover have "i < ?z" if "\<not> (p \<le> i \<and> i < p + r)" using that i p by linarith
    ultimately show "file_bytes (din ?x) (upd_sin n ?g t) ! i =
        overwrite p (bytes_at (kmem s) buf r) (file_bytes (din sin) s) ! i"
      unfolding fl using i p by (auto simp: nth_overwrite file_bytes_def)
  qed
  have "same_but a n s (upd_sin n ?g t)"
    by (rule same_but_upd_sin [OF same_but_from_upd_sin [OF sb [unfolded sin_locked_def] I(6)] v])
  moreover have "own (din ?x) (upd_sin n ?g t) \<subseteq> own (din sin) s \<union> free_blocks a s"
    unfolding ow using W by (simp add: sin_locked_def)
  ultimately show ?thesis
    using inv' bytes W unfolding wrote_list_def u by (simp add: sin_locked_def)
qed

lemma sfs_write_spec:
  assumes inv: "file_inv a n sin s" and off: "io_offset iob = int p" and p: "p \<le> unat (isz (din sin))"
    and room: "room a s (unat (blocks (din sin))) (ROUNDUP_DIV (p + io_resid iob) SFS_BLKSIZE)"
    and buf: "{io_base iob..<io_base iob + io_resid iob} \<inter> scratch a s = {}"
  shows "\<exists>t sin'. sfs_write n iob s = Some (0, advance (io_resid iob) iob, t) \<and>
    wrote_list a n sin s sin' t p (bytes_at (kmem s) (io_base iob) (io_resid iob))"
proof -
  let ?r = "io_resid iob" and ?L = "sin_locked n sin s" and ?sin = "sin\<lparr>sin_sem := sin_sem sin - 1\<rparr>"
  note I = file_invD [OF inv]
  have lock: "lock_sin n s = Some ?L" by (rule lock_sin_Some [OF I(6,3)])
  have okL: "file_ok a n ?sin ?L" by (rule file_ok_locked [OF I(1)])
  note F = file_okD [OF okL]
  have adv: "(if ?r \<noteq> 0 then iobuf_skip ?r iob else Some iob) = Some (advance ?r iob)"
    by (auto simp: iobuf_skip_advance)
  note e = room_max [OF room]
  show ?thesis
  proof (cases "?r = 0")
    case True
    have "sint (word_of_int (int p) + of_nat 0 :: u64) = int (p + 0)" using e by (intro sint_pos) simp
    moreover have "\<not> SFS_MAX_FILE_SIZE \<le> int p" using e by (simp add: SFS_MAX_FILE_SIZE_def)
    ultimately have "sfs_io_nolock a n (io_base iob) (int p) ?r True ?L = Some (0, 0, ?L)"
      using True F(4) I(4) by (simp add: sfs_io_nolock_def)
    then have "sfs_write n iob s = Some (0, advance ?r iob, s)"
      using True lock I(2) off unlock_locked [OF I(6)] by (simp add: sfs_write_def sfs_io_def)
    moreover obtain f where f: "fss s a = Some f"
      using file_okD(1) [OF I(1)] by (auto simp: fs_wf_def split: option.splits)
    moreover have "wrote_list a n sin s sin s p (bytes_at (kmem s) (io_base iob) ?r)"
      using True inv same_but_refl [OF f I(6), of "kmem s"]
      by (auto simp: wrote_list_def overwrite_def)
    ultimately show ?thesis by blast
  next
    case False
    have le: "p \<le> unat (blocks (din ?sin)) * SFS_BLKSIZE" using p I(5) by simp
    have rm: "room a ?L (unat (blocks (din ?sin))) (ROUNDUP_DIV (p + ?r) SFS_BLKSIZE)"
      using room by (simp add: room_def sin_locked_def)
    have bf: "{io_base iob..<io_base iob + (p + ?r - p)} \<inter> scratch a ?L = {}" using buf by (simp add: sin_locked_def)
    from write_steps [OF okL _ le rm bf] False obtain t sin'
      where t: "sfs_io_steps a n (io_base iob) (int p) (int (p + ?r)) True ?L = Some (0, ?r, t)"
        "wrote a n ?sin ?L sin' t (io_base iob) p ?r"
        "unat (blocks (din sin')) = max (unat (blocks (din sin))) (ROUNDUP_DIV (p + ?r) SFS_BLKSIZE)"
      by auto
    have v: "vop_sin n t = Some sin'" by (rule file_okD(4) [OF wroteD(1) [OF t(2)]])
    have "sfs_io_nolock a n (io_base iob) (int p) ?r True ?L = Some (0, ?r, upd_sin n (resize (p + ?r)) t)"
      by (rule io_nolock_write [OF F(4) _ e _ t(1) v]) (use I(4) False in simp_all)
    then have "sfs_write n iob s = Some (0, advance ?r iob, unlock_sin n (upd_sin n (resize (p + ?r)) t))"
      using lock I(2) off adv by (simp add: sfs_write_def sfs_io_def)
    moreover note wrote_finish [OF inv p _ t(2,3) e] False
    ultimately show ?thesis by blast
  qed
qed

lemma file_bytes_touched:
  assumes inv: "file_inv a n sin s" and t: "touched a s B m"
  shows "file_inv a n sin (s\<lparr>kmem := m\<rparr>)" and "file_bytes (din sin) (s\<lparr>kmem := m\<rparr>) = file_bytes (din sin) s"
proof -
  note I = file_invD [OF inv]
  show "file_inv a n sin (s\<lparr>kmem := m\<rparr>)"
    using I file_ok_touched [OF I(1) t] by (simp add: file_inv_def vop_sfs_def)
  have "k div SFS_BLKSIZE < unat (blocks (din sin))" if "k < unat (isz (din sin))" for k
    using that I(5) by (simp add: less_mult_imp_div_less)
  then show "file_bytes (din sin) (s\<lparr>kmem := m\<rparr>) = file_bytes (din sin) s"
    using fbyte_touched [OF I(1) t] by (simp add: file_bytes_def)
qed

lemma sfs_read_list:
  assumes inv: "file_inv a n sin s" and off: "io_offset iob = int p"
    and p: "int p < SFS_MAX_FILE_SIZE" "p + io_resid iob < 2 ^ 63"
    and ys: "ys = take (io_resid iob) (drop p (file_bytes (din sin) s))"
    and buf: "{io_base iob..<io_base iob + length ys} \<inter> scratch a s = {}"
  shows "\<exists>m. sfs_read n iob s = Some (0, advance (length ys) iob, s\<lparr>kmem := m\<rparr>) \<and>
    bytes_at m (io_base iob) (length ys) = ys \<and> touched a s {io_base iob..<io_base iob + length ys} m"
proof -
  note I = file_invD [OF inv]
  have l: "length ys = min (io_resid iob) (unat (isz (din sin)) - p)" using ys by simp
  from sfs_read_spec [OF I(1-5) off p l buf] obtain m
    where m: "sfs_read n iob s = Some (0, advance (length ys) iob, s\<lparr>kmem := m\<rparr>)"
      "has_read a (din sin) s (io_base iob) p (length ys) m" by blast
  have "bytes_at m (io_base iob) (length ys) = ys"
  proof (rule nth_equalityI)
    fix j assume "j < length (bytes_at m (io_base iob) (length ys))"
    then have j: "j < length ys" by simp
    then have pj: "p + j < unat (isz (din sin))" "j < io_resid iob" using l by linarith+
    have "drop p (file_bytes (din sin) s) ! j = fbyte (din sin) s (p + j)"
      using pj(1) by (subst nth_drop) (simp_all add: file_bytes_def)
    then have "ys ! j = fbyte (din sin) s (p + j)" using pj(2) ys by simp
    then show "bytes_at m (io_base iob) (length ys) ! j = ys ! j" using m(2) j by (simp add: has_read_def)
  qed simp
  with m show ?thesis unfolding has_read_def by blast
qed

section \<open>A file to try them on\<close>

text \<open>
  The demo file system with an empty file at address 9, whose inode is block 3, and an empty
  directory at address 11, whose inode is block 1.
\<close>

definition demo_sin :: sfs_inode where
  "demo_sin = \<lparr>din = \<lparr>isz = 0, itype = SFS_TYPE_FILE, nlinks = 1, blocks = 0, direct = replicate 12 0, indirect = 0\<rparr>,
     ino = 3, dirty = False, reclaim_count = 1, sin_sem = 1\<rparr>"

definition demo_dir_sin :: sfs_inode where
  "demo_dir_sin = demo_sin\<lparr>din := (din demo_sin)\<lparr>itype := SFS_TYPE_DIR\<rparr>, ino := 1\<rparr>"

definition demo_file :: kfs where
  "demo_file = demo_fs_state\<lparr>inodes := (inodes demo_fs_state)(9 \<mapsto>
     \<lparr>info = SfsInfo demo_sin, ref_count = 1, open_count = 1, in_fs = 7, iops = SfsFileOps\<rparr>, 11 \<mapsto>
     \<lparr>info = SfsInfo demo_dir_sin, ref_count = 1, open_count = 1, in_fs = 7, iops = SfsDirOps\<rparr>)\<rparr>"

lemma demo_bit: "i < 32 \<Longrightarrow> bit (0xf0 :: int) i \<longleftrightarrow> 4 \<le> i \<and> i < 8"
proof -
  assume "i < 32"
  moreover have "\<forall>i\<in>set [0..<32]. bit (0xf0 :: int) i \<longleftrightarrow> 4 \<le> i \<and> i < 8" by code_simp
  ultimately show ?thesis by simp
qed

lemma demo_free: "free_set \<lparr>nbits = 8, nwords = 1, wordmap = [0xf0]\<rparr> = {4..<8}"
  by (auto simp: free_set_def demo_bit)

lemma demo_file_simps [simp]:
  "fss demo_file = fss demo_fs_state" "kmem demo_file = of_nat" "locals demo_file = 1024"
  "vop_sin 9 demo_file = Some demo_sin" "vop_sfs 9 demo_file = Some 7"
  by (simp_all add: demo_file_def demo_fs_state_def vop_sin_def vop_sfs_def) (simp add: demo_kfs_def)

lemma demo_file_disk [simp]:
  "disk_blocks demo_file = 8" "disk_base demo_file = 65536" "disk0_buffer demo_file = 4096"
  "io_area demo_file b = io_area demo_fs_state b" "fs_dev_ok 7 demo_file"
proof -
  have d: "disk_blocks demo_file = disk_blocks demo_fs_state" "disk_base demo_file = disk_base demo_fs_state"
    "disk0_buffer demo_file = disk0_buffer demo_fs_state" "disk0_sem demo_file = disk0_sem demo_fs_state"
    "VALID_IDE DISK0_DEV_NO demo_file = VALID_IDE DISK0_DEV_NO demo_fs_state"
    by (simp_all add: demo_file_def disk_blocks_def disk_base_def ide_device_size_def
        ide_device_valid_def VALID_IDE_def)
  have e: "disk_blocks demo_fs_state = disk_blocks demo_kfs" "disk_base demo_fs_state = disk_base demo_kfs"
    "disk0_buffer demo_fs_state = disk0_buffer demo_kfs"
    by (simp_all add: demo_fs_state_def disk_blocks_def disk_base_def ide_device_size_def
        ide_device_valid_def VALID_IDE_def)
  show "disk_blocks demo_file = 8" "disk_base demo_file = 65536" "disk0_buffer demo_file = 4096"
    using d e by simp_all
  show "io_area demo_file b = io_area demo_fs_state b" using d by (simp add: io_area_def)
  have v: "vop_dev 5 demo_file = vop_dev 5 demo_fs_state" by (simp add: vop_dev_def demo_file_def)
  have b: "disk_ok demo_file = disk_ok demo_fs_state" "buf_ok demo_file = buf_ok demo_fs_state"
    using d unfolding disk_ok_def buf_ok_def fun_eq_iff by auto
  have "vop_dev (sdev demo_sfs) demo_file = vop_dev (sdev demo_sfs) demo_fs_state"
    using v by (simp add: demo_sfs_def)
  then show "fs_dev_ok 7 demo_file"
    using demo_fs_ok(1) d(4) unfolding fs_dev_ok_def b d(1) demo_file_simps(1) by simp
qed

lemma demo_file_inv:
  "file_inv 7 9 demo_sin demo_file"
  "scratch 7 demo_file = {1024..<1088} \<union> {4096..<20480} \<union> {49152..<53248} \<union> {65536..<98304}"
  "room 7 demo_file 0 2"
proof -
  show sc: "scratch 7 demo_file = {1024..<1088} \<union> {4096..<20480} \<union> {49152..<53248} \<union> {65536..<98304}"
    by (auto simp: scratch_def)
  show "room 7 demo_file 0 2" by (simp add: room_def free_blocks_def) (simp add: demo_sfs_def demo_free)
  have "fs_wf 7 demo_file"
    by (simp add: fs_wf_def) (auto simp: demo_sfs_def demo_free wf_bitmap_def demo_bit)
  moreover have "locals_ok 7 demo_file" by (auto simp: locals_ok_def)
  moreover have "inode_wf 7 9 demo_file"
    by (auto simp: inode_wf_def demo_sin_def bmap_def)
  ultimately show "file_inv 7 9 demo_sin demo_file"
    by (simp add: file_inv_def file_ok_def) (simp add: demo_sin_def layout)
qed

section \<open>Properties\<close>

text \<open>
  C8: \<^verbatim>\<open>sfs_write\<close> refines overwriting a part of a byte list. For a file whose invariant holds
  and a position not past its end, with enough free blocks (two for each block the file gains)
  and a buffer outside the memory the file system uses for itself, the call returns 0, consumes
  the whole I/O buffer, and the file's bytes are the old bytes with those of the buffer written
  over them from that position on. The invariant holds again, blocks that belong neither to the
  file nor to the free map keep their contents, and all other memory is unchanged.
\<close>

theorem sfs_write_overwrites:
  assumes "file_inv a n sin s" and "io_offset iob = int p" and "p \<le> unat (isz (din sin))"
    and "room a s (unat (blocks (din sin))) (ROUNDUP_DIV (p + io_resid iob) SFS_BLKSIZE)"
    and "{io_base iob..<io_base iob + io_resid iob} \<inter> scratch a s = {}"
  shows "\<exists>t sin'. sfs_write n iob s = Some (0, advance (io_resid iob) iob, t) \<and> file_inv a n sin' t \<and>
    file_bytes (din sin') t = overwrite p (bytes_at (kmem s) (io_base iob) (io_resid iob)) (file_bytes (din sin) s) \<and>
    free_blocks a t \<subseteq> free_blocks a s \<and>
    (\<forall>x<disk_blocks s. x \<notin> free_blocks a s \<longrightarrow> x \<notin> own (din sin) s \<longrightarrow> blk t x = blk s x) \<and>
    (\<forall>x. x \<notin> scratch a s \<longrightarrow> kmem t x = kmem s x)"
  using sfs_write_spec [OF assms] unfolding wrote_list_def by blast

theorem sfs_write_overwrites_witness:
  "\<exists>t sin'. sfs_write 9 (iobuf_init 24576 100 0) demo_file = Some (0, advance 100 (iobuf_init 24576 100 0), t) \<and>
    file_inv 7 9 sin' t \<and> file_bytes (din sin') t = bytes_at of_nat 24576 100"
proof -
  have "{24576..<24576 + 100} \<inter> scratch 7 demo_file = {}" unfolding demo_file_inv(2) by auto
  moreover have "room 7 demo_file (unat (blocks (din demo_sin))) (ROUNDUP_DIV (0 + 100) SFS_BLKSIZE)"
    using demo_file_inv(3) by (simp add: room_def ROUNDUP_DIV_def demo_sin_def)
  moreover have "file_bytes (din demo_sin) demo_file = []" by (simp add: file_bytes_def demo_sin_def)
  moreover have "overwrite 0 ys [] = ys" for ys :: "u8 list" by (simp add: overwrite_def)
  ultimately show ?thesis
    using sfs_write_overwrites [OF demo_file_inv(1), of "iobuf_init 24576 100 0" 0]
    unfolding iobuf_init_def iobuf.simps demo_file_simps(2) by simp blast
qed

text \<open>
  C9: \<^verbatim>\<open>sfs_read\<close> refines reading a part of a byte list: it returns 0, puts the bytes from the
  offset on, at most as many as the I/O buffer has left, into the buffer, advances it by their
  number, and changes neither the file nor any memory outside its own and the buffer. Past the
  end of the file it reads nothing.
\<close>

theorem sfs_read_takes:
  assumes "file_inv a n sin s" and "io_offset iob = int p"
    and "int p < SFS_MAX_FILE_SIZE" and "p + io_resid iob < 2 ^ 63"
    and "ys = take (io_resid iob) (drop p (file_bytes (din sin) s))"
    and "{io_base iob..<io_base iob + length ys} \<inter> scratch a s = {}"
  shows "\<exists>m. sfs_read n iob s = Some (0, advance (length ys) iob, s\<lparr>kmem := m\<rparr>) \<and>
    bytes_at m (io_base iob) (length ys) = ys \<and>
    file_inv a n sin (s\<lparr>kmem := m\<rparr>) \<and> file_bytes (din sin) (s\<lparr>kmem := m\<rparr>) = file_bytes (din sin) s \<and>
    (\<forall>x. x \<notin> scratch a s \<longrightarrow> x \<notin> {io_base iob..<io_base iob + length ys} \<longrightarrow> m x = kmem s x)"
proof -
  from sfs_read_list [OF assms] obtain m
    where m: "sfs_read n iob s = Some (0, advance (length ys) iob, s\<lparr>kmem := m\<rparr>)"
      "bytes_at m (io_base iob) (length ys) = ys" "touched a s {io_base iob..<io_base iob + length ys} m" by blast
  from m(3) have "\<forall>x. x \<notin> scratch a s \<longrightarrow> x \<notin> {io_base iob..<io_base iob + length ys} \<longrightarrow> m x = kmem s x"
    by (simp add: touched_def)
  with m file_bytes_touched [OF assms(1) m(3)] show ?thesis by blast
qed

theorem sfs_read_takes_witness:
  "\<exists>m. sfs_read 9 (iobuf_init 36864 100 0) demo_file = Some (0, iobuf_init 36864 100 0, demo_file\<lparr>kmem := m\<rparr>)"
proof -
  have "file_bytes (din demo_sin) demo_file = []" by (simp add: file_bytes_def demo_sin_def)
  then show ?thesis
    using sfs_read_takes [OF demo_file_inv(1), of "iobuf_init 36864 100 0" 0 "[]"]
    by (fastforce simp: iobuf_init_def SFS_MAX_FILE_SIZE_def)
qed

text \<open>
  What \<^verbatim>\<open>sfs_write\<close> writes, \<^verbatim>\<open>sfs_read\<close> reads back, across block borders and through
  newly allocated direct and indirect blocks: a read of as many bytes at the same offset into
  another buffer returns 0, is complete, and the second buffer holds what the first one held.
\<close>

theorem sfs_write_read:
  assumes inv: "file_inv a n sin s" and w: "io_offset iob = int p" and p: "p \<le> unat (isz (din sin))"
    and room: "room a s (unat (blocks (din sin))) (ROUNDUP_DIV (p + io_resid iob) SFS_BLKSIZE)"
    and b: "{io_base iob..<io_base iob + io_resid iob} \<inter> scratch a s = {}"
    and r: "io_offset iob' = int p" "io_resid iob' = io_resid iob"
    and b': "{io_base iob'..<io_base iob' + io_resid iob} \<inter> scratch a s = {}"
  shows "\<exists>t u. sfs_write n iob s = Some (0, advance (io_resid iob) iob, t) \<and>
    sfs_read n iob' t = Some (0, advance (io_resid iob) iob', u) \<and>
    bytes_at (kmem u) (io_base iob') (io_resid iob) = bytes_at (kmem s) (io_base iob) (io_resid iob)"
proof -
  let ?ys = "bytes_at (kmem s) (io_base iob) (io_resid iob)"
  from sfs_write_spec [OF inv w p room b] obtain t sin'
    where t: "sfs_write n iob s = Some (0, advance (io_resid iob) iob, t)" "wrote_list a n sin s sin' t p ?ys" by blast
  note T = t(2) [unfolded wrote_list_def]
  have sc: "scratch a t = scratch a s" using T same_butD(5) by blast
  have ys: "?ys = take (io_resid iob') (drop p (file_bytes (din sin') t))"
    using T p r(2) by (simp add: overwrite_def)
  note e = room_max [OF room]
  have "\<exists>m. sfs_read n iob' t = Some (0, advance (length ?ys) iob', t\<lparr>kmem := m\<rparr>) \<and>
      bytes_at m (io_base iob') (length ?ys) = ?ys \<and>
      touched a t {io_base iob'..<io_base iob' + length ?ys} m"
  proof (rule sfs_read_list [OF _ r(1) _ _ ys])
    show "file_inv a n sin' t" using T by blast
    show "int p < SFS_MAX_FILE_SIZE" using e by (simp add: SFS_MAX_FILE_SIZE_def)
    show "p + io_resid iob' < 2 ^ 63" using e r(2) by simp
    show "{io_base iob'..<io_base iob' + length ?ys} \<inter> scratch a t = {}" using b' sc by simp
  qed
  with t(1) show ?thesis by auto
qed

theorem sfs_write_read_witness:
  "\<exists>t u. sfs_write 9 (iobuf_init 24576 5000 0) demo_file = Some (0, advance 5000 (iobuf_init 24576 5000 0), t) \<and>
    sfs_read 9 (iobuf_init 36864 5000 0) t = Some (0, advance 5000 (iobuf_init 36864 5000 0), u) \<and>
    bytes_at (kmem u) 36864 5000 = bytes_at of_nat 24576 5000"
proof -
  have "{24576..<24576 + 5000} \<inter> scratch 7 demo_file = {}" "{36864..<36864 + 5000} \<inter> scratch 7 demo_file = {}"
    unfolding demo_file_inv(2) by auto
  moreover have "room 7 demo_file (unat (blocks (din demo_sin))) (ROUNDUP_DIV (0 + 5000) SFS_BLKSIZE)"
    using demo_file_inv(3) by (simp add: room_def ROUNDUP_DIV_def demo_sin_def)
  ultimately show ?thesis
    using sfs_write_read [OF demo_file_inv(1), of "iobuf_init 24576 5000 0" 0 "iobuf_init 36864 5000 0"]
    by (simp add: iobuf_init_def)
qed

end
