(* ===== verification/SfsDir.thy ===== *)
theory SfsDir
  imports SfsContent Devices
begin

text \<open>
  Directories and the life of in-core inodes: the rest of \<^verbatim>\<open>fs/sfs/sfs_inode.c\<close>, the device
  nodes of \<^verbatim>\<open>fs/devs/dev.c\<close>, the reference counts of \<^verbatim>\<open>fs/vfs/inode.c\<close> and the dispatch of
  \<^verbatim>\<open>fs/vfs/inode.h\<close>. An operation that the table of a node lacks is a failed assertion.
\<close>

section \<open>Directory entries\<close>

text \<open>
  \<^verbatim>\<open>struct sfs_disk_entry\<close> at an address: the inode number in the first four bytes, then the
  256 bytes of the name.
\<close>

definition SFS_DENTRY :: nat where [layout]: "SFS_DENTRY = 260"
definition sfs_dentry_size :: nat where [layout]: "sfs_dentry_size = 256"

definition entry_ino :: "mem \<Rightarrow> addr \<Rightarrow> u32" where
  "entry_ino m entry = of_le32 (bytes_at m entry 4)"

definition entry_name :: "addr \<Rightarrow> addr" where
  "entry_name entry = entry + 4"

definition sfs_dirent_read_nolock :: "addr \<Rightarrow> addr \<Rightarrow> int \<Rightarrow> addr \<Rightarrow> kfs \<Rightarrow> (int \<times> kfs) option" where
  "sfs_dirent_read_nolock sfs node slot entry s = do {
     sin \<leftarrow> vop_sin node s;
     ensure (itype (din sin) = SFS_TYPE_DIR \<and> slot \<ge> 0 \<and> slot < uint (blocks (din sin)));
     (ret, i, s) \<leftarrow> sfs_bmap_load_nolock sfs node (word_of_int slot) s;
     if ret \<noteq> 0 then Some (ret, s)
     else do {
       used \<leftarrow> sfs_block_inuse sfs i s;
       ensure used;
       (ret, s) \<leftarrow> sfs_rbuf sfs entry SFS_DENTRY i 0 s;
       if ret \<noteq> 0 then Some (ret, s)
       else Some (0, s\<lparr>kmem := (kmem s)(entry_name entry + SFS_MAX_FNAME_LEN := 0)\<rparr>)
     }
   }"

text \<open>The loop of the search returns the result, the inode number, the slot and the empty slot.\<close>

fun sfs_dirent_search_loop :: "addr \<Rightarrow> addr \<Rightarrow> addr \<Rightarrow> addr \<Rightarrow> int \<Rightarrow> nat \<Rightarrow> int \<Rightarrow> kfs \<Rightarrow>
    (int \<times> u32 \<times> int \<times> int \<times> kfs) option" where
  "sfs_dirent_search_loop sfs node name entry i 0 empty_slot s = Some (- E_NOENT, 0, - 1, empty_slot, s)"
| "sfs_dirent_search_loop sfs node name entry i (Suc n) empty_slot s = do {
     (ret, s) \<leftarrow> sfs_dirent_read_nolock sfs node i entry s;
     if ret \<noteq> 0 then Some (ret, 0, - 1, empty_slot, s)
     else if entry_ino (kmem s) entry = 0 then sfs_dirent_search_loop sfs node name entry (i + 1) n i s
     else do {
       c \<leftarrow> strcmp (kmem s) name (entry_name entry);
       if c = 0 then Some (0, entry_ino (kmem s) entry, i, empty_slot, s)
       else sfs_dirent_search_loop sfs node name entry (i + 1) n empty_slot s
     }
   }"

definition sfs_dirent_search_nolock :: "addr \<Rightarrow> addr \<Rightarrow> addr \<Rightarrow> kfs \<Rightarrow>
    (int \<times> u32 \<times> int \<times> int \<times> kfs) option" where
  "sfs_dirent_search_nolock sfs node name s = do {
     l \<leftarrow> strlen (kmem s) name;
     ensure (l \<le> SFS_MAX_FNAME_LEN);
     let (entry, s) = kmalloc s;
     if entry = 0 then Some (- E_NO_MEM, 0, - 1, - 1, s)
     else do {
       sin \<leftarrow> vop_sin node s;
       let nslots = sint (blocks (din sin));
       sfs_dirent_search_loop sfs node name entry 0 (nat nslots) nslots s
     }
   }"

fun sfs_dirent_findino_loop :: "addr \<Rightarrow> addr \<Rightarrow> u32 \<Rightarrow> addr \<Rightarrow> int \<Rightarrow> nat \<Rightarrow> kfs \<Rightarrow> (int \<times> kfs) option" where
  "sfs_dirent_findino_loop sfs node i entry k 0 s = Some (- E_NOENT, s)"
| "sfs_dirent_findino_loop sfs node i entry k (Suc n) s = do {
     (ret, s) \<leftarrow> sfs_dirent_read_nolock sfs node k entry s;
     if ret \<noteq> 0 then Some (ret, s)
     else if entry_ino (kmem s) entry = i then Some (0, s)
     else sfs_dirent_findino_loop sfs node i entry (k + 1) n s
   }"

definition sfs_dirent_findino_nolock :: "addr \<Rightarrow> addr \<Rightarrow> u32 \<Rightarrow> addr \<Rightarrow> kfs \<Rightarrow> (int \<times> kfs) option" where
  "sfs_dirent_findino_nolock sfs node i entry s = do {
     sin \<leftarrow> vop_sin node s;
     sfs_dirent_findino_loop sfs node i entry 0 (nat (sint (blocks (din sin)))) s
   }"

text \<open>The result and the inode found.\<close>

definition sfs_lookup_once :: "addr \<Rightarrow> addr \<Rightarrow> addr \<Rightarrow> kfs \<Rightarrow> (int \<times> addr \<times> kfs) option" where
  "sfs_lookup_once sfs node name s = do {
     s \<leftarrow> lock_sin node s;
     (ret, i, slot, empty_slot, s) \<leftarrow> sfs_dirent_search_nolock sfs node name s;
     let s = unlock_sin node s;
     if ret = 0 then sfs_load_inode sfs i s else Some (ret, 0, s)
   }"

fun sfs_getdirentry_sub_loop :: "addr \<Rightarrow> addr \<Rightarrow> int \<Rightarrow> addr \<Rightarrow> int \<Rightarrow> nat \<Rightarrow> kfs \<Rightarrow> (int \<times> kfs) option" where
  "sfs_getdirentry_sub_loop sfs node slot entry i 0 s = Some (- E_NOENT, s)"
| "sfs_getdirentry_sub_loop sfs node slot entry i (Suc n) s = do {
     (ret, s) \<leftarrow> sfs_dirent_read_nolock sfs node i entry s;
     if ret \<noteq> 0 then Some (ret, s)
     else if entry_ino (kmem s) entry \<noteq> 0 then
       (if slot = 0 then Some (0, s) else sfs_getdirentry_sub_loop sfs node (slot - 1) entry (i + 1) n s)
     else sfs_getdirentry_sub_loop sfs node slot entry (i + 1) n s
   }"

definition sfs_getdirentry_sub_nolock :: "addr \<Rightarrow> addr \<Rightarrow> int \<Rightarrow> addr \<Rightarrow> kfs \<Rightarrow> (int \<times> kfs) option" where
  "sfs_getdirentry_sub_nolock sfs node slot entry s = do {
     sin \<leftarrow> vop_sin node s;
     sfs_getdirentry_sub_loop sfs node slot entry 0 (nat (sint (blocks (din sin)))) s
   }"

text \<open>The slot is an \<^verbatim>\<open>int\<close> that is compared with the number of blocks as an unsigned number.\<close>

definition sfs_getdirentry :: "addr \<Rightarrow> iobuf \<Rightarrow> kfs \<Rightarrow> (int \<times> iobuf \<times> kfs) option" where
  "sfs_getdirentry node iob s = do {
     let (entry, s) = kmalloc s;
     if entry = 0 then Some (- E_NO_MEM, iob, s)
     else do {
       sfs \<leftarrow> vop_sfs node s;
       sin \<leftarrow> vop_sin node s;
       let offset = io_offset iob;
       let slot = (word_of_int (offset div int sfs_dentry_size) :: u32);
       if offset < 0 \<or> offset mod int sfs_dentry_size \<noteq> 0 then Some (- E_INVAL, iob, s)
       else if slot > blocks (din sin) then Some (- E_NOENT, iob, s)
       else do {
         s \<leftarrow> lock_sin node s;
         (ret, s) \<leftarrow> sfs_getdirentry_sub_nolock sfs node (sint slot) entry s;
         let s = unlock_sin node s;
         if ret \<noteq> 0 then Some (ret, iob, s)
         else do {
           (ret, copied, iob, m) \<leftarrow> iobuf_move iob (entry_name entry) sfs_dentry_size True (kmem s);
           Some (ret, iob, s\<lparr>kmem := m\<rparr>)
         }
       }
     }
   }"

section \<open>Device nodes\<close>

definition dev_open :: "addr \<Rightarrow> u32 \<Rightarrow> kfs \<Rightarrow> int option" where
  "dev_open node open_flags s =
     (if open_flags AND (O_CREAT OR O_TRUNC OR O_EXCL OR O_APPEND) \<noteq> 0 then Some (- E_INVAL)
      else do {
        dev \<leftarrow> vop_dev node s;
        Some (dop_open dev open_flags)
      })"

definition dev_close :: "addr \<Rightarrow> kfs \<Rightarrow> int option" where
  "dev_close node s = do {
     dev \<leftarrow> vop_dev node s;
     Some (dop_close dev)
   }"

definition dev_read :: "addr \<Rightarrow> iobuf \<Rightarrow> kfs \<Rightarrow> (int \<times> iobuf \<times> kfs) option" where
  "dev_read node iob s = do {
     dev \<leftarrow> vop_dev node s;
     dop_io dev iob False s
   }"

definition dev_write :: "addr \<Rightarrow> iobuf \<Rightarrow> kfs \<Rightarrow> (int \<times> iobuf \<times> kfs) option" where
  "dev_write node iob s = do {
     dev \<leftarrow> vop_dev node s;
     dop_io dev iob True s
   }"

definition dev_ioctl :: "addr \<Rightarrow> kfs \<Rightarrow> int option" where
  "dev_ioctl node s = do {
     dev \<leftarrow> vop_dev node s;
     Some (dop_ioctl dev)
   }"

definition dev_gettype :: "addr \<Rightarrow> kfs \<Rightarrow> (int \<times> u32) option" where
  "dev_gettype node s = do {
     dev \<leftarrow> vop_dev node s;
     Some (0, if d_blocks dev > 0 then S_IFBLK else S_IFCHR)
   }"

text \<open>The remainder by the unsigned \<^verbatim>\<open>d_blocksize\<close> is taken of the 64-bit word \<^verbatim>\<open>pos\<close>.\<close>

definition dev_tryseek :: "addr \<Rightarrow> int \<Rightarrow> kfs \<Rightarrow> int option" where
  "dev_tryseek node off s = do {
     dev \<leftarrow> vop_dev node s;
     Some (if d_blocks dev > 0 \<and> unat (word_of_int off :: u64) mod d_blocksize dev = 0 \<and>
           off \<ge> 0 \<and> off < int (d_blocks dev * d_blocksize dev) then 0 else - E_INVAL)
   }"

definition dev_lookup :: "addr \<Rightarrow> addr \<Rightarrow> kfs \<Rightarrow> (int \<times> addr \<times> kfs) option" where
  "dev_lookup node path s =
     (if kmem s path \<noteq> 0 then Some (- E_NOENT, 0, s)
      else do {
        (n, s) \<leftarrow> inode_ref_inc node s;
        Some (0, node, s)
      })"

text \<open>The device in a new node has no meaningful contents until its driver fills it in.\<close>

definition dev_create_inode :: "kfs \<Rightarrow> addr \<times> kfs" where
  "dev_create_inode s =
     (let (node, s) = kmalloc s;
          d = \<lparr>d_blocks = 0, d_blocksize = 0, d_ops = StdinOps\<rparr>
      in if node \<noteq> 0
         then (node, s\<lparr>inodes := (inodes s)(node := Some (inode_init (DeviceInfo d) DevNodeOps 0))\<rparr>)
         else (0, s))"

section \<open>Calls through the table of a node\<close>

text \<open>
  \<^verbatim>\<open>__vop_op\<close>: the node exists and passes \<^verbatim>\<open>inode_check\<close>. Each \<^verbatim>\<open>vop_\<close> operation then selects the
  function of the table; where the table has none the assertion fails.
\<close>

definition vop_op :: "addr \<Rightarrow> kfs \<Rightarrow> in_ops option" where
  "vop_op node s = do {
     ensure (node \<noteq> 0);
     inode_check node s;
     i \<leftarrow> inodes s node;
     Some (iops i)
   }"

definition vop_fsync :: "addr \<Rightarrow> kfs \<Rightarrow> (int \<times> kfs) option" where
  "vop_fsync node s = do {
     ops \<leftarrow> vop_op node s;
     (case ops of DevNodeOps \<Rightarrow> None | SfsDirOps \<Rightarrow> sfs_fsync node s | SfsFileOps \<Rightarrow> sfs_fsync node s)
   }"

definition vop_truncate :: "addr \<Rightarrow> int \<Rightarrow> kfs \<Rightarrow> (int \<times> kfs) option" where
  "vop_truncate node len s = do {
     ops \<leftarrow> vop_op node s;
     (case ops of DevNodeOps \<Rightarrow> None | SfsDirOps \<Rightarrow> None | SfsFileOps \<Rightarrow> sfs_truncfile node len s)
   }"

definition vop_gettype :: "addr \<Rightarrow> kfs \<Rightarrow> (int \<times> u32) option" where
  "vop_gettype node s = do {
     ops \<leftarrow> vop_op node s;
     (case ops of DevNodeOps \<Rightarrow> dev_gettype node s | SfsDirOps \<Rightarrow> sfs_gettype node s
      | SfsFileOps \<Rightarrow> sfs_gettype node s)
   }"

section \<open>Closing and reclaiming\<close>

definition sfs_close :: "addr \<Rightarrow> kfs \<Rightarrow> (int \<times> kfs) option" where
  "sfs_close node s = vop_fsync node s"

definition sfs_reclaim :: "addr \<Rightarrow> kfs \<Rightarrow> (int \<times> kfs) option" where
  "sfs_reclaim node s = do {
     sfs \<leftarrow> vop_sfs node s;
     s \<leftarrow> lock_sfs_fs sfs s;
     sin \<leftarrow> vop_sin node s;
     ensure (reclaim_count sin > 0);
     let s = upd_sin node (reclaim_count_update (\<lambda>n. n - 1)) s;
     i \<leftarrow> inodes s node;
     if reclaim_count sin - 1 \<noteq> 0 \<or> ref_count i \<noteq> 0 then Some (- E_BUSY, unlock_sfs_fs sfs s)
     else do {
       (ret, s) \<leftarrow> (if nlinks (din sin) = 0 then vop_truncate node 0 s else Some (0, s));
       if ret \<noteq> 0 then Some (ret, unlock_sfs_fs sfs s)
       else do {
         sin \<leftarrow> vop_sin node s;
         (ret, s) \<leftarrow> (if dirty sin then vop_fsync node s else Some (0, s));
         if ret \<noteq> 0 then Some (ret, unlock_sfs_fs sfs s)
         else do {
           sin \<leftarrow> vop_sin node s;
           let s = unlock_sfs_fs sfs (sfs_remove_links sfs node (ino sin) s);
           s \<leftarrow> (if nlinks (din sin) = 0 then do {
                   s \<leftarrow> sfs_block_free sfs (ino sin) s;
                   if indirect (din sin) \<noteq> 0 then sfs_block_free sfs (indirect (din sin)) s else Some s
                 } else Some s);
           s \<leftarrow> inode_kill node s;
           Some (0, s)
         }
       }
     }
   }"

definition vop_reclaim :: "addr \<Rightarrow> kfs \<Rightarrow> (int \<times> kfs) option" where
  "vop_reclaim node s = do {
     ops \<leftarrow> vop_op node s;
     (case ops of DevNodeOps \<Rightarrow> None | SfsDirOps \<Rightarrow> sfs_reclaim node s | SfsFileOps \<Rightarrow> sfs_reclaim node s)
   }"

definition vop_close :: "addr \<Rightarrow> kfs \<Rightarrow> (int \<times> kfs) option" where
  "vop_close node s = do {
     ops \<leftarrow> vop_op node s;
     (case ops of DevNodeOps \<Rightarrow> do { r \<leftarrow> dev_close node s; Some (r, s) }
      | SfsDirOps \<Rightarrow> sfs_close node s | SfsFileOps \<Rightarrow> sfs_close node s)
   }"

text \<open>Both return the new count; a failure of the last operation only prints a warning.\<close>

definition inode_ref_dec :: "addr \<Rightarrow> kfs \<Rightarrow> (int \<times> kfs) option" where
  "inode_ref_dec node s = do {
     i \<leftarrow> inodes s node;
     ensure (ref_count i > 0);
     let s = upd_inode node (ref_count_update (\<lambda>n. n - 1)) s;
     if ref_count i - 1 = 0 then do {
       (ret, s) \<leftarrow> vop_reclaim node s;
       Some (0, s)
     }
     else Some (ref_count i - 1, s)
   }"

definition inode_open_dec :: "addr \<Rightarrow> kfs \<Rightarrow> (int \<times> kfs) option" where
  "inode_open_dec node s = do {
     i \<leftarrow> inodes s node;
     ensure (open_count i > 0);
     let s = upd_inode node (open_count_update (\<lambda>n. n - 1)) s;
     if open_count i - 1 = 0 then do {
       (ret, s) \<leftarrow> vop_close node s;
       Some (0, s)
     }
     else Some (open_count i - 1, s)
   }"

section \<open>Looking up, seeking, status and names\<close>

definition sfs_lookup :: "addr \<Rightarrow> addr \<Rightarrow> kfs \<Rightarrow> (int \<times> addr \<times> kfs) option" where
  "sfs_lookup node path s = do {
     sfs \<leftarrow> vop_sfs node s;
     ensure (kmem s path \<noteq> 0 \<and> kmem s path \<noteq> 47);
     (n, s) \<leftarrow> inode_ref_inc node s;
     sin \<leftarrow> vop_sin node s;
     if itype (din sin) \<noteq> SFS_TYPE_DIR then do {
       (n, s) \<leftarrow> inode_ref_dec node s;
       Some (- E_NOTDIR, 0, s)
     }
     else do {
       (ret, subnode, s) \<leftarrow> sfs_lookup_once sfs node path s;
       (n, s) \<leftarrow> inode_ref_dec node s;
       if ret \<noteq> 0 then Some (ret, 0, s) else Some (0, subnode, s)
     }
   }"

definition sfs_tryseek :: "addr \<Rightarrow> int \<Rightarrow> kfs \<Rightarrow> (int \<times> kfs) option" where
  "sfs_tryseek node off s =
     (if off < 0 \<or> off \<ge> SFS_MAX_FILE_SIZE then Some (- E_INVAL, s)
      else do {
        sin \<leftarrow> vop_sin node s;
        if off > uint (isz (din sin)) then vop_truncate node off s else Some (0, s)
      })"

definition sfs_fstat :: "addr \<Rightarrow> kfs \<Rightarrow> (int \<times> stat) option" where
  "sfs_fstat node s = do {
     (ret, mode) \<leftarrow> vop_gettype node s;
     let st = \<lparr>st_mode = mode, st_nlinks = 0, st_blocks = 0, st_size = 0\<rparr>;
     if ret \<noteq> 0 then Some (ret, st)
     else do {
       sin \<leftarrow> vop_sin node s;
       Some (0, st\<lparr>st_nlinks := unat (nlinks (din sin)), st_blocks := unat (blocks (din sin)),
                   st_size := unat (isz (din sin))\<rparr>)
     }
   }"

definition dev_fstat :: "addr \<Rightarrow> kfs \<Rightarrow> (int \<times> stat) option" where
  "dev_fstat node s = do {
     (ret, mode) \<leftarrow> vop_gettype node s;
     let st = \<lparr>st_mode = mode, st_nlinks = 0, st_blocks = 0, st_size = 0\<rparr>;
     if ret \<noteq> 0 then Some (ret, st)
     else do {
       dev \<leftarrow> vop_dev node s;
       Some (0, st\<lparr>st_nlinks := 1, st_blocks := d_blocks dev, st_size := d_blocks dev * d_blocksize dev\<rparr>)
     }
   }"

text \<open>
  The path of a directory is built from its end: one step up per round, until the directory is
  its own parent. The literal \<^verbatim>\<open>".."\<close> lies at \<open>locals + 8\<close>. A round returns the result, the node
  held, \<^verbatim>\<open>ptr\<close> and \<^verbatim>\<open>resid\<close>; the loop has no bound of its own.
\<close>

definition dot_dot :: "kfs \<Rightarrow> addr" where
  "dot_dot s = locals s + 8"

partial_function (option) sfs_namefile_loop :: "addr \<Rightarrow> addr \<Rightarrow> addr \<Rightarrow> addr \<Rightarrow> nat \<Rightarrow> kfs \<Rightarrow>
    (int \<times> addr \<times> nat \<times> kfs) option" where
  "sfs_namefile_loop sfs node entry ptr resid s = do {
     let s = s\<lparr>kmem := store_bytes (dot_dot s) [46, 46, 0] (kmem s)\<rparr>;
     (ret, parent, s) \<leftarrow> sfs_lookup_once sfs node (dot_dot s) s;
     if ret \<noteq> 0 then do {
       (n, s) \<leftarrow> inode_ref_dec node s;
       Some (ret, ptr, resid, s)
     }
     else do {
       sin \<leftarrow> vop_sin node s;
       (n, s) \<leftarrow> inode_ref_dec node s;
       if node = parent then do {
         (n, s) \<leftarrow> inode_ref_dec node s;
         Some (0, ptr, resid, s)
       }
       else do {
         psin \<leftarrow> vop_sin parent s;
         ensure (ino sin \<noteq> ino psin \<and> itype (din psin) = SFS_TYPE_DIR);
         s \<leftarrow> lock_sin parent s;
         (ret, s) \<leftarrow> sfs_dirent_findino_nolock sfs parent (ino sin) entry s;
         let s = unlock_sin parent s;
         if ret \<noteq> 0 then do {
           (n, s) \<leftarrow> inode_ref_dec parent s;
           Some (ret, ptr, resid, s)
         }
         else do {
           l \<leftarrow> strlen (kmem s) (entry_name entry);
           let alen = l + 1;
           if alen > resid then do {
             (n, s) \<leftarrow> inode_ref_dec parent s;
             Some (- E_NO_MEM, ptr, resid, s)
           }
           else do {
             let resid = resid - alen;
             let ptr = ptr - alen;
             let m = memcpy ptr (entry_name entry) (alen - 1) (kmem s);
             sfs_namefile_loop sfs parent entry ptr resid (s\<lparr>kmem := m(ptr + alen - 1 := 47)\<rparr>)
           }
         }
       }
     }
   }"

definition sfs_namefile :: "addr \<Rightarrow> iobuf \<Rightarrow> kfs \<Rightarrow> (int \<times> iobuf \<times> kfs) option" where
  "sfs_namefile node iob s =
     (if io_resid iob \<le> 2 then Some (- E_NO_MEM, iob, s)
      else do {
        let (entry, s) = kmalloc s;
        if entry = 0 then Some (- E_NO_MEM, iob, s)
        else do {
          sfs \<leftarrow> vop_sfs node s;
          (n, s) \<leftarrow> inode_ref_inc node s;
          (ret, src, resid, s) \<leftarrow>
            sfs_namefile_loop sfs node entry (io_base iob + io_resid iob) (io_resid iob - 2) s;
          if ret \<noteq> 0 then Some (ret, iob, s)
          else do {
            let alen = io_resid iob - resid - 2;
            let ptr = io_base iob + 1;
            let m = memmove ptr src alen (kmem s);
            let m = m(ptr - 1 := 47, ptr + alen := 0);
            iob \<leftarrow> iobuf_skip alen iob;
            Some (0, iob, s\<lparr>kmem := m\<rparr>)
          }
        }
      })"

end
