(* ===== verification/SfsFs.thy ===== *)
theory SfsFs
  imports SfsDir
begin

text \<open>
  Mounting, synchronising and unmounting a simple file system: \<^verbatim>\<open>fs/sfs/sfs_fs.c\<close>. A file
  system is identified by the address of its \<^verbatim>\<open>struct fs\<close>; its device is named by the address
  of the device node.
\<close>

section \<open>Synchronisation\<close>

text \<open>The results of \<^verbatim>\<open>vop_fsync\<close> are not looked at.\<close>

fun sfs_sync_inodes :: "addr list \<Rightarrow> kfs \<Rightarrow> kfs option" where
  "sfs_sync_inodes [] s = Some s"
| "sfs_sync_inodes (node # le) s = do {
     (ret, s) \<leftarrow> vop_fsync node s;
     sfs_sync_inodes le s
   }"

definition sfs_sync :: "addr \<Rightarrow> kfs \<Rightarrow> (int \<times> kfs) option" where
  "sfs_sync sfs s = do {
     s \<leftarrow> lock_sfs_fs sfs s;
     f \<leftarrow> fss s sfs;
     s \<leftarrow> sfs_sync_inodes (inode_list f) s;
     let s = unlock_sfs_fs sfs s;
     f \<leftarrow> fss s sfs;
     if super_dirty f then do {
       let s = upd_fs sfs (super_dirty_update (\<lambda>_. False)) s;
       (ret, s) \<leftarrow> sfs_sync_super sfs s;
       if ret \<noteq> 0 then Some (ret, upd_fs sfs (super_dirty_update (\<lambda>_. True)) s)
       else do {
         (ret, s) \<leftarrow> sfs_sync_freemap sfs s;
         if ret \<noteq> 0 then Some (ret, upd_fs sfs (super_dirty_update (\<lambda>_. True)) s)
         else Some (0, s)
       }
     }
     else Some (0, s)
   }"

definition sfs_get_root :: "addr \<Rightarrow> kfs \<Rightarrow> (addr \<times> kfs) option" where
  "sfs_get_root sfs s = do {
     f \<leftarrow> fss s sfs;
     (ret, node, s) \<leftarrow> sfs_load_inode sfs SFS_BLKN_ROOT s;
     ensure (ret = 0);
     Some (node, s)
   }"

definition sfs_unmount :: "addr \<Rightarrow> kfs \<Rightarrow> (int \<times> kfs) option" where
  "sfs_unmount sfs s = do {
     f \<leftarrow> fss s sfs;
     if inode_list f \<noteq> [] then Some (- E_BUSY, s)
     else do {
       ensure (\<not> super_dirty f);
       Some (0, s\<lparr>fss := (fss s)(sfs := None)\<rparr>)
     }
   }"

fun sfs_cleanup_loop :: "nat \<Rightarrow> addr \<Rightarrow> kfs \<Rightarrow> kfs option" where
  "sfs_cleanup_loop 0 sfs s = Some s"
| "sfs_cleanup_loop (Suc n) sfs s = do {
     (ret, s) \<leftarrow> sfs_sync sfs s;
     if ret = 0 then Some s else sfs_cleanup_loop n sfs s
   }"

definition sfs_cleanup :: "addr \<Rightarrow> kfs \<Rightarrow> kfs option" where
  "sfs_cleanup sfs s = sfs_cleanup_loop 32 sfs s"

section \<open>Mounting\<close>

text \<open>\<^verbatim>\<open>blkno * SFS_BLKSIZE\<close> is a product of 32-bit words.\<close>

definition sfs_init_read :: "device \<Rightarrow> u32 \<Rightarrow> addr \<Rightarrow> kfs \<Rightarrow> (int \<times> kfs) option" where
  "sfs_init_read dev blkno buf s = do {
     (ret, iob, s) \<leftarrow> dop_io dev (iobuf_init buf SFS_BLKSIZE (uint (blkno * of_nat SFS_BLKSIZE))) False s;
     Some (ret, s)
   }"

text \<open>The words of the map are read to \<open>data\<close>.\<close>

fun sfs_init_freemap_loop :: "device \<Rightarrow> u32 \<Rightarrow> nat \<Rightarrow> addr \<Rightarrow> kfs \<Rightarrow> (int \<times> kfs) option" where
  "sfs_init_freemap_loop dev blkno 0 data s = Some (0, s)"
| "sfs_init_freemap_loop dev blkno (Suc nblks) data s = do {
     (ret, s) \<leftarrow> sfs_init_read dev blkno data s;
     if ret \<noteq> 0 then Some (ret, s) else sfs_init_freemap_loop dev (blkno + 1) nblks (data + SFS_BLKSIZE) s
   }"

definition words_at :: "mem \<Rightarrow> addr \<Rightarrow> nat \<Rightarrow> u32 list" where
  "words_at m p n = map (\<lambda>i. of_le32 (bytes_at m (p + 4 * i) 4)) [0..<n]"

definition sfs_init_freemap :: "device \<Rightarrow> bitmap \<Rightarrow> u32 \<Rightarrow> u32 \<Rightarrow> addr \<Rightarrow> kfs \<Rightarrow> (int \<times> bitmap \<times> kfs) option" where
  "sfs_init_freemap dev b blkno nblks data s = do {
     let (words, len) = bitmap_getdata b;
     ensure (len = unat nblks * SFS_BLKSIZE);
     (ret, s) \<leftarrow> sfs_init_freemap_loop dev blkno (unat nblks) data s;
     Some (ret, b\<lparr>wordmap := words_at (kmem s) data (unat (nwords b))\<rparr>, s)
   }"

text \<open>The loop that counts the set bits from \<open>i\<close> on.\<close>

fun count_unused :: "bitmap \<Rightarrow> nat \<Rightarrow> nat \<Rightarrow> u32 \<Rightarrow> u32 option" where
  "count_unused b i 0 unused = Some unused"
| "count_unused b i (Suc n) unused = do {
     t \<leftarrow> bitmap_test b i;
     count_unused b (Suc i) n (if t then unused + 1 else unused)
   }"

text \<open>
  The results are the return value and the new file system. The allocations are, in order, the
  \<^verbatim>\<open>struct fs\<close>, the buffer, the hash table, the bitmap and its words.
\<close>

definition sfs_do_mount :: "addr \<Rightarrow> kfs \<Rightarrow> (int \<times> addr \<times> kfs) option" where
  "sfs_do_mount dnode s = do {
     dev \<leftarrow> vop_dev dnode s;
     if d_blocksize dev \<noteq> SFS_BLKSIZE then Some (- E_NA_DEV, 0, s)
     else do {
       let (fs, s) = kmalloc s;
       if fs = 0 then Some (- E_NO_MEM, 0, s)
       else do {
         let (buf, s) = kmalloc s;
         if buf = 0 then Some (- E_NO_MEM, 0, s)
         else do {
           (ret, s) \<leftarrow> sfs_init_read dev SFS_BLKN_SUPER buf s;
           if ret \<noteq> 0 then Some (ret, 0, s)
           else do {
             let p = bytes_super (bytes_at (kmem s) buf 44);
             if magic p \<noteq> SFS_MAGIC then Some (- E_INVAL, 0, s)
             else if unat (sblocks p) > d_blocks dev then Some (- E_INVAL, 0, s)
             else do {
               let p = p\<lparr>sinfo := (sinfo p)[SFS_MAX_INFO_LEN := 0]\<rparr>;
               let (hash, s) = kmalloc s;
               if hash = 0 then Some (- E_NO_MEM, 0, s)
               else do {
                 let nbits = sfs_freemap_bits p;
                 let (k1, s) = kmalloc s;
                 let (data, s) = (if k1 \<noteq> 0 then kmalloc s else (0, s));
                 b \<leftarrow> bitmap_create (k1 \<noteq> 0) (data \<noteq> 0) nbits;
                 (case b of None \<Rightarrow> Some (- E_NO_MEM, 0, s)
                  | Some b \<Rightarrow> do {
                      (ret, b, s) \<leftarrow> sfs_init_freemap dev b SFS_BLKN_FREEMAP (sfs_freemap_blocks p) data s;
                      if ret \<noteq> 0 then Some (ret, 0, s)
                      else do {
                        unused \<leftarrow> count_unused b 0 (unat nbits) 0;
                        ensure (unused = unused_blocks p);
                        let f = \<lparr>super = p, sdev = dnode, freemap = b, super_dirty = False,
                          sfs_buffer = buf, fs_sem = 1, io_sem = 1, mutex_sem = 1, inode_list = [],
                          hash_list = (\<lambda>_. [])\<rparr>;
                        Some (0, fs, s\<lparr>fss := (fss s)(fs := Some f)\<rparr>)
                      }
                    })
               }
             }
           }
         }
       }
     }
   }"

end
