(* ===== verification/Vfs.thy ===== *)
theory Vfs
  imports SfsFs
begin

text \<open>
  The virtual file system: the device table (\<^verbatim>\<open>fs/vfs/vfsdev.c\<close>), the boot file system
  (\<^verbatim>\<open>vfs.c\<close>), path lookup (\<^verbatim>\<open>vfslookup.c\<close>), the current directory (\<^verbatim>\<open>vfspath.c\<close>), opening
  and closing nodes (\<^verbatim>\<open>vfsfile.c\<close>), and the remaining dispatch of \<^verbatim>\<open>inode.h\<close>.
\<close>

section \<open>Calls through the table of a node\<close>

definition vop_open :: "addr \<Rightarrow> u32 \<Rightarrow> kfs \<Rightarrow> int option" where
  "vop_open node open_flags s = do {
     ops \<leftarrow> vop_op node s;
     (case ops of DevNodeOps \<Rightarrow> dev_open node open_flags s
      | SfsDirOps \<Rightarrow> Some (sfs_opendir node open_flags)
      | SfsFileOps \<Rightarrow> Some (sfs_openfile node open_flags))
   }"

definition vop_read :: "addr \<Rightarrow> iobuf \<Rightarrow> kfs \<Rightarrow> (int \<times> iobuf \<times> kfs) option" where
  "vop_read node iob s = do {
     ops \<leftarrow> vop_op node s;
     (case ops of DevNodeOps \<Rightarrow> dev_read node iob s | SfsDirOps \<Rightarrow> None | SfsFileOps \<Rightarrow> sfs_read node iob s)
   }"

definition vop_write :: "addr \<Rightarrow> iobuf \<Rightarrow> kfs \<Rightarrow> (int \<times> iobuf \<times> kfs) option" where
  "vop_write node iob s = do {
     ops \<leftarrow> vop_op node s;
     (case ops of DevNodeOps \<Rightarrow> dev_write node iob s | SfsDirOps \<Rightarrow> None | SfsFileOps \<Rightarrow> sfs_write node iob s)
   }"

definition vop_fstat :: "addr \<Rightarrow> kfs \<Rightarrow> (int \<times> stat) option" where
  "vop_fstat node s = do {
     ops \<leftarrow> vop_op node s;
     (case ops of DevNodeOps \<Rightarrow> dev_fstat node s | SfsDirOps \<Rightarrow> sfs_fstat node s
      | SfsFileOps \<Rightarrow> sfs_fstat node s)
   }"

definition vop_namefile :: "addr \<Rightarrow> iobuf \<Rightarrow> kfs \<Rightarrow> (int \<times> iobuf \<times> kfs) option" where
  "vop_namefile node iob s = do {
     ops \<leftarrow> vop_op node s;
     (case ops of DevNodeOps \<Rightarrow> None | SfsDirOps \<Rightarrow> sfs_namefile node iob s | SfsFileOps \<Rightarrow> None)
   }"

definition vop_getdirentry :: "addr \<Rightarrow> iobuf \<Rightarrow> kfs \<Rightarrow> (int \<times> iobuf \<times> kfs) option" where
  "vop_getdirentry node iob s = do {
     ops \<leftarrow> vop_op node s;
     (case ops of DevNodeOps \<Rightarrow> None | SfsDirOps \<Rightarrow> sfs_getdirentry node iob s | SfsFileOps \<Rightarrow> None)
   }"

definition vop_ioctl :: "addr \<Rightarrow> kfs \<Rightarrow> int option" where
  "vop_ioctl node s = do {
     ops \<leftarrow> vop_op node s;
     (case ops of DevNodeOps \<Rightarrow> dev_ioctl node s | SfsDirOps \<Rightarrow> None | SfsFileOps \<Rightarrow> None)
   }"

definition vop_tryseek :: "addr \<Rightarrow> int \<Rightarrow> kfs \<Rightarrow> (int \<times> kfs) option" where
  "vop_tryseek node off s = do {
     ops \<leftarrow> vop_op node s;
     (case ops of DevNodeOps \<Rightarrow> do { r \<leftarrow> dev_tryseek node off s; Some (r, s) }
      | SfsDirOps \<Rightarrow> None | SfsFileOps \<Rightarrow> sfs_tryseek node off s)
   }"

definition vop_lookup :: "addr \<Rightarrow> addr \<Rightarrow> kfs \<Rightarrow> (int \<times> addr \<times> kfs) option" where
  "vop_lookup node path s = do {
     ops \<leftarrow> vop_op node s;
     (case ops of DevNodeOps \<Rightarrow> dev_lookup node path s | SfsDirOps \<Rightarrow> sfs_lookup node path s
      | SfsFileOps \<Rightarrow> None)
   }"

text \<open>No table has \<^verbatim>\<open>vop_create\<close>.\<close>

definition vop_create :: "addr \<Rightarrow> addr \<Rightarrow> bool \<Rightarrow> kfs \<Rightarrow> (int \<times> addr \<times> kfs) option" where
  "vop_create node name excl s = None"

section \<open>The device table\<close>

definition lock_vdev_list :: "kfs \<Rightarrow> kfs option" where
  "lock_vdev_list s = do { n \<leftarrow> sem_take (vdev_list_sem s); Some (s\<lparr>vdev_list_sem := n\<rparr>) }"

definition unlock_vdev_list :: "kfs \<Rightarrow> kfs" where
  "unlock_vdev_list s = s\<lparr>vdev_list_sem := vdev_list_sem s + 1\<rparr>"

definition vfs_devlist_init :: "kfs \<Rightarrow> kfs" where
  "vfs_devlist_init s = s\<lparr>vdev_list := [], vdev_list_sem := 1\<rparr>"

text \<open>
  The characters of the string at an address. \<^verbatim>\<open>strcmp\<close> of it and a stored name is 0 exactly
  when the lists are equal, as proved for the byte memory.
\<close>

definition string_at :: "mem \<Rightarrow> addr \<Rightarrow> u8 list option" where
  "string_at m p = do { n \<leftarrow> strlen m p; Some (bytes_at m p n) }"

fun vfs_cleanup_loop :: "vfs_dev list \<Rightarrow> kfs \<Rightarrow> kfs option" where
  "vfs_cleanup_loop [] s = Some s"
| "vfs_cleanup_loop (vdev # le) s = do {
     s \<leftarrow> (if vfs vdev \<noteq> 0 then sfs_cleanup (vfs vdev) s else Some s);
     vfs_cleanup_loop le s
   }"

definition vfs_cleanup :: "kfs \<Rightarrow> kfs option" where
  "vfs_cleanup s =
     (if vdev_list s \<noteq> [] then do {
        s \<leftarrow> lock_vdev_list s;
        s \<leftarrow> vfs_cleanup_loop (vdev_list s) s;
        Some (unlock_vdev_list s)
      } else Some s)"

fun vfs_get_root_loop :: "u8 list \<Rightarrow> vfs_dev list \<Rightarrow> kfs \<Rightarrow> (int \<times> addr \<times> kfs) option" where
  "vfs_get_root_loop name [] s = Some (- E_NO_DEV, 0, s)"
| "vfs_get_root_loop name (vdev # le) s =
     (if name = devname vdev then do {
        (found, s) \<leftarrow>
          (if vfs vdev \<noteq> 0 then sfs_get_root (vfs vdev) s
           else if \<not> mountable vdev then do {
             (n, s) \<leftarrow> inode_ref_inc (devnode vdev) s;
             Some (devnode vdev, s)
           }
           else Some (0, s));
        if found \<noteq> 0 then Some (0, found, s) else Some (- E_NA_DEV, 0, s)
      }
      else vfs_get_root_loop name le s)"

definition vfs_get_root :: "addr \<Rightarrow> kfs \<Rightarrow> (int \<times> addr \<times> kfs) option" where
  "vfs_get_root name s = do {
     ensure (name \<noteq> 0);
     if vdev_list s \<noteq> [] then do {
       s \<leftarrow> lock_vdev_list s;
       str \<leftarrow> string_at (kmem s) name;
       (ret, node, s) \<leftarrow> vfs_get_root_loop str (vdev_list s) s;
       Some (ret, node, unlock_vdev_list s)
     }
     else Some (- E_NO_DEV, 0, s)
   }"

text \<open>The inner \<^term>\<open>None\<close> is \<^verbatim>\<open>NULL\<close>.\<close>

definition vfs_get_devname :: "addr \<Rightarrow> kfs \<Rightarrow> u8 list option option" where
  "vfs_get_devname fs s = do {
     ensure (fs \<noteq> 0);
     Some (map_option devname (List.find (\<lambda>v. vfs v = fs) (vdev_list s)))
   }"

definition check_devname_conflict :: "u8 list \<Rightarrow> kfs \<Rightarrow> bool" where
  "check_devname_conflict name s = (\<not> list_ex (\<lambda>v. devname v = name) (vdev_list s))"

text \<open>The two allocations are the copy of the name and the entry.\<close>

definition vfs_do_add :: "addr \<Rightarrow> addr \<Rightarrow> addr \<Rightarrow> bool \<Rightarrow> kfs \<Rightarrow> (int \<times> kfs) option" where
  "vfs_do_add name dnode fs mnt s = do {
     ensure (name \<noteq> 0);
     ensure ((dnode = 0 \<and> \<not> mnt) \<or> (dnode \<noteq> 0 \<and> vop_dev dnode s \<noteq> None));
     str \<leftarrow> string_at (kmem s) name;
     if length str > FS_MAX_DNAME_LEN then Some (- E_TOO_BIG, s)
     else do {
       let (k1, s) = kmalloc s;
       if k1 = 0 then Some (- E_NO_MEM, s)
       else do {
         let (k2, s) = kmalloc s;
         if k2 = 0 then Some (- E_NO_MEM, s)
         else do {
           s \<leftarrow> lock_vdev_list s;
           if \<not> check_devname_conflict str s then Some (- E_EXISTS, unlock_vdev_list s)
           else do {
             let v = \<lparr>devname = str, devnode = dnode, vfs = fs, mountable = mnt\<rparr>;
             Some (0, unlock_vdev_list (s\<lparr>vdev_list := v # vdev_list s\<rparr>))
           }
         }
       }
     }
   }"

definition vfs_add_fs :: "addr \<Rightarrow> addr \<Rightarrow> kfs \<Rightarrow> (int \<times> kfs) option" where
  "vfs_add_fs name fs s = vfs_do_add name 0 fs False s"

definition vfs_add_dev :: "addr \<Rightarrow> addr \<Rightarrow> bool \<Rightarrow> kfs \<Rightarrow> (int \<times> kfs) option" where
  "vfs_add_dev name dnode mnt s = vfs_do_add name dnode 0 mnt s"

text \<open>The position of the entry in the table.\<close>

fun find_mount :: "u8 list \<Rightarrow> vfs_dev list \<Rightarrow> nat option" where
  "find_mount name [] = None"
| "find_mount name (v # le) =
     (if mountable v \<and> devname v = name then Some 0 else map_option Suc (find_mount name le))"

definition set_vfs :: "nat \<Rightarrow> addr \<Rightarrow> kfs \<Rightarrow> kfs" where
  "set_vfs k fs s = s\<lparr>vdev_list := (vdev_list s)[k := (vdev_list s ! k)\<lparr>vfs := fs\<rparr>]\<rparr>"

definition vfs_mount :: "addr \<Rightarrow> (addr \<Rightarrow> kfs \<Rightarrow> (int \<times> addr \<times> kfs) option) \<Rightarrow> kfs \<Rightarrow> (int \<times> kfs) option" where
  "vfs_mount name mountfunc s = do {
     s \<leftarrow> lock_vdev_list s;
     ensure (name \<noteq> 0);
     str \<leftarrow> string_at (kmem s) name;
     (case find_mount str (vdev_list s) of
        None \<Rightarrow> Some (- E_NO_DEV, unlock_vdev_list s)
      | Some k \<Rightarrow>
          if vfs (vdev_list s ! k) \<noteq> 0 then Some (- E_BUSY, unlock_vdev_list s)
          else do {
            (ret, fs, s) \<leftarrow> mountfunc (devnode (vdev_list s ! k)) s;
            if ret = 0 then do {
              ensure (fs \<noteq> 0);
              Some (0, unlock_vdev_list (set_vfs k fs s))
            }
            else Some (ret, unlock_vdev_list s)
          })
   }"

definition sfs_mount :: "addr \<Rightarrow> kfs \<Rightarrow> (int \<times> kfs) option" where
  "sfs_mount name s = vfs_mount name sfs_do_mount s"

definition vfs_unmount :: "addr \<Rightarrow> kfs \<Rightarrow> (int \<times> kfs) option" where
  "vfs_unmount name s = do {
     s \<leftarrow> lock_vdev_list s;
     ensure (name \<noteq> 0);
     str \<leftarrow> string_at (kmem s) name;
     (case find_mount str (vdev_list s) of
        None \<Rightarrow> Some (- E_NO_DEV, unlock_vdev_list s)
      | Some k \<Rightarrow> do {
          let fs = vfs (vdev_list s ! k);
          if fs = 0 then Some (- E_INVAL, unlock_vdev_list s)
          else do {
            (ret, s) \<leftarrow> sfs_sync fs s;
            if ret \<noteq> 0 then Some (ret, unlock_vdev_list s)
            else do {
              (ret, s) \<leftarrow> sfs_unmount fs s;
              Some (ret, unlock_vdev_list (if ret = 0 then set_vfs k 0 s else s))
            }
          }
        })
   }"

text \<open>The entries from the \<open>k\<close>-th on.\<close>

fun vfs_unmount_loop :: "nat \<Rightarrow> nat \<Rightarrow> kfs \<Rightarrow> kfs option" where
  "vfs_unmount_loop k 0 s = Some s"
| "vfs_unmount_loop k (Suc n) s = do {
     let fs = vfs (vdev_list s ! k);
     s \<leftarrow> (if mountable (vdev_list s ! k) \<and> fs \<noteq> 0 then do {
             (ret, s) \<leftarrow> sfs_sync fs s;
             if ret \<noteq> 0 then Some s
             else do {
               (ret, s) \<leftarrow> sfs_unmount fs s;
               Some (if ret = 0 then set_vfs k 0 s else s)
             }
           } else Some s);
     vfs_unmount_loop (Suc k) n s
   }"

definition vfs_unmount_all :: "kfs \<Rightarrow> (int \<times> kfs) option" where
  "vfs_unmount_all s =
     (if vdev_list s \<noteq> [] then do {
        s \<leftarrow> lock_vdev_list s;
        s \<leftarrow> vfs_unmount_loop 0 (length (vdev_list s)) s;
        Some (0, unlock_vdev_list s)
      } else Some (0, s))"

section \<open>The current directory\<close>

definition lock_files :: "kfs \<Rightarrow> kfs option" where
  "lock_files s = do {
     n \<leftarrow> sem_take (files_sem (filesp s));
     Some (s\<lparr>filesp := (filesp s)\<lparr>files_sem := n\<rparr>\<rparr>)
   }"

definition unlock_files :: "kfs \<Rightarrow> kfs" where
  "unlock_files s = s\<lparr>filesp := (filesp s)\<lparr>files_sem := files_sem (filesp s) + 1\<rparr>\<rparr>"

definition get_cwd_nolock :: "kfs \<Rightarrow> addr" where
  "get_cwd_nolock s = pwd (filesp s)"

definition set_cwd_nolock :: "addr \<Rightarrow> kfs \<Rightarrow> kfs" where
  "set_cwd_nolock d s = s\<lparr>filesp := (filesp s)\<lparr>pwd := d\<rparr>\<rparr>"

definition lock_cfs :: "kfs \<Rightarrow> kfs option" where
  "lock_cfs s = lock_files s"

definition unlock_cfs :: "kfs \<Rightarrow> kfs" where
  "unlock_cfs s = unlock_files s"

definition vfs_get_curdir :: "kfs \<Rightarrow> (int \<times> addr \<times> kfs) option" where
  "vfs_get_curdir s = do {
     let node = get_cwd_nolock s;
     if node \<noteq> 0 then do {
       (n, s) \<leftarrow> inode_ref_inc node s;
       Some (0, node, s)
     }
     else Some (- E_NOENT, 0, s)
   }"

definition S_ISDIR :: "u32 \<Rightarrow> bool" where
  "S_ISDIR mode \<longleftrightarrow> mode AND S_IFMT = S_IFDIR"

definition vfs_set_curdir :: "addr \<Rightarrow> kfs \<Rightarrow> (int \<times> kfs) option" where
  "vfs_set_curdir dir s = do {
     s \<leftarrow> lock_cfs s;
     let old_dir = get_cwd_nolock s;
     if old_dir = dir then Some (0, unlock_cfs s)
     else do {
       (ret, s) \<leftarrow>
         (if dir \<noteq> 0 then do {
            (ret, type) \<leftarrow> vop_gettype dir s;
            if ret \<noteq> 0 then Some (ret, s)
            else if \<not> S_ISDIR type then Some (- E_NOTDIR, s)
            else do {
              (n, s) \<leftarrow> inode_ref_inc dir s;
              Some (0, s)
            }
          } else Some (0, s));
       if ret \<noteq> 0 then Some (ret, unlock_cfs s)
       else do {
         let s = set_cwd_nolock dir s;
         s \<leftarrow> (if old_dir \<noteq> 0 then do { (n, s) \<leftarrow> inode_ref_dec old_dir s; Some s } else Some s);
         Some (0, unlock_cfs s)
       }
     }
   }"

section \<open>The boot file system\<close>

definition vfs_init :: "kfs \<Rightarrow> kfs" where
  "vfs_init s = vfs_devlist_init (s\<lparr>bootfs_sem := 1\<rparr>)"

definition lock_bootfs :: "kfs \<Rightarrow> kfs option" where
  "lock_bootfs s = do { n \<leftarrow> sem_take (bootfs_sem s); Some (s\<lparr>bootfs_sem := n\<rparr>) }"

definition unlock_bootfs :: "kfs \<Rightarrow> kfs" where
  "unlock_bootfs s = s\<lparr>bootfs_sem := bootfs_sem s + 1\<rparr>"

definition change_bootfs :: "addr \<Rightarrow> kfs \<Rightarrow> kfs option" where
  "change_bootfs node s = do {
     s \<leftarrow> lock_bootfs s;
     let old = bootfs_node s;
     let s = unlock_bootfs (s\<lparr>bootfs_node := node\<rparr>);
     if old \<noteq> 0 then do {
       (n, s) \<leftarrow> inode_ref_dec old s;
       Some s
     }
     else Some s
   }"

definition vfs_get_bootfs :: "kfs \<Rightarrow> (int \<times> addr \<times> kfs) option" where
  "vfs_get_bootfs s =
     (if bootfs_node s \<noteq> 0 then do {
        s \<leftarrow> lock_bootfs s;
        let node = bootfs_node s;
        (n, s) \<leftarrow> inode_ref_inc node s;
        Some (0, node, unlock_bootfs s)
      }
      else Some (- E_NOENT, 0, s))"

section \<open>Path lookup\<close>

text \<open>The position of the first colon or slash: the pair \<^verbatim>\<open>slash\<close>, \<^verbatim>\<open>colon\<close>, -1 where absent.\<close>

partial_function (option) scan_path :: "mem \<Rightarrow> addr \<Rightarrow> int \<Rightarrow> (int \<times> int) option" where
  "scan_path m path i =
     (let c = m (path + nat i) in
      if c = 0 then Some (- 1, - 1)
      else if c = 58 then Some (- 1, i)
      else if c = 47 then Some (i, - 1)
      else scan_path m path (i + 1))"

partial_function (option) skip_slashes :: "mem \<Rightarrow> addr \<Rightarrow> addr option" where
  "skip_slashes m p = (if m p = 47 then skip_slashes m (Suc p) else Some p)"

text \<open>The result, the rest of the path, the start node.\<close>

definition get_device :: "addr \<Rightarrow> kfs \<Rightarrow> (int \<times> addr \<times> addr \<times> kfs) option" where
  "get_device path s = do {
     (slash, colon) \<leftarrow> scan_path (kmem s) path 0;
     if colon < 0 \<and> slash \<noteq> 0 then do {
       (ret, node, s) \<leftarrow> vfs_get_curdir s;
       Some (ret, path, node, s)
     }
     else if colon > 0 then do {
       let s = s\<lparr>kmem := (kmem s)(path + nat colon := 0)\<rparr>;
       sub \<leftarrow> skip_slashes (kmem s) (path + nat colon + 1);
       (ret, node, s) \<leftarrow> vfs_get_root path s;
       Some (ret, sub, node, s)
     }
     else do {
       (ret, node, s) \<leftarrow>
         (if kmem s path = 47 then vfs_get_bootfs s
          else do {
            ensure (kmem s path = 58);
            (ret, node, s) \<leftarrow> vfs_get_curdir s;
            if ret \<noteq> 0 then Some (ret, 0, s)
            else do {
              i \<leftarrow> inodes s node;
              ensure (in_fs i \<noteq> 0);
              (root, s) \<leftarrow> sfs_get_root (in_fs i) s;
              (n, s) \<leftarrow> inode_ref_dec node s;
              Some (0, root, s)
            }
          });
       if ret \<noteq> 0 then Some (ret, path, 0, s)
       else do {
         sub \<leftarrow> skip_slashes (kmem s) (path + 1);
         Some (0, sub, node, s)
       }
     }
   }"

definition vfs_lookup :: "addr \<Rightarrow> kfs \<Rightarrow> (int \<times> addr \<times> kfs) option" where
  "vfs_lookup path s = do {
     (ret, path, node, s) \<leftarrow> get_device path s;
     if ret \<noteq> 0 then Some (ret, 0, s)
     else if kmem s path \<noteq> 0 then do {
       (ret, found, s) \<leftarrow> vop_lookup node path s;
       (n, s) \<leftarrow> inode_ref_dec node s;
       Some (ret, found, s)
     }
     else Some (0, node, s)
   }"

definition vfs_lookup_parent :: "addr \<Rightarrow> kfs \<Rightarrow> (int \<times> addr \<times> addr \<times> kfs) option" where
  "vfs_lookup_parent path s = do {
     (ret, path, node, s) \<leftarrow> get_device path s;
     if ret \<noteq> 0 then Some (ret, 0, 0, s) else Some (0, node, path, s)
   }"

definition vfs_chdir :: "addr \<Rightarrow> kfs \<Rightarrow> (int \<times> kfs) option" where
  "vfs_chdir path s = do {
     (ret, node, s) \<leftarrow> vfs_lookup path s;
     if ret = 0 then do {
       (ret, s) \<leftarrow> vfs_set_curdir node s;
       (n, s) \<leftarrow> inode_ref_dec node s;
       Some (ret, s)
     }
     else Some (ret, s)
   }"

text \<open>The name of the device and the colon are moved from \<open>locals + 16\<close>.\<close>

definition vfs_getcwd :: "iobuf \<Rightarrow> kfs \<Rightarrow> (int \<times> iobuf \<times> kfs) option" where
  "vfs_getcwd iob s = do {
     (ret, node, s) \<leftarrow> vfs_get_curdir s;
     if ret \<noteq> 0 then Some (ret, iob, s)
     else do {
       i \<leftarrow> inodes s node;
       ensure (in_fs i \<noteq> 0);
       name \<leftarrow> vfs_get_devname (in_fs i) s;
       name \<leftarrow> name;
       let m = store_bytes (locals s + 16) (name @ [0]) (kmem s);
       (ret, n, iob, m) \<leftarrow> iobuf_move iob (locals s + 16) (length name) True m;
       (ret, iob, m) \<leftarrow>
         (if ret \<noteq> 0 then Some (ret, iob, m)
          else do {
            let m = m(locals s + 16 := 58);
            (ret, n, iob, m) \<leftarrow> iobuf_move iob (locals s + 16) 1 True m;
            Some (ret, iob, m)
          });
       let s = s\<lparr>kmem := m\<rparr>;
       (ret, iob, s) \<leftarrow> (if ret \<noteq> 0 then Some (ret, iob, s) else vop_namefile node iob s);
       (n, s) \<leftarrow> inode_ref_dec node s;
       Some (ret, iob, s)
     }
   }"

definition vfs_set_bootfs :: "addr \<Rightarrow> kfs \<Rightarrow> (int \<times> kfs) option" where
  "vfs_set_bootfs fsname s =
     (if fsname \<noteq> 0 then do {
        p \<leftarrow> strchr (kmem s) fsname 58;
        if p = 0 \<or> kmem s (p + 1) \<noteq> 0 then Some (- E_INVAL, s)
        else do {
          (ret, s) \<leftarrow> vfs_chdir fsname s;
          if ret \<noteq> 0 then Some (ret, s)
          else do {
            (ret, node, s) \<leftarrow> vfs_get_curdir s;
            if ret \<noteq> 0 then Some (ret, s)
            else do {
              s \<leftarrow> change_bootfs node s;
              Some (0, s)
            }
          }
        }
      }
      else do {
        s \<leftarrow> change_bootfs 0 s;
        Some (0, s)
      })"

section \<open>Opening and closing\<close>

definition vfs_open :: "addr \<Rightarrow> u32 \<Rightarrow> kfs \<Rightarrow> (int \<times> addr \<times> kfs) option" where
  "vfs_open path open_flags s = do {
     let acc = open_flags AND O_ACCMODE;
     let can_write = (acc = O_WRONLY \<or> acc = O_RDWR);
     if acc \<noteq> O_RDONLY \<and> \<not> can_write then Some (- E_INVAL, 0, s)
     else if open_flags AND O_TRUNC \<noteq> 0 \<and> \<not> can_write then Some (- E_INVAL, 0, s)
     else do {
       let excl = (open_flags AND O_EXCL \<noteq> 0);
       let create = (open_flags AND O_CREAT \<noteq> 0);
       (ret, node, s) \<leftarrow> vfs_lookup path s;
       (ret, node, s) \<leftarrow>
         (if ret \<noteq> 0 then
            (if ret = - 16 \<and> create then do {
               (ret, dir, name, s) \<leftarrow> vfs_lookup_parent path s;
               if ret \<noteq> 0 then Some (ret, 0, s) else vop_create dir name excl s
             }
             else Some (ret, 0, s))
          else if excl \<and> create then Some (- E_EXISTS, 0, s)
          else Some (0, node, s));
       if ret \<noteq> 0 then Some (ret, 0, s)
       else do {
         ensure (node \<noteq> 0);
         ret \<leftarrow> vop_open node open_flags s;
         if ret \<noteq> 0 then do {
           (n, s) \<leftarrow> inode_ref_dec node s;
           Some (ret, 0, s)
         }
         else do {
           (n, s) \<leftarrow> inode_open_inc node s;
           (ret, s) \<leftarrow> (if open_flags AND O_TRUNC \<noteq> 0 \<or> create then vop_truncate node 0 s else Some (0, s));
           if ret \<noteq> 0 then do {
             (n, s) \<leftarrow> inode_open_dec node s;
             (n, s) \<leftarrow> inode_ref_dec node s;
             Some (ret, 0, s)
           }
           else Some (0, node, s)
         }
       }
     }
   }"

definition vfs_close :: "addr \<Rightarrow> kfs \<Rightarrow> (int \<times> kfs) option" where
  "vfs_close node s = do {
     (n, s) \<leftarrow> inode_open_dec node s;
     (n, s) \<leftarrow> inode_ref_dec node s;
     Some (0, s)
   }"

definition vfs_unlink :: "addr \<Rightarrow> int" where "vfs_unlink path = - E_UNIMP"
definition vfs_rename :: "addr \<Rightarrow> addr \<Rightarrow> int" where "vfs_rename old_path new_path = - E_UNIMP"
definition vfs_link :: "addr \<Rightarrow> addr \<Rightarrow> int" where "vfs_link old_path new_path = - E_UNIMP"
definition vfs_symlink :: "addr \<Rightarrow> addr \<Rightarrow> int" where "vfs_symlink old_path new_path = - E_UNIMP"
definition vfs_readlink :: "addr \<Rightarrow> iobuf \<Rightarrow> int" where "vfs_readlink path iob = - E_UNIMP"
definition vfs_mkdir :: "addr \<Rightarrow> int" where "vfs_mkdir path = - E_UNIMP"

section \<open>Start of the file system\<close>

text \<open>
  Each of the three devices: its node is made, the device in it filled in, and its name (a
  literal, here at \<open>locals\<close>) entered into the table; a failure panics.
\<close>

definition set_device :: "addr \<Rightarrow> device \<Rightarrow> kfs \<Rightarrow> kfs" where
  "set_device node dev s = upd_inode node (\<lambda>i. i\<lparr>info := DeviceInfo dev\<rparr>) s"

definition with_literal :: "u8 list \<Rightarrow> kfs \<Rightarrow> kfs" where
  "with_literal str s = s\<lparr>kmem := store_bytes (locals s) (str @ [0]) (kmem s)\<rparr>"

definition dev_init_stdin :: "kfs \<Rightarrow> kfs option" where
  "dev_init_stdin s = do {
     let (node, s) = dev_create_inode s;
     ensure (node \<noteq> 0);
     let (dev, s) = stdin_device_init s;
     let s = with_literal [115, 116, 100, 105, 110] (set_device node dev s);
     (ret, s) \<leftarrow> vfs_add_dev (locals s) node False s;
     ensure (ret = 0);
     Some s
   }"

definition dev_init_stdout :: "kfs \<Rightarrow> kfs option" where
  "dev_init_stdout s = do {
     let (node, s) = dev_create_inode s;
     ensure (node \<noteq> 0);
     let (dev, s) = stdout_device_init s;
     let s = with_literal [115, 116, 100, 111, 117, 116] (set_device node dev s);
     (ret, s) \<leftarrow> vfs_add_dev (locals s) node False s;
     ensure (ret = 0);
     Some s
   }"

definition dev_init_disk0 :: "kfs \<Rightarrow> kfs option" where
  "dev_init_disk0 s = do {
     let (node, s) = dev_create_inode s;
     ensure (node \<noteq> 0);
     (dev, s) \<leftarrow> disk0_device_init s;
     let s = with_literal [100, 105, 115, 107, 48] (set_device node dev s);
     (ret, s) \<leftarrow> vfs_add_dev (locals s) node True s;
     ensure (ret = 0);
     Some s
   }"

definition dev_init :: "kfs \<Rightarrow> kfs option" where
  "dev_init s = do {
     s \<leftarrow> dev_init_stdin s;
     s \<leftarrow> dev_init_stdout s;
     dev_init_disk0 s
   }"

definition sfs_init :: "kfs \<Rightarrow> kfs option" where
  "sfs_init s = do {
     let s = with_literal [100, 105, 115, 107, 48] s;
     (ret, s) \<leftarrow> sfs_mount (locals s) s;
     ensure (ret = 0);
     Some s
   }"

definition fs_init :: "kfs \<Rightarrow> kfs option" where
  "fs_init s = do {
     s \<leftarrow> dev_init (vfs_init s);
     sfs_init s
   }"

definition fs_cleanup :: "kfs \<Rightarrow> kfs option" where
  "fs_cleanup s = vfs_cleanup s"

end
