(* ===== verification/FileTable.thy ===== *)
theory FileTable
  imports Vfs
begin

text \<open>
  The open file table of a process: \<^verbatim>\<open>fs/file.c\<close> and the operations of \<^verbatim>\<open>fs/fs.c\<close> on
  \<^verbatim>\<open>struct files_struct\<close>. An operation on a \<^verbatim>\<open>struct file\<close> takes the entry and returns it
  changed; the operations by descriptor work on the table of the current process.
\<close>

section \<open>Entries\<close>

text \<open>
  On the 64-bit target, where \<^verbatim>\<open>bool\<close> is a \<^verbatim>\<open>long long\<close>, \<^verbatim>\<open>struct files_struct\<close> has 48 bytes and
  \<^verbatim>\<open>struct file\<close> 56, so the page that holds both has room for 72 entries.
\<close>

definition FILES_STRUCT_BUFSIZE :: nat where [layout]: "FILES_STRUCT_BUFSIZE = PGSIZE - 48"
definition FILES_STRUCT_NENTRY :: nat where [layout]: "FILES_STRUCT_NENTRY = FILES_STRUCT_BUFSIZE div 56"

definition fopen_count_inc :: "ofile \<Rightarrow> ofile" where
  "fopen_count_inc f = f\<lparr>fopen_count := fopen_count f + 1\<rparr>"

definition fopen_count_dec :: "ofile \<Rightarrow> ofile" where
  "fopen_count_dec f = f\<lparr>fopen_count := fopen_count f - 1\<rparr>"

fun fd_array_init_loop :: "int \<Rightarrow> ofile list \<Rightarrow> ofile list" where
  "fd_array_init_loop fd [] = []"
| "fd_array_init_loop fd (f # fs) =
     f\<lparr>fopen_count := 0, status := FD_NONE, fdno := fd\<rparr> # fd_array_init_loop (fd + 1) fs"

definition fd_array_init :: "ofile list \<Rightarrow> ofile list" where
  "fd_array_init fs = fd_array_init_loop 0 fs"

definition fd_array_free :: "ofile \<Rightarrow> kfs \<Rightarrow> (ofile \<times> kfs) option" where
  "fd_array_free f s = do {
     ensure (status f = FD_INIT \<or> status f = FD_CLOSED);
     ensure (fopen_count f = 0);
     s \<leftarrow> (if status f = FD_CLOSED then do { (r, s) \<leftarrow> vfs_close (fnode f) s; Some s } else Some s);
     Some (f\<lparr>status := FD_NONE\<rparr>, s)
   }"

definition fd_array_acquire :: "ofile \<Rightarrow> ofile option" where
  "fd_array_acquire f = do {
     ensure (status f = FD_OPENED);
     Some (fopen_count_inc f)
   }"

definition fd_array_release :: "ofile \<Rightarrow> kfs \<Rightarrow> (ofile \<times> kfs) option" where
  "fd_array_release f s = do {
     ensure (status f = FD_OPENED \<or> status f = FD_CLOSED);
     ensure (fopen_count f > 0);
     let f = fopen_count_dec f;
     if fopen_count f = 0 then fd_array_free f s else Some (f, s)
   }"

definition fd_array_open :: "ofile \<Rightarrow> ofile option" where
  "fd_array_open f = do {
     ensure (status f = FD_INIT \<and> fnode f \<noteq> 0);
     Some (fopen_count_inc (f\<lparr>status := FD_OPENED\<rparr>))
   }"

definition fd_array_close :: "ofile \<Rightarrow> kfs \<Rightarrow> (ofile \<times> kfs) option" where
  "fd_array_close f s = do {
     ensure (status f = FD_OPENED);
     ensure (fopen_count f > 0);
     let f = fopen_count_dec (f\<lparr>status := FD_CLOSED\<rparr>);
     if fopen_count f = 0 then fd_array_free f s else Some (f, s)
   }"

definition fd_array_dup :: "ofile \<Rightarrow> ofile \<Rightarrow> kfs \<Rightarrow> (ofile \<times> kfs) option" where
  "fd_array_dup to frm s = do {
     ensure (status to = FD_INIT \<and> status frm = FD_OPENED);
     (n, s) \<leftarrow> inode_ref_inc (fnode frm) s;
     (n, s) \<leftarrow> inode_open_inc (fnode frm) s;
     f \<leftarrow> fd_array_open (to\<lparr>pos := pos frm, readable := readable frm, writable := writable frm,
                            fnode := fnode frm\<rparr>);
     Some (f, s)
   }"

section \<open>The table of the current process\<close>

definition get_fd_array :: "kfs \<Rightarrow> ofile list option" where
  "get_fd_array s = do {
     ensure (files_count (filesp s) > 0);
     Some (fd_array (filesp s))
   }"

definition set_file :: "nat \<Rightarrow> ofile \<Rightarrow> kfs \<Rightarrow> kfs" where
  "set_file k f s = s\<lparr>filesp := (filesp s)\<lparr>fd_array := (fd_array (filesp s))[k := f]\<rparr>\<rparr>"

definition testfd :: "int \<Rightarrow> bool" where
  "testfd fd \<longleftrightarrow> fd \<ge> 0 \<and> fd < int FILES_STRUCT_NENTRY"

fun find_free_file :: "nat \<Rightarrow> ofile list \<Rightarrow> nat option" where
  "find_free_file fd [] = None"
| "find_free_file fd (f # fs) = (if status f = FD_NONE then Some fd else find_free_file (Suc fd) fs)"

text \<open>The result and the index of the entry.\<close>

definition fd_array_alloc :: "int \<Rightarrow> kfs \<Rightarrow> (int \<times> nat \<times> kfs) option" where
  "fd_array_alloc fd s = do {
     tab \<leftarrow> get_fd_array s;
     let (ret, k) =
       (if fd = NO_FD then
          (case find_free_file 0 tab of Some k \<Rightarrow> (0, k) | None \<Rightarrow> (- E_MAX_OPEN, 0))
        else if testfd fd then
          (if status (tab ! nat fd) = FD_NONE then (0, nat fd) else (- E_BUSY, 0))
        else (- E_INVAL, 0));
     if ret \<noteq> 0 then Some (ret, 0, s)
     else do {
       ensure (fopen_count (tab ! k) = 0);
       Some (0, k, set_file k ((tab ! k)\<lparr>status := FD_INIT, fnode := 0\<rparr>) s)
     }
   }"

definition fd2file :: "int \<Rightarrow> kfs \<Rightarrow> (int \<times> nat) option" where
  "fd2file fd s =
     (if testfd fd then do {
        tab \<leftarrow> get_fd_array s;
        let f = tab ! nat fd;
        Some (if status f = FD_OPENED \<and> fdno f = fd then (0, nat fd) else (- E_INVAL, 0))
      }
      else Some (- E_INVAL, 0))"

definition file_testfd :: "int \<Rightarrow> bool \<Rightarrow> bool \<Rightarrow> kfs \<Rightarrow> bool option" where
  "file_testfd fd rd wr s = do {
     (ret, k) \<leftarrow> fd2file fd s;
     let f = fd_array (filesp s) ! k;
     Some (if ret \<noteq> 0 then False
           else if rd \<and> \<not> readable f then False
           else if wr \<and> \<not> writable f then False
           else True)
   }"

text \<open>An operation of an entry, applied to the \<open>k\<close>-th one.\<close>

definition with_file :: "nat \<Rightarrow> (ofile \<Rightarrow> kfs \<Rightarrow> (ofile \<times> kfs) option) \<Rightarrow> kfs \<Rightarrow> kfs option" where
  "with_file k g s = do {
     (f, s) \<leftarrow> g (fd_array (filesp s) ! k) s;
     Some (set_file k f s)
   }"

definition acquire_file :: "nat \<Rightarrow> kfs \<Rightarrow> kfs option" where
  "acquire_file k s = with_file k (\<lambda>f s. do { f \<leftarrow> fd_array_acquire f; Some (f, s) }) s"

section \<open>Operations by descriptor\<close>

definition file_open :: "addr \<Rightarrow> u32 \<Rightarrow> kfs \<Rightarrow> (int \<times> kfs) option" where
  "file_open path open_flags s = do {
     let acc = open_flags AND O_ACCMODE;
     let rd = (acc = O_RDONLY \<or> acc = O_RDWR);
     let wr = (acc = O_WRONLY \<or> acc = O_RDWR);
     if \<not> rd \<and> \<not> wr then Some (- E_INVAL, s)
     else do {
       (ret, k, s) \<leftarrow> fd_array_alloc NO_FD s;
       if ret \<noteq> 0 then Some (ret, s)
       else do {
         (ret, node, s) \<leftarrow> vfs_open path open_flags s;
         if ret \<noteq> 0 then do {
           s \<leftarrow> with_file k fd_array_free s;
           Some (ret, s)
         }
         else do {
           let s = set_file k ((fd_array (filesp s) ! k)\<lparr>pos := 0\<rparr>) s;
           (ret, p) \<leftarrow>
             (if open_flags AND O_APPEND \<noteq> 0 then do {
                (ret, st) \<leftarrow> vop_fstat node s;
                Some (ret, int (st_size st))
              } else Some (0, 0));
           if ret \<noteq> 0 then do {
             (r, s) \<leftarrow> vfs_close node s;
             s \<leftarrow> with_file k fd_array_free s;
             Some (ret, s)
           }
           else do {
             let f = (fd_array (filesp s) ! k)\<lparr>pos := p, fnode := node, readable := rd, writable := wr\<rparr>;
             f \<leftarrow> fd_array_open f;
             Some (fdno f, set_file k f s)
           }
         }
       }
     }
   }"

definition file_close :: "int \<Rightarrow> kfs \<Rightarrow> (int \<times> kfs) option" where
  "file_close fd s = do {
     (ret, k) \<leftarrow> fd2file fd s;
     if ret \<noteq> 0 then Some (ret, s)
     else do {
       s \<leftarrow> with_file k fd_array_close s;
       Some (0, s)
     }
   }"

text \<open>Advancing the position by what an I/O buffer has used, while the entry is open.\<close>

definition advance_file :: "nat \<Rightarrow> nat \<Rightarrow> kfs \<Rightarrow> kfs" where
  "advance_file k copied s =
     (let f = fd_array (filesp s) ! k
      in if status f = FD_OPENED then set_file k (f\<lparr>pos := pos f + int copied\<rparr>) s else s)"

text \<open>Reading and writing return the result, the number of bytes copied and the state.\<close>

definition file_read :: "int \<Rightarrow> addr \<Rightarrow> nat \<Rightarrow> kfs \<Rightarrow> (int \<times> nat \<times> kfs) option" where
  "file_read fd base len s = do {
     (ret, k) \<leftarrow> fd2file fd s;
     let f = fd_array (filesp s) ! k;
     if ret \<noteq> 0 then Some (ret, 0, s)
     else if \<not> readable f then Some (- E_INVAL, 0, s)
     else do {
       s \<leftarrow> acquire_file k s;
       (ret, iob, s) \<leftarrow> vop_read (fnode f) (iobuf_init base len (pos f)) s;
       let copied = iobuf_used iob;
       s \<leftarrow> with_file k fd_array_release (advance_file k copied s);
       Some (ret, copied, s)
     }
   }"

definition file_write :: "int \<Rightarrow> addr \<Rightarrow> nat \<Rightarrow> kfs \<Rightarrow> (int \<times> nat \<times> kfs) option" where
  "file_write fd base len s = do {
     (ret, k) \<leftarrow> fd2file fd s;
     let f = fd_array (filesp s) ! k;
     if ret \<noteq> 0 then Some (ret, 0, s)
     else if \<not> writable f then Some (- E_INVAL, 0, s)
     else do {
       s \<leftarrow> acquire_file k s;
       (ret, iob, s) \<leftarrow> vop_write (fnode f) (iobuf_init base len (pos f)) s;
       let copied = iobuf_used iob;
       s \<leftarrow> with_file k fd_array_release (advance_file k copied s);
       Some (ret, copied, s)
     }
   }"

definition LSEEK_SET :: int where [layout]: "LSEEK_SET = 0"
definition LSEEK_CUR :: int where [layout]: "LSEEK_CUR = 1"
definition LSEEK_END :: int where [layout]: "LSEEK_END = 2"

text \<open>Sums of offsets are sums of 64-bit words, read as signed numbers.\<close>

definition off_add :: "int \<Rightarrow> int \<Rightarrow> int" where
  "off_add a b = sint (word_of_int (a + b) :: u64)"

definition file_seek :: "int \<Rightarrow> int \<Rightarrow> int \<Rightarrow> kfs \<Rightarrow> (int \<times> kfs) option" where
  "file_seek fd p whence s = do {
     (ret, k) \<leftarrow> fd2file fd s;
     let f = fd_array (filesp s) ! k;
     if ret \<noteq> 0 then Some (ret, s)
     else do {
       s \<leftarrow> acquire_file k s;
       (ret, p) \<leftarrow>
         (if whence = LSEEK_SET then Some (0, p)
          else if whence = LSEEK_CUR then Some (0, off_add p (pos f))
          else if whence = LSEEK_END then do {
            (ret, st) \<leftarrow> vop_fstat (fnode f) s;
            Some (ret, if ret = 0 then off_add p (int (st_size st)) else p)
          }
          else Some (- E_INVAL, p));
       (ret, s) \<leftarrow>
         (if ret = 0 then do {
            (ret, s) \<leftarrow> vop_tryseek (fnode f) p s;
            Some (ret, if ret = 0 then set_file k ((fd_array (filesp s) ! k)\<lparr>pos := p\<rparr>) s else s)
          }
          else Some (ret, s));
       s \<leftarrow> with_file k fd_array_release s;
       Some (ret, s)
     }
   }"

definition file_fstat :: "int \<Rightarrow> kfs \<Rightarrow> (int \<times> stat option \<times> kfs) option" where
  "file_fstat fd s = do {
     (ret, k) \<leftarrow> fd2file fd s;
     let f = fd_array (filesp s) ! k;
     if ret \<noteq> 0 then Some (ret, None, s)
     else do {
       s \<leftarrow> acquire_file k s;
       (ret, st) \<leftarrow> vop_fstat (fnode f) s;
       s \<leftarrow> with_file k fd_array_release s;
       Some (ret, Some st, s)
     }
   }"

definition file_fsync :: "int \<Rightarrow> kfs \<Rightarrow> (int \<times> kfs) option" where
  "file_fsync fd s = do {
     (ret, k) \<leftarrow> fd2file fd s;
     let f = fd_array (filesp s) ! k;
     if ret \<noteq> 0 then Some (ret, s)
     else do {
       s \<leftarrow> acquire_file k s;
       (ret, s) \<leftarrow> vop_fsync (fnode f) s;
       s \<leftarrow> with_file k fd_array_release s;
       Some (ret, s)
     }
   }"

text \<open>The directory entry of the caller: its offset, and its name of 256 bytes at an address.\<close>

definition file_getdirentry :: "int \<Rightarrow> int \<Rightarrow> addr \<Rightarrow> kfs \<Rightarrow> (int \<times> int \<times> kfs) option" where
  "file_getdirentry fd offset name s = do {
     (ret, k) \<leftarrow> fd2file fd s;
     let f = fd_array (filesp s) ! k;
     if ret \<noteq> 0 then Some (ret, offset, s)
     else do {
       s \<leftarrow> acquire_file k s;
       (ret, iob, s) \<leftarrow> vop_getdirentry (fnode f) (iobuf_init name 256 offset) s;
       s \<leftarrow> with_file k fd_array_release s;
       Some (ret, if ret = 0 then offset + int (iobuf_used iob) else offset, s)
     }
   }"

definition file_dup :: "int \<Rightarrow> int \<Rightarrow> kfs \<Rightarrow> (int \<times> kfs) option" where
  "file_dup fd1 fd2 s = do {
     (ret, k1) \<leftarrow> fd2file fd1 s;
     if ret \<noteq> 0 then Some (ret, s)
     else do {
       (ret, k2, s) \<leftarrow> fd_array_alloc fd2 s;
       if ret \<noteq> 0 then Some (ret, s)
       else do {
         let tab = fd_array (filesp s);
         (f, s) \<leftarrow> fd_array_dup (tab ! k2) (tab ! k1) s;
         Some (fdno f, set_file k2 f s)
       }
     }
   }"

section \<open>Tables of processes\<close>

text \<open>The entries of a new table have no meaningful contents but those \<^verbatim>\<open>fd_array_init\<close> sets.\<close>

definition files_create :: "kfs \<Rightarrow> files_struct option \<times> kfs" where
  "files_create s =
     (let (p, s) = kmalloc s;
          f = \<lparr>status = FD_NONE, readable = False, writable = False, fdno = 0, pos = 0, fnode = 0, fopen_count = 0\<rparr>
      in if p \<noteq> 0
         then (Some \<lparr>pwd = 0, fd_array = fd_array_init (replicate FILES_STRUCT_NENTRY f),
                     files_count = 0, files_sem = 1\<rparr>, s)
         else (None, s))"

fun files_destroy_loop :: "ofile list \<Rightarrow> kfs \<Rightarrow> kfs option" where
  "files_destroy_loop [] s = Some s"
| "files_destroy_loop (f # fs) s = do {
     (f, s) \<leftarrow> (if status f = FD_OPENED then fd_array_close f s else Some (f, s));
     ensure (status f = FD_NONE);
     files_destroy_loop fs s
   }"

definition files_destroy :: "files_struct \<Rightarrow> kfs \<Rightarrow> kfs option" where
  "files_destroy fp s = do {
     ensure (files_count fp = 0);
     s \<leftarrow> (if pwd fp \<noteq> 0 then do { (n, s) \<leftarrow> inode_ref_dec (pwd fp) s; Some s } else Some s);
     files_destroy_loop (fd_array fp) s
   }"

fun files_closeall_loop :: "ofile list \<Rightarrow> kfs \<Rightarrow> (ofile list \<times> kfs) option" where
  "files_closeall_loop [] s = Some ([], s)"
| "files_closeall_loop (f # fs) s = do {
     (f, s) \<leftarrow> (if status f = FD_OPENED then fd_array_close f s else Some (f, s));
     (fs, s) \<leftarrow> files_closeall_loop fs s;
     Some (f # fs, s)
   }"

definition files_closeall :: "files_struct \<Rightarrow> kfs \<Rightarrow> (files_struct \<times> kfs) option" where
  "files_closeall fp s = do {
     ensure (files_count fp > 0);
     (fs, s) \<leftarrow> files_closeall_loop (drop 2 (fd_array fp)) s;
     Some (fp\<lparr>fd_array := take 2 (fd_array fp) @ fs\<rparr>, s)
   }"

fun dup_files_loop :: "ofile list \<Rightarrow> ofile list \<Rightarrow> kfs \<Rightarrow> (ofile list \<times> kfs) option" where
  "dup_files_loop (to # tos) (frm # frms) s = do {
     (to, s) \<leftarrow> (if status frm = FD_OPENED then fd_array_dup (to\<lparr>status := FD_INIT\<rparr>) frm s else Some (to, s));
     (tos, s) \<leftarrow> dup_files_loop tos frms s;
     Some (to # tos, s)
   }"
| "dup_files_loop tos frms s = Some (tos, s)"

definition dup_files :: "files_struct \<Rightarrow> files_struct \<Rightarrow> kfs \<Rightarrow> (int \<times> files_struct \<times> kfs) option" where
  "dup_files to frm s = do {
     ensure (files_count to = 0 \<and> files_count frm > 0);
     s \<leftarrow> (if pwd frm \<noteq> 0 then do { (n, s) \<leftarrow> inode_ref_inc (pwd frm) s; Some s } else Some s);
     (fs, s) \<leftarrow> dup_files_loop (fd_array to) (fd_array frm) s;
     Some (0, to\<lparr>pwd := pwd frm, fd_array := fs\<rparr>, s)
   }"

end
