(* ===== verification/OpenFiles.thy ===== *)
theory OpenFiles
  imports FileTable
begin

text \<open>
  What the operations by descriptor do: reading and writing through the table, seeking,
  duplicating and closing, and the calls that panic because a table of a node lacks the
  operation.
\<close>

section \<open>The file system does not look at the table of open files\<close>

lemma filesp_disk [simp]:
  "disk_base (s\<lparr>filesp := F\<rparr>) = disk_base s" "disk_blocks (s\<lparr>filesp := F\<rparr>) = disk_blocks s"
  by (simp_all add: disk_base_def disk_blocks_def ide_device_size_def ide_device_valid_def VALID_IDE_def)

lemma filesp_nodes [simp]:
  "vop_sin n (s\<lparr>filesp := F\<rparr>) = vop_sin n s" "vop_dev n (s\<lparr>filesp := F\<rparr>) = vop_dev n s"
  "vop_sfs n (s\<lparr>filesp := F\<rparr>) = vop_sfs n s" "inode_check n (s\<lparr>filesp := F\<rparr>) = inode_check n s"
  by (simp_all add: vop_sin_def vop_dev_def vop_sfs_def inode_check_def)

lemma filesp_areas [simp]:
  "io_area (s\<lparr>filesp := F\<rparr>) = io_area s" "blk (s\<lparr>filesp := F\<rparr>) = blk s"
  "free_blocks a (s\<lparr>filesp := F\<rparr>) = free_blocks a s" "vop_op n (s\<lparr>filesp := F\<rparr>) = vop_op n s"
  "disk_ok (s\<lparr>filesp := F\<rparr>) = disk_ok s" "buf_ok (s\<lparr>filesp := F\<rparr>) = buf_ok s"
  by (simp_all add: io_area_def blk_def free_blocks_def vop_op_def disk_ok_def buf_ok_def VALID_IDE_def fun_eq_iff)

lemma filesp_derived [simp]:
  "scratch a (s\<lparr>filesp := F\<rparr>) = scratch a s"
  "fs_dev_ok a (s\<lparr>filesp := F\<rparr>) = fs_dev_ok a s" "fs_wf a (s\<lparr>filesp := F\<rparr>) = fs_wf a s"
  "locals_ok a (s\<lparr>filesp := F\<rparr>) = locals_ok a s" "used_block a (s\<lparr>filesp := F\<rparr>) i = used_block a s i"
  "room a (s\<lparr>filesp := F\<rparr>) N T = room a s N T"
  by (simp_all add: scratch_def fs_dev_ok_def fs_wf_def locals_ok_def used_block_def room_def cong: option.case_cong)

lemma filesp_bmap [simp]: "bmap d (s\<lparr>filesp := F\<rparr>) = bmap d s"
  by (rule ext) (simp add: bmap_def indirect_ent_def)

lemma filesp_bytes [simp]:
  "file_bytes d (s\<lparr>filesp := F\<rparr>) = file_bytes d s" "file_inv a n sin (s\<lparr>filesp := F\<rparr>) = file_inv a n sin s"
proof -
  have "fbyte d (s\<lparr>filesp := F\<rparr>) = fbyte d s" by (rule ext) (simp add: fbyte_def)
  then show "file_bytes d (s\<lparr>filesp := F\<rparr>) = file_bytes d s" by (simp add: file_bytes_def)
  show "file_inv a n sin (s\<lparr>filesp := F\<rparr>) = file_inv a n sin s"
    by (simp add: file_inv_def file_ok_def inode_wf_def Let_def cong: option.case_cong)
qed

lemma same_but_outer:
  assumes "same_but a n s t"
  shows "filesp t = filesp s" and "vop_op n t = vop_op n s"
proof -
  from assms obtain f b v d i sin where 1: "inodes s n = Some i"
    "t = s\<lparr>kmem := kmem t,
           fss := (fss s)(a \<mapsto> f\<lparr>freemap := b, super := (super f)\<lparr>unused_blocks := v\<rparr>, super_dirty := d\<rparr>),
           inodes := (inodes s)(n \<mapsto> i\<lparr>info := SfsInfo sin\<rparr>)\<rparr>" unfolding same_but_def by blast
  show "filesp t = filesp s" by (subst 1(2)) simp
  have "inodes t n = Some (i\<lparr>info := SfsInfo sin\<rparr>)" by (subst 1(2)) simp
  then show "vop_op n t = vop_op n s" using 1(1) by (simp add: vop_op_def inode_check_def)
qed

section \<open>Reading and writing through the table\<close>

text \<open>Descriptor \<open>fd\<close> is open on the node \<open>n\<close> at position \<open>p\<close>.\<close>

definition fd_open :: "int \<Rightarrow> addr \<Rightarrow> int \<Rightarrow> kfs \<Rightarrow> bool" where
  "fd_open fd n p s \<longleftrightarrow> testfd fd \<and> files_count (filesp s) > 0 \<and> nat fd < length (fd_array (filesp s)) \<and>
     (let f = fd_array (filesp s) ! nat fd in
      status f = FD_OPENED \<and> fdno f = fd \<and> fnode f = n \<and> pos f = p \<and> fopen_count f > 0)"

lemma fd2file_open: "fd_open fd n p s \<Longrightarrow> fd2file fd s = Some (0, nat fd)"
  by (simp add: fd_open_def fd2file_def get_fd_array_def Let_def)

definition mode_of :: "int \<Rightarrow> kfs \<Rightarrow> bool \<times> bool" where
  "mode_of fd s = (readable (fd_array (filesp s) ! nat fd), writable (fd_array (filesp s) ! nat fd))"

text \<open>The state while descriptor \<open>fd\<close> is used, and after \<open>k\<close> bytes have passed through it.\<close>

definition acquired :: "int \<Rightarrow> kfs \<Rightarrow> kfs" where
  "acquired fd s = set_file (nat fd) (fopen_count_inc (fd_array (filesp s) ! nat fd)) s"

lemma acquire_open: "fd_open fd n p s \<Longrightarrow> acquire_file (nat fd) s = Some (acquired fd s)"
  by (simp add: fd_open_def acquire_file_def with_file_def fd_array_acquire_def acquired_def Let_def)

definition moved :: "int \<Rightarrow> int \<Rightarrow> kfs \<Rightarrow> kfs" where
  "moved fd p s = set_file (nat fd) ((fd_array (filesp s) ! nat fd)\<lparr>pos := p\<rparr>) s"

lemma set_file_filesp:
  "set_file k f s = s\<lparr>filesp := (filesp s)\<lparr>fd_array := (fd_array (filesp s))[k := f]\<rparr>\<rparr>"
  by (simp add: set_file_def)

lemma release_after:
  assumes "fd_open fd n p s" and "filesp t = filesp (acquired fd s)"
  shows "with_file (nat fd) fd_array_release (advance_file (nat fd) k t) =
    Some (t\<lparr>filesp := filesp (moved fd (p + int k) s)\<rparr>)"
  using assms
  by (simp add: fd_open_def acquired_def moved_def advance_file_def with_file_def fd_array_release_def
      set_file_def fopen_count_inc_def fopen_count_dec_def Let_def)

lemma moved_open:
  "fd_open fd n p s \<Longrightarrow> fd_open fd n q (moved fd q s)" "mode_of fd (moved fd q s) = mode_of fd s"
  "moved fd q (moved fd r s) = moved fd q s"
  by (cases "nat fd < length (fd_array (filesp s))";
      auto simp: fd_open_def moved_def set_file_def mode_of_def Let_def nth_list_update list_update_beyond)+

lemma acquired_filesp: "acquired fd s = s\<lparr>filesp := filesp (acquired fd s)\<rparr>"
  by (simp add: acquired_def set_file_def)

lemma acquired_simps [simp]:
  "vop_op n (acquired fd s) = vop_op n s" "file_inv a n sin (acquired fd s) = file_inv a n sin s"
  "file_bytes d (acquired fd s) = file_bytes d s" "room a (acquired fd s) N T = room a s N T"
  "scratch a (acquired fd s) = scratch a s" "kmem (acquired fd s) = kmem s" "vop_sin n (acquired fd s) = vop_sin n s"
  by (simp_all add: acquired_def set_file_def)

text \<open>The file \<open>n\<close> after \<open>len\<close> bytes at \<open>base\<close> went through descriptor \<open>fd\<close>.\<close>

lemma file_write_spec:
  assumes fd: "fd_open fd n (int p) s" and wr: "snd (mode_of fd s)" and ops: "vop_op n s = Some SfsFileOps"
    and inv: "file_inv a n sin s" and p: "p \<le> unat (isz (din sin))"
    and room: "room a s (unat (blocks (din sin))) (ROUNDUP_DIV (p + len) SFS_BLKSIZE)"
    and buf: "{base..<base + len} \<inter> scratch a s = {}"
  shows "\<exists>t sin'. file_write fd base len s = Some (0, len, t) \<and> file_inv a n sin' t \<and>
    file_bytes (din sin') t = overwrite p (bytes_at (kmem s) base len) (file_bytes (din sin) s) \<and>
    filesp t = filesp (moved fd (int (p + len)) s) \<and> vop_op n t = Some SfsFileOps \<and>
    scratch a t = scratch a s \<and> (\<forall>x. x \<notin> scratch a s \<longrightarrow> kmem t x = kmem s x)"
proof -
  let ?A = "acquired fd s" and ?iob = "iobuf_init base len (int p)"
  have io: "io_offset ?iob = int p" "io_resid ?iob = len" "io_base ?iob = base" by (simp_all add: iobuf_init_def)
  have "\<exists>u sin'. sfs_write n ?iob ?A = Some (0, advance (io_resid ?iob) ?iob, u) \<and>
      wrote_list a n sin ?A sin' u p (bytes_at (kmem ?A) (io_base ?iob) (io_resid ?iob))"
    by (rule sfs_write_spec) (use inv p room buf io in simp_all)
  then obtain u sin' where u: "sfs_write n ?iob ?A = Some (0, advance len ?iob, u)"
    "wrote_list a n sin ?A sin' u p (bytes_at (kmem s) base len)" unfolding io by auto
  note W = u(2) [unfolded wrote_list_def]
  have sb: "same_but a n ?A u" using W by blast
  have used: "iobuf_used (advance len ?iob) = len" by (simp add: iobuf_used_def iobuf_init_def)
  let ?t = "u\<lparr>filesp := filesp (moved fd (int p + int len) s)\<rparr>"
  have f: "fd_array (filesp s) ! nat fd = f \<Longrightarrow> writable f \<and> fnode f = n \<and> pos f = int p" for f
    using fd wr by (auto simp: fd_open_def mode_of_def Let_def)
  have "file_write fd base len s = Some (0, len, ?t)"
    using f [OF refl] fd2file_open [OF fd] acquire_open [OF fd] ops u(1) used
      release_after [OF fd same_but_outer(1) [OF sb], of len]
    by (simp add: file_write_def vop_write_def Let_def)
  moreover have "vop_op n ?t = Some SfsFileOps" using same_but_outer(2) [OF sb] ops by simp
  moreover have "scratch a ?t = scratch a s" using same_butD(5) [OF sb] by simp
  ultimately show ?thesis using W by (intro exI [of _ ?t] exI [of _ sin']) simp
qed

lemma file_read_spec:
  assumes fd: "fd_open fd n (int p) s" and rd: "fst (mode_of fd s)" and ops: "vop_op n s = Some SfsFileOps"
    and inv: "file_inv a n sin s" and p: "int p < SFS_MAX_FILE_SIZE" "p + len < 2 ^ 63"
    and ys: "ys = take len (drop p (file_bytes (din sin) s))"
    and buf: "{base..<base + length ys} \<inter> scratch a s = {}"
  shows "\<exists>t. file_read fd base len s = Some (0, length ys, t) \<and> bytes_at (kmem t) base (length ys) = ys \<and>
    filesp t = filesp (moved fd (int (p + length ys)) s) \<and>
    file_inv a n sin t \<and> file_bytes (din sin) t = file_bytes (din sin) s \<and>
    (\<forall>x. x \<notin> scratch a s \<longrightarrow> x \<notin> {base..<base + length ys} \<longrightarrow> kmem t x = kmem s x)"
proof -
  let ?A = "acquired fd s" and ?iob = "iobuf_init base len (int p)"
  have io: "io_offset ?iob = int p" "io_resid ?iob = len" "io_base ?iob = base" by (simp_all add: iobuf_init_def)
  have "\<exists>m. sfs_read n ?iob ?A = Some (0, advance (length ys) ?iob, ?A\<lparr>kmem := m\<rparr>) \<and>
    bytes_at m (io_base ?iob) (length ys) = ys \<and> touched a ?A {io_base ?iob..<io_base ?iob + length ys} m"
    by (rule sfs_read_list) (use inv p buf io ys in simp_all)
  then obtain m where m: "sfs_read n ?iob ?A = Some (0, advance (length ys) ?iob, ?A\<lparr>kmem := m\<rparr>)"
    "bytes_at m base (length ys) = ys" "touched a ?A {base..<base + length ys} m" unfolding io by blast
  have iA: "file_inv a n sin ?A" using inv by simp
  note B = file_bytes_touched [OF iA m(3)]
  have used: "iobuf_used (advance (length ys) ?iob) = length ys" using ys by (simp add: iobuf_used_def iobuf_init_def)
  have f: "fd_array (filesp s) ! nat fd = f \<Longrightarrow> readable f \<and> fnode f = n \<and> pos f = int p" for f
    using fd rd by (auto simp: fd_open_def mode_of_def Let_def)
  let ?t = "?A\<lparr>kmem := m, filesp := filesp (moved fd (int p + int (length ys)) s)\<rparr>"
  have "file_read fd base len s = Some (0, length ys, ?t)"
    using f [OF refl] fd2file_open [OF fd] acquire_open [OF fd] ops m(1) used
      release_after [OF fd, of "?A\<lparr>kmem := m\<rparr>" "length ys"]
    by (simp add: file_read_def vop_read_def Let_def)
  moreover have "\<forall>x. x \<notin> scratch a s \<longrightarrow> x \<notin> {base..<base + length ys} \<longrightarrow> m x = kmem s x"
    using m(3) by (simp add: touched_def)
  ultimately show ?thesis using m(2) B by (intro exI [of _ ?t]) simp
qed

lemma file_seek_spec:
  assumes fd: "fd_open fd n p s" and ops: "vop_op n s = Some SfsFileOps" and inv: "file_inv a n sin s"
    and q: "q \<le> unat (isz (din sin))"
  shows "file_seek fd (int q) LSEEK_SET s = Some (0, moved fd (int q) s)"
proof -
  let ?A = "acquired fd s" and ?k = "nat fd"
  note I = file_invD [OF inv]
  have f: "fd_array (filesp s) ! ?k = f \<Longrightarrow> fnode f = n" for f
    using fd by (auto simp: fd_open_def Let_def)
  have "int q < SFS_MAX_FILE_SIZE" using q I(7) by (simp add: SFS_MAX_FILE_SIZE_def)
  moreover have "\<not> uint (isz (din sin)) < int q" unfolding uint_nat using q by linarith
  ultimately have sk: "vop_tryseek n (int q) ?A = Some (0, ?A)"
    using ops I(6) by (simp add: vop_tryseek_def sfs_tryseek_def)
  have rel: "with_file ?k fd_array_release (set_file ?k ((fd_array (filesp ?A) ! ?k)\<lparr>pos := int q\<rparr>) ?A) =
      Some (moved fd (int q) s)"
    using fd by (simp add: fd_open_def acquired_def moved_def with_file_def fd_array_release_def
        set_file_def fopen_count_inc_def fopen_count_dec_def Let_def)
  show ?thesis
    using f [OF refl] fd2file_open [OF fd] acquire_open [OF fd] sk rel by (simp add: file_seek_def Let_def)
qed

lemma moved_simps [simp]:
  "vop_op n (moved fd q s) = vop_op n s" "file_inv a n sin (moved fd q s) = file_inv a n sin s"
  "file_bytes d (moved fd q s) = file_bytes d s" "scratch a (moved fd q s) = scratch a s"
  "kmem (moved fd q s) = kmem s"
  by (simp_all add: moved_def set_file_def)

lemma fd_open_filesp: "filesp t = filesp s \<Longrightarrow> fd_open fd n p t = fd_open fd n p s"
  by (simp add: fd_open_def)

lemma mode_of_filesp: "filesp t = filesp s \<Longrightarrow> mode_of fd t = mode_of fd s"
  by (simp add: mode_of_def)

section \<open>The table and the counts of the nodes\<close>

definition openings :: "addr \<Rightarrow> ofile list \<Rightarrow> nat set" where
  "openings n tab = {k. k < length tab \<and> status (tab ! k) = FD_OPENED \<and> fnode (tab ! k) = n}"

text \<open>
  \<open>files_inv s\<close>: every entry knows its number; it is used by nobody while it is closed and by
  at least one user while it is open; open entries have a node; and the open count of a node is
  at least the number of entries open on it and at most its reference count.
\<close>

definition files_inv :: "kfs \<Rightarrow> bool" where
  "files_inv s \<longleftrightarrow> (let tab = fd_array (filesp s) in
     length tab = FILES_STRUCT_NENTRY \<and> files_count (filesp s) > 0 \<and>
     (\<forall>k<length tab. fdno (tab ! k) = int k \<and> (status (tab ! k) = FD_NONE \<longrightarrow> fopen_count (tab ! k) = 0) \<and>
        (status (tab ! k) = FD_OPENED \<longrightarrow> fopen_count (tab ! k) > 0 \<and> fnode (tab ! k) \<noteq> 0 \<and>
           inodes s (fnode (tab ! k)) \<noteq> None)) \<and>
     (\<forall>n i. inodes s n = Some i \<longrightarrow> int (card (openings n tab)) \<le> open_count i \<and> open_count i \<le> ref_count i))"

lemma finite_openings [simp]: "finite (openings n tab)"
  by (simp add: openings_def)

lemma openings_update:
  assumes "k < length tab" and "status (tab ! k) \<noteq> FD_OPENED" and "status f = FD_OPENED"
  shows "openings n (tab[k := f]) = (if fnode f = n then insert k (openings n tab) else openings n tab)"
  using assms by (auto simp: openings_def nth_list_update)

lemma openings_same:
  assumes "k < length tab" and "status (tab ! k) \<noteq> FD_OPENED" and "status f \<noteq> FD_OPENED"
  shows "openings n (tab[k := f]) = openings n tab"
  using assms by (auto simp: openings_def nth_list_update)

lemma find_free_None: "find_free_file fd tab = None \<Longrightarrow> f \<in> set tab \<Longrightarrow> status f \<noteq> FD_NONE"
  by (induction tab arbitrary: fd) (auto split: if_splits)

lemma find_free_Some:
  "find_free_file fd tab = Some k \<Longrightarrow>
    \<exists>j. k = fd + j \<and> j < length tab \<and> status (tab ! j) = FD_NONE \<and> (\<forall>i<j. status (tab ! i) \<noteq> FD_NONE)"
proof (induction tab arbitrary: fd)
  case (Cons f tab)
  show ?case
  proof (cases "status f = FD_NONE")
    case True
    then show ?thesis using Cons.prems by (intro exI [of _ 0]) simp
  next
    case False
    then have "find_free_file (Suc fd) tab = Some k" using Cons.prems by simp
    from Cons.IH [OF this] obtain j
      where "k = Suc fd + j" "j < length tab" "status (tab ! j) = FD_NONE" "\<forall>i<j. status (tab ! i) \<noteq> FD_NONE" by blast
    then show ?thesis using False by (intro exI [of _ "Suc j"]) (simp add: All_less_Suc2)
  qed
qed simp

text \<open>What allocating an entry does: it finds one that is free, or leaves the table alone.\<close>

lemma fd_array_alloc_spec:
  assumes inv: "files_inv s"
  shows "\<exists>ret k t. fd_array_alloc fd s = Some (ret, k, t) \<and>
    (if ret = 0 then k < FILES_STRUCT_NENTRY \<and> status (fd_array (filesp s) ! k) = FD_NONE \<and>
       (fd \<noteq> NO_FD \<longrightarrow> int k = fd) \<and> t = set_file k ((fd_array (filesp s) ! k)\<lparr>status := FD_INIT, fnode := 0\<rparr>) s
     else ret \<in> {- E_MAX_OPEN, - E_BUSY, - E_INVAL} \<and> t = s)"
proof -
  let ?tab = "fd_array (filesp s)"
  have T: "length ?tab = FILES_STRUCT_NENTRY" "files_count (filesp s) > 0"
    "\<And>k. k < length ?tab \<Longrightarrow> status (?tab ! k) = FD_NONE \<Longrightarrow> fopen_count (?tab ! k) = 0"
    using inv by (auto simp: files_inv_def Let_def)
  note E = E_MAX_OPEN_def E_BUSY_def E_INVAL_def
  show ?thesis
  proof (cases "fd = NO_FD")
    case True
    show ?thesis
    proof (cases "find_free_file 0 ?tab")
      case None
      then show ?thesis using True T by (simp add: fd_array_alloc_def get_fd_array_def E)
    next
      case (Some k)
      from find_free_Some [OF this] have "k < length ?tab" "status (?tab ! k) = FD_NONE" by auto
      then show ?thesis using True Some T by (simp add: fd_array_alloc_def get_fd_array_def)
    qed
  next
    case False
    show ?thesis
    proof (cases "testfd fd \<and> status (?tab ! nat fd) = FD_NONE")
      case True
      then have "nat fd < length ?tab" "int (nat fd) = fd" using T(1) by (auto simp: testfd_def)
      then show ?thesis using True False T by (simp add: fd_array_alloc_def get_fd_array_def)
    next
      case nf: False
      then show ?thesis using False T by (auto simp: fd_array_alloc_def get_fd_array_def E)
    qed
  qed
qed

text \<open>
  The file of the demo at address 9, open for reading and writing as descriptor 3, and the
  directory node 11, open for reading as descriptor 4.
\<close>

definition demo_entry :: "fd_status \<Rightarrow> bool \<Rightarrow> int \<Rightarrow> addr \<Rightarrow> ofile" where
  "demo_entry st wr fd n =
     \<lparr>status = st, readable = True, writable = wr, fdno = fd, pos = 0, fnode = n,
      fopen_count = (if st = FD_OPENED then 1 else 0)\<rparr>"

definition demo_table :: files_struct where
  "demo_table = \<lparr>pwd = 0, fd_array = (map (\<lambda>i. demo_entry FD_NONE False (int i) 0) [0..<FILES_STRUCT_NENTRY])
     [3 := demo_entry FD_OPENED True 3 9, 4 := demo_entry FD_OPENED False 4 11],
     files_count = 1, files_sem = 1\<rparr>"

definition demo_open :: kfs where
  "demo_open = demo_file\<lparr>filesp := demo_table\<rparr>"

lemma demo_files:
  "fd_array demo_table ! 3 = demo_entry FD_OPENED True 3 9"
  "fd_array demo_table ! 4 = demo_entry FD_OPENED False 4 11"
  "length (fd_array demo_table) = 72" "files_count demo_table = 1"
  by (simp_all add: demo_table_def FILES_STRUCT_NENTRY_def FILES_STRUCT_BUFSIZE_def)

lemma demo_fd_open: "fd_open 3 9 0 demo_open" "fd_open 4 11 0 demo_open" "mode_of 3 demo_open = (True, True)"
  "mode_of 4 demo_open = (True, False)" "vop_op 9 demo_open = Some SfsFileOps" "vop_op 11 demo_open = Some SfsDirOps"
  by (simp_all add: fd_open_def demo_open_def demo_files demo_entry_def mode_of_def testfd_def vop_op_def
      inode_check_def FILES_STRUCT_NENTRY_def FILES_STRUCT_BUFSIZE_def Let_def)
     (simp_all add: demo_file_def)

section \<open>Properties\<close>

text \<open>
  C10: Through a descriptor open for reading and writing on a file, at a position not past its
  end: \<^verbatim>\<open>file_write\<close> writes all bytes and advances the position by their number, \<^verbatim>\<open>file_seek\<close>
  back to the old position succeeds, and \<^verbatim>\<open>file_read\<close> of as many bytes returns what was
  written and leaves the position behind them. Every call returns 0.
\<close>

theorem write_seek_read:
  assumes fd: "fd_open fd n (int p) s" and md: "mode_of fd s = (True, True)" and ops: "vop_op n s = Some SfsFileOps"
    and inv: "file_inv a n sin s" and p: "p \<le> unat (isz (din sin))"
    and room: "room a s (unat (blocks (din sin))) (ROUNDUP_DIV (p + len) SFS_BLKSIZE)"
    and b: "{base..<base + len} \<inter> scratch a s = {}" and b': "{base'..<base' + len} \<inter> scratch a s = {}"
  shows "\<exists>t t' u. file_write fd base len s = Some (0, len, t) \<and> fd_open fd n (int (p + len)) t \<and>
    file_seek fd (int p) LSEEK_SET t = Some (0, t') \<and> fd_open fd n (int p) t' \<and>
    file_read fd base' len t' = Some (0, len, u) \<and> fd_open fd n (int (p + len)) u \<and>
    bytes_at (kmem u) base' len = bytes_at (kmem s) base len"
proof -
  let ?ys = "bytes_at (kmem s) base len"
  have "snd (mode_of fd s)" using md by simp
  from file_write_spec [OF fd this ops inv p room b] obtain t sin'
    where t: "file_write fd base len s = Some (0, len, t)" "file_inv a n sin' t"
      "file_bytes (din sin') t = overwrite p ?ys (file_bytes (din sin) s)"
      "filesp t = filesp (moved fd (int (p + len)) s)" "vop_op n t = Some SfsFileOps" "scratch a t = scratch a s"
    by blast
  have ft: "fd_open fd n (int (p + len)) t" using fd_open_filesp [OF t(4)] moved_open(1) [OF fd] by blast
  have mt: "mode_of fd t = (True, True)" using mode_of_filesp [OF t(4)] moved_open(2) md by simp
  have "length (file_bytes (din sin') t) = max (unat (isz (din sin))) (p + len)"
    unfolding t(3) using p by (simp add: length_overwrite)
  then have sz: "unat (isz (din sin')) = max (unat (isz (din sin))) (p + len)" by simp
  have sk: "file_seek fd (int p) LSEEK_SET t = Some (0, moved fd (int p) t)"
    by (rule file_seek_spec [OF ft t(5,2)]) (use sz in simp)
  let ?t' = "moved fd (int p) t"
  note fo = moved_open(1) [OF ft, of "int p"]
  have ys: "?ys = take len (drop p (file_bytes (din sin') ?t'))" using t(3) p by (simp add: overwrite_def)
  note e = room_max [OF room]
  have "\<exists>u. file_read fd base' len ?t' = Some (0, length ?ys, u) \<and> bytes_at (kmem u) base' (length ?ys) = ?ys \<and>
    filesp u = filesp (moved fd (int (p + length ?ys)) ?t') \<and>
    file_inv a n sin' u \<and> file_bytes (din sin') u = file_bytes (din sin') ?t' \<and>
    (\<forall>x. x \<notin> scratch a ?t' \<longrightarrow> x \<notin> {base'..<base' + length ?ys} \<longrightarrow> kmem u x = kmem ?t' x)"
  proof (rule file_read_spec [OF fo _ _ _ _ _ ys])
    show "int p < SFS_MAX_FILE_SIZE" "p + len < 2 ^ 63" using e by (simp_all add: SFS_MAX_FILE_SIZE_def)
  qed (use mt moved_open(2) t(2,5,6) b' in simp_all)
  then obtain u where u: "file_read fd base' len ?t' = Some (0, len, u)" "bytes_at (kmem u) base' len = ?ys"
    "filesp u = filesp (moved fd (int (p + len)) ?t')" by auto
  have "fd_open fd n (int (p + len)) u" using fd_open_filesp [OF u(3)] moved_open(1) [OF fo] by blast
  with t(1) ft sk fo u(1,2) show ?thesis by blast
qed

theorem write_seek_read_witness:
  "\<exists>t t' u. file_write 3 24576 5000 demo_open = Some (0, 5000, t) \<and> file_seek 3 0 LSEEK_SET t = Some (0, t') \<and>
    file_read 3 36864 5000 t' = Some (0, 5000, u) \<and> bytes_at (kmem u) 36864 5000 = bytes_at of_nat 24576 5000"
proof -
  have fd: "fd_open 3 9 (int 0) demo_open" using demo_fd_open(1) by simp
  have s: "scratch 7 demo_open = scratch 7 demo_file" "kmem demo_open = of_nat" by (simp_all add: demo_open_def)
  have b: "{24576..<24576 + 5000} \<inter> scratch 7 demo_open = {}" "{36864..<36864 + 5000} \<inter> scratch 7 demo_open = {}"
    unfolding s demo_file_inv(2) by auto
  have r: "room 7 demo_open (unat (blocks (din demo_sin))) (ROUNDUP_DIV (0 + 5000) SFS_BLKSIZE)"
    using demo_file_inv(3) by (simp add: demo_open_def room_def ROUNDUP_DIV_def demo_sin_def)
  have "file_inv 7 9 demo_sin demo_open" using demo_file_inv(1) by (simp add: demo_open_def)
  from write_seek_read [OF fd demo_fd_open(3,5) this _ r b] s(2) show ?thesis by auto
qed

text \<open>
  A program can panic the kernel with a directory: reading from a descriptor that is open
  on a directory, or seeking in it, runs into the assertion of \<^verbatim>\<open>__vop_op\<close>, since the table of
  directories has neither \<^verbatim>\<open>vop_read\<close> nor \<^verbatim>\<open>vop_tryseek\<close>. No error code is returned.
\<close>

theorem directory_read_panics:
  assumes fd: "fd_open fd n p s" and rd: "fst (mode_of fd s)" and ops: "vop_op n s = Some SfsDirOps"
  shows "file_read fd base len s = None \<and> file_seek fd q LSEEK_SET s = None"
proof -
  have f: "fd_array (filesp s) ! nat fd = f \<Longrightarrow> readable f \<and> fnode f = n" for f
    using fd rd by (auto simp: fd_open_def mode_of_def Let_def)
  show ?thesis
    using f [OF refl] fd2file_open [OF fd] acquire_open [OF fd] ops
    by (simp_all add: file_read_def file_seek_def vop_read_def vop_tryseek_def Let_def)
qed

theorem directory_read_panics_witness:
  "file_read 4 24576 10 demo_open = None \<and> file_seek 4 0 LSEEK_SET demo_open = None"
  using directory_read_panics [OF demo_fd_open(2) _ demo_fd_open(6)] demo_fd_open(4) by simp

text \<open>A free slot \<open>k\<close> becomes an open file on node \<open>n\<close>, whose counts grow.\<close>

lemma open_slot_inv:
  assumes inv: "files_inv s" and k: "k < length (fd_array (filesp s))" "status (fd_array (filesp s) ! k) = FD_NONE"
    and n: "inodes s n = Some i" "n \<noteq> 0"
    and f: "fdno f = int k" "status f = FD_OPENED" "fnode f = n" "fopen_count f = 1"
  shows "files_inv (s\<lparr>inodes := (inodes s)(n \<mapsto> i\<lparr>ref_count := ref_count i + 1, open_count := open_count i + 1\<rparr>),
    filesp := (filesp s)\<lparr>fd_array := (fd_array (filesp s))[k := f]\<rparr>\<rparr>)"
proof -
  let ?tab = "fd_array (filesp s)" and ?i = "i\<lparr>ref_count := ref_count i + 1, open_count := open_count i + 1\<rparr>"
  have T: "length ?tab = FILES_STRUCT_NENTRY" "files_count (filesp s) > 0"
    "\<And>k. k < length ?tab \<Longrightarrow> fdno (?tab ! k) = int k \<and> (status (?tab ! k) = FD_NONE \<longrightarrow> fopen_count (?tab ! k) = 0) \<and>
        (status (?tab ! k) = FD_OPENED \<longrightarrow> fopen_count (?tab ! k) > 0 \<and> fnode (?tab ! k) \<noteq> 0 \<and>
           inodes s (fnode (?tab ! k)) \<noteq> None)"
    "\<And>n i. inodes s n = Some i \<Longrightarrow> int (card (openings n ?tab)) \<le> open_count i \<and> open_count i \<le> ref_count i"
    using inv by (auto simp: files_inv_def Let_def)
  have op: "openings m (?tab[k := f]) = (if n = m then insert k (openings m ?tab) else openings m ?tab)" for m
    using openings_update [OF k(1), of f m] k(2) f(2,3) by simp
  have kn: "k \<notin> openings m ?tab" for m using k(2) by (simp add: openings_def)
  have cnt: "int (card (openings m (?tab[k := f]))) \<le> open_count j \<and> open_count j \<le> ref_count j"
    if "((inodes s)(n \<mapsto> ?i)) m = Some j" for m j
  proof (cases "n = m")
    case True
    then show ?thesis using that T(4) [OF n(1)] kn by (auto simp: op)
  next
    case False
    then show ?thesis using that T(4) [of m j] by (auto simp: op)
  qed
  have ent: "fdno (?tab[k := f] ! j) = int j \<and>
      (status (?tab[k := f] ! j) = FD_NONE \<longrightarrow> fopen_count (?tab[k := f] ! j) = 0) \<and>
      (status (?tab[k := f] ! j) = FD_OPENED \<longrightarrow> fopen_count (?tab[k := f] ! j) > 0 \<and>
         fnode (?tab[k := f] ! j) \<noteq> 0 \<and> ((inodes s)(n \<mapsto> ?i)) (fnode (?tab[k := f] ! j)) \<noteq> None)"
    if "j < length ?tab" for j
    using T(3) [OF that] f n(2) that by (cases "j = k") auto
  show ?thesis unfolding files_inv_def Let_def using T(1,2) cnt ent by simp
qed

text \<open>
  C11: \<^verbatim>\<open>file_dup\<close> never panics and keeps the invariant of the table for any two descriptors. It
  fails with \<^verbatim>\<open>-E_INVAL\<close>, \<^verbatim>\<open>-E_BUSY\<close> or \<^verbatim>\<open>-E_MAX_OPEN\<close> and then changes nothing, or returns a
  descriptor that was free and is now open on the same node at the same position, for which
  the reference and open counts of the node have grown by one.
\<close>

theorem file_dup_keeps_inv:
  assumes inv: "files_inv s"
  shows "\<exists>ret t. file_dup fd1 fd2 s = Some (ret, t) \<and> files_inv t \<and>
    (ret < 0 \<and> t = s \<and> ret \<in> {- E_INVAL, - E_BUSY, - E_MAX_OPEN} \<or>
     (\<exists>n p i. fd_open fd1 n p s \<and> status (fd_array (filesp s) ! nat ret) = FD_NONE \<and>
        (fd2 \<noteq> NO_FD \<longrightarrow> ret = fd2) \<and> fd_open ret n p t \<and> fd_open fd1 n p t \<and> mode_of ret t = mode_of fd1 s \<and>
        inodes s n = Some i \<and>
        inodes t = (inodes s)(n \<mapsto> i\<lparr>ref_count := ref_count i + 1, open_count := open_count i + 1\<rparr>)))"
proof -
  let ?tab = "fd_array (filesp s)"
  have T: "length ?tab = FILES_STRUCT_NENTRY" "files_count (filesp s) > 0"
    "\<And>k. k < length ?tab \<Longrightarrow> fdno (?tab ! k) = int k \<and> (status (?tab ! k) = FD_NONE \<longrightarrow> fopen_count (?tab ! k) = 0) \<and>
        (status (?tab ! k) = FD_OPENED \<longrightarrow> fopen_count (?tab ! k) > 0 \<and> fnode (?tab ! k) \<noteq> 0 \<and>
           inodes s (fnode (?tab ! k)) \<noteq> None)"
    "\<And>n i. inodes s n = Some i \<Longrightarrow> int (card (openings n ?tab)) \<le> open_count i \<and> open_count i \<le> ref_count i"
    using inv by (auto simp: files_inv_def Let_def)
  note E = E_MAX_OPEN_def E_BUSY_def E_INVAL_def
  show ?thesis
  proof (cases "testfd fd1 \<and> status (?tab ! nat fd1) = FD_OPENED \<and> fdno (?tab ! nat fd1) = fd1")
    case False
    then have "fd2file fd1 s = Some (- E_INVAL, 0)" using T(2) by (auto simp: fd2file_def get_fd_array_def)
    then show ?thesis using inv by (simp add: file_dup_def E)
  next
    case True
    let ?k1 = "nat fd1"
    have k1: "?k1 < length ?tab" "int ?k1 = fd1" using True T(1) by (auto simp: testfd_def)
    obtain i where i: "inodes s (fnode (?tab ! ?k1)) = Some i" "fnode (?tab ! ?k1) \<noteq> 0" "fopen_count (?tab ! ?k1) > 0"
      using T(3) [OF k1(1)] True by auto
    let ?n = "fnode (?tab ! ?k1)"
    have f1: "fd2file fd1 s = Some (0, ?k1)" using True T(2) by (simp add: fd2file_def get_fd_array_def)
    from fd_array_alloc_spec [OF inv, of fd2] obtain ret k t where a: "fd_array_alloc fd2 s = Some (ret, k, t)"
      "if ret = 0 then k < FILES_STRUCT_NENTRY \<and> status (?tab ! k) = FD_NONE \<and>
         (fd2 \<noteq> NO_FD \<longrightarrow> int k = fd2) \<and> t = set_file k ((?tab ! k)\<lparr>status := FD_INIT, fnode := 0\<rparr>) s
       else ret \<in> {- E_MAX_OPEN, - E_BUSY, - E_INVAL} \<and> t = s" by blast
    show ?thesis
    proof (cases "ret = 0")
      case False
      then show ?thesis using a f1 inv by (auto simp: file_dup_def E)
    next
      case r: True
      then have k: "k < length ?tab" "status (?tab ! k) = FD_NONE" "fd2 \<noteq> NO_FD \<longrightarrow> int k = fd2"
        "t = set_file k ((?tab ! k)\<lparr>status := FD_INIT, fnode := 0\<rparr>) s" using a(2) T(1) by auto
      have ne: "?k1 \<noteq> k" using True k(2) by auto
      let ?f = "(?tab ! k)\<lparr>pos := pos (?tab ! ?k1), readable := readable (?tab ! ?k1),
          writable := writable (?tab ! ?k1), fnode := ?n, status := FD_OPENED, fopen_count := fopen_count (?tab ! k) + 1\<rparr>"
      let ?i = "i\<lparr>ref_count := ref_count i + 1, open_count := open_count i + 1\<rparr>"
      let ?u = "s\<lparr>inodes := (inodes s)(?n \<mapsto> ?i), filesp := (filesp s)\<lparr>fd_array := ?tab[k := ?f]\<rparr>\<rparr>"
      have fk: "fdno (?tab ! k) = int k" "fopen_count (?tab ! k) = 0" using T(3) [OF k(1)] k(2) by auto
      have ie: "open_count_update (\<lambda>n. n + 1) (ref_count_update (\<lambda>n. n + 1) i) = ?i" by (cases i) simp
      have d: "file_dup fd1 fd2 s = Some (int k, ?u)"
        using f1 a(1) r k True ne i fk
        by (simp add: file_dup_def set_file_def fd_array_dup_def inode_ref_inc_def inode_open_inc_def upd_inode_def
            fd_array_open_def fopen_count_inc_def Let_def ie)
      have "files_inv ?u" using open_slot_inv [OF inv k(1,2) i(1,2), of ?f] fk by simp
      moreover have "testfd (int k)" using k(1) T(1) by (simp add: testfd_def)
      moreover have "fd_open fd1 ?n (pos (?tab ! ?k1)) s" using True k1 T(2) i by (simp add: fd_open_def)
      ultimately show ?thesis using d k i(1) ne fk T(2) True k1 i(3)
        by (intro exI [of _ "int k"] exI [of _ ?u] conjI disjI2 exI [of _ ?n] exI [of _ "pos (?tab ! ?k1)"] exI [of _ i])
           (simp_all add: fd_open_def mode_of_def)
    qed
  qed
qed

lemma demo_files_inv: "files_inv demo_open"
proof -
  let ?tab = "fd_array demo_table"
  have t: "k < 72 \<Longrightarrow> ?tab ! k = (if k = 4 then demo_entry FD_OPENED False 4 11
      else if k = 3 then demo_entry FD_OPENED True 3 9 else demo_entry FD_NONE False (int k) 0)" for k
    by (simp add: demo_table_def FILES_STRUCT_NENTRY_def FILES_STRUCT_BUFSIZE_def nth_list_update)
  have "openings n ?tab = (if n = 9 then {3} else if n = 11 then {4} else {})" for n
    unfolding openings_def demo_files(3) by (auto simp: t demo_entry_def split: if_splits)
  then show ?thesis
    unfolding files_inv_def Let_def
    by (simp add: demo_open_def demo_files t demo_entry_def)
       (simp add: demo_file_def demo_fs_state_def FILES_STRUCT_NENTRY_def FILES_STRUCT_BUFSIZE_def)
qed

theorem file_dup_keeps_inv_witness:
  "\<exists>ret t. file_dup 3 NO_FD demo_open = Some (ret, t) \<and> files_inv t"
  using file_dup_keeps_inv [OF demo_files_inv] by blast

end
