(* ===== verification/SfsMeta.thy ===== *)
theory SfsMeta
  imports SfsDir
begin

text \<open>
  What the operations on blocks and inodes do: allocating and freeing, writing an inode to its
  block and loading it from there, searching a directory, and the error cases of reading and
  writing.
\<close>

section \<open>Blocks\<close>

lemma blk_upd_fs [simp]: "blk (upd_fs a g s) = blk s"
  by (rule ext) (simp add: blk_def)

lemma free_blocks_Some: "fss s a = Some f \<Longrightarrow> free_blocks a s = free_set (freemap f)"
  by (simp add: free_blocks_def)

lemma fs_wf_obtain:
  assumes "fs_wf a s"
  obtains f where "fss s a = Some f"
  using assms by (auto simp: fs_wf_def split: option.splits)

text \<open>
  C13: \<^verbatim>\<open>sfs_block_alloc\<close> on a well-formed file system either reports \<^verbatim>\<open>-E_NO_MEM\<close>, and only
  when no block is free, or takes a free block, clears it and changes no other block;
  \<^verbatim>\<open>sfs_block_free\<close> of that block then restores the set of free blocks. After each call the
  free map lies within the file system and \<^verbatim>\<open>unused_blocks\<close> is the number of free blocks.
\<close>

theorem sfs_block_alloc_free:
  assumes wf: "fs_wf a s"
  shows "if free_blocks a s = {} then sfs_block_alloc a s = Some (- E_NO_MEM, 0, s)
    else \<exists>i t u. sfs_block_alloc a s = Some (0, i, t) \<and> unat i \<in> free_blocks a s \<and> fs_wf a t \<and>
      free_blocks a t = free_blocks a s - {unat i} \<and> blk t (unat i) = replicate SFS_BLKSIZE 0 \<and>
      (\<forall>b<disk_blocks s. b \<noteq> unat i \<longrightarrow> blk t b = blk s b) \<and>
      sfs_block_free a i t = Some u \<and> fs_wf a u \<and> free_blocks a u = free_blocks a s"
proof -
  obtain f where f: "fss s a = Some f" by (rule fs_wf_obtain [OF wf])
  note fb = free_blocks_Some [OF f]
  show ?thesis
  proof (cases "free_set (freemap f) = {}")
    case True
    then show ?thesis using sfs_block_alloc_spec [OF wf f] fb by simp
  next
    case False
    let ?n = "unused_blocks (super f) - 1"
    from sfs_block_alloc_spec [OF wf f, unfolded if_not_P [OF False]] obtain i b m
      where al: "sfs_block_alloc a s = Some (0, i, (upd_fs a (with_map b ?n) s)\<lparr>kmem := m\<rparr>)"
        "i \<noteq> 0" "i < sblocks (super f)" "unat i \<in> free_set (freemap f)" "wf_bitmap b"
        "nbits b = nbits (freemap f)" "free_set b = free_set (freemap f) - {unat i}"
        "unat ?n = card (free_set b)" "blk_of s m (unat i) = replicate SFS_BLKSIZE 0"
        "\<forall>b'<disk_blocks s. b' \<noteq> unat i \<longrightarrow> blk_of s m b' = blk s b'" by blast
    let ?t = "(upd_fs a (with_map b ?n) s)\<lparr>kmem := m\<rparr>" and ?f = "with_map b ?n f"
    have wt: "fs_wf a ?t"
      using fs_wf_with_map [OF wf f al(5,6) _ al(8)] fs_wfD(5) [OF wf f] al(7) by simp
    have ft: "fss ?t a = Some ?f" using f by simp
    have fr: "unat i \<notin> free_set (freemap ?f)" using al(7) by simp
    from sfs_block_free_spec [OF wt ft al(2) _ fr] al(3) obtain b'
      where b': "sfs_block_free a i ?t = Some (upd_fs a (with_map b' (unused_blocks (super ?f) + 1)) ?t)"
        "wf_bitmap b'" "nbits b' = nbits b" "free_set b' = insert (unat i) (free_set b)"
        "unat (unused_blocks (super ?f) + 1) = card (free_set b')" by auto
    let ?u = "upd_fs a (with_map b' (unused_blocks (super ?f) + 1)) ?t"
    have wu: "fs_wf a ?u"
      by (rule fs_wf_with_map [OF wt ft b'(2) _ _ b'(5)])
         (use b'(3,4) al(4,7) fs_wfD(5) [OF wf f] in auto)
    have "free_blocks a ?t = free_blocks a s - {unat i}" "free_blocks a ?u = free_blocks a s"
      using ft f al(4,7) b'(4) by (auto simp: free_blocks_def)
    moreover have "blk ?t x = blk_of s m x" for x by (simp add: blk_def)
    ultimately show ?thesis using False fb al wt b'(1) wu by auto
  qed
qed

theorem sfs_block_alloc_free_witness:
  "\<exists>i t u. sfs_block_alloc 7 demo_file = Some (0, i, t) \<and> sfs_block_free 7 i t = Some u \<and>
    free_blocks 7 u = {4..<8}"
proof -
  have "free_blocks 7 demo_file = {4..<8}" by (simp add: free_blocks_def) (simp add: demo_sfs_def demo_free)
  moreover have "fs_wf 7 demo_file" using file_okD(1) [OF file_invD(1) [OF demo_file_inv(1)]] .
  ultimately show ?thesis using sfs_block_alloc_free [of 7 demo_file] by auto
qed

section \<open>The inode on disk\<close>

lemma unlock_sin_locked_upd:
  assumes "vop_sin n s = Some sin" and "g (sin\<lparr>sin_sem := sin_sem sin - 1\<rparr>) = h sin\<lparr>sin_sem := sin_sem sin - 1\<rparr>"
    and "sin_sem (h sin) = sin_sem sin"
  shows "unlock_sin n ((upd_sin n g (sin_locked n sin s))\<lparr>kmem := m\<rparr>) = (upd_sin n h s)\<lparr>kmem := m\<rparr>"
proof -
  have "upd_sin n (sin_sem_update (\<lambda>n. n + 1) \<circ> (g \<circ> sin_sem_update (\<lambda>_. sin_sem sin - 1))) s = upd_sin n h s"
    by (rule upd_sin_cong [OF assms(1)]) (use assms(2,3) in simp)
  then show ?thesis by (simp add: unlock_sin_def sin_locked_def upd_sin_kmem upd_sin_comp)
qed

lemma length_din_64: "length (direct d) = 12 \<Longrightarrow> length (din_bytes d) = 64"
  using length_din_bytes [of d] by (simp add: layout)

lemma sfs_fsync_spec:
  assumes wf: "fs_wf a s" and lo: "locals_ok a s" and sin: "vop_sin n s = Some sin" and fs: "vop_sfs n s = Some a"
    and sem: "sin_sem sin > 0" and use: "used_block a s (ino sin)" and l: "length (direct (din sin)) = 12"
    and d: "dirty sin"
  shows "\<exists>m. sfs_fsync n s = Some (0, (upd_sin n (dirty_update (\<lambda>_. False)) s)\<lparr>kmem := m\<rparr>) \<and>
    bytes_din (blk_of s m (unat (ino sin))) = din sin \<and>
    (\<forall>b<disk_blocks s. b \<noteq> unat (ino sin) \<longrightarrow> blk_of s m b = blk s b) \<and>
    (\<forall>x. x \<notin> scratch a s \<longrightarrow> m x = kmem s x)"
proof -
  obtain f where f: "fss s a = Some f" "fs_dev_ok a s" "io_sem f > 0" "ino sin \<noteq> 0"
    "unat (ino sin) < unat (sblocks (super f))" by (rule used_blockD [OF wf use])
  let ?L = "sin_locked n sin s" and ?b = "din_bytes (din sin)"
  let ?C = "upd_sin n (dirty_update (\<lambda>_. False)) ?L"
  let ?M = "?C\<lparr>kmem := store_bytes (locals s) ?b (kmem s)\<rparr>"
  have lb: "length ?b = 64" by (rule length_din_64 [OF l])
  have st: "{locals s..<locals s + 64} \<inter> io_area ?M (sfs_buffer f) = {}"
    using lo f(1) by (simp add: locals_ok_def sin_locked_def io_area_def)
  have ok: "fs_dev_ok a ?M" "fss ?M a = Some f" using f by (simp_all add: sin_locked_def)
  from sfs_wbuf_spec [OF ok f(3-5) _ _ st, of 0] obtain m
    where m: "sfs_wbuf a (locals s) 64 (ino sin) 0 ?M = Some (0, ?M\<lparr>kmem := m\<rparr>)"
      "blk_of ?M m (unat (ino sin)) = bytes_at (kmem ?M) (locals s) 64 @ drop 64 (blk ?M (unat (ino sin)))"
      "\<forall>b<disk_blocks ?M. b \<noteq> unat (ino sin) \<longrightarrow> blk_of ?M m b = blk ?M b" "quiet ?M (sfs_buffer f) m"
    by auto
  have same: "blk_of ?M m b = blk_of s m b" "blk ?M b = blk_of s (store_bytes (locals s) ?b (kmem s)) b" for b m
    by (simp_all add: blk_def sin_locked_def)
  have stored: "blk_of s (store_bytes (locals s) ?b (kmem s)) b = blk s b" if "b < disk_blocks s" for b
    using store_bytes_disk [OF wf lo, of ?b] that lb by (simp add: touched_def)
  have byt: "bytes_at (kmem ?M) (locals s) 64 = ?b"
    using bytes_at_store [of "locals s" ?b "kmem s"] lb by simp
  have dn: "bytes_din (blk_of s m (unat (ino sin))) = din sin"
    using m(2) unfolding byt same(1) using bytes_din_roundtrip [of "din sin"] l by (simp add: layout)
  have rest: "\<forall>b<disk_blocks s. b \<noteq> unat (ino sin) \<longrightarrow> blk_of s m b = blk s b"
    using m(3) stored unfolding same by (simp add: sin_locked_def)
  have out: "m x = kmem s x" if "x \<notin> scratch a s" for x
    using m(4) that f(1) lb
    by (auto simp: quiet_def scratch_def store_bytes_def io_area_def sin_locked_def)
  have un: "unlock_sin n (?C\<lparr>kmem := m\<rparr>) = (upd_sin n (dirty_update (\<lambda>_. False)) s)\<lparr>kmem := m\<rparr>"
    by (rule unlock_sin_locked_upd [OF sin]) simp_all
  have v: "vop_sin n ?L = Some (sin\<lparr>sin_sem := sin_sem sin - 1\<rparr>)" using sin by (simp add: sin_locked_def)
  have lk: "lock_sin n s = Some ?L" by (rule lock_sin_Some [OF sin sem])
  have lc: "locals ?L = locals s" "kmem ?L = kmem s" by (simp_all add: sin_locked_def)
  have "sfs_fsync n s = Some (0, unlock_sin n (?C\<lparr>kmem := m\<rparr>))"
    using m(1) by (simp add: sfs_fsync_def fs sin d lk v lc)
  with un dn rest out show ?thesis by auto
qed

text \<open>
  \<^verbatim>\<open>sfs_fsync\<close> of a dirty inode puts it on the disk: the block of the inode, read as a
  \<^verbatim>\<open>struct sfs_disk_inode\<close>, is the inode in memory. It returns 0, clears the dirty flag and changes
  no other block, and a second call writes nothing.
\<close>

theorem sfs_fsync_writes_inode:
  assumes "fs_wf a s" and "locals_ok a s" and "vop_sin n s = Some sin" and "vop_sfs n s = Some a"
    and "sin_sem sin > 0" and "used_block a s (ino sin)" and "length (direct (din sin)) = 12"
    and "dirty sin"
  shows "\<exists>t. sfs_fsync n s = Some (0, t) \<and> bytes_din (blk t (unat (ino sin))) = din sin \<and>
    vop_sin n t = Some (sin\<lparr>dirty := False\<rparr>) \<and> (\<forall>b<disk_blocks s. b \<noteq> unat (ino sin) \<longrightarrow> blk t b = blk s b) \<and>
    sfs_fsync n t = Some (0, t)"
proof -
  from sfs_fsync_spec [OF assms] obtain m
    where m: "sfs_fsync n s = Some (0, (upd_sin n (dirty_update (\<lambda>_. False)) s)\<lparr>kmem := m\<rparr>)"
      "bytes_din (blk_of s m (unat (ino sin))) = din sin"
      "\<forall>b<disk_blocks s. b \<noteq> unat (ino sin) \<longrightarrow> blk_of s m b = blk s b" by blast
  let ?t = "(upd_sin n (dirty_update (\<lambda>_. False)) s)\<lparr>kmem := m\<rparr>"
  have b: "blk ?t = blk_of s m" by (rule ext) (simp add: blk_def)
  have v: "vop_sin n ?t = Some (sin\<lparr>dirty := False\<rparr>)" "vop_sfs n ?t = Some a"
    using assms(3,4) by (simp_all add: vop_sin_def vop_sfs_def upd_sin_def upd_inode_def split: option.splits in_info.splits)
  have "sfs_fsync n ?t = Some (0, ?t)" unfolding sfs_fsync_def v by simp
  with m v(1) b show ?thesis by (intro exI [of _ ?t]) simp
qed

theorem sfs_fsync_writes_inode_witness:
  "\<exists>t. sfs_fsync 9 (upd_sin 9 (dirty_update (\<lambda>_. True)) demo_file) = Some (0, t) \<and> bytes_din (blk t 3) = din demo_sin"
proof -
  note I = file_invD(1) [OF demo_file_inv(1)]
  let ?s = "upd_sin 9 (dirty_update (\<lambda>_. True)) demo_file" and ?sin = "demo_sin\<lparr>dirty := True\<rparr>"
  have "used_block 7 ?s (ino ?sin)" by (simp add: used_block_def) (simp add: demo_sin_def demo_sfs_def demo_free)
  moreover have "fs_wf 7 ?s" "locals_ok 7 ?s" "vop_sin 9 ?s = Some ?sin" "vop_sfs 9 ?s = Some 7"
    using file_okD [OF I] by simp_all
  moreover have "sin_sem ?sin > 0" "length (direct (din ?sin)) = 12" by (simp_all add: demo_sin_def)
  ultimately have "\<exists>t. sfs_fsync 9 ?s = Some (0, t) \<and> bytes_din (blk t (unat (ino ?sin))) = din ?sin"
    using sfs_fsync_writes_inode [of 7 ?s 9 ?sin] by auto
  then show ?thesis by (simp add: demo_sin_def)
qed

section \<open>Loading an inode\<close>

lemma lookup_sfs_none:
  assumes "\<forall>node\<in>set le. \<exists>sin. vop_sin node s = Some sin \<and> ino sin \<noteq> i"
  shows "lookup_sfs_loop le i s = Some (0, s)"
  using assms by (induction le) auto

lemma heap_simps [simp]:
  "disk_base (s\<lparr>heap := h\<rparr>) = disk_base s" "disk_blocks (s\<lparr>heap := h\<rparr>) = disk_blocks s"
  "vop_sin n (s\<lparr>heap := h\<rparr>) = vop_sin n s" "vop_dev n (s\<lparr>heap := h\<rparr>) = vop_dev n s"
  by (simp_all add: disk_base_def disk_blocks_def ide_device_size_def ide_device_valid_def VALID_IDE_def
      vop_sin_def vop_dev_def)

lemma heap_areas [simp]:
  "io_area (s\<lparr>heap := h\<rparr>) = io_area s" "blk (s\<lparr>heap := h\<rparr>) = blk s"
  "disk_ok (s\<lparr>heap := h\<rparr>) = disk_ok s" "buf_ok (s\<lparr>heap := h\<rparr>) = buf_ok s"
  by (simp_all add: io_area_def blk_def disk_ok_def buf_ok_def VALID_IDE_def fun_eq_iff)

lemma heap_derived [simp]:
  "fs_dev_ok a (s\<lparr>heap := h\<rparr>) = fs_dev_ok a s" "fs_wf a (s\<lparr>heap := h\<rparr>) = fs_wf a s"
  by (simp_all add: fs_dev_ok_def fs_wf_def cong: option.case_cong)

definition new_links :: "addr \<Rightarrow> u32 \<Rightarrow> sfs_fs \<Rightarrow> sfs_fs" where
  "new_links node i f = f\<lparr>inode_list := node # inode_list f,
     hash_list := (hash_list f)(sfs_hash_list i := node # hash_list f (sfs_hash_list i))\<rparr>"

definition new_sin :: "disk_inode \<Rightarrow> u32 \<Rightarrow> sfs_inode" where
  "new_sin d i = \<lparr>din = d, ino = i, dirty = False, reclaim_count = 1, sin_sem = 1\<rparr>"

text \<open>The state after the inode \<open>i\<close> of the file system at \<open>a\<close> was loaded to \<open>node\<close>.\<close>

definition with_inode :: "addr \<Rightarrow> u32 \<Rightarrow> addr \<Rightarrow> disk_inode \<Rightarrow> in_ops \<Rightarrow> kfs \<Rightarrow> kfs" where
  "with_inode a i node d ops s =
     (upd_fs a (new_links node i) s)\<lparr>inodes := (inodes s)(node \<mapsto> inode_init (SfsInfo (new_sin d i)) ops a)\<rparr>"

lemma sfs_load_new:
  assumes wf: "fs_wf a s" and f: "fss s a = Some f" and sem: "fs_sem f > 0" and u: "used_block a s i"
    and h: "heap s = d # node # hs" "d \<noteq> 0" "node \<noteq> 0" and area: "{d..<d + 64} \<inter> io_area s (sfs_buffer f) = {}"
    and new: "\<forall>x\<in>set (hash_list f (sfs_hash_list i)). \<exists>sin. vop_sin x s = Some sin \<and> ino sin \<noteq> i"
    and di: "di = bytes_din (take 64 (blk s (unat i)))" "nlinks di \<noteq> 0" "sfs_get_ops (itype di) = Some ops"
  shows "\<exists>m. sfs_load_inode a i s = Some (0, node, (with_inode a i node di ops s)\<lparr>kmem := m, heap := hs\<rparr>) \<and>
    (\<forall>b<disk_blocks s. blk_of s m b = blk s b) \<and>
    (\<forall>x. x \<notin> io_area s (sfs_buffer f) \<longrightarrow> x \<notin> {d..<d + 64} \<longrightarrow> m x = kmem s x)"
proof -
  obtain f' where f': "fss s a = Some f'" "fs_dev_ok a s" "io_sem f' > 0" "i \<noteq> 0" "unat i < unat (sblocks (super f'))"
    by (rule used_blockD [OF wf u])
  let ?L = "upd_fs a (fs_sem_update (\<lambda>_. fs_sem f - 1)) s" and ?fl = "f\<lparr>fs_sem := fs_sem f - 1\<rparr>"
  have e: "f' = f" using f f'(1) by simp
  have fL: "fss ?L a = Some ?fl" using f by simp
  have wL: "fs_wf a ?L"
    using wf f by (simp add: fs_wf_def fs_dev_ok_upd_fs)
  let ?H = "?L\<lparr>heap := node # hs\<rparr>"
  have iu: "sfs_block_inuse a i ?H = Some True"
    using sfs_block_inuse_spec [of a ?H ?fl i] wL fL f'(4,5) e u f
    by (simp add: word_less_nat_alt used_block_def)
  have ok: "fs_dev_ok a ?H" "fss ?H a = Some ?fl" "io_sem ?fl > 0" "unat i < unat (sblocks (super ?fl))"
    using f' e fL by (simp_all add: fs_dev_ok_upd_fs)
  have ar: "{d..<d + 64} \<inter> io_area ?H (sfs_buffer ?fl) = {}" using area by (simp add: io_area_def)
  from sfs_rbuf_spec [OF ok(1-3) f'(4) ok(4) _ _ ar, of 0] obtain m
    where m: "sfs_rbuf a d 64 i 0 ?H = Some (0, ?H\<lparr>kmem := m\<rparr>)"
      "bytes_at m d 64 = take 64 (blk ?H (unat i))"
      "\<forall>b'<disk_blocks ?H. blk_of ?H m b' = blk ?H b'"
      "\<forall>x. x \<notin> io_area ?H (sfs_buffer ?fl) \<longrightarrow> x \<notin> {d..<d + 64} \<longrightarrow> m x = kmem ?H x"
    by auto
  have lk: "lock_sfs_fs a s = Some ?L" using f sem by (simp add: lock_sfs_fs_def)
  have nl: "lookup_sfs_nolock a i ?L = Some (0, ?L)"
    unfolding lookup_sfs_nolock_def using f new by (simp add: lookup_sfs_none)
  have km: "kmalloc ?L = (d, ?H)" "kmalloc (?H\<lparr>kmem := m\<rparr>) = (node, ?H\<lparr>kmem := m, heap := hs\<rparr>)"
    using h by (simp_all add: kmalloc_def)
  have b: "bytes_din (bytes_at m d 64) = di" using m(2) di(1) by simp
  let ?T = "?H\<lparr>kmem := m, heap := hs, inodes := (inodes s)(node \<mapsto> inode_init (SfsInfo (new_sin di i)) ops a)\<rparr>"
  have "sfs_load_inode a i s = Some (0, node, unlock_sfs_fs a (sfs_set_links a node i ?T))"
    using lk nl km h iu m(1) b di(2,3)
    by (simp add: sfs_load_inode_def sfs_create_inode_def new_sin_def)
  moreover have "unlock_sfs_fs a (sfs_set_links a node i ?T) = (with_inode a i node di ops s)\<lparr>kmem := m, heap := hs\<rparr>"
    by (rule kfs.equality)
       (use f in \<open>(cases f, simp add: unlock_sfs_fs_def sfs_set_links_def with_inode_def upd_fs_def
          new_links_def comp_def)+\<close>)
  moreover have "blk_of ?H m' x = blk_of s m' x" "blk ?H x = blk s x" for m' x by (simp_all add: blk_def)
  ultimately show ?thesis using m(3,4) by (auto simp: io_area_def)
qed

lemma sfs_load_cached:
  assumes f: "fss s a = Some f" and sem: "fs_sem f > 0" and hl: "hash_list f (sfs_hash_list i) = node # le"
    and sin: "vop_sin node s = Some sin" "ino sin = i" and nd: "node \<noteq> 0"
    and ref: "inodes s node = Some x" "ref_count x \<noteq> 0"
  shows "sfs_load_inode a i s = Some (0, node, upd_inode node (ref_count_update (\<lambda>n. n + 1)) s)"
proof -
  let ?L = "upd_fs a (fs_sem_update (\<lambda>_. fs_sem f - 1)) s"
  have lk: "lock_sfs_fs a s = Some ?L" using f sem by (simp add: lock_sfs_fs_def)
  have "lookup_sfs_nolock a i ?L = Some (node, upd_inode node (ref_count_update (\<lambda>n. n + 1)) ?L)"
    using f hl sin ref by (simp add: lookup_sfs_nolock_def inode_ref_inc_def)
  moreover have "unlock_sfs_fs a (upd_inode node (ref_count_update (\<lambda>n. n + 1)) ?L) =
      upd_inode node (ref_count_update (\<lambda>n. n + 1)) s"
  proof -
    have "map_option (fs_sem_update (\<lambda>n. n + 1)) (map_option (fs_sem_update (\<lambda>_. fs_sem f - 1)) (fss s a)) = fss s a"
      using f by simp
    then show ?thesis by (simp add: unlock_sfs_fs_def upd_fs_def upd_inode_def)
  qed
  ultimately show ?thesis using lk nd by (simp add: sfs_load_inode_def)
qed

text \<open>
  \<^verbatim>\<open>sfs_load_inode\<close> makes one in-core inode per inode on disk. Loading an inode that is not
  in memory reads it from its block into a new node with one reference and enters it into the
  lists; loading it again returns the same node with one more reference, and allocates nothing.
  No block of the disk changes.
\<close>

theorem sfs_load_inode_once:
  assumes wf: "fs_wf a s" and f: "fss s a = Some f" and sem: "fs_sem f > 0" and u: "used_block a s i"
    and h: "heap s = d # node # hs" "d \<noteq> 0" "node \<noteq> 0" and area: "{d..<d + 64} \<inter> io_area s (sfs_buffer f) = {}"
    and new: "\<forall>x\<in>set (hash_list f (sfs_hash_list i)). \<exists>sin. vop_sin x s = Some sin \<and> ino sin \<noteq> i"
    and di: "di = bytes_din (take 64 (blk s (unat i)))" "nlinks di \<noteq> 0" "sfs_get_ops (itype di) = Some ops"
  shows "\<exists>t t'. sfs_load_inode a i s = Some (0, node, t) \<and> vop_sin node t = Some (new_sin di i) \<and>
    inodes t node = Some (inode_init (SfsInfo (new_sin di i)) ops a) \<and> heap t = hs \<and>
    fss t = (fss s)(a \<mapsto> new_links node i f) \<and> (\<forall>b<disk_blocks s. blk t b = blk s b) \<and>
    sfs_load_inode a i t = Some (0, node, t') \<and>
    t' = upd_inode node (ref_count_update (\<lambda>n. n + 1)) t"
proof -
  from sfs_load_new [OF assms] obtain m
    where m: "sfs_load_inode a i s = Some (0, node, (with_inode a i node di ops s)\<lparr>kmem := m, heap := hs\<rparr>)"
      "\<forall>b<disk_blocks s. blk_of s m b = blk s b" by blast
  let ?t = "(with_inode a i node di ops s)\<lparr>kmem := m, heap := hs\<rparr>"
  let ?i = "inode_init (SfsInfo (new_sin di i)) ops a"
  have n: "inodes ?t node = Some ?i" by (simp add: with_inode_def)
  then have v: "vop_sin node ?t = Some (new_sin di i)" by (simp add: vop_sin_def inode_init_def)
  have ft: "fss ?t a = Some (new_links node i f)" using f by (simp add: with_inode_def)
  have "sfs_load_inode a i ?t = Some (0, node, upd_inode node (ref_count_update (\<lambda>n. n + 1)) ?t)"
    by (rule sfs_load_cached [OF ft _ _ v _ h(3) n])
       (use sem in \<open>simp_all add: new_links_def new_sin_def inode_init_def\<close>)
  moreover have "fss ?t = (fss s)(a \<mapsto> new_links node i f)" using f by (simp add: with_inode_def upd_fs_def)
  moreover have "blk ?t b = blk_of s m b" for b by (simp add: blk_def with_inode_def disk_base_def upd_fs_def)
  ultimately show ?thesis using m n v
    by (intro exI [of _ ?t] exI [of _ "upd_inode node (ref_count_update (\<lambda>n. n + 1)) ?t"]) simp
qed

text \<open>The demo file system with the inode of its file on block 3 and two free places in memory.\<close>

definition demo_load :: kfs where
  "demo_load = demo_file\<lparr>kmem := store_bytes 77824 (din_bytes (din demo_sin)) of_nat, heap := [30000, 31000]\<rparr>"

lemma take_bytes_at: "k \<le> n \<Longrightarrow> take k (bytes_at m p n) = bytes_at m p k"
  by (rule nth_equalityI) auto

lemma demo_load_inode: "bytes_din (take 64 (blk demo_load 3)) = din demo_sin"
proof -
  have l: "length (din_bytes (din demo_sin)) = 64" by (rule length_din_64) (simp add: demo_sin_def)
  have "disk_base demo_load = 65536" using demo_file_disk(2) by (simp add: demo_load_def)
  then have "take 64 (blk demo_load 3) = bytes_at (kmem demo_load) 77824 64" by (simp add: blk_def take_bytes_at)
  also have "\<dots> = din_bytes (din demo_sin)"
    using bytes_at_store [of 77824 "din_bytes (din demo_sin)" of_nat] l by (simp add: demo_load_def)
  finally show ?thesis using bytes_din_roundtrip [of "din demo_sin" "[]"] by (simp add: demo_sin_def layout)
qed

theorem sfs_load_inode_once_witness:
  "\<exists>t t'. sfs_load_inode 7 3 demo_load = Some (0, 31000, t) \<and> vop_sin 31000 t = Some (new_sin (din demo_sin) 3) \<and>
    sfs_load_inode 7 3 t = Some (0, 31000, t')"
proof -
  have u: "unat (3 :: u32) = 3" by simp
  have "fs_wf 7 demo_load" using file_okD(1) [OF file_invD(1) [OF demo_file_inv(1)]] by (simp add: demo_load_def)
  moreover have "fss demo_load 7 = Some demo_sfs" by (simp add: demo_load_def)
  moreover have "used_block 7 demo_load 3" by (simp add: used_block_def demo_load_def) (simp add: demo_sfs_def demo_free)
  moreover have "{30000..<30000 + 64} \<inter> io_area demo_load (sfs_buffer demo_sfs) = {}"
  proof -
    have "io_area demo_load = io_area demo_file" by (rule ext) (simp add: demo_load_def io_area_def)
    then show ?thesis by auto
  qed
  moreover have "fs_sem demo_sfs > 0" "hash_list demo_sfs k = []" for k by (simp_all add: demo_sfs_def)
  moreover have "heap demo_load = [30000, 31000]" by (simp add: demo_load_def)
  moreover have "nlinks (din demo_sin) \<noteq> 0" "sfs_get_ops (itype (din demo_sin)) = Some SfsFileOps"
    by (simp_all add: demo_sin_def sfs_get_ops_def layout)
  ultimately show ?thesis
    using sfs_load_inode_once [of 7 demo_load demo_sfs 3 30000 31000 "[]" "din demo_sin" SfsFileOps] demo_load_inode
    unfolding u by auto
qed

section \<open>Offsets that reading and writing refuse\<close>

text \<open>
  \<^verbatim>\<open>sfs_read\<close> and \<^verbatim>\<open>sfs_write\<close> refuse a negative offset, one of 128 MB or more, and one
  that the length carries past the range of signed 64-bit numbers: they return
  \<^verbatim>\<open>-E_INVAL\<close>, the I/O buffer is untouched and the state is as before, the lock of the inode free.
\<close>

theorem sfs_io_bad_offset:
  assumes sin: "vop_sin n s = Some sin" "sin_sem sin > 0" "itype (din sin) \<noteq> SFS_TYPE_DIR" and fs: "vop_sfs n s = Some a"
    and bad: "io_offset iob < 0 \<or> io_offset iob \<ge> SFS_MAX_FILE_SIZE \<or>
      io_offset iob > sint (word_of_int (io_offset iob) + of_nat (io_resid iob) :: u64)"
  shows "sfs_read n iob s = Some (- E_INVAL, iob, s) \<and> sfs_write n iob s = Some (- E_INVAL, iob, s)"
proof -
  have v: "vop_sin n (sin_locked n sin s) = Some (sin\<lparr>sin_sem := sin_sem sin - 1\<rparr>)"
    using sin(1) by (simp add: sin_locked_def)
  have "sfs_io_nolock a n (io_base iob) (io_offset iob) (io_resid iob) wr (sin_locked n sin s) =
      Some (- E_INVAL, 0, sin_locked n sin s)" for wr
    unfolding sfs_io_nolock_def using v sin(3) bad by (simp add: Let_def)
  then show ?thesis
    using lock_sin_Some [OF sin(1,2)] unlock_locked [OF sin(1)] fs
    by (simp add: sfs_read_def sfs_write_def sfs_io_def)
qed

theorem sfs_io_bad_offset_witness:
  "sfs_read 9 (iobuf_init 24576 10 (- 1)) demo_file = Some (- E_INVAL, iobuf_init 24576 10 (- 1), demo_file) \<and>
   sfs_write 9 (iobuf_init 24576 10 0x8000000) demo_file = Some (- E_INVAL, iobuf_init 24576 10 0x8000000, demo_file)"
  using sfs_io_bad_offset [of 9 demo_file demo_sin 7 "iobuf_init 24576 10 (- 1)"]
    sfs_io_bad_offset [of 9 demo_file demo_sin 7 "iobuf_init 24576 10 0x8000000"]
    file_invD(3,4) [OF demo_file_inv(1)]
  by (simp add: iobuf_init_def SFS_MAX_FILE_SIZE_def)

lemma u32_diff_zero:
  assumes "x < 2 ^ 32" and "y < 2 ^ 32" and "unat (of_nat x - of_nat y :: u32) = 0"
  shows "x = y"
proof -
  have "of_nat x = (of_nat y :: u32)" using assms(3) by (simp add: unat_eq_0)
  then have "unat (of_nat x :: u32) = unat (of_nat y :: u32)" by (rule arg_cong)
  with assms(1,2) show ?thesis by (simp add: unat_of_nat)
qed

lemma hole_load:
  assumes "vop_sin n s = Some sin" and "b < 2 ^ 32" and "unat (blocks (din sin)) < b"
  shows "sfs_bmap_load_nolock a n (of_nat b) s = None"
proof -
  have "\<not> (of_nat b :: u32) \<le> blocks (din sin)"
    using assms(2,3) by (simp add: word_le_nat_alt unat_of_nat)
  then show ?thesis using assms(1) by (simp add: sfs_bmap_load_nolock_def)
qed

text \<open>
  A write that leaves a hole panics the kernel. At an offset past the block after the last
  one of the file, although within the size limit, \<^verbatim>\<open>sfs_write\<close> of at least one byte fails the
  assertion \<^verbatim>\<open>index <= din->blocks\<close> of \<^verbatim>\<open>sfs_bmap_load_nolock\<close>.
\<close>

theorem sfs_write_hole_panics:
  assumes inv: "file_inv a n sin s" and off: "io_offset iob = int p" and r: "0 < io_resid iob"
    and le: "int (p + io_resid iob) \<le> SFS_MAX_FILE_SIZE"
    and hole: "unat (blocks (din sin)) < p div SFS_BLKSIZE"
  shows "sfs_write n iob s = None"
proof -
  note I = file_invD [OF inv]
  let ?L = "sin_locked n sin s" and ?b = "p div SFS_BLKSIZE" and ?e = "p + io_resid iob"
  have v: "vop_sin n ?L = Some (sin\<lparr>sin_sem := sin_sem sin - 1\<rparr>)" using I(6) by (simp add: sin_locked_def)
  have em: "?e \<le> 134217728" using le by (simp add: SFS_MAX_FILE_SIZE_def)
  then have bs: "?b < 2 ^ 32" by (simp add: less_mult_imp_div_less)
  have ld: "sfs_bmap_load_nolock a n (of_nat ?b) ?L = None"
    by (rule hole_load [OF v bs]) (use hole in simp)
  have bw: "word_of_int (int k div int SFS_BLKSIZE) = (of_nat (k div SFS_BLKSIZE) :: u32)" for k
    unfolding zdiv_int [symmetric] of_int_of_nat_eq ..
  have q: "sint (word_of_int (int p) + of_nat (io_resid iob) :: u64) = int ?e" using em by (intro sint_pos) simp
  have pt: "sfs_io_part a n True buf sz (of_nat ?b) o1 ?L = None" for buf sz o1
    by (simp add: sfs_io_part_def ld)
  have bl: "sfs_io_blocks a n True (Suc k) buf (of_nat ?b) al ?L = None" for k buf al
    by (simp add: ld)
  have st: "sfs_io_steps a n (io_base iob) (int p) (int ?e) True ?L = None"
  proof (cases "p mod SFS_BLKSIZE = 0")
    case False
    have "nat (int p mod int SFS_BLKSIZE) = p mod SFS_BLKSIZE" by (simp only: zmod_int [symmetric] nat_int)
    then show ?thesis using False by (simp only: sfs_io_steps_def Let_def bw) (simp add: pt)
  next
    case True
    let ?nb = "unat (of_nat (?e div SFS_BLKSIZE) - of_nat ?b :: u32)"
    have rest: "sfs_io_rest a n True ?nb (io_base iob) (of_nat ?b) 0 (int ?e) ?L = None"
    proof (cases ?nb)
      case (Suc k)
      show ?thesis unfolding sfs_io_rest_def Suc bl by simp
    next
      case 0
      have "?e div SFS_BLKSIZE < 2 ^ 32" using em by (simp add: less_mult_imp_div_less)
      then have "?e div SFS_BLKSIZE = ?b"
        by (rule u32_diff_zero [OF _ bs 0])
      then have "?e mod SFS_BLKSIZE \<noteq> 0" using True r by (metis add_cancel_right_right div_mult_mod_eq not_gr0)
      moreover have "nat (int ?e mod int SFS_BLKSIZE) = ?e mod SFS_BLKSIZE" by (simp only: zmod_int [symmetric] nat_int)
      ultimately show ?thesis unfolding sfs_io_rest_def 0 by (simp add: pt Let_def del: of_nat_add)
    qed
    have "nat (int p mod int SFS_BLKSIZE) = 0" using True by (simp only: zmod_int [symmetric] nat_int)
    then show ?thesis using rest by (simp only: sfs_io_steps_def Let_def bw) (simp)
  qed
  have "sfs_io_nolock a n (io_base iob) (io_offset iob) (io_resid iob) True ?L = None"
    unfolding sfs_io_nolock_def off using v I(4) q st le r
    by (simp add: Let_def SFS_MAX_FILE_SIZE_def del: of_nat_add)
  then show ?thesis using lock_sin_Some [OF I(6,3)] I(2) by (simp add: sfs_write_def sfs_io_def)
qed

theorem sfs_write_hole_panics_witness: "sfs_write 9 (iobuf_init 24576 1 4096) demo_file = None"
  using sfs_write_hole_panics [OF demo_file_inv(1), of "iobuf_init 24576 1 4096" 4096]
  by (simp add: iobuf_init_def SFS_MAX_FILE_SIZE_def demo_sin_def)

end
