(* ===== verification/SfsSearch.thy ===== *)
theory SfsSearch
  imports SfsMeta
begin

text \<open>
  Searching a directory. A directory is a list of slots, one per block: an inode number, 0 for
  an empty slot, and a name. \<^verbatim>\<open>sfs_dirent_search_nolock\<close> is \<^const>\<open>List.find\<close> on that list.
\<close>

section \<open>The slots of a directory\<close>

definition slot_ino :: "disk_inode \<Rightarrow> kfs \<Rightarrow> nat \<Rightarrow> u32" where
  "slot_ino d s k = of_le32 (take 4 (blk s (unat (bmap d s k))))"

definition slot_name :: "disk_inode \<Rightarrow> kfs \<Rightarrow> nat \<Rightarrow> u8 list" where
  "slot_name d s k = takeWhile (\<lambda>c. c \<noteq> 0) (take SFS_MAX_FNAME_LEN (drop 4 (blk s (unat (bmap d s k)))))"

text \<open>\<open>entry_holds d s k m p\<close>: slot \<open>k\<close> has been read to the entry at \<open>p\<close> of memory \<open>m\<close>.\<close>

definition entry_holds :: "disk_inode \<Rightarrow> kfs \<Rightarrow> nat \<Rightarrow> mem \<Rightarrow> addr \<Rightarrow> bool" where
  "entry_holds d s k m p \<longleftrightarrow> entry_ino m p = slot_ino d s k \<and>
     cstr m (entry_name p) (length (slot_name d s k)) \<and>
     bytes_at m (entry_name p) (length (slot_name d s k)) = slot_name d s k"

lemma bytes_at_cong: "(\<And>i. i < n \<Longrightarrow> m (p + i) = m' (p + i)) \<Longrightarrow> bytes_at m p n = bytes_at m' p n"
  by (simp add: bytes_at_def)

lemma entry_bytes:
  assumes b: "length b = SFS_BLKSIZE" and r: "bytes_at m p 260 = take 260 b"
  shows "entry_ino (m(p + 4 + 255 := 0)) p = of_le32 (take 4 b)"
    and "cstr (m(p + 4 + 255 := 0)) (p + 4) (length (takeWhile (\<lambda>c. c \<noteq> 0) (take 255 (drop 4 b))))"
    and "bytes_at (m(p + 4 + 255 := 0)) (p + 4) (length (takeWhile (\<lambda>c. c \<noteq> 0) (take 255 (drop 4 b)))) =
      takeWhile (\<lambda>c. c \<noteq> 0) (take 255 (drop 4 b))"
proof -
  let ?m = "m(p + 4 + 255 := 0)" and ?xs = "take 255 (drop 4 b)"
  let ?w = "takeWhile (\<lambda>c. c \<noteq> 0) ?xs"
  have at: "m (p + i) = b ! i" if "i < 260" for i
  proof -
    have "bytes_at m p 260 ! i = take 260 b ! i" by (simp only: r)
    then show ?thesis using that by simp
  qed
  have "bytes_at ?m p 4 = bytes_at m p 4" by (rule bytes_at_cong) simp
  also have "\<dots> = take 4 (bytes_at m p 260)" by (simp add: take_bytes_at)
  also have "\<dots> = take 4 b" using b by (simp add: r)
  finally show "entry_ino ?m p = of_le32 (take 4 b)" by (simp add: entry_ino_def)
  have lx: "length ?xs = 255" using b by simp
  have lw: "length ?w \<le> 255" using length_takeWhile_le [of "\<lambda>c. c \<noteq> 0" ?xs] lx by simp
  have wi: "?w ! i = b ! (4 + i)" "?w ! i \<noteq> 0" if "i < length ?w" for i
  proof -
    have "?w ! i = ?xs ! i" using that by (rule takeWhile_nth)
    then show "?w ! i = b ! (4 + i)" using that lw b by simp
    show "?w ! i \<noteq> 0" using nth_mem [OF that] set_takeWhileD [of "?w ! i" "\<lambda>c. c \<noteq> 0" ?xs] by simp
  qed
  have mi: "?m (p + 4 + i) = b ! (4 + i)" if "i < 255" for i
    using at [of "4 + i"] that by (simp add: add.assoc)
  have z: "?m (p + 4 + length ?w) = 0"
  proof (cases "length ?w = 255")
    case False
    then have l: "length ?w < length ?xs" using lw lx by simp
    have l5: "length ?w < 255" using l lx by linarith
    have "?m (p + 4 + length ?w) = b ! (4 + length ?w)" by (rule mi [OF l5])
    also have "\<dots> = ?xs ! length ?w" unfolding nth_take [OF l5] using b by (subst nth_drop) simp_all
    also have "\<dots> = 0" using nth_length_takeWhile [OF l] by blast
    finally show ?thesis .
  qed (simp only: fun_upd_same)
  show "cstr ?m (p + 4) (length ?w)"
    unfolding cstr_def
  proof (intro conjI allI impI z)
    fix i assume i: "i < length ?w"
    have "?m (p + 4 + i) = ?w ! i" unfolding wi(1) [OF i] by (rule mi) (use i lw in linarith)
    then show "?m (p + 4 + i) \<noteq> 0" using wi(2) [OF i] by metis
  qed
  show "bytes_at ?m (p + 4) (length ?w) = ?w"
  proof (rule nth_equalityI)
    fix i assume "i < length (bytes_at ?m (p + 4) (length ?w))"
    then have i: "i < length ?w" by (simp only: length_bytes_at)
    then have "bytes_at ?m (p + 4) (length ?w) ! i = ?m (p + 4 + i)" by (rule bytes_at_index)
    also have "\<dots> = ?w ! i" unfolding wi(1) [OF i] by (rule mi) (use i lw in linarith)
    finally show "bytes_at ?m (p + 4) (length ?w) ! i = ?w ! i" .
  qed (simp only: length_bytes_at)
qed

section \<open>Reading a slot\<close>

definition dir_ok :: "addr \<Rightarrow> addr \<Rightarrow> sfs_inode \<Rightarrow> kfs \<Rightarrow> bool" where
  "dir_ok a n sin s \<longleftrightarrow> file_ok a n sin s \<and> itype (din sin) = SFS_TYPE_DIR"

lemma dir_ok_touched: "dir_ok a n sin s \<Longrightarrow> touched a s B m \<Longrightarrow> dir_ok a n sin (s\<lparr>kmem := m\<rparr>)"
  by (simp add: dir_ok_def file_ok_touched)

lemma slot_touched:
  assumes ok: "dir_ok a n sin s" and t: "touched a s B m" and k: "k < unat (blocks (din sin))"
  shows "slot_ino (din sin) (s\<lparr>kmem := m\<rparr>) k = slot_ino (din sin) s k"
    and "slot_name (din sin) (s\<lparr>kmem := m\<rparr>) k = slot_name (din sin) s k"
proof -
  have F: "file_ok a n sin s" using ok by (simp add: dir_ok_def)
  note F = file_okD [OF F]
  note I = inode_wfD [OF F(3,4)]
  have "bmap (din sin) (s\<lparr>kmem := m\<rparr>) k = bmap (din sin) s k"
    by (rule bmap_touched [OF F(1) t]) (use I(4) in blast)
  moreover have "unat (bmap (din sin) s k) < disk_blocks s" by (rule used_block_less [OF F(1) I(3) [OF k]])
  ultimately show "slot_ino (din sin) (s\<lparr>kmem := m\<rparr>) k = slot_ino (din sin) s k"
    "slot_name (din sin) (s\<lparr>kmem := m\<rparr>) k = slot_name (din sin) s k"
    using t by (simp_all add: slot_ino_def slot_name_def touched_def)
qed

lemma touched_upd:
  assumes "touched a s B m" and "fss s a = Some f" and "fs_dev_ok a s" and "x \<in> B" and "B \<inter> scratch a s = {}"
  shows "touched a s B (m(x := c))"
proof -
  have "x \<notin> io_area s (sfs_buffer f)" using assms(2,4,5) by (auto simp: scratch_def)
  then have "blk_of s (m(x := c)) b = blk_of s m b" if "b < disk_blocks s" for b
    using disk_in_area [OF that, of _ "sfs_buffer f"]
    by (fastforce simp: blk_def add.assoc disk_base_def intro!: bytes_at_cong)
  with assms(1,4) show ?thesis by (auto simp: touched_def)
qed

lemma dirent_read_spec:
  assumes ok: "dir_ok a n sin s" and k: "k < unat (blocks (din sin))" and buf: "{p..<p + 260} \<inter> scratch a s = {}"
  shows "\<exists>m. sfs_dirent_read_nolock a n (int k) p s = Some (0, s\<lparr>kmem := m\<rparr>) \<and>
    entry_holds (din sin) s k m p \<and> touched a s {p..<p + 260} m"
proof -
  have F0: "file_ok a n sin s" and ty: "itype (din sin) = SFS_TYPE_DIR" using ok by (simp_all add: dir_ok_def)
  note F = file_okD [OF F0]
  let ?w = "word_of_int (int k) :: u32" and ?i = "bmap (din sin) s k"
  have uw: "unat ?w = k" using k unat_u32 [of "blocks (din sin)"] by (simp add: unat_of_nat)
  have kw: "?w < blocks (din sin)" using k by (simp add: word_less_nat_alt uw [simplified])
  from sfs_bmap_load_spec [OF F kw] obtain m1
    where m1: "sfs_bmap_load_nolock a n ?w s = Some (0, ?i, s\<lparr>kmem := m1\<rparr>)" "touched a s {} m1" unfolding uw by blast
  let ?t = "s\<lparr>kmem := m1\<rparr>"
  have u: "used_block a s ?i" by (rule inode_wfD(3) [OF F(3,4) k])
  have wt: "fs_wf a ?t" "used_block a ?t ?i" using F(1) u by simp_all
  from used_blockD [OF wt] obtain f
    where f: "fss ?t a = Some f" "fs_dev_ok a ?t" "io_sem f > 0" "?i \<noteq> 0" "unat ?i < unat (sblocks (super f))" .
  have iu: "sfs_block_inuse a ?i ?t = Some True"
    using sfs_block_inuse_spec [OF wt(1) f(1,4)] f(5) wt(2) f(1) by (simp add: word_less_nat_alt used_block_def)
  have bt: "{p..<p + 260} \<inter> io_area ?t (sfs_buffer f) = {}" by (rule scratch_area [OF f(1)]) (use buf in simp)
  from sfs_rbuf_spec [OF f(2,1,3-5) _ _ bt, of 0] obtain m
    where m: "sfs_rbuf a p 260 ?i 0 ?t = Some (0, ?t\<lparr>kmem := m\<rparr>)"
      "bytes_at m p 260 = take 260 (blk ?t (unat ?i))"
      "\<forall>b'<disk_blocks ?t. blk_of ?t m b' = blk ?t b'"
      "\<forall>x. x \<notin> io_area ?t (sfs_buffer f) \<longrightarrow> x \<notin> {p..<p + 260} \<longrightarrow> m x = kmem ?t x" by auto
  have "touched a ?t {p..<p + 260} m" by (rule touched_area [OF f(1) m(3,4)])
  with m1(2) have T: "touched a s {p..<p + 260} m" using touched_trans by fastforce
  have e: "blk ?t (unat ?i) = blk s (unat ?i)"
    using m1(2) used_block_less [OF F(1) u] by (simp add: touched_def)
  let ?m = "m(p + 4 + 255 := 0)"
  have ki: "int k < uint (blocks (din sin))" unfolding uint_nat using k by linarith
  have fs: "fss s a = Some f" "fs_dev_ok a s" using f(1,2) by simp_all
  have "touched a s {p..<p + 260} ?m" by (rule touched_upd [OF T fs _ buf]) simp
  moreover have "entry_holds (din sin) s k ?m p"
    using entry_bytes [OF _ m(2)] blk_length [of s "unat ?i"]
    by (simp only: entry_holds_def slot_ino_def slot_name_def entry_name_def SFS_MAX_FNAME_LEN_def e)
  moreover have "sfs_dirent_read_nolock a n (int k) p s = Some (0, s\<lparr>kmem := ?m\<rparr>)"
    using m1(1) m(1) iu F(4) ty ki
    by (simp add: sfs_dirent_read_nolock_def SFS_DENTRY_def entry_name_def SFS_MAX_FNAME_LEN_def)
  ultimately show ?thesis by blast
qed

section \<open>The search\<close>

lemma find_mem: "List.find P xs = Some x \<Longrightarrow> x \<in> set xs"
  by (induction xs) (auto split: if_splits)

lemma sint_small:
  assumes "x < 2 ^ 31"
  shows "sint (of_nat x :: u32) = int x"
  using assms by (simp add: signed_of_nat signed_take_bit_int_eq_self)

definition slot_matches :: "u8 list \<Rightarrow> disk_inode \<Rightarrow> kfs \<Rightarrow> nat \<Rightarrow> bool" where
  "slot_matches str d s k \<longleftrightarrow> slot_ino d s k \<noteq> 0 \<and> slot_name d s k = str"

definition search_result :: "nat option \<Rightarrow> disk_inode \<Rightarrow> kfs \<Rightarrow> int \<Rightarrow> u32 \<Rightarrow> int \<Rightarrow> bool" where
  "search_result F d s ret i slot \<longleftrightarrow>
     (case F of None \<Rightarrow> ret = - E_NOENT | Some j \<Rightarrow> ret = 0 \<and> i = slot_ino d s j \<and> slot = int j)"

definition names :: "mem \<Rightarrow> addr \<Rightarrow> u8 list \<Rightarrow> bool" where
  "names m p str \<longleftrightarrow> cstr m p (length str) \<and> bytes_at m p (length str) = str"

lemma names_touched:
  assumes "names (kmem s) q str" and "touched a s B m" and "{q..q + length str} \<inter> (scratch a s \<union> B) = {}"
  shows "names m q str"
proof -
  have e: "m (q + i) = kmem s (q + i)" if "i \<le> length str" for i
  proof -
    have "q + i \<in> {q..q + length str}" using that by simp
    then have "q + i \<notin> scratch a s \<union> B" using assms(3) by blast
    then show ?thesis using assms(2) unfolding touched_def by blast
  qed
  then have "bytes_at m q (length str) = bytes_at (kmem s) q (length str)" by (intro bytes_at_cong) simp
  with assms(1) e show ?thesis by (simp add: names_def cstr_def)
qed

lemma slot_matches_touched:
  assumes "dir_ok a n sin s" and "touched a s B m" and "k < unat (blocks (din sin))"
  shows "slot_matches str (din sin) (s\<lparr>kmem := m\<rparr>) k = slot_matches str (din sin) s k"
  using slot_touched [OF assms] by (simp add: slot_matches_def)

lemma search_result_cong:
  assumes "search_result f d s ret i slot" and "\<And>j. f = Some j \<Longrightarrow> slot_ino d s j = slot_ino d t j"
  shows "search_result f d t ret i slot"
  using assms by (cases f) (simp_all add: search_result_def)

lemma search_loop_spec:
  assumes "dir_ok a n sin s" and "k + c = unat (blocks (din sin))" and "{p..<p + 260} \<inter> scratch a s = {}"
    and "names (kmem s) q str" and "{q..q + length str} \<inter> (scratch a s \<union> {p..<p + 260}) = {}"
  shows "\<exists>ret i slot es' m. sfs_dirent_search_loop a n q p (int k) c es s = Some (ret, i, slot, es', s\<lparr>kmem := m\<rparr>) \<and>
    touched a s {p..<p + 260} m \<and>
    search_result (List.find (slot_matches str (din sin) s) [k..<k + c]) (din sin) s ret i slot"
  using assms
proof (induction c arbitrary: k es s)
  case 0
  have "s = s\<lparr>kmem := kmem s\<rparr>" by simp
  then show ?case by (intro exI [of _ "kmem s"] exI conjI) (assumption | simp add: search_result_def)+
next
  case (Suc c)
  have kb: "k < unat (blocks (din sin))" using Suc.prems(2) by simp
  from dirent_read_spec [OF Suc.prems(1) kb Suc.prems(3)] obtain m
    where m: "sfs_dirent_read_nolock a n (int k) p s = Some (0, s\<lparr>kmem := m\<rparr>)"
      "entry_holds (din sin) s k m p" "touched a s {p..<p + 260} m" by blast
  let ?t = "s\<lparr>kmem := m\<rparr>"
  have up: "[k..<k + Suc c] = k # [Suc k..<Suc k + c]" by (simp add: upt_conv_Cons)
  have nm: "names m q str" by (rule names_touched [OF Suc.prems(4) m(3) Suc.prems(5)])
  have ok: "dir_ok a n sin ?t" by (rule dir_ok_touched [OF Suc.prems(1) m(3)])
  have iv: "entry_ino m p = slot_ino (din sin) s k" using m(2) by (simp add: entry_holds_def)
  have IH: "\<exists>ret i slot es' m'. sfs_dirent_search_loop a n q p (int k + 1) c es1 ?t = Some (ret, i, slot, es', s\<lparr>kmem := m'\<rparr>) \<and>
    touched a s {p..<p + 260} m' \<and>
    search_result (List.find (slot_matches str (din sin) s) [Suc k..<Suc k + c]) (din sin) s ret i slot" for es1
  proof -
    have "\<exists>ret i slot es' m'. sfs_dirent_search_loop a n q p (int (Suc k)) c es1 ?t =
        Some (ret, i, slot, es', ?t\<lparr>kmem := m'\<rparr>) \<and> touched a ?t {p..<p + 260} m' \<and>
      search_result (List.find (slot_matches str (din sin) ?t) [Suc k..<Suc k + c]) (din sin) ?t ret i slot"
      by (rule Suc.IH [OF ok]) (use Suc.prems nm in simp_all)
    then obtain ret i slot es' m' where r: "sfs_dirent_search_loop a n q p (int (Suc k)) c es1 ?t =
        Some (ret, i, slot, es', ?t\<lparr>kmem := m'\<rparr>)" "touched a ?t {p..<p + 260} m'"
      "search_result (List.find (slot_matches str (din sin) ?t) [Suc k..<Suc k + c]) (din sin) ?t ret i slot" by blast
    have fd: "List.find (slot_matches str (din sin) ?t) [Suc k..<Suc k + c] =
        List.find (slot_matches str (din sin) s) [Suc k..<Suc k + c]"
    proof (rule find_cong)
      fix x assume "x \<in> set [Suc k..<Suc k + c]"
      then have "x < unat (blocks (din sin))" using Suc.prems(2)
        by (simp only: set_upt atLeastLessThan_iff) linarith
      then show "slot_matches str (din sin) ?t x = slot_matches str (din sin) s x"
        by (rule slot_matches_touched [OF Suc.prems(1) m(3)])
    qed simp
    have si: "slot_ino (din sin) ?t j = slot_ino (din sin) s j"
      if "List.find (slot_matches str (din sin) s) [Suc k..<Suc k + c] = Some j" for j
    proof -
      have "j < unat (blocks (din sin))" using find_mem [OF that] Suc.prems(2)
        by (simp only: set_upt atLeastLessThan_iff) linarith
      then show ?thesis by (rule slot_touched(1) [OF Suc.prems(1) m(3)])
    qed
    have "touched a s {p..<p + 260} m'" using touched_trans [OF m(3) r(2)] by simp
    moreover have "search_result (List.find (slot_matches str (din sin) s) [Suc k..<Suc k + c]) (din sin) s ret i slot"
      by (rule search_result_cong [OF r(3) [unfolded fd] si])
    moreover have e: "int (Suc k) = int k + 1" "?t\<lparr>kmem := m'\<rparr> = s\<lparr>kmem := m'\<rparr>" by simp_all
    ultimately show ?thesis using r(1) [unfolded e] by blast
  qed
  obtain L where L: "L = [Suc k..<Suc k + c]" by simp
  note IH = IH [folded L] and up = up [folded L]
  show ?case
  proof (cases "slot_ino (din sin) s k = 0")
    case True
    then have "\<not> slot_matches str (din sin) s k" by (simp add: slot_matches_def)
    then show ?thesis using True IH [of "int k"] m(1) iv unfolding up by simp
  next
    case False
    have "cstr m q (length str)" "bytes_at m q (length str) = str" using nm by (simp_all add: names_def)
    moreover have "cstr m (entry_name p) (length (slot_name (din sin) s k))"
      "bytes_at m (entry_name p) (length (slot_name (din sin) s k)) = slot_name (din sin) s k"
      using m(2) by (simp_all add: entry_holds_def)
    ultimately obtain r where r: "strcmp m q (entry_name p) = Some r" "r = 0 \<longleftrightarrow> str = slot_name (din sin) s k"
      using strcmp_cstr [of m q "length str" "entry_name p" "length (slot_name (din sin) s k)"] by auto
    show ?thesis
    proof (cases "r = 0")
      case True
      then have "slot_matches str (din sin) s k" using r(2) False by (simp add: slot_matches_def)
      then show ?thesis using True m(1,3) iv r(1) False unfolding up
        by (simp add: search_result_def) (intro exI conjI, rule refl, assumption)
    next
      case ne: False
      then have "\<not> slot_matches str (din sin) s k" using r(2) by (auto simp: slot_matches_def)
      then show ?thesis using IH [of es] ne m(1) iv r(1) False unfolding up by simp
    qed
  qed
qed

text \<open>
  C12: Searching a directory for a name returns the inode number and the slot of the first
  slot in use that has the name, and \<^verbatim>\<open>-E_NOENT\<close> when there is none. Nothing on the disk
  changes, and no memory but the entry that is read and the areas of the file system.
\<close>

theorem sfs_dirent_search_finds:
  assumes ok: "dir_ok a n sin s" and len: "length str \<le> SFS_MAX_FNAME_LEN" and nm: "names (kmem s) q str"
    and h: "heap s = p # hs" "p \<noteq> 0" and area: "{p..<p + 260} \<inter> scratch a s = {}"
    and q: "{q..q + length str} \<inter> (scratch a s \<union> {p..<p + 260}) = {}"
  shows "\<exists>ret i slot es m. sfs_dirent_search_nolock a n q s = Some (ret, i, slot, es, s\<lparr>heap := hs, kmem := m\<rparr>) \<and>
    touched a s {p..<p + 260} m \<and>
    (case List.find (\<lambda>k. slot_ino (din sin) s k \<noteq> 0 \<and> slot_name (din sin) s k = str) [0..<unat (blocks (din sin))] of
       None \<Rightarrow> ret = - E_NOENT
     | Some j \<Rightarrow> ret = 0 \<and> i = slot_ino (din sin) s j \<and> slot = int j)"
proof -
  let ?h = "s\<lparr>heap := hs\<rparr>" and ?N = "unat (blocks (din sin))"
  have F0: "file_ok a n sin s" using ok by (simp add: dir_ok_def)
  note F = file_okD [OF F0]
  have N: "?N \<le> 1036" by (rule inode_wfD(2) [OF F(3,4)])
  have sN: "sint (blocks (din sin)) = int ?N"
  proof -
    have "blocks (din sin) = (of_nat ?N :: u32)" by simp
    moreover have "sint (of_nat ?N :: u32) = int ?N"
      by (rule sint_small) (rule le_less_trans [OF N], simp)
    ultimately show ?thesis by metis
  qed
  have sl: "strlen (kmem s) q = Some (length str)" using nm by (simp add: names_def strlen_cstr)
  have sc: "scratch a ?h = scratch a s" by (simp add: scratch_def io_area_def cong: option.case_cong)
  have bm: "bmap d ?h = bmap d s" for d by (rule ext) (simp add: bmap_def indirect_ent_def)
  have uh: "used_block a ?h i = used_block a s i" for i by (simp add: used_block_def)
  have okh: "dir_ok a n sin ?h"
    using ok F(4) by (simp add: dir_ok_def file_ok_def locals_ok_def inode_wf_def Let_def bm uh cong: option.case_cong)
  have eq: "slot_matches str (din sin) ?h = (\<lambda>k. slot_ino (din sin) s k \<noteq> 0 \<and> slot_name (din sin) s k = str)"
    by (rule ext) (simp add: slot_matches_def slot_ino_def slot_name_def bm)
  have "\<exists>ret i slot es' m. sfs_dirent_search_loop a n q p (int 0) ?N (int ?N) ?h =
      Some (ret, i, slot, es', ?h\<lparr>kmem := m\<rparr>) \<and> touched a ?h {p..<p + 260} m \<and>
    search_result (List.find (slot_matches str (din sin) ?h) [0..<0 + ?N]) (din sin) ?h ret i slot"
    by (rule search_loop_spec [OF okh]) (use area nm q in \<open>simp_all add: sc\<close>)
  then obtain ret i slot es' m where r: "sfs_dirent_search_loop a n q p 0 ?N (int ?N) ?h =
      Some (ret, i, slot, es', ?h\<lparr>kmem := m\<rparr>)" "touched a ?h {p..<p + 260} m"
    "search_result (List.find (slot_matches str (din sin) ?h) [0..<?N]) (din sin) ?h ret i slot" by auto
  have "sfs_dirent_search_nolock a n q s = Some (ret, i, slot, es', ?h\<lparr>kmem := m\<rparr>)"
    using sl len h r(1) F(4) by (simp add: sfs_dirent_search_nolock_def kmalloc_def sN)
  moreover have "blk_of ?h m b = blk_of s m b" for b by (simp add: blk_def disk_base_def)
  then have "touched a s {p..<p + 260} m" using r(2) by (simp add: touched_def sc)
  moreover have "slot_ino (din sin) ?h j = slot_ino (din sin) s j" for j by (simp add: slot_ino_def bm)
  ultimately show ?thesis using r(3) unfolding eq search_result_def
    by (intro exI [of _ ret] exI [of _ i] exI [of _ slot] exI [of _ es'] exI [of _ m]) (simp split: option.splits)
qed

text \<open>A directory with one entry, in block 2, and a name to look for.\<close>

definition entry_sin :: sfs_inode where
  "entry_sin = demo_dir_sin\<lparr>din := (din demo_dir_sin)\<lparr>blocks := 1, direct := (replicate 12 0)[0 := 2]\<rparr>\<rparr>"

definition demo_dir :: kfs where
  "demo_dir = (upd_sin 11 (\<lambda>_. entry_sin) demo_file)\<lparr>heap := [30000]\<rparr>"

lemma u8_multiple: "(of_nat (256 * k + i) :: u8) = of_nat i"
proof -
  have "(of_nat (256 * k) :: u8) = of_nat 256 * of_nat k" by (rule of_nat_mult)
  also have "(of_nat 256 :: u8) = 0" by simp
  finally show ?thesis by (simp del: of_nat_mult)
qed

lemma demo_bytes: "bytes_at of_nat (256 * k + j) n = (map of_nat [j..<j + n] :: u8 list)"
proof -
  have "(of_nat (256 * k + j + i) :: u8) = of_nat (j + i)" for i
    using u8_multiple [of k "j + i"] by (simp only: add.assoc)
  then have "bytes_at of_nat (256 * k + j) n = (map (\<lambda>i. of_nat (j + i)) [0..<n] :: u8 list)"
    by (simp only: bytes_at_def)
  also have "\<dots> = map of_nat (map (\<lambda>i. i + j) [0..<n])" by (simp add: add.commute)
  finally show ?thesis by (simp only: map_add_upt add.commute)
qed

lemma u8_small: "0 < i \<Longrightarrow> i < 256 \<Longrightarrow> (of_nat i :: u8) \<noteq> 0"
  by (simp add: word_of_nat_eq_0_iff nat_dvd_not_less)

lemma demo_name:
  "takeWhile (\<lambda>c. c \<noteq> 0) (take 255 (drop 4 (map of_nat [0..<4096]))) = (map of_nat [4..<256] :: u8 list)"
proof -
  have u: "[4..<259] = [4..<256] @ [256..<259]" using upt_add_eq_append [of 4 256 3] by simp
  have "take 255 (drop 4 (map of_nat [0..<4096])) = (map of_nat [4..<259] :: u8 list)"
    by (simp only: take_map drop_map drop_upt) (simp del: upt_rec_numeral)
  also have "\<dots> = map of_nat [4..<256] @ map of_nat [256..<259]"
    by (simp only: map_append u)
  also have "(map of_nat [256..<259] :: u8 list) = 0 # map of_nat [257..<259]" by (subst upt_conv_Cons) simp_all
  finally have "take 255 (drop 4 (map of_nat [0..<4096])) =
    (map of_nat [4..<256] @ 0 # map of_nat [257..<259] :: u8 list)" .
  moreover have "c \<noteq> 0" if "c \<in> set (map of_nat [4..<256] :: u8 list)" for c
    using that u8_small by (auto simp del: upt_rec_numeral)
  moreover have "takeWhile (\<lambda>c. c \<noteq> 0) (xs @ 0 # ys) = xs" if "\<And>c. c \<in> set xs \<Longrightarrow> c \<noteq> 0" for xs ys :: "u8 list"
    using that by (induction xs) auto
  ultimately show ?thesis by metis
qed

lemma demo_dir_simps:
  "heap demo_dir = [30000]" "kmem demo_dir = of_nat" "vop_sin 11 demo_dir = Some entry_sin"
  "scratch 7 demo_dir = scratch 7 demo_file" "used_block 7 demo_dir i \<longleftrightarrow> used_block 7 demo_file i"
  "blk demo_dir k = map of_nat [0..<4096]"
proof -
  have "vop_sin 11 demo_file = Some demo_dir_sin" by (simp add: vop_sin_def demo_file_def)
  then show "vop_sin 11 demo_dir = Some entry_sin" by (simp add: demo_dir_def)
  show "scratch 7 demo_dir = scratch 7 demo_file"
    by (simp add: demo_dir_def scratch_def io_area_def cong: option.case_cong)
  show "used_block 7 demo_dir i \<longleftrightarrow> used_block 7 demo_file i" by (simp add: demo_dir_def used_block_def)
  have "65536 + k * 4096 = 256 * (256 + 16 * k) + 0" by simp
  then have "bytes_at of_nat (65536 + k * 4096) 4096 = (map of_nat [0..<0 + 4096] :: u8 list)"
    by (simp only: demo_bytes)
  then show "blk demo_dir k = map of_nat [0..<4096]"
    by (simp add: blk_def demo_dir_def del: upt_rec_numeral)
qed (simp_all add: demo_dir_def)

lemma entry_sin_simps:
  "direct (din entry_sin) = (replicate 12 0)[0 := 2]" "blocks (din entry_sin) = 1" "indirect (din entry_sin) = 0"
  "bmap (din entry_sin) s k = (if k = 0 then 2 else 0)"
  by (simp_all add: entry_sin_def demo_dir_sin_def demo_sin_def bmap_def nth_list_update)

lemma demo_dir_ok: "dir_ok 7 11 entry_sin demo_dir"
proof -
  note I = file_okD [OF file_invD(1) [OF demo_file_inv(1)]]
  have "used_block 7 demo_file 2" by (simp add: used_block_def) (simp add: demo_sfs_def demo_free)
  then have "inode_wf 7 11 demo_dir" unfolding inode_wf_def demo_dir_simps option.case Let_def entry_sin_simps
    by (simp add: lessThan_Suc)
  moreover have "fs_wf 7 demo_dir" "locals_ok 7 demo_dir"
    using I(1,2) by (simp_all add: demo_dir_def locals_ok_def io_area_def cong: option.case_cong)
  moreover have "itype (din entry_sin) = SFS_TYPE_DIR"
    by (simp add: entry_sin_def demo_dir_sin_def)
  ultimately show ?thesis unfolding dir_ok_def file_ok_def using demo_dir_simps(3) by blast
qed

theorem sfs_dirent_search_finds_witness:
  "\<exists>es t. sfs_dirent_search_nolock 7 11 24580 demo_dir = Some (0, 0x03020100, 0, es, t)"
proof -
  let ?str = "map of_nat [4..<256] :: u8 list"
  have b: "bytes_at of_nat 24580 252 = ?str"
    using demo_bytes [of 96 4 252] by (simp del: upt_rec_numeral)
  have len: "length ?str = 252" by (simp del: upt_rec_numeral)
  have s: "slot_name (din entry_sin) demo_dir 0 = ?str" "slot_ino (din entry_sin) demo_dir 0 = 0x03020100"
    unfolding slot_name_def slot_ino_def demo_dir_simps entry_sin_simps SFS_MAX_FNAME_LEN_def demo_name
    by (simp_all add: of_le32_def take_map del: upt_rec_numeral) 
  have "(of_nat (24580 + i) :: u8) \<noteq> 0" if "i < 252" for i
  proof -
    have "24580 + i = 256 * 96 + (4 + i)" by simp
    then have "(of_nat (24580 + i) :: u8) = of_nat (4 + i)" by (simp only: u8_multiple)
    then show ?thesis using u8_small [of "4 + i"] that by (simp del: of_nat_add)
  qed
  then have "cstr of_nat 24580 252" by (simp add: cstr_def)
  then have "names (kmem demo_dir) 24580 ?str"
    unfolding names_def demo_dir_simps len b by (intro conjI refl)
  moreover have "{30000..<30000 + 260} \<inter> scratch 7 demo_dir = {}"
    "{24580..24580 + length ?str} \<inter> (scratch 7 demo_dir \<union> {30000..<30000 + 260}) = {}"
    unfolding demo_dir_simps demo_file_inv(2) len by auto
  ultimately show ?thesis
    using sfs_dirent_search_finds [of 7 11 entry_sin demo_dir ?str 24580 30000 "[]"] demo_dir_ok
    unfolding len demo_dir_simps entry_sin_simps using s by (auto simp: SFS_MAX_FNAME_LEN_def simp del: upt_rec_numeral)
qed

end
