(* ===== verification/FreePages.thy ===== *)
theory FreePages
  imports DList
begin

text \<open>
  The physical page allocators: first fit (\<^verbatim>\<open>kern/mm/default_pmm.c\<close>), which lab 8 uses, and best
  fit (\<^verbatim>\<open>kern/mm/best_fit_pmm.c\<close> of lab 2), with the flags of \<^verbatim>\<open>struct Page\<close> from
  \<^verbatim>\<open>kern/mm/memlayout.h\<close> and \<^verbatim>\<open>libs/atomic.h\<close>. A pointer to a page descriptor is its index in
  the array \<^verbatim>\<open>pages\<close>, so \<^verbatim>\<open>page + n\<close> and \<^verbatim>\<open>base < page\<close> are those of the numbers; the entry
  \<^verbatim>\<open>page_link\<close> carries the number of its page (\<^verbatim>\<open>le2page\<close> is the identity), and the head of the
  free list is a number of its own. The free list holds the first page of every free block,
  whose length is in its \<^verbatim>\<open>property\<close>.
\<close>

section \<open>Page descriptors\<close>

record page =
  page_ref :: int
  page_flags :: u64
  property :: u32

record free_area =
  pages :: "nat \<Rightarrow> page"
  free_links :: links
  free_list :: nat
  nr_free :: u32

definition atomic_set_bit :: "nat \<Rightarrow> u64 \<Rightarrow> u64" where
  "atomic_set_bit nr w = w OR push_bit nr 1"

definition atomic_clear_bit :: "nat \<Rightarrow> u64 \<Rightarrow> u64" where
  "atomic_clear_bit nr w = w AND NOT (push_bit nr 1)"

definition atomic_test_bit :: "nat \<Rightarrow> u64 \<Rightarrow> bool" where
  "atomic_test_bit nr w \<longleftrightarrow> drop_bit nr w AND 1 \<noteq> 0"

definition PG_reserved :: nat where [layout]: "PG_reserved = 0"
definition PG_property :: nat where [layout]: "PG_property = 1"

definition upd_page :: "nat \<Rightarrow> (page \<Rightarrow> page) \<Rightarrow> free_area \<Rightarrow> free_area" where
  "upd_page p f s = s\<lparr>pages := (pages s)(p := f (pages s p))\<rparr>"

definition PageReserved :: "nat \<Rightarrow> free_area \<Rightarrow> bool" where
  "PageReserved p s \<longleftrightarrow> atomic_test_bit PG_reserved (page_flags (pages s p))"

definition PageProperty :: "nat \<Rightarrow> free_area \<Rightarrow> bool" where
  "PageProperty p s \<longleftrightarrow> atomic_test_bit PG_property (page_flags (pages s p))"

definition SetPageReserved :: "nat \<Rightarrow> free_area \<Rightarrow> free_area" where
  "SetPageReserved p = upd_page p (\<lambda>g. g\<lparr>page_flags := atomic_set_bit PG_reserved (page_flags g)\<rparr>)"

definition SetPageProperty :: "nat \<Rightarrow> free_area \<Rightarrow> free_area" where
  "SetPageProperty p = upd_page p (\<lambda>g. g\<lparr>page_flags := atomic_set_bit PG_property (page_flags g)\<rparr>)"

definition ClearPageProperty :: "nat \<Rightarrow> free_area \<Rightarrow> free_area" where
  "ClearPageProperty p = upd_page p (\<lambda>g. g\<lparr>page_flags := atomic_clear_bit PG_property (page_flags g)\<rparr>)"

definition set_property :: "nat \<Rightarrow> u32 \<Rightarrow> free_area \<Rightarrow> free_area" where
  "set_property p v = upd_page p (\<lambda>g. g\<lparr>property := v\<rparr>)"

definition set_page_ref :: "nat \<Rightarrow> int \<Rightarrow> free_area \<Rightarrow> free_area" where
  "set_page_ref p v = upd_page p (\<lambda>g. g\<lparr>page_ref := v\<rparr>)"

section \<open>The operations of first fit\<close>

definition default_init :: "free_area \<Rightarrow> free_area" where
  "default_init s = s\<lparr>free_links := list_init (free_list s) (free_links s), nr_free := 0\<rparr>"

fun memmap_pages :: "nat \<Rightarrow> nat \<Rightarrow> free_area \<Rightarrow> free_area option" where
  "memmap_pages 0 p s = Some s"
| "memmap_pages (Suc k) p s = do {
     ensure (PageReserved p s);
     memmap_pages k (p + 1) (upd_page p (\<lambda>g. g\<lparr>page_flags := 0, property := 0, page_ref := 0\<rparr>) s)
   }"

text \<open>
  The loop that puts a block at its place in the free list, without the \<^verbatim>\<open>break\<close> that the
  source lacks in its second branch.
\<close>

partial_function (option) insert_loop :: "nat \<Rightarrow> nat \<Rightarrow> free_area \<Rightarrow> free_area option" where
  "insert_loop base le s =
     (let le = list_next le (free_links s) in
      if le = free_list s then Some s
      else if base < le then Some (s\<lparr>free_links := list_add_before le base (free_links s)\<rparr>)
      else insert_loop base le
        (if list_next le (free_links s) = free_list s
         then s\<lparr>free_links := list_add le base (free_links s)\<rparr> else s))"

definition insert_block :: "nat \<Rightarrow> free_area \<Rightarrow> free_area option" where
  "insert_block base s =
     (if list_empty (free_list s) (free_links s)
      then Some (s\<lparr>free_links := list_add (free_list s) base (free_links s)\<rparr>)
      else insert_loop base (free_list s) s)"

definition default_init_memmap :: "nat \<Rightarrow> nat \<Rightarrow> free_area \<Rightarrow> free_area option" where
  "default_init_memmap base n s = do {
     ensure (n > 0);
     s \<leftarrow> memmap_pages n base s;
     let s = set_property base (of_nat n) s;
     let s = SetPageProperty base s;
     let s = s\<lparr>nr_free := nr_free s + of_nat n\<rparr>;
     insert_block base s
   }"

partial_function (option) first_fit_find :: "nat \<Rightarrow> nat \<Rightarrow> free_area \<Rightarrow> nat option option" where
  "first_fit_find n le s =
     (let le = list_next le (free_links s) in
      if le = free_list s then Some None
      else if n \<le> unat (property (pages s le)) then Some (Some le)
      else first_fit_find n le s)"

text \<open>Taking \<open>n\<close> pages from the block that was found; both allocators end with it.\<close>

definition take_block :: "nat option \<Rightarrow> nat \<Rightarrow> free_area \<Rightarrow> nat option \<times> free_area" where
  "take_block found n s =
     (case found of None \<Rightarrow> (None, s)
      | Some page \<Rightarrow>
        (let pre = list_prev page (free_links s);
             s = s\<lparr>free_links := list_del page (free_links s)\<rparr>;
             s = (if n < unat (property (pages s page)) then
                    (let p = page + n;
                         s = set_property p (of_nat (unat (property (pages s page)) - n)) s;
                         s = SetPageProperty p s
                     in s\<lparr>free_links := list_add pre p (free_links s)\<rparr>)
                  else s);
             s = s\<lparr>nr_free := nr_free s - of_nat n\<rparr>
         in (Some page, ClearPageProperty page s)))"

definition default_alloc_pages :: "nat \<Rightarrow> free_area \<Rightarrow> (nat option \<times> free_area) option" where
  "default_alloc_pages n s = do {
     ensure (n > 0);
     if n > unat (nr_free s) then Some (None, s)
     else do {
       found \<leftarrow> first_fit_find n (free_list s) s;
       Some (take_block found n s)
     }
   }"

fun unuse_pages :: "nat \<Rightarrow> nat \<Rightarrow> free_area \<Rightarrow> free_area option" where
  "unuse_pages 0 p s = Some s"
| "unuse_pages (Suc k) p s = do {
     ensure (\<not> PageReserved p s \<and> \<not> PageProperty p s);
     unuse_pages k (p + 1) (set_page_ref p 0 (upd_page p (\<lambda>g. g\<lparr>page_flags := 0\<rparr>) s))
   }"

definition merge_prev :: "nat \<Rightarrow> free_area \<Rightarrow> nat \<times> free_area" where
  "merge_prev base s =
     (let le = list_prev base (free_links s) in
      if le \<noteq> free_list s \<and> le + unat (property (pages s le)) = base then
        (let s = set_property le (property (pages s le) + property (pages s base)) s;
             s = ClearPageProperty base s
         in (le, s\<lparr>free_links := list_del base (free_links s)\<rparr>))
      else (base, s))"

definition merge_next :: "nat \<Rightarrow> free_area \<Rightarrow> free_area" where
  "merge_next base s =
     (let le = list_next base (free_links s) in
      if le \<noteq> free_list s \<and> base + unat (property (pages s base)) = le then
        (let s = set_property base (property (pages s base) + property (pages s le)) s;
             s = ClearPageProperty le s
         in s\<lparr>free_links := list_del le (free_links s)\<rparr>)
      else s)"

definition default_free_pages :: "nat \<Rightarrow> nat \<Rightarrow> free_area \<Rightarrow> free_area option" where
  "default_free_pages base n s = do {
     ensure (n > 0);
     s \<leftarrow> unuse_pages n base s;
     let s = set_property base (of_nat n) s;
     let s = SetPageProperty base s;
     let s = s\<lparr>nr_free := nr_free s + of_nat n\<rparr>;
     s \<leftarrow> insert_block base s;
     let (base, s) = merge_prev base s;
     Some (merge_next base s)
   }"

definition default_nr_free_pages :: "free_area \<Rightarrow> u32" where
  "default_nr_free_pages s = nr_free s"

section \<open>What best fit does differently\<close>

partial_function (option) best_fit_find ::
    "nat \<Rightarrow> nat \<Rightarrow> nat option \<Rightarrow> u32 \<Rightarrow> free_area \<Rightarrow> nat option option" where
  "best_fit_find n le page min_size s =
     (let le = list_next le (free_links s) in
      if le = free_list s then Some page
      else if PageProperty le s \<and> n \<le> unat (property (pages s le)) \<and> property (pages s le) < min_size
      then best_fit_find n le (Some le) (property (pages s le)) s
      else best_fit_find n le page min_size s)"

definition best_fit_alloc_pages :: "nat \<Rightarrow> free_area \<Rightarrow> (nat option \<times> free_area) option" where
  "best_fit_alloc_pages n s = do {
     ensure (n > 0);
     if n > unat (nr_free s) then Some (None, s)
     else do {
       found \<leftarrow> best_fit_find n (free_list s) None (nr_free s + 1) s;
       Some (take_block found n s)
     }
   }"

section \<open>The state after each step\<close>

lemma upd_page_simps [simp]:
  "pages (upd_page p f s) = (pages s)(p := f (pages s p))" "free_links (upd_page p f s) = free_links s"
  "free_list (upd_page p f s) = free_list s" "nr_free (upd_page p f s) = nr_free s"
  by (simp_all add: upd_page_def)

lemmas page_op_defs = SetPageProperty_def ClearPageProperty_def set_property_def set_page_ref_def

lemma page_op_simps [simp]:
  "free_links (SetPageProperty p s) = free_links s" "free_links (ClearPageProperty p s) = free_links s"
  "free_links (set_property p v s) = free_links s" "free_links (set_page_ref p r s) = free_links s"
  "free_list (SetPageProperty p s) = free_list s" "free_list (ClearPageProperty p s) = free_list s"
  "free_list (set_property p v s) = free_list s" "free_list (set_page_ref p r s) = free_list s"
  "nr_free (SetPageProperty p s) = nr_free s" "nr_free (ClearPageProperty p s) = nr_free s"
  "nr_free (set_property p v s) = nr_free s" "nr_free (set_page_ref p r s) = nr_free s"
  by (simp_all add: page_op_defs)

lemma test_bit_eq: "atomic_test_bit nr w \<longleftrightarrow> bit w nr"
  by (simp add: atomic_test_bit_def and_one_eq bit_iff_odd_drop_bit odd_iff_mod_2_eq_one)

lemma test_bit_ops [simp]:
  "atomic_test_bit m (atomic_set_bit n w) \<longleftrightarrow> (m = n \<and> n < 64) \<or> atomic_test_bit m w"
  "atomic_test_bit m (atomic_clear_bit n w) \<longleftrightarrow> m \<noteq> n \<and> atomic_test_bit m w"
  "\<not> atomic_test_bit m 0"
  by (auto simp: test_bit_eq atomic_set_bit_def atomic_clear_bit_def bit_simps dest: bit_imp_le_length)

lemma flags_simps [simp]:
  "PageProperty q (SetPageProperty p s) \<longleftrightarrow> q = p \<or> PageProperty q s"
  "PageProperty q (ClearPageProperty p s) \<longleftrightarrow> q \<noteq> p \<and> PageProperty q s"
  "PageProperty q (set_property p v s) \<longleftrightarrow> PageProperty q s"
  "PageProperty q (s\<lparr>free_links := l\<rparr>) \<longleftrightarrow> PageProperty q s"
  "PageProperty q (s\<lparr>nr_free := k\<rparr>) \<longleftrightarrow> PageProperty q s"
  "PageReserved q (SetPageProperty p s) \<longleftrightarrow> PageReserved q s"
  "PageReserved q (ClearPageProperty p s) \<longleftrightarrow> PageReserved q s"
  "PageReserved q (set_property p v s) \<longleftrightarrow> PageReserved q s"
  "PageReserved q (s\<lparr>free_links := l\<rparr>) \<longleftrightarrow> PageReserved q s"
  "PageReserved q (s\<lparr>nr_free := k\<rparr>) \<longleftrightarrow> PageReserved q s"
  by (auto simp: PageProperty_def PageReserved_def page_op_defs PG_property_def PG_reserved_def)

definition len :: "free_area \<Rightarrow> nat \<Rightarrow> nat" where
  "len s p = unat (property (pages s p))"

lemma len_simps [simp]:
  "len (SetPageProperty p s) q = len s q" "len (ClearPageProperty p s) q = len s q"
  "len (set_property p v s) q = (if q = p then unat v else len s q)"
  "len (s\<lparr>free_links := l\<rparr>) q = len s q" "len (s\<lparr>nr_free := k\<rparr>) q = len s q"
  by (auto simp: len_def page_op_defs)

section \<open>The invariant of the free list\<close>

text \<open>
  \<open>free_inv s xs F\<close>: the free list holds the blocks that begin at \<open>xs\<close>, in ascending order and
  apart from each other; \<open>F\<close> are the pages of these blocks, of which exactly the first one of
  a block is marked and none is reserved, and \<^verbatim>\<open>nr_free\<close> is their number.
\<close>

definition block :: "free_area \<Rightarrow> nat \<Rightarrow> nat set" where
  "block s x = {x..<x + len s x}"

definition free_inv :: "free_area \<Rightarrow> nat list \<Rightarrow> nat set \<Rightarrow> bool" where
  "free_inv s xs F \<longleftrightarrow>
     clist (free_links s) (free_list s) xs \<and>
     sorted_wrt (\<lambda>x y. x + len s x < y) xs \<and> (\<forall>x\<in>set xs. 0 < len s x) \<and>
     F = (\<Union>x\<in>set xs. block s x) \<and> free_list s \<notin> F \<and>
     (\<forall>p\<in>F. \<not> PageReserved p s \<and> (PageProperty p s \<longleftrightarrow> p \<in> set xs)) \<and>
     unat (nr_free s) = sum_list (map (len s) xs)"

lemma free_invD:
  assumes "free_inv s xs F"
  shows "clist (free_links s) (free_list s) xs" and "sorted_wrt (\<lambda>x y. x + len s x < y) xs"
    and "\<And>x. x \<in> set xs \<Longrightarrow> 0 < len s x" and "F = (\<Union>x\<in>set xs. block s x)" and "free_list s \<notin> F"
    and "\<And>p. p \<in> F \<Longrightarrow> \<not> PageReserved p s" and "\<And>p. p \<in> F \<Longrightarrow> PageProperty p s \<longleftrightarrow> p \<in> set xs"
    and "unat (nr_free s) = sum_list (map (len s) xs)"
  using assms unfolding free_inv_def by blast+

lemma free_invI:
  assumes "clist (free_links s) (free_list s) xs" and "sorted_wrt (\<lambda>x y. x + len s x < y) xs"
    and "\<And>x. x \<in> set xs \<Longrightarrow> 0 < len s x" and "F = (\<Union>x\<in>set xs. block s x)" and "free_list s \<notin> F"
    and "\<And>p. p \<in> F \<Longrightarrow> \<not> PageReserved p s" and "\<And>p. p \<in> F \<Longrightarrow> PageProperty p s \<longleftrightarrow> p \<in> set xs"
    and "unat (nr_free s) = sum_list (map (len s) xs)"
  shows "free_inv s xs F"
  unfolding free_inv_def
  by (intro conjI ballI; (rule assms(1,2,4,5,8) | (erule assms(3,6,7))))

lemma clist_next_last: "clist l h (us @ vs) \<Longrightarrow> list_next (last (h # us)) l = hd (vs @ [h])"
  by (cases us rule: rev_cases) (auto simp: clist_next_head clist_next)

lemma blocks_marked:
  assumes inv: "free_inv s xs F"
  shows "\<forall>x\<in>set xs. x \<in> F \<and> PageProperty x s"
proof
  fix x assume x: "x \<in> set xs"
  have "x \<in> block s x" using free_invD(3) [OF inv x] by (simp add: block_def)
  then have "x \<in> F" unfolding free_invD(4) [OF inv] using x by blast
  then show "x \<in> F \<and> PageProperty x s" using free_invD(7) [OF inv] x by blast
qed

lemma first_fit_find_list:
  assumes "clist (free_links s) (free_list s) (us @ vs)"
  shows "first_fit_find n (last (free_list s # us)) s = Some (List.find (\<lambda>x. n \<le> len s x) vs)"
  using assms
proof (induction vs arbitrary: us)
  case Nil
  have "list_next (last (free_list s # us)) (free_links s) = free_list s"
    using clist_next_last [OF Nil] by simp
  then show ?case by (subst first_fit_find.simps) simp
next
  case (Cons v vs)
  have nx: "list_next (last (free_list s # us)) (free_links s) = v"
    using clist_next_last [OF Cons.prems] by simp
  have "v \<noteq> free_list s" using Cons.prems by (simp add: clist_def)
  then show ?case using Cons.IH [of "us @ [v]"] Cons.prems nx
    by (subst first_fit_find.simps) (simp add: len_def)
qed

text \<open>The block that best fit takes: the first of the shortest ones that are long enough.\<close>

fun best :: "(nat \<Rightarrow> nat) \<Rightarrow> nat \<Rightarrow> nat option \<Rightarrow> nat \<Rightarrow> nat list \<Rightarrow> nat option" where
  "best sz n b m [] = b"
| "best sz n b m (x # xs) = (if n \<le> sz x \<and> sz x < m then best sz n (Some x) (sz x) xs else best sz n b m xs)"

lemma best_fit_find_list:
  assumes "clist (free_links s) (free_list s) (us @ vs)" and "\<forall>x\<in>set vs. PageProperty x s"
  shows "best_fit_find n (last (free_list s # us)) b m s = Some (best (len s) n b (unat m) vs)"
  using assms
proof (induction vs arbitrary: us b m)
  case Nil
  have "list_next (last (free_list s # us)) (free_links s) = free_list s"
    using clist_next_last [OF Nil(1)] by simp
  then show ?case by (subst best_fit_find.simps) simp
next
  case (Cons v vs)
  have nx: "list_next (last (free_list s # us)) (free_links s) = v"
    using clist_next_last [OF Cons.prems(1)] by simp
  have "v \<noteq> free_list s" using Cons.prems by (simp add: clist_def)
  then show ?case using Cons.IH [of "us @ [v]"] Cons.prems nx
    by (subst best_fit_find.simps) (simp add: word_less_nat_alt flip: len_def)
qed

lemma best_Some: "best sz n (Some b) m xs \<noteq> None"
  by (induction sz n "Some b" m xs arbitrary: b rule: best.induct) auto

lemma best_spec:
  assumes "best sz n None m xs = Some x"
  shows "x \<in> set xs \<and> n \<le> sz x \<and> (\<forall>y\<in>set xs. n \<le> sz y \<longrightarrow> sz x \<le> sz y)"
proof -
  have "(b = None \<longrightarrow> x \<in> set xs \<and> n \<le> sz x \<and> sz x < m) \<and>
      (\<forall>c. b = Some c \<longrightarrow> x = c \<or> x \<in> set xs \<and> n \<le> sz x \<and> sz x < m) \<and>
      (\<forall>y\<in>set xs. n \<le> sz y \<longrightarrow> m \<le> sz y \<or> sz x \<le> sz y)"
    if "best sz n b m xs = Some x" "b \<noteq> None \<Longrightarrow> sz (the b) = m" for b
    using that by (induction sz n b m xs rule: best.induct) (auto split: if_splits)
  from this [OF assms] show ?thesis by auto
qed

section \<open>Taking a block\<close>

lemma unat_minus_of_nat:
  assumes "n \<le> unat (a :: u32)"
  shows "unat (a - of_nat n) = unat a - n"
proof -
  have "unat a < 2 ^ LENGTH(32)" by (rule unsigned_less)
  then have "n < 2 ^ 32" using assms by simp
  then have "unat (of_nat n :: u32) = n" by (simp add: unat_of_nat)
  then show ?thesis using assms by (simp add: unat_sub word_le_nat_alt)
qed

lemma block_mem: "p \<in> block s x \<longleftrightarrow> x \<le> p \<and> p < x + len s x"
  by (simp add: block_def)

text \<open>Blocks before and after \<open>x\<close> in the list lie before and after it in memory.\<close>

lemma blocks_around:
  assumes "sorted_wrt (\<lambda>x y. x + len s x < y) (us @ x # vs)"
  shows "\<And>u. u \<in> set us \<Longrightarrow> u + len s u < x" and "\<And>v. v \<in> set vs \<Longrightarrow> x + len s x < v"
    and "x \<notin> set us" and "x \<notin> set vs"
proof -
  show a: "u + len s u < x" if "u \<in> set us" for u using assms(1) that by (simp add: sorted_wrt_append)
  show b: "x + len s x < v" if "v \<in> set vs" for v using assms(1) that by (simp add: sorted_wrt_append)
  show "x \<notin> set us" using a [of x] by fastforce
  show "x \<notin> set vs" using b [of x] by fastforce
qed

definition unused :: "free_area \<Rightarrow> nat set \<Rightarrow> bool" where
  "unused s P \<longleftrightarrow> (\<forall>p\<in>P. \<not> PageReserved p s \<and> \<not> PageProperty p s)"

lemma take_all:
  assumes inv: "free_inv s (us @ x # vs) F"
  shows "free_inv (snd (take_block (Some x) (len s x) s)) (us @ vs) (F - {x..<x + len s x}) \<and>
    unused (snd (take_block (Some x) (len s x) s)) {x..<x + len s x}"
proof -
  note I = free_invD [OF inv]
  note A = blocks_around [OF I(2)]
  let ?t = "snd (take_block (Some x) (len s x) s)"
  have t: "?t = ClearPageProperty x (s\<lparr>free_links := list_del x (free_links s),
      nr_free := nr_free s - of_nat (len s x)\<rparr>)"
    by (simp add: take_block_def Let_def flip: len_def)
  have x: "x \<in> F" "{x..<x + len s x} \<subseteq> F" using I(3) [of x] unfolding I(4) by (auto simp: block_def)
  have d: "p \<notin> block s y" if "p \<in> block s x" "y \<in> set (us @ vs)" for p y
    using that A(1) [of y] A(2) [of y] by (auto simp: block_def)
  have F: "F - {x..<x + len s x} = (\<Union>y\<in>set (us @ vs). block s y)"
    using d unfolding I(4) by (auto simp: block_def [of s x])
  have lt: "len ?t = len s" by (rule ext) (simp add: t)
  then have bt: "block ?t = block s" by (intro ext) (simp add: block_def)
  have "free_inv ?t (us @ vs) (F - {x..<x + len s x})"
  proof (rule free_invI, unfold lt bt)
    show "clist (free_links ?t) (free_list ?t) (us @ vs)" using clist_del [OF I(1)] by (simp add: t)
    show "sorted_wrt (\<lambda>x y. x + len s x < y) (us @ vs)" using I(2) by (simp add: sorted_wrt_append)
    show "0 < len s y" if "y \<in> set (us @ vs)" for y using I(3) that by simp
    show "F - {x..<x + len s x} = (\<Union>y\<in>set (us @ vs). block s y)" by (rule F)
    show "free_list ?t \<notin> F - {x..<x + len s x}" using I(5) by (simp add: t)
    fix p assume p: "p \<in> F - {x..<x + len s x}"
    then show "\<not> PageReserved p ?t" using I(6) by (simp add: t)
    have "p \<noteq> x" using p I(3) [of x] by auto
    then show "PageProperty p ?t \<longleftrightarrow> p \<in> set (us @ vs)" using I(7) [of p] p by (simp add: t)
  next
    show "unat (nr_free ?t) = sum_list (map (len s) (us @ vs))"
      using I(8) by (simp add: t unat_minus_of_nat)
  qed
  moreover have "unused ?t {x..<x + len s x}"
  proof -
    have "p \<notin> set (us @ x # vs)" if "p \<in> {x..<x + len s x}" "p \<noteq> x" for p
      using that A(1) [of p] A(2) [of p] by auto
    then show ?thesis using I(6,7) x unfolding unused_def t by auto
  qed
  ultimately show ?thesis ..
qed

lemma take_part:
  assumes inv: "free_inv s (us @ x # vs) F" and n: "0 < n" "n < len s x"
  shows "free_inv (snd (take_block (Some x) n s)) (us @ (x + n) # vs) (F - {x..<x + n}) \<and>
    unused (snd (take_block (Some x) n s)) {x..<x + n}"
proof -
  note I = free_invD [OF inv]
  note A = blocks_around [OF I(2)]
  let ?t = "snd (take_block (Some x) n s)" and ?y = "x + n"
  have pre: "list_prev x (free_links s) = last (free_list s # us)" by (rule clist_prev [OF I(1)])
  let ?l = "list_add (last (free_list s # us)) ?y (list_del x (free_links s))"
  have t: "?t = ClearPageProperty x ((SetPageProperty ?y (set_property ?y (of_nat (len s x - n))
      (s\<lparr>free_links := list_del x (free_links s)\<rparr>)))\<lparr>free_links := ?l, nr_free := nr_free s - of_nat n\<rparr>)"
    using n by (simp add: take_block_def Let_def pre flip: len_def)
  have x: "block s x \<subseteq> F" unfolding I(4) by auto
  have y: "?y \<in> block s x" using n by (simp add: block_def)
  have d: "p \<notin> block s z" if "p \<in> block s x" "z \<in> set (us @ vs)" for p z
    using that A(1) [of z] A(2) [of z] by (auto simp: block_def)
  have ny: "?y \<notin> set (us @ vs)" using d [OF y] I(3) by (force simp: block_def)
  have lw: "unat (of_nat (len s x - n) :: u32) = len s x - n"
  proof -
    have "unat (property (pages s x)) < 2 ^ LENGTH(32)" by (rule unsigned_less)
    then show ?thesis by (simp add: unat_of_nat len_def)
  qed
  have lt: "len ?t = (len s)(?y := len s x - n)" by (rule ext) (simp add: t lw)
  have lo: "len ?t z = len s z" if "z \<in> set (us @ vs)" for z using that ny by (auto simp: lt)
  have bt: "block ?t z = block s z" if "z \<in> set (us @ vs)" for z using lo [OF that] by (simp add: block_def)
  have by': "block ?t ?y = block s x - {x..<x + n}" using n by (auto simp: block_def lt)
  have F: "F - {x..<x + n} = (\<Union>z\<in>set (us @ ?y # vs). block ?t z)"
  proof -
    have "{x..<x + n} \<subseteq> block s x" using n by (auto simp: block_def)
    then have "block s z - {x..<x + n} = block s z" if "z \<in> set (us @ vs)" for z using d that by blast
    then have "F - {x..<x + n} = (\<Union>z\<in>set (us @ vs). block s z) \<union> (block s x - {x..<x + n})"
      unfolding I(4) by auto
    then show ?thesis using bt by' by auto
  qed
  have "free_inv ?t (us @ ?y # vs) (F - {x..<x + n})"
  proof (rule free_invI)
    have "?y \<noteq> free_list s" using y x I(5) by auto
    then have "?y \<notin> set (free_list s # us @ vs)" using ny by simp
    then have "clist ?l (free_list s) (us @ ?y # vs)"
      unfolding list_add_def by (rule clist_add_after [OF clist_del [OF I(1)]])
    then show "clist (free_links ?t) (free_list ?t) (us @ ?y # vs)" by (simp add: t)
    have "sorted_wrt (\<lambda>x y. x + len s x < y) (us @ vs)" using I(2) by (simp add: sorted_wrt_append)
    then have "sorted_wrt (\<lambda>x y. x + len ?t x < y) (us @ vs)"
      by (rule sorted_wrt_mono_rel [rotated]) (simp add: lo)
    moreover have "u + len ?t u < ?y" if "u \<in> set us" for u using A(1) [OF that] lo [of u] that by simp
    moreover have "?y + len ?t ?y < v" if "v \<in> set vs" for v using A(2) [OF that] n by (simp add: lt)
    ultimately show "sorted_wrt (\<lambda>x y. x + len ?t x < y) (us @ ?y # vs)"
      by (simp add: sorted_wrt_append)
    show "0 < len ?t z" if "z \<in> set (us @ ?y # vs)" for z using I(3) [of z] that n by (auto simp: lt)
    show "F - {x..<x + n} = (\<Union>z\<in>set (us @ ?y # vs). block ?t z)" by (rule F)
    show "free_list ?t \<notin> F - {x..<x + n}" using I(5) by (simp add: t)
    fix p assume p: "p \<in> F - {x..<x + n}"
    then show "\<not> PageReserved p ?t" using I(6) by (simp add: t)
    have "p \<noteq> x" using p n by auto
    then show "PageProperty p ?t \<longleftrightarrow> p \<in> set (us @ ?y # vs)" using I(7) [of p] p by (auto simp: t)
  next
    have "n \<le> unat (nr_free s)" using I(8) n by simp
    moreover have "map (len ?t) us = map (len s) us" "map (len ?t) vs = map (len s) vs"
      using lo by simp_all
    ultimately show "unat (nr_free ?t) = sum_list (map (len ?t) (us @ ?y # vs))"
    proof -
      assume "n \<le> unat (nr_free s)" and m: "map (len ?t) us = map (len s) us" "map (len ?t) vs = map (len s) vs"
      then have "unat (nr_free ?t) = unat (nr_free s) - n" by (simp add: t unat_minus_of_nat)
      moreover have "len ?t ?y = len s x - n" by (simp add: lt)
      ultimately show ?thesis using I(8) n by (simp add: m)
    qed
  qed
  moreover have "unused ?t {x..<x + n}"
  proof -
    have "\<not> PageReserved p ?t \<and> \<not> PageProperty p ?t" if p: "p \<in> {x..<x + n}" for p
    proof -
      have F: "p \<in> F" using p n x by (auto simp: block_def)
      have "p \<notin> set us" "p \<notin> set vs" using p n A(1) [of p] A(2) [of p] by auto
      then show ?thesis using I(6,7) [OF F] p by (auto simp: t)
    qed
    then show ?thesis by (simp add: unused_def)
  qed
  ultimately show ?thesis ..
qed

lemma blocks_apart:
  assumes "sorted_wrt (\<lambda>x y. x + len s x < y) xs" and "x \<in> set xs" and "y \<in> set xs" and "x < y"
  shows "x + len s x < y"
proof -
  obtain us vs where xs: "xs = us @ x # vs" using split_list [OF assms(2)] by blast
  note A = blocks_around [OF assms(1) [unfolded xs]]
  show ?thesis using assms(3,4) A(1) [of y] A(2) [of y] xs by fastforce
qed

text \<open>A run of free pages lies in one block, because the blocks are apart from each other.\<close>

lemma run_in_block:
  assumes inv: "free_inv s xs F" and "0 < n" and "{p..<p + n} \<subseteq> F"
  shows "\<exists>y\<in>set xs. y \<le> p \<and> p + n \<le> y + len s y"
  using assms(2,3)
proof (induction n)
  case 0
  then show ?case by simp
next
  case (Suc n)
  note I = free_invD [OF inv]
  have "p + n \<in> F" using Suc.prems(2) by auto
  then obtain z where z: "z \<in> set xs" "z \<le> p + n" "p + n < z + len s z" unfolding I(4) by (auto simp: block_def)
  show ?case
  proof (cases "n = 0")
    case True
    then show ?thesis using z by auto
  next
    case False
    then obtain y where y: "y \<in> set xs" "y \<le> p" "p + n \<le> y + len s y"
      using Suc.IH Suc.prems(2) by fastforce
    have "\<not> z < y" using blocks_apart [OF I(2) z(1) y(1)] y(2) z(3) by linarith
    moreover have "\<not> y < z" using blocks_apart [OF I(2) y(1) z(1)] y(3) z(2) by linarith
    ultimately show ?thesis using y z by auto
  qed
qed

lemma take_block_spec:
  assumes inv: "free_inv s xs F" and x: "x \<in> set xs" and n: "0 < n" "n \<le> len s x"
  shows "\<exists>t xs'. take_block (Some x) n s = (Some x, t) \<and> free_inv t xs' (F - {x..<x + n}) \<and>
    unused t {x..<x + n} \<and> {x..<x + n} \<subseteq> F"
proof -
  obtain us vs where xs: "xs = us @ x # vs" using split_list [OF x] by blast
  have F: "{x..<x + n} \<subseteq> F" using x n unfolding free_invD(4) [OF inv] by (auto simp: block_def)
  have "fst (take_block (Some x) n s) = Some x" by (simp add: take_block_def Let_def)
  moreover have "\<exists>xs'. free_inv (snd (take_block (Some x) n s)) xs' (F - {x..<x + n}) \<and>
    unused (snd (take_block (Some x) n s)) {x..<x + n}"
    using take_part [of s us x vs F n] take_all [of s us x vs F] inv n unfolding xs
    by (cases "n = len s x") auto
  ultimately show ?thesis using F by (cases "take_block (Some x) n s") auto
qed

lemma len_le_nr_free: "free_inv s xs F \<Longrightarrow> x \<in> set xs \<Longrightarrow> len s x \<le> unat (nr_free s)"
  using free_invD(8) member_le_sum_list [of "len s x" "map (len s) xs"] by fastforce

text \<open>
  \<open>alloc_spec alloc\<close>: the result of allocating pages. The pages are free before, taken from the
  free ones and not marked afterwards; there is none only if no run of free pages is long enough.
\<close>

definition alloc_spec :: "nat \<Rightarrow> nat set \<Rightarrow> free_area \<Rightarrow> nat option \<times> free_area \<Rightarrow> bool" where
  "alloc_spec n F s r \<longleftrightarrow>
     (case r of (None, t) \<Rightarrow> t = s \<and> (\<nexists>p. {p..<p + n} \<subseteq> F)
      | (Some x, t) \<Rightarrow> {x..<x + n} \<subseteq> F \<and> unused t {x..<x + n} \<and> (\<exists>xs. free_inv t xs (F - {x..<x + n})))"

lemma find_Some_first:
  assumes "List.find P xs = Some x" and "sorted_wrt (\<lambda>x y. x + len s x < y) xs" and "y \<in> set xs" and "P y"
  shows "x \<le> y"
  using assms by (induction xs) (auto split: if_splits)

lemma first_fit_alloc_spec:
  assumes inv: "free_inv s xs F" and n: "0 < n"
  shows "\<exists>r. default_alloc_pages n s = Some r \<and> alloc_spec n F s r \<and>
    (\<forall>x. fst r = Some x \<longrightarrow> (\<forall>p. {p..<p + n} \<subseteq> F \<longrightarrow> x \<le> p))"
proof (cases "List.find (\<lambda>x. n \<le> len s x) xs")
  case None
  have "\<nexists>p. {p..<p + n} \<subseteq> F"
  proof
    assume "\<exists>p. {p..<p + n} \<subseteq> F"
    then obtain y where "y \<in> set xs" "n \<le> len s y" using run_in_block [OF inv n] by fastforce
    then show False using None by (auto simp: find_None_iff)
  qed
  moreover have "default_alloc_pages n s = Some (None, s)"
    using first_fit_find_list [of s "[]" xs n] free_invD(1) [OF inv] None n
    by (simp add: default_alloc_pages_def take_block_def)
  ultimately show ?thesis by (simp add: alloc_spec_def)
next
  case (Some x)
  then have x: "x \<in> set xs" "n \<le> len s x" by (auto simp: find_Some_iff)
  obtain t xs' where t: "take_block (Some x) n s = (Some x, t)" "free_inv t xs' (F - {x..<x + n})"
    "unused t {x..<x + n}" "{x..<x + n} \<subseteq> F" using take_block_spec [OF inv x(1) n x(2)] by blast
  have "n \<le> unat (nr_free s)" using len_le_nr_free [OF inv x(1)] x(2) by simp
  then have "default_alloc_pages n s = Some (Some x, t)"
    using first_fit_find_list [of s "[]" xs n] free_invD(1) [OF inv] Some n t(1)
    by (simp add: default_alloc_pages_def)
  moreover have "x \<le> p" if run: "{p..<p + n} \<subseteq> F" for p
  proof -
    obtain y where "y \<in> set xs" "y \<le> p" "n \<le> len s y" using run_in_block [OF inv n run] by fastforce
    then show ?thesis using find_Some_first [OF Some free_invD(2) [OF inv]] by fastforce
  qed
  ultimately show ?thesis using t by (auto simp: alloc_spec_def)
qed

lemma best_None:
  "best sz n b m xs = None \<Longrightarrow> \<forall>y\<in>set xs. sz y < m \<Longrightarrow> \<forall>y\<in>set xs. \<not> n \<le> sz y"
proof (induction sz n b m xs rule: best.induct)
  case (2 sz n b m x xs)
  then show ?case by (cases "n \<le> sz x") (auto simp: best_Some)
qed simp

lemma best_fit_alloc_spec:
  assumes inv: "free_inv s xs F" and n: "0 < n" and ub: "unat (nr_free s) + 1 < 2 ^ 32"
  shows "\<exists>r. best_fit_alloc_pages n s = Some r \<and> alloc_spec n F s r \<and>
    (\<forall>x. fst r = Some x \<longrightarrow> (\<forall>y\<in>set xs. n \<le> len s y \<longrightarrow> x \<in> set xs \<and> len s x \<le> len s y))"
proof -
  have "unat (nr_free s + 1) = unat (nr_free s) + 1" using ub by (simp add: unat_word_ariths)
  then have find: "best_fit_find n (free_list s) None (nr_free s + 1) s =
      Some (best (len s) n None (unat (nr_free s) + 1) xs)"
    using best_fit_find_list [of s "[]" xs n None "nr_free s + 1"] free_invD(1) [OF inv] blocks_marked [OF inv]
    by simp
  show ?thesis
  proof (cases "best (len s) n None (unat (nr_free s) + 1) xs")
    case None
    have small: "\<forall>y\<in>set xs. \<not> n \<le> len s y"
      by (rule best_None [OF None]) (use len_le_nr_free [OF inv] in fastforce)
    have "\<nexists>p. {p..<p + n} \<subseteq> F"
    proof
      assume "\<exists>p. {p..<p + n} \<subseteq> F"
      then obtain y where "y \<in> set xs" "n \<le> len s y" using run_in_block [OF inv n] by fastforce
      then show False using small by simp
    qed
    moreover have "best_fit_alloc_pages n s = Some (None, s)"
      using find None n by (simp add: best_fit_alloc_pages_def take_block_def)
    ultimately show ?thesis by (simp add: alloc_spec_def)
  next
    case (Some x)
    then have x: "x \<in> set xs" "n \<le> len s x" "\<forall>y\<in>set xs. n \<le> len s y \<longrightarrow> len s x \<le> len s y"
      using best_spec [OF Some] by auto
    obtain t xs' where t: "take_block (Some x) n s = (Some x, t)" "free_inv t xs' (F - {x..<x + n})"
      "unused t {x..<x + n}" "{x..<x + n} \<subseteq> F" using take_block_spec [OF inv x(1) n x(2)] by blast
    have "n \<le> unat (nr_free s)" using len_le_nr_free [OF inv x(1)] x(2) by simp
    then have "best_fit_alloc_pages n s = Some (Some x, t)"
      using find Some n t(1) by (simp add: best_fit_alloc_pages_def)
    then show ?thesis using t x by (auto simp: alloc_spec_def)
  qed
qed

section \<open>The interface of a page allocator\<close>

text \<open>
  What the rest of the kernel relies on: an allocator that keeps an invariant with the set of
  free pages hands out runs of free pages, and refuses only when there is no run.
\<close>

definition run :: "nat \<times> nat \<Rightarrow> nat set" where
  "run r = {fst r..<fst r + snd r}"

fun allocs :: "(nat \<Rightarrow> 's \<Rightarrow> (nat option \<times> 's) option) \<Rightarrow> nat list \<Rightarrow> 's \<Rightarrow> (nat \<times> nat) list option" where
  "allocs alloc [] s = Some []"
| "allocs alloc (n # ns) s =
     (case alloc n s of None \<Rightarrow> None
      | Some (None, t) \<Rightarrow> allocs alloc ns t
      | Some (Some x, t) \<Rightarrow> map_option ((#) (x, n)) (allocs alloc ns t))"

text \<open>
  A run may be longer than the request, and a refusal leaves the free pages as they are. That is enough
  for all the runs that a sequence of requests obtains to be free before and disjoint.
\<close>

locale run_allocator =
  fixes inv :: "'s \<Rightarrow> nat set \<Rightarrow> bool"
    and alloc :: "nat \<Rightarrow> 's \<Rightarrow> (nat option \<times> 's) option"
  assumes alloc_returns: "inv s F \<Longrightarrow> 0 < n \<Longrightarrow> \<exists>r t. alloc n s = Some (r, t)"
    and alloc_gives: "inv s F \<Longrightarrow> 0 < n \<Longrightarrow> alloc n s = Some (Some x, t) \<Longrightarrow>
      \<exists>m\<ge>n. {x..<x + m} \<subseteq> F \<and> inv t (F - {x..<x + m})"
    and alloc_refuses: "inv s F \<Longrightarrow> 0 < n \<Longrightarrow> alloc n s = Some (None, t) \<Longrightarrow> inv t F"
begin

lemma allocs_disjoint:
  assumes "inv s F" and "\<forall>n\<in>set ns. 0 < n"
  shows "\<exists>rs. allocs alloc ns s = Some rs \<and> (\<forall>r\<in>set rs. run r \<subseteq> F) \<and> sorted_wrt (\<lambda>r q. run r \<inter> run q = {}) rs"
  using assms
proof (induction ns arbitrary: s F)
  case (Cons n ns)
  have n: "0 < n" and ns: "\<forall>n\<in>set ns. 0 < n" using Cons.prems(2) by simp_all
  obtain x t where a: "alloc n s = Some (x, t)" using alloc_returns [OF Cons.prems(1) n] by blast
  show ?case
  proof (cases x)
    case (Some p)
    then obtain m where m: "n \<le> m" "{p..<p + m} \<subseteq> F" "inv t (F - {p..<p + m})"
      using alloc_gives [OF Cons.prems(1) n] a by blast
    obtain rs where rs: "allocs alloc ns t = Some rs" "\<forall>r\<in>set rs. run r \<subseteq> F - {p..<p + m}"
      "sorted_wrt (\<lambda>r q. run r \<inter> run q = {}) rs" using Cons.IH [OF m(3) ns] by blast
    have sub: "run (p, n) \<subseteq> {p..<p + m}" using m(1) by (auto simp: run_def)
    have "\<forall>r\<in>set ((p, n) # rs). run r \<subseteq> F" using rs(2) m(2) sub by auto
    moreover have "sorted_wrt (\<lambda>r q. run r \<inter> run q = {}) ((p, n) # rs)" using rs(2,3) sub by auto
    moreover have "allocs alloc (n # ns) s = Some ((p, n) # rs)" using rs(1) a Some by simp
    ultimately show ?thesis by blast
  next
    case None
    then show ?thesis using Cons.IH [OF alloc_refuses [OF Cons.prems(1) n] ns] a by simp
  qed
qed simp

end

locale page_allocator =
  fixes inv :: "'s \<Rightarrow> nat set \<Rightarrow> bool"
    and alloc :: "nat \<Rightarrow> 's \<Rightarrow> (nat option \<times> 's) option"
  assumes alloc_run: "inv s F \<Longrightarrow> 0 < n \<Longrightarrow> {p..<p + n} \<subseteq> F \<Longrightarrow>
      \<exists>x t. alloc n s = Some (Some x, t) \<and> {x..<x + n} \<subseteq> F \<and> inv t (F - {x..<x + n})"
    and alloc_none: "inv s F \<Longrightarrow> 0 < n \<Longrightarrow> \<nexists>p. {p..<p + n} \<subseteq> F \<Longrightarrow> alloc n s = Some (None, s)"

sublocale page_allocator \<subseteq> run_allocator
proof
  fix s and F :: "nat set" and n :: nat
  assume f: "inv s F" "0 < n"
  show "\<exists>r t. alloc n s = Some (r, t)"
    using alloc_run [OF f] alloc_none [OF f] by blast
  show "\<exists>m\<ge>n. {x..<x + m} \<subseteq> F \<and> inv t (F - {x..<x + m})" if "alloc n s = Some (Some x, t)" for x t
    using alloc_run [OF f] alloc_none [OF f] that by (intro exI [of _ n]) fastforce
  show "inv t F" if "alloc n s = Some (None, t)" for t
    using alloc_run [OF f] alloc_none [OF f] that f(1) by fastforce
qed

text \<open>\<^verbatim>\<open>nr_free\<close> counts the free pages.\<close>

lemma nr_free_card: "free_inv s xs F \<Longrightarrow> unat (nr_free s) = card F"
proof -
  assume inv: "free_inv s xs F"
  note I = free_invD [OF inv]
  have "card (\<Union>x\<in>set ys. block s x) = sum_list (map (len s) ys)"
    if "sorted_wrt (\<lambda>x y. x + len s x < y) ys" for ys
    using that
  proof (induction ys)
    case (Cons y ys)
    have "block s y \<inter> (\<Union>x\<in>set ys. block s x) = {}" using Cons.prems by (fastforce simp: block_def)
    moreover have "finite (\<Union>x\<in>set ys. block s x)" "finite (block s y)" by (auto simp: block_def)
    ultimately have "card (\<Union>x\<in>set (y # ys). block s x) = card (block s y) + card (\<Union>x\<in>set ys. block s x)"
      by (simp add: card_Un_disjoint)
    also have "card (block s y) = len s y" by (simp add: block_def)
    finally show ?case using Cons by simp
  qed simp
  from this [OF I(2)] show ?thesis by (simp add: I(4,8))
qed

definition free_pages :: "free_area \<Rightarrow> nat set \<Rightarrow> bool" where
  "free_pages s F \<longleftrightarrow> card F + 1 < 2 ^ 32 \<and> (\<exists>xs. free_inv s xs F)"

lemma free_pages_subset: "free_pages s F \<Longrightarrow> G \<subseteq> F \<Longrightarrow> free_inv t xs G \<Longrightarrow> free_pages t G"
proof -
  assume a: "free_pages s F" "G \<subseteq> F" "free_inv t xs G"
  then obtain ys where "free_inv s ys F" by (auto simp: free_pages_def)
  then have "finite F" unfolding free_invD(4) [OF \<open>free_inv s ys F\<close>] by (simp add: block_def)
  then have "card G \<le> card F" using a(2) by (rule card_mono)
  then show ?thesis using a by (auto simp: free_pages_def)
qed

interpretation first_fit: page_allocator free_pages default_alloc_pages
proof
  fix s F n p
  assume f: "free_pages s F" "0 < n" "{p..<p + n} \<subseteq> F"
  then obtain xs where "free_inv s xs F" by (auto simp: free_pages_def)
  then obtain r where "default_alloc_pages n s = Some r" "alloc_spec n F s r"
    using first_fit_alloc_spec f(2) by blast
  then show "\<exists>x t. default_alloc_pages n s = Some (Some x, t) \<and> {x..<x + n} \<subseteq> F \<and> free_pages t (F - {x..<x + n})"
    using f(3) free_pages_subset [OF f(1)] by (auto simp: alloc_spec_def split: prod.splits option.splits)
next
  fix s F n
  assume f: "free_pages s F" "0 < n" "\<nexists>p. {p..<p + n} \<subseteq> F"
  then obtain xs where "free_inv s xs F" by (auto simp: free_pages_def)
  then obtain r where "default_alloc_pages n s = Some r" "alloc_spec n F s r"
    using first_fit_alloc_spec f(2) by blast
  then show "default_alloc_pages n s = Some (None, s)"
    using f(3) by (auto simp: alloc_spec_def split: prod.splits option.splits)
qed

interpretation best_fit: page_allocator free_pages best_fit_alloc_pages
proof
  fix s F n p
  assume f: "free_pages s F" "0 < n" "{p..<p + n} \<subseteq> F"
  then obtain xs where xs: "free_inv s xs F" "unat (nr_free s) + 1 < 2 ^ 32"
    using nr_free_card by (fastforce simp: free_pages_def)
  then obtain r where "best_fit_alloc_pages n s = Some r" "alloc_spec n F s r"
    using best_fit_alloc_spec [OF xs(1) f(2) xs(2)] by blast
  then show "\<exists>x t. best_fit_alloc_pages n s = Some (Some x, t) \<and> {x..<x + n} \<subseteq> F \<and> free_pages t (F - {x..<x + n})"
    using f(3) free_pages_subset [OF f(1)] by (auto simp: alloc_spec_def split: prod.splits option.splits)
next
  fix s F n
  assume f: "free_pages s F" "0 < n" "\<nexists>p. {p..<p + n} \<subseteq> F"
  then obtain xs where xs: "free_inv s xs F" "unat (nr_free s) + 1 < 2 ^ 32"
    using nr_free_card by (fastforce simp: free_pages_def)
  then obtain r where "best_fit_alloc_pages n s = Some r" "alloc_spec n F s r"
    using best_fit_alloc_spec [OF xs(1) f(2) xs(2)] by blast
  then show "best_fit_alloc_pages n s = Some (None, s)"
    using f(3) by (auto simp: alloc_spec_def split: prod.splits option.splits)
qed

section \<open>Freeing a block\<close>

lemma unuse_pages_spec:
  assumes "unused s {p..<p + n}"
  shows "unuse_pages n p s = Some (s\<lparr>pages := (\<lambda>q. if q \<in> {p..<p + n} then (pages s q)\<lparr>page_flags := 0, page_ref := 0\<rparr>
     else pages s q)\<rparr>)"
  using assms
proof (induction n arbitrary: p s)
  case 0
  then show ?case by simp
next
  case (Suc n)
  let ?t = "set_page_ref p 0 (upd_page p (\<lambda>g. g\<lparr>page_flags := 0\<rparr>) s)"
  have "unused ?t {p + 1..<p + 1 + n}"
    using Suc.prems by (auto simp: unused_def PageReserved_def PageProperty_def set_page_ref_def)
  note IH = Suc.IH [OF this]
  have "\<not> PageReserved p s \<and> \<not> PageProperty p s" using Suc.prems by (auto simp: unused_def)
  then have "unuse_pages (Suc n) p s = unuse_pages n (p + 1) ?t" by simp
  also have "\<dots> = Some (?t\<lparr>pages := (\<lambda>q. if q \<in> {p + 1..<p + 1 + n}
      then (pages ?t q)\<lparr>page_flags := 0, page_ref := 0\<rparr> else pages ?t q)\<rparr>)" by (rule IH)
  also have "(\<lambda>q. if q \<in> {p + 1..<p + 1 + n} then (pages ?t q)\<lparr>page_flags := 0, page_ref := 0\<rparr> else pages ?t q) =
      (\<lambda>q. if q \<in> {p..<p + Suc n} then (pages s q)\<lparr>page_flags := 0, page_ref := 0\<rparr> else pages s q)"
    by (rule ext) (auto simp: set_page_ref_def)
  finally show ?case by (simp add: set_page_ref_def upd_page_def)
qed

lemma insert_loop_before:
  assumes "clist (free_links s) (free_list s) (us @ ws @ v # vs)" and "\<forall>w\<in>set ws. \<not> base < w" and "base < v"
  shows "insert_loop base (last (free_list s # us)) s =
    Some (s\<lparr>free_links := list_add_before v base (free_links s)\<rparr>)"
  using assms
proof (induction ws arbitrary: us)
  case Nil
  have "list_next (last (free_list s # us)) (free_links s) = v"
    using clist_next_last [of _ _ us "v # vs"] Nil(1) by simp
  moreover have "v \<noteq> free_list s" using Nil(1) by (simp add: clist_def)
  ultimately show ?case using Nil(3) by (subst insert_loop.simps) simp
next
  case (Cons w ws)
  have nx: "list_next (last (free_list s # us)) (free_links s) = w"
    using clist_next_last [of _ _ us "w # ws @ v # vs"] Cons.prems(1) by simp
  have "list_next w (free_links s) = hd (ws @ [v])"
    using clist_next_last [of _ _ "us @ [w]" "ws @ v # vs"] Cons.prems(1) by (cases ws) simp_all
  then have "list_next w (free_links s) \<noteq> free_list s" using Cons.prems(1) by (cases ws) (auto simp: clist_def)
  moreover have "w \<noteq> free_list s" using Cons.prems(1) by (simp add: clist_def)
  ultimately show ?case using Cons.IH [of "us @ [w]"] Cons.prems nx
    by (subst insert_loop.simps) simp
qed

text \<open>The invariant without the gaps between blocks, for the steps that merge blocks.\<close>

definition loose_inv :: "free_area \<Rightarrow> nat list \<Rightarrow> nat set \<Rightarrow> bool" where
  "loose_inv s xs F \<longleftrightarrow>
     clist (free_links s) (free_list s) xs \<and>
     sorted_wrt (\<lambda>x y. x + len s x \<le> y) xs \<and> (\<forall>x\<in>set xs. 0 < len s x) \<and>
     F = (\<Union>x\<in>set xs. block s x) \<and> free_list s \<notin> F \<and>
     (\<forall>p\<in>F. \<not> PageReserved p s \<and> (PageProperty p s \<longleftrightarrow> p \<in> set xs)) \<and>
     unat (nr_free s) = sum_list (map (len s) xs)"

lemma loose_invI:
  assumes "clist (free_links s) (free_list s) xs" and "sorted_wrt (\<lambda>x y. x + len s x \<le> y) xs"
    and "\<And>x. x \<in> set xs \<Longrightarrow> 0 < len s x" and "F = (\<Union>x\<in>set xs. block s x)" and "free_list s \<notin> F"
    and "\<And>p. p \<in> F \<Longrightarrow> \<not> PageReserved p s" and "\<And>p. p \<in> F \<Longrightarrow> PageProperty p s \<longleftrightarrow> p \<in> set xs"
    and "unat (nr_free s) = sum_list (map (len s) xs)"
  shows "loose_inv s xs F"
  unfolding loose_inv_def
  by (intro conjI ballI; (rule assms(1,2,4,5,8) | (erule assms(3,6,7))))

lemma loose_invD:
  assumes "loose_inv s xs F"
  shows "clist (free_links s) (free_list s) xs" and "sorted_wrt (\<lambda>x y. x + len s x \<le> y) xs"
    and "\<And>x. x \<in> set xs \<Longrightarrow> 0 < len s x" and "F = (\<Union>x\<in>set xs. block s x)" and "free_list s \<notin> F"
    and "\<And>p. p \<in> F \<Longrightarrow> \<not> PageReserved p s" and "\<And>p. p \<in> F \<Longrightarrow> PageProperty p s \<longleftrightarrow> p \<in> set xs"
    and "unat (nr_free s) = sum_list (map (len s) xs)"
  using assms unfolding loose_inv_def by blast+

lemma loose_strict: "loose_inv s xs F \<Longrightarrow> sorted_wrt (\<lambda>x y. x + len s x < y) xs \<Longrightarrow> free_inv s xs F"
  unfolding loose_inv_def free_inv_def by (elim conjE, intro conjI)

definition merge :: "nat \<Rightarrow> nat \<Rightarrow> free_area \<Rightarrow> free_area" where
  "merge a b s =
     (ClearPageProperty b (set_property a (property (pages s a) + property (pages s b)) s))
       \<lparr>free_links := list_del b (free_links s)\<rparr>"

lemma merge_adjacent:
  assumes inv: "loose_inv s (us @ a # b # vs) F" and ab: "a + len s a = b"
  shows "loose_inv (merge a b s) (us @ a # vs) F" and "len (merge a b s) = (len s)(a := len s a + len s b)"
proof -
  note I = loose_invD [OF inv]
  have "unat (nr_free s) < 2 ^ LENGTH(32)" by (rule unsigned_less)
  then have "len s a + len s b < 2 ^ 32" using I(8) by simp
  then show lt: "len (merge a b s) = (len s)(a := len s a + len s b)"
    by (intro ext) (auto simp: merge_def unat_word_ariths len_def [symmetric])
  have ne: "a \<noteq> b" using ab I(3) [of a] by simp
  have au: "a \<notin> set (us @ vs)" and bu: "b \<notin> set (us @ a # vs)" using I(1) by (auto simp: clist_def)
  have lo: "len (merge a b s) z = len s z" if "z \<in> set (us @ vs)" for z using that au by (auto simp: lt)
  have bl: "block (merge a b s) z = block s z" if "z \<in> set (us @ vs)" for z
    using lo [OF that] by (simp add: block_def)
  have ba: "block (merge a b s) a = block s a \<union> block s b" using ab by (auto simp: block_def lt)
  show "loose_inv (merge a b s) (us @ a # vs) F"
  proof (rule loose_invI)
    show "clist (free_links (merge a b s)) (free_list (merge a b s)) (us @ a # vs)"
      using clist_del [of "free_links s" "free_list s" "us @ [a]" b vs] I(1) by (simp add: merge_def)
    have S: "sorted_wrt (\<lambda>x y. x + len s x \<le> y) (us @ vs)" using I(2) by (simp add: sorted_wrt_append)
    then have "sorted_wrt (\<lambda>x y. x + len (merge a b s) x \<le> y) (us @ vs)"
      by (rule sorted_wrt_mono_rel [rotated]) (simp add: lo)
    moreover have "u + len (merge a b s) u \<le> a" if "u \<in> set us" for u
      using I(2) lo [of u] that by (simp add: sorted_wrt_append)
    moreover have "a + len (merge a b s) a \<le> v" if "v \<in> set vs" for v
      using I(2) ab that by (auto simp: sorted_wrt_append lt)
    ultimately show "sorted_wrt (\<lambda>x y. x + len (merge a b s) x \<le> y) (us @ a # vs)"
      by (simp add: sorted_wrt_append)
    show "0 < len (merge a b s) z" if "z \<in> set (us @ a # vs)" for z using I(3) [of z] that by (auto simp: lt)
    show "F = (\<Union>x\<in>set (us @ a # vs). block (merge a b s) x)" using bl ba by (auto simp: I(4))
    show "free_list (merge a b s) \<notin> F" using I(5) by (simp add: merge_def)
    fix p assume p: "p \<in> F"
    then show "\<not> PageReserved p (merge a b s)" using I(6) by (simp add: merge_def)
    show "PageProperty p (merge a b s) \<longleftrightarrow> p \<in> set (us @ a # vs)"
      using I(7) [OF p] bu by (auto simp: merge_def)
  next
    have m: "map (len (merge a b s)) (us @ a # vs) = map (len s) us @ (len s a + len s b) # map (len s) vs"
      using lo by (simp add: lt)
    show "unat (nr_free (merge a b s)) = sum_list (map (len (merge a b s)) (us @ a # vs))"
      unfolding m using I(8) by (simp add: merge_def)
  qed
qed

lemma insert_block_spec:
  assumes c: "clist (free_links s) (free_list s) (us @ vs)" and e: "base \<notin> set (free_list s # us @ vs)"
    and u: "\<forall>x\<in>set us. x < base" and v: "\<forall>x\<in>set vs. base < x" "us \<noteq> [] \<longrightarrow> vs \<noteq> []"
  shows "\<exists>l. insert_block base s = Some (s\<lparr>free_links := l\<rparr>) \<and> clist l (free_list s) (us @ base # vs)"
proof (cases vs)
  case Nil
  then have us: "us = []" using v(2) by blast
  have "clist (list_add (free_list s) base (free_links s)) (free_list s) [base]"
    using clist_add_after [of _ _ "[]" "[]"] c e us Nil by (simp add: list_add_def)
  moreover have "insert_block base s = Some (s\<lparr>free_links := list_add (free_list s) base (free_links s)\<rparr>)"
    using clist_empty [OF c] us Nil by (simp add: insert_block_def)
  ultimately show ?thesis using us Nil by fastforce
next
  case (Cons w ws)
  have "insert_block base s = Some (s\<lparr>free_links := list_add_before w base (free_links s)\<rparr>)"
    using insert_loop_before [of s "[]" us w ws base] clist_empty [OF c] c u v Cons
    by (fastforce simp: insert_block_def)
  moreover have "clist (list_add_before w base (free_links s)) (free_list s) (us @ base # vs)"
    using clist_add_before [OF c e] Cons by simp
  ultimately show ?thesis by blast
qed

text \<open>The state after the pages were reset and counted, before the block is put into the list.\<close>

definition counted :: "nat \<Rightarrow> nat \<Rightarrow> free_area \<Rightarrow> free_area" where
  "counted base n s = (SetPageProperty base (set_property base (of_nat n)
     (s\<lparr>pages := (\<lambda>q. if q \<in> {base..<base + n} then (pages s q)\<lparr>page_flags := 0, page_ref := 0\<rparr> else pages s q)\<rparr>)))
     \<lparr>nr_free := nr_free s + of_nat n\<rparr>"

lemma default_free_pages_eq:
  assumes "unused s {base..<base + n}" and "0 < n"
  shows "default_free_pages base n s = Option.bind (insert_block base (counted base n s))
    (\<lambda>s. let (base, s) = merge_prev base s in Some (merge_next base s))"
  using assms by (simp add: default_free_pages_def unuse_pages_spec counted_def Let_def)

lemma counted_simps:
  assumes "n < 2 ^ 32"
  shows "free_links (counted base n s) = free_links s" "free_list (counted base n s) = free_list s"
    "len (counted base n s) = (len s)(base := n)" "nr_free (counted base n s) = nr_free s + of_nat n"
    "PageReserved p (counted base n s) \<longleftrightarrow> p \<notin> {base..<base + n} \<and> PageReserved p s"
    "PageProperty p (counted base n s) \<longleftrightarrow> p = base \<or> p \<notin> {base..<base + n} \<and> PageProperty p s"
  using assms by (auto simp: counted_def len_def page_op_defs unat_of_nat fun_eq_iff
      PageReserved_def PageProperty_def PG_reserved_def PG_property_def)

lemma insert_loose:
  assumes inv: "free_inv s (us @ vs) F" and n: "0 < n" and new: "{base..<base + n} \<inter> F = {}"
    and hd: "free_list s \<notin> {base..<base + n}" and ub: "card F + n < 2 ^ 32"
    and u: "\<forall>x\<in>set us. x < base" and v: "\<forall>x\<in>set vs. base < x"
    and l: "clist l (free_list s) (us @ base # vs)"
  shows "loose_inv ((counted base n s)\<lparr>free_links := l\<rparr>) (us @ base # vs) (F \<union> {base..<base + n})"
proof -
  note I = free_invD [OF inv]
  let ?t = "(counted base n s)\<lparr>free_links := l\<rparr>"
  have n32: "n < 2 ^ 32" using ub by simp
  note C = counted_simps [OF n32]
  have lt: "len ?t = (len s)(base := n)" by (rule ext) (simp add: C)
  have nb: "base \<notin> set (us @ vs)" using u v by auto
  have lo: "len ?t z = len s z" if "z \<in> set (us @ vs)" for z using that nb by (auto simp: lt)
  have bl: "block ?t z = block s z" if "z \<in> set (us @ vs)" for z using lo [OF that] by (simp add: block_def)
  have bb: "block ?t base = {base..<base + n}" by (simp add: block_def lt)
  show ?thesis
  proof (rule loose_invI)
    show "clist (free_links ?t) (free_list ?t) (us @ base # vs)" using l by (simp add: C)
    have "sorted_wrt (\<lambda>x y. x + len ?t x \<le> y) (us @ vs)"
      by (rule sorted_wrt_mono_rel [OF _ I(2)]) (metis lo less_imp_le)
    moreover have "x + len ?t x \<le> base" if "x \<in> set us" for x
    proof (rule ccontr)
      assume "\<not> ?thesis"
      then have "base \<in> block s x" using u that lo [of x] by (auto simp: block_def)
      then have "base \<in> F" unfolding I(4) using that by auto
      moreover have "base \<in> {base..<base + n}" using n by simp
      ultimately show False using new by blast
    qed
    moreover have "base + len ?t base \<le> x" if "x \<in> set vs" for x
    proof (rule ccontr)
      assume "\<not> ?thesis"
      then have "x \<in> {base..<base + n}" using v that by (auto simp: lt)
      moreover have "x \<in> F" using blocks_marked [OF inv] that by simp
      ultimately show False using new by blast
    qed
    ultimately show "sorted_wrt (\<lambda>x y. x + len ?t x \<le> y) (us @ base # vs)"
      by (simp add: sorted_wrt_append)
    show "0 < len ?t z" if "z \<in> set (us @ base # vs)" for z using I(3) [of z] that n by (auto simp: lt)
    show "F \<union> {base..<base + n} = (\<Union>x\<in>set (us @ base # vs). block ?t x)" using bl bb by (auto simp: I(4))
    show "free_list ?t \<notin> F \<union> {base..<base + n}" using I(5) hd by (simp add: C)
    fix p assume p: "p \<in> F \<union> {base..<base + n}"
    show "\<not> PageReserved p ?t" using I(6) p by (auto simp: C)
    show "PageProperty p ?t \<longleftrightarrow> p \<in> set (us @ base # vs)"
    proof (cases "p \<in> F")
      case True
      then have "p \<notin> {base..<base + n}" using new by blast
      then show ?thesis using I(7) [OF True] nb n by (auto simp: C)
    next
      case False
      then show ?thesis using p blocks_marked [OF inv] by (auto simp: C)
    qed
  next
    have m: "map (len ?t) (us @ base # vs) = map (len s) us @ n # map (len s) vs"
      using lo by (simp add: lt)
    have "unat (nr_free s + of_nat n) = unat (nr_free s) + n"
      using ub nr_free_card [OF inv] n32 by (simp add: unat_word_ariths unat_of_nat)
    then show "unat (nr_free ?t) = sum_list (map (len ?t) (us @ base # vs))"
      unfolding m using I(8) by (simp add: C)
  qed
qed

lemma merge_prev_spec:
  assumes inv: "loose_inv s (us @ b # vs) F" and us: "sorted_wrt (\<lambda>x y. x + len s x < y) us"
  shows "\<exists>us' a t. merge_prev b s = (a, t) \<and> loose_inv t (us' @ a # vs) F \<and>
    sorted_wrt (\<lambda>x y. x + len t x < y) (us' @ [a]) \<and> (\<forall>x\<in>set vs. len t x = len s x)"
proof -
  note I = loose_invD [OF inv]
  have pre: "list_prev b (free_links s) = last (free_list s # us)" by (rule clist_prev [OF I(1)])
  have h: "free_list s \<notin> set us" using I(1) by (simp add: clist_def)
  have left: "x + len s x < b" if "x \<in> set us" "x + len s x \<noteq> b" for x
    using I(2) that by (force simp: sorted_wrt_append)
  show ?thesis
  proof (cases us rule: rev_cases)
    case Nil
    then show ?thesis using inv pre by (intro exI [of _ "[]"] exI [of _ b] exI [of _ s]) (simp add: merge_prev_def)
  next
    case (snoc ws w)
    have w: "w \<noteq> free_list s" "list_prev b (free_links s) = w" using h pre snoc by auto
    have ww: "x + len s x < w" if "x \<in> set ws" for x using us that by (simp add: snoc sorted_wrt_append)
    show ?thesis
    proof (cases "w + len s w = b")
      case True
      have inv': "loose_inv s (ws @ w # b # vs) F" using inv by (simp add: snoc)
      note M = merge_adjacent [OF inv' True]
      have "w \<notin> set ws" "w \<notin> set vs" using I(1) by (auto simp: clist_def snoc)
      then have "len (merge w b s) x = len s x" if "x \<in> set ws \<union> set vs" for x using that by (auto simp: M(2))
      then have "sorted_wrt (\<lambda>x y. x + len (merge w b s) x < y) (ws @ [w])" "\<forall>x\<in>set vs. len (merge w b s) x = len s x"
        using us ww by (auto simp: snoc sorted_wrt_append intro: sorted_wrt_mono_rel [rotated])
      moreover have "merge_prev b s = (w, merge w b s)"
        using w True by (simp add: merge_prev_def merge_def Let_def flip: len_def)
      ultimately show ?thesis using M(1) by blast
    next
      case False
      have "x + len s x < b" if "x \<in> set us" for x
      proof (cases "x = w")
        case False
        then have "x + len s x < w" using ww that by (simp add: snoc)
        then show ?thesis using I(2) by (simp add: snoc sorted_wrt_append)
      qed (use left that False in auto)
      then have "sorted_wrt (\<lambda>x y. x + len s x < y) (us @ [b])" using us by (simp add: sorted_wrt_append)
      moreover have "merge_prev b s = (b, s)" using w False by (simp add: merge_prev_def flip: len_def)
      ultimately show ?thesis using inv by blast
    qed
  qed
qed

lemma merge_next_spec:
  assumes inv: "loose_inv s (us @ b # vs) F" and us: "sorted_wrt (\<lambda>x y. x + len s x < y) (us @ [b])"
    and vs: "sorted_wrt (\<lambda>x y. x + len s x < y) vs"
  shows "\<exists>xs. free_inv (merge_next b s) xs F"
proof -
  note I = loose_invD [OF inv]
  have nx: "list_next b (free_links s) = hd (vs @ [free_list s])" by (rule clist_next [OF I(1)])
  have h: "free_list s \<notin> set vs" using I(1) by (simp add: clist_def)
  have cross: "x + len s x < y" if "x \<in> set us" "y \<in> set vs" for x y
  proof -
    have "x + len s x < b" using us that by (simp add: sorted_wrt_append)
    moreover have "b \<le> y" using I(2) that by (force simp: sorted_wrt_append)
    ultimately show ?thesis by simp
  qed
  show ?thesis
  proof (cases "vs \<noteq> [] \<and> b + len s b = hd vs")
    case True
    then obtain v ws where v: "vs = v # ws" "b + len s b = v" by (cases vs) auto
    have inv': "loose_inv s (us @ b # v # ws) F" using inv by (simp add: v)
    note M = merge_adjacent [OF inv' v(2)]
    have n: "b \<notin> set us" "b \<notin> set ws" using I(1) by (auto simp: clist_def v)
    have le: "len (merge b v s) x = len s x" if "x \<in> set us \<union> set ws" for x using that n by (auto simp: M(2))
    have "sorted_wrt (\<lambda>x y. x + len (merge b v s) x < y) us" "sorted_wrt (\<lambda>x y. x + len (merge b v s) x < y) ws"
      using us vs le by (auto simp: v sorted_wrt_append intro: sorted_wrt_mono_rel [rotated])
    moreover have "b + len (merge b v s) b < y" if "y \<in> set ws" for y
    proof -
      have "v + len s v < y" using vs that by (simp add: v(1))
      then show ?thesis using v(2) by (simp add: M(2))
    qed
    moreover have "x + len (merge b v s) x < b" "x + len (merge b v s) x < y" if "x \<in> set us" "y \<in> set ws" for x y
      using us cross [of x y] le [of x] that by (auto simp: v sorted_wrt_append)
    moreover have "x + len (merge b v s) x < b" if "x \<in> set us" for x
      using us le [of x] that by (auto simp: sorted_wrt_append)
    ultimately have "sorted_wrt (\<lambda>x y. x + len (merge b v s) x < y) (us @ b # ws)"
      by (simp add: sorted_wrt_append)
    moreover have "merge_next b s = merge b v s"
      using nx v h by (simp add: merge_next_def merge_def Let_def flip: len_def)
    ultimately show ?thesis using loose_strict [OF M(1)] by auto
  next
    case False
    have "merge_next b s = s" using nx False by (cases vs) (auto simp: merge_next_def simp flip: len_def)
    moreover have "b + len s b < y" if "y \<in> set vs" for y
    proof (cases vs)
      case (Cons v ws)
      have "b + len s b \<le> v" using I(2) by (simp add: Cons sorted_wrt_append)
      then have "b + len s b < v" using False Cons by auto
      moreover have "v \<le> y" using vs that by (force simp: Cons)
      ultimately show ?thesis by simp
    qed (use that in simp)
    then have "sorted_wrt (\<lambda>x y. x + len s x < y) (us @ b # vs)"
      using us vs cross by (simp add: sorted_wrt_append)
    ultimately show ?thesis using loose_strict [OF inv] by auto
  qed
qed

lemma split_sorted:
  "sorted_wrt (<) (xs :: nat list) \<Longrightarrow> filter (\<lambda>x. x < b) xs @ filter (\<lambda>x. \<not> x < b) xs = xs"
proof (induction xs)
  case (Cons a xs)
  show ?case
  proof (cases "a < b")
    case False
    then have "filter (\<lambda>x. x < b) xs = []" using Cons.prems by (auto simp: filter_empty_conv)
    then show ?thesis using Cons False by simp
  qed (use Cons in simp)
qed simp

lemma default_free_pages_spec:
  assumes inv: "free_inv s xs F" and n: "0 < n" and un: "unused s {base..<base + n}"
    and new: "{base..<base + n} \<inter> F = {}" and hd: "free_list s \<notin> {base..<base + n}"
    and ub: "card F + n < 2 ^ 32" and pos: "F = {} \<or> (\<exists>p\<in>F. base < p)"
  shows "\<exists>t ys. default_free_pages base n s = Some t \<and> free_inv t ys (F \<union> {base..<base + n})"
proof -
  note I = free_invD [OF inv]
  define us where "us = filter (\<lambda>x. x < base) xs"
  define vs where "vs = filter (\<lambda>x. \<not> x < base) xs"
  have bF: "base \<notin> F" using new n by (metis IntI add_0_right add_less_cancel_left atLeastLessThan_iff empty_iff le_refl)
  have nb: "base \<notin> set xs" using blocks_marked [OF inv] bF by blast
  have xs: "xs = us @ vs"
  proof -
    have "sorted_wrt (<) xs" by (rule sorted_wrt_mono_rel [OF _ I(2)]) simp
    then show ?thesis using split_sorted [of xs base] by (simp add: us_def vs_def)
  qed
  have u: "\<forall>x\<in>set us. x < base" by (simp add: us_def)
  have v: "\<forall>x\<in>set vs. base < x" using nb by (auto simp: vs_def) (metis linorder_neqE_nat)
  have ne: "us \<noteq> [] \<longrightarrow> vs \<noteq> []"
  proof
    assume "us \<noteq> []"
    then have "F \<noteq> {}" using blocks_marked [OF inv] by (cases us) (auto simp: xs)
    then obtain p where p: "p \<in> F" "base < p" using pos by blast
    then obtain x where x: "x \<in> set xs" "p \<in> block s x" unfolding I(4) by blast
    have "\<not> x < base"
    proof
      assume "x < base"
      then have "base \<in> block s x" using x(2) p(2) by (simp add: block_def)
      then show False using x(1) bF unfolding I(4) by blast
    qed
    then show "vs \<noteq> []" using x(1) u by (auto simp: xs)
  qed
  have n32: "n < 2 ^ 32" using ub by simp
  note C = counted_simps [OF n32]
  have "base \<notin> set (free_list s # us @ vs)" using nb hd n by (auto simp: xs)
  then obtain l where l: "insert_block base (counted base n s) = Some ((counted base n s)\<lparr>free_links := l\<rparr>)"
    "clist l (free_list s) (us @ base # vs)"
    using insert_block_spec [of "counted base n s" us vs base] I(1) u v ne by (auto simp: C xs)
  let ?t = "(counted base n s)\<lparr>free_links := l\<rparr>"
  have loose: "loose_inv ?t (us @ base # vs) (F \<union> {base..<base + n})"
    by (rule insert_loose [OF inv [unfolded xs] n new hd ub u v l(2)])
  have lo: "len ?t x = len s x" if "x \<in> set xs" for x using that nb by (auto simp: C)
  have so: "sorted_wrt (\<lambda>x y. x + len ?t x < y) us" "sorted_wrt (\<lambda>x y. x + len s x < y) vs"
    using I(2) lo unfolding xs sorted_wrt_append by (auto intro: sorted_wrt_mono_rel [rotated])
  obtain us' a w where w: "merge_prev base ?t = (a, w)" "loose_inv w (us' @ a # vs) (F \<union> {base..<base + n})"
    "sorted_wrt (\<lambda>x y. x + len w x < y) (us' @ [a])" "\<forall>x\<in>set vs. len w x = len ?t x"
    using merge_prev_spec [OF loose so(1)] by blast
  have "sorted_wrt (\<lambda>x y. x + len w x < y) vs"
    by (rule sorted_wrt_mono_rel [OF _ so(2)]) (use w(4) lo in \<open>simp add: xs\<close>)
  then obtain ys where "free_inv (merge_next a w) ys (F \<union> {base..<base + n})"
    using merge_next_spec [OF w(2,3)] by blast
  moreover have "default_free_pages base n s = Some (merge_next a w)"
    by (simp add: default_free_pages_eq [OF un n] l(1) w(1))
  ultimately show ?thesis by blast
qed

section \<open>Freeing a block after all others\<close>

fun walk :: "links \<Rightarrow> nat \<Rightarrow> nat list \<Rightarrow> nat \<Rightarrow> bool" where
  "walk l a [] b \<longleftrightarrow> nxt l a = b"
| "walk l a (x # xs) b \<longleftrightarrow> nxt l a = x \<and> walk l x xs b"

lemma walk_chain: "chain l a xs b \<Longrightarrow> walk l a xs b"
  by (induction xs arbitrary: a) auto

lemma walk_frame: "walk l a xs b \<Longrightarrow> \<forall>e\<in>set (a # xs). nxt l' e = nxt l e \<Longrightarrow> walk l' a xs b"
  by (induction xs arbitrary: a) auto

lemma walk_append: "walk l a (xs @ [y]) b \<longleftrightarrow> walk l a xs y \<and> nxt l y = b"
  by (induction xs arbitrary: a) auto

text \<open>The search finds a block by the forward pointers alone.\<close>

lemma first_fit_find_walk:
  assumes "walk (free_links s) a xs y" and "free_list s \<notin> set (xs @ [y])"
    and "\<forall>x\<in>set xs. len s x < n" and "n \<le> len s y"
  shows "first_fit_find n a s = Some (Some y)"
  using assms
proof (induction xs arbitrary: a)
  case Nil
  then show ?case by (subst first_fit_find.simps) (simp add: list_next_def len_def)
next
  case (Cons x xs)
  then show ?case by (subst first_fit_find.simps) (simp add: list_next_def len_def)
qed

text \<open>
  The second branch of the loop inserts the new block after the last one and then, the loop
  going on from it, after itself: the block ends as its own predecessor.
\<close>

lemma insert_loop_end:
  assumes "clist (free_links s) (free_list s) (us @ ws)" and "ws \<noteq> []" and "\<forall>w\<in>set ws. w < base"
    and "base \<noteq> free_list s"
  shows "insert_loop base (last (free_list s # us)) s =
    Some (s\<lparr>free_links := list_add base base (list_add (last ws) base (free_links s))\<rparr>)"
  using assms
proof (induction ws arbitrary: us)
  case Nil
  then show ?case by simp
next
  case (Cons w ws)
  have nx: "list_next (last (free_list s # us)) (free_links s) = w"
    using clist_next_last [of _ _ us "w # ws"] Cons.prems(1) by simp
  have w: "w \<noteq> free_list s" "\<not> base < w" using Cons.prems(1,3) by (auto simp: clist_def)
  have nw: "list_next w (free_links s) = hd (ws @ [free_list s])"
    using clist_next_last [of _ _ "us @ [w]" ws] Cons.prems(1) by simp
  show ?case
  proof (cases ws)
    case Nil
    let ?l = "list_add w base (free_links s)"
    let ?t = "s\<lparr>free_links := ?l\<rparr>" and ?u = "s\<lparr>free_links := list_add base base ?l\<rparr>"
    have wb: "w \<noteq> base" using Cons.prems(3) by auto
    have e: "list_next w (free_links s) = free_list s" using nw Nil by simp
    have b: "list_next w ?l = base" "list_next base ?l = free_list s"
      using wb e Cons.prems(4) by (simp_all add: list_h_defs)
    have f: "list_next base (list_add base base ?l) = free_list s"
      using b(2) Cons.prems(4) by (simp add: list_h_defs)
    have "insert_loop base w ?t = Some ?u"
      using b f Cons.prems(4) by (subst insert_loop.simps) (simp add: insert_loop.simps [of base base])
    then show ?thesis using nx w e Nil by (subst insert_loop.simps) simp
  next
    case (Cons v vs)
    then have "list_next w (free_links s) \<noteq> free_list s" using nw Cons.prems(1) by (auto simp: clist_def)
    then show ?thesis using Cons.IH [of "us @ [w]"] Cons.prems nx w Cons
      by (subst insert_loop.simps) simp
  qed
qed

text \<open>The links after that: forward they are right, but \<open>base\<close> is its own predecessor.\<close>

lemma end_links:
  fixes l base h ws
  defines "l' \<equiv> list_add base base (list_add (last ws) base l)"
  assumes c: "clist l h ws" and ne: "ws \<noteq> []" and b: "base \<notin> set (h # ws)"
  shows "walk l' h ws base" and "nxt l' base = h" and "prv l' base = base" and "prv l' h = base"
proof -
  have n: "nxt l (last ws) = h" "last ws \<noteq> base" "last ws \<in> set ws"
    using clist_next_last [of l h ws "[]"] c ne b by (auto simp: list_next_def)
  have l': "l' = l\<lparr>nxt := (nxt l)(last ws := base, base := h), prv := (prv l)(h := base, base := base)\<rparr>"
    using n b by (simp add: l'_def list_h_defs fun_upd_twist)
  show "nxt l' base = h" "prv l' base = base" "prv l' h = base" using b by (simp_all add: l')
  obtain us w where ws: "ws = us @ [w]" using ne by (cases ws rule: rev_cases) auto
  have "walk l h us w" using c walk_chain [of l h ws h] by (simp add: clist_def ws walk_append)
  moreover have "w \<noteq> h" "w \<notin> set us" using c by (auto simp: clist_def ws)
  ultimately have "walk l' h us w" using b by (elim walk_frame) (auto simp: ws l')
  moreover have "nxt l' w = base" using b by (simp add: l' ws)
  ultimately show "walk l' h ws base" by (simp add: ws walk_append)
qed

lemma end_state:
  assumes inv: "free_inv s xs F" and ne: "F \<noteq> {}" and n: "0 < n" and un: "unused s {base..<base + n}"
    and last: "\<forall>p\<in>F. p < base" and hd: "free_list s \<notin> {base..<base + n}" and ub: "card F + n < 2 ^ 32"
  shows "\<exists>t. default_free_pages base n s = Some t \<and> free_list t = free_list s \<and>
    walk (free_links t) (free_list s) xs base \<and> nxt (free_links t) base = free_list s \<and>
    prv (free_links t) base = base \<and> prv (free_links t) (free_list s) = base \<and>
    len t = (len s)(base := n) \<and> unat (nr_free t) = card F + n"
proof -
  note I = free_invD [OF inv]
  have xs: "xs \<noteq> []" using ne unfolding I(4) by auto
  have lt: "\<forall>x\<in>set xs. x < base" using blocks_marked [OF inv] last by blast
  have hb: "base \<noteq> free_list s" using hd n by auto
  have bs: "base \<notin> set (free_list s # xs)" using lt hb by auto
  have n32: "n < 2 ^ 32" using ub by simp
  note C = counted_simps [OF n32]
  let ?c = "counted base n s" and ?l = "list_add base base (list_add (last xs) base (free_links s))"
  note E = end_links [OF I(1) xs bs]
  have "insert_block base ?c = insert_loop base (free_list s) ?c"
    using clist_empty [OF I(1)] xs by (simp add: insert_block_def C)
  then have i: "insert_block base ?c = Some (?c\<lparr>free_links := ?l\<rparr>)"
    using insert_loop_end [of ?c "[]" xs base] I(1) xs lt hb by (simp add: C)
  have "merge_prev base (?c\<lparr>free_links := ?l\<rparr>) = (base, ?c\<lparr>free_links := ?l\<rparr>)"
    using E(3) n hb by (simp add: merge_prev_def list_prev_def C flip: len_def)
  moreover have "merge_next base (?c\<lparr>free_links := ?l\<rparr>) = ?c\<lparr>free_links := ?l\<rparr>"
    using E(2) by (simp add: merge_next_def list_next_def C)
  ultimately have "default_free_pages base n s = Some (?c\<lparr>free_links := ?l\<rparr>)"
    by (simp add: default_free_pages_eq [OF un n] i)
  moreover have "unat (nr_free s + of_nat n) = card F + n"
    using ub nr_free_card [OF inv] n32 by (simp add: unat_word_ariths unat_of_nat)
  moreover have "len (?c\<lparr>free_links := ?l\<rparr>) = (len s)(base := n)" by (rule ext) (simp add: C)
  ultimately show ?thesis using E by (simp add: C)
qed

text \<open>
  A block that is freed after all other free blocks stays in the free list when it is
  allocated: \<^verbatim>\<open>default_free_pages\<close> lacks a \<^verbatim>\<open>break\<close> and inserts the block after itself. If no other
  block has \<open>m\<close> pages, the next two requests for \<open>m\<close> pages are both given its first page,
  although nothing was freed in between.
\<close>

theorem free_at_end_allocates_twice:
  assumes "free_pages s F" and "F \<noteq> {}" and "unused s {base..<base + n}" and "\<forall>p\<in>F. p < base"
    and "free_list s \<notin> {base..<base + n}" and "card F + n < 2 ^ 32"
    and m: "0 < m" "m \<le> n" "2 * m \<le> card F + n" and small: "\<nexists>p. {p..<p + m} \<subseteq> F"
  shows "\<exists>t u v. default_free_pages base n s = Some t \<and>
    default_alloc_pages m t = Some (Some base, u) \<and> default_alloc_pages m u = Some (Some base, v)"
proof -
  obtain xs where inv: "free_inv s xs F" using assms(1) by (auto simp: free_pages_def)
  note I = free_invD [OF inv]
  have n: "0 < n" using m by simp
  obtain t where t: "default_free_pages base n s = Some t" "free_list t = free_list s"
    "walk (free_links t) (free_list s) xs base" "nxt (free_links t) base = free_list s"
    "prv (free_links t) base = base" "prv (free_links t) (free_list s) = base"
    "len t = (len s)(base := n)" "unat (nr_free t) = card F + n"
    using end_state [OF inv assms(2) n assms(3-6)] by blast
  have sm: "len s x < m" if "x \<in> set xs" for x
  proof (rule ccontr)
    assume "\<not> len s x < m"
    then have "{x..<x + m} \<subseteq> block s x" by (auto simp: block_def)
    then show False using small that unfolding I(4) by blast
  qed
  have lt: "\<forall>x\<in>set xs. x < base" using blocks_marked [OF inv] assms(4) by blast
  have hb: "base \<noteq> free_list s" using assms(5) n by auto
  have hx: "free_list s \<notin> set (xs @ [base])" using I(1) hb by (auto simp: clist_def)
  have bx: "base \<notin> set xs" using lt by auto
  have find: "first_fit_find m (free_list s) w = Some (Some base)"
    if "walk (free_links w) (free_list s) xs base" "free_list w = free_list s"
      "\<forall>x\<in>set (xs @ [base]). len w x = len t x" for w
    by (rule first_fit_find_walk [OF that(1)]) (use that hx bx sm m(2) in \<open>auto simp: t(7)\<close>)
  have "first_fit_find m (free_list s) t = Some (Some base)" by (rule find) (use t in auto)
  then have a1: "default_alloc_pages m t = Some (take_block (Some base) m t)"
    using m t(2,8) by (simp add: default_alloc_pages_def)
  let ?u = "snd (take_block (Some base) m t)" and ?p = "base + m"
  have dl: "list_del base (free_links t) = free_links t"
    using t(4-6) by (simp add: list_h_defs fun_upd_idem)
  have fb: "fst (take_block (Some base) m t) = Some base" by (simp add: take_block_def Let_def)
  have nr: "unat (nr_free ?u) = card F + n - m"
    using m t(8) unat_minus_of_nat [of m "nr_free t"] by (simp add: take_block_def Let_def)
  have lu: "len ?u x = len t x" if "x \<in> set (xs @ [base])" for x
    using that lt m by (auto simp: take_block_def Let_def)
  have wu: "walk (free_links ?u) (free_list s) xs base"
  proof (cases "m < n")
    case True
    have "unat (property (pages t base)) = n" using t(7) by (simp add: fun_eq_iff flip: len_def)
    then have "free_links ?u = list_add base ?p (free_links t)"
      using True dl by (simp add: take_block_def Let_def list_prev_def t(5))
    moreover have "?p \<notin> set xs" using lt by auto
    moreover have "?p \<noteq> free_list s" using True assms(5) by auto
    ultimately show ?thesis using hb bx by (intro walk_frame [OF t(3)]) (auto simp: list_h_defs)
  next
    case False
    then have "\<not> m < unat (property (pages t base))" using t(7) m by (simp flip: len_def)
    then show ?thesis using dl t(3) by (simp add: take_block_def Let_def)
  qed
  have hu: "free_list ?u = free_list s" using t(2) by (simp add: take_block_def Let_def)
  have "first_fit_find m (free_list s) ?u = Some (Some base)"
    by (rule find [OF wu hu]) (use lu in blast)
  moreover have "\<not> unat (nr_free ?u) < m" using m unfolding nr by linarith
  ultimately have "default_alloc_pages m ?u = Some (take_block (Some base) m ?u)"
    using m(1) hu by (simp only: default_alloc_pages_def) simp
  moreover have "fst (take_block (Some base) m ?u) = Some base" by (simp add: take_block_def Let_def)
  ultimately show ?thesis using t(1) a1 fb by (metis prod.collapse)
qed

section \<open>Building the free list\<close>

lemma memmap_pages_spec:
  assumes "\<forall>q\<in>{p..<p + n}. PageReserved q s"
  shows "memmap_pages n p s = Some (s\<lparr>pages := (\<lambda>q. if q \<in> {p..<p + n}
     then (pages s q)\<lparr>page_flags := 0, property := 0, page_ref := 0\<rparr> else pages s q)\<rparr>)"
  using assms
proof (induction n arbitrary: p s)
  case 0
  then show ?case by simp
next
  case (Suc n)
  let ?t = "upd_page p (\<lambda>g. g\<lparr>page_flags := 0, property := 0, page_ref := 0\<rparr>) s"
  have "\<forall>q\<in>{p + 1..<p + 1 + n}. PageReserved q ?t"
    using Suc.prems by (auto simp: PageReserved_def)
  note IH = Suc.IH [OF this]
  have "PageReserved p s" using Suc.prems by auto
  then have "memmap_pages (Suc n) p s = memmap_pages n (p + 1) ?t" by simp
  also have "\<dots> = Some (?t\<lparr>pages := (\<lambda>q. if q \<in> {p + 1..<p + 1 + n}
      then (pages ?t q)\<lparr>page_flags := 0, property := 0, page_ref := 0\<rparr> else pages ?t q)\<rparr>)" by (rule IH)
  also have "(\<lambda>q. if q \<in> {p + 1..<p + 1 + n}
        then (pages ?t q)\<lparr>page_flags := 0, property := 0, page_ref := 0\<rparr> else pages ?t q) =
      (\<lambda>q. if q \<in> {p..<p + Suc n} then (pages s q)\<lparr>page_flags := 0, property := 0, page_ref := 0\<rparr> else pages s q)"
    by (rule ext) auto
  finally show ?case by (simp add: upd_page_def)
qed

lemma default_init_memmap_spec:
  assumes n: "0 < n" "n < 2 ^ 32" and r: "\<forall>p\<in>{base..<base + n}. PageReserved p s"
    and hd: "free_list s \<notin> {base..<base + n}"
  shows "\<exists>t. default_init_memmap base n (default_init s) = Some t \<and> free_inv t [base] {base..<base + n} \<and>
    free_list t = free_list s \<and> (\<forall>p. p \<notin> {base..<base + n} \<longrightarrow> pages t p = pages s p)"
proof -
  let ?s = "default_init s"
  have r': "\<forall>p\<in>{base..<base + n}. PageReserved p ?s" using r by (simp add: default_init_def PageReserved_def)
  let ?l = "list_add (free_list s) base (list_init (free_list s) (free_links s))"
  let ?g = "(SetPageProperty base (set_property base (of_nat n)
     (?s\<lparr>pages := (\<lambda>q. if q \<in> {base..<base + n} then (pages ?s q)\<lparr>page_flags := 0, property := 0, page_ref := 0\<rparr>
       else pages ?s q)\<rparr>)))\<lparr>nr_free := of_nat n\<rparr>"
  let ?t = "?g\<lparr>free_links := ?l\<rparr>"
  have c0: "clist (list_init (free_list s) (free_links s)) (free_list s) []" by (rule clist_init)
  have "insert_block base ?g = Some ?t"
    using clist_empty [OF c0] by (simp add: insert_block_def default_init_def)
  then have "default_init_memmap base n ?s = Some ?t"
    using n by (simp add: default_init_memmap_def memmap_pages_spec [OF r']) (simp add: default_init_def)
  moreover have "free_inv ?t [base] {base..<base + n}"
  proof (rule free_invI)
    show "clist (free_links ?t) (free_list ?t) [base]"
    proof -
      have "base \<noteq> free_list s" using hd n by auto
      then have "clist ?l (free_list s) [base]"
        using clist_add_after [of _ _ "[]" "[]" base] c0 by (simp add: list_add_def)
      then show ?thesis by (simp add: default_init_def)
    qed
    have l: "len ?t base = n" using n by (simp add: unat_of_nat)
    show "0 < len ?t x" if "x \<in> set [base]" for x using l that n by simp
    show "{base..<base + n} = (\<Union>x\<in>set [base]. block ?t x)" using l by (simp add: block_def)
    show "free_list ?t \<notin> {base..<base + n}" using hd by (simp add: default_init_def)
    fix p assume p: "p \<in> {base..<base + n}"
    show "\<not> PageReserved p ?t"
      using p by (simp add: PageReserved_def page_op_defs PG_reserved_def PG_property_def)
    show "PageProperty p ?t \<longleftrightarrow> p \<in> set [base]"
      using p by (simp add: PageProperty_def page_op_defs PG_property_def)
  next
    show "unat (nr_free ?t) = sum_list (map (len ?t) [base])" using n by (simp add: unat_of_nat)
  qed simp
  moreover have "pages ?t p = pages s p" if "p \<notin> {base..<base + n}" for p
    using that n by (auto simp: default_init_def page_op_defs)
  ultimately show ?thesis by (auto simp: default_init_def)
qed

section \<open>Requests and releases\<close>

text \<open>
  The clients of a page manager ask for runs of pages and give runs back that they hold. A release is
  \<open>orderly\<close> when the free list is empty or its last block lies behind the run; the others, for which
  \<open>insert_loop\<close> damages the list, are left out (the client keeps its run).
\<close>

datatype request = Get nat | Put nat

definition orderly :: "nat \<Rightarrow> free_area \<Rightarrow> bool" where
  "orderly base s \<longleftrightarrow> list_empty (free_list s) (free_links s) \<or> base < list_prev (free_list s) (free_links s)"

fun serve :: "(nat \<Rightarrow> 's \<Rightarrow> (nat option \<times> 's) option) \<Rightarrow> (nat \<Rightarrow> nat \<Rightarrow> 's \<Rightarrow> 's option) \<Rightarrow> (nat \<Rightarrow> 's \<Rightarrow> bool) \<Rightarrow>
    request list \<Rightarrow> (nat \<times> nat) list \<Rightarrow> 's \<Rightarrow> ((nat \<times> nat) list \<times> 's) option" where
  "serve alloc free may [] hs s = Some (hs, s)"
| "serve alloc free may (Get n # rs) hs s =
     (case alloc n s of None \<Rightarrow> None
      | Some (None, t) \<Rightarrow> serve alloc free may rs hs t
      | Some (Some x, t) \<Rightarrow> serve alloc free may rs ((x, n) # hs) t)"
| "serve alloc free may (Put i # rs) hs s =
     (if i < length hs \<and> may (fst (hs ! i)) s
      then case free (fst (hs ! i)) (snd (hs ! i)) s of None \<Rightarrow> None
        | Some t \<Rightarrow> serve alloc free may rs (take i hs @ drop (Suc i) hs) t
      else serve alloc free may rs hs s)"

text \<open>The laws of a page manager: \<open>inv s F H\<close> with the free pages \<open>F\<close> and the pages \<open>H\<close> that are held.\<close>

locale page_manager =
  fixes inv :: "'s \<Rightarrow> nat set \<Rightarrow> nat set \<Rightarrow> bool"
    and alloc :: "nat \<Rightarrow> 's \<Rightarrow> (nat option \<times> 's) option"
    and release :: "nat \<Rightarrow> nat \<Rightarrow> 's \<Rightarrow> 's option"
    and may :: "nat \<Rightarrow> 's \<Rightarrow> bool"
  assumes get_returns: "inv s F H \<Longrightarrow> 0 < n \<Longrightarrow> \<exists>r t. alloc n s = Some (r, t)"
    and get_run: "inv s F H \<Longrightarrow> 0 < n \<Longrightarrow> alloc n s = Some (Some x, t) \<Longrightarrow>
      {x..<x + n} \<subseteq> F \<and> inv t (F - {x..<x + n}) (H \<union> {x..<x + n})"
    and get_none: "inv s F H \<Longrightarrow> 0 < n \<Longrightarrow> alloc n s = Some (None, t) \<Longrightarrow> inv t F H"
    and put_run: "inv s F H \<Longrightarrow> 0 < n \<Longrightarrow> {x..<x + n} \<subseteq> H \<Longrightarrow> may x s \<Longrightarrow>
      \<exists>t. release x n s = Some t \<and> inv t (F \<union> {x..<x + n}) (H - {x..<x + n})"
    and apart: "inv s F H \<Longrightarrow> F \<inter> H = {}"
begin

definition holds :: "'s \<Rightarrow> nat set \<Rightarrow> (nat \<times> nat) list \<Rightarrow> bool" where
  "holds s F hs \<longleftrightarrow> inv s F (\<Union>h\<in>set hs. run h) \<and> (\<forall>h\<in>set hs. 0 < snd h) \<and> sorted_wrt (\<lambda>r q. run r \<inter> run q = {}) hs"

lemma holds_get:
  assumes h: "holds s F hs" and n: "0 < n" and a: "alloc n s = Some (Some x, t)"
  shows "holds t (F - run (x, n)) ((x, n) # hs)" and "run (x, n) \<subseteq> F"
proof -
  have i: "inv s F (\<Union>h\<in>set hs. run h)" using h by (simp add: holds_def)
  note g = get_run [OF i n a]
  show sub: "run (x, n) \<subseteq> F" using g by (simp add: run_def)
  then have "run (x, n) \<inter> run q = {}" if "q \<in> set hs" for q using apart [OF i] that by blast
  moreover have "inv t (F - run (x, n)) (run (x, n) \<union> (\<Union>h\<in>set hs. run h))" using g by (simp add: run_def Un_commute)
  ultimately show "holds t (F - run (x, n)) ((x, n) # hs)" using h n by (simp add: holds_def)
qed

lemma holds_put:
  assumes h: "holds s F hs" and i: "i < length hs" "may (fst (hs ! i)) s"
  shows "\<exists>t. release (fst (hs ! i)) (snd (hs ! i)) s = Some t \<and> holds t (F \<union> run (hs ! i)) (take i hs @ drop (Suc i) hs)"
proof -
  let ?r = "hs ! i" and ?us = "take i hs" and ?vs = "drop (Suc i) hs"
  have e: "hs = ?us @ ?r # ?vs" using i(1) by (simp add: id_take_nth_drop)
  have S: "sorted_wrt (\<lambda>r q. run r \<inter> run q = {}) (?us @ ?r # ?vs)" using h e by (simp add: holds_def)
  have U: "(\<Union>h\<in>set hs. run h) = (\<Union>h\<in>set (?us @ ?r # ?vs). run h)" using e by (rule arg_cong)
  have "0 < snd ?r" using h i(1) by (simp add: holds_def)
  moreover have "inv s F (\<Union>h\<in>set hs. run h)" using h by (simp add: holds_def)
  moreover have "{fst ?r..<fst ?r + snd ?r} \<subseteq> (\<Union>h\<in>set hs. run h)"
    using nth_mem [OF i(1)] unfolding run_def by blast
  ultimately obtain t where t: "release (fst ?r) (snd ?r) s = Some t"
    "inv t (F \<union> run ?r) ((\<Union>h\<in>set hs. run h) - run ?r)" using put_run i(2) unfolding run_def by blast
  have "run q \<inter> run ?r = {}" if "q \<in> set ?us \<union> set ?vs" for q using S that by (auto simp: sorted_wrt_append)
  then have "(\<Union>h\<in>set hs. run h) - run ?r = (\<Union>h\<in>set (?us @ ?vs). run h)" unfolding U by auto
  moreover have "\<forall>h\<in>set (?us @ ?vs). 0 < snd h" using h by (auto simp: holds_def dest: in_set_takeD in_set_dropD)
  moreover have "sorted_wrt (\<lambda>r q. run r \<inter> run q = {}) (?us @ ?vs)" using S by (simp add: sorted_wrt_append)
  ultimately have "holds t (F \<union> run ?r) (?us @ ?vs)" using t(2) by (simp add: holds_def)
  then show ?thesis using t(1) by blast
qed

lemma serve_keeps:
  assumes "holds s F hs" and "\<forall>n. Get n \<in> set rs \<longrightarrow> 0 < n"
  shows "\<exists>gs t G. serve alloc release may rs hs s = Some (gs, t) \<and> holds t G gs \<and>
    G \<union> (\<Union>h\<in>set gs. run h) = F \<union> (\<Union>h\<in>set hs. run h)"
  using assms
proof (induction rs arbitrary: s F hs)
  case Nil
  then show ?case by (intro exI [of _ hs] exI [of _ s] exI [of _ F]) simp
next
  case (Cons r rs)
  have n: "\<forall>n. Get n \<in> set rs \<longrightarrow> 0 < n" using Cons.prems(2) by simp
  have i: "inv s F (\<Union>h\<in>set hs. run h)" using Cons.prems(1) by (simp add: holds_def)
  show ?case
  proof (cases r)
    case (Get m)
    then have m: "0 < m" using Cons.prems(2) by simp
    obtain x t where a: "alloc m s = Some (x, t)" using get_returns [OF i m] by blast
    show ?thesis
    proof (cases x)
      case None
      have "holds t F hs" using get_none [OF i m] a None Cons.prems(1) by (simp add: holds_def)
      then show ?thesis using Cons.IH [OF _ n] a None Get by simp
    next
      case (Some y)
      have h: "holds t (F - run (y, m)) ((y, m) # hs)" "run (y, m) \<subseteq> F" using holds_get [OF Cons.prems(1) m] a Some by simp_all
      then have "F - run (y, m) \<union> (\<Union>h\<in>set ((y, m) # hs). run h) = F \<union> (\<Union>h\<in>set hs. run h)" by auto
      then show ?thesis using Cons.IH [OF h(1) n] a Some Get by simp
    qed
  next
    case (Put j)
    show ?thesis
    proof (cases "j < length hs \<and> may (fst (hs ! j)) s")
      case True
      then obtain t where t: "release (fst (hs ! j)) (snd (hs ! j)) s = Some t"
        "holds t (F \<union> run (hs ! j)) (take j hs @ drop (Suc j) hs)" using holds_put [OF Cons.prems(1)] by blast
      have "hs = take j hs @ hs ! j # drop (Suc j) hs" using True by (simp add: id_take_nth_drop)
      then have "(\<Union>h\<in>set hs. run h) = (\<Union>h\<in>set (take j hs @ hs ! j # drop (Suc j) hs). run h)" by (rule arg_cong)
      then have "F \<union> run (hs ! j) \<union> (\<Union>h\<in>set (take j hs @ drop (Suc j) hs). run h) = F \<union> (\<Union>h\<in>set hs. run h)" by auto
      then show ?thesis using Cons.IH [OF t(2) n] t(1) True Put by simp
    next
      case False
      then show ?thesis using Cons.IH [OF Cons.prems(1) n] Put by auto
    qed
  qed
qed

end

text \<open>Only descriptors of free pages change when pages are taken.\<close>

lemma first_fit_takes:
  assumes inv: "free_inv s xs F" and n: "0 < n" and a: "default_alloc_pages n s = Some (Some x, t)"
  shows "x \<in> set xs" and "n \<le> len s x" and "take_block (Some x) n s = (Some x, t)"
proof -
  have f: "first_fit_find n (free_list s) s = Some (List.find (\<lambda>x. n \<le> len s x) xs)"
    using first_fit_find_list [of s "[]" xs n] free_invD(1) [OF inv] by simp
  obtain y where y: "List.find (\<lambda>x. n \<le> len s x) xs = Some y" "take_block (Some y) n s = (Some x, t)"
    using a f n by (auto simp: default_alloc_pages_def take_block_def split: if_splits option.splits)
  moreover from y(2) have "y = x" by (simp add: take_block_def Let_def)
  ultimately show "x \<in> set xs" "n \<le> len s x" "take_block (Some x) n s = (Some x, t)" by (auto simp: find_Some_iff)
qed

lemma best_fit_takes:
  assumes inv: "free_inv s xs F" and n: "0 < n" and a: "best_fit_alloc_pages n s = Some (Some x, t)"
  shows "x \<in> set xs" and "n \<le> len s x" and "take_block (Some x) n s = (Some x, t)"
proof -
  have f: "best_fit_find n (free_list s) None (nr_free s + 1) s = Some (best (len s) n None (unat (nr_free s + 1)) xs)"
    using best_fit_find_list [of s "[]" xs n None "nr_free s + 1"] free_invD(1) [OF inv] blocks_marked [OF inv] by simp
  obtain y where y: "best (len s) n None (unat (nr_free s + 1)) xs = Some y" "take_block (Some y) n s = (Some x, t)"
    using a f n by (auto simp: best_fit_alloc_pages_def take_block_def split: if_splits option.splits)
  moreover from y(2) have "y = x" by (simp add: take_block_def Let_def)
  ultimately show "x \<in> set xs" "n \<le> len s x" "take_block (Some x) n s = (Some x, t)"
    using best_spec [OF y(1)] by auto
qed

lemma take_block_frame:
  assumes inv: "free_inv s xs F" and x: "x \<in> set xs" and t: "take_block (Some x) n s = (Some x, t)" and p: "p \<notin> F"
  shows "PageProperty p t \<longleftrightarrow> PageProperty p s" and "PageReserved p t \<longleftrightarrow> PageReserved p s" and "free_list t = free_list s"
proof -
  have "x \<in> F" using blocks_marked [OF inv] x by blast
  moreover have "x + n \<in> F" if "n < len s x"
    using that x unfolding free_invD(4) [OF inv] by (auto simp: block_def intro!: bexI [of _ x])
  ultimately show "PageProperty p t \<longleftrightarrow> PageProperty p s" "PageReserved p t \<longleftrightarrow> PageReserved p s" "free_list t = free_list s"
    using t p by (auto simp: take_block_def Let_def split: if_splits simp flip: len_def)
qed

text \<open>Release marks no page outside the run.\<close>

lemma insert_loop_frame:
  assumes "insert_loop base le s = Some t"
  shows "pages t = pages s \<and> free_list t = free_list s"
  using assms
proof (rule insert_loop.raw_induct [rotated])
  fix f :: "nat \<Rightarrow> nat \<Rightarrow> free_area \<Rightarrow> free_area option" and b l :: nat and u v :: free_area
  assume "\<And>b l u v. f b l u = Some v \<Longrightarrow> pages v = pages u \<and> free_list v = free_list u"
    and "(let le = list_next l (free_links u) in
      if le = free_list u then Some u
      else if b < le then Some (u\<lparr>free_links := list_add_before le b (free_links u)\<rparr>)
      else f b le (if list_next le (free_links u) = free_list u then u\<lparr>free_links := list_add le b (free_links u)\<rparr> else u)) = Some v"
  then show "pages v = pages u \<and> free_list v = free_list u" by (fastforce simp: Let_def split: if_splits)
qed

lemma default_free_frame:
  assumes un: "unused s {base..<base + n}" and n: "0 < n" "n < 2 ^ 32" and t: "default_free_pages base n s = Some t"
    and p: "p \<notin> {base..<base + n}"
  shows "PageProperty p t \<longrightarrow> PageProperty p s" and "PageReserved p t \<longrightarrow> PageReserved p s" and "free_list t = free_list s"
proof -
  obtain u where u: "insert_block base (counted base n s) = Some u"
    "t = (let (b, s) = merge_prev base u in merge_next b s)"
    using t unfolding default_free_pages_eq [OF un n(1)] by (auto split: bind_splits prod.splits)
  have f: "pages u = pages (counted base n s)" "free_list u = free_list s"
    using u(1) insert_loop_frame counted_simps(2) [OF n(2)] by (fastforce simp: insert_block_def split: if_splits)+
  have "PageProperty p u \<longleftrightarrow> PageProperty p s" "PageReserved p u \<longleftrightarrow> PageReserved p s"
    using p n(1) counted_simps(5,6) [OF n(2), of p base s] f(1) by (auto simp: PageProperty_def PageReserved_def)
  then show "PageProperty p t \<longrightarrow> PageProperty p s" "PageReserved p t \<longrightarrow> PageReserved p s" "free_list t = free_list s"
    using f(2) by (auto simp: u(2) merge_prev_def merge_next_def Let_def split: prod.splits if_splits)
qed

text \<open>The free pages and the pages that are held, which are not marked.\<close>

definition managed_pages :: "free_area \<Rightarrow> nat set \<Rightarrow> nat set \<Rightarrow> bool" where
  "managed_pages s F H \<longleftrightarrow> free_pages s F \<and> unused s H \<and> F \<inter> H = {} \<and> finite H \<and> card F + card H + 1 < 2 ^ 32 \<and>
     free_list s \<notin> H"

lemma free_pages_finite: "free_pages s F \<Longrightarrow> finite F"
  by (auto simp: free_pages_def block_def dest!: free_invD(4))

lemma managed_get:
  assumes m: "managed_pages s F H" and inv: "free_inv s xs F" and x: "x \<in> set xs" "n \<le> len s x" and n: "0 < n"
    and t: "take_block (Some x) n s = (Some x, t)"
  shows "{x..<x + n} \<subseteq> F \<and> managed_pages t (F - {x..<x + n}) (H \<union> {x..<x + n})"
proof -
  obtain ys where b: "free_inv t ys (F - {x..<x + n})" "unused t {x..<x + n}" "{x..<x + n} \<subseteq> F"
    using take_block_spec [OF inv x(1) n x(2)] t by auto
  have f: "free_pages s F" "finite F" "finite H" "F \<inter> H = {}" "card F + card H + 1 < 2 ^ 32" "free_list s \<notin> H" "unused s H"
    using m free_pages_finite by (auto simp: managed_pages_def)
  have "p \<notin> F" if "p \<in> H" for p using that f(4) by blast
  then have "unused t H" using f(7) take_block_frame(1,2) [OF inv x(1) t] by (simp add: unused_def)
  then have "unused t (H \<union> {x..<x + n})" using b(2) by (auto simp: unused_def)
  moreover have "free_list t \<notin> H \<union> {x..<x + n}"
    using take_block_frame(3) [OF inv x(1) t free_invD(5) [OF inv]] f(6) free_invD(5) [OF inv] b(3) by auto
  moreover have "card (F - {x..<x + n}) + card (H \<union> {x..<x + n}) = card F + card H"
  proof -
    have "card (H \<union> {x..<x + n}) = card H + card {x..<x + n}" by (rule card_Un_disjoint) (use f b(3) in auto)
    moreover have "card (F - {x..<x + n}) = card F - card {x..<x + n}" by (rule card_Diff_subset) (use b(3) in auto)
    moreover have "card {x..<x + n} \<le> card F" by (rule card_mono [OF f(2) b(3)])
    ultimately show ?thesis by linarith
  qed
  moreover have "free_pages t (F - {x..<x + n})" by (rule free_pages_subset [OF f(1) _ b(1)]) simp
  ultimately show ?thesis using b(3) f by (auto simp: managed_pages_def)
qed

lemma orderly_behind:
  assumes inv: "free_inv s xs F" and "orderly base s"
  shows "F = {} \<or> (\<exists>p\<in>F. base < p)"
proof (cases "xs = []")
  case True
  then show ?thesis using free_invD(4) [OF inv] by simp
next
  case False
  then have "list_prev (free_list s) (free_links s) = last xs" "\<not> list_empty (free_list s) (free_links s)"
    using clist_prev_head [OF free_invD(1) [OF inv]] clist_empty [OF free_invD(1) [OF inv]] by simp_all
  then have "base < last xs" using assms(2) by (simp add: orderly_def)
  moreover have "last xs \<in> F" using blocks_marked [OF inv] False by simp
  ultimately show ?thesis by blast
qed

lemma managed_put:
  assumes m: "managed_pages s F H" and n: "0 < n" and sub: "{x..<x + n} \<subseteq> H" and o: "orderly x s"
  shows "\<exists>t. default_free_pages x n s = Some t \<and> managed_pages t (F \<union> {x..<x + n}) (H - {x..<x + n})"
proof -
  have f: "free_pages s F" "finite F" "finite H" "F \<inter> H = {}" "card F + card H + 1 < 2 ^ 32" "free_list s \<notin> H" "unused s H"
    using m free_pages_finite by (auto simp: managed_pages_def)
  obtain xs where inv: "free_inv s xs F" using f(1) by (auto simp: free_pages_def)
  have nH: "n \<le> card H" using card_mono [OF f(3) sub] by simp
  have un: "unused s {x..<x + n}" using f(7) sub by (auto simp: unused_def)
  have new: "{x..<x + n} \<inter> F = {}" and hd: "free_list s \<notin> {x..<x + n}" using f(4,6) sub by blast+
  obtain t ys where t: "default_free_pages x n s = Some t" "free_inv t ys (F \<union> {x..<x + n})"
    using default_free_pages_spec [OF inv n un new hd _ orderly_behind [OF inv o]] nH f(5) by auto
  have c: "card (F \<union> {x..<x + n}) = card F + n" using card_Un_disjoint [of F "{x..<x + n}"] f(2) new by (simp add: Int_commute)
  have d: "card (H - {x..<x + n}) = card H - n" using card_Diff_subset [OF _ sub] by simp
  have n32: "n < 2 ^ 32" using nH f(5) by simp
  note fr = default_free_frame [OF un n n32 t(1)]
  have "unused t (H - {x..<x + n})" using f(7) fr(1,2) by (auto simp: unused_def)
  moreover have "free_list t \<notin> H - {x..<x + n}" using fr(3) [of "x + n"] f(6) by simp
  moreover have "free_pages t (F \<union> {x..<x + n})" using t(2) c nH f(5) by (auto simp: free_pages_def)
  moreover have "(F \<union> {x..<x + n}) \<inter> (H - {x..<x + n}) = {}" using f(4) by blast
  ultimately have "managed_pages t (F \<union> {x..<x + n}) (H - {x..<x + n})"
    using f(3,5) c d nH by (simp add: managed_pages_def)
  then show ?thesis using t(1) by blast
qed

interpretation first_fit_manager: page_manager managed_pages default_alloc_pages default_free_pages orderly
proof
  fix s F H and n :: nat
  assume m: "managed_pages s F H"
  then have fp: "free_pages s F" by (simp add: managed_pages_def)
  then obtain xs where inv: "free_inv s xs F" by (auto simp: free_pages_def)
  show "F \<inter> H = {}" using m by (simp add: managed_pages_def)
  show "\<exists>t. default_free_pages x n s = Some t \<and> managed_pages t (F \<union> {x..<x + n}) (H - {x..<x + n})"
    if "0 < n" "{x..<x + n} \<subseteq> H" "orderly x s" for x using managed_put [OF m that] .
  assume n: "0 < n"
  show "\<exists>r t. default_alloc_pages n s = Some (r, t)" by (rule first_fit.alloc_returns [OF fp n])
  show "{x..<x + n} \<subseteq> F \<and> managed_pages t (F - {x..<x + n}) (H \<union> {x..<x + n})"
    if "default_alloc_pages n s = Some (Some x, t)" for x t
    using managed_get [OF m inv _ _ n] first_fit_takes [OF inv n that] by blast
  show "managed_pages t F H" if "default_alloc_pages n s = Some (None, t)" for t
    using m first_fit_alloc_spec [OF inv n] that by (auto simp: alloc_spec_def)
qed

interpretation best_fit_manager: page_manager managed_pages best_fit_alloc_pages default_free_pages orderly
proof
  fix s F H and n :: nat
  assume m: "managed_pages s F H"
  then have fp: "free_pages s F" by (simp add: managed_pages_def)
  then obtain xs where inv: "free_inv s xs F" by (auto simp: free_pages_def)
  show "F \<inter> H = {}" using m by (simp add: managed_pages_def)
  show "\<exists>t. default_free_pages x n s = Some t \<and> managed_pages t (F \<union> {x..<x + n}) (H - {x..<x + n})"
    if "0 < n" "{x..<x + n} \<subseteq> H" "orderly x s" for x using managed_put [OF m that] .
  assume n: "0 < n"
  show "\<exists>r t. best_fit_alloc_pages n s = Some (r, t)" by (rule best_fit.alloc_returns [OF fp n])
  show "{x..<x + n} \<subseteq> F \<and> managed_pages t (F - {x..<x + n}) (H \<union> {x..<x + n})"
    if "best_fit_alloc_pages n s = Some (Some x, t)" for x t
    using managed_get [OF m inv _ _ n] best_fit_takes [OF inv n that] by blast
  have "unat (nr_free s) + 1 < 2 ^ 32" using fp nr_free_card [OF inv] by (simp add: free_pages_def)
  then show "managed_pages t F H" if "best_fit_alloc_pages n s = Some (None, t)" for t
    using m best_fit_alloc_spec [OF inv n] that by (auto simp: alloc_spec_def)
qed

section \<open>Properties\<close>

text \<open>
  C14: First fit. For a request of \<open>n\<close> pages \<^verbatim>\<open>default_alloc_pages\<close> returns the lowest page at
  which a run of \<open>n\<close> free pages begins, and takes exactly this run from the free pages; when
  there is no such run it returns \<^verbatim>\<open>NULL\<close> and changes nothing.
\<close>

theorem default_alloc_pages_first_fit:
  assumes "free_pages s F" and "0 < n"
  shows "if \<exists>p. {p..<p + n} \<subseteq> F
    then \<exists>t. default_alloc_pages n s = Some (Some (LEAST p. {p..<p + n} \<subseteq> F), t) \<and>
      free_pages t (F - {(LEAST p. {p..<p + n} \<subseteq> F)..<(LEAST p. {p..<p + n} \<subseteq> F) + n})
    else default_alloc_pages n s = Some (None, s)"
proof -
  obtain xs where xs: "free_inv s xs F" using assms(1) by (auto simp: free_pages_def)
  obtain r where r: "default_alloc_pages n s = Some r" "alloc_spec n F s r"
    "\<forall>x. fst r = Some x \<longrightarrow> (\<forall>p. {p..<p + n} \<subseteq> F \<longrightarrow> x \<le> p)"
    using first_fit_alloc_spec [OF xs assms(2)] by blast
  show ?thesis
  proof (cases "fst r")
    case None
    then obtain t where "r = (None, t)" by (cases r) auto
    then show ?thesis using r(1,2) by (auto simp: alloc_spec_def)
  next
    case (Some x)
    then obtain t where t: "r = (Some x, t)" by (cases r) auto
    then have x: "{x..<x + n} \<subseteq> F" "\<exists>ys. free_inv t ys (F - {x..<x + n})" using r(2) by (auto simp: alloc_spec_def)
    have "(LEAST p. {p..<p + n} \<subseteq> F) = x" using x(1) r(3) Some by (intro Least_equality) auto
    moreover have "free_pages t (F - {x..<x + n})" using x(2) free_pages_subset [OF assms(1)] by auto
    ultimately show ?thesis using r(1) t x(1) by auto
  qed
qed

text \<open>
  C15: Freeing a run of allocated pages puts exactly these pages back, with the blocks before and
  after it merged with it, when a free block lies after the run or no page is free.
\<close>

theorem default_free_pages_merges:
  assumes "free_pages s F" and "0 < n" and "unused s {base..<base + n}" and "{base..<base + n} \<inter> F = {}"
    and "free_list s \<notin> {base..<base + n}" and "card F + n + 1 < 2 ^ 32" and "F = {} \<or> (\<exists>p\<in>F. base < p)"
  shows "\<exists>t. default_free_pages base n s = Some t \<and> free_pages t (F \<union> {base..<base + n})"
proof -
  obtain xs where inv: "free_inv s xs F" using assms(1) by (auto simp: free_pages_def)
  have "finite F" unfolding free_invD(4) [OF inv] by (simp add: block_def)
  then have "card (F \<union> {base..<base + n}) = card F + n" using assms(4) by (subst card_Un_disjoint) auto
  moreover have "card F + n < 2 ^ 32" using assms(6) by simp
  ultimately show ?thesis
    using default_free_pages_spec [OF inv assms(2-5) _ assms(7)] assms(6) by (auto simp: free_pages_def)
qed

text \<open>
  C16: Pages are not handed out twice, and none is lost. First fit and best fit return from any sequence of
  requests and orderly releases: at every end the free pages and the runs that are held are disjoint, so are
  the runs among each other, and together they are the pages that were free at the start. (A release behind
  the last free block is not orderly: it damages the list, and the run is then handed out twice, as
  \<open>free_at_end_allocates_twice\<close> shows.)
\<close>

theorem page_requests_disjoint:
  assumes "free_pages s F" and "\<forall>n. Get n \<in> set rs \<longrightarrow> 0 < n"
  shows "(\<exists>hs t G. serve default_alloc_pages default_free_pages orderly rs [] s = Some (hs, t) \<and> free_pages t G \<and>
      sorted_wrt (\<lambda>r q. run r \<inter> run q = {}) hs \<and> (\<forall>h\<in>set hs. 0 < snd h \<and> run h \<inter> G = {}) \<and>
      G \<union> (\<Union>h\<in>set hs. run h) = F) \<and>
    (\<exists>hs t G. serve best_fit_alloc_pages default_free_pages orderly rs [] s = Some (hs, t) \<and> free_pages t G \<and>
      sorted_wrt (\<lambda>r q. run r \<inter> run q = {}) hs \<and> (\<forall>h\<in>set hs. 0 < snd h \<and> run h \<inter> G = {}) \<and>
      G \<union> (\<Union>h\<in>set hs. run h) = F)"
proof -
  have m: "managed_pages s F {}" using assms(1) by (auto simp: managed_pages_def free_pages_def unused_def)
  have a: "first_fit_manager.holds s F []" "best_fit_manager.holds s F []"
    using m by (simp_all add: first_fit_manager.holds_def best_fit_manager.holds_def)
  obtain hs t G where f: "serve default_alloc_pages default_free_pages orderly rs [] s = Some (hs, t)"
    "first_fit_manager.holds t G hs" "G \<union> (\<Union>h\<in>set hs. run h) = F \<union> (\<Union>h\<in>set []. run h)"
    using first_fit_manager.serve_keeps [OF a(1) assms(2)] by (elim exE conjE) (rule that)
  obtain hs' t' G' where b: "serve best_fit_alloc_pages default_free_pages orderly rs [] s = Some (hs', t')"
    "best_fit_manager.holds t' G' hs'" "G' \<union> (\<Union>h\<in>set hs'. run h) = F \<union> (\<Union>h\<in>set []. run h)"
    using best_fit_manager.serve_keeps [OF a(2) assms(2)] by (elim exE conjE) (rule that)
  have F: "free_pages t G" "sorted_wrt (\<lambda>r q. run r \<inter> run q = {}) hs" "\<forall>h\<in>set hs. 0 < snd h \<and> run h \<inter> G = {}"
    using f(2) by (auto simp: first_fit_manager.holds_def managed_pages_def)
  have B: "free_pages t' G'" "sorted_wrt (\<lambda>r q. run r \<inter> run q = {}) hs'" "\<forall>h\<in>set hs'. 0 < snd h \<and> run h \<inter> G' = {}"
    using b(2) by (auto simp: best_fit_manager.holds_def managed_pages_def)
  show ?thesis
    by (intro conjI exI [of _ hs] exI [of _ t] exI [of _ G] exI [of _ hs'] exI [of _ t'] exI [of _ G'])
      (use f(1,3) b(1,3) F B in simp_all)
qed

section \<open>Witnesses\<close>

definition demo_pages :: free_area where
  "demo_pages = \<lparr>pages = (\<lambda>p. \<lparr>page_ref = 0, page_flags = (if p < 20 then 1 else 0), property = 0\<rparr>),
     free_links = \<lparr>nxt = id, prv = id\<rparr>, free_list = 1000, nr_free = 0\<rparr>"

lemma demo_memmap:
  "\<exists>t. default_init_memmap 10 2 (default_init demo_pages) = Some t \<and> free_pages t {10..<12} \<and>
    free_list t = 1000 \<and> unused t {20..<28} \<and> unused t {20..<22}"
proof -
  have "\<forall>p\<in>{10..<10 + 2}. PageReserved p demo_pages"
    by (simp add: PageReserved_def demo_pages_def PG_reserved_def atomic_test_bit_def)
  then obtain t where t: "default_init_memmap 10 2 (default_init demo_pages) = Some t"
    "free_inv t [10] {10..<10 + 2}" "free_list t = free_list demo_pages"
    "\<forall>p. p \<notin> {10..<10 + 2} \<longrightarrow> pages t p = pages demo_pages p"
    using default_init_memmap_spec [of 2 10 demo_pages] by (auto simp: demo_pages_def)
  then have "unused t {20..<28}" by (simp add: unused_def PageReserved_def PageProperty_def demo_pages_def)
  then show ?thesis using t by (auto simp: free_pages_def demo_pages_def unused_def)
qed

theorem default_alloc_pages_first_fit_witness:
  "\<exists>s t. free_pages s {10..<12} \<and> default_alloc_pages 2 s = Some (Some 10, t) \<and> default_alloc_pages 3 s = Some (None, s)"
proof -
  obtain s where s: "free_pages s {10..<12}" using demo_memmap by blast
  have l: "(LEAST p. {p..<p + 2} \<subseteq> {10..<12 :: nat}) = 10" by (rule Least_equality) auto
  have "{10..<10 + 2} \<subseteq> {10..<12 :: nat}" by simp
  then have "\<exists>p. {p..<p + 2} \<subseteq> {10..<12 :: nat}" by blast
  moreover have "\<nexists>p. {p..<p + 3} \<subseteq> {10..<12 :: nat}" by (simp add: not_less)
  ultimately show ?thesis
    using default_alloc_pages_first_fit [OF s, of 2] default_alloc_pages_first_fit [OF s, of 3] s
    unfolding l by auto
qed

theorem default_free_pages_merges_witness:
  "\<exists>s t. free_pages s {} \<and> default_free_pages 20 8 s = Some t \<and> free_pages t {20..<28}"
proof -
  let ?s = "default_init demo_pages"
  have s: "free_pages ?s {}"
    by (auto simp: free_pages_def free_inv_def default_init_def intro!: exI [of _ "[]"] clist_init)
  moreover have "unused ?s {20..<28}"
    by (simp add: unused_def PageReserved_def PageProperty_def demo_pages_def default_init_def)
  ultimately show ?thesis using default_free_pages_merges [OF s, of 8 20]
    by (auto simp: default_init_def demo_pages_def)
qed

theorem page_requests_disjoint_witness:
  "\<exists>s hs t G. free_pages s {10..<12} \<and> serve default_alloc_pages default_free_pages orderly [Get 1, Get 3, Get 1, Put 1, Get 1] [] s = Some (hs, t) \<and>
    free_pages t G \<and> sorted_wrt (\<lambda>r q. run r \<inter> run q = {}) hs \<and> G \<union> (\<Union>h\<in>set hs. run h) = {10..<12}"
proof -
  obtain s where s: "free_pages s {10..<12}" using demo_memmap by blast
  let ?rs = "[Get 1, Get 3, Get 1, Put 1, Get 1]"
  have "\<forall>n. Get n \<in> set ?rs \<longrightarrow> 0 < n" by auto
  note c = conjunct1 [OF page_requests_disjoint [OF s this]]
  obtain hs t G where "serve default_alloc_pages default_free_pages orderly ?rs [] s = Some (hs, t)" "free_pages t G"
    "sorted_wrt (\<lambda>r q. run r \<inter> run q = {}) hs" "G \<union> (\<Union>h\<in>set hs. run h) = {10..<12}"
    using c by (elim exE conjE) (rule that)
  then show ?thesis using s by (intro exI [of _ s] exI [of _ hs] exI [of _ t] exI [of _ G] conjI)
qed

theorem free_at_end_allocates_twice_witness:
  "\<exists>s t u v. free_pages s {10..<12} \<and> default_free_pages 20 8 s = Some t \<and>
    default_alloc_pages 3 t = Some (Some 20, u) \<and> default_alloc_pages 3 u = Some (Some 20, v)"
proof -
  obtain s where s: "free_pages s {10..<12}" "free_list s = 1000" "unused s {20..<28}" using demo_memmap by blast
  have "\<nexists>p. {p..<p + 3} \<subseteq> {10..<12 :: nat}" by (simp add: not_less)
  then show ?thesis using free_at_end_allocates_twice [OF s(1), of 20 8 3] s by auto
qed

end
