(* ===== verification/Paging.thy ===== *)
theory Paging
  imports FreePages
begin

text \<open>
  Page tables (\<^verbatim>\<open>kern/mm/pmm.c\<close>, with the macros of \<^verbatim>\<open>mmu.h\<close> and the conversions of \<^verbatim>\<open>pmm.h\<close>):
  three levels of tables of 512 entries, entries of 64 bits. Addresses are 64-bit words;
  memory is read and written in whole words by its kernel virtual address, and a null
  pointer is 0. A page descriptor is named by its index as in the allocator. The translation
  look-aside buffer is not modelled, so \<^verbatim>\<open>tlb_invalidate\<close> and \<^verbatim>\<open>flush_tlb\<close> do nothing.
\<close>

section \<open>Constants and macros\<close>

definition KERNBASE :: u64 where [layout]: "KERNBASE = 0xFFFFFFFFC0200000"
definition KERNTOP :: u64 where [layout]: "KERNTOP = 0xFFFFFFFFC8000000"
definition va_pa_offset :: u64 where [layout]: "va_pa_offset = 0xFFFFFFFF40000000"
definition USERBASE :: u64 where [layout]: "USERBASE = 0x00200000"
definition USERTOP :: u64 where [layout]: "USERTOP = 0x80000000"
definition nbase :: u64 where [layout]: "nbase = 0x80000"
definition PTSIZE :: u64 where [layout]: "PTSIZE = 0x200000"
definition PDSIZE :: u64 where [layout]: "PDSIZE = 0x40000000"

definition PTE_V :: u64 where [layout]: "PTE_V = 0x001"
definition PTE_R :: u64 where [layout]: "PTE_R = 0x002"
definition PTE_W :: u64 where [layout]: "PTE_W = 0x004"
definition PTE_X :: u64 where [layout]: "PTE_X = 0x008"
definition PTE_U :: u64 where [layout]: "PTE_U = 0x010"
definition PTE_USER :: u64 where [layout]: "PTE_USER = 0x01f"

definition PDX1 :: "u64 \<Rightarrow> u64" where "PDX1 la = drop_bit 30 la AND 0x1FF"
definition PDX0 :: "u64 \<Rightarrow> u64" where "PDX0 la = drop_bit 21 la AND 0x1FF"
definition PTX :: "u64 \<Rightarrow> u64" where "PTX la = drop_bit 12 la AND 0x1FF"
definition PPN :: "u64 \<Rightarrow> u64" where "PPN la = drop_bit 12 la"
definition PGOFF :: "u64 \<Rightarrow> u64" where "PGOFF la = la AND 0xFFF"
definition PTE_ADDR :: "u64 \<Rightarrow> u64" where "PTE_ADDR pte = push_bit 2 (pte AND NOT 0x3FF)"

definition USER_ACCESS :: "u64 \<Rightarrow> u64 \<Rightarrow> bool" where
  "USER_ACCESS start lim \<longleftrightarrow> USERBASE \<le> start \<and> start < lim \<and> lim \<le> USERTOP"

definition KERN_ACCESS :: "u64 \<Rightarrow> u64 \<Rightarrow> bool" where
  "KERN_ACCESS start lim \<longleftrightarrow> KERNBASE \<le> start \<and> start < lim \<and> lim \<le> KERNTOP"

definition WROUNDDOWN :: "u64 \<Rightarrow> u64 \<Rightarrow> u64" where
  "WROUNDDOWN a n = a - a mod n"

definition WROUNDUP :: "u64 \<Rightarrow> u64 \<Rightarrow> u64" where
  "WROUNDUP a n = WROUNDDOWN (a + n - 1) n"

section \<open>Physical memory\<close>

record phys =
  area :: free_area
  words :: "u64 \<Rightarrow> u64"
  npage :: u64

definition KADDR :: "u64 \<Rightarrow> phys \<Rightarrow> u64 option" where
  "KADDR pa s = (if PPN pa \<ge> npage s then None else Some (pa + va_pa_offset))"

definition PADDR :: "u64 \<Rightarrow> u64 option" where
  "PADDR kva = (if kva < KERNBASE then None else Some (kva - va_pa_offset))"

definition page2ppn :: "nat \<Rightarrow> u64" where
  "page2ppn page = of_nat page + nbase"

definition page2pa :: "nat \<Rightarrow> u64" where
  "page2pa page = push_bit 12 (page2ppn page)"

definition pa2page :: "u64 \<Rightarrow> phys \<Rightarrow> nat option" where
  "pa2page pa s = (if PPN pa \<ge> npage s then None else Some (unat (PPN pa - nbase)))"

definition page2kva :: "nat \<Rightarrow> phys \<Rightarrow> u64 option" where
  "page2kva page s = KADDR (page2pa page) s"

definition kva2page :: "u64 \<Rightarrow> phys \<Rightarrow> nat option" where
  "kva2page kva s = do { pa \<leftarrow> PADDR kva; pa2page pa s }"

definition pte2page :: "u64 \<Rightarrow> phys \<Rightarrow> nat option" where
  "pte2page pte s = (if pte AND PTE_V = 0 then None else pa2page (PTE_ADDR pte) s)"

definition pde2page :: "u64 \<Rightarrow> phys \<Rightarrow> nat option" where
  "pde2page pde s = pa2page (PTE_ADDR pde) s"

definition pte_create :: "u64 \<Rightarrow> u64 \<Rightarrow> u64" where
  "pte_create ppn type = push_bit 10 ppn OR PTE_V OR type"

definition page_ref_of :: "nat \<Rightarrow> phys \<Rightarrow> int" where
  "page_ref_of p s = page_ref (pages (area s) p)"

definition page_ref_inc :: "nat \<Rightarrow> phys \<Rightarrow> phys" where
  "page_ref_inc p s = s\<lparr>area := set_page_ref p (page_ref_of p s + 1) (area s)\<rparr>"

definition page_ref_dec :: "nat \<Rightarrow> phys \<Rightarrow> phys" where
  "page_ref_dec p s = s\<lparr>area := set_page_ref p (page_ref_of p s - 1) (area s)\<rparr>"

definition alloc_pages :: "nat \<Rightarrow> phys \<Rightarrow> (nat option \<times> phys) option" where
  "alloc_pages n s = do { (p, a) \<leftarrow> default_alloc_pages n (area s); Some (p, s\<lparr>area := a\<rparr>) }"

definition free_run :: "nat \<Rightarrow> nat \<Rightarrow> phys \<Rightarrow> phys option" where
  "free_run base n s = do { a \<leftarrow> default_free_pages base n (area s); Some (s\<lparr>area := a\<rparr>) }"

definition free_page :: "nat \<Rightarrow> phys \<Rightarrow> phys option" where
  "free_page p s = free_run p 1 s"

text \<open>\<^verbatim>\<open>memset(kva, 0, PGSIZE)\<close> and \<^verbatim>\<open>memcpy(dst, src, PGSIZE)\<close> on whole pages.\<close>

definition zero_page :: "u64 \<Rightarrow> phys \<Rightarrow> phys" where
  "zero_page kva s = s\<lparr>words := (\<lambda>a. if kva \<le> a \<and> a < kva + 4096 then 0 else words s a)\<rparr>"

definition copy_page :: "u64 \<Rightarrow> u64 \<Rightarrow> phys \<Rightarrow> phys" where
  "copy_page dst src s = s\<lparr>words := (\<lambda>a. if dst \<le> a \<and> a < dst + 4096 then words s (a - dst + src) else words s a)\<rparr>"

definition write_word :: "u64 \<Rightarrow> u64 \<Rightarrow> phys \<Rightarrow> phys" where
  "write_word a v s = s\<lparr>words := (words s)(a := v)\<rparr>"

definition entry :: "u64 \<Rightarrow> u64 \<Rightarrow> u64" where
  "entry table i = table + 8 * i"

section \<open>Looking up an entry\<close>

text \<open>
  One level of \<^verbatim>\<open>get_pte\<close>: make sure that the directory entry at \<open>pdep\<close> is valid, with a new
  zeroed table when \<open>create\<close> is set; \<open>False\<close> is the return of \<^verbatim>\<open>NULL\<close>.
\<close>

definition pde_ensure :: "u64 \<Rightarrow> bool \<Rightarrow> phys \<Rightarrow> (bool \<times> phys) option" where
  "pde_ensure pdep create s =
     (if words s pdep AND PTE_V \<noteq> 0 then Some (True, s)
      else if \<not> create then Some (False, s)
      else do {
        (p, s) \<leftarrow> alloc_pages 1 s;
        case p of None \<Rightarrow> Some (False, s)
        | Some page \<Rightarrow> do {
            let s = s\<lparr>area := set_page_ref page 1 (area s)\<rparr>;
            kva \<leftarrow> KADDR (page2pa page) s;
            let s = zero_page kva s;
            Some (True, write_word pdep (pte_create (page2ppn page) (PTE_U OR PTE_V)) s)
          }
      })"

definition get_pte :: "u64 \<Rightarrow> u64 \<Rightarrow> bool \<Rightarrow> phys \<Rightarrow> (u64 \<times> phys) option" where
  "get_pte pgdir la create s = do {
     let pdep1 = entry pgdir (PDX1 la);
     (ok, s) \<leftarrow> pde_ensure pdep1 create s;
     if \<not> ok then Some (0, s)
     else do {
       t1 \<leftarrow> KADDR (PTE_ADDR (words s pdep1)) s;
       let pdep0 = entry t1 (PDX0 la);
       (ok, s) \<leftarrow> pde_ensure pdep0 create s;
       if \<not> ok then Some (0, s)
       else do {
         t0 \<leftarrow> KADDR (PTE_ADDR (words s pdep0)) s;
         Some (entry t0 (PTX la), s)
       }
     }
   }"

definition get_page :: "u64 \<Rightarrow> u64 \<Rightarrow> phys \<Rightarrow> (nat option \<times> phys) option" where
  "get_page pgdir la s = do {
     (ptep, s) \<leftarrow> get_pte pgdir la False s;
     if ptep \<noteq> 0 \<and> words s ptep AND PTE_V \<noteq> 0
     then do { p \<leftarrow> pte2page (words s ptep) s; Some (Some p, s) }
     else Some (None, s)
   }"

section \<open>Mapping and unmapping\<close>

definition page_remove_pte :: "u64 \<Rightarrow> phys \<Rightarrow> phys option" where
  "page_remove_pte ptep s =
     (if words s ptep AND PTE_V \<noteq> 0 then do {
        page \<leftarrow> pte2page (words s ptep) s;
        let s = page_ref_dec page s;
        s \<leftarrow> (if page_ref_of page s = 0 then free_page page s else Some s);
        Some (write_word ptep 0 s)
      } else Some s)"

definition page_remove :: "u64 \<Rightarrow> u64 \<Rightarrow> phys \<Rightarrow> phys option" where
  "page_remove pgdir la s = do {
     (ptep, s) \<leftarrow> get_pte pgdir la False s;
     if ptep \<noteq> 0 then page_remove_pte ptep s else Some s
   }"

definition page_insert :: "u64 \<Rightarrow> nat \<Rightarrow> u64 \<Rightarrow> u64 \<Rightarrow> phys \<Rightarrow> (int \<times> phys) option" where
  "page_insert pgdir page la perm s = do {
     (ptep, s) \<leftarrow> get_pte pgdir la True s;
     if ptep = 0 then Some (- E_NO_MEM, s)
     else do {
       let s = page_ref_inc page s;
       s \<leftarrow> (if words s ptep AND PTE_V \<noteq> 0 then do {
              p \<leftarrow> pte2page (words s ptep) s;
              if p = page then Some (page_ref_dec page s) else page_remove_pte ptep s
            } else Some s);
       Some (0, write_word ptep (pte_create (page2ppn page) (PTE_V OR perm)) s)
     }
   }"

definition pgdir_alloc_page :: "u64 \<Rightarrow> u64 \<Rightarrow> u64 \<Rightarrow> phys \<Rightarrow> (nat option \<times> phys) option" where
  "pgdir_alloc_page pgdir la perm s = do {
     (p, s) \<leftarrow> alloc_pages 1 s;
     case p of None \<Rightarrow> Some (None, s)
     | Some page \<Rightarrow> do {
         (r, s) \<leftarrow> page_insert pgdir page la perm s;
         if r \<noteq> 0 then do { s \<leftarrow> free_page page s; Some (None, s) }
         else do { ensure (page_ref_of page s = 1); Some (Some page, s) }
       }
   }"

section \<open>Ranges\<close>

partial_function (option) unmap_loop :: "u64 \<Rightarrow> u64 \<Rightarrow> u64 \<Rightarrow> phys \<Rightarrow> phys option" where
  "unmap_loop pgdir start lim s =
     Option.bind (get_pte pgdir start False s) (\<lambda>(ptep, s).
     Option.bind (if ptep = 0 then Some (WROUNDDOWN (start + PTSIZE) PTSIZE, s)
       else Option.bind (if words s ptep \<noteq> 0 then page_remove_pte ptep s else Some s)
         (\<lambda>s. Some (start + 4096, s))) (\<lambda>(start, s).
     if start \<noteq> 0 \<and> start < lim then unmap_loop pgdir start lim s else Some s))"

definition unmap_range :: "u64 \<Rightarrow> u64 \<Rightarrow> u64 \<Rightarrow> phys \<Rightarrow> phys option" where
  "unmap_range pgdir start lim s = do {
     ensure (start mod 4096 = 0 \<and> lim mod 4096 = 0);
     ensure (USER_ACCESS start lim);
     unmap_loop pgdir start lim s
   }"

fun all_invalid :: "nat \<Rightarrow> u64 \<Rightarrow> (u64 \<Rightarrow> u64) \<Rightarrow> bool" where
  "all_invalid 0 pt w = True"
| "all_invalid (Suc n) pt w = (if w (entry pt (of_nat n)) AND PTE_V \<noteq> 0 then False else all_invalid n pt w)"

text \<open>The inner loop of \<^verbatim>\<open>exit_range\<close>: free the empty tables below one directory.\<close>

partial_function (option) exit_tables :: "u64 \<Rightarrow> u64 \<Rightarrow> u64 \<Rightarrow> u64 \<Rightarrow> bool \<Rightarrow> phys \<Rightarrow> (u64 \<times> bool \<times> phys) option" where
  "exit_tables pd0 d1start d0start lim free_pd0 s =
     (let pde0 = words s (entry pd0 (PDX0 d0start)) in
      Option.bind (if pde0 AND PTE_V \<noteq> 0 then
          Option.bind (pde2page pde0 s) (\<lambda>p. Option.bind (page2kva p s) (\<lambda>pt.
            if all_invalid 512 pt (words s)
            then Option.bind (free_page p s) (\<lambda>s. Some (free_pd0, write_word (entry pd0 (PDX0 d0start)) 0 s))
            else Some (free_pd0, s)))
        else Some (False, s)) (\<lambda>(free_pd0, s).
      let d0start = d0start + PTSIZE in
      if d0start \<noteq> 0 \<and> d0start < d1start + PDSIZE \<and> d0start < lim
      then exit_tables pd0 d1start d0start lim free_pd0 s
      else Some (d0start, free_pd0, s)))"

partial_function (option) exit_loop :: "u64 \<Rightarrow> u64 \<Rightarrow> u64 \<Rightarrow> u64 \<Rightarrow> phys \<Rightarrow> phys option" where
  "exit_loop pgdir d1start d0start lim s =
     (let pde1 = words s (entry pgdir (PDX1 d1start)) in
      Option.bind (if pde1 AND PTE_V \<noteq> 0 then
          Option.bind (pde2page pde1 s) (\<lambda>p. Option.bind (page2kva p s) (\<lambda>pd0.
            Option.bind (exit_tables pd0 d1start d0start lim True s) (\<lambda>(d0, free_pd0, s).
              if free_pd0 then Option.bind (free_page p s) (\<lambda>s. Some (write_word (entry pgdir (PDX1 d1start)) 0 s))
              else Some s)))
        else Some s) (\<lambda>s.
      let d1start = d1start + PDSIZE in
      if d1start \<noteq> 0 \<and> d1start < lim then exit_loop pgdir d1start d1start lim s else Some s))"

definition exit_range :: "u64 \<Rightarrow> u64 \<Rightarrow> u64 \<Rightarrow> phys \<Rightarrow> phys option" where
  "exit_range pgdir start lim s = do {
     ensure (start mod 4096 = 0 \<and> lim mod 4096 = 0);
     ensure (USER_ACCESS start lim);
     exit_loop pgdir (WROUNDDOWN start PDSIZE) (WROUNDDOWN start PTSIZE) lim s
   }"

text \<open>One page of \<^verbatim>\<open>copy_range\<close>: the result is the error code or 0.\<close>

definition copy_one :: "u64 \<Rightarrow> u64 \<Rightarrow> u64 \<Rightarrow> phys \<Rightarrow> (int \<times> phys) option" where
  "copy_one to ptep start s =
     (if words s ptep AND PTE_V \<noteq> 0 then do {
        (nptep, s) \<leftarrow> get_pte to start True s;
        if nptep = 0 then Some (- E_NO_MEM, s)
        else do {
          let perm = words s ptep AND PTE_USER;
          page \<leftarrow> pte2page (words s ptep) s;
          (np, s) \<leftarrow> alloc_pages 1 s;
          npage \<leftarrow> np;
          src \<leftarrow> page2kva page s;
          dst \<leftarrow> page2kva npage s;
          let s = copy_page dst src s;
          (ret, s) \<leftarrow> page_insert to npage start perm s;
          if ret \<noteq> 0 then do { s \<leftarrow> free_page npage s; Some (ret, s) } else Some (0, s)
        }
      } else Some (0, s))"

partial_function (option) copy_loop :: "u64 \<Rightarrow> u64 \<Rightarrow> u64 \<Rightarrow> u64 \<Rightarrow> phys \<Rightarrow> (int \<times> phys) option" where
  "copy_loop to from start lim s =
     Option.bind (get_pte from start False s) (\<lambda>(ptep, s).
     Option.bind (if ptep = 0 then Some (0, WROUNDDOWN (start + PTSIZE) PTSIZE, s)
       else Option.bind (copy_one to ptep start s) (\<lambda>(ret, s). Some (ret, start + 4096, s)))
     (\<lambda>(ret, start, s).
       if ret \<noteq> 0 then Some (ret, s)
       else if start \<noteq> 0 \<and> start < lim then copy_loop to from start lim s else Some (0, s)))"

definition copy_range :: "u64 \<Rightarrow> u64 \<Rightarrow> u64 \<Rightarrow> u64 \<Rightarrow> phys \<Rightarrow> (int \<times> phys) option" where
  "copy_range to from start lim s = do {
     ensure (start mod 4096 = 0 \<and> lim mod 4096 = 0);
     ensure (USER_ACCESS start lim);
     copy_loop to from start lim s
   }"

fun boot_map_loop :: "nat \<Rightarrow> u64 \<Rightarrow> u64 \<Rightarrow> u64 \<Rightarrow> u64 \<Rightarrow> phys \<Rightarrow> phys option" where
  "boot_map_loop 0 pgdir la pa perm s = Some s"
| "boot_map_loop (Suc n) pgdir la pa perm s = do {
     (ptep, s) \<leftarrow> get_pte pgdir la True s;
     ensure (ptep \<noteq> 0);
     boot_map_loop n pgdir (la + 4096) (pa + 4096) perm
       (write_word ptep (pte_create (drop_bit 12 pa) (PTE_V OR perm)) s)
   }"

definition boot_map_segment :: "u64 \<Rightarrow> u64 \<Rightarrow> u64 \<Rightarrow> u64 \<Rightarrow> u64 \<Rightarrow> phys \<Rightarrow> phys option" where
  "boot_map_segment pgdir la sz pa perm s = do {
     ensure (PGOFF la = PGOFF pa);
     boot_map_loop (unat (WROUNDUP (sz + PGOFF la) 4096 div 4096)) pgdir (WROUNDDOWN la 4096) (WROUNDDOWN pa 4096) perm s
   }"

end
