(* ===== verification/Vmm.thy ===== *)
theory Vmm
  imports Paging CString
begin

text \<open>
  Address spaces (\<^verbatim>\<open>kern/mm/vmm.c\<close>, \<^verbatim>\<open>vmm.h\<close>): an \<^verbatim>\<open>mm_struct\<close> with the list of its
  areas, the last area that was found, its page directory and its counts. The areas of a list
  are kept by address in list order; \<^verbatim>\<open>kmalloc\<close> takes the next of a list of addresses, and fails
  when there is none. Memory that \<^verbatim>\<open>memcpy\<close> reads and writes is an argument of its own: it is what
  the processor sees through the current address space, kernel and user.
\<close>

section \<open>State\<close>

definition VM_READ :: u32 where [layout]: "VM_READ = 1"
definition VM_WRITE :: u32 where [layout]: "VM_WRITE = 2"
definition VM_EXEC :: u32 where [layout]: "VM_EXEC = 4"
definition VM_STACK :: u32 where [layout]: "VM_STACK = 8"

record vma_struct =
  vm_mm :: addr
  vm_start :: u64
  vm_end :: u64
  vm_flags :: u32

record mm_struct =
  mmap_list :: "addr list"
  mmap_cache :: addr
  pgdir :: u64
  map_count :: int
  mm_count :: int
  mm_sem :: int
  locked_by :: int

record vm =
  phys :: phys
  vmas :: "addr \<Rightarrow> vma_struct"
  mms :: "addr \<Rightarrow> mm_struct"
  vm_heap :: "addr list"

definition upd_mm :: "addr \<Rightarrow> (mm_struct \<Rightarrow> mm_struct) \<Rightarrow> vm \<Rightarrow> vm" where
  "upd_mm mm f s = s\<lparr>mms := (mms s)(mm := f (mms s mm))\<rparr>"

definition vm_kmalloc :: "vm \<Rightarrow> addr \<times> vm" where
  "vm_kmalloc s = (case vm_heap s of [] \<Rightarrow> (0, s) | a # as \<Rightarrow> (a, s\<lparr>vm_heap := as\<rparr>))"

definition set_mm_count :: "addr \<Rightarrow> int \<Rightarrow> vm \<Rightarrow> vm" where
  "set_mm_count mm v = upd_mm mm (\<lambda>m. m\<lparr>mm_count := v\<rparr>)"

definition mm_count_inc :: "addr \<Rightarrow> vm \<Rightarrow> int \<times> vm" where
  "mm_count_inc mm s = (mm_count (mms s mm) + 1, upd_mm mm (\<lambda>m. m\<lparr>mm_count := mm_count m + 1\<rparr>) s)"

definition mm_count_dec :: "addr \<Rightarrow> vm \<Rightarrow> int \<times> vm" where
  "mm_count_dec mm s = (mm_count (mms s mm) - 1, upd_mm mm (\<lambda>m. m\<lparr>mm_count := mm_count m - 1\<rparr>) s)"

text \<open>The lock of an address space, taken by the process \<open>pid\<close>; \<^verbatim>\<open>down\<close> on a taken lock is \<^term>\<open>None\<close>.\<close>

definition lock_mm :: "int \<Rightarrow> addr \<Rightarrow> vm \<Rightarrow> vm option" where
  "lock_mm cur mm s =
     (if mm = 0 then Some s
      else if mm_sem (mms s mm) > 0
      then Some (upd_mm mm (\<lambda>m. m\<lparr>mm_sem := mm_sem m - 1, locked_by := cur\<rparr>) s)
      else None)"

definition unlock_mm :: "addr \<Rightarrow> vm \<Rightarrow> vm" where
  "unlock_mm mm s =
     (if mm = 0 then s else upd_mm mm (\<lambda>m. m\<lparr>mm_sem := mm_sem m + 1, locked_by := 0\<rparr>) s)"

section \<open>Areas\<close>

definition mm_create :: "vm \<Rightarrow> addr \<times> vm" where
  "mm_create s =
     (let (mm, s) = vm_kmalloc s in
      (mm, if mm = 0 then s
           else upd_mm mm (\<lambda>m. m\<lparr>mmap_list := [], mmap_cache := 0, pgdir := 0, map_count := 0,
                  mm_count := 0, mm_sem := 1\<rparr>) s))"

definition vma_create :: "u64 \<Rightarrow> u64 \<Rightarrow> u32 \<Rightarrow> vm \<Rightarrow> addr \<times> vm" where
  "vma_create start lim fl s =
     (let (v, s) = vm_kmalloc s in
      (v, if v = 0 then s
          else s\<lparr>vmas := (vmas s)(v := (vmas s v)\<lparr>vm_start := start, vm_end := lim, vm_flags := fl\<rparr>)\<rparr>))"

definition in_vma :: "u64 \<Rightarrow> vma_struct \<Rightarrow> bool" where
  "in_vma a v \<longleftrightarrow> vm_start v \<le> a \<and> a < vm_end v"

fun vma_scan :: "addr list \<Rightarrow> u64 \<Rightarrow> vm \<Rightarrow> addr" where
  "vma_scan [] a s = 0"
| "vma_scan (v # vs) a s = (if in_vma a (vmas s v) then v else vma_scan vs a s)"

definition find_vma :: "addr \<Rightarrow> u64 \<Rightarrow> vm \<Rightarrow> addr \<times> vm" where
  "find_vma mm a s =
     (if mm = 0 then (0, s)
      else
        (let cached = mmap_cache (mms s mm);
             vma = (if cached \<noteq> 0 \<and> in_vma a (vmas s cached) then cached
                    else vma_scan (mmap_list (mms s mm)) a s)
         in (vma, if vma \<noteq> 0 then upd_mm mm (\<lambda>m. m\<lparr>mmap_cache := vma\<rparr>) s else s)))"

definition check_vma_overlap :: "vma_struct \<Rightarrow> vma_struct \<Rightarrow> unit option" where
  "check_vma_overlap pre nex = do {
     ensure (vm_start pre < vm_end pre);
     ensure (vm_end pre \<le> vm_start nex);
     ensure (vm_start nex < vm_end nex)
   }"

text \<open>
  The scan of \<^verbatim>\<open>insert_vma_struct\<close> stops before the first area that starts after the new one;
  the areas it has passed and the rest are the two parts of the list.
\<close>

fun vma_place :: "vma_struct \<Rightarrow> addr list \<Rightarrow> (addr \<Rightarrow> vma_struct) \<Rightarrow> addr list \<times> addr list" where
  "vma_place v [] vs = ([], [])"
| "vma_place v (x # xs) vs =
     (if vm_start (vs x) > vm_start v then ([], x # xs)
      else (let (as, bs) = vma_place v xs vs in (x # as, bs)))"

definition insert_vma_struct :: "addr \<Rightarrow> addr \<Rightarrow> vm \<Rightarrow> vm option" where
  "insert_vma_struct mm vma s = do {
     ensure (vm_start (vmas s vma) < vm_end (vmas s vma));
     let (before, after) = vma_place (vmas s vma) (mmap_list (mms s mm)) (vmas s);
     _ \<leftarrow> (if before \<noteq> [] then check_vma_overlap (vmas s (last before)) (vmas s vma) else Some ());
     _ \<leftarrow> (if after \<noteq> [] then check_vma_overlap (vmas s vma) (vmas s (hd after)) else Some ());
     let s = s\<lparr>vmas := (vmas s)(vma := (vmas s vma)\<lparr>vm_mm := mm\<rparr>)\<rparr>;
     Some (upd_mm mm (\<lambda>m. m\<lparr>mmap_list := before @ vma # after, map_count := map_count m + 1\<rparr>) s)
   }"

definition mm_destroy :: "addr \<Rightarrow> vm \<Rightarrow> vm option" where
  "mm_destroy mm s = do {
     ensure (mm_count (mms s mm) = 0);
     Some (upd_mm mm (\<lambda>m. m\<lparr>mmap_list := []\<rparr>) s)
   }"

text \<open>\<^verbatim>\<open>mm_map\<close> also returns the new area, which the caller gets through \<^verbatim>\<open>vma_store\<close>.\<close>

definition mm_map :: "addr \<Rightarrow> u64 \<Rightarrow> u64 \<Rightarrow> u32 \<Rightarrow> vm \<Rightarrow> (int \<times> addr \<times> vm) option" where
  "mm_map mm a n fl s =
     (let start = WROUNDDOWN a 4096; lim = WROUNDUP (a + n) 4096 in
      if \<not> USER_ACCESS start lim then Some (- E_INVAL, 0, s)
      else do {
        ensure (mm \<noteq> 0);
        let (vma, s) = find_vma mm start s;
        if vma \<noteq> 0 \<and> lim > vm_start (vmas s vma) then Some (- E_INVAL, 0, s)
        else do {
          let (vma, s) = vma_create start lim fl s;
          if vma = 0 then Some (- E_NO_MEM, 0, s)
          else do {
            s \<leftarrow> insert_vma_struct mm vma s;
            Some (0, vma, s)
          }
        }
      })"

fun dup_loop :: "addr list \<Rightarrow> addr \<Rightarrow> addr \<Rightarrow> vm \<Rightarrow> (int \<times> vm) option" where
  "dup_loop [] to from s = Some (0, s)"
| "dup_loop (v # vs) to from s = do {
     let (n, s) = vma_create (vm_start (vmas s v)) (vm_end (vmas s v)) (vm_flags (vmas s v)) s;
     if n = 0 then Some (- E_NO_MEM, s)
     else do {
       s \<leftarrow> insert_vma_struct to n s;
       (ret, p) \<leftarrow> copy_range (pgdir (mms s to)) (pgdir (mms s from)) (vm_start (vmas s v)) (vm_end (vmas s v)) (phys s);
       let s = s\<lparr>phys := p\<rparr>;
       if ret \<noteq> 0 then Some (- E_NO_MEM, s) else dup_loop vs to from s
     }
   }"

definition dup_mmap :: "addr \<Rightarrow> addr \<Rightarrow> vm \<Rightarrow> (int \<times> vm) option" where
  "dup_mmap to from s = do {
     ensure (to \<noteq> 0 \<and> from \<noteq> 0);
     dup_loop (rev (mmap_list (mms s from))) to from s
   }"

fun unmap_vmas :: "(u64 \<Rightarrow> u64 \<Rightarrow> u64 \<Rightarrow> phys \<Rightarrow> phys option) \<Rightarrow> u64 \<Rightarrow> addr list \<Rightarrow> vm \<Rightarrow> vm option" where
  "unmap_vmas f pd [] s = Some s"
| "unmap_vmas f pd (v # vs) s = do {
     p \<leftarrow> f pd (vm_start (vmas s v)) (vm_end (vmas s v)) (phys s);
     unmap_vmas f pd vs (s\<lparr>phys := p\<rparr>)
   }"

definition exit_mmap :: "addr \<Rightarrow> vm \<Rightarrow> vm option" where
  "exit_mmap mm s = do {
     ensure (mm \<noteq> 0 \<and> mm_count (mms s mm) = 0);
     s \<leftarrow> unmap_vmas unmap_range (pgdir (mms s mm)) (mmap_list (mms s mm)) s;
     unmap_vmas exit_range (pgdir (mms s mm)) (mmap_list (mms s mm)) s
   }"

section \<open>User memory\<close>

definition vma_permits :: "bool \<Rightarrow> vma_struct \<Rightarrow> bool" where
  "vma_permits write v \<longleftrightarrow> vm_flags v AND (if write then VM_WRITE else VM_READ) \<noteq> 0"

partial_function (option) user_mem_loop :: "addr \<Rightarrow> bool \<Rightarrow> u64 \<Rightarrow> u64 \<Rightarrow> vm \<Rightarrow> (bool \<times> vm) option" where
  "user_mem_loop mm write start lim s =
     (if start < lim then
        (let (v, s) = find_vma mm start s in
         if v = 0 \<or> start < vm_start (vmas s v) then Some (False, s)
         else if \<not> vma_permits write (vmas s v) then Some (False, s)
         else if write \<and> vm_flags (vmas s v) AND VM_STACK \<noteq> 0 \<and> start < vm_start (vmas s v) + 4096 then Some (False, s)
         else user_mem_loop mm write (vm_end (vmas s v)) lim s)
      else Some (True, s))"

definition user_mem_check :: "addr \<Rightarrow> u64 \<Rightarrow> u64 \<Rightarrow> bool \<Rightarrow> vm \<Rightarrow> (bool \<times> vm) option" where
  "user_mem_check mm a n write s =
     (if mm \<noteq> 0 then
        (if \<not> USER_ACCESS a (a + n) then Some (False, s) else user_mem_loop mm write a (a + n) s)
      else Some (KERN_ACCESS a (a + n), s))"

definition copy_from_user :: "addr \<Rightarrow> addr \<Rightarrow> u64 \<Rightarrow> u64 \<Rightarrow> bool \<Rightarrow> mem \<Rightarrow> vm \<Rightarrow> (bool \<times> mem \<times> vm) option" where
  "copy_from_user mm dst src n writable m s = do {
     (ok, s) \<leftarrow> user_mem_check mm src n writable s;
     Some (if ok then (True, memcpy dst (unat src) (unat n) m, s) else (False, m, s))
   }"

definition copy_to_user :: "addr \<Rightarrow> u64 \<Rightarrow> addr \<Rightarrow> u64 \<Rightarrow> mem \<Rightarrow> vm \<Rightarrow> (bool \<times> mem \<times> vm) option" where
  "copy_to_user mm dst src n m s = do {
     (ok, s) \<leftarrow> user_mem_check mm dst n True s;
     Some (if ok then (True, memcpy (unat dst) src (unat n) m, s) else (False, m, s))
   }"

partial_function (option) copy_string_loop ::
    "addr \<Rightarrow> addr \<Rightarrow> u64 \<Rightarrow> u64 \<Rightarrow> u64 \<Rightarrow> mem \<Rightarrow> vm \<Rightarrow> (bool \<times> mem \<times> vm) option" where
  "copy_string_loop mm dst src part maxn m s =
     (let part = (if part > maxn then maxn else part) in
      Option.bind (user_mem_check mm src part False s) (\<lambda>(ok, s).
        if \<not> ok then Some (False, m, s)
        else
          (let alen = strnlen m (unat src) (unat part) in
           if alen < unat part then Some (True, memcpy dst (unat src) (alen + 1) m, s)
           else if part = maxn then Some (False, m, s)
           else copy_string_loop mm (dst + unat part) (src + part) 4096 (maxn - part)
                  (memcpy dst (unat src) (unat part) m) s)))"

definition copy_string :: "addr \<Rightarrow> addr \<Rightarrow> u64 \<Rightarrow> u64 \<Rightarrow> mem \<Rightarrow> vm \<Rightarrow> (bool \<times> mem \<times> vm) option" where
  "copy_string mm dst src maxn m s =
     copy_string_loop mm dst src (WROUNDDOWN (src + 4096) 4096 - src) maxn m s"

end
