(* ===== verification/VmArea.thy ===== *)
theory VmArea
  imports Vmm
begin

text \<open>
  What the operations on areas do. The areas of an address space are an ordered list of
  disjoint intervals, that is a partial function \<open>region\<close> from addresses to flags: the cache of
  \<^verbatim>\<open>find_vma\<close> never changes its answer, \<^verbatim>\<open>mm_map\<close> extends the function on the new interval, and
  \<^verbatim>\<open>user_mem_check\<close> decides whether it is defined, with the right flag, on a whole interval.
\<close>

section \<open>The invariant of an address space\<close>

definition vma_ok :: "vm \<Rightarrow> addr \<Rightarrow> bool" where
  "vma_ok s mm \<longleftrightarrow>
     sorted_wrt (\<lambda>x y. vm_end (vmas s x) \<le> vm_start (vmas s y)) (mmap_list (mms s mm)) \<and>
     (\<forall>v\<in>set (mmap_list (mms s mm)). v \<noteq> 0 \<and> vm_start (vmas s v) < vm_end (vmas s v)) \<and>
     (mmap_cache (mms s mm) = 0 \<or> mmap_cache (mms s mm) \<in> set (mmap_list (mms s mm)))"

lemma upd_mm_simps [simp]:
  "vmas (upd_mm mm f s) = vmas s" "mms (upd_mm mm f s) = (mms s)(mm := f (mms s mm))"
  "phys (upd_mm mm f s) = phys s" "vm_heap (upd_mm mm f s) = vm_heap s"
  by (simp_all add: upd_mm_def)

lemma vma_scan_0: "0 \<notin> set vs \<Longrightarrow> vma_scan vs a s = 0 \<longleftrightarrow> (\<forall>v\<in>set vs. \<not> in_vma a (vmas s v))"
  by (induction vs) auto

lemma vma_scan_mem: "vma_scan vs a s \<noteq> 0 \<Longrightarrow> vma_scan vs a s \<in> set vs \<and> in_vma a (vmas s (vma_scan vs a s))"
  by (induction vs) auto

lemma sorted_wrt_pair: "sorted_wrt R xs \<Longrightarrow> x \<in> set xs \<Longrightarrow> y \<in> set xs \<Longrightarrow> x \<noteq> y \<Longrightarrow> R x y \<or> R y x"
  by (induction xs) auto

text \<open>At most one area holds an address.\<close>

lemma vma_unique:
  assumes "sorted_wrt (\<lambda>x y. vm_end (vmas s x) \<le> vm_start (vmas s y)) vs" and "x \<in> set vs" and "y \<in> set vs"
    and "in_vma a (vmas s x)" and "in_vma a (vmas s y)"
  shows "x = y"
  using assms
proof (induction vs)
  case (Cons v vs)
  have "\<not> in_vma a (vmas s z)" if "z \<in> set vs" "in_vma a (vmas s v)" for z
  proof -
    have "vm_end (vmas s v) \<le> vm_start (vmas s z)" using Cons.prems(1) that(1) by simp
    then show ?thesis using that(2) by (auto simp: in_vma_def)
  qed
  then show ?case using Cons by auto
qed simp

lemma vma_scan_eq:
  assumes "sorted_wrt (\<lambda>x y. vm_end (vmas s x) \<le> vm_start (vmas s y)) vs" and "0 \<notin> set vs" and "v \<in> set vs"
    and "in_vma a (vmas s v)"
  shows "vma_scan vs a s = v"
proof -
  have "vma_scan vs a s \<noteq> 0" using vma_scan_0 [OF assms(2), of a s] assms(3,4) by auto
  then show ?thesis using vma_scan_mem [of vs a s] vma_unique [OF assms(1)] assms(3,4) by blast
qed

lemma find_vma_scan:
  assumes "vma_ok s mm" and "mm \<noteq> 0"
  shows "fst (find_vma mm a s) = vma_scan (mmap_list (mms s mm)) a s"
proof -
  let ?c = "mmap_cache (mms s mm)" and ?l = "mmap_list (mms s mm)"
  have "vma_scan ?l a s = ?c" if "?c \<noteq> 0" "in_vma a (vmas s ?c)"
    using assms(1) that by (intro vma_scan_eq) (auto simp: vma_ok_def)
  then show ?thesis using assms(2) by (simp add: find_vma_def Let_def)
qed

definition cached :: "addr \<Rightarrow> addr \<Rightarrow> vm \<Rightarrow> vm" where
  "cached mm v s = (if v \<noteq> 0 then upd_mm mm (\<lambda>m. m\<lparr>mmap_cache := v\<rparr>) s else s)"

lemma cached_simps [simp]:
  "vmas (cached mm v s) = vmas s" "phys (cached mm v s) = phys s" "vm_heap (cached mm v s) = vm_heap s"
  "mmap_list (mms (cached mm v s) x) = mmap_list (mms s x)"
  "vma_scan vs a (cached mm v s) = vma_scan vs a s"
proof -
  show "vma_scan vs a (cached mm v s) = vma_scan vs a s" by (induction vs) (simp_all add: cached_def)
qed (simp_all add: cached_def)

lemma find_vma_eq:
  fixes a :: u64
  assumes "vma_ok s mm" and "mm \<noteq> 0"
  defines "v \<equiv> vma_scan (mmap_list (mms s mm)) a s"
  shows "find_vma mm a s = (v, cached mm v s)" and "vma_ok (cached mm v s) mm"
proof -
  have "snd (find_vma mm a s) = cached mm (fst (find_vma mm a s)) s"
    using assms(2) by (simp add: find_vma_def Let_def cached_def)
  then show "find_vma mm a s = (v, cached mm v s)"
    using find_vma_scan [OF assms(1,2), of a] by (cases "find_vma mm a s") (simp add: v_def)
  show "vma_ok (cached mm v s) mm"
    using assms(1) vma_scan_mem [of "mmap_list (mms s mm)" a s]
    by (auto simp: vma_ok_def cached_def v_def)
qed

section \<open>The regions of an address space\<close>

definition region :: "vm \<Rightarrow> addr \<Rightarrow> u64 \<Rightarrow> u32 option" where
  "region s mm a =
     (let v = vma_scan (mmap_list (mms s mm)) a s in if v = 0 then None else Some (vm_flags (vmas s v)))"

lemma region_cached [simp]: "region (cached mm v s) mm' a = region s mm' a"
  by (simp add: region_def Let_def)

lemma vma_place_split:
  assumes "vma_place v xs vs = (as, bs)"
  shows "xs = as @ bs \<and> (\<forall>x\<in>set as. vm_start (vs x) \<le> vm_start v) \<and> (bs \<noteq> [] \<longrightarrow> vm_start v < vm_start (vs (hd bs)))"
  using assms
proof (induction xs arbitrary: as)
  case (Cons x xs)
  show ?case
  proof (cases "vm_start (vs x) > vm_start v")
    case False
    obtain as' where "vma_place v xs vs = (as', bs)" "as = x # as'"
      using Cons.prems False by (auto split: prod.splits)
    then show ?thesis using Cons.IH False by auto
  qed (use Cons.prems in auto)
qed simp

lemma vma_place_vmas:
  "(\<forall>x\<in>set xs. vs' x = vs x) \<Longrightarrow> vma_place v xs vs' = vma_place v xs vs"
  by (induction xs) auto

text \<open>
  Inserting an area: with no overlap it goes to its place, and with an overlap one of the
  assertions fails.
\<close>

lemma insert_vma_spec:
  assumes ok: "vma_ok s mm" and new: "h \<notin> set (mmap_list (mms s mm))" "h \<noteq> 0"
    and iv: "vm_start (vmas s h) < vm_end (vmas s h)"
    and free: "\<forall>v\<in>set (mmap_list (mms s mm)). vm_end (vmas s v) \<le> vm_start (vmas s h) \<or> vm_end (vmas s h) \<le> vm_start (vmas s v)"
  shows "\<exists>t. insert_vma_struct mm h s = Some t \<and> vma_ok t mm \<and>
    region t mm = (\<lambda>a. if in_vma a (vmas s h) then Some (vm_flags (vmas s h)) else region s mm a)"
proof -
  let ?l = "mmap_list (mms s mm)"
  obtain as bs where p: "vma_place (vmas s h) ?l (vmas s) = (as, bs)" by fastforce
  then have l: "?l = as @ bs" and a: "\<forall>x\<in>set as. vm_start (vmas s x) \<le> vm_start (vmas s h)"
    and b: "bs \<noteq> [] \<longrightarrow> vm_start (vmas s h) < vm_start (vmas s (hd bs))"
    using vma_place_split [OF p] by blast+
  have S: "sorted_wrt (\<lambda>x y. vm_end (vmas s x) \<le> vm_start (vmas s y)) ?l"
    and P: "\<And>v. v \<in> set ?l \<Longrightarrow> v \<noteq> 0 \<and> vm_start (vmas s v) < vm_end (vmas s v)"
    using ok by (auto simp: vma_ok_def)
  have before: "vm_end (vmas s x) \<le> vm_start (vmas s h)" if "x \<in> set as" for x
  proof -
    have "vm_start (vmas s x) \<le> vm_start (vmas s h)" "x \<in> set ?l" using a that l by auto
    then show ?thesis using free iv P [of x] by (meson leD le_less_trans order.trans)
  qed
  have after: "vm_end (vmas s h) \<le> vm_start (vmas s x)" if x: "x \<in> set bs" for x
  proof -
    note that = x
    obtain y ys where bs: "bs = y # ys" using x by (cases bs) simp_all
    have "vm_start (vmas s y) \<le> vm_start (vmas s x)"
    proof (cases "x = y")
      case False
      then have "vm_end (vmas s y) \<le> vm_start (vmas s x)" using S that by (simp add: l bs sorted_wrt_append)
      moreover have "vm_start (vmas s y) < vm_end (vmas s y)" using P [of y] by (simp add: l bs)
      ultimately show ?thesis by simp
    qed simp
    then have "vm_start (vmas s h) < vm_start (vmas s x)" using b bs by simp
    moreover have "x \<in> set ?l" using that l by simp
    ultimately show ?thesis using free P [of x] by (meson leD less_le_trans order.strict_trans)
  qed
  let ?t = "upd_mm mm (\<lambda>m. m\<lparr>mmap_list := as @ h # bs, map_count := map_count m + 1\<rparr>)
      (s\<lparr>vmas := (vmas s)(h := (vmas s h)\<lparr>vm_mm := mm\<rparr>)\<rparr>)"
  have "insert_vma_struct mm h s = Some ?t"
  proof -
    have "as \<noteq> [] \<Longrightarrow> check_vma_overlap (vmas s (last as)) (vmas s h) = Some ()"
      using before [of "last as"] P [of "last as"] iv by (simp add: check_vma_overlap_def l)
    moreover have "bs \<noteq> [] \<Longrightarrow> check_vma_overlap (vmas s h) (vmas s (hd bs)) = Some ()"
      using after [of "hd bs"] P [of "hd bs"] iv by (simp add: check_vma_overlap_def l)
    ultimately show ?thesis using iv p by (simp add: insert_vma_struct_def)
  qed
  moreover have st: "vm_start (vmas ?t x) = vm_start (vmas s x)" "vm_end (vmas ?t x) = vm_end (vmas s x)"
    "vm_flags (vmas ?t x) = vm_flags (vmas s x)" for x by simp_all
  moreover have "vma_ok ?t mm"
    using ok new iv before after unfolding vma_ok_def st by (auto simp: l sorted_wrt_append)
  moreover have "region ?t mm a = (if in_vma a (vmas s h) then Some (vm_flags (vmas s h)) else region s mm a)" for a
  proof -
    have iv': "in_vma a (vmas ?t x) = in_vma a (vmas s x)" for x by (simp add: in_vma_def)
    have sc: "vma_scan xs a ?t = vma_scan xs a s" for xs by (induction xs) (simp_all only: vma_scan.simps iv')
    have ap: "vma_scan (xs @ ys) a s = (if vma_scan xs a s = 0 then vma_scan ys a s else vma_scan xs a s)"
      if "0 \<notin> set xs" for xs ys using that by (induction xs) auto
    have z: "0 \<notin> set as" using P [of 0] l by auto
    have "\<not> in_vma a (vmas s x)" if "x \<in> set as" "in_vma a (vmas s h)" for x
      using before [OF that(1)] that(2) by (auto simp: in_vma_def)
    then have "in_vma a (vmas s h) \<Longrightarrow> vma_scan as a s = 0" using vma_scan_0 [OF z] by auto
    then show ?thesis unfolding region_def sc st by (simp add: l ap [OF z] new(2) Let_def)
  qed
  ultimately show ?thesis by blast
qed

section \<open>Mapping\<close>

lemma region_None:
  assumes "vma_ok s mm"
  shows "region s mm a = None \<longleftrightarrow> (\<forall>v\<in>set (mmap_list (mms s mm)). \<not> in_vma a (vmas s v))"
proof -
  have "0 \<notin> set (mmap_list (mms s mm))" using assms by (auto simp: vma_ok_def)
  then show ?thesis using vma_scan_0 [of _ a s] by (auto simp: region_def Let_def)
qed

lemma vma_scan_cong: "\<forall>v\<in>set vs. vmas t v = vmas s v \<Longrightarrow> vma_scan vs a t = vma_scan vs a s"
  by (induction vs) auto

lemma vma_frame:
  assumes "\<forall>v\<in>set (mmap_list (mms s mm)). vmas t v = vmas s v" and "mms t mm = mms s mm"
  shows "vma_ok t mm = vma_ok s mm" and "region t mm = region s mm"
proof -
  have "sorted_wrt (\<lambda>x y. vm_end (vmas t x) \<le> vm_start (vmas t y)) (mmap_list (mms s mm)) =
      sorted_wrt (\<lambda>x y. vm_end (vmas s x) \<le> vm_start (vmas s y)) (mmap_list (mms s mm))"
    by (rule iffI; erule sorted_wrt_mono_rel [rotated]) (use assms(1) in auto)
  then show "vma_ok t mm = vma_ok s mm" using assms by (simp add: vma_ok_def)
  show "region t mm = region s mm"
  proof
    fix a
    show "region t mm a = region s mm a"
      using vma_scan_cong [OF assms(1), of a] vma_scan_mem [of "mmap_list (mms s mm)" a s] assms
      by (auto simp: region_def Let_def)
  qed
qed

lemma insert_vma_overlap:
  assumes ok: "vma_ok s mm" and v: "v \<in> set (mmap_list (mms s mm))"
    and ov: "vm_start (vmas s h) < vm_start (vmas s v)" "vm_start (vmas s v) < vm_end (vmas s h)"
  shows "insert_vma_struct mm h s = None"
proof -
  let ?l = "mmap_list (mms s mm)"
  obtain as bs where p: "vma_place (vmas s h) ?l (vmas s) = (as, bs)" by fastforce
  then have l: "?l = as @ bs" and a: "\<forall>x\<in>set as. vm_start (vmas s x) \<le> vm_start (vmas s h)"
    using vma_place_split [OF p] by blast+
  have "v \<in> set bs" using v a ov(1) by (auto simp: l)
  then obtain y ys where bs: "bs = y # ys" by (cases bs) auto
  have "vm_start (vmas s y) \<le> vm_start (vmas s v)"
  proof (cases "v = y")
    case False
    then have "vm_end (vmas s y) \<le> vm_start (vmas s v)"
      using ok \<open>v \<in> set bs\<close> by (auto simp: vma_ok_def l bs sorted_wrt_append)
    moreover have "vm_start (vmas s y) < vm_end (vmas s y)" using ok by (simp add: vma_ok_def l bs)
    ultimately show ?thesis by simp
  qed simp
  then have "\<not> vm_end (vmas s h) \<le> vm_start (vmas s y)" using ov(2) by simp
  then have "check_vma_overlap (vmas s h) (vmas s (hd bs)) = None" by (auto simp: check_vma_overlap_def bs ensure_def)
  then show ?thesis using p bs by (auto simp: insert_vma_struct_def ensure_def split: option.splits)
qed

lemma mm_map_new:
  assumes ok: "vma_ok s mm" and mm: "mm \<noteq> 0" and heap: "vm_heap s = h # hs"
    and h: "h \<noteq> 0" "h \<notin> set (mmap_list (mms s mm))"
    and r: "start = WROUNDDOWN a 4096" "lim = WROUNDUP (a + n) 4096"
    and ua: "USER_ACCESS start lim" and out: "region s mm start = None"
  shows "if \<exists>b. start \<le> b \<and> b < lim \<and> region s mm b \<noteq> None then mm_map mm a n fl s = None
    else \<exists>t. mm_map mm a n fl s = Some (0, h, t) \<and> vma_ok t mm \<and>
      region t mm = (\<lambda>b. if start \<le> b \<and> b < lim then Some fl else region s mm b)"
proof -
  let ?t = "s\<lparr>vm_heap := hs, vmas := (vmas s)(h := (vmas s h)\<lparr>vm_start := start, vm_end := lim, vm_flags := fl\<rparr>)\<rparr>"
  let ?l = "mmap_list (mms s mm)"
  have fr: "vma_ok ?t mm = vma_ok s mm" "region ?t mm = region s mm"
    by (rule vma_frame; use h in auto)+
  have sc: "vma_scan ?l start s = 0" using out by (auto simp: region_def Let_def split: if_splits)
  have lt: "start < lim" using ua by (simp add: USER_ACCESS_def)
  have m: "mm_map mm a n fl s = map_option (\<lambda>t. (0, h, t)) (insert_vma_struct mm h ?t)"
    using ua mm h(1) find_vma_eq [OF ok mm, of start] sc heap
    by (cases "insert_vma_struct mm h ?t")
       (simp_all add: mm_map_def r [symmetric] cached_def vma_create_def vm_kmalloc_def Let_def)
  show ?thesis
  proof (cases "\<exists>b. start \<le> b \<and> b < lim \<and> region s mm b \<noteq> None")
    case True
    then obtain b v where b: "start \<le> b" "b < lim" "v \<in> set ?l" "in_vma b (vmas s v)"
      using region_None [OF ok] by auto
    have "\<not> in_vma start (vmas s v)" using out region_None [OF ok] b(3) by blast
    then have "start < vm_start (vmas s v)" using b by (auto simp: in_vma_def)
    moreover have "vm_start (vmas s v) < lim" using b by (auto simp: in_vma_def)
    ultimately have "insert_vma_struct mm h ?t = None"
      using b(3) h(2) ok fr(1) by (intro insert_vma_overlap [of ?t mm v]) auto
    then show ?thesis using True m by simp
  next
    case False
    have "vm_end (vmas s v) \<le> start \<or> lim \<le> vm_start (vmas s v)" if v: "v \<in> set ?l" for v
    proof (rule ccontr)
      assume n: "\<not> ?thesis"
      let ?b = "max start (vm_start (vmas s v))"
      have "vm_start (vmas s v) < vm_end (vmas s v)" using ok v by (simp add: vma_ok_def)
      then have "in_vma ?b (vmas s v)" "start \<le> ?b" "?b < lim" using n lt by (auto simp: in_vma_def)
      then show False using False v region_None [OF ok, of ?b] by blast
    qed
    then have X: "\<exists>t. insert_vma_struct mm h ?t = Some t \<and> vma_ok t mm \<and>
        region t mm = (\<lambda>b. if in_vma b (vmas ?t h) then Some (vm_flags (vmas ?t h)) else region ?t mm b)"
      using h lt ok fr(1) by (intro insert_vma_spec) auto
    have e: "in_vma b (vmas ?t h) \<longleftrightarrow> start \<le> b \<and> b < lim" "vm_flags (vmas ?t h) = fl" for b
      by (simp_all add: in_vma_def)
    have "\<exists>t. insert_vma_struct mm h ?t = Some t \<and> vma_ok t mm \<and>
        region t mm = (\<lambda>b. if start \<le> b \<and> b < lim then Some fl else region s mm b)"
      by (rule X [unfolded e fr(2)])
    then show ?thesis unfolding if_not_P [OF False] m by auto
  qed
qed

section \<open>Checking a range\<close>

definition permitted :: "vm \<Rightarrow> addr \<Rightarrow> bool \<Rightarrow> u64 \<Rightarrow> u64 \<Rightarrow> bool" where
  "permitted s mm write lo b \<longleftrightarrow>
     (\<exists>v\<in>set (mmap_list (mms s mm)). in_vma b (vmas s v) \<and>
        vm_flags (vmas s v) AND (if write then VM_WRITE else VM_READ) \<noteq> 0 \<and>
        \<not> (write \<and> vm_flags (vmas s v) AND VM_STACK \<noteq> 0 \<and>
            max lo (vm_start (vmas s v)) < vm_start (vmas s v) + 4096))"

lemma permitted_eq:
  "permitted s mm write lo b \<longleftrightarrow>
     (\<exists>v\<in>set (mmap_list (mms s mm)). in_vma b (vmas s v) \<and> vma_permits write (vmas s v) \<and>
        \<not> (write \<and> vm_flags (vmas s v) AND VM_STACK \<noteq> 0 \<and>
            max lo (vm_start (vmas s v)) < vm_start (vmas s v) + 4096))"
  by (simp add: permitted_def vma_permits_def)

lemma permitted_cached [simp]: "permitted (cached mm v s) mm' w lo b = permitted s mm' w lo b"
  by (simp add: permitted_eq)

lemma user_mem_loop_spec:
  assumes "vma_ok s mm" and "mm \<noteq> 0"
    and "\<And>v. v \<in> set (mmap_list (mms s mm)) \<Longrightarrow> in_vma start (vmas s v) \<Longrightarrow> start = max lo (vm_start (vmas s v))"
    and "lo \<le> start"
  shows "\<exists>t. user_mem_loop mm write start lim s =
      Some ((\<forall>b. start \<le> b \<and> b < lim \<longrightarrow> permitted s mm write lo b), t) \<and> vma_ok t mm \<and> region t mm = region s mm"
  using assms
proof (induction "unat lim - unat start" arbitrary: start s rule: less_induct)
  case less
  let ?l = "mmap_list (mms s mm)" and ?P = "\<lambda>s start. \<forall>b. start \<le> b \<and> b < lim \<longrightarrow> permitted s mm write lo b"
  let ?v = "vma_scan ?l start s"
  note f = find_vma_eq [OF less.prems(1,2), of start]
  have l0: "0 \<notin> set ?l" using less.prems(1) by (auto simp: vma_ok_def)
  have S: "sorted_wrt (\<lambda>x y. vm_end (vmas s x) \<le> vm_start (vmas s y)) ?l" using less.prems(1) by (simp add: vma_ok_def)
  show ?case
  proof (cases "start < lim")
    case False
    then have "?P s start" by auto
    then show ?thesis using False less.prems(1) by (subst user_mem_loop.simps) auto
  next
    case lt: True
    show ?thesis
    proof (cases "?v = 0")
      case True
      then have "\<not> permitted s mm write lo start" using vma_scan_0 [OF l0] by (auto simp: permitted_eq)
      then have "\<not> ?P s start" using lt by auto
      then show ?thesis using lt f True by (subst user_mem_loop.simps) auto
    next
      case v0: False
      have v: "?v \<in> set ?l" "in_vma start (vmas s ?v)" using vma_scan_mem [OF v0] by auto
      have mx: "start = max lo (vm_start (vmas s ?v))" using less.prems(3) v by blast
      let ?ok = "vma_permits write (vmas s ?v) \<and> \<not> (write \<and> vm_flags (vmas s ?v) AND VM_STACK \<noteq> 0 \<and>
          start < vm_start (vmas s ?v) + 4096)"
      have pm: "permitted s mm write lo b \<longleftrightarrow> ?ok" if "in_vma b (vmas s ?v)" for b
        using vma_unique [OF S _ v(1) _ that] v(1) that mx unfolding permitted_eq by metis
      show ?thesis
      proof (cases ?ok)
        case False
        then have "\<not> ?P s start" using pm [OF v(2)] lt by auto
        then show ?thesis using lt f v0 v(2) False by (subst user_mem_loop.simps) (auto simp: in_vma_def)
      next
        case True
        let ?e = "vm_end (vmas s ?v)" and ?t = "cached mm ?v s"
        have se: "start < ?e" using v(2) by (simp add: in_vma_def)
        have step: "user_mem_loop mm write start lim s = user_mem_loop mm write ?e lim ?t"
          using lt f v0 v(2) True by (subst user_mem_loop.simps) (auto simp: in_vma_def)
        have next_area: "?e = max lo (vm_start (vmas ?t w))"
          if w: "w \<in> set (mmap_list (mms ?t mm))" "in_vma ?e (vmas ?t w)" for w
        proof -
          have "w \<noteq> ?v" using w(2) by (auto simp: in_vma_def)
          moreover have "\<not> vm_end (vmas s w) \<le> vm_start (vmas s ?v)"
            using w(2) se v(2) by (auto simp: in_vma_def)
          moreover have "w \<in> set ?l" using w(1) by simp
          ultimately have "?e \<le> vm_start (vmas s w)" using sorted_wrt_pair [OF S v(1), of w] by blast
          then show ?thesis using w(2) less.prems(4) se by (auto simp: in_vma_def max_def)
        qed
        have "\<exists>u. user_mem_loop mm write ?e lim ?t = Some (?P ?t ?e, u) \<and> vma_ok u mm \<and> region u mm = region ?t mm"
        proof (rule less.hyps)
          show "unat lim - unat ?e < unat lim - unat start"
            using se lt by (simp add: word_less_nat_alt diff_less_mono2)
          show "vma_ok ?t mm" by (rule f(2))
          show "lo \<le> ?e" using less.prems(4) se by simp
        qed (use less.prems(2) next_area in auto)
        moreover have "?P ?t ?e \<longleftrightarrow> ?P s start"
        proof -
          have "permitted s mm write lo b" if "start \<le> b" "\<not> ?e \<le> b" for b
          proof -
            have "in_vma b (vmas s ?v)"
              using that v(2) unfolding in_vma_def by (meson linorder_not_le order.trans)
            then show ?thesis using pm True by blast
          qed
          then show ?thesis using se by (auto dest: order.trans)
        qed
        ultimately show ?thesis unfolding step by (auto simp: fun_eq_iff)
      qed
    qed
  qed
qed

section \<open>Properties\<close>

text \<open>
  C21: \<^verbatim>\<open>mm_map\<close> rounds the interval to pages and either refuses it, with the address space as it
  was, when it is not in user space or its start is already mapped, or panics when it runs into a
  later area, or returns 0 and makes exactly this interval a region with the given flags, all
  other addresses keeping theirs. The list of areas stays ordered and disjoint.
\<close>

theorem mm_map_adds_region:
  assumes "vma_ok s mm" and "mm \<noteq> 0" and "vm_heap s = h # hs" and "h \<noteq> 0" and "h \<notin> set (mmap_list (mms s mm))"
    and "start = WROUNDDOWN a 4096" and "lim = WROUNDUP (a + n) 4096"
  shows "if \<not> USER_ACCESS start lim then mm_map mm a n fl s = Some (- E_INVAL, 0, s)
    else if region s mm start \<noteq> None
    then \<exists>t. mm_map mm a n fl s = Some (- E_INVAL, 0, t) \<and> vma_ok t mm \<and> region t mm = region s mm
    else if \<exists>b. start \<le> b \<and> b < lim \<and> region s mm b \<noteq> None then mm_map mm a n fl s = None
    else \<exists>t. mm_map mm a n fl s = Some (0, h, t) \<and> vma_ok t mm \<and>
      region t mm = (\<lambda>b. if start \<le> b \<and> b < lim then Some fl else region s mm b)"
proof (cases "USER_ACCESS start lim \<and> region s mm start \<noteq> None")
  case True
  let ?v = "vma_scan (mmap_list (mms s mm)) start s"
  note f = find_vma_eq [OF assms(1,2), of start]
  have v: "?v \<noteq> 0" using True by (auto simp: region_def Let_def split: if_splits)
  then have "in_vma start (vmas s ?v)" using vma_scan_mem by blast
  then have "vm_start (vmas s ?v) < lim" using True by (auto simp: in_vma_def USER_ACCESS_def)
  then have "mm_map mm a n fl s = Some (- E_INVAL, 0, cached mm ?v s)"
    using True f(1) v assms(2) by (simp add: mm_map_def assms(6,7) [symmetric] Let_def)
  moreover have "region (cached mm ?v s) mm = region s mm" by (rule ext) simp
  ultimately show ?thesis using True f(2) by auto
next
  case False
  show ?thesis
  proof (cases "USER_ACCESS start lim")
    case ua: True
    then have out: "region s mm start = None" using False by blast
    show ?thesis using mm_map_new [OF assms(1-7) ua out, of fl] ua out by simp
  next
    case False
    then show ?thesis by (simp add: mm_map_def assms(6,7) [symmetric] Let_def)
  qed
qed

text \<open>
  C22: \<^verbatim>\<open>user_mem_check\<close> always returns, and accepts a range exactly when it lies in user space and
  every address of it is in an area with the wanted permission; a write is also refused in the
  lowest page of a stack area and whenever it reaches a stack area from below. The regions do
  not change.
\<close>

theorem user_mem_check_correct:
  assumes "vma_ok s mm" and "mm \<noteq> 0"
  shows "\<exists>t. user_mem_check mm a n write s =
      Some (USER_ACCESS a (a + n) \<and> (\<forall>b. a \<le> b \<and> b < a + n \<longrightarrow> permitted s mm write a b), t) \<and>
    vma_ok t mm \<and> region t mm = region s mm"
proof (cases "USER_ACCESS a (a + n)")
  case True
  have "\<exists>t. user_mem_loop mm write a (a + n) s =
      Some ((\<forall>b. a \<le> b \<and> b < a + n \<longrightarrow> permitted s mm write a b), t) \<and> vma_ok t mm \<and> region t mm = region s mm"
    by (rule user_mem_loop_spec [OF assms]) (auto simp: in_vma_def max_def)
  then show ?thesis using True assms(2) by (auto simp: user_mem_check_def)
next
  case False
  then show ?thesis using assms by (auto simp: user_mem_check_def)
qed

section \<open>Witnesses\<close>

definition demo_vm :: vm where
  "demo_vm = \<lparr>phys = \<lparr>area = demo_pages, words = (\<lambda>_. 0), npage = 0x88000\<rparr>,
     vmas = (\<lambda>v. if v = 200 then \<lparr>vm_mm = 100, vm_start = 0x800000, vm_end = 0x802000, vm_flags = VM_READ\<rparr>
       else \<lparr>vm_mm = 100, vm_start = 0x802000, vm_end = 0x803000, vm_flags = VM_READ OR VM_WRITE\<rparr>),
     mms = (\<lambda>_. \<lparr>mmap_list = [200, 300], mmap_cache = 0, pgdir = 0, map_count = 2, mm_count = 1, mm_sem = 1, locked_by = 0\<rparr>),
     vm_heap = [400]\<rparr>"

lemma demo_vm_ok: "vma_ok demo_vm 100"
  by (simp add: vma_ok_def demo_vm_def)

lemma demo_region: "region demo_vm 100 b =
  (if 0x800000 \<le> b \<and> b < 0x802000 then Some VM_READ
   else if 0x802000 \<le> b \<and> b < 0x803000 then Some (VM_READ OR VM_WRITE) else None)"
  by (auto simp: region_def demo_vm_def in_vma_def)

theorem mm_map_adds_region_witness:
  "(\<exists>t. mm_map 100 0x900123 0x1000 VM_EXEC demo_vm = Some (0, 400, t) \<and>
      region t 100 0x901fff = Some VM_EXEC \<and> region t 100 0x800000 = Some VM_READ) \<and>
   mm_map 100 0x700000 0x200000 VM_EXEC demo_vm = None"
proof -
  have h: "vm_heap demo_vm = 400 # []" "(400 :: nat) \<noteq> 0" "400 \<notin> set (mmap_list (mms demo_vm 100))"
    by (simp_all add: demo_vm_def)
  have r: "WROUNDDOWN 0x900123 4096 = 0x900000" "WROUNDUP (0x900123 + 0x1000) 4096 = 0x902000"
    "WROUNDDOWN 0x700000 4096 = 0x700000" "WROUNDUP (0x700000 + 0x200000) 4096 = 0x900000"
    by (simp_all add: WROUNDDOWN_def WROUNDUP_def)
  have u: "USER_ACCESS 0x900000 0x902000" "USER_ACCESS 0x700000 0x900000" by (simp_all add: USER_ACCESS_def layout)
  have n: "\<not> (\<exists>b. 0x900000 \<le> b \<and> b < 0x902000 \<and> region demo_vm 100 b \<noteq> None)"
  proof -
    have "\<not> b < 0x802000" "\<not> b < 0x803000" if "0x900000 \<le> b" for b :: u64
      using that by (auto simp: word_less_nat_alt word_le_nat_alt)
    then show ?thesis unfolding demo_region by auto
  qed
  have y: "\<exists>b. 0x700000 \<le> b \<and> b < 0x900000 \<and> region demo_vm 100 b \<noteq> None"
    by (rule exI [of _ "0x800000"]) (simp add: demo_region)
  have m: "(100 :: nat) \<noteq> 0" by simp
  note T = mm_map_adds_region [OF demo_vm_ok m h, where fl = VM_EXEC]
  have "\<exists>t. mm_map 100 0x900123 0x1000 VM_EXEC demo_vm = Some (0, 400, t) \<and> vma_ok t 100 \<and>
      region t 100 = (\<lambda>b. if 0x900000 \<le> b \<and> b < 0x902000 then Some VM_EXEC else region demo_vm 100 b)"
    using T [where start = "0x900000" and a = "0x900123" and lim = "0x902000" and n = "0x1000"] u n unfolding r by (simp add: demo_region)
  moreover have "mm_map 100 0x700000 0x200000 VM_EXEC demo_vm = None"
    using T [where start = "0x700000" and a = "0x700000" and lim = "0x900000" and n = "0x200000"] u y unfolding r by (simp add: demo_region)
  ultimately show ?thesis by (auto simp: demo_region)
qed

theorem user_mem_check_correct_witness:
  "(\<exists>t. user_mem_check 100 0x801ff0 0x20 False demo_vm = Some (True, t)) \<and>
   (\<exists>t. user_mem_check 100 0x801ff0 0x20 True demo_vm = Some (False, t))"
proof -
  have "USER_ACCESS 0x801ff0 (0x801ff0 + 0x20)" by (simp add: USER_ACCESS_def layout)
  moreover have "permitted demo_vm 100 False 0x801ff0 b" if "0x801ff0 \<le> b" "b < 0x801ff0 + 0x20" for b
  proof (cases "b < 0x802000")
    case True
    have "0x800000 \<le> b" by (rule order.trans [OF _ that(1)]) simp
    with True show ?thesis using that unfolding permitted_def
      by (intro bexI [of _ 200]) (auto simp: demo_vm_def in_vma_def vma_permits_def layout)
  next
    case False
    have "b < 0x803000" by (rule less_trans [OF that(2)]) simp
    with False show ?thesis unfolding permitted_def
      by (intro bexI [of _ 300]) (auto simp: demo_vm_def in_vma_def vma_permits_def layout)
  qed
  moreover have "\<not> permitted demo_vm 100 True 0x801ff0 0x801ff0"
    by (auto simp: permitted_def demo_vm_def in_vma_def vma_permits_def layout)
  ultimately show ?thesis
    using demo_vm_ok user_mem_check_correct [of demo_vm 100 "0x801ff0" "0x20" False]
      user_mem_check_correct [of demo_vm 100 "0x801ff0" "0x20" True] by fastforce
qed

end
