(* ===== verification/ProcTree.thy ===== *)
theory ProcTree
  imports Prelude
begin

text \<open>
  The tables of processes of \<^verbatim>\<open>kern/process/proc.c\<close>: the list of all processes with the
  search for an unused number, the hash lists by number, and the family tree kept in the
  pointers \<^verbatim>\<open>parent\<close>, \<^verbatim>\<open>cptr\<close>, \<^verbatim>\<open>yptr\<close> and \<^verbatim>\<open>optr\<close>. A process is an address and \<^verbatim>\<open>NULL\<close> is 0;
  \<^verbatim>\<open>list_add\<close> puts an entry at the front of a list and \<^verbatim>\<open>list_del\<close> takes it out.
\<close>

section \<open>State\<close>

definition MAX_PROCESS :: int where [layout]: "MAX_PROCESS = 4096"
definition MAX_PID :: int where [layout]: "MAX_PID = 8192"

record pnode =
  p_pid :: int
  p_parent :: addr
  p_cptr :: addr
  p_yptr :: addr
  p_optr :: addr

record ptable =
  pnodes :: "addr \<Rightarrow> pnode"
  proc_list :: "addr list"
  phash :: "nat \<Rightarrow> addr list"
  nr_process :: int
  next_safe :: int
  last_pid :: int

definition upd_pnode :: "addr \<Rightarrow> (pnode \<Rightarrow> pnode) \<Rightarrow> ptable \<Rightarrow> ptable" where
  "upd_pnode p f t = t\<lparr>pnodes := (pnodes t)(p := f (pnodes t p))\<rparr>"

section \<open>Process numbers\<close>

text \<open>
  The scan of \<^verbatim>\<open>get_pid\<close> over the rest of the list. Every \<^verbatim>\<open>goto repeat\<close> starts again with the
  whole list, so that its end is not evident: the function is partial.
\<close>

partial_function (option) get_pid_loop :: "addr list \<Rightarrow> (addr \<Rightarrow> int) \<Rightarrow> addr list \<Rightarrow> int \<Rightarrow> int \<Rightarrow> (int \<times> int) option" where
  "get_pid_loop all pd le cur safe =
     (case le of [] \<Rightarrow> Some (cur, safe)
      | p # ps \<Rightarrow>
        if pd p = cur then
          (let cur = cur + 1 in
           if cur \<ge> safe then get_pid_loop all pd all (if cur \<ge> MAX_PID then 1 else cur) MAX_PID
           else get_pid_loop all pd ps cur safe)
        else if pd p > cur \<and> safe > pd p then get_pid_loop all pd ps cur (pd p)
        else get_pid_loop all pd ps cur safe)"

definition get_pid :: "ptable \<Rightarrow> (int \<times> ptable) option" where
  "get_pid t =
     (let pd = (\<lambda>p. p_pid (pnodes t p)); all = proc_list t; cur = last_pid t + 1 in
      map_option (\<lambda>(l, n). (l, t\<lparr>last_pid := l, next_safe := n\<rparr>))
        (if cur \<ge> MAX_PID then get_pid_loop all pd all 1 MAX_PID
         else if cur \<ge> next_safe t then get_pid_loop all pd all cur MAX_PID
         else Some (cur, next_safe t)))"

definition pid_hashfn :: "int \<Rightarrow> nat" where
  "pid_hashfn x = unat (drop_bit (32 - 10) ((word_of_int x :: u32) * 0x9e370001))"

definition hash_proc :: "addr \<Rightarrow> ptable \<Rightarrow> ptable" where
  "hash_proc p t =
     (let k = pid_hashfn (p_pid (pnodes t p)) in t\<lparr>phash := (phash t)(k := p # phash t k)\<rparr>)"

definition unhash_proc :: "addr \<Rightarrow> ptable \<Rightarrow> ptable" where
  "unhash_proc p t =
     (let k = pid_hashfn (p_pid (pnodes t p)) in t\<lparr>phash := (phash t)(k := remove1 p (phash t k))\<rparr>)"

fun find_in :: "addr list \<Rightarrow> int \<Rightarrow> ptable \<Rightarrow> addr" where
  "find_in [] pid t = 0"
| "find_in (p # ps) pid t = (if p_pid (pnodes t p) = pid then p else find_in ps pid t)"

definition find_proc :: "int \<Rightarrow> ptable \<Rightarrow> addr" where
  "find_proc pid t = (if 0 < pid \<and> pid < MAX_PID then find_in (phash t (pid_hashfn pid)) pid t else 0)"

section \<open>The family tree\<close>

definition set_links :: "addr \<Rightarrow> ptable \<Rightarrow> ptable" where
  "set_links p t =
     (let t = t\<lparr>proc_list := p # proc_list t\<rparr>;
          t = upd_pnode p (\<lambda>n. n\<lparr>p_yptr := 0\<rparr>) t;
          par = p_parent (pnodes t p);
          old = p_cptr (pnodes t par);
          t = upd_pnode p (\<lambda>n. n\<lparr>p_optr := old\<rparr>) t;
          t = (if old \<noteq> 0 then upd_pnode old (\<lambda>n. n\<lparr>p_yptr := p\<rparr>) t else t);
          t = upd_pnode par (\<lambda>n. n\<lparr>p_cptr := p\<rparr>) t
      in t\<lparr>nr_process := nr_process t + 1\<rparr>)"

definition remove_links :: "addr \<Rightarrow> ptable \<Rightarrow> ptable" where
  "remove_links p t =
     (let t = t\<lparr>proc_list := remove1 p (proc_list t)\<rparr>;
          opt = p_optr (pnodes t p); ypt = p_yptr (pnodes t p);
          t = (if opt \<noteq> 0 then upd_pnode opt (\<lambda>n. n\<lparr>p_yptr := ypt\<rparr>) t else t);
          t = (if ypt \<noteq> 0 then upd_pnode ypt (\<lambda>n. n\<lparr>p_optr := opt\<rparr>) t
               else upd_pnode (p_parent (pnodes t p)) (\<lambda>n. n\<lparr>p_cptr := opt\<rparr>) t)
      in t\<lparr>nr_process := nr_process t - 1\<rparr>)"

text \<open>One round of the loop of \<^verbatim>\<open>do_exit\<close> that gives the first child of \<open>p\<close> to \<^verbatim>\<open>initproc\<close>.\<close>

definition adopt_child :: "addr \<Rightarrow> addr \<Rightarrow> ptable \<Rightarrow> ptable" where
  "adopt_child ini p t =
     (let c = p_cptr (pnodes t p);
          t = upd_pnode p (\<lambda>n. n\<lparr>p_cptr := p_optr (pnodes t c)\<rparr>) t;
          t = upd_pnode c (\<lambda>n. n\<lparr>p_yptr := 0\<rparr>) t;
          old = p_cptr (pnodes t ini);
          t = upd_pnode c (\<lambda>n. n\<lparr>p_optr := old\<rparr>) t;
          t = (if old \<noteq> 0 then upd_pnode (p_cptr (pnodes t ini)) (\<lambda>n. n\<lparr>p_yptr := c\<rparr>) t else t);
          t = upd_pnode c (\<lambda>n. n\<lparr>p_parent := ini\<rparr>) t
      in upd_pnode ini (\<lambda>n. n\<lparr>p_cptr := c\<rparr>) t)"

text \<open>The state of the nodes after the operations.\<close>

lemma upd_pnode_simps [simp]:
  "pnodes (upd_pnode p f t) = (pnodes t)(p := f (pnodes t p))" "proc_list (upd_pnode p f t) = proc_list t"
  "phash (upd_pnode p f t) = phash t" "nr_process (upd_pnode p f t) = nr_process t"
  "next_safe (upd_pnode p f t) = next_safe t" "last_pid (upd_pnode p f t) = last_pid t"
  by (simp_all add: upd_pnode_def)

lemma set_links_simps [simp]:
  "proc_list (set_links p t) = p # proc_list t" "phash (set_links p t) = phash t"
  "nr_process (set_links p t) = nr_process t + 1" "next_safe (set_links p t) = next_safe t"
  "last_pid (set_links p t) = last_pid t" "p_pid (pnodes (set_links p t) q) = p_pid (pnodes t q)"
  "p_parent (pnodes (set_links p t) q) = p_parent (pnodes t q)"
  by (simp_all add: set_links_def Let_def)

lemma remove_links_simps [simp]:
  "proc_list (remove_links p t) = remove1 p (proc_list t)" "phash (remove_links p t) = phash t"
  "nr_process (remove_links p t) = nr_process t - 1" "next_safe (remove_links p t) = next_safe t"
  "last_pid (remove_links p t) = last_pid t"
  by (simp_all add: remove_links_def Let_def)

section \<open>An unused number is always found\<close>

text \<open>
  \<open>pid_inv t\<close>: no process has a number strictly between \<^verbatim>\<open>last_pid\<close> and \<^verbatim>\<open>next_safe\<close>.
\<close>

definition pids :: "ptable \<Rightarrow> int set" where
  "pids t = (\<lambda>p. p_pid (pnodes t p)) ` set (proc_list t)"

definition pid_inv :: "ptable \<Rightarrow> bool" where
  "pid_inv t \<longleftrightarrow> 1 \<le> last_pid t \<and> last_pid t \<le> MAX_PID \<and> next_safe t \<le> MAX_PID \<and>
     (\<forall>x\<in>pids t. \<not> (last_pid t < x \<and> x < next_safe t))"

definition next_pid :: "int \<Rightarrow> int" where
  "next_pid x = (if x + 1 \<ge> MAX_PID then 1 else x + 1)"

lemma next_pid_range: "1 \<le> x \<Longrightarrow> x < MAX_PID \<Longrightarrow> 1 \<le> next_pid x \<and> next_pid x < MAX_PID"
  by (simp add: next_pid_def MAX_PID_def)

lemma next_pid_up: "1 \<le> x \<Longrightarrow> x + int k < MAX_PID \<Longrightarrow> (next_pid ^^ k) x = x + int k"
  by (induction k) (auto simp: next_pid_def)

text \<open>Going from a number to the next, and from the last to 1, one meets every number.\<close>

lemma next_pid_reaches:
  assumes "1 \<le> x" and "x < MAX_PID" and "1 \<le> y" and "y < MAX_PID"
  shows "\<exists>k. (next_pid ^^ k) x = y"
proof -
  have up: "\<exists>k. (next_pid ^^ k) a = b" if "1 \<le> a" "a \<le> b" "b < MAX_PID" for a b
    using next_pid_up [of a "nat (b - a)"] that by (intro exI [of _ "nat (b - a)"]) simp
  show ?thesis
  proof (cases "x \<le> y")
    case True
    then show ?thesis using up assms by blast
  next
    case False
    obtain j where j: "(next_pid ^^ j) x = MAX_PID - 1" using up [of x "MAX_PID - 1"] assms by auto
    have one: "next_pid (MAX_PID - 1) = 1" by (simp add: next_pid_def)
    obtain k where k: "(next_pid ^^ k) 1 = y" using up [of 1 y] assms by auto
    have "(next_pid ^^ (k + Suc j)) x = y" by (simp only: funpow_add o_apply funpow.simps j one k)
    then show ?thesis by blast
  qed
qed

lemma get_pid_loop_finds:
  assumes "(next_pid ^^ n) cur \<notin> pd ` set all" and "1 \<le> cur" and "cur < MAX_PID"
    and "all = seen @ le" and "cur < safe" and "safe \<le> MAX_PID"
    and "\<forall>q\<in>set seen. pd q < cur \<or> safe \<le> pd q"
  shows "\<exists>l s. get_pid_loop all pd le cur safe = Some (l, s) \<and> 1 \<le> l \<and> l < MAX_PID \<and> s \<le> MAX_PID \<and>
    l \<notin> pd ` set all \<and> (\<forall>x\<in>pd ` set all. \<not> (l < x \<and> x < s))"
  using assms
proof (induction n arbitrary: cur safe seen le)
  case outer: (0 cur safe seen le)
  then show ?case
  proof (induction le arbitrary: safe seen)
    case Nil
    then show ?case by (subst get_pid_loop.simps) fastforce
  next
    case (Cons p ps)
    have "pd p \<noteq> cur" using Cons.prems by auto
    then show ?case using Cons.IH [where seen = "seen @ [p]"] Cons.prems
      by (subst get_pid_loop.simps) fastforce
  qed
next
  case outer: (Suc n cur safe seen le)
  from outer.prems show ?case
  proof (induction le arbitrary: cur safe seen)
    case Nil
    then show ?case by (subst get_pid_loop.simps) fastforce
  next
    case (Cons p ps)
    have free: "(next_pid ^^ n) (next_pid cur) \<notin> pd ` set all" using Cons.prems(1) by (simp add: funpow_Suc_right del: funpow.simps)
    show ?case
    proof (cases "pd p = cur")
      case True
      show ?thesis
      proof (cases "cur + 1 \<ge> safe")
        case again: True
        let ?l = "if cur + 1 \<ge> MAX_PID then 1 else cur + 1"
        have "?l = next_pid cur" by (simp add: next_pid_def)
        then have "\<exists>l s. get_pid_loop all pd all ?l MAX_PID = Some (l, s) \<and> 1 \<le> l \<and> l < MAX_PID \<and> s \<le> MAX_PID \<and>
            l \<notin> pd ` set all \<and> (\<forall>x\<in>pd ` set all. \<not> (l < x \<and> x < s))"
          using outer.IH [OF free, of "[]" all MAX_PID] next_pid_range [OF Cons.prems(2,3)] by simp
        then show ?thesis using True again by (subst get_pid_loop.simps) (simp add: Let_def)
      next
        case False
        then have "next_pid cur = cur + 1" using Cons.prems(6) by (simp add: next_pid_def)
        then have "\<exists>l s. get_pid_loop all pd ps (cur + 1) safe = Some (l, s) \<and> 1 \<le> l \<and> l < MAX_PID \<and> s \<le> MAX_PID \<and>
            l \<notin> pd ` set all \<and> (\<forall>x\<in>pd ` set all. \<not> (l < x \<and> x < s))"
          using outer.IH [OF free, of "seen @ [p]" ps safe] Cons.prems True False by fastforce
        then show ?thesis using True False by (subst get_pid_loop.simps) (simp add: Let_def)
      qed
    next
      case False
      then show ?thesis using Cons.IH [where seen = "seen @ [p]"] Cons.prems
        by (subst get_pid_loop.simps) fastforce
    qed
  qed
qed

lemma pids_upd [simp]: "pids (t\<lparr>last_pid := l\<rparr>) = pids t" "pids (t\<lparr>next_safe := n\<rparr>) = pids t"
  by (simp_all add: pids_def)

lemma unused_pid:
  assumes "int (length (proc_list t)) < MAX_PID - 1"
  shows "\<exists>y. 1 \<le> y \<and> y < MAX_PID \<and> y \<notin> pids t"
proof (rule ccontr)
  assume none: "\<not> ?thesis"
  have sub: "{1..<MAX_PID} \<subseteq> pids t"
  proof
    fix y assume "y \<in> {1..<MAX_PID}"
    then show "y \<in> pids t" using none by auto
  qed
  have "card (pids t) \<le> length (proc_list t)"
    unfolding pids_def by (meson card_image_le card_length finite_set le_trans)
  moreover have "card {1..<MAX_PID} \<le> card (pids t)"
    by (rule card_mono [OF _ sub]) (simp add: pids_def)
  ultimately show False using assms by simp
qed

lemma get_pid_returns:
  assumes inv: "pid_inv t" and room: "int (length (proc_list t)) < MAX_PID - 1"
  shows "\<exists>l t'. get_pid t = Some (l, t') \<and> 1 \<le> l \<and> l < MAX_PID \<and> l \<notin> pids t \<and> pid_inv t' \<and>
    t' = t\<lparr>last_pid := l, next_safe := next_safe t'\<rparr>"
proof -
  let ?pd = "\<lambda>p. p_pid (pnodes t p)" and ?all = "proc_list t" and ?cur = "last_pid t + 1"
  obtain y where y: "1 \<le> y" "y < MAX_PID" "y \<notin> pids t" using unused_pid [OF room] by blast
  have scan: "\<exists>l s. get_pid_loop ?all ?pd ?all cur MAX_PID = Some (l, s) \<and> 1 \<le> l \<and> l < MAX_PID \<and> s \<le> MAX_PID \<and>
      l \<notin> pids t \<and> (\<forall>x\<in>pids t. \<not> (l < x \<and> x < s))" if cur: "1 \<le> cur" "cur < MAX_PID" for cur
  proof -
    obtain n where "(next_pid ^^ n) cur = y" using next_pid_reaches [OF cur y(1,2)] by blast
    then show ?thesis using get_pid_loop_finds [of n cur ?pd ?all "[]" ?all MAX_PID] y(3) cur
      by (simp add: pids_def)
  qed
  have fin: ?thesis if "get_pid t = map_option (\<lambda>(l, n). (l, t\<lparr>last_pid := l, next_safe := n\<rparr>)) (Some (l, s))"
      "1 \<le> l" "l < MAX_PID" "s \<le> MAX_PID" "l \<notin> pids t" "\<forall>x\<in>pids t. \<not> (l < x \<and> x < s)" for l s
    using that by (simp add: pid_inv_def pids_def)
  show ?thesis
  proof (cases "?cur < MAX_PID \<and> ?cur < next_safe t")
    case True
    then show ?thesis using inv fin [of ?cur "next_safe t"]
      by (auto simp: pid_inv_def get_pid_def Let_def)
  next
    case False
    define cur where "cur = (if ?cur \<ge> MAX_PID then 1 else ?cur)"
    have "1 \<le> cur" "cur < MAX_PID" using inv by (auto simp: cur_def pid_inv_def MAX_PID_def)
    from scan [OF this] obtain l s where l: "get_pid_loop ?all ?pd ?all cur MAX_PID = Some (l, s)"
      "1 \<le> l" "l < MAX_PID" "s \<le> MAX_PID" "l \<notin> pids t" "\<forall>x\<in>pids t. \<not> (l < x \<and> x < s)" by blast
    have "get_pid t = map_option (\<lambda>(l, n). (l, t\<lparr>last_pid := l, next_safe := n\<rparr>)) (get_pid_loop ?all ?pd ?all cur MAX_PID)"
      using False by (auto simp: get_pid_def cur_def Let_def)
    then show ?thesis using l by (intro fin [of l s]) simp_all
  qed
qed

text \<open>
  C20: as long as fewer processes exist than there are numbers, \<^verbatim>\<open>get_pid\<close> ends in spite of its
  \<^verbatim>\<open>goto repeat\<close>, and returns a number between 1 and \<^verbatim>\<open>MAX_PID - 1\<close> that no process has; the bound
  \<^verbatim>\<open>next_safe\<close> it leaves for the next call is right again.
\<close>

theorem get_pid_unique:
  assumes inv: "pid_inv t" and room: "int (length (proc_list t)) < MAX_PID - 1"
  shows "\<exists>l t'. get_pid t = Some (l, t') \<and> 1 \<le> l \<and> l < MAX_PID \<and> l \<notin> pids t \<and> pid_inv t' \<and>
    t' = t\<lparr>last_pid := l, next_safe := next_safe t'\<rparr>"
  using assms by (rule get_pid_returns)

definition demo_ptable :: ptable where
  "demo_ptable =
     \<lparr>pnodes = (\<lambda>_. \<lparr>p_pid = 0, p_parent = 0, p_cptr = 0, p_yptr = 0, p_optr = 0\<rparr>)
        (0x100 := \<lparr>p_pid = 1, p_parent = 0x900, p_cptr = 0, p_yptr = 0x200, p_optr = 0\<rparr>,
         0x200 := \<lparr>p_pid = 2, p_parent = 0x900, p_cptr = 0, p_yptr = 0, p_optr = 0x100\<rparr>,
         0x900 := \<lparr>p_pid = 0, p_parent = 0, p_cptr = 0x200, p_yptr = 0, p_optr = 0\<rparr>),
      proc_list = [0x200, 0x100], phash = (\<lambda>_. []), nr_process = 3, next_safe = MAX_PID, last_pid = MAX_PID\<rparr>"

theorem get_pid_unique_witness:
  "\<exists>l t'. get_pid demo_ptable = Some (l, t') \<and> 1 \<le> l \<and> l < MAX_PID \<and> l \<notin> pids demo_ptable \<and> pid_inv t' \<and>
    t' = demo_ptable\<lparr>last_pid := l, next_safe := next_safe t'\<rparr>"
  by (rule get_pid_unique) (simp_all add: demo_ptable_def pid_inv_def MAX_PID_def)

section \<open>Hash lists\<close>

definition hash_inv :: "ptable \<Rightarrow> bool" where
  "hash_inv t \<longleftrightarrow> distinct (proc_list t) \<and> inj_on (\<lambda>p. p_pid (pnodes t p)) (set (proc_list t)) \<and>
     (\<forall>k. distinct (phash t k) \<and>
        (\<forall>p. p \<in> set (phash t k) \<longleftrightarrow> p \<in> set (proc_list t) \<and> pid_hashfn (p_pid (pnodes t p)) = k))"

lemma find_in_unique:
  assumes "inj_on (\<lambda>p. p_pid (pnodes t p)) A" and "set ps \<subseteq> A" and "p \<in> set ps"
  shows "find_in ps (p_pid (pnodes t p)) t = p"
  using assms by (induction ps) (auto dest: inj_onD)

lemma find_in_0: "\<forall>p\<in>set ps. p_pid (pnodes t p) \<noteq> pid \<Longrightarrow> find_in ps pid t = 0"
  by (induction ps) auto

lemma find_proc_spec:
  assumes inv: "hash_inv t" and r: "0 < pid" "pid < MAX_PID"
  shows "p \<in> set (proc_list t) \<Longrightarrow> p_pid (pnodes t p) = pid \<Longrightarrow> find_proc pid t = p"
    and "pid \<notin> pids t \<Longrightarrow> find_proc pid t = 0"
proof -
  assume p: "p \<in> set (proc_list t)" "p_pid (pnodes t p) = pid"
  then have "p \<in> set (phash t (pid_hashfn pid))" using inv by (simp add: hash_inv_def)
  moreover have "set (phash t (pid_hashfn pid)) \<subseteq> set (proc_list t)" using inv by (auto simp: hash_inv_def)
  ultimately have "find_in (phash t (pid_hashfn pid)) pid t = p"
    using inv p(2) find_in_unique [of t "set (proc_list t)"] by (auto simp: hash_inv_def)
  then show "find_proc pid t = p" using r by (simp add: find_proc_def)
next
  assume "pid \<notin> pids t"
  then have "\<forall>p\<in>set (phash t (pid_hashfn pid)). p_pid (pnodes t p) \<noteq> pid"
    using inv by (auto simp: hash_inv_def pids_def)
  then show "find_proc pid t = 0" using find_in_0 by (simp add: find_proc_def)
qed

lemma hash_enter:
  assumes inv: "hash_inv t" and p: "p \<notin> set (proc_list t)" and new: "p_pid (pnodes t p) \<notin> pids t"
  shows "hash_inv (set_links p (hash_proc p t))"
proof -
  let ?t = "set_links p (hash_proc p t)"
  have n: "p_pid (pnodes ?t q) = p_pid (pnodes t q)" for q by (simp add: hash_proc_def Let_def)
  have l: "proc_list ?t = p # proc_list t" by (simp add: hash_proc_def Let_def)
  have h: "phash ?t k = (if k = pid_hashfn (p_pid (pnodes t p)) then p # phash t k else phash t k)" for k
    by (simp add: hash_proc_def Let_def)
  have new': "p_pid (pnodes t q) \<noteq> p_pid (pnodes t p)" if "q \<in> set (proc_list t)" for q
    using new that unfolding pids_def by (metis imageI)
  have "inj_on (\<lambda>q. p_pid (pnodes t q)) (insert p (set (proc_list t)))"
    using inv new' new' [symmetric] p by (auto simp: hash_inv_def inj_on_def)
  then show ?thesis using inv p unfolding hash_inv_def n l h by auto
qed

lemma hash_leave:
  assumes inv: "hash_inv t" and p: "p \<in> set (proc_list t)"
    and n: "\<And>q. p_pid (pnodes (remove_links p (unhash_proc p t)) q) = p_pid (pnodes t q)"
  shows "hash_inv (remove_links p (unhash_proc p t))"
proof -
  let ?t = "remove_links p (unhash_proc p t)"
  have l: "proc_list ?t = remove1 p (proc_list t)" by (simp add: unhash_proc_def Let_def)
  have h: "phash ?t k = (if k = pid_hashfn (p_pid (pnodes t p)) then remove1 p (phash t k) else phash t k)" for k
    by (simp add: unhash_proc_def Let_def)
  have d: "distinct (proc_list t)" "\<And>k. distinct (phash t k)" using inv by (auto simp: hash_inv_def)
  have "inj_on (\<lambda>q. p_pid (pnodes t q)) (set (proc_list t) - {p})"
    using inv by (auto simp: hash_inv_def inj_on_def)
  then show ?thesis using inv p d unfolding hash_inv_def n l h by (auto simp: set_remove1_eq)
qed

section \<open>Families\<close>

text \<open>
  \<open>sibs n y xs e\<close>: the processes \<open>xs\<close> are linked from younger to older, \<open>y\<close> being the younger
  sibling of the first and \<open>e\<close> the older one of the last.
\<close>

fun sibs :: "(addr \<Rightarrow> pnode) \<Rightarrow> addr \<Rightarrow> addr list \<Rightarrow> addr \<Rightarrow> bool" where
  "sibs n y [] e = True"
| "sibs n y (x # xs) e \<longleftrightarrow> p_yptr (n x) = y \<and> p_optr (n x) = hd (xs @ [e]) \<and> sibs n x xs e"

lemma sibs_append: "sibs n y (xs @ ys) e \<longleftrightarrow> sibs n y xs (hd (ys @ [e])) \<and> sibs n (last (y # xs)) ys e"
  by (induction xs arbitrary: y) (auto simp: hd_append)

lemma sibs_cong:
  "(\<And>x. x \<in> set xs \<Longrightarrow> p_yptr (n' x) = p_yptr (n x) \<and> p_optr (n' x) = p_optr (n x)) \<Longrightarrow>
    sibs n' y xs e = sibs n y xs e"
  by (induction xs arbitrary: y) auto

text \<open>
  \<open>family n P K\<close>: among the processes \<open>P\<close> the children of \<open>p\<close> are \<open>K p\<close>, the youngest first; every
  process but the root \<open>r\<close> is the child of its parent.
\<close>

definition family :: "(addr \<Rightarrow> pnode) \<Rightarrow> addr set \<Rightarrow> addr \<Rightarrow> (addr \<Rightarrow> addr list) \<Rightarrow> bool" where
  "family n P r K \<longleftrightarrow> 0 \<notin> P \<and> r \<in> P \<and>
     (\<forall>p\<in>P. p_cptr (n p) = hd (K p @ [0]) \<and> sibs n 0 (K p) 0 \<and> distinct (K p) \<and>
        (\<forall>x. x \<in> set (K p) \<longleftrightarrow> x \<in> P \<and> x \<noteq> r \<and> p_parent (n x) = p)) \<and>
     (\<forall>x\<in>P - {r}. p_parent (n x) \<in> P \<and> p_parent (n x) \<noteq> x)"

lemma familyD:
  assumes "family n P r K" and "p \<in> P"
  shows "p_cptr (n p) = hd (K p @ [0])" and "sibs n 0 (K p) 0" and "distinct (K p)"
    and "x \<in> set (K p) \<longleftrightarrow> x \<in> P \<and> x \<noteq> r \<and> p_parent (n x) = p" and "0 \<notin> P" and "p \<noteq> 0"
  using assms by (auto simp: family_def)

lemma familyI:
  assumes "0 \<notin> P" and "r \<in> P" and "\<And>p. p \<in> P \<Longrightarrow> p_cptr (n p) = hd (K p @ [0])"
    and "\<And>p. p \<in> P \<Longrightarrow> sibs n 0 (K p) 0" and "\<And>p. p \<in> P \<Longrightarrow> distinct (K p)"
    and "\<And>p x. p \<in> P \<Longrightarrow> x \<in> set (K p) \<longleftrightarrow> x \<in> P \<and> x \<noteq> r \<and> p_parent (n x) = p"
    and "\<And>x. x \<in> P \<Longrightarrow> x \<noteq> r \<Longrightarrow> p_parent (n x) \<in> P \<and> p_parent (n x) \<noteq> x"
  shows "family n P r K"
  unfolding family_def using assms by auto

lemma set_links_nodes:
  assumes "p_parent (pnodes t x) = p" and "x \<noteq> p" and "p_cptr (pnodes t p) \<noteq> x"
  shows "p_cptr (pnodes (set_links x t) q) = (if q = p then x else p_cptr (pnodes t q))"
    and "p_yptr (pnodes (set_links x t) q) =
      (if q = x then 0 else if q \<noteq> 0 \<and> q = p_cptr (pnodes t p) then x else p_yptr (pnodes t q))"
    and "p_optr (pnodes (set_links x t) q) = (if q = x then p_cptr (pnodes t p) else p_optr (pnodes t q))"
  using assms by (simp_all add: set_links_def Let_def)

lemma family_set_links:
  assumes fam: "family (pnodes t) P r K" and x: "x \<notin> P" "x \<noteq> 0" and p: "p \<in> P" "p_parent (pnodes t x) = p"
    and c: "p_cptr (pnodes t x) = 0"
  shows "family (pnodes (set_links x t)) (insert x P) r (K(p := x # K p, x := []))"
proof -
  let ?n = "pnodes t" and ?m = "pnodes (set_links x t)"
  have xp: "x \<noteq> p" "x \<noteq> r" using x p fam by (auto simp: family_def)
  have cx: "p_cptr (?n p) \<noteq> x"
  proof -
    have "hd (K p @ [0]) \<in> insert 0 P" using familyD(4) [OF fam p(1)] by (cases "K p") auto
    then show ?thesis using familyD(1) [OF fam p(1)] x by auto
  qed
  note S = set_links_nodes [OF p(2) xp(1) cx]
  have memK: "y \<in> P" "y \<noteq> x" if "y \<in> set (K q)" "q \<in> P" for y q
    using familyD(4) [OF fam that(2)] that(1) x(1) by auto
  show ?thesis
  proof (rule familyI)
    show "0 \<notin> insert x P" "r \<in> insert x P" using fam x by (auto simp: family_def)
    fix q assume q: "q \<in> insert x P"
    show "p_cptr (?m q) = hd ((K(p := x # K p, x := [])) q @ [0])"
      using q familyD(1) [OF fam] c xp by (auto simp: S(1))
    show "distinct ((K(p := x # K p, x := [])) q)"
      using q familyD(3) [OF fam] memK(2) p(1) by (auto simp: x)
    show "y \<in> set ((K(p := x # K p, x := [])) q) \<longleftrightarrow> y \<in> insert x P \<and> y \<noteq> r \<and> p_parent (?m y) = q" for y
      using q familyD(4) [OF fam] p xp x fam by (auto simp: family_def)
    show "sibs ?m 0 ((K(p := x # K p, x := [])) q) 0"
    proof (cases "q = x")
      case False
      then have qP: "q \<in> P" using q by simp
      have other: "p_cptr (?n p) \<notin> set (K q)" if "q \<noteq> p"
        using familyD(1,4) [OF fam p(1)] familyD(4) [OF fam qP] familyD(5) [OF fam p(1)] that by (cases "K p") auto
      show ?thesis
      proof (cases "q = p")
        case True
        have "sibs ?m x (K p) 0"
        proof (cases "K p")
          case (Cons z zs)
          have "z \<in> P" "z \<noteq> x" using memK [of z p] p(1) by (simp_all add: Cons)
          moreover have "p_cptr (?n p) = z" using familyD(1) [OF fam p(1)] by (simp add: Cons)
          ultimately have z: "p_cptr (?n p) = z" "z \<noteq> 0" "z \<noteq> x" using familyD(5) [OF fam p(1)] by metis+
          have "sibs ?n 0 (z # zs) 0" "z \<notin> set zs" using familyD(2,3) [OF fam p(1)] by (auto simp: Cons)
          moreover have "sibs ?m z zs 0 = sibs ?n z zs 0"
            by (rule sibs_cong) (use memK [of _ p] p(1) z \<open>z \<notin> set zs\<close> in \<open>auto simp: S Cons\<close>)
          ultimately show ?thesis using z by (simp add: Cons S)
        qed simp
        moreover have "p_optr (?m x) = hd (K p @ [0])" "p_yptr (?m x) = 0"
          using familyD(1) [OF fam p(1)] by (simp_all add: S)
        ultimately show ?thesis using True xp by simp
      next
        case np: False
        have "sibs ?m 0 (K q) 0 = sibs ?n 0 (K q) 0"
          by (rule sibs_cong) (use memK [of _ q] qP other np in \<open>auto simp: S\<close>)
        then show ?thesis using familyD(2) [OF fam qP] False np by simp
      qed
    qed simp
  next
    fix y assume "y \<in> insert x P" "y \<noteq> r"
    then show "p_parent (?m y) \<in> insert x P \<and> p_parent (?m y) \<noteq> y"
      using fam p xp by (auto simp: family_def)
  qed
qed

lemma remove_links_nodes:
  assumes "distinct [x, p_parent (pnodes t x), 0]" and "p_optr (pnodes t x) \<notin> {x, p_yptr (pnodes t x)} \<or> p_optr (pnodes t x) = 0"
    and "p_yptr (pnodes t x) \<noteq> x"
  shows "p_cptr (pnodes (remove_links x t) q) =
      (if q = p_parent (pnodes t x) \<and> p_yptr (pnodes t x) = 0 then p_optr (pnodes t x) else p_cptr (pnodes t q))"
    and "p_yptr (pnodes (remove_links x t) q) =
      (if q = p_optr (pnodes t x) \<and> q \<noteq> 0 then p_yptr (pnodes t x) else p_yptr (pnodes t q))"
    and "p_optr (pnodes (remove_links x t) q) =
      (if q = p_yptr (pnodes t x) \<and> q \<noteq> 0 then p_optr (pnodes t x) else p_optr (pnodes t q))"
    and "p_parent (pnodes (remove_links x t) q) = p_parent (pnodes t q)"
    and "p_pid (pnodes (remove_links x t) q) = p_pid (pnodes t q)"
  using assms
  by (cases "p_optr (pnodes t x) = 0"; cases "p_yptr (pnodes t x) = 0"; simp add: remove_links_def Let_def)+

lemma sibs_mem:
  assumes "sibs n y (us @ x # vs) e"
  shows "p_yptr (n x) = last (y # us)" and "p_optr (n x) = hd (vs @ [e])"
  using assms by (simp_all add: sibs_append)

lemma family_remove_links:
  assumes fam: "family (pnodes t) P r K" and x: "x \<in> P" "x \<noteq> r" "K x = []" and p: "p = p_parent (pnodes t x)"
  shows "family (pnodes (remove_links x t)) (P - {x}) r (K(p := remove1 x (K p)))"
proof -
  let ?n = "pnodes t" and ?m = "pnodes (remove_links x t)"
  have pP: "p \<in> P" "p \<noteq> x" using fam x(1,2) p by (auto simp: family_def)
  have xK: "x \<in> set (K p)" using familyD(4) [OF fam pP(1)] x p by blast
  then obtain us vs where K: "K p = us @ x # vs" by (meson split_list)
  have d: "distinct (us @ x # vs)" using familyD(3) [OF fam pP(1)] by (simp add: K)
  have mem: "y \<in> P" "y \<noteq> 0" if "y \<in> set (K q)" "q \<in> P" for y q
    using familyD(4) [OF fam that(2)] that(1) familyD(5) [OF fam pP(1)] by metis+
  have s: "sibs ?n 0 (us @ x # vs) 0" using familyD(2) [OF fam pP(1)] by (simp add: K)
  note yo = sibs_mem [OF s]
  have dist: "distinct [x, p_parent (?n x), 0]" using pP p familyD(6) [OF fam pP(1)] familyD(6) [OF fam x(1)] by simp
  have y_mem: "last (0 # us) \<in> insert 0 (set us)" by (cases us) auto
  have o_mem: "hd (vs @ [0]) \<in> insert 0 (set vs)" by (cases vs) auto
  have no: "p_optr (?n x) \<notin> {x, p_yptr (?n x)} \<or> p_optr (?n x) = 0" "p_yptr (?n x) \<noteq> x"
    using d y_mem o_mem dist unfolding yo by auto
  note R = remove_links_nodes [OF dist no, unfolded yo p [symmetric]]
  have sib_in: "y \<in> set (K p)" if "y = last (0 # us) \<or> y = hd (vs @ [0])" "y \<noteq> 0" for y
    using that y_mem o_mem by (auto simp: K)
  show ?thesis
  proof (rule familyI)
    show "0 \<notin> P - {x}" "r \<in> P - {x}" using fam x by (auto simp: family_def)
    fix q assume q: "q \<in> P - {x}"
    then have qP: "q \<in> P" by simp
    show "p_cptr (?m q) = hd ((K(p := remove1 x (K p))) q @ [0])"
    proof (cases "q = p")
      case True
      have "us \<noteq> [] \<Longrightarrow> last (0 # us) \<noteq> 0" using mem [of "last us" p] pP(1) by (simp add: K)
      then show ?thesis using True familyD(1) [OF fam pP(1)] d
        by (cases us) (auto simp: R(1) K remove1_append)
    qed (use familyD(1) [OF fam qP] in \<open>simp add: R(1)\<close>)
    show "distinct ((K(p := remove1 x (K p))) q)" using familyD(3) [OF fam] qP pP by (simp add: distinct_remove1)
    show "y \<in> set ((K(p := remove1 x (K p))) q) \<longleftrightarrow> y \<in> P - {x} \<and> y \<noteq> r \<and> p_parent (?m y) = q" for y
      using familyD(4) [OF fam qP] familyD(3) [OF fam pP(1)] x p by (auto simp: R(4))
    show "sibs ?m 0 ((K(p := remove1 x (K p))) q) 0"
    proof (cases "q = p")
      case False
      have "y \<notin> set (K p)" if "y \<in> set (K q)" for y
        using familyD(4) [OF fam qP, of y] familyD(4) [OF fam pP(1), of y] that False by auto
      then have "\<not> (y = last (0 # us) \<and> y \<noteq> 0)" "\<not> (y = hd (vs @ [0]) \<and> y \<noteq> 0)" if "y \<in> set (K q)" for y
        using that sib_in [of y] by blast+
      then have "sibs ?m 0 (K q) 0 = sibs ?n 0 (K q) 0"
        by (intro sibs_cong) (simp only: R(2,3) if_False)
      then show ?thesis using familyD(2) [OF fam qP] False by simp
    next
      case True
      have S: "sibs ?n 0 us x" "sibs ?n x vs 0" using s by (simp_all add: sibs_append)
      have u0: "0 \<notin> set us" "0 \<notin> set vs" using mem [of 0 p] pP(1) by (auto simp: K)
      have "sibs ?m 0 us (hd (vs @ [0]))"
      proof (cases us rule: rev_cases)
        case (snoc ws w)
        have "sibs ?n 0 ws w" "p_yptr (?n w) = last (0 # ws)" using S(1) by (simp_all add: snoc sibs_append)
        moreover have "sibs ?m 0 ws w = sibs ?n 0 ws w"
          by (rule sibs_cong) (use d o_mem u0 snoc in \<open>auto simp: R(2,3)\<close>)
        moreover have "p_yptr (?m w) = p_yptr (?n w)" using d o_mem u0 by (auto simp: R(2) snoc)
        moreover have "p_optr (?m w) = hd (vs @ [0])" using u0 by (simp add: R(3) snoc)
        ultimately show ?thesis by (simp add: snoc sibs_append)
      qed simp
      moreover have "sibs ?m (last (0 # us)) vs 0"
      proof (cases vs)
        case (Cons v ws)
        have "sibs ?n v ws 0" "p_optr (?n v) = hd (ws @ [0])" using S(2) by (simp_all add: Cons)
        moreover have "sibs ?m v ws 0 = sibs ?n v ws 0"
          by (rule sibs_cong) (use d y_mem u0 Cons in \<open>auto simp: R(2,3)\<close>)
        moreover have "p_optr (?m v) = p_optr (?n v)" using d y_mem u0 by (auto simp: R(3) Cons)
        moreover have "p_yptr (?m v) = last (0 # us)" using u0 by (simp add: R(2) Cons)
        ultimately show ?thesis by (simp add: Cons)
      qed simp
      ultimately show ?thesis using True d by (simp add: K remove1_append sibs_append)
    qed
  next
    fix y assume y: "y \<in> P - {x}" "y \<noteq> r"
    have "p_parent (?n y) \<noteq> x" using familyD(4) [OF fam x(1), of y] x(3) y by auto
    then show "p_parent (?m y) \<in> P - {x} \<and> p_parent (?m y) \<noteq> y"
      using fam y by (auto simp: family_def R(4))
  qed
qed

section \<open>Handing children over\<close>

text \<open>
  While a process hands its children over, its first child has a stale younger sibling: the
  family is right but for this pointer.
\<close>

definition family_but :: "addr \<Rightarrow> (addr \<Rightarrow> pnode) \<Rightarrow> addr set \<Rightarrow> addr \<Rightarrow> (addr \<Rightarrow> addr list) \<Rightarrow> bool" where
  "family_but d n P r K \<longleftrightarrow> 0 \<notin> P \<and> r \<in> P \<and>
     (\<forall>p\<in>P. p_cptr (n p) = hd (K p @ [0]) \<and> (\<exists>y. sibs n y (K p) 0 \<and> (p \<noteq> d \<longrightarrow> y = 0)) \<and> distinct (K p) \<and>
        (\<forall>x. x \<in> set (K p) \<longleftrightarrow> x \<in> P \<and> x \<noteq> r \<and> p_parent (n x) = p)) \<and>
     (\<forall>x\<in>P - {r}. p_parent (n x) \<in> P \<and> p_parent (n x) \<noteq> x)"

lemma family_but_of: "family n P r K \<Longrightarrow> family_but d n P r K"
  by (auto simp: family_def family_but_def)

lemma family_of_but: "family_but d n P r K \<Longrightarrow> K d = [] \<Longrightarrow> family n P r K"
  unfolding family_def family_but_def by (metis sibs.simps(1))

lemma family_butD:
  assumes "family_but d n P r K" and "p \<in> P"
  shows "p_cptr (n p) = hd (K p @ [0])" and "p \<noteq> d \<Longrightarrow> sibs n 0 (K p) 0" and "\<exists>y. sibs n y (K p) 0"
    and "distinct (K p)" and "x \<in> set (K p) \<longleftrightarrow> x \<in> P \<and> x \<noteq> r \<and> p_parent (n x) = p" and "0 \<notin> P" and "p \<noteq> 0"
  using assms by (auto simp: family_but_def)

text \<open>One field at a time, so that terms stay small.\<close>

lemma upd_fields:
  "p_cptr (pnodes (upd_pnode p (p_cptr_update (\<lambda>_. v)) t) q) = (if q = p then v else p_cptr (pnodes t q))"
  "p_cptr (pnodes (upd_pnode p (p_yptr_update (\<lambda>_. v)) t) q) = p_cptr (pnodes t q)"
  "p_cptr (pnodes (upd_pnode p (p_optr_update (\<lambda>_. v)) t) q) = p_cptr (pnodes t q)"
  "p_cptr (pnodes (upd_pnode p (p_parent_update (\<lambda>_. v)) t) q) = p_cptr (pnodes t q)"
  "p_yptr (pnodes (upd_pnode p (p_cptr_update (\<lambda>_. v)) t) q) = p_yptr (pnodes t q)"
  "p_yptr (pnodes (upd_pnode p (p_yptr_update (\<lambda>_. v)) t) q) = (if q = p then v else p_yptr (pnodes t q))"
  "p_yptr (pnodes (upd_pnode p (p_optr_update (\<lambda>_. v)) t) q) = p_yptr (pnodes t q)"
  "p_yptr (pnodes (upd_pnode p (p_parent_update (\<lambda>_. v)) t) q) = p_yptr (pnodes t q)"
  "p_optr (pnodes (upd_pnode p (p_cptr_update (\<lambda>_. v)) t) q) = p_optr (pnodes t q)"
  "p_optr (pnodes (upd_pnode p (p_yptr_update (\<lambda>_. v)) t) q) = p_optr (pnodes t q)"
  "p_optr (pnodes (upd_pnode p (p_optr_update (\<lambda>_. v)) t) q) = (if q = p then v else p_optr (pnodes t q))"
  "p_optr (pnodes (upd_pnode p (p_parent_update (\<lambda>_. v)) t) q) = p_optr (pnodes t q)"
  "p_parent (pnodes (upd_pnode p (p_cptr_update (\<lambda>_. v)) t) q) = p_parent (pnodes t q)"
  "p_parent (pnodes (upd_pnode p (p_yptr_update (\<lambda>_. v)) t) q) = p_parent (pnodes t q)"
  "p_parent (pnodes (upd_pnode p (p_optr_update (\<lambda>_. v)) t) q) = p_parent (pnodes t q)"
  "p_parent (pnodes (upd_pnode p (p_parent_update (\<lambda>_. v)) t) q) = (if q = p then v else p_parent (pnodes t q))"
  "p_pid (pnodes (upd_pnode p (p_cptr_update (\<lambda>_. v)) t) q) = p_pid (pnodes t q)"
  "p_pid (pnodes (upd_pnode p (p_yptr_update (\<lambda>_. v)) t) q) = p_pid (pnodes t q)"
  "p_pid (pnodes (upd_pnode p (p_optr_update (\<lambda>_. v)) t) q) = p_pid (pnodes t q)"
  "p_pid (pnodes (upd_pnode p (p_parent_update (\<lambda>_. v)) t) q) = p_pid (pnodes t q)"
  by simp_all

lemma adopt_simps [simp]:
  "proc_list (adopt_child i p t) = proc_list t" "phash (adopt_child i p t) = phash t"
  "nr_process (adopt_child i p t) = nr_process t" "next_safe (adopt_child i p t) = next_safe t"
  "last_pid (adopt_child i p t) = last_pid t" "p_pid (pnodes (adopt_child i p t) q) = p_pid (pnodes t q)"
  by (simp_all add: adopt_child_def Let_def upd_fields del: upd_pnode_simps(1))

lemma adopt_nodes:
  assumes "p_cptr (pnodes t p) = c" and "i \<noteq> p" and "p_cptr (pnodes t i) \<noteq> c" and "c \<noteq> p" and "c \<noteq> i"
  shows "p_cptr (pnodes (adopt_child i p t) q) =
      (if q = i then c else if q = p then p_optr (pnodes t c) else p_cptr (pnodes t q))"
    and "p_yptr (pnodes (adopt_child i p t) q) =
      (if q = c then 0 else if q = p_cptr (pnodes t i) \<and> q \<noteq> 0 then c else p_yptr (pnodes t q))"
    and "p_optr (pnodes (adopt_child i p t) q) = (if q = c then p_cptr (pnodes t i) else p_optr (pnodes t q))"
    and "p_parent (pnodes (adopt_child i p t) q) = (if q = c then i else p_parent (pnodes t q))"
  using assms
  by (cases "p_cptr (pnodes t i) = 0"; simp add: adopt_child_def Let_def upd_fields del: upd_pnode_simps(1))+

lemma family_adopt:
  assumes fam: "family_but p (pnodes t) P r K" and p: "p \<in> P" "K p = c # cs" and i: "i \<in> P" "i \<noteq> p" "i \<noteq> c"
  shows "family_but p (pnodes (adopt_child i p t)) P r (K(p := cs, i := c # K i))"
proof -
  let ?n = "pnodes t" and ?m = "pnodes (adopt_child i p t)" and ?K = "K(p := cs, i := c # K i)"
  have cp: "p_cptr (?n p) = c" using family_butD(1) [OF fam p(1)] by (simp add: p(2))
  have c: "c \<in> P" "c \<noteq> r" "p_parent (?n c) = p" using family_butD(5) [OF fam p(1), of c] by (simp_all add: p(2))
  have c0: "c \<noteq> 0" using family_butD(7) [OF fam c(1)] .
  have ci: "c \<notin> set (K i)" using family_butD(5) [OF fam i(1), of c] c(3) i(2) by simp
  have im: "p_cptr (?n i) = hd (K i @ [0])" by (rule family_butD(1) [OF fam i(1)])
  have nc: "p_cptr (?n i) \<noteq> c" using ci c0 unfolding im by (cases "K i") auto
  have "p_parent (?n c) \<noteq> c" using c(1,2) fam by (simp add: family_but_def)
  then have "c \<noteq> p" using c(3) by simp
  note A = adopt_nodes [OF cp i(2) nc this i(3) [symmetric], unfolded im]
  obtain y where y: "sibs ?n y (c # cs) 0" using family_butD(3) [OF fam p(1)] unfolding p(2) by blast
  have co: "p_optr (?n c) = hd (cs @ [0])" using y by simp
  have dc: "c \<notin> set cs" "distinct cs" using family_butD(4) [OF fam p(1)] by (simp_all add: p(2))
  have disj: "x \<notin> set (K q')" if "x \<in> set (K q)" "q \<in> P" "q' \<in> P" "q \<noteq> q'" for x q q'
    using family_butD(5) [OF fam that(2), of x] family_butD(5) [OF fam that(3), of x] that by auto
  have hdm: "\<not> (x = hd (K i @ [0]) \<and> x \<noteq> 0)" if "x \<notin> set (K i)" for x using that by (cases "K i") auto
  have keep: "sibs ?m z xs 0 = sibs ?n z xs 0" if "c \<notin> set xs" "\<And>x. x \<in> set xs \<Longrightarrow> x \<notin> set (K i)" for z xs
  proof (rule sibs_cong)
    fix x assume x: "x \<in> set xs"
    then have "x \<noteq> c" "\<not> (x = hd (K i @ [0]) \<and> x \<noteq> 0)" using that hdm by auto
    then show "p_yptr (?m x) = p_yptr (?n x) \<and> p_optr (?m x) = p_optr (?n x)"
      by (simp only: A if_False simp_thms)
  qed
  have "p_cptr (?m q) = hd (?K q @ [0])" if q: "q \<in> P" for q
    using family_butD(1) [OF fam q] i(2) by (simp add: A co)
  moreover have "\<exists>y. sibs ?m y (?K q) 0 \<and> (q \<noteq> p \<longrightarrow> y = 0)" if q: "q \<in> P" for q
  proof -
    consider "q = p" | "q = i" | "q \<noteq> p" "q \<noteq> i" by blast
    then show ?thesis
    proof cases
      case 1
      have "sibs ?m c cs 0 = sibs ?n c cs 0"
        by (rule keep) (use dc disj [of _ p i] p i in auto)
      then show ?thesis using 1 y i(2) by auto
    next
      case 2
      have s: "sibs ?n 0 (K i) 0" by (rule family_butD(2) [OF fam i(1,2)])
      have "sibs ?m c (K i) 0"
      proof (cases "K i")
        case (Cons z zs)
        have z: "z \<noteq> c" "z \<noteq> 0" "c \<notin> set zs" "z \<notin> set zs"
          using ci family_butD(4) [OF fam i(1)] family_butD(5) [OF fam i(1), of z] family_butD(7) [OF fam, of z]
          by (simp_all add: Cons)
        have "sibs ?m z zs 0 = sibs ?n z zs 0"
          by (rule sibs_cong) (use z in \<open>auto simp: A Cons\<close>)
        then show ?thesis using s z by (simp add: Cons A)
      qed simp
      then have "sibs ?m 0 (c # K i) 0" by (simp add: A)
      then show ?thesis using 2 by auto
    next
      case 3
      have "sibs ?m 0 (K q) 0 = sibs ?n 0 (K q) 0"
        by (rule keep) (use disj [of _ q p] disj [of _ q i] 3 q p i in auto)
      then show ?thesis using 3 family_butD(2) [OF fam q] by auto
    qed
  qed
  moreover have "distinct (?K q)" if q: "q \<in> P" for q
    using family_butD(4) [OF fam q] family_butD(4) [OF fam i(1)] dc(2) ci by auto
  moreover have "x \<in> set (?K q) \<longleftrightarrow> x \<in> P \<and> x \<noteq> r \<and> p_parent (?m x) = q" if q: "q \<in> P" for q x
  proof (cases "x = c")
    case True
    then show ?thesis using c dc i q disj [of c p q] p by (auto simp: A(4))
  next
    case False
    then show ?thesis using family_butD(5) [OF fam q, of x] p(2) by (auto simp: A(4))
  qed
  moreover have "p_parent (?m x) \<in> P \<and> p_parent (?m x) \<noteq> x" if "x \<in> P - {r}" for x
    using fam that i by (auto simp: A(4) family_but_def)
  moreover have "0 \<notin> P" "r \<in> P" using fam by (simp_all add: family_but_def)
  ultimately show ?thesis unfolding family_but_def by simp
qed

end
