(* ===== verification/Console.thy ===== *)
theory Console
  imports Prelude
begin

text \<open>
  The console driver (\<^verbatim>\<open>kern/driver/console.c\<close>). The firmware's \<^verbatim>\<open>sbi_console_getchar\<close> takes the
  next of the characters that have arrived, \<open>- 1\<close> when there is none; \<^verbatim>\<open>sbi_console_putchar\<close>
  appends to what was put. Interrupts are off in every function.
\<close>

definition CONSBUFSIZE :: nat where [layout]: "CONSBUFSIZE = 512"

record cons =
  cons_buf :: "u8 list"
  cons_rpos :: u32
  cons_wpos :: u32

definition sbi_console_getchar :: "int list \<Rightarrow> int \<times> int list" where
  "sbi_console_getchar inp = (case inp of [] \<Rightarrow> (- 1, []) | c # cs \<Rightarrow> (c, cs))"

definition serial_proc_data :: "int list \<Rightarrow> int \<times> int list" where
  "serial_proc_data inp =
     (let (c, inp) = sbi_console_getchar inp in
      (if c < 0 then - 1 else if c = 127 then 8 else c, inp))"

text \<open>One character into the ring.\<close>

definition cons_put :: "int \<Rightarrow> cons \<Rightarrow> cons" where
  "cons_put c s =
     (let s = s\<lparr>cons_buf := (cons_buf s)[unat (cons_wpos s) := word_of_int c], cons_wpos := cons_wpos s + 1\<rparr>
      in if cons_wpos s = of_nat CONSBUFSIZE then s\<lparr>cons_wpos := 0\<rparr> else s)"

lemma serial_proc_data_shorter:
  "serial_proc_data inp = (c, inp') \<Longrightarrow> c \<noteq> - 1 \<Longrightarrow> length inp' < length inp"
  by (auto simp: serial_proc_data_def sbi_console_getchar_def split: list.splits)

function cons_intr :: "int list \<Rightarrow> cons \<Rightarrow> int list \<times> cons" where
  "cons_intr inp s =
     (case serial_proc_data inp of (c, inp') \<Rightarrow>
        if c = - 1 then (inp', s) else cons_intr inp' (if c \<noteq> 0 then cons_put c s else s))"
  by pat_completeness auto
termination
  by (relation "measure (\<lambda>(inp, s). length inp)") (auto intro: serial_proc_data_shorter [OF sym])

declare cons_intr.simps [simp del]

definition serial_intr :: "int list \<Rightarrow> cons \<Rightarrow> int list \<times> cons" where
  "serial_intr inp s = cons_intr inp s"

definition serial_putc :: "int \<Rightarrow> int list" where
  "serial_putc c = (if c \<noteq> 8 then [c] else [8, 32, 8])"

definition cons_putc :: "int \<Rightarrow> int list \<Rightarrow> int list" where
  "cons_putc c out = out @ serial_putc c"

definition cons_getc :: "int list \<Rightarrow> cons \<Rightarrow> int \<times> int list \<times> cons" where
  "cons_getc inp s =
     (let (inp, s) = serial_intr inp s in
      if cons_rpos s \<noteq> cons_wpos s then
        (let c = uint (cons_buf s ! unat (cons_rpos s));
             s = s\<lparr>cons_rpos := cons_rpos s + 1\<rparr>;
             s = (if cons_rpos s = of_nat CONSBUFSIZE then s\<lparr>cons_rpos := 0\<rparr> else s)
         in (c, inp, s))
      else (0, inp, s))"

section \<open>The ring is a queue while it does not run over\<close>

definition cons_ok :: "cons \<Rightarrow> bool" where
  "cons_ok s \<longleftrightarrow> length (cons_buf s) = CONSBUFSIZE \<and> unat (cons_rpos s) < CONSBUFSIZE \<and> unat (cons_wpos s) < CONSBUFSIZE"

definition waiting :: "cons \<Rightarrow> nat" where
  "waiting s = (unat (cons_wpos s) + CONSBUFSIZE - unat (cons_rpos s)) mod CONSBUFSIZE"

definition cons_queue :: "cons \<Rightarrow> u8 list" where
  "cons_queue s = map (\<lambda>i. cons_buf s ! ((unat (cons_rpos s) + i) mod CONSBUFSIZE)) [0..<waiting s]"

text \<open>What the firmware's characters become: up to the first negative one, without NULs.\<close>

definition typed :: "int list \<Rightarrow> u8 list" where
  "typed inp = map (\<lambda>c. if c = 127 then 8 else word_of_int c) (filter ((\<noteq>) 0) (takeWhile ((\<le>) 0) inp))"

lemma unat_numeral_512: "unat (512 :: u32) = 512"
  by simp

lemma cons_next:
  assumes "unat (p :: u32) < 512"
  shows "unat (if p + 1 = 512 then 0 else p + 1) = (unat p + 1) mod 512"
proof -
  have u: "unat (p + 1) = unat p + 1"
    using assms by (simp add: unat_word_ariths)
  have "p + 1 = 512 \<longleftrightarrow> unat (p + 1) = 512"
    by (metis unat_numeral_512 word_unat_eq_iff)
  then show ?thesis using assms u by (cases "unat p = 511") auto
qed

lemma cons_put_fields:
  assumes "cons_ok s"
  shows "cons_ok (cons_put c s)"
    and "unat (cons_wpos (cons_put c s)) = (unat (cons_wpos s) + 1) mod CONSBUFSIZE"
    and "cons_rpos (cons_put c s) = cons_rpos s"
    and "cons_buf (cons_put c s) = (cons_buf s)[unat (cons_wpos s) := word_of_int c]"
proof -
  let ?w = "cons_wpos s"
  have w: "unat ?w < 512" using assms by (simp add: cons_ok_def layout)
  have f: "cons_wpos (cons_put c s) = (if ?w + 1 = 512 then 0 else ?w + 1)"
    by (simp add: cons_put_def Let_def layout)
  show n: "unat (cons_wpos (cons_put c s)) = (unat ?w + 1) mod CONSBUFSIZE"
    unfolding f cons_next [OF w] by (simp add: layout)
  show g: "cons_rpos (cons_put c s) = cons_rpos s"
    and b: "cons_buf (cons_put c s) = (cons_buf s)[unat ?w := word_of_int c]"
    by (simp_all add: cons_put_def Let_def)
  show "cons_ok (cons_put c s)" using assms n g b by (simp add: cons_ok_def layout)
qed

lemma ring_numbers:
  assumes "(r :: nat) < 512" and "w < 512"
  defines "n \<equiv> (w + 512 - r) mod 512"
  shows "n < 512" and "(r + n) mod 512 = w"
    and "((w + 1) mod 512 + 512 - r) mod 512 = (n + 1) mod 512"
    and "((r + 1) mod 512 + n) mod 512 = (w + 1) mod 512"
proof -
  have n: "n = (if r \<le> w then w - r else w + 512 - r)"
    using assms(1,2) unfolding n_def by (auto simp: mod_if)
  show "n < 512" using assms(1,2) n by (auto split: if_splits)
  show "(r + n) mod 512 = w" using assms(1,2) n by (auto simp: mod_if)
  show "((w + 1) mod 512 + 512 - r) mod 512 = (n + 1) mod 512"
    using assms(1,2) n by (cases "w = 511") (auto simp: mod_if)
  show "((r + 1) mod 512 + n) mod 512 = (w + 1) mod 512"
    using assms(1,2) n by (cases "r = 511") (auto simp: mod_if)
qed

lemma ring_step:
  assumes "(r :: nat) < 512" and "w < 512" and "(w + 512 - r) mod 512 = Suc k"
  shows "(w + 512 - (r + 1) mod 512) mod 512 = k"
  using assms by (cases "r = 511") (auto simp: mod_if split: if_splits)

lemma ring_empty:
  assumes "(r :: nat) < 512" and "w < 512"
  shows "(w + 512 - r) mod 512 = 0 \<longleftrightarrow> r = w"
  using assms by (auto simp: mod_if split: if_splits)

lemma ring_slot:
  assumes "(r :: nat) < 512" and "i < n" and "n < 512"
  shows "(r + i) mod 512 \<noteq> (r + n) mod 512"
proof -
  have "(r + n) mod 512 = (if r + n < 512 then r + n else r + n - 512)"
    and "(r + i) mod 512 = (if r + i < 512 then r + i else r + i - 512)"
    using assms by (auto simp: mod_if)
  with assms show ?thesis by (auto split: if_splits)
qed

lemma waiting_put:
  assumes "cons_ok s"
  shows "waiting (cons_put c s) = (waiting s + 1) mod CONSBUFSIZE"
  using ring_numbers(3) [of "unat (cons_rpos s)" "unat (cons_wpos s)"] assms
  by (simp add: waiting_def cons_put_fields [OF assms] cons_ok_def layout)

lemma cons_put_queue:
  assumes "cons_ok s" and "waiting s + 1 < CONSBUFSIZE"
  shows "cons_queue (cons_put c s) = cons_queue s @ [word_of_int c]"
proof -
  let ?r = "unat (cons_rpos s)"
  let ?w = "unat (cons_wpos s)"
  have rw: "?r < 512" "?w < 512" and l: "length (cons_buf s) = 512" using assms(1) by (simp_all add: cons_ok_def layout)
  have at: "(?r + waiting s) mod 512 = ?w" using ring_numbers(2) [OF rw] by (simp add: waiting_def layout)
  have "waiting (cons_put c s) = waiting s + 1"
    using waiting_put [OF assms(1)] assms(2) by (simp add: layout)
  moreover have "(cons_buf s)[?w := word_of_int c] ! ((?r + i) mod 512) = cons_buf s ! ((?r + i) mod 512)"
    if "i < waiting s" for i
    using ring_slot [OF rw(1) that] assms(2) at by (simp add: layout)
  ultimately show ?thesis
    using at l by (simp add: cons_queue_def cons_put_fields [OF assms(1)] layout)
qed

text \<open>The character that fills the ring empties it: all 512 are lost.\<close>

lemma cons_put_overrun:
  assumes "cons_ok s" and "waiting s + 1 = CONSBUFSIZE"
  shows "cons_queue (cons_put c s) = []"
  using waiting_put [OF assms(1)] assms(2) by (simp add: cons_queue_def)

lemma cons_intr_queue:
  "cons_ok s \<Longrightarrow> waiting s + length (typed inp) < CONSBUFSIZE \<Longrightarrow>
    cons_ok (snd (cons_intr inp s)) \<and> cons_queue (snd (cons_intr inp s)) = cons_queue s @ typed inp"
proof (induction inp s rule: cons_intr.induct)
  case (1 inp s)
  show ?case
  proof (cases inp)
    case Nil
    then show ?thesis using 1 by (simp add: cons_intr.simps serial_proc_data_def sbi_console_getchar_def typed_def)
  next
    case (Cons c cs)
    let ?c = "if c = 127 then 8 else c"
    show ?thesis
    proof (cases "c < 0")
      case True
      then show ?thesis using 1 Cons
        by (simp add: cons_intr.simps serial_proc_data_def sbi_console_getchar_def typed_def)
    next
      case False
      let ?s = "if ?c \<noteq> 0 then cons_put ?c s else s"
      have d: "serial_proc_data inp = (?c, cs)" "?c \<noteq> - 1"
        using False Cons by (auto simp: serial_proc_data_def sbi_console_getchar_def)
      have t: "typed inp = (if c \<noteq> 0 then [word_of_int ?c] else []) @ typed cs"
        using False Cons by (simp add: typed_def)
      have ok: "cons_ok ?s" using 1(2) by (simp add: cons_put_fields)
      have q: "cons_queue ?s = cons_queue s @ (if c \<noteq> 0 then [word_of_int ?c] else [])"
        using 1(2,3) t by (auto simp: cons_put_queue)
      have w: "waiting ?s + length (typed cs) < CONSBUFSIZE"
        using 1(2,3) t by (auto simp: waiting_put)
      from 1(1) [OF d(1) [symmetric] d(2) ok w] q t d show ?thesis
        by (simp add: cons_intr.simps [of inp])
    qed
  qed
qed

text \<open>
  As long as the ring does not run over, \<^verbatim>\<open>cons_getc\<close> hands out the characters in the order
  in which they arrived, and 0 when there is none.
\<close>

theorem cons_getc_in_order:
  assumes "cons_ok s" and "waiting s + length (typed inp) < CONSBUFSIZE"
  shows "\<exists>c inp' s'. cons_getc inp s = (c, inp', s') \<and> cons_ok s'
    \<and> (case cons_queue s @ typed inp of [] \<Rightarrow> c = 0 \<and> cons_queue s' = []
       | x # xs \<Rightarrow> c = uint x \<and> cons_queue s' = xs)"
proof -
  obtain inp' t where t: "cons_intr inp s = (inp', t)" by force
  with cons_intr_queue [OF assms] have ok: "cons_ok t" and q: "cons_queue t = cons_queue s @ typed inp" by auto
  let ?r = "unat (cons_rpos t)"
  let ?w = "unat (cons_wpos t)"
  have rw: "?r < 512" "?w < 512" using ok by (simp_all add: cons_ok_def layout)
  have e: "cons_rpos t = cons_wpos t \<longleftrightarrow> cons_queue t = []"
  proof -
    have "cons_queue t = [] \<longleftrightarrow> (?w + 512 - ?r) mod 512 = 0" by (auto simp: cons_queue_def waiting_def layout)
    also have "\<dots> \<longleftrightarrow> ?r = ?w" by (rule ring_empty [OF rw])
    finally show ?thesis by (simp add: word_unat_eq_iff)
  qed
  show ?thesis
  proof (cases "cons_queue t")
    case Nil
    then show ?thesis using t ok q e by (simp add: cons_getc_def serial_intr_def)
  next
    case (Cons x xs)
    let ?t = "t\<lparr>cons_rpos := if cons_rpos t + 1 = 512 then 0 else cons_rpos t + 1\<rparr>"
    have n: "unat (cons_rpos ?t) = (?r + 1) mod 512" using cons_next [OF rw(1)] by simp
    obtain k where k: "waiting t = Suc k" using Cons by (cases "waiting t") (auto simp: cons_queue_def)
    have k1: "waiting ?t = k"
    proof -
      have "(?w + 512 - ?r) mod 512 = Suc k" using k by (simp add: waiting_def layout)
      then have "(?w + 512 - (?r + 1) mod 512) mod 512 = k" by (rule ring_step [OF rw])
      then show ?thesis using n by (simp add: waiting_def layout)
    qed
    have ok': "cons_ok ?t" using ok n by (simp add: cons_ok_def layout)
    have m: "(Suc ?r mod 512 + i) mod 512 = Suc (?r + i) mod 512" for i
      by (simp add: mod_add_left_eq)
    have "cons_queue t = cons_buf t ! ?r # cons_queue ?t"
      unfolding cons_queue_def k k1 n
      using rw by (simp add: upt_conv_Cons map_Suc_upt [symmetric] m layout del: upt_Suc)
    with Cons have "x = cons_buf t ! ?r" and "xs = cons_queue ?t" by auto
    moreover have "cons_getc inp s = (uint (cons_buf t ! ?r), inp', ?t)"
      using t e Cons by (simp add: cons_getc_def serial_intr_def Let_def layout)
    moreover have "cons_queue s @ typed inp = x # xs" using q Cons by simp
    ultimately show ?thesis using ok' by (intro exI conjI) simp_all
  qed
qed

theorem cons_getc_in_order_witness:
  "\<exists>c inp' s'. cons_getc [0, 104, 127] \<lparr>cons_buf = replicate 512 0, cons_rpos = 511, cons_wpos = 511\<rparr> = (c, inp', s')
    \<and> c = 104 \<and> cons_queue s' = [8]"
proof -
  let ?s = "\<lparr>cons_buf = replicate 512 (0 :: u8), cons_rpos = 511 :: u32, cons_wpos = 511\<rparr>"
  have "cons_ok ?s" and "waiting ?s + length (typed [0, 104, 127]) < CONSBUFSIZE" and "cons_queue ?s = []"
    by (simp_all add: cons_ok_def waiting_def typed_def cons_queue_def layout)
  from cons_getc_in_order [OF this(1,2)] this(3) show ?thesis by (auto simp: typed_def)
qed

end
