(* ===== verification/ProcLife.thy ===== *)
theory ProcLife
  imports WaitQueue Console FileTable Vmm ProcTree
begin

text \<open>
  The life of a process (\<^verbatim>\<open>kern/process/proc.c\<close>): creation, end and the collection by the
  parent, over the state of the whole kernel: the scheduler, the tables of processes, the
  address spaces, the file system and the tables of open files. A process is one address in
  all of them. A result \<^term>\<open>None\<close> is a panic, or a \<^verbatim>\<open>down\<close> that would block.
\<close>

section \<open>State\<close>

definition E_NO_FREE_PROC :: int where [layout]: "E_NO_FREE_PROC = 5"
definition E_KILLED :: int where [layout]: "E_KILLED = 9"
definition CLONE_VM :: u32 where [layout]: "CLONE_VM = 0x100"
definition CLONE_FS :: u32 where [layout]: "CLONE_FS = 0x800"
definition PROC_NAME_LEN :: nat where [layout]: "PROC_NAME_LEN = 15"
definition KSTACKPAGE :: nat where [layout]: "KSTACKPAGE = 2"
definition KSTACKSIZE :: u64 where [layout]: "KSTACKSIZE = 8192"
definition SSTATUS_SIE :: u64 where [layout]: "SSTATUS_SIE = 0x2"
definition SSTATUS_SPIE :: u64 where [layout]: "SSTATUS_SPIE = 0x20"
definition SSTATUS_SPP :: u64 where [layout]: "SSTATUS_SPP = 0x100"

text \<open>The registers of \<^verbatim>\<open>struct pushregs\<close> by number: \<^verbatim>\<open>sp\<close> is 2, \<^verbatim>\<open>s0\<close> 8, \<^verbatim>\<open>s1\<close> 9, \<^verbatim>\<open>a0\<close> 10.\<close>

record trapframe =
  gpr :: "nat \<Rightarrow> u64"
  tf_status :: u64
  tf_epc :: u64
  tf_tval :: u64
  tf_cause :: u64

record ctxt =
  ctx_ra :: u64
  ctx_sp :: u64
  ctx_s :: "nat \<Rightarrow> u64"

text \<open>The fields of \<^verbatim>\<open>struct proc_struct\<close> that neither the scheduler nor the tables use.\<close>

record pspace =
  q_kstack :: u64
  q_mm :: addr
  q_context :: ctxt
  q_tf :: u64
  q_pgdir :: u64
  q_name :: "u8 list"
  q_filesp :: addr

text \<open>
  Addresses fixed by the linker and the boot code. In the state of the kernel, the memory of \<open>k_fs\<close>
  is that of the kernel and, at user addresses, what the current process sees; larger local
  variables of a function lie at \<open>k_locals\<close>, on the kernel stack. Characters that the firmware
  holds ready are \<open>k_input\<close>; \<open>k_waits\<close> and \<open>k_wlinks\<close> are the entries of wait queues and their
  links, \<open>k_stdin_queue\<close> the queue of the readers of the keyboard.
\<close>

record symbols =
  boot_pgdir_va :: u64
  boot_pgdir_pa :: u64
  bootstack :: u64
  kernel_thread_entry :: u64
  forkret :: u64
  init_main :: u64

record kernel =
  k_sched :: sched_state
  k_tree :: ptable
  k_vm :: vm
  k_fs :: kfs
  k_ftabs :: "addr \<Rightarrow> files_struct"
  k_px :: "addr \<Rightarrow> pspace"
  k_tfs :: "u64 \<Rightarrow> trapframe"
  k_satp :: u64
  k_sstatus :: u64
  k_timers :: timer_state
  k_ticks :: u64
  k_locals :: addr
  k_sym :: symbols
  k_cons :: cons
  k_input :: "int list"
  k_waits :: "addr \<Rightarrow> wait_t"
  k_wlinks :: links
  k_stdin_queue :: addr
  initproc :: addr

definition upd_px :: "addr \<Rightarrow> (pspace \<Rightarrow> pspace) \<Rightarrow> kernel \<Rightarrow> kernel" where
  "upd_px p f k = k\<lparr>k_px := (k_px k)(p := f (k_px k p))\<rparr>"

definition cur_px :: "kernel \<Rightarrow> pspace" where
  "cur_px k = k_px k (current (k_sched k))"

definition with_sched :: "(sched_state \<Rightarrow> sched_state option) \<Rightarrow> kernel \<Rightarrow> kernel option" where
  "with_sched f k = do { s \<leftarrow> f (k_sched k); Some (k\<lparr>k_sched := s\<rparr>) }"

definition with_vm :: "(vm \<Rightarrow> vm option) \<Rightarrow> kernel \<Rightarrow> kernel option" where
  "with_vm f k = do { v \<leftarrow> f (k_vm k); Some (k\<lparr>k_vm := v\<rparr>) }"

text \<open>
  \<^verbatim>\<open>schedule\<close> over the whole kernel: \<^verbatim>\<open>proc_run\<close> loads the page directory of the process it
  switches to.
\<close>

definition k_schedule :: "sched_class \<Rightarrow> kernel \<Rightarrow> kernel option" where
  "k_schedule cls k = do {
     k' \<leftarrow> with_sched (schedule cls) k;
     Some (if current (k_sched k') \<noteq> current (k_sched k) then k'\<lparr>k_satp := q_pgdir (cur_px k')\<rparr> else k')
   }"

definition set_state :: "addr \<Rightarrow> proc_state \<Rightarrow> kernel \<Rightarrow> kernel" where
  "set_state p st k = k\<lparr>k_sched := upd_proc p (\<lambda>q. q\<lparr>state := st\<rparr>) (k_sched k)\<rparr>"

text \<open>A number is kept in both views of the process.\<close>

definition set_pid :: "addr \<Rightarrow> int \<Rightarrow> kernel \<Rightarrow> kernel" where
  "set_pid p n k =
     k\<lparr>k_sched := upd_proc p (\<lambda>q. q\<lparr>pid := n\<rparr>) (k_sched k), k_tree := upd_pnode p (\<lambda>q. q\<lparr>p_pid := n\<rparr>) (k_tree k)\<rparr>"

section \<open>Creation\<close>

text \<open>\<^verbatim>\<open>alloc_proc\<close> leaves \<^verbatim>\<open>exit_code\<close> and the last byte of the name as they are.\<close>

definition alloc_proc :: "kernel \<Rightarrow> addr \<times> kernel" where
  "alloc_proc k =
     (let (p, v) = vm_kmalloc (k_vm k); k = k\<lparr>k_vm := v\<rparr> in
      if p = 0 then (0, k)
      else
        (let s = k_sched k; old = procs s p;
             s = s\<lparr>procs := (procs s)(p := alloc_proc_fields\<lparr>exit_code := exit_code old, sjf_expected := sjf_expected old\<rparr>),
                   run_links := list_init p (run_links s), run_pool := skew_heap_init p (run_pool s)\<rparr>;
             t = upd_pnode p (\<lambda>_. \<lparr>p_pid = - 1, p_parent = 0, p_cptr = 0, p_yptr = 0, p_optr = 0\<rparr>) (k_tree k);
             k = k\<lparr>k_sched := s, k_tree := t\<rparr>
         in (p, upd_px p (\<lambda>x. \<lparr>q_kstack = 0, q_mm = 0, q_context = \<lparr>ctx_ra = 0, ctx_sp = 0, ctx_s = (\<lambda>_. 0)\<rparr>,
                   q_tf = 0, q_pgdir = boot_pgdir_pa (k_sym k),
                   q_name = replicate PROC_NAME_LEN 0 @ drop PROC_NAME_LEN (q_name x), q_filesp = 0\<rparr>) k)))"

definition set_proc_name :: "addr \<Rightarrow> addr \<Rightarrow> kernel \<Rightarrow> kernel" where
  "set_proc_name p name k = upd_px p (\<lambda>x. x\<lparr>q_name := bytes_at (kmem (k_fs k)) name PROC_NAME_LEN @ [0]\<rparr>) k"

definition get_proc_name :: "addr \<Rightarrow> kernel \<Rightarrow> u8 list" where
  "get_proc_name p k = take PROC_NAME_LEN (q_name (k_px k p)) @ [0]"

definition setup_kstack :: "addr \<Rightarrow> kernel \<Rightarrow> (int \<times> kernel) option" where
  "setup_kstack p k = do {
     (pg, ph) \<leftarrow> alloc_pages KSTACKPAGE (phys (k_vm k));
     let k = k\<lparr>k_vm := (k_vm k)\<lparr>phys := ph\<rparr>\<rparr>;
     case pg of None \<Rightarrow> Some (- E_NO_MEM, k)
     | Some page \<Rightarrow> do {
         kva \<leftarrow> page2kva page ph;
         Some (0, upd_px p (\<lambda>x. x\<lparr>q_kstack := kva\<rparr>) k)
       }
   }"

definition put_kstack :: "addr \<Rightarrow> kernel \<Rightarrow> kernel option" where
  "put_kstack p k = do {
     page \<leftarrow> kva2page (q_kstack (k_px k p)) (phys (k_vm k));
     ph \<leftarrow> free_run page KSTACKPAGE (phys (k_vm k));
     Some (k\<lparr>k_vm := (k_vm k)\<lparr>phys := ph\<rparr>\<rparr>)
   }"

definition setup_pgdir :: "u64 \<Rightarrow> addr \<Rightarrow> vm \<Rightarrow> (int \<times> vm) option" where
  "setup_pgdir boot mm s = do {
     (pg, ph) \<leftarrow> alloc_pages 1 (phys s);
     let s = s\<lparr>phys := ph\<rparr>;
     case pg of None \<Rightarrow> Some (- E_NO_MEM, s)
     | Some page \<Rightarrow> do {
         kva \<leftarrow> page2kva page ph;
         let s = s\<lparr>phys := copy_page kva boot ph\<rparr>;
         Some (0, upd_mm mm (\<lambda>m. m\<lparr>pgdir := kva\<rparr>) s)
       }
   }"

definition put_pgdir :: "addr \<Rightarrow> vm \<Rightarrow> vm option" where
  "put_pgdir mm s = do {
     page \<leftarrow> kva2page (pgdir (mms s mm)) (phys s);
     ph \<leftarrow> free_page page (phys s);
     Some (s\<lparr>phys := ph\<rparr>)
   }"

text \<open>The label \<^verbatim>\<open>good_mm\<close> of \<^verbatim>\<open>copy_mm\<close>.\<close>

definition install_mm :: "addr \<Rightarrow> addr \<Rightarrow> kernel \<Rightarrow> (int \<times> kernel) option" where
  "install_mm mm p k = do {
     let k = k\<lparr>k_vm := snd (mm_count_inc mm (k_vm k))\<rparr>;
     pa \<leftarrow> PADDR (pgdir (mms (k_vm k) mm));
     Some (0, upd_px p (\<lambda>x. x\<lparr>q_mm := mm, q_pgdir := pa\<rparr>) k)
   }"

definition copy_mm :: "u32 \<Rightarrow> addr \<Rightarrow> kernel \<Rightarrow> (int \<times> kernel) option" where
  "copy_mm fl p k =
     (let oldmm = q_mm (cur_px k) in
      if oldmm = 0 then Some (0, k)
      else if fl AND CLONE_VM \<noteq> 0 then install_mm oldmm p k
      else
        (let (mm, v) = mm_create (k_vm k) in
         if mm = 0 then Some (- E_NO_MEM, k\<lparr>k_vm := v\<rparr>)
         else do {
           (ret, v) \<leftarrow> setup_pgdir (boot_pgdir_va (k_sym k)) mm v;
           if ret \<noteq> 0 then do { v \<leftarrow> mm_destroy mm v; Some (- E_NO_MEM, k\<lparr>k_vm := v\<rparr>) }
           else do {
             v \<leftarrow> lock_mm (pid (procs (k_sched k) (current (k_sched k)))) oldmm v;
             (ret, v) \<leftarrow> dup_mmap mm oldmm v;
             let v = unlock_mm oldmm v;
             if ret \<noteq> 0 then do {
               v \<leftarrow> exit_mmap mm v;
               v \<leftarrow> put_pgdir mm v;
               v \<leftarrow> mm_destroy mm v;
               Some (ret, k\<lparr>k_vm := v\<rparr>)
             }
             else install_mm mm p (k\<lparr>k_vm := v\<rparr>)
           }
         }))"

text \<open>The trap frame lies at the top of the kernel stack; it has 36 words.\<close>

definition copy_thread :: "addr \<Rightarrow> u64 \<Rightarrow> trapframe \<Rightarrow> kernel \<Rightarrow> kernel" where
  "copy_thread p esp frame k =
     (let tf = q_kstack (k_px k p) + KSTACKSIZE - 288;
          k = upd_px p (\<lambda>x. x\<lparr>q_tf := tf\<rparr>) k;
          frame = frame\<lparr>gpr := (gpr frame)(10 := 0, 2 := (if esp = 0 then tf else esp))\<rparr>;
          k = k\<lparr>k_tfs := (k_tfs k)(tf := frame)\<rparr>
      in upd_px p (\<lambda>x. x\<lparr>q_context := (q_context x)\<lparr>ctx_ra := forkret (k_sym k), ctx_sp := tf\<rparr>\<rparr>) k)"

definition files_count_inc :: "files_struct \<Rightarrow> files_struct" where
  "files_count_inc f = f\<lparr>files_count := files_count f + 1\<rparr>"

definition files_count_dec :: "files_struct \<Rightarrow> files_struct" where
  "files_count_dec f = f\<lparr>files_count := files_count f - 1\<rparr>"

definition copy_files :: "u32 \<Rightarrow> addr \<Rightarrow> kernel \<Rightarrow> (int \<times> kernel) option" where
  "copy_files fl p k = do {
     let old = q_filesp (cur_px k);
     ensure (old \<noteq> 0);
     let good = (\<lambda>fp k. upd_px p (\<lambda>x. x\<lparr>q_filesp := fp\<rparr>) (k\<lparr>k_ftabs := (k_ftabs k)(fp := files_count_inc (k_ftabs k fp))\<rparr>));
     if fl AND CLONE_FS \<noteq> 0 then Some (0, good old k)
     else do {
       let fp = fst (kmalloc (k_fs k));
       let (new, f) = files_create (k_fs k);
       case new of None \<Rightarrow> Some (- E_NO_MEM, k\<lparr>k_fs := f\<rparr>)
       | Some tab \<Rightarrow> do {
           (ret, tab, f) \<leftarrow> dup_files tab (k_ftabs k old) f;
           if ret \<noteq> 0 then do { f \<leftarrow> files_destroy tab f; Some (ret, k\<lparr>k_fs := f\<rparr>) }
           else Some (0, good fp (k\<lparr>k_fs := f, k_ftabs := (k_ftabs k)(fp := tab)\<rparr>))
         }
     }
   }"

definition put_files :: "addr \<Rightarrow> kernel \<Rightarrow> kernel option" where
  "put_files p k =
     (let fp = q_filesp (k_px k p) in
      if fp \<noteq> 0 then do {
        let tab = files_count_dec (k_ftabs k fp);
        let k = k\<lparr>k_ftabs := (k_ftabs k)(fp := tab)\<rparr>;
        if files_count tab = 0 then do { f \<leftarrow> files_destroy tab (k_fs k); Some (k\<lparr>k_fs := f\<rparr>) }
        else Some k
      } else Some k)"

text \<open>The part of \<^verbatim>\<open>do_fork\<close> that runs with interrupts off: the child gets its number and its places.\<close>

definition enter_proc :: "sched_class \<Rightarrow> addr \<Rightarrow> kernel \<Rightarrow> kernel option" where
  "enter_proc cls p k = do {
     (n, t) \<leftarrow> get_pid (k_tree k);
     let k = set_pid p n (k\<lparr>k_tree := t\<rparr>);
     let k = k\<lparr>k_tree := set_links p (hash_proc p (k_tree k))\<rparr>;
     with_sched (wakeup_proc cls p) k
   }"

definition do_fork :: "sched_class \<Rightarrow> u32 \<Rightarrow> u64 \<Rightarrow> trapframe \<Rightarrow> kernel \<Rightarrow> (int \<times> kernel) option" where
  "do_fork cls fl stack frame k =
     (if nr_process (k_tree k) \<ge> MAX_PROCESS then Some (- E_NO_FREE_PROC, k)
      else
        (let (p, k) = alloc_proc k in
         if p = 0 then Some (- E_NO_MEM, k)
         else do {
           (r, k) \<leftarrow> setup_kstack p k;
           if r \<noteq> 0 then Some (- E_NO_MEM, k)
           else do {
             let k = k\<lparr>k_tree := upd_pnode p (\<lambda>n. n\<lparr>p_parent := current (k_sched k)\<rparr>) (k_tree k)\<rparr>;
             (r, k) \<leftarrow> copy_mm fl p k;
             if r \<noteq> 0 then do { k \<leftarrow> put_kstack p k; Some (- E_NO_MEM, k) }
             else do {
               (r, k) \<leftarrow> copy_files fl p k;
               if r \<noteq> 0 then do { k \<leftarrow> put_kstack p k; Some (- E_NO_MEM, k) }
               else do {
                 k \<leftarrow> enter_proc cls p (copy_thread p stack frame k);
                 Some (p_pid (pnodes (k_tree k) p), k)
               }
             }
           }
         }))"

definition kernel_thread :: "sched_class \<Rightarrow> u64 \<Rightarrow> u64 \<Rightarrow> u32 \<Rightarrow> kernel \<Rightarrow> (int \<times> kernel) option" where
  "kernel_thread cls fn arg fl k =
     do_fork cls (fl OR CLONE_VM) 0
       \<lparr>gpr = (\<lambda>_. 0)(8 := fn, 9 := arg),
        tf_status = (k_sstatus k OR SSTATUS_SPP OR SSTATUS_SPIE) AND NOT SSTATUS_SIE,
        tf_epc = kernel_thread_entry (k_sym k), tf_tval = 0, tf_cause = 0\<rparr> k"

section \<open>End\<close>

text \<open>Giving up the address space of the current process, in \<^verbatim>\<open>do_exit\<close> and \<^verbatim>\<open>do_execve\<close>.\<close>

definition leave_mm :: "addr \<Rightarrow> kernel \<Rightarrow> kernel option" where
  "leave_mm mm k = do {
     let k = k\<lparr>k_satp := boot_pgdir_pa (k_sym k)\<rparr>;
     let (c, v) = mm_count_dec mm (k_vm k);
     v \<leftarrow> (if c = 0 then do { v \<leftarrow> exit_mmap mm v; v \<leftarrow> put_pgdir mm v; mm_destroy mm v } else Some v);
     Some (upd_px (current (k_sched k)) (\<lambda>x. x\<lparr>q_mm := 0\<rparr>) (k\<lparr>k_vm := v\<rparr>))
   }"

definition wake_waiting :: "sched_class \<Rightarrow> addr \<Rightarrow> kernel \<Rightarrow> kernel option" where
  "wake_waiting cls p k =
     (if wait_state (procs (k_sched k) p) = WT_CHILD then with_sched (wakeup_proc cls p) k else Some k)"

text \<open>The loop of \<^verbatim>\<open>do_exit\<close>: every child goes to \<^verbatim>\<open>initproc\<close>, which is woken when the child is dead.\<close>

partial_function (option) adopt_loop :: "sched_class \<Rightarrow> addr \<Rightarrow> kernel \<Rightarrow> kernel option" where
  "adopt_loop cls p k =
     (let c = p_cptr (pnodes (k_tree k) p) in
      if c = 0 then Some k
      else
        (let k = k\<lparr>k_tree := adopt_child (initproc k) p (k_tree k)\<rparr> in
         Option.bind (if state (procs (k_sched k) c) = PROC_ZOMBIE then wake_waiting cls (initproc k) k else Some k)
           (\<lambda>k. adopt_loop cls p k)))"

definition release_resources :: "kernel \<Rightarrow> kernel option" where
  "release_resources k =
     (let cur = current (k_sched k); mm = q_mm (k_px k cur) in
      if mm \<noteq> 0 then do { k \<leftarrow> leave_mm mm k; put_files cur k } else Some k)"

text \<open>Up to the call of \<^verbatim>\<open>schedule\<close>, and the whole function: it must not come back.\<close>

definition exit_before :: "sched_class \<Rightarrow> int \<Rightarrow> kernel \<Rightarrow> kernel option" where
  "exit_before cls code k = do {
     let cur = current (k_sched k);
     ensure (cur \<noteq> idleproc (k_sched k));
     ensure (cur \<noteq> initproc k);
     k \<leftarrow> release_resources k;
     let k = k\<lparr>k_sched := upd_proc cur (\<lambda>q. q\<lparr>state := PROC_ZOMBIE, exit_code := code\<rparr>) (k_sched k)\<rparr>;
     k \<leftarrow> wake_waiting cls (p_parent (pnodes (k_tree k) cur)) k;
     adopt_loop cls cur k
   }"

definition do_exit :: "sched_class \<Rightarrow> int \<Rightarrow> kernel \<Rightarrow> kernel option" where
  "do_exit cls code k = do {
     k' \<leftarrow> exit_before cls code k;
     k' \<leftarrow> k_schedule cls k';
     ensure (current (k_sched k') \<noteq> current (k_sched k));
     Some k'
   }"

section \<open>Collection\<close>

partial_function (option) find_zombie :: "addr \<Rightarrow> kernel \<Rightarrow> bool \<Rightarrow> (addr \<times> bool) option" where
  "find_zombie c k haskid =
     (if c = 0 then Some (0, haskid)
      else if state (procs (k_sched k) c) = PROC_ZOMBIE then Some (c, True)
      else find_zombie (p_optr (pnodes (k_tree k) c)) k True)"

definition wait_pick :: "int \<Rightarrow> kernel \<Rightarrow> (addr \<times> bool) option" where
  "wait_pick n k =
     (let cur = current (k_sched k) in
      if n \<noteq> 0 then
        (let p = find_proc n (k_tree k) in
         Some (if p \<noteq> 0 \<and> p_parent (pnodes (k_tree k) p) = cur
               then (if state (procs (k_sched k) p) = PROC_ZOMBIE then p else 0, True)
               else (0, False)))
      else find_zombie (p_cptr (pnodes (k_tree k) cur)) k False)"

text \<open>The label \<^verbatim>\<open>found\<close> of \<^verbatim>\<open>do_wait\<close>.\<close>

definition reap :: "addr \<Rightarrow> addr \<Rightarrow> kernel \<Rightarrow> (int \<times> kernel) option" where
  "reap code_store p k = do {
     ensure (p \<noteq> idleproc (k_sched k) \<and> p \<noteq> initproc k);
     let k = (if code_store \<noteq> 0
              then k\<lparr>k_fs := (k_fs k)\<lparr>kmem := store_bytes code_store
                     (le32 (word_of_int (exit_code (procs (k_sched k) p)))) (kmem (k_fs k))\<rparr>\<rparr>
              else k);
     let k = k\<lparr>k_tree := remove_links p (unhash_proc p (k_tree k))\<rparr>;
     k \<leftarrow> put_kstack p k;
     Some (0, k)
   }"

text \<open>
  One round of \<^verbatim>\<open>do_wait\<close>: \<^term>\<open>Inl k\<close> when the process goes to sleep (the state after \<^verbatim>\<open>schedule\<close>),
  \<^term>\<open>Inr (r, k)\<close> when it returns. A process that runs again continues with \<open>wait_resume\<close>.
\<close>

definition wait_round :: "sched_class \<Rightarrow> int \<Rightarrow> addr \<Rightarrow> kernel \<Rightarrow> (kernel + int \<times> kernel) option" where
  "wait_round cls n code_store k = do {
     (p, haskid) \<leftarrow> wait_pick n k;
     if p \<noteq> 0 then do { r \<leftarrow> reap code_store p k; Some (Inr r) }
     else if haskid then do {
       let k = k\<lparr>k_sched := upd_proc (current (k_sched k)) (\<lambda>q. q\<lparr>state := PROC_SLEEPING, wait_state := WT_CHILD\<rparr>) (k_sched k)\<rparr>;
       k \<leftarrow> k_schedule cls k;
       Some (Inl k)
     }
     else Some (Inr (- E_BAD_PROC, k))
   }"

definition wait_resume :: "sched_class \<Rightarrow> int \<Rightarrow> addr \<Rightarrow> kernel \<Rightarrow> (kernel + int \<times> kernel) option" where
  "wait_resume cls n code_store k =
     (if Proc.flags (procs (k_sched k) (current (k_sched k))) AND PF_EXITING \<noteq> 0
      then do { k \<leftarrow> do_exit cls (- E_KILLED) k; Some (Inl k) }
      else wait_round cls n code_store k)"

definition do_wait :: "sched_class \<Rightarrow> int \<Rightarrow> addr \<Rightarrow> kernel \<Rightarrow> (kernel + int \<times> kernel) option" where
  "do_wait cls n code_store k = do {
     (ok, v) \<leftarrow> (if code_store \<noteq> 0 then user_mem_check (q_mm (cur_px k)) (of_nat code_store) 4 True (k_vm k)
                else Some (True, k_vm k));
     let k = k\<lparr>k_vm := v\<rparr>;
     if \<not> ok then Some (Inr (- E_INVAL, k)) else wait_round cls n code_store k
   }"

definition do_kill :: "sched_class \<Rightarrow> int \<Rightarrow> kernel \<Rightarrow> (int \<times> kernel) option" where
  "do_kill cls n k =
     (let p = find_proc n (k_tree k) in
      if p \<noteq> 0 then
        if Proc.flags (procs (k_sched k) p) AND PF_EXITING = 0 then do {
          let k = k\<lparr>k_sched := upd_proc p (\<lambda>q. q\<lparr>flags := flags q OR PF_EXITING\<rparr>) (k_sched k)\<rparr>;
          k \<leftarrow> (if wait_state (procs (k_sched k) p) AND WT_INTERRUPTED \<noteq> 0 then with_sched (wakeup_proc cls p) k else Some k);
          Some (0, k)
        }
        else Some (- E_KILLED, k)
      else Some (- E_INVAL, k))"

section \<open>The first two processes\<close>

definition name_literal :: "u8 list \<Rightarrow> kernel \<Rightarrow> kernel" where
  "name_literal str k = k\<lparr>k_fs := with_literal str (k_fs k)\<rparr>"

definition proc_init :: "sched_class \<Rightarrow> kernel \<Rightarrow> kernel option" where
  "proc_init cls k = do {
     let k = k\<lparr>k_tree := (k_tree k)\<lparr>proc_list := [], phash := (\<lambda>_. [])\<rparr>\<rparr>;
     let (idle, k) = alloc_proc k;
     let k = k\<lparr>k_sched := (k_sched k)\<lparr>idleproc := idle\<rparr>\<rparr>;
     ensure (idle \<noteq> 0);
     let k = set_state idle PROC_RUNNABLE (set_pid idle 0 k);
     let k = upd_px idle (\<lambda>x. x\<lparr>q_kstack := bootstack (k_sym k)\<rparr>) k;
     let k = k\<lparr>k_sched := upd_proc idle (\<lambda>q. q\<lparr>need_resched := True\<rparr>) (k_sched k)\<rparr>;
     let fp = fst (kmalloc (k_fs k));
     let (tab, f) = files_create (k_fs k);
     tab \<leftarrow> tab;
     let k = k\<lparr>k_fs := f, k_ftabs := (k_ftabs k)(fp := files_count_inc tab)\<rparr>;
     let k = upd_px idle (\<lambda>x. x\<lparr>q_filesp := fp\<rparr>) k;
     let k = name_literal [105, 100, 108, 101] k;
     let k = set_proc_name idle (locals (k_fs k)) k;
     let k = k\<lparr>k_tree := (k_tree k)\<lparr>nr_process := nr_process (k_tree k) + 1\<rparr>\<rparr>;
     let k = k\<lparr>k_sched := (k_sched k)\<lparr>current := idle\<rparr>\<rparr>;
     (n, k) \<leftarrow> kernel_thread cls (init_main (k_sym k)) 0 0 k;
     ensure (n > 0);
     let k = k\<lparr>initproc := find_proc n (k_tree k)\<rparr>;
     let k = name_literal [105, 110, 105, 116] k;
     let k = set_proc_name (initproc k) (locals (k_fs k)) k;
     ensure (idleproc (k_sched k) \<noteq> 0 \<and> pid (procs (k_sched k) (idleproc (k_sched k))) = 0);
     ensure (initproc k \<noteq> 0 \<and> pid (procs (k_sched k) (initproc k)) = 1);
     Some k
   }"

end
