(* ===== verification/ProcSpec.thy ===== *)
theory ProcSpec
  imports ProcLife
begin

text \<open>
  What creation, end and collection do to the tables of processes and to the run queue: the
  tables stay consistent, children go to \<^verbatim>\<open>initproc\<close>, waiting parents are woken.
\<close>

section \<open>Consistent tables\<close>

text \<open>
  \<open>tables_inv i K t\<close>: the processes of the list and the idle process \<open>i\<close> form a family with the
  children \<open>K\<close>, the hash lists hold the list by distinct numbers, and the counts agree.
\<close>

definition members :: "addr \<Rightarrow> ptable \<Rightarrow> addr set" where
  "members i t = insert i (set (proc_list t))"

definition tables_inv :: "addr \<Rightarrow> (addr \<Rightarrow> addr list) \<Rightarrow> ptable \<Rightarrow> bool" where
  "tables_inv i K t \<longleftrightarrow>
     family (pnodes t) (members i t) i K \<and> i \<notin> set (proc_list t) \<and> hash_inv t \<and> pid_inv t \<and>
     nr_process t = int (length (proc_list t)) + 1"

definition same_ids :: "ptable \<Rightarrow> ptable \<Rightarrow> bool" where
  "same_ids t t' \<longleftrightarrow> proc_list t' = proc_list t \<and> phash t' = phash t \<and> nr_process t' = nr_process t \<and>
     next_safe t' = next_safe t \<and> last_pid t' = last_pid t \<and> (\<forall>q. p_pid (pnodes t' q) = p_pid (pnodes t q))"

lemma same_ids_refl [simp]: "same_ids t t"
  by (simp add: same_ids_def)

lemma same_ids_trans: "same_ids t u \<Longrightarrow> same_ids u v \<Longrightarrow> same_ids t v"
  by (simp add: same_ids_def)

lemma same_ids_adopt [simp]: "same_ids t (adopt_child i p t)"
  by (simp add: same_ids_def)

lemma tables_invI:
  assumes "tables_inv i K t" and "same_ids t t'" and "family (pnodes t') (members i t) i K'"
  shows "tables_inv i K' t'"
  using assms by (simp add: tables_inv_def same_ids_def members_def hash_inv_def pid_inv_def pids_def)

section \<open>Waking with round robin\<close>

lemma RR_enqueue_frame:
  "RR_enqueue p s = Some s' \<Longrightarrow> rq_head s' = rq_head s \<and> current s' = current s \<and>
    (\<forall>q. exit_code (procs s' q) = exit_code (procs s q) \<and> state (procs s' q) = state (procs s q))"
  by (auto simp: RR_enqueue_def Let_def ensure_def upd_proc_def split: if_splits)

lemma wakeup_frame:
  assumes "wakeup_proc default_sched_class p s = Some s'"
  shows "rq_head s' = rq_head s \<and> current s' = current s \<and> state (procs s' p) = PROC_RUNNABLE \<and>
    (\<forall>q. exit_code (procs s' q) = exit_code (procs s q))"
proof (cases "state (procs s p) = PROC_RUNNABLE \<or> p = current s \<or> p = idleproc s")
  case True
  then show ?thesis using assms
    by (auto simp: wakeup_proc_def Let_def sched_class_enqueue_def ensure_def upd_proc_def split: if_splits)
next
  case False
  then show ?thesis using assms RR_enqueue_frame [of p _ s']
    by (auto simp: wakeup_proc_def Let_def sched_class_enqueue_def ensure_def default_sched_class_def split: if_splits)
qed

text \<open>
  \<open>woken s s' p\<close>: between the two states nothing happened but that \<open>p\<close> may have been woken.
\<close>

definition woken :: "sched_state \<Rightarrow> sched_state \<Rightarrow> addr \<Rightarrow> bool" where
  "woken s s' p \<longleftrightarrow> current s' = current s \<and> idleproc s' = idleproc s \<and> rq_head s' = rq_head s \<and>
     (\<forall>q. exit_code (procs s' q) = exit_code (procs s q)) \<and>
     (\<forall>q. q \<noteq> p \<longrightarrow> life (procs s' q) = life (procs s q)) \<and>
     (life (procs s' p) = life (procs s p) \<or> state (procs s' p) = PROC_RUNNABLE \<and> p \<noteq> idleproc s)"

lemma woken_refl [simp]: "woken s s p"
  by (simp add: woken_def)

lemma woken_trans: "woken s t p \<Longrightarrow> woken t u p \<Longrightarrow> woken s u p"
  by (auto simp: woken_def life_def)

lemma woken_runnable: "woken s s' p \<Longrightarrow> state (procs s p) = PROC_RUNNABLE \<Longrightarrow> state (procs s' p) = PROC_RUNNABLE"
  by (auto simp: woken_def life_def)

lemma wakeup_woken:
  assumes inv: "sched_inv lready s Q" and p: "state (procs s p) \<noteq> PROC_ZOMBIE" "p \<noteq> 0" "p \<noteq> rq_head s" "p \<noteq> idleproc s"
  shows "\<exists>s' Q'. wakeup_proc default_sched_class p s = Some s' \<and> sched_inv lready s' Q' \<and> woken s s' p \<and>
    state (procs s' p) = PROC_RUNNABLE"
proof -
  have "ladm s Q p" using p by (simp add: ladm_def)
  with rr.wakeup_proc_spec [OF inv p(1) _ p(4)] obtain s' where s': "wakeup_proc default_sched_class p s = Some s'"
    "sched_inv lready s' (if p = current s then Q else insert p Q)" "state (procs s' p) = PROC_RUNNABLE"
    "current s' = current s" "idleproc s' = idleproc s" "\<forall>q. q \<noteq> p \<longrightarrow> life (procs s' q) = life (procs s q)" by blast
  have "woken s s' p" using s' p(4) wakeup_frame [OF s'(1)] by (simp add: woken_def)
  with s' show ?thesis by blast
qed

text \<open>A process that can be woken: it exists, and only sleepers wait.\<close>

definition wakeable :: "sched_state \<Rightarrow> addr \<Rightarrow> bool" where
  "wakeable s p \<longleftrightarrow> p \<noteq> 0 \<and> p \<noteq> rq_head s \<and>
     (wait_state (procs s p) = WT_CHILD \<longrightarrow> state (procs s p) \<noteq> PROC_ZOMBIE \<and> p \<noteq> idleproc s)"

lemma wake_waiting_spec:
  assumes inv: "sched_inv lready (k_sched k) Q" and p: "wakeable (k_sched k) p"
  shows "\<exists>s' Q'. wake_waiting default_sched_class p k = Some (k\<lparr>k_sched := s'\<rparr>) \<and> sched_inv lready s' Q' \<and>
    woken (k_sched k) s' p \<and>
    (if wait_state (procs (k_sched k) p) = WT_CHILD then state (procs s' p) = PROC_RUNNABLE else s' = k_sched k)"
proof (cases "wait_state (procs (k_sched k) p) = WT_CHILD")
  case True
  then show ?thesis using wakeup_woken [OF inv, of p] p
    by (auto simp: wake_waiting_def with_sched_def wakeable_def)
next
  case False
  then show ?thesis using inv by (intro exI [of _ "k_sched k"] exI [of _ Q]) (simp add: wake_waiting_def)
qed

lemma wakeable_woken: "woken s s' p \<Longrightarrow> wakeable s p \<Longrightarrow> wakeable s' p"
  by (auto simp: woken_def wakeable_def life_def)

lemma woken_runnable': "woken s s' p \<Longrightarrow> state (procs s q) = PROC_RUNNABLE \<Longrightarrow> state (procs s' q) = PROC_RUNNABLE"
  by (cases "q = p") (auto simp: woken_def life_def)

lemma woken_other: "woken s s' p \<Longrightarrow> q \<noteq> p \<Longrightarrow> life (procs s' q) = life (procs s q)"
  by (simp add: woken_def)

section \<open>The children of a process that ends\<close>

lemma adopt_loop_spec:
  assumes "family_but p (pnodes (k_tree k)) P r K" and "p \<in> P" and "K p = cs"
    and "initproc k \<in> P" and "initproc k \<noteq> p" and "initproc k \<notin> set cs"
    and "sched_inv lready (k_sched k) Q" and "wakeable (k_sched k) (initproc k)"
  shows "\<exists>k' Q'. adopt_loop default_sched_class p k = Some k' \<and>
    family (pnodes (k_tree k')) P r (K(p := [], initproc k := rev cs @ K (initproc k))) \<and>
    same_ids (k_tree k) (k_tree k') \<and> initproc k' = initproc k \<and>
    sched_inv lready (k_sched k') Q' \<and> woken (k_sched k) (k_sched k') (initproc k) \<and>
    ((\<exists>c\<in>set cs. state (procs (k_sched k) c) = PROC_ZOMBIE) \<longrightarrow>
      wait_state (procs (k_sched k) (initproc k)) = WT_CHILD \<longrightarrow> state (procs (k_sched k') (initproc k)) = PROC_RUNNABLE)"
  using assms
proof (induction cs arbitrary: k K Q)
  case Nil
  have "p_cptr (pnodes (k_tree k) p) = 0" using family_butD(1) [OF Nil(1,2)] Nil(3) by simp
  then have "adopt_loop default_sched_class p k = Some k" by (subst adopt_loop.simps) (simp add: Let_def)
  moreover have "K(p := [], initproc k := rev [] @ K (initproc k)) = K" using Nil(3,5) by (simp add: fun_upd_idem)
  then have "family (pnodes (k_tree k)) P r (K(p := [], initproc k := rev [] @ K (initproc k)))"
    using family_of_but [OF Nil(1,3)] by (simp only:)
  ultimately show ?case using Nil(7) woken_refl same_ids_refl
    by (intro exI [of _ k] exI [of _ Q] conjI) (assumption | simp only: list.set empty_iff bex_simps simp_thms woken_refl same_ids_refl)+
next
  case (Cons c cs)
  let ?i = "initproc k" and ?t = "adopt_child (initproc k) p (k_tree k)" and ?K = "K(p := cs, initproc k := c # K (initproc k))"
  have cptr: "p_cptr (pnodes (k_tree k) p) = c" using family_butD(1) [OF Cons.prems(1,2)] Cons.prems(3) by simp
  have c: "c \<in> P" "c \<noteq> 0"
    using family_butD(5) [OF Cons.prems(1,2), of c] family_butD(7) [OF Cons.prems(1)] Cons.prems(3) by auto
  have ic: "?i \<noteq> c" "?i \<notin> set cs" using Cons.prems(6) by auto
  have fam: "family_but p (pnodes ?t) P r ?K" by (rule family_adopt [OF Cons.prems(1-5) ic(1)])
  define k1 where "k1 = k\<lparr>k_tree := ?t\<rparr>"
  have k1: "k_sched k1 = k_sched k" "k_tree k1 = ?t" "initproc k1 = ?i" by (simp_all add: k1_def)
  have "\<exists>s' Q'. (if state (procs (k_sched k1) c) = PROC_ZOMBIE then wake_waiting default_sched_class ?i k1 else Some k1) =
        Some (k1\<lparr>k_sched := s'\<rparr>) \<and> sched_inv lready s' Q' \<and> woken (k_sched k) s' ?i \<and>
        (state (procs (k_sched k) c) = PROC_ZOMBIE \<longrightarrow> wait_state (procs (k_sched k) ?i) = WT_CHILD \<longrightarrow>
          state (procs s' ?i) = PROC_RUNNABLE)"
  proof (cases "state (procs (k_sched k) c) = PROC_ZOMBIE")
    case True
    then show ?thesis using wake_waiting_spec [of k1 Q ?i] Cons.prems(7,8) unfolding k1 by auto
  next
    case False
    then show ?thesis using Cons.prems(7) by (intro exI [of _ "k_sched k"] exI [of _ Q]) (simp add: k1_def)
  qed
  then obtain s' Q' where w: "(if state (procs (k_sched k1) c) = PROC_ZOMBIE then wake_waiting default_sched_class ?i k1 else Some k1) =
        Some (k1\<lparr>k_sched := s'\<rparr>)" "sched_inv lready s' Q'" "woken (k_sched k) s' ?i"
      "state (procs (k_sched k) c) = PROC_ZOMBIE \<longrightarrow> wait_state (procs (k_sched k) ?i) = WT_CHILD \<longrightarrow>
          state (procs s' ?i) = PROC_RUNNABLE" by blast
  let ?k2 = "k1\<lparr>k_sched := s'\<rparr>"
  have k2: "k_sched ?k2 = s'" "k_tree ?k2 = ?t" "initproc ?k2 = ?i" by (simp_all add: k1_def)
  have step: "adopt_loop default_sched_class p k = adopt_loop default_sched_class p ?k2"
    by (subst adopt_loop.simps) (simp only: Let_def cptr c(2) if_False k1_def [symmetric] k1(3) w(1) Option.bind.simps)
  have "family_but p (pnodes (k_tree ?k2)) P r ?K" "?K p = cs" "initproc ?k2 \<in> P" "initproc ?k2 \<noteq> p"
    "initproc ?k2 \<notin> set cs" "sched_inv lready (k_sched ?k2) Q'" "wakeable (k_sched ?k2) (initproc ?k2)"
    unfolding k2 using fam Cons.prems ic w(2) wakeable_woken [OF w(3)] by auto
  from Cons.IH [OF this(1) Cons.prems(2) this(2-7)] obtain k' Q'' where k':
    "adopt_loop default_sched_class p ?k2 = Some k'"
    "family (pnodes (k_tree k')) P r (?K(p := [], ?i := rev cs @ ?K ?i))"
    "same_ids ?t (k_tree k')" "initproc k' = ?i" "sched_inv lready (k_sched k') Q''" "woken s' (k_sched k') ?i"
    "(\<exists>c\<in>set cs. state (procs s' c) = PROC_ZOMBIE) \<longrightarrow> wait_state (procs s' ?i) = WT_CHILD \<longrightarrow>
      state (procs (k_sched k') ?i) = PROC_RUNNABLE" unfolding k2 by blast
  have "?K(p := [], ?i := rev cs @ ?K ?i) = K(p := [], ?i := rev (c # cs) @ K ?i)"
    using Cons.prems(5) by (simp add: fun_eq_iff)
  then have f: "family (pnodes (k_tree k')) P r (K(p := [], ?i := rev (c # cs) @ K ?i))" using k'(2) by simp
  have "state (procs (k_sched k') ?i) = PROC_RUNNABLE"
    if z: "\<exists>x\<in>set (c # cs). state (procs (k_sched k) x) = PROC_ZOMBIE" and wt: "wait_state (procs (k_sched k) ?i) = WT_CHILD"
  proof (cases "state (procs s' ?i) = PROC_RUNNABLE")
    case True
    then show ?thesis using woken_runnable [OF k'(6)] by blast
  next
    case False
    then have same: "life (procs s' ?i) = life (procs (k_sched k) ?i)" using w(3) by (simp add: woken_def)
    have "state (procs (k_sched k) c) \<noteq> PROC_ZOMBIE" using False w(4) wt by blast
    then obtain x where x: "x \<in> set cs" "state (procs (k_sched k) x) = PROC_ZOMBIE" using z by auto
    have "x \<noteq> ?i" using x(1) ic(2) by auto
    then have "state (procs s' x) = PROC_ZOMBIE" using w(3) x(2) by (auto simp: woken_def life_def)
    moreover have "wait_state (procs s' ?i) = WT_CHILD" using same wt by (simp add: life_def)
    ultimately show ?thesis using k'(7) x(1) by blast
  qed
  moreover have "same_ids (k_tree k) (k_tree k')" by (rule same_ids_trans [OF same_ids_adopt k'(3)])
  moreover have "woken (k_sched k) (k_sched k') ?i" by (rule woken_trans [OF w(3) k'(6)])
  ultimately show ?case using k'(1,4,5) f unfolding step by blast
qed

lemma schedule_exit_code:
  assumes "schedule default_sched_class s = Some s'"
  shows "exit_code (procs s' q) = exit_code (procs s q)"
proof -
  define s1 where "s1 = upd_proc (current s) (\<lambda>q. q\<lparr>need_resched := False\<rparr>) s"
  obtain s2 where s2: "(if state (procs s1 (current s1)) = PROC_RUNNABLE
      then sched_class_enqueue default_sched_class (current s1) s1 else Some s1) = Some s2"
    "(do { (n, s) \<leftarrow> sched_class_pick_next default_sched_class s2;
       s \<leftarrow> (if n \<noteq> 0 then sched_class_dequeue default_sched_class n s else Some s);
       let n = (if n = 0 then idleproc s else n);
       let s = upd_proc n (\<lambda>q. q\<lparr>runs := runs q + 1\<rparr>) s;
       Some (if n \<noteq> current s then proc_run n s else s) }) = Some s'"
    using assms unfolding schedule_def s1_def [symmetric] Let_def by (auto split: bind_splits)
  have "exit_code (procs s2 q) = exit_code (procs s1 q)"
    using s2(1) RR_enqueue_frame [of "current s1" s1 s2]
    by (auto simp: sched_class_enqueue_def default_sched_class_def split: if_splits)
  moreover have "exit_code (procs s' q) = exit_code (procs s2 q)"
    using s2(2) by (auto simp: sched_class_pick_next_def sched_class_dequeue_def default_sched_class_def RR_pick_next_def
        RR_dequeue_def Let_def ensure_def split: if_splits bind_splits)
  ultimately show ?thesis by (simp add: s1_def)
qed

lemma release_frame:
  assumes "release_resources k = Some k'"
  shows "k_sched k' = k_sched k" and "k_tree k' = k_tree k" and "initproc k' = initproc k"
  using assms by (auto simp: release_resources_def leave_mm_def put_files_def upd_px_def Let_def split: if_splits bind_splits prod.splits)

lemma woken_or_waits: "woken s s' par \<Longrightarrow> state (procs s' q) = PROC_RUNNABLE \<or> life (procs s' q) = life (procs s q)"
  by (cases "q = par") (auto simp: woken_def)

text \<open>Waking a waiting parent takes no zombie back, since a process that waits is none.\<close>

lemma zombies_stay:
  assumes w: "woken s s' par" and c: "if wait_state (procs s par) = WT_CHILD then state (procs s' par) = PROC_RUNNABLE else s' = s"
    and wk: "wakeable s par" and z: "state (procs s c) = PROC_ZOMBIE"
  shows "state (procs s' c) = PROC_ZOMBIE"
proof (cases "c = par")
  case True
  then have "wait_state (procs s par) \<noteq> WT_CHILD" using z wk by (auto simp: wakeable_def)
  then show ?thesis using c z by simp
next
  case False
  then show ?thesis using woken_other [OF w] z by (simp add: life_def)
qed

text \<open>The part of \<^verbatim>\<open>do_exit\<close> before \<^verbatim>\<open>schedule\<close>.\<close>

lemma exit_before_spec:
  assumes rel: "release_resources k = Some k1" and inv: "tables_inv i K (k_tree k)"
    and cur: "cur = current (k_sched k)" "cur \<in> set (proc_list (k_tree k))" "cur \<noteq> initproc k"
    and ini: "initproc k \<in> set (proc_list (k_tree k))" "initproc k \<notin> set (K cur)"
    and par: "par = p_parent (pnodes (k_tree k) cur)"
    and s: "sched_inv lready (k_sched k) Q" "idleproc (k_sched k) = i" "cur \<noteq> rq_head (k_sched k)"
    and wk: "wakeable (k_sched k) par" "wakeable (k_sched k) (initproc k)"
  obtains k4 Q4 where "exit_before default_sched_class code k = Some k4" "cur \<noteq> i"
    "tables_inv i (K(cur := [], initproc k := rev (K cur) @ K (initproc k))) (k_tree k4)" "sched_inv lready (k_sched k4) Q4"
    "state (procs (k_sched k4) cur) = PROC_ZOMBIE" "exit_code (procs (k_sched k4) cur) = code"
    "current (k_sched k4) = cur" "idleproc (k_sched k4) = i"
    "wait_state (procs (k_sched k) par) = WT_CHILD \<longrightarrow> state (procs (k_sched k4) par) = PROC_RUNNABLE"
    "(\<exists>c\<in>set (K cur). state (procs (k_sched k) c) = PROC_ZOMBIE) \<longrightarrow> wait_state (procs (k_sched k) (initproc k)) = WT_CHILD \<longrightarrow>
      state (procs (k_sched k4) (initproc k)) = PROC_RUNNABLE"
proof -
  let ?P = "members i (k_tree k)" and ?ini = "initproc k"
  note R = release_frame [OF rel]
  have fam: "family (pnodes (k_tree k)) ?P i K" and il: "i \<notin> set (proc_list (k_tree k))" using inv by (simp_all add: tables_inv_def)
  have mem: "cur \<in> ?P" "?ini \<in> ?P" "cur \<noteq> i" using cur(2) ini(1) il by (auto simp: members_def)
  have pc: "par \<noteq> cur" "par \<in> ?P" using fam mem(1,3) unfolding par family_def by auto
  define s1 where "s1 = upd_proc cur (\<lambda>q. q\<lparr>state := PROC_ZOMBIE, exit_code := code\<rparr>) (k_sched k)"
  define k2 where "k2 = k1\<lparr>k_sched := s1\<rparr>"
  have k2: "k_sched k2 = s1" "k_tree k2 = k_tree k" "initproc k2 = ?ini" by (simp_all add: k2_def R)
  have q1: "same_queue (k_sched k) s1" by (simp add: s1_def same_queue_upd qfields_def)
  have s1: "current s1 = cur" "idleproc s1 = i" "rq_head s1 = rq_head (k_sched k)" "state (procs s1 cur) = PROC_ZOMBIE"
    "exit_code (procs s1 cur) = code" "\<And>q. q \<noteq> cur \<Longrightarrow> procs s1 q = procs (k_sched k) q"
    by (simp_all add: s1_def cur(1) s(2))
  have inv1: "sched_inv lready s1 Q"
    using s(1) rr.ready_frame [OF _ q1, of Q] by (auto simp: sched_inv_def s1 s(2) cur(1) [symmetric])
  have wk1: "wakeable s1 par" "wakeable s1 ?ini" using wk pc(1) cur(3) s(2) by (auto simp: wakeable_def s1)
  obtain s2 Q2 where w: "wake_waiting default_sched_class par k2 = Some (k2\<lparr>k_sched := s2\<rparr>)" "sched_inv lready s2 Q2"
    "woken s1 s2 par" "if wait_state (procs s1 par) = WT_CHILD then state (procs s2 par) = PROC_RUNNABLE else s2 = s1"
    using wake_waiting_spec [of k2 Q par] inv1 wk1(1) unfolding k2 by blast
  let ?k3 = "k2\<lparr>k_sched := s2\<rparr>"
  have wki: "wakeable s2 ?ini" using wk1(2) wakeable_woken [OF w(3), of ] w(3)
    by (cases "?ini = par") (auto simp: wakeable_def woken_def life_def s(2))
  have "initproc ?k3 = ?ini" "k_tree ?k3 = k_tree k" by (simp_all add: k2)
  then obtain k4 Q4 where a: "adopt_loop default_sched_class cur ?k3 = Some k4"
    "family (pnodes (k_tree k4)) ?P i (K(cur := [], ?ini := rev (K cur) @ K ?ini))" "same_ids (k_tree k) (k_tree k4)"
    "sched_inv lready (k_sched k4) Q4" "woken s2 (k_sched k4) ?ini"
    "(\<exists>c\<in>set (K cur). state (procs s2 c) = PROC_ZOMBIE) \<longrightarrow> wait_state (procs s2 ?ini) = WT_CHILD \<longrightarrow>
      state (procs (k_sched k4) ?ini) = PROC_RUNNABLE"
    using adopt_loop_spec [of cur ?k3 ?P i K "K cur" Q2] family_but_of [OF fam] mem cur(3) ini w(2) wki by auto
  have before: "exit_before default_sched_class code k = Some k4"
    using rel w(1) a(1) cur(3) mem(3)
    by (simp add: exit_before_def Let_def cur(1) [symmetric] s(2) ensure_def R k2_def s1_def par)
  have cpar: "cur \<noteq> par" using pc(1) by simp
  have z4: "state (procs (k_sched k4) cur) = PROC_ZOMBIE"
    using woken_other [OF a(5) cur(3)] woken_other [OF w(3) cpar] s1(4) by (simp add: life_def)
  have e4: "exit_code (procs (k_sched k4) cur) = code" using a(5) w(3) s1(5) by (simp add: woken_def)
  have c4: "current (k_sched k4) = cur" "idleproc (k_sched k4) = i" using a(5) w(3) s1 by (simp_all add: woken_def)
  have parent: "wait_state (procs (k_sched k) par) = WT_CHILD \<longrightarrow> state (procs (k_sched k4) par) = PROC_RUNNABLE"
    using w(4) pc(1) woken_runnable' [OF a(5), of par] by (simp add: s1(6))
  have ic: "?ini \<noteq> cur" using cur(3) by simp
  have heir: "state (procs (k_sched k4) ?ini) = PROC_RUNNABLE"
    if z: "c \<in> set (K cur)" "state (procs (k_sched k) c) = PROC_ZOMBIE" and wt: "wait_state (procs (k_sched k) ?ini) = WT_CHILD" for c
    using woken_or_waits [OF w(3), of ?ini]
  proof
    assume "state (procs s2 ?ini) = PROC_RUNNABLE"
    then show ?thesis using woken_runnable' [OF a(5)] by simp
  next
    assume "life (procs s2 ?ini) = life (procs s1 ?ini)"
    then have "wait_state (procs s2 ?ini) = WT_CHILD" using wt by (simp add: life_def s1(6) [OF ic])
    moreover have "c \<noteq> cur" using familyD(4) [OF fam mem(1), of c] z(1) pc(1) par by auto
    then have "state (procs s2 c) = PROC_ZOMBIE" using zombies_stay [OF w(3,4) wk1(1), of c] z(2) by (simp add: s1(6))
    ultimately show ?thesis using a(6) z(1) by auto
  qed
  show thesis
    by (rule that [OF before mem(3) _ a(4) z4 e4 c4 parent]) (use tables_invI [OF inv a(3,2)] heir in auto)
qed

text \<open>
  C18: a process that ends, whatever its memory and files, leaves consistent tables: its children
  are now children of \<^verbatim>\<open>initproc\<close>, in reverse order before those it had. The process is a zombie
  with its exit code and does not run any more, a parent that waits is woken, and so is \<^verbatim>\<open>initproc\<close> if
  it waits and inherits a zombie. The loop over the children ends and \<^verbatim>\<open>schedule\<close> does not come back.
\<close>

theorem do_exit_hands_over:
  assumes rel: "release_resources k = Some k1" and inv: "tables_inv i K (k_tree k)"
    and cur: "cur = current (k_sched k)" "cur \<in> set (proc_list (k_tree k))" "cur \<noteq> initproc k"
    and ini: "initproc k \<in> set (proc_list (k_tree k))" "initproc k \<notin> set (K cur)"
    and par: "par = p_parent (pnodes (k_tree k) cur)"
    and s: "sched_inv lready (k_sched k) Q" "idleproc (k_sched k) = i" "cur \<noteq> rq_head (k_sched k)"
    and wk: "wakeable (k_sched k) par" "wakeable (k_sched k) (initproc k)"
  shows "\<exists>k'. do_exit default_sched_class code k = Some k' \<and>
    tables_inv i (K(cur := [], initproc k := rev (K cur) @ K (initproc k))) (k_tree k') \<and>
    state (procs (k_sched k') cur) = PROC_ZOMBIE \<and> exit_code (procs (k_sched k') cur) = code \<and>
    current (k_sched k') \<noteq> cur \<and> (\<exists>Q'. sched_inv lready (k_sched k') Q') \<and>
    (wait_state (procs (k_sched k) par) = WT_CHILD \<longrightarrow> state (procs (k_sched k') par) = PROC_RUNNABLE) \<and>
    ((\<exists>c\<in>set (K cur). state (procs (k_sched k) c) = PROC_ZOMBIE) \<longrightarrow>
      wait_state (procs (k_sched k) (initproc k)) = WT_CHILD \<longrightarrow> state (procs (k_sched k') (initproc k)) = PROC_RUNNABLE)"
proof -
  obtain k4 Q4 where b: "exit_before default_sched_class code k = Some k4" "cur \<noteq> i"
    "tables_inv i (K(cur := [], initproc k := rev (K cur) @ K (initproc k))) (k_tree k4)" "sched_inv lready (k_sched k4) Q4"
    "state (procs (k_sched k4) cur) = PROC_ZOMBIE" "exit_code (procs (k_sched k4) cur) = code"
    "current (k_sched k4) = cur" "idleproc (k_sched k4) = i"
    "wait_state (procs (k_sched k) par) = WT_CHILD \<longrightarrow> state (procs (k_sched k4) par) = PROC_RUNNABLE"
    "(\<exists>c\<in>set (K cur). state (procs (k_sched k) c) = PROC_ZOMBIE) \<longrightarrow> wait_state (procs (k_sched k) (initproc k)) = WT_CHILD \<longrightarrow>
      state (procs (k_sched k4) (initproc k)) = PROC_RUNNABLE"
    by (rule exit_before_spec [OF assms]) (rule that)
  have "Q4 = (if current (k_sched k4) \<noteq> idleproc (k_sched k4) \<and> state (procs (k_sched k4) (current (k_sched k4))) = PROC_RUNNABLE
      then insert (current (k_sched k4)) Q4 else Q4)" using b(5,7) by simp
  from rr.schedule_spec [OF b(4) _ this] b(5,7,8) obtain s5 where s5: "schedule default_sched_class (k_sched k4) = Some s5"
    "if Q4 = {} then current s5 = idleproc s5 else current s5 \<in> Q4" "sched_inv lready s5 (Q4 - {current s5})"
    "idleproc s5 = i" "\<And>p. state (procs s5 p) = state (procs (k_sched k4) p)" by auto
  have "cur \<notin> Q4" using b(4,7) by (auto simp: sched_inv_def)
  then have away: "current s5 \<noteq> cur" using s5(2,4) b(2) by (auto split: if_splits)
  obtain k5 where k5: "k_schedule default_sched_class k4 = Some k5" "k_sched k5 = s5" "k_tree k5 = k_tree k4"
    using s5(1) by (auto simp: k_schedule_def with_sched_def)
  have "do_exit default_sched_class code k = Some k5"
    using b(1) k5(1,2) away by (simp add: do_exit_def ensure_def cur(1) [symmetric])
  then show ?thesis using b(3,5,6,9,10) away s5(3,5) schedule_exit_code [OF s5(1)] k5(2,3) by (intro exI [of _ k5]) auto
qed

section \<open>Collecting a child\<close>

lemma find_zombie_spec:
  assumes "sibs (pnodes (k_tree k)) y cs 0" and "0 \<notin> set cs"
  shows "find_zombie (hd (cs @ [0])) k b =
    Some (case find (\<lambda>c. state (procs (k_sched k) c) = PROC_ZOMBIE) cs of Some c \<Rightarrow> (c, True) | None \<Rightarrow> (0, b \<or> cs \<noteq> []))"
  using assms
proof (induction cs arbitrary: y b)
  case Nil
  then show ?case by (subst find_zombie.simps) simp
next
  case (Cons c cs)
  then show ?case by (subst find_zombie.simps) (auto split: option.splits)
qed

lemma hash_proc_nodes [simp]:
  "pnodes (hash_proc p t) = pnodes t" "pnodes (unhash_proc p t) = pnodes t" "proc_list (unhash_proc p t) = proc_list t"
  "proc_list (hash_proc p t) = proc_list t" "nr_process (hash_proc p t) = nr_process t" "nr_process (unhash_proc p t) = nr_process t"
  "next_safe (hash_proc p t) = next_safe t" "last_pid (hash_proc p t) = last_pid t"
  "next_safe (unhash_proc p t) = next_safe t" "last_pid (unhash_proc p t) = last_pid t"
  by (simp_all add: hash_proc_def unhash_proc_def Let_def)

lemma links_nodes_cong:
  "pnodes t' = pnodes t \<Longrightarrow> pnodes (set_links p t') = pnodes (set_links p t)"
  "pnodes t' = pnodes t \<Longrightarrow> pnodes (remove_links p t') = pnodes (remove_links p t)"
  by (simp_all add: set_links_def remove_links_def Let_def)

lemma remove_links_pid:
  "p_pid (pnodes (remove_links p t) q) = p_pid (pnodes t q)"
  by (simp add: remove_links_def Let_def)

lemma leave_tables:
  assumes inv: "tables_inv i K t" and x: "x \<in> set (proc_list t)" "K x = []" and p: "p = p_parent (pnodes t x)"
  shows "tables_inv i (K(p := remove1 x (K p))) (remove_links x (unhash_proc x t))"
proof -
  let ?t = "remove_links x (unhash_proc x t)"
  have fam: "family (pnodes t) (members i t) i K" and il: "i \<notin> set (proc_list t)" and h: "hash_inv t"
    and q: "pid_inv t" and n: "nr_process t = int (length (proc_list t)) + 1"
    using inv by (simp_all add: tables_inv_def)
  have xi: "x \<noteq> i" "x \<in> members i t" using x(1) il by (auto simp: members_def)
  have d: "distinct (proc_list t)" using h by (simp add: hash_inv_def)
  have N: "pnodes ?t = pnodes (remove_links x t)" by (rule links_nodes_cong) simp
  have m: "members i ?t = members i t - {x}" using d xi(1) by (auto simp: members_def)
  have "family (pnodes ?t) (members i ?t) i (K(p := remove1 x (K p)))"
    unfolding N m by (rule family_remove_links [OF fam xi(2,1) x(2) p])
  moreover have "hash_inv ?t" by (rule hash_leave [OF h x(1)]) (simp add: remove_links_pid)
  moreover have "pid_inv ?t" using q d by (auto simp: pid_inv_def pids_def remove_links_pid)
  moreover have "nr_process ?t = int (length (proc_list ?t)) + 1"
    using n x(1) by (auto simp: length_remove1 in_set_conv_decomp)
  moreover have "i \<notin> set (proc_list ?t)" using il d by simp
  ultimately show ?thesis by (simp add: tables_inv_def)
qed

lemma put_kstack_frame:
  "put_kstack p k = Some k1 \<Longrightarrow> put_kstack p (k\<lparr>k_fs := f, k_tree := t\<rparr>) = Some (k1\<lparr>k_fs := f, k_tree := t\<rparr>)"
  "put_kstack p k = Some k1 \<Longrightarrow> put_kstack p (k\<lparr>k_tree := t\<rparr>) = Some (k1\<lparr>k_tree := t\<rparr>)"
  "put_kstack p k = Some k1 \<Longrightarrow> k_fs k1 = k_fs k \<and> k_tree k1 = k_tree k \<and> k_sched k1 = k_sched k"
  by (auto simp: put_kstack_def split: bind_splits)

lemma wait_round_collects:
  assumes inv: "tables_inv i K (k_tree k)" and cur: "cur = current (k_sched k)" "cur \<in> members i (k_tree k)"
    and z: "find (\<lambda>c. state (procs (k_sched k) c) = PROC_ZOMBIE) (K cur) = Some c" "K c = []"
    and c: "c \<noteq> initproc k" "idleproc (k_sched k) = i" "0 < p_pid (pnodes (k_tree k) c)"
      "p_pid (pnodes (k_tree k) c) < MAX_PID"
    and stack: "put_kstack c k = Some k1"
  shows "\<exists>k'. wait_round cls 0 code_store k = Some (Inr (0, k')) \<and> k_sched k' = k_sched k \<and>
    tables_inv i (K(cur := remove1 c (K cur))) (k_tree k') \<and> c \<notin> members i (k_tree k') \<and>
    find_proc (p_pid (pnodes (k_tree k) c)) (k_tree k') = 0 \<and>
    (code_store \<noteq> 0 \<longrightarrow> bytes_at (kmem (k_fs k')) code_store 4 = le32 (word_of_int (exit_code (procs (k_sched k) c))))"
proof -
  let ?t = "k_tree k" and ?n = "p_pid (pnodes (k_tree k) c)"
  have fam: "family (pnodes ?t) (members i ?t) i K" and il: "i \<notin> set (proc_list ?t)" using inv by (simp_all add: tables_inv_def)
  have ck: "c \<in> set (K cur)" using z(1) by (auto simp: find_Some_iff in_set_conv_nth)
  have cm: "c \<in> members i ?t" "c \<noteq> i" "p_parent (pnodes ?t c) = cur" using familyD(4) [OF fam cur(2), of c] ck by auto
  have cl: "c \<in> set (proc_list ?t)" using cm(1,2) by (simp add: members_def)
  have K0: "0 \<notin> set (K cur)" using familyD(4) [OF fam cur(2), of 0] familyD(5) [OF fam cur(2)] by auto
  have pick: "wait_pick 0 k = Some (c, True)"
    using find_zombie_spec [OF familyD(2) [OF fam cur(2)] K0, of False] z(1)
    by (simp add: wait_pick_def familyD(1) [OF fam cur(2)] cur(1) [symmetric])
  have c0: "c \<noteq> 0" using ck K0 by metis
  define m where "m = (if code_store \<noteq> 0 then (k_fs k)\<lparr>kmem := store_bytes code_store
      (le32 (word_of_int (exit_code (procs (k_sched k) c)))) (kmem (k_fs k))\<rparr> else k_fs k)"
  let ?t' = "remove_links c (unhash_proc c ?t)"
  let ?k' = "k1\<lparr>k_fs := m, k_tree := ?t'\<rparr>"
  have same: "k\<lparr>k_fs := k_fs k\<rparr> = k" "k1\<lparr>k_fs := k_fs k\<rparr> = k1" using put_kstack_frame(3) [OF stack] by simp_all
  have "reap code_store c k = Some (0, ?k')"
    using c(1,2) cm(2) put_kstack_frame(1,2) [OF stack] put_kstack_frame(3) [OF stack]
    by (cases "code_store = 0") (simp_all add: reap_def ensure_def m_def Let_def same)
  then have "wait_round cls 0 code_store k = Some (Inr (0, ?k'))" using pick c0 by (simp add: wait_round_def)
  moreover have inv': "tables_inv i (K(cur := remove1 c (K cur))) ?t'"
    using leave_tables [OF inv cl z(2) cm(3) [symmetric]] .
  moreover have "c \<notin> members i ?t'"
    using inv cm(2) by (simp add: members_def tables_inv_def hash_inv_def)
  moreover have "find_proc ?n ?t' = 0"
  proof (rule find_proc_spec(2))
    show "hash_inv ?t'" using inv' by (simp add: tables_inv_def)
    have "inj_on (\<lambda>p. p_pid (pnodes ?t p)) (set (proc_list ?t))" "distinct (proc_list ?t)"
      using inv by (auto simp: tables_inv_def hash_inv_def)
    then show "?n \<notin> pids ?t'" using cl by (auto simp: pids_def remove_links_pid dest: inj_onD)
  qed (use c in auto)
  moreover have "code_store \<noteq> 0 \<longrightarrow> bytes_at (kmem m) code_store 4 = le32 (word_of_int (exit_code (procs (k_sched k) c)))"
    using bytes_at_store [of code_store "le32 (word_of_int (exit_code (procs (k_sched k) c)))" "kmem (k_fs k)"]
    by (simp add: m_def )
  ultimately show ?thesis using put_kstack_frame(3) [OF stack] by (intro exI [of _ ?k']) simp
qed

section \<open>A new process\<close>

lemma family_cong:
  assumes fam: "family n P r K" and eq: "\<And>q. q \<in> P \<Longrightarrow> n' q = n q"
  shows "family n' P r K"
proof (rule familyI)
  show "0 \<notin> P" "r \<in> P" using fam by (simp_all add: family_def)
  fix p assume p: "p \<in> P"
  show "p_cptr (n' p) = hd (K p @ [0])" "distinct (K p)" using familyD(1,3) [OF fam p] by (simp_all add: eq [OF p])
  have "sibs n' 0 (K p) 0 = sibs n 0 (K p) 0"
    by (rule sibs_cong) (use familyD(4) [OF fam p] eq in auto)
  then show "sibs n' 0 (K p) 0" using familyD(2) [OF fam p] by simp
  show "x \<in> set (K p) \<longleftrightarrow> x \<in> P \<and> x \<noteq> r \<and> p_parent (n' x) = p" for x
    using familyD(4) [OF fam p, of x] eq by auto
next
  fix x assume "x \<in> P" "x \<noteq> r"
  then show "p_parent (n' x) \<in> P \<and> p_parent (n' x) \<noteq> x" using fam eq by (auto simp: family_def)
qed

text \<open>Nodes outside the tables do not matter.\<close>

definition agree :: "addr \<Rightarrow> ptable \<Rightarrow> ptable \<Rightarrow> bool" where
  "agree i t t' \<longleftrightarrow> proc_list t' = proc_list t \<and> phash t' = phash t \<and> nr_process t' = nr_process t \<and>
     next_safe t' = next_safe t \<and> last_pid t' = last_pid t \<and> (\<forall>q\<in>members i t. pnodes t' q = pnodes t q)"

lemma agree_refl [simp]: "agree i t t"
  by (simp add: agree_def)

lemma agree_upd: "agree i t t' \<Longrightarrow> p \<notin> members i t \<Longrightarrow> agree i t (upd_pnode p f t')"
  by (auto simp: agree_def)

lemma agree_members: "agree i t t' \<Longrightarrow> members i t' = members i t"
  by (simp add: agree_def members_def)

lemma agree_pids: "agree i t t' \<Longrightarrow> pids t' = pids t"
  by (auto simp: agree_def members_def pids_def)

lemma agree_tables: "agree i t t' \<Longrightarrow> tables_inv i K t \<Longrightarrow> tables_inv i K t'"
proof -
  assume a: "agree i t t'" and inv: "tables_inv i K t"
  have "family (pnodes t') (members i t') i K"
    unfolding agree_members [OF a] by (rule family_cong) (use a inv in \<open>auto simp: agree_def tables_inv_def\<close>)
  moreover have l: "proc_list t' = proc_list t" "phash t' = phash t" "\<And>p. p \<in> set (proc_list t) \<Longrightarrow> pnodes t' p = pnodes t p"
    using a by (auto simp: agree_def members_def)
  have "hash_inv t'" using inv l unfolding tables_inv_def hash_inv_def by (auto simp: inj_on_def)
  moreover have "pid_inv t'" using inv agree_pids [OF a] a by (auto simp: tables_inv_def pid_inv_def agree_def)
  ultimately show ?thesis using a inv by (auto simp: tables_inv_def agree_def)
qed

lemma enter_tables:
  assumes inv: "tables_inv i K t" and x: "x \<notin> members i t" "x \<noteq> 0" "p_cptr (pnodes t x) = 0"
    and p: "p \<in> members i t" "p_parent (pnodes t x) = p" and room: "nr_process t < MAX_PROCESS"
  shows "\<exists>n t1 t2. get_pid t = Some (n, t1) \<and> 1 \<le> n \<and> n \<notin> pids t \<and>
    t2 = set_links x (hash_proc x (upd_pnode x (\<lambda>q. q\<lparr>p_pid := n\<rparr>) t1)) \<and>
    tables_inv i (K(p := x # K p, x := [])) t2 \<and> members i t2 = insert x (members i t) \<and>
    p_pid (pnodes t2 x) = n \<and> find_proc n t2 = x"
proof -
  have q: "pid_inv t" "int (length (proc_list t)) < MAX_PID - 1"
    using inv room by (auto simp: tables_inv_def MAX_PID_def MAX_PROCESS_def)
  obtain n t1 where g: "get_pid t = Some (n, t1)" "1 \<le> n" "n < MAX_PID" "n \<notin> pids t" "pid_inv t1"
    "t1 = t\<lparr>last_pid := n, next_safe := next_safe t1\<rparr>" using get_pid_returns [OF q] by blast
  define t1' where "t1' = upd_pnode x (\<lambda>q. q\<lparr>p_pid := n\<rparr>) t1"
  define t2 where "t2 = set_links x (hash_proc x t1')"
  have xl: "x \<notin> set (proc_list t)" "x \<noteq> i" using x(1) by (auto simp: members_def)
  have f1: "proc_list t1 = proc_list t" "phash t1 = phash t" "pnodes t1 = pnodes t" "nr_process t1 = nr_process t"
    by (subst g(6); simp)+
  have px: "p_parent (pnodes t1' x) = p" "p_pid (pnodes t1' x) = n" "p_cptr (pnodes t1' x) = 0"
    by (simp_all add: t1'_def f1 p(2) x(3))
  have N: "pnodes t2 = pnodes (set_links x t1')" unfolding t2_def by (rule links_nodes_cong) simp
  have L: "proc_list t2 = x # proc_list t" by (simp add: t2_def t1'_def f1)
  have ids: "p_pid (pnodes t2 q) = (if q = x then n else p_pid (pnodes t q))" for q
    unfolding N by (simp add: t1'_def f1)
  have mem: "members i t2 = insert x (members i t)" using L by (auto simp: members_def)
  have "family (pnodes t1') (members i t) i K"
    by (rule family_cong [of "pnodes t"]) (use inv x(1) in \<open>auto simp: tables_inv_def t1'_def f1\<close>)
  from family_set_links [OF this x(1,2) p(1) px(1,3)] have fam: "family (pnodes t2) (members i t2) i (K(p := x # K p, x := []))"
    unfolding N mem .
  have "hash_inv t1'"
    using inv xl(1) by (auto simp: tables_inv_def hash_inv_def t1'_def f1 inj_on_def)
  moreover have "pids t1' = pids t" using xl(1) by (auto simp: pids_def t1'_def f1)
  ultimately have h: "hash_inv t2" unfolding t2_def
    by (intro hash_enter) (use xl(1) g(4) px(2) in \<open>simp_all add: t1'_def f1\<close>)
  have "pids t2 = insert n (pids t)" using xl(1) by (force simp: pids_def L ids)
  moreover have "last_pid t2 = n" "next_safe t2 = next_safe t1"
    by (simp_all add: t2_def t1'_def) (subst g(6), simp)
  moreover have "pids t1 = pids t" by (simp add: pids_def f1)
  moreover have "last_pid t1 = n" by (subst g(6)) simp
  ultimately have "pid_inv t2" using g(2,3,5) by (auto simp: pid_inv_def)
  then have inv2: "tables_inv i (K(p := x # K p, x := [])) t2"
    using fam h inv xl(2) by (auto simp: tables_inv_def L) (simp add: t2_def t1'_def f1)
  moreover have "find_proc n t2 = x"
    by (rule find_proc_spec(1) [OF h]) (use g(2,3) ids in \<open>simp_all add: L\<close>)
  ultimately show ?thesis using g(1,2,4) mem ids unfolding t2_def t1'_def by auto
qed

definition quiet :: "kernel \<Rightarrow> kernel \<Rightarrow> bool" where
  "quiet k k' \<longleftrightarrow> k_tree k' = k_tree k \<and> k_sched k' = k_sched k \<and> initproc k' = initproc k"

lemma quiet_steps:
  "setup_kstack p k = Some (r, k') \<Longrightarrow> quiet k k'"
  "install_mm mm p k = Some (r, k') \<Longrightarrow> quiet k k'"
  "copy_files fl p k = Some (r, k') \<Longrightarrow> quiet k k'"
  "put_kstack p k = Some k' \<Longrightarrow> quiet k k'"
  "quiet k (copy_thread p esp fr k)"
  by (auto simp: quiet_def setup_kstack_def install_mm_def copy_files_def put_kstack_def copy_thread_def upd_px_def Let_def
      split: bind_splits option.splits prod.splits if_splits)

lemma quiet_copy_mm: "copy_mm fl p k = Some (r, k') \<Longrightarrow> quiet k k'"
  unfolding copy_mm_def Let_def
  by (auto split: if_splits prod.splits bind_splits dest: quiet_steps(2)) (auto simp: quiet_def dest: quiet_steps(2))

lemma quiet_trans: "quiet k l \<Longrightarrow> quiet l m \<Longrightarrow> quiet k m"
  by (simp add: quiet_def)

lemma alloc_proc_spec:
  assumes "alloc_proc k = (p, k')" and "p \<noteq> 0" and "\<forall>a\<in>set (vm_heap (k_vm k)). a \<notin> members i (k_tree k)"
  shows "p \<notin> members i (k_tree k)" and "agree i (k_tree k) (k_tree k')" and "p_cptr (pnodes (k_tree k') p) = 0"
    and "current (k_sched k') = current (k_sched k)" and "p \<in> set (vm_heap (k_vm k))"
  using assms by (auto simp: alloc_proc_def vm_kmalloc_def Let_def upd_px_def agree_def split: list.splits prod.splits if_splits)

lemma fork_enters:
  assumes inv: "tables_inv i K (k_tree k)" and g: "agree i (k_tree k) (k_tree l)" and p: "p \<noteq> 0" "p \<notin> members i (k_tree k)"
    and cur: "cur \<in> members i (k_tree k)" "current (k_sched l) = cur"
    and n: "p_parent (pnodes (k_tree l) p) = cur" "p_cptr (pnodes (k_tree l) p) = 0"
    and room: "nr_process (k_tree k) < MAX_PROCESS" and en: "enter_proc default_sched_class p l = Some k'"
  defines "r \<equiv> p_pid (pnodes (k_tree k') p)"
  shows "1 \<le> r" "r \<notin> pids (k_tree k)" "find_proc r (k_tree k') = p" "members i (k_tree k') = insert p (members i (k_tree k))"
    "tables_inv i (K(cur := p # K cur, p := [])) (k_tree k')" "state (procs (k_sched k') p) = PROC_RUNNABLE" "current (k_sched k') = cur"
proof -
  have inv2: "tables_inv i K (k_tree l)" by (rule agree_tables [OF g inv])
  have "nr_process (k_tree l) < MAX_PROCESS" using room g by (simp add: agree_def)
  from enter_tables [OF inv2 _ p(1) n(2) _ n(1) this] p(2) cur(1) agree_members [OF g]
  obtain m t1 t2 where e: "get_pid (k_tree l) = Some (m, t1)" "1 \<le> m" "m \<notin> pids (k_tree l)"
    "t2 = set_links p (hash_proc p (upd_pnode p (\<lambda>q. q\<lparr>p_pid := m\<rparr>) t1))"
    "tables_inv i (K(cur := p # K cur, p := [])) t2" "members i t2 = insert p (members i (k_tree l))"
    "p_pid (pnodes t2 p) = m" "find_proc m t2 = p" by auto
  obtain s where w: "wakeup_proc default_sched_class p (k_sched (set_pid p m (l\<lparr>k_tree := t1\<rparr>))) = Some s"
    "k_tree k' = t2" "k_sched k' = s"
    using en by (auto simp: enter_proc_def e(1) e(4) [symmetric] set_pid_def with_sched_def Let_def split: bind_splits)
  have "state (procs s p) = PROC_RUNNABLE" "current s = cur"
    using wakeup_frame [OF w(1)] cur(2) by (simp_all add: set_pid_def)
  then show "1 \<le> r" "r \<notin> pids (k_tree k)" "find_proc r (k_tree k') = p" "members i (k_tree k') = insert p (members i (k_tree k))"
    "tables_inv i (K(cur := p # K cur, p := [])) (k_tree k')" "state (procs (k_sched k') p) = PROC_RUNNABLE" "current (k_sched k') = cur"
    using e w(2,3) agree_members [OF g] agree_pids [OF g] by (simp_all add: r_def)
qed

text \<open>
  The rest of \<^verbatim>\<open>do_fork\<close> behind the kernel stack: it fails quietly, or enters the process in a state
  that differs quietly from the start.
\<close>

definition fork_outcome :: "addr \<Rightarrow> kernel \<Rightarrow> int \<Rightarrow> kernel \<Rightarrow> bool" where
  "fork_outcome p k r k' \<longleftrightarrow> r = - E_NO_MEM \<and> quiet k k' \<or>
     (\<exists>l. quiet k l \<and> enter_proc default_sched_class p l = Some k' \<and> r = p_pid (pnodes (k_tree k') p))"

lemma fork_undone: "put_kstack p l = Some k' \<Longrightarrow> quiet k l \<Longrightarrow> fork_outcome p k (- E_NO_MEM) k'"
  using quiet_trans quiet_steps(4) by (auto simp: fork_outcome_def)

lemma fork_files:
  assumes f: "do {
      (r, k) \<leftarrow> copy_files fl p l;
      if r \<noteq> 0 then do { k \<leftarrow> put_kstack p k; Some (- E_NO_MEM, k) }
      else do {
        k \<leftarrow> enter_proc default_sched_class p (copy_thread p stack fr k);
        Some (p_pid (pnodes (k_tree k) p), k)
      }
    } = Some (r, k')" and q: "quiet k l"
  shows "fork_outcome p k r k'"
proof -
  obtain r4 k4 where s4: "copy_files fl p l = Some (r4, k4)" using f by (auto split: bind_splits)
  have q4: "quiet k k4" by (rule quiet_trans [OF q quiet_steps(3) [OF s4]])
  show ?thesis
  proof (cases "r4 = 0")
    case True
    have "quiet k (copy_thread p stack fr k4)" by (rule quiet_trans [OF q4 quiet_steps(5)])
    then show ?thesis using f s4 True by (auto simp: fork_outcome_def split: bind_splits)
  next
    case False
    then obtain l where "put_kstack p k4 = Some l" "k' = l" "r = - E_NO_MEM" using f s4 by (auto split: bind_splits)
    then show ?thesis using fork_undone q4 by simp
  qed
qed

lemma fork_memory:
  assumes f: "do {
      (r, k) \<leftarrow> copy_mm fl p k;
      if r \<noteq> 0 then do { k \<leftarrow> put_kstack p k; Some (- E_NO_MEM, k) }
      else do {
        (r, k) \<leftarrow> copy_files fl p k;
        if r \<noteq> 0 then do { k \<leftarrow> put_kstack p k; Some (- E_NO_MEM, k) }
        else do {
          k \<leftarrow> enter_proc default_sched_class p (copy_thread p stack fr k);
          Some (p_pid (pnodes (k_tree k) p), k)
        }
      }
    } = Some (r, k')"
  shows "fork_outcome p k r k'"
proof -
  obtain r3 k3 where s3: "copy_mm fl p k = Some (r3, k3)" using f by (auto split: bind_splits)
  have q3: "quiet k k3" by (rule quiet_copy_mm [OF s3])
  show ?thesis
  proof (cases "r3 = 0")
    case True
    then show ?thesis using fork_files [OF _ q3] f s3 by simp
  next
    case False
    then obtain l where "put_kstack p k3 = Some l" "k' = l" "r = - E_NO_MEM" using f s3 by (auto split: bind_splits)
    then show ?thesis using fork_undone q3 by simp
  qed
qed

text \<open>
  C17: \<^verbatim>\<open>do_fork\<close> enters one new process or none. When it returns a number, that number was unused, it
  is now found, and it belongs to a new process, which is the youngest child of the current one, is in
  all tables and runnable; the tables are consistent. When it fails, with \<^verbatim>\<open>-E_NO_FREE_PROC\<close> or
  \<^verbatim>\<open>-E_NO_MEM\<close>, the tables are as before.
\<close>

theorem do_fork_all_or_nothing:
  assumes fork: "do_fork default_sched_class fl stack fr k = Some (r, k')"
    and inv: "tables_inv i K (k_tree k)" and cur: "cur = current (k_sched k)" "cur \<in> members i (k_tree k)"
    and fresh: "\<forall>a\<in>set (vm_heap (k_vm k)). a \<notin> members i (k_tree k)"
  shows "if r > 0
    then r \<notin> pids (k_tree k) \<and> (\<exists>c. c \<notin> members i (k_tree k) \<and> find_proc r (k_tree k') = c \<and>
        members i (k_tree k') = insert c (members i (k_tree k)) \<and>
        tables_inv i (K(cur := c # K cur, c := [])) (k_tree k') \<and>
        state (procs (k_sched k') c) = PROC_RUNNABLE \<and> current (k_sched k') = cur)
    else r \<in> {- E_NO_FREE_PROC, - E_NO_MEM} \<and> tables_inv i K (k_tree k') \<and> members i (k_tree k') = members i (k_tree k) \<and>
      current (k_sched k') = cur"
proof (cases "nr_process (k_tree k) \<ge> MAX_PROCESS")
  case True
  then show ?thesis using fork inv cur by (auto simp: do_fork_def E_NO_FREE_PROC_def)
next
  case room: False
  obtain p k0 where a: "alloc_proc k = (p, k0)" by fastforce
  show ?thesis
  proof (cases "p = 0")
    case True
    then have "k' = k0" "r = - E_NO_MEM" using fork room a by (auto simp: do_fork_def)
    moreover have "k_tree k0 = k_tree k" "k_sched k0 = k_sched k" using a True
      by (auto simp: alloc_proc_def vm_kmalloc_def Let_def upd_px_def split: list.splits prod.splits if_splits)
    ultimately show ?thesis using inv cur by (simp add: E_NO_MEM_def)
  next
    case p0: False
    note A = alloc_proc_spec [OF a p0 fresh]
    have fail: ?thesis if "r = - E_NO_MEM" "agree i (k_tree k) (k_tree k')" "current (k_sched k') = cur"
      using that agree_tables [OF that(2) inv] agree_members [OF that(2)] by (simp add: E_NO_MEM_def)
    obtain r1 k1 where s1: "setup_kstack p k0 = Some (r1, k1)" using fork room a p0 by (auto simp: do_fork_def split: bind_splits)
    have q1: "quiet k0 k1" by (rule quiet_steps(1) [OF s1])
    define k2 where "k2 = k1\<lparr>k_tree := upd_pnode p (\<lambda>n. n\<lparr>p_parent := current (k_sched k1)\<rparr>) (k_tree k1)\<rparr>"
    have g2: "agree i (k_tree k) (k_tree k2)" using q1 agree_upd [OF A(2,1)] by (simp add: k2_def quiet_def)
    have n2: "p_parent (pnodes (k_tree k2) p) = cur" "p_cptr (pnodes (k_tree k2) p) = 0" "current (k_sched k2) = cur"
      using q1 A(3,4) cur(1) by (simp_all add: k2_def quiet_def)
    show ?thesis
    proof (cases "r1 = 0")
      case False
      then have "k' = k1" "r = - E_NO_MEM" using fork room a p0 s1 by (auto simp: do_fork_def Let_def)
      then show ?thesis using q1 A(2,4) cur(1) by (intro fail) (auto simp: quiet_def)
    next
      case True
      then have "fork_outcome p k2 r k'"
        using fork room a p0 s1 by (intro fork_memory) (simp add: do_fork_def k2_def Let_def)
      then consider "r = - E_NO_MEM" "quiet k2 k'"
        | l where "quiet k2 l" "enter_proc default_sched_class p l = Some k'" "r = p_pid (pnodes (k_tree k') p)"
        unfolding fork_outcome_def by blast
      then show ?thesis
      proof cases
        case 1
        then show ?thesis using g2 n2(3) by (intro fail) (auto simp: quiet_def)
      next
        case (2 l)
        have "k_tree l = k_tree k2" "current (k_sched l) = cur" "nr_process (k_tree k) < MAX_PROCESS"
          using 2(1) n2(3) room by (auto simp: quiet_def)
        with fork_enters [OF inv _ p0 A(1) cur(2) _ _ _ _ 2(2)] g2 n2 2(3) A(1) show ?thesis by auto
      qed
    qed
  qed
qed

text \<open>
  C19: \<^verbatim>\<open>do_wait(0, code_store)\<close> of a process with a zombie child. Unless \<^verbatim>\<open>code_store\<close> is null, the process
  must be allowed to write an \<^verbatim>\<open>int\<close> there: where \<^verbatim>\<open>user_mem_check\<close> refuses (\<open>ok\<close> is its answer), the
  call returns \<^verbatim>\<open>-E_INVAL\<close> and collects nothing. Otherwise it returns 0 at once, without giving up the
  processor. It collects the first zombie in the order of the children: the child is in none of the tables
  any more, its number is found no more, the other children are in order, and its exit code is stored.
\<close>

theorem do_wait_collects:
  assumes chk: "(if code_store \<noteq> 0 then user_mem_check (q_mm (cur_px k)) (of_nat code_store) 4 True (k_vm k)
      else Some (True, k_vm k)) = Some (ok, v)"
    and inv: "tables_inv i K (k_tree k)" and cur: "cur = current (k_sched k)" "cur \<in> members i (k_tree k)"
    and z: "find (\<lambda>c. state (procs (k_sched k) c) = PROC_ZOMBIE) (K cur) = Some c" "K c = []"
    and c: "c \<noteq> initproc k" "idleproc (k_sched k) = i" "0 < p_pid (pnodes (k_tree k) c)"
      "p_pid (pnodes (k_tree k) c) < MAX_PID"
    and stack: "put_kstack c (k\<lparr>k_vm := v\<rparr>) = Some k1"
  shows "if ok then (\<exists>k'. do_wait cls 0 code_store k = Some (Inr (0, k')) \<and> k_sched k' = k_sched k \<and>
      tables_inv i (K(cur := remove1 c (K cur))) (k_tree k') \<and> c \<notin> members i (k_tree k') \<and>
      find_proc (p_pid (pnodes (k_tree k) c)) (k_tree k') = 0 \<and>
      (code_store \<noteq> 0 \<longrightarrow> bytes_at (kmem (k_fs k')) code_store 4 = le32 (word_of_int (exit_code (procs (k_sched k) c)))))
    else code_store \<noteq> 0 \<and> do_wait cls 0 code_store k = Some (Inr (- E_INVAL, k\<lparr>k_vm := v\<rparr>))"
proof (cases ok)
  case True
  then have "do_wait cls 0 code_store k = wait_round cls 0 code_store (k\<lparr>k_vm := v\<rparr>)"
    using chk by (simp add: do_wait_def)
  then show ?thesis
    using True wait_round_collects [of i K "k\<lparr>k_vm := v\<rparr>" cur c k1 cls code_store] inv cur z c stack by simp
next
  case False
  then show ?thesis using chk by (auto simp: do_wait_def split: if_splits)
qed

section \<open>A small kernel\<close>

text \<open>
  The idle process 0x900, \<^verbatim>\<open>initproc\<close> 0x100 waiting for its child 0x200, which runs and has the
  children 0x400 (asleep) and 0x300 (a zombie).
\<close>

definition demo_node :: "int \<Rightarrow> addr \<Rightarrow> addr \<Rightarrow> addr \<Rightarrow> addr \<Rightarrow> pnode" where
  "demo_node n par c y o' = \<lparr>p_pid = n, p_parent = par, p_cptr = c, p_yptr = y, p_optr = o'\<rparr>"

definition demo_nodes :: "addr \<Rightarrow> pnode" where
  "demo_nodes = (\<lambda>_. demo_node 0 0 0 0 0)
     (0x900 := demo_node 0 0 0x100 0 0, 0x100 := demo_node 1 0x900 0x200 0 0, 0x200 := demo_node 2 0x100 0x400 0 0,
      0x300 := demo_node 3 0x200 0 0x400 0, 0x400 := demo_node 4 0x200 0 0 0x300)"

definition demo_tree :: ptable where
  "demo_tree =
     \<lparr>pnodes = demo_nodes, proc_list = [0x400, 0x300, 0x200, 0x100],
      phash = (\<lambda>h. filter (\<lambda>p. pid_hashfn (p_pid (demo_nodes p)) = h) [0x400, 0x300, 0x200, 0x100]),
      nr_process = 5, next_safe = MAX_PID, last_pid = 4\<rparr>"

definition demo_kids :: "addr \<Rightarrow> addr list" where
  "demo_kids = (\<lambda>_. [])(0x900 := [0x100], 0x100 := [0x200], 0x200 := [0x400, 0x300])"

definition demo_area :: free_area where
  "demo_area =
     \<lparr>pages = (\<lambda>p. \<lparr>page_ref = 0, page_flags = 0, property = 0\<rparr>)(0x210 := \<lparr>page_ref = 0, page_flags = 2, property = 4\<rparr>),
      free_links = \<lparr>nxt = id(1 := 0x210, 0x210 := 1), prv = id(1 := 0x210, 0x210 := 1)\<rparr>, free_list = 1, nr_free = 4\<rparr>"

definition demo_kernel :: kernel where
  "demo_kernel =
     \<lparr>k_sched = \<lparr>procs = (\<lambda>p. alloc_proc_fields)
          (0x900 := alloc_proc_fields\<lparr>state := PROC_RUNNABLE\<rparr>,
           0x100 := alloc_proc_fields\<lparr>state := PROC_SLEEPING, wait_state := WT_CHILD\<rparr>,
           0x200 := alloc_proc_fields\<lparr>state := PROC_RUNNABLE\<rparr>,
           0x300 := alloc_proc_fields\<lparr>state := PROC_ZOMBIE, exit_code := 7\<rparr>,
           0x400 := alloc_proc_fields\<lparr>state := PROC_SLEEPING\<rparr>),
        current = 0x200, idleproc = 0x900, run_links = \<lparr>nxt = id, prv = id\<rparr>, rq_head = 2, proc_num = 0,
        max_time_slice = 5, run_pool = \<lparr>parent = \<lambda>_. 0, left = \<lambda>_. 0, right = \<lambda>_. 0\<rparr>, lab6_run_pool = 0\<rparr>,
      k_tree = demo_tree,
      k_vm = \<lparr>phys = \<lparr>area = demo_area, words = (\<lambda>_. 0), npage = 0x88000\<rparr>,
        vmas = (\<lambda>_. \<lparr>vm_mm = 0, vm_start = 0, vm_end = 0, vm_flags = 0\<rparr>),
        mms = (\<lambda>_. \<lparr>mmap_list = [], mmap_cache = 0, pgdir = 0, map_count = 0, mm_count = 0, mm_sem = 1, locked_by = 0\<rparr>),
        vm_heap = [0x500]\<rparr>,
      k_fs = demo_kfs, k_ftabs = (\<lambda>_. \<lparr>pwd = 0, fd_array = [], files_count = 1, files_sem = 1\<rparr>),
      k_px = (\<lambda>p. \<lparr>q_kstack = 0xFFFFFFFFC0204000, q_mm = 0, q_context = \<lparr>ctx_ra = 0, ctx_sp = 0, ctx_s = (\<lambda>_. 0)\<rparr>,
        q_tf = 0, q_pgdir = 0, q_name = [], q_filesp = 0x700\<rparr>),
      k_tfs = (\<lambda>_. \<lparr>gpr = (\<lambda>_. 0), tf_status = 0, tf_epc = 0, tf_tval = 0, tf_cause = 0\<rparr>),
      k_satp = 0, k_sstatus = 0,
      k_timers = \<lparr>timers = (\<lambda>_. \<lparr>expires = 0, tproc = 0\<rparr>), timer_list = 0x600, timer_links = \<lparr>nxt = id, prv = id\<rparr>\<rparr>,
      k_ticks = 0, k_locals = 0x5000,
      k_sym = \<lparr>boot_pgdir_va = 0, boot_pgdir_pa = 0, bootstack = 0, kernel_thread_entry = 0, forkret = 0, init_main = 0\<rparr>,
      k_cons = \<lparr>cons_buf = replicate 512 0, cons_rpos = 0, cons_wpos = 0\<rparr>, k_input = [],
      k_waits = (\<lambda>_. \<lparr>wproc = 0, wakeup_flags = 0, wait_queue = 0\<rparr>), k_wlinks = \<lparr>nxt = id, prv = id\<rparr>, k_stdin_queue = 0x7000,
      initproc = 0x100\<rparr>"

lemma demo_tables: "tables_inv 0x900 demo_kids (k_tree demo_kernel)"
proof -
  have m: "members 0x900 demo_tree = {0x900, 0x400, 0x300, 0x200, 0x100}" by (simp add: members_def demo_tree_def)
  have "family (pnodes demo_tree) {0x900, 0x400, 0x300, 0x200, 0x100} 0x900 demo_kids"
    by (auto simp: family_def demo_tree_def demo_nodes_def demo_node_def demo_kids_def)
  moreover have "hash_inv demo_tree" by (auto simp: hash_inv_def demo_tree_def inj_on_def demo_nodes_def demo_node_def)
  moreover have "pid_inv demo_tree" by (auto simp: pid_inv_def pids_def demo_tree_def demo_nodes_def demo_node_def MAX_PID_def)
  ultimately have "tables_inv 0x900 demo_kids demo_tree" unfolding tables_inv_def m by (simp add: demo_tree_def)
  then show ?thesis by (simp add: demo_kernel_def)
qed

lemma demo_ready: "sched_inv lready (k_sched demo_kernel) {}"
proof -
  have "lq (k_sched demo_kernel) []"
    by (simp add: lq_def ring_inv_def clist_def list_empty_def demo_kernel_def)
  then have "lready (k_sched demo_kernel) {}" unfolding lready_def by (intro exI [of _ "[]"]) simp
  then show ?thesis by (auto simp: sched_inv_def demo_kernel_def alloc_proc_fields_def)
qed

theorem do_exit_hands_over_witness:
  "\<exists>k'. do_exit default_sched_class 3 demo_kernel = Some k' \<and>
    tables_inv 0x900 (demo_kids(0x200 := [], 0x100 := [0x300, 0x400, 0x200])) (k_tree k') \<and>
    state (procs (k_sched k') 0x200) = PROC_ZOMBIE \<and> state (procs (k_sched k') 0x100) = PROC_RUNNABLE"
proof -
  have rel: "release_resources demo_kernel = Some demo_kernel" by (simp add: release_resources_def demo_kernel_def)
  have k: "current (k_sched demo_kernel) = 0x200" "initproc demo_kernel = 0x100" "k_tree demo_kernel = demo_tree"
    "idleproc (k_sched demo_kernel) = 0x900" "rq_head (k_sched demo_kernel) = 2"
    by (simp_all add: demo_kernel_def)
  have wk: "wakeable (k_sched demo_kernel) 0x100" "wait_state (procs (k_sched demo_kernel) 0x100) = WT_CHILD"
    by (simp_all add: wakeable_def demo_kernel_def alloc_proc_fields_def)
  have par: "0x100 = p_parent (pnodes (k_tree demo_kernel) 0x200)" by (simp add: k demo_tree_def demo_nodes_def demo_node_def)
  show ?thesis
    using do_exit_hands_over [OF rel demo_tables k(1) [symmetric] _ _ _ _ par demo_ready k(4), of 3] wk
    by (auto simp: k demo_tree_def demo_kids_def)
qed

lemmas demo_page_simps = SetPageProperty_def ClearPageProperty_def set_property_def set_page_ref_def upd_page_def
  PageReserved_def PageProperty_def atomic_test_bit_def atomic_set_bit_def atomic_clear_bit_def PG_reserved_def PG_property_def

lemma demo_free_stack: "\<exists>a. default_free_pages 0x204 2 demo_area = Some a"
proof -
  have "\<exists>a. unuse_pages 2 0x204 demo_area = Some a \<and> free_links a = free_links demo_area \<and> free_list a = 1"
    by (simp add: demo_area_def demo_page_simps ensure_def eval_nat_numeral)
  then obtain a where a: "unuse_pages 2 0x204 demo_area = Some a" "free_links a = free_links demo_area" "free_list a = 1" by blast
  have "\<exists>b. insert_block 0x204 (SetPageProperty 0x204 (set_property 0x204 (of_nat 2) a)\<lparr>nr_free := nr_free a + of_nat 2\<rparr>) = Some b"
    using a(2,3) by (simp add: insert_block_def insert_loop.simps demo_area_def demo_page_simps list_empty_def list_next_def)
  then show ?thesis using a by (auto simp: default_free_pages_def ensure_def demo_page_simps split: prod.splits)
qed

theorem do_wait_collects_witness:
  "\<exists>k'. do_wait default_sched_class 0 0xFFFFFFFFC0207000 demo_kernel = Some (Inr (0, k')) \<and>
    0x300 \<notin> members 0x900 (k_tree k') \<and> find_proc 3 (k_tree k') = 0 \<and>
    bytes_at (kmem (k_fs k')) 0xFFFFFFFFC0207000 4 = le32 7"
proof -
  obtain a where "default_free_pages 0x204 2 demo_area = Some a" using demo_free_stack by blast
  then obtain k1 where stack: "put_kstack 0x300 demo_kernel = Some k1"
    by (auto simp: put_kstack_def demo_kernel_def kva2page_def PADDR_def pa2page_def PPN_def KERNBASE_def va_pa_offset_def
        nbase_def free_run_def KSTACKPAGE_def)
  have k: "current (k_sched demo_kernel) = 0x200" "initproc demo_kernel = 0x100" "k_tree demo_kernel = demo_tree"
    "idleproc (k_sched demo_kernel) = 0x900" "exit_code (procs (k_sched demo_kernel) 0x300) = 7"
    by (simp_all add: demo_kernel_def)
  have z: "find (\<lambda>c. state (procs (k_sched demo_kernel) c) = PROC_ZOMBIE) (demo_kids 0x200) = Some 0x300"
    by (simp add: demo_kernel_def demo_kids_def)
  have m: "0x200 \<in> members 0x900 (k_tree demo_kernel)" by (simp add: k members_def demo_tree_def)
  have n: "p_pid (pnodes (k_tree demo_kernel) 0x300) = 3" by (simp add: k demo_tree_def demo_nodes_def demo_node_def)
  have chk: "(if (0xFFFFFFFFC0207000 :: addr) \<noteq> 0
      then user_mem_check (q_mm (cur_px demo_kernel)) (of_nat 0xFFFFFFFFC0207000) 4 True (k_vm demo_kernel)
      else Some (True, k_vm demo_kernel)) = Some (True, k_vm demo_kernel)"
    by (simp add: user_mem_check_def cur_px_def demo_kernel_def KERN_ACCESS_def KERNBASE_def KERNTOP_def)
  have stack': "put_kstack 0x300 (demo_kernel\<lparr>k_vm := k_vm demo_kernel\<rparr>) = Some k1" using stack by simp
  show ?thesis
    using do_wait_collects [OF chk demo_tables k(1) [symmetric] m z _ _ k(4) _ _ stack', where cls = default_sched_class]
    by (auto simp: n k(2,5) demo_kids_def MAX_PID_def)
qed

lemma demo_alloc:
  "\<exists>a. default_alloc_pages 2 demo_area = Some (Some 0x210, a)"
proof -
  have "first_fit_find 2 1 demo_area = Some (Some 0x210)"
    by (subst first_fit_find.simps) (simp add: demo_area_def list_next_def)
  then have "default_alloc_pages 2 demo_area = Some (take_block (Some 0x210) 2 demo_area)"
    by (simp add: default_alloc_pages_def ensure_def) (simp add: demo_area_def)
  then show ?thesis by (simp add: take_block_def Let_def)
qed

lemma demo_fork:
  "\<exists>k'. do_fork default_sched_class (CLONE_VM OR CLONE_FS) 0 (k_tfs demo_kernel 0) demo_kernel = Some (5, k')"
proof -
  obtain a where a: "default_alloc_pages 2 demo_area = Some (Some 0x210, a)" using demo_alloc by blast
  show ?thesis
    by (simp add: do_fork_def alloc_proc_def setup_kstack_def copy_mm_def copy_files_def copy_thread_def enter_proc_def
        Let_def vm_kmalloc_def upd_px_def cur_px_def alloc_pages_def demo_kernel_def demo_tree_def MAX_PROCESS_def
        KSTACKPAGE_def a page2kva_def KADDR_def page2pa_def page2ppn_def PPN_def nbase_def CLONE_FS_def CLONE_VM_def
        ensure_def get_pid_def MAX_PID_def set_pid_def with_sched_def wakeup_proc_def sched_class_enqueue_def
        default_sched_class_def RR_enqueue_def list_empty_def list_init_def alloc_proc_fields_def)
qed

theorem do_fork_all_or_nothing_witness:
  "\<exists>k' c. do_fork default_sched_class (CLONE_VM OR CLONE_FS) 0 (k_tfs demo_kernel 0) demo_kernel = Some (5, k') \<and>
    find_proc 5 (k_tree k') = c \<and> tables_inv 0x900 (demo_kids(0x200 := [c, 0x400, 0x300], c := [])) (k_tree k') \<and>
    state (procs (k_sched k') c) = PROC_RUNNABLE"
proof -
  obtain k' where f: "do_fork default_sched_class (CLONE_VM OR CLONE_FS) 0 (k_tfs demo_kernel 0) demo_kernel = Some (5, k')"
    using demo_fork by blast
  have k: "0x200 = current (k_sched demo_kernel)" "k_tree demo_kernel = demo_tree" "vm_heap (k_vm demo_kernel) = [0x500]"
    by (simp_all add: demo_kernel_def)
  have m: "0x200 \<in> members 0x900 (k_tree demo_kernel)" "\<forall>a\<in>set (vm_heap (k_vm demo_kernel)). a \<notin> members 0x900 (k_tree demo_kernel)"
    by (simp_all add: k(2,3) members_def demo_tree_def)
  have "demo_kids 0x200 = [0x400, 0x300]" by (simp add: demo_kids_def)
  then show ?thesis using do_fork_all_or_nothing [OF f demo_tables k(1) m] f by auto
qed

end
