(* ===== verification/Printfmt.thy ===== *)
theory Printfmt
  imports CString
begin

text \<open>
  Formatted output (\<^verbatim>\<open>libs/printfmt.c\<close>), in two views. \<open>vprintf_loop\<close> goes through the format as the
  code does, over any state that \<^verbatim>\<open>putch\<close> changes and in which the format and the strings are read while
  it prints; \<^verbatim>\<open>vsnprintf\<close> and \<^verbatim>\<open>snprintf\<close> run it over the buffer and the memory. \<open>vprintfmt\<close> is the text
  of a format: the list of the characters put, for a format given as the list of its characters up to and
  with the NUL and memory that does not change. \<open>vprintf_loop_text\<close> relates the two. The variable arguments
  are a list of words of 64 bits, as the machine passes them. \<^term>\<open>None\<close>: an argument or a character beyond
  the end is read, or the loop does not end. Widths and counts are not cut to 32 bits.
\<close>

definition text_bytes :: "string \<Rightarrow> u8 list" where
  "text_bytes str = map of_char str"

section \<open>Numbers\<close>

definition hex_digits :: "u8 list" where
  "hex_digits = text_bytes ''0123456789abcdef'' @ [0]"

definition do_div :: "u64 \<Rightarrow> u32 \<Rightarrow> (u64 \<times> u64) option" where
  "do_div n base = do { ensure (base \<noteq> 0); Some (n mod ucast base, n div ucast base) }"

partial_function (option) printnum :: "u64 \<Rightarrow> u32 \<Rightarrow> int \<Rightarrow> u8 \<Rightarrow> u8 list option" where [code]:
  "printnum num base width padc =
     Option.bind (do_div num base) (\<lambda>(rem, result).
       Option.bind (if num \<ge> ucast base then printnum result base (width - 1) padc
                    else Some (replicate (nat (width - 1)) padc)) (\<lambda>out.
         Option.bind (ensure (unat rem < length hex_digits)) (\<lambda>_.
           Some (out @ [hex_digits ! unat rem]))))"

section \<open>Escapes\<close>

record esc =
  e_padc :: u8
  e_width :: int
  e_precision :: int
  e_lflag :: nat
  e_altflag :: bool

definition esc0 :: esc where
  "esc0 = \<lparr>e_padc = 32, e_width = - 1, e_precision = - 1, e_lflag = 0, e_altflag = False\<rparr>"

definition is_digit :: "u8 \<Rightarrow> bool" where
  "is_digit c \<longleftrightarrow> 48 \<le> c \<and> c \<le> 57"

definition number_of :: "u8 list \<Rightarrow> int" where
  "number_of cs = foldl (\<lambda>p c. p * 10 + uint c - 48) 0 cs"

text \<open>The label \<^verbatim>\<open>process_precision\<close>.\<close>

definition process_precision :: "int \<Rightarrow> esc \<Rightarrow> esc" where
  "process_precision p e = (if e_width e < 0 then e\<lparr>e_width := p, e_precision := - 1\<rparr> else e\<lparr>e_precision := p\<rparr>)"

lemma length_dropWhile_less [termination_simp]:
  "length (dropWhile P xs) < Suc (length xs)"
  by (simp add: length_dropWhile_le le_imp_less_Suc)

text \<open>The label \<^verbatim>\<open>reswitch\<close>: flags up to the conversion character.\<close>

fun reswitch :: "u8 list \<Rightarrow> esc \<Rightarrow> u64 list \<Rightarrow> (u8 \<times> esc \<times> u8 list \<times> u64 list) option" where
  "reswitch [] e ap = None"
| "reswitch (ch # fmt) e ap =
     (if ch = 45 then reswitch fmt (e\<lparr>e_padc := 45\<rparr>) ap
      else if ch = 48 then reswitch fmt (e\<lparr>e_padc := 48\<rparr>) ap
      else if 49 \<le> ch \<and> ch \<le> 57 then
        reswitch (dropWhile is_digit fmt) (process_precision (number_of (ch # takeWhile is_digit fmt)) e) ap
      else if ch = 42 then
        (case ap of [] \<Rightarrow> None | a # ap \<Rightarrow> reswitch fmt (process_precision (sint (ucast a :: u32)) e) ap)
      else if ch = 46 then reswitch fmt (if e_width e < 0 then e\<lparr>e_width := 0\<rparr> else e) ap
      else if ch = 35 then reswitch fmt (e\<lparr>e_altflag := True\<rparr>) ap
      else if ch = 108 then reswitch fmt (e\<lparr>e_lflag := e_lflag e + 1\<rparr>) ap
      else Some (ch, e, fmt, ap))"

definition getuint :: "nat \<Rightarrow> u64 list \<Rightarrow> (u64 \<times> u64 list) option" where
  "getuint lflag ap =
     (case ap of [] \<Rightarrow> None
      | a # ap \<Rightarrow> Some (if lflag \<ge> 1 then a else ucast (ucast a :: u32), ap))"

definition getint :: "nat \<Rightarrow> u64 list \<Rightarrow> (u64 \<times> u64 list) option" where
  "getint lflag ap =
     (case ap of [] \<Rightarrow> None
      | a # ap \<Rightarrow> Some (if lflag \<ge> 1 then a else scast (ucast a :: u32), ap))"

definition put_int :: "u64 \<Rightarrow> int \<Rightarrow> u8 \<Rightarrow> u8 list option" where
  "put_int num width padc =
     (if num <s 0 then do { out \<leftarrow> printnum (- num) 10 width padc; Some (45 # out) }
      else printnum num 10 width padc)"

text \<open>The table \<^verbatim>\<open>error_string\<close> and the conversion \<^verbatim>\<open>%e\<close>.\<close>

definition MAXERROR :: int where [layout]: "MAXERROR = 24"

definition error_string :: "int \<Rightarrow> string option" where
  "error_string err =
     map_of [(1, ''unspecified error''), (2, ''bad process''), (3, ''invalid parameter''),
       (4, ''out of memory''), (5, ''out of processes''), (6, ''segmentation fault''),
       (8, ''invalid elf file''), (9, ''process is killed''), (10, ''panic failure''),
       (13, ''no such device''), (14, ''device not available''), (15, ''device/file is busy''),
       (16, ''no such file or directory''), (17, ''is a directory''), (18, ''not a directory''),
       (19, ''cross device link''), (20, ''unimplemented feature''), (21, ''illegal seek''),
       (22, ''too many files are open''), (23, ''file or directory already exists''),
       (24, ''directory is not empty'')] err"

definition put_error :: "u32 \<Rightarrow> u8 list option" where
  "put_error w = do {
     let err = (if w <s 0 then - w else w);
     ensure (\<not> err <s 0);
     case (if sint err > MAXERROR then None else error_string (sint err)) of
       None \<Rightarrow> do { out \<leftarrow> put_int (scast err) (- 1) 32; Some (text_bytes ''error '' @ out) }
     | Some str \<Rightarrow> Some (text_bytes str)
   }"

text \<open>Strings: padded on the left, cut to the precision, padded on the right.\<close>

definition put_string :: "mem \<Rightarrow> u64 \<Rightarrow> esc \<Rightarrow> u8 list" where
  "put_string m p e =
     (let lim = (if e_precision e < 0 then 2 ^ 64 - 1 else nat (e_precision e));
          cs = (if p = 0 then take lim (text_bytes ''(null)'') else bytes_at m (unat p) (strnlen m (unat p) lim));
          pad = nat (e_width e - int (length cs));
          shown = map (\<lambda>c. if e_altflag e \<and> (c < 32 \<or> c > 126) then 63 else c) cs
      in if e_padc e \<noteq> 45 then replicate pad (e_padc e) @ shown else shown @ replicate pad 32)"

text \<open>One conversion: the characters put and the arguments left, or that there is no such conversion.\<close>

definition convert :: "mem \<Rightarrow> u8 \<Rightarrow> esc \<Rightarrow> u64 list \<Rightarrow> (u8 list \<times> u64 list) option option" where
  "convert m ch e ap =
     (let num = (\<lambda>pre base ap. do {
            (n, ap) \<leftarrow> getuint (e_lflag e) ap; out \<leftarrow> printnum n base (e_width e) (e_padc e); Some (pre @ out, ap) })
      in
      if ch = 99 then Some (case ap of [] \<Rightarrow> None | a # ap \<Rightarrow> Some ([ucast a], ap))
      else if ch = 101 then
        Some (case ap of [] \<Rightarrow> None | a # ap \<Rightarrow> do { out \<leftarrow> put_error (ucast a); Some (out, ap) })
      else if ch = 115 then Some (case ap of [] \<Rightarrow> None | a # ap \<Rightarrow> Some (put_string m a e, ap))
      else if ch = 100 then
        Some (do { (n, ap) \<leftarrow> getint (e_lflag e) ap; out \<leftarrow> put_int n (e_width e) (e_padc e); Some (out, ap) })
      else if ch = 117 then Some (num [] 10 ap)
      else if ch = 111 then Some (num [] 8 ap)
      else if ch = 112 then
        Some (case ap of [] \<Rightarrow> None
              | a # ap \<Rightarrow> do { out \<leftarrow> printnum a 16 (e_width e) (e_padc e); Some ([48, 120] @ out, ap) })
      else if ch = 120 then Some (num [] 16 ap)
      else if ch = 37 then Some (Some ([37], ap))
      else None)"

lemma reswitch_shorter:
  "reswitch fmt e ap = Some (ch, e', fmt', ap') \<Longrightarrow> length fmt' < length fmt"
proof (induction fmt e ap rule: reswitch.induct)
  case (2 c fmt e ap)
  have "length (dropWhile is_digit fmt) \<le> length fmt" by (rule length_dropWhile_le)
  with 2 show ?case
    by (auto split: if_splits list.splits simp: less_Suc_eq)
qed simp

text \<open>
  The text of a format. An escape with no such conversion puts \<^verbatim>\<open>%\<close> and starts again behind it, flags
  and all.
\<close>

function vprintfmt :: "mem \<Rightarrow> u8 list \<Rightarrow> u64 list \<Rightarrow> u8 list option" where
  "vprintfmt m [] ap = None"
| "vprintfmt m (ch # fmt) ap =
     (if ch \<noteq> 37 then
        (if ch = 0 then Some [] else map_option (Cons ch) (vprintfmt m fmt ap))
      else
        (case reswitch fmt esc0 ap of None \<Rightarrow> None
         | Some (c, e, rest, ap') \<Rightarrow>
             (case convert m c e ap' of
                None \<Rightarrow> map_option (Cons 37) (vprintfmt m fmt ap')
              | Some None \<Rightarrow> None
              | Some (Some (out, ap'')) \<Rightarrow> map_option (append out) (vprintfmt m rest ap''))))"
  by pat_completeness auto
termination
  by (relation "measure (\<lambda>(m, fmt, ap). length fmt)") (auto dest: reswitch_shorter)

section \<open>Character by character\<close>

text \<open>
  How \<^verbatim>\<open>vprintfmt\<close> goes through a format whose characters, and those of the strings, may change while
  it prints: \<open>fetch\<close> reads a character of the format and \<open>rd\<close> the memory in a state, and every
  \<open>putch\<close> changes the state. Nothing is put within an escape.
\<close>

record 's printer =
  fetch :: "'s \<Rightarrow> nat \<Rightarrow> u8 option"
  rd :: "'s \<Rightarrow> mem"
  putch :: "u8 \<Rightarrow> 's \<Rightarrow> 's"

partial_function (option) digits_at :: "(nat \<Rightarrow> u8 option) \<Rightarrow> u8 \<Rightarrow> nat \<Rightarrow> int \<Rightarrow> (int \<times> nat) option" where [code]:
  "digits_at g ch i p =
     Option.bind (g i) (\<lambda>c.
       if is_digit c then digits_at g c (i + 1) (p * 10 + uint ch - 48) else Some (p * 10 + uint ch - 48, i))"

partial_function (option) reswitch_at ::
    "(nat \<Rightarrow> u8 option) \<Rightarrow> nat \<Rightarrow> esc \<Rightarrow> u64 list \<Rightarrow> (u8 \<times> esc \<times> nat \<times> u64 list) option" where [code]:
  "reswitch_at g i e ap =
     Option.bind (g i) (\<lambda>ch.
       if ch = 45 then reswitch_at g (i + 1) (e\<lparr>e_padc := 45\<rparr>) ap
       else if ch = 48 then reswitch_at g (i + 1) (e\<lparr>e_padc := 48\<rparr>) ap
       else if 49 \<le> ch \<and> ch \<le> 57 then
         Option.bind (digits_at g ch (i + 1) 0) (\<lambda>(p, j). reswitch_at g j (process_precision p e) ap)
       else if ch = 42 then
         (case ap of [] \<Rightarrow> None | a # ap \<Rightarrow> reswitch_at g (i + 1) (process_precision (sint (ucast a :: u32)) e) ap)
       else if ch = 46 then reswitch_at g (i + 1) (if e_width e < 0 then e\<lparr>e_width := 0\<rparr> else e) ap
       else if ch = 35 then reswitch_at g (i + 1) (e\<lparr>e_altflag := True\<rparr>) ap
       else if ch = 108 then reswitch_at g (i + 1) (e\<lparr>e_lflag := e_lflag e + 1\<rparr>) ap
       else Some (ch, e, i + 1, ap))"

text \<open>Back to behind the last \<^verbatim>\<open>%\<close>.\<close>

fun scan_back :: "(nat \<Rightarrow> u8 option) \<Rightarrow> nat \<Rightarrow> nat option" where
  "scan_back g 0 = None"
| "scan_back g (Suc k) = Option.bind (g k) (\<lambda>c. if c = 37 then Some (Suc k) else scan_back g k)"

partial_function (option) put_chars ::
    "'s printer \<Rightarrow> bool \<Rightarrow> addr \<Rightarrow> int \<Rightarrow> int \<Rightarrow> 's \<Rightarrow> (int \<times> 's) option" where [code]:
  "put_chars d alt p width prec s =
     (if rd d s p \<noteq> 0 \<and> (prec < 0 \<or> prec - 1 \<ge> 0)
      then put_chars d alt (Suc p) (width - 1) (if prec < 0 then prec else prec - 1)
        (putch d (if alt \<and> (rd d s p < 32 \<or> rd d s p > 126) then 63 else rd d s p) s)
      else Some (width, s))"

definition put_str :: "'s printer \<Rightarrow> u64 \<Rightarrow> esc \<Rightarrow> 's \<Rightarrow> 's option" where
  "put_str d a e s =
     (if a = 0 then Some (fold (putch d) (put_string (rd d s) a e) s)
      else do {
        let n = strnlen (rd d s) (unat a) (if e_precision e < 0 then 2 ^ 64 - 1 else nat (e_precision e));
        let left = (e_width e > 0 \<and> e_padc e \<noteq> 45);
        let width = (if left then e_width e - int n else e_width e);
        let pad = (if left then nat width else 0);
        let s = fold (putch d) (replicate pad (e_padc e)) s;
        (width, s) \<leftarrow> put_chars d (e_altflag e) (unat a) (width - int pad) (e_precision e) s;
        Some (fold (putch d) (replicate (nat width) 32) s)
      })"

partial_function (option) vprintf_loop :: "'s printer \<Rightarrow> nat \<Rightarrow> u64 list \<Rightarrow> 's \<Rightarrow> 's option" where [code]:
  "vprintf_loop d i ap s =
     Option.bind (fetch d s i) (\<lambda>ch.
       if ch \<noteq> 37 then (if ch = 0 then Some s else vprintf_loop d (i + 1) ap (putch d ch s))
       else Option.bind (reswitch_at (fetch d s) (i + 1) esc0 ap) (\<lambda>(c, e, j, ap).
         if c = 115 then
           (case ap of [] \<Rightarrow> None
            | a # ap \<Rightarrow> Option.bind (put_str d a e s) (\<lambda>s. vprintf_loop d j ap s))
         else (case convert (rd d s) c e ap of
             None \<Rightarrow> Option.bind (scan_back (fetch d (putch d 37 s)) (j - 1)) (\<lambda>i. vprintf_loop d i ap (putch d 37 s))
           | Some r \<Rightarrow> Option.bind r (\<lambda>(out, ap). vprintf_loop d j ap (fold (putch d) out s)))))"

section \<open>Into a buffer\<close>

record sprintbuf =
  sp_buf :: u64
  sp_ebuf :: u64
  sp_cnt :: int

definition sprintputch :: "u8 \<Rightarrow> sprintbuf \<times> mem \<Rightarrow> sprintbuf \<times> mem" where
  "sprintputch ch = (\<lambda>(b, m).
     (let b = b\<lparr>sp_cnt := sp_cnt b + 1\<rparr> in
      if sp_buf b < sp_ebuf b then (b\<lparr>sp_buf := sp_buf b + 1\<rparr>, m(unat (sp_buf b) := ch)) else (b, m)))"

text \<open>
  \<open>vsnprintf_of\<close> is the body of \<^verbatim>\<open>vsnprintf\<close>, whose format is in memory, and of \<^verbatim>\<open>snprintf\<close>, whose
  callers give literals, which lie among the constants of the kernel.
\<close>

definition into_buffer :: "(sprintbuf \<times> mem \<Rightarrow> nat \<Rightarrow> u8 option) \<Rightarrow> (sprintbuf \<times> mem) printer" where
  "into_buffer f = \<lparr>fetch = f, rd = snd, putch = sprintputch\<rparr>"

definition vsnprintf_of :: "(sprintbuf \<times> mem \<Rightarrow> nat \<Rightarrow> u8 option) \<Rightarrow> u64 \<Rightarrow> u64 \<Rightarrow> u64 list \<Rightarrow> mem \<Rightarrow> (int \<times> mem) option" where
  "vsnprintf_of f str n ap m =
     (if str = 0 \<or> str > str + n - 1 then Some (- E_INVAL, m)
      else do {
        (b, m) \<leftarrow> vprintf_loop (into_buffer f) 0 ap (\<lparr>sp_buf = str, sp_ebuf = str + n - 1, sp_cnt = 0\<rparr>, m);
        Some (sp_cnt b, m(unat (sp_buf b) := 0))
      })"

definition vsnprintf :: "u64 \<Rightarrow> u64 \<Rightarrow> addr \<Rightarrow> u64 list \<Rightarrow> mem \<Rightarrow> (int \<times> mem) option" where
  "vsnprintf str n fmt ap m = vsnprintf_of (\<lambda>(b, m) i. Some (m (fmt + i))) str n ap m"

text \<open>
  \<^verbatim>\<open>snprintf\<close>, and the console's \<^verbatim>\<open>cprintf\<close>: what it puts and how much. Its \<^verbatim>\<open>putch\<close> writes no
  memory, so what it puts is the text of the format (\<open>vprintf_console\<close>).
\<close>

definition literal :: "string \<Rightarrow> nat \<Rightarrow> u8 option" where
  "literal fmt i = (let cs = text_bytes fmt @ [0] in if i < length cs then Some (cs ! i) else None)"

definition snprintf :: "u64 \<Rightarrow> u64 \<Rightarrow> string \<Rightarrow> u64 list \<Rightarrow> mem \<Rightarrow> (int \<times> mem) option" where
  "snprintf str n fmt ap m = vsnprintf_of (\<lambda>_. literal fmt) str n ap m"

definition cprintf :: "string \<Rightarrow> u64 list \<Rightarrow> mem \<Rightarrow> (int \<times> u8 list) option" where
  "cprintf fmt ap m = do {
     out \<leftarrow> vprintfmt m (text_bytes fmt @ [0]) ap;
     Some (int (length out), out)
   }"

section \<open>What they print\<close>

lemma unat_ucast_u64 [simp]: "unat (ucast (w :: u32) :: u64) = unat w"
proof -
  have "unat w < 2 ^ 64" by (rule order_less_trans [OF unsigned_less]) simp
  then show ?thesis by (simp add: unsigned_ucast_eq take_bit_eq_mod)
qed

lemma printnum_step:
  assumes "2 \<le> base" and "base \<le> 16"
  shows "printnum num base width padc =
    (if num \<ge> ucast base
     then map_option (\<lambda>out. out @ [hex_digits ! (unat num mod unat base)]) (printnum (num div ucast base) base (width - 1) padc)
     else Some (replicate (nat (width - 1)) padc @ [hex_digits ! (unat num mod unat base)]))"
proof -
  have "unat (num mod ucast base) = unat num mod unat base" by (simp add: unat_mod_distrib)
  moreover have "unat num mod unat base < unat base" using assms(1) by (simp add: word_le_nat_alt)
  moreover have "unat base \<le> 16" using assms(2) by (simp add: word_le_nat_alt)
  ultimately have d: "unat (num mod ucast base) < length hex_digits"
    by (simp add: hex_digits_def text_bytes_def)
  have "base \<noteq> 0" using assms(1) by auto
  then show ?thesis using d \<open>unat (num mod ucast base) = _\<close>
    by (subst printnum.simps) (auto simp: do_div_def map_option_case split: option.splits)
qed

text \<open>The digits of a number: its value in the base, and no leading zero.\<close>

definition digits_of :: "nat \<Rightarrow> nat list \<Rightarrow> nat \<Rightarrow> bool" where
  "digits_of b ds n \<longleftrightarrow> ds \<noteq> [] \<and> foldl (\<lambda>a d. a * b + d) 0 ds = n \<and> (\<forall>d\<in>set ds. d < b) \<and> (hd ds = 0 \<longrightarrow> n = 0)"

lemma digits_of_single: "n < b \<Longrightarrow> digits_of b [n] n"
  by (simp add: digits_of_def)

lemma digits_of_snoc:
  assumes "digits_of b ds (n div b)" and "b \<le> n" and "0 < b"
  shows "digits_of b (ds @ [n mod b]) n"
proof -
  have "n div b * b + n mod b = n" by (rule div_mult_mod_eq)
  moreover have "hd ds \<noteq> 0" using assms div_greater_zero_iff [of n b] by (auto simp: digits_of_def)
  ultimately show ?thesis using assms by (auto simp: digits_of_def)
qed

text \<open>
  C24: \<^verbatim>\<open>printnum\<close> in a base from 2 to 16 ends and prints the digits of the number in that base,
  without leading zeros, behind the padding that fills up to the width.
\<close>

theorem printnum_digits:
  assumes "2 \<le> base" and "base \<le> 16"
  shows "\<exists>ds. digits_of (unat base) ds (unat num)
    \<and> printnum num base width padc =
        Some (replicate (nat (width - int (length ds))) padc @ map ((!) hex_digits) ds)"
proof (induction "unat num" arbitrary: num width rule: less_induct)
  case less
  have b2: "2 \<le> unat base" using assms(1) by (simp add: word_le_nat_alt)
  show ?case
  proof (cases "unat base \<le> unat num")
    case True
    then have c: "num \<ge> ucast base" by (simp add: word_le_nat_alt)
    have u: "unat (num div ucast base) = unat num div unat base" by (simp add: unat_div_distrib)
    have "unat (num div ucast base) < unat num" using True b2 u by simp
    from less [OF this, of "width - 1"] obtain ds where
      ds: "digits_of (unat base) ds (unat num div unat base)"
      and p: "printnum (num div ucast base) base (width - 1) padc =
        Some (replicate (nat (width - 1 - int (length ds))) padc @ map ((!) hex_digits) ds)"
      using u by auto
    have "digits_of (unat base) (ds @ [unat num mod unat base]) (unat num)"
      using digits_of_snoc [OF ds True] b2 by simp
    moreover have "width - 1 - int (length ds) = width - int (length (ds @ [unat num mod unat base]))" by simp
    ultimately show ?thesis using p c
      by (intro exI [of _ "ds @ [unat num mod unat base]"]) (simp add: printnum_step [OF assms])
  next
    case False
    then have c: "\<not> num \<ge> ucast base" by (simp add: word_le_nat_alt)
    have "printnum num base width padc = Some (replicate (nat (width - int (length [unat num]))) padc @ map ((!) hex_digits) [unat num])"
      using False by (simp add: printnum_step [OF assms] c)
    with digits_of_single [of "unat num" "unat base"] False show ?thesis by (metis not_le)
  qed
qed

theorem printnum_digits_witness:
  "\<exists>ds. digits_of 16 ds 255 \<and> printnum 255 16 4 48 = Some (replicate (nat (4 - int (length ds))) 48 @ map ((!) hex_digits) ds)"
  using printnum_digits [of 16 255 4 48] by simp

text \<open>In base 1, which the comment of \<^verbatim>\<open>printnum\<close> allows, the recursion does not end.\<close>

lemma printnum_base_1:
  assumes "num \<noteq> 0"
  shows "printnum num 1 width padc = None"
proof -
  have "b = 1 \<longrightarrow> k = 0" if run: "printnum k b w p = Some y" for k b w p y
  proof (rule printnum.raw_induct [OF _ run, where P = "\<lambda>k b w p y. b = 1 \<longrightarrow> k = 0"])
    fix pn :: "u64 \<Rightarrow> u32 \<Rightarrow> int \<Rightarrow> u8 \<Rightarrow> u8 list option" and k :: u64 and b w p y
    assume IH: "\<And>k b w p y. pn k b w p = Some y \<Longrightarrow> b = 1 \<longrightarrow> k = 0"
      and body: "Option.bind (do_div k b) (\<lambda>(rem, result).
         Option.bind (if k \<ge> ucast b then pn result b (w - 1) p else Some (replicate (nat (w - 1)) p)) (\<lambda>out.
           Option.bind (ensure (unat rem < length hex_digits)) (\<lambda>_. Some (out @ [hex_digits ! unat rem])))) = Some y"
    show "b = 1 \<longrightarrow> k = 0"
    proof (intro impI, rule ccontr)
      assume b: "b = 1" and k: "k \<noteq> 0"
      then have ge: "k \<ge> ucast b" by (simp add: word_le_nat_alt unat_gt_0 Suc_leI)
      from body b ge obtain out where "pn (k div 1) 1 (w - 1) p = Some out"
        by (auto simp: do_div_def bind_eq_Some_conv)
      from IH [OF this] k show False by simp
    qed
  qed
  with assms show ?thesis by (cases "printnum num 1 width padc") auto
qed

lemma unat_less_64: "unat (a :: u64) < 2 ^ 64"
  by (rule order_less_le_trans [OF unsigned_less]) simp

lemma unat_plus_of_nat:
  assumes "unat (a :: u64) + k < 2 ^ 64"
  shows "unat (a + of_nat k) = unat a + k"
  using assms by (simp add: unat_word_ariths take_bit_eq_mod unsigned_of_nat)

lemma fold_sprintputch:
  "p \<le> e \<Longrightarrow> fold sprintputch out (\<lparr>sp_buf = p, sp_ebuf = e, sp_cnt = c\<rparr>, m) =
    (let n = min (length out) (unat e - unat p) in
     (\<lparr>sp_buf = p + of_nat n, sp_ebuf = e, sp_cnt = c + int (length out)\<rparr>,
      \<lambda>a. if unat p \<le> a \<and> a < unat p + n then out ! (a - unat p) else m a))"
proof (induction out arbitrary: p c m)
  case (Cons ch out)
  show ?case
  proof (cases "p < e")
    case True
    then have s: "unat (p + 1) = Suc (unat p)"
      using unat_plus_of_nat [of p 1] unat_less_64 [of e] by (simp add: word_less_nat_alt)
    have le: "p + 1 \<le> e" using True s by (simp add: word_le_nat_alt word_less_nat_alt)
    have d: "min (length (ch # out)) (unat e - unat p) = Suc (min (length out) (unat e - unat (p + 1)))"
      using True s by (simp add: word_less_nat_alt)
    let ?n = "min (length out) (unat e - unat (p + 1))"
    have "fold sprintputch (ch # out) (\<lparr>sp_buf = p, sp_ebuf = e, sp_cnt = c\<rparr>, m) =
        fold sprintputch out (\<lparr>sp_buf = p + 1, sp_ebuf = e, sp_cnt = c + 1\<rparr>, m(unat p := ch))"
      using True by (simp add: sprintputch_def)
    also have "\<dots> = (\<lparr>sp_buf = p + 1 + of_nat ?n, sp_ebuf = e, sp_cnt = c + 1 + int (length out)\<rparr>,
        \<lambda>a. if unat (p + 1) \<le> a \<and> a < unat (p + 1) + ?n then out ! (a - unat (p + 1)) else (m(unat p := ch)) a)"
      by (simp only: Cons.IH [OF le] Let_def)
    also have "(\<lambda>a. if unat (p + 1) \<le> a \<and> a < unat (p + 1) + ?n then out ! (a - unat (p + 1)) else (m(unat p := ch)) a) =
        (\<lambda>a. if unat p \<le> a \<and> a < unat p + Suc ?n then (ch # out) ! (a - unat p) else m a)"
      unfolding s by (rule ext) (auto simp: nth_Cons' Suc_le_eq)
    finally show ?thesis unfolding d Let_def by (simp add: add.assoc)
  next
    case False
    with Cons.prems have "p = e" by simp
    then have "fold sprintputch (ch # out) (\<lparr>sp_buf = p, sp_ebuf = e, sp_cnt = c\<rparr>, m) =
        fold sprintputch out (\<lparr>sp_buf = p, sp_ebuf = e, sp_cnt = c + 1\<rparr>, m)"
      by (simp add: sprintputch_def)
    with Cons.IH [OF Cons.prems, of "c + 1" m] \<open>p = e\<close> show ?thesis
      by (simp add: Let_def add.assoc) (auto simp: fun_eq_iff)
  qed
qed (auto simp: fun_eq_iff)

section \<open>The text, character by character\<close>

lemma drop_Cons_conv: "drop i l = c # r \<Longrightarrow> i < length l \<and> l ! i = c \<and> r = drop (Suc i) l"
  by (metis Cons_nth_drop_Suc drop_all leI list.distinct(1) list.inject)

lemma digits_at_spec:
  assumes g: "\<And>k. k < length l \<Longrightarrow> g k = Some (l ! k)" and "dropWhile is_digit (drop i l) \<noteq> []"
  shows "digits_at g ch i p =
    Some (foldl (\<lambda>p c. p * 10 + uint c - 48) (p * 10 + uint ch - 48) (takeWhile is_digit (drop i l)),
      length l - length (dropWhile is_digit (drop i l)))"
  using assms(2)
proof (induction "length l - i" arbitrary: i ch p)
  case 0
  then show ?case by simp
next
  case (Suc n)
  then obtain c r where d: "drop i l = c # r" by (cases "drop i l") auto
  note D = drop_Cons_conv [OF d]
  show ?case
  proof (cases "is_digit c")
    case True
    have "digits_at g c (Suc i) (p * 10 + uint ch - 48) =
      Some (foldl (\<lambda>p c. p * 10 + uint c - 48) ((p * 10 + uint ch - 48) * 10 + uint c - 48) (takeWhile is_digit (drop (Suc i) l)),
        length l - length (dropWhile is_digit (drop (Suc i) l)))"
      using Suc.hyps(1) [of "Suc i"] Suc.hyps(2) Suc.prems D True d by simp
    then show ?thesis using D True d g [of i] by (subst digits_at.simps) simp
  next
    case False
    have "length l - length (drop i l) = i" using D by simp
    then show ?thesis using D False d g [of i] by (subst digits_at.simps) simp
  qed
qed

lemma drop_dropWhile: "dropWhile P (drop i l) = drop (length l - length (dropWhile P (drop i l))) l"
proof -
  let ?a = "take i l @ takeWhile P (drop i l)" and ?z = "dropWhile P (drop i l)"
  have l: "?a @ ?z = l" by simp
  have "drop (length (a @ z) - length z) (a @ z) = z" for a z :: "'a list" by simp
  from this [of ?a ?z] show ?thesis unfolding l by (rule sym)
qed


lemma reswitch_at_spec:
  assumes g: "\<And>k. k < length l \<Longrightarrow> g k = Some (l ! k)" and r: "reswitch (drop i l) e ap = Some (c, e', rest, ap')"
  shows "\<exists>j. i < j \<and> j \<le> length l \<and> rest = drop j l \<and> (\<forall>k\<in>{i..<j - 1}. l ! k \<noteq> 37) \<and>
    reswitch_at g i e ap = Some (c, e', j, ap')"
  using r
proof (induction "length l - i" arbitrary: i e ap rule: less_induct)
  case less
  obtain ch fmt where d: "drop i l = ch # fmt" using less.prems by (cases "drop i l") simp_all
  note D = drop_Cons_conv [OF d]
  have gi: "g i = Some ch" using g D by simp
  have step: ?case if "i < i'" "\<forall>k\<in>{i..<i'}. l ! k \<noteq> 37" "reswitch (drop i' l) e1 ap1 = Some (c, e', rest, ap')"
    "reswitch_at g i e ap = reswitch_at g i' e1 ap1" for i' e1 ap1
  proof -
    note st = that
    have "length l - i' < length l - i" using st(1) D diff_less_mono2 by blast
    then obtain j where j: "i' < j" "j \<le> length l" "rest = drop j l" "\<forall>k\<in>{i'..<j - 1}. l ! k \<noteq> 37"
      "reswitch_at g i' e1 ap1 = Some (c, e', j, ap')" using less.hyps [OF _ st(3)] by blast
    have "\<forall>k\<in>{i..<j - 1}. l ! k \<noteq> 37"
    proof
      fix k assume "k \<in> {i..<j - 1}"
      then show "l ! k \<noteq> 37" using st(2) j(4) by (cases "k < i'") auto
    qed
    then show ?thesis using j st(1,4) by (intro exI [of _ j]) simp
  qed
  note R = less.prems [unfolded d]
  note unfold = reswitch_at.simps [of g i e ap]
  consider "ch = 45" | "ch = 48" | "49 \<le> ch \<and> ch \<le> 57" | "ch = 42" | "ch = 46" | "ch = 35" | "ch = 108"
    | "ch \<noteq> 45 \<and> ch \<noteq> 48 \<and> \<not> (49 \<le> ch \<and> ch \<le> 57) \<and> ch \<noteq> 42 \<and> ch \<noteq> 46 \<and> ch \<noteq> 35 \<and> ch \<noteq> 108" by blast
  then show ?case
  proof cases
    case 1
    then show ?thesis using R D gi unfold by (intro step [of "Suc i" "e\<lparr>e_padc := 45\<rparr>" ap]) (simp_all add: atLeastLessThanSuc_atLeastAtMost)
  next
    case 2
    then show ?thesis using R D gi unfold by (intro step [of "Suc i" "e\<lparr>e_padc := 48\<rparr>" ap]) (simp_all add: atLeastLessThanSuc_atLeastAtMost)
  next
    case 3
    let ?j = "length l - length (dropWhile is_digit fmt)" and ?p = "number_of (ch # takeWhile is_digit fmt)"
    have n: "ch \<noteq> 45" "ch \<noteq> 48" "ch \<noteq> 37" using 3 by auto
    have w: "dropWhile is_digit fmt = drop ?j l" using drop_dropWhile [of is_digit "Suc i" l] D by simp
    have R3: "reswitch (drop ?j l) (process_precision ?p e) ap = Some (c, e', rest, ap')"
      using R 3 n w by simp
    have "dropWhile is_digit fmt \<noteq> []"
    proof
      assume z: "dropWhile is_digit fmt = []"
      have "reswitch (dropWhile is_digit fmt) (process_precision ?p e) ap = Some (c, e', rest, ap')" using R 3 n by simp
      then show False unfolding z by simp
    qed
    then have ne: "dropWhile is_digit (drop (Suc i) l) \<noteq> []" using D by simp
    have at: "digits_at g ch (i + 1) 0 = Some (?p, ?j)"
      using digits_at_spec [OF g ne, of ch 0] D by (simp add: number_of_def)
    have le: "length (dropWhile is_digit fmt) \<le> length l - Suc i" using length_dropWhile_le [of is_digit fmt] D by simp
    have dig: "l ! k \<noteq> 37" if k: "k \<in> {i..<?j}" for k
    proof (cases "k = i")
      case True
      then show ?thesis using D n(3) by simp
    next
      case False
      have len: "length (takeWhile is_digit fmt) + length (dropWhile is_digit fmt) = length fmt"
        by (simp only: length_append [symmetric] takeWhile_dropWhile_id)
      have k2: "k - Suc i < length (takeWhile is_digit fmt)" using k False len D by auto
      then have "is_digit (fmt ! (k - Suc i))" using nth_mem [OF k2] by (metis set_takeWhileD takeWhile_nth)
      moreover have "fmt ! (k - Suc i) = l ! k" using D False k by simp
      ultimately show ?thesis by (auto simp: is_digit_def)
    qed
    show ?thesis
      by (rule step [OF _ _ R3]) (use le D dig unfold gi n 3 at in auto)
  next
    case 4
    then obtain a vs where "ap = a # vs" using R by (cases ap) simp_all
    then show ?thesis using 4 R D gi unfold
      by (intro step [of "Suc i" "process_precision (sint (ucast a :: u32)) e" vs]) (simp_all add: atLeastLessThanSuc_atLeastAtMost)
  next
    case 5
    then show ?thesis using R D gi unfold
      by (intro step [of "Suc i" "if e_width e < 0 then e\<lparr>e_width := 0\<rparr> else e" ap]) (simp_all add: atLeastLessThanSuc_atLeastAtMost)
  next
    case 6
    then show ?thesis using R D gi unfold by (intro step [of "Suc i" "e\<lparr>e_altflag := True\<rparr>" ap]) (simp_all add: atLeastLessThanSuc_atLeastAtMost)
  next
    case 7
    then show ?thesis using R D gi unfold
      by (intro step [of "Suc i" "e\<lparr>e_lflag := e_lflag e + 1\<rparr>" ap]) (simp_all add: atLeastLessThanSuc_atLeastAtMost)
  next
    case 8
    then show ?thesis using R D gi unfold by (intro exI [of _ "Suc i"]) (cases "49 \<le> ch"; simp)
  qed
qed

lemma scan_back_spec:
  "\<lbrakk>\<And>k. k < length l \<Longrightarrow> g k = Some (l ! k); 0 < i; i \<le> j; j \<le> length l; l ! (i - 1) = 37; \<forall>k\<in>{i..<j}. l ! k \<noteq> 37\<rbrakk> \<Longrightarrow>
    scan_back g j = Some i"
proof (induction j)
  case (Suc j)
  then show ?case by (cases "i = Suc j") (auto simp: le_Suc_eq)
qed simp

definition string_len :: "mem \<Rightarrow> addr \<Rightarrow> int \<Rightarrow> nat" where
  "string_len m p prec = strnlen m p (if prec < 0 then 2 ^ 64 - 1 else nat prec)"

definition shown :: "bool \<Rightarrow> u8 \<Rightarrow> u8" where
  "shown alt c = (if alt \<and> (c < 32 \<or> c > 126) then 63 else c)"

lemma string_len_stop:
  assumes "0 \<le> prec \<or> m (p + string_len m p prec) = 0"
  shows "m (p + string_len m p prec) = 0 \<or> prec = int (string_len m p prec)"
proof (cases "prec < 0")
  case False
  let ?n = "nat prec"
  have e: "strnlen m p ?n = (if \<exists>i<?n. m (p + i) = 0 then (LEAST i. m (p + i) = 0) else ?n)"
    by (simp add: strnlen_def strnlen_from_spec)
  show ?thesis
  proof (cases "\<exists>i<?n. m (p + i) = 0")
    case True
    then have "m (p + (LEAST i. m (p + i) = 0)) = 0" by (metis (mono_tags, lifting) LeastI)
    then show ?thesis using e True False by (simp add: string_len_def)
  next
    case none: False
    then have "strnlen m p ?n = ?n" by (simp only: e if_False)
    then show ?thesis using False by (simp add: string_len_def)
  qed
qed (use assms in simp)

lemma put_chars_spec:
  assumes step: "\<And>c s. I s \<Longrightarrow> I (putch d c s)" and rd: "\<And>s a. I s \<Longrightarrow> a \<in> {p..p + k} \<Longrightarrow> rd d s a = m a"
    and nz: "\<And>i. i < k \<Longrightarrow> m (p + i) \<noteq> 0" and le: "prec < 0 \<or> int k \<le> prec" and stop: "m (p + k) = 0 \<or> prec = int k"
    and I: "I s"
  shows "put_chars d alt p width prec s = Some (width - int k, fold (putch d) (map (shown alt) (bytes_at m p k)) s)"
  using rd nz le stop I
proof (induction k arbitrary: p width prec s)
  case 0
  then have "rd d s p = m p" by simp
  then show ?case using 0 by (subst put_chars.simps) (auto simp: bytes_at_def)
next
  case (Suc k)
  have r: "rd d s p = m p" using Suc.prems(1) [OF Suc.prems(5), of p] by simp
  have z: "m p \<noteq> 0" using Suc.prems(2) [of 0] by simp
  let ?q = "if prec < 0 then prec else prec - 1"
  have "put_chars d alt (Suc p) (width - 1) ?q (putch d (shown alt (m p)) s) =
    Some (width - 1 - int k, fold (putch d) (map (shown alt) (bytes_at m (Suc p) k)) (putch d (shown alt (m p)) s))"
  proof (rule Suc.IH)
    show "rd d s' a = m a" if "I s'" "a \<in> {Suc p..Suc p + k}" for s' a using Suc.prems(1) [OF that(1)] that(2) by simp
    show "m (Suc p + i) \<noteq> 0" if "i < k" for i using Suc.prems(2) [of "Suc i"] that by simp
    show "?q < 0 \<or> int k \<le> ?q" using Suc.prems(3) by auto
    show "m (Suc p + k) = 0 \<or> ?q = int k" using Suc.prems(4) by auto
    show "I (putch d (shown alt (m p)) s)" by (rule step [OF Suc.prems(5)])
  qed
  moreover have "bytes_at m p (Suc k) = m p # bytes_at m (Suc p) k" by (simp add: bytes_at_def upt_conv_Cons flip: map_Suc_upt del: upt_Suc)
  moreover have "put_chars d alt p width prec s = put_chars d alt (Suc p) (width - 1) ?q (putch d (shown alt (m p)) s)"
  proof -
    have c: "m p \<noteq> 0 \<and> (prec < 0 \<or> prec - 1 \<ge> 0)" using z Suc.prems(3) by auto
    show ?thesis by (subst put_chars.simps) (simp only: if_P [OF c] r shown_def)
  qed
  ultimately show ?case by simp
qed

lemma strnlen_from_ge: "c \<le> strnlen_from m p n c"
  by (induction m p n c rule: strnlen_from.induct) auto

lemma fold_keeps: "(\<And>c s. I s \<Longrightarrow> I (f c s)) \<Longrightarrow> I s \<Longrightarrow> I (fold f cs s)"
  by (induction cs arbitrary: s) auto

lemma put_str_spec:
  assumes step: "\<And>c s. I s \<Longrightarrow> I (putch d c s)" and I: "I s"
    and rd: "\<And>s x. I s \<Longrightarrow> a \<noteq> 0 \<Longrightarrow> x \<in> {unat a..unat a + string_len m (unat a) (e_precision e)} \<Longrightarrow> rd d s x = m x"
    and ends: "a \<noteq> 0 \<Longrightarrow> e_precision e < 0 \<Longrightarrow> m (unat a + string_len m (unat a) (e_precision e)) = 0"
  shows "put_str d a e s = Some (fold (putch d) (put_string m a e) s)"
proof (cases "a = 0")
  case True
  then show ?thesis by (simp add: put_str_def put_string_def)
next
  case False
  let ?p = "unat a" and ?q = "e_precision e" and ?w = "e_width e"
  let ?k = "string_len m ?p ?q" and ?lim = "if ?q < 0 then 2 ^ 64 - 1 else nat ?q"
  have same: "strnlen (rd d s) ?p ?lim = ?k"
  proof -
    have strn: "strnlen_from f p n c = strnlen_from m p n c" if "\<And>x. x \<in> {p..p + (strnlen_from m p n c - c)} \<Longrightarrow> f x = m x" for f p n c
      using that
    proof (induction n arbitrary: p c)
      case (Suc n)
      show ?case
      proof (cases "m p = 0")
        case True
        then show ?thesis using Suc.prems [of p] by simp
      next
        case nz: False
        have c: "c < strnlen_from m p (Suc n) c" using nz strnlen_from_ge [of "Suc c" m "Suc p" n] by simp
        have "strnlen_from f (Suc p) n (Suc c) = strnlen_from m (Suc p) n (Suc c)"
        proof (rule Suc.IH)
          fix x assume "x \<in> {Suc p..Suc p + (strnlen_from m (Suc p) n (Suc c) - Suc c)}"
          then have "x \<in> {p..p + (strnlen_from m p (Suc n) c - c)}" using c nz by auto
          then show "f x = m x" by (rule Suc.prems)
        qed
        then show ?thesis using Suc.prems [of p] nz by simp
      qed
    qed simp
    have "strnlen_from (rd d s) ?p ?lim 0 = strnlen_from m ?p ?lim 0"
      by (rule strn) (rule rd [OF I False], simp add: string_len_def strnlen_def)
    then show ?thesis by (simp only: string_len_def strnlen_def)
  qed
  let ?left = "?w > 0 \<and> e_padc e \<noteq> 45"
  let ?width = "if ?left then ?w - int ?k else ?w"
  let ?pad = "if ?left then nat ?width else 0"
  let ?s = "fold (putch d) (replicate ?pad (e_padc e)) s"
  let ?cs = "map (shown (e_altflag e)) (bytes_at m ?p ?k)"
  have Is: "I ?s" by (rule fold_keeps [where I = I]) (erule step, rule I)
  have stop: "m (?p + ?k) = 0 \<or> ?q = int ?k" by (rule string_len_stop) (use ends [OF False] in \<open>cases "?q < 0"; simp\<close>)
  have le: "?q < 0 \<or> int ?k \<le> ?q" using strnlen_bound [of m ?p "nat ?q"] by (auto simp: string_len_def)
  have nz: "m (?p + i) \<noteq> 0" if "i < ?k" for i using that strnlen_nonzero unfolding string_len_def by blast
  have pc: "put_chars d (e_altflag e) ?p (?width - int ?pad) ?q ?s =
      Some (?width - int ?pad - int ?k, fold (putch d) ?cs ?s)"
    by (rule put_chars_spec [where I = I, OF step rd [OF _ False] nz le stop Is])
  have "put_str d a e s = Some (fold (putch d) (replicate (nat (?width - int ?pad - int ?k)) 32) (fold (putch d) ?cs ?s))"
    using False by (simp only: put_str_def if_False same Let_def pc bind.bind_lunit prod.case)
  moreover have "put_string m a e = replicate ?pad (e_padc e) @ ?cs @ replicate (nat (?width - int ?pad - int ?k)) 32"
    using False by (auto simp: put_string_def Let_def bytes_at_def shown_def [abs_def] simp flip: string_len_def)
  ultimately show ?thesis by simp
qed

text \<open>The strings a format asks for, with their precision.\<close>

function string_args :: "u8 list \<Rightarrow> u64 list \<Rightarrow> (u64 \<times> int) list" where
  "string_args [] ap = []"
| "string_args (ch # fmt) ap =
     (if ch \<noteq> 37 then (if ch = 0 then [] else string_args fmt ap)
      else
        (case reswitch fmt esc0 ap of None \<Rightarrow> []
         | Some (c, e, rest, ap') \<Rightarrow>
             if c = 115 then (case ap' of [] \<Rightarrow> [] | a # as \<Rightarrow> (a, e_precision e) # string_args rest as)
             else (case convert (\<lambda>_. 0) c e ap' of
                None \<Rightarrow> string_args fmt ap'
              | Some None \<Rightarrow> []
              | Some (Some (out, ap'')) \<Rightarrow> string_args rest ap'')))"
  by pat_completeness auto
termination
  by (relation "measure (\<lambda>(fmt, ap). length fmt)") (auto dest: reswitch_shorter)

lemma convert_mem: "c \<noteq> 115 \<Longrightarrow> convert f c e ap = convert g c e ap"
  by (simp add: convert_def)

text \<open>Outside \<open>B\<close> lie all the characters of a string that are looked at; one without precision has an end.\<close>

definition string_outside :: "addr set \<Rightarrow> mem \<Rightarrow> u64 \<times> int \<Rightarrow> bool" where
  "string_outside B m q \<longleftrightarrow> (case q of (a, prec) \<Rightarrow> a = 0 \<or>
     ({unat a..unat a + string_len m (unat a) prec} \<inter> B = {} \<and>
      (prec < 0 \<longrightarrow> m (unat a + string_len m (unat a) prec) = 0)))"

lemma vprintf_loop_text:
  assumes step: "\<And>c s. I s \<Longrightarrow> I (putch d c s)" and rd: "\<And>s x. I s \<Longrightarrow> x \<notin> B \<Longrightarrow> rd d s x = m x"
    and fetch: "\<And>s i. I s \<Longrightarrow> i < length l \<Longrightarrow> fetch d s i = Some (l ! i)"
    and v: "vprintfmt m (drop i l) ap = Some out" and st: "\<forall>q\<in>set (string_args (drop i l) ap). string_outside B m q" and I: "I s"
  shows "vprintf_loop d i ap s = Some (fold (putch d) out s)"
  using v st I
proof (induction "length l - i" arbitrary: i ap out s rule: less_induct)
  case less
  obtain ch fmt where d: "drop i l = ch # fmt" using less.prems(1) by (cases "drop i l") simp_all
  note D = drop_Cons_conv [OF d]
  have f: "fetch d s i = Some ch" using fetch [OF less.prems(3), of i] D by simp
  have later: "vprintf_loop d j ap s = Some (fold (putch d) out s)"
    if "i < j" "vprintfmt m (drop j l) ap = Some out" "\<forall>q\<in>set (string_args (drop j l) ap). string_outside B m q" "I s" for j ap out s
    by (rule less.hyps [OF _ that(2-4)]) (use that(1) D diff_less_mono2 in blast)
  note V = less.prems(1) [unfolded d] and S = less.prems(2) [unfolded d]
  show ?case
  proof (cases "ch = 37")
    case False
    show ?thesis
    proof (cases "ch = 0")
      case True
      then show ?thesis using V f by (subst vprintf_loop.simps) simp
    next
      case nz: False
      then obtain out' where o: "vprintfmt m (drop (Suc i) l) ap = Some out'" "out = ch # out'" using V False D by auto
      have "vprintf_loop d (Suc i) ap (putch d ch s) = Some (fold (putch d) out' (putch d ch s))"
        by (rule later [OF _ o(1)]) (use S False nz D step less.prems(3) in auto)
      then show ?thesis using f False nz o(2) by (subst vprintf_loop.simps) simp
    qed
  next
    case True
    obtain c e rest ap' where r: "reswitch fmt esc0 ap = Some (c, e, rest, ap')"
      using V True by (cases "reswitch fmt esc0 ap") auto
    have g: "\<And>k. k < length l \<Longrightarrow> fetch d s k = Some (l ! k)" using fetch [OF less.prems(3)] .
    obtain j where j: "Suc i < j" "j \<le> length l" "rest = drop j l" "\<forall>k\<in>{Suc i..<j - 1}. l ! k \<noteq> 37"
      "reswitch_at (fetch d s) (Suc i) esc0 ap = Some (c, e, j, ap')"
      using reswitch_at_spec [OF g, of "Suc i" esc0 ap c e rest ap'] r D by auto
    have ij: "i < j" using j(1) by simp
    show ?thesis
    proof (cases "c = 115")
      case s: True
      have cv: "convert m c e ap' = Some (case ap' of [] \<Rightarrow> None | a # ap \<Rightarrow> Some (put_string m a e, ap))"
        by (simp add: s convert_def)
      then obtain a vs where a: "ap' = a # vs" using V True r by (cases ap') auto
      obtain out' where o: "vprintfmt m (drop j l) vs = Some out'" "out = put_string m a e @ out'"
        using V True r cv a j(3) by auto
      have q: "string_outside B m (a, e_precision e)" "\<forall>q\<in>set (string_args (drop j l) vs). string_outside B m q"
        using S True r s a j(3) by auto
      have "put_str d a e s = Some (fold (putch d) (put_string m a e) s)"
      proof (rule put_str_spec [where I = I])
        show "I (putch d c s)" if "I s" for c s using that by (rule step)
        show "I s" by (rule less.prems(3))
        show "rd d s' x = m x" if "I s'" "a \<noteq> 0" "x \<in> {unat a..unat a + string_len m (unat a) (e_precision e)}" for s' x
        proof -
          have "x \<notin> B" using q(1) that(2,3) by (auto simp: string_outside_def disjoint_iff)
          then show ?thesis by (rule rd [OF that(1)])
        qed
        show "m (unat a + string_len m (unat a) (e_precision e)) = 0" if "a \<noteq> 0" "e_precision e < 0"
          using q(1) that by (simp add: string_outside_def)
      qed
      moreover have "vprintf_loop d j vs (fold (putch d) (put_string m a e) s) =
          Some (fold (putch d) out' (fold (putch d) (put_string m a e) s))"
        by (rule later [OF ij o(1) q(2)], rule fold_keeps [where I = I]) (erule step, rule less.prems(3))
      ultimately show ?thesis using f True s j(5) a o(2) by (subst vprintf_loop.simps) simp
    next
      case ns: False
      note cm = convert_mem [OF ns, of "rd d s" e ap' m] and cz = convert_mem [OF ns, of "\<lambda>_. 0" e ap' m]
      show ?thesis
      proof (cases "convert m c e ap'")
        case None
        obtain out' where o: "vprintfmt m (drop (Suc i) l) ap' = Some out'" "out = 37 # out'" using V True r None D by auto
        have Is: "I (putch d 37 s)" by (rule step [OF less.prems(3)])
        have "scan_back (fetch d (putch d 37 s)) (j - 1) = Some (Suc i)"
          by (rule scan_back_spec [where l = l]) (use fetch [OF Is] D True j in auto)
        moreover have "vprintf_loop d (Suc i) ap' (putch d 37 s) = Some (fold (putch d) out' (putch d 37 s))"
          by (rule later [OF _ o(1) _ Is]) (use S True r ns cz None D in auto)
        ultimately show ?thesis using f True ns j(5) o(2) cm None by (subst vprintf_loop.simps) simp
      next
        case (Some x)
        then obtain os ap'' where x: "x = Some (os, ap'')" using V True r by (cases x) auto
        obtain out' where o: "vprintfmt m (drop j l) ap'' = Some out'" "out = os @ out'" using V True r Some x j(3) by auto
        have "vprintf_loop d j ap'' (fold (putch d) os s) = Some (fold (putch d) out' (fold (putch d) os s))"
        proof (rule later [OF ij o(1)])
          show "I (fold (putch d) os s)" by (rule fold_keeps [where I = I]) (erule step, rule less.prems(3))
        qed (use S True r ns cz Some x j(3) in auto)
        then show ?thesis using f True ns j(5) o(2) cm Some x by (subst vprintf_loop.simps) simp
      qed
    qed
  qed
qed

text \<open>A \<^verbatim>\<open>putch\<close> that leaves the memory alone, as that of the console, puts the text of the format.\<close>

lemma vprintf_console:
  assumes "vprintfmt m (text_bytes fmt @ [0]) ap = Some out"
    and "\<forall>q\<in>set (string_args (text_bytes fmt @ [0]) ap). string_outside {} m q"
  shows "vprintf_loop \<lparr>fetch = \<lambda>_. literal fmt, rd = \<lambda>_. m, putch = \<lambda>c put. put @ [c]\<rparr> 0 ap [] = Some out"
proof -
  have "fold (\<lambda>c put. put @ [c]) out put = put @ out" for put :: "u8 list" by (induction out arbitrary: put) simp_all
  then show ?thesis
    using vprintf_loop_text [of "\<lambda>_. True" "\<lparr>fetch = \<lambda>_. literal fmt, rd = \<lambda>_. m, putch = \<lambda>c put. put @ [c]\<rparr>" "{}" m
        "text_bytes fmt @ [0]" 0 ap out "[]"] assms
    by (simp add: literal_def)
qed

text \<open>
  C25: \<^verbatim>\<open>vsnprintf\<close> returns the length of the whole text of the format, leaves in the buffer the part of it
  that fits with a NUL behind, and changes nothing else, neither in the buffer behind the NUL nor outside.
  The text is stored while the format and the strings are still read, character by character, so they have
  to lie outside the buffer, and a string printed without precision has to end.
\<close>

theorem vsnprintf_fits:
  assumes "str \<noteq> 0" and "n \<noteq> 0" and "unat str + unat n \<le> 2 ^ 64"
    and fmt: "bytes_at m f (length l) = l" and v: "vprintfmt m l ap = Some out"
    and out: "{f..<f + length l} \<inter> {unat str..<unat str + unat n} = {}"
      "\<forall>q\<in>set (string_args l ap). string_outside {unat str..<unat str + unat n} m q"
  shows "\<exists>m'. vsnprintf str n f ap m = Some (int (length out), m')
    \<and> bytes_at m' (unat str) (min (length out) (unat n - 1)) = take (unat n - 1) out
    \<and> m' (unat str + min (length out) (unat n - 1)) = 0
    \<and> (\<forall>a. a < unat str \<or> unat str + min (length out) (unat n - 1) < a \<longrightarrow> m' a = m a)"
proof -
  let ?e = "str + n - 1" and ?B = "{unat str..<unat str + unat n}"
  let ?k = "min (length out) (unat n - 1)"
  have n: "0 < unat n" using assms(2) by (metis unat_gt_0)
  have "?e = str + of_nat (unat n - 1)" using n by simp
  then have e: "unat ?e = unat str + (unat n - 1)"
    using assms(3) n by (simp only:) (rule unat_plus_of_nat, linarith)
  then have le: "str \<le> ?e" by (simp add: word_le_nat_alt)
  have k: "min (length out) (unat ?e - unat str) = ?k" using e by simp
  have u: "unat (str + of_nat ?k) = unat str + ?k"
    using assms(3) n by (intro unat_plus_of_nat) linarith
  let ?m = "\<lambda>a. if unat str \<le> a \<and> a < unat str + ?k then out ! (a - unat str) else m a"
  let ?s = "(\<lparr>sp_buf = str, sp_ebuf = ?e, sp_cnt = 0\<rparr>, m)"
  have f: "fold sprintputch out ?s = (\<lparr>sp_buf = str + of_nat ?k, sp_ebuf = ?e, sp_cnt = 0 + int (length out)\<rparr>, ?m)"
    unfolding fold_sprintputch [OF le] Let_def k ..
  define I :: "sprintbuf \<times> mem \<Rightarrow> bool" where "I = (\<lambda>(b, m'). sp_ebuf b = ?e \<and> str \<le> sp_buf b \<and> (\<forall>a. a \<notin> ?B \<longrightarrow> m' a = m a))"
  let ?d = "into_buffer (\<lambda>(b, m) i. Some (m (f + i)))"
  have "vprintf_loop ?d 0 ap ?s = Some (fold (putch ?d) out ?s)"
  proof (rule vprintf_loop_text [where I = I and B = ?B and m = m and l = l])
    show "I (putch ?d c s)" if s: "I s" for c s
    proof (cases "sp_buf (fst s) < ?e")
      case True
      obtain b t where st: "s = (b, t)" by (cases s)
      have b: "sp_ebuf b = ?e" "str \<le> sp_buf b" "sp_buf b < ?e" using s True by (simp_all add: st I_def)
      have "unat (sp_buf b) < unat ?e" using b(3) by (simp add: word_less_nat_alt)
      then have "unat (sp_buf b) \<in> ?B" using b(2) e by (auto simp: word_le_nat_alt)
      moreover have "str \<le> sp_buf b + 1"
      proof -
        have "unat (sp_buf b + 1) = Suc (unat (sp_buf b))"
          using unat_plus_of_nat [of "sp_buf b" 1] unat_less_64 [of ?e] b(3) by (simp add: word_less_nat_alt)
        then show ?thesis using b(2) by (simp add: word_le_nat_alt)
      qed
      ultimately show ?thesis using s b by (auto simp: st I_def into_buffer_def sprintputch_def)
    next
      case False
      then show ?thesis using s by (cases s) (simp add: I_def into_buffer_def sprintputch_def)
    qed
    show "rd ?d s x = m x" if "I s" "x \<notin> ?B" for s x using that by (cases s) (simp add: I_def into_buffer_def)
    show "fetch ?d s i = Some (l ! i)" if "I s" "i < length l" for s i
    proof -
      have "f + i \<notin> ?B" using out(1) that(2) by (auto simp: disjoint_iff)
      moreover have "l ! i = m (f + i)" using arg_cong [OF fmt, of "\<lambda>x. x ! i"] that(2) by (simp add: bytes_at_def)
      ultimately show ?thesis using that(1) by (cases s) (simp add: I_def into_buffer_def)
    qed
    show "I ?s" by (simp add: I_def)
  qed (use v out(2) in simp_all)
  then have "vprintf_loop ?d 0 ap ?s = Some (\<lparr>sp_buf = str + of_nat ?k, sp_ebuf = ?e, sp_cnt = 0 + int (length out)\<rparr>, ?m)"
    using f by (simp add: into_buffer_def)
  then have "vsnprintf str n f ap m = Some (int (length out), ?m(unat str + ?k := 0))"
    using leD [OF le] assms(1) by (simp add: vsnprintf_def vsnprintf_of_def u del: One_nat_def)
  moreover have "bytes_at (?m(unat str + ?k := 0)) (unat str) ?k = take (unat n - 1) out"
    by (rule nth_equalityI) (auto simp: bytes_at_def)
  ultimately show ?thesis by (intro exI [of _ "?m(unat str + ?k := 0)"]) auto
qed

theorem vsnprintf_fits_witness:
  "\<exists>m'. vsnprintf 4096 4 100 [256] (\<lambda>a. if 100 \<le> a \<and> a < 105 then (text_bytes ''<%d>'' @ [0]) ! (a - 100) else 7) = Some (5, m')
    \<and> bytes_at m' 4096 3 = text_bytes ''<25'' \<and> m' 4099 = 0 \<and> m' 4100 = 7"
proof -
  let ?l = "text_bytes ''<%d>'' @ [0]" and ?m = "\<lambda>a. if 100 \<le> a \<and> a < 105 then (text_bytes ''<%d>'' @ [0]) ! (a - 100) else 7 :: u8"
  have v: "vprintfmt ?m ?l [256] = Some (text_bytes ''<256>'')"
    by (simp add: text_bytes_def esc0_def convert_def getint_def put_int_def printnum_step hex_digits_def
        word_sless_alt)
  have l: "bytes_at ?m 100 (length ?l) = ?l" by (simp add: bytes_at_def text_bytes_def upt_conv_Cons)
  have "string_args ?l [256] = []"
    by (simp add: text_bytes_def esc0_def convert_def getint_def put_int_def printnum_step hex_digits_def word_sless_alt)
  then have s: "\<forall>q\<in>set (string_args ?l [256]). string_outside {unat (4096 :: u64)..<unat (4096 :: u64) + unat (4 :: u64)} ?m q" by simp
  have "{100..<100 + length ?l} \<inter> {unat (4096 :: u64)..<unat (4096 :: u64) + unat (4 :: u64)} = {}" by (auto simp: text_bytes_def)
  from vsnprintf_fits [of 4096 4, OF _ _ _ l v this s] show ?thesis
    by (auto simp: text_bytes_def numeral_3_eq_3)
qed

text \<open>The flag \<^verbatim>\<open>-\<close> of a number is not padding on the right: the dashes come before it.\<close>

lemma number_padded_with_dashes:
  "vprintfmt m (text_bytes ''%-5d'' @ [0]) [256] = Some (text_bytes ''--256'')"
  by (simp add: text_bytes_def esc0_def convert_def getint_def put_int_def printnum_step hex_digits_def
      word_sless_alt process_precision_def number_of_def is_digit_def)
    (simp add: numeral_2_eq_2)

end
