(* ===== verification/Sysfile.thy ===== *)
theory Sysfile
  imports ProcLife
begin

text \<open>
  File system calls (\<^verbatim>\<open>kern/fs/sysfile.c\<close>): the operations by descriptor with the arguments of a
  user program. Paths and data cross between user and kernel memory in checked copies, under
  the lock of the address space; reading and writing go through a buffer of one page.
\<close>

section \<open>Pieces of the state\<close>

definition FS_MAX_FPATH_LEN :: nat where [layout]: "FS_MAX_FPATH_LEN = 4095"
definition IOBUF_SIZE :: u64 where [layout]: "IOBUF_SIZE = 4096"

definition le64 :: "u64 \<Rightarrow> u8 list" where
  "le64 w = le32 (ucast w) @ le32 (ucast (drop_bit 32 w))"

definition of_le64 :: "u8 list \<Rightarrow> u64" where
  "of_le64 b = ucast (of_le32 b) OR push_bit 32 (ucast (of_le32 (drop 4 b)))"

definition cur_mm :: "kernel \<Rightarrow> addr" where
  "cur_mm k = q_mm (cur_px k)"

definition cur_pid :: "kernel \<Rightarrow> int" where
  "cur_pid k = pid (procs (k_sched k) (current (k_sched k)))"

definition k_mem :: "kernel \<Rightarrow> mem" where
  "k_mem k = kmem (k_fs k)"

definition set_mem :: "mem \<Rightarrow> kernel \<Rightarrow> kernel" where
  "set_mem m k = k\<lparr>k_fs := (k_fs k)\<lparr>kmem := m\<rparr>\<rparr>"

definition k_kmalloc :: "kernel \<Rightarrow> addr \<times> kernel" where
  "k_kmalloc k = (let (a, s) = kmalloc (k_fs k) in (a, k\<lparr>k_fs := s\<rparr>))"

text \<open>An operation of the file layer, with the table of the current process as its table.\<close>

definition with_files :: "(kfs \<Rightarrow> ('a \<times> kfs) option) \<Rightarrow> kernel \<Rightarrow> ('a \<times> kernel) option" where
  "with_files f k = do {
     let fp = q_filesp (cur_px k);
     ensure (fp \<noteq> 0);
     (a, s) \<leftarrow> f ((k_fs k)\<lparr>filesp := k_ftabs k fp\<rparr>);
     Some (a, k\<lparr>k_fs := s, k_ftabs := (k_ftabs k)(fp := filesp s)\<rparr>)
   }"

definition with_mm_lock :: "(kernel \<Rightarrow> ('a \<times> kernel) option) \<Rightarrow> kernel \<Rightarrow> ('a \<times> kernel) option" where
  "with_mm_lock f k = do {
     v \<leftarrow> lock_mm (cur_pid k) (cur_mm k) (k_vm k);
     (a, k) \<leftarrow> f (k\<lparr>k_vm := v\<rparr>);
     Some (a, k\<lparr>k_vm := unlock_mm (cur_mm k) (k_vm k)\<rparr>)
   }"

definition k_copy_string :: "addr \<Rightarrow> addr \<Rightarrow> u64 \<Rightarrow> u64 \<Rightarrow> kernel \<Rightarrow> (bool \<times> kernel) option" where
  "k_copy_string mm dst src maxn k = do {
     (ok, m, v) \<leftarrow> copy_string mm dst src maxn (k_mem k) (k_vm k);
     Some (ok, set_mem m (k\<lparr>k_vm := v\<rparr>))
   }"

definition k_copy_from_user :: "addr \<Rightarrow> addr \<Rightarrow> u64 \<Rightarrow> u64 \<Rightarrow> bool \<Rightarrow> kernel \<Rightarrow> (bool \<times> kernel) option" where
  "k_copy_from_user mm dst src n wr k = do {
     (ok, m, v) \<leftarrow> copy_from_user mm dst src n wr (k_mem k) (k_vm k);
     Some (ok, set_mem m (k\<lparr>k_vm := v\<rparr>))
   }"

definition k_copy_to_user :: "addr \<Rightarrow> u64 \<Rightarrow> addr \<Rightarrow> u64 \<Rightarrow> kernel \<Rightarrow> (bool \<times> kernel) option" where
  "k_copy_to_user mm dst src n k = do {
     (ok, m, v) \<leftarrow> copy_to_user mm dst src n (k_mem k) (k_vm k);
     Some (ok, set_mem m (k\<lparr>k_vm := v\<rparr>))
   }"

section \<open>Paths\<close>

definition copy_path :: "u64 \<Rightarrow> kernel \<Rightarrow> (int \<times> addr \<times> kernel) option" where
  "copy_path from k =
     (let (buffer, k) = k_kmalloc k in
      if buffer = 0 then Some (- E_NO_MEM, 0, k)
      else do {
        (ok, k) \<leftarrow> with_mm_lock (\<lambda>k. k_copy_string (cur_mm k) buffer from (of_nat FS_MAX_FPATH_LEN + 1) k) k;
        Some (if ok then (0, buffer, k) else (- E_INVAL, 0, k))
      })"

definition sysfile_open :: "u64 \<Rightarrow> u32 \<Rightarrow> kernel \<Rightarrow> (int \<times> kernel) option" where
  "sysfile_open upath open_flags k = do {
     (ret, path, k) \<leftarrow> copy_path upath k;
     if ret \<noteq> 0 then Some (ret, k) else with_files (file_open path open_flags) k
   }"

definition sysfile_close :: "int \<Rightarrow> kernel \<Rightarrow> (int \<times> kernel) option" where
  "sysfile_close fd k = with_files (file_close fd) k"

definition sysfile_chdir :: "u64 \<Rightarrow> kernel \<Rightarrow> (int \<times> kernel) option" where
  "sysfile_chdir upath k = do {
     (ret, path, k) \<leftarrow> copy_path upath k;
     if ret \<noteq> 0 then Some (ret, k) else with_files (vfs_chdir path) k
   }"

definition sysfile_link :: "u64 \<Rightarrow> u64 \<Rightarrow> kernel \<Rightarrow> (int \<times> kernel) option" where
  "sysfile_link upath1 upath2 k = do {
     (ret, old_path, k) \<leftarrow> copy_path upath1 k;
     if ret \<noteq> 0 then Some (ret, k)
     else do {
       (ret, new_path, k) \<leftarrow> copy_path upath2 k;
       if ret \<noteq> 0 then Some (ret, k) else Some (vfs_link old_path new_path, k)
     }
   }"

definition sysfile_rename :: "u64 \<Rightarrow> u64 \<Rightarrow> kernel \<Rightarrow> (int \<times> kernel) option" where
  "sysfile_rename upath1 upath2 k = do {
     (ret, old_path, k) \<leftarrow> copy_path upath1 k;
     if ret \<noteq> 0 then Some (ret, k)
     else do {
       (ret, new_path, k) \<leftarrow> copy_path upath2 k;
       if ret \<noteq> 0 then Some (ret, k) else Some (vfs_rename old_path new_path, k)
     }
   }"

definition sysfile_unlink :: "u64 \<Rightarrow> kernel \<Rightarrow> (int \<times> kernel) option" where
  "sysfile_unlink upath k = do {
     (ret, path, k) \<leftarrow> copy_path upath k;
     if ret \<noteq> 0 then Some (ret, k) else Some (vfs_unlink path, k)
   }"

section \<open>Reading and writing\<close>

text \<open>One page at most is read into the buffer and copied out; the state of a round.\<close>

definition read_round :: "int \<Rightarrow> addr \<Rightarrow> u64 \<Rightarrow> u64 \<Rightarrow> u64 \<Rightarrow> kernel \<Rightarrow>
    ((int \<times> u64 \<times> u64 \<times> u64 \<times> u64) \<times> kernel) option" where
  "read_round fd buffer base amt copied k = do {
     let alen = (if IOBUF_SIZE > amt then amt else IOBUF_SIZE);
     ((ret, n), k) \<leftarrow> with_files (\<lambda>s. do { (ret, n, s) \<leftarrow> file_read fd buffer (unat alen) s; Some ((ret, n), s) }) k;
     let alen = of_nat n;
     if alen \<noteq> 0 then
       with_mm_lock (\<lambda>k. do {
         (ok, k) \<leftarrow> k_copy_to_user (cur_mm k) base buffer alen k;
         if ok then do {
           ensure (amt \<ge> alen);
           Some ((ret, alen, base + alen, amt - alen, copied + alen), k)
         }
         else Some ((if ret = 0 then - E_INVAL else ret, alen, base, amt, copied), k)
       }) k
     else Some ((ret, alen, base, amt, copied), k)
   }"

partial_function (option) sysfile_read_loop :: "int \<Rightarrow> addr \<Rightarrow> u64 \<Rightarrow> u64 \<Rightarrow> u64 \<Rightarrow> kernel \<Rightarrow> (int \<times> u64 \<times> kernel) option" where
  "sysfile_read_loop fd buffer base amt copied k =
     (if amt = 0 then Some (0, copied, k)
      else Option.bind (read_round fd buffer base amt copied k) (\<lambda>((ret, alen, base, amt, copied), k).
        if ret \<noteq> 0 \<or> alen = 0 then Some (ret, copied, k)
        else sysfile_read_loop fd buffer base amt copied k))"

text \<open>The count is returned as an \<^verbatim>\<open>int\<close>.\<close>

definition count_result :: "int \<Rightarrow> u64 \<Rightarrow> int" where
  "count_result ret copied = (if copied \<noteq> 0 then sint (ucast copied :: u32) else ret)"

definition sysfile_read :: "int \<Rightarrow> u64 \<Rightarrow> u64 \<Rightarrow> kernel \<Rightarrow> (int \<times> kernel) option" where
  "sysfile_read fd base amt k =
     (if amt = 0 then Some (0, k)
      else do {
        (ok, k) \<leftarrow> with_files (\<lambda>s. do { ok \<leftarrow> file_testfd fd True False s; Some (ok, s) }) k;
        if \<not> ok then Some (- E_INVAL, k)
        else do {
          let (buffer, k) = k_kmalloc k;
          if buffer = 0 then Some (- E_NO_MEM, k)
          else do {
            (ret, copied, k) \<leftarrow> sysfile_read_loop fd buffer base amt 0 k;
            Some (count_result ret copied, k)
          }
        }
      })"

definition write_round :: "int \<Rightarrow> addr \<Rightarrow> u64 \<Rightarrow> u64 \<Rightarrow> u64 \<Rightarrow> kernel \<Rightarrow>
    ((int \<times> u64 \<times> u64 \<times> u64 \<times> u64) \<times> kernel) option" where
  "write_round fd buffer base amt copied k = do {
     let alen = (if IOBUF_SIZE > amt then amt else IOBUF_SIZE);
     (ok, k) \<leftarrow> with_mm_lock (\<lambda>k. k_copy_from_user (cur_mm k) buffer base alen False k) k;
     if ok then do {
       ((ret, n), k) \<leftarrow> with_files (\<lambda>s. do { (ret, n, s) \<leftarrow> file_write fd buffer (unat alen) s; Some ((ret, n), s) }) k;
       let alen = of_nat n;
       if alen \<noteq> 0 then do {
         ensure (amt \<ge> alen);
         Some ((ret, alen, base + alen, amt - alen, copied + alen), k)
       }
       else Some ((ret, alen, base, amt, copied), k)
     }
     else Some ((- E_INVAL, alen, base, amt, copied), k)
   }"

partial_function (option) sysfile_write_loop :: "int \<Rightarrow> addr \<Rightarrow> u64 \<Rightarrow> u64 \<Rightarrow> u64 \<Rightarrow> kernel \<Rightarrow> (int \<times> u64 \<times> kernel) option" where
  "sysfile_write_loop fd buffer base amt copied k =
     (if amt = 0 then Some (0, copied, k)
      else Option.bind (write_round fd buffer base amt copied k) (\<lambda>((ret, alen, base, amt, copied), k).
        if ret \<noteq> 0 \<or> alen = 0 then Some (ret, copied, k)
        else sysfile_write_loop fd buffer base amt copied k))"

definition sysfile_write :: "int \<Rightarrow> u64 \<Rightarrow> u64 \<Rightarrow> kernel \<Rightarrow> (int \<times> kernel) option" where
  "sysfile_write fd base amt k =
     (if amt = 0 then Some (0, k)
      else do {
        (ok, k) \<leftarrow> with_files (\<lambda>s. do { ok \<leftarrow> file_testfd fd False True s; Some (ok, s) }) k;
        if \<not> ok then Some (- E_INVAL, k)
        else do {
          let (buffer, k) = k_kmalloc k;
          if buffer = 0 then Some (- E_NO_MEM, k)
          else do {
            (ret, copied, k) \<leftarrow> sysfile_write_loop fd buffer base amt 0 k;
            Some (count_result ret copied, k)
          }
        }
      })"

section \<open>The other calls\<close>

definition sysfile_seek :: "int \<Rightarrow> int \<Rightarrow> int \<Rightarrow> kernel \<Rightarrow> (int \<times> kernel) option" where
  "sysfile_seek fd p whence k = with_files (file_seek fd p whence) k"

definition sysfile_fsync :: "int \<Rightarrow> kernel \<Rightarrow> (int \<times> kernel) option" where
  "sysfile_fsync fd k = with_files (file_fsync fd) k"

definition sysfile_dup :: "int \<Rightarrow> int \<Rightarrow> kernel \<Rightarrow> (int \<times> kernel) option" where
  "sysfile_dup fd1 fd2 k = with_files (file_dup fd1 fd2) k"

text \<open>\<^verbatim>\<open>struct stat\<close> has 32 bytes, of which the four after the mode are not set.\<close>

definition store_stat :: "addr \<Rightarrow> stat \<Rightarrow> mem \<Rightarrow> mem" where
  "store_stat a st m =
     store_bytes (a + 8) (le64 (of_nat (st_nlinks st)) @ le64 (of_nat (st_blocks st)) @ le64 (of_nat (st_size st)))
       (store_bytes a (le32 (st_mode st)) m)"

definition sysfile_fstat :: "int \<Rightarrow> u64 \<Rightarrow> kernel \<Rightarrow> (int \<times> kernel) option" where
  "sysfile_fstat fd ustat k = do {
     ((ret, st), k) \<leftarrow> with_files (\<lambda>s. do { (ret, st, s) \<leftarrow> file_fstat fd s; Some ((ret, st), s) }) k;
     if ret \<noteq> 0 then Some (ret, k)
     else do {
       st \<leftarrow> st;
       let k = set_mem (store_stat (k_locals k) st (k_mem k)) k;
       (ok, k) \<leftarrow> with_mm_lock (\<lambda>k. k_copy_to_user (cur_mm k) ustat (k_locals k) 32 k) k;
       Some (if ok then 0 else - E_INVAL, k)
     }
   }"

definition sysfile_getcwd :: "u64 \<Rightarrow> u64 \<Rightarrow> kernel \<Rightarrow> (int \<times> kernel) option" where
  "sysfile_getcwd buf amt k =
     (if amt = 0 then Some (- E_INVAL, k)
      else with_mm_lock (\<lambda>k. do {
        (ok, v) \<leftarrow> user_mem_check (cur_mm k) buf amt True (k_vm k);
        let k = k\<lparr>k_vm := v\<rparr>;
        if ok then with_files (\<lambda>s. do { (ret, iob, s) \<leftarrow> vfs_getcwd (iobuf_init (unat buf) (unat amt) 0) s; Some (ret, s) }) k
        else Some (- E_INVAL, k)
      }) k)"

text \<open>\<^verbatim>\<open>struct dirent\<close>: the offset in 8 bytes and the name in 256.\<close>

definition sysfile_getdirentry :: "int \<Rightarrow> u64 \<Rightarrow> kernel \<Rightarrow> (int \<times> kernel) option" where
  "sysfile_getdirentry fd udirent k =
     (let (d, k) = k_kmalloc k in
      if d = 0 then Some (- E_NO_MEM, k)
      else do {
        (ok, k) \<leftarrow> with_mm_lock (\<lambda>k. k_copy_from_user (cur_mm k) d udirent 8 True k) k;
        if \<not> ok then Some (- E_INVAL, k)
        else do {
          let offset = sint (of_le64 (bytes_at (k_mem k) d 8));
          ((ret, offset), k) \<leftarrow> with_files (\<lambda>s. do {
            (ret, p, s) \<leftarrow> file_getdirentry fd offset (d + 8) s; Some ((ret, p), s) }) k;
          if ret \<noteq> 0 then Some (ret, k)
          else do {
            let k = set_mem (store_bytes d (le64 (word_of_int offset)) (k_mem k)) k;
            (ok, k) \<leftarrow> with_mm_lock (\<lambda>k. k_copy_to_user (cur_mm k) udirent d 264 k) k;
            Some (if ok then 0 else - E_INVAL, k)
          }
        }
      })"

definition sysfile_pipe :: "u64 \<Rightarrow> int" where "sysfile_pipe fd_store = - E_UNIMP"
definition sysfile_mkfifo :: "u64 \<Rightarrow> u32 \<Rightarrow> int" where "sysfile_mkfifo name open_flags = - E_UNIMP"

end
