(* ===== verification/Exec.thy ===== *)
theory Exec
  imports Sysfile Printfmt
begin

text \<open>
  Loading a program (\<^verbatim>\<open>load_icode\<close>, \<^verbatim>\<open>do_execve\<close> and what they use in \<^verbatim>\<open>kern/process/proc.c\<close>, with
  \<^verbatim>\<open>libs/elf.h\<close>): the segments of an ELF file are read into fresh pages, the arguments are
  pushed on the new stack, and the trap frame is set for the entry point. A copy to a user
  page that is not mapped faults in the kernel, which does not come back: \<^term>\<open>None\<close>. The bytes of a
  page are those at its kernel address; when the page directory is loaded they become what the
  process sees.
\<close>

section \<open>Headers\<close>

definition E_FAULT :: int where [layout]: "E_FAULT = 6"
definition E_INVAL_ELF :: int where [layout]: "E_INVAL_ELF = 8"
definition ELF_MAGIC :: u32 where [layout]: "ELF_MAGIC = 0x464C457F"
definition ELF_PT_LOAD :: u32 where [layout]: "ELF_PT_LOAD = 1"
definition ELF_PF_X :: u32 where [layout]: "ELF_PF_X = 1"
definition ELF_PF_W :: u32 where [layout]: "ELF_PF_W = 2"
definition ELF_PF_R :: u32 where [layout]: "ELF_PF_R = 4"
definition EXEC_MAX_ARG_NUM :: int where [layout]: "EXEC_MAX_ARG_NUM = 32"
definition EXEC_MAX_ARG_LEN :: nat where [layout]: "EXEC_MAX_ARG_LEN = 4095"
definition USTACKTOP :: u64 where [layout]: "USTACKTOP = 0x80000000"
definition USTACKSIZE :: u64 where [layout]: "USTACKSIZE = 0x100000"

text \<open>The fields that are used.\<close>

record elfhdr =
  e_magic :: u32
  e_entry :: u64
  e_phoff :: u64
  e_phnum :: u16

record proghdr =
  p_type :: u32
  p_flags :: u32
  p_offset :: u64
  p_va :: u64
  p_filesz :: u64
  p_memsz :: u64

definition of_le16 :: "u8 list \<Rightarrow> u16" where
  "of_le16 b = ucast (b ! 0) OR push_bit 8 (ucast (b ! 1))"

definition elfhdr_of :: "u8 list \<Rightarrow> elfhdr" where
  "elfhdr_of b = \<lparr>e_magic = of_le32 b, e_entry = of_le64 (drop 24 b), e_phoff = of_le64 (drop 32 b),
     e_phnum = of_le16 (drop 56 b)\<rparr>"

definition proghdr_of :: "u8 list \<Rightarrow> proghdr" where
  "proghdr_of b = \<lparr>p_type = of_le32 b, p_flags = of_le32 (drop 4 b), p_offset = of_le64 (drop 8 b),
     p_va = of_le64 (drop 16 b), p_filesz = of_le64 (drop 32 b), p_memsz = of_le64 (drop 40 b)\<rparr>"

text \<open>The places of the larger local variables: \<^verbatim>\<open>elf\<close>, \<^verbatim>\<open>ph\<close>, \<^verbatim>\<open>uargv\<close>, \<^verbatim>\<open>nullp\<close>, \<^verbatim>\<open>local_name\<close>.\<close>

definition elf_buf :: "kernel \<Rightarrow> addr" where "elf_buf k = k_locals k"
definition ph_buf :: "kernel \<Rightarrow> addr" where "ph_buf k = k_locals k + 64"
definition uargv_buf :: "kernel \<Rightarrow> addr" where "uargv_buf k = k_locals k + 120"
definition nullp_buf :: "kernel \<Rightarrow> addr" where "nullp_buf k = k_locals k + 376"
definition name_buf :: "kernel \<Rightarrow> addr" where "name_buf k = k_locals k + 384"

section \<open>Memory\<close>

text \<open>The kernel address of a user byte under a page directory.\<close>

definition user_byte :: "u64 \<Rightarrow> u64 \<Rightarrow> phys \<Rightarrow> u64 option" where
  "user_byte pd la s = do {
     (page, s) \<leftarrow> get_page pd la s;
     page \<leftarrow> page;
     kva \<leftarrow> page2kva page s;
     Some (kva + PGOFF la)
   }"

text \<open>\<^verbatim>\<open>lsatp\<close>: user addresses show the pages of the new directory.\<close>

definition user_view :: "u64 \<Rightarrow> phys \<Rightarrow> mem \<Rightarrow> mem" where
  "user_view pd s m = (\<lambda>a. if a < unat USERTOP
     then (case user_byte pd (of_nat a) s of None \<Rightarrow> m a | Some kva \<Rightarrow> m (unat kva)) else m a)"

definition switch_to_mm :: "addr \<Rightarrow> kernel \<Rightarrow> kernel option" where
  "switch_to_mm mm k = do {
     let k = k\<lparr>k_vm := snd (mm_count_inc mm (k_vm k))\<rparr>;
     let pd = pgdir (mms (k_vm k) mm);
     pa \<leftarrow> PADDR pd;
     let k = upd_px (current (k_sched k)) (\<lambda>x. x\<lparr>q_mm := mm, q_pgdir := pa\<rparr>) k;
     Some (set_mem (user_view pd (phys (k_vm k)) (k_mem k)) (k\<lparr>k_satp := pa\<rparr>))
   }"

definition present :: "u64 \<Rightarrow> u64 \<Rightarrow> nat \<Rightarrow> phys \<Rightarrow> bool" where
  "present pd a n s \<longleftrightarrow> list_all (\<lambda>i. user_byte pd (a + of_nat i) s \<noteq> None) [0..<n]"

definition push_bytes :: "addr \<Rightarrow> u64 \<Rightarrow> addr \<Rightarrow> nat \<Rightarrow> kernel \<Rightarrow> (bool \<times> kernel) option" where
  "push_bytes mm dst src n k = do {
     (ok, k') \<leftarrow> k_copy_to_user mm dst src (of_nat n) k;
     ensure (ok \<longrightarrow> present (pgdir (mms (k_vm k) mm)) dst n (phys (k_vm k)));
     Some (ok, k')
   }"

section \<open>Reading the file\<close>

definition load_icode_read :: "int \<Rightarrow> addr \<Rightarrow> u64 \<Rightarrow> int \<Rightarrow> kernel \<Rightarrow> (int \<times> kernel) option" where
  "load_icode_read fd buf amt offset k = do {
     (ret, k) \<leftarrow> sysfile_seek fd offset LSEEK_SET k;
     if ret \<noteq> 0 then Some (ret, k)
     else do {
       (ret, k) \<leftarrow> sysfile_read fd (of_nat buf) amt k;
       Some (if word_of_int ret \<noteq> amt then (if ret < 0 then ret else - 1) else 0, k)
     }
   }"

definition seg_vm_flags :: "u32 \<Rightarrow> u32" where
  "seg_vm_flags fl =
     (if fl AND ELF_PF_X \<noteq> 0 then VM_EXEC else 0) OR
     (if fl AND ELF_PF_W \<noteq> 0 then VM_WRITE else 0) OR
     (if fl AND ELF_PF_R \<noteq> 0 then VM_READ else 0)"

definition seg_perm :: "u32 \<Rightarrow> u64" where
  "seg_perm vf =
     PTE_U OR PTE_V OR
     (if vf AND VM_READ \<noteq> 0 then PTE_R else 0) OR
     (if vf AND VM_WRITE \<noteq> 0 then PTE_W OR PTE_R else 0) OR
     (if vf AND VM_EXEC \<noteq> 0 then PTE_X else 0)"

text \<open>One page of a segment: allocated, cleared, and filled with the part of the file that falls in it.\<close>

definition load_page :: "int \<Rightarrow> addr \<Rightarrow> proghdr \<Rightarrow> u64 \<Rightarrow> u64 \<Rightarrow> kernel \<Rightarrow> (int \<times> kernel) option" where
  "load_page fd mm ph perm cur k = do {
     (page, s) \<leftarrow> pgdir_alloc_page (pgdir (mms (k_vm k) mm)) cur perm (phys (k_vm k));
     let k = k\<lparr>k_vm := (k_vm k)\<lparr>phys := s\<rparr>\<rparr>;
     case page of None \<Rightarrow> Some (- E_NO_MEM, k)
     | Some page \<Rightarrow> do {
         kva \<leftarrow> page2kva page s;
         let k = k\<lparr>k_vm := (k_vm k)\<lparr>phys := zero_page kva (phys (k_vm k))\<rparr>\<rparr>;
         let k = set_mem (memset (unat kva) 0 PGSIZE (k_mem k)) k;
         let file_end = p_va ph + p_filesz ph;
         let copy_start = (if cur < p_va ph then p_va ph else cur);
         let copy_end = (if cur + 4096 < file_end then cur + 4096 else file_end);
         if copy_start < copy_end
         then load_icode_read fd (unat (kva + (copy_start - cur))) (copy_end - copy_start)
                (sint (p_offset ph + (copy_start - p_va ph))) k
         else Some (0, k)
       }
   }"

partial_function (option) load_pages :: "int \<Rightarrow> addr \<Rightarrow> proghdr \<Rightarrow> u64 \<Rightarrow> u64 \<Rightarrow> u64 \<Rightarrow> kernel \<Rightarrow> (int \<times> kernel) option" where
  "load_pages fd mm ph perm cur map_end k =
     (if cur < map_end then
        Option.bind (load_page fd mm ph perm cur k) (\<lambda>(ret, k).
          if ret \<noteq> 0 then Some (ret, k) else load_pages fd mm ph perm (cur + 4096) map_end k)
      else Some (0, k))"

definition load_segment :: "int \<Rightarrow> addr \<Rightarrow> proghdr \<Rightarrow> kernel \<Rightarrow> (int \<times> kernel) option" where
  "load_segment fd mm ph k =
     (if p_type ph \<noteq> ELF_PT_LOAD then Some (0, k)
      else if p_filesz ph > p_memsz ph then Some (- E_INVAL_ELF, k)
      else do {
        let vf = seg_vm_flags (p_flags ph);
        let map_start = WROUNDDOWN (p_va ph) 4096;
        let map_end = WROUNDUP (p_va ph + p_memsz ph) 4096;
        (ret, _, v) \<leftarrow> mm_map mm map_start (map_end - map_start) vf (k_vm k);
        let k = k\<lparr>k_vm := v\<rparr>;
        if ret \<noteq> 0 then Some (ret, k) else load_pages fd mm ph (seg_perm vf) map_start map_end k
      })"

fun load_segments :: "int \<Rightarrow> addr \<Rightarrow> u64 \<Rightarrow> nat list \<Rightarrow> kernel \<Rightarrow> (int \<times> kernel) option" where
  "load_segments fd mm phoff [] k = Some (0, k)"
| "load_segments fd mm phoff (i # is) k = do {
     (ret, k) \<leftarrow> load_icode_read fd (ph_buf k) 56 (sint (phoff + of_nat i * 56)) k;
     if ret \<noteq> 0 then Some (ret, k)
     else do {
       (ret, k) \<leftarrow> load_segment fd mm (proghdr_of (bytes_at (k_mem k) (ph_buf k) 56)) k;
       if ret \<noteq> 0 then Some (ret, k) else load_segments fd mm phoff is k
     }
   }"

section \<open>Arguments\<close>

text \<open>The strings are pushed from the last to the first; the pointers to them are kept in \<^verbatim>\<open>uargv\<close>.\<close>

fun push_strings :: "addr \<Rightarrow> (nat \<times> addr) list \<Rightarrow> u64 \<Rightarrow> kernel \<Rightarrow> (int \<times> u64 \<times> kernel) option" where
  "push_strings mm [] sp k = Some (0, sp, k)"
| "push_strings mm ((i, arg) # args) sp k = do {
     let len = strnlen (k_mem k) arg EXEC_MAX_ARG_LEN;
     let sp = WROUNDDOWN (sp - of_nat (len + 1)) 8;
     (ok, k) \<leftarrow> push_bytes mm sp arg (len + 1) k;
     if ok then push_strings mm args sp (set_mem (store_bytes (uargv_buf k + 8 * i) (le64 sp) (k_mem k)) k)
     else Some (- E_FAULT, sp, k)
   }"

fun push_pointers :: "addr \<Rightarrow> nat list \<Rightarrow> u64 \<Rightarrow> kernel \<Rightarrow> (int \<times> kernel) option" where
  "push_pointers mm [] sp k = Some (0, k)"
| "push_pointers mm (i # is) sp k = do {
     (ok, k) \<leftarrow> push_bytes mm (sp + 8 * of_nat i) (uargv_buf k + 8 * i) 8 k;
     if ok then push_pointers mm is sp k else Some (- E_FAULT, k)
   }"

definition push_args :: "addr \<Rightarrow> addr list \<Rightarrow> kernel \<Rightarrow> (int \<times> u64 \<times> kernel) option" where
  "push_args mm kargv k = do {
     let argc = length kargv;
     let k = set_mem (memset (uargv_buf k) 0 256 (k_mem k)) k;
     (ret, sp, k) \<leftarrow> push_strings mm (rev (List.enumerate 0 kargv)) USTACKTOP k;
     if ret \<noteq> 0 then Some (ret, sp, k)
     else do {
       let sp = WROUNDDOWN (sp - of_nat (argc + 1) * 8) 8;
       (ret, k) \<leftarrow> push_pointers mm [0..<argc] sp k;
       if ret \<noteq> 0 then Some (ret, sp, k)
       else do {
         let k = set_mem (store_bytes (nullp_buf k) (le64 0) (k_mem k)) k;
         (ok, k) \<leftarrow> push_bytes mm (sp + of_nat argc * 8) (nullp_buf k) 8 k;
         Some (if ok then 0 else - E_FAULT, sp, k)
       }
     }
   }"

section \<open>\<^verbatim>\<open>load_icode\<close>\<close>

text \<open>The labels \<^verbatim>\<open>bad_elf\<close> and \<^verbatim>\<open>bad_mmap\<close>.\<close>

definition bad_elf :: "addr \<Rightarrow> int \<Rightarrow> kernel \<Rightarrow> (int \<times> kernel) option" where
  "bad_elf mm ret k = do { v \<leftarrow> put_pgdir mm (k_vm k); v \<leftarrow> mm_destroy mm v; Some (ret, k\<lparr>k_vm := v\<rparr>) }"

definition bad_mmap :: "addr \<Rightarrow> int \<Rightarrow> kernel \<Rightarrow> (int \<times> kernel) option" where
  "bad_mmap mm ret k = do { v \<leftarrow> exit_mmap mm (k_vm k); bad_elf mm ret (k\<lparr>k_vm := v\<rparr>) }"

definition user_frame :: "u64 \<Rightarrow> u64 \<Rightarrow> nat \<Rightarrow> u64 \<Rightarrow> trapframe" where
  "user_frame sstatus epc argc sp =
     \<lparr>gpr = (\<lambda>_. 0)(2 := sp, 10 := of_nat argc, 11 := sp),
      tf_status = (sstatus OR SSTATUS_SPIE) AND NOT SSTATUS_SPP, tf_epc = epc, tf_tval = 0, tf_cause = 0\<rparr>"

text \<open>After the segments: the stack, the arguments and the trap frame.\<close>

definition load_stack :: "addr \<Rightarrow> elfhdr \<Rightarrow> addr list \<Rightarrow> kernel \<Rightarrow> (int \<times> kernel) option" where
  "load_stack mm elf kargv k = do {
     (ret, _, v) \<leftarrow> mm_map mm (USTACKTOP - USTACKSIZE) USTACKSIZE (VM_READ OR VM_WRITE OR VM_STACK) (k_vm k);
     let k = k\<lparr>k_vm := v\<rparr>;
     if ret \<noteq> 0 then bad_mmap mm ret k
     else do {
       (page, s) \<leftarrow> pgdir_alloc_page (pgdir (mms v mm)) (USTACKTOP - 4096) PTE_USER (phys v);
       let k = k\<lparr>k_vm := v\<lparr>phys := s\<rparr>\<rparr>;
       if page = None then bad_mmap mm (- E_NO_MEM) k
       else do {
         k \<leftarrow> switch_to_mm mm k;
         (ret, sp, k) \<leftarrow> push_args mm kargv k;
         if ret \<noteq> 0 then bad_mmap mm ret (k\<lparr>k_satp := boot_pgdir_pa (k_sym k)\<rparr>)
         else Some (0, k\<lparr>k_tfs := (k_tfs k)(q_tf (cur_px k) :=
                user_frame (k_sstatus k) (e_entry elf) (length kargv) sp)\<rparr>)
       }
     }
   }"

definition load_icode :: "int \<Rightarrow> addr list \<Rightarrow> kernel \<Rightarrow> (int \<times> kernel) option" where
  "load_icode fd kargv k = do {
     ensure (1 \<le> length kargv \<and> int (length kargv) \<le> EXEC_MAX_ARG_NUM);
     ensure (cur_mm k = 0);
     let (mm, v) = mm_create (k_vm k);
     if mm = 0 then Some (- E_NO_MEM, k\<lparr>k_vm := v\<rparr>)
     else do {
       (ret, v) \<leftarrow> setup_pgdir (boot_pgdir_va (k_sym k)) mm v;
       let k = k\<lparr>k_vm := v\<rparr>;
       if ret \<noteq> 0 then do { v \<leftarrow> mm_destroy mm v; Some (ret, k\<lparr>k_vm := v\<rparr>) }
       else do {
         (ret, k) \<leftarrow> load_icode_read fd (elf_buf k) 64 0 k;
         let elf = elfhdr_of (bytes_at (k_mem k) (elf_buf k) 64);
         if ret \<noteq> 0 then bad_elf mm ret k
         else if e_magic elf \<noteq> ELF_MAGIC then bad_elf mm (- E_INVAL_ELF) k
         else do {
           (ret, k) \<leftarrow> load_segments fd mm (e_phoff elf) [0..<unat (e_phnum elf)] k;
           if ret \<noteq> 0 then bad_mmap mm ret k else load_stack mm elf kargv k
         }
       }
     }
   }"

section \<open>\<^verbatim>\<open>do_execve\<close>\<close>

text \<open>The arguments are copied one by one; freeing the copies is not seen (\<^verbatim>\<open>put_kargv\<close>).\<close>

fun copy_kargv_loop :: "addr \<Rightarrow> u64 \<Rightarrow> nat list \<Rightarrow> kernel \<Rightarrow> (int \<times> addr list \<times> kernel) option" where
  "copy_kargv_loop mm argv [] k = Some (0, [], k)"
| "copy_kargv_loop mm argv (i # is) k = do {
     let (buffer, k) = k_kmalloc k;
     if buffer = 0 then Some (- E_NO_MEM, [], k)
     else do {
       let arg = of_le64 (bytes_at (k_mem k) (unat (argv + 8 * of_nat i)) 8);
       (ok, k) \<leftarrow> k_copy_string mm buffer arg (of_nat EXEC_MAX_ARG_LEN + 1) k;
       if \<not> ok then Some (- E_INVAL, [], k)
       else do {
         (ret, args, k) \<leftarrow> copy_kargv_loop mm argv is k;
         Some (ret, buffer # args, k)
       }
     }
   }"

definition copy_kargv :: "addr \<Rightarrow> nat \<Rightarrow> u64 \<Rightarrow> kernel \<Rightarrow> (int \<times> addr list \<times> kernel) option" where
  "copy_kargv mm argc argv k = do {
     (ok, v) \<leftarrow> user_mem_check mm argv (8 * of_nat argc) False (k_vm k);
     let k = k\<lparr>k_vm := v\<rparr>;
     if \<not> ok then Some (- E_INVAL, [], k) else copy_kargv_loop mm argv [0..<argc] k
   }"

text \<open>
  The name and the arguments under the lock; a result other than 0 is returned at once.
\<close>

definition exec_args :: "u64 \<Rightarrow> nat \<Rightarrow> u64 \<Rightarrow> kernel \<Rightarrow> ((int \<times> u64 \<times> addr list) \<times> kernel) option" where
  "exec_args name argc argv k = with_mm_lock (\<lambda>k. do {
     let mm = cur_mm k;
     let buf = name_buf k;
     let k = set_mem (memset buf 0 (PROC_NAME_LEN + 1) (k_mem k)) k;
     (ok, k) \<leftarrow> (if name = 0
        then do {
          (_, m) \<leftarrow> snprintf (of_nat buf) (of_nat (PROC_NAME_LEN + 1)) ''<null> %d'' [word_of_int (cur_pid k)] (k_mem k);
          Some (True, set_mem m k)
        }
        else k_copy_string mm buf name (of_nat (PROC_NAME_LEN + 1)) k);
     if \<not> ok then Some ((- E_INVAL, 0, []), k)
     else do {
       (ret, kargv, k) \<leftarrow> copy_kargv mm argc argv k;
       Some ((ret, of_le64 (bytes_at (k_mem k) (unat argv) 8), kargv), k)
     }
   }) k"

text \<open>
  A result \<^term>\<open>Inl k\<close> when the process has ended (the state after the switch to the next one),
  \<^term>\<open>Inr (r, k)\<close> when the call returns.
\<close>

definition do_execve :: "sched_class \<Rightarrow> u64 \<Rightarrow> int \<Rightarrow> u64 \<Rightarrow> kernel \<Rightarrow> (kernel + int \<times> kernel) option" where
  "do_execve cls name argc argv k =
     (if \<not> (1 \<le> argc \<and> argc \<le> EXEC_MAX_ARG_NUM) then Some (Inr (- E_INVAL, k))
      else do {
        let mm = cur_mm k;
        ((ret, path, kargv), k) \<leftarrow> exec_args name (nat argc) argv k;
        if ret \<noteq> 0 then Some (Inr (ret, k))
        else do {
          (_, k) \<leftarrow> with_files (\<lambda>s. do { (tab, s) \<leftarrow> files_closeall (filesp s) s; Some ((), s\<lparr>filesp := tab\<rparr>) }) k;
          (fd, k) \<leftarrow> sysfile_open path O_RDONLY k;
          if fd < 0 then do { k \<leftarrow> do_exit cls fd k; Some (Inl k) }
          else do {
            k \<leftarrow> (if mm \<noteq> 0 then leave_mm mm k else Some k);
            (ret, k) \<leftarrow> load_icode fd kargv k;
            if ret \<noteq> 0 then do { k \<leftarrow> do_exit cls ret k; Some (Inl k) }
            else Some (Inr (0, set_proc_name (current (k_sched k)) (name_buf k) k))
          }
        }
      })"

partial_function (option) count_args :: "mem \<Rightarrow> u64 \<Rightarrow> nat \<Rightarrow> nat option" where
  "count_args m argv n =
     (if of_le64 (bytes_at m (unat (argv + 8 * of_nat n)) 8) = 0 then Some n else count_args m argv (n + 1))"

text \<open>
  A kernel thread becomes a user process: its trap frame moves to the top of its kernel stack;
  the jump to \<^verbatim>\<open>__trapret\<close> does not come back, also when \<^verbatim>\<open>do_execve\<close> reports an error.
\<close>

definition kernel_execve :: "sched_class \<Rightarrow> u64 \<Rightarrow> u64 \<Rightarrow> kernel \<Rightarrow> (kernel + int \<times> kernel) option" where
  "kernel_execve cls name argv k = do {
     argc \<leftarrow> count_args (k_mem k) argv 0;
     let cur = current (k_sched k);
     let new_tf = q_kstack (k_px k cur) + KSTACKSIZE - 288;
     let k = k\<lparr>k_tfs := (k_tfs k)(new_tf := k_tfs k (q_tf (k_px k cur)))\<rparr>;
     let k = upd_px cur (\<lambda>x. x\<lparr>q_tf := new_tf\<rparr>) k;
     do_execve cls name (sint (of_nat argc :: u32)) argv k
   }"

end
