(* ===== verification/Syscall.thy ===== *)
theory Syscall
  imports Exec
begin

text \<open>
  System calls (\<^verbatim>\<open>kern/syscall/syscall.c\<close>) and traps (\<^verbatim>\<open>kern/trap/trap.c\<close>) over the whole kernel. A
  handler that gives up the processor ends with \<^term>\<open>Inl k\<close>, the state in which another process
  runs; one that comes back to its caller with \<^term>\<open>Inr\<close>. What the kernel prints goes to the
  console of the state. The handler of the clock is not told the time by the firmware.
\<close>

section \<open>Numbers of the calls\<close>

definition SYS_exit :: int where [layout]: "SYS_exit = 1"
definition SYS_fork :: int where [layout]: "SYS_fork = 2"
definition SYS_wait :: int where [layout]: "SYS_wait = 3"
definition SYS_exec :: int where [layout]: "SYS_exec = 4"
definition SYS_yield :: int where [layout]: "SYS_yield = 10"
definition SYS_sleep :: int where [layout]: "SYS_sleep = 11"
definition SYS_kill :: int where [layout]: "SYS_kill = 12"
definition SYS_gettime :: int where [layout]: "SYS_gettime = 17"
definition SYS_getpid :: int where [layout]: "SYS_getpid = 18"
definition SYS_putc :: int where [layout]: "SYS_putc = 30"
definition SYS_pgdir :: int where [layout]: "SYS_pgdir = 31"
definition SYS_open :: int where [layout]: "SYS_open = 100"
definition SYS_close :: int where [layout]: "SYS_close = 101"
definition SYS_read :: int where [layout]: "SYS_read = 102"
definition SYS_write :: int where [layout]: "SYS_write = 103"
definition SYS_seek :: int where [layout]: "SYS_seek = 104"
definition SYS_fstat :: int where [layout]: "SYS_fstat = 110"
definition SYS_fsync :: int where [layout]: "SYS_fsync = 111"
definition SYS_getcwd :: int where [layout]: "SYS_getcwd = 121"
definition SYS_getdirentry :: int where [layout]: "SYS_getdirentry = 128"
definition SYS_dup :: int where [layout]: "SYS_dup = 130"
definition SYS_lab6_set_priority :: int where [layout]: "SYS_lab6_set_priority = 255"
definition NUM_SYSCALLS :: int where [layout]: "NUM_SYSCALLS = 256"

section \<open>Handlers\<close>

type_synonym args = "nat \<Rightarrow> u64"
type_synonym outcome = "kernel + int \<times> kernel"

definition c_int :: "u64 \<Rightarrow> int" where
  "c_int w = sint (ucast w :: u32)"

definition returns :: "(int \<times> kernel) option \<Rightarrow> outcome option" where
  "returns r = map_option Inr r"

definition cputchar :: "int \<Rightarrow> kernel \<Rightarrow> kernel" where
  "cputchar c k = k\<lparr>k_fs := (k_fs k)\<lparr>console := console (k_fs k) @ [word_of_int c]\<rparr>\<rparr>"

definition k_cprintf :: "string \<Rightarrow> u64 list \<Rightarrow> kernel \<Rightarrow> kernel option" where
  "k_cprintf fmt ap k = do {
     (_, out) \<leftarrow> cprintf fmt ap (k_mem k);
     Some (fold (\<lambda>c. cputchar (uint c)) out k)
   }"

definition newline :: string where "newline = [CHR 0x0A]"

definition sys_exit :: "sched_class \<Rightarrow> args \<Rightarrow> kernel \<Rightarrow> outcome option" where
  "sys_exit cls arg k = do { k \<leftarrow> do_exit cls (c_int (arg 0)) k; Some (Inl k) }"

definition sys_fork :: "sched_class \<Rightarrow> args \<Rightarrow> kernel \<Rightarrow> outcome option" where
  "sys_fork cls arg k = (let tf = k_tfs k (q_tf (cur_px k)) in returns (do_fork cls 0 (gpr tf 2) tf k))"

definition sys_wait :: "sched_class \<Rightarrow> args \<Rightarrow> kernel \<Rightarrow> outcome option" where
  "sys_wait cls arg k = do_wait cls (c_int (arg 0)) (unat (arg 1)) k"

definition sys_exec :: "sched_class \<Rightarrow> args \<Rightarrow> kernel \<Rightarrow> outcome option" where
  "sys_exec cls arg k = do_execve cls (arg 0) (c_int (arg 1)) (arg 2) k"

definition sys_yield :: "args \<Rightarrow> kernel \<Rightarrow> outcome option" where
  "sys_yield arg k = (let (r, s) = do_yield (k_sched k) in Some (Inr (r, k\<lparr>k_sched := s\<rparr>)))"

definition sys_kill :: "sched_class \<Rightarrow> args \<Rightarrow> kernel \<Rightarrow> outcome option" where
  "sys_kill cls arg k = returns (do_kill cls (c_int (arg 0)) k)"

definition sys_getpid :: "args \<Rightarrow> kernel \<Rightarrow> outcome option" where
  "sys_getpid arg k = Some (Inr (cur_pid k, k))"

definition sys_putc :: "args \<Rightarrow> kernel \<Rightarrow> outcome option" where
  "sys_putc arg k = Some (Inr (0, cputchar (c_int (arg 0)) k))"

definition sys_pgdir :: "args \<Rightarrow> kernel \<Rightarrow> outcome option" where
  "sys_pgdir arg k = Some (Inr (0, k))"

definition sys_gettime :: "args \<Rightarrow> kernel \<Rightarrow> outcome option" where
  "sys_gettime arg k = Some (Inr (sint ((ucast (k_ticks k) :: u32) * 10), k))"

definition sys_lab6_set_priority :: "args \<Rightarrow> kernel \<Rightarrow> outcome option" where
  "sys_lab6_set_priority arg k = do {
     let priority = (ucast (arg 0) :: u32);
     k \<leftarrow> k_cprintf (''set priority to %d'' @ newline) [ucast priority] k;
     Some (Inr (0, k\<lparr>k_sched := lab6_set_priority priority (k_sched k)\<rparr>))
   }"

text \<open>The timer of a sleeper lies on its kernel stack; \<open>sleep_resume\<close> runs when it is back.\<close>

definition sys_sleep :: "sched_class \<Rightarrow> args \<Rightarrow> kernel \<Rightarrow> outcome option" where
  "sys_sleep cls arg k =
     (let time = (ucast (arg 0) :: u32) in
      if time = 0 then Some (Inr (0, k))
      else do {
        (s, t) \<leftarrow> do_sleep_before (k_locals k) time (k_sched k) (k_timers k);
        k \<leftarrow> k_schedule cls (k\<lparr>k_sched := s, k_timers := t\<rparr>);
        Some (Inl k)
      })"

definition sleep_resume :: "addr \<Rightarrow> kernel \<Rightarrow> int \<times> kernel" where
  "sleep_resume timer k = (0, k\<lparr>k_timers := del_timer timer (k_timers k)\<rparr>)"

definition sys_open :: "args \<Rightarrow> kernel \<Rightarrow> outcome option" where
  "sys_open arg k = returns (sysfile_open (arg 0) (ucast (arg 1)) k)"

definition sys_close :: "args \<Rightarrow> kernel \<Rightarrow> outcome option" where
  "sys_close arg k = returns (sysfile_close (c_int (arg 0)) k)"

definition sys_read :: "args \<Rightarrow> kernel \<Rightarrow> outcome option" where
  "sys_read arg k = returns (sysfile_read (c_int (arg 0)) (arg 1) (arg 2) k)"

definition sys_write :: "args \<Rightarrow> kernel \<Rightarrow> outcome option" where
  "sys_write arg k = returns (sysfile_write (c_int (arg 0)) (arg 1) (arg 2) k)"

definition sys_seek :: "args \<Rightarrow> kernel \<Rightarrow> outcome option" where
  "sys_seek arg k = returns (sysfile_seek (c_int (arg 0)) (sint (arg 1)) (c_int (arg 2)) k)"

definition sys_fstat :: "args \<Rightarrow> kernel \<Rightarrow> outcome option" where
  "sys_fstat arg k = returns (sysfile_fstat (c_int (arg 0)) (arg 1) k)"

definition sys_fsync :: "args \<Rightarrow> kernel \<Rightarrow> outcome option" where
  "sys_fsync arg k = returns (sysfile_fsync (c_int (arg 0)) k)"

definition sys_getcwd :: "args \<Rightarrow> kernel \<Rightarrow> outcome option" where
  "sys_getcwd arg k = returns (sysfile_getcwd (arg 0) (arg 1) k)"

definition sys_getdirentry :: "args \<Rightarrow> kernel \<Rightarrow> outcome option" where
  "sys_getdirentry arg k = returns (sysfile_getdirentry (c_int (arg 0)) (arg 1) k)"

definition sys_dup :: "args \<Rightarrow> kernel \<Rightarrow> outcome option" where
  "sys_dup arg k = returns (sysfile_dup (c_int (arg 0)) (c_int (arg 1)) k)"

section \<open>The table and \<^verbatim>\<open>syscall\<close>\<close>

definition syscalls :: "sched_class \<Rightarrow> int \<Rightarrow> (args \<Rightarrow> kernel \<Rightarrow> outcome option) option" where
  "syscalls cls num = map_of
    [(SYS_exit, sys_exit cls), (SYS_fork, sys_fork cls), (SYS_wait, sys_wait cls), (SYS_exec, sys_exec cls),
     (SYS_yield, sys_yield), (SYS_kill, sys_kill cls), (SYS_getpid, sys_getpid), (SYS_putc, sys_putc),
     (SYS_pgdir, sys_pgdir), (SYS_gettime, sys_gettime), (SYS_lab6_set_priority, sys_lab6_set_priority),
     (SYS_sleep, sys_sleep cls), (SYS_open, sys_open), (SYS_close, sys_close), (SYS_read, sys_read),
     (SYS_write, sys_write), (SYS_seek, sys_seek), (SYS_fstat, sys_fstat), (SYS_fsync, sys_fsync),
     (SYS_getcwd, sys_getcwd), (SYS_getdirentry, sys_getdirentry), (SYS_dup, sys_dup)] num"

definition set_gpr :: "u64 \<Rightarrow> nat \<Rightarrow> u64 \<Rightarrow> kernel \<Rightarrow> kernel" where
  "set_gpr tfp r v k =
     k\<lparr>k_tfs := (k_tfs k)(tfp := (k_tfs k tfp)\<lparr>gpr := (gpr (k_tfs k tfp))(r := v)\<rparr>)\<rparr>"

definition do_syscall :: "sched_class \<Rightarrow> kernel \<Rightarrow> (kernel + kernel) option" where
  "do_syscall cls k = do {
     let tfp = q_tf (cur_px k);
     let tf = k_tfs k tfp;
     let num = c_int (gpr tf 10);
     ensure (0 \<le> num \<and> num < NUM_SYSCALLS);
     f \<leftarrow> syscalls cls num;
     r \<leftarrow> f (\<lambda>i. gpr tf (11 + i)) k;
     Some (case r of Inl k \<Rightarrow> Inl k | Inr (ret, k) \<Rightarrow> Inr (set_gpr tfp 10 (word_of_int ret) k))
   }"

section \<open>Traps\<close>

definition trap_in_kernel :: "trapframe \<Rightarrow> bool" where
  "trap_in_kernel tf \<longleftrightarrow> tf_status tf AND SSTATUS_SPP \<noteq> 0"

definition reg_names :: "string list" where
  "reg_names = [''zero'', ''ra'', ''sp'', ''gp'', ''tp'', ''t0'', ''t1'', ''t2'', ''s0'', ''s1'', ''a0'', ''a1'', ''a2'', ''a3'',
     ''a4'', ''a5'', ''a6'', ''a7'', ''s2'', ''s3'', ''s4'', ''s5'', ''s6'', ''s7'', ''s8'', ''s9'', ''s10'', ''s11'', ''t3'', ''t4'',
     ''t5'', ''t6'']"

fun print_lines :: "(string \<times> u64) list \<Rightarrow> kernel \<Rightarrow> kernel option" where
  "print_lines [] k = Some k"
| "print_lines ((name, v) # ls) k = do { k \<leftarrow> k_cprintf (name @ ''0x%08x'' @ newline) [v] k; print_lines ls k }"

definition print_regs :: "(nat \<Rightarrow> u64) \<Rightarrow> kernel \<Rightarrow> kernel option" where
  "print_regs g k = print_lines (map (\<lambda>(i, name). (''  '' @ name @ replicate (9 - length name) (CHR '' ''), g i))
     (List.enumerate 0 reg_names)) k"

definition print_trapframe :: "u64 \<Rightarrow> kernel \<Rightarrow> kernel option" where
  "print_trapframe tfp k = do {
     let tf = k_tfs k tfp;
     k \<leftarrow> k_cprintf (''trapframe at %p'' @ newline) [tfp] k;
     k \<leftarrow> print_regs (gpr tf) k;
     print_lines [(''  status   '', tf_status tf), (''  epc      '', tf_epc tf), (''  tval '', tf_tval tf),
       (''  cause    '', tf_cause tf)] k
   }"

definition say :: "string \<Rightarrow> kernel \<Rightarrow> kernel option" where
  "say msg k = k_cprintf (msg @ newline) [] k"

text \<open>The keyboard: a character goes into the buffer of \<^verbatim>\<open>stdin\<close>, and its readers are woken.\<close>

definition with_sync :: "(sync_state \<Rightarrow> sync_state option) \<Rightarrow> kernel \<Rightarrow> kernel option" where
  "with_sync f k = do {
     s \<leftarrow> f \<lparr>sch = k_sched k, waits = k_waits k, wlinks = k_wlinks k, sem_value = (\<lambda>_. 0)\<rparr>;
     Some (k\<lparr>k_sched := sch s, k_waits := waits s, k_wlinks := wlinks s\<rparr>)
   }"

definition dev_stdin_write :: "sched_class \<Rightarrow> u8 \<Rightarrow> kernel \<Rightarrow> kernel option" where
  "dev_stdin_write cls c k =
     (if c \<noteq> 0 then
        (let k = k\<lparr>k_fs := dev_stdin_put c (k_fs k)\<rparr> in
         if list_empty (k_stdin_queue k) (k_wlinks k) then Some k
         else with_sync (wakeup_queue cls (k_stdin_queue k) WT_KBD True) k)
      else Some k)"

definition k_cons_getc :: "kernel \<Rightarrow> int \<times> kernel" where
  "k_cons_getc k = (let (c, inp, s) = cons_getc (k_input k) (k_cons k) in (c, k\<lparr>k_input := inp, k_cons := s\<rparr>))"

definition clock_tick :: "sched_class \<Rightarrow> kernel \<Rightarrow> kernel option" where
  "clock_tick cls k = do {
     let k = k\<lparr>k_ticks := k_ticks k + 1\<rparr>;
     (s, t) \<leftarrow> run_timer_list cls (k_sched k) (k_timers k);
     let k = k\<lparr>k_sched := s, k_timers := t\<rparr>;
     let (c, k) = k_cons_getc k;
     dev_stdin_write cls (word_of_int c) k
   }"

definition irq_message :: "u64 \<Rightarrow> string option" where
  "irq_message cause = map_of
    [(0, ''User software interrupt''), (1, ''Supervisor software interrupt''), (2, ''Hypervisor software interrupt''),
     (3, ''Machine software interrupt''), (4, ''User software interrupt''), (6, ''Hypervisor software interrupt''),
     (7, ''Machine software interrupt''), (8, ''User software interrupt''), (9, ''Supervisor external interrupt''),
     (10, ''Hypervisor software interrupt''), (11, ''Machine software interrupt'')] cause"

definition interrupt_handler :: "sched_class \<Rightarrow> u64 \<Rightarrow> kernel \<Rightarrow> kernel option" where
  "interrupt_handler cls tfp k =
     (let cause = drop_bit 1 (push_bit 1 (tf_cause (k_tfs k tfp))) in
      if cause = 5 then clock_tick cls k
      else case irq_message cause of Some msg \<Rightarrow> say msg k | None \<Rightarrow> print_trapframe tfp k)"

definition fault_message :: "u64 \<Rightarrow> string option" where
  "fault_message cause = map_of
    [(0, ''Instruction address misaligned''), (1, ''Instruction access fault''), (2, ''Illegal instruction''),
     (3, ''Breakpoint''), (4, ''Load address misaligned''), (5, ''Load access fault''), (7, ''Store/AMO access fault''),
     (10, ''Environment call from H-mode''), (11, ''Environment call from M-mode''), (12, ''Instruction page fault''),
     (13, ''Load page fault''), (15, ''Store/AMO page fault'')] cause"

definition ecall :: "sched_class \<Rightarrow> u64 \<Rightarrow> kernel \<Rightarrow> (kernel + kernel) option" where
  "ecall cls tfp k =
     do_syscall cls (k\<lparr>k_tfs := (k_tfs k)(tfp := (k_tfs k tfp)\<lparr>tf_epc := tf_epc (k_tfs k tfp) + 4\<rparr>)\<rparr>)"

definition exception_handler :: "sched_class \<Rightarrow> u64 \<Rightarrow> kernel \<Rightarrow> (kernel + kernel) option" where
  "exception_handler cls tfp k =
     (let cause = tf_cause (k_tfs k tfp) in
      if cause = 6 then None
      else if cause = 8 then ecall cls tfp k
      else if cause = 9 then do { k \<leftarrow> say ''Environment call from S-mode'' k; ecall cls tfp k }
      else map_option Inr (case fault_message cause of Some msg \<Rightarrow> say msg k | None \<Rightarrow> print_trapframe tfp k))"

definition trap_dispatch :: "sched_class \<Rightarrow> u64 \<Rightarrow> kernel \<Rightarrow> (kernel + kernel) option" where
  "trap_dispatch cls tfp k =
     (if tf_cause (k_tfs k tfp) <s 0 then map_option Inr (interrupt_handler cls tfp k)
      else exception_handler cls tfp k)"

text \<open>What \<^verbatim>\<open>trap\<close> does after the dispatch, also when the process is back after it gave up the processor.\<close>

text \<open>
  \<open>trap_resume\<close> is what remains of \<^verbatim>\<open>trap\<close> behind its call of \<^verbatim>\<open>schedule\<close>: it returns to
  \<^verbatim>\<open>trapentry.S\<close>, which restores the frame. A process that was preempted there continues with it.
\<close>

definition trap_resume :: "kernel \<Rightarrow> kernel" where
  "trap_resume k = k"

definition trap_return :: "sched_class \<Rightarrow> u64 \<Rightarrow> bool \<Rightarrow> kernel \<Rightarrow> (kernel + kernel) option" where
  "trap_return cls otf in_kernel k =
     (let cur = current (k_sched k); k = upd_px cur (\<lambda>x. x\<lparr>q_tf := otf\<rparr>) k in
      if in_kernel then Some (Inr k)
      else if Proc.flags (procs (k_sched k) cur) AND PF_EXITING \<noteq> 0
      then do { k \<leftarrow> do_exit cls (- E_KILLED) k; Some (Inl k) }
      else if need_resched (procs (k_sched k) cur)
      then do { k \<leftarrow> k_schedule cls k; Some (if current (k_sched k) = cur then Inr (trap_resume k) else Inl k) }
      else Some (Inr k))"

definition trap :: "sched_class \<Rightarrow> u64 \<Rightarrow> kernel \<Rightarrow> (kernel + kernel) option" where
  "trap cls tfp k =
     (let cur = current (k_sched k) in
      if cur = 0 then trap_dispatch cls tfp k
      else do {
        let otf = q_tf (k_px k cur);
        let in_kernel = trap_in_kernel (k_tfs k tfp);
        r \<leftarrow> trap_dispatch cls tfp (upd_px cur (\<lambda>x. x\<lparr>q_tf := tfp\<rparr>) k);
        case r of Inl k \<Rightarrow> Some (Inl k) | Inr k \<Rightarrow> trap_return cls otf in_kernel k
      })"

text \<open>One round of the loop of the idle process.\<close>

definition cpu_idle_round :: "sched_class \<Rightarrow> kernel \<Rightarrow> kernel option" where
  "cpu_idle_round cls k =
     (if need_resched (procs (k_sched k) (current (k_sched k))) then k_schedule cls k else Some k)"

end
