(* ===== verification/TrapSpec.thy ===== *)
theory TrapSpec
  imports Syscall ProcSpec
begin

text \<open>
  What traps and system calls keep: the result of a call is in the saved register, a process goes
  back to user mode only when it is not to end and not to be preempted.
\<close>

section \<open>The way back to user mode\<close>

lemma schedule_flags:
  assumes "schedule default_sched_class s = Some s'"
  shows "Proc.flags (procs s' q) = Proc.flags (procs s q)"
    and "\<not> need_resched (procs s' (current s))"
proof -
  define s1 where "s1 = upd_proc (current s) (\<lambda>q. q\<lparr>need_resched := False\<rparr>) s"
  obtain s2 where s2: "(if state (procs s1 (current s1)) = PROC_RUNNABLE
      then sched_class_enqueue default_sched_class (current s1) s1 else Some s1) = Some s2"
    "(do { (n, s) \<leftarrow> sched_class_pick_next default_sched_class s2;
       s \<leftarrow> (if n \<noteq> 0 then sched_class_dequeue default_sched_class n s else Some s);
       let n = (if n = 0 then idleproc s else n);
       let s = upd_proc n (\<lambda>q. q\<lparr>runs := runs q + 1\<rparr>) s;
       Some (if n \<noteq> current s then proc_run n s else s) }) = Some s'"
    using assms unfolding schedule_def s1_def [symmetric] Let_def by (auto split: bind_splits)
  have 1: "Proc.flags (procs s1 p) = Proc.flags (procs s p)" "\<not> need_resched (procs s1 (current s))" for p
    by (simp_all add: s1_def)
  have 2: "Proc.flags (procs s2 p) = Proc.flags (procs s1 p)" "need_resched (procs s2 p) = need_resched (procs s1 p)" for p
    using s2(1) by (auto simp: sched_class_enqueue_def default_sched_class_def RR_enqueue_def Let_def ensure_def upd_proc_def
        split: if_splits)
  have 3: "Proc.flags (procs s' p) = Proc.flags (procs s2 p)" "need_resched (procs s' p) = need_resched (procs s2 p)" for p
    using s2(2) by (auto simp: sched_class_pick_next_def sched_class_dequeue_def default_sched_class_def RR_pick_next_def
        RR_dequeue_def Let_def ensure_def upd_proc_def split: if_splits bind_splits)
  show "Proc.flags (procs s' q) = Proc.flags (procs s q)" "\<not> need_resched (procs s' (current s))"
    using 1 2 3 by simp_all
qed

text \<open>A process that is marked to end, and what the end of \<^verbatim>\<open>trap\<close> may make of a state \<open>k\<close>.\<close>

definition exiting :: "addr \<Rightarrow> kernel \<Rightarrow> bool" where
  "exiting p k \<longleftrightarrow> Proc.flags (procs (k_sched k) p) AND PF_EXITING \<noteq> 0"

definition leaves_well :: "u64 \<Rightarrow> kernel \<Rightarrow> kernel + kernel \<Rightarrow> bool" where
  "leaves_well otf k r \<longleftrightarrow>
     (let p = current (k_sched k); h = upd_px p (\<lambda>x. x\<lparr>q_tf := otf\<rparr>) k in
      case r of
        Inr k' \<Rightarrow> \<not> exiting p k \<and> current (k_sched k') = p \<and> \<not> exiting p k' \<and> \<not> need_resched (procs (k_sched k') p)
      | Inl k' \<Rightarrow>
          if exiting p k then do_exit default_sched_class (- E_KILLED) h = Some k'
          else need_resched (procs (k_sched k) p) \<and> current (k_sched k') \<noteq> p \<and> \<not> exiting p k')"

lemma trap_return_leaves:
  assumes "trap_return default_sched_class otf False k = Some r"
  shows "leaves_well otf k r"
  using assms schedule_flags
  by (auto simp: trap_return_def trap_resume_def leaves_well_def exiting_def Let_def k_schedule_def with_sched_def upd_px_def
      split: if_splits bind_splits)

text \<open>
  C23: what \<^verbatim>\<open>trap\<close> does with a process that is marked to end (\<^verbatim>\<open>PF_EXITING\<close>). After a trap from user
  mode, either the handler itself gave the processor up, or it came back, and then a marked process ends
  by \<^verbatim>\<open>do_exit\<close> and does not return to user mode; a process that returns is not marked and has not been
  asked to give up the processor; and one that is preempted here had been asked to, and is not marked
  when it loses the processor. The same holds when a handler that slept comes back to the end of
  \<^verbatim>\<open>trap\<close> later (\<open>trap_return\<close>). A preempted process, in contrast, goes on with \<open>trap_resume\<close>, which
  looks at no mark: one that is marked while it waits for the processor returns to user mode once more.
\<close>

theorem trap_checks_mark:
  assumes "current (k_sched k) = cur" and "cur \<noteq> 0" and "\<not> trap_in_kernel (k_tfs k tfp)"
  shows "(trap default_sched_class tfp k = Some r \<longrightarrow>
      (let d = trap_dispatch default_sched_class tfp (upd_px cur (\<lambda>x. x\<lparr>q_tf := tfp\<rparr>) k) in
       (\<exists>k'. d = Some (Inl k') \<and> r = Inl k') \<or> (\<exists>k'. d = Some (Inr k') \<and> leaves_well (q_tf (k_px k cur)) k' r)))
    \<and> (trap_return default_sched_class otf False k = Some r \<longrightarrow> leaves_well otf k r)
    \<and> (\<forall>k'. exiting p k' \<longrightarrow> current (k_sched k') = p \<longrightarrow> exiting p (trap_resume k') \<and> current (k_sched (trap_resume k')) = p)"
proof -
  have "(\<exists>k'. d = Some (Inl k') \<and> r = Inl k') \<or> (\<exists>k'. d = Some (Inr k') \<and> leaves_well (q_tf (k_px k cur)) k' r)"
    if "trap default_sched_class tfp k = Some r" and "d = trap_dispatch default_sched_class tfp (upd_px cur (\<lambda>x. x\<lparr>q_tf := tfp\<rparr>) k)" for d
    using that assms trap_return_leaves by (auto simp: trap_def Let_def split: bind_splits sum.splits)
  then show ?thesis using trap_return_leaves by (simp add: trap_resume_def Let_def)
qed

definition demo_user :: kernel where
  "demo_user = demo_kernel\<lparr>k_tfs := (k_tfs demo_kernel)(0x9000 :=
     \<lparr>gpr = (\<lambda>_. 0)(10 := 18), tf_status = 0, tf_epc = 0x800020, tf_tval = 0, tf_cause = 8\<rparr>)\<rparr>"

theorem trap_checks_mark_witness:
  "\<exists>k'. trap default_sched_class 0x9000 demo_user = Some (Inr k') \<and> \<not> exiting 0x200 k' \<and> current (k_sched k') = 0x200"
proof -
  have c: "current (k_sched demo_user) = 0x200" and u: "\<not> trap_in_kernel (k_tfs demo_user 0x9000)"
    by (simp_all add: demo_user_def demo_kernel_def trap_in_kernel_def)
  obtain k' where k': "trap default_sched_class 0x9000 demo_user = Some (Inr k')" "current (k_sched k') = 0x200"
    "\<And>d. trap_dispatch default_sched_class 0x9000 (upd_px 0x200 (\<lambda>x. x\<lparr>q_tf := 0x9000\<rparr>) demo_user) = Some (Inr d) \<Longrightarrow>
      current (k_sched d) = 0x200"
    by (simp add: trap_def trap_dispatch_def exception_handler_def ecall_def do_syscall_def syscalls_def layout
        demo_user_def demo_kernel_def trap_in_kernel_def SSTATUS_SPP_def c_int_def cur_px_def upd_px_def sys_getpid_def
        trap_return_def set_gpr_def alloc_proc_fields_def word_sless_alt)
  show ?thesis
    using trap_checks_mark [OF c _ u, of "Inr k'" 0 0] k' by (auto simp: leaves_well_def Let_def)
qed

section \<open>Results of calls\<close>

lemma syscall_result:
  assumes "syscalls cls (c_int (gpr (k_tfs k (q_tf (cur_px k))) 10)) = Some f"
    and "f (\<lambda>i. gpr (k_tfs k (q_tf (cur_px k))) (11 + i)) k = Some (Inr (r, k'))"
  shows "do_syscall cls k = Some (Inr (set_gpr (q_tf (cur_px k)) 10 (word_of_int r) k'))"
  using assms by (auto simp: do_syscall_def syscalls_def Let_def layout split: if_splits)

text \<open>
  \<^verbatim>\<open>load_icode\<close> puts the number of arguments into \<^verbatim>\<open>a0\<close> of the new frame; the result of the call
  overwrites it with 0.
\<close>

lemma exec_loses_argc:
  assumes "c_int (gpr (k_tfs k tfp) 10) = SYS_exec" and "tfp = q_tf (cur_px k)"
    and "do_execve cls (gpr (k_tfs k tfp) 11) (c_int (gpr (k_tfs k tfp) 12)) (gpr (k_tfs k tfp) 13) k = Some (Inr (0, k'))"
  shows "\<exists>k''. do_syscall cls k = Some (Inr k'') \<and> gpr (k_tfs k'' tfp) 10 = 0"
  using assms syscall_result [of cls k "sys_exec cls" 0 k']
  by (auto simp: sys_exec_def syscalls_def set_gpr_def layout)

end
