(* ===== verification/Slob.thy ===== *)
theory Slob
  imports Paging
begin

text \<open>
  The heap of the kernel (\<^verbatim>\<open>kern/mm/kmalloc.c\<close>): the SLOB allocator, a ring of free blocks in
  units of 16 bytes over the page allocator, and the list of big blocks. A block is named by its
  address; the fields of its header are maps from addresses. A \<^verbatim>\<open>bigblock_t\<close> lies in a block and
  shares its memory: \<^verbatim>\<open>order\<close> is in the place of \<^verbatim>\<open>units\<close> and \<^verbatim>\<open>pages\<close> in that of \<^verbatim>\<open>next\<close>. What a caller
  writes into its block is not part of the state.
\<close>

section \<open>State\<close>

definition SLOB_UNIT :: nat where [layout]: "SLOB_UNIT = 16"

record slob =
  units :: "addr \<Rightarrow> int"
  snext :: "addr \<Rightarrow> addr"
  bb_next :: "addr \<Rightarrow> addr"
  slobfree :: addr
  bigblocks :: addr
  slob_phys :: phys

definition SLOB_UNITS :: "nat \<Rightarrow> int" where
  "SLOB_UNITS n = int ((n + SLOB_UNIT - 1) div SLOB_UNIT)"

definition ALIGN :: "addr \<Rightarrow> nat \<Rightarrow> addr" where
  "ALIGN a n = (a + n - 1) div n * n"

definition after :: "addr \<Rightarrow> slob \<Rightarrow> int" where
  "after b s = int b + 16 * units s b"

definition slob_get_free_pages :: "nat \<Rightarrow> slob \<Rightarrow> (addr \<times> slob) option" where
  "slob_get_free_pages order s = do {
     (page, p) \<leftarrow> alloc_pages (2 ^ order) (slob_phys s);
     let s = s\<lparr>slob_phys := p\<rparr>;
     case page of None \<Rightarrow> Some (0, s)
     | Some page \<Rightarrow> do { kva \<leftarrow> page2kva page p; Some (unat kva, s) }
   }"

definition slob_free_pages :: "addr \<Rightarrow> nat \<Rightarrow> slob \<Rightarrow> slob option" where
  "slob_free_pages kva order s = do {
     page \<leftarrow> kva2page (of_nat kva) (slob_phys s);
     p \<leftarrow> free_run page (2 ^ order) (slob_phys s);
     Some (s\<lparr>slob_phys := p\<rparr>)
   }"

section \<open>\<^verbatim>\<open>slob_free\<close>\<close>

text \<open>The search for the place of \<open>b\<close> in the ring.\<close>

partial_function (option) slob_find :: "slob \<Rightarrow> addr \<Rightarrow> addr \<Rightarrow> addr option" where
  "slob_find s b cur =
     (if b > cur \<and> b < snext s cur then Some cur
      else if cur \<ge> snext s cur \<and> (b > cur \<or> b < snext s cur) then Some cur
      else slob_find s b (snext s cur))"

definition join_next :: "addr \<Rightarrow> addr \<Rightarrow> slob \<Rightarrow> slob" where
  "join_next cur b s =
     (let n = snext s cur in
      if after b s = int n
      then s\<lparr>units := (units s)(b := units s b + units s n), snext := (snext s)(b := snext s n)\<rparr>
      else s\<lparr>snext := (snext s)(b := n)\<rparr>)"

definition join_prev :: "addr \<Rightarrow> addr \<Rightarrow> slob \<Rightarrow> slob" where
  "join_prev cur b s =
     (if after cur s = int b
      then s\<lparr>units := (units s)(cur := units s cur + units s b), snext := (snext s)(cur := snext s b)\<rparr>
      else s\<lparr>snext := (snext s)(cur := b)\<rparr>)"

definition slob_free :: "addr \<Rightarrow> nat \<Rightarrow> slob \<Rightarrow> slob option" where
  "slob_free blk n s =
     (if blk = 0 then Some s
      else do {
        let s = (if n \<noteq> 0 then s\<lparr>units := (units s)(blk := SLOB_UNITS n)\<rparr> else s);
        cur \<leftarrow> slob_find s blk (slobfree s);
        let s = join_prev cur blk (join_next cur blk s);
        Some (s\<lparr>slobfree := cur\<rparr>)
      })"

section \<open>\<^verbatim>\<open>slob_alloc\<close>\<close>

text \<open>A block with room for \<open>n\<close> units is cut: \<open>delta\<close> units in front for the alignment, the rest behind.\<close>

definition slob_take :: "int \<Rightarrow> int \<Rightarrow> addr \<Rightarrow> addr \<Rightarrow> addr \<Rightarrow> slob \<Rightarrow> addr \<times> slob" where
  "slob_take n delta aligned prev cur s =
     (let (prev, cur, s) =
        (if delta \<noteq> 0
         then (cur, aligned,
           s\<lparr>units := (units s)(aligned := units s cur - delta, cur := delta),
             snext := (snext s)(aligned := snext s cur, cur := aligned)\<rparr>)
         else (prev, cur, s));
        s =
        (if units s cur = n then s\<lparr>snext := (snext s)(prev := snext s cur)\<rparr>
         else
           (let rest = cur + 16 * nat n;
                s = s\<lparr>snext := (snext s)(prev := rest)\<rparr>;
                s = s\<lparr>units := (units s)(rest := units s cur - n)\<rparr>;
                s = s\<lparr>snext := (snext s)(rest := snext s cur)\<rparr>
            in s\<lparr>units := (units s)(cur := n)\<rparr>))
      in (cur, s\<lparr>slobfree := prev\<rparr>))"

partial_function (option) slob_scan ::
    "nat \<Rightarrow> int \<Rightarrow> nat \<Rightarrow> addr \<Rightarrow> addr \<Rightarrow> slob \<Rightarrow> (addr \<times> slob) option" where
  "slob_scan sz n align prev cur s =
     (let aligned = (if align \<noteq> 0 then ALIGN cur align else 0);
          delta = (if align \<noteq> 0 then int ((aligned - cur) div 16) else 0)
      in if units s cur \<ge> n + delta then Some (slob_take n delta aligned prev cur s)
         else if cur = slobfree s then
           (if sz = 4096 then Some (0, s)
            else Option.bind (slob_get_free_pages 0 s) (\<lambda>(page, s).
              if page = 0 then Some (0, s)
              else Option.bind (slob_free page 4096 s) (\<lambda>s.
                slob_scan sz n align (slobfree s) (snext s (slobfree s)) s)))
         else slob_scan sz n align cur (snext s cur) s)"

definition slob_alloc :: "nat \<Rightarrow> nat \<Rightarrow> slob \<Rightarrow> (addr \<times> slob) option" where
  "slob_alloc sz align s = do {
     ensure (sz + SLOB_UNIT < 4096);
     slob_scan sz (SLOB_UNITS sz) align (slobfree s) (snext s (slobfree s)) s
   }"

section \<open>\<^verbatim>\<open>kmalloc\<close> and \<^verbatim>\<open>kfree\<close>\<close>

function find_order :: "int \<Rightarrow> nat" where
  "find_order sz = (if sz > 4096 then Suc (find_order (sz div 2)) else 0)"
  by pat_completeness auto
termination by (relation "measure nat") auto

declare find_order.simps [simp del]

definition slob_kmalloc :: "nat \<Rightarrow> slob \<Rightarrow> (addr \<times> slob) option" where
  "slob_kmalloc sz s =
     (if sz < 4096 - SLOB_UNIT then do {
        (m, s) \<leftarrow> slob_alloc (sz + SLOB_UNIT) 0 s;
        Some (if m \<noteq> 0 then m + 16 else 0, s)
      }
      else do {
        (bb, s) \<leftarrow> slob_alloc 24 0 s;
        if bb = 0 then Some (0, s)
        else do {
          let s = s\<lparr>units := (units s)(bb := int (find_order (sint (of_nat sz :: u32))))\<rparr>;
          (pages, s) \<leftarrow> slob_get_free_pages (nat (units s bb)) s;
          let s = s\<lparr>snext := (snext s)(bb := pages)\<rparr>;
          if pages \<noteq> 0 then Some (pages, s\<lparr>bb_next := (bb_next s)(bb := bigblocks s), bigblocks := bb\<rparr>)
          else do { s \<leftarrow> slob_free bb 24 s; Some (0, s) }
        }
      })"

text \<open>The walk over the big blocks: the place of the pointer to the current one, and the current one.\<close>

partial_function (option) find_big :: "slob \<Rightarrow> addr \<Rightarrow> addr option \<Rightarrow> addr \<Rightarrow> (addr option \<times> addr) option" where
  "find_big s blk lnk bb =
     (if bb = 0 then Some (lnk, 0)
      else if snext s bb = blk then Some (lnk, bb)
      else find_big s blk (Some bb) (bb_next s bb))"

definition unlink_big :: "addr option \<Rightarrow> addr \<Rightarrow> slob \<Rightarrow> slob" where
  "unlink_big lnk bb s =
     (case lnk of None \<Rightarrow> s\<lparr>bigblocks := bb_next s bb\<rparr>
      | Some p \<Rightarrow> s\<lparr>bb_next := (bb_next s)(p := bb_next s bb)\<rparr>)"

definition slob_kfree :: "addr \<Rightarrow> slob \<Rightarrow> slob option" where
  "slob_kfree blk s =
     (if blk = 0 then Some s
      else do {
        (lnk, bb) \<leftarrow> (if blk mod 4096 = 0 then find_big s blk None (bigblocks s) else Some (None, 0));
        if bb \<noteq> 0 then do {
          let s = unlink_big lnk bb s;
          s \<leftarrow> slob_free_pages blk (nat (units s bb)) s;
          slob_free bb 24 s
        }
        else slob_free (blk - 16) 0 s
      })"

definition ksize :: "addr \<Rightarrow> slob \<Rightarrow> int option" where
  "ksize blk s =
     (if blk = 0 then Some 0
      else do {
        (_, bb) \<leftarrow> (if blk mod 4096 = 0 then find_big s blk None (bigblocks s) else Some (None, 0));
        Some (if bb \<noteq> 0 then 4096 * 2 ^ nat (units s bb) else units s (blk - 16) * 16)
      })"

text \<open>Small requests of 4064 bytes and more pass the test of \<^verbatim>\<open>__kmalloc\<close> and fail that of \<^verbatim>\<open>slob_alloc\<close>.\<close>

lemma kmalloc_gap_panics:
  assumes "4064 \<le> sz" and "sz < 4080"
  shows "slob_kmalloc sz s = None"
  using assms by (simp add: slob_kmalloc_def slob_alloc_def layout)

end
