(* ===== verification/SlobSpec.thy ===== *)
theory SlobSpec
  imports Slob
begin

text \<open>
  The ring of the SLOB allocator. Its order is that of the addresses, closed to a circle, so the
  successor of a block is determined by the set of free blocks (\<open>succ_in\<close>); allocation and release
  change that set, and with it the bytes that are free.
\<close>

section \<open>Circular order\<close>

definition succ_in :: "nat set \<Rightarrow> nat \<Rightarrow> nat" where
  "succ_in F a = (if \<exists>x\<in>F. a < x then Min {x \<in> F. a < x} else Min F)"

text \<open>\<open>b\<close> lies on the way from \<open>c\<close> to \<open>n\<close>; from \<open>c\<close> to \<open>c\<close> is once around.\<close>

definition between :: "nat \<Rightarrow> nat \<Rightarrow> nat \<Rightarrow> bool" where
  "between c b n \<longleftrightarrow> c < b \<and> b < n \<or> n \<le> c \<and> (c < b \<or> b < n)"

lemma succ_in_spec:
  assumes "finite F" and "c \<in> F"
  shows "succ_in F c \<in> F" and "x \<in> F \<Longrightarrow> \<not> between c x (succ_in F c)"
proof -
  have fin: "finite {x \<in> F. c < x}" using assms by simp
  show "succ_in F c \<in> F"
    using assms Min_in [OF fin] Min_in [of F] by (cases "F = {}") (auto simp: succ_in_def)
  show "\<not> between c x (succ_in F c)" if x: "x \<in> F"
  proof (cases "\<exists>y\<in>F. c < y")
    case True
    then have "succ_in F c = Min {x \<in> F. c < x}" by (simp add: succ_in_def)
    moreover have "c < Min {x \<in> F. c < x}" using Min_in [OF fin] True by auto
    moreover have "c < x \<Longrightarrow> Min {x \<in> F. c < x} \<le> x" using x fin by simp
    ultimately show ?thesis by (auto simp: between_def)
  next
    case False
    then show ?thesis using x assms by (auto simp: succ_in_def between_def not_less)
  qed
qed

lemma succ_in_eqI:
  assumes "finite F" and "c \<in> F" and "n \<in> F" and "\<And>x. x \<in> F \<Longrightarrow> \<not> between c x n"
  shows "succ_in F c = n"
proof -
  have "\<not> between c (succ_in F c) n" using assms(4) succ_in_spec(1) [OF assms(1,2)] by blast
  moreover have "\<not> between c n (succ_in F c)" by (rule succ_in_spec(2) [OF assms(1,2,3)])
  moreover have "\<not> between c c n" "\<not> between c c (succ_in F c)"
    using assms(2,4) succ_in_spec(2) [OF assms(1,2,2)] by auto
  ultimately show ?thesis by (auto simp: between_def)
qed

lemma succ_in_inj:
  assumes "finite F" and "a \<in> F" and "b \<in> F" and "succ_in F a = succ_in F b"
  shows "a = b"
  using succ_in_spec(2) [OF assms(1,2), of b] succ_in_spec(2) [OF assms(1,3), of a] assms
  by (auto simp: between_def)

lemma succ_in_remove:
  assumes F: "finite F" "p \<in> F" "c \<in> F" "succ_in F p = c" "p \<noteq> c"
  shows "succ_in (F - {c}) p = succ_in F c" and "a \<in> F \<Longrightarrow> a \<noteq> p \<Longrightarrow> a \<noteq> c \<Longrightarrow> succ_in (F - {c}) a = succ_in F a"
proof -
  have n: "succ_in F c \<in> F" "succ_in F c \<noteq> c" using succ_in_spec(1) [OF F(1,3)] succ_in_inj [OF F(1,2,3)] F(4,5) by auto
  have ch: "between p x c \<or> x = c \<or> between c x n" if "between p x n" for x n
    using that by (auto simp: between_def)
  show "succ_in (F - {c}) p = succ_in F c"
    by (rule succ_in_eqI) (use F n succ_in_spec(2) [OF F(1,2)] succ_in_spec(2) [OF F(1,3)] ch in auto)
  show "succ_in (F - {c}) a = succ_in F a" if a: "a \<in> F" "a \<noteq> p" "a \<noteq> c"
  proof (rule succ_in_eqI)
    show "succ_in F a \<in> F - {c}" using succ_in_spec(1) [OF F(1) a(1)] succ_in_inj [OF F(1) a(1) F(2)] F(4) a(2) by auto
  qed (use F a succ_in_spec(2) [OF F(1) a(1)] in auto)
qed

lemma succ_in_insert:
  assumes F: "finite F" "p \<in> F" "b \<notin> F" "between p b (succ_in F p)"
  shows "succ_in (insert b F) p = b" and "succ_in (insert b F) b = succ_in F p"
    and "a \<in> F \<Longrightarrow> a \<noteq> p \<Longrightarrow> succ_in (insert b F) a = succ_in F a"
proof -
  have n: "succ_in F p \<in> F" "\<And>x. x \<in> F \<Longrightarrow> \<not> between p x (succ_in F p)" using succ_in_spec [OF F(1,2)] by auto
  have pb: "p \<noteq> b" using F by auto
  show "succ_in (insert b F) p = b"
  proof (rule succ_in_eqI)
    show "\<not> between p x b" if "x \<in> insert b F" for x
      using that n(2) [of x] F(4) by (auto simp: between_def)
  qed (use F in auto)
  show "succ_in (insert b F) b = succ_in F p"
  proof (rule succ_in_eqI)
    show "\<not> between b x (succ_in F p)" if "x \<in> insert b F" for x
      using that n(2) [of x] F(4) by (auto simp: between_def)
  qed (use F n in auto)
  show "succ_in (insert b F) a = succ_in F a" if a: "a \<in> F" "a \<noteq> p"
  proof (rule succ_in_eqI)
    have m: "succ_in F a \<in> F" "\<And>x. x \<in> F \<Longrightarrow> \<not> between a x (succ_in F a)" using succ_in_spec [OF F(1) a(1)] by auto
    have "\<not> between a b (succ_in F a)"
      using m(2) [OF F(2)] n(2) [OF a(1)] F(4) a pb by (auto simp: between_def)
    then show "\<not> between a x (succ_in F a)" if "x \<in> insert b F" for x using that m(2) by auto
    show "succ_in F a \<in> insert b F" using m by simp
  qed (use F a in auto)
qed

text \<open>Walking along the ring reaches every block.\<close>

lemma succ_in_step:
  assumes "finite F" and "c \<in> F" and "x \<in> F" and "c < x"
  shows "c < succ_in F c" and "succ_in F c \<le> x"
proof -
  have fin: "finite {x \<in> F. c < x}" and x: "x \<in> {x \<in> F. c < x}" using assms by auto
  have "succ_in F c = Min {x \<in> F. c < x}" using assms by (auto simp: succ_in_def)
  then show "c < succ_in F c" and "succ_in F c \<le> x" using Min_in [OF fin] Min_le [OF fin x] x by auto
qed

lemma reach_up:
  assumes F: "finite F" and c: "c \<in> F" and x: "x \<in> F" "c \<le> x"
  shows "\<exists>k. (succ_in F ^^ k) c = x"
  using c x(2)
proof (induction "x - c" arbitrary: c rule: less_induct)
  case less
  show ?case
  proof (cases "c = x")
    case True
    then show ?thesis by (intro exI [of _ 0]) simp
  next
    case False
    then have lt: "c < x" using less.prems(2) by simp
    note s = succ_in_step [OF F less.prems(1) x(1) lt]
    have "x - succ_in F c < x - c" using s lt by simp
    then obtain k where "(succ_in F ^^ k) (succ_in F c) = x"
      using less.hyps succ_in_spec(1) [OF F less.prems(1)] s(2) by blast
    then show ?thesis by (intro exI [of _ "Suc k"]) (simp add: funpow_swap1)
  qed
qed

lemma reach:
  assumes F: "finite F" and c: "c \<in> F" and x: "x \<in> F"
  shows "\<exists>k. (succ_in F ^^ k) c = x"
proof -
  have m: "Max F \<in> F" "c \<le> Max F" "Min F \<in> F" "Min F \<le> x" using F c x by (auto intro: Max_in Min_in)
  obtain i where i: "(succ_in F ^^ i) c = Max F" using reach_up [OF F c m(1,2)] by blast
  obtain j where j: "(succ_in F ^^ j) (Min F) = x" using reach_up [OF F m(3) x m(4)] by blast
  have "\<not> (\<exists>x\<in>F. Max F < x)" using F by (auto simp: not_less)
  then have "succ_in F (Max F) = Min F" by (simp add: succ_in_def)
  then have "(succ_in F ^^ (j + Suc i)) c = x" by (simp add: funpow_add i j funpow_swap1)
  then show ?thesis by blast
qed

lemma pred_exists:
  assumes F: "finite F" "F \<noteq> {}" and b: "b \<notin> F"
  shows "\<exists>p\<in>F. between p b (succ_in F p)"
proof -
  obtain c where c: "c \<in> F" using F by blast
  define p where "p = (if \<exists>x\<in>F. x < b then Max {x \<in> F. x < b} else Max F)"
  have fin: "finite {x \<in> F. x < b}" using F by simp
  have p: "p \<in> F" using Max_in [OF fin] Max_in [OF F] by (auto simp: p_def)
  note N = succ_in_spec(1) [OF F(1) p]
  have "between p b (succ_in F p)"
  proof (cases "\<exists>x\<in>F. x < b")
    case True
    then have "{x \<in> F. x < b} \<noteq> {}" by blast
    from Max_in [OF fin this] True have "p < b" by (simp add: p_def)
    moreover have "\<not> succ_in F p < b" if "p < succ_in F p"
    proof
      assume "succ_in F p < b"
      then have "succ_in F p \<in> {x \<in> F. x < b}" using N by simp
      then have "succ_in F p \<le> Max {x \<in> F. x < b}" by (rule Max_ge [OF fin])
      moreover have "p = Max {x \<in> F. x < b}" unfolding p_def by (rule if_P [OF True])
      ultimately show False using that by linarith
    qed
    moreover have "succ_in F p \<noteq> b" using N b by auto
    ultimately show ?thesis by (auto simp: between_def)
  next
    case False
    then have pm: "p = Max F" unfolding p_def by (rule if_not_P)
    have "succ_in F p \<le> p" using N F by (simp add: pm)
    moreover have "b < succ_in F p" using False N b by (metis linorder_neqE_nat)
    ultimately show ?thesis by (auto simp: between_def)
  qed
  with p show ?thesis by blast
qed

section \<open>The free blocks\<close>

definition extent :: "slob \<Rightarrow> addr \<Rightarrow> addr set" where
  "extent s a = {a..<a + 16 * nat (units s a)}"

definition free_bytes :: "slob \<Rightarrow> addr set \<Rightarrow> addr set" where
  "free_bytes s F = (\<Union>a\<in>F. extent s a)"

text \<open>
  The blocks of the set \<open>F\<close>, not empty and apart from each other, are linked in circular order. The first
  block, \<^verbatim>\<open>arena\<close>, has one unit; all others lie above it, with a gap.
\<close>

definition ring_of :: "slob \<Rightarrow> addr set \<Rightarrow> bool" where
  "ring_of s F \<longleftrightarrow> finite F \<and> (\<forall>a\<in>F. snext s a = succ_in F a)"

definition blocks_ok :: "addr \<Rightarrow> slob \<Rightarrow> addr set \<Rightarrow> bool" where
  "blocks_ok arena s F \<longleftrightarrow> arena \<in> F \<and> 0 \<notin> F \<and> units s arena = 1 \<and> (\<forall>a\<in>F. a \<noteq> arena \<longrightarrow> arena + 16 < a) \<and>
     (\<forall>a\<in>F. 1 \<le> units s a) \<and> (\<forall>a\<in>F. \<forall>c\<in>F. a < c \<longrightarrow> after a s \<le> int c)"

definition slob_inv :: "addr \<Rightarrow> slob \<Rightarrow> addr set \<Rightarrow> bool" where
  "slob_inv arena s F \<longleftrightarrow> ring_of s F \<and> blocks_ok arena s F \<and> slobfree s \<in> F"

lemma ringD: "ring_of s F \<Longrightarrow> a \<in> F \<Longrightarrow> snext s a = succ_in F a" "ring_of s F \<Longrightarrow> finite F"
  by (simp_all add: ring_of_def)

lemma extent_after: "1 \<le> units s a \<Longrightarrow> x \<in> extent s a \<longleftrightarrow> a \<le> x \<and> int x < after a s"
  by (auto simp: extent_def after_def)

lemma slob_find_spec:
  assumes r: "ring_of s F" and c: "c \<in> F" and b: "b \<notin> F"
  shows "\<exists>p\<in>F. slob_find s b c = Some p \<and> between p b (succ_in F p)"
proof -
  obtain p where p: "p \<in> F" "between p b (succ_in F p)" using pred_exists [OF ringD(2) [OF r] _ b] c by blast
  obtain k where "(succ_in F ^^ k) c = p" using reach [OF ringD(2) [OF r] c p(1)] by blast
  then show ?thesis using c
  proof (induction k arbitrary: c)
    case 0
    then have "slob_find s b c = Some p" using p ringD(1) [OF r] by (subst slob_find.simps) (auto simp: between_def)
    then show ?case using p by blast
  next
    case (Suc k)
    show ?case
    proof (cases "between c b (succ_in F c)")
      case True
      then have "slob_find s b c = Some c"
        using ringD(1) [OF r Suc.prems(2)] by (subst slob_find.simps) (auto simp: between_def)
      then show ?thesis using True Suc.prems(2) by blast
    next
      case False
      then have "slob_find s b c = slob_find s b (succ_in F c)"
        using ringD(1) [OF r Suc.prems(2)] by (subst slob_find.simps) (auto simp: between_def)
      moreover have "(succ_in F ^^ k) (succ_in F c) = p" using Suc.prems(1) by (simp add: funpow_swap1)
      ultimately show ?thesis using Suc.IH succ_in_spec(1) [OF ringD(2) [OF r] Suc.prems(2)] by simp
    qed
  qed
qed

lemma freering_insert:
  assumes "ring_of s F" and "p \<in> F" and "b \<notin> F" and "between p b (succ_in F p)"
    and "\<And>a. a \<in> insert b F \<Longrightarrow> snext s' a = (if a = b then succ_in F p else if a = p then b else snext s a)"
  shows "ring_of s' (insert b F)"
  using assms succ_in_insert [OF ringD(2) [OF assms(1)] assms(2-4)]
  by (auto simp: ring_of_def)

lemma freering_remove:
  assumes "ring_of s F" and "p \<in> F" and "c \<in> F" and "succ_in F p = c" and "p \<noteq> c"
    and "\<And>a. a \<in> F - {c} \<Longrightarrow> snext s' a = (if a = p then succ_in F c else snext s a)"
  shows "ring_of s' (F - {c})"
  using assms succ_in_remove [OF ringD(2) [OF assms(1)] assms(2-5)]
  by (auto simp: ring_of_def)

text \<open>Two blocks that touch become one.\<close>

definition fuse :: "addr \<Rightarrow> addr \<Rightarrow> slob \<Rightarrow> slob" where
  "fuse x y s = s\<lparr>units := (units s)(x := units s x + units s y), snext := (snext s)(x := snext s y)\<rparr>"

lemma blocksD:
  assumes "blocks_ok arena s F"
  shows "arena \<in> F" "a \<in> F \<Longrightarrow> 1 \<le> units s a" "a \<in> F \<Longrightarrow> a \<noteq> arena \<Longrightarrow> arena + 16 < a"
    "a \<in> F \<Longrightarrow> c \<in> F \<Longrightarrow> a < c \<Longrightarrow> after a s \<le> int c" "units s arena = 1" "0 \<notin> F"
  using assms by (auto simp: blocks_ok_def)

lemma extent_fuse:
  assumes "1 \<le> units s x" and "1 \<le> units s y" and "after x s = int y"
  shows "extent (fuse x y s) x = extent s x \<union> extent s y"
  using assms by (auto simp: extent_def after_def fuse_def)

lemma fuse_blocks:
  assumes r: "ring_of s F" and k: "blocks_ok arena s F" and x: "x \<in> F" and y: "succ_in F x = y"
    and t: "after x s = int y" and na: "x \<noteq> arena"
  shows "ring_of (fuse x y s) (F - {y})" and "blocks_ok arena (fuse x y s) (F - {y})"
    and "free_bytes (fuse x y s) (F - {y}) = free_bytes s F"
proof -
  note f = ringD(2) [OF r]
  have yF: "y \<in> F" using succ_in_spec(1) [OF f x] y by simp
  note D = blocksD [OF k]
  have xy: "x < y" using t D(2) [OF x] by (simp add: after_def)
  then have xn: "x \<noteq> y" by simp
  have ya: "y \<noteq> arena" using D(3) [OF x na] xy by simp
  show "ring_of (fuse x y s) (F - {y})"
    by (rule freering_remove [OF r x yF y xn]) (use ringD(1) [OF r yF] in \<open>auto simp: fuse_def\<close>)
  have ux: "units (fuse x y s) a = (if a = x then units s x + units s y else units s a)" for a by (simp add: fuse_def)
  have ax: "after x (fuse x y s) = after y s" using t by (simp add: after_def fuse_def algebra_simps)
  have ao: "after a (fuse x y s) = after a s" if "a \<noteq> x" for a using that by (simp add: after_def fuse_def)
  have mid: "c \<in> F \<Longrightarrow> x < c \<Longrightarrow> c \<noteq> y \<Longrightarrow> y < c" for c using succ_in_spec(2) [OF f x, of c] y xy by (auto simp: between_def)
  show "blocks_ok arena (fuse x y s) (F - {y})"
    unfolding blocks_ok_def
  proof (intro conjI ballI impI)
    show "after a (fuse x y s) \<le> int c" if a: "a \<in> F - {y}" "c \<in> F - {y}" "a < c" for a c
      using a D(4) [of a c] D(4) [OF yF, of c] mid [of c] ax ao [of a] by (cases "a = x") auto
    show "1 \<le> units (fuse x y s) a" if "a \<in> F - {y}" for a
      using that D(2) [of a] D(2) [OF yF] by (auto simp: ux)
  qed (use D ya na in \<open>auto simp: ux\<close>)
  have ex: "extent (fuse x y s) x = extent s x \<union> extent s y" by (rule extent_fuse) (use D(2) x yF t in auto)
  have eo: "extent (fuse x y s) a = extent s a" if "a \<noteq> x" for a using that by (simp add: extent_def fuse_def)
  have "free_bytes (fuse x y s) (F - {y}) = extent (fuse x y s) x \<union> (\<Union>a\<in>F - {x, y}. extent (fuse x y s) a)"
    using x xn by (auto simp: free_bytes_def)
  also have "\<dots> = extent s x \<union> extent s y \<union> (\<Union>a\<in>F - {x, y}. extent s a)" using ex eo by auto
  also have "\<dots> = free_bytes s F" using x yF by (auto simp: free_bytes_def)
  finally show "free_bytes (fuse x y s) (F - {y}) = free_bytes s F" .
qed

definition put_after :: "addr \<Rightarrow> addr \<Rightarrow> slob \<Rightarrow> slob" where
  "put_after p b s = s\<lparr>snext := (snext s)(b := snext s p, p := b)\<rparr>"

lemma put_after_blocks:
  assumes r: "ring_of s F" and k: "blocks_ok arena s F" and p: "p \<in> F" "between p b (succ_in F p)"
    and b: "b \<notin> F" "arena + 16 < b" "1 \<le> units s b" and apart: "extent s b \<inter> free_bytes s F = {}"
  shows "ring_of (put_after p b s) (insert b F)" and "blocks_ok arena (put_after p b s) (insert b F)"
    and "free_bytes (put_after p b s) (insert b F) = free_bytes s F \<union> extent s b"
proof -
  note D = blocksD [OF k]
  have pb: "p \<noteq> b" using p b by auto
  have e: "extent (put_after p b s) a = extent s a" "after a (put_after p b s) = after a s"
    "units (put_after p b s) a = units s a" for a by (simp_all add: extent_def after_def put_after_def)
  show "ring_of (put_after p b s) (insert b F)"
    by (rule freering_insert [OF r p(1) b(1) p(2)]) (use pb ringD(1) [OF r p(1)] in \<open>auto simp: put_after_def\<close>)
  have no: "x \<notin> extent s b \<or> x \<notin> extent s a" if "a \<in> F" for x a using apart that by (auto simp: free_bytes_def)
  have up: "after b s \<le> int c" if c: "c \<in> F" "b < c" for c
    using no [OF c(1), of c] extent_after [OF b(3), of c] extent_after [OF D(2) [OF c(1)], of c] c D(2) [OF c(1)]
    by (auto simp: after_def)
  have dn: "after a s \<le> int b" if a: "a \<in> F" "a < b" for a
    using no [OF a(1), of b] extent_after [OF b(3), of b] extent_after [OF D(2) [OF a(1)], of b] a b(3)
    by (auto simp: after_def)
  show "blocks_ok arena (put_after p b s) (insert b F)"
    unfolding blocks_ok_def e using D b up dn by auto
  show "free_bytes (put_after p b s) (insert b F) = free_bytes s F \<union> extent s b" by (auto simp: free_bytes_def e)
qed

lemma join_steps:
  assumes "b \<noteq> p" and "snext s p \<noteq> b" and "after b s = int (snext s p) \<Longrightarrow> snext s p \<noteq> p"
  shows "join_prev p b (join_next p b s) =
     (let s1 = put_after p b s; s2 = (if after b s = int (snext s p) then fuse b (snext s p) s1 else s1)
      in if after p s = int b then fuse p b s2 else s2)"
  using assms
  by (cases "after b s = int (snext s p)"; cases "after p s = int b")
    (simp_all add: join_prev_def join_next_def put_after_def fuse_def after_def Let_def fun_upd_twist)

text \<open>Release: the bytes of the block are free, and nothing else has changed hands.\<close>

lemma join_blocks:
  assumes r: "ring_of s F" and k: "blocks_ok arena s F" and p: "p \<in> F" "between p b (succ_in F p)"
    and b: "b \<notin> F" "arena + 16 < b" "1 \<le> units s b" and apart: "extent s b \<inter> free_bytes s F = {}"
  shows "\<exists>F'. p \<in> F' \<and> ring_of (join_prev p b (join_next p b s)) F' \<and> blocks_ok arena (join_prev p b (join_next p b s)) F' \<and>
     free_bytes (join_prev p b (join_next p b s)) F' = free_bytes s F \<union> extent s b \<and>
     (\<exists>c\<in>F'. units s b \<le> units (join_prev p b (join_next p b s)) c)"
proof -
  note f = ringD(2) [OF r] and D = blocksD [OF k]
  let ?n = "succ_in F p" and ?s1 = "put_after p b s"
  have n: "snext s p = ?n" by (rule ringD(1) [OF r p(1)])
  have nF: "?n \<in> F" by (rule succ_in_spec(1) [OF f p(1)])
  have pb: "b \<noteq> p" "?n \<noteq> b" using p(1) nF b(1) by auto
  have ba: "b \<noteq> arena" using b(2) by simp
  note I = put_after_blocks [OF r k p b apart] and S = succ_in_insert [OF f p(1) b(1) p(2)]
  have np: "?n \<noteq> p" if t: "after b s = int ?n"
  proof
    assume np: "?n = p"
    have "b < ?n" using t b(3) by (auto simp: after_def)
    moreover have "p = arena"
      using succ_in_spec(2) [OF f p(1), of arena] D(1) D(3) [OF p(1)] np by (auto simp: between_def)
    ultimately show False using np b(2) by auto
  qed
  define s2 where "s2 = (if after b s = int ?n then fuse b ?n ?s1 else ?s1)"
  define F2 where "F2 = (if after b s = int ?n then insert b F - {?n} else insert b F)"
  have a1: "after a ?s1 = after a s" for a by (simp add: after_def put_after_def)
  have two: "ring_of s2 F2 \<and> blocks_ok arena s2 F2 \<and> free_bytes s2 F2 = free_bytes s F \<union> extent s b"
    using fuse_blocks [OF I(1,2) _ S(2) _ ba] I by (auto simp: s2_def F2_def a1)
  have pF2: "p \<in> F2" "b \<in> F2" "succ_in F2 p = b"
  proof -
    show "p \<in> F2" "b \<in> F2" using p(1) np pb by (auto simp: F2_def)
    show "succ_in F2 p = b"
    proof (cases "after b s = int ?n")
      case True
      have "succ_in (insert b F - {?n}) p = succ_in (insert b F) p"
        by (rule succ_in_remove(2) [of _ b]) (use f S nF np [OF True] pb p(1) in auto)
      then show ?thesis using True S(1) by (simp add: F2_def)
    qed (use S(1) in \<open>simp add: F2_def\<close>)
  qed
  have a2: "after p s2 = after p s" using pb by (auto simp: s2_def after_def fuse_def put_after_def)
  have ub: "units s b \<le> units s2 b" using blocksD(2) [OF k nF] by (simp add: s2_def fuse_def put_after_def)
  have up: "1 \<le> units s2 p" using two pF2(1) by (auto dest: blocksD(2))
  have j: "join_prev p b (join_next p b s) = (if after p s = int b then fuse p b s2 else s2)"
    using join_steps [of b p s] pb np by (simp add: n s2_def Let_def)
  show ?thesis
  proof (cases "after p s = int b")
    case True
    have "p \<noteq> arena" using True D(5) b(2) by (auto simp: after_def)
    from fuse_blocks [OF conjunct1 [OF two] _ pF2(1,3) _ this] two True a2 show ?thesis
      using pF2(1) pb ub up by (intro exI [of _ "F2 - {b}"]) (auto simp: j intro!: bexI [of _ p] simp: fuse_def)
  qed (use two pF2(1,2) ub j in auto)
qed

text \<open>The headers that an operation leaves alone.\<close>

definition same_outside :: "addr set \<Rightarrow> slob \<Rightarrow> slob \<Rightarrow> bool" where
  "same_outside A s s' \<longleftrightarrow> (\<forall>a. a \<notin> A \<longrightarrow> units s' a = units s a \<and> snext s' a = snext s a) \<and>
     bigblocks s' = bigblocks s \<and> bb_next s' = bb_next s"

lemma in_free_bytes:
  assumes "blocks_ok arena s F" and "a \<in> F"
  shows "a \<in> free_bytes s F"
  using blocksD(2) [OF assms] assms(2) by (auto simp: free_bytes_def extent_def)

lemma slob_free_spec:
  assumes inv: "slob_inv arena s F" and b: "b \<notin> F" "arena + 16 < b"
    and s1: "s1 = (if n \<noteq> 0 then s\<lparr>units := (units s)(b := SLOB_UNITS n)\<rparr> else s)"
    and u: "1 \<le> units s1 b" and apart: "extent s1 b \<inter> free_bytes s F = {}"
  shows "\<exists>s' F'. slob_free b n s = Some s' \<and> slob_inv arena s' F' \<and> free_bytes s' F' = free_bytes s F \<union> extent s1 b \<and>
     slob_phys s' = slob_phys s \<and> same_outside (free_bytes s F \<union> extent s1 b) s1 s' \<and> (\<exists>c\<in>F'. units s1 b \<le> units s' c)"
proof -
  have i: "ring_of s F" "blocks_ok arena s F" "slobfree s \<in> F" using inv by (simp_all add: slob_inv_def)
  have on: "a \<in> F \<Longrightarrow> units s1 a = units s a" "snext s1 = snext s" "slobfree s1 = slobfree s" for a
    using b(1) by (auto simp: s1)
  have r1: "ring_of s1 F" using i(1) on(2) by (simp add: ring_of_def)
  have k1: "blocks_ok arena s1 F" using i(2) on(1) by (auto simp: blocks_ok_def after_def)
  have fb: "free_bytes s1 F = free_bytes s F" using on(1) by (simp add: free_bytes_def extent_def)
  obtain p where p: "p \<in> F" "slob_find s1 b (slobfree s1) = Some p" "between p b (succ_in F p)"
    using slob_find_spec [OF r1 _ b(1), of "slobfree s1"] i(3) on(3) by auto
  let ?s2 = "join_prev p b (join_next p b s1)"
  obtain F' where F': "p \<in> F'" "ring_of ?s2 F'" "blocks_ok arena ?s2 F'" "free_bytes ?s2 F' = free_bytes s1 F \<union> extent s1 b"
    "\<exists>c\<in>F'. units s1 b \<le> units ?s2 c"
    using join_blocks [OF r1 k1 p(1,3) b u] apart fb by blast
  have "slob_free b n s = Some (?s2\<lparr>slobfree := p\<rparr>)"
    using p(2) b(2) on(3) by (cases "n = 0") (simp_all add: slob_free_def s1)
  moreover have "slob_inv arena (?s2\<lparr>slobfree := p\<rparr>) F'" using F' by (simp add: slob_inv_def ring_of_def blocks_ok_def after_def)
  moreover have "free_bytes (?s2\<lparr>slobfree := p\<rparr>) F' = free_bytes s F \<union> extent s1 b"
    using F'(4) fb by (simp add: free_bytes_def extent_def)
  moreover have "slob_phys ?s2 = slob_phys s" by (simp add: join_prev_def join_next_def Let_def s1)
  moreover have "same_outside (free_bytes s F \<union> extent s1 b) s1 (?s2\<lparr>slobfree := p\<rparr>)"
    using in_free_bytes [OF k1 p(1)] u fb
    by (auto simp: same_outside_def join_prev_def join_next_def Let_def extent_def [of _ b])
  ultimately show ?thesis by (intro exI [of _ "?s2\<lparr>slobfree := p\<rparr>"] exI [of _ F']) (use F'(5) in auto)
qed

section \<open>Allocation\<close>

lemma extents_apart:
  assumes k: "blocks_ok arena s F" and a: "a \<in> F" and c: "c \<in> F" "a \<noteq> c"
  shows "extent s a \<inter> extent s c = {}"
proof -
  note D = blocksD [OF k]
  have "x \<notin> extent s c" if "x \<in> extent s a" for x
    using that D(4) [OF a c(1)] D(4) [OF c(1) a] c(2) extent_after [OF D(2) [OF a], of x] extent_after [OF D(2) [OF c(1)], of x]
    by (cases a c rule: linorder_cases) auto
  then show ?thesis by auto
qed

lemma bytes_without:
  assumes k: "blocks_ok arena s F" and c: "c \<in> F"
  shows "free_bytes s (F - {c}) = free_bytes s F - extent s c"
  using extents_apart [OF k _ c] c by (fastforce simp: free_bytes_def)

lemma above_arena:
  assumes r: "ring_of s F" and k: "blocks_ok arena s F" and p: "p \<in> F" "succ_in F p \<noteq> arena"
  shows "p < succ_in F p"
proof -
  note D = blocksD [OF k] and f = ringD(2) [OF r]
  have "succ_in F p \<in> F" by (rule succ_in_spec(1) [OF f p(1)])
  then have "arena < succ_in F p" using D(3) p(2) by fastforce
  then show ?thesis using succ_in_spec(2) [OF f p(1) D(1)] by (auto simp: between_def)
qed

lemma slob_take_spec:
  assumes r: "ring_of s F" and k: "blocks_ok arena s F" and p: "p \<in> F" "succ_in F p = c"
    and n: "2 \<le> n" "n \<le> units s c"
  shows "\<exists>s' F'. slob_take n 0 al p c s = (c, s') \<and> slob_inv arena s' F' \<and>
     {c..<c + 16 * nat n} \<subseteq> free_bytes s F \<and> free_bytes s' F' = free_bytes s F - {c..<c + 16 * nat n} \<and>
     arena + 16 < c \<and> units s' c = n \<and> slob_phys s' = slob_phys s \<and> same_outside (free_bytes s F) s s'"
proof -
  note f = ringD(2) [OF r] and D = blocksD [OF k]
  have cF: "c \<in> F" using succ_in_spec(1) [OF f p(1)] p(2) by simp
  have ca: "c \<noteq> arena" using D(5) n by auto
  have pc: "p < c" using above_arena [OF r k p(1)] p(2) ca by simp
  let ?b = "{c..<c + 16 * nat n}" and ?N = "succ_in F c"
  have sub: "?b \<subseteq> extent s c" using n by (auto simp: extent_def)
  have in_free: "?b \<subseteq> free_bytes s F" using sub cF by (auto simp: free_bytes_def)
  have nc: "snext s c = ?N" by (rule ringD(1) [OF r cF])
  have NF: "?N \<in> F" by (rule succ_in_spec(1) [OF f cF])
  have Nc: "?N \<noteq> c" using succ_in_inj [OF f p(1) cF] p(2) pc by auto
  have w: "free_bytes s (F - {c}) = free_bytes s F - extent s c" by (rule bytes_without [OF k cF])
  note h = in_free_bytes [OF k p(1)] in_free_bytes [OF k cF]
  show ?thesis
  proof (cases "units s c = n")
    case True
    let ?s' = "s\<lparr>snext := (snext s)(p := ?N), slobfree := p\<rparr>"
    have e: "slob_take n 0 al p c s = (c, ?s')" using True by (simp add: slob_take_def nc)
    have "ring_of ?s' (F - {c})" by (rule freering_remove [OF r p(1) cF p(2)]) (use pc in auto)
    moreover have "blocks_ok arena ?s' (F - {c})" using D ca by (auto simp: blocks_ok_def after_def)
    moreover have "free_bytes ?s' (F - {c}) = free_bytes s F - ?b"
      using w True by (simp add: free_bytes_def extent_def)
    ultimately show ?thesis
      using e in_free p(1) pc D(3) [OF cF ca] True by (intro exI [of _ ?s'] exI [of _ "F - {c}"]) (use h in \<open>auto simp: slob_inv_def same_outside_def\<close>)
  next
    case False
    define rest where "rest = c + 16 * nat n"
    define s' where "s' = s\<lparr>snext := (snext s)(p := rest, rest := ?N),
      units := (units s)(rest := units s c - n, c := n), slobfree := p\<rparr>"
    have rc: "c < rest" using n by (simp add: rest_def)
    have e: "slob_take n 0 al p c s = (c, s')"
      using False pc rc nc by (simp add: slob_take_def Let_def s'_def rest_def [symmetric] fun_upd_twist)
    have less: "int rest < after c s" using n False by (simp add: rest_def after_def)
    have up: "int rest < int a" if "a \<in> F" "c < a" for a using D(4) [OF cF that] less by simp
    have rF: "rest \<notin> F" using up [of rest] rc by auto
    let ?F = "F - {c}" and ?t = "s\<lparr>snext := (snext s)(p := ?N)\<rparr>"
    have R: "ring_of ?t ?F" by (rule freering_remove [OF r p(1) cF p(2)]) (use pc in auto)
    have sp: "succ_in ?F p = ?N" by (rule succ_in_remove(1) [OF f p(1) cF p(2)]) (use pc in simp)
    have "between p rest ?N"
      using up [OF NF] succ_in_spec(2) [OF f p(1) NF] p(2) pc rc Nc by (auto simp: between_def)
    then have R': "ring_of s' (insert rest ?F)"
      by (intro freering_insert [OF R]) (use p pc rF sp in \<open>auto simp: s'_def\<close>)
    have us: "units s' a = units s a" if "a \<in> ?F" for a using that rF by (auto simp: s'_def)
    have ur: "units s' rest = units s c - n" "units s' c = n" using rc by (simp_all add: s'_def)
    have dn: "after a s \<le> int c" if "a \<in> ?F" "a < rest" for a
      using that up [of a] D(4) [OF _ cF, of a] by (cases "a < c") auto
    have ar: "after rest s' = after c s" using ur n by (simp add: after_def rest_def)
    have K: "blocks_ok arena s' (insert rest ?F)"
      unfolding blocks_ok_def
    proof (intro conjI ballI impI)
      show "after a s' \<le> int d" if a: "a \<in> insert rest ?F" "d \<in> insert rest ?F" "a < d" for a d
      proof -
        consider "a = rest" "d \<in> F" "c < d" | "a \<in> ?F" "d = rest" | "a \<in> ?F" "d \<in> ?F"
          using a rc by auto
        then show ?thesis
          by cases (use a ar us [of a] D(4) [OF cF, of d] D(4) [of a d] dn [of a] rc in \<open>auto simp: after_def\<close>)
      qed
    qed (use D us ur ca rc D(3) [OF cF ca] False n in auto)
    have "extent s c = ?b \<union> extent s' rest" using n False ur by (auto simp: extent_def rest_def)
    moreover have "?b \<inter> extent s' rest = {}" by (auto simp: extent_def rest_def)
    moreover have "free_bytes s' ?F = free_bytes s ?F" using us by (simp add: free_bytes_def extent_def)
    moreover have "extent s c \<subseteq> free_bytes s F" using cF by (auto simp: free_bytes_def)
    ultimately have "free_bytes s' (insert rest ?F) = free_bytes s F - ?b"
      using w by (auto simp: free_bytes_def)
    moreover have "rest \<in> free_bytes s F"
      using less rc cF n by (auto simp: free_bytes_def extent_def after_def rest_def intro!: bexI [of _ c])
    ultimately show ?thesis using e R' K in_free p(1) pc D(3) [OF cF ca] ur
      by (intro exI [of _ s'] exI [of _ "insert rest ?F"]) (use h in \<open>auto simp: slob_inv_def s'_def same_outside_def\<close>)
  qed
qed

text \<open>The search ends at a block with room or, once around without one, asks for a page.\<close>

definition slob_grow :: "nat \<Rightarrow> int \<Rightarrow> slob \<Rightarrow> (addr \<times> slob) option" where
  "slob_grow sz n s =
     Option.bind (slob_get_free_pages 0 s) (\<lambda>(page, s).
       if page = 0 then Some (0, s)
       else Option.bind (slob_free page 4096 s) (\<lambda>s. slob_scan sz n 0 (slobfree s) (snext s (slobfree s)) s))"

lemma slob_scan_step:
  assumes "sz \<noteq> 4096"
  shows "slob_scan sz n 0 prev cur s =
    (if n \<le> units s cur then Some (slob_take n 0 0 prev cur s)
     else if cur = slobfree s then slob_grow sz n s
     else slob_scan sz n 0 cur (snext s cur) s)"
  using assms by (subst slob_scan.simps) (simp add: slob_grow_def Let_def)

lemma slob_scan_walk:
  assumes r: "ring_of s F" and sz: "sz \<noteq> 4096" and p: "p \<in> F" and k: "(succ_in F ^^ Suc k) p = slobfree s"
  shows "(\<exists>q\<in>F. n \<le> units s (succ_in F q) \<and>
       slob_scan sz n 0 p (succ_in F p) s = Some (slob_take n 0 0 q (succ_in F q) s)) \<or>
     (\<exists>j. (succ_in F ^^ Suc j) p = slobfree s \<and> (\<forall>i\<le>j. units s ((succ_in F ^^ Suc i) p) < n)) \<and>
       slob_scan sz n 0 p (succ_in F p) s = slob_grow sz n s"
  using p k
proof (induction k arbitrary: p)
  case 0
  note e = slob_scan_step [OF sz, of n p "succ_in F p" s]
  show ?case
  proof (cases "n \<le> units s (succ_in F p)")
    case True
    then show ?thesis using e 0 by (intro disjI1 bexI [of _ p]) auto
  next
    case False
    then show ?thesis using e 0 by (intro disjI2 conjI exI [of _ 0]) auto
  qed
next
  case (Suc k)
  let ?c = "succ_in F p"
  have c: "?c \<in> F" by (rule succ_in_spec(1) [OF ringD(2) [OF r] Suc.prems(1)])
  have k: "(succ_in F ^^ Suc k) ?c = slobfree s" using Suc.prems(2) by (simp add: funpow_swap1)
  consider "n \<le> units s ?c" | "units s ?c < n" "?c = slobfree s" | "units s ?c < n" "?c \<noteq> slobfree s" by linarith
  then show ?case
  proof cases
    case 3
    then have e: "slob_scan sz n 0 p ?c s = slob_scan sz n 0 ?c (succ_in F ?c) s"
      using ringD(1) [OF r c] by (subst slob_scan_step [OF sz]) simp
    from Suc.IH [OF c k] show ?thesis
    proof
      assume "(\<exists>j. (succ_in F ^^ Suc j) ?c = slobfree s \<and> (\<forall>i\<le>j. units s ((succ_in F ^^ Suc i) ?c) < n)) \<and>
        slob_scan sz n 0 ?c (succ_in F ?c) s = slob_grow sz n s"
      then obtain j where j: "(succ_in F ^^ Suc j) ?c = slobfree s" "\<forall>i\<le>j. units s ((succ_in F ^^ Suc i) ?c) < n"
        and g: "slob_scan sz n 0 ?c (succ_in F ?c) s = slob_grow sz n s" by blast
      have "units s ((succ_in F ^^ Suc i) p) < n" if "i \<le> Suc j" for i
        using that j(2) 3(1) by (cases i) (auto simp: funpow_swap1)
      moreover have "(succ_in F ^^ Suc (Suc j)) p = slobfree s" using j(1) by (simp add: funpow_swap1)
      ultimately show ?thesis using e g by (intro disjI2 conjI exI [of _ "Suc j"]) auto
    qed (use e in auto)
  next
    case 1
    then show ?thesis using slob_scan_step [OF sz, of n p ?c s] Suc.prems(1) by (intro disjI1 bexI [of _ p]) auto
  next
    case 2
    then show ?thesis using slob_scan_step [OF sz, of n p ?c s] by (intro disjI2 conjI exI [of _ 0]) auto
  qed
qed

lemma whole_ring:
  assumes F: "finite F" and p: "p \<in> F" and c: "(succ_in F ^^ Suc j) p = p" and P: "\<forall>i\<le>j. P ((succ_in F ^^ Suc i) p)"
    and x: "x \<in> F"
  shows "P x"
proof -
  obtain k where k: "(succ_in F ^^ k) p = x" using reach [OF F p x] by blast
  have m: "(succ_in F ^^ (k mod Suc j)) p = x" using funpow_mod_eq [OF c, of k] k by simp
  show ?thesis
  proof (cases "k mod Suc j")
    case 0
    then show ?thesis using m c P by (metis funpow_0 le_refl)
  next
    case (Suc i)
    moreover have "k mod Suc j < Suc j" by simp
    ultimately show ?thesis using m P by (metis Suc_lessD less_Suc_eq_le)
  qed
qed

lemma slob_scan_start:
  assumes inv: "slob_inv arena s F" and sz: "sz \<noteq> 4096"
  shows "(\<exists>q\<in>F. n \<le> units s (succ_in F q) \<and>
       slob_scan sz n 0 (slobfree s) (snext s (slobfree s)) s = Some (slob_take n 0 0 q (succ_in F q) s)) \<or>
     (\<forall>a\<in>F. units s a < n) \<and> slob_scan sz n 0 (slobfree s) (snext s (slobfree s)) s = slob_grow sz n s"
proof -
  have i: "ring_of s F" "blocks_ok arena s F" "slobfree s \<in> F" using inv by (simp_all add: slob_inv_def)
  note f = ringD(2) [OF i(1)]
  obtain k where k: "(succ_in F ^^ k) (succ_in F (slobfree s)) = slobfree s"
    using reach [OF f succ_in_spec(1) [OF f i(3)] i(3)] by blast
  then have k: "(succ_in F ^^ Suc k) (slobfree s) = slobfree s" by (simp add: funpow_swap1)
  have n: "snext s (slobfree s) = succ_in F (slobfree s)" by (rule ringD(1) [OF i(1,3)])
  from slob_scan_walk [OF i(1) sz i(3) k, of n] show ?thesis
  proof
    assume "(\<exists>j. (succ_in F ^^ Suc j) (slobfree s) = slobfree s \<and> (\<forall>i\<le>j. units s ((succ_in F ^^ Suc i) (slobfree s)) < n)) \<and>
       slob_scan sz n 0 (slobfree s) (succ_in F (slobfree s)) s = slob_grow sz n s"
    then show ?thesis using whole_ring [OF f i(3), of _ "\<lambda>x. units s x < n"] unfolding n by blast
  qed (simp add: n)
qed

section \<open>The heap and the pages\<close>

definition page_addr :: "nat \<Rightarrow> addr" where
  "page_addr q = 0xFFFFFFFFC0000000 + 4096 * q"

definition page_bytes :: "nat set \<Rightarrow> addr set" where
  "page_bytes P = (\<Union>q\<in>P. {page_addr q..<page_addr q + 4096})"

text \<open>The pages \<open>P\<close> are free, have descriptors and kernel addresses.\<close>

definition pages_inv :: "phys \<Rightarrow> nat set \<Rightarrow> bool" where
  "pages_inv p P \<longleftrightarrow> (\<exists>xs. free_inv (area p) xs P) \<and> npage p \<le> 0xC0000 \<and> (\<forall>q\<in>P. q + 0x80000 < unat (npage p))"

text \<open>
  The heap over the free pages. Its first block, \<^verbatim>\<open>arena\<close>, is a static variable of the kernel image, which is
  linked at \<^verbatim>\<open>0xFFFFFFFFC0200000\<close>; \<^verbatim>\<open>page_init\<close> gives the allocator pages behind the image only, so it lies
  below all of them.
\<close>

definition heap_inv :: "addr \<Rightarrow> slob \<Rightarrow> addr set \<Rightarrow> nat set \<Rightarrow> bool" where
  "heap_inv arena s F P \<longleftrightarrow> slob_inv arena s F \<and> pages_inv (slob_phys s) P \<and>
     free_bytes s F \<inter> page_bytes P = {} \<and> (\<forall>q\<in>P. arena + 16 < page_addr q)"

lemma page2kva_addr:
  assumes "npage p \<le> 0xC0000" and "q + 0x80000 < unat (npage p)"
  shows "\<exists>kva. page2kva q p = Some kva \<and> unat kva = page_addr q"
proof -
  have lim: "unat (npage p) \<le> 0xC0000" using assms(1) by (simp add: word_le_nat_alt)
  then have q: "q < 0x40000" using assms(2) by simp
  have ppn: "unat (page2ppn q) = q + 0x80000"
    using q by (simp add: page2ppn_def layout unat_word_ariths unat_of_nat)
  have pa: "unat (page2pa q) = (q + 0x80000) * 4096"
    using q by (simp add: page2pa_def push_bit_eq_mult unat_word_ariths ppn)
  have "unat (PPN (page2pa q)) = q + 0x80000"
    by (simp add: PPN_def drop_bit_eq_div unat_div pa)
  then have "page2kva q p = Some (page2pa q + va_pa_offset)"
    using assms(2) by (simp add: page2kva_def KADDR_def word_le_nat_alt)
  moreover have "unat (page2pa q + va_pa_offset) = page_addr q"
    using q by (simp add: unat_word_ariths pa layout page_addr_def)
  ultimately show ?thesis by blast
qed

lemma get_page_spec:
  assumes "pages_inv (slob_phys s) P"
  shows "\<exists>r p. slob_get_free_pages 0 s = Some (r, s\<lparr>slob_phys := p\<rparr>) \<and>
    (r = 0 \<and> P = {} \<and> p = slob_phys s \<or> (\<exists>q\<in>P. r = page_addr q \<and> pages_inv p (P - {q})))"
proof -
  obtain xs where inv: "free_inv (area (slob_phys s)) xs P" using assms by (auto simp: pages_inv_def)
  obtain x t where r: "default_alloc_pages 1 (area (slob_phys s)) = Some (x, t)"
    "alloc_spec 1 P (area (slob_phys s)) (x, t)"
    using first_fit_alloc_spec [OF inv, of 1] by (metis less_one surj_pair)
  have one: "{x..<x + 1} = {x::nat}" for x by auto
  show ?thesis
  proof (cases x)
    case None
    then have t: "t = area (slob_phys s) \<and> (\<nexists>p. {p} \<subseteq> P)"
      using r(2) by (simp only: alloc_spec_def one prod.case option.case simp_thms)
    then have "P = {}" by blast
    moreover have "slob_get_free_pages 0 s = Some (0, s\<lparr>slob_phys := slob_phys s\<rparr>)"
      using r(1) None t by (simp add: slob_get_free_pages_def alloc_pages_def)
    ultimately show ?thesis by blast
  next
    case (Some q)
    then have "{q} \<subseteq> P \<and> unused t {q} \<and> (\<exists>xs. free_inv t xs (P - {q}))"
      using r(2) by (simp only: alloc_spec_def one prod.case option.case simp_thms)
    then have q: "q \<in> P" "\<exists>xs. free_inv t xs (P - {q})" by simp_all
    let ?p = "slob_phys s\<lparr>area := t\<rparr>"
    obtain kva where kva: "page2kva q ?p = Some kva" "unat kva = page_addr q"
      using page2kva_addr [of ?p q] assms q(1) by (auto simp: pages_inv_def)
    have "slob_get_free_pages 0 s = Some (page_addr q, s\<lparr>slob_phys := ?p\<rparr>)"
      using r(1) Some kva by (simp add: slob_get_free_pages_def alloc_pages_def)
    moreover have "pages_inv ?p (P - {q})" using assms q by (simp add: pages_inv_def)
    ultimately show ?thesis using q(1) by blast
  qed
qed

lemma page_bytes_apart:
  assumes "q \<notin> P"
  shows "{page_addr q..<page_addr q + 4096} \<inter> page_bytes P = {}"
proof -
  have "{page_addr q..<page_addr q + 4096} \<inter> {page_addr r..<page_addr r + 4096} = {}" if "r \<in> P" for r
  proof -
    have "q + 1 \<le> r \<or> r + 1 \<le> q" using that assms by (metis Suc_eq_plus1 Suc_leI linorder_neqE_nat)
    then show ?thesis by (auto simp: page_addr_def)
  qed
  then show ?thesis unfolding page_bytes_def by blast
qed

lemma slob_inv_phys: "slob_inv arena (s\<lparr>slob_phys := p\<rparr>) F \<longleftrightarrow> slob_inv arena s F"
  "free_bytes (s\<lparr>slob_phys := p\<rparr>) F = free_bytes s F"
  by (simp_all add: slob_inv_def ring_of_def blocks_ok_def after_def free_bytes_def extent_def)

text \<open>A page joins the heap.\<close>

lemma grow_heap:
  assumes h: "heap_inv arena s F P" and q: "q \<in> P" and p: "pages_inv p (P - {q})"
  shows "\<exists>s' F'. slob_free (page_addr q) 4096 (s\<lparr>slob_phys := p\<rparr>) = Some s' \<and> heap_inv arena s' F' (P - {q}) \<and>
    free_bytes s' F' = free_bytes s F \<union> page_bytes {q} \<and> same_outside (free_bytes s F \<union> page_bytes {q}) s s' \<and>
    (\<exists>c\<in>F'. 256 \<le> units s' c)"
proof -
  let ?a = "page_addr q" and ?s = "s\<lparr>slob_phys := p\<rparr>"
  have i: "slob_inv arena ?s F" "free_bytes ?s F = free_bytes s F" "free_bytes s F \<inter> page_bytes P = {}" "arena + 16 < ?a"
    using h q by (simp_all add: heap_inv_def slob_inv_phys)
  let ?s1 = "?s\<lparr>units := (units ?s)(?a := SLOB_UNITS 4096)\<rparr>"
  have u: "SLOB_UNITS 4096 = 256" by (simp add: SLOB_UNITS_def layout)
  have e: "extent ?s1 ?a = page_bytes {q}" by (simp add: extent_def u page_bytes_def)
  have apart: "page_bytes {q} \<inter> free_bytes s F = {}" using i(3) q by (auto simp: page_bytes_def)
  have "?a \<in> page_bytes {q}" by (simp add: page_bytes_def)
  then have nF: "?a \<notin> F" using apart in_free_bytes [of arena s F ?a] i(1) by (auto simp: slob_inv_def slob_inv_phys ring_of_def blocks_ok_def after_def)
  obtain s' F' where s': "slob_free ?a 4096 ?s = Some s'" "slob_inv arena s' F'"
    "free_bytes s' F' = free_bytes ?s F \<union> extent ?s1 ?a" "slob_phys s' = slob_phys ?s"
    "same_outside (free_bytes ?s F \<union> extent ?s1 ?a) ?s1 s'"
    "\<exists>c\<in>F'. 256 \<le> units s' c"
    using slob_free_spec [OF i(1) nF i(4), of ?s1 4096] apart i(2) e u by auto
  have "heap_inv arena s' F' (P - {q})"
    using h s' p i(2,3) e page_bytes_apart [of q "P - {q}"] q unfolding heap_inv_def
    by (auto simp: page_bytes_def)
  moreover have "same_outside (free_bytes s F \<union> page_bytes {q}) s s'"
    using s'(5) e i(2) \<open>?a \<in> page_bytes {q}\<close> by (auto simp: same_outside_def)
  ultimately show ?thesis using s'(1,3,6) e i(2) by auto
qed

lemma take_heap:
  assumes h: "heap_inv arena s F P" and q: "q \<in> F" and n: "2 \<le> n" "n \<le> units s (succ_in F q)"
  shows "\<exists>c s' F'. slob_take n 0 0 q (succ_in F q) s = (c, s') \<and> heap_inv arena s' F' P \<and> arena + 16 < c \<and>
     {c..<c + 16 * nat n} \<subseteq> free_bytes s F \<and> free_bytes s' F' = free_bytes s F - {c..<c + 16 * nat n} \<and>
     units s' c = n \<and> same_outside (free_bytes s F) s s'"
proof -
  have i: "ring_of s F" "blocks_ok arena s F" using h by (auto simp: heap_inv_def slob_inv_def)
  from slob_take_spec [OF i q refl n, of 0] h show ?thesis unfolding heap_inv_def by fastforce
qed

definition heap_alloc :: "addr \<Rightarrow> int \<Rightarrow> slob \<Rightarrow> addr set \<Rightarrow> nat set \<Rightarrow> addr \<Rightarrow> slob \<Rightarrow> bool" where
  "heap_alloc arena n s F P m s' \<longleftrightarrow>
     m = 0 \<and> s' = s \<and> P = {} \<and> (\<forall>a\<in>F. units s a < n) \<or>
     (\<exists>F' G. G \<subseteq> P \<and> heap_inv arena s' F' (P - G) \<and> arena + 16 < m \<and> units s' m = n \<and>
        (G = {} \<or> (\<forall>a\<in>F. units s a < n) \<and> (\<exists>q. G = {q})) \<and>
        {m..<m + 16 * nat n} \<subseteq> free_bytes s F \<union> page_bytes G \<and>
        free_bytes s' F' = free_bytes s F \<union> page_bytes G - {m..<m + 16 * nat n} \<and>
        same_outside (free_bytes s F \<union> page_bytes G) s s')"

lemma heap_allocI:
  assumes "G \<subseteq> P" and "heap_inv arena s' F' (P - G)" and "arena + 16 < m" and "units s' m = n"
    and "G = {} \<or> (\<forall>a\<in>F. units s a < n) \<and> (\<exists>q. G = {q})"
    and "{m..<m + 16 * nat n} \<subseteq> free_bytes s F \<union> page_bytes G"
    and "free_bytes s' F' = free_bytes s F \<union> page_bytes G - {m..<m + 16 * nat n}"
    and "same_outside (free_bytes s F \<union> page_bytes G) s s'"
  shows "heap_alloc arena n s F P m s'"
  unfolding heap_alloc_def using assms by blast

lemma page_bytes_empty [simp]: "page_bytes {} = {}"
  by (simp add: page_bytes_def)

lemma same_outside_trans:
  "same_outside A s t \<Longrightarrow> same_outside B t u \<Longrightarrow> B \<subseteq> A \<Longrightarrow> same_outside A s u"
  by (auto simp: same_outside_def)

lemma slob_alloc_heap:
  assumes h: "heap_inv arena s F P" and sz: "SLOB_UNIT < sz" "sz + SLOB_UNIT < 4096"
  shows "\<exists>m s'. slob_alloc sz 0 s = Some (m, s') \<and> heap_alloc arena (SLOB_UNITS sz) s F P m s'"
proof -
  let ?n = "SLOB_UNITS sz"
  have n: "2 \<le> ?n" "?n \<le> 256" and ne: "sz \<noteq> 4096" using sz by (auto simp: SLOB_UNITS_def layout)
  have scan: "slob_alloc sz 0 s = slob_scan sz ?n 0 (slobfree s) (snext s (slobfree s)) s"
    using sz(2) by (simp add: slob_alloc_def)
  have inv: "slob_inv arena s F" and pages: "pages_inv (slob_phys s) P" using h by (simp_all add: heap_inv_def)
  from slob_scan_start [OF inv ne, of ?n] show ?thesis
  proof
    assume "\<exists>q\<in>F. ?n \<le> units s (succ_in F q) \<and>
       slob_scan sz ?n 0 (slobfree s) (snext s (slobfree s)) s = Some (slob_take ?n 0 0 q (succ_in F q) s)"
    then obtain q where q: "q \<in> F" "?n \<le> units s (succ_in F q)"
      "slob_alloc sz 0 s = Some (slob_take ?n 0 0 q (succ_in F q) s)" using scan by auto
    obtain c s' F' where "slob_take ?n 0 0 q (succ_in F q) s = (c, s')" "heap_inv arena s' F' P" "arena + 16 < c"
      "{c..<c + 16 * nat ?n} \<subseteq> free_bytes s F" "free_bytes s' F' = free_bytes s F - {c..<c + 16 * nat ?n}"
      "units s' c = ?n" "same_outside (free_bytes s F) s s'" using take_heap [OF h q(1) n(1) q(2)] by blast
    then have "heap_alloc arena ?n s F P c s'" "slob_alloc sz 0 s = Some (c, s')"
      using q(3) heap_allocI [of "{}" P arena s' F' c ?n F s] by simp_all
    then show ?thesis by blast
  next
    assume small: "(\<forall>a\<in>F. units s a < ?n) \<and> slob_scan sz ?n 0 (slobfree s) (snext s (slobfree s)) s = slob_grow sz ?n s"
    obtain r p where r: "slob_get_free_pages 0 s = Some (r, s\<lparr>slob_phys := p\<rparr>)"
      "r = 0 \<and> P = {} \<and> p = slob_phys s \<or> (\<exists>q\<in>P. r = page_addr q \<and> pages_inv p (P - {q}))"
      using get_page_spec [OF pages] by blast
    from r(2) show ?thesis
    proof
      assume "r = 0 \<and> P = {} \<and> p = slob_phys s"
      then show ?thesis using r(1) small scan by (auto simp: slob_grow_def heap_alloc_def)
    next
      assume "\<exists>q\<in>P. r = page_addr q \<and> pages_inv p (P - {q})"
      then obtain q where q: "q \<in> P" "r = page_addr q" "pages_inv p (P - {q})" by blast
      obtain t G where t: "slob_free r 4096 (s\<lparr>slob_phys := p\<rparr>) = Some t" "heap_inv arena t G (P - {q})"
        "free_bytes t G = free_bytes s F \<union> page_bytes {q}" "same_outside (free_bytes s F \<union> page_bytes {q}) s t"
        "\<exists>c\<in>G. 256 \<le> units t c" using grow_heap [OF h q(1,3)] q(2) by blast
      have "r \<noteq> 0" using q(2) by (simp add: page_addr_def)
      then have g: "slob_alloc sz 0 s = slob_scan sz ?n 0 (slobfree t) (snext t (slobfree t)) t"
        using scan small r(1) t(1) by (simp add: slob_grow_def)
      have ti: "slob_inv arena t G" using t(2) by (simp add: heap_inv_def)
      have "\<not> (\<forall>a\<in>G. units t a < ?n)" using t(5) n(2) by force
      then obtain b where b: "b \<in> G" "?n \<le> units t (succ_in G b)"
        "slob_alloc sz 0 s = Some (slob_take ?n 0 0 b (succ_in G b) t)" using slob_scan_start [OF ti ne, of ?n] g by auto
      obtain c s' F' where c: "slob_take ?n 0 0 b (succ_in G b) t = (c, s')" "heap_inv arena s' F' (P - {q})" "arena + 16 < c"
        "{c..<c + 16 * nat ?n} \<subseteq> free_bytes t G" "free_bytes s' F' = free_bytes t G - {c..<c + 16 * nat ?n}"
        "units s' c = ?n" "same_outside (free_bytes t G) t s'" using take_heap [OF t(2) b(1) n(1) b(2)] by blast
      have "heap_alloc arena ?n s F P c s'"
        by (rule heap_allocI [of "{q}" P arena s' F'])
          (use c t(3) q(1) small same_outside_trans [OF t(4) c(7)] in auto)
      then show ?thesis using b(3) c(1) by auto
    qed
  qed
qed

section \<open>Blocks in use\<close>

text \<open>
  \<open>L\<close> are the blocks that \<^verbatim>\<open>kmalloc\<close> has cut from the ring and \<open>bs\<close> the descriptors of the big blocks in
  the order of their list. What they occupy is apart from each other, from the ring and from the free pages.
\<close>

definition big_extent :: "slob \<Rightarrow> addr \<Rightarrow> addr set" where
  "big_extent s bb = {bb..<bb + 32} \<union> {snext s bb..<snext s bb + 4096 * 2 ^ nat (units s bb)}"

definition region :: "slob \<Rightarrow> addr list \<Rightarrow> addr \<Rightarrow> addr set" where
  "region s bs a = (if a \<in> set bs then big_extent s a else extent s a)"

fun bigs :: "(addr \<Rightarrow> addr) \<Rightarrow> addr \<Rightarrow> addr list \<Rightarrow> bool" where
  "bigs nx a [] \<longleftrightarrow> a = 0"
| "bigs nx a (b # bs) \<longleftrightarrow> a = b \<and> b \<noteq> 0 \<and> bigs nx (nx b) bs"

definition live_inv :: "addr \<Rightarrow> slob \<Rightarrow> addr set \<Rightarrow> nat set \<Rightarrow> addr set \<Rightarrow> addr list \<Rightarrow> bool" where
  "live_inv arena s F P L bs \<longleftrightarrow> heap_inv arena s F P \<and> bigs (bb_next s) (bigblocks s) bs \<and> L \<inter> set bs = {} \<and>
     (\<forall>b\<in>L. arena + 16 < b \<and> 2 \<le> units s b) \<and>
     (\<forall>a\<in>L \<union> set bs. region s bs a \<inter> (free_bytes s F \<union> page_bytes P) = {}) \<and>
     (\<forall>a\<in>L \<union> set bs. \<forall>c\<in>L \<union> set bs. a \<noteq> c \<longrightarrow> region s bs a \<inter> region s bs c = {})"

lemma live_invD:
  assumes "live_inv arena s F P L bs"
  shows "heap_inv arena s F P" "bigs (bb_next s) (bigblocks s) bs" "L \<inter> set bs = {}"
    "b \<in> L \<Longrightarrow> arena + 16 < b" "b \<in> L \<Longrightarrow> 2 \<le> units s b"
    "a \<in> L \<union> set bs \<Longrightarrow> region s bs a \<inter> (free_bytes s F \<union> page_bytes P) = {}"
    "a \<in> L \<union> set bs \<Longrightarrow> c \<in> L \<union> set bs \<Longrightarrow> a \<noteq> c \<Longrightarrow> region s bs a \<inter> region s bs c = {}"
  using assms unfolding live_inv_def by blast+

lemma in_region: "a \<in> set bs \<or> 1 \<le> units s a \<Longrightarrow> a \<in> region s bs a"
  by (auto simp: region_def big_extent_def extent_def)

lemma region_same:
  assumes "same_outside A s s'" and "a \<in> region s bs a" and "region s bs a \<inter> A = {}"
  shows "region s' bs a = region s bs a" and "units s' a = units s a"
proof -
  have "a \<notin> A" using assms(2,3) by blast
  then show "region s' bs a = region s bs a" and "units s' a = units s a"
    using assms(1) by (simp_all add: same_outside_def region_def big_extent_def extent_def)
qed

text \<open>The regions of the others stay what they are when only the ring, free pages and one block change.\<close>

lemma live_frame:
  assumes l: "live_inv arena s F P L bs" and so: "same_outside A s s'"
    and A: "\<And>a. a \<in> M \<union> set bs \<Longrightarrow> region s bs a \<inter> A = {}" and M: "M \<subseteq> L"
    and h: "heap_inv arena s' F' P'" and sub: "free_bytes s' F' \<union> page_bytes P' \<subseteq> free_bytes s F \<union> page_bytes P \<union> A"
  shows "live_inv arena s' F' P' M bs" and "a \<in> M \<union> set bs \<Longrightarrow> region s' bs a = region s bs a"
proof -
  note D = live_invD [OF l]
  have r: "region s' bs a = region s bs a \<and> units s' a = units s a" if "a \<in> M \<union> set bs" for a
    using region_same [OF so in_region A [OF that]] that D(5) [of a] M by fastforce
  then show "a \<in> M \<union> set bs \<Longrightarrow> region s' bs a = region s bs a" by blast
  have sb: "bb_next s' = bb_next s" "bigblocks s' = bigblocks s" using so by (simp_all add: same_outside_def)
  show "live_inv arena s' F' P' M bs"
    unfolding live_inv_def
  proof (intro conjI ballI impI)
    show "region s' bs a \<inter> (free_bytes s' F' \<union> page_bytes P') = {}" if "a \<in> M \<union> set bs" for a
      using r [OF that] A [OF that] D(6) [of a] that M sub by blast
    show "region s' bs a \<inter> region s' bs c = {}" if "a \<in> M \<union> set bs" "c \<in> M \<union> set bs" "a \<noteq> c" for a c
      using r [OF that(1)] r [OF that(2)] D(7) [of a c] that M by blast
  qed (use D r h sb M in auto)
qed

lemma heap_alloc_apart:
  assumes l: "live_inv arena s F P L bs" and h: "heap_alloc arena n s F P m s'" and m: "m \<noteq> 0" and n: "2 \<le> n"
  shows "\<exists>F' P'. live_inv arena s' F' P' L bs \<and> arena + 16 < m \<and> units s' m = n \<and>
    (\<forall>a\<in>L \<union> set bs. region s' bs a = region s bs a \<and> a \<noteq> m \<and> region s bs a \<inter> {m..<m + 16 * nat n} = {}) \<and>
    {m..<m + 16 * nat n} \<inter> (free_bytes s' F' \<union> page_bytes P') = {}"
proof -
  obtain F' G where G: "G \<subseteq> P" "heap_inv arena s' F' (P - G)" "arena + 16 < m" "units s' m = n"
    "{m..<m + 16 * nat n} \<subseteq> free_bytes s F \<union> page_bytes G"
    "free_bytes s' F' = free_bytes s F \<union> page_bytes G - {m..<m + 16 * nat n}"
    "same_outside (free_bytes s F \<union> page_bytes G) s s'"
    using h m unfolding heap_alloc_def by blast
  note D = live_invD [OF l]
  have GP: "page_bytes G \<subseteq> page_bytes P" "page_bytes (P - G) \<subseteq> page_bytes P" using G(1) by (auto simp: page_bytes_def)
  have A: "region s bs a \<inter> (free_bytes s F \<union> page_bytes G) = {}" if "a \<in> L \<union> set bs" for a
    using D(6) [OF that] GP(1) by blast
  have sub: "free_bytes s' F' \<union> page_bytes (P - G) \<subseteq> free_bytes s F \<union> page_bytes P \<union> (free_bytes s F \<union> page_bytes G)"
    using G(6) GP by blast
  have fr: "live_inv arena s' F' (P - G) L bs" "\<And>a. a \<in> L \<union> set bs \<Longrightarrow> region s' bs a = region s bs a"
    using live_frame [OF l G(7) _ subset_refl G(2) sub] A by blast+
  have mm: "m \<in> {m..<m + 16 * nat n}" using n by simp
  have "region s' bs a = region s bs a \<and> a \<noteq> m \<and> region s bs a \<inter> {m..<m + 16 * nat n} = {}" if a: "a \<in> L \<union> set bs" for a
  proof -
    have "a \<in> region s bs a" by (rule in_region) (use a D(5) [of a] in auto)
    then show ?thesis using fr(2) [OF a] A [OF a] G(5) mm by blast
  qed
  moreover have "{m..<m + 16 * nat n} \<inter> page_bytes (P - G) = {}"
  proof -
    have "page_bytes G \<inter> page_bytes (P - G) = {}"
      using page_bytes_apart [of _ "P - G"] by (fastforce simp: page_bytes_def [of G])
    moreover have "free_bytes s F \<inter> page_bytes P = {}" using D(1) by (simp add: heap_inv_def)
    ultimately show ?thesis using G(5) GP(2) by blast
  qed
  ultimately show ?thesis using fr(1) G(3,4,6) by blast
qed

lemma live_insert:
  assumes l: "live_inv arena s F P L bs" and m: "arena + 16 < m" "2 \<le> units s m" "m \<notin> set bs"
    and "region s bs m \<inter> (free_bytes s F \<union> page_bytes P) = {}"
    and new: "\<And>a. a \<in> L \<union> set bs \<Longrightarrow> region s bs a \<inter> region s bs m = {}"
  shows "live_inv arena s F P (insert m L) bs"
proof -
  note D = live_invD [OF l]
  show ?thesis
    unfolding live_inv_def
  proof (intro conjI ballI impI)
    show "region s bs a \<inter> region s bs c = {}"
      if "a \<in> insert m L \<union> set bs" "c \<in> insert m L \<union> set bs" "a \<noteq> c" for a c
      using that D(7) [of a c] new [of a] new [of c] by blast
    show "region s bs a \<inter> (free_bytes s F \<union> page_bytes P) = {}" if "a \<in> insert m L \<union> set bs" for a
      using that D(6) [of a] assms(5) by blast
  qed (use D(1-5) m in auto)
qed

lemma SLOB_UNITS_room: "n \<le> 16 * nat (SLOB_UNITS n)"
  by (simp add: SLOB_UNITS_def layout)

lemma region_less: "b \<notin> set bs \<Longrightarrow> region s bs b = extent s b"
  by (simp add: region_def)

text \<open>
  C26: A small request is served by a block of its own. Over a heap with the blocks \<open>L\<close> and the big
  blocks \<open>bs\<close> in use, \<^verbatim>\<open>kmalloc(sz)\<close> returns either null, when no free block has room and the page
  allocator has no page, or the address behind the header of a new block that holds \<open>sz\<close> bytes,
  overlaps no block in use, no free block and no free page, and the blocks in use stay where they are.
\<close>

theorem kmalloc_new_block:
  assumes l: "live_inv arena s F P L bs" and sz: "0 < sz" "sz < 4064"
  shows "\<exists>r s'. slob_kmalloc sz s = Some (r, s') \<and>
    (r = 0 \<and> s' = s \<and> P = {} \<and> (\<forall>a\<in>F. units s a < SLOB_UNITS (sz + 16)) \<or>
     (\<exists>F' P'. live_inv arena s' F' P' (insert (r - 16) L) bs \<and> r - 16 \<notin> L \<and>
        {r..<r + sz} \<subseteq> extent s' (r - 16) \<and> (\<forall>a\<in>L \<union> set bs. region s' bs a = region s bs a)))"
proof -
  let ?n = "SLOB_UNITS (sz + 16)"
  have n: "2 \<le> ?n" using sz by (simp add: SLOB_UNITS_def layout)
  obtain m s' where m: "slob_alloc (sz + 16) 0 s = Some (m, s')" "heap_alloc arena ?n s F P m s'"
    using slob_alloc_heap [OF live_invD(1) [OF l], of "sz + 16"] sz by (auto simp: layout)
  have k: "slob_kmalloc sz s = Some (if m \<noteq> 0 then m + 16 else 0, s')"
    using sz m(1) by (simp add: slob_kmalloc_def layout)
  show ?thesis
  proof (cases "m = 0")
    case True
    then show ?thesis using k m(2) by (auto simp: heap_alloc_def)
  next
    case False
    obtain F' P' where N: "live_inv arena s' F' P' L bs" "arena + 16 < m" "units s' m = ?n"
      "\<forall>a\<in>L \<union> set bs. region s' bs a = region s bs a \<and> a \<noteq> m \<and> region s bs a \<inter> {m..<m + 16 * nat ?n} = {}"
      "{m..<m + 16 * nat ?n} \<inter> (free_bytes s' F' \<union> page_bytes P') = {}"
      using heap_alloc_apart [OF l m(2) False n] by (elim exE conjE) (rule that)
    have mb: "m \<notin> set bs" "m \<notin> L" using N(4) by auto
    have e: "extent s' m = {m..<m + 16 * nat ?n}" "region s' bs m = {m..<m + 16 * nat ?n}"
      using region_less [OF mb(1)] by (simp_all add: extent_def N(3))
    have "live_inv arena s' F' P' (insert m L) bs"
    proof (rule live_insert [OF N(1,2)])
      show "2 \<le> units s' m" "m \<notin> set bs" using N(3) n mb(1) by simp_all
      show "region s' bs m \<inter> (free_bytes s' F' \<union> page_bytes P') = {}" unfolding e(2) by (rule N(5))
      show "region s' bs a \<inter> region s' bs m = {}" if "a \<in> L \<union> set bs" for a using bspec [OF N(4) that] e(2) by simp
    qed
    moreover have "{m + 16..<m + 16 + sz} \<subseteq> extent s' m" using e(1) SLOB_UNITS_room [of "sz + 16"] by auto
    moreover have "\<forall>a\<in>L \<union> set bs. region s' bs a = region s bs a" using N(4) by (intro ballI) (drule (1) bspec, simp)
    moreover have "slob_kmalloc sz s = Some (m + 16, s')" using k False by simp
    ultimately show ?thesis using mb(2)
      by (intro exI [of _ "m + 16"] exI [of _ s'] conjI disjI2 exI [of _ F'] exI [of _ P']) simp_all
  qed
qed

lemma find_big_none:
  assumes "bigs (bb_next s) bb bs" and "\<forall>b\<in>set bs. snext s b \<noteq> blk"
  shows "\<exists>l. find_big s blk lnk bb = Some (l, 0)"
  using assms
proof (induction bs arbitrary: lnk bb)
  case Nil
  then show ?case by (subst find_big.simps) simp
next
  case (Cons b bs)
  then show ?case by (subst find_big.simps) auto
qed

text \<open>
  C27: The release of a small block. \<^verbatim>\<open>kfree\<close> of a block that \<^verbatim>\<open>kmalloc\<close> has cut returns, gives exactly the
  bytes of this block back to the ring and leaves the other blocks in use where they are.
\<close>

theorem kfree_returns_block:
  assumes l: "live_inv arena s F P L bs" and b: "b \<in> L"
  shows "\<exists>s' F'. slob_kfree (b + 16) s = Some s' \<and> live_inv arena s' F' P (L - {b}) bs \<and>
    free_bytes s' F' = free_bytes s F \<union> extent s b \<and> (\<forall>a\<in>L \<union> set bs - {b}. region s' bs a = region s bs a)"
proof -
  note D = live_invD [OF l]
  have bn: "b \<notin> set bs" using D(3) b by blast
  have rb: "region s bs b = extent s b" by (rule region_less [OF bn])
  have in_b: "b \<in> extent s b" "b + 16 \<in> extent s b" using D(5) [OF b] by (auto simp: extent_def)
  have "snext s c \<noteq> b + 16" if c: "c \<in> set bs" for c
  proof -
    have "snext s c \<in> region s bs c" using c by (simp add: region_def big_extent_def)
    moreover have "region s bs b \<inter> region s bs c = {}" using D(7) [of b c] b c bn by blast
    ultimately show ?thesis using in_b(2) rb by auto
  qed
  then obtain lnk where fb: "find_big s (b + 16) None (bigblocks s) = Some (lnk, 0)"
    using find_big_none [OF D(2)] by blast
  have k: "slob_kfree (b + 16) s = slob_free b 0 s" by (simp add: slob_kfree_def fb)
  have inv: "slob_inv arena s F" using D(1) by (simp add: heap_inv_def)
  have apart: "extent s b \<inter> (free_bytes s F \<union> page_bytes P) = {}" using D(6) [of b] b rb by simp
  then have nF: "b \<notin> F" using in_free_bytes [of arena s F b] inv in_b(1) by (auto simp: slob_inv_def)
  obtain s' F' where s': "slob_free b 0 s = Some s'" "slob_inv arena s' F'"
    "free_bytes s' F' = free_bytes s F \<union> extent s b" "slob_phys s' = slob_phys s"
    "same_outside (free_bytes s F \<union> extent s b) s s'"
    using slob_free_spec [OF inv nF D(4) [OF b], of s 0] D(5) [OF b] apart by auto
  have h: "heap_inv arena s' F' P" using D(1) s' apart by (auto simp: heap_inv_def)
  have A: "region s bs a \<inter> (free_bytes s F \<union> extent s b) = {}" if "a \<in> (L - {b}) \<union> set bs" for a
    using D(6) [of a] D(7) [of a b] that b rb bn by auto
  have sub: "free_bytes s' F' \<union> page_bytes P \<subseteq> free_bytes s F \<union> page_bytes P \<union> (free_bytes s F \<union> extent s b)"
    using s'(3) by blast
  have "live_inv arena s' F' P (L - {b}) bs" "\<And>a. a \<in> (L - {b}) \<union> set bs \<Longrightarrow> region s' bs a = region s bs a"
    using live_frame [OF l s'(5) _ _ h sub, of "L - {b}"] A by blast+
  then show ?thesis using k s'(1,3) by auto
qed

section \<open>Requests of no bytes\<close>

text \<open>
  While the ring is only the arena, a request of no bytes returns the arena and leaves it in the ring; its
  release searches for ever.
\<close>

lemma find_self: "slob_find s b c = Some r \<Longrightarrow> b = c \<Longrightarrow> snext s c \<noteq> c"
proof -
  assume run: "slob_find s b c = Some r" and "b = c"
  have "\<not> (b = c \<and> snext s c = c)"
    by (rule slob_find.raw_induct [OF _ run, where P = "\<lambda>s b c r. \<not> (b = c \<and> snext s c = c)"]) (auto split: if_splits)
  with \<open>b = c\<close> show ?thesis by simp
qed

lemma kmalloc_zero:
  assumes "snext s a = a" and "units s a = 1" and "slobfree s = a" and "a \<noteq> 0" and "a mod 4096 \<noteq> 4080"
  shows "slob_kmalloc 0 s = Some (a + 16, s)" and "slob_kfree (a + 16) s = None"
proof -
  have u: "SLOB_UNITS 16 = 1" by (simp add: SLOB_UNITS_def layout)
  have "s\<lparr>snext := (snext s)(a := a), slobfree := a\<rparr> = s" using assms(1,3) by (cases s) (auto simp: fun_upd_idem)
  then have "slob_take 1 0 0 a a s = (a, s)" using assms(1,2) by (simp add: slob_take_def)
  then have "slob_scan 16 1 0 a a s = Some (a, s)" using assms(2) by (subst slob_scan_step) simp_all
  then show "slob_kmalloc 0 s = Some (a + 16, s)"
    using assms u by (simp add: slob_kmalloc_def slob_alloc_def layout)
  have "slob_find s a a = None" using find_self [of s a a] assms(1) by (cases "slob_find s a a") auto
  then have "slob_free a 0 s = None" using assms(3,4) by (simp add: slob_free_def)
  moreover have "(a + 16) mod 4096 \<noteq> 0"
  proof -
    have "(m + 16) mod 4096 \<noteq> 0" if "m < 4096" "m \<noteq> 4080" for m :: nat
      using that by (cases "m < 4080") (simp_all add: mod_if)
    from this [of "a mod 4096"] show ?thesis using assms(5) by (simp add: mod_add_left_eq)
  qed
  ultimately show "slob_kfree (a + 16) s = None" by (simp add: slob_kfree_def)
qed

section \<open>Witnesses\<close>

definition demo_heap :: "free_area \<Rightarrow> slob" where
  "demo_heap t = \<lparr>units = (\<lambda>_. 2)(0xFFFFFFFFC0210000 := 1), snext = id, bb_next = (\<lambda>_. 0), slobfree = 0xFFFFFFFFC0210000, bigblocks = 0,
     slob_phys = \<lparr>area = t, words = (\<lambda>_. 0), npage = 0x90000\<rparr>\<rparr>"

lemma demo_free_frames: "\<exists>t. free_inv t [600] {600..<602}"
proof -
  let ?a = "demo_pages\<lparr>pages := (\<lambda>p. \<lparr>page_ref = 0, page_flags = 1, property = 0\<rparr>)\<rparr>"
  have "\<forall>p\<in>{600..<600 + 2}. PageReserved p ?a" by (simp add: PageReserved_def PG_reserved_def atomic_test_bit_def)
  moreover have "free_list ?a \<notin> {600..<600 + 2}" by (simp add: demo_pages_def)
  ultimately show ?thesis using default_init_memmap_spec [of 2 600 ?a] by auto
qed

lemma demo_live: "\<exists>t. live_inv 0xFFFFFFFFC0210000 (demo_heap t) {0xFFFFFFFFC0210000} {600..<602} {0xFFFFFFFFC0220000} []"
proof -
  obtain t where t: "\<exists>xs. free_inv t xs {600..<602}" using demo_free_frames by blast
  let ?s = "demo_heap t"
  have p: "pages_inv (slob_phys ?s) {600..<602}" using t by (simp add: pages_inv_def demo_heap_def)
  have i: "slob_inv 0xFFFFFFFFC0210000 ?s {0xFFFFFFFFC0210000}"
    by (simp add: slob_inv_def ring_of_def blocks_ok_def succ_in_def demo_heap_def)
  have fb: "free_bytes ?s {0xFFFFFFFFC0210000} = {0xFFFFFFFFC0210000..<0xFFFFFFFFC0210010}" by (simp add: free_bytes_def extent_def demo_heap_def)
  have pb: "\<forall>x\<in>page_bytes {600..<602}. 0xFFFFFFFFC0258000 \<le> x" by (simp add: page_bytes_def page_addr_def)
  have e: "extent ?s 0xFFFFFFFFC0220000 = {0xFFFFFFFFC0220000..<0xFFFFFFFFC0220020}" by (simp add: extent_def demo_heap_def)
  have "{0xFFFFFFFFC0210000..<0xFFFFFFFFC0210010} \<inter> page_bytes {600..<602} = {}" "{0xFFFFFFFFC0220000..<0xFFFFFFFFC0220020} \<inter> page_bytes {600..<602} = {}" using pb by fastforce+
  then have "live_inv 0xFFFFFFFFC0210000 ?s {0xFFFFFFFFC0210000} {600..<602} {0xFFFFFFFFC0220000} []"
    using p i fb e by (simp add: live_inv_def heap_inv_def region_def Int_Un_distrib)
      (simp add: demo_heap_def page_addr_def)
  then show ?thesis by blast
qed

theorem kmalloc_new_block_witness:
  "\<exists>s r s' F P. slob_kmalloc 100 s = Some (r, s') \<and> live_inv 0xFFFFFFFFC0210000 s' F P {r - 16, 0xFFFFFFFFC0220000} [] \<and> r - 16 \<noteq> 0xFFFFFFFFC0220000"
proof -
  obtain t where t: "live_inv 0xFFFFFFFFC0210000 (demo_heap t) {0xFFFFFFFFC0210000} {600..<602} {0xFFFFFFFFC0220000} []" using demo_live by blast
  have "\<not> ({600..<602} = ({} :: nat set))" by simp
  with kmalloc_new_block [OF t, of 100] show ?thesis by fastforce
qed

theorem kfree_returns_block_witness:
  "\<exists>s s' F. live_inv 0xFFFFFFFFC0210000 s {0xFFFFFFFFC0210000} {600..<602} {0xFFFFFFFFC0220000} [] \<and> slob_kfree 0xFFFFFFFFC0220010 s = Some s' \<and> live_inv 0xFFFFFFFFC0210000 s' F {600..<602} {} []"
proof -
  obtain t where t: "live_inv 0xFFFFFFFFC0210000 (demo_heap t) {0xFFFFFFFFC0210000} {600..<602} {0xFFFFFFFFC0220000} []" using demo_live by blast
  show ?thesis using kfree_returns_block [OF t, of "0xFFFFFFFFC0220000"] t by auto
qed

end
