(* ===== verification/Philosophers.thy ===== *)
theory Philosophers
  imports WaitQueue
begin

text \<open>
  The dining philosophers with semaphores (\<^verbatim>\<open>kern/sync/check_sync.c\<close>). The threads are the
  philosophers 0 to 4; the semaphores are the abstract ones that \<^verbatim>\<open>up\<close> and \<^verbatim>\<open>down\<close> implement (a
  value and a FIFO of threads). Each thread has a place in its loop, and a step runs one thread from
  one \<^verbatim>\<open>down\<close> to the next; the steps of different threads come in any order.
\<close>

section \<open>State\<close>

abbreviation PHILS :: nat where "PHILS \<equiv> 5"
definition TIMES :: nat where [layout]: "TIMES = 4"

definition LEFT :: "nat \<Rightarrow> nat" where "LEFT i = (i + PHILS - 1) mod PHILS"
definition RIGHT :: "nat \<Rightarrow> nat" where "RIGHT i = (i + 1) mod PHILS"

datatype phase = THINKING | HUNGRY | EATING

text \<open>
  The places: thinking, waiting for \<^verbatim>\<open>mutex\<close> before taking, holding it, before and in the wait for
  the own semaphore, eating, waiting for \<^verbatim>\<open>mutex\<close> before putting, holding it, at the end.
\<close>

datatype place = P_Think | P_WaitTake | P_Take | P_Taken | P_WaitFork | P_Eat | P_WaitPut | P_Put | P_Quit

record dining =
  state_sema :: "nat \<Rightarrow> phase"
  mutex :: asem
  phil_sem :: "nat \<Rightarrow> asem"
  place_of :: "nat \<Rightarrow> place"
  iter :: "nat \<Rightarrow> nat"

section \<open>Operations\<close>

text \<open>A thread that gets the token it waits for goes on behind its \<^verbatim>\<open>down\<close>.\<close>

fun go_on :: "place \<Rightarrow> place" where
  "go_on P_WaitTake = P_Take"
| "go_on P_WaitFork = P_Eat"
| "go_on P_WaitPut = P_Put"
| "go_on p = p"

definition let_go :: "addr option \<Rightarrow> dining \<Rightarrow> dining" where
  "let_go w t = (case w of None \<Rightarrow> t | Some j \<Rightarrow> t\<lparr>place_of := (place_of t)(j := go_on (place_of t j))\<rparr>)"

definition up_mutex :: "dining \<Rightarrow> dining" where
  "up_mutex t = (let (a, w) = asem_up (mutex t) in let_go w (t\<lparr>mutex := a\<rparr>))"

definition up_phil :: "nat \<Rightarrow> dining \<Rightarrow> dining" where
  "up_phil i t = (let (a, w) = asem_up (phil_sem t i) in let_go w (t\<lparr>phil_sem := (phil_sem t)(i := a)\<rparr>))"

definition down_mutex :: "nat \<Rightarrow> place \<Rightarrow> place \<Rightarrow> dining \<Rightarrow> dining" where
  "down_mutex i got blocked t =
     (let (a, ok) = asem_down i (mutex t)
      in t\<lparr>mutex := a, place_of := (place_of t)(i := if ok then got else blocked)\<rparr>)"

definition down_phil :: "nat \<Rightarrow> dining \<Rightarrow> dining" where
  "down_phil i t =
     (let (a, ok) = asem_down i (phil_sem t i)
      in t\<lparr>phil_sem := (phil_sem t)(i := a), place_of := (place_of t)(i := if ok then P_Eat else P_WaitFork)\<rparr>)"

definition phi_test_sema :: "nat \<Rightarrow> dining \<Rightarrow> dining" where
  "phi_test_sema i t =
     (if state_sema t i = HUNGRY \<and> state_sema t (LEFT i) \<noteq> EATING \<and> state_sema t (RIGHT i) \<noteq> EATING
      then up_phil i (t\<lparr>state_sema := (state_sema t)(i := EATING)\<rparr>)
      else t)"

text \<open>\<^verbatim>\<open>phi_take_forks_sema\<close> behind its first \<^verbatim>\<open>down\<close>, up to the second, and \<^verbatim>\<open>phi_put_forks_sema\<close>.\<close>

definition phi_take_forks_sema :: "nat \<Rightarrow> dining \<Rightarrow> dining" where
  "phi_take_forks_sema i t =
     (let t = t\<lparr>state_sema := (state_sema t)(i := HUNGRY)\<rparr>;
          t = phi_test_sema i t;
          t = up_mutex t
      in t\<lparr>place_of := (place_of t)(i := P_Taken)\<rparr>)"

definition phi_put_forks_sema :: "nat \<Rightarrow> dining \<Rightarrow> dining" where
  "phi_put_forks_sema i t =
     (let t = t\<lparr>state_sema := (state_sema t)(i := THINKING)\<rparr>;
          t = phi_test_sema (LEFT i) t;
          t = phi_test_sema (RIGHT i) t;
          t = up_mutex t
      in t\<lparr>place_of := (place_of t)(i := P_Think)\<rparr>)"

text \<open>The loop of \<^verbatim>\<open>philosopher_using_semaphore\<close>, one step per place.\<close>

inductive phil_step :: "dining \<Rightarrow> dining \<Rightarrow> bool" where
  think: "i < PHILS \<Longrightarrow> place_of t i = P_Think \<Longrightarrow> iter t i < TIMES \<Longrightarrow>
    phil_step t (down_mutex i P_Take P_WaitTake (t\<lparr>iter := (iter t)(i := iter t i + 1)\<rparr>))"
| quit: "i < PHILS \<Longrightarrow> place_of t i = P_Think \<Longrightarrow> \<not> iter t i < TIMES \<Longrightarrow>
    phil_step t (t\<lparr>iter := (iter t)(i := iter t i + 1), place_of := (place_of t)(i := P_Quit)\<rparr>)"
| take: "i < PHILS \<Longrightarrow> place_of t i = P_Take \<Longrightarrow> phil_step t (phi_take_forks_sema i t)"
| fork: "i < PHILS \<Longrightarrow> place_of t i = P_Taken \<Longrightarrow> phil_step t (down_phil i t)"
| eat: "i < PHILS \<Longrightarrow> place_of t i = P_Eat \<Longrightarrow> phil_step t (down_mutex i P_Put P_WaitPut t)"
| put: "i < PHILS \<Longrightarrow> place_of t i = P_Put \<Longrightarrow> phil_step t (phi_put_forks_sema i t)"

definition dining_init :: dining where
  "dining_init = \<lparr>state_sema = (\<lambda>_. THINKING), mutex = (1, []), phil_sem = (\<lambda>_. (0, [])),
     place_of = (\<lambda>_. P_Think), iter = (\<lambda>_. 0)\<rparr>"

section \<open>Invariant\<close>

lemma neighbours [simp]:
  assumes "i < 5"
  shows "LEFT i < 5" "RIGHT i < 5" "LEFT i \<noteq> i" "RIGHT i \<noteq> i" "LEFT i \<noteq> RIGHT i" "LEFT (RIGHT i) = i" "RIGHT (LEFT i) = i"
proof -
  from assms consider "i = 0" | "i = 1" | "i = 2" | "i = 3" | "i = 4" by linarith
  then show "LEFT i < 5" "RIGHT i < 5" "LEFT i \<noteq> i" "RIGHT i \<noteq> i" "LEFT i \<noteq> RIGHT i" "LEFT (RIGHT i) = i" "RIGHT (LEFT i) = i"
    by (cases; simp add: LEFT_def RIGHT_def)+
qed

lemma neighbours' [simp]:
  assumes "i < 5"
  shows "i \<noteq> LEFT i" "i \<noteq> RIGHT i" "RIGHT i \<noteq> LEFT i"
  using neighbours [OF assms] by metis+

text \<open>A philosopher's state, place and semaphore fit together.\<close>

fun seat :: "nat \<Rightarrow> phase \<Rightarrow> place \<Rightarrow> asem \<Rightarrow> bool" where
  "seat i ph P_Taken a \<longleftrightarrow> ph = HUNGRY \<and> a = (0, []) \<or> ph = EATING \<and> a = (1, [])"
| "seat i ph P_WaitFork a \<longleftrightarrow> ph = HUNGRY \<and> a = (0, [i])"
| "seat i ph P_Eat a \<longleftrightarrow> ph = EATING \<and> a = (0, [])"
| "seat i ph P_WaitPut a \<longleftrightarrow> ph = EATING \<and> a = (0, [])"
| "seat i ph P_Put a \<longleftrightarrow> ph = EATING \<and> a = (0, [])"
| "seat i ph p a \<longleftrightarrow> ph = THINKING \<and> a = (0, [])"

definition seated :: "dining \<Rightarrow> nat \<Rightarrow> bool" where
  "seated t i \<longleftrightarrow> seat i (state_sema t i) (place_of t i) (phil_sem t i)"

definition inside :: "dining \<Rightarrow> nat set" where
  "inside t = {i. i < 5 \<and> place_of t i \<in> {P_Take, P_Put}}"

definition outside :: "dining \<Rightarrow> nat set" where
  "outside t = {i. i < 5 \<and> place_of t i \<in> {P_WaitTake, P_WaitPut}}"

definition exclusive :: "dining \<Rightarrow> bool" where
  "exclusive t \<longleftrightarrow> distinct (snd (mutex t)) \<and> set (snd (mutex t)) = outside t \<and>
     (mutex t = (1, []) \<and> inside t = {} \<or> fst (mutex t) = 0 \<and> (\<exists>i. inside t = {i}))"

definition apart :: "dining \<Rightarrow> bool" where
  "apart t \<longleftrightarrow> (\<forall>i<5. state_sema t i = EATING \<longrightarrow> state_sema t (RIGHT i) \<noteq> EATING)"

definition blocked_by :: "dining \<Rightarrow> nat \<Rightarrow> bool" where
  "blocked_by t i \<longleftrightarrow> (state_sema t i = HUNGRY \<longrightarrow> state_sema t (LEFT i) = EATING \<or> state_sema t (RIGHT i) = EATING)"

definition dining_inv :: "dining \<Rightarrow> bool" where
  "dining_inv t \<longleftrightarrow> (\<forall>i<5. seated t i) \<and> exclusive t \<and> apart t \<and> (\<forall>i<5. blocked_by t i)"

lemma apart_left: "apart t \<Longrightarrow> i < 5 \<Longrightarrow> state_sema t i = EATING \<Longrightarrow> state_sema t (LEFT i) \<noteq> EATING"
  by (metis apart_def neighbours(1,7))

lemma init_inv: "dining_inv dining_init"
  by (auto simp: dining_inv_def dining_init_def seated_def exclusive_def apart_def blocked_by_def inside_def outside_def)

section \<open>Every step keeps it\<close>

lemma test_spec:
  assumes j: "j < 5" and s: "seated t j"
  defines "t' \<equiv> phi_test_sema j t"
  shows "seated t' j"
    and "\<And>i. i \<noteq> j \<Longrightarrow> state_sema t' i = state_sema t i \<and> place_of t' i = place_of t i \<and> phil_sem t' i = phil_sem t i"
    and "mutex t' = mutex t" and "inside t' = inside t" and "outside t' = outside t"
    and "apart t \<Longrightarrow> apart t'" and "blocked_by t' j"
    and "state_sema t i = EATING \<Longrightarrow> state_sema t' i = EATING"
proof -
  let ?guard = "state_sema t j = HUNGRY \<and> state_sema t (LEFT j) \<noteq> EATING \<and> state_sema t (RIGHT j) \<noteq> EATING"
  have "(\<not> ?guard \<and> t' = t) \<or> (?guard \<and> place_of t j = P_Taken \<and>
        t' = t\<lparr>state_sema := (state_sema t)(j := EATING), phil_sem := (phil_sem t)(j := (1, []))\<rparr>)
      \<or> (?guard \<and> place_of t j = P_WaitFork \<and>
        t' = t\<lparr>state_sema := (state_sema t)(j := EATING), phil_sem := (phil_sem t)(j := (0, [])), place_of := (place_of t)(j := P_Eat)\<rparr>)"
  proof (cases ?guard)
    case False
    then have "t' = t" unfolding t'_def phi_test_sema_def by (rule if_not_P)
    with False show ?thesis by blast
  next
    case True
    then have t': "t' = up_phil j (t\<lparr>state_sema := (state_sema t)(j := EATING)\<rparr>)"
      unfolding t'_def phi_test_sema_def by (rule if_P)
    from s True consider "place_of t j = P_Taken" "phil_sem t j = (0, [])" | "place_of t j = P_WaitFork" "phil_sem t j = (0, [j])"
      unfolding seated_def by (cases "place_of t j") auto
    then show ?thesis using True by cases (simp_all add: t' up_phil_def asem_up_def let_go_def)
  qed
  note cases = this
  show "seated t' j" using cases s by (auto simp: seated_def)
  show "state_sema t' i = state_sema t i \<and> place_of t' i = place_of t i \<and> phil_sem t' i = phil_sem t i" if "i \<noteq> j" for i
    using cases that by auto
  show "mutex t' = mutex t" and "inside t' = inside t" and "outside t' = outside t"
    using cases by (auto simp: inside_def outside_def split: if_splits)
  show "apart t'" if ap: "apart t"
    unfolding apart_def
  proof (intro allI impI)
    fix i :: nat assume i: "i < 5" and e: "state_sema t' i = EATING"
    show "state_sema t' (RIGHT i) \<noteq> EATING"
    proof (cases "t' = t")
      case True
      then show ?thesis using ap i e by (simp add: apart_def)
    next
      case False
      then have g: ?guard and st: "state_sema t' = (state_sema t)(j := EATING)" using cases by auto
      show ?thesis
      proof (cases "i = j")
        case True
        with g st j show ?thesis by simp
      next
        case False
        then have ei: "state_sema t i = EATING" using e st by simp
        have "RIGHT i \<noteq> j" using neighbours(6) [OF i] g ei by auto
        then show ?thesis using ap i ei st by (simp add: apart_def)
      qed
    qed
  qed
  show "blocked_by t' j" using cases by (auto simp: blocked_by_def)
  show "state_sema t i = EATING \<Longrightarrow> state_sema t' i = EATING" using cases by auto
qed

lemma blocked_by_mono:
  assumes "blocked_by t i" and "state_sema t' i = state_sema t i"
    and "\<And>j. state_sema t j = EATING \<Longrightarrow> state_sema t' j = EATING"
  shows "blocked_by t' i"
  using assms by (auto simp: blocked_by_def)

lemma leave_mutex:
  assumes ex: "exclusive t" and i: "inside t = {i}" and p: "p \<notin> {P_Take, P_Put, P_WaitTake, P_WaitPut}"
  defines "t' \<equiv> (up_mutex t)\<lparr>place_of := (place_of (up_mutex t))(i := p)\<rparr>"
  shows "exclusive t'" and "state_sema t' = state_sema t" and "phil_sem t' = phil_sem t" and "place_of t' i = p"
    and "\<And>j. j < 5 \<Longrightarrow> j \<noteq> i \<Longrightarrow> seated t j \<Longrightarrow> seated t' j"
proof -
  obtain ws where m: "mutex t = (0, ws)" and d: "distinct ws" "set ws = outside t"
    using ex i by (cases "mutex t") (auto simp: exclusive_def)
  have "i \<in> inside t" using i by simp
  then have io: "i \<notin> outside t" by (auto simp: inside_def outside_def)
  have t': "t' = (case ws of [] \<Rightarrow> t\<lparr>mutex := (1, []), place_of := (place_of t)(i := p)\<rparr>
      | w # vs \<Rightarrow> t\<lparr>mutex := (0, vs), place_of := (place_of t)(w := go_on (place_of t w), i := p)\<rparr>)"
    by (cases ws) (simp_all add: t'_def up_mutex_def m asem_up_def let_go_def)
  show s: "state_sema t' = state_sema t" "phil_sem t' = phil_sem t" "place_of t' i = p"
    by (cases ws; simp add: t')+
  have go: "place_of t' j = (if j \<in> set (take 1 ws) then go_on (place_of t j) else place_of t j)" if "j \<noteq> i" for j
    using that by (cases ws) (simp_all add: t')
  have head: "place_of t j \<in> {P_WaitTake, P_WaitPut}" if "j \<in> set (take 1 ws)" for j
    using that d in_set_takeD [of j 1 ws] by (auto simp: outside_def)
  show "exclusive t'"
  proof (cases ws)
    case Nil
    have "inside t' = inside t - {i}" "outside t' = outside t"
      using p io by (auto simp: t' Nil inside_def outside_def)
    then show ?thesis using i d Nil by (simp add: exclusive_def t')
  next
    case (Cons w vs)
    have w: "w < 5" "w \<noteq> i" "set vs = outside t - {w}" "distinct vs"
      using Cons d io by (auto simp: outside_def)
    have pw: "place_of t' w \<in> {P_Take, P_Put}" using head [of w] go [of w] w(2) Cons by auto
    have po: "place_of t' j = place_of t j" if "j \<noteq> i" "j \<noteq> w" for j using go [of j] that Cons by simp
    have "inside t' = {w}"
    proof (rule set_eqI)
      fix j show "j \<in> inside t' \<longleftrightarrow> j \<in> {w}"
      proof (cases "j = i \<or> j = w")
        case True
        then show ?thesis using w pw s(3) p by (auto simp: inside_def)
      next
        case False
        then have "j \<notin> inside t" using i by auto
        then show ?thesis using po False by (auto simp: inside_def)
      qed
    qed
    moreover have "outside t' = outside t - {w}"
    proof (rule set_eqI)
      fix j show "j \<in> outside t' \<longleftrightarrow> j \<in> outside t - {w}"
      proof (cases "j = i \<or> j = w")
        case True
        then show ?thesis using io pw s(3) p by (auto simp: outside_def)
      next
        case False
        then show ?thesis using po by (auto simp: outside_def)
      qed
    qed
    ultimately show ?thesis using w Cons by (simp add: exclusive_def t')
  qed
  show "seated t' j" if j: "j < 5" "j \<noteq> i" "seated t j" for j
  proof (cases "j \<in> set (take 1 ws)")
    case True
    with go [OF j(2)] head [OF True] j(3) s show ?thesis by (auto simp: seated_def)
  next
    case False
    with go [OF j(2)] j(3) s show ?thesis by (simp add: seated_def)
  qed
qed

lemma enter_mutex:
  assumes ex: "exclusive t" and i: "i < 5" "place_of t i \<notin> {P_Take, P_Put, P_WaitTake, P_WaitPut}"
    and p: "(got, blocked) \<in> {(P_Take, P_WaitTake), (P_Put, P_WaitPut)}"
  defines "t' \<equiv> down_mutex i got blocked t"
  shows "exclusive t'" and "state_sema t' = state_sema t" and "phil_sem t' = phil_sem t"
    and "place_of t' i \<in> {got, blocked}" and "\<And>j. j \<noteq> i \<Longrightarrow> place_of t' j = place_of t j"
proof -
  obtain v ws where m: "mutex t = (v, ws)" and d: "distinct ws" "set ws = outside t" by (cases "mutex t") (use ex in \<open>simp add: exclusive_def\<close>)
  have io: "i \<notin> inside t" "i \<notin> outside t" using i by (auto simp: inside_def outside_def)
  have t': "t' = (if v > 0 then t\<lparr>mutex := (v - 1, ws), place_of := (place_of t)(i := got)\<rparr>
      else t\<lparr>mutex := (v, ws @ [i]), place_of := (place_of t)(i := blocked)\<rparr>)"
    by (simp add: t'_def down_mutex_def m asem_down_def)
  show "state_sema t' = state_sema t" "phil_sem t' = phil_sem t" "place_of t' i \<in> {got, blocked}"
    "\<And>j. j \<noteq> i \<Longrightarrow> place_of t' j = place_of t j"
    by (simp_all add: t')
  show "exclusive t'"
  proof (cases "v > 0")
    case True
    then have v: "v = 1" "ws = []" "inside t = {}" using ex m by (auto simp: exclusive_def)
    have "inside t' = insert i (inside t)" using p i(1) True by (auto simp: t' inside_def)
    moreover have "outside t' = outside t" using p io True by (auto simp: t' outside_def)
    ultimately show ?thesis using v d True by (simp add: exclusive_def t')
  next
    case False
    then have v: "v = 0" "\<exists>j. inside t = {j}" using ex m by (auto simp: exclusive_def)
    have "inside t' = inside t" using p io False by (auto simp: t' inside_def)
    moreover have "outside t' = insert i (outside t)" using p i(1) False by (auto simp: t' outside_def)
    ultimately show ?thesis using v d io False by (simp add: exclusive_def t')
  qed
qed

lemma inside_only: "exclusive t \<Longrightarrow> i < 5 \<Longrightarrow> place_of t i \<in> {P_Take, P_Put} \<Longrightarrow> inside t = {i}"
proof -
  assume ex: "exclusive t" and "i < 5" and "place_of t i \<in> {P_Take, P_Put}"
  then have "i \<in> inside t" by (simp add: inside_def)
  then show ?thesis using ex by (auto simp: exclusive_def)
qed

lemma take_inv:
  assumes inv: "dining_inv t" and i: "i < 5" and p: "place_of t i = P_Take"
  shows "dining_inv (phi_take_forks_sema i t)"
proof -
  have s: "state_sema t i = THINKING" "phil_sem t i = (0, [])" using inv i p by (auto simp: dining_inv_def seated_def)
  define h where "h = t\<lparr>state_sema := (state_sema t)(i := HUNGRY)\<rparr>"
  define e where "e = phi_test_sema i h"
  let ?guard = "state_sema t (LEFT i) \<noteq> EATING \<and> state_sema t (RIGHT i) \<noteq> EATING"
  have e: "e = (if ?guard then h\<lparr>state_sema := (state_sema t)(i := EATING), phil_sem := (phil_sem t)(i := (1, []))\<rparr> else h)"
    using i s by (simp add: e_def h_def phi_test_sema_def up_phil_def asem_up_def let_go_def)
  have pl: "place_of e = place_of t" "mutex e = mutex t" by (simp_all add: e h_def)
  have io: "inside e = inside t" "outside e = outside t" by (simp_all add: inside_def outside_def pl)
  have ex: "exclusive e" using inv by (simp add: dining_inv_def exclusive_def pl io)
  have one: "inside e = {i}" using inside_only [of t i] inv i p io by (simp add: dining_inv_def)
  define f where "f = (up_mutex e)\<lparr>place_of := (place_of (up_mutex e))(i := P_Taken)\<rparr>"
  have f: "phi_take_forks_sema i t = f" by (simp add: phi_take_forks_sema_def f_def e_def h_def Let_def)
  note L = leave_mutex [OF ex one, of P_Taken, folded f_def, simplified]
  have st: "state_sema e j = state_sema t j" "phil_sem e j = phil_sem t j" if "j \<noteq> i" for j
    using that by (simp_all add: e h_def)
  have "seated f j" if j: "j < 5" for j
  proof (cases "j = i")
    case True
    then show ?thesis using L s by (auto simp: seated_def e h_def)
  next
    case False
    have "seated e j" using inv j st [OF False] pl by (simp add: dining_inv_def seated_def)
    then show ?thesis using L(5) j False by simp
  qed
  moreover have "apart f"
    unfolding apart_def L(2)
  proof (intro allI impI)
    fix j :: nat assume j: "j < 5" and ej: "state_sema e j = EATING"
    show "state_sema e (RIGHT j) \<noteq> EATING"
    proof (cases "j = i \<or> RIGHT j = i")
      case True
      then have "j = i \<or> j = LEFT i" using neighbours(6) [OF j] by metis
      then show ?thesis using ej i s by (auto simp: e h_def split: if_splits)
    next
      case False
      then show ?thesis using inv j ej st by (simp add: dining_inv_def apart_def)
    qed
  qed
  moreover have "blocked_by f j" if j: "j < 5" for j
  proof (cases "j = i")
    case True
    then show ?thesis using i by (auto simp: blocked_by_def L(2) e h_def)
  next
    case False
    have "blocked_by t j" using inv j by (simp add: dining_inv_def)
    then show ?thesis
    proof (rule blocked_by_mono)
      show "state_sema f j = state_sema t j" by (simp add: L(2) st [OF False])
      show "state_sema f k = EATING" if "state_sema t k = EATING" for k
        using that s st [of k] by (cases "k = i") (auto simp: L(2))
    qed
  qed
  ultimately show ?thesis using L(1) by (simp add: dining_inv_def f)
qed

lemma put_inv:
  assumes inv: "dining_inv t" and i: "i < 5" and p: "place_of t i = P_Put"
  shows "dining_inv (phi_put_forks_sema i t)"
proof -
  let ?l = "LEFT i" and ?r = "RIGHT i"
  define h where "h = t\<lparr>state_sema := (state_sema t)(i := THINKING)\<rparr>"
  define a where "a = phi_test_sema ?l h"
  define e where "e = phi_test_sema ?r a"
  define f where "f = (up_mutex e)\<lparr>place_of := (place_of (up_mutex e))(i := P_Think)\<rparr>"
  have f: "phi_put_forks_sema i t = f" by (simp add: phi_put_forks_sema_def f_def e_def a_def h_def Let_def)
  have th: "seated t j" "blocked_by t j" if "j < 5" for j using inv that by (simp_all add: dining_inv_def)
  have hs: "seated h j" if "j < 5" "j \<noteq> i" for j using th(1) [OF that(1)] that(2) by (simp add: h_def seated_def)
  have sem: "phil_sem t i = (0, [])" using th(1) [OF i] p by (simp add: seated_def)
  have nb: "?l < 5" "?r < 5" "?l \<noteq> i" "?r \<noteq> i" "?l \<noteq> ?r" using i by simp_all
  note A = test_spec [OF nb(1) hs [OF nb(1,3)], folded a_def]
  have ar: "seated a ?r" using hs [OF nb(2,4)] A(2) [OF nb(5) [symmetric]] by (simp add: seated_def)
  note B = test_spec [OF nb(2) ar, folded e_def]
  have mut: "mutex e = mutex t" "inside e = inside t" "outside e = outside t"
    using A(3-5) B(3-5) by (simp_all add: h_def inside_def outside_def)
  have ex: "exclusive e" using inv by (simp add: dining_inv_def exclusive_def mut)
  have one: "inside e = {i}" using inside_only [of t i] inv i p by (simp add: dining_inv_def mut)
  note L = leave_mutex [OF ex one, of P_Think, folded f_def, simplified]
  have ei: "state_sema e i = THINKING" "phil_sem e i = (0, [])"
    using A(2) [OF nb(3) [symmetric]] B(2) [OF nb(4) [symmetric]] sem by (simp_all add: h_def)
  have es: "seated e j" if "j < 5" "j \<noteq> i" for j
  proof -
    have "seated a j" using A(1) A(2) [of j] hs [OF that] by (cases "j = ?l") (simp_all add: seated_def)
    then show ?thesis using B(1) B(2) [of j] by (cases "j = ?r") (simp_all add: seated_def)
  qed
  have "seated f j" if j: "j < 5" for j
    using L es [OF j] ei j by (cases "j = i") (auto simp: seated_def)
  moreover have "apart h"
    using inv i by (auto simp: dining_inv_def apart_def h_def)
  then have "apart e" using A(6) B(6) by simp
  then have "apart f" by (simp add: apart_def L(2))
  moreover have "blocked_by f j" if j: "j < 5" for j
  proof -
    consider "j = i" | "j = ?r" | "j = ?l" | "j \<noteq> i" "j \<noteq> ?r" "j \<noteq> ?l" by blast
    then have "blocked_by e j"
    proof cases
      case 1
      then show ?thesis using ei by (simp add: blocked_by_def)
    next
      case 2
      then show ?thesis using B(7) by simp
    next
      case 3
      have "blocked_by a j" using A(7) 3 by simp
      then show ?thesis by (rule blocked_by_mono) (use B(2) [of j] B(8) 3 nb in auto)
    next
      case 4
      have "LEFT j \<noteq> i" "RIGHT j \<noteq> i" using 4 neighbours [OF j] by metis+
      then have "blocked_by h j" using th(2) [OF j] 4 by (simp add: blocked_by_def h_def)
      then have "blocked_by a j" by (rule blocked_by_mono) (use A(2) [of j] A(8) 4 in auto)
      then show ?thesis by (rule blocked_by_mono) (use B(2) [of j] B(8) 4 in auto)
    qed
    then show ?thesis by (simp add: blocked_by_def L(2))
  qed
  ultimately show ?thesis using L(1) by (simp add: dining_inv_def f)
qed

lemma frame_inv:
  assumes "dining_inv t" and "exclusive t'" and "state_sema t' = state_sema t" and "\<And>j. j < 5 \<Longrightarrow> seated t' j"
  shows "dining_inv t'"
  using assms by (simp add: dining_inv_def apart_def blocked_by_def)

lemma enter_inv:
  assumes inv: "dining_inv t" and i: "i < 5" "place_of t i = P_Think \<and> got = P_Take \<and> blocked = P_WaitTake
      \<or> place_of t i = P_Eat \<and> got = P_Put \<and> blocked = P_WaitPut"
  shows "dining_inv (down_mutex i got blocked t)"
proof -
  let ?t = "down_mutex i got blocked t"
  have ex: "exclusive t" and th: "\<And>j. j < 5 \<Longrightarrow> seated t j" using inv by (simp_all add: dining_inv_def)
  have n: "place_of t i \<notin> {P_Take, P_Put, P_WaitTake, P_WaitPut}" using i(2) by auto
  have p: "(got, blocked) \<in> {(P_Take, P_WaitTake), (P_Put, P_WaitPut)}" using i(2) by auto
  note E = enter_mutex [OF ex i(1) n p]
  have "seated ?t j" if j: "j < 5" for j
  proof (cases "j = i")
    case True
    then show ?thesis using th [OF i(1)] E(2-4) i(2) by (auto simp: seated_def)
  next
    case False
    then show ?thesis using th [OF j] E(2,3) E(5) [OF False] by (simp add: seated_def)
  qed
  then show ?thesis by (rule frame_inv [OF inv E(1,2)])
qed

lemma down_phil_inv:
  assumes inv: "dining_inv t" and i: "i < 5" and p: "place_of t i = P_Taken"
  shows "dining_inv (down_phil i t)"
proof -
  let ?t = "down_phil i t"
  have th: "seated t j" if "j < 5" for j using inv that by (simp add: dining_inv_def)
  have d: "state_sema ?t = state_sema t" "mutex ?t = mutex t"
    "place_of ?t j = (if j = i then if fst (phil_sem t i) > 0 then P_Eat else P_WaitFork else place_of t j)"
    "j \<noteq> i \<Longrightarrow> phil_sem ?t j = phil_sem t j" for j
    by (simp_all add: down_phil_def asem_down_def)
  have "inside ?t = inside t" "outside ?t = outside t" using p d(3) by (auto simp: inside_def outside_def)
  then have "exclusive ?t" using inv d by (simp add: dining_inv_def exclusive_def)
  moreover have "seated ?t j" if j: "j < 5" for j
  proof (cases "j = i")
    case True
    then show ?thesis using th [OF i] p by (auto simp: seated_def down_phil_def asem_down_def)
  next
    case False
    then show ?thesis using th [OF j] d by (simp add: seated_def)
  qed
  ultimately show ?thesis by (intro frame_inv [OF inv]) (simp_all add: d)
qed

lemma iter_inv: "dining_inv (t\<lparr>iter := f\<rparr>) \<longleftrightarrow> dining_inv t"
  by (simp add: dining_inv_def seated_def exclusive_def inside_def outside_def apart_def blocked_by_def)

lemma quit_inv:
  assumes inv: "dining_inv t" and i: "i < 5" and p: "place_of t i = P_Think"
  shows "dining_inv (t\<lparr>place_of := (place_of t)(i := P_Quit)\<rparr>)"
proof -
  let ?t = "t\<lparr>place_of := (place_of t)(i := P_Quit)\<rparr>"
  have th: "seated t j" if "j < 5" for j using inv that by (simp add: dining_inv_def)
  have "inside ?t = inside t" "outside ?t = outside t" using p by (auto simp: inside_def outside_def)
  then have "exclusive ?t" using inv by (simp add: dining_inv_def exclusive_def)
  moreover have "seated ?t j" if "j < 5" for j using th [OF that] p by (auto simp: seated_def)
  ultimately show ?thesis by (intro frame_inv [OF inv]) simp_all
qed

lemma step_inv:
  assumes "phil_step t t'" and "dining_inv t"
  shows "dining_inv t'"
  using assms
proof (induction rule: phil_step.induct)
  case (quit i t)
  then show ?case using quit_inv [of "t\<lparr>iter := (iter t)(i := iter t i + 1)\<rparr>" i] by (simp add: iter_inv)
qed (simp_all add: enter_inv take_inv put_inv down_phil_inv iter_inv)

lemma reachable_inv: "phil_step\<^sup>*\<^sup>* dining_init t \<Longrightarrow> dining_inv t"
  by (induction rule: rtranclp_induct) (auto intro: init_inv step_inv)

text \<open>
  C28: two neighbours never eat at the same time, and never is more than one philosopher inside the
  critical section of \<^verbatim>\<open>mutex\<close>, whatever the order in which the threads run.
\<close>

theorem philosophers_exclusive:
  assumes "phil_step\<^sup>*\<^sup>* dining_init t" and "i < 5" and "j < 5"
  shows "\<not> (place_of t i \<in> {P_Eat, P_WaitPut} \<and> place_of t (RIGHT i) \<in> {P_Eat, P_WaitPut})
    \<and> \<not> (i \<noteq> j \<and> place_of t i \<in> {P_Take, P_Put} \<and> place_of t j \<in> {P_Take, P_Put})"
proof (intro conjI)
  have inv: "dining_inv t" by (rule reachable_inv [OF assms(1)])
  have "seated t i" "seated t (RIGHT i)" using inv assms(2) by (simp_all add: dining_inv_def)
  moreover have "state_sema t i = EATING \<longrightarrow> state_sema t (RIGHT i) \<noteq> EATING"
    using inv assms(2) by (simp add: dining_inv_def apart_def)
  ultimately show "\<not> (place_of t i \<in> {P_Eat, P_WaitPut} \<and> place_of t (RIGHT i) \<in> {P_Eat, P_WaitPut})"
    by (auto simp: seated_def)
  show "\<not> (i \<noteq> j \<and> place_of t i \<in> {P_Take, P_Put} \<and> place_of t j \<in> {P_Take, P_Put})"
    using inv assms(2,3) inside_only [of t] by (metis dining_inv_def singleton_inject)
qed

lemma demo_eats:
  "\<exists>t. phil_step\<^sup>*\<^sup>* dining_init t \<and> place_of t 0 = P_Eat"
proof -
  let ?a = "down_mutex 0 P_Take P_WaitTake (dining_init\<lparr>iter := (iter dining_init)(0 := iter dining_init 0 + 1)\<rparr>)"
  let ?b = "phi_take_forks_sema 0 ?a"
  let ?c = "down_phil 0 ?b"
  have "phil_step dining_init ?a" by (rule phil_step.think) (simp_all add: dining_init_def layout)
  moreover have "phil_step ?a ?b" by (rule phil_step.take) (simp_all add: down_mutex_def asem_down_def dining_init_def)
  moreover have "phil_step ?b ?c" by (rule phil_step.fork) (simp_all add: phi_take_forks_sema_def Let_def)
  moreover have "place_of ?c 0 = P_Eat"
    by (simp add: down_phil_def asem_down_def phi_take_forks_sema_def phi_test_sema_def up_phil_def asem_up_def let_go_def
        up_mutex_def down_mutex_def dining_init_def LEFT_def RIGHT_def)
  ultimately show ?thesis by (meson converse_rtranclp_into_rtranclp rtranclp.rtrancl_refl)
qed

theorem philosophers_exclusive_witness:
  "\<exists>t. phil_step\<^sup>*\<^sup>* dining_init t \<and> place_of t 0 = P_Eat \<and> place_of t 1 \<noteq> P_Eat"
proof -
  obtain t where t: "phil_step\<^sup>*\<^sup>* dining_init t" "place_of t 0 = P_Eat" using demo_eats by blast
  from philosophers_exclusive [OF t(1), of 0 0] t show ?thesis by (auto simp: RIGHT_def)
qed

section \<open>No deadlock, and an end\<close>

lemma someone_moves:
  assumes inv: "dining_inv t" and i: "i < 5" "place_of t i \<noteq> P_Quit"
  shows "\<exists>t'. phil_step t t'"
proof (rule ccontr)
  assume no: "\<nexists>t'. phil_step t t'"
  have stuck: "place_of t j \<in> {P_WaitTake, P_WaitFork, P_WaitPut, P_Quit}" if "j < 5" for j
    using no that by (cases "iter t j < TIMES"; cases "place_of t j"; auto intro: phil_step.intros)
  then have "inside t = {}" by (fastforce simp: inside_def)
  then have "outside t = {}" using inv by (auto simp: dining_inv_def exclusive_def)
  then have w: "place_of t j \<in> {P_WaitFork, P_Quit}" if "j < 5" for j
    using stuck [OF that] that by (auto simp: outside_def)
  have ph: "state_sema t j \<in> {HUNGRY, THINKING}" if "j < 5" for j
    using w [OF that] inv that by (auto simp: dining_inv_def seated_def)
  have "state_sema t i = HUNGRY" using w [OF i(1)] i inv by (auto simp: dining_inv_def seated_def)
  then have "state_sema t (LEFT i) = EATING \<or> state_sema t (RIGHT i) = EATING"
    using inv i(1) by (simp add: dining_inv_def blocked_by_def)
  then show False using ph [of "LEFT i"] ph [of "RIGHT i"] i(1) by auto
qed

text \<open>The work left: every step of a thread uses some of it up.\<close>

fun rank :: "place \<Rightarrow> nat" where
  "rank P_Quit = 0"
| "rank P_Think = 1"
| "rank P_Put = 2"
| "rank P_WaitPut = 3"
| "rank P_Eat = 4"
| "rank P_WaitFork = 5"
| "rank P_Taken = 6"
| "rank P_Take = 7"
| "rank P_WaitTake = 8"

definition work1 :: "dining \<Rightarrow> nat \<Rightarrow> nat" where
  "work1 t i = 10 * (TIMES - iter t i) + rank (place_of t i)"

definition work :: "dining \<Rightarrow> nat" where
  "work t = (\<Sum>i<5. work1 t i)"

lemma rank_go_on: "rank (go_on p) \<le> rank p"
  by (cases p) simp_all

lemma let_go_work: "work1 (let_go w t) j \<le> work1 t j"
  by (auto simp: let_go_def work1_def rank_go_on split: option.splits)

lemma work1_fields [simp]:
  "work1 (t\<lparr>mutex := a\<rparr>) j = work1 t j" "work1 (t\<lparr>phil_sem := f\<rparr>) j = work1 t j" "work1 (t\<lparr>state_sema := p\<rparr>) j = work1 t j"
  by (simp_all add: work1_def)

lemma up_mutex_work: "work1 (up_mutex t) j \<le> work1 t j"
  using let_go_work [of _ "t\<lparr>mutex := _\<rparr>" j] by (simp add: up_mutex_def split: prod.split)

lemma up_phil_work: "work1 (up_phil i t) j \<le> work1 t j"
  using let_go_work [of _ "t\<lparr>phil_sem := _\<rparr>" j] by (simp add: up_phil_def split: prod.split)

lemma test_work: "work1 (phi_test_sema i t) j \<le> work1 t j"
  using up_phil_work [of i "t\<lparr>state_sema := (state_sema t)(i := EATING)\<rparr>" j] by (simp add: phi_test_sema_def)

lemma iter_up [simp]:
  "iter (up_mutex t) = iter t" "iter (phi_test_sema i t) = iter t"
  by (auto simp: up_mutex_def phi_test_sema_def up_phil_def let_go_def split: prod.splits option.splits)

lemma work_less:
  assumes "i < 5" and "work1 t' i < work1 t i" and "\<And>j. j \<noteq> i \<Longrightarrow> work1 t' j \<le> work1 t j"
  shows "work t' < work t"
  unfolding work_def
proof (rule sum_strict_mono_ex1)
  show "\<forall>j\<in>{..<5}. work1 t' j \<le> work1 t j" using assms(2,3) by (metis less_imp_le)
  show "\<exists>j\<in>{..<5}. work1 t' j < work1 t j" using assms(1,2) by auto
qed simp

lemma set_place_work:
  assumes "\<And>j. work1 u j \<le> work1 t j" and "iter u = iter t" and "rank p < rank (place_of t i)" and "i < 5"
  shows "work (u\<lparr>place_of := (place_of u)(i := p)\<rparr>) < work t"
proof (rule work_less [OF assms(4)])
  show "work1 (u\<lparr>place_of := (place_of u)(i := p)\<rparr>) i < work1 t i" using assms by (simp add: work1_def)
  show "work1 (u\<lparr>place_of := (place_of u)(i := p)\<rparr>) j \<le> work1 t j" if "j \<noteq> i" for j
    using assms(1) [of j] that by (simp add: work1_def)
qed

lemma step_work: "phil_step t t' \<Longrightarrow> work t' < work t"
proof (induction rule: phil_step.induct)
  case (think i t)
  then show ?case by (intro work_less [of i]) (auto simp: down_mutex_def work1_def asem_down_def split: if_splits)
next
  case (quit i t)
  then show ?case by (intro work_less [of i]) (auto simp: work1_def)
next
  case (take i t)
  define h where "h = t\<lparr>state_sema := (state_sema t)(i := HUNGRY)\<rparr>"
  have "work1 (up_mutex (phi_test_sema i h)) j \<le> work1 t j" for j
    using up_mutex_work [of "phi_test_sema i h" j] test_work [of i h j] by (simp add: h_def)
  then show ?case using take set_place_work [of "up_mutex (phi_test_sema i h)" t P_Taken i]
    by (simp add: phi_take_forks_sema_def h_def Let_def)
next
  case (fork i t)
  then show ?case by (intro work_less [of i]) (auto simp: down_phil_def work1_def asem_down_def split: if_splits)
next
  case (eat i t)
  then show ?case by (intro work_less [of i]) (auto simp: down_mutex_def work1_def asem_down_def split: if_splits)
next
  case (put i t)
  define h where "h = t\<lparr>state_sema := (state_sema t)(i := THINKING)\<rparr>"
  define e where "e = phi_test_sema (RIGHT i) (phi_test_sema (LEFT i) h)"
  have "work1 (up_mutex e) j \<le> work1 t j" for j
    using up_mutex_work [of e j] test_work [of "RIGHT i" "phi_test_sema (LEFT i) h" j] test_work [of "LEFT i" h j]
    by (simp add: e_def h_def)
  then show ?case using put set_place_work [of "up_mutex e" t P_Think i]
    by (simp add: phi_put_forks_sema_def h_def e_def Let_def)
qed

definition iter_ok :: "dining \<Rightarrow> bool" where
  "iter_ok t \<longleftrightarrow> (\<forall>i<5. if place_of t i = P_Quit then iter t i = TIMES + 1 else iter t i \<le> TIMES)"

lemma go_on_quit [simp]: "go_on p = P_Quit \<longleftrightarrow> p = P_Quit"
  by (cases p) simp_all

lemma up_quit [simp]:
  "place_of (up_mutex t) i = P_Quit \<longleftrightarrow> place_of t i = P_Quit"
  "place_of (phi_test_sema j t) i = P_Quit \<longleftrightarrow> place_of t i = P_Quit"
  by (auto simp: up_mutex_def phi_test_sema_def up_phil_def let_go_def split: prod.splits option.splits)

lemma step_iter: "phil_step t t' \<Longrightarrow> iter_ok t \<Longrightarrow> iter_ok t'"
proof (induction rule: phil_step.induct)
  case (think i t)
  then show ?case by (fastforce simp: iter_ok_def down_mutex_def asem_down_def)
next
  case (quit i t)
  then show ?case by (fastforce simp: iter_ok_def)
next
  case (take i t)
  then show ?case by (fastforce simp: iter_ok_def phi_take_forks_sema_def Let_def)
next
  case (fork i t)
  then show ?case by (fastforce simp: iter_ok_def down_phil_def asem_down_def)
next
  case (eat i t)
  then show ?case by (fastforce simp: iter_ok_def down_mutex_def asem_down_def)
next
  case (put i t)
  then show ?case by (fastforce simp: iter_ok_def phi_put_forks_sema_def Let_def)
qed

lemma reachable_iter: "phil_step\<^sup>*\<^sup>* dining_init t \<Longrightarrow> iter_ok t"
proof (induction rule: rtranclp_induct)
  case base
  then show ?case by (simp add: iter_ok_def dining_init_def)
qed (rule step_iter)

text \<open>
  C29: every run of the philosophers ends, after at most 205 steps, and it can only end when all five
  have gone through their four rounds and quit: no deadlock, and no starvation.
\<close>

theorem philosophers_finish:
  assumes "(phil_step ^^ n) dining_init t"
  shows "n \<le> 205 \<and> ((\<nexists>t'. phil_step t t') \<longleftrightarrow> (\<forall>i<5. place_of t i = P_Quit))
    \<and> ((\<nexists>t'. phil_step t t') \<longrightarrow> (\<forall>i<5. iter t i = TIMES + 1))"
proof -
  have "(phil_step ^^ n) s t \<Longrightarrow> n + work t \<le> work s" for s
    by (induction n arbitrary: t) (fastforce dest: step_work)+
  from this [OF assms] have n: "n \<le> 205" by (simp add: work_def work1_def dining_init_def layout)
  have r: "phil_step\<^sup>*\<^sup>* dining_init t" using assms by (metis rtranclp_power)
  have "\<not> phil_step t t'" if q: "\<forall>i<5. place_of t i = P_Quit" for t'
    using q by (auto elim!: phil_step.cases)
  then have "(\<nexists>t'. phil_step t t') \<longleftrightarrow> (\<forall>i<5. place_of t i = P_Quit)"
    using someone_moves [OF reachable_inv [OF r]] by blast
  with n reachable_iter [OF r] show ?thesis by (simp add: iter_ok_def)
qed

theorem philosophers_finish_witness:
  "\<exists>t. (phil_step ^^ 1) dining_init t \<and> \<not> (\<forall>i<5. place_of t i = P_Quit) \<and> (\<exists>t'. phil_step t t')"
proof -
  let ?a = "down_mutex 0 P_Take P_WaitTake (dining_init\<lparr>iter := (iter dining_init)(0 := iter dining_init 0 + 1)\<rparr>)"
  have "phil_step dining_init ?a" by (rule phil_step.think) (simp_all add: dining_init_def layout)
  then have r: "(phil_step ^^ 1) dining_init ?a" by (simp add: eq_OO)
  have "\<not> (\<forall>i<5. place_of ?a i = P_Quit)"
    by (auto simp: down_mutex_def asem_down_def dining_init_def intro!: exI [of _ 0])
  with philosophers_finish [OF r] r show ?thesis by blast
qed

end
