(* ===== verification/ListRings.thy ===== *)
theory ListRings
  imports DList
begin

text \<open>
  Several circular lists in one store of list entries, as the free lists of the buddy allocator and the
  slab lists of the SLUB allocator: the rings have no entry in common, so an operation on one of them
  leaves the others alone.
\<close>

definition rings :: "nat \<Rightarrow> links \<Rightarrow> (nat \<Rightarrow> nat) \<Rightarrow> (nat \<Rightarrow> nat list) \<Rightarrow> bool" where
  "rings n l hs xs \<longleftrightarrow> (\<forall>k<n. clist l (hs k) (xs k)) \<and>
     (\<forall>j<n. \<forall>k<n. j \<noteq> k \<longrightarrow> set (hs j # xs j) \<inter> set (hs k # xs k) = {})"

lemma rings_update:
  assumes r: "rings n l hs xs" and k: "k < n" and c: "clist l' (hs k) ys"
    and same: "\<And>e. e \<notin> A \<Longrightarrow> nxt l' e = nxt l e \<and> prv l' e = prv l e"
    and A: "\<And>j. j < n \<Longrightarrow> j \<noteq> k \<Longrightarrow> set (hs j # xs j) \<inter> A = {}" and ys: "set ys \<subseteq> A"  and h: "hs k \<in> A"
  shows "rings n l' hs (xs(k := ys))"
  unfolding rings_def
proof (intro conjI allI impI)
  fix j :: nat assume j: "j < n"
  show "clist l' (hs j) ((xs(k := ys)) j)"
  proof (cases "j = k")
    case False
    have "clist l (hs j) (xs j)" using r j by (simp add: rings_def)
    then have "clist l' (hs j) (xs j)"
      by (rule clist_frame) (use same A [OF j False] in blast)
    then show ?thesis using False by simp
  qed (use c in simp)
  fix i :: nat assume i: "i < n" and ji: "j \<noteq> i"
  have "set (hs j # xs j) \<inter> set (hs i # xs i) = {}" using r i j ji by (simp add: rings_def)
  then show "set (hs j # (xs(k := ys)) j) \<inter> set (hs i # (xs(k := ys)) i) = {}"
    using A [OF j] A [OF i] ys h ji by (cases "j = k"; cases "i = k") auto
qed

lemma rings_add:
  assumes r: "rings n l hs xs" and k: "k < n" and e: "\<And>j. j < n \<Longrightarrow> e \<notin> set (hs j # xs j)"
  shows "rings n (list_add (hs k) e l) hs (xs(k := e # xs k))"
proof (rule rings_update [OF r k, where A = "insert e (set (hs k # xs k))"])
  have c: "clist l (hs k) (xs k)" using r k by (simp add: rings_def)
  show "clist (list_add (hs k) e l) (hs k) (e # xs k)"
    using clist_add_after [of l "hs k" "[]" "xs k" e] c e [OF k] by (simp add: list_add_def)
  have n: "nxt l (hs k) \<in> set (hs k # xs k)"
    using clist_next_head [OF c] by (cases "xs k") (auto simp: list_next_def)
  show "nxt (list_add (hs k) e l) a = nxt l a \<and> prv (list_add (hs k) e l) a = prv l a"
    if "a \<notin> insert e (set (hs k # xs k))" for a
    using that n by (auto simp: list_h_defs)
  show "set (hs j # xs j) \<inter> insert e (set (hs k # xs k)) = {}" if "j < n" "j \<noteq> k" for j
  proof -
    have "set (hs j # xs j) \<inter> set (hs k # xs k) = {}" using r k that unfolding rings_def by blast
    then show ?thesis using e [OF that(1)] by blast
  qed
qed auto

lemma rings_del:
  assumes r: "rings n l hs xs" and k: "k < n" and x: "xs k = ys @ e # zs"
  shows "rings n (list_del e l) hs (xs(k := ys @ zs))"
proof (rule rings_update [OF r k, where A = "set (hs k # xs k)"])
  have c: "clist l (hs k) (ys @ e # zs)" using r k x unfolding rings_def by metis
  show "clist (list_del e l) (hs k) (ys @ zs)" by (rule clist_del [OF c])
  have "list_next e l \<in> set (hs k # xs k)" using clist_next [OF c] x by (cases zs; simp)
  moreover have "list_prev e l \<in> set (hs k # xs k)" using clist_prev [OF c] x by (cases ys rule: rev_cases; simp)
  ultimately show "nxt (list_del e l) a = nxt l a \<and> prv (list_del e l) a = prv l a" if "a \<notin> set (hs k # xs k)" for a
    using that by (auto simp: list_h_defs)
  show "set (hs j # xs j) \<inter> set (hs k # xs k) = {}" if "j < n" "j \<noteq> k" for j
    using r k that unfolding rings_def by blast
qed (use x in auto)

lemma rings_pop: "rings n l hs xs \<Longrightarrow> k < n \<Longrightarrow> xs k = e # ys \<Longrightarrow> rings n (list_del e l) hs (xs(k := ys))"
  using rings_del [where ys = "[]"] by simp

lemma rings_nodes:
  assumes "rings n l hs xs" and "k < n" and "e \<in> set (xs k)" and "j < n"
  shows "e \<noteq> hs j" and "e \<in> set (xs j) \<Longrightarrow> j = k"
proof -
  have c: "clist l (hs k) (xs k)" using assms by (simp add: rings_def)
  have d: "j \<noteq> k \<Longrightarrow> set (hs j # xs j) \<inter> set (hs k # xs k) = {}" using assms unfolding rings_def by blast
  show "e \<noteq> hs j" using c d assms(3) by (cases "j = k") (auto simp: clist_def)
  show "e \<in> set (xs j) \<Longrightarrow> j = k" using d assms(3) by fastforce
qed

text \<open>Moving an entry to the front of another ring, or of its own.\<close>

lemma rings_move:
  assumes r: "rings n l hs xs" and k: "k < n" "j < n" and x: "xs k = ys @ e # zs"
  shows "rings n (list_add (hs j) e (list_del e l)) hs
    ((xs(k := ys @ zs))(j := e # (xs(k := ys @ zs)) j))"
proof (rule rings_add [OF rings_del [OF r k(1) x] k(2)])
  fix i assume i: "i < n"
  have e: "e \<in> set (xs k)" by (simp add: x)
  have "clist l (hs k) (xs k)" using r k by (simp add: rings_def)
  then have "e \<notin> set (ys @ zs)" by (simp add: x clist_def)
  then show "e \<notin> set (hs i # (xs(k := ys @ zs)) i)"
    using rings_nodes [OF r k(1) e i] by (cases "i = k") auto
qed

end
