(* ===== verification/Buddy.thy ===== *)
theory Buddy
  imports Paging ListRings
begin

text \<open>
  The buddy allocator of lab 2 (\<^verbatim>\<open>lab2/kern/mm/buddy_pmm.c\<close>): one free list and one counter for every
  order, over the page descriptors and list entries of \<open>free_area\<close>, whose own list head and counter it
  does not use. A page descriptor is named by its index in the array \<^verbatim>\<open>pages\<close>; an index past the end of
  the array reads the memory behind it.
\<close>

section \<open>State and operations\<close>

definition MAX_ORDER :: nat where [layout]: "MAX_ORDER = 20"

record free_buddy =
  frames :: free_area
  heads :: "nat \<Rightarrow> nat"
  counts :: "nat \<Rightarrow> u32"
  max_page :: u64

definition page_order :: "nat \<Rightarrow> free_buddy \<Rightarrow> u32" where
  "page_order p s = property (pages (frames s) p)"

definition set_page_order :: "nat \<Rightarrow> nat \<Rightarrow> free_buddy \<Rightarrow> free_buddy" where
  "set_page_order p k s = s\<lparr>frames := set_property p (of_nat k) (frames s)\<rparr>"

definition is_page_buddy_aligned :: "nat \<Rightarrow> nat \<Rightarrow> bool" where
  "is_page_buddy_aligned p k \<longleftrightarrow> drop_bit 12 (page2pa p) mod 2 ^ k = 0"

text \<open>The number of the buddy is a physical page number, and it indexes \<^verbatim>\<open>pages\<close> as it is.\<close>

definition get_buddy_page :: "nat \<Rightarrow> nat \<Rightarrow> free_buddy \<Rightarrow> nat option" where
  "get_buddy_page p k s =
     (let buddy_ppn = page2ppn p XOR push_bit k 1
      in if buddy_ppn \<ge> max_page s then None else Some (unat buddy_ppn))"

definition mark_block :: "nat \<Rightarrow> nat \<Rightarrow> free_buddy \<Rightarrow> free_buddy" where
  "mark_block p k s = (let s = set_page_order p k s in s\<lparr>frames := SetPageProperty p (frames s)\<rparr>)"

definition put_block :: "nat \<Rightarrow> nat \<Rightarrow> free_buddy \<Rightarrow> free_buddy option" where
  "put_block p k s = do {
     ensure (k < MAX_ORDER);
     Some (s\<lparr>frames := frames s\<lparr>free_links := list_add (heads s k) p (free_links (frames s))\<rparr>,
       counts := (counts s)(k := counts s k + 1)\<rparr>)
   }"

definition init_order :: "nat \<Rightarrow> free_buddy \<Rightarrow> free_buddy" where
  "init_order i s = s\<lparr>frames := frames s\<lparr>free_links := list_init (heads s i) (free_links (frames s))\<rparr>,
     counts := (counts s)(i := 0)\<rparr>"

definition buddy_init :: "free_buddy \<Rightarrow> free_buddy" where
  "buddy_init s = fold init_order [0..<MAX_ORDER] s"

fun reset_pages :: "nat \<Rightarrow> nat \<Rightarrow> free_area \<Rightarrow> free_area" where
  "reset_pages 0 p a = a"
| "reset_pages (Suc n) p a =
     reset_pages n (p + 1) (set_page_ref p 0 (upd_page p (\<lambda>g. g\<lparr>page_flags := 0, property := 0\<rparr>) a))"

function floor_order :: "nat \<Rightarrow> nat" where
  "floor_order n = (if n > 1 then Suc (floor_order (n div 2)) else 0)"
  by pat_completeness auto
termination by (relation "measure id") auto

declare floor_order.simps [simp del]

definition first_order :: "nat \<Rightarrow> nat" where
  "first_order n = (let k = floor_order n in if n \<noteq> 2 ^ k then k - 1 else k)"

function buddy_init_memmap :: "nat \<Rightarrow> nat \<Rightarrow> free_buddy \<Rightarrow> free_buddy option" where
  "buddy_init_memmap base n s =
     (if n = 0 then None
      else
        (let k = first_order n;
             s = s\<lparr>frames := reset_pages n base (frames s)\<rparr>;
             s = mark_block base k s;
             remaining = n - 2 ^ k
         in Option.bind (put_block base k s) (\<lambda>s.
              if remaining > 0 then buddy_init_memmap (base + 2 ^ k) remaining s else Some s)))"
  by pat_completeness auto
termination by (relation "measure (fst \<circ> snd)") auto

declare buddy_init_memmap.simps [simp del]

text \<open>
  The power is that of the naturals. \<^verbatim>\<open>1UL << order\<close> is the same up to order 63; for a request of more than
  \<^verbatim>\<open>2^63\<close> pages the code shifts by 64, which C leaves undefined, and the model refuses the request.
\<close>

function order_from :: "nat \<Rightarrow> nat \<Rightarrow> nat" where
  "order_from n k = (if 2 ^ k < n then order_from n (Suc k) else k)"
  by pat_completeness auto
termination
  by (relation "measure (\<lambda>(n, k). n - 2 ^ k)") (auto intro!: diff_less_mono2)

declare order_from.simps [simp del]

text \<open>A block of order \<open>cur\<close> is halved down to \<open>order\<close>; the upper halves go to their lists.\<close>

fun split_block :: "nat \<Rightarrow> nat \<Rightarrow> nat \<Rightarrow> free_buddy \<Rightarrow> free_buddy option" where
  "split_block order 0 p s = Some s"
| "split_block order (Suc cur) p s =
     (if Suc cur > order
      then do {
        let b = p + 2 ^ cur;
        s \<leftarrow> put_block b cur (mark_block b cur s);
        split_block order cur p s
      }
      else Some s)"

definition take_from :: "nat \<Rightarrow> nat \<Rightarrow> free_buddy \<Rightarrow> (nat option \<times> free_buddy) option" where
  "take_from order cur s = do {
     let p = list_next (heads s cur) (free_links (frames s));
     let s = s\<lparr>frames := frames s\<lparr>free_links := list_del p (free_links (frames s))\<rparr>,
       counts := (counts s)(cur := counts s cur - 1)\<rparr>;
     s \<leftarrow> split_block order cur p s;
     Some (Some p, s\<lparr>frames := ClearPageProperty p (frames s)\<rparr>)
   }"

function find_order_block :: "nat \<Rightarrow> nat \<Rightarrow> free_buddy \<Rightarrow> (nat option \<times> free_buddy) option" where
  "find_order_block order cur s =
     (if cur < MAX_ORDER then
        if \<not> list_empty (heads s cur) (free_links (frames s)) then take_from order cur s
        else find_order_block order (cur + 1) s
      else Some (None, s))"
  by pat_completeness auto
termination by (relation "measure (\<lambda>(order, cur, s). MAX_ORDER - cur)") auto

declare find_order_block.simps [simp del]

definition buddy_alloc_pages :: "nat \<Rightarrow> free_buddy \<Rightarrow> (nat option \<times> free_buddy) option" where
  "buddy_alloc_pages n s = do {
     ensure (n > 0);
     let order = order_from n 0;
     find_order_block order order s
   }"

function merge_buddies :: "nat \<Rightarrow> nat \<Rightarrow> free_buddy \<Rightarrow> nat \<times> nat \<times> free_buddy" where
  "merge_buddies base order s =
     (if order < MAX_ORDER - 1 then
        (case get_buddy_page base order s of
           None \<Rightarrow> (base, order, s)
         | Some buddy \<Rightarrow>
           if PageProperty buddy (frames s) \<and> page_order buddy s = of_nat order then
             (let s = s\<lparr>frames := frames s\<lparr>free_links := list_del buddy (free_links (frames s))\<rparr>,
                    counts := (counts s)(order := counts s order - 1)\<rparr>;
                  s = s\<lparr>frames := ClearPageProperty buddy (frames s)\<rparr>;
                  base = (if buddy < base then buddy else base)
              in merge_buddies base (order + 1) (set_page_order base (order + 1) s))
           else (base, order, s))
      else (base, order, s))"
  by pat_completeness auto
termination by (relation "measure (\<lambda>(base, order, s). MAX_ORDER - order)") (auto simp: layout)

declare merge_buddies.simps [simp del]

definition buddy_free_pages :: "nat \<Rightarrow> nat \<Rightarrow> free_buddy \<Rightarrow> free_buddy option" where
  "buddy_free_pages base n s = do {
     ensure (n > 0);
     let order = order_from n 0;
     let s = mark_block base order s;
     let (base, order, s) = merge_buddies base order s;
     put_block base order s
   }"

definition buddy_nr_free_pages :: "free_buddy \<Rightarrow> u64" where
  "buddy_nr_free_pages s = fold (\<lambda>i total. total + ucast (counts s i) * 2 ^ i) [0..<MAX_ORDER] 0"

section \<open>Invariant\<close>

definition bset :: "nat \<Rightarrow> nat \<Rightarrow> nat set" where
  "bset k x = {x..<x + 2 ^ k}"

text \<open>\<open>xs k\<close> are the free blocks of order \<open>k\<close>; together they are the free pages \<open>F\<close>.\<close>

definition orders_marked :: "free_buddy \<Rightarrow> (nat \<Rightarrow> nat list) \<Rightarrow> bool" where
  "orders_marked s xs \<longleftrightarrow> (\<forall>k<20. \<forall>x\<in>set (xs k). PageProperty x (frames s) \<and> page_order x s = of_nat k)"

definition orders_apart :: "(nat \<Rightarrow> nat list) \<Rightarrow> bool" where
  "orders_apart xs \<longleftrightarrow>
     (\<forall>j<20. \<forall>k<20. \<forall>x\<in>set (xs j). \<forall>y\<in>set (xs k). (j, x) \<noteq> (k, y) \<longrightarrow> bset j x \<inter> bset k y = {})"

definition free_set :: "(nat \<Rightarrow> nat list) \<Rightarrow> nat set" where
  "free_set xs = (\<Union>k<20. \<Union>x\<in>set (xs k). bset k x)"

definition buddy_inv :: "free_buddy \<Rightarrow> (nat \<Rightarrow> nat list) \<Rightarrow> nat set \<Rightarrow> bool" where
  "buddy_inv s xs F \<longleftrightarrow> rings 20 (free_links (frames s)) (heads s) xs \<and>
     orders_marked s xs \<and> orders_apart xs \<and> F = free_set xs \<and> (\<forall>k<20. heads s k \<notin> F) \<and>
     (\<forall>k<20. counts s k = of_nat (length (xs k)))"

lemma buddy_invD:
  assumes "buddy_inv s xs F"
  shows "rings 20 (free_links (frames s)) (heads s) xs"
    and "k < 20 \<Longrightarrow> x \<in> set (xs k) \<Longrightarrow> PageProperty x (frames s)"
    and "k < 20 \<Longrightarrow> x \<in> set (xs k) \<Longrightarrow> page_order x s = of_nat k"
    and "j < 20 \<Longrightarrow> k < 20 \<Longrightarrow> x \<in> set (xs j) \<Longrightarrow> y \<in> set (xs k) \<Longrightarrow> (j, x) \<noteq> (k, y) \<Longrightarrow> bset j x \<inter> bset k y = {}"
    and "F = free_set xs" and "k < 20 \<Longrightarrow> heads s k \<notin> F"
    and "k < 20 \<Longrightarrow> counts s k = of_nat (length (xs k))"
proof -
  from assms have m: "orders_marked s xs" and a: "orders_apart xs" by (simp_all add: buddy_inv_def)
  from assms show "rings 20 (free_links (frames s)) (heads s) xs" and "F = free_set xs"
    and "k < 20 \<Longrightarrow> heads s k \<notin> F" and "k < 20 \<Longrightarrow> counts s k = of_nat (length (xs k))"
    by (auto simp: buddy_inv_def)
  show "k < 20 \<Longrightarrow> x \<in> set (xs k) \<Longrightarrow> PageProperty x (frames s)"
    "k < 20 \<Longrightarrow> x \<in> set (xs k) \<Longrightarrow> page_order x s = of_nat k" using m by (simp_all add: orders_marked_def)
  show "j < 20 \<Longrightarrow> k < 20 \<Longrightarrow> x \<in> set (xs j) \<Longrightarrow> y \<in> set (xs k) \<Longrightarrow> (j, x) \<noteq> (k, y) \<Longrightarrow> bset j x \<inter> bset k y = {}"
    using a by (auto simp: orders_apart_def)
qed

lemma free_set_upd:
  assumes "k < 20"
  shows "free_set (xs(k := ys)) = (\<Union>j\<in>{..<20} - {k}. \<Union>x\<in>set (xs j). bset j x) \<union> (\<Union>x\<in>set ys. bset k x)"
proof -
  have ins: "{..<20} = insert k ({..<20} - {k})" using assms by auto
  have "(\<Union>x\<in>set ((xs(k := ys)) j). bset j x) = (\<Union>x\<in>set (xs j). bset j x)" if "j \<in> {..<20} - {k}" for j
    using that by simp
  then show ?thesis unfolding free_set_def by (subst ins) (simp only: UN_insert fun_upd_same Un_commute cong: SUP_cong)
qed

lemma free_set_cons:
  assumes k: "k < 20" and x: "xs k = p # ys"
  shows "free_set xs = free_set (xs(k := ys)) \<union> bset k p"
proof -
  have "free_set xs = free_set (xs(k := p # ys))" using x by (simp add: fun_upd_idem)
  then show ?thesis unfolding free_set_upd [OF k] by auto
qed

lemma in_bset [simp]: "x \<in> bset k x"
  by (simp add: bset_def)

lemma block_free:
  assumes "buddy_inv s xs F" and "k < 20" and "x \<in> set (xs k)"
  shows "bset k x \<subseteq> F" and "x \<in> F"
proof -
  show "bset k x \<subseteq> F" using assms(2,3) unfolding buddy_invD(5) [OF assms(1)] free_set_def by blast
  then show "x \<in> F" using in_bset by blast
qed

lemma mark_block_simps [simp]:
  "free_links (frames (mark_block p k s)) = free_links (frames s)" "heads (mark_block p k s) = heads s"
  "counts (mark_block p k s) = counts s" "max_page (mark_block p k s) = max_page s"
  "PageProperty q (frames (mark_block p k s)) \<longleftrightarrow> q = p \<or> PageProperty q (frames s)"
  "page_order q (mark_block p k s) = (if q = p then of_nat k else page_order q s)"
  by (simp_all add: mark_block_def set_page_order_def page_order_def)
    (simp add: set_property_def SetPageProperty_def)

definition pushed :: "nat \<Rightarrow> nat \<Rightarrow> free_buddy \<Rightarrow> free_buddy" where
  "pushed p k s = s\<lparr>frames := frames s\<lparr>free_links := list_add (heads s k) p (free_links (frames s))\<rparr>,
     counts := (counts s)(k := counts s k + 1)\<rparr>"

lemma put_block_pushed: "k < 20 \<Longrightarrow> put_block p k s = Some (pushed p k s)"
  by (simp add: put_block_def pushed_def layout)

lemma pushed_simps [simp]:
  "heads (pushed p k s) = heads s" "max_page (pushed p k s) = max_page s"
  "PageProperty q (frames (pushed p k s)) = PageProperty q (frames s)" "page_order q (pushed p k s) = page_order q s"
  by (simp_all add: pushed_def page_order_def)

text \<open>A block outside the free pages enters its list.\<close>

lemma push_inv:
  assumes inv: "buddy_inv s xs F" and k: "k < 20" and new: "bset k p \<inter> F = {}"
    and hd: "\<And>j. j < 20 \<Longrightarrow> heads s j \<notin> bset k p"
  shows "buddy_inv (pushed p k (mark_block p k s)) (xs(k := p # xs k)) (F \<union> bset k p)"
proof -
  note D = buddy_invD [OF inv]
  let ?s = "pushed p k (mark_block p k s)" and ?xs = "xs(k := p # xs k)"
  have pF: "p \<notin> F" using new in_bset by blast
  have ne: "x \<noteq> p" if "j < 20" "x \<in> set (xs j)" for j x using block_free(2) [OF inv that] pF by blast
  have "p \<notin> set (heads s j # xs j)" if "j < 20" for j
    using hd [OF that] ne [OF that] in_bset [of p k] by auto
  then have "rings 20 (list_add (heads s k) p (free_links (frames s))) (heads s) ?xs" by (rule rings_add [OF D(1) k])
  then have r: "rings 20 (free_links (frames ?s)) (heads ?s) ?xs" by (simp add: pushed_def)
  have mem: "x \<in> set (?xs j) \<longleftrightarrow> x \<in> set (xs j) \<or> j = k \<and> x = p" for x j by auto
  have apart: "bset j x \<inter> bset k p = {}" if "j < 20" "x \<in> set (xs j)" for j x
    using block_free(1) [OF inv that] new by blast
  show ?thesis
    unfolding buddy_inv_def orders_marked_def orders_apart_def
  proof (intro conjI allI ballI impI)
    show "rings 20 (free_links (frames ?s)) (heads ?s) ?xs" by (rule r)
    fix j :: nat assume j: "j < 20"
    show "PageProperty x (frames ?s)" "page_order x ?s = of_nat j" if "x \<in> set (?xs j)" for x
      using that D(2,3) [OF j, of x] ne [OF j, of x] by (auto split: if_splits)
    show "bset j x \<inter> bset i y = {}"
      if "i < 20" "x \<in> set (?xs j)" "y \<in> set (?xs i)" "(j, x) \<noteq> (i, y)" for i x y
      using that D(4) [OF j that(1), of x y] apart [OF j, of x] apart [OF that(1), of y] unfolding mem by blast
    have "heads s j \<notin> F" "heads s j \<notin> bset k p" using D(6) [OF j] hd [OF j] by auto
    then show "heads ?s j \<notin> F \<union> bset k p" by simp
    show "counts ?s j = of_nat (length (?xs j))" using D(7) [OF j] by (cases "j = k") (simp_all add: pushed_def)
  next
    show "F \<union> bset k p = free_set ?xs"
      using free_set_cons [OF k, of ?xs p "xs k"] D(5) by simp
  qed
qed

definition popped :: "nat \<Rightarrow> nat \<Rightarrow> free_buddy \<Rightarrow> free_buddy" where
  "popped p k s = s\<lparr>frames := frames s\<lparr>free_links := list_del p (free_links (frames s))\<rparr>,
     counts := (counts s)(k := counts s k - 1)\<rparr>"

lemma pop_inv:
  assumes inv: "buddy_inv s xs F" and k: "k < 20" and x: "xs k = p # ys"
  shows "buddy_inv (popped p k s) (xs(k := ys)) (F - bset k p)"
proof -
  note D = buddy_invD [OF inv]
  let ?s = "popped p k s" and ?xs = "xs(k := ys)"
  have r: "rings 20 (free_links (frames ?s)) (heads ?s) ?xs"
    using rings_pop [OF D(1) k x] by (simp add: popped_def)
  have "clist (free_links (frames s)) (heads s k) (xs k)" using D(1) k by (simp add: rings_def)
  then have py: "p \<notin> set ys" using x by (simp add: clist_def)
  have mem: "x \<in> set (?xs j) \<Longrightarrow> x \<in> set (xs j) \<and> (j, x) \<noteq> (k, p)" for x j using x py by (auto split: if_splits)
  have p: "p \<in> set (xs k)" using x by simp
  show ?thesis
    unfolding buddy_inv_def orders_marked_def orders_apart_def
  proof (intro conjI allI ballI impI)
    show "rings 20 (free_links (frames ?s)) (heads ?s) ?xs" by (rule r)
    fix j :: nat assume j: "j < 20"
    show "PageProperty x (frames ?s)" "page_order x ?s = of_nat j" if "x \<in> set (?xs j)" for x
      using D(2,3) [OF j] mem [OF that] by (simp_all add: popped_def page_order_def)
    show "bset j x \<inter> bset i y = {}"
      if "i < 20" "x \<in> set (?xs j)" "y \<in> set (?xs i)" "(j, x) \<noteq> (i, y)" for i x y
      using that mem D(4) [OF j that(1)] by blast
    show "heads ?s j \<notin> F - bset k p" using D(6) [OF j] by (simp add: popped_def)
    show "counts ?s j = of_nat (length (?xs j))" using D(7) [OF j] x by (cases "j = k") (simp_all add: popped_def)
  next
    have "bset j x \<inter> bset k p = {}" if "j < 20" "x \<in> set (?xs j)" for j x
      using D(4) [OF that(1) k _ p, of x] mem [OF that(2)] by blast
    then have "free_set ?xs \<inter> bset k p = {}" unfolding free_set_def by blast
    moreover have "F = free_set ?xs \<union> bset k p" using free_set_cons [where k = k and xs = xs, OF k x] D(5) by simp
    ultimately show "F - bset k p = free_set ?xs" by blast
  qed
qed

section \<open>Allocation\<close>

lemma order_from_spec: "k \<le> order_from n k \<and> n \<le> 2 ^ order_from n k \<and> (\<forall>j\<ge>k. n \<le> 2 ^ j \<longrightarrow> order_from n k \<le> j)"
proof (induction n k rule: order_from.induct)
  case (1 n k)
  show ?case
  proof (cases "2 ^ k < n")
    case True
    have "order_from n (Suc k) \<le> j" if "k \<le> j" "n \<le> 2 ^ j" for j
      using 1 [OF True] that True by (cases "j = k") auto
    then show ?thesis using 1 [OF True] True by (subst (1 2 3) order_from.simps) simp
  next
    case False
    then show ?thesis by (subst (1 2 3) order_from.simps) simp
  qed
qed

lemma bset_halves: "bset (Suc k) p = bset k p \<union> bset k (p + 2 ^ k)" and bset_apart: "bset k p \<inter> bset k (p + 2 ^ k) = {}"
  by (auto simp: bset_def)

lemma bset_mono: "j \<le> k \<Longrightarrow> bset j p \<subseteq> bset k p"
  unfolding bset_def by (auto intro: order.strict_trans2)

lemma split_block_spec:
  assumes "buddy_inv s xs F" and "cur < 20" and "order \<le> cur" and "bset cur p \<inter> F = {}"
    and "\<And>j. j < 20 \<Longrightarrow> heads s j \<notin> bset cur p"
  shows "\<exists>t ys. split_block order cur p s = Some t \<and> buddy_inv t ys (F \<union> (bset cur p - bset order p)) \<and>
    heads t = heads s \<and> max_page t = max_page s"
  using assms
proof (induction cur arbitrary: s xs F)
  case 0
  then show ?case by auto
next
  case (Suc c)
  show ?case
  proof (cases "order = Suc c")
    case True
    then show ?thesis using Suc.prems(1) by auto
  next
    case False
    let ?b = "p + 2 ^ c" and ?s = "pushed (p + 2 ^ c) c (mark_block (p + 2 ^ c) c s)"
    have le: "order \<le> c" "c < 20" using False Suc.prems(2,3) by auto
    have inv: "buddy_inv ?s (xs(c := ?b # xs c)) (F \<union> bset c ?b)"
      by (rule push_inv [OF Suc.prems(1) le(2)]) (use Suc.prems(4,5) bset_halves [of c p] in auto)
    have "bset c p \<inter> (F \<union> bset c ?b) = {}" using Suc.prems(4) bset_halves [of c p] bset_apart [of c p] by blast
    moreover have "\<And>j. j < 20 \<Longrightarrow> heads ?s j \<notin> bset c p" using Suc.prems(5) bset_halves [of c p] by auto
    ultimately obtain t ys where t: "split_block order c p ?s = Some t"
      "buddy_inv t ys (F \<union> bset c ?b \<union> (bset c p - bset order p))" "heads t = heads ?s" "max_page t = max_page ?s"
      using Suc.IH [OF inv le(2,1)] by blast
    have "split_block order (Suc c) p s = Some t" using le t(1) put_block_pushed [OF le(2)] by simp
    moreover have "bset order p \<inter> bset c ?b = {}" using bset_mono [OF le(1), of p] bset_apart [of c p] by blast
    then have "F \<union> bset c ?b \<union> (bset c p - bset order p) = F \<union> (bset (Suc c) p - bset order p)"
      using bset_halves [of c p] by blast
    ultimately show ?thesis using t by auto
  qed
qed

lemma clear_inv:
  assumes "buddy_inv s xs F" and "p \<notin> F"
  shows "buddy_inv (s\<lparr>frames := ClearPageProperty p (frames s)\<rparr>) xs F"
proof -
  have "x \<noteq> p" if "k < 20" "x \<in> set (xs k)" for k x using block_free(2) [OF assms(1) that] assms(2) by blast
  then have "orders_marked (s\<lparr>frames := ClearPageProperty p (frames s)\<rparr>) xs"
    using buddy_invD(2,3) [OF assms(1)]
    by (auto simp: orders_marked_def page_order_def ClearPageProperty_def PageProperty_def)
  then show ?thesis using assms(1) by (auto simp: buddy_inv_def)
qed

lemma take_from_spec:
  assumes inv: "buddy_inv s xs F" and c: "cur < 20" "order \<le> cur" and x: "xs cur = p # zs"
  shows "\<exists>t ys. take_from order cur s = Some (Some p, t) \<and> bset order p \<subseteq> F \<and> buddy_inv t ys (F - bset order p) \<and>
    heads t = heads s \<and> max_page t = max_page s"
proof -
  note D = buddy_invD [OF inv]
  have "clist (free_links (frames s)) (heads s cur) (p # zs)" using D(1) c(1) x by (auto simp: rings_def)
  then have first: "list_next (heads s cur) (free_links (frames s)) = p" using clist_next_head by fastforce
  have sub: "bset cur p \<subseteq> F" "bset order p \<subseteq> bset cur p"
    using block_free(1) [OF inv c(1), of p] x bset_mono [OF c(2)] by auto
  let ?s = "popped p cur s"
  have "buddy_inv ?s (xs(cur := zs)) (F - bset cur p)" by (rule pop_inv [OF inv c(1) x])
  moreover have "\<And>j. j < 20 \<Longrightarrow> heads ?s j \<notin> bset cur p" using D(6) sub(1) by (auto simp: popped_def)
  ultimately obtain t ys where t: "split_block order cur p ?s = Some t"
    "buddy_inv t ys (F - bset cur p \<union> (bset cur p - bset order p))" "heads t = heads ?s" "max_page t = max_page ?s"
    using split_block_spec [of ?s "xs(cur := zs)" "F - bset cur p" cur order p] c by blast
  have e: "F - bset cur p \<union> (bset cur p - bset order p) = F - bset order p" using sub by blast
  let ?t = "t\<lparr>frames := ClearPageProperty p (frames t)\<rparr>"
  have "buddy_inv ?t ys (F - bset order p)" by (rule clear_inv) (use t(2) e in_bset in auto)
  moreover have "take_from order cur s = Some (Some p, ?t)"
    using t(1) unfolding take_from_def Let_def first popped_def [symmetric] by simp
  ultimately show ?thesis using sub t(3,4) by (intro exI [of _ ?t] exI [of _ ys]) (auto simp: popped_def)
qed

text \<open>A request is served from the smallest order that has a free block and is large enough.\<close>

lemma find_order_block_spec:
  assumes "buddy_inv s xs F" and "order \<le> cur"
  shows "\<exists>r t. find_order_block order cur s = Some (r, t) \<and>
    (case r of None \<Rightarrow> t = s \<and> (\<forall>k<20. cur \<le> k \<longrightarrow> xs k = [])
     | Some p \<Rightarrow> order < 20 \<and> bset order p \<subseteq> F \<and>
         (\<exists>ys. buddy_inv t ys (F - bset order p)) \<and> heads t = heads s \<and> max_page t = max_page s)"
  using assms
proof (induction order cur s rule: find_order_block.induct)
  case (1 order cur s)
  show ?case
  proof (cases "cur < 20")
    case False
    then show ?thesis by (subst find_order_block.simps) (simp add: layout)
  next
    case cur: True
    have c: "clist (free_links (frames s)) (heads s cur) (xs cur)"
      using buddy_invD(1) [OF "1.prems"(1)] cur by (simp add: rings_def)
    show ?thesis
    proof (cases "xs cur")
      case Nil
      then have e: "find_order_block order cur s = find_order_block order (cur + 1) s"
        using clist_empty [OF c] cur by (subst find_order_block.simps) (simp add: layout)
      obtain r t where r: "find_order_block order (cur + 1) s = Some (r, t)"
        "case r of None \<Rightarrow> t = s \<and> (\<forall>k<20. cur + 1 \<le> k \<longrightarrow> xs k = [])
         | Some p \<Rightarrow> order < 20 \<and> bset order p \<subseteq> F \<and>
             (\<exists>ys. buddy_inv t ys (F - bset order p)) \<and> heads t = heads s \<and> max_page t = max_page s"
        using "1.IH" "1.prems" cur Nil clist_empty [OF c] by (auto simp: layout)
      have "xs k = []" if "k < 20" "cur \<le> k" "\<forall>k<20. cur + 1 \<le> k \<longrightarrow> xs k = []" for k
        using that Nil by (cases "k = cur") auto
      then show ?thesis using e r by (cases r) auto
    next
      case (Cons p zs)
      then have "find_order_block order cur s = take_from order cur s"
        using clist_empty [OF c] cur by (subst find_order_block.simps) (simp add: layout)
      then show ?thesis using take_from_spec [OF "1.prems"(1) cur "1.prems"(2) Cons] "1.prems"(2) cur by fastforce
    qed
  qed
qed

text \<open>
  C30: allocation by halving. Over free lists \<open>xs\<close> with the free pages \<open>F\<close>, \<^verbatim>\<open>buddy_alloc_pages\<close> hands out
  a free block of the smallest order that holds \<open>n\<close> pages, and the other pages of the block it cut stay
  free; it refuses only when no list of a sufficient order has a block, and then changes nothing.
\<close>

theorem buddy_alloc_smallest:
  assumes "buddy_inv s xs F" and "0 < n"
  shows "\<exists>r t. buddy_alloc_pages n s = Some (r, t) \<and>
    (case r of None \<Rightarrow> t = s \<and> (\<forall>k<20. n \<le> 2 ^ k \<longrightarrow> xs k = [])
     | Some p \<Rightarrow> \<exists>k<20. n \<le> 2 ^ k \<and> (\<forall>j. n \<le> 2 ^ j \<longrightarrow> k \<le> j) \<and> {p..<p + 2 ^ k} \<subseteq> F \<and>
         (\<exists>ys. buddy_inv t ys (F - {p..<p + 2 ^ k})))"
proof -
  let ?k = "order_from n 0"
  have k: "n \<le> 2 ^ ?k" "\<forall>j. n \<le> 2 ^ j \<longrightarrow> ?k \<le> j" using order_from_spec [of 0 n] by auto
  obtain r t where r: "find_order_block ?k ?k s = Some (r, t)"
    "case r of None \<Rightarrow> t = s \<and> (\<forall>k<20. ?k \<le> k \<longrightarrow> xs k = [])
     | Some p \<Rightarrow> ?k < 20 \<and> bset ?k p \<subseteq> F \<and>
         (\<exists>ys. buddy_inv t ys (F - bset ?k p)) \<and> heads t = heads s \<and> max_page t = max_page s"
    using find_order_block_spec [OF assms(1) order_refl] by blast
  have "buddy_alloc_pages n s = Some (r, t)" using r(1) assms(2) by (simp add: buddy_alloc_pages_def)
  then show ?thesis using r(2) k by (cases r) (auto simp: bset_def)
qed

definition buddy_free :: "free_buddy \<Rightarrow> nat set \<Rightarrow> bool" where
  "buddy_free s F \<longleftrightarrow> (\<exists>xs. buddy_inv s xs F)"

interpretation buddy: run_allocator buddy_free buddy_alloc_pages
proof
  fix s and F :: "nat set" and n :: nat
  assume f: "buddy_free s F" and n: "0 < n"
  then obtain xs where inv: "buddy_inv s xs F" by (auto simp: buddy_free_def)
  let ?k = "order_from n 0"
  have k: "n \<le> 2 ^ ?k" using order_from_spec [of 0 n] by auto
  obtain r t where r: "find_order_block ?k ?k s = Some (r, t)"
    "case r of None \<Rightarrow> t = s \<and> (\<forall>k<20. ?k \<le> k \<longrightarrow> xs k = [])
     | Some p \<Rightarrow> ?k < 20 \<and> bset ?k p \<subseteq> F \<and>
         (\<exists>ys. buddy_inv t ys (F - bset ?k p)) \<and> heads t = heads s \<and> max_page t = max_page s"
    using find_order_block_spec [OF inv order_refl] by blast
  have a: "buddy_alloc_pages n s = Some (r, t)" using r(1) n by (simp add: buddy_alloc_pages_def)
  then show "\<exists>r t. buddy_alloc_pages n s = Some (r, t)" by blast
  show "\<exists>m\<ge>n. {x..<x + m} \<subseteq> F \<and> buddy_free t' (F - {x..<x + m})"
    if "buddy_alloc_pages n s = Some (Some x, t')" for x t'
    using that a r(2) k by (intro exI [of _ "2 ^ ?k"]) (auto simp: bset_def buddy_free_def)
  show "buddy_free t' F" if "buddy_alloc_pages n s = Some (None, t')" for t'
    using that a r(2) f by auto
qed

section \<open>Release\<close>

text \<open>What release takes for a free block of order \<open>k\<close>.\<close>

definition looks_free :: "nat \<Rightarrow> nat \<Rightarrow> free_buddy \<Rightarrow> bool" where
  "looks_free k q s \<longleftrightarrow> PageProperty q (frames s) \<and> page_order q s = of_nat k"

lemma bit_19_large: "bit (w :: u64) 19 \<Longrightarrow> 0x80000 \<le> unat w"
proof (rule ccontr)
  assume "bit w 19" and "\<not> 0x80000 \<le> unat w"
  then have "bit (unat w) 19" "unat w div 2 ^ 19 = 0" by (simp_all add: bit_unsigned_iff)
  then show False by (simp add: bit_iff_odd)
qed

lemma buddy_behind:
  assumes "p < 0x80000" and "k < 19" and "get_buddy_page p k s = Some q"
  shows "0x80000 \<le> q"
proof -
  have "unat (page2ppn p) = p + 0x80000" using assms(1) by (simp add: page2ppn_def layout unat_word_ariths unat_of_nat)
  moreover have "(p + 0x80000) div 0x80000 = 1" using assms(1) div_add_self2 [of "0x80000" p] by simp
  ultimately have "odd (unat (page2ppn p) div 2 ^ 19)" by simp
  then have "bit (unat (page2ppn p)) 19" by (rule bit_iff_odd [THEN iffD2])
  then have "bit (page2ppn p) 19" by (simp add: bit_unsigned_iff)
  then have "bit (page2ppn p XOR push_bit k 1) 19" using assms(2) by (auto simp: bit_simps)
  then show ?thesis using assms(3) bit_19_large by (auto simp: get_buddy_page_def Let_def split: if_splits)
qed

lemma no_merge:
  assumes "\<And>q. k < 19 \<Longrightarrow> get_buddy_page p k s = Some q \<Longrightarrow> \<not> looks_free k q s"
  shows "merge_buddies p k s = (p, k, s)"
proof (cases "k < 19")
  case True
  then show ?thesis using assms by (subst merge_buddies.simps) (auto simp: looks_free_def split: option.splits)
qed (subst merge_buddies.simps, simp add: layout)

text \<open>
  C31: release does not find buddies. The buddy of a page is looked for at its physical page number, which is
  not an index of \<^verbatim>\<open>pages\<close>: for every order, the descriptor that is read lies behind the end of the array,
  524288 entries (20 MiB) after its start, in memory that holds whatever its user wrote there, so no free
  block of the managed pages is ever joined. Where that word does not by chance look like a free block of
  the order, \<^verbatim>\<open>buddy_free_pages\<close> returns, and the block of the order that holds \<open>n\<close> pages is free
  again, at the front of the list of exactly that order, whatever its neighbours are. (Where it does, the
  code unlinks that word and files the block under a larger order, which is a defect.)
\<close>

theorem buddy_free_keeps_order:
  assumes inv: "buddy_inv s xs F" and n: "0 < n" "n \<le> 2 ^ 19" and p: "p < 0x80000"
    and new: "{p..<p + 2 ^ order_from n 0} \<inter> (F \<union> heads s ` {..<20}) = {}"
  shows "(\<forall>k<19. \<forall>q. get_buddy_page p k s = Some q \<longrightarrow> 0x80000 \<le> q) \<and>
    ((\<forall>q. get_buddy_page p (order_from n 0) s = Some q \<longrightarrow> 0x80000 \<le> q \<longrightarrow> \<not> looks_free (order_from n 0) q s) \<longrightarrow>
      (\<exists>t. buddy_free_pages p n s = Some t \<and>
        buddy_inv t (xs(order_from n 0 := p # xs (order_from n 0))) (F \<union> {p..<p + 2 ^ order_from n 0})))"
proof -
  let ?k = "order_from n 0"
  have "?k \<le> 19" using order_from_spec [of 0 n] n(2) by blast
  then have k: "?k < 20" by simp
  let ?m = "mark_block p ?k s"
  have look: "0x80000 \<le> q" if "k < 19" "get_buddy_page p k s = Some q" for k q
    using buddy_behind [OF p that] .
  have "\<exists>t. buddy_free_pages p n s = Some t \<and> buddy_inv t (xs(?k := p # xs ?k)) (F \<union> bset ?k p)"
    if out: "\<forall>q. get_buddy_page p ?k s = Some q \<longrightarrow> 0x80000 \<le> q \<longrightarrow> \<not> looks_free ?k q s"
  proof (intro exI conjI)
    have "\<not> looks_free ?k q ?m" if q: "?k < 19" "get_buddy_page p ?k ?m = Some q" for q
    proof -
      have g: "get_buddy_page p ?k s = Some q" using q(2) by (simp add: get_buddy_page_def)
      then have "0x80000 \<le> q" by (rule look [OF q(1)])
      then have "\<not> looks_free ?k q s" and "q \<noteq> p" using out g p by auto
      then show ?thesis by (simp add: looks_free_def)
    qed
    then have "merge_buddies p ?k ?m = (p, ?k, ?m)" by (rule no_merge)
    then show "buddy_free_pages p n s = Some (pushed p ?k ?m)"
      using n(1) put_block_pushed [OF k] by (simp add: buddy_free_pages_def Let_def)
    show "buddy_inv (pushed p ?k ?m) (xs(?k := p # xs ?k)) (F \<union> bset ?k p)"
      by (rule push_inv [OF inv k]) (use new in \<open>auto simp: bset_def\<close>)
  qed
  then show ?thesis using look by (simp add: bset_def)
qed

section \<open>Boot\<close>

lemma reset_pages_frame:
  "free_links (reset_pages n p a) = free_links a \<and> (\<forall>q. q \<notin> {p..<p + n} \<longrightarrow> pages (reset_pages n p a) q = pages a q)"
  by (induction n p a rule: reset_pages.induct) (auto simp: set_page_ref_def)

lemma reset_inv:
  assumes inv: "buddy_inv s xs F" and new: "{p..<p + n} \<inter> F = {}"
  shows "buddy_inv (s\<lparr>frames := reset_pages n p (frames s)\<rparr>) xs F"
proof -
  have "pages (reset_pages n p (frames s)) x = pages (frames s) x" if "k < 20" "x \<in> set (xs k)" for k x
    using block_free(2) [OF inv that] new reset_pages_frame by blast
  then have "orders_marked (s\<lparr>frames := reset_pages n p (frames s)\<rparr>) xs"
    using buddy_invD(2,3) [OF inv] by (auto simp: orders_marked_def page_order_def PageProperty_def)
  then show ?thesis using inv reset_pages_frame [of n p "frames s"] by (auto simp: buddy_inv_def)
qed

lemma floor_order_spec: "0 < n \<Longrightarrow> 2 ^ floor_order n \<le> n \<and> n < 2 ^ Suc (floor_order n)"
proof (induction n rule: floor_order.induct)
  case (1 n)
  show ?case
  proof (cases "n > 1")
    case True
    then have "2 ^ floor_order (n div 2) \<le> n div 2 \<and> n div 2 < 2 ^ Suc (floor_order (n div 2))" using 1 by simp
    then have "2 * 2 ^ floor_order (n div 2) \<le> n \<and> n < 2 * 2 ^ Suc (floor_order (n div 2))" by linarith
    then show ?thesis using True by (subst (1 2) floor_order.simps) simp
  next
    case False
    then show ?thesis using 1 by (subst (1 2) floor_order.simps) simp
  qed
qed

lemma first_order_spec:
  assumes "0 < n" and "n < 2 ^ 20"
  shows "2 ^ first_order n \<le> n" and "first_order n < 20"
proof -
  have f: "2 ^ floor_order n \<le> n" "first_order n \<le> floor_order n"
    using floor_order_spec [OF assms(1)] by (auto simp: first_order_def Let_def)
  have "(2 :: nat) ^ first_order n \<le> 2 ^ floor_order n" using f(2) by (rule power_increasing) simp
  then show "2 ^ first_order n \<le> n" using f(1) by (rule le_trans)
  have "(2 :: nat) ^ floor_order n < 2 ^ 20" using f(1) assms(2) by (rule le_less_trans)
  then have "floor_order n < 20" by (rule power_less_imp_less_exp [rotated]) simp
  then show "first_order n < 20" using f(2) by simp
qed

lemma buddy_init_memmap_spec:
  assumes "buddy_inv s xs F" and "0 < n" and "n < 2 ^ 20" and "{p..<p + n} \<inter> F = {}"
    and "\<And>j. j < 20 \<Longrightarrow> heads s j \<notin> {p..<p + n}"
  shows "\<exists>t ys. buddy_init_memmap p n s = Some t \<and> buddy_inv t ys (F \<union> {p..<p + n}) \<and> heads t = heads s"
  using assms
proof (induction p n s arbitrary: xs F rule: buddy_init_memmap.induct)
  case (1 p n s)
  let ?k = "first_order n"
  let ?r = "s\<lparr>frames := reset_pages n p (frames s)\<rparr>"
  let ?t = "pushed p ?k (mark_block p ?k ?r)"
  note K = first_order_spec [OF "1.prems"(2,3)]
  have sub: "bset ?k p \<subseteq> {p..<p + n}" using K(1) by (auto simp: bset_def)
  have inv: "buddy_inv ?t (xs(?k := p # xs ?k)) (F \<union> bset ?k p)"
  proof (rule push_inv [OF reset_inv [OF "1.prems"(1,4)] K(2)])
    show "bset ?k p \<inter> F = {}" using "1.prems"(4) sub by blast
    show "heads ?r j \<notin> bset ?k p" if "j < 20" for j using "1.prems"(5) [OF that] sub by auto
  qed
  have step: "buddy_init_memmap p n s = (if n - 2 ^ ?k > 0 then buddy_init_memmap (p + 2 ^ ?k) (n - 2 ^ ?k) ?t else Some ?t)"
    using "1.prems"(2) put_block_pushed [OF K(2)] by (subst buddy_init_memmap.simps) (simp add: Let_def)
  show ?case
  proof (cases "n - 2 ^ ?k > 0")
    case False
    then have "n = 2 ^ ?k" using K(1) by simp
    then have "{p..<p + n} = bset ?k p" by (simp add: bset_def)
    then show ?thesis using step False inv by auto
  next
    case True
    have rest: "{p + 2 ^ ?k..<p + 2 ^ ?k + (n - 2 ^ ?k)} \<union> bset ?k p = {p..<p + n}"
      "{p + 2 ^ ?k..<p + 2 ^ ?k + (n - 2 ^ ?k)} \<inter> bset ?k p = {}" using K(1) by (auto simp: bset_def)
    have hd: "heads ?t j \<notin> {p + 2 ^ ?k..<p + 2 ^ ?k + (n - 2 ^ ?k)}" if "j < 20" for j
      using "1.prems"(5) [OF that] rest(1) by auto
    have d: "{p + 2 ^ ?k..<p + 2 ^ ?k + (n - 2 ^ ?k)} \<inter> (F \<union> bset ?k p) = {}"
      using "1.prems"(4) rest by blast
    have "\<exists>t ys. buddy_init_memmap (p + 2 ^ ?k) (n - 2 ^ ?k) ?t = Some t \<and>
      buddy_inv t ys (F \<union> bset ?k p \<union> {p + 2 ^ ?k..<p + 2 ^ ?k + (n - 2 ^ ?k)}) \<and> heads t = heads ?t"
    proof (rule "1.IH" [OF _ refl refl refl refl _ True inv True _ d hd])
      show "n \<noteq> 0" using "1.prems"(2) by simp
    qed (use "1.prems"(3) put_block_pushed [OF K(2)] in auto)
    moreover have "F \<union> bset ?k p \<union> {p + 2 ^ ?k..<p + 2 ^ ?k + (n - 2 ^ ?k)} = F \<union> {p..<p + n}" using rest(1) by blast
    ultimately show ?thesis using step True by simp
  qed
qed

lemma buddy_init_inv:
  assumes "\<And>j k. j < 20 \<Longrightarrow> k < 20 \<Longrightarrow> heads s j = heads s k \<Longrightarrow> j = k"
  shows "buddy_inv (buddy_init s) (\<lambda>_. []) {}" and "heads (buddy_init s) = heads s"
    and "pages (frames (buddy_init s)) = pages (frames s)"
proof -
  have hp: "heads (fold init_order is t) = heads t \<and> pages (frames (fold init_order is t)) = pages (frames t)" for "is" t
    by (induction "is" arbitrary: t) (auto simp: init_order_def)
  then show h: "heads (buddy_init s) = heads s" and "pages (frames (buddy_init s)) = pages (frames s)"
    unfolding buddy_init_def by blast+
  have "\<forall>k<m. clist (free_links (frames (fold init_order [0..<m] s))) (heads s k) [] \<and> counts (fold init_order [0..<m] s) k = 0"
    if "m \<le> 20" for m
    using that
  proof (induction m)
    case (Suc m)
    let ?t = "fold init_order [0..<m] s"
    have ne: "heads s k \<noteq> heads s m" if "k < m" for k using assms [of k m] that Suc.prems by auto
    have e: "fold init_order [0..<Suc m] s = init_order m ?t" by simp
    have ht: "heads ?t = heads s" using hp by blast
    have IH: "\<forall>k<m. clist (free_links (frames ?t)) (heads s k) [] \<and> counts ?t k = 0" using Suc by simp
    show ?case unfolding e less_Suc_eq using IH ne ht by (auto simp: init_order_def clist_def list_init_def)
  qed simp
  from this [of 20] have i: "\<forall>k<20. clist (free_links (frames (buddy_init s))) (heads s k) [] \<and> counts (buddy_init s) k = 0"
    by (simp add: buddy_init_def layout)
  then show "buddy_inv (buddy_init s) (\<lambda>_. []) {}"
    using assms h by (auto simp: buddy_inv_def rings_def orders_marked_def orders_apart_def free_set_def)
qed

text \<open>
  C32: at boot the whole area becomes free. After \<^verbatim>\<open>buddy_init\<close>, \<^verbatim>\<open>buddy_init_memmap\<close> of \<open>n\<close> pages, whatever
  \<open>n\<close> below a million is, returns with a partition of exactly these pages into blocks on the lists of
  their orders, and from then on requests are served with disjoint runs of them.
\<close>

theorem buddy_boot_serves:
  assumes "inj_on (heads s) {..<20}" and "0 < n" and "n < 2 ^ 20" and "heads s ` {..<20} \<inter> {p..<p + n} = {}"
    and "\<forall>m\<in>set ms. 0 < m"
  shows "\<exists>t rs. buddy_init_memmap p n (buddy_init s) = Some t \<and> (\<exists>xs. buddy_inv t xs {p..<p + n}) \<and>
    allocs buddy_alloc_pages ms t = Some rs \<and> (\<forall>r\<in>set rs. run r \<subseteq> {p..<p + n}) \<and>
    sorted_wrt (\<lambda>r q. run r \<inter> run q = {}) rs"
proof -
  have i: "buddy_inv (buddy_init s) (\<lambda>_. []) {}" "heads (buddy_init s) = heads s"
    using buddy_init_inv [of s] assms(1) by (auto simp: inj_on_def)
  then obtain t ys where t: "buddy_init_memmap p n (buddy_init s) = Some t" "buddy_inv t ys ({} \<union> {p..<p + n})"
    using buddy_init_memmap_spec [OF i(1) assms(2,3), of p] assms(4) by fastforce
  then have "buddy_free t {p..<p + n}" by (auto simp: buddy_free_def)
  from buddy.allocs_disjoint [OF this assms(5)] show ?thesis using t by auto
qed

section \<open>The number of free pages\<close>

lemma card_free_set:
  assumes inv: "buddy_inv s xs F"
  shows "card F = (\<Sum>k<20. length (xs k) * 2 ^ k)"
proof -
  note D = buddy_invD [OF inv]
  have dist: "distinct (xs k)" if "k < 20" for k using D(1) that by (auto simp: rings_def clist_def)
  have one: "card (\<Union>x\<in>set (xs k). bset k x) = length (xs k) * 2 ^ k" if k: "k < 20" for k
  proof -
    have "card (\<Union>x\<in>set (xs k). bset k x) = (\<Sum>x\<in>set (xs k). card (bset k x))"
      by (rule card_UN_disjoint) (use D(4) [OF k k] in \<open>auto simp: bset_def\<close>)
    also have "\<dots> = length (xs k) * 2 ^ k" using distinct_card [OF dist [OF k]] by (simp add: bset_def)
    finally show ?thesis .
  qed
  have "card F = (\<Sum>k<20. card (\<Union>x\<in>set (xs k). bset k x))"
    unfolding D(5) free_set_def
  proof (rule card_UN_disjoint)
    show "\<forall>i\<in>{..<20}. \<forall>j\<in>{..<20}. i \<noteq> j \<longrightarrow> (\<Union>x\<in>set (xs i). bset i x) \<inter> (\<Union>x\<in>set (xs j). bset j x) = {}"
    proof (intro ballI impI)
      fix i j :: nat assume ij: "i \<in> {..<20}" "j \<in> {..<20}" "i \<noteq> j"
      have "bset i x \<inter> bset j y = {}" if "x \<in> set (xs i)" "y \<in> set (xs j)" for x y
        using D(4) [of i j x y] ij that by simp
      then show "(\<Union>x\<in>set (xs i). bset i x) \<inter> (\<Union>x\<in>set (xs j). bset j x) = {}" by blast
    qed
  qed (auto simp: bset_def)
  also have "\<dots> = (\<Sum>k<20. length (xs k) * 2 ^ k)" by (rule sum.cong) (use one in auto)
  finally show ?thesis .
qed

lemma buddy_nr_free_counts:
  assumes inv: "buddy_inv s xs F" and small: "card F < 2 ^ 32"
  shows "unat (buddy_nr_free_pages s) = card F"
proof -
  note C = card_free_set [OF inv]
  have f: "fold (\<lambda>i t. t + g i) [0..<m] (0 :: u64) = (\<Sum>i<m. g i)" for g m by (induction m) auto
  have "ucast (counts s k) * 2 ^ k = (of_nat (length (xs k) * 2 ^ k) :: u64)" if k: "k < 20" for k
  proof -
    have "length (xs k) * 1 \<le> length (xs k) * 2 ^ k" by (rule mult_le_mono2) simp
    also have "\<dots> \<le> card F" unfolding C by (rule member_le_sum) (use k in auto)
    finally have "length (xs k) < 2 ^ 32" using small by simp
    then have "ucast (counts s k) = (of_nat (length (xs k)) :: u64)"
      using buddy_invD(7) [OF inv k] by (simp add: unsigned_of_nat take_bit_nat_eq_self)
    then show ?thesis by simp
  qed
  then have "buddy_nr_free_pages s = (\<Sum>k<20. of_nat (length (xs k) * 2 ^ k))"
    unfolding buddy_nr_free_pages_def f by (intro sum.cong) (simp_all add: layout)
  also have "\<dots> = of_nat (card F)" unfolding C by (simp only: of_nat_sum)
  finally show ?thesis using small by (simp add: unat_of_nat)
qed

section \<open>Witnesses\<close>

definition demo_buddy :: free_buddy where
  "demo_buddy = \<lparr>frames = demo_pages, heads = (\<lambda>k. 1000 + k), counts = (\<lambda>_. 0), max_page = 0x88000\<rparr>"

lemma demo_buddy_inv: "buddy_inv (buddy_init demo_buddy) (\<lambda>_. []) {}" "heads (buddy_init demo_buddy) = (\<lambda>k. 1000 + k)"
  "20 \<le> q \<Longrightarrow> \<not> looks_free k q (buddy_init demo_buddy)"
proof -
  have h: "heads demo_buddy = (\<lambda>k. 1000 + k)" by (simp add: demo_buddy_def)
  note i = buddy_init_inv [of demo_buddy, unfolded h]
  show "buddy_inv (buddy_init demo_buddy) (\<lambda>_. []) {}" "heads (buddy_init demo_buddy) = (\<lambda>k. 1000 + k)"
    using i(1,2) by auto
  have "pages (frames (buddy_init demo_buddy)) = pages demo_pages" using i(3) by (simp add: demo_buddy_def)
  then show "\<not> looks_free k q (buddy_init demo_buddy)" if "20 \<le> q" using that
    by (simp add: looks_free_def PageProperty_def demo_pages_def)
qed

theorem buddy_alloc_smallest_witness:
  "\<exists>s xs r t. buddy_inv s xs {10..<16} \<and> buddy_alloc_pages 9 s = Some (r, t) \<and> r = None"
proof -
  obtain t ys where t: "buddy_inv t ys {10..<16}"
    using buddy_init_memmap_spec [OF demo_buddy_inv(1), of 6 10] by (auto simp: demo_buddy_inv(2))
  obtain r u where r: "buddy_alloc_pages 9 t = Some (r, u)"
    "case r of None \<Rightarrow> u = t \<and> (\<forall>k<20. 9 \<le> (2 :: nat) ^ k \<longrightarrow> ys k = [])
     | Some p \<Rightarrow> \<exists>k<20. 9 \<le> (2 :: nat) ^ k \<and> (\<forall>j. 9 \<le> (2 :: nat) ^ j \<longrightarrow> k \<le> j) \<and> {p..<p + 2 ^ k} \<subseteq> {10..<16} \<and>
         (\<exists>zs. buddy_inv u zs ({10..<16} - {p..<p + 2 ^ k}))"
    using buddy_alloc_smallest [OF t, of 9] by auto
  have "r = None"
  proof (cases r)
    case (Some p)
    then obtain k where k: "9 \<le> (2 :: nat) ^ k" "{p..<p + 2 ^ k} \<subseteq> {10..<16}" using r(2) by auto
    have "card {p..<p + 2 ^ k} \<le> card {10..<16 :: nat}" by (rule card_mono) (use k(2) in auto)
    then show ?thesis using k(1) by simp
  qed
  then show ?thesis using t r(1) by blast
qed

lemma order_from_3: "order_from 3 0 = 2"
  by (simp add: order_from.simps [of 3 0] order_from.simps [of 3 "Suc 0"] order_from.simps [of 3 "Suc (Suc 0)"])

lemma demo_buddy_behind: "get_buddy_page 40 2 (buddy_init demo_buddy) = Some 0x8002C"
proof -
  have "max_page (fold init_order is t) = max_page t" for "is" t
    by (induction "is" arbitrary: t) (simp_all add: init_order_def)
  then have "max_page (buddy_init demo_buddy) = 0x88000" by (simp add: buddy_init_def demo_buddy_def)
  moreover have "page2ppn 40 XOR (push_bit 2 1 :: u64) = 0x8002C" by (simp add: page2ppn_def layout)
  ultimately show ?thesis by (simp add: get_buddy_page_def)
qed

theorem buddy_free_keeps_order_witness:
  "\<exists>t. get_buddy_page 40 2 (buddy_init demo_buddy) = Some 0x8002C \<and> buddy_free_pages 40 3 (buddy_init demo_buddy) = Some t \<and> buddy_inv t ((\<lambda>_. [])(2 := [40])) {40..<44}"
proof -
  have "{40..<44} \<inter> (+) 1000 ` {..<20 :: nat} = {}" by auto
  then show ?thesis
    using buddy_free_keeps_order [OF demo_buddy_inv(1), of 3 40] demo_buddy_inv(2,3) demo_buddy_behind by (auto simp: order_from_3)
qed

theorem buddy_boot_serves_witness:
  "\<exists>t rs. buddy_init_memmap 10 6 (buddy_init demo_buddy) = Some t \<and> allocs buddy_alloc_pages [1, 3] t = Some rs \<and>
     (\<forall>r\<in>set rs. run r \<subseteq> {10..<16})"
proof -
  have "inj_on (heads demo_buddy) {..<20}" "heads demo_buddy ` {..<20} \<inter> {10..<10 + 6} = {}"
    by (auto simp: demo_buddy_def inj_on_def)
  from buddy_boot_serves [OF this(1) _ _ this(2), of "[1, 3]"] show ?thesis by auto
qed

end
