(* ===== verification/Monitor.thy ===== *)
theory Monitor
  imports Philosophers
begin

text \<open>
  Monitors with condition variables (\<^verbatim>\<open>kern/sync/monitor.c\<close>) and the dining philosophers over one
  (\<^verbatim>\<open>kern/sync/check_sync.c\<close>). The monitor has an entry semaphore, a semaphore \<^verbatim>\<open>next\<close> for those that have
  signalled, and for every condition variable a counter and a semaphore. Threads, places and steps are as
  for the philosophers with semaphores; a function that blocks inside is cut at its \<^verbatim>\<open>down\<close>, and what
  follows is the step of a place of its own, or the argument \<open>cont\<close> where the \<^verbatim>\<open>down\<close> is not reached.
\<close>

section \<open>State\<close>

text \<open>
  The places: thinking; waiting for the entry and inside \<^verbatim>\<open>phi_take_forks_condvar\<close>; in and behind the
  \<^verbatim>\<open>cond_signal\<close> of its test; in and behind its \<^verbatim>\<open>cond_wait\<close>; eating; waiting for the entry and inside
  \<^verbatim>\<open>phi_put_forks_condvar\<close>; in and behind the \<^verbatim>\<open>cond_signal\<close> to the left and to the right; at the end.
\<close>

datatype cplace = C_Think | C_WaitTake | C_Take | C_WaitSelf | C_Self | C_WaitCv | C_Woken | C_Eat
  | C_WaitPut | C_Put | C_WaitLeft | C_Left | C_WaitRight | C_Right | C_Quit

record monitor =
  mt_mutex :: asem
  mt_next :: asem
  next_count :: int
  cv_count :: "nat \<Rightarrow> int"
  cv_sem :: "nat \<Rightarrow> asem"
  state_condvar :: "nat \<Rightarrow> phase"
  cplace_of :: "nat \<Rightarrow> cplace"
  citer :: "nat \<Rightarrow> nat"

fun cgo_on :: "cplace \<Rightarrow> cplace" where
  "cgo_on C_WaitTake = C_Take"
| "cgo_on C_WaitSelf = C_Self"
| "cgo_on C_WaitCv = C_Woken"
| "cgo_on C_WaitPut = C_Put"
| "cgo_on C_WaitLeft = C_Left"
| "cgo_on C_WaitRight = C_Right"
| "cgo_on p = p"

definition set_place :: "nat \<Rightarrow> cplace \<Rightarrow> monitor \<Rightarrow> monitor" where
  "set_place i p t = t\<lparr>cplace_of := (cplace_of t)(i := p)\<rparr>"

definition released :: "addr option \<Rightarrow> monitor \<Rightarrow> monitor" where
  "released w t = (case w of None \<Rightarrow> t | Some j \<Rightarrow> set_place j (cgo_on (cplace_of t j)) t)"

section \<open>Semaphores of the monitor\<close>

definition up_mt :: "monitor \<Rightarrow> monitor" where
  "up_mt t = (let (a, w) = asem_up (mt_mutex t) in released w (t\<lparr>mt_mutex := a\<rparr>))"

definition up_next :: "monitor \<Rightarrow> monitor" where
  "up_next t = (let (a, w) = asem_up (mt_next t) in released w (t\<lparr>mt_next := a\<rparr>))"

definition up_cv :: "nat \<Rightarrow> monitor \<Rightarrow> monitor" where
  "up_cv j t = (let (a, w) = asem_up (cv_sem t j) in released w (t\<lparr>cv_sem := (cv_sem t)(j := a)\<rparr>))"

definition down_mt :: "nat \<Rightarrow> cplace \<Rightarrow> cplace \<Rightarrow> monitor \<Rightarrow> monitor" where
  "down_mt i got blocked t =
     (let (a, ok) = asem_down i (mt_mutex t) in set_place i (if ok then got else blocked) (t\<lparr>mt_mutex := a\<rparr>))"

definition down_next :: "nat \<Rightarrow> cplace \<Rightarrow> cplace \<Rightarrow> monitor \<Rightarrow> monitor" where
  "down_next i got blocked t =
     (let (a, ok) = asem_down i (mt_next t) in set_place i (if ok then got else blocked) (t\<lparr>mt_next := a\<rparr>))"

definition down_cv :: "nat \<Rightarrow> nat \<Rightarrow> cplace \<Rightarrow> cplace \<Rightarrow> monitor \<Rightarrow> monitor" where
  "down_cv j i got blocked t =
     (let (a, ok) = asem_down i (cv_sem t j)
      in set_place i (if ok then got else blocked) (t\<lparr>cv_sem := (cv_sem t)(j := a)\<rparr>))"

section \<open>\<^verbatim>\<open>monitor.c\<close>\<close>

definition monitor_init :: "nat \<Rightarrow> monitor \<Rightarrow> monitor option" where
  "monitor_init num_cv t = do {
     ensure (num_cv > 0);
     Some (t\<lparr>next_count := 0, mt_mutex := (1, []), mt_next := (0, []),
       cv_count := (\<lambda>i. if i < num_cv then 0 else cv_count t i),
       cv_sem := (\<lambda>i. if i < num_cv then (0, []) else cv_sem t i)\<rparr>)
   }"

definition cond_signal :: "nat \<Rightarrow> nat \<Rightarrow> cplace \<Rightarrow> cplace \<Rightarrow> (monitor \<Rightarrow> monitor) \<Rightarrow> monitor \<Rightarrow> monitor" where
  "cond_signal j i got blocked cont t =
     (if cv_count t j > 0
      then down_next i got blocked (up_cv j (t\<lparr>next_count := next_count t + 1\<rparr>))
      else cont t)"

definition cond_signal_end :: "monitor \<Rightarrow> monitor" where
  "cond_signal_end t = t\<lparr>next_count := next_count t - 1\<rparr>"

text \<open>Waking a signaller, or else opening the entry: in \<^verbatim>\<open>cond_wait\<close> and at the end of both routines.\<close>

definition leave_monitor :: "monitor \<Rightarrow> monitor" where
  "leave_monitor t = (if next_count t > 0 then up_next t else up_mt t)"

definition cond_wait :: "nat \<Rightarrow> nat \<Rightarrow> cplace \<Rightarrow> cplace \<Rightarrow> monitor \<Rightarrow> monitor" where
  "cond_wait j i got blocked t =
     down_cv j i got blocked (leave_monitor (t\<lparr>cv_count := (cv_count t)(j := cv_count t j + 1)\<rparr>))"

definition cond_wait_end :: "nat \<Rightarrow> monitor \<Rightarrow> monitor" where
  "cond_wait_end j t = t\<lparr>cv_count := (cv_count t)(j := cv_count t j - 1)\<rparr>"

section \<open>The philosophers\<close>

definition phi_test_condvar :: "nat \<Rightarrow> nat \<Rightarrow> cplace \<Rightarrow> cplace \<Rightarrow> (monitor \<Rightarrow> monitor) \<Rightarrow> monitor \<Rightarrow> monitor" where
  "phi_test_condvar j i got blocked cont t =
     (if state_condvar t j = HUNGRY \<and> state_condvar t (LEFT j) \<noteq> EATING \<and> state_condvar t (RIGHT j) \<noteq> EATING
      then cond_signal j i got blocked cont (t\<lparr>state_condvar := (state_condvar t)(j := EATING)\<rparr>)
      else cont t)"

definition take_rest :: "nat \<Rightarrow> monitor \<Rightarrow> monitor" where
  "take_rest i t =
     (if state_condvar t i = HUNGRY then cond_wait i i C_Woken C_WaitCv t
      else set_place i C_Eat (leave_monitor t))"

definition phi_take_forks_condvar :: "nat \<Rightarrow> monitor \<Rightarrow> monitor" where
  "phi_take_forks_condvar i t =
     phi_test_condvar i i C_Self C_WaitSelf (take_rest i) (t\<lparr>state_condvar := (state_condvar t)(i := HUNGRY)\<rparr>)"

definition put_right :: "nat \<Rightarrow> monitor \<Rightarrow> monitor" where
  "put_right i = phi_test_condvar (RIGHT i) i C_Right C_WaitRight (\<lambda>t. set_place i C_Think (leave_monitor t))"

definition phi_put_forks_condvar :: "nat \<Rightarrow> monitor \<Rightarrow> monitor" where
  "phi_put_forks_condvar i t =
     phi_test_condvar (LEFT i) i C_Left C_WaitLeft (put_right i) (t\<lparr>state_condvar := (state_condvar t)(i := THINKING)\<rparr>)"

text \<open>The loop of \<^verbatim>\<open>philosopher_using_condvar\<close>, one step per place.\<close>

inductive cv_step :: "monitor \<Rightarrow> monitor \<Rightarrow> bool" where
  cthink: "i < PHILS \<Longrightarrow> cplace_of t i = C_Think \<Longrightarrow> citer t i < TIMES \<Longrightarrow>
    cv_step t (down_mt i C_Take C_WaitTake (t\<lparr>citer := (citer t)(i := citer t i + 1)\<rparr>))"
| cquit: "i < PHILS \<Longrightarrow> cplace_of t i = C_Think \<Longrightarrow> \<not> citer t i < TIMES \<Longrightarrow>
    cv_step t (set_place i C_Quit (t\<lparr>citer := (citer t)(i := citer t i + 1)\<rparr>))"
| ctake: "i < PHILS \<Longrightarrow> cplace_of t i = C_Take \<Longrightarrow> cv_step t (phi_take_forks_condvar i t)"
| cself: "i < PHILS \<Longrightarrow> cplace_of t i = C_Self \<Longrightarrow> cv_step t (take_rest i (cond_signal_end t))"
| cwoken: "i < PHILS \<Longrightarrow> cplace_of t i = C_Woken \<Longrightarrow>
    cv_step t (set_place i C_Eat (leave_monitor (cond_wait_end i t)))"
| ceat: "i < PHILS \<Longrightarrow> cplace_of t i = C_Eat \<Longrightarrow> cv_step t (down_mt i C_Put C_WaitPut t)"
| cput: "i < PHILS \<Longrightarrow> cplace_of t i = C_Put \<Longrightarrow> cv_step t (phi_put_forks_condvar i t)"
| cleft: "i < PHILS \<Longrightarrow> cplace_of t i = C_Left \<Longrightarrow> cv_step t (put_right i (cond_signal_end t))"
| cright: "i < PHILS \<Longrightarrow> cplace_of t i = C_Right \<Longrightarrow>
    cv_step t (set_place i C_Think (leave_monitor (cond_signal_end t)))"

definition cv_init :: monitor where
  "cv_init = \<lparr>mt_mutex = (1, []), mt_next = (0, []), next_count = 0, cv_count = (\<lambda>_. 0), cv_sem = (\<lambda>_. (0, [])),
     state_condvar = (\<lambda>_. THINKING), cplace_of = (\<lambda>_. C_Think), citer = (\<lambda>_. 0)\<rparr>"

lemma cv_init_monitor: "monitor_init PHILS cv_init = Some cv_init"
  by (simp add: monitor_init_def cv_init_def fun_eq_iff)

section \<open>Invariant\<close>

lemma set_place_simps [simp]:
  "cplace_of (set_place i p t) = (cplace_of t)(i := p)" "state_condvar (set_place i p t) = state_condvar t"
  "mt_mutex (set_place i p t) = mt_mutex t" "mt_next (set_place i p t) = mt_next t" "next_count (set_place i p t) = next_count t"
  "cv_count (set_place i p t) = cv_count t" "cv_sem (set_place i p t) = cv_sem t" "citer (set_place i p t) = citer t"
  by (simp_all add: set_place_def)

fun cseat :: "nat \<Rightarrow> phase \<Rightarrow> cplace \<Rightarrow> int \<Rightarrow> asem \<Rightarrow> bool" where
  "cseat i ph C_WaitCv c a \<longleftrightarrow> ph = HUNGRY \<and> c = 1 \<and> a = (0, [i])"
| "cseat i ph C_Woken c a \<longleftrightarrow> ph = EATING \<and> c = 1 \<and> a = (0, [])"
| "cseat i ph C_Eat c a \<longleftrightarrow> ph = EATING \<and> c = 0 \<and> a = (0, [])"
| "cseat i ph C_WaitPut c a \<longleftrightarrow> ph = EATING \<and> c = 0 \<and> a = (0, [])"
| "cseat i ph C_Put c a \<longleftrightarrow> ph = EATING \<and> c = 0 \<and> a = (0, [])"
| "cseat i ph C_WaitSelf c a \<longleftrightarrow> False"
| "cseat i ph C_Self c a \<longleftrightarrow> False"
| "cseat i ph p c a \<longleftrightarrow> ph = THINKING \<and> c = 0 \<and> a = (0, [])"

definition cseated :: "monitor \<Rightarrow> nat \<Rightarrow> bool" where
  "cseated t i \<longleftrightarrow> cseat i (state_condvar t i) (cplace_of t i) (cv_count t i) (cv_sem t i)"

definition owning :: "cplace \<Rightarrow> bool" where
  "owning p \<longleftrightarrow> p \<in> {C_Take, C_Self, C_Woken, C_Put, C_Left, C_Right}"

definition entering :: "cplace \<Rightarrow> bool" where
  "entering p \<longleftrightarrow> p \<in> {C_WaitTake, C_WaitPut}"

definition signalling :: "cplace \<Rightarrow> bool" where
  "signalling p \<longleftrightarrow> p \<in> {C_WaitSelf, C_WaitLeft, C_WaitRight}"

definition at :: "(cplace \<Rightarrow> bool) \<Rightarrow> (nat \<Rightarrow> cplace) \<Rightarrow> nat set" where
  "at P f = {i. i < 5 \<and> P (f i)}"

lemma at_upd [simp]: "i < 5 \<Longrightarrow> at P (f(i := p)) = (if P p then insert i (at P f) else at P f - {i})"
  by (auto simp: at_def)

lemma at_iff: "i \<in> at P f \<longleftrightarrow> i < 5 \<and> P (f i)"
  by (simp add: at_def)

text \<open>The entry queue holds the threads that want to enter; one at most is in possession of the monitor.\<close>

definition queued :: "monitor \<Rightarrow> bool" where
  "queued t \<longleftrightarrow> distinct (snd (mt_mutex t)) \<and> set (snd (mt_mutex t)) = at entering (cplace_of t)"

definition unowned :: "monitor \<Rightarrow> bool" where
  "unowned t \<longleftrightarrow> mt_mutex t = (1, []) \<and> mt_next t = (0, []) \<and> next_count t = 0 \<and>
     at owning (cplace_of t) = {} \<and> at signalling (cplace_of t) = {}"

text \<open>\<open>owned t i n ss\<close>: thread \<open>i\<close> has the monitor, \<open>ss\<close> wait on \<^verbatim>\<open>next\<close>, of which the counter is \<open>n\<close>.\<close>

definition owned :: "monitor \<Rightarrow> nat \<Rightarrow> int \<Rightarrow> nat list \<Rightarrow> bool" where
  "owned t i n ss \<longleftrightarrow> fst (mt_mutex t) = 0 \<and> mt_next t = (0, ss) \<and> next_count t = n \<and>
     at owning (cplace_of t) = {i} \<and> at signalling (cplace_of t) = set ss"

definition lock_ok :: "monitor \<Rightarrow> bool" where
  "lock_ok t \<longleftrightarrow> queued t \<and> (unowned t \<or>
     (\<exists>i. owned t i 0 [] \<and> cplace_of t i \<in> {C_Take, C_Put}) \<or>
     (\<exists>i. owned t i 1 [] \<and> cplace_of t i \<in> {C_Left, C_Right}) \<or>
     (\<exists>i s. owned t i 1 [s] \<and> cplace_of t i = C_Woken))"

definition capart :: "monitor \<Rightarrow> bool" where
  "capart t \<longleftrightarrow> (\<forall>i<5. state_condvar t i = EATING \<longrightarrow> state_condvar t (RIGHT i) \<noteq> EATING)"

text \<open>A hungry philosopher has a reason to wait: a neighbour eats, or the left one has still to look at him.\<close>

definition waits_for :: "monitor \<Rightarrow> nat \<Rightarrow> bool" where
  "waits_for t i \<longleftrightarrow> (state_condvar t i = HUNGRY \<longrightarrow> state_condvar t (LEFT i) = EATING \<or> state_condvar t (RIGHT i) = EATING \<or>
     cplace_of t (LEFT i) \<in> {C_WaitLeft, C_Left})"

definition monitor_inv :: "monitor \<Rightarrow> bool" where
  "monitor_inv t \<longleftrightarrow> (\<forall>i<5. cseated t i) \<and> lock_ok t \<and> capart t \<and> (\<forall>i<5. waits_for t i)"

lemma cv_init_inv: "monitor_inv cv_init"
  by (simp add: monitor_inv_def cv_init_def cseated_def lock_ok_def queued_def unowned_def capart_def waits_for_def at_def
      owning_def entering_def signalling_def)

lemmas place_sorts = owning_def entering_def signalling_def

section \<open>Passing the monitor on\<close>

text \<open>Without signallers, leaving opens the entry or hands the monitor to the first thread before it.\<close>

lemma leave_open:
  assumes q: "queued t" and o: "owned t i 0 []" and i: "i < 5" and p: "\<not> owning p" "\<not> entering p" "\<not> signalling p"
  shows "lock_ok (set_place i p (leave_monitor t))"
    and "state_condvar (leave_monitor t) = state_condvar t" and "cv_count (leave_monitor t) = cv_count t"
    and "cv_sem (leave_monitor t) = cv_sem t"
    and "\<And>j. cplace_of (leave_monitor t) j = (if entering (cplace_of t j) \<and> j \<in> set (take 1 (snd (mt_mutex t))) then cgo_on (cplace_of t j) else cplace_of t j)"
proof -
  obtain ws where m: "mt_mutex t = (0, ws)" using o by (cases "mt_mutex t") (simp add: owned_def)
  have w: "distinct ws" "set ws = at entering (cplace_of t)" using q m by (simp_all add: queued_def)
  have O: "mt_next t = (0, [])" "next_count t = 0" "at owning (cplace_of t) = {i}" "at signalling (cplace_of t) = {}"
    using o by (simp_all add: owned_def)
  have e: "leave_monitor t = (case ws of [] \<Rightarrow> t\<lparr>mt_mutex := (1, [])\<rparr>
      | w # vs \<Rightarrow> set_place w (cgo_on (cplace_of t w)) (t\<lparr>mt_mutex := (0, vs)\<rparr>))"
    using O(2) by (cases ws) (simp_all add: leave_monitor_def up_mt_def m asem_up_def released_def)
  show "state_condvar (leave_monitor t) = state_condvar t" "cv_count (leave_monitor t) = cv_count t" "cv_sem (leave_monitor t) = cv_sem t"
    by (cases ws; simp add: e)+
  have ent: "entering (cplace_of t j)" if "j \<in> set ws" for j using that w(2) by (simp add: at_iff)
  show "cplace_of (leave_monitor t) j = (if entering (cplace_of t j) \<and> j \<in> set (take 1 (snd (mt_mutex t))) then cgo_on (cplace_of t j) else cplace_of t j)" for j
    using ent by (cases ws) (simp_all add: e m)
  show "lock_ok (set_place i p (leave_monitor t))"
  proof (cases ws)
    case Nil
    have "unowned (set_place i p (leave_monitor t))" "queued (set_place i p (leave_monitor t))"
      using Nil O w i p by (simp_all add: e unowned_def queued_def)
    then show ?thesis by (simp add: lock_ok_def)
  next
    case (Cons v vs)
    have v: "v < 5" "entering (cplace_of t v)" using w(2) Cons by (auto simp: at_iff)
    have oi: "owning (cplace_of t i)" using O(3) at_iff [of i owning "cplace_of t"] by simp
    have apart: "owning q \<Longrightarrow> \<not> entering q" for q by (auto simp: place_sorts)
    have vi: "v \<noteq> i" using v oi apart by blast
    have g: "cgo_on (cplace_of t v) \<in> {C_Take, C_Put}" using v(2) by (auto simp: entering_def)
    then have g': "owning (cgo_on (cplace_of t v))" "\<not> entering (cgo_on (cplace_of t v))" "\<not> signalling (cgo_on (cplace_of t v))"
      by (auto simp: place_sorts)
    let ?u = "set_place i p (leave_monitor t)"
    have c: "cplace_of ?u = (cplace_of t)(v := cgo_on (cplace_of t v), i := p)" by (simp add: e Cons)
    have "i \<notin> at entering (cplace_of t)" using oi apart by (simp add: at_iff)
    moreover have "at entering (cplace_of ?u) = at entering (cplace_of t) - {v} - {i}" unfolding c using i v(1) p g' by simp
    moreover have "snd (mt_mutex ?u) = vs" by (simp add: e Cons)
    ultimately have "queued ?u" using w Cons unfolding queued_def by auto
    moreover have "at owning (cplace_of ?u) = {v}" "at signalling (cplace_of ?u) = {}"
      unfolding c using O(3,4) i v(1) vi p g' by auto
    then have "owned ?u v 0 []" using O by (simp add: owned_def e Cons)
    moreover have "cplace_of ?u v \<in> {C_Take, C_Put}" unfolding c using g vi by simp
    ultimately show ?thesis unfolding lock_ok_def by blast
  qed
qed

text \<open>With a signaller, it gets the monitor back.\<close>

lemma leave_to_signaller:
  assumes q: "queued t" and o: "owned t i 1 [s]" and i: "i < 5" and p: "\<not> owning p" "\<not> entering p" "\<not> signalling p"
    and s: "cplace_of t s \<in> {C_WaitLeft, C_WaitRight}"
  shows "lock_ok (set_place i p (leave_monitor t))" and "s < 5" and "s \<noteq> i"
    and "leave_monitor t = set_place s (cgo_on (cplace_of t s)) (t\<lparr>mt_next := (0, [])\<rparr>)"
proof -
  have O: "mt_next t = (0, [s])" "next_count t = 1" "at owning (cplace_of t) = {i}" "at signalling (cplace_of t) = {s}"
    "fst (mt_mutex t) = 0" using o by (simp_all add: owned_def)
  have "s \<in> at signalling (cplace_of t)" using O(4) by simp
  then show s5: "s < 5" by (simp add: at_iff)
  have oi: "owning (cplace_of t i)" using O(3) at_iff [of i owning "cplace_of t"] by simp
  have apart: "owning q \<Longrightarrow> \<not> entering q" for q by (auto simp: place_sorts)
  show si: "s \<noteq> i" using s oi by (auto simp: place_sorts)
  show e: "leave_monitor t = set_place s (cgo_on (cplace_of t s)) (t\<lparr>mt_next := (0, [])\<rparr>)"
    using O by (simp add: leave_monitor_def up_next_def asem_up_def released_def)
  let ?u = "set_place i p (leave_monitor t)"
  have c: "cplace_of ?u = (cplace_of t)(s := cgo_on (cplace_of t s), i := p)" by (simp add: e)
  have g: "owning (cgo_on (cplace_of t s))" "\<not> entering (cgo_on (cplace_of t s))" "\<not> signalling (cgo_on (cplace_of t s))"
    "cgo_on (cplace_of t s) \<in> {C_Left, C_Right}" using s by (auto simp: place_sorts)
  have ne: "i \<notin> at entering (cplace_of t)" "s \<notin> at entering (cplace_of t)" using oi apart s by (auto simp: at_iff entering_def)
  have "at entering (cplace_of ?u) = at entering (cplace_of t)" unfolding c using i s5 p g ne by simp
  then have "queued ?u" using q by (simp add: queued_def e)
  moreover have "at owning (cplace_of ?u) = {s}" "at signalling (cplace_of ?u) = {}"
    unfolding c using O(3,4) i s5 si p g by auto
  then have "owned ?u s 1 []" using O by (simp add: owned_def e)
  moreover have "cplace_of ?u s \<in> {C_Left, C_Right}" unfolding c using g(4) si by simp
  ultimately show "lock_ok ?u" unfolding lock_ok_def by blast
qed

text \<open>A signal hands the monitor to a thread that waits on its condition variable.\<close>

lemma signal_hands_over:
  assumes q: "queued t" and o: "owned t i 0 []" and i: "i < 5" and j: "j < 5" "j \<noteq> i"
    and w: "cplace_of t j = C_WaitCv" "cv_count t j = 1" "cv_sem t j = (0, [j])"
    and b: "blocked \<in> {C_WaitLeft, C_WaitRight}"
  shows "lock_ok (cond_signal j i got blocked cont t)"
    and "cond_signal j i got blocked cont t = t\<lparr>next_count := 1, cv_sem := (cv_sem t)(j := (0, [])), mt_next := (0, [i]),
      cplace_of := (cplace_of t)(j := C_Woken, i := blocked)\<rparr>"
proof -
  have O: "mt_next t = (0, [])" "next_count t = 0" "at owning (cplace_of t) = {i}" "at signalling (cplace_of t) = {}"
    "fst (mt_mutex t) = 0" using o by (simp_all add: owned_def)
  let ?u = "t\<lparr>next_count := 1, cv_sem := (cv_sem t)(j := (0, [])), mt_next := (0, [i]),
    cplace_of := (cplace_of t)(j := C_Woken, i := blocked)\<rparr>"
  show e: "cond_signal j i got blocked cont t = ?u"
    using O(1,2) w by (simp add: cond_signal_def up_cv_def asem_up_def released_def down_next_def asem_down_def set_place_def)
  have oi: "owning (cplace_of t i)" using O(3) at_iff [of i owning "cplace_of t"] by simp
  have s: "\<not> owning blocked" "\<not> entering blocked" "signalling blocked" "owning C_Woken" "\<not> entering C_Woken" "\<not> signalling C_Woken"
    "\<not> entering C_WaitCv" using b by (auto simp: place_sorts)
  have "i \<notin> at entering (cplace_of t)" "j \<notin> at entering (cplace_of t)" using oi w(1) s by (auto simp: at_iff place_sorts)
  then have "queued ?u" using q i j s by (simp add: queued_def)
  moreover have "at owning (cplace_of ?u) = {j}" "at signalling (cplace_of ?u) = {i}"
    using O(3,4) i j s by auto
  then have "owned ?u j 1 [i]" using O by (simp add: owned_def)
  moreover have "cplace_of ?u j = C_Woken" using j by simp
  ultimately show "lock_ok (cond_signal j i got blocked cont t)" unfolding e lock_ok_def by blast
qed

text \<open>Entering: the monitor is taken, or the thread queues up.\<close>

lemma enter_lock:
  assumes l: "lock_ok t" and i: "i < 5" "cplace_of t i \<in> {C_Think, C_Eat}"
    and p: "(got, blocked) \<in> {(C_Take, C_WaitTake), (C_Put, C_WaitPut)}"
  shows "lock_ok (down_mt i got blocked t)"
proof -
  obtain v ws where m: "mt_mutex t = (v, ws)" by (cases "mt_mutex t")
  have w: "distinct ws" "set ws = at entering (cplace_of t)" using l m by (auto simp: lock_ok_def queued_def)
  have ni: "\<not> owning (cplace_of t i)" "\<not> entering (cplace_of t i)" "\<not> signalling (cplace_of t i)" using i by (auto simp: place_sorts)
  have s: "owning got" "\<not> entering got" "\<not> signalling got" "\<not> owning blocked" "entering blocked" "\<not> signalling blocked" "got \<in> {C_Take, C_Put}"
    using p by (auto simp: place_sorts)
  have no: "i \<notin> at entering (cplace_of t)" "i \<notin> at owning (cplace_of t)" "i \<notin> at signalling (cplace_of t)" using ni by (simp_all add: at_iff)
  let ?u = "down_mt i got blocked t"
  show ?thesis
  proof (cases "v > 0")
    case True
    have O: "unowned t" using l m True by (auto simp: lock_ok_def owned_def)
    have u: "?u = set_place i got (t\<lparr>mt_mutex := (v - 1, ws)\<rparr>)" using True by (simp add: down_mt_def m asem_down_def)
    have "queued ?u" using w no s i(1) by (simp add: u queued_def)
    moreover have "owned ?u i 0 []" using O s i(1) m by (simp add: u unowned_def owned_def)
    ultimately show ?thesis using s(7) by (auto simp: lock_ok_def u)
  next
    case False
    have u: "?u = set_place i blocked (t\<lparr>mt_mutex := (v, ws @ [i])\<rparr>)" using False by (simp add: down_mt_def m asem_down_def)
    have "\<not> unowned t" using m False by (auto simp: unowned_def)
    moreover have "queued ?u" using w no s i(1) by (simp add: u queued_def)
    moreover have "owned ?u j n ss \<longleftrightarrow> owned t j n ss" for j n ss
      using m s i(1) no by (auto simp: u owned_def)
    moreover have "cplace_of ?u j = cplace_of t j" if "owned t j n ss" for j n ss
    proof -
      have "j \<noteq> i" using that no by (auto simp: owned_def)
      then show ?thesis by (simp add: u)
    qed
    ultimately show ?thesis using l unfolding lock_ok_def by metis
  qed
qed

section \<open>Every step keeps the invariant\<close>

text \<open>\<open>calm t k\<close>: if philosopher \<open>k\<close> is hungry, a neighbour eats.\<close>

definition calm :: "monitor \<Rightarrow> nat \<Rightarrow> bool" where
  "calm t k \<longleftrightarrow> (state_condvar t k = HUNGRY \<longrightarrow> state_condvar t (LEFT k) = EATING \<or> state_condvar t (RIGHT k) = EATING)"

lemma monitor_invD:
  assumes "monitor_inv t"
  shows "i < 5 \<Longrightarrow> cseated t i" "lock_ok t" "capart t" "i < 5 \<Longrightarrow> waits_for t i" "queued t"
  using assms by (auto simp: monitor_inv_def lock_ok_def)

lemma owned_place: "owned t i n ss \<Longrightarrow> j < 5 \<Longrightarrow> owning (cplace_of t j) \<longleftrightarrow> j = i"
  "owned t i n ss \<Longrightarrow> j < 5 \<Longrightarrow> signalling (cplace_of t j) \<longleftrightarrow> j \<in> set ss"
  using at_iff [of j owning "cplace_of t"] at_iff [of j signalling "cplace_of t"] by (auto simp: owned_def)

lemma inv_owner:
  assumes inv: "monitor_inv t" and i: "i < 5"
  shows "cplace_of t i \<in> {C_Take, C_Put} \<Longrightarrow> owned t i 0 []"
    and "cplace_of t i \<in> {C_Left, C_Right} \<Longrightarrow> owned t i 1 []"
    and "cplace_of t i = C_Woken \<Longrightarrow> \<exists>s. owned t i 1 [s]"
proof -
  have "(owned t i 0 [] \<and> cplace_of t i \<in> {C_Take, C_Put}) \<or> (owned t i 1 [] \<and> cplace_of t i \<in> {C_Left, C_Right}) \<or>
     (\<exists>s. owned t i 1 [s] \<and> cplace_of t i = C_Woken)" if "owning (cplace_of t i)"
  proof -
    have "i \<in> at owning (cplace_of t)" using that i by (simp add: at_iff)
    then have "\<not> unowned t" by (auto simp: unowned_def)
    then show ?thesis using monitor_invD(2) [OF inv] owned_place(1) [of t _ _ _ i] i that unfolding lock_ok_def by metis
  qed
  note c = this
  show "cplace_of t i \<in> {C_Take, C_Put} \<Longrightarrow> owned t i 0 []" using c by (auto simp: owning_def)
  show "cplace_of t i \<in> {C_Left, C_Right} \<Longrightarrow> owned t i 1 []" using c by (auto simp: owning_def)
  show "cplace_of t i = C_Woken \<Longrightarrow> \<exists>s. owned t i 1 [s]" using c by (auto simp: owning_def)
qed

lemma inv_calm:
  assumes inv: "monitor_inv t" and o: "owned t i n []" and k: "k < 5"
  shows "calm t k \<or> LEFT k = i \<and> cplace_of t i = C_Left"
proof -
  have "cplace_of t (LEFT k) \<in> {C_WaitLeft, C_Left} \<Longrightarrow> LEFT k = i \<and> cplace_of t i = C_Left"
    using owned_place [OF o, of "LEFT k"] k by (auto simp: place_sorts)
  then show ?thesis using monitor_invD(4) [OF inv k] by (auto simp: waits_for_def calm_def)
qed

lemma cseat_go_on: "cseat j ph p c a \<Longrightarrow> entering p \<Longrightarrow> cseat j ph (cgo_on p) c a"
  by (auto simp: entering_def)

lemma leave_inv:
  assumes q: "queued t" and o: "owned t i 0 []" and i: "i < 5" and p: "\<not> owning p" "\<not> entering p" "\<not> signalling p"
    and s: "\<And>j. j < 5 \<Longrightarrow> j \<noteq> i \<Longrightarrow> cseated t j" and si: "cseat i (state_condvar t i) p (cv_count t i) (cv_sem t i)"
    and a: "capart t" and c: "\<And>k. k < 5 \<Longrightarrow> calm t k"
  shows "monitor_inv (set_place i p (leave_monitor t))"
proof -
  note L = leave_open [OF q o i p]
  let ?u = "set_place i p (leave_monitor t)"
  have "cseated ?u j" if j: "j < 5" for j
    using s [OF j] si cseat_go_on [of j "state_condvar t j" "cplace_of t j" "cv_count t j" "cv_sem t j"]
    by (cases "j = i") (auto simp: cseated_def L)
  moreover have "capart ?u" using a by (simp add: capart_def L)
  moreover have "waits_for ?u k" if "k < 5" for k using c [OF that] by (auto simp: waits_for_def calm_def L)
  ultimately show ?thesis using L(1) by (simp add: monitor_inv_def)
qed

lemma leave_cv_sem: "next_count t = 0 \<Longrightarrow> leave_monitor (t\<lparr>cv_sem := f\<rparr>) = (leave_monitor t)\<lparr>cv_sem := f\<rparr>"
  by (auto simp: leave_monitor_def up_mt_def released_def set_place_def split: prod.splits option.splits)

lemma wait_inv:
  assumes q: "queued t" and o: "owned t i 0 []" and i: "i < 5" and h: "state_condvar t i = HUNGRY"
    and s: "\<And>j. j < 5 \<Longrightarrow> j \<noteq> i \<Longrightarrow> cseated t j" and si: "cv_count t i = 0" "cv_sem t i = (0, [])"
    and a: "capart t" and c: "\<And>k. k < 5 \<Longrightarrow> calm t k"
  shows "monitor_inv (cond_wait i i C_Woken C_WaitCv t)"
proof -
  let ?t = "t\<lparr>cv_count := (cv_count t)(i := 1), cv_sem := (cv_sem t)(i := (0, [i]))\<rparr>"
  have n: "next_count t = 0" using o by (simp add: owned_def)
  have sem: "cv_sem (leave_monitor (t\<lparr>cv_count := f\<rparr>)) = cv_sem t" for f
    using n by (auto simp: leave_monitor_def up_mt_def released_def split: prod.splits option.splits)
  have "cond_wait i i C_Woken C_WaitCv t = set_place i C_WaitCv (leave_monitor ?t)"
    using si n leave_cv_sem [of "t\<lparr>cv_count := (cv_count t)(i := 1)\<rparr>"]
    by (simp add: cond_wait_def down_cv_def asem_down_def sem set_place_def)
  moreover have "monitor_inv (set_place i C_WaitCv (leave_monitor ?t))"
  proof (rule leave_inv [OF _ _ i])
    show "queued ?t" "owned ?t i 0 []" using q o by (simp_all add: queued_def owned_def)
    show "cseated ?t j" if "j < 5" "j \<noteq> i" for j using s [OF that] that by (simp add: cseated_def)
    show "capart ?t" using a by (simp add: capart_def)
    show "calm ?t k" if "k < 5" for k using c [OF that] by (simp add: calm_def)
  qed (use h in \<open>simp_all add: place_sorts\<close>)
  ultimately show ?thesis by simp
qed

lemma apart_feed:
  assumes a: "capart t" and j: "j < 5" and g: "state_condvar t (LEFT j) \<noteq> EATING" "state_condvar t (RIGHT j) \<noteq> EATING"
  shows "capart (t\<lparr>state_condvar := (state_condvar t)(j := EATING)\<rparr>)"
  unfolding capart_def
proof (intro allI impI)
  fix i :: nat assume i: "i < 5" and e: "state_condvar (t\<lparr>state_condvar := (state_condvar t)(j := EATING)\<rparr>) i = EATING"
  show "state_condvar (t\<lparr>state_condvar := (state_condvar t)(j := EATING)\<rparr>) (RIGHT i) \<noteq> EATING"
  proof (cases "i = j")
    case True
    then show ?thesis using g i by simp
  next
    case False
    then have ei: "state_condvar t i = EATING" using e by simp
    have "RIGHT i \<noteq> j" using neighbours(6) [OF i] g ei by auto
    then show ?thesis using a i ei by (simp add: capart_def)
  qed
qed

lemma signal_inv:
  assumes q: "queued t" and o: "owned t i 0 []" and i: "i < 5" and j: "j < 5" "j \<noteq> i"
    and b: "blocked \<in> {C_WaitLeft, C_WaitRight}"
    and g: "state_condvar t j = HUNGRY" "state_condvar t (LEFT j) \<noteq> EATING" "state_condvar t (RIGHT j) \<noteq> EATING"
    and s: "\<And>k. k < 5 \<Longrightarrow> k \<noteq> i \<Longrightarrow> cseated t k" and si: "state_condvar t i = THINKING" "cv_count t i = 0" "cv_sem t i = (0, [])"
    and a: "capart t" and c: "\<And>k. k < 5 \<Longrightarrow> k \<noteq> j \<Longrightarrow> calm t k \<or> LEFT k = i \<and> blocked = C_WaitLeft"
  shows "monitor_inv (phi_test_condvar j i got blocked cont t)"
proof -
  let ?t = "t\<lparr>state_condvar := (state_condvar t)(j := EATING)\<rparr>"
  have w: "cplace_of t j = C_WaitCv" "cv_count t j = 1" "cv_sem t j = (0, [j])"
    using s [OF j] g(1) by (cases "cplace_of t j"; simp add: cseated_def)+
  have qo: "queued ?t" "owned ?t i 0 []" using q o by (simp_all add: queued_def owned_def)
  have e: "phi_test_condvar j i got blocked cont t = cond_signal j i got blocked cont ?t"
    using g by (simp add: phi_test_condvar_def)
  note S = signal_hands_over [OF qo i j, of blocked got cont, simplified, OF w b [simplified]]
  let ?u = "cond_signal j i got blocked cont ?t"
  have "cseated ?u k" if k: "k < 5" for k
    using s [OF k] si j w b unfolding S(2) by (cases "k = i"; cases "k = j") (auto simp: cseated_def)
  moreover have "capart ?u" using apart_feed [OF a j(1) g(2,3)] unfolding S(2) by (simp add: capart_def)
  moreover have "waits_for ?u k" if k: "k < 5" for k
  proof (cases "k = j")
    case False
    show ?thesis using c [OF k False] j unfolding S(2) by (auto simp: waits_for_def calm_def False)
  qed (simp add: S(2) waits_for_def)
  ultimately show ?thesis using S(1) unfolding e by (simp add: monitor_inv_def)
qed

lemma put_right_inv:
  assumes q: "queued t" and o: "owned t i 0 []" and i: "i < 5"
    and s: "\<And>k. k < 5 \<Longrightarrow> k \<noteq> i \<Longrightarrow> cseated t k" and si: "state_condvar t i = THINKING" "cv_count t i = 0" "cv_sem t i = (0, [])"
    and a: "capart t" and c: "\<And>k. k < 5 \<Longrightarrow> k \<noteq> RIGHT i \<Longrightarrow> calm t k"
  shows "monitor_inv (put_right i t)"
proof (cases "state_condvar t (RIGHT i) = HUNGRY \<and> state_condvar t (LEFT (RIGHT i)) \<noteq> EATING \<and> state_condvar t (RIGHT (RIGHT i)) \<noteq> EATING")
  case True
  then show ?thesis unfolding put_right_def
    by (intro signal_inv [OF q o i _ _ _ _ _ _ s si a]) (use i c in auto)
next
  case False
  have "calm t k" if "k < 5" for k using c [OF that] False by (cases "k = RIGHT i") (auto simp: calm_def)
  moreover have "put_right i t = set_place i C_Think (leave_monitor t)"
    unfolding put_right_def phi_test_condvar_def using False by (rule if_not_P)
  ultimately show ?thesis using leave_inv [OF q o i _ _ _ s _ a, of C_Think] si by (simp add: place_sorts)
qed

lemma ctake_inv:
  assumes inv: "monitor_inv t" and i: "i < 5" and p: "cplace_of t i = C_Take"
  shows "monitor_inv (phi_take_forks_condvar i t)"
proof -
  have o: "owned t i 0 []" using inv_owner(1) [OF inv i] p by simp
  have s: "state_condvar t i = THINKING" "cv_count t i = 0" "cv_sem t i = (0, [])"
    using monitor_invD(1) [OF inv i] p by (simp_all add: cseated_def)
  have c: "calm t k" if "k < 5" for k using inv_calm [OF inv o that] p by simp
  define h where "h = t\<lparr>state_condvar := (state_condvar t)(i := HUNGRY)\<rparr>"
  let ?guard = "state_condvar t (LEFT i) \<noteq> EATING \<and> state_condvar t (RIGHT i) \<noteq> EATING"
  have ho: "queued h" "owned h i 0 []" using o monitor_invD(5) [OF inv] by (simp_all add: h_def queued_def owned_def)
  have hs: "cseated h k" if "k < 5" "k \<noteq> i" for k using monitor_invD(1) [OF inv that(1)] that by (simp add: h_def cseated_def)
  have ha: "capart h" using monitor_invD(3) [OF inv] s by (auto simp: h_def capart_def)
  have hc: "calm h k" if "k < 5" "k \<noteq> i" for k using c [OF that(1)] that s by (auto simp: h_def calm_def)
  have hh: "state_condvar h i = HUNGRY" "cv_count h i = 0" "cv_sem h i = (0, [])" using s by (simp_all add: h_def)
  have take: "phi_take_forks_condvar i t = phi_test_condvar i i C_Self C_WaitSelf (take_rest i) h"
    by (simp add: phi_take_forks_condvar_def h_def)
  show ?thesis
  proof (cases ?guard)
    case True
    define e where "e = h\<lparr>state_condvar := (state_condvar h)(i := EATING)\<rparr>"
    have "phi_take_forks_condvar i t = set_place i C_Eat (leave_monitor e)"
      using True i s by (simp add: take phi_test_condvar_def cond_signal_def take_rest_def e_def h_def)
    moreover have "monitor_inv (set_place i C_Eat (leave_monitor e))"
    proof (rule leave_inv [OF _ _ i])
      show "queued e" "owned e i 0 []" using ho by (simp_all add: e_def queued_def owned_def)
      show "cseated e j" if "j < 5" "j \<noteq> i" for j using hs [OF that] that by (simp add: e_def cseated_def)
      show "capart e" unfolding e_def by (rule apart_feed [OF ha i]) (use True i in \<open>simp_all add: h_def\<close>)
      show "calm e k" if "k < 5" for k using hc [OF that] by (auto simp: e_def calm_def)
    qed (use hh in \<open>simp_all add: place_sorts e_def\<close>)
    ultimately show ?thesis by simp
  next
    case False
    have "phi_take_forks_condvar i t = cond_wait i i C_Woken C_WaitCv h"
      using False i by (auto simp: take phi_test_condvar_def take_rest_def h_def)
    moreover have "calm h i" using False i by (auto simp: calm_def h_def)
    ultimately show ?thesis using wait_inv [OF ho i hh(1) hs hh(2,3) ha] hc by (metis)
  qed
qed

lemma cput_inv:
  assumes inv: "monitor_inv t" and i: "i < 5" and p: "cplace_of t i = C_Put"
  shows "monitor_inv (phi_put_forks_condvar i t)"
proof -
  have o: "owned t i 0 []" using inv_owner(1) [OF inv i] p by simp
  have s: "cv_count t i = 0" "cv_sem t i = (0, [])" using monitor_invD(1) [OF inv i] p by (simp_all add: cseated_def)
  have c: "calm t k" if "k < 5" for k using inv_calm [OF inv o that] p by simp
  define h where "h = t\<lparr>state_condvar := (state_condvar t)(i := THINKING)\<rparr>"
  have ho: "queued h" "owned h i 0 []" using o monitor_invD(5) [OF inv] by (simp_all add: h_def queued_def owned_def)
  have hs: "cseated h k" if "k < 5" "k \<noteq> i" for k using monitor_invD(1) [OF inv that(1)] that by (simp add: h_def cseated_def)
  have ha: "capart h" using monitor_invD(3) [OF inv] by (auto simp: h_def capart_def)
  have hh: "state_condvar h i = THINKING" "cv_count h i = 0" "cv_sem h i = (0, [])" using s by (simp_all add: h_def)
  have hc: "calm h k" if "k < 5" "k \<noteq> LEFT i" "k \<noteq> RIGHT i" for k
  proof -
    have "LEFT k \<noteq> i" "RIGHT k \<noteq> i" using that neighbours [OF that(1)] by metis+
    then show ?thesis using c [OF that(1)] by (auto simp: h_def calm_def)
  qed
  have put: "phi_put_forks_condvar i t = phi_test_condvar (LEFT i) i C_Left C_WaitLeft (put_right i) h"
    by (simp add: phi_put_forks_condvar_def h_def)
  show ?thesis
  proof (cases "state_condvar h (LEFT i) = HUNGRY \<and> state_condvar h (LEFT (LEFT i)) \<noteq> EATING \<and> state_condvar h (RIGHT (LEFT i)) \<noteq> EATING")
    case True
    have "calm h k \<or> LEFT k = i \<and> C_WaitLeft = C_WaitLeft" if "k < 5" "k \<noteq> LEFT i" for k
      using hc [OF that] i by (cases "k = RIGHT i") simp_all
    then show ?thesis unfolding put
      by (intro signal_inv [OF ho i _ _ _ _ _ _ hs hh ha]) (use i True in auto)
  next
    case False
    have "phi_put_forks_condvar i t = put_right i h" unfolding put phi_test_condvar_def using False by (rule if_not_P)
    moreover have "calm h (LEFT i)" using False by (auto simp: calm_def)
    ultimately show ?thesis using put_right_inv [OF ho i hs hh ha] hc by metis
  qed
qed

lemma signalled_inv:
  assumes inv: "monitor_inv t" and i: "i < 5"
  shows "cplace_of t i = C_Left \<Longrightarrow> monitor_inv (put_right i (cond_signal_end t))"
    and "cplace_of t i = C_Right \<Longrightarrow> monitor_inv (set_place i C_Think (leave_monitor (cond_signal_end t)))"
proof -
  define u where "u = cond_signal_end t"
  have e: "state_condvar u = state_condvar t" "cplace_of u = cplace_of t" "cv_count u = cv_count t" "cv_sem u = cv_sem t"
    by (simp_all add: u_def cond_signal_end_def)
  have q: "queued u" using monitor_invD(5) [OF inv] by (simp add: u_def cond_signal_end_def queued_def)
  have s: "cseated u k" if "k < 5" for k using monitor_invD(1) [OF inv that] by (simp add: cseated_def e)
  have a: "capart u" using monitor_invD(3) [OF inv] by (simp add: capart_def e)
  {
    assume p: "cplace_of t i \<in> {C_Left, C_Right}"
    have o: "owned t i 1 []" using inv_owner(2) [OF inv i p] .
    have "owned u i 0 []" using o by (simp add: u_def cond_signal_end_def owned_def)
    moreover have "state_condvar u i = THINKING" "cv_count u i = 0" "cv_sem u i = (0, [])"
      using s [OF i] p by (auto simp: cseated_def e)
    moreover have "calm u k \<or> LEFT k = i \<and> cplace_of t i = C_Left" if "k < 5" for k
      using inv_calm [OF inv o that] by (simp add: calm_def e)
    moreover note calculation
  }
  note B = this
  show "monitor_inv (put_right i u)" if p: "cplace_of t i = C_Left"
  proof (rule put_right_inv [OF q _ i s _ _ _ a])
    show "calm u k" if "k < 5" "k \<noteq> RIGHT i" for k using B(5) [OF _ that(1)] p that neighbours(7) [OF that(1)] by auto
  qed (use B p in simp_all)
  show "monitor_inv (set_place i C_Think (leave_monitor u))" if p: "cplace_of t i = C_Right"
  proof (rule leave_inv [OF q _ i _ _ _ s _ a])
    show "calm u k" if "k < 5" for k using B(5) [OF _ that] p by auto
  qed (use B p in \<open>simp_all add: place_sorts\<close>)
qed

lemma woken_inv:
  assumes inv: "monitor_inv t" and i: "i < 5" and p: "cplace_of t i = C_Woken"
  shows "monitor_inv (set_place i C_Eat (leave_monitor (cond_wait_end i t)))"
proof -
  obtain s where o: "owned t i 1 [s]" using inv_owner(3) [OF inv i p] by blast
  define u where "u = cond_wait_end i t"
  have e: "state_condvar u = state_condvar t" "cplace_of u = cplace_of t" "cv_sem u = cv_sem t" "mt_mutex u = mt_mutex t"
    by (simp_all add: u_def cond_wait_end_def)
  have q: "queued u" and ou: "owned u i 1 [s]" using monitor_invD(5) [OF inv] o
    by (simp_all add: u_def cond_wait_end_def queued_def owned_def)
  have sg: "s < 5" "signalling (cplace_of t s)" using o at_iff [of s signalling "cplace_of t"] by (auto simp: owned_def)
  have ps: "cplace_of u s \<in> {C_WaitLeft, C_WaitRight}"
    using sg(2) monitor_invD(1) [OF inv sg(1)] by (auto simp: signalling_def cseated_def e)
  have n: "\<not> owning C_Eat" "\<not> entering C_Eat" "\<not> signalling C_Eat" by (simp_all add: place_sorts)
  note L = leave_to_signaller [OF q ou i n ps]
  let ?v = "set_place i C_Eat (leave_monitor u)"
  have pl: "cplace_of (leave_monitor u) k = (if k = s then cgo_on (cplace_of t s) else cplace_of t k)" for k
    unfolding L(4) by (auto simp: e)
  have st: "state_condvar (leave_monitor u) = state_condvar t" "cv_sem (leave_monitor u) = cv_sem t"
    "cv_count (leave_monitor u) = (cv_count t)(i := cv_count t i - 1)"
    unfolding L(4) by (simp_all add: e u_def cond_wait_end_def)
  have "cseated ?v k" if k: "k < 5" for k
    using monitor_invD(1) [OF inv k] p L(3) ps by (auto simp: cseated_def pl st e)
  moreover have "capart ?v" using monitor_invD(3) [OF inv] by (simp add: capart_def st)
  moreover have "waits_for ?v k" if k: "k < 5" for k
    using monitor_invD(4) [OF inv k] p ps e by (auto simp: waits_for_def st pl)
  ultimately show ?thesis using L(1) by (simp add: monitor_inv_def u_def)
qed

lemma citer_inv [simp]: "monitor_inv (t\<lparr>citer := f\<rparr>) \<longleftrightarrow> monitor_inv t"
  by (simp add: monitor_inv_def cseated_def lock_ok_def queued_def unowned_def owned_def capart_def waits_for_def)

lemma center_inv:
  assumes inv: "monitor_inv t" and i: "i < 5" "cplace_of t i = C_Think \<and> got = C_Take \<and> blocked = C_WaitTake
      \<or> cplace_of t i = C_Eat \<and> got = C_Put \<and> blocked = C_WaitPut"
  shows "monitor_inv (down_mt i got blocked t)"
proof -
  let ?u = "down_mt i got blocked t"
  have "lock_ok ?u" using enter_lock [OF monitor_invD(2) [OF inv] i(1), of got blocked] i(2) by auto
  moreover have u: "state_condvar ?u = state_condvar t" "cv_sem ?u = cv_sem t" "cv_count ?u = cv_count t"
    "cplace_of ?u k = (if k = i then if fst (mt_mutex t) > 0 then got else blocked else cplace_of t k)" for k
    by (simp_all add: down_mt_def asem_down_def)
  moreover have "cseated ?u k" if "k < 5" for k
    using monitor_invD(1) [OF inv that] i by (auto simp: cseated_def u)
  moreover have "waits_for ?u k" if "k < 5" for k
    using monitor_invD(4) [OF inv that] i(2) by (auto simp: waits_for_def u)
  ultimately show ?thesis using monitor_invD(3) [OF inv] by (simp add: monitor_inv_def capart_def)
qed

lemma cquit_inv:
  assumes inv: "monitor_inv t" and i: "i < 5" and p: "cplace_of t i = C_Think"
  shows "monitor_inv (set_place i C_Quit t)"
proof -
  let ?u = "set_place i C_Quit t"
  have "at owning (cplace_of ?u) = at owning (cplace_of t)" "at signalling (cplace_of ?u) = at signalling (cplace_of t)"
    "at entering (cplace_of ?u) = at entering (cplace_of t)"
    using i p by (auto simp: at_iff place_sorts)
  note same = this
  have "queued ?u \<longleftrightarrow> queued t" "unowned ?u \<longleftrightarrow> unowned t" "owned ?u j n ss \<longleftrightarrow> owned t j n ss" for j n ss
    unfolding queued_def unowned_def owned_def same by simp_all
  moreover have "cplace_of ?u j = cplace_of t j" if "owned t j n ss" for j n ss
    using that at_iff [of j owning "cplace_of t"] p by (auto simp: owned_def owning_def)
  ultimately have "lock_ok ?u" using monitor_invD(2) [OF inv] unfolding lock_ok_def by metis
  moreover have "cseated ?u k" if "k < 5" for k using monitor_invD(1) [OF inv that] p by (auto simp: cseated_def)
  moreover have "waits_for ?u k" if "k < 5" for k using monitor_invD(4) [OF inv that] p by (auto simp: waits_for_def)
  ultimately show ?thesis using monitor_invD(3) [OF inv] unfolding monitor_inv_def capart_def by simp
qed

lemma cv_step_inv:
  assumes "cv_step t t'" and "monitor_inv t"
  shows "monitor_inv t'"
  using assms
proof (induction rule: cv_step.induct)
  case (cself i t)
  then show ?case using monitor_invD(1) [of t i] by (simp add: cseated_def)
qed (simp_all add: center_inv cquit_inv ctake_inv cput_inv woken_inv signalled_inv)

lemma cv_reachable_inv: "cv_step\<^sup>*\<^sup>* cv_init t \<Longrightarrow> monitor_inv t"
  by (induction rule: rtranclp_induct) (auto intro: cv_init_inv cv_step_inv)

lemma one_possesses:
  assumes inv: "monitor_inv t" and ij: "i < 5" "j < 5"
  shows "owning (cplace_of t i) \<and> owning (cplace_of t j) \<longrightarrow> i = j"
    and "signalling (cplace_of t i) \<and> signalling (cplace_of t j) \<longrightarrow> i = j"
    and "signalling (cplace_of t i) \<longrightarrow> next_count t = 1"
proof -
  consider "unowned t" | l n where "owned t l n []" | l s where "owned t l 1 [s]"
    using monitor_invD(2) [OF inv] unfolding lock_ok_def by metis
  then have "(owning (cplace_of t i) \<and> owning (cplace_of t j) \<longrightarrow> i = j)
    \<and> (signalling (cplace_of t i) \<and> signalling (cplace_of t j) \<longrightarrow> i = j) \<and> (signalling (cplace_of t i) \<longrightarrow> next_count t = 1)"
  proof cases
    case 1
    then have "k \<notin> at owning (cplace_of t)" "k \<notin> at signalling (cplace_of t)" for k by (simp_all add: unowned_def)
    then show ?thesis using ij by (simp add: at_iff)
  next
    case (2 l n)
    then show ?thesis using owned_place [OF 2] ij by simp
  next
    case (3 l s)
    have "next_count t = 1" using 3 by (simp add: owned_def)
    then show ?thesis using owned_place [OF 3] ij by simp
  qed
  then show "owning (cplace_of t i) \<and> owning (cplace_of t j) \<longrightarrow> i = j"
    "signalling (cplace_of t i) \<and> signalling (cplace_of t j) \<longrightarrow> i = j" "signalling (cplace_of t i) \<longrightarrow> next_count t = 1" by blast+
qed

lemma signallers_counted:
  assumes inv: "monitor_inv t"
  shows "next_count t = int (card {l. l < 5 \<and> cplace_of t l \<in> {C_WaitSelf, C_Self, C_WaitLeft, C_Left, C_WaitRight, C_Right}})"
    (is "_ = int (card ?S)")
proof -
  let ?W = "at signalling (cplace_of t)" and ?O = "at owning (cplace_of t)"
  have S: "?S = ?W \<union> {l \<in> ?O. cplace_of t l \<in> {C_Self, C_Left, C_Right}}"
    by (rule set_eqI) (auto simp: at_iff signalling_def owning_def)
  consider "unowned t" | i where "owned t i 0 []" "cplace_of t i \<in> {C_Take, C_Put}"
    | i where "owned t i 1 []" "cplace_of t i \<in> {C_Left, C_Right}" | i s where "owned t i 1 [s]" "cplace_of t i = C_Woken"
    using monitor_invD(2) [OF inv] unfolding lock_ok_def by metis
  then show ?thesis
  proof cases
    case 1
    then have "?W = {}" "?O = {}" "next_count t = 0" by (simp_all add: unowned_def)
    then show ?thesis unfolding S by simp
  next
    case (2 i)
    then have w: "?W = {}" "?O = {i}" "next_count t = 0" by (simp_all add: owned_def)
    have "{l \<in> {i}. cplace_of t l \<in> {C_Self, C_Left, C_Right}} = {}" using 2(2) by auto
    then show ?thesis unfolding S w by simp
  next
    case (3 i)
    then have w: "?W = {}" "?O = {i}" "next_count t = 1" by (simp_all add: owned_def)
    have "{l \<in> {i}. cplace_of t l \<in> {C_Self, C_Left, C_Right}} = {i}" using 3(2) by auto
    then show ?thesis unfolding S w by simp
  next
    case (4 i s)
    then have w: "?W = {s}" "?O = {i}" "next_count t = 1" by (simp_all add: owned_def)
    have "{l \<in> {i}. cplace_of t l \<in> {C_Self, C_Left, C_Right}} = {}" using 4(2) by auto
    then show ?thesis unfolding S w by simp
  qed
qed

text \<open>
  C33: with the monitor too, neighbours never eat at the same time and one thread at most is in possession of
  the monitor, whoever runs when. One thread at most waits on \<^verbatim>\<open>next\<close>, and \<^verbatim>\<open>next_count\<close> is the number of
  the threads between \<^verbatim>\<open>next_count++\<close> and \<^verbatim>\<open>next_count--\<close> of \<^verbatim>\<open>cond_signal\<close>: those that wait on \<^verbatim>\<open>next\<close>
  and the one that was woken from there and has still to go on.
\<close>

theorem condvar_philosophers_exclusive:
  assumes "cv_step\<^sup>*\<^sup>* cv_init t" and "i < 5" and "j < 5"
  shows "\<not> (cplace_of t i \<in> {C_Eat, C_WaitPut} \<and> cplace_of t (RIGHT i) \<in> {C_Eat, C_WaitPut})
    \<and> (owning (cplace_of t i) \<and> owning (cplace_of t j) \<longrightarrow> i = j)
    \<and> (cplace_of t i \<in> {C_WaitLeft, C_WaitRight} \<and> cplace_of t j \<in> {C_WaitLeft, C_WaitRight} \<longrightarrow> i = j)
    \<and> (cplace_of t i \<in> {C_WaitLeft, C_WaitRight} \<longrightarrow> next_count t = 1)
    \<and> next_count t = int (card {l. l < 5 \<and> cplace_of t l \<in> {C_WaitSelf, C_Self, C_WaitLeft, C_Left, C_WaitRight, C_Right}})"
proof -
  have inv: "monitor_inv t" by (rule cv_reachable_inv [OF assms(1)])
  have "cseated t i" "cseated t (RIGHT i)" "state_condvar t i = EATING \<longrightarrow> state_condvar t (RIGHT i) \<noteq> EATING"
    using monitor_invD(1,3) [OF inv] assms(2) by (simp_all add: capart_def)
  then have "\<not> (cplace_of t i \<in> {C_Eat, C_WaitPut} \<and> cplace_of t (RIGHT i) \<in> {C_Eat, C_WaitPut})"
    by (auto simp: cseated_def)
  moreover have "owning (cplace_of t i) \<and> owning (cplace_of t j) \<longrightarrow> i = j"
    and "signalling (cplace_of t i) \<and> signalling (cplace_of t j) \<longrightarrow> i = j" and "signalling (cplace_of t i) \<longrightarrow> next_count t = 1"
    using one_possesses [OF inv assms(2,3)] by blast+
  ultimately show ?thesis using signallers_counted [OF inv] by (simp add: signalling_def)
qed

text \<open>The first steps of a run: philosopher 0 takes his forks.\<close>

lemma cv_demo:
  defines "a \<equiv> down_mt 0 C_Take C_WaitTake (cv_init\<lparr>citer := (citer cv_init)(0 := citer cv_init 0 + 1)\<rparr>)"
  shows "cv_step cv_init a" and "cv_step a (phi_take_forks_condvar 0 a)" and "cplace_of (phi_take_forks_condvar 0 a) 0 = C_Eat"
proof -
  show "cv_step cv_init a" unfolding a_def by (rule cthink) (simp_all add: cv_init_def layout)
  show "cv_step a (phi_take_forks_condvar 0 a)"
    unfolding a_def by (rule ctake) (simp_all add: down_mt_def asem_down_def cv_init_def)
  show "cplace_of (phi_take_forks_condvar 0 a) 0 = C_Eat"
    by (simp add: a_def phi_take_forks_condvar_def phi_test_condvar_def cond_signal_def take_rest_def down_mt_def asem_down_def
        cv_init_def LEFT_def RIGHT_def)
qed

theorem condvar_philosophers_exclusive_witness:
  "\<exists>t. cv_step\<^sup>*\<^sup>* cv_init t \<and> cplace_of t 0 = C_Eat \<and> cplace_of t 1 \<noteq> C_Eat"
proof -
  obtain t where t: "cv_step\<^sup>*\<^sup>* cv_init t" "cplace_of t 0 = C_Eat"
    using cv_demo by (meson converse_rtranclp_into_rtranclp rtranclp.rtrancl_refl)
  from condvar_philosophers_exclusive [OF t(1), of 0 0] t show ?thesis by (auto simp: RIGHT_def)
qed

section \<open>No deadlock, and an end\<close>

lemma monitor_moves:
  assumes inv: "monitor_inv t" and i: "i < 5" "cplace_of t i \<noteq> C_Quit"
  shows "\<exists>t'. cv_step t t'"
proof (rule ccontr)
  assume no: "\<nexists>t'. cv_step t t'"
  have seat: "cseated t j" if "j < 5" for j using monitor_invD(1) [OF inv that] .
  have stuck: "cplace_of t j \<in> {C_WaitTake, C_WaitCv, C_WaitPut, C_WaitLeft, C_WaitRight, C_Quit}" if "j < 5" for j
    using no that seat [OF that]
    by (cases "citer t j < TIMES"; cases "cplace_of t j"; auto simp: cseated_def intro: cv_step.intros)
  have "\<not> owned t j n ss" for j n ss
    using stuck [of j] at_iff [of j owning "cplace_of t"] by (auto simp: owned_def owning_def)
  then have u: "unowned t" "queued t" using monitor_invD(2) [OF inv] by (auto simp: lock_ok_def)
  have "at signalling (cplace_of t) = {}" "at entering (cplace_of t) = {}" using u by (simp_all add: unowned_def queued_def)
  then have none: "\<not> signalling (cplace_of t j)" "\<not> entering (cplace_of t j)" if "j < 5" for j
    using at_iff [of j _ "cplace_of t"] that by auto
  have w: "cplace_of t j \<in> {C_WaitCv, C_Quit}" if "j < 5" for j
    using stuck [OF that] none [OF that] by (auto simp: place_sorts)
  have ph: "state_condvar t j \<in> {HUNGRY, THINKING}" if "j < 5" for j
    using w [OF that] seat [OF that] by (auto simp: cseated_def)
  have "state_condvar t i = HUNGRY" using w [OF i(1)] i(2) seat [OF i(1)] by (auto simp: cseated_def)
  then show False
    using monitor_invD(4) [OF inv i(1)] ph [of "LEFT i"] ph [of "RIGHT i"] w [of "LEFT i"] i(1) by (auto simp: waits_for_def)
qed

fun crank :: "cplace \<Rightarrow> nat" where
  "crank C_Quit = 0" | "crank C_Think = 1"
| "crank C_Right = 2" | "crank C_WaitRight = 3" | "crank C_Left = 4" | "crank C_WaitLeft = 5"
| "crank C_Put = 6" | "crank C_WaitPut = 7" | "crank C_Eat = 8"
| "crank C_Woken = 9" | "crank C_WaitCv = 10" | "crank C_Self = 11" | "crank C_WaitSelf = 12"
| "crank C_Take = 13" | "crank C_WaitTake = 14"

text \<open>\<open>keeps\<close>: nobody falls back or quits; \<open>moves i\<close>: and thread \<open>i\<close> comes forward.\<close>

definition keeps :: "monitor \<Rightarrow> monitor \<Rightarrow> bool" where
  "keeps t u \<longleftrightarrow> citer u = citer t \<and>
     (\<forall>j. crank (cplace_of u j) \<le> crank (cplace_of t j) \<and> (crank (cplace_of u j) = 0 \<longleftrightarrow> crank (cplace_of t j) = 0))"

definition moves :: "nat \<Rightarrow> monitor \<Rightarrow> monitor \<Rightarrow> bool" where
  "moves i t u \<longleftrightarrow> citer u = citer t \<and> crank (cplace_of u i) < crank (cplace_of t i) \<and> 0 < crank (cplace_of u i) \<and>
     (\<forall>j. j \<noteq> i \<longrightarrow> crank (cplace_of u j) \<le> crank (cplace_of t j) \<and> (crank (cplace_of u j) = 0 \<longleftrightarrow> crank (cplace_of t j) = 0))"

lemma crank_go_on: "crank (cgo_on p) \<le> crank p" "crank (cgo_on p) = 0 \<longleftrightarrow> crank p = 0"
  by (cases p; simp)+

lemma keeps_refl: "keeps t t" and keeps_trans: "keeps t u \<Longrightarrow> keeps u v \<Longrightarrow> keeps t v"
  by (auto simp: keeps_def intro: order_trans)

lemma keeps_fields:
  assumes "keeps t u"
  shows "keeps t (u\<lparr>mt_mutex := a\<rparr>)" "keeps t (u\<lparr>mt_next := a\<rparr>)" "keeps t (u\<lparr>cv_sem := f\<rparr>)" "keeps t (u\<lparr>next_count := n\<rparr>)"
    "keeps t (u\<lparr>cv_count := c\<rparr>)" "keeps t (u\<lparr>state_condvar := p\<rparr>)"
  using assms by (simp_all add: keeps_def)

lemma keeps_released: "keeps t u \<Longrightarrow> keeps t (released w u)"
  by (rule keeps_trans) (auto simp: keeps_def released_def crank_go_on split: option.split)

lemma keeps_ops:
  assumes "keeps t u"
  shows "keeps t (up_mt u)" "keeps t (up_next u)" "keeps t (up_cv j u)" "keeps t (leave_monitor u)" "keeps t (cond_signal_end u)"
    "keeps t (cond_wait_end j u)"
  using keeps_released keeps_fields [OF assms]
  by (simp_all add: up_mt_def up_next_def up_cv_def leave_monitor_def cond_signal_end_def cond_wait_end_def split: prod.split)

lemma moves_place: "keeps t u \<Longrightarrow> crank p < crank (cplace_of t i) \<Longrightarrow> 0 < crank p \<Longrightarrow> moves i t (set_place i p u)"
  by (auto simp: moves_def keeps_def)

lemma moves_down:
  assumes "keeps t u" and "crank got < crank (cplace_of t i)" "0 < crank got" "crank blocked < crank (cplace_of t i)" "0 < crank blocked"
  shows "moves i t (down_mt i got blocked u)" "moves i t (down_next i got blocked u)" "moves i t (down_cv j i got blocked u)"
  using moves_place [OF keeps_fields(1) [OF assms(1)]] moves_place [OF keeps_fields(2) [OF assms(1)]]
    moves_place [OF keeps_fields(3) [OF assms(1)]] assms(2-)
  by (simp_all add: down_mt_def down_next_def down_cv_def asem_down_def split: prod.split)

lemma moves_test:
  assumes "keeps t u" and "crank got < crank (cplace_of t i)" "0 < crank got" "crank blocked < crank (cplace_of t i)" "0 < crank blocked"
    and "\<And>v. keeps t v \<Longrightarrow> moves i t (cont v)"
  shows "moves i t (phi_test_condvar j i got blocked cont u)"
  using assms(6) [OF assms(1)] assms(6) [OF keeps_fields(6) [OF assms(1)]]
    moves_down(2) [OF keeps_ops(3) [OF keeps_fields(4) [OF keeps_fields(6) [OF assms(1)]]] assms(2-5)]
  by (simp add: phi_test_condvar_def cond_signal_def)

lemma moves_take_rest:
  "keeps t u \<Longrightarrow> cplace_of t i \<in> {C_Take, C_Self} \<Longrightarrow> moves i t (take_rest i u)"
  unfolding take_rest_def cond_wait_def by (auto intro!: moves_down(3) moves_place keeps_ops keeps_fields)

lemma moves_put_right:
  "keeps t u \<Longrightarrow> cplace_of t i \<in> {C_Put, C_Left} \<Longrightarrow> moves i t (put_right i u)"
  unfolding put_right_def by (rule moves_test) (auto intro!: moves_place keeps_ops)

lemma cv_step_cases:
  assumes "cv_step t t'"
  obtains (think) i where "i < 5" "cplace_of t i = C_Think" "citer t i < TIMES"
      "citer t' = (citer t)(i := citer t i + 1)" "crank (cplace_of t' i) \<in> {13, 14}" "\<And>j. j \<noteq> i \<Longrightarrow> cplace_of t' j = cplace_of t j"
  | (quit) i where "i < 5" "cplace_of t i = C_Think" "\<not> citer t i < TIMES"
      "t' = set_place i C_Quit (t\<lparr>citer := (citer t)(i := citer t i + 1)\<rparr>)"
  | (move) i where "i < 5" "moves i t t'"
  using assms
proof cases
  case (cthink i)
  then show ?thesis by (intro think [of i]) (simp_all add: down_mt_def asem_down_def)
next
  case (cquit i)
  then show ?thesis by (intro quit) simp_all
next
  case (ctake i)
  have "moves i t t'" unfolding ctake(1) phi_take_forks_condvar_def
    by (rule moves_test [OF keeps_fields(6) [OF keeps_refl]]) (use ctake in \<open>auto intro: moves_take_rest\<close>)
  then show ?thesis using ctake by (intro move) simp_all
next
  case (cself i)
  then show ?thesis by (intro move [of i]) (simp_all add: moves_take_rest keeps_ops keeps_refl)
next
  case (cwoken i)
  then show ?thesis by (intro move [of i]) (simp_all add: moves_place keeps_ops keeps_refl)
next
  case (ceat i)
  then show ?thesis by (intro move [of i]) (simp_all add: moves_down keeps_refl)
next
  case (cput i)
  have "moves i t t'" unfolding cput(1) phi_put_forks_condvar_def
    by (rule moves_test [OF keeps_fields(6) [OF keeps_refl]]) (use cput in \<open>auto intro: moves_put_right\<close>)
  then show ?thesis using cput by (intro move) simp_all
next
  case (cleft i)
  then show ?thesis by (intro move [of i]) (simp_all add: moves_put_right keeps_ops keeps_refl)
next
  case (cright i)
  then show ?thesis by (intro move [of i]) (simp_all add: moves_place keeps_ops keeps_refl)
qed

text \<open>The work left, which every step uses up.\<close>

definition cwork1 :: "monitor \<Rightarrow> nat \<Rightarrow> nat" where
  "cwork1 t i = 16 * (TIMES - citer t i) + crank (cplace_of t i)"

definition cwork :: "monitor \<Rightarrow> nat" where
  "cwork t = (\<Sum>i<5. cwork1 t i)"

lemma cwork_less:
  assumes "i < 5" and "cwork1 t' i < cwork1 t i" and "\<And>j. j \<noteq> i \<Longrightarrow> cwork1 t' j \<le> cwork1 t j"
  shows "cwork t' < cwork t"
  unfolding cwork_def
proof (rule sum_strict_mono_ex1)
  show "\<forall>j\<in>{..<5}. cwork1 t' j \<le> cwork1 t j" using assms(2,3) by (metis less_imp_le)
  show "\<exists>j\<in>{..<5}. cwork1 t' j < cwork1 t j" using assms(1,2) by auto
qed simp

lemma cv_step_work:
  assumes "cv_step t t'"
  shows "cwork t' < cwork t"
  using assms
proof (cases rule: cv_step_cases)
  case (think i)
  then show ?thesis by (intro cwork_less [of i]) (auto simp: cwork1_def)
next
  case (quit i)
  then show ?thesis by (intro cwork_less [of i]) (auto simp: cwork1_def)
next
  case (move i)
  then show ?thesis by (intro cwork_less [of i]) (auto simp: cwork1_def moves_def)
qed

definition citer_ok :: "monitor \<Rightarrow> bool" where
  "citer_ok t \<longleftrightarrow> (\<forall>i<5. if crank (cplace_of t i) = 0 then citer t i = TIMES + 1 else citer t i \<le> TIMES)"

lemma cv_step_iter:
  assumes "cv_step t t'" and "citer_ok t"
  shows "citer_ok t'"
  using assms(1)
proof (cases rule: cv_step_cases)
  case (think i)
  then show ?thesis using assms(2) by (auto simp: citer_ok_def)
next
  case (quit i)
  then have "citer t i = TIMES" using assms(2) by (auto simp: citer_ok_def)
  then show ?thesis using assms(2) quit by (simp add: citer_ok_def)
next
  case (move i)
  have "(if crank (cplace_of t' j) = 0 then citer t' j = TIMES + 1 else citer t' j \<le> TIMES)" if "j < 5" for j
    using assms(2) move(2) that by (cases "j = i") (auto simp: moves_def citer_ok_def split: if_splits)
  then show ?thesis by (simp add: citer_ok_def)
qed

lemma cv_reachable_iter: "cv_step\<^sup>*\<^sup>* cv_init t \<Longrightarrow> citer_ok t"
proof (induction rule: rtranclp_induct)
  case base
  then show ?case by (simp add: citer_ok_def cv_init_def)
qed (rule cv_step_iter)

text \<open>
  C34: the philosophers over the monitor end too, after at most 325 steps, and only when all five have
  quit after four rounds: no signal is lost, no deadlock, no starvation.
\<close>

theorem condvar_philosophers_finish:
  assumes "(cv_step ^^ n) cv_init t"
  shows "n \<le> 325 \<and> ((\<nexists>t'. cv_step t t') \<longleftrightarrow> (\<forall>i<5. cplace_of t i = C_Quit))
    \<and> ((\<nexists>t'. cv_step t t') \<longrightarrow> (\<forall>i<5. citer t i = TIMES + 1))"
proof -
  have "(cv_step ^^ n) s t \<Longrightarrow> n + cwork t \<le> cwork s" for s
    by (induction n arbitrary: t) (fastforce dest: cv_step_work)+
  from this [OF assms] have n: "n \<le> 325" by (simp add: cwork_def cwork1_def cv_init_def layout)
  have r: "cv_step\<^sup>*\<^sup>* cv_init t" using assms by (metis rtranclp_power)
  have "\<not> cv_step t t'" if q: "\<forall>i<5. cplace_of t i = C_Quit" for t'
    using q by (auto elim!: cv_step.cases)
  then have "(\<nexists>t'. cv_step t t') \<longleftrightarrow> (\<forall>i<5. cplace_of t i = C_Quit)"
    using monitor_moves [OF cv_reachable_inv [OF r]] by blast
  with n cv_reachable_iter [OF r] show ?thesis by (simp add: citer_ok_def)
qed

theorem condvar_philosophers_finish_witness:
  "\<exists>t. (cv_step ^^ 2) cv_init t \<and> \<not> (\<forall>i<5. cplace_of t i = C_Quit) \<and> (\<exists>t'. cv_step t t')"
proof -
  obtain t where r: "(cv_step ^^ 2) cv_init t" and e: "cplace_of t 0 = C_Eat"
    using cv_demo by (auto simp: numeral_2_eq_2)
  have "\<not> (\<forall>i<5. cplace_of t i = C_Quit)" using e by (auto intro!: exI [of _ 0])
  with condvar_philosophers_finish [OF r] r show ?thesis by blast
qed

end
