(* ===== verification/PageTable.thy ===== *)
theory PageTable
  imports Paging
begin

text \<open>
  What the page tables of \<open>Paging\<close> mean. The words of physical pages are seen as tables of 512 cells
  with frame numbers; a tree of tables of the levels 2, 1 and 0 translates an address the way the
  Sv39 unit does. \<^verbatim>\<open>page_insert\<close> and \<^verbatim>\<open>page_remove\<close> are shown to update this translation as a map, and
  \<^verbatim>\<open>get_pte\<close> to add tables without changing it.
\<close>

section \<open>Pages as tables of cells\<close>

definition kva :: "nat \<Rightarrow> u64" where
  "kva p = page2pa p + va_pa_offset"

definition slot :: "nat \<Rightarrow> nat \<Rightarrow> u64" where
  "slot p i = entry (kva p) (of_nat i)"

definition cell :: "phys \<Rightarrow> nat \<Rightarrow> nat \<Rightarrow> u64" where
  "cell s p i = words s (slot p i)"

definition present :: "u64 \<Rightarrow> bool" where
  "present e \<longleftrightarrow> e AND PTE_V \<noteq> 0"

definition frame :: "u64 \<Rightarrow> nat" where
  "frame e = unat (PPN (PTE_ADDR e) - nbase)"

lemma ppn_nat: "p < 2 ^ 18 \<Longrightarrow> unat (page2ppn p) = p + 0x80000"
  by (simp add: page2ppn_def layout unat_word_ariths unat_of_nat)

lemma pa_nat: "p < 2 ^ 18 \<Longrightarrow> unat (page2pa p) = (p + 0x80000) * 4096"
  by (simp add: page2pa_def push_bit_eq_mult unat_word_ariths ppn_nat)

lemma kva_nat: "p < 2 ^ 18 \<Longrightarrow> unat (kva p) = 0xFFFFFFFFC0000000 + 4096 * p"
  by (simp add: kva_def unat_word_ariths pa_nat layout)

lemma PPN_pa: "p < 2 ^ 18 \<Longrightarrow> PPN (page2pa p) = page2ppn p"
  by (simp add: word_unat_eq_iff PPN_def drop_bit_eq_div unat_div pa_nat ppn_nat)

lemma slot_nat: "p < 2 ^ 18 \<Longrightarrow> i < 512 \<Longrightarrow> unat (slot p i) = 0xFFFFFFFFC0000000 + 4096 * p + 8 * i"
  by (simp add: slot_def entry_def unat_word_ariths kva_nat unat_of_nat)

lemma slot_inj [simp]:
  assumes "p < 2 ^ 18" "q < 2 ^ 18" "i < 512" "j < 512"
  shows "slot p i = slot q j \<longleftrightarrow> p = q \<and> i = j"
proof
  assume "slot p i = slot q j"
  then have "unat (slot p i) = unat (slot q j)" by simp
  then have "4096 * p + 8 * i = 4096 * q + 8 * j" using slot_nat assms by simp
  then have "\<not> p < q" "\<not> q < p" "p = q \<Longrightarrow> i = j" using assms(3,4) by linarith+
  then show "p = q \<and> i = j" by auto
qed simp

lemma slot_not_null [simp]: "p < 2 ^ 18 \<Longrightarrow> i < 512 \<Longrightarrow> slot p i \<noteq> 0"
  using slot_nat [of p i] by auto

lemma cell_write [simp]:
  assumes "p < 2 ^ 18" "q < 2 ^ 18" "i < 512" "j < 512"
  shows "cell (write_word (slot p i) v s) q j = (if q = p \<and> j = i then v else cell s q j)"
  using slot_inj [OF assms] by (auto simp: cell_def write_word_def)

lemma cell_zero [simp]:
  assumes "p < 2 ^ 18 - 1" "q < 2 ^ 18" "j < 512"
  shows "cell (zero_page (kva p) s) q j = (if q = p then 0 else cell s q j)"
proof -
  have "unat (kva p + 4096) = unat (kva p) + 4096" using assms(1) by (simp add: unat_word_ariths kva_nat)
  then have "kva p \<le> slot q j \<and> slot q j < kva p + 4096 \<longleftrightarrow> q = p"
    using assms by (auto simp: word_le_nat_alt word_less_nat_alt kva_nat slot_nat)
  then show ?thesis by (simp add: cell_def zero_page_def)
qed

lemma cell_area [simp]: "cell (s\<lparr>area := a\<rparr>) = cell s"
  by (simp add: cell_def fun_eq_iff)

lemma PTE_ADDR_create:
  assumes "p < 2 ^ 18" and "ty AND NOT 0x3FF = 0"
  shows "PTE_ADDR (pte_create (page2ppn p) ty) = page2pa p"
proof -
  have "(push_bit 10 n OR PTE_V OR ty) AND NOT 0x3FF = push_bit 10 n" for n :: u64
  proof -
    have "(push_bit 10 n OR PTE_V OR ty) AND NOT 0x3FF = (push_bit 10 n AND NOT 0x3FF) OR (PTE_V AND NOT 0x3FF) OR (ty AND NOT 0x3FF)"
      by (simp add: bit.conj_disj_distrib2)
    also have "(push_bit 10 n AND NOT 0x3FF) = push_bit 10 n"
    proof (rule bit_word_eqI)
      have m: "(0x3FF :: u64) = mask 10" by (simp add: mask_eq_exp_minus_1)
      show "bit (push_bit 10 n AND NOT 0x3FF) k = bit (push_bit 10 n) k" for k
        unfolding m by (auto simp: bit_simps)
    qed
    finally show ?thesis using assms(2) by (simp add: layout)
  qed
  then show ?thesis by (simp add: PTE_ADDR_def pte_create_def page2pa_def)
qed

lemma present_create [simp]: "present (pte_create n ty)"
proof -
  have "bit (pte_create n ty AND PTE_V) 0" by (simp add: pte_create_def layout bit_simps)
  then show ?thesis unfolding present_def by (metis bit_0_eq bot_apply bot_bool_def)
qed

lemma present_0 [simp]: "\<not> present 0"
  by (simp add: present_def)

lemma frame_pa: "p < 2 ^ 18 \<Longrightarrow> PTE_ADDR e = page2pa p \<Longrightarrow> frame e = p"
  by (simp add: frame_def PPN_pa page2ppn_def unat_of_nat)

section \<open>Trees of tables\<close>

definition idx2 :: "u64 \<Rightarrow> nat" where "idx2 la = unat (PDX1 la)"
definition idx1 :: "u64 \<Rightarrow> nat" where "idx1 la = unat (PDX0 la)"
definition idx0 :: "u64 \<Rightarrow> nat" where "idx0 la = unat (PTX la)"

definition child :: "phys \<Rightarrow> nat \<Rightarrow> nat \<Rightarrow> nat option" where
  "child s p i = (if present (cell s p i) then Some (frame (cell s p i)) else None)"

text \<open>The cell that a walk ends at, and the entry it finds there.\<close>

definition leaf :: "phys \<Rightarrow> nat \<Rightarrow> u64 \<Rightarrow> (nat \<times> nat) option" where
  "leaf s r la = do { p \<leftarrow> child s r (idx2 la); q \<leftarrow> child s p (idx1 la); Some (q, idx0 la) }"

definition translate :: "phys \<Rightarrow> nat \<Rightarrow> u64 \<Rightarrow> u64 option" where
  "translate s r la = do { (q, i) \<leftarrow> leaf s r la; if present (cell s q i) then Some (cell s q i) else None }"

definition same_page :: "u64 \<Rightarrow> u64 \<Rightarrow> bool" where
  "same_page la la' \<longleftrightarrow> idx2 la = idx2 la' \<and> idx1 la = idx1 la' \<and> idx0 la = idx0 la'"

text \<open>
  \<open>typed T M s\<close>: of the \<open>M\<close> pages, those with a level in \<open>T\<close> are tables; a present cell of a table points to a
  page, which for a table of level \<open>Suc k\<close> is a table of level \<open>k\<close>.
\<close>

definition typed :: "(nat \<Rightarrow> nat option) \<Rightarrow> nat \<Rightarrow> phys \<Rightarrow> bool" where
  "typed T M s \<longleftrightarrow> M < 2 ^ 18 \<and> npage s = nbase + of_nat M \<and> (\<forall>p l. T p = Some l \<longrightarrow> p < M) \<and>
     (\<forall>p l i. T p = Some l \<longrightarrow> i < 512 \<longrightarrow> present (cell s p i) \<longrightarrow>
       (\<exists>q<M. PTE_ADDR (cell s p i) = page2pa q \<and> (\<forall>k. l = Suc k \<longrightarrow> T q = Some k)))"

definition tree :: "phys \<Rightarrow> nat \<Rightarrow> bool" where
  "tree s r \<longleftrightarrow> (\<forall>i<512. \<forall>j<512. \<forall>p. child s r i = Some p \<and> child s r j = Some p \<longrightarrow> i = j) \<and>
     (\<forall>i<512. \<forall>i'<512. \<forall>j<512. \<forall>j'<512. \<forall>p p' q. child s r i = Some p \<and> child s r i' = Some p' \<and>
       child s p j = Some q \<and> child s p' j' = Some q \<longrightarrow> p = p' \<and> j = j')"

lemma treeD:
  assumes "tree s r"
  shows "i < 512 \<Longrightarrow> j < 512 \<Longrightarrow> child s r i = Some x \<Longrightarrow> child s r j = Some x \<Longrightarrow> i = j"
    and "i < 512 \<Longrightarrow> i' < 512 \<Longrightarrow> j < 512 \<Longrightarrow> j' < 512 \<Longrightarrow> child s r i = Some p \<Longrightarrow> child s r i' = Some p' \<Longrightarrow>
      child s p j = Some x \<Longrightarrow> child s p' j' = Some x \<Longrightarrow> p = p' \<and> j = j'"
proof -
  have one: "\<forall>i<512. \<forall>j<512. \<forall>p. child s r i = Some p \<and> child s r j = Some p \<longrightarrow> i = j"
    and two: "\<forall>i<512. \<forall>i'<512. \<forall>j<512. \<forall>j'<512. \<forall>p p' q. child s r i = Some p \<and> child s r i' = Some p' \<and>
       child s p j = Some q \<and> child s p' j' = Some q \<longrightarrow> p = p' \<and> j = j'"
    by (rule conjunct1 [OF assms [unfolded tree_def]], rule conjunct2 [OF assms [unfolded tree_def]])
  show "i < 512 \<Longrightarrow> j < 512 \<Longrightarrow> child s r i = Some x \<Longrightarrow> child s r j = Some x \<Longrightarrow> i = j"
    by (rule one [rule_format, of i j x]) simp_all
  show "i < 512 \<Longrightarrow> i' < 512 \<Longrightarrow> j < 512 \<Longrightarrow> j' < 512 \<Longrightarrow> child s r i = Some p \<Longrightarrow> child s r i' = Some p' \<Longrightarrow>
      child s p j = Some x \<Longrightarrow> child s p' j' = Some x \<Longrightarrow> p = p' \<and> j = j'"
    using two [rule_format, of i i' j j' p p' x] by (simp only: simp_thms)
qed

lemma treeI:
  assumes "\<And>i j x. i < 512 \<Longrightarrow> j < 512 \<Longrightarrow> child s r i = Some x \<Longrightarrow> child s r j = Some x \<Longrightarrow> i = j"
    and "\<And>i i' j j' p p' x. i < 512 \<Longrightarrow> i' < 512 \<Longrightarrow> j < 512 \<Longrightarrow> j' < 512 \<Longrightarrow> child s r i = Some p \<Longrightarrow> child s r i' = Some p' \<Longrightarrow>
      child s p j = Some x \<Longrightarrow> child s p' j' = Some x \<Longrightarrow> p = p' \<and> j = j'"
  shows "tree s r"
  unfolding tree_def
proof (intro conjI)
  show "\<forall>i<512. \<forall>j<512. \<forall>x. child s r i = Some x \<and> child s r j = Some x \<longrightarrow> i = j"
    using assms(1) by simp
  show "\<forall>i<512. \<forall>i'<512. \<forall>j<512. \<forall>j'<512. \<forall>p p' x. child s r i = Some p \<and> child s r i' = Some p' \<and>
      child s p j = Some x \<and> child s p' j' = Some x \<longrightarrow> p = p' \<and> j = j'"
  proof (intro allI impI)
    fix i i' j j' p p' x
    assume h: "i < 512" "i' < 512" "j < 512" "j' < 512" "child s r i = Some p \<and> child s r i' = Some p' \<and> child s p j = Some x \<and> child s p' j' = Some x"
    show "p = p' \<and> j = j'" by (rule assms(2) [of i i' j j' p p' x]) (simp_all add: h)
  qed
qed

text \<open>Page tables below the root \<open>r\<close>, with the free pages \<open>F\<close>.\<close>

definition pt_inv :: "(nat \<Rightarrow> nat option) \<Rightarrow> nat \<Rightarrow> nat set \<Rightarrow> nat \<Rightarrow> phys \<Rightarrow> bool" where
  "pt_inv T M F r s \<longleftrightarrow> typed T M s \<and> tree s r \<and> T r = Some 2 \<and> free_pages (area s) F \<and> F \<subseteq> {..<M} \<and> F \<inter> dom T = {}"

lemma idx_less [simp]: "idx2 la < 512" "idx1 la < 512" "idx0 la < 512"
proof -
  have "unat (x AND 0x1FF) < 512" for x :: u64
  proof -
    have "x AND 0x1FF = take_bit 9 x" by (simp add: take_bit_eq_mask mask_eq_exp_minus_1)
    then have "unat (x AND 0x1FF) = take_bit 9 (unat x)" by (simp add: unsigned_take_bit_eq)
    then show ?thesis by (simp add: take_bit_eq_mod)
  qed
  then show "idx2 la < 512" "idx1 la < 512" "idx0 la < 512"
    by (simp_all add: idx2_def idx1_def idx0_def PDX1_def PDX0_def PTX_def)
qed

lemma entry_slot: "entry (kva p) (PDX1 la) = slot p (idx2 la)" "entry (kva p) (PDX0 la) = slot p (idx1 la)"
  "entry (kva p) (PTX la) = slot p (idx0 la)"
  by (simp_all add: slot_def idx2_def idx1_def idx0_def)

lemma typedD:
  assumes "typed T M s"
  shows "M < 2 ^ 18" "npage s = nbase + of_nat M" "T p = Some l \<Longrightarrow> p < M"
    and "T p = Some l \<Longrightarrow> i < 512 \<Longrightarrow> present (cell s p i) \<Longrightarrow>
      \<exists>q<M. PTE_ADDR (cell s p i) = page2pa q \<and> (\<forall>k. l = Suc k \<longrightarrow> T q = Some k)"
  using assms unfolding typed_def by blast+

lemma child_typed:
  assumes t: "typed T M s" and p: "T p = Some l" "i < 512" and c: "child s p i = Some q"
  shows "q < M" "PTE_ADDR (cell s p i) = page2pa q" "l = Suc k \<Longrightarrow> T q = Some k"
proof -
  obtain q' where q': "q' < M" "PTE_ADDR (cell s p i) = page2pa q'" "\<forall>k. l = Suc k \<longrightarrow> T q' = Some k"
    using typedD(4) [OF t p] c by (auto simp: child_def split: if_splits)
  have "q' = q" using frame_pa [OF _ q'(2)] q'(1) typedD(1) [OF t] c by (auto simp: child_def split: if_splits)
  with q' show "q < M" "PTE_ADDR (cell s p i) = page2pa q" "l = Suc k \<Longrightarrow> T q = Some k" by simp_all
qed

lemma page_in_memory:
  assumes "typed T M s" and "q < M"
  shows "KADDR (page2pa q) s = Some (kva q)" "pa2page (page2pa q) s = Some q"
proof -
  have q: "q < 2 ^ 18" using typedD(1) [OF assms(1)] assms(2) by simp
  have "unat (npage s) = M + 0x80000" using typedD(1,2) [OF assms(1)] by (simp add: layout unat_word_ariths unat_of_nat)
  then have "\<not> npage s \<le> PPN (page2pa q)" using assms(2) q by (simp add: word_le_nat_alt PPN_pa ppn_nat)
  then show "KADDR (page2pa q) s = Some (kva q)" "pa2page (page2pa q) s = Some q"
    using frame_pa [OF q, of "push_bit 10 (page2ppn q) OR PTE_V"] q
    by (simp_all add: KADDR_def pa2page_def kva_def PPN_pa page2ppn_def unat_of_nat)
qed

lemma child_write [simp]:
  assumes "p < 2 ^ 18" "q < 2 ^ 18" "i < 512" "j < 512"
  shows "child (write_word (slot p i) v s) q j =
    (if q = p \<and> j = i then (if present v then Some (frame v) else None) else child s q j)"
  using assms by (simp add: child_def)

lemma leaf_levels:
  assumes inv: "pt_inv T M F r s" and l: "leaf s r la = Some (q, i)"
  obtains p where "child s r (idx2 la) = Some p" "child s p (idx1 la) = Some q" "i = idx0 la"
    "T r = Some 2" "T p = Some 1" "T q = Some 0" "r < M" "p < M" "q < M"
proof -
  have t: "typed T M s" and r: "T r = Some (Suc 1)" using inv by (simp_all add: pt_inv_def numeral_2_eq_2)
  obtain p where p: "child s r (idx2 la) = Some p" "child s p (idx1 la) = Some q" "i = idx0 la"
    using l by (auto simp: leaf_def split: Option.bind_splits)
  have "T p = Some 1" using child_typed(3) [OF t r _ p(1)] by simp
  moreover from this have "T q = Some 0" using child_typed(3) [OF t _ _ p(2)] by simp
  ultimately show ?thesis using that p typedD(3) [OF t] inv by (metis pt_inv_def)
qed

lemma leaf_bounds:
  assumes inv: "pt_inv T M F r s" and l: "leaf s r la = Some (q, i)"
  shows "q < M" "q < 2 ^ 18" "i < 512" "T q = Some 0" "i = idx0 la"
proof -
  have "M < 2 ^ 18" using inv typedD(1) by (auto simp: pt_inv_def)
  moreover obtain p where "i = idx0 la" "T p = Some 1" "T q = Some 0" "q < M" by (rule leaf_levels [OF inv l]) (rule that)
  ultimately show "q < M" "q < 2 ^ 18" "i < 512" "T q = Some 0" "i = idx0 la" by simp_all
qed

text \<open>Equal cells on the tables mean equal translation.\<close>

lemma translate_cong:
  assumes inv: "pt_inv T M F r s" and c: "\<And>p i. T p \<noteq> None \<Longrightarrow> i < 512 \<Longrightarrow> cell u p i = cell s p i"
  shows "leaf u r la = leaf s r la" "translate u r la = translate s r la"
proof -
  have t: "typed T M s" and r: "T r = Some (Suc 1)" using inv by (simp_all add: pt_inv_def numeral_2_eq_2)
  have ch: "child u p i = child s p i" if "T p \<noteq> None" "i < 512" for p i using c [OF that] by (simp add: child_def)
  have "child u p (idx1 la) = child s p (idx1 la)" if "child s r (idx2 la) = Some p" for p
    using child_typed(3) [OF t r _ that] by (intro ch) simp_all
  then show l: "leaf u r la = leaf s r la" using ch [of r "idx2 la"] r by (auto simp: leaf_def split: Option.bind_splits)
  have "cell u q i = cell s q i" if "leaf s r la = Some (q, i)" for q i
    by (rule leaf_levels [OF inv that]) (simp add: c)
  then show "translate u r la = translate s r la" unfolding translate_def l by (auto split: Option.bind_splits)
qed

text \<open>A free page becomes an empty table below cell \<open>i\<close> of table \<open>p\<close>.\<close>

definition table_added :: "nat \<Rightarrow> nat \<Rightarrow> nat \<Rightarrow> u64 \<Rightarrow> phys \<Rightarrow> phys \<Rightarrow> bool" where
  "table_added p i q e s t \<longleftrightarrow> present e \<and> PTE_ADDR e = page2pa q \<and> npage t = npage s \<and> child s p i = None \<and>
     (\<forall>p'<2 ^ 18. \<forall>j<512. cell t p' j = (if p' = p \<and> j = i then e else if p' = q then 0 else cell s p' j))"

lemma added_start:
  assumes "pt_inv T M F r s" "T p = Some (Suc l)" "q \<in> F"
  shows "typed T M s" "T r = Some (Suc 1)" "tree s r" "T q = None" "q < M" "M < 2 ^ 18" "p < M" "p \<noteq> q"
proof -
  show t: "typed T M s" "T r = Some (Suc 1)" "tree s r" and "T q = None" "q < M"
    using assms by (auto simp: pt_inv_def numeral_2_eq_2)
  then show "M < 2 ^ 18" "p < M" "p \<noteq> q" using typedD(1,3) assms(2) by auto
qed

lemma added_children:
  assumes a: "table_added p i q e s t" and "M < 2 ^ 18" "q < M" and "p \<noteq> q" and "p' < M" "j < 512"
  shows "child t p' j = (if p' = p \<and> j = i then Some q else if p' = q then None else child s p' j)"
proof -
  have "cell t p' j = (if p' = p \<and> j = i then e else if p' = q then 0 else cell s p' j)" and "present e" "frame e = q"
    using a assms(2-) frame_pa [of q e] by (simp_all add: table_added_def)
  then show ?thesis by (cases "p' = p \<and> j = i") (auto simp: child_def)
qed

lemma added_typed:
  assumes inv: "pt_inv T M F r s" and p: "T p = Some (Suc l)" "i < 512" and q: "q \<in> F" and a: "table_added p i q e s t"
  shows "typed (T(q \<mapsto> l)) M t"
proof -
  note S = added_start [OF inv p(1) q]
  have cells: "cell t p' j = (if p' = p \<and> j = i then e else if p' = q then 0 else cell s p' j)" if "p' < 2 ^ 18" "j < 512" for p' j
    using a that by (simp add: table_added_def)
  have e: "present e" "PTE_ADDR e = page2pa q" using a by (simp_all add: table_added_def)
  have "\<exists>g<M. PTE_ADDR (cell t p' j) = page2pa g \<and> (\<forall>k. l' = Suc k \<longrightarrow> (T(q \<mapsto> l)) g = Some k)"
    if h: "(T(q \<mapsto> l)) p' = Some l'" "j < 512" "present (cell t p' j)" for p' l' j
  proof (cases "p' = q")
    case True
    then show ?thesis using h cells [of q j] S by auto
  next
    case False
    then have T: "T p' = Some l'" "p' < M" using h(1) typedD(3) [OF S(1)] by auto
    show ?thesis
    proof (cases "p' = p \<and> j = i")
      case True
      then show ?thesis using T(1) p(1) e S cells [of p i] p(2) by auto
    next
      case old: False
      have c: "cell t p' j = cell s p' j" using cells [of p' j] h(2) T(2) S(6) False old by auto
      then obtain g where "g < M" "PTE_ADDR (cell s p' j) = page2pa g" "\<forall>k. l' = Suc k \<longrightarrow> T g = Some k"
        using typedD(4) [OF S(1) T(1) h(2)] h(3) by auto
      then show ?thesis using S(4) unfolding c by (intro exI [of _ g]) (auto simp: fun_upd_def)
    qed
  qed
  moreover have "(T(q \<mapsto> l)) p' = Some l' \<Longrightarrow> p' < M" for p' l' using typedD(3) [OF S(1)] S(5) by (auto split: if_splits)
  moreover have "npage t = npage s" using a by (simp add: table_added_def)
  ultimately show ?thesis using typedD(1,2) [OF S(1)] unfolding typed_def by auto
qed

lemma added_tree:
  assumes inv: "pt_inv T M F r s" and p: "T p = Some (Suc l)" "i < 512" and q: "q \<in> F" and a: "table_added p i q e s t"
  shows "tree t r"
proof -
  note S = added_start [OF inv p(1) q]
  note C = added_children [OF a S(6,5,8)]
  have r: "r < M" "r \<noteq> q" using typedD(3) [OF S(1,2)] S(2,4) by auto
  have old: "x \<noteq> q \<and> T x = Some k \<and> x < M" if h: "T p' = Some (Suc k)" "j < 512" "child s p' j = Some x" for p' j x k
    using child_typed(1) [OF S(1) h] child_typed(3) [OF S(1) h refl] S(4) by auto
  have kids: "(p' = p \<and> j = i \<and> x = q) \<or> (child s p' j = Some x \<and> x \<noteq> q \<and> T x = Some k \<and> x < M)"
    if h: "p' \<noteq> q" "child t p' j = Some x" "T p' = Some (Suc k)" "j < 512" for p' j x k
  proof (cases "p' = p \<and> j = i")
    case True
    then show ?thesis using C [OF typedD(3) [OF S(1) h(3)] h(4)] h(2) by simp
  next
    case False
    then have "child s p' j = Some x" using C [OF typedD(3) [OF S(1) h(3)] h(4)] h(1,2) by auto
    then show ?thesis using old [OF h(3,4)] by blast
  qed
  have n: "child t q j = None" if "j < 512" for j using C [OF S(5) that] S(8) by simp
  show ?thesis
  proof (rule treeI)
    fix i1 j1 x assume h: "i1 < 512" "j1 < 512" "child t r i1 = Some x" "child t r j1 = Some x"
    show "i1 = j1"
  proof (cases "x = q")
    case True
    then show ?thesis using kids [OF r(2) h(3) S(2) h(1)] kids [OF r(2) h(4) S(2) h(2)] by simp
  next
    case False
    then have "child s r i1 = Some x" "child s r j1 = Some x" using kids [OF r(2) h(3) S(2) h(1)] kids [OF r(2) h(4) S(2) h(2)] by auto
    then show ?thesis by (rule treeD(1) [OF S(3) h(1,2)])
  qed
  next
    fix i1 i2 j1 j2 p1 p2 x
    assume h: "i1 < 512" "i2 < 512" "j1 < 512" "j2 < 512" "child t r i1 = Some p1" "child t r i2 = Some p2"
      "child t p1 j1 = Some x" "child t p2 j2 = Some x"
    have nq: "p1 \<noteq> q" "p2 \<noteq> q" using n h by auto
    then have o: "child s r i1 = Some p1" "T p1 = Some (Suc 0)" "child s r i2 = Some p2" "T p2 = Some (Suc 0)"
      using kids [OF r(2) h(5) S(2) h(1)] kids [OF r(2) h(6) S(2) h(2)] by auto
    show "p1 = p2 \<and> j1 = j2"
    proof (cases "x = q")
      case True
      then show ?thesis using kids [OF nq(1) h(7) o(2) h(3)] kids [OF nq(2) h(8) o(4) h(4)] by simp
    next
      case False
      then have "child s p1 j1 = Some x" "child s p2 j2 = Some x"
        using kids [OF nq(1) h(7) o(2) h(3)] kids [OF nq(2) h(8) o(4) h(4)] by auto
      then show ?thesis by (rule treeD(2) [OF S(3) h(1-4) o(1,3)])
    qed
  qed
qed

lemma added_translate:
  assumes inv: "pt_inv T M F r s" and p: "T p = Some (Suc l)" "i < 512" and q: "q \<in> F" and a: "table_added p i q e s t"
  shows "translate t r la = translate s r la"
proof -
  note S = added_start [OF inv p(1) q]
  note C = added_children [OF a S(6,5,8)]
  have r: "r < M" "r \<noteq> q" using typedD(3) [OF S(1,2)] S(2,4) by auto
  have none: "translate t r la = None" if "leaf t r la = None \<or> (\<exists>j. leaf t r la = Some (q, j) \<and> j < 512)"
    using that a S(5,6,8) by (auto simp: translate_def table_added_def)
  show ?thesis
  proof (cases "child s r (idx2 la)")
    case None
    have "leaf t r la = None" using C [of r "idx2 la"] C [of q "idx1 la"] r S(5,8) None
      by (auto simp: leaf_def split: Option.bind_splits if_splits)
    then show ?thesis using none None by (simp add: translate_def leaf_def)
  next
    case (Some p1)
    have p1: "T p1 = Some (Suc 0)" "p1 < M" "p1 \<noteq> q" using child_typed [OF S(1,2) _ Some] S(4) by auto
    have "\<not> (r = p \<and> idx2 la = i)" using Some a by (auto simp: table_added_def)
    then have l1: "child t r (idx2 la) = Some p1" using C [of r "idx2 la"] r Some by auto
    show ?thesis
    proof (cases "child s p1 (idx1 la)")
      case None
      then have "leaf t r la = None \<or> leaf t r la = Some (q, idx0 la)"
        using C [OF p1(2), of "idx1 la"] p1(3) l1 by (auto simp: leaf_def split: if_splits)
      then show ?thesis using none None Some by (auto simp: translate_def leaf_def)
    next
      case (Some q1)
      have q1: "T q1 = Some 0" "q1 < M" "q1 \<noteq> q" using child_typed [OF S(1) p1(1) _ Some] S(4) by auto
      have "\<not> (p1 = p \<and> idx1 la = i)" using Some a by (auto simp: table_added_def)
      then have "child t p1 (idx1 la) = Some q1" using C [OF p1(2), of "idx1 la"] p1(3) Some by auto
      moreover have "cell t q1 (idx0 la) = cell s q1 (idx0 la)" using a q1 p(1) S(6) by (auto simp: table_added_def)
      ultimately show ?thesis using l1 Some \<open>child s r (idx2 la) = Some p1\<close> by (simp add: translate_def leaf_def)
    qed
  qed
qed

section \<open>Looking up and adding tables\<close>

lemma ref_simps [simp]:
  "len (set_page_ref p v a) = len a" "PageProperty q (set_page_ref p v a) = PageProperty q a"
  "PageReserved q (set_page_ref p v a) = PageReserved q a"
  by (auto simp: len_def PageProperty_def PageReserved_def set_page_ref_def fun_eq_iff)

lemma free_pages_ref [simp]: "free_pages (set_page_ref p v a) F \<longleftrightarrow> free_pages a F"
  by (simp add: free_pages_def free_inv_def block_def)

lemma alloc_page_spec:
  assumes "free_pages (area s) F"
  shows "F = {} \<and> alloc_pages 1 s = Some (None, s) \<or>
    (\<exists>q\<in>F. \<exists>a. alloc_pages 1 s = Some (Some q, s\<lparr>area := a\<rparr>) \<and> free_pages a (F - {q}))"
proof (cases "F = {}")
  case True
  then have "\<nexists>p. {p..<p + 1} \<subseteq> F" by auto
  then show ?thesis using first_fit.alloc_none [OF assms, of 1] True by (simp add: alloc_pages_def)
next
  case False
  then obtain p where "{p..<p + 1} \<subseteq> F" by auto
  then obtain x a where "default_alloc_pages 1 (area s) = Some (Some x, a)" "{x..<x + 1} \<subseteq> F" "free_pages a (F - {x..<x + 1})"
    using first_fit.alloc_run [OF assms, of 1 p] by auto
  then show ?thesis by (auto simp: alloc_pages_def)
qed

lemma pde_ensure_present: "child s p i \<noteq> None \<Longrightarrow> pde_ensure (slot p i) create s = Some (True, s)"
  by (auto simp: pde_ensure_def child_def cell_def present_def split: if_splits)

lemma pde_ensure_absent: "child s p i = None \<Longrightarrow> pde_ensure (slot p i) False s = Some (False, s)"
  by (auto simp: pde_ensure_def child_def cell_def present_def split: if_splits)

lemma pde_ensure_create:
  assumes inv: "pt_inv T M F r s" and p: "T p = Some (Suc l)" "i < 512" and n: "child s p i = None"
  shows "F = {} \<and> pde_ensure (slot p i) True s = Some (False, s) \<or>
    (\<exists>q\<in>F. \<exists>e t. pde_ensure (slot p i) True s = Some (True, t) \<and> table_added p i q e s t \<and> free_pages (area t) (F - {q}))"
proof -
  have t: "typed T M s" and fp: "free_pages (area s) F" and FM: "F \<subseteq> {..<M}" using inv by (simp_all add: pt_inv_def)
  have pM: "p < M" "M < 2 ^ 18" using typedD(1,3) [OF t] p by auto
  have np: "words s (slot p i) AND PTE_V = 0" using n by (auto simp: child_def cell_def present_def split: if_splits)
  from alloc_page_spec [OF fp] show ?thesis
  proof
    assume "F = {} \<and> alloc_pages 1 s = Some (None, s)"
    then show ?thesis using np by (simp add: pde_ensure_def)
  next
    assume "\<exists>q\<in>F. \<exists>a. alloc_pages 1 s = Some (Some q, s\<lparr>area := a\<rparr>) \<and> free_pages a (F - {q})"
    then obtain q a where q: "q \<in> F" "alloc_pages 1 s = Some (Some q, s\<lparr>area := a\<rparr>)" "free_pages a (F - {q})" by blast
    define u where "u = s\<lparr>area := set_page_ref q 1 a\<rparr>"
    define e where "e = pte_create (page2ppn q) (PTE_U OR PTE_V)"
    define w where "w = write_word (slot p i) e (zero_page (kva q) u)"
    have qM: "q < M" using q(1) FM by auto
    have tu: "typed T M u" using t by (simp add: typed_def u_def)
    have "pde_ensure (slot p i) True s = Some (True, w)"
      using np q(2) page_in_memory(1) [OF tu qM] by (simp add: pde_ensure_def u_def w_def e_def)
    moreover have "free_pages (area w) (F - {q})" using q(3) by (simp add: w_def u_def write_word_def zero_page_def)
    moreover {
    have "(PTE_U OR PTE_V) AND NOT 0x3FF = 0" by (simp add: layout)
    then have "PTE_ADDR e = page2pa q" using qM pM unfolding e_def by (intro PTE_ADDR_create) simp_all
    moreover have "npage w = npage s" by (simp add: w_def u_def write_word_def zero_page_def)
    moreover have "cell w p' j = (if p' = p \<and> j = i then e else if p' = q then 0 else cell s p' j)" if "p' < 2 ^ 18" "j < 512" for p' j
      using that pM qM p(2) by (simp add: w_def u_def)
    ultimately have "table_added p i q e s w" using n by (simp add: table_added_def e_def)
    }
    ultimately show ?thesis using q(1) by blast
  qed
qed

text \<open>
  \<open>grown\<close>: tables may have been added from the free pages; the translation is the same, entries of tables
  stay, and so do the pages that are neither tables nor free.
\<close>

definition grown :: "(nat \<Rightarrow> nat option) \<Rightarrow> nat \<Rightarrow> nat set \<Rightarrow> nat \<Rightarrow> phys \<Rightarrow> (nat \<Rightarrow> nat option) \<Rightarrow> nat set \<Rightarrow> phys \<Rightarrow> bool" where
  "grown T M F r s T' F' t \<longleftrightarrow> pt_inv T' M F' r t \<and> T \<subseteq>\<^sub>m T' \<and> F' \<subseteq> F \<and> dom T' \<subseteq> dom T \<union> F \<and> (\<forall>la. translate t r la = translate s r la) \<and>
     (\<forall>p j x. T p \<noteq> None \<longrightarrow> j < 512 \<longrightarrow> child s p j = Some x \<longrightarrow> child t p j = Some x) \<and>
     (\<forall>p<M. \<forall>j<512. T p = None \<longrightarrow> p \<notin> F \<longrightarrow> cell t p j = cell s p j)"

lemma map_le_Some: "T \<subseteq>\<^sub>m T' \<Longrightarrow> T p = Some l \<Longrightarrow> T' p = Some l"
  by (auto simp: map_le_def dom_def)

lemma grown_refl: "pt_inv T M F r s \<Longrightarrow> grown T M F r s T F s"
  by (simp add: grown_def)

lemma grown_trans:
  assumes "grown T M F r s T' F' t" and "grown T' M F' r t T'' F'' u"
  shows "grown T M F r s T'' F'' u"
proof -
  have "T' p \<noteq> None" if "T p \<noteq> None" for p using assms(1) that by (auto simp: grown_def dest: map_le_Some)
  moreover have "T' p = None \<and> p \<notin> F'" if "T p = None" "p \<notin> F" for p
    using assms(1) that unfolding grown_def by blast
  moreover have "T \<subseteq>\<^sub>m T''" using assms map_le_trans by (auto simp: grown_def)
  moreover have "F'' \<subseteq> F" "dom T'' \<subseteq> dom T \<union> F" using assms unfolding grown_def by blast+
  ultimately show ?thesis using assms unfolding grown_def by simp
qed

lemma added_grown:
  assumes inv: "pt_inv T M F r s" and p: "T p = Some (Suc l)" "i < 512" and q: "q \<in> F" and a: "table_added p i q e s t"
    and f: "free_pages (area t) (F - {q})"
  shows "grown T M F r s (T(q \<mapsto> l)) (F - {q}) t" and "child t p i = Some q"
proof -
  note S = added_start [OF inv p(1) q]
  note C = added_children [OF a S(6,5,8)]
  have "pt_inv (T(q \<mapsto> l)) M (F - {q}) r t"
    using inv S(2,4) added_typed [OF inv p q a] added_tree [OF inv p q a] f by (auto simp: pt_inv_def)
  moreover have "T \<subseteq>\<^sub>m T(q \<mapsto> l)" using S(4) by (auto simp: map_le_def)
  moreover have "dom (T(q \<mapsto> l)) \<subseteq> dom T \<union> F" using q by auto
  moreover have "child t p' j = Some x" if "T p' \<noteq> None" "j < 512" "child s p' j = Some x" for p' j x
  proof -
    have "p' < M" "p' \<noteq> q" "\<not> (p' = p \<and> j = i)" using that S(4) typedD(3) [OF S(1)] a by (auto simp: table_added_def)
    then show ?thesis using C [of p' j] that by auto
  qed
  moreover have "cell t p' j = cell s p' j" if "p' < M" "j < 512" "T p' = None" "p' \<notin> F" for p' j
    using that a S(6) p q by (auto simp: table_added_def)
  ultimately show "grown T M F r s (T(q \<mapsto> l)) (F - {q}) t"
    using added_translate [OF inv p q a] unfolding grown_def by blast
  show "child t p i = Some q" using C [OF S(7) p(2)] by simp
qed

lemma ensure_level:
  assumes inv: "pt_inv T M F r s" and p: "T p = Some (Suc l)" "i < 512"
  shows "F = {} \<and> child s p i = None \<and> pde_ensure (slot p i) True s = Some (False, s) \<or>
    (\<exists>q t T' F'. pde_ensure (slot p i) True s = Some (True, t) \<and> grown T M F r s T' F' t \<and> child t p i = Some q \<and>
      T' q = Some l \<and> (child s p i \<noteq> None \<longrightarrow> t = s))"
proof (cases "child s p i")
  case None
  then show ?thesis using pde_ensure_create [OF inv p None] added_grown [OF inv p] by (metis fun_upd_same)
next
  case (Some q)
  have t: "typed T M s" using inv by (simp add: pt_inv_def)
  have "T q = Some l" using child_typed(3) [OF t p Some] by simp
  then show ?thesis using pde_ensure_present [of s p i True] Some grown_refl [OF inv] by blast
qed

lemma follow:
  assumes inv: "pt_inv T M F r s" and p: "T p = Some (Suc l)" "i < 512" and c: "child s p i = Some q"
  shows "KADDR (PTE_ADDR (words s (slot p i))) s = Some (kva q)"
proof -
  have t: "typed T M s" using inv by (simp add: pt_inv_def)
  show ?thesis using child_typed(1,2) [OF t p c] page_in_memory(1) [OF t] by (simp add: cell_def)
qed

lemma get_pte_find:
  assumes inv: "pt_inv T M F r s"
  shows "get_pte (kva r) la False s = Some (case leaf s r la of None \<Rightarrow> 0 | Some (q, i) \<Rightarrow> slot q i, s)"
proof -
  have t: "typed T M s" and r: "T r = Some (Suc 1)" using inv by (simp_all add: pt_inv_def numeral_2_eq_2)
  show ?thesis
  proof (cases "child s r (idx2 la)")
    case None
    then show ?thesis using pde_ensure_absent [OF None] by (simp add: get_pte_def entry_slot leaf_def)
  next
    case (Some p)
    have p: "T p = Some (Suc 0)" using child_typed(3) [OF t r _ Some] by simp
    note F1 = follow [OF inv r idx_less(1) Some]
    show ?thesis
    proof (cases "child s p (idx1 la)")
      case None
      then show ?thesis using F1 Some pde_ensure_present [of s r "idx2 la" False] pde_ensure_absent [OF None]
        by (simp add: get_pte_def entry_slot leaf_def)
    next
      case (Some q)
      note F0 = follow [OF inv p idx_less(2) Some]
      show ?thesis using F1 F0 Some \<open>child s r (idx2 la) = Some p\<close> pde_ensure_present [of s r "idx2 la" False]
          pde_ensure_present [of s p "idx1 la" False]
        by (simp add: get_pte_def entry_slot leaf_def)
    qed
  qed
qed

lemma get_pte_create:
  assumes inv: "pt_inv T M F r s"
  shows "\<exists>a t T' F'. get_pte (kva r) la True s = Some (a, t) \<and> grown T M F r s T' F' t \<and> (leaf s r la \<noteq> None \<longrightarrow> t = s) \<and>
    (a = 0 \<and> F' = {} \<and> leaf t r la = None \<or> (\<exists>q i. leaf t r la = Some (q, i) \<and> a = slot q i))"
proof -
  have r: "T r = Some (Suc 1)" using inv by (simp add: pt_inv_def numeral_2_eq_2)
  from ensure_level [OF inv r idx_less(1) [of la]] show ?thesis
  proof (elim disjE exE conjE)
    assume h: "F = {}" "child s r (idx2 la) = None" "pde_ensure (slot r (idx2 la)) True s = Some (False, s)"
    then have "get_pte (kva r) la True s = Some (0, s)" "leaf s r la = None" by (simp_all add: get_pte_def entry_slot leaf_def)
    then show ?thesis using grown_refl [OF inv] h(1) by blast
  next
    fix p t T1 F1
    assume e1: "pde_ensure (slot r (idx2 la)) True s = Some (True, t)" and g1: "grown T M F r s T1 F1 t"
      and c1: "child t r (idx2 la) = Some p" and p: "T1 p = Some 1" and k1: "child s r (idx2 la) \<noteq> None \<longrightarrow> t = s"
    have i1: "pt_inv T1 M F1 r t" and r1: "T1 r = Some (Suc 1)" using g1 by (auto simp: grown_def pt_inv_def numeral_2_eq_2)
    have p': "T1 p = Some (Suc 0)" using p by simp
    note N1 = follow [OF i1 r1 idx_less(1) c1]
    from ensure_level [OF i1 p' idx_less(2) [of la]] show ?thesis
    proof (elim disjE exE conjE)
      assume h: "F1 = {}" "child t p (idx1 la) = None" "pde_ensure (slot p (idx1 la)) True t = Some (False, t)"
      then have "get_pte (kva r) la True s = Some (0, t)" "leaf t r la = None"
        using e1 N1 c1 by (simp_all add: get_pte_def entry_slot leaf_def)
      moreover have "leaf s r la \<noteq> None \<longrightarrow> t = s" using k1 by (auto simp: leaf_def)
      ultimately show ?thesis using g1 h(1) by blast
    next
      fix q u T2 F2
      assume e2: "pde_ensure (slot p (idx1 la)) True t = Some (True, u)" and g2: "grown T1 M F1 r t T2 F2 u"
        and c2: "child u p (idx1 la) = Some q" and k2: "child t p (idx1 la) \<noteq> None \<longrightarrow> u = t"
      have i2: "pt_inv T2 M F2 r u" and p2: "T2 p = Some (Suc 0)" using g2 map_le_Some [of T1 T2 p "Suc 0"] p' by (auto simp: grown_def)
      have c1': "child u r (idx2 la) = Some p" using g2 c1 r1 by (simp add: grown_def)
      note N2 = follow [OF i2 p2 idx_less(2) c2]
      have "get_pte (kva r) la True s = Some (slot q (idx0 la), u)" "leaf u r la = Some (q, idx0 la)"
        using e1 N1 e2 N2 c1' c2 by (simp_all add: get_pte_def entry_slot leaf_def)
      moreover have "leaf s r la \<noteq> None \<longrightarrow> u = s" using k1 k2 c1 by (auto simp: leaf_def split: Option.bind_splits)
      ultimately show ?thesis using grown_trans [OF g1 g2] by blast
    qed
  qed
qed

section \<open>Writing an entry\<close>

lemma leaf_same: "same_page la la' \<Longrightarrow> leaf s r la' = leaf s r la"
  by (simp add: same_page_def leaf_def)

lemma leaf_tree:
  assumes inv: "pt_inv T M F r s" and l: "leaf s r la = Some (q, i)" "leaf s r la' = Some (q, i)"
  shows "same_page la la'"
proof -
  have t: "tree s r" using inv by (simp add: pt_inv_def)
  obtain p p' where p: "child s r (idx2 la) = Some p" "child s p (idx1 la) = Some q" "i = idx0 la"
    "child s r (idx2 la') = Some p'" "child s p' (idx1 la') = Some q" "i = idx0 la'"
    using leaf_levels [OF inv l(1)] leaf_levels [OF inv l(2)] by metis
  note e = treeD(2) [OF t idx_less(1) idx_less(1) idx_less(2) idx_less(2) p(1,4,2,5)]
  have "child s r (idx2 la') = Some p" using p(4) e by simp
  from treeD(1) [OF t idx_less(1) idx_less(1) p(1) this] show ?thesis using e p(3,6) by (simp add: same_page_def)
qed

lemma write_leaf:
  assumes inv: "pt_inv T M F r s" and l: "leaf s r la = Some (q, i)"
    and v: "present v \<Longrightarrow> PTE_ADDR v = page2pa g \<and> g < M"
  shows "pt_inv T M F r (write_word (slot q i) v s)"
    and "\<And>la'. leaf (write_word (slot q i) v s) r la' = leaf s r la'"
    and "\<And>la'. translate (write_word (slot q i) v s) r la' =
      (if same_page la la' then (if present v then Some v else None) else translate s r la')"
    and "\<And>p j. p < M \<Longrightarrow> j < 512 \<Longrightarrow> p \<noteq> q \<Longrightarrow> cell (write_word (slot q i) v s) p j = cell s p j"
proof -
  let ?u = "write_word (slot q i) v s"
  have t: "typed T M s" and M: "M < 2 ^ 18" using inv typedD(1) by (auto simp: pt_inv_def)
  obtain lv: "i = idx0 la" "T q = Some 0" "q < M" "T r = Some 2" by (rule leaf_levels [OF inv l]) (rule that)
  have i: "i < 512" by (simp add: lv(1))
  show c: "cell ?u p j = cell s p j" if "p < M" "j < 512" "p \<noteq> q" for p j using that i M lv(3) by simp
  have ch: "child ?u p j = child s p j" if "T p = Some (Suc l)" "j < 512" for p l j
  proof -
    have "p < M" "p \<noteq> q" using typedD(3) [OF t that(1)] that(1) lv(2) by auto
    then show ?thesis using c that(2) by (simp add: child_def)
  qed
  have r: "T r = Some (Suc 1)" using lv(4) by (simp add: numeral_2_eq_2)
  have ch1: "child ?u p j = child s p j" if "child s r k = Some p" "k < 512" "j < 512" for p j k
    using ch [of p 0 j] child_typed(3) [OF t r that(2,1)] that(3) by simp
  show lf: "leaf ?u r la' = leaf s r la'" for la'
    using ch [OF r, of "idx2 la'"] ch1 by (auto simp: leaf_def split: Option.bind_splits)
  have "tree ?u r"
  proof (rule treeI)
    have tr: "tree s r" using inv by (simp add: pt_inv_def)
    show "k = j" if "k < 512" "j < 512" "child ?u r k = Some x" "child ?u r j = Some x" for k j x
      using treeD(1) [OF tr that(1,2)] that ch [OF r] by simp
    show "p = p' \<and> j = j'" if h: "k < 512" "k' < 512" "j < 512" "j' < 512" "child ?u r k = Some p" "child ?u r k' = Some p'"
      "child ?u p j = Some x" "child ?u p' j' = Some x" for k k' j j' p p' x
    proof -
      have "child s r k = Some p" "child s r k' = Some p'" using h ch [OF r] by simp_all
      moreover from this have "child s p j = Some x" "child s p' j' = Some x" using h ch1 by metis+
      ultimately show ?thesis by (rule treeD(2) [OF tr h(1-4)])
    qed
  qed
  moreover have "typed T M ?u"
  proof -
    have "\<exists>x<M. PTE_ADDR (cell ?u p j) = page2pa x \<and> (\<forall>k. l = Suc k \<longrightarrow> T x = Some k)"
      if h: "T p = Some l" "j < 512" "present (cell ?u p j)" for p l j
    proof (cases "p = q \<and> j = i")
      case True
      then show ?thesis using h v lv M i by auto
    next
      case False
      then have "cell ?u p j = cell s p j" using typedD(3) [OF t h(1)] lv(3) M h(2) i by auto
      then show ?thesis using typedD(4) [OF t h(1,2)] h(3) by simp
    qed
    then show ?thesis using t by (simp add: typed_def write_word_def)
  qed
  ultimately show "pt_inv T M F r ?u" using inv by (simp add: pt_inv_def write_word_def)
  show "translate ?u r la' = (if same_page la la' then (if present v then Some v else None) else translate s r la')" for la'
  proof (cases "same_page la la'")
    case True
    then show ?thesis using l lf M lv(3) i by (simp add: translate_def leaf_same [OF True])
  next
    case False
    have "cell ?u q' j = cell s q' j" if "leaf s r la' = Some (q', j)" for q' j
    proof -
      have "\<not> (q' = q \<and> j = i)" using leaf_tree [OF inv l] that False by auto
      moreover have "q' < M" "j < 512" by (rule leaf_levels [OF inv that], simp)+
      ultimately show ?thesis using M lv(3) i by auto
    qed
    then show ?thesis using False lf by (auto simp: translate_def split: Option.bind_splits)
  qed
qed

section \<open>Mapping and unmapping a page\<close>

text \<open>The page \<open>q\<close> keeps another reference, or it can be given back to the allocator.\<close>

definition releasable :: "(nat \<Rightarrow> nat option) \<Rightarrow> nat set \<Rightarrow> phys \<Rightarrow> nat \<Rightarrow> bool" where
  "releasable T F s q \<longleftrightarrow> page_ref_of q s \<noteq> 1 \<or>
     (T q = None \<and> q \<notin> F \<and> unused (area s) {q} \<and> q \<noteq> free_list (area s) \<and> (F = {} \<or> (\<exists>f\<in>F. q < f)))"

lemma area_only:
  assumes "pt_inv T M F r s" and "free_pages a F'" "F' \<subseteq> {..<M}" "F' \<inter> dom T = {}"
  shows "pt_inv T M F' r (s\<lparr>area := a\<rparr>)" "leaf (s\<lparr>area := a\<rparr>) r la = leaf s r la" "translate (s\<lparr>area := a\<rparr>) r la = translate s r la"
proof -
  have c: "child (s\<lparr>area := a\<rparr>) = child s" by (simp add: child_def fun_eq_iff)
  show "leaf (s\<lparr>area := a\<rparr>) r la = leaf s r la" "translate (s\<lparr>area := a\<rparr>) r la = translate s r la"
    using translate_cong [OF assms(1), of "s\<lparr>area := a\<rparr>"] by simp_all
  show "pt_inv T M F' r (s\<lparr>area := a\<rparr>)" proof -
    have "tree (s\<lparr>area := a\<rparr>) r \<longleftrightarrow> tree s r" unfolding tree_def c ..
    then show ?thesis using assms by (simp add: pt_inv_def typed_def)
  qed
qed

lemma unused_ref [simp]: "unused (set_page_ref p v a) P = unused a P"
  by (simp add: unused_def)

lemma entry_page:
  assumes inv: "pt_inv T M F r s" and l: "leaf s r la = Some (q, i)" and e: "present (cell s q i)"
  shows "pte2page (cell s q i) s = Some (frame (cell s q i))" "frame (cell s q i) < M"
proof -
  have t: "typed T M s" using inv by (simp add: pt_inv_def)
  have i: "i < 512" "T q = Some 0" by (rule leaf_levels [OF inv l], simp)+
  obtain g where g: "g < M" "PTE_ADDR (cell s q i) = page2pa g" using typedD(4) [OF t i(2,1) e] by blast
  then have "frame (cell s q i) = g" using frame_pa typedD(1) [OF t] by simp
  then show "pte2page (cell s q i) s = Some (frame (cell s q i))" "frame (cell s q i) < M"
    using e g page_in_memory(2) [OF t g(1)] by (simp_all add: pte2page_def present_def)
qed

lemma free_page_spec:
  assumes "free_pages (area s) F" and "F \<subseteq> {..<M}" "M < 2 ^ 18" and "unused (area s) {q}" "q \<notin> F" "q \<noteq> free_list (area s)"
    and "F = {} \<or> (\<exists>f\<in>F. q < f)"
  shows "\<exists>a. free_page q s = Some (s\<lparr>area := a\<rparr>) \<and> free_pages a (insert q F)"
proof -
  obtain xs where inv: "free_inv (area s) xs F" using assms(1) by (auto simp: free_pages_def)
  have F: "finite F" "card F \<le> M" using assms(2) finite_subset card_mono [of "{..<M}" F] by auto
  have one: "{q..<q + 1} = {q}" by auto
  have "card F + 1 < 2 ^ 32" using F(2) assms(3) by simp
  then obtain a ys where "default_free_pages q 1 (area s) = Some a" "free_inv a ys (insert q F)"
    using default_free_pages_spec [OF inv, of 1 q] assms(4-7) unfolding one by auto
  moreover have "card (insert q F) + 1 < 2 ^ 32" using F assms(3,5) by simp
  ultimately show ?thesis by (auto simp: free_page_def free_run_def free_pages_def)
qed

lemma remove_pte_spec:
  assumes inv: "pt_inv T M F r s" and l: "leaf s r la = Some (q, i)"
    and rel: "present (cell s q i) \<Longrightarrow> releasable T F s (frame (cell s q i))"
  shows "\<exists>t F'. page_remove_pte (slot q i) s = Some t \<and> pt_inv T M F' r t \<and> F \<subseteq> F' \<and>
    (\<forall>la'. leaf t r la' = leaf s r la') \<and> (\<forall>la'. translate t r la' = (if same_page la la' then None else translate s r la'))"
proof (cases "present (cell s q i)")
  case False
  then have "page_remove_pte (slot q i) s = Some s" by (simp add: page_remove_pte_def present_def cell_def)
  moreover have "translate s r la' = (if same_page la la' then None else translate s r la')" for la'
    using False l leaf_same [of la la' s r] by (simp add: translate_def)
  ultimately show ?thesis using inv by blast
next
  case True
  have t: "typed T M s" and M: "M < 2 ^ 18" and fp: "free_pages (area s) F" "F \<subseteq> {..<M}" "F \<inter> dom T = {}"
    using inv typedD(1) by (auto simp: pt_inv_def)
  let ?g = "frame (cell s q i)"
  define u where "u = page_ref_dec ?g s"
  have u: "u = s\<lparr>area := set_page_ref ?g (page_ref_of ?g s - 1) (area s)\<rparr>" by (simp add: u_def page_ref_dec_def)
  have ref: "page_ref_of ?g u = page_ref_of ?g s - 1" by (simp add: u page_ref_of_def set_page_ref_def)
  have "\<exists>a F'. (if page_ref_of ?g u = 0 then free_page ?g u else Some u) = Some (s\<lparr>area := a\<rparr>) \<and> free_pages a F' \<and> F \<subseteq> F' \<and>
      F' \<subseteq> {..<M} \<and> F' \<inter> dom T = {}"
  proof (cases "page_ref_of ?g u = 0")
    case False
    then show ?thesis using fp by (intro exI [of _ "area u"] exI [of _ F]) (simp add: u)
  next
    case last: True
    then have R: "T ?g = None" "?g \<notin> F" "unused (area s) {?g}" "?g \<noteq> free_list (area s)" "F = {} \<or> (\<exists>f\<in>F. ?g < f)"
      using rel [OF True] ref by (auto simp: releasable_def)
    have "\<exists>a. free_page ?g u = Some (u\<lparr>area := a\<rparr>) \<and> free_pages a (insert ?g F)"
      by (rule free_page_spec [OF _ fp(2) M]) (use fp(1) R in \<open>simp_all add: u\<close>)
    then obtain a where "free_page ?g u = Some (s\<lparr>area := a\<rparr>)" "free_pages a (insert ?g F)" by (auto simp: u)
    moreover have "insert ?g F \<subseteq> {..<M}" "insert ?g F \<inter> dom T = {}" using fp(2,3) R(1) entry_page(2) [OF inv l True] by auto
    ultimately show ?thesis using last by (intro exI [of _ a] exI [of _ "insert ?g F"]) (simp add: subset_insertI)
  qed
  then obtain a F' where a: "(if page_ref_of ?g u = 0 then free_page ?g u else Some u) = Some (s\<lparr>area := a\<rparr>)"
    "free_pages a F'" "F \<subseteq> F'" "F' \<subseteq> {..<M}" "F' \<inter> dom T = {}" by blast
  note A = area_only [OF inv a(2,4,5)]
  have la: "leaf (s\<lparr>area := a\<rparr>) r la = Some (q, i)" using A(2) l by simp
  note W = write_leaf [OF A(1) la, of 0 0, simplified]
  have "page_remove_pte (slot q i) s = Some (write_word (slot q i) 0 (s\<lparr>area := a\<rparr>))"
    unfolding page_remove_pte_def Let_def cell_def [symmetric]
    using True [unfolded present_def] entry_page(1) [OF inv l True] a(1) [unfolded u_def] by (simp split: if_splits)
  then show ?thesis using W a(3) A(2,3) by auto
qed

lemma get_page_translate:
  assumes inv: "pt_inv T M F r s"
  shows "get_page (kva r) la s = Some (map_option frame (translate s r la), s)"
proof (cases "leaf s r la")
  case None
  then show ?thesis by (simp add: get_page_def get_pte_find [OF inv] translate_def)
next
  case (Some c)
  then obtain q i where l: "leaf s r la = Some (q, i)" by (cases c) simp
  have g: "get_pte (kva r) la False s = Some (slot q i, s)" by (simp add: get_pte_find [OF inv] l)
  have w: "words s (slot q i) = cell s q i" by (simp add: cell_def)
  have n: "slot q i \<noteq> 0" using leaf_bounds [OF inv l] by simp
  show ?thesis
  proof (cases "present (cell s q i)")
    case True
    then show ?thesis using entry_page(1) [OF inv l True] True [unfolded present_def] n
      by (simp add: get_page_def g w translate_def l True)
  next
    case False
    then show ?thesis using False [unfolded present_def] n by (simp add: get_page_def g w translate_def l False)
  qed
qed

text \<open>
  C35: tables stay well typed. \<^verbatim>\<open>get_pte\<close> with \<open>create\<close> returns for every address; new tables come from the
  free pages, every present entry of a table still points to a table of the level below or to a page of
  memory, no address is translated differently, and the result is the entry of the address in a table of
  level 0, or null when no page is left.
\<close>

theorem get_pte_keeps_types:
  assumes "pt_inv T M F r s"
  shows "\<exists>a t T' F'. get_pte (kva r) la True s = Some (a, t) \<and> pt_inv T' M F' r t \<and> T \<subseteq>\<^sub>m T' \<and> dom T' \<subseteq> dom T \<union> F \<and>
    (\<forall>la'. translate t r la' = translate s r la') \<and>
    (a = 0 \<and> F' = {} \<or> (\<exists>q. a = slot q (idx0 la) \<and> T' q = Some 0 \<and> leaf t r la = Some (q, idx0 la)))"
proof -
  obtain a t T' F' where g: "get_pte (kva r) la True s = Some (a, t)" "grown T M F r s T' F' t"
    "a = 0 \<and> F' = {} \<and> leaf t r la = None \<or> (\<exists>q i. leaf t r la = Some (q, i) \<and> a = slot q i)"
    using get_pte_create [OF assms, of la] by (elim exE conjE) (rule that)
  have inv: "pt_inv T' M F' r t" using g(2) by (simp add: grown_def)
  have "a = 0 \<and> F' = {} \<or> (\<exists>q. a = slot q (idx0 la) \<and> T' q = Some 0 \<and> leaf t r la = Some (q, idx0 la))"
  proof (cases "leaf t r la")
    case None
    then show ?thesis using g(3) by simp
  next
    case (Some c)
    then obtain q i where l: "leaf t r la = Some (q, i)" by (cases c) simp
    then show ?thesis using g(3) leaf_bounds(4,5) [OF inv l] by simp
  qed
  moreover have "T \<subseteq>\<^sub>m T'" "dom T' \<subseteq> dom T \<union> F" "\<forall>la'. translate t r la' = translate s r la'" using g(2) by (simp_all add: grown_def)
  ultimately show ?thesis using g(1) inv by (intro exI [of _ a] exI [of _ t] exI [of _ T'] exI [of _ F']) simp
qed

text \<open>
  \<^verbatim>\<open>page_remove\<close> takes the page of an address out of the translation and changes it nowhere else. It
  returns if the page keeps another reference or can be given back.
\<close>

theorem page_remove_unmaps:
  assumes "pt_inv T M F r s" and "\<And>e. translate s r la = Some e \<Longrightarrow> releasable T F s (frame e)"
  shows "\<exists>t F'. page_remove (kva r) la s = Some t \<and> pt_inv T M F' r t \<and> F \<subseteq> F' \<and>
    (\<forall>la'. translate t r la' = (if same_page la la' then None else translate s r la'))"
proof (cases "leaf s r la")
  case None
  then have "page_remove (kva r) la s = Some s" by (simp add: page_remove_def get_pte_find [OF assms(1)])
  moreover have "translate s r la' = (if same_page la la' then None else translate s r la')" for la'
    using None leaf_same [of la la' s r] by (simp add: translate_def)
  ultimately show ?thesis using assms(1) by blast
next
  case (Some c)
  then obtain q i where l: "leaf s r la = Some (q, i)" by (cases c) simp
  have "slot q i \<noteq> 0" using leaf_bounds [OF assms(1) l] by simp
  then have "page_remove (kva r) la s = page_remove_pte (slot q i) s"
    by (simp add: page_remove_def get_pte_find [OF assms(1)] l)
  moreover have "releasable T F s (frame (cell s q i))" if "present (cell s q i)"
    using assms(2) l that by (simp add: translate_def)
  ultimately show ?thesis using remove_pte_spec [OF assms(1) l] by metis
qed

lemma set_entry:
  assumes inv: "pt_inv T M F r s" and l: "leaf s r la = Some (q, i)" and g: "page < M" and perm: "perm AND NOT 0x3FF = 0"
  defines "v \<equiv> pte_create (page2ppn page) (PTE_V OR perm)"
  shows "pt_inv T M F r (write_word (slot q i) v s)"
    and "translate (write_word (slot q i) v s) r la' = (if same_page la la' then Some v else translate s r la')"
proof -
  have "M < 2 ^ 18" using inv typedD(1) by (auto simp: pt_inv_def)
  moreover have "(PTE_V OR perm) AND NOT 0x3FF = 0" using perm by (simp add: bit.conj_disj_distrib2 layout)
  ultimately have "PTE_ADDR v = page2pa page \<and> page < M" using g unfolding v_def by (simp add: PTE_ADDR_create)
  moreover have "present v" by (simp add: v_def)
  ultimately show "pt_inv T M F r (write_word (slot q i) v s)"
    "translate (write_word (slot q i) v s) r la' = (if same_page la la' then Some v else translate s r la')"
    using write_leaf(1,3) [OF inv l, of v page] by simp_all
qed

lemma ref_only:
  assumes "pt_inv T M F r s"
  shows "pt_inv T M F r (page_ref_inc p s)" "leaf (page_ref_inc p s) r la = leaf s r la"
    "translate (page_ref_inc p s) r la = translate s r la" "cell (page_ref_inc p s) = cell s"
    "pt_inv T M F r (page_ref_dec p s)" "leaf (page_ref_dec p s) r la = leaf s r la"
    "translate (page_ref_dec p s) r la = translate s r la" "cell (page_ref_dec p s) = cell s"
proof -
  have "free_pages (area s) F" "F \<subseteq> {..<M}" "F \<inter> dom T = {}" using assms by (simp_all add: pt_inv_def)
  note A = area_only [OF assms _ this(2,3)]
  show "pt_inv T M F r (page_ref_inc p s)" "leaf (page_ref_inc p s) r la = leaf s r la"
    "translate (page_ref_inc p s) r la = translate s r la" "cell (page_ref_inc p s) = cell s"
    "pt_inv T M F r (page_ref_dec p s)" "leaf (page_ref_dec p s) r la = leaf s r la"
    "translate (page_ref_dec p s) r la = translate s r la" "cell (page_ref_dec p s) = cell s"
    using A \<open>free_pages (area s) F\<close> by (simp_all add: page_ref_inc_def page_ref_dec_def)
qed

text \<open>The part of \<^verbatim>\<open>page_insert\<close> behind \<^verbatim>\<open>get_pte\<close>.\<close>

lemma insert_at:
  assumes inv: "pt_inv T M F r s" and l: "leaf s r la = Some (q, i)" and g: "page < M" and perm: "perm AND NOT 0x3FF = 0"
    and rel: "\<And>e. translate s r la = Some e \<Longrightarrow> frame e = page \<or> releasable T F s (frame e)"
    and get: "get_pte (kva r) la True s0 = Some (slot q i, s)"
  shows "\<exists>t F'. page_insert (kva r) page la perm s0 = Some (0, t) \<and> pt_inv T M F' r t \<and>
    (\<forall>la'. translate t r la' = (if same_page la la' then Some (pte_create (page2ppn page) (PTE_V OR perm)) else translate s r la'))"
proof -
  define v where "v = pte_create (page2ppn page) (PTE_V OR perm)"
  define u where "u = page_ref_inc page s"
  note R = ref_only [OF inv, of page, folded u_def]
  have lu: "leaf u r la = Some (q, i)" using R(2) l by simp
  have n: "slot q i \<noteq> 0" using leaf_bounds [OF inv l] by simp
  have "\<exists>t F'. (if cell u q i AND PTE_V \<noteq> 0 then Option.bind (pte2page (cell u q i) u) (\<lambda>p.
          if p = page then Some (page_ref_dec page u) else page_remove_pte (slot q i) u) else Some u) = Some t \<and>
      pt_inv T M F' r t \<and> leaf t r la = Some (q, i) \<and> (\<forall>la'. \<not> same_page la la' \<longrightarrow> translate t r la' = translate s r la')"
  proof (cases "present (cell u q i)")
    case False
    then show ?thesis using R(1,3) lu by (auto simp: present_def)
  next
    case True
    note E = entry_page(1) [OF R(1) lu True]
    let ?g = "frame (cell u q i)"
    have g': "?g = page \<or> releasable T F s ?g" using rel [of "cell s q i"] l True R(4) by (simp add: translate_def)
    show ?thesis
    proof (cases "?g = page")
      case same: True
      note D = ref_only [OF R(1), of page]
      show ?thesis using True [unfolded present_def] E same D(5,6,7) R(3) lu
        by (intro exI [of _ "page_ref_dec page u"] exI [of _ F]) simp
    next
      case other: False
      have "page_ref_of ?g u = page_ref_of ?g s" using other by (simp add: u_def page_ref_inc_def page_ref_of_def set_page_ref_def)
      then have "releasable T F u ?g" using g' other by (simp add: releasable_def u_def page_ref_inc_def)
      then obtain t F' where t: "page_remove_pte (slot q i) u = Some t" "pt_inv T M F' r t" "leaf t r la = leaf u r la"
        "\<forall>la'. translate t r la' = (if same_page la la' then None else translate u r la')"
        using remove_pte_spec [OF R(1) lu] by metis
      then show ?thesis using True [unfolded present_def] E other R(3) lu
        by (intro exI [of _ t] exI [of _ F']) simp
    qed
  qed
  then obtain t F' where t: "(if cell u q i AND PTE_V \<noteq> 0 then Option.bind (pte2page (cell u q i) u) (\<lambda>p.
          if p = page then Some (page_ref_dec page u) else page_remove_pte (slot q i) u) else Some u) = Some t"
    "pt_inv T M F' r t" "leaf t r la = Some (q, i)" "\<forall>la'. \<not> same_page la la' \<longrightarrow> translate t r la' = translate s r la'"
    by (elim exE conjE) (rule that)
  have "page_insert (kva r) page la perm s0 = Option.bind (if cell u q i AND PTE_V \<noteq> 0 then Option.bind (pte2page (cell u q i) u) (\<lambda>p.
      if p = page then Some (page_ref_dec page u) else page_remove_pte (slot q i) u) else Some u)
      (\<lambda>t. Some (0, write_word (slot q i) v t))"
    unfolding page_insert_def get v_def u_def cell_def using n by (simp add: Let_def)
  then have "page_insert (kva r) page la perm s0 = Some (0, write_word (slot q i) v t)" unfolding t(1) by simp
  then show ?thesis using set_entry [OF t(2,3) g perm, folded v_def] t(4)
    by (intro exI [of _ "write_word (slot q i) v t"] exI [of _ F']) (simp add: v_def)
qed

text \<open>
  C36: \<^verbatim>\<open>page_insert\<close> maps a page. It returns 0, and the address is translated to the page with its
  permissions and all other addresses as before; or it returns \<^verbatim>\<open>-E_NO_MEM\<close> when no page was left for a
  table, with the translation unchanged. The tables stay well typed. A page that was mapped at the
  address before must keep a reference or be fit to be given back. (The comment above the function promises
  that it always returns 0; it does not when \<^verbatim>\<open>get_pte\<close> finds no page.)
\<close>

theorem page_insert_maps:
  assumes "pt_inv T M F r s" and "page < M" and "perm AND NOT 0x3FF = 0"
    and "\<And>e. translate s r la = Some e \<Longrightarrow> frame e = page \<or> releasable T F s (frame e)"
  shows "\<exists>rc t T' F'. page_insert (kva r) page la perm s = Some (rc, t) \<and> pt_inv T' M F' r t \<and> T \<subseteq>\<^sub>m T' \<and>
    (rc = 0 \<and> (\<forall>la'. translate t r la' =
       (if same_page la la' then Some (pte_create (page2ppn page) (PTE_V OR perm)) else translate s r la')) \<or>
     rc = - E_NO_MEM \<and> F' = {} \<and> (\<forall>la'. translate t r la' = translate s r la'))"
proof -
  obtain a t T' F' where g: "get_pte (kva r) la True s = Some (a, t)" "grown T M F r s T' F' t" "leaf s r la \<noteq> None \<longrightarrow> t = s"
    "a = 0 \<and> F' = {} \<and> leaf t r la = None \<or> (\<exists>q i. leaf t r la = Some (q, i) \<and> a = slot q i)"
    using get_pte_create [OF assms(1), of la] by (elim exE conjE) (rule that)
  have G: "pt_inv T' M F' r t" "T \<subseteq>\<^sub>m T'" "\<And>la'. translate t r la' = translate s r la'" using g(2) by (simp_all add: grown_def)
  show ?thesis
  proof (cases "leaf t r la")
    case None
    then have a: "a = 0" "F' = {}" using g(4) by simp_all
    have "page_insert (kva r) page la perm s = Some (- E_NO_MEM, t)" by (simp add: page_insert_def g(1) a)
    then show ?thesis using G a by (intro exI [of _ "- E_NO_MEM"] exI [of _ t] exI [of _ T'] exI [of _ F']) simp
  next
    case (Some c)
    then obtain q i where l: "leaf t r la = Some (q, i)" by (cases c) simp
    have get: "get_pte (kva r) la True s = Some (slot q i, t)" using g(1,4) l by simp
    have "\<exists>t' T' F'. page_insert (kva r) page la perm s = Some (0, t') \<and> pt_inv T' M F' r t' \<and> T \<subseteq>\<^sub>m T' \<and>
      (\<forall>la'. translate t' r la' = (if same_page la la' then Some (pte_create (page2ppn page) (PTE_V OR perm)) else translate t r la'))"
    proof (cases "translate s r la")
      case None
      then have "translate t r la = None" using G(3) by simp
      then show ?thesis using insert_at [OF G(1) l assms(2,3) _ get] G(2) by fastforce
    next
      case (Some e)
      then have "t = s" using g(3) by (cases "leaf s r la") (simp_all add: translate_def)
      then show ?thesis using insert_at [of T M F r t la q i page perm, OF _ l assms(2,3) _ get] assms(1,4) map_le_refl [of T] by blast
    qed
    then show ?thesis using G(3) by metis
  qed
qed

section \<open>Witnesses\<close>

text \<open>
  Twenty pages, of which 10 and 11 are free; page 0 is the root, pages 1 and 2 are tables below it, and page
  5 is mapped at \<^verbatim>\<open>0x400000\<close>.
\<close>

definition demo_phys :: "free_area \<Rightarrow> phys" where
  "demo_phys a = \<lparr>area = a, words = (\<lambda>w. if w = slot 0 0 then pte_create (page2ppn 1) (PTE_U OR PTE_V)
     else if w = slot 1 2 then pte_create (page2ppn 2) (PTE_U OR PTE_V)
     else if w = slot 2 0 then pte_create (page2ppn 5) PTE_USER else 0), npage = nbase + 20\<rparr>"

lemma demo_cells:
  assumes "p < 20" "i < 512"
  shows "cell (demo_phys a) p i = (if p = 0 \<and> i = 0 then pte_create (page2ppn 1) (PTE_U OR PTE_V)
     else if p = 1 \<and> i = 2 then pte_create (page2ppn 2) (PTE_U OR PTE_V)
     else if p = 2 \<and> i = 0 then pte_create (page2ppn 5) PTE_USER else 0)"
proof -
  have "slot p i = slot q j \<longleftrightarrow> p = q \<and> i = j" if "q < 20" "j < 512" for q j
    using assms that by (intro slot_inj) simp_all
  then show ?thesis by (simp add: cell_def demo_phys_def)
qed

lemma demo_frames:
  "PTE_ADDR (pte_create (page2ppn 1) (PTE_U OR PTE_V)) = page2pa 1"
  "PTE_ADDR (pte_create (page2ppn 2) (PTE_U OR PTE_V)) = page2pa 2"
  "PTE_ADDR (pte_create (page2ppn 5) PTE_USER) = page2pa 5"
  by (rule PTE_ADDR_create; simp add: layout)+

lemma demo_children:
  assumes "p < 20" "i < 512"
  shows "child (demo_phys a) p i = (if p = 0 \<and> i = 0 then Some 1 else if p = 1 \<and> i = 2 then Some 2
     else if p = 2 \<and> i = 0 then Some 5 else None)"
proof -
  have "frame (pte_create (page2ppn 1) (PTE_U OR PTE_V)) = 1" "frame (pte_create (page2ppn 2) (PTE_U OR PTE_V)) = 2"
    "frame (pte_create (page2ppn 5) PTE_USER) = 5"
    by (rule frame_pa [OF _ demo_frames(1)] frame_pa [OF _ demo_frames(2)] frame_pa [OF _ demo_frames(3)]; simp)+
  then show ?thesis unfolding child_def demo_cells [OF assms] by simp
qed

lemma demo_walk: "leaf (demo_phys a) 0 0x400000 = Some (2, 0)"
  "translate (demo_phys a) 0 0x400000 = Some (pte_create (page2ppn 5) PTE_USER)"
proof -
  have "idx2 0x400000 = 0" "idx1 0x400000 = 2" "idx0 0x400000 = 0"
    by (simp_all add: idx2_def idx1_def idx0_def PDX1_def PDX0_def PTX_def drop_bit_eq_div)
  then show l: "leaf (demo_phys a) 0 0x400000 = Some (2, 0)" by (simp add: leaf_def demo_children)
  show "translate (demo_phys a) 0 0x400000 = Some (pte_create (page2ppn 5) PTE_USER)"
    by (simp add: translate_def l demo_cells)
qed

lemma demo_mapped:
  obtains a where "pt_inv [0 \<mapsto> 2, 1 \<mapsto> 1, 2 \<mapsto> 0] 20 {10..<12} 0 (demo_phys a)" "page_ref_of 5 (demo_phys a) \<noteq> 1"
proof -
  obtain a where "free_pages a {10..<12}" using demo_memmap by blast
  then have a: "free_pages (set_page_ref 5 2 a) {10..<12}" by simp
  let ?s = "demo_phys (set_page_ref 5 2 a)" and ?T = "[0 \<mapsto> 2, 1 \<mapsto> 1, 2 \<mapsto> 0] :: nat \<Rightarrow> nat option"
  have "\<exists>q<20. PTE_ADDR (cell ?s p i) = page2pa q \<and> (\<forall>k. l = Suc k \<longrightarrow> ?T q = Some k)"
    if "?T p = Some l" "i < 512" "present (cell ?s p i)" for p l i
  proof -
    have "p < 20" using that(1) by (auto split: if_splits)
    then have "p = 0 \<and> i = 0 \<or> p = 1 \<and> i = 2 \<or> p = 2 \<and> i = 0"
      using that(2,3) demo_cells [of p i "set_page_ref 5 2 a"] by (auto split: if_splits)
    then show ?thesis
    proof (elim disjE conjE)
      assume "p = 0" "i = 0"
      then show ?thesis using that(1) demo_frames(1) by (intro exI [of _ 1]) (simp add: demo_cells)
    next
      assume "p = 1" "i = 2"
      then show ?thesis using that(1) demo_frames(2) by (intro exI [of _ 2]) (simp add: demo_cells)
    next
      assume "p = 2" "i = 0"
      then show ?thesis using that(1) demo_frames(3) by (intro exI [of _ 5]) (simp add: demo_cells)
    qed
  qed
  moreover have "npage ?s = nbase + of_nat 20" by (simp add: demo_phys_def)
  moreover have "?T p = Some l \<Longrightarrow> p < 20" for p l by (auto split: if_splits)
  ultimately have "typed ?T 20 ?s" by (simp add: typed_def)
  moreover have "tree ?s 0"
    by (rule treeI) (auto simp: demo_children split: if_splits)
  ultimately have "pt_inv ?T 20 {10..<12} 0 ?s" using a by (auto simp: pt_inv_def demo_phys_def)
  moreover have "page_ref_of 5 ?s \<noteq> 1" by (simp add: page_ref_of_def demo_phys_def set_page_ref_def)
  ultimately show ?thesis by (rule that)
qed

lemma demo_releasable: "page_ref_of 5 (demo_phys a) \<noteq> 1 \<Longrightarrow> releasable T F (demo_phys a) (frame (pte_create (page2ppn 5) PTE_USER))"
  using frame_pa [OF _ demo_frames(3)] by (simp add: releasable_def)

theorem get_pte_keeps_types_witness:
  "\<exists>s a t T F. get_pte (kva 0) 0x80000000 True s = Some (a, t) \<and> pt_inv T 20 F 0 t \<and> T 2 = Some 0"
proof -
  obtain b where b: "pt_inv [0 \<mapsto> 2, 1 \<mapsto> 1, 2 \<mapsto> 0] 20 {10..<12} 0 (demo_phys b)" by (rule demo_mapped)
  obtain a t T F where "get_pte (kva 0) 0x80000000 True (demo_phys b) = Some (a, t)" "pt_inv T 20 F 0 t"
    "[0 \<mapsto> 2, 1 \<mapsto> 1, 2 \<mapsto> 0] \<subseteq>\<^sub>m T"
    using get_pte_keeps_types [OF b, of "0x80000000"] by (elim exE conjE) (rule that)
  moreover from this(3) have "T 2 = Some 0" by (rule map_le_Some) simp
  ultimately show ?thesis by blast
qed

theorem page_insert_maps_witness:
  "\<exists>s rc t. page_insert (kva 0) 6 0x400000 PTE_USER s = Some (rc, t) \<and>
    translate s 0 0x400000 = Some (pte_create (page2ppn 5) PTE_USER) \<and>
    (rc = 0 \<and> translate t 0 0x400000 = Some (pte_create (page2ppn 6) (PTE_V OR PTE_USER)) \<or> rc = - E_NO_MEM)"
proof -
  obtain b where b: "pt_inv [0 \<mapsto> 2, 1 \<mapsto> 1, 2 \<mapsto> 0] 20 {10..<12} 0 (demo_phys b)" "page_ref_of 5 (demo_phys b) \<noteq> 1" by (rule demo_mapped)
  have p: "PTE_USER AND NOT 0x3FF = 0" by (simp add: layout)
  have "\<exists>rc t T' F'. page_insert (kva 0) 6 0x400000 PTE_USER (demo_phys b) = Some (rc, t) \<and> pt_inv T' 20 F' 0 t \<and>
    [0 \<mapsto> 2, 1 \<mapsto> 1, 2 \<mapsto> 0] \<subseteq>\<^sub>m T' \<and>
    (rc = 0 \<and> (\<forall>la'. translate t 0 la' =
       (if same_page 0x400000 la' then Some (pte_create (page2ppn 6) (PTE_V OR PTE_USER)) else translate (demo_phys b) 0 la')) \<or>
     rc = - E_NO_MEM \<and> F' = {} \<and> (\<forall>la'. translate t 0 la' = translate (demo_phys b) 0 la'))"
    by (rule page_insert_maps [OF b(1) _ p]) (use demo_walk(2) [of b] demo_releasable [OF b(2)] in auto)
  then obtain rc t where "page_insert (kva 0) 6 0x400000 PTE_USER (demo_phys b) = Some (rc, t)"
    "rc = 0 \<and> translate t 0 0x400000 = Some (pte_create (page2ppn 6) (PTE_V OR PTE_USER)) \<or> rc = - E_NO_MEM"
    by (auto simp: same_page_def)
  then show ?thesis using demo_walk(2) [of b] by blast
qed

theorem page_remove_unmaps_witness:
  "\<exists>s t. page_remove (kva 0) 0x400000 s = Some t \<and> translate s 0 0x400000 \<noteq> None \<and> translate t 0 0x400000 = None"
proof -
  obtain b where b: "pt_inv [0 \<mapsto> 2, 1 \<mapsto> 1, 2 \<mapsto> 0] 20 {10..<12} 0 (demo_phys b)" "page_ref_of 5 (demo_phys b) \<noteq> 1" by (rule demo_mapped)
  have "\<exists>t F'. page_remove (kva 0) 0x400000 (demo_phys b) = Some t \<and> pt_inv [0 \<mapsto> 2, 1 \<mapsto> 1, 2 \<mapsto> 0] 20 F' 0 t \<and> {10..<12} \<subseteq> F' \<and>
    (\<forall>la'. translate t 0 la' = (if same_page 0x400000 la' then None else translate (demo_phys b) 0 la'))"
    by (rule page_remove_unmaps [OF b(1)]) (use demo_walk(2) [of b] demo_releasable [OF b(2)] in auto)
  then obtain t where "page_remove (kva 0) 0x400000 (demo_phys b) = Some t" "translate t 0 0x400000 = None"
    by (auto simp: same_page_def)
  then show ?thesis using demo_walk(2) [of b] by (intro exI [of _ "demo_phys b"] exI [of _ t]) simp
qed

end
