(* ===== verification/Terminal.thy ===== *)
theory Terminal
  imports Console CString
begin

text \<open>
  Lines from the console: \<^verbatim>\<open>getchar\<close> (\<^verbatim>\<open>kern/libs/stdio.c\<close>), \<^verbatim>\<open>readline\<close> (\<^verbatim>\<open>kern/libs/readline.c\<close>) and the
  commands of the kernel monitor (\<^verbatim>\<open>kern/debug/kmonitor.c\<close>). The characters that will arrive are a list,
  in which a negative number ends what has arrived when the console is polled; a call that waits for
  ever is \<^term>\<open>None\<close>.
\<close>

section \<open>State and operations\<close>

definition BUFSIZE :: nat where [layout]: "BUFSIZE = 1024"
definition MAXARGS :: nat where [layout]: "MAXARGS = 16"

text \<open>\<open>line_buf\<close> is the address of the static buffer, \<open>command_names\<close> are those of the names of the commands.\<close>

record tty =
  t_inp :: "int list"
  t_cons :: cons
  t_out :: "int list"
  t_mem :: mem
  line_buf :: addr
  command_names :: "addr list"

partial_function (option) getchar :: "tty \<Rightarrow> (int \<times> tty) option" where
  "getchar t =
     (case cons_getc (t_inp t) (t_cons t) of (c, inp, s) \<Rightarrow>
        let t = t\<lparr>t_inp := inp, t_cons := s\<rparr> in if c = 0 then getchar t else Some (c, t))"

definition tty_putchar :: "int \<Rightarrow> tty \<Rightarrow> tty" where
  "tty_putchar c t = t\<lparr>t_out := cons_putc c (t_out t)\<rparr>"

definition print_text :: "u8 list \<Rightarrow> tty \<Rightarrow> tty" where
  "print_text cs t = fold (\<lambda>c. tty_putchar (uint c)) cs t"

definition poke :: "addr \<Rightarrow> u8 \<Rightarrow> tty \<Rightarrow> tty" where
  "poke a c t = t\<lparr>t_mem := (t_mem t)(a := c)\<rparr>"

text \<open>The loop of \<^verbatim>\<open>readline\<close> with \<open>i\<close> characters in the buffer; the result is the line or a null pointer.\<close>

partial_function (option) readline_loop :: "nat \<Rightarrow> tty \<Rightarrow> (addr \<times> tty) option" where
  "readline_loop i t =
     Option.bind (getchar t) (\<lambda>(c, t).
       if c < 0 then Some (0, t)
       else if c \<ge> 32 \<and> i < BUFSIZE - 1 then
         readline_loop (i + 1) (poke (line_buf t + i) (word_of_int c) (tty_putchar c t))
       else if c = 8 \<and> i > 0 then readline_loop (i - 1) (tty_putchar c t)
       else if c = 10 \<or> c = 13 then Some (line_buf t, poke (line_buf t + i) 0 (tty_putchar c t))
       else readline_loop i t)"

definition readline :: "u8 list option \<Rightarrow> tty \<Rightarrow> (addr \<times> tty) option" where
  "readline prompt t = readline_loop 0 (case prompt of None \<Rightarrow> t | Some p \<Rightarrow> print_text p t)"

definition white :: "u8 \<Rightarrow> bool" where
  "white c \<longleftrightarrow> c = 32 \<or> c = 9 \<or> c = 10 \<or> c = 13"

partial_function (option) skip_white :: "addr \<Rightarrow> tty \<Rightarrow> (addr \<times> tty) option" where
  "skip_white p t = (if t_mem t p \<noteq> 0 \<and> white (t_mem t p) then skip_white (p + 1) (poke p 0 t) else Some (p, t))"

partial_function (option) skip_word :: "mem \<Rightarrow> addr \<Rightarrow> addr option" where
  "skip_word m p = (if m p \<noteq> 0 \<and> \<not> white (m p) then skip_word m (p + 1) else Some p)"

text \<open>The array \<^verbatim>\<open>argv\<close> has \<^verbatim>\<open>MAXARGS\<close> elements; the message does not keep the loop from writing behind it.\<close>

definition too_many :: "u8 list" where
  "too_many = map of_char ''Too many arguments (max 16).'' @ [10]"

partial_function (option) parse_loop :: "addr \<Rightarrow> addr list \<Rightarrow> tty \<Rightarrow> (addr list \<times> tty) option" where
  "parse_loop p argv t =
     Option.bind (skip_white p t) (\<lambda>(p, t).
       if t_mem t p = 0 then Some (argv, t)
       else (let t = (if length argv = MAXARGS - 1 then print_text too_many t else t) in
         if length argv < MAXARGS
         then Option.bind (skip_word (t_mem t) p) (\<lambda>q. parse_loop q (argv @ [p]) t)
         else None))"

definition parse :: "addr \<Rightarrow> tty \<Rightarrow> (addr list \<times> tty) option" where
  "parse b t = parse_loop b [] t"

text \<open>\<^verbatim>\<open>runcmd\<close> up to the call of the command: its number and its arguments.\<close>

datatype command_call = No_command | Unknown_command | Call_command nat "addr list"

fun find_command :: "nat \<Rightarrow> addr list \<Rightarrow> addr \<Rightarrow> mem \<Rightarrow> nat option option" where
  "find_command i [] a m = Some None"
| "find_command i (n # ns) a m = do { r \<leftarrow> strcmp m n a; if r = 0 then Some (Some i) else find_command (i + 1) ns a m }"

definition runcmd :: "addr \<Rightarrow> tty \<Rightarrow> (command_call \<times> tty) option" where
  "runcmd b t = do {
     (argv, t) \<leftarrow> parse b t;
     if argv = [] then Some (No_command, t)
     else do {
       c \<leftarrow> find_command 0 (command_names t) (argv ! 0) (t_mem t);
       case c of Some i \<Rightarrow> Some (Call_command i (tl argv), t)
       | None \<Rightarrow> do {
           n \<leftarrow> strlen (t_mem t) (argv ! 0);
           Some (Unknown_command, print_text (map of_char ''Unknown command '' @ [39] @ bytes_at (t_mem t) (argv ! 0) n @ [39, 10]) t)
         }
     }
   }"

section \<open>Reading a line\<close>

text \<open>All characters that are still to be read, when none is lost.\<close>

definition arriving :: "int list \<Rightarrow> u8 list" where
  "arriving inp = map (\<lambda>c. if c = 127 then 8 else word_of_int c) (filter ((<) 0) inp)"

definition pending :: "tty \<Rightarrow> u8 list" where
  "pending t = cons_queue (t_cons t) @ arriving (t_inp t)"

definition tty_ok :: "tty \<Rightarrow> bool" where
  "tty_ok t \<longleftrightarrow> cons_ok (t_cons t) \<and> length (pending t) < CONSBUFSIZE \<and> 0 \<notin> set (pending t)"

text \<open>What a line becomes with one more character.\<close>

definition edit :: "u8 list \<Rightarrow> u8 \<Rightarrow> u8 list" where
  "edit line c = (if c \<ge> 32 \<and> length line < BUFSIZE - 1 then line @ [c] else if c = 8 then butlast line else line)"

lemma cons_intr_rest: "fst (cons_intr inp s) = tl (dropWhile ((\<le>) 0) inp)"
proof (induction inp s rule: cons_intr.induct)
  case (1 inp s)
  show ?case
  proof (cases inp)
    case Nil
    then show ?thesis by (simp add: cons_intr.simps serial_proc_data_def sbi_console_getchar_def)
  next
    case (Cons c cs)
    then show ?thesis using 1 [of "if c = 127 then 8 else c" cs]
      by (auto simp: cons_intr.simps [of "c # cs"] serial_proc_data_def sbi_console_getchar_def)
  qed
qed

lemma arriving_split: "arriving inp = typed inp @ arriving (tl (dropWhile ((\<le>) 0) inp))"
  by (induction inp) (auto simp: arriving_def typed_def)

lemma length_cons_queue [simp]: "length (cons_queue s) = waiting s"
  by (simp add: cons_queue_def)

lemma cons_getc_step:
  assumes ok: "cons_ok s" and w: "waiting s + length (arriving inp) < CONSBUFSIZE"
  obtains c inp' s' where "cons_getc inp s = (c, inp', s')" "cons_ok s'" "inp' = tl (dropWhile ((\<le>) 0) inp)"
    "(cons_queue s @ typed inp = [] \<and> c = 0 \<and> cons_queue s' = []) \<or>
     (\<exists>x. cons_queue s @ typed inp = x # cons_queue s' \<and> c = uint x)"
proof -
  have "waiting s + length (typed inp) < CONSBUFSIZE" using w arriving_split [of inp] by simp
  from cons_getc_in_order [OF ok this] obtain c inp' s' where g: "cons_getc inp s = (c, inp', s')" "cons_ok s'"
    "case cons_queue s @ typed inp of [] \<Rightarrow> c = 0 \<and> cons_queue s' = [] | x # xs \<Rightarrow> c = uint x \<and> cons_queue s' = xs" by blast
  have "inp' = fst (cons_intr inp s)" using g(1) by (auto simp: cons_getc_def serial_intr_def Let_def split: prod.splits if_splits)
  then show ?thesis using that [OF g(1,2)] g(3) by (auto simp: cons_intr_rest split: list.splits)
qed

lemma getchar_next:
  assumes "tty_ok t" and "pending t = x # xs"
  shows "\<exists>inp s. getchar t = Some (uint x, t\<lparr>t_inp := inp, t_cons := s\<rparr>) \<and> tty_ok (t\<lparr>t_inp := inp, t_cons := s\<rparr>) \<and>
    pending (t\<lparr>t_inp := inp, t_cons := s\<rparr>) = xs"
  using assms
proof (induction "length (t_inp t)" arbitrary: t rule: less_induct)
  case less
  have ok: "cons_ok (t_cons t)" "waiting (t_cons t) + length (arriving (t_inp t)) < CONSBUFSIZE" "0 \<notin> set (pending t)"
    using less.prems(1) by (simp_all add: tty_ok_def pending_def)
  obtain c inp s where g: "cons_getc (t_inp t) (t_cons t) = (c, inp, s)" "cons_ok s" "inp = tl (dropWhile ((\<le>) 0) (t_inp t))"
    "(cons_queue (t_cons t) @ typed (t_inp t) = [] \<and> c = 0 \<and> cons_queue s = []) \<or>
     (\<exists>y. cons_queue (t_cons t) @ typed (t_inp t) = y # cons_queue s \<and> c = uint y)"
    by (rule cons_getc_step [OF ok(1,2)])
  have all: "pending t = (cons_queue (t_cons t) @ typed (t_inp t)) @ arriving inp"
    using arriving_split [of "t_inp t"] g(3) by (simp add: pending_def)
  let ?t = "t\<lparr>t_inp := inp, t_cons := s\<rparr>"
  have p: "pending ?t = cons_queue s @ arriving inp" by (simp add: pending_def)
  from g(4) show ?case
  proof
    assume e: "cons_queue (t_cons t) @ typed (t_inp t) = [] \<and> c = 0 \<and> cons_queue s = []"
    then have "pending ?t = pending t" using all p by simp
    moreover from this have "tty_ok ?t" using less.prems(1) g(2) by (simp add: tty_ok_def)
    moreover have "t_inp t \<noteq> []" using all e g(3) less.prems(2) by (auto simp: arriving_def)
    then have "length inp < length (t_inp t)"
      using length_dropWhile_le [of "(\<le>) 0" "t_inp t"] g(3) by (cases "dropWhile ((\<le>) 0) (t_inp t)") auto
    then have "length (t_inp ?t) < length (t_inp t)" by simp
    ultimately have "\<exists>inp' s'. getchar ?t = Some (uint x, ?t\<lparr>t_inp := inp', t_cons := s'\<rparr>) \<and> tty_ok (?t\<lparr>t_inp := inp', t_cons := s'\<rparr>) \<and>
      pending (?t\<lparr>t_inp := inp', t_cons := s'\<rparr>) = xs" using less.hyps [of ?t] less.prems(2) by metis
    moreover have "getchar t = getchar ?t" using g(1) e by (subst getchar.simps) simp
    ultimately show ?thesis by simp
  next
    assume "\<exists>y. cons_queue (t_cons t) @ typed (t_inp t) = y # cons_queue s \<and> c = uint y"
    then obtain y where y: "cons_queue (t_cons t) @ typed (t_inp t) = y # cons_queue s" "c = uint y" by blast
    then have "pending t = (y # cons_queue s) @ arriving inp" using all by metis
    then have e: "cons_queue (t_cons t) @ typed (t_inp t) = x # cons_queue s" "c = uint x" using y less.prems(2) by simp_all
    have xs: "xs = pending ?t" using all p e(1) less.prems(2) by simp
    have "x \<noteq> 0" using ok(3) less.prems(2) by auto
    then have "getchar t = Some (uint x, ?t)" using g(1) e(2) by (subst getchar.simps) (simp add: uint_0_iff)
    moreover have "tty_ok ?t" using less.prems g(2) xs by (auto simp: tty_ok_def)
    ultimately show ?thesis using xs by blast
  qed
qed

text \<open>The text \<open>cs\<close>, NUL-terminated, at \<open>p\<close>.\<close>

definition text_at :: "mem \<Rightarrow> addr \<Rightarrow> u8 list \<Rightarrow> bool" where
  "text_at m p cs \<longleftrightarrow> (\<forall>i<length cs. m (p + i) = cs ! i) \<and> m (p + length cs) = 0 \<and> 0 \<notin> set cs"

lemma tty_fields [simp]:
  "t_mem (tty_putchar c t) = t_mem t" "line_buf (tty_putchar c t) = line_buf t" "tty_ok (tty_putchar c t) = tty_ok t"
  "pending (tty_putchar c t) = pending t" "command_names (tty_putchar c t) = command_names t"
  "t_mem (poke a b t) = (t_mem t)(a := b)" "line_buf (poke a b t) = line_buf t" "tty_ok (poke a b t) = tty_ok t"
  "pending (poke a b t) = pending t" "command_names (poke a b t) = command_names t"
  by (simp_all add: tty_putchar_def poke_def tty_ok_def pending_def)

lemma print_text_fields [simp]:
  "t_mem (print_text cs t) = t_mem t" "line_buf (print_text cs t) = line_buf t" "tty_ok (print_text cs t) = tty_ok t"
  "pending (print_text cs t) = pending t" "command_names (print_text cs t) = command_names t"
  unfolding print_text_def by (induction cs arbitrary: t) simp_all

definition line_in :: "tty \<Rightarrow> u8 list \<Rightarrow> bool" where
  "line_in t line \<longleftrightarrow> length line < BUFSIZE \<and> (\<forall>i<length line. t_mem t (line_buf t + i) = line ! i) \<and> 0 \<notin> set line"

definition outside_buffer :: "tty \<Rightarrow> tty \<Rightarrow> bool" where
  "outside_buffer t t' \<longleftrightarrow> line_buf t' = line_buf t \<and> command_names t' = command_names t \<and>
     (\<forall>a. a \<notin> {line_buf t..<line_buf t + BUFSIZE} \<longrightarrow> t_mem t' a = t_mem t a)"

text \<open>One round of the loop with an ordinary character.\<close>

lemma readline_char:
  assumes ok: "tty_ok t" and p: "pending t = c # cs" and c: "c \<noteq> 10" "c \<noteq> 13" and l: "line_in t line"
  shows "\<exists>t'. readline_loop (length line) t = readline_loop (length (edit line c)) t' \<and> tty_ok t' \<and> pending t' = cs \<and>
    line_in t' (edit line c) \<and> outside_buffer t t'"
proof -
  obtain inp s where g: "getchar t = Some (uint c, t\<lparr>t_inp := inp, t_cons := s\<rparr>)" "tty_ok (t\<lparr>t_inp := inp, t_cons := s\<rparr>)"
    "pending (t\<lparr>t_inp := inp, t_cons := s\<rparr>) = cs" using getchar_next [OF ok p] by blast
  let ?t = "t\<lparr>t_inp := inp, t_cons := s\<rparr>"
  have lt: "line_in ?t line" using l by (simp add: line_in_def)
  have u: "32 \<le> uint c \<longleftrightarrow> 32 \<le> c" "uint c = 8 \<longleftrightarrow> c = 8" "\<not> uint c < 0" "uint c \<noteq> 10" "uint c \<noteq> 13" "0 \<le> uint c"
    using c by (auto simp: word_le_def word_uint_eq_iff)
  consider "32 \<le> c" "length line < BUFSIZE - 1" | "c = 8" "line \<noteq> []" | "\<not> (32 \<le> c \<and> length line < BUFSIZE - 1)" "\<not> (c = 8 \<and> line \<noteq> [])" by blast
  then show ?thesis
  proof cases
    case 1
    let ?v = "poke (line_buf ?t + length line) c (tty_putchar (uint c) ?t)"
    have "readline_loop (length line) t = readline_loop (length (edit line c)) ?v"
      using g(1) 1 u by (subst readline_loop.simps) (simp add: edit_def)
    moreover have "c \<noteq> 0" using 1(1) by auto
    then have "line_in ?v (edit line c)" using lt 1 by (auto simp: line_in_def edit_def nth_append less_Suc_eq layout)
    moreover have "outside_buffer t ?v" using 1(2) by (auto simp: outside_buffer_def layout)
    ultimately show ?thesis using g(2,3) by (intro exI [of _ ?v]) simp
  next
    case 2
    let ?v = "tty_putchar (uint c) ?t"
    have "readline_loop (length line) t = readline_loop (length (edit line c)) ?v"
      using g(1) 2 u by (subst readline_loop.simps) (simp add: edit_def)
    moreover have "line_in ?v (edit line c)" using lt 2 by (auto simp: line_in_def edit_def nth_butlast in_set_butlastD dest: in_set_butlastD)
    moreover have "outside_buffer t ?v" by (simp add: outside_buffer_def)
    ultimately show ?thesis using g(2,3) by (intro exI [of _ ?v]) simp
  next
    case 3
    have "readline_loop (length line) t = readline_loop (length line) ?t"
      using g(1) 3 u by (subst readline_loop.simps) auto
    moreover have "edit line c = line" using 3 by (auto simp: edit_def)
    moreover have "outside_buffer t ?t" by (simp add: outside_buffer_def)
    ultimately show ?thesis using g(2,3) lt by (intro exI [of _ ?t]) simp
  qed
qed

lemma readline_end:
  assumes ok: "tty_ok t" and p: "pending t = e # rest" and e: "e = 10 \<or> e = 13" and l: "line_in t line"
  shows "\<exists>t'. readline_loop (length line) t = Some (line_buf t, t') \<and> tty_ok t' \<and> pending t' = rest \<and>
    text_at (t_mem t') (line_buf t) line \<and> outside_buffer t t'"
proof -
  obtain inp s where g: "getchar t = Some (uint e, t\<lparr>t_inp := inp, t_cons := s\<rparr>)" "tty_ok (t\<lparr>t_inp := inp, t_cons := s\<rparr>)"
    "pending (t\<lparr>t_inp := inp, t_cons := s\<rparr>) = rest" using getchar_next [OF ok p] by blast
  let ?v = "poke (line_buf t + length line) 0 (tty_putchar (uint e) (t\<lparr>t_inp := inp, t_cons := s\<rparr>))"
  have "readline_loop (length line) t = Some (line_buf t, ?v)"
    using g(1) e by (subst readline_loop.simps) auto
  moreover have "text_at (t_mem ?v) (line_buf t) line" using l by (auto simp: text_at_def line_in_def)
  moreover have "outside_buffer t ?v" using l by (auto simp: outside_buffer_def line_in_def)
  ultimately show ?thesis using g(2,3) by (intro exI [of _ ?v]) simp
qed

lemma outside_buffer_trans: "outside_buffer t u \<Longrightarrow> outside_buffer u v \<Longrightarrow> outside_buffer t v"
  by (simp add: outside_buffer_def)

lemma readline_loop_spec:
  assumes "tty_ok t" and "pending t = cs @ e # rest" and "e = 10 \<or> e = 13" and "10 \<notin> set cs" "13 \<notin> set cs" and "line_in t line"
  shows "\<exists>t'. readline_loop (length line) t = Some (line_buf t, t') \<and> tty_ok t' \<and> pending t' = rest \<and>
    text_at (t_mem t') (line_buf t) (foldl edit line cs) \<and> outside_buffer t t'"
  using assms
proof (induction cs arbitrary: t line)
  case Nil
  then show ?case using readline_end [of t e rest line] by simp
next
  case (Cons c cs)
  obtain u where u: "readline_loop (length line) t = readline_loop (length (edit line c)) u" "tty_ok u" "pending u = cs @ e # rest"
    "line_in u (edit line c)" "outside_buffer t u"
    using readline_char [OF Cons.prems(1), of c "cs @ e # rest" line] Cons.prems by auto
  obtain t' where t': "readline_loop (length (edit line c)) u = Some (line_buf u, t')" "tty_ok t'" "pending t' = rest"
    "text_at (t_mem t') (line_buf u) (foldl edit (edit line c) cs)" "outside_buffer u t'"
    using Cons.IH [OF u(2,3) Cons.prems(3) _ _ u(4)] Cons.prems(4,5) by auto
  have "line_buf u = line_buf t" using u(5) by (simp add: outside_buffer_def)
  then show ?case using t' u(1) outside_buffer_trans [OF u(5) t'(5)] by simp
qed

text \<open>
  C37: \<^verbatim>\<open>readline\<close> returns, as soon as an end of line arrives, the line that the characters before it make
  when erasing and the length of the buffer are taken into account, as a string in its buffer; what
  arrives after it stays for the next call, and no other memory changes. The characters may arrive at any
  time, as long as the ring of the console does not run over.
\<close>

theorem readline_edits:
  assumes "tty_ok t" and "pending t = cs @ e # rest" and "e = 10 \<or> e = 13" and "10 \<notin> set cs" and "13 \<notin> set cs"
  shows "\<exists>t'. readline prompt t = Some (line_buf t, t') \<and> tty_ok t' \<and> pending t' = rest \<and>
    text_at (t_mem t') (line_buf t) (foldl edit [] cs) \<and> length (foldl edit [] cs) < BUFSIZE \<and> outside_buffer t t'"
proof -
  let ?t = "case prompt of None \<Rightarrow> t | Some p \<Rightarrow> print_text p t"
  have f: "tty_ok ?t" "pending ?t = cs @ e # rest" "line_buf ?t = line_buf t" "outside_buffer t ?t"
    using assms(1,2) by (auto simp: outside_buffer_def split: option.split)
  have "line_in ?t []" by (simp add: line_in_def layout)
  from readline_loop_spec [OF f(1,2) assms(3-5) this] obtain t' where t': "readline_loop 0 ?t = Some (line_buf ?t, t')" "tty_ok t'"
    "pending t' = rest" "text_at (t_mem t') (line_buf ?t) (foldl edit [] cs)" "outside_buffer ?t t'" by auto
  have "length (foldl edit l cs) < BUFSIZE" if "length l < BUFSIZE" for l
    using that by (induction cs arbitrary: l) (auto simp: edit_def layout)
  then have "length (foldl edit [] cs) < BUFSIZE" by (simp add: layout)
  then show ?thesis using t' f(3) outside_buffer_trans [OF f(4) t'(5)] by (simp add: readline_def)
qed

section \<open>Splitting a command\<close>

function split_words :: "u8 list \<Rightarrow> u8 list list" where
  "split_words cs = (case dropWhile white cs of [] \<Rightarrow> []
     | d # ds \<Rightarrow> takeWhile (\<lambda>c. \<not> white c) (d # ds) # split_words (dropWhile (\<lambda>c. \<not> white c) (d # ds)))"
  by pat_completeness auto
termination
proof (relation "measure length")
  fix cs d ds assume h: "dropWhile white cs = d # ds"
  then have "\<not> white d" using hd_dropWhile [of white cs] by simp
  then have "length (dropWhile (\<lambda>c. \<not> white c) (d # ds)) \<le> length ds"
    by (simp add: length_dropWhile_le)
  also have "length ds < length cs" using length_dropWhile_le [of white cs] h by simp
  finally show "(dropWhile (\<lambda>c. \<not> white c) (d # ds), cs) \<in> measure length" by simp
qed simp

declare split_words.simps [simp del]

definition same_memory :: "addr set \<Rightarrow> mem \<Rightarrow> mem \<Rightarrow> bool" where
  "same_memory A m m' \<longleftrightarrow> (\<forall>a. a \<notin> A \<longrightarrow> m' a = m a)"

lemma text_at_Cons: "text_at m p (c # cs) \<longleftrightarrow> m p = c \<and> c \<noteq> 0 \<and> text_at m (Suc p) cs"
  by (auto simp: text_at_def All_less_Suc2)

lemma text_at_append: "text_at m p (as @ cs) \<longleftrightarrow> (\<forall>i<length as. m (p + i) = as ! i) \<and> 0 \<notin> set as \<and> text_at m (p + length as) cs"
  by (induction as arbitrary: p) (auto simp: text_at_Cons All_less_Suc2)

lemma text_at_cong: "(\<And>i. i \<le> length cs \<Longrightarrow> m' (p + i) = m (p + i)) \<Longrightarrow> text_at m' p cs = text_at m p cs"
  by (simp add: text_at_def)

lemma skip_white_spec:
  assumes "text_at (t_mem t) p cs"
  defines "k \<equiv> length (takeWhile white cs)"
  shows "\<exists>u. skip_white p t = Some (p + k, u) \<and> same_memory {p..<p + k} (t_mem t) (t_mem u) \<and>
    (\<forall>i<k. t_mem u (p + i) = 0) \<and> text_at (t_mem u) (p + k) (dropWhile white cs) \<and> u = t\<lparr>t_mem := t_mem u\<rparr>"
  using assms(1) unfolding k_def
proof (induction cs arbitrary: p t)
  case Nil
  then show ?case by (subst skip_white.simps) (simp add: text_at_def same_memory_def)
next
  case (Cons c cs)
  show ?case
  proof (cases "white c")
    case True
    let ?t = "poke p 0 t"
    have "text_at (t_mem ?t) (Suc p) cs = text_at (t_mem t) (Suc p) cs" by (rule text_at_cong) simp
    then have "text_at (t_mem ?t) (Suc p) cs" using Cons.prems by (simp add: text_at_Cons)
    from Cons.IH [OF this] obtain u where u: "skip_white (Suc p) ?t = Some (Suc p + length (takeWhile white cs), u)"
      "same_memory {Suc p..<Suc p + length (takeWhile white cs)} (t_mem ?t) (t_mem u)"
      "\<forall>i<length (takeWhile white cs). t_mem u (Suc p + i) = 0" "text_at (t_mem u) (Suc p + length (takeWhile white cs)) (dropWhile white cs)"
      "u = ?t\<lparr>t_mem := t_mem u\<rparr>" by blast
    have "skip_white p t = skip_white (Suc p) ?t" using Cons.prems True by (subst skip_white.simps) (simp add: text_at_Cons)
    moreover have "t_mem u p = 0" using u(2) by (simp add: same_memory_def)
    moreover have "u = t\<lparr>t_mem := t_mem u\<rparr>" using u(5) by (simp add: poke_def)
    ultimately show ?thesis using u True by (intro exI [of _ u]) (auto simp: same_memory_def All_less_Suc2)
  next
    case False
    then show ?thesis using Cons.prems by (subst skip_white.simps) (auto simp: text_at_Cons same_memory_def)
  qed
qed

lemma skip_word_spec: "text_at m p cs \<Longrightarrow> skip_word m p = Some (p + length (takeWhile (\<lambda>c. \<not> white c) cs))"
proof (induction cs arbitrary: p)
  case (Cons c cs)
  then show ?case by (subst skip_word.simps) (auto simp: text_at_Cons)
qed (subst skip_word.simps, simp add: text_at_def)

text \<open>
  \<open>arguments m as ws\<close>: at the addresses \<open>as\<close> are the words \<open>ws\<close>.
\<close>

definition arguments :: "mem \<Rightarrow> addr list \<Rightarrow> u8 list list \<Rightarrow> bool" where
  "arguments m as ws \<longleftrightarrow> list_all2 (text_at m) as ws"

lemma split_words_Nil: "dropWhile white cs = [] \<Longrightarrow> split_words cs = []"
  by (subst split_words.simps) (simp only: list.case)

lemma split_words_Cons: "dropWhile white cs = d # ds \<Longrightarrow>
    split_words cs = takeWhile (\<lambda>c. \<not> white c) (d # ds) # split_words (dropWhile (\<lambda>c. \<not> white c) (d # ds))"
  by (subst split_words.simps) (simp only: list.case)

text \<open>One word: the blanks before it are cut off, and the loop goes on behind it or leaves the array.\<close>

lemma parse_word:
  assumes t: "text_at (t_mem t) p cs" and d: "dropWhile white cs = d # ds"
    and k: "k = length (takeWhile white cs)" and wr: "w = takeWhile (\<lambda>c. \<not> white c) (d # ds)" "r = dropWhile (\<lambda>c. \<not> white c) (d # ds)"
  obtains v where
    "parse_loop p argv t = (if length argv < MAXARGS then parse_loop (p + k + length w) (argv @ [p + k]) v else None)"
    "same_memory {p..<p + k} (t_mem t) (t_mem v)" "\<forall>i<k. t_mem v (p + i) = 0" "\<forall>i<length w. t_mem v (p + k + i) = w ! i" "0 \<notin> set w"
    "text_at (t_mem v) (p + k + length w) r" "line_buf v = line_buf t" "command_names v = command_names t"
proof -
  obtain u where u: "skip_white p t = Some (p + k, u)" "same_memory {p..<p + k} (t_mem t) (t_mem u)"
    "\<forall>i<k. t_mem u (p + i) = 0" "text_at (t_mem u) (p + k) (d # ds)" "u = t\<lparr>t_mem := t_mem u\<rparr>"
    using skip_white_spec [OF t] unfolding d k by blast
  have uf: "line_buf u = line_buf t" "command_names u = command_names t" by (subst u(5), simp)+
  have "w @ r = d # ds" by (simp add: wr)
  then have tx: "\<forall>i<length w. t_mem u (p + k + i) = w ! i" "0 \<notin> set w" "text_at (t_mem u) (p + k + length w) r"
    using u(4) text_at_append [of "t_mem u" "p + k" w r] by simp_all
  have d0: "t_mem u (p + k) \<noteq> 0" using u(4) by (auto simp: text_at_Cons)
  have sw: "skip_word (t_mem u) (p + k) = Some (p + k + length w)" using skip_word_spec [OF u(4)] by (simp add: wr)
  define v where "v = (if length argv = MAXARGS - 1 then print_text too_many u else u)"
  have vf: "t_mem v = t_mem u" "line_buf v = line_buf t" "command_names v = command_names t" using uf by (simp_all add: v_def)
  have "parse_loop p argv t = (if length argv < MAXARGS then parse_loop (p + k + length w) (argv @ [p + k]) v else None)"
    unfolding v_def using u(1) d0 sw by (subst parse_loop.simps) (simp add: Let_def)
  then show ?thesis using u(2,3) tx vf(2,3) by (intro that [of v]) (simp_all only: vf(1) not_False_eq_True)
qed

lemma parse_loop_spec:
  assumes "text_at (t_mem t) p cs" and "length argv + length (split_words cs) \<le> MAXARGS"
  shows "\<exists>as u. parse_loop p argv t = Some (argv @ as, u) \<and> arguments (t_mem u) as (split_words cs) \<and>
    same_memory {p..<p + length cs} (t_mem t) (t_mem u) \<and> (cs \<noteq> [] \<longrightarrow> white (hd cs) \<longrightarrow> t_mem u p = 0) \<and>
    line_buf u = line_buf t \<and> command_names u = command_names t"
  using assms
proof (induction cs arbitrary: p argv t rule: split_words.induct)
  case (1 cs)
  define k where "k = length (takeWhile white cs)"
  have len: "k + length (dropWhile white cs) = length cs" unfolding k_def by (metis length_append takeWhile_dropWhile_id)
  have k0: "0 < k" if "cs \<noteq> []" "white (hd cs)" using that by (cases cs) (auto simp: k_def)
  show ?case
  proof (cases "dropWhile white cs")
    case Nil
    obtain u where u: "skip_white p t = Some (p + k, u)" "same_memory {p..<p + k} (t_mem t) (t_mem u)"
      "\<forall>i<k. t_mem u (p + i) = 0" "text_at (t_mem u) (p + k) []" "u = t\<lparr>t_mem := t_mem u\<rparr>"
      using skip_white_spec [OF 1(2)] unfolding Nil k_def by blast
    have "line_buf u = line_buf t" "command_names u = command_names t" by (subst u(5), simp)+
    moreover have "parse_loop p argv t = Some (argv @ [], u)" using u(1,4) by (subst parse_loop.simps) (simp add: text_at_def)
    moreover have "cs \<noteq> [] \<longrightarrow> white (hd cs) \<longrightarrow> t_mem u p = 0" using u(3) k0 by force
    ultimately show ?thesis using u(2) len Nil by (intro exI [of _ "[]"] exI [of _ u]) (simp add: arguments_def split_words_Nil)
  next
    case (Cons d ds)
    define w where "w = takeWhile (\<lambda>c. \<not> white c) (d # ds)"
    define r where "r = dropWhile (\<lambda>c. \<not> white c) (d # ds)"
    have ws: "split_words cs = w # split_words r" using split_words_Cons [OF Cons] by (simp add: w_def r_def)
    obtain v where v: "parse_loop p argv t = (if length argv < MAXARGS then parse_loop (p + k + length w) (argv @ [p + k]) v else None)"
      "same_memory {p..<p + k} (t_mem t) (t_mem v)" "\<forall>i<k. t_mem v (p + i) = 0" "\<forall>i<length w. t_mem v (p + k + i) = w ! i" "0 \<notin> set w"
      "text_at (t_mem v) (p + k + length w) r" "line_buf v = line_buf t" "command_names v = command_names t"
      by (rule parse_word [OF 1(2) Cons k_def w_def r_def, of argv])
    have less: "length argv < MAXARGS" "length (argv @ [p + k]) + length (split_words r) \<le> MAXARGS" using 1(3) ws by simp_all
    obtain as z where z: "parse_loop (p + k + length w) (argv @ [p + k]) v = Some ((argv @ [p + k]) @ as, z)"
      "arguments (t_mem z) as (split_words r)" "same_memory {p + k + length w..<p + k + length w + length r} (t_mem v) (t_mem z)"
      "r \<noteq> [] \<longrightarrow> white (hd r) \<longrightarrow> t_mem z (p + k + length w) = 0" "line_buf z = line_buf v" "command_names z = command_names v"
      using 1(1) [OF Cons, folded r_def, OF v(6) less(2)] by blast
    have keep: "t_mem z a = t_mem v a" if "a < p + k + length w" for a using z(3) that by (simp add: same_memory_def)
    have "t_mem z (p + k + length w) = 0"
    proof (cases "r = []")
      case True
      then show ?thesis using z(3) v(6) by (simp add: same_memory_def text_at_def)
    next
      case False
      then show ?thesis using z(4) hd_dropWhile [of "\<lambda>c. \<not> white c" "d # ds"] by (simp add: r_def)
    qed
    then have "text_at (t_mem z) (p + k) w" using v(4,5) keep by (simp add: text_at_def)
    then have "arguments (t_mem z) ((p + k) # as) (split_words cs)" using z(2) ws by (simp add: arguments_def)
    moreover have "w @ r = d # ds" by (simp add: w_def r_def)
    then have "k + (length w + length r) = length cs" using len Cons by (metis length_append)
    then have "same_memory {p..<p + length cs} (t_mem t) (t_mem z)" using v(2) z(3) by (auto simp: same_memory_def)
    moreover have "cs \<noteq> [] \<longrightarrow> white (hd cs) \<longrightarrow> t_mem z p = 0" using k0 keep [of p] v(3) by force
    ultimately show ?thesis using v(1,7,8) less(1) z(1,5,6) by (intro exI [of _ "(p + k) # as"] exI [of _ z]) simp
  qed
qed

lemma parse_loop_overflow:
  assumes "text_at (t_mem t) p cs" and "MAXARGS < length argv + length (split_words cs)" and "length argv \<le> MAXARGS"
  shows "parse_loop p argv t = None"
  using assms
proof (induction cs arbitrary: p argv t rule: split_words.induct)
  case (1 cs)
  show ?case
  proof (cases "dropWhile white cs")
    case Nil
    then show ?thesis using 1(3,4) by (simp add: split_words_Nil)
  next
    case (Cons d ds)
    show ?thesis
    proof (cases "length argv < MAXARGS")
      case True
      then show ?thesis using parse_word [OF 1(2) Cons refl refl refl, of argv] 1(1) [OF Cons] 1(3) split_words_Cons [OF Cons] by fastforce
    next
      case False
      then show ?thesis using parse_word [OF 1(2) Cons refl refl refl, of argv] by metis
    qed
  qed
qed

text \<open>
  \<^verbatim>\<open>parse\<close> splits a command line at blanks: for at most 16 words the elements of \<^verbatim>\<open>argv\<close> are, in order,
  the addresses of the words as strings of their own, and no memory outside the line changes. With more
  words it writes behind the array.
\<close>

theorem parse_splits:
  assumes "text_at (t_mem t) b cs"
  shows "if length (split_words cs) \<le> MAXARGS
    then \<exists>argv u. parse b t = Some (argv, u) \<and> arguments (t_mem u) argv (split_words cs) \<and>
      same_memory {b..<b + length cs} (t_mem t) (t_mem u)
    else parse b t = None"
  using parse_loop_spec [OF assms, of "[]"] parse_loop_overflow [OF assms, of "[]"] by (auto simp: parse_def)

section \<open>Witnesses\<close>

definition demo_tty :: tty where
  "demo_tty = \<lparr>t_inp = [104, 120, 127, 105, 32, 33, 10, 97], t_cons = \<lparr>cons_buf = replicate 512 0, cons_rpos = 0, cons_wpos = 0\<rparr>,
     t_out = [], t_mem = (\<lambda>_. 0), line_buf = 100, command_names = []\<rparr>"

text \<open>\<open>h\<close>, a letter that is erased, \<open>i\<close>, a blank and an exclamation mark, the end of the line.\<close>

lemma demo_pending: "pending demo_tty = [104, 120, 8, 105, 32, 33] @ 10 # [97]" "tty_ok demo_tty"
proof -
  show p: "pending demo_tty = [104, 120, 8, 105, 32, 33] @ 10 # [97]"
    by (simp add: pending_def demo_tty_def arriving_def cons_queue_def waiting_def layout)
  then show "tty_ok demo_tty" by (simp add: tty_ok_def demo_tty_def cons_ok_def layout)
qed

lemma demo_edit: "foldl edit [] [104, 120, 8, 105, 32, 33] = [104, 105, 32, 33]"
  by (simp add: edit_def layout)

theorem readline_edits_witness:
  "\<exists>t'. readline None demo_tty = Some (100, t') \<and> pending t' = [97] \<and> text_at (t_mem t') 100 [104, 105, 32, 33]"
  using readline_edits [OF demo_pending(2,1), of None] demo_edit by (auto simp: demo_tty_def)

lemma demo_words: "split_words [104, 105, 32, 33] = [[104, 105], [33]]"
  by (simp add: split_words.simps [of "[104, 105, 32, 33]"] split_words.simps [of "[32, 33]"] split_words.simps [of "[]"] white_def)

theorem parse_splits_witness:
  "\<exists>t argv u. text_at (t_mem t) 100 [104, 105, 32, 33] \<and> parse 100 t = Some (argv, u) \<and> arguments (t_mem u) argv [[104, 105], [33]]"
proof -
  let ?t = "demo_tty\<lparr>t_mem := (\<lambda>_. 0)(100 := 104, 101 := 105, 102 := 32, 103 := 33)\<rparr>"
  have t: "text_at (t_mem ?t) 100 [104, 105, 32, 33]" by (simp add: text_at_Cons) (simp add: text_at_def)
  from parse_splits [OF t] show ?thesis
    using t demo_words by (intro exI [of _ ?t]) (auto simp: layout)
qed

end
