(* ===== verification/Slub.thy ===== *)
theory Slub
  imports SlobSpec CString ListRings
begin

text \<open>
  The SLUB allocator of lab 2 (\<^verbatim>\<open>lab2/kern/mm/slub_pmm.c\<close>) over the page manager of that lab, which
  is best fit (\<^verbatim>\<open>lab2/kern/mm/pmm.c\<close>). A slab is one page: the header \<^verbatim>\<open>slab_t\<close> of 56 bytes, the
  objects, and a bitmap with one bit for every object. Slabs and caches are named by their addresses;
  \<open>slabs\<close> reads the memory at an address as a header, and the bytes of the objects and bitmaps are in
  \<open>slub_mem\<close>. \<^verbatim>\<open>list_link\<close> is the first field of a slab, so \<^verbatim>\<open>le2slab\<close> is the identity.
  What the functions print, and the names of the caches, are left out.
\<close>

section \<open>The page manager of lab 2\<close>

definition best_fit_init :: "free_area \<Rightarrow> free_area" where
  "best_fit_init s = s\<lparr>free_links := list_init (free_list s) (free_links s), nr_free := 0\<rparr>"

definition best_fit_init_memmap :: "nat \<Rightarrow> nat \<Rightarrow> free_area \<Rightarrow> free_area option" where
  "best_fit_init_memmap base n s = do {
     ensure (n > 0);
     s \<leftarrow> memmap_pages n base s;
     let s = set_property base (of_nat n) s;
     let s = SetPageProperty base s;
     let s = s\<lparr>nr_free := nr_free s + of_nat n\<rparr>;
     insert_block base s
   }"

definition best_fit_free_pages :: "nat \<Rightarrow> nat \<Rightarrow> free_area \<Rightarrow> free_area option" where
  "best_fit_free_pages base n s = do {
     ensure (n > 0);
     s \<leftarrow> unuse_pages n base s;
     let s = set_property base (of_nat n) s;
     let s = SetPageProperty base s;
     let s = s\<lparr>nr_free := nr_free s + of_nat n\<rparr>;
     s \<leftarrow> insert_block base s;
     let (base, s) = merge_prev base s;
     Some (merge_next base s)
   }"

definition best_fit_nr_free_pages :: "free_area \<Rightarrow> u32" where
  "best_fit_nr_free_pages s = nr_free s"

definition pmm_alloc_pages :: "nat \<Rightarrow> phys \<Rightarrow> (nat option \<times> phys) option" where
  "pmm_alloc_pages n s = do { (p, a) \<leftarrow> best_fit_alloc_pages n (area s); Some (p, s\<lparr>area := a\<rparr>) }"

definition pmm_free_pages :: "nat \<Rightarrow> nat \<Rightarrow> phys \<Rightarrow> phys option" where
  "pmm_free_pages base n s = do { a \<leftarrow> best_fit_free_pages base n (area s); Some (s\<lparr>area := a\<rparr>) }"

definition pmm_nr_free_pages :: "phys \<Rightarrow> u32" where
  "pmm_nr_free_pages s = best_fit_nr_free_pages (area s)"

section \<open>Slabs and caches\<close>

record slab =
  objects :: addr
  slab_bitmap :: addr
  free_objects :: u64
  total_objects :: u64
  slab_cache :: addr

record cache =
  object_size :: u64
  objects_per_slab :: u64

record slub =
  slabs :: "addr \<Rightarrow> slab"
  caches :: "addr \<Rightarrow> cache"
  slub_links :: links
  slub_mem :: mem
  slub_caches :: addr
  slub_initialized :: bool
  total_allocated :: u64
  total_freed :: u64
  slub_phys :: phys

definition SLAB_CACHE_NUM :: nat where [layout]: "SLAB_CACHE_NUM = 3"
definition SLAB_CACHE_SIZES :: "u64 list" where [layout]: "SLAB_CACHE_SIZES = [32, 64, 128]"

text \<open>\<^verbatim>\<open>sizeof(slab_t)\<close> and \<^verbatim>\<open>sizeof(cache_t)\<close>, and the places of the three list heads.\<close>

definition SLAB_STRUCT :: nat where [layout]: "SLAB_STRUCT = 56"
definition CACHE_STRUCT :: nat where [layout]: "CACHE_STRUCT = 72"

definition cache_at :: "slub \<Rightarrow> nat \<Rightarrow> addr" where
  "cache_at s i = slub_caches s + CACHE_STRUCT * i"

definition slabs_full :: "addr \<Rightarrow> addr" where "slabs_full c = c"
definition slabs_partial :: "addr \<Rightarrow> addr" where "slabs_partial c = c + 16"
definition slabs_free :: "addr \<Rightarrow> addr" where "slabs_free c = c + 32"

definition calculate_objects_per_slab :: "u64 \<Rightarrow> u64" where
  "calculate_objects_per_slab sz =
     (let slab_struct_size = of_nat SLAB_STRUCT;
          available_size = of_nat PGSIZE - slab_struct_size;
          bitmap_bits = available_size * 8 div (sz * 8 + 1);
          bitmap_size = (bitmap_bits + 7) div 8;
          available_size = available_size - bitmap_size;
          objs = available_size div sz
      in if objs > 0 then objs else 1)"

definition cache_init :: "addr \<Rightarrow> u64 \<Rightarrow> slub \<Rightarrow> slub" where
  "cache_init c sz s =
     s\<lparr>caches := (caches s)(c := \<lparr>object_size = sz, objects_per_slab = calculate_objects_per_slab sz\<rparr>),
       slub_links := list_init (slabs_free c) (list_init (slabs_partial c) (list_init (slabs_full c) (slub_links s)))\<rparr>"

definition slub_init :: "slub \<Rightarrow> slub" where
  "slub_init s =
     (if slub_initialized s then s
      else (fold (\<lambda>i. cache_init (cache_at s i) (SLAB_CACHE_SIZES ! i)) [0..<SLAB_CACHE_NUM] s)
        \<lparr>slub_initialized := True\<rparr>)"

definition slab_create :: "addr \<Rightarrow> slub \<Rightarrow> (addr \<times> slub) option" where
  "slab_create c s = do {
     (page, p) \<leftarrow> pmm_alloc_pages 1 (slub_phys s);
     let s = s\<lparr>slub_phys := p\<rparr>;
     case page of None \<Rightarrow> Some (0, s)
     | Some page \<Rightarrow> do {
         page_va \<leftarrow> page2kva page p;
         let slab = unat page_va;
         let n = objects_per_slab (caches s c);
         let objs = slab + SLAB_STRUCT;
         let bitmap_size = (n + 7) div 8;
         let bm = objs + unat (n * object_size (caches s c));
         let s = s\<lparr>slabs := (slabs s)(slab :=
           \<lparr>objects = objs, slab_bitmap = bm, free_objects = n, total_objects = n, slab_cache = c\<rparr>)\<rparr>;
         let s = s\<lparr>slub_mem := memset bm 0 (unat bitmap_size) (slub_mem s)\<rparr>;
         Some (slab, s\<lparr>slub_links := list_add (slabs_free c) slab (slub_links s)\<rparr>)
       }
   }"

section \<open>\<^verbatim>\<open>slub_alloc\<close>\<close>

definition cache_for :: "u64 \<Rightarrow> slub \<Rightarrow> addr option" where
  "cache_for sz s =
     List.find (\<lambda>c. object_size (caches s c) \<ge> sz) (map (cache_at s) [0..<SLAB_CACHE_NUM])"

text \<open>A slab moves from the ring it is in to the one at \<open>h\<close>.\<close>

definition move_slab :: "addr \<Rightarrow> addr \<Rightarrow> slub \<Rightarrow> slub" where
  "move_slab h slab s = s\<lparr>slub_links := list_add h slab (list_del slab (slub_links s))\<rparr>"

definition pick_slab :: "addr \<Rightarrow> slub \<Rightarrow> (addr \<times> slub) option" where
  "pick_slab c s =
     (if \<not> list_empty (slabs_partial c) (slub_links s)
      then Some (list_next (slabs_partial c) (slub_links s), s)
      else if \<not> list_empty (slabs_free c) (slub_links s)
      then (let le = list_next (slabs_free c) (slub_links s)
            in Some (le, move_slab (slabs_partial c) le s))
      else do {
        (slab, s) \<leftarrow> slab_create c s;
        Some (slab, if slab \<noteq> 0 then move_slab (slabs_partial c) slab s else s)
      })"

definition bit_used :: "mem \<Rightarrow> addr \<Rightarrow> nat \<Rightarrow> bool" where
  "bit_used m bm i \<longleftrightarrow> m (bm + i div 8) AND push_bit (i mod 8) 1 \<noteq> 0"

definition free_object :: "addr \<Rightarrow> slub \<Rightarrow> nat option" where
  "free_object slab s =
     List.find (\<lambda>i. \<not> bit_used (slub_mem s) (slab_bitmap (slabs s slab)) i) [0..<unat (total_objects (slabs s slab))]"

definition set_bit_used :: "addr \<Rightarrow> nat \<Rightarrow> mem \<Rightarrow> mem" where
  "set_bit_used bm i m = m(bm + i div 8 := m (bm + i div 8) OR push_bit (i mod 8) 1)"

definition clear_bit_used :: "addr \<Rightarrow> nat \<Rightarrow> mem \<Rightarrow> mem" where
  "clear_bit_used bm i m = m(bm + i div 8 := m (bm + i div 8) AND NOT (push_bit (i mod 8) 1))"

definition upd_slab :: "addr \<Rightarrow> (slab \<Rightarrow> slab) \<Rightarrow> slub \<Rightarrow> slub" where
  "upd_slab a f s = s\<lparr>slabs := (slabs s)(a := f (slabs s a))\<rparr>"

definition take_object :: "addr \<Rightarrow> addr \<Rightarrow> nat \<Rightarrow> slub \<Rightarrow> addr \<times> slub" where
  "take_object c slab i s =
     (let s = s\<lparr>slub_mem := set_bit_used (slab_bitmap (slabs s slab)) i (slub_mem s)\<rparr>;
          s = upd_slab slab (\<lambda>b. b\<lparr>free_objects := free_objects b - 1\<rparr>) s;
          obj = objects (slabs s slab) + i * unat (object_size (caches s c));
          s = s\<lparr>slub_mem := memset obj 0 (unat (object_size (caches s c))) (slub_mem s)\<rparr>;
          s = (if free_objects (slabs s slab) = 0 then move_slab (slabs_full c) slab s else s)
      in (obj, s\<lparr>total_allocated := total_allocated s + 1\<rparr>))"

definition slub_alloc :: "u64 \<Rightarrow> slub \<Rightarrow> (addr \<times> slub) option" where
  "slub_alloc sz s =
     (let s = (if \<not> slub_initialized s then slub_init s else s) in
      if sz = 0 then Some (0, s)
      else case cache_for sz s of
        None \<Rightarrow> do {
          let pages_needed = (sz + of_nat PGSIZE - 1) div of_nat PGSIZE;
          (page, p) \<leftarrow> pmm_alloc_pages (unat pages_needed) (slub_phys s);
          let s = s\<lparr>slub_phys := p\<rparr>;
          case page of None \<Rightarrow> Some (0, s)
          | Some page \<Rightarrow> do { kva \<leftarrow> page2kva page p; Some (unat kva, s) }
        }
      | Some c \<Rightarrow> do {
          (slab, s) \<leftarrow> pick_slab c s;
          if slab = 0 then Some (0, s)
          else case free_object slab s of
            None \<Rightarrow> Some (0, s)
          | Some i \<Rightarrow> Some (take_object c slab i s)
        })"

section \<open>\<^verbatim>\<open>slub_free\<close>\<close>

definition slub_alloc_pages :: "nat \<Rightarrow> slub \<Rightarrow> (addr \<times> slub) option" where
  "slub_alloc_pages n s = do {
     (page, p) \<leftarrow> pmm_alloc_pages n (slub_phys s);
     let s = s\<lparr>slub_phys := p\<rparr>;
     case page of None \<Rightarrow> Some (0, s)
     | Some page \<Rightarrow> do { kva \<leftarrow> page2kva page p; Some (unat kva, s) }
   }"

definition slub_free_pages :: "addr \<Rightarrow> nat \<Rightarrow> slub \<Rightarrow> slub option" where
  "slub_free_pages a n s =
     (if a = 0 then Some s
      else do {
        page \<leftarrow> kva2page (of_nat a) (slub_phys s);
        p \<leftarrow> pmm_free_pages page n (slub_phys s);
        Some (s\<lparr>slub_phys := p\<rparr>)
      })"

text \<open>The subtraction of addresses is of type \<^verbatim>\<open>long\<close>; the division by a \<^verbatim>\<open>size_t\<close> makes it unsigned.\<close>

definition object_index :: "addr \<Rightarrow> addr \<Rightarrow> slub \<Rightarrow> nat" where
  "object_index obj slab s =
     (let offset = of_nat obj - of_nat (objects (slabs s slab)) :: u64
      in unat (offset div object_size (caches s (slab_cache (slabs s slab)))))"

definition put_object :: "addr \<Rightarrow> nat \<Rightarrow> slub \<Rightarrow> slub" where
  "put_object slab i s =
     (let c = slab_cache (slabs s slab);
          s = s\<lparr>slub_mem := clear_bit_used (slab_bitmap (slabs s slab)) i (slub_mem s)\<rparr>;
          s = upd_slab slab (\<lambda>b. b\<lparr>free_objects := free_objects b + 1\<rparr>) s;
          h = (if free_objects (slabs s slab) = total_objects (slabs s slab) then slabs_free c
               else if free_objects (slabs s slab) = 1 then slabs_partial c
               else slabs_partial c);
          s = move_slab h slab s
      in s\<lparr>total_freed := total_freed s + 1\<rparr>)"

definition slub_free :: "addr \<Rightarrow> slub \<Rightarrow> slub option" where
  "slub_free obj s =
     (if obj = 0 then Some s
      else do {
        page \<leftarrow> kva2page (of_nat obj) (slub_phys s);
        kva \<leftarrow> page2kva page (slub_phys s);
        let slab = unat kva;
        let sl = slabs s slab;
        if slab_cache sl = 0 then slub_free_pages obj 1 s
        else do {
          ensure (object_size (caches s (slab_cache sl)) \<noteq> 0);
          let i = object_index obj slab s;
          ensure (i < unat (total_objects sl));
          ensure (bit_used (slub_mem s) (slab_bitmap sl) i);
          Some (put_object slab i s)
        }
      })"

section \<open>\<^verbatim>\<open>slub_check\<close>\<close>

text \<open>What the check prints of a cache: its slabs, their objects, and how many of them are free.\<close>

partial_function (option) count_ring :: "slub \<Rightarrow> addr \<Rightarrow> addr \<Rightarrow> u64 \<times> u64 \<times> u64 \<Rightarrow> (u64 \<times> u64 \<times> u64) option" where
  "count_ring s h le acc =
     (if le = h then Some acc
      else (case acc of (n, objs, free) \<Rightarrow>
        count_ring s h (list_next le (slub_links s))
          (n + 1, objs + total_objects (slabs s le), free + free_objects (slabs s le))))"

partial_function (option) count_full :: "slub \<Rightarrow> addr \<Rightarrow> addr \<Rightarrow> u64 \<times> u64 \<times> u64 \<Rightarrow> (u64 \<times> u64 \<times> u64) option" where
  "count_full s h le acc =
     (if le = h then Some acc
      else (case acc of (n, objs, free) \<Rightarrow>
        count_full s h (list_next le (slub_links s)) (n + 1, objs + total_objects (slabs s le), free)))"

definition check_cache :: "slub \<Rightarrow> addr \<Rightarrow> (u64 \<times> u64 \<times> u64) option" where
  "check_cache s c = do {
     r \<leftarrow> count_full s (slabs_full c) (list_next (slabs_full c) (slub_links s)) (0, 0, 0);
     r \<leftarrow> count_ring s (slabs_partial c) (list_next (slabs_partial c) (slub_links s)) r;
     count_ring s (slabs_free c) (list_next (slabs_free c) (slub_links s)) r
   }"

definition potential_leaks :: "slub \<Rightarrow> u64" where
  "potential_leaks s = total_allocated s - total_freed s"

end
