(* ===== verification/SlubSpec.thy ===== *)
theory SlubSpec
  imports Slub
begin

text \<open>
  Correctness of the SLUB allocator: the layout of a slab, the invariant of the caches and their slabs,
  and what \<open>slub_alloc\<close> and \<open>slub_free\<close> do to the set of live objects.
\<close>

section \<open>The bits of a bitmap\<close>

lemma and_push_bit: "w AND push_bit k 1 \<noteq> 0 \<longleftrightarrow> bit w k" for w :: u8
proof -
  have "w AND push_bit k 1 = (if bit w k then push_bit k 1 else 0)"
    by (rule bit_eqI) (auto simp: bit_simps)
  moreover have "bit w k \<Longrightarrow> push_bit k 1 \<noteq> (0 :: u8)"
    by (metis bit_imp_le_length bit_0_eq bit_push_bit_iff bot_apply bot_bool_def diff_self_eq_0 le_refl bit_1_0 possible_bit_word)
  ultimately show ?thesis by simp
qed

lemma bit_used_eq: "bit_used m b i \<longleftrightarrow> bit (m (b + i div 8)) (i mod 8)"
  by (simp only: bit_used_def and_push_bit)

lemma same_bit: "i div 8 = j div 8 \<Longrightarrow> i mod 8 = j mod 8 \<Longrightarrow> i = (j :: nat)"
  by (metis div_mult_mod_eq)

lemma bit_used_set [simp]: "bit_used (set_bit_used b j m) b i \<longleftrightarrow> i = j \<or> bit_used m b i"
  using same_bit [of i j] by (auto simp: bit_used_eq set_bit_used_def bit_simps)

lemma bit_used_clear [simp]: "bit_used (clear_bit_used b j m) b i \<longleftrightarrow> i \<noteq> j \<and> bit_used m b i"
  using same_bit [of i j] by (auto simp: bit_used_eq clear_bit_used_def bit_simps)

lemma bit_used_cong: "m' (b + i div 8) = m (b + i div 8) \<Longrightarrow> bit_used m' b i = bit_used m b i"
  by (simp add: bit_used_def)

section \<open>The layout of a slab\<close>

definition osize :: "nat \<Rightarrow> nat" where
  "osize c = 32 * 2 ^ c"

definition nobj :: "nat \<Rightarrow> nat" where
  "nobj c = (if c = 0 then 125 else if c = 1 then 63 else 31)"

lemma less_3: "c < 3 \<longleftrightarrow> c = 0 \<or> c = 1 \<or> c = (2 :: nat)"
  by auto

lemma objects_of_class:
  "c < 3 \<Longrightarrow> SLAB_CACHE_SIZES ! c = of_nat (osize c)"
  "c < 3 \<Longrightarrow> calculate_objects_per_slab (of_nat (osize c)) = of_nat (nobj c)"
  by (auto simp: less_3 layout osize_def nobj_def calculate_objects_per_slab_def)

lemma unat_class [simp]:
  "c < 3 \<Longrightarrow> unat (of_nat (osize c) :: u64) = osize c" "c < 3 \<Longrightarrow> unat (of_nat (nobj c) :: u64) = nobj c"
  by (auto simp: less_3 osize_def nobj_def)

lemma slab_fits: "c < 3 \<Longrightarrow> 56 + nobj c * osize c + (nobj c + 7) div 8 \<le> 4096"
  by (auto simp: less_3 osize_def nobj_def)

definition obj_at :: "nat \<Rightarrow> addr \<Rightarrow> nat \<Rightarrow> addr" where
  "obj_at c a i = a + 56 + i * osize c"

definition bm_at :: "nat \<Rightarrow> addr \<Rightarrow> addr" where
  "bm_at c a = a + 56 + nobj c * osize c"

lemma osize_pos [simp]: "0 < osize c" "osize c \<noteq> 0"
  by (simp_all add: osize_def)

lemma obj_apart: "i \<noteq> j \<Longrightarrow> {obj_at c a i..<obj_at c a i + osize c} \<inter> {obj_at c a j..<obj_at c a j + osize c} = {}"
proof -
  have *: "obj_at c a i + osize c \<le> obj_at c a j" if "i < j" for i j
  proof -
    have "Suc i * osize c \<le> j * osize c" using that by (intro mult_le_mono1) simp
    then show ?thesis by (simp add: obj_at_def)
  qed
  show "i \<noteq> j \<Longrightarrow> ?thesis" using * [of i j] * [of j i] by (auto simp: nat_neq_iff)
qed

lemma obj_before_bitmap: "i < nobj c \<Longrightarrow> obj_at c a i + osize c \<le> bm_at c a"
proof -
  assume "i < nobj c"
  then have "Suc i * osize c \<le> nobj c * osize c" by (intro mult_le_mono1) simp
  then show ?thesis by (simp add: obj_at_def bm_at_def)
qed

lemma bitmap_in_page: "c < 3 \<Longrightarrow> i < nobj c \<Longrightarrow> bm_at c a + i div 8 < a + 4096"
  using slab_fits [of c] by (simp add: bm_at_def)

lemma obj_in_page: "c < 3 \<Longrightarrow> i < nobj c \<Longrightarrow> {obj_at c a i..<obj_at c a i + osize c} \<subseteq> {a..<a + 4096}"
  using obj_before_bitmap [of i c a] slab_fits [of c] by (auto simp: obj_at_def bm_at_def)

section \<open>The invariant\<close>

text \<open>Ring \<open>3 * c + j\<close> is the full (\<open>j = 0\<close>), partial (\<open>1\<close>) or free (\<open>2\<close>) list of the cache \<open>c\<close>.\<close>

definition ring_head :: "slub \<Rightarrow> nat \<Rightarrow> addr" where
  "ring_head s k = cache_at s (k div 3) + 16 * (k mod 3)"

definition free_in :: "slub \<Rightarrow> nat \<Rightarrow> addr \<Rightarrow> nat set" where
  "free_in s c a = {i. i < nobj c \<and> \<not> bit_used (slub_mem s) (bm_at c a) i}"

definition slab_ok :: "slub \<Rightarrow> nat \<Rightarrow> addr \<Rightarrow> bool" where
  "slab_ok s c a \<longleftrightarrow> slabs s a = \<lparr>objects = a + 56, slab_bitmap = bm_at c a,
     free_objects = of_nat (card (free_in s c a)), total_objects = of_nat (nobj c), slab_cache = cache_at s c\<rparr>"

definition level :: "nat \<Rightarrow> nat \<Rightarrow> nat \<Rightarrow> bool" where
  "level j c n \<longleftrightarrow> (if j = 0 then n = 0 else if j = 1 then 0 < n \<and> n < nobj c else n = nobj c)"

definition managed :: "phys \<Rightarrow> nat \<Rightarrow> bool" where
  "managed p q \<longleftrightarrow> 0x200 \<le> q \<and> q + 0x80000 < unat (npage p)"

definition caches_ok :: "slub \<Rightarrow> bool" where
  "caches_ok s \<longleftrightarrow> slub_initialized s \<and> 0 < slub_caches s \<and>
     (\<forall>c<3. caches s (cache_at s c) = \<lparr>object_size = of_nat (osize c), objects_per_slab = of_nat (nobj c)\<rparr>)"

definition slab_placed :: "slub \<Rightarrow> nat set \<Rightarrow> nat \<Rightarrow> addr \<Rightarrow> bool" where
  "slab_placed s P k a \<longleftrightarrow> slab_ok s (k div 3) a \<and> level (k mod 3) (k div 3) (card (free_in s (k div 3) a)) \<and>
     (\<exists>q. a = page_addr q \<and> q \<notin> P \<and> managed (slub_phys s) q)"

definition pool_ok :: "slub \<Rightarrow> nat set \<Rightarrow> bool" where
  "pool_ok s P \<longleftrightarrow> free_pages (area (slub_phys s)) P \<and> npage (slub_phys s) \<le> 0xC0000 \<and>
     (\<forall>q\<in>P. managed (slub_phys s) q \<and> (\<forall>k<9. page_addr q \<noteq> ring_head s k))"

definition slub_inv :: "slub \<Rightarrow> (nat \<Rightarrow> addr list) \<Rightarrow> nat set \<Rightarrow> bool" where
  "slub_inv s xs P \<longleftrightarrow> caches_ok s \<and> rings 9 (slub_links s) (ring_head s) xs \<and>
     (\<forall>k<9. \<forall>a\<in>set (xs k). slab_placed s P k a) \<and> pool_ok s P"

text \<open>The live objects of a slab and of all slabs, each with its size.\<close>

definition objs_of :: "slub \<Rightarrow> nat \<Rightarrow> addr \<Rightarrow> (addr \<times> nat) set" where
  "objs_of s c a = {(obj_at c a i, osize c) | i. i < nobj c \<and> bit_used (slub_mem s) (bm_at c a) i}"

definition live :: "slub \<Rightarrow> (nat \<Rightarrow> addr list) \<Rightarrow> (addr \<times> nat) set" where
  "live s xs = (\<Union>k<9. \<Union>a\<in>set (xs k). objs_of s (k div 3) a)"

lemma slub_invD:
  assumes "slub_inv s xs P"
  shows "caches_ok s" and "rings 9 (slub_links s) (ring_head s) xs"
    and "\<And>k a. k < 9 \<Longrightarrow> a \<in> set (xs k) \<Longrightarrow> slab_placed s P k a" and "pool_ok s P"
  using assms by (simp_all add: slub_inv_def)

lemma page_apart: "p \<noteq> q \<Longrightarrow> {page_addr p..<page_addr p + 4096} \<inter> {page_addr q..<page_addr q + 4096} = {}"
  using page_bytes_apart [of p "{q}"] by (simp add: page_bytes_def)

lemma free_in_cong:
  assumes "c < 3" and "\<And>x. x \<in> {a..<a + 4096} \<Longrightarrow> slub_mem s' x = slub_mem s x"
  shows "free_in s' c a = free_in s c a" and "objs_of s' c a = objs_of s c a"
proof -
  have "bit_used (slub_mem s') (bm_at c a) i = bit_used (slub_mem s) (bm_at c a) i" if "i < nobj c" for i
    by (rule bit_used_cong) (rule assms(2), use bitmap_in_page [OF assms(1) that, of a] in \<open>simp add: bm_at_def\<close>)
  then show "free_in s' c a = free_in s c a" and "objs_of s' c a = objs_of s c a"
    by (auto simp: free_in_def objs_of_def)
qed

lemma objs_ofE:
  assumes "r \<in> objs_of s c a"
  obtains i where "r = (obj_at c a i, osize c)" "i < nobj c" "bit_used (slub_mem s) (bm_at c a) i"
  using assms by (auto simp: objs_of_def)

lemma run_pair: "run (x, n) = {x..<x + n}"
  by (simp add: run_def)

lemma objs_of_page: "c < 3 \<Longrightarrow> r \<in> objs_of s c a \<Longrightarrow> run r \<subseteq> {a..<a + 4096}"
  by (erule objs_ofE) (simp only: run_pair obj_in_page)

lemma objs_of_self: "r \<in> objs_of s c a \<Longrightarrow> fst r \<in> run r"
  by (erule objs_ofE) (simp add: run_pair)

lemma slabs_apart:
  assumes "slab_placed s P k a" and "slab_placed s P' j b" and "a \<noteq> b"
  shows "{a..<a + 4096} \<inter> {b..<b + 4096} = {}"
proof -
  obtain p q where "a = page_addr p" "b = page_addr q" using assms unfolding slab_placed_def by blast
  then show ?thesis using page_apart [of p q] assms(3) by auto
qed

lemma liveE:
  assumes "r \<in> live s xs"
  obtains k a where "k < 9" "a \<in> set (xs k)" "r \<in> objs_of s (k div 3) a" "k div 3 < 3"
  using assms by (auto simp: live_def)

lemma objs_apart:
  assumes "slab_placed s P k a" and "slab_placed s P j b" and "a \<noteq> b" and "k div 3 < 3" "j div 3 < 3"
    and r: "r \<in> objs_of t (k div 3) a" "q \<in> objs_of u (j div 3) b"
  shows "run r \<inter> run q = {}" and "r \<noteq> q"
proof -
  show "run r \<inter> run q = {}"
    using slabs_apart [OF assms(1-3)] objs_of_page [OF assms(4) r(1)] objs_of_page [OF assms(5) r(2)] by blast
  then show "r \<noteq> q" using objs_of_self [OF r(1)] by blast
qed

lemma live_disjoint:
  assumes inv: "slub_inv s xs P" and r: "r \<in> live s xs" "q \<in> live s xs" "r \<noteq> q"
  shows "run r \<inter> run q = {}"
proof -
  note D = slub_invD [OF inv]
  obtain k a where k: "k < 9" "a \<in> set (xs k)" "r \<in> objs_of s (k div 3) a" "k div 3 < 3" using r(1) by (rule liveE)
  obtain j b where j: "j < 9" "b \<in> set (xs j)" "q \<in> objs_of s (j div 3) b" "j div 3 < 3" using r(2) by (rule liveE)
  show ?thesis
  proof (cases "a = b")
    case True
    then have jk: "j = k" using rings_nodes(2) [OF D(2) k(1,2) j(1)] j(2) by simp
    from k(3) obtain m where m: "r = (obj_at (k div 3) a m, osize (k div 3))" by (rule objs_ofE)
    from j(3) obtain n where n: "q = (obj_at (k div 3) a n, osize (k div 3))" unfolding jk True by (rule objs_ofE)
    show ?thesis using obj_apart [of m n] r(3) by (auto simp only: m n run_pair)
  next
    case False
    show ?thesis by (rule objs_apart(1) [OF D(3) [OF k(1,2)] D(3) [OF j(1,2)] False k(4) j(4) k(3) j(3)])
  qed
qed

text \<open>
  An operation on one slab writes into the page of that slab only, and the slab may change its ring.
\<close>

definition touches :: "addr \<Rightarrow> slub \<Rightarrow> slub \<Rightarrow> bool" where
  "touches a s s' \<longleftrightarrow> caches s' = caches s \<and> slub_caches s' = slub_caches s \<and>
     slub_initialized s' = slub_initialized s \<and> slub_phys s' = slub_phys s \<and>
     (\<forall>b. b \<noteq> a \<longrightarrow> slabs s' b = slabs s b) \<and> (\<forall>x. x \<notin> {a..<a + 4096} \<longrightarrow> slub_mem s' x = slub_mem s x)"

definition goes :: "addr \<Rightarrow> nat \<Rightarrow> (nat \<Rightarrow> addr list) \<Rightarrow> (nat \<Rightarrow> addr list) \<Rightarrow> bool" where
  "goes a k xs xs' \<longleftrightarrow> (\<forall>i<9. \<forall>b. b \<in> set (xs' i) \<longleftrightarrow> (if b = a then i = k else b \<in> set (xs i)))"

lemma goesD: "goes a k xs xs' \<Longrightarrow> i < 9 \<Longrightarrow> b \<in> set (xs' i) \<longleftrightarrow> (if b = a then i = k else b \<in> set (xs i))"
  by (simp add: goes_def)

lemma touches_other:
  assumes inv: "slub_inv s xs P" and t: "touches a s s'" and a: "k < 9" "a \<in> set (xs k)"
    and b: "i < 9" "b \<in> set (xs i)" "b \<noteq> a"
  shows "free_in s' (i div 3) b = free_in s (i div 3) b" and "objs_of s' (i div 3) b = objs_of s (i div 3) b"
    and "slabs s' b = slabs s b"
proof -
  note D = slub_invD(3) [OF inv]
  have i: "i div 3 < 3" using b(1) by simp
  have "{a..<a + 4096} \<inter> {b..<b + 4096} = {}" using slabs_apart [OF D [OF a] D [OF b(1,2)]] b(3) by simp
  then have m: "slub_mem s' x = slub_mem s x" if "x \<in> {b..<b + 4096}" for x
    using t that by (auto simp: touches_def)
  show "free_in s' (i div 3) b = free_in s (i div 3) b" by (rule free_in_cong(1) [OF i m])
  show "objs_of s' (i div 3) b = objs_of s (i div 3) b" by (rule free_in_cong(2) [OF i m])
  show "slabs s' b = slabs s b" using t b(3) by (simp add: touches_def)
qed

lemma touches_heads: "touches a s s' \<Longrightarrow> cache_at s' = cache_at s \<and> ring_head s' = ring_head s"
  by (auto simp: touches_def fun_eq_iff cache_at_def ring_head_def)

lemma touches_inv:
  assumes inv: "slub_inv s xs P" and t: "touches a s s'" and k: "k < 9" "k' < 9" "k' div 3 = k div 3"
    and a: "a \<in> set (xs k)" and r: "rings 9 (slub_links s') (ring_head s) xs'" and g: "goes a k' xs xs'"
    and ok: "slab_ok s' (k div 3) a" "level (k' mod 3) (k div 3) (card (free_in s' (k div 3) a))"
  shows "slub_inv s' xs' P"
proof -
  note D = slub_invD [OF inv]
  note h = touches_heads [OF t]
  have ph: "slub_phys s' = slub_phys s" using t by (simp add: touches_def)
  have "slab_placed s' P i b" if i: "i < 9" "b \<in> set (xs' i)" for i b
  proof (cases "b = a")
    case True
    then have "i = k'" using goesD [OF g i(1), of b] i(2) by simp
    then show ?thesis using ok D(3) [OF k(1) a] k(3) True ph by (simp add: slab_placed_def)
  next
    case False
    then have b: "b \<in> set (xs i)" using goesD [OF g i(1), of b] i(2) by simp
    show ?thesis using D(3) [OF i(1) b] touches_other [OF inv t k(1) a i(1) b False] ph h
      by (simp add: slab_placed_def slab_ok_def)
  qed
  moreover have "caches_ok s'" using D(1) t h by (simp add: caches_ok_def touches_def)
  moreover have "pool_ok s' P" using D(4) ph h by (simp add: pool_ok_def)
  ultimately show ?thesis using r h by (simp add: slub_inv_def)
qed

lemma live_split:
  assumes inv: "slub_inv s xs P" and a: "k < 9" "a \<in> set (xs k)"
  shows "r \<in> live s xs - objs_of s (k div 3) a \<longleftrightarrow> (\<exists>i<9. \<exists>b\<in>set (xs i). b \<noteq> a \<and> r \<in> objs_of s (i div 3) b)"
proof
  note D = slub_invD [OF inv]
  show "\<exists>i<9. \<exists>b\<in>set (xs i). b \<noteq> a \<and> r \<in> objs_of s (i div 3) b" if r: "r \<in> live s xs - objs_of s (k div 3) a"
  proof -
    from r have "r \<in> live s xs" ..
    then obtain i b where i: "i < 9" "b \<in> set (xs i)" "r \<in> objs_of s (i div 3) b" "i div 3 < 3" by (rule liveE)
    have "b \<noteq> a"
    proof
      assume "b = a"
      then have "i = k" using rings_nodes(2) [OF D(2) a i(1)] i(2) by simp
      then show False using r i(3) \<open>b = a\<close> by simp
    qed
    then show ?thesis using i(1-3) by (intro exI [of _ i] conjI bexI [of _ b])
  qed
  show "r \<in> live s xs - objs_of s (k div 3) a" if e: "\<exists>i<9. \<exists>b\<in>set (xs i). b \<noteq> a \<and> r \<in> objs_of s (i div 3) b"
  proof -
    obtain i b where i: "i < 9" "b \<in> set (xs i)" "b \<noteq> a" "r \<in> objs_of s (i div 3) b"
      using e by (elim exE conjE bexE)
    have c: "k div 3 < 3" "i div 3 < 3" using a i by simp_all
    have "r \<notin> objs_of s (k div 3) a"
      using objs_apart(2) [OF D(3) [OF a] D(3) [OF i(1,2)] i(3) [symmetric] c _ i(4)] by fast
    moreover have "r \<in> live s xs" unfolding live_def using i(1,2,4) by (intro UN_I [of i] UN_I [of b]) simp_all
    ultimately show ?thesis by simp
  qed
qed

lemma touches_live:
  assumes inv: "slub_inv s xs P" and t: "touches a s s'" and k: "k < 9" "k' < 9" "k' div 3 = k div 3"
    and a: "a \<in> set (xs k)" and g: "goes a k' xs xs'"
  shows "live s' xs' = (live s xs - objs_of s (k div 3) a) \<union> objs_of s' (k div 3) a"
proof (intro set_eqI iffI)
  fix r assume "r \<in> live s' xs'"
  then obtain i b where i: "i < 9" "b \<in> set (xs' i)" "r \<in> objs_of s' (i div 3) b" "i div 3 < 3" by (rule liveE)
  show "r \<in> (live s xs - objs_of s (k div 3) a) \<union> objs_of s' (k div 3) a"
  proof (cases "b = a")
    case True
    then show ?thesis using i goesD [OF g i(1), of b] k(3) by auto
  next
    case False
    then have b: "b \<in> set (xs i)" using i goesD [OF g i(1), of b] by simp
    then have "r \<in> objs_of s (i div 3) b" using i touches_other [OF inv t k(1) a i(1) b False] by simp
    then have "r \<in> live s xs - objs_of s (k div 3) a"
      using live_split [OF inv k(1) a, of r] i(1) b False by blast
    then show ?thesis ..
  qed
next
  fix r assume "r \<in> (live s xs - objs_of s (k div 3) a) \<union> objs_of s' (k div 3) a"
  then consider i b where "i < 9" "b \<in> set (xs i)" "b \<noteq> a" "r \<in> objs_of s (i div 3) b" | "r \<in> objs_of s' (k div 3) a"
    using live_split [OF inv k(1) a, of r] by blast
  then show "r \<in> live s' xs'"
  proof cases
    case 1
    then have "b \<in> set (xs' i)" "r \<in> objs_of s' (i div 3) b"
      using goesD [OF g, of i b] touches_other [OF inv t k(1) a 1(1-3)] by simp_all
    then show ?thesis using 1(1) by (auto simp: live_def)
  next
    case 2
    have "a \<in> set (xs' k')" using goesD [OF g k(2), of a] by simp
    moreover have "r \<in> objs_of s' (k' div 3) a" using 2 k(3) by simp
    ultimately show ?thesis using k(2) unfolding live_def by blast
  qed
qed

text \<open>The rings after a slab was moved.\<close>

definition moved :: "(nat \<Rightarrow> addr list) \<Rightarrow> nat \<Rightarrow> nat \<Rightarrow> addr \<Rightarrow> nat \<Rightarrow> addr list" where
  "moved xs k k' a = (let ys = xs(k := removeAll a (xs k)) in ys(k' := a # ys k'))"

lemma moved_rings:
  assumes r: "rings 9 l hs xs" and k: "k < 9" "k' < 9" and a: "a \<in> set (xs k)"
  shows "rings 9 (list_add (hs k') a (list_del a l)) hs (moved xs k k' a)" and "goes a k' xs (moved xs k k' a)"
proof -
  obtain ys zs where x: "xs k = ys @ a # zs" using a by (meson split_list)
  have "clist l (hs k) (xs k)" using r k by (simp add: rings_def)
  then have "removeAll a (xs k) = ys @ zs" by (simp add: x clist_def)
  then show "rings 9 (list_add (hs k') a (list_del a l)) hs (moved xs k k' a)"
    using rings_move [OF r k x] by (simp add: moved_def Let_def)
  have "i < 9 \<Longrightarrow> i \<noteq> k \<Longrightarrow> a \<notin> set (xs i)" for i using rings_nodes(2) [OF r k(1) a, of i] by blast
  then show "goes a k' xs (moved xs k k' a)" by (simp add: goes_def moved_def)
qed

section \<open>Taking an object of a slab and putting it back\<close>

lemma obj_at_inj: "obj_at c a i = obj_at c a j \<longleftrightarrow> i = j"
  by (simp add: obj_at_def osize_def)

lemma objs_of_image: "objs_of s c a = (\<lambda>i. (obj_at c a i, osize c)) ` ({..<nobj c} - free_in s c a)"
  by (auto simp: objs_of_def free_in_def)

lemma objs_of_less:
  "i \<in> free_in s c a \<Longrightarrow> free_in s' c a = free_in s c a - {i} \<Longrightarrow>
    objs_of s' c a = insert (obj_at c a i, osize c) (objs_of s c a)"
  by (auto simp: objs_of_image free_in_def)

lemma objs_of_more:
  "free_in s' c a = insert i (free_in s c a) \<Longrightarrow>
    objs_of s' c a = objs_of s c a - {(obj_at c a i, osize c)}"
proof -
  assume f: "free_in s' c a = insert i (free_in s c a)"
  let ?f = "\<lambda>i. (obj_at c a i, osize c)"
  have "inj ?f" by (simp add: inj_on_def obj_at_inj)
  moreover have "{..<nobj c} - free_in s' c a = ({..<nobj c} - free_in s c a) - {i}" unfolding f by blast
  ultimately show ?thesis by (simp only: objs_of_image image_set_diff image_insert image_empty)
qed

lemma free_in_finite [simp]: "finite (free_in s c a)"
  by (simp add: free_in_def)

lemma card_free_in: "card (free_in s c a) \<le> nobj c"
proof -
  have "free_in s c a \<subseteq> {..<nobj c}" by (auto simp: free_in_def)
  then have "card (free_in s c a) \<le> card {..<nobj c}" by (intro card_mono) simp_all
  then show ?thesis by simp
qed

lemma nobj_bounds: "1 < nobj c" "nobj c < 126"
  by (simp_all add: nobj_def)

lemma of_nat_count_0: "n < 126 \<Longrightarrow> (of_nat n :: u64) = 0 \<longleftrightarrow> n = 0"
  and of_nat_count_1: "n < 126 \<Longrightarrow> (of_nat n :: u64) = 1 \<longleftrightarrow> n = 1"
  and of_nat_count_eq: "n < 126 \<Longrightarrow> m < 126 \<Longrightarrow> (of_nat n :: u64) = of_nat m \<longleftrightarrow> n = m"
  by (simp_all add: word_unat_eq_iff unat_of_nat)

lemma ring_heads:
  assumes "c < 3"
  shows "ring_head s (3 * c) = slabs_full (cache_at s c)" and "ring_head s (3 * c + 1) = slabs_partial (cache_at s c)"
    and "ring_head s (3 * c + 2) = slabs_free (cache_at s c)"
  using assms by (auto simp: ring_head_def slabs_full_def slabs_partial_def slabs_free_def less_3)

lemma ring_indices:
  assumes "c < (3 :: nat)"
  shows "3 * c < 9" "3 * c + 1 < 9" "3 * c + 2 < 9" "(3 * c + 1) div 3 = c" "(3 * c + 2) div 3 = c"
    "(3 * c + 1) mod 3 = 1" "(3 * c + 2) mod 3 = 2"
  using assms by (auto simp: less_3)

lemma goes_self:
  assumes r: "rings 9 l hs xs" and k: "k < 9" "a \<in> set (xs k)"
  shows "goes a k xs xs"
  unfolding goes_def
proof (intro allI impI)
  fix i b assume i: "i < (9 :: nat)"
  show "b \<in> set (xs i) \<longleftrightarrow> (if b = a then i = k else b \<in> set (xs i))"
    using rings_nodes(2) [OF r k i] k(2) by (cases "b = a") auto
qed

lemma goes_trans: "goes a k xs ys \<Longrightarrow> goes a k' ys zs \<Longrightarrow> goes a k' xs zs"
  by (simp add: goes_def)

text \<open>The bytes of the other objects stay as they are.\<close>

definition keeps_objects :: "(addr \<times> nat) set \<Rightarrow> slub \<Rightarrow> slub \<Rightarrow> bool" where
  "keeps_objects R s s' \<longleftrightarrow> (\<forall>r\<in>R. \<forall>x\<in>run r. slub_mem s' x = slub_mem s x)"

lemma run_below_bitmap:
  assumes "r \<in> objs_of s c a" and "x \<in> run r"
  shows "x < bm_at c a"
proof -
  obtain i where i: "r = (obj_at c a i, osize c)" "i < nobj c" using assms(1) by (rule objs_ofE)
  then show ?thesis using obj_before_bitmap [OF i(2), of a] assms(2) by (simp add: run_pair)
qed

lemma touches_keeps:
  assumes inv: "slub_inv s xs P" and t: "touches a s s'" and k: "k < 9" "a \<in> set (xs k)"
    and own: "\<And>x r. r \<in> objs_of s (k div 3) a \<Longrightarrow> r \<in> R \<Longrightarrow> x \<in> run r \<Longrightarrow> slub_mem s' x = slub_mem s x"
    and R: "R \<subseteq> live s xs"
  shows "keeps_objects R s s'"
  unfolding keeps_objects_def
proof (intro ballI)
  fix r x assume r: "r \<in> R" and x: "x \<in> run r"
  show "slub_mem s' x = slub_mem s x"
  proof (cases "r \<in> objs_of s (k div 3) a")
    case False
    then have "r \<in> live s xs - objs_of s (k div 3) a" using r R by blast
    then obtain i b where i: "i < 9" "b \<in> set (xs i)" "b \<noteq> a" "r \<in> objs_of s (i div 3) b"
      using live_split [OF inv k, of r] by blast
    note D = slub_invD(3) [OF inv]
    have "x \<in> {b..<b + 4096}" using objs_of_page [of "i div 3" r s b] i x by fastforce
    then have "x \<notin> {a..<a + 4096}" using slabs_apart [OF D [OF k] D [OF i(1,2)]] i(3) by blast
    then show ?thesis using t by (simp add: touches_def)
  qed (use own r x in blast)
qed

definition mem_taken :: "nat \<Rightarrow> addr \<Rightarrow> nat \<Rightarrow> slub \<Rightarrow> mem" where
  "mem_taken c a i s = memset (obj_at c a i) 0 (osize c) (set_bit_used (bm_at c a) i (slub_mem s))"

definition taken :: "nat \<Rightarrow> addr \<Rightarrow> nat \<Rightarrow> slub \<Rightarrow> slub" where
  "taken c a i s =
     (let n = card (free_in s c a) - 1 in
      s\<lparr>slub_mem := mem_taken c a i s, slabs := (slabs s)(a := (slabs s a)\<lparr>free_objects := of_nat n\<rparr>),
        slub_links := (if n = 0 then list_add (ring_head s (3 * c)) a (list_del a (slub_links s)) else slub_links s),
        total_allocated := total_allocated s + 1\<rparr>)"

lemma cachesD:
  assumes "caches_ok s" and "c < 3"
  shows "object_size (caches s (cache_at s c)) = of_nat (osize c)" and
    "objects_per_slab (caches s (cache_at s c)) = of_nat (nobj c)" and "cache_at s c \<noteq> 0"
  using assms by (auto simp: caches_ok_def cache_at_def)

lemma take_object_taken:
  assumes c: "caches_ok s" "c < 3" and ok: "slab_ok s c a" and i: "i \<in> free_in s c a"
  shows "take_object (cache_at s c) a i s = (obj_at c a i, taken c a i s)"
proof -
  have "0 < card (free_in s c a)" using i by (auto simp: card_gt_0_iff)
  then obtain m where m: "card (free_in s c a) = Suc m" by (cases "card (free_in s c a)") auto
  have m126: "m < 126" using card_free_in [of s c a] nobj_bounds(2) [of c] m by linarith
  note E = cachesD(1) [OF c] take_object_def taken_def slab_ok_def upd_slab_def mem_taken_def obj_at_def
    move_slab_def Let_def ring_heads(1) [OF c(2)] unat_class(1) [OF c(2)] m
  show ?thesis
  proof (cases "m = 0")
    case True
    then show ?thesis using ok by (simp add: E)
  next
    case False
    then have "(of_nat m :: u64) \<noteq> 0" using of_nat_count_0 [OF m126] by simp
    then show ?thesis using ok False by (simp add: E)
  qed
qed

lemma mem_taken_spec:
  assumes c: "c < 3" and i: "i < nobj c"
  shows "x \<notin> {a..<a + 4096} \<Longrightarrow> mem_taken c a i s x = slub_mem s x"
    and "x \<in> run (obj_at c a i, osize c) \<Longrightarrow> mem_taken c a i s x = 0"
    and "x < bm_at c a \<Longrightarrow> x \<notin> run (obj_at c a i, osize c) \<Longrightarrow> mem_taken c a i s x = slub_mem s x"
    and "bit_used (mem_taken c a i s) (bm_at c a) j \<longleftrightarrow> j = i \<or> bit_used (slub_mem s) (bm_at c a) j"
proof -
  have b: "bm_at c a + i div 8 < a + 4096" "a \<le> bm_at c a" using bitmap_in_page [OF c i, of a] by (simp_all add: bm_at_def)
  have o: "obj_at c a i + osize c \<le> bm_at c a" "a \<le> obj_at c a i"
    using obj_before_bitmap [OF i] by (simp_all add: obj_at_def)
  show "x \<notin> {a..<a + 4096} \<Longrightarrow> mem_taken c a i s x = slub_mem s x"
    using b o by (auto simp: mem_taken_def memset_spec set_bit_used_def)
  show "x \<in> run (obj_at c a i, osize c) \<Longrightarrow> mem_taken c a i s x = 0"
    by (simp add: mem_taken_def memset_spec run_pair)
  show "x < bm_at c a \<Longrightarrow> x \<notin> run (obj_at c a i, osize c) \<Longrightarrow> mem_taken c a i s x = slub_mem s x"
    by (auto simp: mem_taken_def memset_spec run_pair set_bit_used_def)
  have "bit_used (mem_taken c a i s) (bm_at c a) j = bit_used (set_bit_used (bm_at c a) i (slub_mem s)) (bm_at c a) j"
    by (rule bit_used_cong) (use o in \<open>simp add: mem_taken_def memset_spec\<close>)
  then show "bit_used (mem_taken c a i s) (bm_at c a) j \<longleftrightarrow> j = i \<or> bit_used (slub_mem s) (bm_at c a) j" by simp
qed

lemma taken_simps:
  "slub_mem (taken c a i s) = mem_taken c a i s"
  "slabs (taken c a i s) = (slabs s)(a := (slabs s a)\<lparr>free_objects := of_nat (card (free_in s c a) - 1)\<rparr>)"
  "slub_links (taken c a i s) =
     (if card (free_in s c a) - 1 = 0 then list_add (ring_head s (3 * c)) a (list_del a (slub_links s)) else slub_links s)"
  "caches (taken c a i s) = caches s" "slub_caches (taken c a i s) = slub_caches s"
  "slub_initialized (taken c a i s) = slub_initialized s" "slub_phys (taken c a i s) = slub_phys s"
  by (simp_all add: taken_def Let_def)

lemma slab_ok_links [simp]: "slab_ok (s\<lparr>slub_links := l\<rparr>) c a = slab_ok s c a"
  "free_in (s\<lparr>slub_links := l\<rparr>) c a = free_in s c a" "caches_ok (s\<lparr>slub_links := l\<rparr>) = caches_ok s"
  "mem_taken c a i (s\<lparr>slub_links := l\<rparr>) = mem_taken c a i s"
  "cache_at (s\<lparr>slub_links := l\<rparr>) c = cache_at s c" "ring_head (s\<lparr>slub_links := l\<rparr>) = ring_head s"
  by (auto simp: slab_ok_def free_in_def caches_ok_def cache_at_def ring_head_def mem_taken_def fun_eq_iff)

lemma live_new:
  assumes inv: "slub_inv s xs P" and k: "k < 9" "k div 3 = c" "a \<in> set (xs k)" and i: "i \<in> free_in s c a"
  shows "(obj_at c a i, osize c) \<notin> live s xs"
proof
  let ?o = "(obj_at c a i, osize c)"
  have c: "c < 3" and n: "i < nobj c" using k i by (auto simp: free_in_def)
  have own: "?o \<notin> objs_of s c a" using i by (auto simp: objs_of_image obj_at_inj)
  note D = slub_invD(3) [OF inv]
  assume "?o \<in> live s xs"
  then obtain j b where j: "j < 9" "b \<in> set (xs j)" "b \<noteq> a" "?o \<in> objs_of s (j div 3) b"
    using live_split [OF inv k(1,3), of ?o] own k(2) by blast
  have "obj_at c a i \<in> {b..<b + 4096}" using objs_of_page [OF _ j(4)] objs_of_self [OF j(4)] j(1) by fastforce
  moreover have "obj_at c a i \<in> {obj_at c a i..<obj_at c a i + osize c}" by simp
  then have "obj_at c a i \<in> {a..<a + 4096}" using obj_in_page [OF c n, of a] by blast
  ultimately show False using slabs_apart [OF D [OF k(1,3)] D [OF j(1,2)]] j(3) by blast
qed

lemma taken_slab:
  fixes l :: links
  assumes c: "c < 3" and ok: "slab_ok s c a" and i: "i \<in> free_in s c a"
  defines "s' \<equiv> taken c a i (s\<lparr>slub_links := l\<rparr>)"
  shows "touches a s s'" and "free_in s' c a = free_in s c a - {i}" and "slab_ok s' c a"
    and "card (free_in s' c a) = card (free_in s c a) - 1"
proof -
  have n: "i < nobj c" using i by (simp add: free_in_def)
  note M = mem_taken_spec [OF c n]
  have mem: "slub_mem s' = mem_taken c a i s" by (simp add: s'_def taken_simps)
  show t: "touches a s s'" using M(1) by (simp add: touches_def s'_def taken_simps)
  show fr: "free_in s' c a = free_in s c a - {i}" using M(4) by (auto simp: free_in_def mem)
  show cd: "card (free_in s' c a) = card (free_in s c a) - 1" unfolding fr using i by simp
  have "slabs s' a = (slabs s a)\<lparr>free_objects := of_nat (card (free_in s' c a))\<rparr>"
    unfolding cd by (simp add: s'_def taken_simps)
  then show "slab_ok s' c a" using ok touches_heads [OF t] by (simp add: slab_ok_def)
qed

text \<open>The slab stays in the ring of partial slabs unless the object was its last free one.\<close>

lemma taken_ring:
  assumes c: "c < 3" and i: "i \<in> free_in s c a" and l: "rings 9 l (ring_head s) ys" "goes a (3 * c + 1) xs ys"
  shows "\<exists>zs k. rings 9 (slub_links (taken c a i (s\<lparr>slub_links := l\<rparr>))) (ring_head s) zs \<and> goes a k xs zs \<and>
    k < 9 \<and> k div 3 = c \<and> level (k mod 3) c (card (free_in s c a) - 1)"
proof (cases "card (free_in s c a) - 1 = 0")
  case True
  note R = ring_indices [OF c]
  have "a \<in> set (ys (3 * c + 1))" using goesD [OF l(2) R(2), of a] by simp
  note m = moved_rings [OF l(1) R(2,1) this]
  have "rings 9 (slub_links (taken c a i (s\<lparr>slub_links := l\<rparr>))) (ring_head s) (moved ys (3 * c + 1) (3 * c) a)"
    using m(1) True by (simp add: taken_simps)
  moreover have "goes a (3 * c) xs (moved ys (3 * c + 1) (3 * c) a)" by (rule goes_trans [OF l(2) m(2)])
  ultimately show ?thesis using True R(1)
    by (intro exI [of _ "moved ys (3 * c + 1) (3 * c) a"] exI [of _ "3 * c"]) (simp add: level_def)
next
  case False
  note R = ring_indices [OF c]
  have "rings 9 (slub_links (taken c a i (s\<lparr>slub_links := l\<rparr>))) (ring_head s) ys" using l(1) False by (simp add: taken_simps)
  moreover have "level ((3 * c + 1) mod 3) c (card (free_in s c a) - 1)"
    using False R card_free_in [of s c a] by (simp add: level_def)
  ultimately show ?thesis using l(2) R(2,4) by blast
qed

text \<open>
  Taking an object of the slab \<open>a\<close>, which is in the ring of partial slabs of its cache, or was moved
  there from the ring \<open>k\<close>.
\<close>

lemma taken_spec:
  assumes inv: "slub_inv s xs P" and k: "k < 9" "k div 3 = c" "a \<in> set (xs k)"
    and l: "rings 9 l (ring_head s) ys" "goes a (3 * c + 1) xs ys" and i: "i \<in> free_in s c a"
  defines "s' \<equiv> taken c a i (s\<lparr>slub_links := l\<rparr>)"
  shows "\<exists>zs. slub_inv s' zs P \<and> live s' zs = insert (obj_at c a i, osize c) (live s xs)"
    and "keeps_objects (live s xs) s s'" and "\<forall>x\<in>run (obj_at c a i, osize c). slub_mem s' x = 0"
proof -
  have c: "c < 3" and n: "i < nobj c" using k i by (auto simp: free_in_def)
  note D = slub_invD [OF inv] and M = mem_taken_spec [OF c n]
  have ok: "slab_ok s c a" using D(3) [OF k(1,3)] k(2) by (simp add: slab_placed_def)
  note T = taken_slab [OF c ok i, of l, folded s'_def]
  obtain zs k' where z: "rings 9 (slub_links s') (ring_head s) zs" "goes a k' xs zs" "k' < 9" "k' div 3 = c"
    "level (k' mod 3) c (card (free_in s c a) - 1)"
    using taken_ring [OF c i l] unfolding s'_def by blast
  have "slub_inv s' zs P" by (rule touches_inv [OF inv T(1) k(1) z(3) _ k(3) z(1,2)]) (use z k T(3,4) in simp_all)
  moreover have "live s' zs = (live s xs - objs_of s c a) \<union> objs_of s' c a"
    using touches_live [OF inv T(1) k(1) z(3) _ k(3) z(2)] z(4) k(2) by simp
  moreover have "objs_of s c a \<subseteq> live s xs" using k unfolding live_def by blast
  ultimately show "\<exists>zs. slub_inv s' zs P \<and> live s' zs = insert (obj_at c a i, osize c) (live s xs)"
    using objs_of_less [OF i T(2)] by blast
  have mem: "slub_mem s' = mem_taken c a i s" by (simp add: s'_def taken_simps)
  show "keeps_objects (live s xs) s s'"
  proof (rule touches_keeps [OF inv T(1) k(1,3) _ order.refl])
    fix x r assume r: "r \<in> objs_of s (k div 3) a" "r \<in> live s xs" "x \<in> run r"
    from r(1) obtain j where j: "r = (obj_at c a j, osize c)" "bit_used (slub_mem s) (bm_at c a) j"
      unfolding k(2) by (rule objs_ofE)
    then have ji: "j \<noteq> i" using i by (auto simp: free_in_def)
    have "x \<notin> run (obj_at c a i, osize c)" using obj_apart [OF ji, of c a] r(3) unfolding j run_pair by blast
    moreover have "x < bm_at c a" using run_below_bitmap [of r s c a x] r k(2) by simp
    ultimately show "slub_mem s' x = slub_mem s x" unfolding mem by (intro M(3))
  qed
  show "\<forall>x\<in>run (obj_at c a i, osize c). slub_mem s' x = 0" using M(2) by (simp add: mem)
qed

definition returned :: "nat \<Rightarrow> addr \<Rightarrow> nat \<Rightarrow> slub \<Rightarrow> slub" where
  "returned c a i s =
     (let n = card (free_in s c a) + 1 in
      s\<lparr>slub_mem := clear_bit_used (bm_at c a) i (slub_mem s),
        slabs := (slabs s)(a := (slabs s a)\<lparr>free_objects := of_nat n\<rparr>),
        slub_links := list_add (ring_head s (if n = nobj c then 3 * c + 2 else 3 * c + 1)) a (list_del a (slub_links s)),
        total_freed := total_freed s + 1\<rparr>)"

lemma returned_simps:
  "slub_mem (returned c a i s) = clear_bit_used (bm_at c a) i (slub_mem s)"
  "slabs (returned c a i s) = (slabs s)(a := (slabs s a)\<lparr>free_objects := of_nat (card (free_in s c a) + 1)\<rparr>)"
  "slub_links (returned c a i s) =
     list_add (ring_head s (if card (free_in s c a) + 1 = nobj c then 3 * c + 2 else 3 * c + 1)) a (list_del a (slub_links s))"
  "caches (returned c a i s) = caches s" "slub_caches (returned c a i s) = slub_caches s"
  "slub_initialized (returned c a i s) = slub_initialized s" "slub_phys (returned c a i s) = slub_phys s"
  by (simp_all add: returned_def Let_def)

lemma card_free_less:
  assumes "i < nobj c" and "i \<notin> free_in s c a"
  shows "card (free_in s c a) < nobj c"
proof -
  have "free_in s c a \<subseteq> {..<nobj c} - {i}" using assms(2) by (auto simp: free_in_def)
  then have "card (free_in s c a) \<le> card ({..<nobj c} - {i})" by (intro card_mono) simp_all
  then show ?thesis using assms(1) by simp
qed

lemma put_object_returned:
  assumes c: "c < 3" and ok: "slab_ok s c a" and i: "i < nobj c" "i \<notin> free_in s c a"
  shows "put_object a i s = returned c a i s"
proof -
  have n: "card (free_in s c a) + 1 < 126" using card_free_less [OF i] nobj_bounds(2) [of c] by linarith
  have e: "(of_nat (card (free_in s c a)) + 1 :: u64) = of_nat (nobj c) \<longleftrightarrow> card (free_in s c a) + 1 = nobj c"
    using of_nat_count_eq [OF n nobj_bounds(2), of c] by (simp add: add.commute)
  show ?thesis
  proof (cases "card (free_in s c a) + 1 = nobj c")
    case True
    then have "(of_nat (card (free_in s c a)) + 1 :: u64) = of_nat (nobj c)" using e by blast
    then show ?thesis using True ok ring_heads(3) [OF c]
      by (simp add: put_object_def returned_def slab_ok_def upd_slab_def move_slab_def Let_def add.commute [of "1 :: u64"])
  next
    case False
    then have "(of_nat (card (free_in s c a)) + 1 :: u64) \<noteq> of_nat (nobj c)" using e by blast
    then show ?thesis using False ok ring_heads(2) [OF c]
      by (simp add: put_object_def returned_def slab_ok_def upd_slab_def move_slab_def Let_def add.commute [of "1 :: u64"])
  qed
qed

lemma returned_spec:
  assumes inv: "slub_inv s xs P" and k: "k < 9" "k div 3 = c" "a \<in> set (xs k)"
    and i: "i < nobj c" "i \<notin> free_in s c a"
  defines "s' \<equiv> returned c a i s"
  shows "\<exists>zs. slub_inv s' zs P \<and> live s' zs = live s xs - {(obj_at c a i, osize c)}"
    and "keeps_objects (live s xs) s s'"
proof -
  have c: "c < 3" using k by auto
  note D = slub_invD [OF inv] and R = ring_indices [OF c] and b = bitmap_in_page [OF c i(1), of a]
  have ok: "slab_ok s c a" using D(3) [OF k(1,3)] k(2) by (simp add: slab_placed_def)
  have t: "touches a s s'"
    using b by (auto simp: touches_def s'_def returned_simps clear_bit_used_def bm_at_def)
  have fr: "free_in s' c a = insert i (free_in s c a)"
    using i by (auto simp: free_in_def s'_def returned_simps)
  have cd: "card (free_in s' c a) = card (free_in s c a) + 1" unfolding fr using i by simp
  have sl: "slabs s' a = (slabs s a)\<lparr>free_objects := of_nat (card (free_in s' c a))\<rparr>"
    unfolding cd by (simp add: s'_def returned_simps)
  have sok: "slab_ok s' c a" using ok touches_heads [OF t] by (simp add: slab_ok_def sl)
  define k' where "k' = (if card (free_in s c a) + 1 = nobj c then 3 * c + 2 else 3 * c + 1)"
  have k': "k' < 9" "k' div 3 = c" "level (k' mod 3) c (card (free_in s' c a))"
    using R card_free_less [OF i] by (auto simp: k'_def cd level_def)
  note m = moved_rings [OF D(2) k(1) k'(1) k(3)]
  have z: "rings 9 (slub_links s') (ring_head s) (moved xs k k' a)" using m(1) by (simp add: s'_def returned_simps k'_def)
  have "slub_inv s' (moved xs k k' a) P"
    by (rule touches_inv [OF inv t k(1) k'(1) _ k(3) z m(2)]) (use k k' sok in simp_all)
  moreover have "live s' (moved xs k k' a) = (live s xs - objs_of s c a) \<union> objs_of s' c a"
    using touches_live [OF inv t k(1) k'(1) _ k(3) m(2)] k'(2) k(2) by simp
  moreover have "objs_of s c a \<subseteq> live s xs" using k unfolding live_def by blast
  moreover have "(obj_at c a i, osize c) \<in> objs_of s c a" using i by (auto simp: objs_of_image)
  ultimately show "\<exists>zs. slub_inv s' zs P \<and> live s' zs = live s xs - {(obj_at c a i, osize c)}"
    using objs_of_more [OF fr] by blast
  show "keeps_objects (live s xs) s s'"
  proof (rule touches_keeps [OF inv t k(1,3) _ order.refl])
    fix x r assume r: "r \<in> objs_of s (k div 3) a" "r \<in> live s xs" "x \<in> run r"
    have "x < bm_at c a" using run_below_bitmap [of r s c a x] r k(2) by simp
    then show "slub_mem s' x = slub_mem s x" by (auto simp: s'_def returned_simps clear_bit_used_def)
  qed
qed

section \<open>From an address to its slab\<close>

lemma page_of_address:
  assumes p: "managed p q" "npage p \<le> 0xC0000" and x: "x \<in> {page_addr q..<page_addr q + 4096}"
  shows "kva2page (of_nat x) p = Some q" and "\<exists>kva. page2kva q p = Some kva \<and> unat kva = page_addr q"
proof -
  have q: "0x200 \<le> q" "q + 0x80000 < unat (npage p)" using p(1) by (simp_all add: managed_def)
  then show "\<exists>kva. page2kva q p = Some kva \<and> unat kva = page_addr q" using page2kva_addr [OF p(2)] by blast
  have "unat (npage p) \<le> 0xC0000" using p(2) by (simp add: word_le_nat_alt)
  then have q': "q < 0x40000" using q(2) by simp
  obtain y where y: "x = 0xFFFFFFFFC0000000 + 4096 * q + y" "y < 4096"
    using x by (auto simp: page_addr_def dest: le_Suc_ex)
  have "x < 18446744073709551616" using q' y by simp
  then have ux: "unat (of_nat x :: u64) = x" by (simp add: unat_of_nat)
  have "18446744072637906944 \<le> x" using q(1) y by simp
  then have "\<not> (of_nat x :: u64) < KERNBASE" by (simp add: word_less_nat_alt ux layout)
  then have pa: "PADDR (of_nat x) = Some (of_nat x - va_pa_offset)" by (simp add: PADDR_def)
  have x': "18446744070488326144 \<le> x" "x - 18446744070488326144 = 4096 * (q + 0x80000) + y" using y by simp_all
  have "unat (of_nat x - va_pa_offset :: u64) = x - 18446744070488326144"
    using x'(1) by (simp add: unat_sub_if' ux layout)
  then have "unat (of_nat x - va_pa_offset :: u64) = 4096 * (q + 0x80000) + y" using x'(2) by simp
  then have pn: "unat (PPN (of_nat x - va_pa_offset)) = q + 0x80000"
    using y(2) by (simp add: PPN_def drop_bit_eq_div unat_div)
  then have "unat (PPN (of_nat x - va_pa_offset) - nbase) = q"
    by (simp add: unat_sub_if' layout)
  then show "kva2page (of_nat x) p = Some q"
    using pa pn q(2) by (simp add: kva2page_def pa2page_def word_le_nat_alt)
qed

section \<open>\<^verbatim>\<open>slub_free\<close>\<close>

lemma object_index_eq:
  assumes c: "caches_ok s" "c < 3" and ok: "slab_ok s c (page_addr q)" and q: "q < 0x40000"
    and x: "x \<in> {page_addr q..<page_addr q + 4096}"
  shows "page_addr q + 56 \<le> x \<Longrightarrow> object_index x (page_addr q) s = (x - (page_addr q + 56)) div osize c"
    and "x < page_addr q + 56 \<Longrightarrow> nobj c \<le> object_index x (page_addr q) s"
proof -
  let ?a = "page_addr q"
  have lim: "?a + 4096 \<le> 18446744073709551616" using q by (simp add: page_addr_def)
  then have u: "unat (of_nat x :: u64) = x" "unat (of_nat (?a + 56) :: u64) = ?a + 56"
    using x by (simp_all add: unat_of_nat del: of_nat_add)
  have idx: "object_index x ?a s = unat (of_nat x - of_nat (?a + 56) :: u64) div osize c"
    using ok c cachesD(1) [OF c] unat_class(1) [OF c(2)]
    by (simp add: object_index_def slab_ok_def unat_div del: of_nat_add)
  show "?a + 56 \<le> x \<Longrightarrow> object_index x ?a s = (x - (?a + 56)) div osize c"
    unfolding idx using u by (simp add: unat_sub_if' del: of_nat_add)
  show "nobj c \<le> object_index x ?a s" if lt: "x < ?a + 56"
  proof -
    have "unat (of_nat x - of_nat (?a + 56) :: u64) = 18446744073709551616 + x - (?a + 56)"
      using u lt by (simp add: unat_sub_if' del: of_nat_add)
    then have "nobj c * osize c \<le> unat (of_nat x - of_nat (?a + 56) :: u64)"
      using lim x slab_fits [OF c(2)] by simp
    then have "nobj c * osize c div osize c \<le> unat (of_nat x - of_nat (?a + 56) :: u64) div osize c" by (rule div_le_mono)
    then show ?thesis by (simp add: idx)
  qed
qed

lemma placed_page:
  assumes "slab_placed s P k a" and "pool_ok s P"
  obtains q where "a = page_addr q" "q \<notin> P" "managed (slub_phys s) q" "q < 0x40000"
proof -
  obtain q where q: "a = page_addr q" "q \<notin> P" "managed (slub_phys s) q" using assms(1) by (auto simp: slab_placed_def)
  have "unat (npage (slub_phys s)) \<le> 0xC0000" using assms(2) by (simp add: pool_ok_def word_le_nat_alt)
  then have "q < 0x40000" using q(3) by (simp add: managed_def)
  then show thesis using q that by blast
qed

lemma slub_free_in_slab:
  assumes inv: "slub_inv s xs P" and k: "k < 9" "k div 3 = c" "a \<in> set (xs k)" and x: "x \<in> {a..<a + 4096}"
  shows "slub_free x s =
    (if a + 56 \<le> x \<and> x < bm_at c a \<and> (x - (a + 56)) div osize c \<notin> free_in s c a
     then Some (returned c a ((x - (a + 56)) div osize c) s) else None)"
proof -
  note D = slub_invD [OF inv]
  have c: "c < 3" using k by auto
  have pl: "slab_placed s P k a" by (rule D(3) [OF k(1,3)])
  then have ok: "slab_ok s c a" using k(2) by (simp add: slab_placed_def)
  obtain q where q: "a = page_addr q" "q \<notin> P" "managed (slub_phys s) q" "q < 0x40000" by (rule placed_page [OF pl D(4)])
  have np: "npage (slub_phys s) \<le> 0xC0000" using D(4) by (simp add: pool_ok_def)
  note pg = page_of_address [OF q(3) np x [unfolded q(1)]]
  obtain kva where kva: "page2kva q (slub_phys s) = Some kva" "unat kva = a" using pg(2) q(1) by auto
  let ?i = "object_index x a s"
  have x0: "x \<noteq> 0" using x q(1) by (auto simp: page_addr_def)
  have step: "slub_free x s = do { ensure (?i < nobj c); ensure (bit_used (slub_mem s) (bm_at c a) ?i); Some (put_object a ?i s) }"
    using x0 pg(1) kva ok cachesD(1,3) [OF D(1) c] unat_class [OF c]
    by (simp add: slub_free_def slab_ok_def word_unat_eq_iff Let_def)
  show ?thesis
  proof (cases "a + 56 \<le> x")
    case True
    then have i: "?i = (x - (a + 56)) div osize c"
      using object_index_eq(1) [OF D(1) c ok [unfolded q(1)] q(4)] x q(1) by simp
    have lim: "?i < nobj c \<longleftrightarrow> x < bm_at c a"
      using True by (auto simp: i div_less_iff_less_mult bm_at_def)
    have "bit_used (slub_mem s) (bm_at c a) ?i \<longleftrightarrow> ?i \<notin> free_in s c a" if "?i < nobj c"
      using that by (simp add: free_in_def)
    then show ?thesis using True lim put_object_returned [OF c ok] unfolding step i by (auto simp: ensure_def)
  next
    case False
    then have "nobj c \<le> ?i" using object_index_eq(2) [OF D(1) c ok [unfolded q(1)] q(4)] x q(1) by simp
    then show ?thesis using False by (simp add: step ensure_def)
  qed
qed

lemma object_at:
  assumes "a + 56 \<le> x"
  shows "x \<in> {obj_at c a i..<obj_at c a i + osize c} \<longleftrightarrow> (x - (a + 56)) div osize c = i"
proof -
  obtain d where d: "x = a + 56 + d" using assms by (auto dest: le_Suc_ex)
  have "d div osize c = i \<longleftrightarrow> i * osize c \<le> d \<and> d < Suc i * osize c"
    by (metis div_nat_eqI dividend_less_div_times div_times_less_eq_dividend mult.commute mult_Suc osize_pos(1))
  then show ?thesis by (simp add: d obj_at_def add.commute)
qed

text \<open>
  What \<open>slub_free\<close> does with an address \<open>x\<close> in a slab: if it lies in a live object, that object is
  returned, wherever in the object \<open>x\<close> points; otherwise the kernel panics.
\<close>

lemma slub_free_live:
  assumes inv: "slub_inv s xs P" and r: "r \<in> live s xs" and x: "x \<in> run r"
  shows "\<exists>s' ys. slub_free x s = Some s' \<and> slub_inv s' ys P \<and> live s' ys = live s xs - {r} \<and>
    keeps_objects (live s xs) s s' \<and> total_freed s' = total_freed s + 1 \<and> total_allocated s' = total_allocated s"
proof -
  obtain k a where k: "k < 9" "a \<in> set (xs k)" "r \<in> objs_of s (k div 3) a" "k div 3 < 3" using r by (rule liveE)
  let ?c = "k div 3"
  obtain i where i: "r = (obj_at ?c a i, osize ?c)" "i < nobj ?c" "bit_used (slub_mem s) (bm_at ?c a) i"
    using k(3) by (rule objs_ofE)
  have nf: "i \<notin> free_in s ?c a" using i(3) by (simp add: free_in_def)
  have xr: "x \<in> {obj_at ?c a i..<obj_at ?c a i + osize ?c}" using x by (simp add: i(1) run_pair)
  then have lo: "a + 56 \<le> x" by (simp add: obj_at_def)
  have ix: "(x - (a + 56)) div osize ?c = i" using object_at [OF lo] xr by blast
  have "x < bm_at ?c a" by (rule run_below_bitmap [OF k(3) x])
  moreover have "x \<in> {a..<a + 4096}" using objs_of_page [OF k(4,3)] x by blast
  ultimately have "slub_free x s = Some (returned ?c a i s)"
    using slub_free_in_slab [OF inv k(1) refl k(2)] lo nf by (simp add: ix)
  moreover obtain ys where "slub_inv (returned ?c a i s) ys P" "live (returned ?c a i s) ys = live s xs - {r}"
    using returned_spec(1) [OF inv k(1) refl k(2) i(2) nf] i(1) by blast
  moreover have "keeps_objects (live s xs) s (returned ?c a i s)"
    by (rule returned_spec(2) [OF inv k(1) refl k(2) i(2) nf])
  ultimately show ?thesis by (auto simp: returned_def Let_def)
qed

lemma slub_free_panics:
  assumes inv: "slub_inv s xs P" and k: "k < 9" "a \<in> set (xs k)" and x: "x \<in> {a..<a + 4096}"
    and out: "\<And>r. r \<in> live s xs \<Longrightarrow> x \<notin> run r"
  shows "slub_free x s = None"
proof (rule ccontr)
  let ?c = "k div 3" and ?i = "(x - (a + 56)) div osize (k div 3)"
  assume "slub_free x s \<noteq> None"
  then have f: "a + 56 \<le> x" "x < bm_at ?c a" "?i \<notin> free_in s ?c a"
    using slub_free_in_slab [OF inv k(1) refl k(2) x] by (auto split: if_splits)
  then have "?i < nobj ?c" by (simp add: div_less_iff_less_mult bm_at_def less_diff_conv2)
  then have "(obj_at ?c a ?i, osize ?c) \<in> objs_of s ?c a" using f(3) by (simp add: objs_of_image)
  then have "(obj_at ?c a ?i, osize ?c) \<in> live s xs" using k unfolding live_def by blast
  moreover have "x \<in> run (obj_at ?c a ?i, osize ?c)" using object_at [OF f(1), of ?c ?i] unfolding run_pair by blast
  ultimately show False using out by blast
qed

section \<open>\<^verbatim>\<open>slub_alloc\<close>\<close>

lemma pmm_alloc_one:
  assumes "pool_ok s P"
  shows "P = {} \<and> pmm_alloc_pages 1 (slub_phys s) = Some (None, slub_phys s) \<or>
    (\<exists>q\<in>P. \<exists>t. pmm_alloc_pages 1 (slub_phys s) = Some (Some q, slub_phys s\<lparr>area := t\<rparr>) \<and> free_pages t (P - {q}))"
proof -
  have inv: "free_pages (area (slub_phys s)) P" using assms by (simp add: pool_ok_def)
  have one: "{x..<x + 1} = {x::nat}" for x by auto
  show ?thesis
  proof (cases "P = {}")
    case True
    then have "\<nexists>p. {p..<p + 1} \<subseteq> P" by (simp add: one)
    from best_fit.alloc_none [OF inv _ this] True show ?thesis by (simp add: pmm_alloc_pages_def)
  next
    case False
    then obtain p where "p \<in> P" by blast
    then have "{p..<p + 1} \<subseteq> P" by (simp add: one)
    from best_fit.alloc_run [OF inv _ this] obtain q t where
      "best_fit_alloc_pages 1 (area (slub_phys s)) = Some (Some q, t)" "q \<in> P" "free_pages t (P - {q})"
      by (auto simp: one)
    then show ?thesis by (auto simp: pmm_alloc_pages_def)
  qed
qed

lemma slab_words:
  assumes "c < 3"
  shows "unat ((of_nat (nobj c) + 7) div 8 :: u64) = (nobj c + 7) div 8"
    and "unat (of_nat (nobj c) * of_nat (osize c) :: u64) = nobj c * osize c"
  using assms by (auto simp: less_3 nobj_def osize_def)

text \<open>The state after \<open>slab_create\<close>.\<close>

definition created :: "nat \<Rightarrow> addr \<Rightarrow> phys \<Rightarrow> slub \<Rightarrow> slub" where
  "created c a p s = s\<lparr>slub_phys := p,
     slabs := (slabs s)(a := \<lparr>objects = a + 56, slab_bitmap = bm_at c a, free_objects = of_nat (nobj c),
       total_objects = of_nat (nobj c), slab_cache = cache_at s c\<rparr>),
     slub_mem := memset (bm_at c a) 0 ((nobj c + 7) div 8) (slub_mem s),
     slub_links := list_add (ring_head s (3 * c + 2)) a (slub_links s)\<rparr>"

lemma slab_create_created:
  assumes c: "caches_ok s" "c < 3" and p: "pmm_alloc_pages 1 (slub_phys s) = Some (Some q, p)"
    and kva: "page2kva q p = Some kva" "unat kva = a"
  shows "slab_create (cache_at s c) s = Some (a, created c a p s)"
  using p kva cachesD(1,2) [OF c] slab_words [OF c(2)] ring_heads(3) [OF c(2), of s]
  by (simp add: slab_create_def created_def bm_at_def layout Let_def)

lemma slab_not_free:
  assumes "slub_inv s xs P" and "q \<in> P" and "k < 9" "b \<in> set (xs k)"
  shows "b \<noteq> page_addr q" and "{page_addr q..<page_addr q + 4096} \<inter> {b..<b + 4096} = {}"
proof -
  obtain p where "b = page_addr p" "p \<notin> P" using slub_invD(3) [OF assms(1,3,4)] by (auto simp: slab_placed_def)
  then have "b = page_addr p" "q \<noteq> p" using assms(2) by auto
  then show "{page_addr q..<page_addr q + 4096} \<inter> {b..<b + 4096} = {}" using page_apart [of q p] by simp
  then show "b \<noteq> page_addr q" by auto
qed

lemma created_mem: "c < 3 \<Longrightarrow> x \<notin> {a..<a + 4096} \<Longrightarrow> slub_mem (created c a p s) x = slub_mem s x"
  using slab_fits [of c] by (auto simp: created_def memset_spec bm_at_def)

lemma created_other:
  fixes p :: phys
  assumes inv: "slub_inv s xs P" and c: "c < 3" and q: "q \<in> P" and kb: "k < 9" "b \<in> set (xs k)"
  defines "s' \<equiv> created c (page_addr q) p s"
  shows "free_in s' (k div 3) b = free_in s (k div 3) b" and "objs_of s' (k div 3) b = objs_of s (k div 3) b"
    and "slabs s' b = slabs s b" and "x \<in> {b..<b + 4096} \<Longrightarrow> slub_mem s' x = slub_mem s x"
proof -
  note old = slab_not_free [OF inv q kb]
  show m: "slub_mem s' x = slub_mem s x" if "x \<in> {b..<b + 4096}" for x
    unfolding s'_def using created_mem [OF c, of x "page_addr q" p s] old(2) that by blast
  show "free_in s' (k div 3) b = free_in s (k div 3) b" "objs_of s' (k div 3) b = objs_of s (k div 3) b"
    using free_in_cong [of "k div 3" b s' s] m kb(1) by simp_all
  show "slabs s' b = slabs s b" using old(1) by (simp add: s'_def created_def)
qed

lemma created_new:
  fixes p :: phys and s :: slub and a :: addr
  assumes c: "c < 3"
  defines "s' \<equiv> created c a p s"
  shows "free_in s' c a = {..<nobj c}" and "objs_of s' c a = {}" and "slab_ok s' c a"
proof -
  have "\<not> bit_used (slub_mem s') (bm_at c a) i" if "i < nobj c" for i
  proof -
    have "i div 8 < (nobj c + 7) div 8" using that by linarith
    then show ?thesis by (simp add: bit_used_def s'_def created_def memset_spec)
  qed
  then show fr: "free_in s' c a = {..<nobj c}" by (auto simp: free_in_def)
  then show "objs_of s' c a = {}" by (simp add: objs_of_image)
  have "slabs s' a = \<lparr>objects = a + 56, slab_bitmap = bm_at c a, free_objects = of_nat (nobj c),
     total_objects = of_nat (nobj c), slab_cache = cache_at s' c\<rparr>" by (simp add: s'_def created_def cache_at_def)
  then show "slab_ok s' c a" by (simp add: slab_ok_def fr)
qed

lemma created_spec:
  assumes inv: "slub_inv s xs P" and c: "c < 3" and q: "q \<in> P" and t: "free_pages t (P - {q})"
  defines "a \<equiv> page_addr q"
  defines "s' \<equiv> created c a (slub_phys s\<lparr>area := t\<rparr>) s" and "ys \<equiv> xs(3 * c + 2 := a # xs (3 * c + 2))"
  shows "slub_inv s' ys (P - {q})" and "live s' ys = live s xs" and "keeps_objects (live s xs) s s'"
proof -
  note D = slub_invD [OF inv] and R = ring_indices [OF c]
  note same = created_other [OF inv c q, where p = "slub_phys s\<lparr>area := t\<rparr>", folded a_def, folded s'_def]
  note fresh = created_new [OF c, where a = a and p = "slub_phys s\<lparr>area := t\<rparr>" and s = s, folded s'_def]
  have h: "cache_at s' = cache_at s" "ring_head s' = ring_head s"
    by (auto simp: s'_def created_def fun_eq_iff cache_at_def ring_head_def)
  have np: "npage (slub_phys s') = npage (slub_phys s)" by (simp add: s'_def created_def)
  have "\<exists>p. a = page_addr p \<and> p \<notin> P - {q} \<and> managed (slub_phys s') p"
    using D(4) q np by (intro exI [of _ q]) (simp add: pool_ok_def managed_def a_def)
  then have new: "slab_placed s' (P - {q}) (3 * c + 2) a"
    using R fresh(3) by (simp add: slab_placed_def level_def fresh(1))
  have rest: "slab_placed s' (P - {q}) k b" if "k < 9" "b \<in> set (xs k)" for k b
    using D(3) [OF that] same(1,3) [OF that] h np by (auto simp: slab_placed_def slab_ok_def managed_def)
  have "rings 9 (list_add (ring_head s (3 * c + 2)) a (slub_links s)) (ring_head s) ys" unfolding ys_def
  proof (rule rings_add [OF D(2) R(3)])
    show "a \<notin> set (ring_head s j # xs j)" if "j < 9" for j
      using slab_not_free(1) [OF inv q that] D(4) q that by (auto simp: pool_ok_def a_def)
  qed
  then have r: "rings 9 (slub_links s') (ring_head s) ys" by (simp add: s'_def created_def)
  have "slab_placed s' (P - {q}) k b" if "k < 9" "b \<in> set (ys k)" for k b
    using that new rest by (auto simp: ys_def split: if_splits)
  moreover have "caches_ok s'" using D(1) by (simp add: caches_ok_def h) (simp add: s'_def created_def)
  moreover have "pool_ok s' (P - {q})" using D(4) t np by (auto simp: pool_ok_def h managed_def) (simp add: s'_def created_def)
  ultimately show "slub_inv s' ys (P - {q})" using r by (simp add: slub_inv_def h)
  have "(\<Union>b\<in>set (ys k). objs_of s' (k div 3) b) = (\<Union>b\<in>set (xs k). objs_of s (k div 3) b)" if "k < 9" for k
    using same(2) [OF that] fresh(2) R by (auto simp: ys_def)
  then show "live s' ys = live s xs" unfolding live_def by simp
  show "keeps_objects (live s xs) s s'"
    unfolding keeps_objects_def
  proof (intro ballI)
    fix r x assume "r \<in> live s xs" and x: "x \<in> run r"
    then obtain k b where k: "k < 9" "b \<in> set (xs k)" "r \<in> objs_of s (k div 3) b" "k div 3 < 3" by (meson liveE)
    show "slub_mem s' x = slub_mem s x" using objs_of_page [OF k(4,3)] x by (intro same(4) [OF k(1,2)]) blast
  qed
qed

text \<open>
  What \<open>pick_slab\<close> returns: a slab with a free object, from which an object can be taken as \<open>taken_spec\<close>
  requires; \<open>s0\<close> is the state before the slab was moved to the ring of partial slabs.
\<close>

definition picked :: "slub \<Rightarrow> (nat \<Rightarrow> addr list) \<Rightarrow> nat set \<Rightarrow> nat \<Rightarrow> addr \<Rightarrow> slub \<Rightarrow> (nat \<Rightarrow> addr list) \<Rightarrow> nat set \<Rightarrow> links \<Rightarrow> bool" where
  "picked s xs P c a s0 xs0 P0 l \<longleftrightarrow>
     slub_inv s0 xs0 P0 \<and> P0 \<subseteq> P \<and> live s0 xs0 = live s xs \<and> keeps_objects (live s xs) s s0 \<and>
     cache_at s0 c = cache_at s c \<and> total_allocated s0 = total_allocated s \<and> total_freed s0 = total_freed s \<and>
     (\<exists>k ys. k < 9 \<and> k div 3 = c \<and> a \<in> set (xs0 k) \<and> rings 9 l (ring_head s0) ys \<and> goes a (3 * c + 1) xs0 ys) \<and>
     free_in s0 c a \<noteq> {}"

lemma keeps_objects_refl [simp]: "keeps_objects R s s"
  by (simp add: keeps_objects_def)

lemma free_in_level:
  assumes "slab_placed s P k a" and "k mod 3 \<noteq> 0"
  shows "free_in s (k div 3) a \<noteq> {}"
  using assms nobj_bounds(1) [of "k div 3"] by (auto simp: slab_placed_def level_def split: if_splits)

lemma picked_free:
  assumes inv: "slub_inv s xs P" and c: "c < 3" and a: "a \<in> set (xs (3 * c + 2))"
  shows "picked s xs P c a s xs P (list_add (slabs_partial (cache_at s c)) a (list_del a (slub_links s)))"
proof -
  note D = slub_invD [OF inv] and R = ring_indices [OF c]
  have "rings 9 (list_add (slabs_partial (cache_at s c)) a (list_del a (slub_links s))) (ring_head s) (moved xs (3 * c + 2) (3 * c + 1) a)"
    using moved_rings(1) [OF D(2) R(3,2) a] ring_heads(2) [OF c, of s] by simp
  moreover have "goes a (3 * c + 1) xs (moved xs (3 * c + 2) (3 * c + 1) a)" by (rule moved_rings(2) [OF D(2) R(3,2) a])
  ultimately have "\<exists>k ys. k < 9 \<and> k div 3 = c \<and> a \<in> set (xs k) \<and>
      rings 9 (list_add (slabs_partial (cache_at s c)) a (list_del a (slub_links s))) (ring_head s) ys \<and> goes a (3 * c + 1) xs ys"
    using R(3,5) a by blast
  then show ?thesis using inv free_in_level [OF D(3) [OF R(3) a]] R(5,7) by (simp add: picked_def)
qed

lemma picked_trans:
  assumes "picked t ys Q c a s0 xs0 P0 l" and "Q \<subseteq> P" and "live t ys = live s xs" and "keeps_objects (live s xs) s t"
    and "cache_at t c = cache_at s c" "total_allocated t = total_allocated s" "total_freed t = total_freed s"
  shows "picked s xs P c a s0 xs0 P0 l"
proof -
  have "keeps_objects (live s xs) s s0" using assms(1,3,4) by (simp add: picked_def keeps_objects_def)
  then show ?thesis using assms unfolding picked_def by auto
qed

lemma pick_new:
  assumes inv: "slub_inv s xs P" and c: "c < 3" and q: "q \<in> P"
    and al: "pmm_alloc_pages 1 (slub_phys s) = Some (Some q, slub_phys s\<lparr>area := t\<rparr>)" and t: "free_pages t (P - {q})"
    and none: "list_empty (slabs_partial (cache_at s c)) (slub_links s)" "list_empty (slabs_free (cache_at s c)) (slub_links s)"
  shows "\<exists>a s0 xs0 P0 l. pick_slab (cache_at s c) s = Some (a, s0\<lparr>slub_links := l\<rparr>) \<and> picked s xs P c a s0 xs0 P0 l"
proof -
  note D = slub_invD [OF inv] and S = created_spec [OF inv c q t]
  let ?p = "slub_phys s\<lparr>area := t\<rparr>" and ?a = "page_addr q"
  let ?s = "created c ?a ?p s" and ?xs = "xs(3 * c + 2 := ?a # xs (3 * c + 2))"
  let ?l = "list_add (slabs_partial (cache_at s c)) ?a (list_del ?a (slub_links ?s))"
  obtain kva where "page2kva q ?p = Some kva" "unat kva = ?a"
    using page2kva_addr [of ?p q] D(4) q by (auto simp: pool_ok_def managed_def)
  from slab_create_created [OF D(1) c al this] have cr: "slab_create (cache_at s c) s = Some (?a, ?s)" .
  have h: "cache_at ?s c = cache_at s c" "total_allocated ?s = total_allocated s" "total_freed ?s = total_freed s"
    by (simp_all add: created_def cache_at_def)
  have a: "?a \<in> set (?xs (3 * c + 2))" by simp
  have "picked s xs P c ?a ?s ?xs (P - {q}) ?l"
    using picked_trans [OF picked_free [OF S(1) c a] _ S(2,3) h, of P] by (simp only: h Diff_subset)
  moreover have "pick_slab (cache_at s c) s = Some (?a, ?s\<lparr>slub_links := ?l\<rparr>)"
    using none cr by (simp add: pick_slab_def move_slab_def page_addr_def)
  ultimately show ?thesis by blast
qed

lemma pick_slab_spec:
  assumes inv: "slub_inv s xs P" and c: "c < 3"
  shows "xs (3 * c + 1) = [] \<and> xs (3 * c + 2) = [] \<and> P = {} \<and> pick_slab (cache_at s c) s = Some (0, s) \<or>
    (\<exists>a s0 xs0 P0 l. pick_slab (cache_at s c) s = Some (a, s0\<lparr>slub_links := l\<rparr>) \<and> picked s xs P c a s0 xs0 P0 l)"
proof -
  note D = slub_invD [OF inv] and R = ring_indices [OF c] and H = ring_heads [OF c]
  have cl: "clist (slub_links s) (slabs_partial (cache_at s c)) (xs (3 * c + 1))"
    "clist (slub_links s) (slabs_free (cache_at s c)) (xs (3 * c + 2))"
    using D(2) R(2,3) by (simp_all add: rings_def flip: H(2,3) [of s])
  show ?thesis
  proof (cases "xs (3 * c + 1)")
    case (Cons a as)
    have a: "a \<in> set (xs (3 * c + 1))" using Cons by simp
    have "picked s xs P c a s xs P (slub_links s)"
      using inv D(2) goes_self [OF D(2) R(2) a] a R(2,4) free_in_level [OF D(3) [OF R(2) a]] R(6)
      by (auto simp: picked_def)
    moreover have "pick_slab (cache_at s c) s = Some (a, s)"
      using clist_empty [OF cl(1)] clist_next_head [OF cl(1)] Cons by (simp add: pick_slab_def)
    ultimately show ?thesis by (intro disjI2 exI [of _ a] exI [of _ s] exI [of _ xs] exI [of _ P] exI [of _ "slub_links s"]) simp
  next
    case Nil
    show ?thesis
    proof (cases "xs (3 * c + 2)")
      case (Cons a as)
      have a: "a \<in> set (xs (3 * c + 2))" using Cons by simp
      let ?l = "list_add (slabs_partial (cache_at s c)) a (list_del a (slub_links s))"
      have "picked s xs P c a s xs P ?l" by (rule picked_free [OF inv c a])
      moreover have "pick_slab (cache_at s c) s = Some (a, s\<lparr>slub_links := ?l\<rparr>)"
        using clist_empty [OF cl(1)] clist_empty [OF cl(2)] clist_next_head [OF cl(2)] Nil Cons
        by (simp add: pick_slab_def move_slab_def)
      ultimately show ?thesis by blast
    next
      case empty: Nil
      have none: "list_empty (slabs_partial (cache_at s c)) (slub_links s)" "list_empty (slabs_free (cache_at s c)) (slub_links s)"
        using clist_empty [OF cl(1)] clist_empty [OF cl(2)] Nil empty by simp_all
      from pmm_alloc_one [OF D(4)] show ?thesis
      proof
        assume p: "P = {} \<and> pmm_alloc_pages 1 (slub_phys s) = Some (None, slub_phys s)"
        then have "pick_slab (cache_at s c) s = Some (0, s)" using none by (simp add: pick_slab_def slab_create_def)
        then show ?thesis using p Nil empty by simp
      next
        assume "\<exists>q\<in>P. \<exists>t. pmm_alloc_pages 1 (slub_phys s) = Some (Some q, slub_phys s\<lparr>area := t\<rparr>) \<and> free_pages t (P - {q})"
        then obtain q t where q: "q \<in> P" and al: "pmm_alloc_pages 1 (slub_phys s) = Some (Some q, slub_phys s\<lparr>area := t\<rparr>)"
          and t: "free_pages t (P - {q})" by blast
        show ?thesis by (rule disjI2, rule pick_new [OF inv c q al t none])
      qed
    qed
  qed
qed

text \<open>The cache that serves a request is the first one whose objects are long enough.\<close>

definition class_ok :: "nat \<Rightarrow> u64 \<Rightarrow> bool" where
  "class_ok c sz \<longleftrightarrow> c < 3 \<and> unat sz \<le> osize c \<and> (\<forall>d<c. osize d < unat sz)"

lemma class_exists:
  assumes "sz \<le> 128"
  shows "\<exists>c. class_ok c sz"
proof -
  have "unat sz \<le> 128" using assms by (simp add: word_le_nat_alt)
  then consider "unat sz \<le> 32" | "32 < unat sz" "unat sz \<le> 64" | "64 < unat sz" "unat sz \<le> 128" by linarith
  then show ?thesis
  proof cases
    case 1 then show ?thesis by (intro exI [of _ 0]) (simp add: class_ok_def osize_def)
  next
    case 2 then show ?thesis by (intro exI [of _ 1]) (simp add: class_ok_def osize_def)
  next
    case 3 then show ?thesis by (intro exI [of _ 2]) (auto simp: class_ok_def osize_def less_2_cases_iff)
  qed
qed

lemma cache_for_class:
  assumes c: "caches_ok s" and k: "class_ok c sz"
  shows "cache_for sz s = Some (cache_at s c)"
proof -
  have o: "sz \<le> object_size (caches s (cache_at s d)) \<longleftrightarrow> unat sz \<le> osize d" if "d < 3" for d
    using cachesD(1) [OF c that] unat_class(1) [OF that] by (simp add: word_le_nat_alt)
  have "[0..<SLAB_CACHE_NUM] = [0, 1, 2]" by (simp add: layout upt_rec)
  moreover have "c = 0 \<or> c = 1 \<or> c = 2" using k by (auto simp: class_ok_def less_3)
  ultimately show ?thesis using k o [of 0] o [of 1] o [of 2]
    by (auto simp: cache_for_def class_ok_def not_le less_2_cases_iff)
qed

lemma free_object_spec:
  assumes "slab_ok s c a" and "c < 3" and "free_in s c a \<noteq> {}"
  shows "\<exists>i\<in>free_in s c a. free_object a s = Some i"
proof -
  have eq: "free_object a s = List.find (\<lambda>i. \<not> bit_used (slub_mem s) (bm_at c a) i) [0..<nobj c]"
    using assms(1,2) by (simp add: free_object_def slab_ok_def)
  obtain j where j: "j < nobj c" "\<not> bit_used (slub_mem s) (bm_at c a) j" using assms(3) by (auto simp: free_in_def)
  then have "free_object a s \<noteq> None" unfolding eq find_None_iff by auto
  then obtain i where i: "free_object a s = Some i" by blast
  then have "i < nobj c \<and> \<not> bit_used (slub_mem s) (bm_at c a) i" unfolding eq by (auto simp: find_Some_iff)
  then show ?thesis using i by (auto simp: free_in_def)
qed

lemma live_nonzero: "slub_inv s xs P \<Longrightarrow> k < 9 \<Longrightarrow> a \<in> set (xs k) \<Longrightarrow> a \<noteq> 0"
  using slub_invD(3) [of s xs P k a] by (auto simp: slab_placed_def page_addr_def)

text \<open>An allocation of a class finds an object, or nothing at all is left for the class.\<close>

definition class_full :: "slub \<Rightarrow> (nat \<Rightarrow> addr list) \<Rightarrow> nat \<Rightarrow> bool" where
  "class_full s xs c \<longleftrightarrow> (\<forall>k<9. k div 3 = c \<longrightarrow> (\<forall>a\<in>set (xs k). free_in s c a = {}))"

lemma slub_init_once: "slub_init s = (if \<not> slub_initialized s then slub_init s else s)"
  by (simp add: slub_init_def)

lemma slub_alloc_class:
  assumes inv: "slub_inv (slub_init s) xs P" and cl: "class_ok c sz" and sz: "sz \<noteq> 0"
  shows "P = {} \<and> class_full (slub_init s) xs c \<and> slub_alloc sz s = Some (0, slub_init s) \<or>
    (\<exists>r s' ys Q. slub_alloc sz s = Some (r, s') \<and> r \<noteq> 0 \<and> slub_inv s' ys Q \<and> Q \<subseteq> P \<and>
      (r, osize c) \<notin> live (slub_init s) xs \<and> live s' ys = insert (r, osize c) (live (slub_init s) xs) \<and>
      (\<forall>x\<in>run (r, osize c). slub_mem s' x = 0) \<and> keeps_objects (live (slub_init s) xs) (slub_init s) s' \<and>
      total_allocated s' = total_allocated (slub_init s) + 1 \<and> total_freed s' = total_freed (slub_init s))"
proof -
  let ?t = "slub_init s"
  note D = slub_invD [OF inv]
  have c: "c < 3" using cl by (simp add: class_ok_def)
  have al: "slub_alloc sz s = do {
      (slab, t) \<leftarrow> pick_slab (cache_at ?t c) ?t;
      if slab = 0 then Some (0, t)
      else case free_object slab t of None \<Rightarrow> Some (0, t) | Some i \<Rightarrow> Some (take_object (cache_at ?t c) slab i t) }"
    using sz cache_for_class [OF D(1) cl] by (simp add: slub_alloc_def Let_def flip: slub_init_once)
  from pick_slab_spec [OF inv c] show ?thesis
  proof
    assume p: "xs (3 * c + 1) = [] \<and> xs (3 * c + 2) = [] \<and> P = {} \<and> pick_slab (cache_at ?t c) ?t = Some (0, ?t)"
    have "free_in ?t c a = {}" if k: "k < 9" "k div 3 = c" "a \<in> set (xs k)" for k a
    proof -
      have "k = 3 * c \<or> k = 3 * c + 1 \<or> k = 3 * c + 2" using k(2) by linarith
      then have "k mod 3 = 0" using k(3) p by auto
      then have "card (free_in ?t c a) = 0" using D(3) [OF k(1,3)] k(2) by (simp add: slab_placed_def level_def)
      then show ?thesis by simp
    qed
    then show ?thesis using p by (simp add: al class_full_def)
  next
    assume "\<exists>a s0 xs0 P0 l. pick_slab (cache_at ?t c) ?t = Some (a, s0\<lparr>slub_links := l\<rparr>) \<and> picked ?t xs P c a s0 xs0 P0 l"
    then obtain a s0 xs0 P0 l where p: "pick_slab (cache_at ?t c) ?t = Some (a, s0\<lparr>slub_links := l\<rparr>)"
      and pk: "picked ?t xs P c a s0 xs0 P0 l" by blast
    obtain k ys where k: "k < 9" "k div 3 = c" "a \<in> set (xs0 k)" and l: "rings 9 l (ring_head s0) ys" "goes a (3 * c + 1) xs0 ys"
      using pk unfolding picked_def by blast
    have i0: "slub_inv s0 xs0 P0" and sub: "P0 \<subseteq> P" and lv: "live s0 xs0 = live ?t xs" and kp: "keeps_objects (live ?t xs) ?t s0"
      and at: "cache_at ?t c = cache_at s0 c" and ne: "free_in s0 c a \<noteq> {}"
      and tot: "total_allocated s0 = total_allocated ?t" "total_freed s0 = total_freed ?t"
      using pk unfolding picked_def by simp_all
    note E = slub_invD [OF i0]
    let ?u = "s0\<lparr>slub_links := l\<rparr>"
    have ok: "slab_ok ?u c a" using E(3) [OF k(1,3)] k(2) by (simp add: slab_placed_def)
    obtain i where i: "i \<in> free_in s0 c a" "free_object a ?u = Some i" using free_object_spec [OF ok c] ne by auto
    have "take_object (cache_at ?u c) a i ?u = (obj_at c a i, taken c a i ?u)"
      by (rule take_object_taken) (use E(1) c ok i in simp_all)
    then have r: "slub_alloc sz s = Some (obj_at c a i, taken c a i ?u)"
      using p i(2) live_nonzero [OF i0 k(1,3)] at by (simp add: al)
    note T = taken_spec [OF i0 k l i(1)]
    obtain zs where z: "slub_inv (taken c a i ?u) zs P0" "live (taken c a i ?u) zs = insert (obj_at c a i, osize c) (live ?t xs)"
      using T(1) lv by auto
    have "keeps_objects (live ?t xs) ?t (taken c a i ?u)" using T(2) kp lv by (simp add: keeps_objects_def)
    moreover have "total_allocated (taken c a i ?u) = total_allocated ?t + 1" "total_freed (taken c a i ?u) = total_freed ?t"
      using tot by (simp_all add: taken_def Let_def)
    moreover have "obj_at c a i \<noteq> 0" by (simp add: obj_at_def)
    ultimately show ?thesis
      using r z sub T(3) live_new [OF i0 k i(1)] lv by (intro disjI2 exI [of _ "obj_at c a i"] exI [of _ "taken c a i ?u"] exI [of _ zs] exI [of _ P0]) simp
  qed
qed

end
