(* ===== verification/SlubCalls.thy ===== *)
theory SlubCalls
  imports SlubSpec
begin

text \<open>
  The SLUB allocator from its start, and what its clients see: the interface of an object allocator, its
  interpretation on \<^verbatim>\<open>slub_pmm.c\<close>, and the properties of the allocator.
\<close>

section \<open>Boot\<close>

lemma best_fit_same:
  "best_fit_init = default_init" "best_fit_init_memmap = default_init_memmap" "best_fit_free_pages = default_free_pages"
  by (simp_all add: fun_eq_iff best_fit_init_def default_init_def best_fit_init_memmap_def default_init_memmap_def
      best_fit_free_pages_def default_free_pages_def)

lemma clist_Nil: "clist l h [] \<longleftrightarrow> nxt l h = h \<and> prv l h = h"
  by (simp add: clist_def)

lemma ring_head_inj:
  assumes "j < 9" and "k < 9" and "ring_head s j = ring_head s k"
  shows "j = k"
proof -
  have eq: "72 * (j div 3) + 16 * (j mod 3) = 72 * (k div 3) + 16 * (k mod 3)"
    using assms(3) by (simp add: ring_head_def cache_at_def layout)
  have "j mod 3 < 3" "k mod 3 < 3" by simp_all
  then have "j div 3 = k div 3" using eq by linarith
  moreover from this eq have "j mod 3 = k mod 3" by linarith
  ultimately show ?thesis by (metis div_mult_mod_eq)
qed

lemma slub_init_state:
  assumes "\<not> slub_initialized s"
  shows "slub_links (slub_init s) = fold (\<lambda>k. list_init (ring_head s k)) [0..<9] (slub_links s)"
    and "caches (slub_init s) = (caches s)
      (cache_at s 0 := \<lparr>object_size = 32, objects_per_slab = 125\<rparr>, cache_at s 1 := \<lparr>object_size = 64, objects_per_slab = 63\<rparr>,
       cache_at s 2 := \<lparr>object_size = 128, objects_per_slab = 31\<rparr>)"
    and "slub_initialized (slub_init s)" and "slub_caches (slub_init s) = slub_caches s" and "slub_phys (slub_init s) = slub_phys s"
    and "total_allocated (slub_init s) = total_allocated s" and "total_freed (slub_init s) = total_freed s"
    and "slub_mem (slub_init s) = slub_mem s"
proof -
  have n: "[0..<SLAB_CACHE_NUM] = [0, 1, 2]" by (simp add: layout upt_rec)
  have n9: "[0..<9] = [0, 1, 2, 3, 4, 5, 6, 7, 8 :: nat]" by code_simp
  have nths: "SLAB_CACHE_SIZES ! 0 = 32" "SLAB_CACHE_SIZES ! 1 = 64" "SLAB_CACHE_SIZES ! 2 = 128"
    by (simp_all add: SLAB_CACHE_SIZES_def)
  have sz: "calculate_objects_per_slab 32 = 125" "calculate_objects_per_slab 64 = 63" "calculate_objects_per_slab 128 = 31"
    by (simp_all add: calculate_objects_per_slab_def SLAB_STRUCT_def)
  define t where "t = cache_init (cache_at s 2) 128 (cache_init (cache_at s 1) 64 (cache_init (cache_at s 0) 32 s))"
  have init: "slub_init s = t\<lparr>slub_initialized := True\<rparr>"
    unfolding t_def using assms by (simp only: slub_init_def n if_False fold.simps o_apply id_apply nths)
  have li: "slub_links (cache_init c z s) = list_init (slabs_free c) (list_init (slabs_partial c) (list_init (slabs_full c) (slub_links s)))"
    "caches (cache_init c z s) = (caches s)(c := \<lparr>object_size = z, objects_per_slab = calculate_objects_per_slab z\<rparr>)"
    "slub_caches (cache_init c z s) = slub_caches s" "slub_phys (cache_init c z s) = slub_phys s"
    "total_allocated (cache_init c z s) = total_allocated s" "total_freed (cache_init c z s) = total_freed s"
    "slub_mem (cache_init c z s) = slub_mem s"
    for c z s by (simp_all add: cache_init_def)
  have rh: "ring_head s 0 = slabs_full (cache_at s 0)" "ring_head s 1 = slabs_partial (cache_at s 0)"
    "ring_head s 2 = slabs_free (cache_at s 0)" "ring_head s 3 = slabs_full (cache_at s 1)"
    "ring_head s 4 = slabs_partial (cache_at s 1)" "ring_head s 5 = slabs_free (cache_at s 1)"
    "ring_head s 6 = slabs_full (cache_at s 2)" "ring_head s 7 = slabs_partial (cache_at s 2)"
    "ring_head s 8 = slabs_free (cache_at s 2)"
    by (simp_all add: ring_head_def slabs_full_def slabs_partial_def slabs_free_def)
  show "slub_links (slub_init s) = fold (\<lambda>k. list_init (ring_head s k)) [0..<9] (slub_links s)"
    by (simp add: init t_def li n9 rh del: One_nat_def)
  show "caches (slub_init s) = (caches s)
      (cache_at s 0 := \<lparr>object_size = 32, objects_per_slab = 125\<rparr>, cache_at s 1 := \<lparr>object_size = 64, objects_per_slab = 63\<rparr>,
       cache_at s 2 := \<lparr>object_size = 128, objects_per_slab = 31\<rparr>)"
    by (simp add: init t_def li sz del: One_nat_def)
  show "slub_initialized (slub_init s)" "slub_caches (slub_init s) = slub_caches s" "slub_phys (slub_init s) = slub_phys s"
    "total_allocated (slub_init s) = total_allocated s" "total_freed (slub_init s) = total_freed s"
    "slub_mem (slub_init s) = slub_mem s"
    by (simp_all add: init t_def li)
qed

lemma fold_list_init:
  "e \<in> h ` set ks \<Longrightarrow> nxt (fold (\<lambda>k. list_init (h k)) ks l) e = e \<and> prv (fold (\<lambda>k. list_init (h k)) ks l) e = e"
proof (induction ks rule: rev_induct)
  case (snoc k ks)
  then show ?case by (cases "e = h k") (auto simp: list_init_def)
qed simp

lemma slub_init_inv:
  assumes i: "\<not> slub_initialized s" and a: "0 < slub_caches s" and p: "pool_ok s P"
  shows "slub_inv (slub_init s) (\<lambda>_. []) P"
proof -
  note S = slub_init_state [OF i]
  have at: "cache_at (slub_init s) = cache_at s" by (auto simp: fun_eq_iff cache_at_def S)
  have h: "ring_head (slub_init s) = ring_head s" by (auto simp: fun_eq_iff ring_head_def at)
  have "rings 9 (slub_links (slub_init s)) (ring_head s) (\<lambda>_. [])"
    using fold_list_init [of _ "ring_head s" "[0..<9]"] ring_head_inj [of _ _ s]
    unfolding rings_def clist_Nil S(1) by fastforce
  moreover have "caches_ok (slub_init s)"
    using a unfolding caches_ok_def at by (auto simp: S less_3 cache_at_def osize_def nobj_def layout)
  moreover have "pool_ok (slub_init s) P" using p by (simp add: pool_ok_def S h)
  ultimately show ?thesis by (simp add: slub_inv_def h)
qed

lemma live_finite: "finite (live s xs)"
proof -
  have "finite (objs_of s c a)" for c a by (simp add: objs_of_image)
  then show ?thesis by (simp add: live_def)
qed

lemma live_empty [simp]: "live s (\<lambda>_. []) = {}"
  by (simp add: live_def)

section \<open>The interface of an object allocator\<close>

text \<open>
  A client holds the objects it was given and frees one of those it holds. Whatever it asks for, its calls
  return, and the objects it holds are apart from each other.
\<close>

datatype call = Alloc u64 | Free nat

locale object_allocator =
  fixes inv :: "'s \<Rightarrow> (addr \<times> nat) set \<Rightarrow> bool"
    and good :: "u64 \<Rightarrow> bool"
    and alloc :: "u64 \<Rightarrow> 's \<Rightarrow> (addr \<times> 's) option"
    and free :: "addr \<Rightarrow> 's \<Rightarrow> 's option"
  assumes alloc_gives: "inv s L \<Longrightarrow> good n \<Longrightarrow> \<exists>r t. alloc n s = Some (r, t) \<and>
      (r = 0 \<and> inv t L \<or> r \<noteq> 0 \<and> (\<exists>m\<ge>unat n. (r, m) \<notin> L \<and> inv t (insert (r, m) L)))"
    and free_takes: "inv s L \<Longrightarrow> (r, m) \<in> L \<Longrightarrow> \<exists>t. free r s = Some t \<and> inv t (L - {(r, m)})"
    and nonempty: "inv s L \<Longrightarrow> (r, m) \<in> L \<Longrightarrow> 0 < m"
    and apart: "inv s L \<Longrightarrow> p \<in> L \<Longrightarrow> q \<in> L \<Longrightarrow> p \<noteq> q \<Longrightarrow> run p \<inter> run q = {}"

fun calls :: "(u64 \<Rightarrow> 's \<Rightarrow> (addr \<times> 's) option) \<Rightarrow> (addr \<Rightarrow> 's \<Rightarrow> 's option) \<Rightarrow> call list \<Rightarrow> addr list \<Rightarrow> 's \<Rightarrow> (addr list \<times> 's) option" where
  "calls alloc free [] hs s = Some (hs, s)"
| "calls alloc free (Alloc n # cs) hs s = do {
     (r, s) \<leftarrow> alloc n s;
     calls alloc free cs (if r = 0 then hs else r # hs) s
   }"
| "calls alloc free (Free i # cs) hs s =
     (if i < length hs then do {
        s \<leftarrow> free (hs ! i) s;
        calls alloc free cs (take i hs @ drop (Suc i) hs) s
      }
      else calls alloc free cs hs s)"

context object_allocator
begin

lemma fst_inj: "inv s L \<Longrightarrow> inj_on fst L"
proof (rule inj_onI)
  fix r q assume a: "inv s L" "r \<in> L" "q \<in> L" "fst r = fst q"
  obtain x m n where x: "r = (x, m)" "q = (x, n)" using a(4) by (metis prod.collapse)
  have "0 < m" "0 < n" using nonempty a(1-3) x by auto
  then have "x \<in> run r \<inter> run q" by (simp add: x run_def)
  then show "r = q" using apart [OF a(1-3)] by blast
qed

lemma held_removed:
  assumes L: "inv s L" "fst ` L = set hs" "(x, m) \<in> L" and hs: "distinct hs" "hs = as @ x # bs"
  shows "fst ` (L - {(x, m)}) = set (as @ bs) \<and> distinct (as @ bs)"
proof -
  have "fst ` (L - {(x, m)}) = fst ` L - {x}"
    using inj_on_image_set_diff [OF fst_inj [OF L(1)], of L "{(x, m)}"] L(3) by simp
  then show ?thesis using L(2) hs by auto
qed

lemma calls_safe:
  assumes "inv s L" and "fst ` L = set hs" and "distinct hs" and "\<forall>n. Alloc n \<in> set cs \<longrightarrow> good n"
  shows "\<exists>hs' t M. calls alloc free cs hs s = Some (hs', t) \<and> inv t M \<and> fst ` M = set hs' \<and> distinct hs'"
  using assms
proof (induction cs arbitrary: hs s L)
  case (Cons c cs)
  have g: "\<forall>n. Alloc n \<in> set cs \<longrightarrow> good n" using Cons.prems(4) by simp
  show ?case
  proof (cases c)
    case (Alloc n)
    obtain r t where r: "alloc n s = Some (r, t)"
      "r = 0 \<and> inv t L \<or> r \<noteq> 0 \<and> (\<exists>m\<ge>unat n. (r, m) \<notin> L \<and> inv t (insert (r, m) L))"
      using alloc_gives [OF Cons.prems(1), of n] Cons.prems(4) Alloc by auto
    from r(2) show ?thesis
    proof
      assume "r = 0 \<and> inv t L"
      then show ?thesis using Cons.IH [of t L hs] Cons.prems g r(1) Alloc by simp
    next
      assume "r \<noteq> 0 \<and> (\<exists>m\<ge>unat n. (r, m) \<notin> L \<and> inv t (insert (r, m) L))"
      then obtain m where m: "r \<noteq> 0" "(r, m) \<notin> L" "inv t (insert (r, m) L)" by blast
      have "r \<notin> set hs"
      proof
        assume "r \<in> set hs"
        then obtain k where "(r, k) \<in> L" using Cons.prems(2) by (metis imageE prod.collapse)
        then have "(r, m) = (r, k)" using inj_onD [OF fst_inj [OF m(3)], of "(r, m)" "(r, k)"] by simp
        then show False using m(2) \<open>(r, k) \<in> L\<close> by simp
      qed
      then show ?thesis using Cons.IH [OF m(3), of "r # hs"] Cons.prems g r(1) m(1) Alloc by simp
    qed
  next
    case (Free i)
    show ?thesis
    proof (cases "i < length hs")
      case True
      then have "hs ! i \<in> fst ` L" using Cons.prems(2) by simp
      then obtain m where m: "(hs ! i, m) \<in> L" by force
      obtain t where t: "free (hs ! i) s = Some t" "inv t (L - {(hs ! i, m)})" using free_takes [OF Cons.prems(1) m] by blast
      have "fst ` (L - {(hs ! i, m)}) = set (take i hs @ drop (Suc i) hs) \<and> distinct (take i hs @ drop (Suc i) hs)"
        by (rule held_removed [OF Cons.prems(1,2) m Cons.prems(3) id_take_nth_drop [OF True]])
      then show ?thesis using Cons.IH [OF t(2)] g t(1) True Free by simp
    next
      case False
      then show ?thesis using Cons Free by simp
    qed
  qed
qed auto

end

section \<open>The SLUB allocator as an object allocator\<close>

definition slub_serves :: "slub \<Rightarrow> (addr \<times> nat) set \<Rightarrow> bool" where
  "slub_serves s L \<longleftrightarrow> (\<exists>xs P. slub_inv (slub_init s) xs P \<and> L = live (slub_init s) xs) \<and>
     (\<not> slub_initialized s \<longrightarrow> L = {}) \<and> of_nat (card L) = potential_leaks s"

lemma inv_initialized: "slub_inv s xs P \<Longrightarrow> slub_initialized s \<and> slub_init s = s"
  by (simp add: slub_inv_def caches_ok_def slub_init_def)

lemma servesI: "slub_inv s xs P \<Longrightarrow> of_nat (card (live s xs)) = potential_leaks s \<Longrightarrow> slub_serves s (live s xs)"
  using inv_initialized [of s xs P] by (auto simp: slub_serves_def)

lemma init_leaks: "potential_leaks (slub_init s) = potential_leaks s"
  using slub_init_state(6,7) [of s] by (cases "slub_initialized s") (simp_all add: potential_leaks_def slub_init_def)

lemma slub_serves_alloc:
  assumes s: "slub_serves s L" and n: "0 < n" "n \<le> 128"
  shows "\<exists>r t. slub_alloc n s = Some (r, t) \<and>
    (r = 0 \<and> slub_serves t L \<or> r \<noteq> 0 \<and> (\<exists>m\<ge>unat n. (r, m) \<notin> L \<and> slub_serves t (insert (r, m) L)))"
proof -
  obtain xs P where inv: "slub_inv (slub_init s) xs P" and L: "L = live (slub_init s) xs"
    and k: "of_nat (card L) = potential_leaks s" using s unfolding slub_serves_def by blast
  obtain c where c: "class_ok c n" using class_exists [OF n(2)] by blast
  have n0: "n \<noteq> 0" using n(1) by auto
  from slub_alloc_class [OF inv c n0] show ?thesis
  proof
    assume "P = {} \<and> class_full (slub_init s) xs c \<and> slub_alloc n s = Some (0, slub_init s)"
    moreover have "slub_serves (slub_init s) L" unfolding L by (rule servesI [OF inv]) (use k L init_leaks in simp)
    ultimately show ?thesis by blast
  next
    assume "\<exists>r s' ys Q. slub_alloc n s = Some (r, s') \<and> r \<noteq> 0 \<and> slub_inv s' ys Q \<and> Q \<subseteq> P \<and>
      (r, osize c) \<notin> live (slub_init s) xs \<and> live s' ys = insert (r, osize c) (live (slub_init s) xs) \<and>
      (\<forall>x\<in>run (r, osize c). slub_mem s' x = 0) \<and> keeps_objects (live (slub_init s) xs) (slub_init s) s' \<and>
      total_allocated s' = total_allocated (slub_init s) + 1 \<and> total_freed s' = total_freed (slub_init s)"
    then obtain r s' ys Q where r: "slub_alloc n s = Some (r, s')" "r \<noteq> 0" and i: "slub_inv s' ys Q"
      and f: "(r, osize c) \<notin> L" and l: "live s' ys = insert (r, osize c) L"
      and t: "total_allocated s' = total_allocated (slub_init s) + 1" "total_freed s' = total_freed (slub_init s)"
      unfolding L by blast
    have "card (live s' ys) = card L + 1" unfolding l using f live_finite L by simp
    moreover have "potential_leaks s' = potential_leaks s + 1"
      using t init_leaks [of s] by (simp add: potential_leaks_def)
    ultimately have "slub_serves s' (insert (r, osize c) L)"
      unfolding l [symmetric] using k by (intro servesI [OF i]) simp
    moreover have "unat n \<le> osize c" using c by (simp add: class_ok_def)
    ultimately show ?thesis using r f by blast
  qed
qed

lemma slub_serves_free:
  assumes s: "slub_serves s L" and r: "(r, m) \<in> L"
  shows "\<exists>t. slub_free r s = Some t \<and> slub_serves t (L - {(r, m)})"
proof -
  have "slub_initialized s" using s r by (auto simp: slub_serves_def)
  then have id: "slub_init s = s" by (simp add: slub_init_def)
  obtain xs P where inv: "slub_inv s xs P" and L: "L = live s xs"
    and k: "of_nat (card L) = potential_leaks s" using s unfolding slub_serves_def id by blast
  have rl: "(r, m) \<in> live s xs" using r L by simp
  have "r \<in> run (r, m)" using rl by (rule liveE) (drule objs_of_self, simp)
  from slub_free_live [OF inv rl this] obtain t ys where t: "slub_free r s = Some t" "slub_inv t ys P"
    and l: "live t ys = L - {(r, m)}" and c: "total_freed t = total_freed s + 1" "total_allocated t = total_allocated s"
    unfolding L by blast
  have "card L = Suc (card (live t ys))" unfolding l using r live_finite L by (metis card_Suc_Diff1)
  moreover have "potential_leaks t = potential_leaks s - 1" using c by (simp add: potential_leaks_def)
  ultimately have "of_nat (card (live t ys)) = potential_leaks t" using k [symmetric] by simp
  then have "slub_serves t (L - {(r, m)})" unfolding l [symmetric] by (rule servesI [OF t(2)])
  then show ?thesis using t(1) by blast
qed

interpretation slub: object_allocator slub_serves "\<lambda>n. 0 < n \<and> n \<le> 128" slub_alloc slub_free
proof
  fix s and L :: "(addr \<times> nat) set" and r m :: nat and p q :: "addr \<times> nat" and n :: u64
  assume s: "slub_serves s L"
  show "0 < n \<and> n \<le> 128 \<Longrightarrow> \<exists>r t. slub_alloc n s = Some (r, t) \<and>
    (r = 0 \<and> slub_serves t L \<or> r \<noteq> 0 \<and> (\<exists>m\<ge>unat n. (r, m) \<notin> L \<and> slub_serves t (insert (r, m) L)))"
    using slub_serves_alloc [OF s] by blast
  show "(r, m) \<in> L \<Longrightarrow> \<exists>t. slub_free r s = Some t \<and> slub_serves t (L - {(r, m)})" by (rule slub_serves_free [OF s])
  obtain xs P where inv: "slub_inv (slub_init s) xs P" and L: "L = live (slub_init s) xs"
    using s unfolding slub_serves_def by blast
  show "(r, m) \<in> L \<Longrightarrow> 0 < m" unfolding L by (erule liveE, erule objs_ofE) simp
  show "p \<in> L \<Longrightarrow> q \<in> L \<Longrightarrow> p \<noteq> q \<Longrightarrow> run p \<inter> run q = {}" unfolding L by (rule live_disjoint [OF inv])
qed

section \<open>Properties\<close>

text \<open>
  C39: \<open>slub_alloc\<close> of 1 to 128 bytes takes the object from the first cache whose objects are long enough. It
  returns an object that was not in use, apart from all that are, and all zero; the bytes of the objects
  in use stay as they are. It returns \<^verbatim>\<open>NULL\<close> only when no page is free and every object of that cache is
  in use, and then changes nothing.
\<close>

theorem slub_alloc_fresh:
  assumes inv: "slub_inv (slub_init s) xs P" and n: "0 < sz" "sz \<le> 128"
  shows "\<exists>c. class_ok c sz \<and>
    (P = {} \<and> class_full (slub_init s) xs c \<and> slub_alloc sz s = Some (0, slub_init s) \<or>
     (\<exists>r s' ys Q. slub_alloc sz s = Some (r, s') \<and> slub_inv s' ys Q \<and> Q \<subseteq> P \<and>
       live s' ys = insert (r, osize c) (live (slub_init s) xs) \<and> r \<noteq> 0 \<and>
       (\<forall>q\<in>live (slub_init s) xs. run q \<inter> run (r, osize c) = {}) \<and> (\<forall>x\<in>run (r, osize c). slub_mem s' x = 0) \<and>
       keeps_objects (live (slub_init s) xs) (slub_init s) s'))"
proof -
  let ?L = "live (slub_init s) xs"
  obtain c where c: "class_ok c sz" using class_exists [OF n(2)] by blast
  have n0: "sz \<noteq> 0" using n(1) by auto
  have ap: "run q \<inter> run (r, osize c) = {}"
    if "slub_inv s' ys Q" "live s' ys = insert (r, osize c) ?L" "(r, osize c) \<notin> ?L" "q \<in> ?L" for s' ys Q r q
    using live_disjoint [OF that(1), of q "(r, osize c)"] that by auto
  from slub_alloc_class [OF inv c n0] show ?thesis
    by (elim disjE exE conjE) (intro exI [of _ c] conjI c disjI1, simp_all,
      intro exI [of _ c] conjI c disjI2 exI, use ap in auto)
qed

text \<open>
  C40: \<open>slub_free\<close> of an address in the page of a slab, whatever it is. If the address lies in an object that is in
  use, at its beginning or not, exactly this object is returned and nothing is written into an object.
  Otherwise, that is for an object that is already free, the header, the bitmap and the rest of the page, the kernel panics.
\<close>

theorem slub_free_exact:
  assumes inv: "slub_inv s xs P" and k: "k < 9" "a \<in> set (xs k)" and x: "x \<in> {a..<a + 4096}"
  shows "(\<exists>r\<in>live s xs. x \<in> run r \<and> (\<exists>s' ys. slub_free x s = Some s' \<and> slub_inv s' ys P \<and>
      live s' ys = live s xs - {r} \<and> keeps_objects (live s xs) s s')) \<or>
    (\<forall>r\<in>live s xs. x \<notin> run r) \<and> slub_free x s = None"
proof (cases "\<exists>r\<in>live s xs. x \<in> run r")
  case True
  then obtain r where r: "r \<in> live s xs" "x \<in> run r" by blast
  then show ?thesis using slub_free_live [OF inv r] by blast
next
  case False
  then show ?thesis using slub_free_panics [OF inv k x] by blast
qed

text \<open>
  C38: A client that allocates objects of 1 to 128 bytes and frees objects it holds, in any order and number, from
  the start of the allocator on: every call returns, the objects it holds do not overlap, and the number
  of leaks that \<open>slub_check\<close> prints is the number of objects it holds.
\<close>

theorem slub_calls_safe:
  assumes boot: "\<not> slub_initialized s" "0 < slub_caches s" "pool_ok s P" "total_allocated s = 0" "total_freed s = 0"
    and cs: "\<forall>n. Alloc n \<in> set cs \<longrightarrow> 0 < n \<and> n \<le> 128"
  shows "\<exists>hs t L. calls slub_alloc slub_free cs [] s = Some (hs, t) \<and> distinct hs \<and> fst ` L = set hs \<and>
    (\<forall>p\<in>L. 0 < snd p \<and> (\<forall>q\<in>L. p \<noteq> q \<longrightarrow> run p \<inter> run q = {})) \<and> potential_leaks t = of_nat (length hs)"
proof -
  have "slub_serves s {}"
    using slub_init_inv [OF boot(1-3)] boot(4,5) by (auto simp: slub_serves_def potential_leaks_def)
  then obtain hs t L where t: "calls slub_alloc slub_free cs [] s = Some (hs, t)" "slub_serves t L" "fst ` L = set hs" "distinct hs"
    using slub.calls_safe [of s "{}" "[]" cs] cs by auto
  have "card L = length hs" using card_image [OF slub.fst_inj [OF t(2)]] t(3,4) by (simp add: distinct_card)
  then have "potential_leaks t = of_nat (length hs)" using t(2) by (simp add: slub_serves_def)
  moreover have "\<forall>p\<in>L. 0 < snd p \<and> (\<forall>q\<in>L. p \<noteq> q \<longrightarrow> run p \<inter> run q = {})"
    using slub.nonempty [OF t(2)] slub.apart [OF t(2)] by (metis prod.collapse)
  ultimately show ?thesis using t by blast
qed

section \<open>Which sizes a slab has room for\<close>

text \<open>
  For every object size up to 4039 bytes the objects that \<open>calculate_objects_per_slab\<close> counts and their bitmap
  fit into the page behind the header; from 4040 bytes on the one object it promises does not.
\<close>

lemma no_divisor:
  assumes "0 < b" and "b < 23"
  shows "\<not> 8 * b + 1 dvd (32321 :: nat)"
proof -
  have "\<forall>d\<in>set [1..<23]. 32321 mod (8 * d + 1) \<noteq> (0 :: nat)" by (simp add: upt_rec)
  moreover have "b \<in> set [1..<23]" using assms by simp
  ultimately have "32321 mod (8 * b + 1) \<noteq> 0" by (rule bspec)
  then show ?thesis by (simp only: dvd_eq_mod_eq_0 simp_thms)
qed

lemma not_32321:
  assumes "0 < b" and "0 < n"
  shows "(8 * b + 1) * (8 * n + 1) \<noteq> (32321 :: nat)"
proof
  assume e: "(8 * b + 1) * (8 * n + 1) = 32321"
  have "8 * b + 1 dvd 32321" "8 * n + 1 dvd 32321"
    unfolding e [symmetric] by (rule dvd_triv_left, rule dvd_triv_right)
  then have "23 \<le> b" "23 \<le> n" using no_divisor assms by (meson not_le)+
  then have "(8 * 23 + 1) * (8 * 23 + 1) \<le> (8 * b + 1) * (8 * n + 1)" by (intro mult_le_mono) simp_all
  then show False using e by simp
qed

lemma layout_numbers:
  fixes n :: nat
  assumes n: "0 < n" "n \<le> 4039"
  defines "bits \<equiv> 32320 div (n * 8 + 1)"
  defines "b \<equiv> (bits + 7) div 8"
  shows "0 < b" and "b \<le> 449" and "n + b \<le> 4040" and "(4040 - b) div n \<le> 8 * b"
proof -
  have "bits * (n * 8 + 1) + 32320 mod (n * 8 + 1) = 32320" unfolding bits_def by (rule div_mult_mod_eq)
  moreover have "32320 mod (n * 8 + 1) < n * 8 + 1" by simp
  ultimately have lo: "bits * (n * 8 + 1) \<le> 32320" and "32320 < bits * (n * 8 + 1) + (n * 8 + 1)" by linarith+
  then have up: "32320 < (bits + 1) * (n * 8 + 1)" by (simp only: distrib_right mult_1)
  show b0: "0 < b"
  proof (rule ccontr)
    assume "\<not> 0 < b"
    then have "bits = 0" by (simp add: b_def)
    then show False using up n by simp
  qed
  have "bits * 9 \<le> bits * (n * 8 + 1)" using n by (intro mult_le_mono2) simp
  then have "bits \<le> 3591" using lo by linarith
  then show b1: "b \<le> 449" by (simp add: b_def)
  have b8: "bits \<le> 8 * b" "8 * b \<le> bits + 7" by (simp_all add: b_def)
  show "n + b \<le> 4040"
  proof (rule ccontr)
    assume no: "\<not> n + b \<le> 4040"
    then have "9 \<le> bits" using n b8 by linarith
    then have "9 * (n * 8 + 1) \<le> bits * (n * 8 + 1)" by (rule mult_le_mono1)
    then have "9 * (n * 8 + 1) \<le> 32320" using lo by (rule le_trans)
    then have "n \<le> 448" by simp
    then have "n + b \<le> 448 + 449" using b1 by (rule add_le_mono)
    then show False using no by simp
  qed
  show "(4040 - b) div n \<le> 8 * b"
  proof (rule ccontr)
    assume "\<not> (4040 - b) div n \<le> 8 * b"
    then have "(8 * b + 1) * n \<le> (4040 - b) div n * n" by (intro mult_le_mono1) simp
    then have "(8 * b + 1) * n \<le> 4040 - b" using div_times_less_eq_dividend [of "4040 - b" n] by linarith
    moreover have "b \<le> 4040" using b1 by (rule order.trans) simp
    ultimately have "(8 * b + 1) * n + b \<le> 4040" by (simp only: le_diff_conv2)
    then have "8 * ((8 * b + 1) * n + b) \<le> 8 * 4040" by (rule mult_le_mono2)
    then have "(8 * b + 1) * (8 * n + 1) \<le> 32321" by (simp add: algebra_simps)
    moreover have "(bits + 1) * (n * 8 + 1) \<le> (8 * b + 1) * (n * 8 + 1)" using b8(1) by (intro mult_le_mono1) simp
    then have "32320 < (8 * b + 1) * (8 * n + 1)" using up by (simp only: mult.commute [of n 8])
    ultimately show False using not_32321 [OF b0 n(1)] by linarith
  qed
qed

lemma objects_unat:
  assumes n: "0 < n" "n \<le> 4039"
  shows "unat (calculate_objects_per_slab (of_nat n)) = (4040 - (32320 div (n * 8 + 1) + 7) div 8) div n"
proof -
  let ?b = "(32320 div (n * 8 + 1) + 7) div 8"
  note N = layout_numbers [OF n]
  define wb where "wb = (32320 div (of_nat n * 8 + 1) :: u64)"
  let ?w = "(wb + 7) div 8"
  have un: "unat (of_nat n :: u64) = n" using n by (simp add: unat_of_nat)
  have "unat (of_nat n * 8 + 1 :: u64) = n * 8 + 1" using n un by (simp add: unat_word_ariths)
  then have wb: "unat wb = 32320 div (n * 8 + 1)" by (simp add: wb_def unat_div)
  have "unat wb \<le> 32320" unfolding wb by (rule div_le_dividend)
  then have "unat (wb + 7) = unat wb + 7" by (simp add: unat_word_ariths)
  then have w: "unat ?w = ?b" by (simp add: unat_div wb)
  then have "unat (4040 - ?w) = 4040 - ?b" using N(2) by (simp add: unat_sub_if')
  then have k: "unat ((4040 - ?w) div of_nat n) = (4040 - ?b) div n" using un by (simp add: unat_div)
  have "n div n \<le> (4040 - ?b) div n" using N(3) by (intro div_le_mono) linarith
  then have "0 < (4040 - ?b) div n" using n by simp
  then have "0 < (4040 - ?w) div of_nat n" using k by (simp add: word_less_nat_alt)
  then show ?thesis using k by (simp add: calculate_objects_per_slab_def SLAB_STRUCT_def wb_def)
qed

lemma layout_fits:
  assumes n: "0 < n" "n \<le> 4039"
  defines "k \<equiv> unat (calculate_objects_per_slab (of_nat n))"
  shows "0 < k" and "SLAB_STRUCT + k * n + (k + 7) div 8 \<le> 4096"
proof -
  let ?b = "(32320 div (n * 8 + 1) + 7) div 8"
  note N = layout_numbers [OF n]
  have k: "k = (4040 - ?b) div n" unfolding k_def by (rule objects_unat [OF n])
  have "n div n \<le> k" unfolding k using N(3) by (intro div_le_mono) linarith
  then show "0 < k" using n by simp
  have "k * n \<le> 4040 - ?b" unfolding k by (rule div_times_less_eq_dividend)
  moreover have "(k + 7) div 8 \<le> ?b" using N(4) unfolding k by linarith
  ultimately show "SLAB_STRUCT + k * n + (k + 7) div 8 \<le> 4096" using N(2) by (simp add: SLAB_STRUCT_def)
qed

lemma layout_too_long: "calculate_objects_per_slab 4040 = 1" "SLAB_STRUCT + 1 * 4040 + (1 + 7) div 8 = 4097"
  by (simp_all add: calculate_objects_per_slab_def SLAB_STRUCT_def)

section \<open>Requests near the largest \<^verbatim>\<open>size_t\<close>\<close>

text \<open>
  Rounding such a request up to pages wraps around to none, and the page allocator panics instead of
  refusing.
\<close>

lemma slub_alloc_wraps:
  assumes c: "caches_ok (slub_init s)" and sz: "0xFFFFFFFFFFFFF001 \<le> sz"
  shows "slub_alloc sz s = None"
proof -
  have u: "18446744073709547521 \<le> unat sz" using sz by (simp add: word_le_nat_alt)
  have "sz \<noteq> 0" using sz by auto
  have "\<not> sz \<le> object_size (caches (slub_init s) (cache_at (slub_init s) d))" if "d < 3" for d
    using cachesD(1) [OF c that] unat_class(1) [OF that] u that
    by (simp add: word_le_nat_alt) (auto simp: osize_def less_3)
  then have no: "cache_for sz (slub_init s) = None"
    by (auto simp: cache_for_def find_None_iff layout)
  have "unat sz < 18446744073709551616" using unsigned_less [of sz] by simp
  moreover obtain d where d: "unat sz = 18446744073709547521 + d" using u by (auto dest: le_Suc_ex)
  ultimately have "d < 4095" by simp
  then have "unat (4095 + sz) < 4096" by (simp add: unat_word_ariths d)
  then have "unat ((4095 + sz) div 4096) = 0" by (simp add: unat_div)
  then have "pmm_alloc_pages (unat ((4095 + sz) div 4096)) p = None" for p
    by (simp add: pmm_alloc_pages_def best_fit_alloc_pages_def)
  then show ?thesis using \<open>sz \<noteq> 0\<close> no
    by (simp add: slub_alloc_def Let_def flip: slub_init_once)
qed

section \<open>Witnesses\<close>

definition demo_slub :: "free_area \<Rightarrow> slub" where
  "demo_slub t = \<lparr>slabs = (\<lambda>_. \<lparr>objects = 0, slab_bitmap = 0, free_objects = 0, total_objects = 0, slab_cache = 0\<rparr>),
     caches = (\<lambda>_. \<lparr>object_size = 0, objects_per_slab = 0\<rparr>), slub_links = \<lparr>nxt = id, prv = id\<rparr>, slub_mem = (\<lambda>_. 7),
     slub_caches = 0xFFFFFFFFC0211000, slub_initialized = False, total_allocated = 0, total_freed = 0,
     slub_phys = \<lparr>area = t, words = (\<lambda>_. 0), npage = 0x90000\<rparr>\<rparr>"

definition demo_frames :: free_area where
  "demo_frames = demo_pages\<lparr>pages := (\<lambda>p. \<lparr>page_ref = 0, page_flags = 1, property = 0\<rparr>)\<rparr>"

lemma demo_pool: "\<exists>t. best_fit_init_memmap 600 2 (best_fit_init demo_frames) = Some t \<and> pool_ok (demo_slub t) {600..<602}"
proof -
  have "\<forall>p\<in>{600..<600 + 2}. PageReserved p demo_frames"
    by (simp add: PageReserved_def demo_frames_def PG_reserved_def atomic_test_bit_def)
  moreover have "free_list demo_frames \<notin> {600..<600 + 2}" by (simp add: demo_frames_def demo_pages_def)
  ultimately obtain t where t: "default_init_memmap 600 2 (default_init demo_frames) = Some t" "free_inv t [600] {600..<602}"
    using default_init_memmap_spec [of 2 600 demo_frames] by auto
  have "free_pages t {600..<602}" using t(2) by (auto simp: free_pages_def)
  then have "pool_ok (demo_slub t) {600..<602}"
    by (auto simp: pool_ok_def demo_slub_def managed_def page_addr_def ring_head_def cache_at_def layout)
  then show ?thesis using t(1) by (auto simp: best_fit_same)
qed

lemma demo_boot: "\<exists>t. pool_ok (demo_slub t) {600..<602} \<and> slub_inv (slub_init (demo_slub t)) (\<lambda>_. []) {600..<602}"
proof -
  obtain t where t: "pool_ok (demo_slub t) {600..<602}" using demo_pool by blast
  have "slub_inv (slub_init (demo_slub t)) (\<lambda>_. []) {600..<602}"
    by (rule slub_init_inv) (use t in \<open>simp_all add: demo_slub_def\<close>)
  then show ?thesis using t by blast
qed

theorem slub_alloc_fresh_witness:
  "\<exists>s r s' c. slub_alloc 100 s = Some (r, s') \<and> r \<noteq> 0 \<and> class_ok c 100 \<and> (\<forall>x\<in>run (r, osize c). slub_mem s' x = 0)"
proof -
  obtain t where t: "slub_inv (slub_init (demo_slub t)) (\<lambda>_. []) {600..<602}" using demo_boot by blast
  have "\<not> ({600..<602} = ({} :: nat set))" by simp
  with slub_alloc_fresh [OF t, of 100] show ?thesis by (simp only: simp_thms) fastforce
qed

lemma demo_one: "\<exists>s xs P r. slub_inv s xs P \<and> r \<in> live s xs"
proof -
  obtain t where t: "slub_inv (slub_init (demo_slub t)) (\<lambda>_. []) {600..<602}" using demo_boot by blast
  obtain c where "class_ok c 100" using class_exists [of 100] by auto
  from slub_alloc_class [OF t this] show ?thesis by fastforce
qed

theorem slub_free_exact_witness:
  "\<exists>s xs P x s' ys. slub_inv s xs P \<and> live s xs \<noteq> {} \<and> slub_free x s = Some s' \<and> slub_inv s' ys P"
proof -
  obtain s xs P r where s: "slub_inv s xs P" "r \<in> live s xs" using demo_one by blast
  from s(2) obtain k a where k: "k < 9" "a \<in> set (xs k)" "r \<in> objs_of s (k div 3) a" "k div 3 < 3" by (rule liveE)
  have x: "fst r \<in> run r" by (rule objs_of_self [OF k(3)])
  then have "fst r \<in> {a..<a + 4096}" using objs_of_page [OF k(4,3)] by blast
  from slub_free_exact [OF s(1) k(1,2) this]
  obtain s' ys where f: "slub_free (fst r) s = Some s'" "slub_inv s' ys P"
  proof (elim disjE bexE exE conjE)
    assume "\<forall>q\<in>live s xs. fst r \<notin> run q"
    then have "fst r \<notin> run r" using s(2) by (rule bspec)
    with x show thesis by contradiction
  qed
  have "live s xs \<noteq> {}" using s(2) by auto
  with s(1) f show ?thesis by (intro exI conjI)
qed

theorem slub_calls_safe_witness:
  "\<exists>s hs t. calls slub_alloc slub_free [Alloc 100, Alloc 1, Free 0, Alloc 100, Free 5] [] s = Some (hs, t) \<and>
    distinct hs \<and> potential_leaks t = of_nat (length hs)"
proof -
  obtain t where t: "pool_ok (demo_slub t) {600..<602}" using demo_boot by blast
  have "\<forall>n. Alloc n \<in> set [Alloc 100, Alloc 1, Free 0, Alloc 100, Free 5] \<longrightarrow> 0 < n \<and> n \<le> (128 :: u64)" by auto
  from slub_calls_safe [OF _ _ t _ _ this] show ?thesis by (auto simp: demo_slub_def)
qed

end
