(* ===== verification/Spec2Isabelle.thy ===== *)
theory Spec2Isabelle
  imports Prelude DList CString SkewHeap Proc SchedClasses Stride Sched Timers WaitQueue
    Bitmap FsState BlockDev Devices SfsIo SfsInode SfsFile SfsGrow SfsWrite SfsContent SfsDir SfsFs Vfs FileTable OpenFiles
    SfsMeta SfsSearch FreePages Paging Vmm VmArea ProcTree ProcLife ProcSpec
    Printfmt Console Sysfile Exec Syscall TrapSpec
    Slob SlobSpec Philosophers Buddy Monitor PageTable Terminal
    ListRings Slub SlubSpec SlubCalls
begin

text \<open>
  A model of the teaching kernel ucore for RISC-V, as it stands at the end of the course in
  \<^verbatim>\<open>src/lab8\<close>; the earlier laboratories hold earlier copies of the same files, and of them only the
  parts that lab 8 no longer has are modelled: the FIFO and shortest-job-first schedulers
  (\<^verbatim>\<open>lab6/kern/schedule\<close>) and the best-fit and buddy page allocators
  and the SLUB object allocator (\<^verbatim>\<open>lab2/kern/mm\<close>).

  The program. Processes are scheduled by a scheduling class and sleep on wait queues and timers.
  Each has an address space (a list of areas and a page table over physical pages), a kernel
  stack, and a table of open files. A file is an entry of that table that points to a node of the
  virtual file system; a node is a device or an inode of the simple file system (SFS), which
  keeps its blocks on a disk, here a RAM disk reached through the block device \<^verbatim>\<open>disk0\<close>.

  How code is translated. A function is a definition of the same name; its state is a record passed
  explicitly. A result \<^term>\<open>None\<close> of a function with a result type \<open>option\<close> is a panic (a failed
  \<^verbatim>\<open>assert\<close>, a call through an operation that is missing) or a \<^verbatim>\<open>down\<close> that would block; error codes
  are the negative integers of \<^verbatim>\<open>libs/error.h\<close>. Machine words keep their width. Pointers are
  natural numbers with \<^verbatim>\<open>NULL\<close> 0; lists threaded through structures are pointer stores in the run
  queue, the timers, the wait queues and the page allocator, where unlinking and self-linked
  entries matter, and lists of addresses elsewhere. \<^verbatim>\<open>kmalloc\<close> takes the next of a list of
  addresses given with the state, and returns 0 when the list is empty or the address is 0, so
  every failure of an allocation is a branch. Code between \<^verbatim>\<open>local_intr_save\<close> and
  \<^verbatim>\<open>local_intr_restore\<close> is one step. A function that gives up the processor is cut at the call of
  \<^verbatim>\<open>schedule\<close>: the first part ends in the state in which the next process runs, and a second
  definition continues when the process runs again.

  The theories, in the order of the code.

  \<^item> \<open>Prelude\<close>: machine types, error codes, rounding, \<open>ensure\<close> (assert), list lemmas.
  \<^item> \<open>DList\<close>, \<open>SkewHeap\<close>, \<open>CString\<close>: \<^verbatim>\<open>libs/list.h\<close>, \<^verbatim>\<open>libs/skew_heap.h\<close>, \<^verbatim>\<open>libs/string.c\<close>. A ring of
    pointers represents a list (\<open>clist\<close>), a heap of pointers a tree (\<open>heap_at\<close>); the operations are
    shown to act on the list and the tree.
  \<^item> \<open>Proc\<close>, \<open>SchedClasses\<close>, \<open>Stride\<close>, \<open>Sched\<close>, \<open>Timers\<close>: processes, the scheduling classes, the core
    scheduler and the timers. The contract of a class is the locale \<open>sched_policy\<close>, in which
    \<^verbatim>\<open>schedule\<close> and \<^verbatim>\<open>wakeup_proc\<close> are shown to keep the run queue equal to the set of runnable
    processes; it is interpreted for all classes.
  \<^item> \<open>WaitQueue\<close>: wait queues and semaphores, which implement a counting semaphore with a FIFO.
  \<^item> \<open>Bitmap\<close>, \<open>FsState\<close>, \<open>BlockDev\<close>, \<open>Devices\<close>: the free map, the state of the file system stack, I/O
    buffers, RAM disk and \<^verbatim>\<open>disk0\<close>, keyboard and console devices.
  \<^item> \<open>SfsIo\<close>, \<open>SfsInode\<close>, \<open>SfsFile\<close>, \<open>SfsDir\<close>, \<open>SfsFs\<close>: SFS block access, inodes and block maps, reading and
    writing, directories and the life of nodes, mounting. \<open>SfsGrow\<close>, \<open>SfsWrite\<close>, \<open>SfsContent\<close>, \<open>SfsMeta\<close> and
    \<open>SfsSearch\<close> hold the proofs: an SFS file refines a list of bytes, blocks are neither lost nor
    used twice, inodes survive writing and loading, search is \<^const>\<open>List.find\<close> on the entries.
  \<^item> \<open>Vfs\<close>, \<open>FileTable\<close>, \<open>OpenFiles\<close>: paths, named devices, mount table; descriptors and their files.
  \<^item> \<open>FreePages\<close>: first fit and best fit as interpretations of the locale \<open>page_allocator\<close>, which extends
    \<open>run_allocator\<close> (runs handed out are disjoint); \<open>Buddy\<close> interprets the latter for \<^verbatim>\<open>buddy_pmm.c\<close>. The
    locale \<open>page_manager\<close> adds releases: over any sequence of requests and orderly releases no page is lost or
    handed out twice. A release behind the last free block is not orderly, because it damages the list.
    \<open>ListRings\<close>: several rings in one store.
  \<^item> \<open>Paging\<close>, \<open>PageTable\<close>: page tables, as words of physical pages; their tables are shown to stay typed by
    level, and insertion and removal to update the translation of addresses as a map.
  \<^item> \<open>Vmm\<close>, \<open>VmArea\<close>: address spaces; areas are a partial map from addresses.
  \<^item> \<open>Printfmt\<close>, \<open>Console\<close>, \<open>Terminal\<close>: formatted output, character by character over the memory it
    changes and as the text of a format, the ring of the console, and the lines and commands that the kernel
    monitor reads from it.
  \<^item> \<open>Slob\<close>, \<open>SlobSpec\<close>: the kernel heap \<^verbatim>\<open>kmalloc.c\<close>. Its ring of free blocks is the circular order of a
    set of addresses; blocks in use, the ring and the free pages are shown to stay apart.
  \<^item> \<open>Slub\<close>, \<open>SlubSpec\<close>, \<open>SlubCalls\<close>: the object allocator \<^verbatim>\<open>slub_pmm.c\<close> of lab 2. The objects in use are read off
    the bitmaps of the slabs; its clients see the locale \<open>object_allocator\<close>, in which any sequence of calls is
    shown to return and to keep the objects apart.
  \<^item> \<open>Philosophers\<close>, \<open>Monitor\<close>: the threads of \<^verbatim>\<open>check_sync.c\<close> over semaphores, and over the monitor with
    condition variables of \<^verbatim>\<open>monitor.c\<close>, as step relations, with exclusion and the end of every run. A
    step goes from one \<^verbatim>\<open>down\<close> to the next: in the kernel, only these give up the processor.
  \<^item> \<open>ProcTree\<close>, \<open>ProcLife\<close>, \<open>ProcSpec\<close>: the tables of processes, their creation, end and collection over
    the state of the whole kernel, and what these do to tables and run queue.
  \<^item> \<open>Sysfile\<close>, \<open>Exec\<close>, \<open>Syscall\<close>, \<open>TrapSpec\<close>: the file calls on user memory, the execution of programs, the
    dispatch of calls, interrupts and exceptions, and the way back to user mode.

  Loops. A loop over a list is recursion on it. A loop over pointers, or one whose end depends on
  the state, is a \<open>partial_function\<close> in the option type, so that not ending is \<^term>\<open>None\<close>; the theorems
  state that the result exists (\<open>get_pid_unique\<close> for the search with \<^verbatim>\<open>goto\<close>, \<open>adopt_loop_spec\<close>, the
  loops of timers, skew heaps, allocators and files). No fuel is used.

  Not modelled. Machine-dependent and boot code: the entry and exit of traps in assembly, the
  context switch (it is the assignment to \<^verbatim>\<open>current\<close>; what user addresses show is set when a
  program is loaded and not switched with the process), device tree, the registers of interrupt controller
  and clock, the look-aside buffer. Debugging: \<^verbatim>\<open>kdebug.c\<close>, \<^verbatim>\<open>panic.c\<close>, what the
  commands of the kernel monitor print, and the self-checks run at boot. User programs and the host tools \<^verbatim>\<open>mksfs.c\<close> and \<^verbatim>\<open>sign.c\<close>. Interleavings inside
  a function that does not call \<^verbatim>\<open>schedule\<close> and holds a semaphore: a \<^verbatim>\<open>down\<close> that would block ends
  the run of the model.
\<close>

end
